(* ===== verification/Prelude.thy ===== *)
theory Prelude
  imports Main "HOL-Library.Word"
begin

text \<open>
  Shared vocabulary of the development: Python exceptions as values, the two result
  monads (with and without a state), big-endian byte strings, and the functions of the
  Python standard library that several modules use (\<open>struct\<close>, \<open>bisect\<close>,
  seek-and-write on a binary file).

  An exception is a value of \<open>exn\<close>; messages are left out. \<open>OutOfFuel\<close> is not an
  exception of the code: it marks a loop or a recursion that was cut off, and every
  theorem that a routine returns shows that it does not occur.
\<close>

named_theorems res_simps \<open>evaluation of the two result monads\<close>

type_synonym byte = "8 word"
type_synonym bytes = "8 word list"

text \<open>A Python \<open>str\<close> held in a column is a list of code points.\<close>

type_synonym ustr = "int list"

datatype exn =
    ValueError | TypeError | IndexError | KeyError | AttributeError | NameError | StructError
  | OverflowError | UnicodeError | RuntimeError | AssertionError
  | DuplicateKey int
  | SQLError | ExecutionError | CompileError | CatalogError | TransactionError | ParseError
  | OutOfFuel

section \<open>Results without state\<close>

type_synonym 'a res = "exn + 'a"

definition bindE :: "'a res \<Rightarrow> ('a \<Rightarrow> 'b res) \<Rightarrow> 'b res" where
  "bindE r f = (case r of Inl e \<Rightarrow> Inl e | Inr x \<Rightarrow> f x)"

lemma bindE_simps [simp, res_simps]:
  "bindE (Inl e) f = Inl e"
  "bindE (Inr x) f = f x"
  by (simp_all add: bindE_def)

lemma bindE_eq_Inr [simp]: "bindE r f = Inr y \<longleftrightarrow> (\<exists>x. r = Inr x \<and> f x = Inr y)"
  by (cases r) auto

lemma bindE_cong [fundef_cong]:
  "r = r' \<Longrightarrow> (\<And>x. r' = Inr x \<Longrightarrow> f x = g x) \<Longrightarrow> bindE r f = bindE r' g"
  by (cases r') auto

fun mapE :: "('a \<Rightarrow> 'b res) \<Rightarrow> 'a list \<Rightarrow> 'b list res" where
  "mapE f [] = Inr []"
| "mapE f (x # xs) = bindE (f x) (\<lambda>y. bindE (mapE f xs) (\<lambda>ys. Inr (y # ys)))"

text \<open>\<open>xs[i]\<close> for a non-negative index.\<close>

definition nth_err :: "'a list \<Rightarrow> nat \<Rightarrow> 'a res" where
  "nth_err xs i = (if i < length xs then Inr (xs ! i) else Inl IndexError)"

lemma mapE_length: "mapE f xs = Inr ys \<Longrightarrow> length ys = length xs"
  by (induction xs arbitrary: ys) auto

lemma mapE_Inr: "(\<And>x. x \<in> set xs \<Longrightarrow> f x = Inr (g x)) \<Longrightarrow> mapE f xs = Inr (map g xs)"
  by (induction xs) auto

section \<open>Results with a state: Python's exceptions keep the effects made so far\<close>

type_synonym ('s, 'a) prog = "'s \<Rightarrow> 'a res \<times> 's"

definition ret :: "'a \<Rightarrow> ('s, 'a) prog" where
  "ret x = (\<lambda>s. (Inr x, s))"

definition raise :: "exn \<Rightarrow> ('s, 'a) prog" where
  "raise e = (\<lambda>s. (Inl e, s))"

definition bindP :: "('s, 'a) prog \<Rightarrow> ('a \<Rightarrow> ('s, 'b) prog) \<Rightarrow> ('s, 'b) prog" where
  "bindP m f = (\<lambda>s. case m s of (Inl e, t) \<Rightarrow> (Inl e, t) | (Inr x, t) \<Rightarrow> f x t)"

definition liftE :: "'a res \<Rightarrow> ('s, 'a) prog" where
  "liftE r = (\<lambda>s. (r, s))"

lemma ret_app [simp, res_simps]: "ret x s = (Inr x, s)"
  by (simp add: ret_def)

lemma raise_app [simp, res_simps]: "raise e s = (Inl e, s)"
  by (simp add: raise_def)

lemma liftE_app [simp, res_simps]: "liftE r s = (r, s)"
  by (simp add: liftE_def)

lemma bindP_app [res_simps]:
  "bindP m f s = (case m s of (Inl e, t) \<Rightarrow> (Inl e, t) | (Inr x, t) \<Rightarrow> f x t)"
  by (simp add: bindP_def)

lemma bindP_Inr [simp]: "m s = (Inr x, t) \<Longrightarrow> bindP m f s = f x t"
  by (simp add: bindP_def)

lemma bindP_Inl [simp]: "m s = (Inl e, t) \<Longrightarrow> bindP m f s = (Inl e, t)"
  by (simp add: bindP_def)

lemma bindP_InrE:
  assumes "bindP m f s = (Inr y, u)"
  obtains x t where "m s = (Inr x, t)" and "f x t = (Inr y, u)"
  using assms by (auto simp: bindP_def split: prod.splits sum.splits)

section \<open>Big-endian byte strings\<close>

fun be_bytes :: "nat \<Rightarrow> int \<Rightarrow> bytes" where
  "be_bytes 0 n = []"
| "be_bytes (Suc k) n = be_bytes k (n div 256) @ [word_of_int n]"

definition be_int :: "bytes \<Rightarrow> int" where
  "be_int bs = foldl (\<lambda>a b. a * 256 + uint b) 0 bs"

lemma length_be_bytes [simp]: "length (be_bytes k n) = k"
  by (induction k arbitrary: n) auto

lemma be_int_append1 [simp]: "be_int (bs @ [b]) = be_int bs * 256 + uint b"
  by (simp add: be_int_def)

lemma be_int_Nil [simp]: "be_int [] = 0"
  by (simp add: be_int_def)

lemma be_int_be_bytes: "be_int (be_bytes k n) = n mod 256 ^ k"
proof (induction k arbitrary: n)
  case 0
  then show ?case by simp
next
  case (Suc k)
  have "n mod (256 * 256 ^ k) = 256 * (n div 256 mod 256 ^ k) + n mod 256"
    by (rule zmod_zmult2_eq) simp
  then show ?case
    using Suc by (simp add: uint_word_of_int)
qed

lemma be_int_nonneg: "0 \<le> be_int bs"
  by (induction bs rule: rev_induct) auto

lemma be_int_bound: "be_int bs < 256 ^ length bs"
proof (induction bs rule: rev_induct)
  case Nil
  then show ?case by simp
next
  case (snoc b bs)
  have "uint b < 256" using uint_lt2p [of b] by simp
  with snoc show ?case by simp
qed

section \<open>The struct module: big-endian formats H, I (unsigned), q (signed) and raw fields\<close>

definition pack_u :: "nat \<Rightarrow> int \<Rightarrow> bytes res" where
  "pack_u k n = (if 0 \<le> n \<and> n < 256 ^ k then Inr (be_bytes k n) else Inl StructError)"

definition unpack_u :: "nat \<Rightarrow> bytes \<Rightarrow> nat \<Rightarrow> int res" where
  "unpack_u k buf off =
     (if off + k \<le> length buf then Inr (be_int (take k (drop off buf))) else Inl StructError)"

definition int64 :: "int \<Rightarrow> bool" where
  "int64 v \<longleftrightarrow> - (2 ^ 63) \<le> v \<and> v < 2 ^ 63"

definition pack_q :: "int \<Rightarrow> bytes res" where
  "pack_q v = (if int64 v then Inr (be_bytes 8 v) else Inl StructError)"

definition unpack_q :: "bytes \<Rightarrow> nat \<Rightarrow> int res" where
  "unpack_q buf off =
     bindE (unpack_u 8 buf off) (\<lambda>n. Inr (if n < 2 ^ 63 then n else n - 2 ^ 64))"

lemma length_pack_u: "pack_u k n = Inr bs \<Longrightarrow> length bs = k"
  by (auto simp: pack_u_def split: if_splits)

lemma length_pack_q: "pack_q v = Inr bs \<Longrightarrow> length bs = 8"
  by (auto simp: pack_q_def split: if_splits)

lemma pack_u_Inr: "0 \<le> n \<Longrightarrow> n < 256 ^ k \<Longrightarrow> pack_u k n = Inr (be_bytes k n)"
  by (simp add: pack_u_def)

lemma pack_q_Inr: "int64 v \<Longrightarrow> pack_q v = Inr (be_bytes 8 v)"
  by (simp add: pack_q_def)

lemma unpack_u_at: "unpack_u (length bs) (pre @ bs @ post) (length pre) = Inr (be_int bs)"
  by (simp add: unpack_u_def)

lemma unpack_pack_u:
  assumes "pack_u k n = Inr bs" and "off = length pre"
  shows "unpack_u k (pre @ bs @ post) off = Inr n"
  using assms by (auto simp: pack_u_def unpack_u_def be_int_be_bytes split: if_splits)

lemma unpack_pack_q:
  assumes "pack_q v = Inr bs" and "off = length pre"
  shows "unpack_q (pre @ bs @ post) off = Inr v"
proof -
  have v: "- (2 ^ 63) \<le> v" "v < 2 ^ 63" and bs: "bs = be_bytes 8 v"
    using assms by (auto simp: pack_q_def int64_def split: if_splits)
  have m: "v mod 2 ^ 64 = (if 0 \<le> v then v else v + 2 ^ 64)"
  proof (cases "0 \<le> v")
    case True
    then show ?thesis using v by simp
  next
    case False
    have "v mod 2 ^ 64 = (v + 2 ^ 64) mod 2 ^ 64" by simp
    also have "\<dots> = v + 2 ^ 64" using v False by (intro mod_pos_pos_trivial) auto
    finally show ?thesis using False by simp
  qed
  have "be_int (be_bytes 8 v) = v mod 2 ^ 64"
    by (simp add: be_int_be_bytes)
  then show ?thesis
    using v m assms(2) by (auto simp: unpack_q_def unpack_u_def bs)
qed

section \<open>The bisect module\<close>

text \<open>
  \<open>bisect_left(a, x)\<close> and \<open>bisect_right(a, x)\<close> are the binary searches of the
  standard library, with their loop over \<open>lo < hi\<close> written out, so that they also say
  what happens on a list that is not sorted.
\<close>

function bisect_loop :: "(int \<Rightarrow> bool) \<Rightarrow> int list \<Rightarrow> nat \<Rightarrow> nat \<Rightarrow> nat" where
  "bisect_loop go_right a lo hi =
     (if lo < hi then
        (let mid = (lo + hi) div 2 in
         if go_right (a ! mid) then bisect_loop go_right a (mid + 1) hi
         else bisect_loop go_right a lo mid)
      else lo)"
  by pat_completeness auto
termination
  by (relation "measure (\<lambda>(g, a, lo, hi). hi - lo)") auto

declare bisect_loop.simps [simp del]

definition bisect_left :: "int list \<Rightarrow> int \<Rightarrow> nat" where
  "bisect_left a x = bisect_loop (\<lambda>y. y < x) a 0 (length a)"

definition bisect_right :: "int list \<Rightarrow> int \<Rightarrow> nat" where
  "bisect_right a x = bisect_loop (\<lambda>y. \<not> x < y) a 0 (length a)"

lemma bisect_loop_bounds:
  "lo \<le> hi \<Longrightarrow> lo \<le> bisect_loop g a lo hi \<and> bisect_loop g a lo hi \<le> hi"
proof (induction g a lo hi rule: bisect_loop.induct)
  case (1 g a lo hi)
  show ?case
  proof (cases "lo < hi")
    case True
    define mid where "mid = (lo + hi) div 2"
    have mid: "lo \<le> mid" "mid < hi" using True by (auto simp: mid_def)
    show ?thesis
      using 1(1)[OF True mid_def] 1(2)[OF True mid_def] mid True
      by (subst bisect_loop.simps, subst (2) bisect_loop.simps) (auto simp: Let_def mid_def)
  qed (use 1 in \<open>subst bisect_loop.simps, subst (2) bisect_loop.simps, simp\<close>)
qed

text \<open>
  On a list that is split by a downward closed predicate, the loop finds the split point.
\<close>

lemma bisect_loop_split:
  assumes "\<And>i j. i \<le> j \<Longrightarrow> j < length a \<Longrightarrow> g (a ! j) \<Longrightarrow> g (a ! i)"
    and "lo \<le> hi" and "hi \<le> length a"
    and "\<And>i. i < lo \<Longrightarrow> g (a ! i)"
    and "\<And>i. hi \<le> i \<Longrightarrow> i < length a \<Longrightarrow> \<not> g (a ! i)"
  shows "(\<forall>i < bisect_loop g a lo hi. g (a ! i)) \<and>
         (\<forall>i. bisect_loop g a lo hi \<le> i \<and> i < length a \<longrightarrow> \<not> g (a ! i))"
  using assms
proof (induction g a lo hi rule: bisect_loop.induct)
  case (1 g a lo hi)
  show ?case
  proof (cases "lo < hi")
    case True
    define mid where "mid = (lo + hi) div 2"
    have mid: "lo \<le> mid" "mid < hi" "mid < length a"
      using True 1(5) by (auto simp: mid_def)
    have unf: "bisect_loop g a lo hi =
        (if g (a ! mid) then bisect_loop g a (mid + 1) hi else bisect_loop g a lo mid)"
      using True by (subst bisect_loop.simps) (simp add: mid_def Let_def)
    show ?thesis
    proof (cases "g (a ! mid)")
      case T: True
      have below: "\<And>i. i < mid + 1 \<Longrightarrow> g (a ! i)"
        using 1(3) T mid(3) by (metis Suc_eq_plus1 less_Suc_eq_le)
      have le: "mid + 1 \<le> hi" using mid by simp
      show ?thesis
        using 1(1)[OF True mid_def T 1(3) le 1(5) below 1(7)] T unf by simp
    next
      case F: False
      have above: "\<And>i. mid \<le> i \<Longrightarrow> i < length a \<Longrightarrow> \<not> g (a ! i)"
        using 1(3) F by blast
      have le: "mid \<le> length a" using mid by simp
      show ?thesis
        using 1(2)[OF True mid_def F 1(3) mid(1) le 1(6) above] F unf by simp
    qed
  next
    case False
    then have "bisect_loop g a lo hi = lo" by (subst bisect_loop.simps) simp
    then show ?thesis using 1(6,7) False 1(4) by (metis le_antisym not_less)
  qed
qed

lemma takeWhile_length_unique:
  assumes "i \<le> length a" and "\<forall>j < i. P (a ! j)" and "i < length a \<longrightarrow> \<not> P (a ! i)"
  shows "i = length (takeWhile P a)"
  using assms
proof (induction a arbitrary: i)
  case Nil
  then show ?case by simp
next
  case (Cons x a)
  show ?case
  proof (cases i)
    case 0
    then show ?thesis using Cons.prems by auto
  next
    case (Suc k)
    have "k = length (takeWhile P a)"
      using Cons.prems Suc by (intro Cons.IH) auto
    moreover have "P x" using Cons.prems(2) Suc by auto
    ultimately show ?thesis using Suc by simp
  qed
qed

lemma bisect_left_sorted:
  assumes "sorted a"
  shows "bisect_left a x = length (takeWhile (\<lambda>y. y < x) a)"
proof -
  have "(\<forall>i < bisect_left a x. a ! i < x) \<and>
        (\<forall>i. bisect_left a x \<le> i \<and> i < length a \<longrightarrow> \<not> a ! i < x)"
    unfolding bisect_left_def
    by (rule bisect_loop_split) (auto dest: sorted_nth_mono[OF assms])
  moreover have "bisect_left a x \<le> length a"
    using bisect_loop_bounds[of 0 "length a"] by (simp add: bisect_left_def)
  ultimately show ?thesis by (intro takeWhile_length_unique) auto
qed

lemma bisect_right_sorted:
  assumes "sorted a"
  shows "bisect_right a x = length (takeWhile (\<lambda>y. y \<le> x) a)"
proof -
  have "(\<forall>i < bisect_right a x. \<not> x < a ! i) \<and>
        (\<forall>i. bisect_right a x \<le> i \<and> i < length a \<longrightarrow> \<not> \<not> x < a ! i)"
    unfolding bisect_right_def
    by (rule bisect_loop_split) (auto dest: sorted_nth_mono[OF assms])
  moreover have "bisect_right a x \<le> length a"
    using bisect_loop_bounds[of 0 "length a"] by (simp add: bisect_right_def)
  ultimately show ?thesis by (intro takeWhile_length_unique) auto
qed

end
