(* ===== verification/Floats.thy ===== *)
theory Floats
  imports Prelude
begin

text \<open>
  Python's \<open>float\<close>: IEEE 754 binary64 as its 64-bit pattern, which is also what
  \<open>struct.pack(">d", v)\<close> stores. The executor uses \<open>+\<close>, \<open>-\<close>, \<open>*\<close>, true
  division, unary minus, comparisons (exact between \<open>int\<close> and \<open>float\<close>),
  \<open>float(n)\<close>, \<open>int(x)\<close> and \<open>is_integer\<close>; each is written out on integers, with one
  correctly rounded conversion \<open>dbl_round\<close> from a quotient scaled by a power of two
  (round to nearest, ties to even).
\<close>

type_synonym double = "64 word"

datatype fclass = FNan | FInf bool | FFin bool int int
  \<comment> \<open>\<open>FFin neg m e\<close> stands for \<open>m * 2 ^ e\<close>, negated when \<open>neg\<close>\<close>

definition fclass :: "double \<Rightarrow> fclass" where
  "fclass w =
     (let u = uint w; neg = (2 ^ 63 \<le> u); b = (u div 2 ^ 52) mod 2048; f = u mod 2 ^ 52 in
      if b = 2047 then (if f = 0 then FInf neg else FNan)
      else if b = 0 then FFin neg f (- 1074)
      else FFin neg (f + 2 ^ 52) (b - 1075))"

definition dbl_nan :: double where
  "dbl_nan = 0x7FF8000000000000"

definition dbl_inf :: "bool \<Rightarrow> double" where
  "dbl_inf neg = (if neg then 0xFFF0000000000000 else 0x7FF0000000000000)"

definition dbl_zero :: "bool \<Rightarrow> double" where
  "dbl_zero neg = (if neg then 0x8000000000000000 else 0)"

text \<open>The number of binary digits of a positive integer.\<close>

function int_bits :: "int \<Rightarrow> int" where
  "int_bits n = (if n \<le> 0 then 0 else 1 + int_bits (n div 2))"
  by pat_completeness auto
termination
  by (relation "measure nat") auto

declare int_bits.simps [simp del]

text \<open>The double nearest to \<open>n / d * 2 ^ e\<close> (negated when \<open>neg\<close>), for \<open>d > 0\<close>.\<close>

definition scale2 :: "int \<Rightarrow> int \<Rightarrow> int" where
  "scale2 n e = (if 0 \<le> e then n * 2 ^ nat e else n)"

definition dbl_round :: "bool \<Rightarrow> int \<Rightarrow> int \<Rightarrow> int \<Rightarrow> double" where
  "dbl_round neg n d e =
     (if n = 0 then dbl_zero neg else
      let b = int_bits n - int_bits d;
          lg = (if scale2 d b \<le> scale2 n (- b) then e + b else e + b - 1);
          k = max (lg - 52) (- 1074);
          num = scale2 n (e - k);
          den = scale2 d (k - e);
          q = num div den;
          r = num mod den;
          m = (if 2 * r > den \<or> (2 * r = den \<and> odd q) then q + 1 else q);
          bits = min ((k + 1074) * 2 ^ 52 + m) (2047 * 2 ^ 52)
      in word_of_int (if neg then bits + 2 ^ 63 else bits))"

text \<open>\<open>float(n)\<close> raises \<open>OverflowError\<close> when the integer is out of range.\<close>

definition dbl_of_int :: "int \<Rightarrow> double res" where
  "dbl_of_int i =
     (let w = dbl_round (i < 0) \<bar>i\<bar> 1 0 in
      case fclass w of FFin _ _ _ \<Rightarrow> Inr w | _ \<Rightarrow> Inl OverflowError)"

text \<open>\<open>x.is_integer()\<close> and \<open>int(x)\<close> (truncation).\<close>

definition dbl_is_integer :: "double \<Rightarrow> bool" where
  "dbl_is_integer w =
     (case fclass w of
        FFin neg m e \<Rightarrow> 0 \<le> e \<or> m mod 2 ^ nat (- e) = 0
      | _ \<Rightarrow> False)"

definition dbl_to_int :: "double \<Rightarrow> int res" where
  "dbl_to_int w =
     (case fclass w of
        FFin neg m e \<Rightarrow>
          (let t = (if 0 \<le> e then m * 2 ^ nat e else m div 2 ^ nat (- e))
           in Inr (if neg then - t else t))
      | FInf _ \<Rightarrow> Inl OverflowError
      | FNan \<Rightarrow> Inl ValueError)"

definition dbl_neg :: "double \<Rightarrow> double" where
  "dbl_neg w = w + 0x8000000000000000"

definition sgn_int :: "bool \<Rightarrow> int \<Rightarrow> int" where
  "sgn_int neg m = (if neg then - m else m)"

definition dbl_add :: "double \<Rightarrow> double \<Rightarrow> double" where
  "dbl_add x y =
     (case (fclass x, fclass y) of
        (FNan, _) \<Rightarrow> dbl_nan
      | (_, FNan) \<Rightarrow> dbl_nan
      | (FInf a, FInf b) \<Rightarrow> if a = b then dbl_inf a else dbl_nan
      | (FInf a, _) \<Rightarrow> dbl_inf a
      | (_, FInf b) \<Rightarrow> dbl_inf b
      | (FFin a m e, FFin b n f) \<Rightarrow>
          (let g = min e f;
               s = sgn_int a (m * 2 ^ nat (e - g)) + sgn_int b (n * 2 ^ nat (f - g))
           in if s = 0 then dbl_zero (a \<and> b) else dbl_round (s < 0) \<bar>s\<bar> 1 g))"

definition dbl_sub :: "double \<Rightarrow> double \<Rightarrow> double" where
  "dbl_sub x y = dbl_add x (dbl_neg y)"

definition dbl_mul :: "double \<Rightarrow> double \<Rightarrow> double" where
  "dbl_mul x y =
     (case (fclass x, fclass y) of
        (FNan, _) \<Rightarrow> dbl_nan
      | (_, FNan) \<Rightarrow> dbl_nan
      | (FInf a, FInf b) \<Rightarrow> dbl_inf (a \<noteq> b)
      | (FInf a, FFin b n _) \<Rightarrow> if n = 0 then dbl_nan else dbl_inf (a \<noteq> b)
      | (FFin a m _, FInf b) \<Rightarrow> if m = 0 then dbl_nan else dbl_inf (a \<noteq> b)
      | (FFin a m e, FFin b n f) \<Rightarrow> dbl_round (a \<noteq> b) (m * n) 1 (e + f))"

text \<open>Division; the executor has excluded a zero divisor before.\<close>

definition dbl_div :: "double \<Rightarrow> double \<Rightarrow> double" where
  "dbl_div x y =
     (case (fclass x, fclass y) of
        (FNan, _) \<Rightarrow> dbl_nan
      | (_, FNan) \<Rightarrow> dbl_nan
      | (FInf a, FInf b) \<Rightarrow> dbl_nan
      | (FInf a, FFin b _ _) \<Rightarrow> dbl_inf (a \<noteq> b)
      | (FFin a _ _, FInf b) \<Rightarrow> dbl_zero (a \<noteq> b)
      | (FFin a m e, FFin b n f) \<Rightarrow> dbl_round (a \<noteq> b) m n (e - f))"

text \<open>Python's \<open>int / int\<close>: correctly rounded, \<open>OverflowError\<close> when out of range.\<close>

definition int_truediv :: "int \<Rightarrow> int \<Rightarrow> double res" where
  "int_truediv a b =
     (let w = dbl_round ((a < 0) \<noteq> (b < 0) \<and> a \<noteq> 0) \<bar>a\<bar> \<bar>b\<bar> 0 in
      case fclass w of FFin _ _ _ \<Rightarrow> Inr w | _ \<Rightarrow> Inl OverflowError)"

section \<open>Exact comparison of Python numbers\<close>

text \<open>A number as seen by a comparison: an integer scaled by a power of two, or not finite.\<close>

datatype num_view = NNan | NInf bool | NFin int int

definition view_int :: "int \<Rightarrow> num_view" where
  "view_int i = NFin i 0"

definition view_dbl :: "double \<Rightarrow> num_view" where
  "view_dbl w =
     (case fclass w of FNan \<Rightarrow> NNan | FInf b \<Rightarrow> NInf b | FFin b m e \<Rightarrow> NFin (sgn_int b m) e)"

fun num_less :: "num_view \<Rightarrow> num_view \<Rightarrow> bool" where
  "num_less NNan _ = False"
| "num_less _ NNan = False"
| "num_less (NInf a) (NInf b) = (a \<and> \<not> b)"
| "num_less (NInf a) (NFin _ _) = a"
| "num_less (NFin _ _) (NInf b) = (\<not> b)"
| "num_less (NFin m e) (NFin n f) =
     (m * 2 ^ nat (e - min e f) < n * 2 ^ nat (f - min e f))"

fun num_eq :: "num_view \<Rightarrow> num_view \<Rightarrow> bool" where
  "num_eq NNan _ = False"
| "num_eq _ NNan = False"
| "num_eq (NInf a) (NInf b) = (a = b)"
| "num_eq (NInf _) (NFin _ _) = False"
| "num_eq (NFin _ _) (NInf _) = False"
| "num_eq (NFin m e) (NFin n f) =
     (m * 2 ^ nat (e - min e f) = n * 2 ^ nat (f - min e f))"

definition is_nan_view :: "num_view \<Rightarrow> bool" where
  "is_nan_view v \<longleftrightarrow> v = NNan"

text \<open>
  Without NaN the comparison is a total preorder; the proofs go through the exact value,
  a rational scaled by a common power of two.
\<close>

lemma pow2_split:
  assumes "g \<le> e" and "e \<le> f"
  shows "(2::int) ^ nat (f - g) = 2 ^ nat (e - g) * 2 ^ nat (f - e)"
  using assms by (simp flip: power_add nat_add_distrib)

lemma fin_less_common:
  assumes "g \<le> e" and "g \<le> f"
  shows "num_less (NFin m e) (NFin n f) \<longleftrightarrow> m * 2 ^ nat (e - g) < n * 2 ^ nat (f - g)"
proof -
  have "(2::int) ^ nat (e - g) = 2 ^ nat (min e f - g) * 2 ^ nat (e - min e f)"
    and "(2::int) ^ nat (f - g) = 2 ^ nat (min e f - g) * 2 ^ nat (f - min e f)"
    using assms by (auto intro!: pow2_split)
  then show ?thesis by (simp add: mult.left_commute)
qed

lemma fin_eq_common:
  assumes "g \<le> e" and "g \<le> f"
  shows "num_eq (NFin m e) (NFin n f) \<longleftrightarrow> m * 2 ^ nat (e - g) = n * 2 ^ nat (f - g)"
proof -
  have "(2::int) ^ nat (e - g) = 2 ^ nat (min e f - g) * 2 ^ nat (e - min e f)"
    and "(2::int) ^ nat (f - g) = 2 ^ nat (min e f - g) * 2 ^ nat (f - min e f)"
    using assms by (auto intro!: pow2_split)
  then show ?thesis by (simp add: mult.left_commute)
qed

lemma num_eq_refl: "\<not> is_nan_view v \<Longrightarrow> num_eq v v"
  by (cases v) (auto simp: is_nan_view_def)

lemma num_eq_sym: "num_eq u v \<longleftrightarrow> num_eq v u"
  by (cases u; cases v) (auto simp: min.commute)

lemma num_less_irrefl: "\<not> num_less v v"
  by (cases v) auto

lemma num_less_trans: "num_less u v \<Longrightarrow> num_less v w \<Longrightarrow> num_less u w"
proof -
  assume uv: "num_less u v" and vw: "num_less v w"
  show "num_less u w"
  proof (cases "\<exists>m e n f p h. u = NFin m e \<and> v = NFin n f \<and> w = NFin p h")
    case True
    then obtain m e n f p h where A: "u = NFin m e" "v = NFin n f" "w = NFin p h" by blast
    define g where "g = min e (min f h)"
    have "g \<le> e" "g \<le> f" "g \<le> h" by (auto simp: g_def)
    then show ?thesis
      using uv vw unfolding A by (simp only: fin_less_common)
  next
    case False
    with uv vw show ?thesis by (cases u; cases v; cases w) auto
  qed
qed

lemma num_trichotomy:
  "\<not> is_nan_view u \<Longrightarrow> \<not> is_nan_view v \<Longrightarrow> num_less u v \<or> num_eq u v \<or> num_less v u"
  by (cases u; cases v) (auto simp: is_nan_view_def min.commute)

lemma num_less_not_eq: "num_less u v \<Longrightarrow> \<not> num_eq u v"
  by (cases u; cases v) auto

lemma num_eq_trans: "num_eq u v \<Longrightarrow> num_eq v w \<Longrightarrow> num_eq u w"
proof -
  assume uv: "num_eq u v" and vw: "num_eq v w"
  show "num_eq u w"
  proof (cases "\<exists>m e n f p h. u = NFin m e \<and> v = NFin n f \<and> w = NFin p h")
    case True
    then obtain m e n f p h where A: "u = NFin m e" "v = NFin n f" "w = NFin p h" by blast
    define g where "g = min e (min f h)"
    have "g \<le> e" "g \<le> f" "g \<le> h" by (auto simp: g_def)
    then show ?thesis
      using uv vw unfolding A by (simp only: fin_eq_common)
  next
    case False
    with uv vw show ?thesis by (cases u; cases v; cases w) auto
  qed
qed

end
