(* ===== verification/Rows.thy ===== *)
theory Rows
  imports Floats
begin

text \<open>
  The row codec of \<open>leafdb/rows.py\<close>: SQL values, column types, \<open>encode_row\<close>,
  \<open>decode_row\<close> and \<open>coerce_value\<close>, with Python's UTF-8 codec written out. A row is a
  4-byte null bitmap followed by its non-null fields in column order.
\<close>

unbundle bit_operations_syntax

section \<open>Values and column types\<close>

datatype val = VNull | VBool bool | VInt int | VFloat double | VText ustr

text \<open>\<open>BadType\<close> is a type name outside \<open>SUPPORTED_TYPES\<close>; the codec raises on it.\<close>

datatype coltype = TInt | TFloat | TText | BadType string

section \<open>UTF-8\<close>

definition byte_of :: "int \<Rightarrow> byte" where
  "byte_of x = word_of_int x"

definition utf8_char :: "int \<Rightarrow> bytes res" where
  "utf8_char c =
     (if c < 0x80 then Inr [byte_of c]
      else if c < 0x800 then
        Inr [byte_of (0xC0 + c div 64), byte_of (0x80 + c mod 64)]
      else if 0xD800 \<le> c \<and> c \<le> 0xDFFF then Inl UnicodeError
      else if c < 0x10000 then
        Inr [byte_of (0xE0 + c div 4096), byte_of (0x80 + c div 64 mod 64),
             byte_of (0x80 + c mod 64)]
      else
        Inr [byte_of (0xF0 + c div 262144), byte_of (0x80 + c div 4096 mod 64),
             byte_of (0x80 + c div 64 mod 64), byte_of (0x80 + c mod 64)])"

fun utf8_encode :: "ustr \<Rightarrow> bytes res" where
  "utf8_encode [] = Inr []"
| "utf8_encode (c # cs) =
     bindE (utf8_char c) (\<lambda>b. bindE (utf8_encode cs) (\<lambda>bs. Inr (b @ bs)))"

definition is_cont :: "byte \<Rightarrow> bool" where
  "is_cont b \<longleftrightarrow> uint b div 64 = 2"

fun utf8_decode :: "bytes \<Rightarrow> ustr res" where
  "utf8_decode [] = Inr []"
| "utf8_decode (a # bs) =
     (if uint a < 0x80 then bindE (utf8_decode bs) (\<lambda>cs. Inr (uint a # cs))
      else if 0xC2 \<le> uint a \<and> uint a < 0xE0 then
        (case bs of
           b # r \<Rightarrow>
             if is_cont b then
               bindE (utf8_decode r) (\<lambda>cs. Inr (((uint a - 0xC0) * 64 + (uint b - 0x80)) # cs))
             else Inl UnicodeError
         | _ \<Rightarrow> Inl UnicodeError)
      else if 0xE0 \<le> uint a \<and> uint a < 0xF0 then
        (case bs of
           b # c # r \<Rightarrow>
             let v = (uint a - 0xE0) * 4096 + (uint b - 0x80) * 64 + (uint c - 0x80) in
             if is_cont b \<and> is_cont c \<and> 0x800 \<le> v \<and> \<not> (0xD800 \<le> v \<and> v \<le> 0xDFFF) then
               bindE (utf8_decode r) (\<lambda>cs. Inr (v # cs))
             else Inl UnicodeError
         | _ \<Rightarrow> Inl UnicodeError)
      else if 0xF0 \<le> uint a \<and> uint a < 0xF5 then
        (case bs of
           b # c # d # r \<Rightarrow>
             let v = (uint a - 0xF0) * 262144 + (uint b - 0x80) * 4096
                     + (uint c - 0x80) * 64 + (uint d - 0x80) in
             if is_cont b \<and> is_cont c \<and> is_cont d \<and> 0x10000 \<le> v \<and> v < 0x110000 then
               bindE (utf8_decode r) (\<lambda>cs. Inr (v # cs))
             else Inl UnicodeError
         | _ \<Rightarrow> Inl UnicodeError)
      else Inl UnicodeError)"

text \<open>A Python \<open>str\<close> holds code points from 0 to 0x10FFFF.\<close>

definition is_ustr :: "ustr \<Rightarrow> bool" where
  "is_ustr s \<longleftrightarrow> list_all (\<lambda>c. 0 \<le> c \<and> c < 0x110000) s"

lemma uint_byte: "0 \<le> x \<Longrightarrow> x < 256 \<Longrightarrow> uint (byte_of x) = x"
  by (simp add: byte_of_def uint_word_of_int take_bit_int_eq_self)

lemma cont_byte:
  assumes "0 \<le> x" and "x < 64"
  shows "is_cont (byte_of (0x80 + x))" and "uint (byte_of (0x80 + x)) = 0x80 + x"
proof -
  have "(0x80 + x) div 64 = 2" using assms by (intro int_div_pos_eq [where r = x]) auto
  moreover show "uint (byte_of (0x80 + x)) = 0x80 + x" using assms by (intro uint_byte) auto
  ultimately show "is_cont (byte_of (0x80 + x))" by (simp add: is_cont_def)
qed

lemma mod64: "0 \<le> c mod 64" "c mod 64 < (64 :: int)"
  by auto

lemma div64_split:
  fixes c :: int
  shows "c div 64 * 64 + c mod 64 = c"
    and "c div 4096 * 4096 + c div 64 mod 64 * 64 + c mod 64 = c"
    and "c div 262144 * 262144 + c div 4096 mod 64 * 4096 + c div 64 mod 64 * 64 + c mod 64 = c"
proof -
  have a: "c div 4096 = c div 64 div 64" and b: "c div 262144 = c div 64 div 64 div 64"
    by (simp_all add: zdiv_zmult2_eq [symmetric])
  show "c div 64 * 64 + c mod 64 = c" by (rule div_mult_mod_eq)
  then show "c div 4096 * 4096 + c div 64 mod 64 * 64 + c mod 64 = c"
    and "c div 262144 * 262144 + c div 4096 mod 64 * 4096 + c div 64 mod 64 * 64 + c mod 64 = c"
    unfolding a b
    using div_mult_mod_eq [of "c div 64" 64] div_mult_mod_eq [of "c div 64 div 64" 64] by linarith+
qed

lemmas div64_join = div64_split div64_split [unfolded add.assoc]

lemmas cont_mod64 = cont_byte [OF mod64]

lemma utf8_decode_char:
  assumes "utf8_char c = Inr b" and "0 \<le> c" and "c < 0x110000"
  shows "utf8_decode (b @ bs) = bindE (utf8_decode bs) (\<lambda>cs. Inr (c # cs))"
proof -
  consider (one) "c < 0x80" | (two) "0x80 \<le> c" "c < 0x800"
    | (three) "0x800 \<le> c" "c < 0x10000" "\<not> (0xD800 \<le> c \<and> c \<le> 0xDFFF)"
    | (four) "0x10000 \<le> c"
    using assms(1) by (fastforce simp: utf8_char_def split: if_splits)
  then show ?thesis
  proof cases
    case one
    then have "b = [byte_of c]" "uint (byte_of c) = c"
      using assms uint_byte[of c] by (auto simp: utf8_char_def)
    then show ?thesis using one by simp
  next
    case two
    have r: "2 \<le> c div 64" "c div 64 < 32" using two by auto
    have b: "b = [byte_of (0xC0 + c div 64), byte_of (0x80 + c mod 64)]"
      using assms two by (auto simp: utf8_char_def)
    have "uint (byte_of (0xC0 + c div 64)) = 0xC0 + c div 64"
      using r by (intro uint_byte) auto
    then show ?thesis unfolding b using r by (simp add: cont_mod64 div64_split)
  next
    case three
    have r: "0 \<le> c div 4096" "c div 4096 < 16" using three by auto
    have b: "b = [byte_of (0xE0 + c div 4096), byte_of (0x80 + c div 64 mod 64),
                  byte_of (0x80 + c mod 64)]"
      using assms three by (auto simp: utf8_char_def)
    have "uint (byte_of (0xE0 + c div 4096)) = 0xE0 + c div 4096"
      using r by (intro uint_byte) auto
    then show ?thesis unfolding b using r three by (simp add: cont_mod64 Let_def div64_join)
  next
    case four
    have r: "0 \<le> c div 262144" "c div 262144 < 5" using four assms by auto
    have b: "b = [byte_of (0xF0 + c div 262144), byte_of (0x80 + c div 4096 mod 64),
                  byte_of (0x80 + c div 64 mod 64), byte_of (0x80 + c mod 64)]"
      using assms four by (auto simp: utf8_char_def)
    have "uint (byte_of (0xF0 + c div 262144)) = 0xF0 + c div 262144"
      using r by (intro uint_byte) auto
    then show ?thesis unfolding b using r four assms by (simp add: cont_mod64 Let_def div64_join)
  qed
qed

lemma utf8_round_trip:
  "is_ustr s \<Longrightarrow> utf8_encode s = Inr bs \<Longrightarrow> utf8_decode bs = Inr s"
proof (induction s arbitrary: bs)
  case Nil
  then show ?case by simp
next
  case (Cons c s)
  then obtain b rest where b: "utf8_char c = Inr b" and rest: "utf8_encode s = Inr rest"
    and bs: "bs = b @ rest"
    by auto
  have "utf8_decode rest = Inr s" using Cons rest by (auto simp: is_ustr_def)
  moreover have "0 \<le> c" "c < 0x110000" using Cons.prems by (auto simp: is_ustr_def)
  ultimately show ?case using utf8_decode_char[OF b, of rest] bs by simp
qed

section \<open>encode\_row\<close>

definition pack_d :: "double \<Rightarrow> bytes" where
  "pack_d w = be_bytes 8 (uint w)"

definition bool_int :: "bool \<Rightarrow> int" where
  "bool_int b = (if b then 1 else 0)"

text \<open>
  One field. \<open>struct\<close> accepts a bool or an int where a float is stored, a bool where an int
  is stored, and raises \<open>struct.error\<close> on anything else; \<open>v.encode\<close> exists on \<open>str\<close> only.
\<close>

definition encode_field :: "coltype \<Rightarrow> val \<Rightarrow> bytes res" where
  "encode_field t v =
     (case t of
        TInt \<Rightarrow> (case v of VInt i \<Rightarrow> pack_q i | VBool b \<Rightarrow> pack_q (bool_int b)
                        | _ \<Rightarrow> Inl StructError)
      | TFloat \<Rightarrow> (case v of
            VFloat w \<Rightarrow> Inr (pack_d w)
          | VInt i \<Rightarrow> (case dbl_of_int i of Inr w \<Rightarrow> Inr (pack_d w) | Inl _ \<Rightarrow> Inl StructError)
          | VBool b \<Rightarrow> (case dbl_of_int (bool_int b) of
                Inr w \<Rightarrow> Inr (pack_d w) | Inl _ \<Rightarrow> Inl StructError)
          | _ \<Rightarrow> Inl StructError)
      | TText \<Rightarrow> (case v of
            VText s \<Rightarrow>
              bindE (utf8_encode s) (\<lambda>raw.
              if int (length raw) > 0xFFFF then Inl ValueError
              else bindE (pack_u 2 (int (length raw))) (\<lambda>n. Inr (n @ raw)))
          | _ \<Rightarrow> Inl AttributeError)
      | BadType _ \<Rightarrow> Inl ValueError)"

fun encode_loop :: "nat \<Rightarrow> (coltype \<times> val) list \<Rightarrow> int \<Rightarrow> bytes \<Rightarrow> (int \<times> bytes) res" where
  "encode_loop i [] nulls parts = Inr (nulls, parts)"
| "encode_loop i ((t, v) # tvs) nulls parts =
     (if v = VNull then encode_loop (Suc i) tvs (nulls OR push_bit i 1) parts
      else bindE (encode_field t v) (\<lambda>p. encode_loop (Suc i) tvs nulls (parts @ p)))"

definition encode_row :: "coltype list \<Rightarrow> val list \<Rightarrow> bytes res" where
  "encode_row types vals =
     (if length vals \<noteq> length types then Inl ValueError
      else bindE (encode_loop 0 (zip types vals) 0 []) (\<lambda>(nulls, body).
           bindE (pack_u 4 nulls) (\<lambda>h. Inr (h @ body))))"

section \<open>decode\_row\<close>

definition unpack_d :: "bytes \<Rightarrow> nat \<Rightarrow> double res" where
  "unpack_d buf off = bindE (unpack_u 8 buf off) (\<lambda>n. Inr (word_of_int n))"

fun decode_loop :: "nat \<Rightarrow> coltype list \<Rightarrow> int \<Rightarrow> bytes \<Rightarrow> nat \<Rightarrow> val list res" where
  "decode_loop i [] nulls buf off = Inr []"
| "decode_loop i (t # ts) nulls buf off =
     (if nulls AND push_bit i 1 \<noteq> 0 then
        bindE (decode_loop (Suc i) ts nulls buf off) (\<lambda>vs. Inr (VNull # vs))
      else (case t of
        TInt \<Rightarrow> bindE (unpack_q buf off) (\<lambda>v.
               bindE (decode_loop (Suc i) ts nulls buf (off + 8)) (\<lambda>vs. Inr (VInt v # vs)))
      | TFloat \<Rightarrow> bindE (unpack_d buf off) (\<lambda>v.
               bindE (decode_loop (Suc i) ts nulls buf (off + 8)) (\<lambda>vs. Inr (VFloat v # vs)))
      | TText \<Rightarrow> bindE (unpack_u 2 buf off) (\<lambda>n.
               bindE (utf8_decode (take (nat n) (drop (off + 2) buf))) (\<lambda>s.
               bindE (decode_loop (Suc i) ts nulls buf (off + 2 + nat n)) (\<lambda>vs.
               Inr (VText s # vs))))
      | BadType _ \<Rightarrow> Inl ValueError))"

definition decode_row :: "coltype list \<Rightarrow> bytes \<Rightarrow> val list res" where
  "decode_row types buf =
     bindE (unpack_u 4 buf 0) (\<lambda>nulls. decode_loop 0 types nulls buf 4)"

section \<open>coerce\_value\<close>

definition coerce_value :: "coltype \<Rightarrow> val \<Rightarrow> val res" where
  "coerce_value t v =
     (if v = VNull then Inr VNull else
      case t of
        TInt \<Rightarrow> (case v of
            VBool _ \<Rightarrow> Inl TypeError
          | VFloat w \<Rightarrow> if \<not> dbl_is_integer w then Inl TypeError
                        else bindE (dbl_to_int w) (\<lambda>i. Inr (VInt i))
          | VInt i \<Rightarrow> Inr (VInt i)
          | _ \<Rightarrow> Inl TypeError)
      | TFloat \<Rightarrow> (case v of
            VBool _ \<Rightarrow> Inl TypeError
          | VInt i \<Rightarrow> bindE (dbl_of_int i) (\<lambda>w. Inr (VFloat w))
          | VFloat w \<Rightarrow> Inr (VFloat w)
          | _ \<Rightarrow> Inl TypeError)
      | TText \<Rightarrow> (case v of VText s \<Rightarrow> Inr (VText s) | _ \<Rightarrow> Inl TypeError)
      | BadType _ \<Rightarrow> Inl TypeError)"

text \<open>The values a column of a given type holds after \<open>coerce_value\<close>.\<close>

fun has_type :: "coltype \<Rightarrow> val \<Rightarrow> bool" where
  "has_type _ VNull = True"
| "has_type TInt (VInt _) = True"
| "has_type TFloat (VFloat _) = True"
| "has_type TText (VText _) = True"
| "has_type _ _ = False"

lemma coerce_value_type: "coerce_value t v = Inr w \<Longrightarrow> has_type t w"
  by (cases t; cases v) (auto simp: coerce_value_def split: if_splits)

lemma coerce_value_id: "has_type t v \<Longrightarrow> (case t of BadType _ \<Rightarrow> v = VNull | _ \<Rightarrow> True) \<Longrightarrow> coerce_value t v = Inr v"
  by (cases t; cases v) (auto simp: coerce_value_def)

section \<open>Round trip\<close>

definition val_ok :: "val \<Rightarrow> bool" where
  "val_ok v = (case v of VText s \<Rightarrow> is_ustr s | _ \<Rightarrow> True)"

text \<open>What a field reads back as: a bool is stored as an int, an int in a FLOAT column as a float.\<close>

fun stored :: "coltype \<Rightarrow> val \<Rightarrow> val" where
  "stored TInt (VBool b) = VInt (bool_int b)"
| "stored TFloat (VInt i) = (case dbl_of_int i of Inr w \<Rightarrow> VFloat w | Inl _ \<Rightarrow> VInt i)"
| "stored TFloat (VBool b) = (case dbl_of_int (bool_int b) of Inr w \<Rightarrow> VFloat w | Inl _ \<Rightarrow> VBool b)"
| "stored _ v = v"

lemma stored_id: "has_type t v \<Longrightarrow> stored t v = v"
  by (cases t; cases v) auto

lemma and_exp_iff: "(n :: int) AND 2 ^ i \<noteq> 0 \<longleftrightarrow> bit n i"
  by (simp add: bit_eq_iff [of "n AND 2 ^ i" 0] bit_and_iff bit_exp_iff)

lemma bit_or_exp: "bit ((n :: int) OR 2 ^ i) j \<longleftrightarrow> bit n j \<or> j = i"
  by (auto simp: bit_or_iff bit_exp_iff)

lemma encode_loop_parts:
  "encode_loop i tvs nulls parts = Inr (N, P) \<Longrightarrow>
   (\<exists>body. P = parts @ body) \<and>
   (\<forall>j. bit N j \<longleftrightarrow> bit nulls j \<or> (\<exists>k < length tvs. j = i + k \<and> snd (tvs ! k) = VNull))"
proof (induction i tvs nulls parts rule: encode_loop.induct)
  case (1 i nulls parts)
  then show ?case by simp
next
  case (2 i t v tvs nulls parts)
  have ex: "(\<exists>k < length ((t, v) # tvs). j = i + k \<and> snd (((t, v) # tvs) ! k) = VNull) \<longleftrightarrow>
        (j = i \<and> v = VNull) \<or> (\<exists>k < length tvs. j = Suc i + k \<and> snd (tvs ! k) = VNull)" for j
    by (auto simp: less_Suc_eq_0_disj)
  show ?case
  proof (cases "v = VNull")
    case True
    then show ?thesis using 2(1)[OF True] 2(3) unfolding ex by (auto simp: bit_or_exp)
  next
    case False
    then obtain p where "encode_field t v = Inr p"
      "encode_loop (Suc i) tvs nulls (parts @ p) = Inr (N, P)"
      using 2(3) by auto
    then show ?thesis using 2(2)[OF False] False unfolding ex by fastforce
  qed
qed

lemma unpack_d_at: "off = length pre \<Longrightarrow> unpack_d (pre @ pack_d w @ post) off = Inr w"
proof -
  assume off: "off = length pre"
  have b: "uint w < 18446744073709551616" "0 \<le> uint w" using uint_lt2p [of w] by simp_all
  have "unpack_u 8 (pre @ pack_d w @ post) off = Inr (uint w)"
    using off b
    by (intro unpack_pack_u) (auto simp: pack_u_def pack_d_def)
  then show ?thesis by (simp add: unpack_d_def)
qed

lemma decode_encode_field:
  assumes f: "encode_field t v = Inr p" and nn: "v \<noteq> VNull" and ok: "val_ok v"
    and nb: "\<not> bit nulls i" and off: "off = length pre"
  shows "decode_loop i (t # ts) nulls (pre @ p @ post) off =
         bindE (decode_loop (Suc i) ts nulls (pre @ p @ post) (off + length p))
           (\<lambda>vs. Inr (stored t v # vs))"
proof (cases t)
  case TInt
  then obtain n where n: "pack_q n = Inr p" "stored t v = VInt n"
    using f by (cases v) (auto simp: encode_field_def)
  show ?thesis
    using n unpack_pack_q[OF n(1) off] length_pack_q[OF n(1)] nb TInt
    by (simp add: and_exp_iff)
next
  case TFloat
  then obtain w where w: "p = pack_d w" "stored t v = VFloat w"
    using f by (cases v) (auto simp: encode_field_def split: sum.splits)
  show ?thesis
    using w unpack_d_at[OF off, of w post] nb TFloat
    by (simp add: and_exp_iff pack_d_def)
next
  case TText
  then obtain s raw h where s: "v = VText s" and raw: "utf8_encode s = Inr raw"
    and h: "pack_u 2 (int (length raw)) = Inr h" and p: "p = h @ raw"
    using f nn by (cases v) (auto simp: encode_field_def split: if_splits)
  have lh: "length h = 2" by (rule length_pack_u[OF h])
  have "unpack_u 2 (pre @ p @ post) off = Inr (int (length raw))"
    using unpack_pack_u[OF h off, of "raw @ post"] p by simp
  moreover have "utf8_decode raw = Inr s"
    using ok s raw by (auto intro: utf8_round_trip simp: val_ok_def)
  ultimately show ?thesis
    using nb TText s p lh off by (simp add: and_exp_iff)
next
  case (BadType x)
  then show ?thesis using f by (simp add: encode_field_def)
qed

lemma decode_encode_loop:
  assumes "encode_loop i tvs nulls parts = Inr (N, parts @ body)"
    and "\<And>j. i \<le> j \<Longrightarrow> \<not> bit nulls j" and "list_all (\<lambda>(t, v). val_ok v) tvs"
    and "off = length pre"
  shows "decode_loop i (map fst tvs) N (pre @ body @ post) off = Inr (map (\<lambda>(t, v). stored t v) tvs)"
  using assms
proof (induction tvs arbitrary: i nulls parts body pre off)
  case Nil
  then show ?case by simp
next
  case (Cons tv tvs)
  obtain t v where tv: "tv = (t, v)" by force
  show ?case
  proof (cases "v = VNull")
    case True
    have loop: "encode_loop (Suc i) tvs (nulls OR push_bit i 1) parts = Inr (N, parts @ body)"
      using Cons.prems(1) tv True by simp
    have "bit N i"
      using encode_loop_parts[OF loop] by (simp add: bit_or_exp)
    moreover have "decode_loop (Suc i) (map fst tvs) N (pre @ body @ post) off
        = Inr (map (\<lambda>(t, v). stored t v) tvs)"
      using Cons.prems(2,3,4) by (intro Cons.IH[OF loop]) (auto simp: bit_or_exp)
    moreover have "stored t VNull = VNull" by (cases t) auto
    ultimately show ?thesis using tv True by (simp add: and_exp_iff)
  next
    case False
    then obtain p where p: "encode_field t v = Inr p"
      and loop: "encode_loop (Suc i) tvs nulls (parts @ p) = Inr (N, parts @ body)"
      using Cons.prems(1) tv by auto
    obtain rest where rest: "body = p @ rest"
      using encode_loop_parts[OF loop] by auto
    have nb: "\<not> bit N i"
      using encode_loop_parts[OF loop] Cons.prems(2)[of i] by auto
    have "decode_loop (Suc i) (map fst tvs) N ((pre @ p) @ rest @ post) (off + length p)
        = Inr (map (\<lambda>(t, v). stored t v) tvs)"
      using Cons.prems(2,3,4) loop rest
      by (intro Cons.IH[of "Suc i" nulls "parts @ p"]) auto
    then show ?thesis
      using decode_encode_field[OF p False _ nb Cons.prems(4), of "map fst tvs" "rest @ post"]
        Cons.prems(3) tv rest by simp
  qed
qed

lemma decode_encode_row:
  assumes "encode_row types vals = Inr blob" and "list_all val_ok vals"
  shows "decode_row types (blob @ post) = Inr (map2 stored types vals)"
proof -
  have len: "length vals = length types" using assms(1) by (auto simp: encode_row_def split: if_splits)
  then obtain nulls body h where loop: "encode_loop 0 (zip types vals) 0 [] = Inr (nulls, [] @ body)"
    and h: "pack_u 4 nulls = Inr h" and blob: "blob = h @ body"
    using assms(1) by (auto simp: encode_row_def split: if_splits)
  have "unpack_u 4 (blob @ post) 0 = Inr nulls"
    using unpack_pack_u[OF h, of 0 "[]" "body @ post"] blob by simp
  moreover have "list_all (\<lambda>(t, v). val_ok v) (zip types vals)"
    using assms(2) by (auto simp: list_all_iff dest: set_zip_rightD)
  then have "decode_loop 0 (map fst (zip types vals)) nulls (h @ body @ post) 4
      = Inr (map (\<lambda>(t, v). stored t v) (zip types vals))"
    using loop length_pack_u[OF h] by (intro decode_encode_loop[of 0 _ 0 "[]"]) auto
  ultimately show ?thesis
    using len blob by (simp add: decode_row_def)
qed

section \<open>Properties\<close>

text \<open>What \<open>INSERT\<close> does with a row: each value coerced to its column's type.\<close>

definition coerce_row :: "coltype list \<Rightarrow> val list \<Rightarrow> val list res" where
  "coerce_row types vals = mapE (\<lambda>(t, v). coerce_value t v) (zip types vals)"

lemma coerce_row_types:
  "coerce_row types vals = Inr ws \<Longrightarrow> length vals = length types \<Longrightarrow> list_all2 has_type types ws"
proof (induction types arbitrary: vals ws)
  case Nil
  then show ?case by (simp add: coerce_row_def)
next
  case (Cons t types)
  then obtain v vals' where "vals = v # vals'" by (cases vals) auto
  then show ?case using Cons by (auto simp: coerce_row_def dest: coerce_value_type)
qed

lemma map2_stored: "list_all2 has_type types ws \<Longrightarrow> map2 stored types ws = ws"
  by (induction rule: list_all2_induct) (auto simp: stored_id)

text \<open>
  C18. Stored rows read back: a row whose values were coerced to the column types, as every
  insert and update does, and that \<open>encode_row\<close> accepts is read back by \<open>decode_row\<close> exactly
  as it was, NULLs, 64-bit integers, doubles and non-ASCII text included, whatever bytes
  follow it in the page.
\<close>

theorem coerced_row_round_trip:
  assumes "coerce_row types vals = Inr ws" and "length vals = length types"
    and "encode_row types ws = Inr blob" and "list_all val_ok ws"
  shows "decode_row types (blob @ post) = Inr ws"
  using decode_encode_row[OF assms(3,4)] map2_stored[OF coerce_row_types[OF assms(1,2)]] by simp

lemma coerced_row_round_trip_witness:
  "\<exists>blob. coerce_row [TInt, TText, TFloat] [VFloat 0x4008000000000000, VText [233], VNull] =
       Inr [VInt 3, VText [233], VNull] \<and>
     encode_row [TInt, TText, TFloat] [VInt 3, VText [233], VNull] = Inr blob \<and>
     decode_row [TInt, TText, TFloat] (blob @ [1, 2]) = Inr [VInt 3, VText [233], VNull]"
proof -
  have c: "coerce_row [TInt, TText, TFloat] [VFloat 0x4008000000000000, VText [233], VNull] =
       Inr [VInt 3, VText [233], VNull]" by code_simp
  have "\<not> isl (encode_row [TInt, TText, TFloat] [VInt 3, VText [233], VNull])" by code_simp
  then obtain blob where b: "encode_row [TInt, TText, TFloat] [VInt 3, VText [233], VNull] = Inr blob"
    by (cases "encode_row [TInt, TText, TFloat] [VInt 3, VText [233], VNull]") auto
  have ok: "list_all val_ok [VInt 3, VText [233], VNull]" by code_simp
  have l: "length [VFloat 0x4008000000000000, VText [233], VNull] = length [TInt, TText, TFloat]" by simp
  show ?thesis using coerced_row_round_trip[OF c l b ok, of "[1, 2]"] c b by blast
qed

end
