(* ===== verification/FloatProps.thy ===== *)
theory FloatProps
  imports Rows Complex_Main
begin

text \<open>
  The model's conversions between integers and doubles against the reals: \<open>dbl_round\<close> is
  correctly rounded (a finite double to which no other is closer, the infinity from the IEEE
  threshold on), \<open>is_integer\<close> and \<open>int\<close> are exact, and so \<open>coerce_value\<close> of
  \<open>leafdb/rows.py\<close> changes no value.
\<close>

section \<open>The real value of a double\<close>

definition dval :: "double \<Rightarrow> real" where
  "dval w = (case fclass w of FFin neg m e \<Rightarrow> of_int (sgn_int neg m) * 2 powi e | _ \<Rightarrow> 0)"

definition dfinite :: "double \<Rightarrow> bool" where
  "dfinite w = (case fclass w of FFin _ _ _ \<Rightarrow> True | _ \<Rightarrow> False)"

definition bits_dbl :: "bool \<Rightarrow> int \<Rightarrow> double" where
  "bits_dbl neg b = word_of_int (if neg then b + 2 ^ 63 else b)"

lemma pow2_powi: "0 \<le> e \<Longrightarrow> real_of_int (2 ^ nat e) = 2 powi e"
  by (simp add: power_int_def)

lemma powi_le: "a \<le> b \<Longrightarrow> (2 :: real) powi a \<le> 2 powi b"
  by (simp add: power_int_increasing)

lemma powi_less: "a < b \<Longrightarrow> (2 :: real) powi a < 2 powi b"
  by (simp add: power_int_strict_increasing)

lemma powi_less_iff: "(2 :: real) powi a < 2 powi b \<longleftrightarrow> a < b"
  using powi_le[of b a] powi_less[of a b] by force

lemma powi_plus: "(2 :: real) powi (a + b) = 2 powi a * 2 powi b"
  by (simp add: power_int_add)

lemma powi_minus: "(2 :: real) powi (a - b) = 2 powi a / 2 powi b"
  by (simp add: power_int_diff)

lemma int_bits_rec: "0 < n \<Longrightarrow> int_bits n = 1 + int_bits (n div 2)"
  by (subst int_bits.simps) simp

lemma int_bits_bounds: "0 < n \<Longrightarrow> 1 \<le> int_bits n \<and> 2 ^ nat (int_bits n - 1) \<le> n \<and> n < 2 ^ nat (int_bits n)"
proof (induction n rule: int_bits.induct)
  case (1 n)
  note b = int_bits_rec[OF 1(2)]
  show ?case
  proof (cases "n = 1")
    case True
    have "int_bits 0 = 0" by (subst int_bits.simps) simp
    then have "int_bits n = 1" using b True by simp
    then show ?thesis using True by simp
  next
    case False
    then have pos: "\<not> n \<le> 0" "0 < n div 2" using 1(2) by (simp_all add: pos_imp_zdiv_pos_iff)
    define c where "c = int_bits (n div 2)"
    have IH: "1 \<le> c" "2 ^ nat (c - 1) \<le> n div 2" "n div 2 < 2 ^ nat c"
      using 1(1)[OF pos] unfolding c_def by blast+
    have s: "nat (int_bits n - 1) = Suc (nat (c - 1))" "nat (int_bits n) = Suc (nat c)" "1 \<le> int_bits n"
      using IH(1) unfolding b c_def[symmetric] by simp_all
    have "2 * 2 ^ nat (c - 1) \<le> n" "n < 2 * 2 ^ nat c" using IH(2,3) by linarith+
    then show ?thesis using s(3) unfolding s(1,2) power_Suc by blast
  qed
qed

lemma int_bits_real:
  assumes "0 < n"
  shows "2 powi (int_bits n - 1) \<le> real_of_int n" and "real_of_int n < 2 powi int_bits n"
proof -
  note B = int_bits_bounds[OF assms]
  have "real_of_int (2 ^ nat (int_bits n - 1)) \<le> real_of_int n"
    "real_of_int n < real_of_int (2 ^ nat (int_bits n))"
    using B by (simp_all only: of_int_le_iff of_int_less_iff)
  then show "2 powi (int_bits n - 1) \<le> real_of_int n" "real_of_int n < 2 powi int_bits n"
    using B pow2_powi[of "int_bits n - 1"] pow2_powi[of "int_bits n"] by linarith+
qed

lemma uint_bits:
  assumes "0 \<le> b" and "b < 2047 * 2 ^ 52"
  shows "uint (bits_dbl neg b) = (if neg then b + 2 ^ 63 else b)"
  using assms by (simp add: bits_dbl_def uint_word_of_int take_bit_int_eq_self)

text \<open>A pattern below the infinities: sign, exponent field \<open>q\<close> and fraction field \<open>r\<close>.\<close>

lemma fclass_fields:
  assumes "0 \<le> q" and "q < 2047" and "0 \<le> r" and "r < 2 ^ 52"
  shows "fclass (bits_dbl neg (q * 2 ^ 52 + r)) =
    (if q = 0 then FFin neg r (- 1074) else FFin neg (r + 2 ^ 52) (q - 1075))"
proof -
  define u where "u = uint (bits_dbl neg (q * 2 ^ 52 + r))"
  have u: "u = ((if neg then 2048 else 0) + q) * 2 ^ 52 + r"
    using assms uint_bits[of "q * 2 ^ 52 + r" neg] by (simp add: u_def)
  have d: "u div 2 ^ 52 = (if neg then 2048 else 0) + q" "u mod 2 ^ 52 = r"
    using assms(3,4) unfolding u by (simp_all only: div_mult_self3 mod_mult_self3) simp_all
  have m: "u div 2 ^ 52 mod 2048 = q" using assms(1,2) unfolding d by simp
  have n: "(2 ^ 63 \<le> u) = neg" using assms unfolding u by simp
  show ?thesis
    using assms unfolding fclass_def Let_def u_def[symmetric] m d(2) n by simp
qed

lemma fclass_inf: "fclass (bits_dbl neg (2047 * 2 ^ 52)) = FInf neg"
  by (cases neg) (simp_all add: bits_dbl_def fclass_def)

text \<open>A scaled significand, also one that has reached \<open>2 ^ 53\<close>, keeps its value.\<close>

lemma fclass_encoded:
  assumes "- 1074 \<le> k" and "0 \<le> m" and "m \<le> 2 ^ 53" and "2 ^ 52 \<le> m \<or> k = - 1074"
    and "(k + 1074) * 2 ^ 52 + m < 2047 * 2 ^ 52"
  shows "\<exists>M E. fclass (bits_dbl neg ((k + 1074) * 2 ^ 52 + m)) = FFin neg M E \<and>
           real_of_int M * 2 powi E = real_of_int m * 2 powi k"
proof -
  consider (sub) "m < 2 ^ 52" "k = - 1074" | (norm) "2 ^ 52 \<le> m" "m < 2 ^ 53" | (up) "m = 2 ^ 53"
    using assms(3,4) by linarith
  then show ?thesis
  proof cases
    case sub
    then show ?thesis using fclass_fields[of 0 m neg] assms(2) by simp
  next
    case norm
    have b: "(k + 1074) * 2 ^ 52 + m = (k + 1075) * 2 ^ 52 + (m - 2 ^ 52)" by simp
    have "fclass (bits_dbl neg ((k + 1075) * 2 ^ 52 + (m - 2 ^ 52))) = FFin neg m k"
      using fclass_fields[of "k + 1075" "m - 2 ^ 52" neg] norm assms(1,5) by simp
    then show ?thesis unfolding b by blast
  next
    case up
    have b: "(k + 1074) * 2 ^ 52 + m = (k + 1076) * 2 ^ 52 + 0" using up by simp
    have "fclass (bits_dbl neg ((k + 1076) * 2 ^ 52 + 0)) = FFin neg (2 ^ 52) (k + 1)"
      using fclass_fields[of "k + 1076" 0 neg] up assms(1,5) by simp
    moreover have "real_of_int (2 ^ 52) * 2 powi (k + 1) = real_of_int m * 2 powi k"
      using up by (simp add: powi_plus)
    ultimately show ?thesis unfolding b by blast
  qed
qed

section \<open>Rounding\<close>

lemma scale2_pos: "0 < n \<Longrightarrow> 0 < scale2 n x"
  by (simp add: scale2_def)

lemma scale2_quot:
  "0 < d \<Longrightarrow> real_of_int (scale2 n x) / real_of_int (scale2 d (- x)) =
     real_of_int n / real_of_int d * 2 powi x"
proof (cases "0 \<le> x")
  case True
  then show ?thesis by (auto simp: scale2_def power_int_def)
next
  case False
  then show ?thesis by (auto simp: scale2_def power_int_def field_simps)
qed

definition nearest_even :: "real \<Rightarrow> int" where
  "nearest_even f =
     (if 1 < 2 * (f - of_int \<lfloor>f\<rfloor>) \<or> (2 * (f - of_int \<lfloor>f\<rfloor>) = 1 \<and> odd \<lfloor>f\<rfloor>) then \<lfloor>f\<rfloor> + 1 else \<lfloor>f\<rfloor>)"

lemma nearest_even_div:
  assumes "0 < den"
  shows "(if den < 2 * (num mod den) \<or> (2 * (num mod den) = den \<and> odd (num div den))
          then num div den + 1 else num div den) = nearest_even (real_of_int num / real_of_int den)"
proof -
  let ?f = "real_of_int num / real_of_int den"
  have q: "\<lfloor>?f\<rfloor> = num div den" by (rule floor_divide_of_int_eq)
  have "real_of_int den * of_int (num div den) + of_int (num mod den) = of_int num"
    unfolding of_int_mult[symmetric] of_int_add[symmetric] mult_div_mod_eq ..
  moreover have "?f * real_of_int den = of_int num" using assms by simp
  ultimately have r: "real_of_int (num mod den) = (?f - of_int (num div den)) * real_of_int den"
    unfolding left_diff_distrib by (simp add: mult.commute)
  let ?g = "2 * (?f - of_int (num div den))"
  have g: "real_of_int (2 * (num mod den)) = ?g * real_of_int den" using r by simp
  have pos: "0 < real_of_int den" using assms by simp
  have "(den < 2 * (num mod den)) = (real_of_int den < real_of_int (2 * (num mod den)))"
    by (simp only: of_int_less_iff)
  then have lt: "(den < 2 * (num mod den)) = (1 < ?g)"
    unfolding g using mult_less_cancel_right_pos[OF pos, of 1 ?g] by simp
  have "(2 * (num mod den) = den) = (real_of_int (2 * (num mod den)) = real_of_int den)"
    by (simp only: of_int_eq_iff)
  then have eq: "(2 * (num mod den) = den) = (?g = 1)"
    unfolding g using pos by (simp only: mult_cancel_right2) simp
  show ?thesis unfolding nearest_even_def q lt eq ..
qed

lemma nearest_even_bounds:
  "\<lfloor>f\<rfloor> \<le> nearest_even f" "nearest_even f \<le> \<lfloor>f\<rfloor> + 1" "\<bar>of_int (nearest_even f) - f\<bar> \<le> 1 / 2"
proof -
  have "of_int \<lfloor>f\<rfloor> \<le> f" "f < of_int \<lfloor>f\<rfloor> + 1" by linarith+
  then show "\<bar>of_int (nearest_even f) - f\<bar> \<le> 1 / 2"
    unfolding nearest_even_def by (simp add: abs_le_iff split: if_split)
  show "\<lfloor>f\<rfloor> \<le> nearest_even f" "nearest_even f \<le> \<lfloor>f\<rfloor> + 1"
    unfolding nearest_even_def by simp_all
qed

lemma nearest_even_int: "nearest_even (of_int j) = j"
  by (simp add: nearest_even_def)

text \<open>What \<open>dbl_round\<close> computes, over the reals.\<close>

lemma dbl_round_real:
  assumes "0 < n" and "0 < d" and V: "V = real_of_int n / real_of_int d * 2 powi e"
  obtains lg k where "k = max (lg - 52) (- 1074)" and "2 powi lg \<le> V" and "V < 2 powi (lg + 1)"
    and "dbl_round neg n d e =
      bits_dbl neg (min ((k + 1074) * 2 ^ 52 + nearest_even (V / 2 powi k)) (2047 * 2 ^ 52))"
proof -
  define b where "b = int_bits n - int_bits d"
  define lg where "lg = (if scale2 d b \<le> scale2 n (- b) then e + b else e + b - 1)"
  define k where "k = max (lg - 52) (- 1074)"
  define num where "num = scale2 n (e - k)"
  define den where "den = scale2 d (k - e)"
  have den: "0 < den" using scale2_pos[OF assms(2)] by (simp add: den_def)
  let ?x = "real_of_int n / real_of_int d"
  have x: "2 powi (b - 1) < ?x" "?x < 2 powi (b + 1)"
  proof -
    note N = int_bits_real[OF assms(1)] and D = int_bits_real[OF assms(2)]
    have "2 powi (b - 1) * real_of_int d < 2 powi (b - 1) * 2 powi int_bits d" using D by simp
    also have "\<dots> = 2 powi (int_bits n - 1)" by (simp add: b_def flip: powi_plus)
    finally show "2 powi (b - 1) < ?x" using N assms(2) by (simp add: field_simps)
    have "(2 :: real) powi int_bits n = 2 powi (b + 1) * 2 powi (int_bits d - 1)" by (simp add: b_def flip: powi_plus)
    also have "\<dots> \<le> 2 powi (b + 1) * real_of_int d" using D by simp
    finally show "?x < 2 powi (b + 1)" using N assms(2) by (simp add: field_simps)
  qed
  have c: "(scale2 d b \<le> scale2 n (- b)) = (2 powi b \<le> ?x)"
  proof -
    have "(scale2 d b \<le> scale2 n (- b)) = (1 \<le> real_of_int (scale2 n (- b)) / real_of_int (scale2 d b))"
      using scale2_pos[OF assms(2), of b] by (simp add: le_divide_eq)
    also have "\<dots> = (1 \<le> ?x * 2 powi (- b))" using scale2_quot[OF assms(2), of n "- b"] by simp
    also have "\<dots> = (2 powi b \<le> ?x)"
      using le_divide_eq[of 1 ?x "2 powi b"] by (simp add: power_int_minus divide_inverse)
    finally show ?thesis .
  qed
  have pe: "0 < (2 :: real) powi e" by simp
  have Vx: "V = ?x * 2 powi e" using V .
  have l1: "2 powi lg \<le> V"
  proof (cases "2 powi b \<le> ?x")
    case True
    then have "2 powi b * 2 powi e \<le> ?x * 2 powi e" by (intro mult_right_mono) simp_all
    then show ?thesis using True c by (simp add: lg_def Vx powi_plus mult.commute)
  next
    case False
    have "2 powi (b - 1) * 2 powi e \<le> ?x * 2 powi e" using x(1) by (intro mult_right_mono) simp_all
    moreover have "(2 :: real) powi lg = 2 powi (b - 1) * 2 powi e"
      using False c by (simp add: lg_def add.commute add_diff_eq flip: powi_plus)
    ultimately show ?thesis by (simp add: Vx)
  qed
  have l2: "V < 2 powi (lg + 1)"
  proof (cases "2 powi b \<le> ?x")
    case True
    have "?x * 2 powi e < 2 powi (b + 1) * 2 powi e" using x(2) by (intro mult_strict_right_mono) simp_all
    moreover have "(2 :: real) powi (lg + 1) = 2 powi (b + 1) * 2 powi e"
      using True c by (simp add: lg_def ac_simps flip: powi_plus)
    ultimately show ?thesis by (simp add: Vx)
  next
    case False
    then have "?x * 2 powi e < 2 powi b * 2 powi e" by (intro mult_strict_right_mono) simp_all
    then show ?thesis using False c by (simp add: lg_def Vx powi_plus mult.commute)
  qed
  have f: "real_of_int num / real_of_int den = V / 2 powi k"
    using scale2_quot[OF assms(2), of n "e - k"] by (simp add: num_def den_def Vx powi_minus)
  have "dbl_round neg n d e =
      bits_dbl neg (min ((k + 1074) * 2 ^ 52 + nearest_even (V / 2 powi k)) (2047 * 2 ^ 52))"
    unfolding f[symmetric] nearest_even_div[OF den, symmetric]
    using assms(1) unfolding dbl_round_def bits_dbl_def Let_def b_def[symmetric] lg_def[symmetric]
      k_def[symmetric] num_def[symmetric] den_def[symmetric] by simp
  then show thesis using that k_def l1 l2 by blast
qed

text \<open>Doubles from \<open>2 ^ lg\<close> on are multiples of the unit \<open>2 ^ k\<close> of the last place.\<close>

lemma fclass_fin:
  assumes "fclass w = FFin neg m e"
  shows "0 \<le> m" and "m < 2 ^ 53" and "- 1074 \<le> e"
proof -
  define u where "u = uint w"
  have u: "0 \<le> u mod 2 ^ 52" "u mod 2 ^ 52 < 2 ^ 52" "0 \<le> u div 2 ^ 52 mod 2048" by simp_all
  show "0 \<le> m" "m < 2 ^ 53" "- 1074 \<le> e"
    using assms u unfolding fclass_def Let_def u_def[symmetric] by (auto split: if_splits)
qed

lemma dval_multiple:
  assumes "dfinite w" and "k = - 1074 \<or> 2 powi (k + 52) \<le> \<bar>dval w\<bar>"
  shows "\<exists>j. dval w = of_int j * 2 powi k"
proof -
  obtain neg m e where c: "fclass w = FFin neg m e"
    using assms(1) by (auto simp: dfinite_def split: fclass.splits)
  note F = fclass_fin[OF c]
  have v: "dval w = of_int (sgn_int neg m) * 2 powi e" "\<bar>dval w\<bar> = of_int m * 2 powi e"
    using c F by (simp_all add: dval_def sgn_int_def abs_mult)
  have "k \<le> e"
  proof (rule ccontr)
    assume "\<not> k \<le> e"
    then have e: "e \<le> k - 1" "2 powi (k + 52) \<le> \<bar>dval w\<bar>" using F(3) assms(2) by auto
    have "real_of_int m < 2 powi 53" using F(2) by (simp add: power_int_def)
    then have "\<bar>dval w\<bar> < 2 powi 53 * 2 powi e" unfolding v(2) by (intro mult_strict_right_mono) simp_all
    also have "\<dots> \<le> 2 powi (k + 52)" using powi_le[of "53 + e" "k + 52"] e by (simp only: powi_plus)
    finally show False using e(2) by simp
  qed
  then have "2 powi e = real_of_int (2 ^ nat (e - k)) * 2 powi k"
    using pow2_powi[of "e - k"] by (simp add: powi_minus)
  then have "dval w = of_int (sgn_int neg m * 2 ^ nat (e - k)) * 2 powi k" unfolding v(1) by simp
  then show ?thesis by blast
qed

lemma nearest_even_closest: "\<bar>of_int (nearest_even f) - f\<bar> \<le> \<bar>of_int j - f\<bar>"
proof (cases "j = nearest_even f")
  case False
  then have "1 \<le> \<bar>real_of_int j - of_int (nearest_even f)\<bar>" by linarith
  then show ?thesis using nearest_even_bounds(3)[of f] by linarith
qed simp

lemma max_double: "(2 :: real) powi 1024 - 2 powi 970 = (2 powi 53 - 1 / 2) * 2 powi 971"
proof -
  have "(2 :: real) powi 1024 = 2 powi 53 * 2 powi 971" "(2 :: real) powi 971 = 2 * 2 powi 970"
    by (simp_all flip: power_int_add power_int_add_1)
  then show ?thesis by (simp add: left_diff_distrib)
qed

lemma powi_53: "(2 :: real) powi 53 = real_of_int (2 ^ 53)" "(2 :: real) powi 52 = real_of_int (2 ^ 52)"
  by (simp_all add: power_int_def)

text \<open>The significand of a positive real \<open>V\<close> in \<open>[2 ^ lg, 2 ^ (lg + 1))\<close>.\<close>

lemma significand:
  assumes k: "k = max (lg - 52) (- 1074)" and l: "2 powi lg \<le> V" "V < 2 powi (lg + 1)"
  shows "0 \<le> nearest_even (V / 2 powi k)" and "nearest_even (V / 2 powi k) \<le> 2 ^ 53"
    and "2 ^ 52 \<le> nearest_even (V / 2 powi k) \<or> k = - 1074" and "V / 2 powi k < 2 powi 53"
proof -
  define f where "f = V / 2 powi k"
  have "0 < (2 :: real) powi lg" "0 < (2 :: real) powi k" by simp_all
  then have f0: "0 \<le> f" using l(1) unfolding f_def by (intro divide_nonneg_nonneg) linarith+
  have "lg + 1 \<le> 53 + k" using k by linarith
  then have "V < 2 powi (53 + k)" using l(2) powi_le[of "lg + 1" "53 + k"] by linarith
  then have f1: "f < 2 powi 53" unfolding f_def by (simp only: powi_plus) (simp add: divide_less_eq)
  then show "V / 2 powi k < 2 powi 53" by (simp only: f_def)
  note B = nearest_even_bounds(1,2)[of f]
  have "0 \<le> \<lfloor>f\<rfloor>" using f0 by simp
  then show "0 \<le> nearest_even (V / 2 powi k)" using B unfolding f_def by linarith
  have "\<lfloor>f\<rfloor> < 2 ^ 53" using f1 unfolding powi_53 floor_less_iff .
  then show "nearest_even (V / 2 powi k) \<le> 2 ^ 53" using B unfolding f_def by linarith
  show "2 ^ 52 \<le> nearest_even (V / 2 powi k) \<or> k = - 1074"
  proof (cases "k = - 1074")
    case False
    then have "lg = 52 + k" using k by linarith
    then have "2 powi 52 * 2 powi k \<le> V" using l(1) by (simp only: powi_plus)
    then have "2 powi 52 \<le> f" unfolding f_def by (simp add: le_divide_eq)
    then have "2 ^ 52 \<le> \<lfloor>f\<rfloor>" unfolding powi_53 le_floor_iff .
    then show ?thesis using B unfolding f_def by linarith
  qed simp
qed

text \<open>Overflow: the encoded significand passes the largest finite double.\<close>

lemma overflow_iff:
  assumes k: "k = max (lg - 52) (- 1074)" and l: "2 powi lg \<le> V" "V < 2 powi (lg + 1)"
  shows "2047 * 2 ^ 52 \<le> (k + 1074) * 2 ^ 52 + nearest_even (V / 2 powi k) \<longleftrightarrow>
    2 powi 1024 - 2 powi 970 \<le> V"
proof -
  define f where "f = V / 2 powi k"
  define m where "m = nearest_even f"
  note S = significand[OF assms, folded f_def, folded m_def]
  have Vf: "V = f * 2 powi k" by (simp add: f_def)
  have b971: "2 powi 1024 - 2 powi 970 \<le> V \<longleftrightarrow> 2 powi 53 - 1 / 2 \<le> f" if "k = 971"
    unfolding max_double Vf that by (simp add: mult.commute)
  show ?thesis unfolding f_def[symmetric] m_def[symmetric]
  proof
    assume b: "2047 * 2 ^ 52 \<le> (k + 1074) * 2 ^ 52 + m"
    then have k1: "971 \<le> k" using S(2) by simp
    show "2 powi 1024 - 2 powi 970 \<le> V"
    proof (cases "k = 971")
      case True
      then have "2 ^ 53 \<le> m" using b by simp
      then have "2 powi 53 \<le> real_of_int m" unfolding powi_53 of_int_le_iff .
      then have "2 powi 53 - 1 / 2 \<le> f" using nearest_even_bounds(3)[of f, folded m_def] by linarith
      then show ?thesis using b971[OF True] by simp
    next
      case False
      then have "(2 :: real) powi 1024 \<le> 2 powi lg" using k1 k by (intro powi_le) linarith
      moreover have "(0 :: real) < 2 powi 970" by simp
      ultimately show ?thesis using l(1) by linarith
    qed
  next
    assume big: "2 powi 1024 - 2 powi 970 \<le> V"
    have "(2 :: real) powi 1024 = 2 * 2 powi 1023" by (simp flip: power_int_add_1)
    moreover have "(2 :: real) powi 970 \<le> 2 powi 1023" by (intro powi_le) simp
    ultimately have "(2 :: real) powi 1023 < 2 powi (lg + 1)" using big l(2) by linarith
    then have lg: "1023 \<le> lg" by (simp only: powi_less_iff)
    then have kl: "k = lg - 52" using k by linarith
    show "2047 * 2 ^ 52 \<le> (k + 1074) * 2 ^ 52 + m"
    proof (cases "k = 971")
      case True
      then have f3: "2 powi 53 - 1 / 2 \<le> f" using big b971 by simp
      have "real_of_int (2 ^ 53 - 1) \<le> f" "f < real_of_int (2 ^ 53 - 1) + 1"
        using f3 S(4) unfolding powi_53 by simp_all
      then have fl: "\<lfloor>f\<rfloor> = 2 ^ 53 - 1" unfolding floor_eq_iff by blast
      have "1 \<le> 2 * (f - of_int \<lfloor>f\<rfloor>)" "odd \<lfloor>f\<rfloor>" using f3 unfolding fl powi_53 by simp_all
      then have "m = \<lfloor>f\<rfloor> + 1" unfolding m_def nearest_even_def by auto
      then show ?thesis using True fl by simp
    next
      case False
      then have "972 \<le> k" "2 ^ 52 \<le> m" using lg kl S(3) by linarith+
      then show ?thesis by simp
    qed
  qed
qed

text \<open>No double is closer to \<open>V\<close> than the rounded significand.\<close>

lemma significand_nearest:
  assumes k: "k = max (lg - 52) (- 1074)" and l: "2 powi lg \<le> V" and w: "dfinite w"
    and v: "v = dval w \<or> v = - dval w"
  shows "\<bar>of_int (nearest_even (V / 2 powi k)) * 2 powi k - V\<bar> \<le> \<bar>v - V\<bar>"
proof -
  define f where "f = V / 2 powi k"
  have Vf: "V = f * 2 powi k" by (simp add: f_def)
  have scaled: "\<bar>of_int j * 2 powi k - V\<bar> = \<bar>of_int j - f\<bar> * 2 powi k" for j
    unfolding Vf left_diff_distrib[symmetric] abs_mult by simp
  have near: "\<bar>of_int (nearest_even f) * 2 powi k - V\<bar> \<le> \<bar>of_int j * 2 powi k - V\<bar>" for j
    unfolding scaled by (intro mult_right_mono nearest_even_closest) simp
  show ?thesis unfolding f_def[symmetric]
  proof (cases "k = - 1074 \<or> 2 powi (k + 52) \<le> v")
    case True
    then have "k = - 1074 \<or> 2 powi (k + 52) \<le> \<bar>dval w\<bar>" using v by auto
    then obtain j where "dval w = of_int j * 2 powi k" using dval_multiple[OF w] by blast
    then have "v = of_int j * 2 powi k \<or> v = of_int (- j) * 2 powi k" using v by auto
    then show "\<bar>of_int (nearest_even f) * 2 powi k - V\<bar> \<le> \<bar>v - V\<bar>" using near by blast
  next
    case False
    then have "lg = 52 + k" using k by linarith
    then have "2 powi (52 + k) \<le> V" "v < 2 powi (52 + k)"
      using False l by (simp_all add: add.commute)
    moreover have "real_of_int (2 ^ 52) * 2 powi k = 2 powi (52 + k)"
      unfolding powi_53[symmetric] powi_plus ..
    ultimately show "\<bar>of_int (nearest_even f) * 2 powi k - V\<bar> \<le> \<bar>v - V\<bar>"
      using near[of "2 ^ 52"] by linarith
  qed
qed

text \<open>
  Correct rounding: the result is the infinity from \<open>2 ^ 1024 - 2 ^ 970\<close> on, and otherwise a
  finite double of the wanted sign to which no other double is closer.
\<close>

lemma dbl_round_nearest:
  assumes "0 < n" and "0 < d" and V: "V = real_of_int n / real_of_int d * 2 powi e"
  shows "2 powi 1024 - 2 powi 970 \<le> V \<Longrightarrow> fclass (dbl_round neg n d e) = FInf neg"
    and "V < 2 powi 1024 - 2 powi 970 \<Longrightarrow> \<exists>m f. fclass (dbl_round neg n d e) = FFin neg m f \<and>
      (\<forall>w v. dfinite w \<longrightarrow> v = dval w \<or> v = - dval w \<longrightarrow> \<bar>of_int m * 2 powi f - V\<bar> \<le> \<bar>v - V\<bar>)"
proof -
  obtain lg k where k: "k = max (lg - 52) (- 1074)" and l: "2 powi lg \<le> V" "V < 2 powi (lg + 1)"
    and R: "dbl_round neg n d e =
      bits_dbl neg (min ((k + 1074) * 2 ^ 52 + nearest_even (V / 2 powi k)) (2047 * 2 ^ 52))"
    using dbl_round_real[OF assms] by blast
  define m where "m = nearest_even (V / 2 powi k)"
  note S = significand[OF k l, folded m_def] and O = overflow_iff[OF k l, folded m_def]
  show "fclass (dbl_round neg n d e) = FInf neg" if "2 powi 1024 - 2 powi 970 \<le> V"
    using that O unfolding R m_def[symmetric] by (simp only: min_absorb2 fclass_inf)
  show "\<exists>m f. fclass (dbl_round neg n d e) = FFin neg m f \<and>
      (\<forall>w v. dfinite w \<longrightarrow> v = dval w \<or> v = - dval w \<longrightarrow> \<bar>of_int m * 2 powi f - V\<bar> \<le> \<bar>v - V\<bar>)" if "V < 2 powi 1024 - 2 powi 970"
  proof -
    have b: "(k + 1074) * 2 ^ 52 + m < 2047 * 2 ^ 52" using that O by linarith
    then have w: "dbl_round neg n d e = bits_dbl neg ((k + 1074) * 2 ^ 52 + m)"
      unfolding R m_def[symmetric] by simp
    have k0: "- 1074 \<le> k" using k by simp
    obtain M E where "fclass (dbl_round neg n d e) = FFin neg M E"
      "real_of_int M * 2 powi E = real_of_int m * 2 powi k"
      using fclass_encoded[OF k0 S(1-3) b] unfolding w by blast
    then show ?thesis using significand_nearest[OF k l(1), folded m_def] by metis
  qed
qed

section \<open>Integers and doubles\<close>

text \<open>An integral finite double is \<open>x.is_integer()\<close>, and \<open>int(x)\<close> is its value.\<close>

lemma mult_powi_neg: "e < 0 \<Longrightarrow> (of_int m * 2 powi e = (of_int i :: real)) = (m = i * 2 ^ nat (- e))"
proof -
  assume e: "e < 0"
  have "(of_int m * 2 powi e = (of_int i :: real)) = (real_of_int m = of_int i * 2 ^ nat (- e))"
    using e by (simp add: power_int_def field_simps)
  also have "\<dots> = (real_of_int m = of_int (i * 2 ^ nat (- e)))" by simp
  finally show ?thesis unfolding of_int_eq_iff .
qed

lemma exact_div:
  fixes p :: int
  assumes "0 < p"
  shows "(m = j * p) = (m mod p = 0 \<and> m div p = j)"
proof
  show "m mod p = 0 \<and> m div p = j" if "m = j * p" using that assms by simp
  show "m = j * p" if "m mod p = 0 \<and> m div p = j" using that div_mult_mod_eq[of m p] by simp
qed

lemma dbl_to_int_exact:
  "(dbl_is_integer x \<and> dbl_to_int x = Inr i) = (dfinite x \<and> dval x = of_int i)"
proof (cases "fclass x")
  case (FFin neg m e)
  show ?thesis
  proof (cases "0 \<le> e")
    case True
    then have "dval x = of_int (sgn_int neg m * 2 ^ nat e)"
      using FFin by (simp add: dval_def power_int_def)
    then have "(dval x = of_int i) = (sgn_int neg m * 2 ^ nat e = i)" by (simp only: of_int_eq_iff)
    then show ?thesis
      using FFin True by (simp add: dbl_is_integer_def dbl_to_int_def dfinite_def Let_def sgn_int_def)
  next
    case False
    have "(dval x = of_int i) = (sgn_int neg m = i * 2 ^ nat (- e))"
      using FFin False mult_powi_neg[of e "sgn_int neg m" i] by (simp add: dval_def)
    also have "\<dots> = (m = (if neg then - i else i) * 2 ^ nat (- e))" by (auto simp: sgn_int_def)
    also have "\<dots> = (m mod 2 ^ nat (- e) = 0 \<and> m div 2 ^ nat (- e) = (if neg then - i else i))"
      by (rule exact_div) simp
    finally show ?thesis
      using FFin False by (auto simp: dbl_is_integer_def dbl_to_int_def dfinite_def Let_def)
  qed
qed (simp_all add: dbl_is_integer_def dbl_to_int_def dfinite_def)

text \<open>\<open>float(n)\<close>: the nearest double.\<close>

definition nearest_dbl :: "int \<Rightarrow> double \<Rightarrow> bool" where
  "nearest_dbl i x \<longleftrightarrow> dfinite x \<and>
     (\<forall>y. dfinite y \<longrightarrow> \<bar>dval x - of_int i\<bar> \<le> \<bar>dval y - of_int i\<bar>)"

lemma dbl_of_int_nearest:
  "case dbl_of_int i of
     Inl e \<Rightarrow> e = OverflowError \<and> 2 powi 1024 - 2 powi 970 \<le> \<bar>real_of_int i\<bar>
   | Inr x \<Rightarrow> \<bar>real_of_int i\<bar> < 2 powi 1024 - 2 powi 970 \<and> nearest_dbl i x"
proof (cases "i = 0")
  case True
  have "(2 :: real) powi 970 < 2 powi 1024" by (intro powi_less) simp
  moreover have "fclass 0 = FFin False 0 (- 1074)" by (simp add: fclass_def)
  ultimately show ?thesis
    using True by (simp add: dbl_of_int_def dbl_round_def dbl_zero_def nearest_dbl_def dfinite_def dval_def sgn_int_def)
next
  case False
  let ?V = "\<bar>real_of_int i\<bar>" and ?w = "dbl_round (i < 0) \<bar>i\<bar> 1 0"
  have V: "?V = real_of_int \<bar>i\<bar> / real_of_int 1 * 2 powi 0" by simp
  have i0: "0 < \<bar>i\<bar>" using False by simp
  note N = dbl_round_nearest[OF i0 _ V, of "i < 0"]
  show ?thesis
  proof (cases "2 powi 1024 - 2 powi 970 \<le> ?V")
    case True
    then show ?thesis using N(1) by (simp add: dbl_of_int_def)
  next
    case small: False
    then obtain m f where w: "fclass ?w = FFin (i < 0) m f"
      and near: "\<And>w v. dfinite w \<Longrightarrow> v = dval w \<or> v = - dval w \<Longrightarrow> \<bar>of_int m * 2 powi f - ?V\<bar> \<le> \<bar>v - ?V\<bar>"
      using N(2) by force
    have d: "\<bar>dval ?w - of_int i\<bar> = \<bar>of_int m * 2 powi f - ?V\<bar>"
      using w by (cases "i < 0") (simp_all add: dval_def sgn_int_def)
    have "\<bar>dval ?w - of_int i\<bar> \<le> \<bar>dval y - of_int i\<bar>" if "dfinite y" for y
      using near[OF that, of "if i < 0 then - dval y else dval y"] unfolding d by (cases "i < 0") simp_all
    then show ?thesis using small w by (simp add: dbl_of_int_def nearest_dbl_def dfinite_def)
  qed
qed

section \<open>coerce\_value\<close>

lemma dbl_of_int_Inl:
  "(dbl_of_int i = Inl e) = (e = OverflowError \<and> 2 powi 1024 - 2 powi 970 \<le> \<bar>real_of_int i\<bar>)"
  using dbl_of_int_nearest[of i] by (cases "dbl_of_int i") auto

lemma coerce_float_to_int:
  "(coerce_value TInt (VFloat x) = Inr w) = (\<exists>i. w = VInt i \<and> dfinite x \<and> dval x = of_int i)"
  "coerce_value TInt (VFloat x) = Inl TypeError \<or> coerce_value TInt (VFloat x) \<in> range Inr"
proof -
  have ti: "dbl_is_integer x \<Longrightarrow> \<exists>i. dbl_to_int x = Inr i"
    by (auto simp: dbl_is_integer_def dbl_to_int_def Let_def split: fclass.splits)
  show "(coerce_value TInt (VFloat x) = Inr w) = (\<exists>i. w = VInt i \<and> dfinite x \<and> dval x = of_int i)"
    unfolding dbl_to_int_exact[symmetric] by (auto simp: coerce_value_def)
  show "coerce_value TInt (VFloat x) = Inl TypeError \<or> coerce_value TInt (VFloat x) \<in> range Inr"
    using ti by (auto simp: coerce_value_def)
qed

lemma coerce_value_accepts:
  "coerce_value t v = Inr w \<longleftrightarrow>
     (v = VNull \<and> w = VNull) \<or>
     (\<exists>s. t = TText \<and> v = VText s \<and> w = VText s) \<or>
     (\<exists>i. t = TInt \<and> w = VInt i \<and>
        (v = VInt i \<or> (\<exists>x. v = VFloat x \<and> dfinite x \<and> dval x = of_int i))) \<or>
     (\<exists>x. t = TFloat \<and> w = VFloat x \<and>
        (v = VFloat x \<or> (\<exists>i. v = VInt i \<and> dbl_of_int i = Inr x)))"
proof (cases "t = TInt \<and> (\<exists>x. v = VFloat x)")
  case True
  then show ?thesis using coerce_float_to_int(1) by auto
next
  case False
  then show ?thesis by (cases t; cases v) (auto simp: coerce_value_def split: sum.splits)
qed

lemma coerce_value_refuses:
  "coerce_value t v \<in> {Inl TypeError, Inl OverflowError} \<union> range Inr"
  "coerce_value t v = Inl OverflowError \<longleftrightarrow> (\<exists>i. t = TFloat \<and> v = VInt i \<and> dbl_of_int i = Inl OverflowError)"
proof -
  have "coerce_value t v \<in> {Inl TypeError, Inl OverflowError} \<union> range Inr \<and>
    (coerce_value t v = Inl OverflowError \<longleftrightarrow> (\<exists>i. t = TFloat \<and> v = VInt i \<and> dbl_of_int i = Inl OverflowError))"
  proof (cases t)
    case TInt
    show ?thesis
    proof (cases v)
      case (VFloat x)
      then show ?thesis using TInt coerce_float_to_int(2)[of x] by auto
    qed (use TInt in \<open>auto simp: coerce_value_def\<close>)
  next
    case TFloat
    show ?thesis
    proof (cases v)
      case (VInt i)
      then show ?thesis using TFloat dbl_of_int_Inl[of i]
        by (cases "dbl_of_int i") (auto simp: coerce_value_def)
    qed (use TFloat in \<open>auto simp: coerce_value_def\<close>)
  qed (cases v; simp add: coerce_value_def)+
  then show "coerce_value t v \<in> {Inl TypeError, Inl OverflowError} \<union> range Inr"
    "coerce_value t v = Inl OverflowError \<longleftrightarrow> (\<exists>i. t = TFloat \<and> v = VInt i \<and> dbl_of_int i = Inl OverflowError)"
    by blast+
qed

text \<open>
  C19. \<open>coerce_value\<close> changes no value: it accepts exactly NULL for every column, a text for a
  TEXT column, an int (not a bool) or a float with an integral value for an INT column, which
  stores that very integer, and a float or an int for a FLOAT column. A float is stored as it
  is, an int as a double than which no other is closer; exactly the ints of \<open>2 ^ 1024 - 2 ^ 970\<close>
  or more in absolute value raise \<open>OverflowError\<close>, and every other refusal is a \<open>TypeError\<close>.
\<close>

theorem coerce_value_exact:
  "(coerce_value t v = Inr w \<longleftrightarrow>
     (v = VNull \<and> w = VNull) \<or>
     (\<exists>s. t = TText \<and> v = VText s \<and> w = VText s) \<or>
     (\<exists>i. t = TInt \<and> w = VInt i \<and>
        (v = VInt i \<or> (\<exists>x. v = VFloat x \<and> dfinite x \<and> dval x = of_int i))) \<or>
     (\<exists>x. t = TFloat \<and> w = VFloat x \<and>
        (v = VFloat x \<or> (\<exists>i. v = VInt i \<and> dbl_of_int i = Inr x)))) \<and>
   (coerce_value t v = Inl OverflowError \<longleftrightarrow>
     (\<exists>i. t = TFloat \<and> v = VInt i \<and> 2 powi 1024 - 2 powi 970 \<le> \<bar>real_of_int i\<bar>)) \<and>
   coerce_value t v \<in> {Inl TypeError, Inl OverflowError} \<union> range Inr \<and>
   (case dbl_of_int n of
      Inl e \<Rightarrow> 2 powi 1024 - 2 powi 970 \<le> \<bar>real_of_int n\<bar>
    | Inr x \<Rightarrow> nearest_dbl n x)"
proof (intro conjI)
  show "case dbl_of_int n of
      Inl e \<Rightarrow> 2 powi 1024 - 2 powi 970 \<le> \<bar>real_of_int n\<bar> | Inr x \<Rightarrow> nearest_dbl n x"
    using dbl_of_int_nearest[of n] by (auto split: sum.splits)
  show "coerce_value t v = Inl OverflowError \<longleftrightarrow>
     (\<exists>i. t = TFloat \<and> v = VInt i \<and> 2 powi 1024 - 2 powi 970 \<le> \<bar>real_of_int i\<bar>)"
    unfolding coerce_value_refuses(2) dbl_of_int_Inl by blast
qed (rule coerce_value_accepts coerce_value_refuses(1))+

end
