(* ===== verification/Pager.thy ===== *)
theory Pager
  imports Prelude
begin

text \<open>
  The page layer of \<open>leafdb/pager.py\<close>: the database file as a byte string, the LRU
  buffer pool (\<open>OrderedDict\<close>, oldest entry first), shadow paging for rollback, and
  flushing. A page held in memory is a Python \<open>bytes\<close> object; \<open>btree.py\<close> compares
  such objects by identity, so a page object is a pair of an identity and its content, and
  \<open>next_oid\<close> counts the objects made so far.
\<close>

section \<open>The file\<close>

definition PAGE_SIZE :: nat where
  "PAGE_SIZE = 4096"

definition EMPTY_PAGE :: bytes where
  "EMPTY_PAGE = replicate PAGE_SIZE 0"

definition read_at :: "bytes \<Rightarrow> nat \<Rightarrow> nat \<Rightarrow> bytes" where
  "read_at f off n = take n (drop off f)"

text \<open>Seek and write; seeking past the end leaves a gap of zero bytes.\<close>

definition write_at :: "bytes \<Rightarrow> nat \<Rightarrow> bytes \<Rightarrow> bytes" where
  "write_at f off d =
     (if d = [] then f
      else take off (f @ replicate (off - length f) 0) @ d @ drop (off + length d) f)"

definition pad_to :: "nat \<Rightarrow> bytes \<Rightarrow> bytes" where
  "pad_to n d = d @ replicate (n - length d) 0"

text \<open>The 4096 bytes a read of page \<open>n\<close> gives, short reads padded with zeros.\<close>

definition disk_page :: "bytes \<Rightarrow> nat \<Rightarrow> bytes" where
  "disk_page f n = pad_to PAGE_SIZE (read_at f (n * PAGE_SIZE) PAGE_SIZE)"

lemma PAGE_SIZE_pos [simp]: "0 < PAGE_SIZE"
  by (simp add: PAGE_SIZE_def)

lemma length_pad_to [simp]: "length (pad_to n d) = max n (length d)"
  by (simp add: pad_to_def)

lemma length_disk_page [simp]: "length (disk_page f n) = PAGE_SIZE"
  by (simp add: disk_page_def read_at_def max_def)

lemma nth_disk_page:
  "i < PAGE_SIZE \<Longrightarrow>
   disk_page f n ! i = (if n * PAGE_SIZE + i < length f then f ! (n * PAGE_SIZE + i) else 0)"
  by (auto simp: disk_page_def pad_to_def read_at_def nth_append min_def)

lemma length_write_at:
  "length (write_at f off d) = (if d = [] then length f else max (length f) (off + length d))"
  by (auto simp: write_at_def min_def max_def)

lemma nth_write_at:
  "i < length (write_at f off d) \<Longrightarrow>
   write_at f off d ! i =
     (if off \<le> i \<and> i < off + length d then d ! (i - off)
      else if i < length f then f ! i else 0)"
  by (auto simp: write_at_def nth_append min_def max_def split: if_splits)

lemma disk_page_write_same:
  assumes "length d = PAGE_SIZE"
  shows "disk_page (write_at f (n * PAGE_SIZE) d) n = d"
proof (rule nth_equalityI)
  fix i assume "i < length (disk_page (write_at f (n * PAGE_SIZE) d) n)"
  then have i: "i < PAGE_SIZE" by simp
  have d: "d \<noteq> []" using assms by (metis PAGE_SIZE_pos list.size(3) less_irrefl)
  have "n * PAGE_SIZE + i < length (write_at f (n * PAGE_SIZE) d)"
    using i assms d by (simp add: length_write_at)
  then show "disk_page (write_at f (n * PAGE_SIZE) d) n ! i = d ! i"
    using i assms by (simp add: nth_disk_page nth_write_at)
qed (use assms in simp)

lemma page_disjoint:
  assumes "m \<noteq> n" and "i < P"
  shows "\<not> (n * P \<le> m * P + i \<and> m * P + i < n * P + (P :: nat))"
proof
  assume A: "n * P \<le> m * P + i \<and> m * P + i < n * P + P"
  have "(m * P + i) div P = m" using assms by simp
  moreover have "(m * P + i) div P = n"
    using A by (metis add.commute div_nat_eqI mult.commute mult_Suc_right)
  ultimately show False using assms by simp
qed

lemma disk_page_write_other:
  assumes "length d = PAGE_SIZE" and "m \<noteq> n"
  shows "disk_page (write_at f (n * PAGE_SIZE) d) m = disk_page f m"
proof (rule nth_equalityI)
  fix i assume "i < length (disk_page (write_at f (n * PAGE_SIZE) d) m)"
  then have i: "i < PAGE_SIZE" by simp
  note ne = page_disjoint[OF assms(2) i]
  show "disk_page (write_at f (n * PAGE_SIZE) d) m ! i = disk_page f m ! i"
  proof (cases "m * PAGE_SIZE + i < length (write_at f (n * PAGE_SIZE) d)")
    case True
    then show ?thesis using i ne assms by (auto simp: nth_disk_page nth_write_at)
  next
    case False
    then have "\<not> m * PAGE_SIZE + i < length f"
      by (simp add: length_write_at split: if_splits)
    then show ?thesis using i False by (simp add: nth_disk_page)
  qed
qed simp

section \<open>State\<close>

type_synonym pobj = "nat \<times> bytes"

record pager =
  pfile :: bytes
  num_pages :: nat
  capacity :: nat
  pool :: "(nat \<times> pobj) list"
  dirty :: "nat set"
  touched :: "nat set option"
  shadow :: "(nat \<times> pobj option) list"
  hits :: nat
  misses :: nat
  next_oid :: nat

definition pager_init :: "bytes \<Rightarrow> nat \<Rightarrow> pager" where
  "pager_init f cap =
     \<lparr>pfile = f, num_pages = max 1 (length f div PAGE_SIZE), capacity = cap, pool = [],
      dirty = {}, touched = None, shadow = [], hits = 0, misses = 0, next_oid = 0\<rparr>"

section \<open>BufferPool\<close>

definition drop_key :: "nat \<Rightarrow> (nat \<times> 'a) list \<Rightarrow> (nat \<times> 'a) list" where
  "drop_key n al = filter (\<lambda>kv. fst kv \<noteq> n) al"

definition pool_get :: "nat \<Rightarrow> pager \<Rightarrow> pobj option \<times> pager" where
  "pool_get n p =
     (case map_of (pool p) n of
        None \<Rightarrow> (None, p)
      | Some d \<Rightarrow> (Some d, p\<lparr>pool := drop_key n (pool p) @ [(n, d)]\<rparr>))"

definition pool_put :: "nat \<Rightarrow> pobj \<Rightarrow> bool \<Rightarrow> pager \<Rightarrow> pager" where
  "pool_put n d dty p =
     p\<lparr>pool := drop_key n (pool p) @ [(n, d)],
       dirty := (if dty then insert n (dirty p) else dirty p)\<rparr>"

definition discard_clean :: "nat \<Rightarrow> pager \<Rightarrow> pager" where
  "discard_clean n p = (if n \<notin> dirty p then p\<lparr>pool := drop_key n (pool p)\<rparr> else p)"

section \<open>Pager\<close>

text \<open>\<open>_read_page\<close> makes a new \<open>bytes\<close> object.\<close>

definition read_page :: "nat \<Rightarrow> pager \<Rightarrow> pobj \<times> pager" where
  "read_page n p = ((next_oid p, disk_page (pfile p) n), p\<lparr>next_oid := Suc (next_oid p)\<rparr>)"

definition write_page :: "nat \<Rightarrow> bytes \<Rightarrow> pager \<Rightarrow> pager" where
  "write_page n d p = p\<lparr>pfile := write_at (pfile p) (n * PAGE_SIZE) d\<rparr>"

text \<open>
  \<open>_evict_if_full\<close>: nothing inside a transaction; otherwise the oldest entries go, written
  back when dirty. With capacity 0 the loop ends in \<open>popitem\<close> on an empty pool, a
  \<open>KeyError\<close>.
\<close>

fun evict_loop :: "nat \<Rightarrow> (nat \<times> pobj) list \<Rightarrow> pager \<Rightarrow> unit res \<times> pager" where
  "evict_loop cap [] p =
     (if cap = 0 then (Inl KeyError, p\<lparr>pool := []\<rparr>) else (Inr (), p\<lparr>pool := []\<rparr>))"
| "evict_loop cap ((n, d) # rest) p =
     (if cap \<le> length ((n, d) # rest) then
        (if n \<in> dirty p
         then evict_loop cap rest ((write_page n (snd d) p)\<lparr>dirty := dirty p - {n}\<rparr>)
         else evict_loop cap rest p)
      else (Inr (), p\<lparr>pool := (n, d) # rest\<rparr>))"

definition evict_if_full :: "(pager, unit) prog" where
  "evict_if_full p = (if touched p \<noteq> None then (Inr (), p) else evict_loop (capacity p) (pool p) p)"

definition pager_get :: "nat \<Rightarrow> (pager, pobj) prog" where
  "pager_get n p =
     (if num_pages p \<le> n \<and> n \<noteq> 0 then (Inl IndexError, p) else
      case pool_get n p of
        (Some d, q) \<Rightarrow> (Inr d, q\<lparr>hits := Suc (hits q)\<rparr>)
      | (None, q) \<Rightarrow>
          (let (d, q1) = read_page n (q\<lparr>misses := Suc (misses q)\<rparr>) in
           bindP evict_if_full (\<lambda>_ q2. (Inr d, pool_put n d False q2)) q1))"

text \<open>
  The pre-image is captured on the first write of a page inside a transaction: the pool's
  object, the file's page when the file holds it whole, or \<open>None\<close>.
\<close>

definition capture_shadow :: "nat \<Rightarrow> pager \<Rightarrow> pager" where
  "capture_shadow n p =
     (if touched p \<noteq> None \<and> map_of (shadow p) n = None then
        (case pool_get n p of
           (Some d, q) \<Rightarrow> q\<lparr>shadow := shadow q @ [(n, Some d)]\<rparr>
         | (None, q) \<Rightarrow>
             if Suc n * PAGE_SIZE \<le> length (pfile q) then
               (let (d, q1) = read_page n q in q1\<lparr>shadow := shadow q1 @ [(n, Some d)]\<rparr>)
             else q\<lparr>shadow := shadow q @ [(n, None)]\<rparr>)
      else p)"

definition pager_write :: "nat \<Rightarrow> bytes \<Rightarrow> (pager, unit) prog" where
  "pager_write n d p =
     (if PAGE_SIZE < length d then (Inl ValueError, p) else
      bindP evict_if_full
        (\<lambda>_ q. let q1 = pool_put n (next_oid q, pad_to PAGE_SIZE d) True
                           (q\<lparr>next_oid := Suc (next_oid q)\<rparr>);
                   q2 = (if num_pages q1 \<le> n then q1\<lparr>num_pages := Suc n\<rparr> else q1)
               in (Inr (), (case touched q2 of
                     None \<Rightarrow> q2 | Some T \<Rightarrow> q2\<lparr>touched := Some (insert n T)\<rparr>)))
        (capture_shadow n p))"

definition pager_allocate :: "(pager, nat) prog" where
  "pager_allocate p =
     (let n = num_pages p in
      bindP (pager_write n EMPTY_PAGE) (\<lambda>_. ret n) (p\<lparr>num_pages := Suc n\<rparr>))"

definition begin_txn :: "(pager, unit) prog" where
  "begin_txn p =
     (if touched p \<noteq> None then (Inl RuntimeError, p)
      else (Inr (), p\<lparr>touched := Some {}, shadow := []\<rparr>))"

fun restore_loop :: "(nat \<times> pobj option) list \<Rightarrow> pager \<Rightarrow> pager" where
  "restore_loop [] p = p"
| "restore_loop ((n, im) # rest) p =
     restore_loop rest
       (case im of
          None \<Rightarrow> p\<lparr>pool := drop_key n (pool p), dirty := dirty p - {n}\<rparr>
        | Some d \<Rightarrow> (pool_put n d False p)\<lparr>dirty := dirty p - {n}\<rparr>)"

definition rollback_txn :: "pager \<Rightarrow> pager" where
  "rollback_txn p = (restore_loop (shadow p) p)\<lparr>shadow := [], touched := None\<rparr>"

text \<open>\<open>self.pool.pages[p]\<close> raises \<open>KeyError\<close> for a touched page that is not in the pool.\<close>

definition collect_commit :: "(pager, nat list \<times> nat \<times> (nat \<times> bytes) list) prog" where
  "collect_commit p =
     (let pages = (case touched p of None \<Rightarrow> [] | Some T \<Rightarrow> sorted_list_of_set T) in
      case mapE (\<lambda>n. case map_of (pool p) n of
                       None \<Rightarrow> Inl KeyError | Some d \<Rightarrow> Inr (n, snd d)) pages of
        Inl e \<Rightarrow> (Inl e, p)
      | Inr images \<Rightarrow> (Inr (pages, num_pages p, images), p\<lparr>touched := None, shadow := []\<rparr>))"

fun flush_loop :: "nat list \<Rightarrow> (pager, unit) prog" where
  "flush_loop [] p = (Inr (), p)"
| "flush_loop (n # ns) p =
     (case map_of (pool p) n of
        None \<Rightarrow> (Inl KeyError, p)
      | Some d \<Rightarrow> flush_loop ns (write_page n (snd d) p))"

definition pager_flush :: "(pager, unit) prog" where
  "pager_flush p =
     bindP (flush_loop (sorted_list_of_set (dirty p))) (\<lambda>_ q. (Inr (), q\<lparr>dirty := {}\<rparr>)) p"

end
