(* ===== verification/PagerProps.thy ===== *)
theory PagerProps
  imports Pager
begin

text \<open>
  What the pager promises: every page has one current image, the pool's or the file's;
  reads return it, a write replaces exactly one image, eviction and flushing change none,
  a rollback brings every image of the transaction's start back, and no byte written in an
  open transaction reaches the file.
\<close>

declare split_paired_All [simp del] split_paired_Ex [simp del]

section \<open>Images and invariants\<close>

definition obj_at :: "pager \<Rightarrow> nat \<Rightarrow> pobj option" where
  "obj_at p n = map_of (pool p) n"

definition page_image :: "pager \<Rightarrow> nat \<Rightarrow> bytes" where
  "page_image p n =
     (case obj_at p n of Some d \<Rightarrow> snd d | None \<Rightarrow> disk_page (pfile p) n)"

definition pool_wf :: "pager \<Rightarrow> bool" where
  "pool_wf p \<longleftrightarrow>
     distinct (map fst (pool p)) \<and> 0 < capacity p \<and>
     (\<forall>n d. obj_at p n = Some d \<longrightarrow> length (snd d) = PAGE_SIZE \<and> fst d < next_oid p)"

text \<open>A clean pool entry agrees with the file; what eviction may drop.\<close>

definition clean_agree :: "pager \<Rightarrow> bool" where
  "clean_agree p \<longleftrightarrow>
     (\<forall>n d. obj_at p n = Some d \<longrightarrow> n \<notin> dirty p \<longrightarrow> snd d = disk_page (pfile p) n)"

definition pager_inv :: "pager \<Rightarrow> bool" where
  "pager_inv p \<longleftrightarrow> pool_wf p \<and> (touched p = None \<longrightarrow> clean_agree p)"

definition dirty_ok :: "pager \<Rightarrow> bool" where
  "dirty_ok p \<longleftrightarrow> finite (dirty p) \<and> (\<forall>n \<in> dirty p. obj_at p n \<noteq> None)"

text \<open>The two facts that a step keeps whether or not a transaction is open.\<close>

definition keeps_clean :: "pager \<Rightarrow> pager \<Rightarrow> bool" where
  "keeps_clean p q \<longleftrightarrow> (clean_agree p \<longrightarrow> clean_agree q) \<and> (dirty_ok p \<longrightarrow> dirty_ok q)"

text \<open>What holds between a state and a later one: old objects stay where they were.\<close>

definition pager_ext :: "pager \<Rightarrow> pager \<Rightarrow> bool" where
  "pager_ext p q \<longleftrightarrow>
     capacity q = capacity p \<and> next_oid p \<le> next_oid q \<and>
     (touched q = None) = (touched p = None) \<and>
     (touched p \<noteq> None \<longrightarrow> pfile q = pfile p) \<and>
     (\<forall>n d. obj_at q n = Some d \<longrightarrow> fst d < next_oid p \<longrightarrow> obj_at p n = Some d)"

lemma map_of_drop_key: "map_of (drop_key n al) m = (if m = n then None else map_of al m)"
  by (induction al) (auto simp: drop_key_def)

lemma map_of_move_end:
  "map_of (drop_key n al @ [(n, d)]) m = (if m = n then Some d else map_of al m)"
  by (auto simp: map_add_def map_of_drop_key split: option.splits)

lemma distinct_drop_key: "distinct (map fst al) \<Longrightarrow> distinct (map fst (drop_key n al))"
  unfolding drop_key_def by (rule distinct_map_filter)

lemma distinct_move_end:
  "distinct (map fst al) \<Longrightarrow> distinct (map fst (drop_key n al @ [(n, d)]))"
  using distinct_drop_key[of al n] by (auto simp: drop_key_def)

lemma length_drop_key_less:
  "map_of al n = Some d \<Longrightarrow> length (drop_key n al) < length al"
  using length_filter_less[of "(n, d)" al "\<lambda>kv. fst kv \<noteq> n"]
  by (auto simp: drop_key_def dest: map_of_SomeD)

lemma length_pad_to_page [simp]: "length d \<le> PAGE_SIZE \<Longrightarrow> length (pad_to PAGE_SIZE d) = PAGE_SIZE"
  by (simp add: max_def)

lemma pager_ext_refl [simp]: "pager_ext p p"
  by (simp add: pager_ext_def)

lemma pager_ext_trans:
  assumes "pager_ext p q" and "pager_ext q r"
  shows "pager_ext p r"
proof -
  have "obj_at p n = Some d" if "obj_at r n = Some d" "fst d < next_oid p" for n d
    using assms that unfolding pager_ext_def by (meson less_le_trans)
  then show ?thesis using assms unfolding pager_ext_def by auto
qed

lemma pager_init_inv:
  "0 < cap \<Longrightarrow> pager_inv (pager_init f cap) \<and> page_image (pager_init f cap) n = disk_page f n"
  by (simp add: pager_inv_def pool_wf_def clean_agree_def pager_init_def page_image_def obj_at_def)

text \<open>Changes of the fields that images and invariants do not read.\<close>

lemma counters_irrelevant [simp]:
  "obj_at (p\<lparr>hits := h\<rparr>) = obj_at p" "page_image (p\<lparr>hits := h\<rparr>) = page_image p"
  "pager_inv (p\<lparr>hits := h\<rparr>) = pager_inv p" "pager_ext p' (p\<lparr>hits := h\<rparr>) = pager_ext p' p"
  "keeps_clean p' (p\<lparr>hits := h\<rparr>) = keeps_clean p' p"
  "obj_at (p\<lparr>misses := h\<rparr>) = obj_at p" "page_image (p\<lparr>misses := h\<rparr>) = page_image p"
  "pager_inv (p\<lparr>misses := h\<rparr>) = pager_inv p" "pager_ext p' (p\<lparr>misses := h\<rparr>) = pager_ext p' p"
  "keeps_clean p' (p\<lparr>misses := h\<rparr>) = keeps_clean p' p"
  by (simp_all add: pager_inv_def pool_wf_def clean_agree_def pager_ext_def page_image_def
      keeps_clean_def dirty_ok_def obj_at_def fun_eq_iff cong: option.case_cong)

lemma keeps_clean_refl [simp]: "keeps_clean p p"
  by (simp add: keeps_clean_def)

lemma keeps_clean_trans: "keeps_clean p q \<Longrightarrow> keeps_clean q r \<Longrightarrow> keeps_clean p r"
  by (simp add: keeps_clean_def)

lemma fresh_oid [simp]:
  shows "obj_at (p\<lparr>next_oid := k\<rparr>) = obj_at p"
    and "page_image (p\<lparr>next_oid := k\<rparr>) = page_image p"
    and "pager_inv p \<Longrightarrow> next_oid p \<le> k \<Longrightarrow> pager_inv (p\<lparr>next_oid := k\<rparr>)"
    and "pager_ext p' p \<Longrightarrow> next_oid p \<le> k \<Longrightarrow> pager_ext p' (p\<lparr>next_oid := k\<rparr>)"
    and "keeps_clean p' (p\<lparr>next_oid := k\<rparr>) = keeps_clean p' p"
proof -
  show o: "obj_at (p\<lparr>next_oid := k\<rparr>) = obj_at p" for p :: pager
    by (simp add: obj_at_def fun_eq_iff)
  show "page_image (p\<lparr>next_oid := k\<rparr>) = page_image p"
    by (simp add: page_image_def o fun_eq_iff cong: option.case_cong)
  show "pager_inv p \<Longrightarrow> next_oid p \<le> k \<Longrightarrow> pager_inv (p\<lparr>next_oid := k\<rparr>)"
    by (simp add: pager_inv_def pool_wf_def clean_agree_def o) (meson less_le_trans)
  show "pager_ext p' p \<Longrightarrow> next_oid p \<le> k \<Longrightarrow> pager_ext p' (p\<lparr>next_oid := k\<rparr>)"
    by (simp add: pager_ext_def o)
  show "keeps_clean p' (p\<lparr>next_oid := k\<rparr>) = keeps_clean p' p"
    by (simp add: keeps_clean_def clean_agree_def dirty_ok_def o)
qed

lemma pool_wf_oid: "pool_wf p \<Longrightarrow> next_oid p \<le> k \<Longrightarrow> pool_wf (p\<lparr>next_oid := k\<rparr>)"
  by (simp add: pool_wf_def) (meson less_le_trans)

section \<open>Eviction\<close>

lemma evict_loop_frame:
  assumes "evict_loop cap pl p = (r, q)"
  shows "num_pages q = num_pages p \<and> capacity q = capacity p \<and> touched q = touched p \<and>
         shadow q = shadow p \<and> next_oid q = next_oid p"
  using assms
proof (induction cap pl p rule: evict_loop.induct)
  case (1 cap p)
  then show ?case by (auto split: if_splits)
next
  case (2 cap n d rest p)
  then show ?case by (auto split: if_splits simp: write_page_def)
qed

lemma evict_loop_dirty:
  assumes "evict_loop cap pl p = (r, q)" and "distinct (map fst pl)"
    and "finite (dirty p)" and "dirty p \<subseteq> fst ` set pl"
  shows "finite (dirty q) \<and> dirty q \<subseteq> fst ` set (pool q)"
  using assms
proof (induction cap pl p rule: evict_loop.induct)
  case (1 cap p)
  then show ?case by (auto split: if_splits)
next
  case (2 cap n d rest p)
  show ?case
  proof (cases "cap \<le> length ((n, d) # rest)")
    case False
    then show ?thesis using 2(3-) by auto
  next
    case full: True
    show ?thesis
    proof (cases "n \<in> dirty p")
      case True
      have "dirty p - {n} \<subseteq> fst ` set rest" using 2(6) by auto
      then show ?thesis using 2(1)[OF full True] 2(3-) full True by (simp add: write_page_def)
    next
      case False
      have "dirty p \<subseteq> fst ` set rest" using 2(6) False by auto
      then show ?thesis using 2(2)[OF full False] 2(3-) full False by simp
    qed
  qed
qed

lemma dirty_ok_pool: "dirty_ok p \<longleftrightarrow> finite (dirty p) \<and> dirty p \<subseteq> fst ` set (pool p)"
  by (auto simp: dirty_ok_def obj_at_def map_of_eq_None_iff)

lemma evict_loop_suffix:
  "evict_loop cap pl p = (r, q) \<Longrightarrow> \<exists>pre. pl = pre @ pool q"
proof (induction cap pl p rule: evict_loop.induct)
  case (1 cap p)
  then show ?case by (auto split: if_splits)
next
  case (2 cap n d rest p)
  then show ?case by (auto split: if_splits)
qed

lemma evict_loop_ok:
  assumes "0 < cap" and "distinct (map fst pl)"
    and "\<And>n d. map_of pl n = Some d \<Longrightarrow> length (snd d) = PAGE_SIZE"
    and "\<And>n d. map_of pl n = Some d \<Longrightarrow> n \<notin> dirty p \<Longrightarrow> snd d = disk_page (pfile p) n"
  shows "\<exists>q. evict_loop cap pl p = (Inr (), q) \<and> length (pool q) < cap \<and> clean_agree q \<and>
           (\<forall>n. page_image q n =
              (case map_of pl n of Some d \<Rightarrow> snd d | None \<Rightarrow> disk_page (pfile p) n))"
  using assms
proof (induction cap pl p rule: evict_loop.induct)
  case (1 cap p)
  then show ?case by (auto simp: clean_agree_def page_image_def obj_at_def)
next
  case (2 cap n d rest p)
  have rest: "map_of rest n = None" "distinct (map fst rest)"
    using 2(4) by (auto simp: map_of_eq_None_iff)
  have sub: "map_of ((n, d) # rest) m = Some x" if "map_of rest m = Some x" for m x
    using that rest by (auto simp del: map_of_eq_Some_iff)
  show ?case
  proof (cases "cap \<le> length ((n, d) # rest)")
    case False
    have "clean_agree (p\<lparr>pool := (n, d) # rest\<rparr>)"
      using 2(6) by (simp add: clean_agree_def obj_at_def del: map_of.simps)
    moreover have "page_image (p\<lparr>pool := (n, d) # rest\<rparr>) m =
        (case map_of ((n, d) # rest) m of Some d \<Rightarrow> snd d | None \<Rightarrow> disk_page (pfile p) m)" for m
      by (simp add: page_image_def obj_at_def del: map_of.simps cong: option.case_cong)
    ultimately show ?thesis using False by (simp del: map_of.simps)
  next
    case full: True
    show ?thesis
    proof (cases "n \<in> dirty p")
      case True
      have len: "length (snd d) = PAGE_SIZE" using 2(5)[of n d] by simp
      let ?p = "(write_page n (snd d) p)\<lparr>dirty := dirty p - {n}\<rparr>"
      have disk: "disk_page (pfile ?p) m = (if m = n then snd d else disk_page (pfile p) m)" for m
        by (simp add: write_page_def disk_page_write_same[OF len] disk_page_write_other[OF len])
      have "\<exists>q. evict_loop cap rest ?p = (Inr (), q) \<and> length (pool q) < cap \<and> clean_agree q \<and>
           (\<forall>m. page_image q m =
              (case map_of rest m of Some d \<Rightarrow> snd d | None \<Rightarrow> disk_page (pfile ?p) m))"
      proof (rule 2(1)[OF full True 2(3) rest(2)])
        fix m x assume m: "map_of rest m = Some x"
        show "length (snd x) = PAGE_SIZE" using 2(5) sub[OF m] by blast
      next
        fix m x assume m: "map_of rest m = Some x" and nd: "m \<notin> dirty ?p"
        then have "m \<noteq> n" using rest by auto
        then show "snd x = disk_page (pfile ?p) m"
          using 2(6)[of m x] sub[OF m] nd disk by simp
      qed
      then obtain q where q: "evict_loop cap rest ?p = (Inr (), q)" "length (pool q) < cap"
          "clean_agree q" and im: "\<And>m. page_image q m =
              (case map_of rest m of Some d \<Rightarrow> snd d | None \<Rightarrow> disk_page (pfile ?p) m)"
        by blast
      have "page_image q m = (case map_of ((n, d) # rest) m of
              Some d \<Rightarrow> snd d | None \<Rightarrow> disk_page (pfile p) m)" for m
        using im[of m] rest(1) disk[of m] by (cases "map_of rest m") auto
      then show ?thesis using full True q by simp
    next
      case False
      have agree: "snd d = disk_page (pfile p) n" using 2(6)[of n d] False by simp
      have "\<exists>q. evict_loop cap rest p = (Inr (), q) \<and> length (pool q) < cap \<and> clean_agree q \<and>
           (\<forall>m. page_image q m =
              (case map_of rest m of Some d \<Rightarrow> snd d | None \<Rightarrow> disk_page (pfile p) m))"
        by (rule 2(2)[OF full False 2(3) rest(2)]) (use 2(5,6) sub in blast)+
      then obtain q where q: "evict_loop cap rest p = (Inr (), q)" "length (pool q) < cap"
          "clean_agree q" and im: "\<And>m. page_image q m =
              (case map_of rest m of Some d \<Rightarrow> snd d | None \<Rightarrow> disk_page (pfile p) m)"
        by blast
      have "page_image q m = (case map_of ((n, d) # rest) m of
              Some d \<Rightarrow> snd d | None \<Rightarrow> disk_page (pfile p) m)" for m
        using im[of m] rest(1) agree by (cases "map_of rest m") auto
      then show ?thesis using full False q by simp
    qed
  qed
qed

lemma map_of_suffix:
  assumes "distinct (map fst (pre @ al))" and "map_of al n = Some d"
  shows "map_of (pre @ al) n = Some d"
proof -
  have "n \<in> fst ` set al" using map_of_SomeD[OF assms(2)] by force
  then have "n \<notin> fst ` set pre" using assms(1) by auto
  then have "map_of pre n = None" by (simp add: map_of_eq_None_iff)
  then show ?thesis using assms(2) by (simp add: map_add_def)
qed

lemma evict_if_full_ok:
  assumes "pager_inv p"
  shows "\<exists>q. evict_if_full p = (Inr (), q) \<and> pager_inv q \<and> pager_ext p q \<and>
           page_image q = page_image p \<and> num_pages q = num_pages p \<and> touched q = touched p \<and>
           shadow q = shadow p \<and> next_oid q = next_oid p \<and>
           (touched p = None \<longrightarrow> length (pool q) < capacity p) \<and>
           (touched p \<noteq> None \<longrightarrow> q = p) \<and> keeps_clean p q"
proof (cases "touched p = None")
  case False
  then show ?thesis using assms by (auto simp: evict_if_full_def)
next
  case True
  have wf: "0 < capacity p" "distinct (map fst (pool p))"
    and ent: "\<And>n d. obj_at p n = Some d \<Longrightarrow> length (snd d) = PAGE_SIZE \<and> fst d < next_oid p"
    and agree: "\<And>n d. obj_at p n = Some d \<Longrightarrow> n \<notin> dirty p \<Longrightarrow> snd d = disk_page (pfile p) n"
    using assms True by (auto simp: pager_inv_def pool_wf_def clean_agree_def)
  obtain q where q: "evict_loop (capacity p) (pool p) p = (Inr (), q)"
    and len: "length (pool q) < capacity p" and cl: "clean_agree q"
    and im: "\<And>n. page_image q n =
              (case obj_at p n of Some d \<Rightarrow> snd d | None \<Rightarrow> disk_page (pfile p) n)"
    using evict_loop_ok[OF wf, of p] ent agree unfolding obj_at_def by blast
  obtain pre where pre: "pool p = pre @ pool q" using evict_loop_suffix[OF q] by blast
  have old: "\<And>n d. obj_at q n = Some d \<Longrightarrow> obj_at p n = Some d"
    unfolding obj_at_def using map_of_suffix[of pre "pool q"] wf(2) pre by simp
  note fr = evict_loop_frame[OF q]
  have "distinct (map fst (pool q))" using wf(2) pre by simp
  then have "pool_wf q" using wf(1) ent old fr unfolding pool_wf_def by metis
  then have "pager_inv q" using cl by (simp add: pager_inv_def)
  moreover have "pager_ext p q" using True fr old by (simp add: pager_ext_def)
  moreover have "page_image q = page_image p" using im by (simp add: page_image_def fun_eq_iff)
  moreover have "dirty_ok p \<Longrightarrow> dirty_ok q"
    using evict_loop_dirty[OF q wf(2)] by (simp add: dirty_ok_pool)
  ultimately show ?thesis using q True fr len cl by (simp add: evict_if_full_def keeps_clean_def)
qed

section \<open>Reading a page\<close>

lemma obj_at_put: "obj_at (pool_put n d b p) m = (if m = n then Some d else obj_at p m)"
  using map_of_move_end[of n "pool p" d m] by (simp add: obj_at_def pool_put_def)

lemma pool_put_frame [simp]:
  "num_pages (pool_put n d b p) = num_pages p" "capacity (pool_put n d b p) = capacity p"
  "touched (pool_put n d b p) = touched p" "shadow (pool_put n d b p) = shadow p"
  "next_oid (pool_put n d b p) = next_oid p" "pfile (pool_put n d b p) = pfile p"
  "dirty (pool_put n d b p) = (if b then insert n (dirty p) else dirty p)"
  by (simp_all add: pool_put_def)

lemma pool_put_image:
  "page_image (pool_put n d b p) m = (if m = n then snd d else page_image p m)"
  by (simp add: page_image_def obj_at_put cong: option.case_cong)

lemma pool_put_wf:
  assumes "pool_wf p" and "length (snd d) = PAGE_SIZE" and "fst d < next_oid p"
  shows "pool_wf (pool_put n d b p)"
proof -
  have "distinct (map fst (pool (pool_put n d b p)))"
    using assms(1) distinct_move_end[of "pool p" n d] by (simp add: pool_wf_def pool_put_def)
  then show ?thesis using assms by (simp add: pool_wf_def obj_at_put)
qed

lemma pool_get_ok:
  assumes "pool_get n p = (r, q)" and "pager_inv p"
  shows "r = obj_at p n \<and> pager_inv q \<and> pager_ext p q \<and> page_image q = page_image p \<and>
         obj_at q = obj_at p \<and> num_pages q = num_pages p \<and> touched q = touched p \<and>
         shadow q = shadow p \<and> next_oid q = next_oid p \<and> pfile q = pfile p \<and> dirty q = dirty p \<and>
         keeps_clean p q"
proof (cases "obj_at p n")
  case None
  then show ?thesis using assms by (auto simp: pool_get_def obj_at_def)
next
  case (Some d)
  then have q: "r = Some d" "q = pool_put n d False p"
    using assms(1) by (auto simp: pool_get_def obj_at_def pool_put_def)
  have m: "obj_at q = obj_at p" using Some q by (auto simp: fun_eq_iff obj_at_put)
  have "pool_wf p" using assms(2) by (simp add: pager_inv_def)
  then have "pool_wf q" using Some unfolding q(2) by (intro pool_put_wf) (auto simp: pool_wf_def)
  then have "pager_inv q"
    using assms(2) m q(2) by (auto simp: pager_inv_def clean_agree_def)
  moreover have "pager_ext p q" "page_image q = page_image p"
    using m q(2) by (simp_all add: pager_ext_def page_image_def fun_eq_iff cong: option.case_cong)
  moreover have "keeps_clean p q"
    using m q(2) by (simp add: keeps_clean_def clean_agree_def dirty_ok_def)
  ultimately show ?thesis using Some q m by simp
qed

lemma pager_get_ok:
  assumes "pager_inv p" and "n < num_pages p \<or> n = 0"
  shows "\<exists>d q. pager_get n p = (Inr d, q) \<and> snd d = page_image p n \<and>
           obj_at q n = Some d \<and> pager_inv q \<and> pager_ext p q \<and>
           page_image q = page_image p \<and> num_pages q = num_pages p \<and>
           touched q = touched p \<and> shadow q = shadow p \<and> fst d < next_oid q \<and> keeps_clean p q"
proof -
  obtain r q0 where g: "pool_get n p = (r, q0)" by force
  note f0 = pool_get_ok[OF g assms(1)]
  show ?thesis
  proof (cases r)
    case (Some d)
    then have "obj_at p n = Some d" using f0 by simp
    then have "snd d = page_image p n" "fst d < next_oid p"
      using assms(1) by (auto simp: page_image_def pager_inv_def pool_wf_def)
    then show ?thesis using assms(2) g Some f0 by (auto simp: pager_get_def)
  next
    case None
    then have none: "obj_at p n = None" using f0 by simp
    define d where "d = (next_oid q0, disk_page (pfile q0) n)"
    define q1 where "q1 = q0\<lparr>misses := Suc (misses q0), next_oid := Suc (next_oid q0)\<rparr>"
    have i1: "pager_inv q1" and e1: "pager_ext p q1" and im1: "page_image q1 = page_image p"
      and o1: "obj_at q1 = obj_at p" and c1: "keeps_clean p q1"
      using f0 by (simp_all add: q1_def)
    obtain q2 where q2: "evict_if_full q1 = (Inr (), q2)" and i2: "pager_inv q2"
      and e2: "pager_ext q1 q2" and im2: "page_image q2 = page_image q1"
      and k2: "num_pages q2 = num_pages q1" "touched q2 = touched q1" "shadow q2 = shadow q1"
        "next_oid q2 = next_oid q1"
      and c2: "keeps_clean q1 q2"
      using evict_if_full_ok[OF i1] by blast
    have img: "snd d = page_image p n"
      using none f0 by (simp add: d_def page_image_def)
    have none2: "obj_at q2 n = None"
    proof (rule ccontr)
      assume "obj_at q2 n \<noteq> None"
      then obtain x where x: "obj_at q2 n = Some x" by blast
      then have "fst x < next_oid q1" using i2 k2 unfolding pager_inv_def pool_wf_def by metis
      then have "obj_at q1 n = Some x" using e2 x unfolding pager_ext_def by blast
      then show False using none o1 by simp
    qed
    then have disk2: "disk_page (pfile q2) n = snd d"
      using im2 im1 img by (metis page_image_def option.case(1))
    let ?q = "pool_put n d False q2"
    have d: "length (snd d) = PAGE_SIZE" "fst d < next_oid q2" "fst d = next_oid p"
      using k2 f0 by (simp_all add: d_def q1_def)
    have "pool_wf ?q"
      using i2 d by (intro pool_put_wf) (simp_all add: pager_inv_def)
    moreover have "clean_agree ?q" if "clean_agree q2"
      using that disk2 by (simp add: clean_agree_def obj_at_put)
    ultimately have inv: "pager_inv ?q" using i2 by (simp add: pager_inv_def)
    have "pager_ext p q2" using pager_ext_trans[OF e1 e2] .
    then have ext: "pager_ext p ?q"
      using d by (simp add: pager_ext_def obj_at_put)
    have im: "page_image ?q = page_image p"
      using im1 im2 img by (simp add: pool_put_image fun_eq_iff)
    have "pager_get n p = (Inr d, ?q)"
      using assms(2) g None q2
      by (auto simp: pager_get_def read_page_def d_def q1_def Let_def)
    moreover have "obj_at ?q n = Some d" by (simp add: obj_at_put)
    moreover have "num_pages ?q = num_pages p" "touched ?q = touched p" "shadow ?q = shadow p"
      "fst d < next_oid ?q"
      using f0 k2 d by (simp_all add: q1_def)
    moreover have "keeps_clean q2 ?q"
      using disk2 by (auto simp: keeps_clean_def clean_agree_def dirty_ok_def obj_at_put)
    then have "keeps_clean p ?q"
      using keeps_clean_trans[OF c1] keeps_clean_trans[OF c2] by blast
    ultimately show ?thesis using img inv ext im by blast
  qed
qed

section \<open>Writing a page\<close>

text \<open>A captured pre-image is the page's image at that moment.\<close>

definition pre_image_of :: "pager \<Rightarrow> nat \<Rightarrow> pobj option \<Rightarrow> bool" where
  "pre_image_of p n im \<longleftrightarrow>
     (case im of
        Some d \<Rightarrow> snd d = page_image p n \<and> length (snd d) = PAGE_SIZE
      | None \<Rightarrow> page_image p n = disk_page (pfile p) n)"

lemma page_image_length: "pager_inv p \<Longrightarrow> length (page_image p n) = PAGE_SIZE"
  by (cases "obj_at p n") (auto simp: page_image_def pager_inv_def pool_wf_def)

lemma capture_shadow_ok:
  assumes inv: "pager_inv p"
  shows "pager_inv (capture_shadow n p) \<and> pager_ext p (capture_shadow n p) \<and>
         page_image (capture_shadow n p) = page_image p \<and>
         num_pages (capture_shadow n p) = num_pages p \<and>
         touched (capture_shadow n p) = touched p \<and> keeps_clean p (capture_shadow n p) \<and>
         (shadow (capture_shadow n p) = shadow p \<and> (touched p = None \<or> map_of (shadow p) n \<noteq> None) \<or>
          map_of (shadow p) n = None \<and>
          (\<exists>im. shadow (capture_shadow n p) = shadow p @ [(n, im)] \<and> pre_image_of p n im))"
proof (cases "touched p \<noteq> None \<and> map_of (shadow p) n = None")
  case False
  then show ?thesis using inv by (auto simp: capture_shadow_def)
next
  case True
  have sh: "pager_inv (q\<lparr>shadow := s\<rparr>) = pager_inv q" "pager_ext p (q\<lparr>shadow := s\<rparr>) = pager_ext p q"
    "page_image (q\<lparr>shadow := s\<rparr>) = page_image q" "keeps_clean p (q\<lparr>shadow := s\<rparr>) = keeps_clean p q"
    for q s
    by (simp_all add: pager_inv_def pool_wf_def clean_agree_def pager_ext_def page_image_def
        keeps_clean_def dirty_ok_def obj_at_def fun_eq_iff cong: option.case_cong)
  obtain r q where g: "pool_get n p = (r, q)" by force
  note f = pool_get_ok[OF g inv]
  show ?thesis
  proof (cases r)
    case (Some d)
    then have "pre_image_of p n (Some d)"
      using f page_image_length[OF inv, of n] by (auto simp: pre_image_of_def page_image_def)
    then show ?thesis using True Some g f by (auto simp: capture_shadow_def sh)
  next
    case None
    then have none: "page_image p n = disk_page (pfile p) n"
      using f by (simp add: page_image_def)
    then have "pre_image_of p n None" "pre_image_of p n (Some (next_oid q, disk_page (pfile q) n))"
      using f by (simp_all add: pre_image_of_def)
    then show ?thesis
      using True None g f by (auto simp: capture_shadow_def sh read_page_def)
  qed
qed

lemma pager_write_ok:
  assumes inv: "pager_inv p" and len: "length d \<le> PAGE_SIZE"
  shows "\<exists>q k. pager_write n d p = (Inr (), q) \<and>
           page_image q = (page_image p)(n := pad_to PAGE_SIZE d) \<and>
           pager_inv q \<and> pager_ext p q \<and> num_pages q = max (num_pages p) (Suc n) \<and>
           touched q = map_option (insert n) (touched p) \<and>
           shadow q = shadow (capture_shadow n p) \<and> keeps_clean p q \<and>
           obj_at q n = Some (k, pad_to PAGE_SIZE d) \<and> next_oid p \<le> k"
proof -
  define p1 where "p1 = capture_shadow n p"
  note f1 = capture_shadow_ok[OF inv, of n, folded p1_def]
  obtain q where q: "evict_if_full p1 = (Inr (), q)" and iq: "pager_inv q" and eq: "pager_ext p1 q"
    and im: "page_image q = page_image p1" and k: "num_pages q = num_pages p1"
      "touched q = touched p1" "shadow q = shadow p1" and cq: "keeps_clean p1 q"
    using evict_if_full_ok f1 by blast
  define q1 where "q1 = pool_put n (next_oid q, pad_to PAGE_SIZE d) True (q\<lparr>next_oid := Suc (next_oid q)\<rparr>)"
  define q2 where "q2 = (if num_pages q1 \<le> n then q1\<lparr>num_pages := Suc n\<rparr> else q1)"
  define q3 where "q3 = (case touched q2 of None \<Rightarrow> q2 | Some T \<Rightarrow> q2\<lparr>touched := Some (insert n T)\<rparr>)"
  have w: "pager_write n d p = (Inr (), q3)"
  proof -
    have "pager_write n d p = bindP evict_if_full (\<lambda>_ q.
        let q1 = pool_put n (next_oid q, pad_to PAGE_SIZE d) True (q\<lparr>next_oid := Suc (next_oid q)\<rparr>);
            q2 = (if num_pages q1 \<le> n then q1\<lparr>num_pages := Suc n\<rparr> else q1)
        in (Inr (), (case touched q2 of
              None \<Rightarrow> q2 | Some T \<Rightarrow> q2\<lparr>touched := Some (insert n T)\<rparr>))) p1"
      using len by (simp add: pager_write_def p1_def)
    then show ?thesis
      by (simp only: bindP_def q q1_def q2_def q3_def Let_def prod.case sum.case)
  qed
  have same: "obj_at q3 = obj_at q1" "pfile q3 = pfile q1" "dirty q3 = dirty q1"
      "capacity q3 = capacity q1" "next_oid q3 = next_oid q1" "pool q3 = pool q1"
      "shadow q3 = shadow q1" "(touched q3 = None) = (touched q1 = None)"
    by (auto simp: q3_def q2_def obj_at_def fun_eq_iff split: option.splits)
  have o: "obj_at q1 m = (if m = n then Some (next_oid q, pad_to PAGE_SIZE d) else obj_at q m)" for m
    by (simp add: q1_def obj_at_put)
  have wf1: "pool_wf q1"
    using iq len unfolding q1_def
    by (intro pool_put_wf pool_wf_oid) (auto simp: pager_inv_def)
  have cl: "clean_agree q \<Longrightarrow> clean_agree q3" and dk: "dirty_ok q \<Longrightarrow> dirty_ok q3"
    using o same by (auto simp: clean_agree_def dirty_ok_def q1_def)
  have "pool_wf q3" using wf1 same by (simp add: pool_wf_def)
  then have "pager_inv q3"
    using cl iq same(8) by (auto simp: pager_inv_def q1_def)
  moreover have "pager_ext q q3"
    using o same by (auto simp: pager_ext_def q1_def)
  then have "pager_ext p q3" using pager_ext_trans f1 eq by blast
  moreover have "page_image q3 = (page_image p)(n := pad_to PAGE_SIZE d)"
    using o same im f1 by (auto simp: page_image_def q1_def fun_eq_iff cong: option.case_cong)
  moreover have "num_pages q3 = max (num_pages p) (Suc n)"
    using k f1 by (auto simp: q3_def q2_def q1_def split: option.splits)
  moreover have "touched q3 = map_option (insert n) (touched p)"
    using k f1 by (auto simp: q3_def q2_def q1_def split: option.splits)
  moreover have "shadow q3 = shadow p1" using same k by (simp add: q1_def)
  moreover have "keeps_clean p q3"
    using keeps_clean_trans f1 cq cl dk unfolding keeps_clean_def by blast
  moreover have "obj_at q3 n = Some (next_oid q, pad_to PAGE_SIZE d)" using o same by simp
  moreover have "next_oid p \<le> next_oid q"
    using f1 eq by (auto simp: pager_ext_def)
  ultimately show ?thesis using w by (auto simp: p1_def)
qed

lemma pager_allocate_ok:
  assumes inv: "pager_inv p"
  shows "\<exists>q. pager_allocate p = (Inr (num_pages p), q) \<and>
           page_image q = (page_image p)(num_pages p := EMPTY_PAGE) \<and>
           pager_inv q \<and> pager_ext p q \<and> num_pages q = Suc (num_pages p) \<and>
           touched q = map_option (insert (num_pages p)) (touched p) \<and>
           shadow q = shadow (capture_shadow (num_pages p) (p\<lparr>num_pages := Suc (num_pages p)\<rparr>)) \<and>
           keeps_clean p q \<and> (\<exists>k. obj_at q (num_pages p) = Some (k, EMPTY_PAGE) \<and> next_oid p \<le> k)"
proof -
  let ?p = "p\<lparr>num_pages := Suc (num_pages p)\<rparr>"
  have same: "pager_inv ?p = pager_inv p" "page_image ?p = page_image p"
    "pager_ext ?p = pager_ext p" "keeps_clean ?p = keeps_clean p"
    by (simp_all add: pager_inv_def pool_wf_def clean_agree_def pager_ext_def page_image_def
        keeps_clean_def dirty_ok_def obj_at_def fun_eq_iff cong: option.case_cong)
  have pad: "pad_to PAGE_SIZE EMPTY_PAGE = EMPTY_PAGE" "length EMPTY_PAGE \<le> PAGE_SIZE"
    by (simp_all add: pad_to_def EMPTY_PAGE_def)
  have "pager_inv ?p" using inv same by simp
  from pager_write_ok[OF this pad(2), of "num_pages p"] show ?thesis
    unfolding same pad by (auto simp: pager_allocate_def Let_def)
qed

end
