(* ===== verification/PagerTxn.thy ===== *)
theory PagerTxn
  imports PagerProps
begin

text \<open>
  Transactions on the pager. A transaction is any sequence of reads, writes and
  allocations between \<open>begin_txn\<close> and \<open>rollback_txn\<close> or \<open>collect_commit\<close>, failing
  operations included. The shadow copies bring every page back; a commit hands the images
  of exactly the written pages to the log; the file itself is written by eviction outside
  a transaction and by \<open>flush\<close> only.
\<close>

section \<open>Operations inside a transaction\<close>

datatype pop = PGet nat | PWrite nat bytes | PAlloc

fun pop_step :: "pop \<Rightarrow> pager \<Rightarrow> pager" where
  "pop_step (PGet n) p = snd (pager_get n p)"
| "pop_step (PWrite n d) p = snd (pager_write n d p)"
| "pop_step PAlloc p = snd (pager_allocate p)"

definition txn_run :: "pop list \<Rightarrow> pager \<Rightarrow> pager" where
  "txn_run ops p = foldl (\<lambda>q op. pop_step op q) p ops"

text \<open>What a shadow entry brings back.\<close>

definition restores :: "pager \<Rightarrow> nat \<Rightarrow> pobj option \<Rightarrow> bool" where
  "restores p n im \<longleftrightarrow>
     (case im of Some d \<Rightarrow> snd d = page_image p n | None \<Rightarrow> page_image p n = disk_page (pfile p) n)"

definition shadow_wf :: "pager \<Rightarrow> bool" where
  "shadow_wf p \<longleftrightarrow> distinct (map fst (shadow p)) \<and>
     (\<forall>n d. map_of (shadow p) n = Some (Some d) \<longrightarrow> length (snd d) = PAGE_SIZE \<and> fst d < next_oid p)"

definition shadow_complete :: "pager \<Rightarrow> pager \<Rightarrow> bool" where
  "shadow_complete p0 p \<longleftrightarrow>
     (\<forall>n. case map_of (shadow p) n of
            None \<Rightarrow> page_image p n = page_image p0 n | Some im \<Rightarrow> restores p0 n im)"

definition txn_inv :: "pager \<Rightarrow> pager \<Rightarrow> bool" where
  "txn_inv p0 p \<longleftrightarrow>
     pager_inv p \<and> pager_ext p0 p \<and> keeps_clean p0 p \<and> pfile p = pfile p0 \<and>
     shadow_wf p \<and> shadow_complete p0 p \<and>
     touched p = Some (fst ` set (shadow p)) \<and> fst ` set (shadow p) \<subseteq> dirty p \<and>
     dirty p \<subseteq> dirty p0 \<union> fst ` set (shadow p)"

lemma txn_invD:
  assumes "txn_inv p0 p"
  shows "pager_inv p" "pager_ext p0 p" "keeps_clean p0 p" "pfile p = pfile p0" "shadow_wf p"
    "shadow_complete p0 p" "touched p = Some (fst ` set (shadow p))"
    "fst ` set (shadow p) \<subseteq> dirty p" "dirty p \<subseteq> dirty p0 \<union> fst ` set (shadow p)"
  using assms by (simp_all add: txn_inv_def)

lemma begin_txn_wf:
  assumes "pool_wf p" and "begin_txn p = (Inr (), q)"
  shows "txn_inv (p\<lparr>touched := Some {}\<rparr>) q"
proof -
  have q: "q = p\<lparr>touched := Some {}, shadow := []\<rparr>"
    using assms(2) by (auto simp: begin_txn_def split: if_splits)
  have o: "obj_at q = obj_at p" "obj_at (p\<lparr>touched := Some {}\<rparr>) = obj_at p"
    by (simp_all add: q obj_at_def fun_eq_iff)
  have "pager_inv q" using assms(1) o by (auto simp: pager_inv_def pool_wf_def q)
  then show ?thesis
    using o by (simp add: txn_inv_def shadow_wf_def shadow_complete_def pager_ext_def
        keeps_clean_def clean_agree_def dirty_ok_def page_image_def q cong: option.case_cong)
qed

lemma begin_txn_inv:
  assumes "pager_inv p" and "begin_txn p = (Inr (), q)"
  shows "txn_inv (p\<lparr>touched := Some {}\<rparr>) q" and "page_image q = page_image p"
    and "pager_inv q" and "pfile q = pfile p" and "dirty q = dirty p"
proof -
  have q: "q = p\<lparr>touched := Some {}, shadow := []\<rparr>"
    using assms(2) by (auto simp: begin_txn_def split: if_splits)
  have o: "obj_at q = obj_at p" "obj_at (p\<lparr>touched := Some {}\<rparr>) = obj_at p"
    by (simp_all add: q obj_at_def fun_eq_iff)
  show "pager_inv q" using assms(1) o by (auto simp: pager_inv_def pool_wf_def q)
  show "page_image q = page_image p" "pfile q = pfile p" "dirty q = dirty p"
    using o by (auto simp: page_image_def q fun_eq_iff cong: option.case_cong)
  show "txn_inv (p\<lparr>touched := Some {}\<rparr>) q"
    using begin_txn_wf[OF _ assms(2)] assms(1) by (simp add: pager_inv_def)
qed

section \<open>The transaction invariant\<close>

lemma capture_shadow_wf:
  assumes "shadow_wf p" and "pager_inv p"
  shows "shadow_wf (capture_shadow n p)"
proof (cases "touched p \<noteq> None \<and> map_of (shadow p) n = None")
  case False
  then show ?thesis using assms by (auto simp: capture_shadow_def)
next
  case True
  obtain r q where g: "pool_get n p = (r, q)" by force
  note f = pool_get_ok[OF g assms(2)]
  have new: "n \<notin> fst ` set (shadow p)" using True by (simp add: map_of_eq_None_iff)
  have old: "length (snd d) = PAGE_SIZE \<and> fst d < Suc (next_oid p)"
    if "map_of (shadow p) m = Some (Some d)" for m d
    using assms(1) that unfolding shadow_wf_def by (meson less_Suc_eq)
  have obj: "length (snd d) = PAGE_SIZE \<and> fst d < next_oid p" if "obj_at p n = Some d" for d
    using assms(2) that by (simp add: pager_inv_def pool_wf_def)
  have app: "map_of (shadow p @ [(n, im)]) m = (if m = n then Some im else map_of (shadow p) m)"
    for m im using True by (auto simp: map_add_def split: option.splits)
  show ?thesis
  proof (cases r)
    case (Some d)
    then show ?thesis
      using True g f assms(1) obj[of d] new
      by (simp add: capture_shadow_def shadow_wf_def app del: map_of_append)
  next
    case None
    then show ?thesis
      using True g f assms(1) new old
      by (auto simp: capture_shadow_def shadow_wf_def app read_page_def simp del: map_of_append)
  qed
qed

lemma get_in_txn:
  assumes "touched p \<noteq> None" and "pager_get n p = (r, q)"
  shows "dirty q = dirty p \<and> pfile q = pfile p \<and> shadow q = shadow p \<and> next_oid p \<le> next_oid q"
  using assms
  by (auto simp: pager_get_def pool_get_def read_page_def evict_if_full_def bindP_def pool_put_def
      Let_def split: if_splits option.splits)

lemma write_in_txn:
  assumes "touched p \<noteq> None" and "pager_write n d p = (Inr (), q)"
  shows "dirty q = insert n (dirty p) \<and> next_oid (capture_shadow n p) \<le> next_oid q"
proof -
  have t: "touched (capture_shadow n p) \<noteq> None" and d: "dirty (capture_shadow n p) = dirty p"
    using assms(1)
    by (auto simp: capture_shadow_def pool_get_def read_page_def Let_def split: option.splits)
  show ?thesis
    using assms(2) t d
    by (auto simp: pager_write_def evict_if_full_def bindP_def pool_put_def Let_def split: if_splits)
qed

lemma txn_inv_write:
  assumes inv: "txn_inv p0 p" and len: "length d \<le> PAGE_SIZE"
    and q: "pager_write n d p = (Inr (), q)"
  shows "txn_inv p0 q"
proof -
  note I = txn_invD[OF inv]
  obtain k where k: "page_image q = (page_image p)(n := pad_to PAGE_SIZE d)" "pager_inv q"
    "pager_ext p q" "touched q = map_option (insert n) (touched p)"
    "shadow q = shadow (capture_shadow n p)" "keeps_clean p q"
    using pager_write_ok[OF I(1) len, of n] q by auto
  have t: "touched p \<noteq> None" using I(7) by simp
  have w: "dirty q = insert n (dirty p)" "next_oid (capture_shadow n p) \<le> next_oid q"
    using write_in_txn[OF t q] by auto
  have sw: "shadow_wf q"
    using capture_shadow_wf[OF I(5,1), of n] k(5) w(2) unfolding shadow_wf_def
    by (metis order_less_le_trans)
  have c: "shadow q = shadow p \<and> map_of (shadow p) n \<noteq> None \<or>
     map_of (shadow p) n = None \<and> (\<exists>im. shadow q = shadow p @ [(n, im)] \<and> pre_image_of p n im)"
    using capture_shadow_ok[OF I(1), of n] k(5) t by auto
  have keys: "fst ` set (shadow q) = insert n (fst ` set (shadow p))"
    using c by (auto simp: map_of_eq_None_iff)
  have "shadow_complete p0 q"
    unfolding shadow_complete_def
  proof
    fix m
    have old: "case map_of (shadow p) m of None \<Rightarrow> page_image p m = page_image p0 m
        | Some im \<Rightarrow> restores p0 m im"
      using I(6) by (simp add: shadow_complete_def)
    show "case map_of (shadow q) m of None \<Rightarrow> page_image q m = page_image p0 m
        | Some im \<Rightarrow> restores p0 m im"
      using c
    proof (elim disjE conjE exE)
      assume "shadow q = shadow p" "map_of (shadow p) n \<noteq> None"
      then show ?thesis using old k(1) by (cases "m = n") (auto split: option.splits)
    next
      fix im assume n: "map_of (shadow p) n = None" "shadow q = shadow p @ [(n, im)]"
        "pre_image_of p n im"
      have same: "page_image p n = page_image p0 n"
        using I(6) n(1) unfolding shadow_complete_def by (metis option.case(1))
      have "restores p0 n im"
        using n(3) same I(4) by (cases im) (auto simp: restores_def pre_image_of_def)
      then show ?thesis
        using old n(1,2) k(1) by (cases "m = n") (auto simp: map_add_def split: option.splits)
    qed
  qed
  moreover have "pfile q = pfile p0" using k(3) t I(4) by (simp add: pager_ext_def)
  moreover have "pager_ext p0 q" using pager_ext_trans[OF I(2) k(3)] .
  moreover have "keeps_clean p0 q" using keeps_clean_trans[OF I(3) k(6)] .
  moreover have "touched q = Some (fst ` set (shadow q))" using k(4) I(7) keys by simp
  ultimately show ?thesis using k(2) sw w I(8,9) keys by (auto simp: txn_inv_def)
qed

lemma txn_inv_step:
  assumes inv: "txn_inv p0 p"
  shows "txn_inv p0 (pop_step op p)"
proof -
  note I = txn_invD[OF inv]
  have t: "touched p \<noteq> None" using I(7) by simp
  show ?thesis
  proof (cases op)
    case (PGet n)
    obtain r q where g: "pager_get n p = (r, q)" by force
    show ?thesis
    proof (cases "n < num_pages p \<or> n = 0")
      case False
      then show ?thesis using PGet inv by (simp add: pager_get_def)
    next
      case True
      then have q: "pager_inv q" "pager_ext p q" "page_image q = page_image p"
        "touched q = touched p" "keeps_clean p q"
        using pager_get_ok[OF I(1) True] g by auto
      note s = get_in_txn[OF t g]
      have "shadow_wf q"
        using I(5) s unfolding shadow_wf_def by (metis order_less_le_trans)
      then show ?thesis
        using PGet g q s I pager_ext_trans[OF I(2) q(2)] keeps_clean_trans[OF I(3) q(5)]
        by (simp add: txn_inv_def shadow_complete_def cong: option.case_cong)
    qed
  next
    case (PWrite n d)
    show ?thesis
    proof (cases "length d \<le> PAGE_SIZE")
      case True
      then obtain q where "pager_write n d p = (Inr (), q)"
        using pager_write_ok[OF I(1)] by blast
      then show ?thesis using txn_inv_write[OF inv True] PWrite by simp
    next
      case False
      then show ?thesis using PWrite inv by (simp add: pager_write_def)
    qed
  next
    case PAlloc
    let ?p = "p\<lparr>num_pages := Suc (num_pages p)\<rparr>"
    have "pager_inv ?p = pager_inv p" "pager_ext p0 ?p = pager_ext p0 p"
      "keeps_clean p0 ?p = keeps_clean p0 p" "page_image ?p = page_image p"
      by (simp_all add: pager_inv_def pool_wf_def clean_agree_def pager_ext_def page_image_def
          keeps_clean_def dirty_ok_def obj_at_def fun_eq_iff cong: option.case_cong)
    then have inv': "txn_inv p0 ?p"
      using inv by (simp add: txn_inv_def shadow_wf_def shadow_complete_def cong: option.case_cong)
    have len: "length EMPTY_PAGE \<le> PAGE_SIZE" by (simp add: EMPTY_PAGE_def)
    obtain q where q: "pager_write (num_pages p) EMPTY_PAGE ?p = (Inr (), q)"
      using pager_write_ok[OF txn_invD(1)[OF inv'] len] by blast
    then show ?thesis
      using txn_inv_write[OF inv' len q] PAlloc by (simp add: pager_allocate_def bindP_def)
  qed
qed

lemma txn_inv_run: "txn_inv p0 p \<Longrightarrow> txn_inv p0 (txn_run ops p)"
  unfolding txn_run_def by (induction ops arbitrary: p) (auto intro: txn_inv_step)

section \<open>Rollback\<close>

lemma restore_loop_ok:
  assumes "distinct (map fst sh)"
  shows "obj_at (restore_loop sh p) n = (case map_of sh n of None \<Rightarrow> obj_at p n | Some im \<Rightarrow> im) \<and>
         pfile (restore_loop sh p) = pfile p \<and> capacity (restore_loop sh p) = capacity p \<and>
         next_oid (restore_loop sh p) = next_oid p \<and> num_pages (restore_loop sh p) = num_pages p \<and>
         dirty (restore_loop sh p) = dirty p - fst ` set sh \<and>
         (distinct (map fst (pool p)) \<longrightarrow> distinct (map fst (pool (restore_loop sh p))))"
  using assms
proof (induction sh arbitrary: p)
  case Nil
  then show ?case by simp
next
  case (Cons kv sh)
  obtain m im where kv: "kv = (m, im)" by force
  define p' where "p' = (case im of
          None \<Rightarrow> p\<lparr>pool := drop_key m (pool p), dirty := dirty p - {m}\<rparr>
        | Some d \<Rightarrow> (pool_put m d False p)\<lparr>dirty := dirty p - {m}\<rparr>)"
  have m: "map_of sh m = None" "m \<notin> fst ` set sh"
    using Cons.prems kv by (simp_all add: map_of_eq_None_iff)
  have p': "obj_at p' n = (if n = m then im else obj_at p n)" "pfile p' = pfile p"
    "capacity p' = capacity p" "next_oid p' = next_oid p" "num_pages p' = num_pages p"
    "dirty p' = dirty p - {m}"
    "distinct (map fst (pool p)) \<Longrightarrow> distinct (map fst (pool p'))"
    using distinct_move_end[of "pool p" m] distinct_drop_key[of "pool p" m]
    by (auto simp: p'_def obj_at_def map_of_drop_key map_of_move_end pool_put_def
        simp del: map_of_append split: option.splits)
  have "restore_loop (kv # sh) p = restore_loop sh p'" by (simp add: kv p'_def)
  then show ?case
    using Cons.IH[of p'] Cons.prems p' m kv by (auto split: option.splits)
qed

lemma rollback_ok:
  assumes "txn_inv p0 p"
  shows "page_image (rollback_txn p) = page_image p0" and "pfile (rollback_txn p) = pfile p0"
    and "touched (rollback_txn p) = None"
    and "pool_wf (rollback_txn p)" and "dirty (rollback_txn p) \<subseteq> dirty p0"
    and "clean_agree p0 \<Longrightarrow> dirty p0 = {} \<Longrightarrow> clean_agree (rollback_txn p)"
proof -
  note I = txn_invD[OF assms]
  have dist: "distinct (map fst (shadow p))" using I(5) by (simp add: shadow_wf_def)
  note R = restore_loop_ok[OF dist, of p]
  let ?q = "rollback_txn p"
  have q: "obj_at ?q n = (case map_of (shadow p) n of None \<Rightarrow> obj_at p n | Some im \<Rightarrow> im)"
    "pfile ?q = pfile p" "dirty ?q = dirty p - fst ` set (shadow p)" "capacity ?q = capacity p"
    "next_oid ?q = next_oid p" for n
    using R[of n] by (simp_all add: rollback_txn_def obj_at_def)
  show f: "pfile ?q = pfile p0" using q I(4) by simp
  show im: "page_image ?q = page_image p0"
  proof
    fix n
    show "page_image ?q n = page_image p0 n"
      using I(6)[unfolded shadow_complete_def, rule_format, of n] I(4) q(1)[of n] q(2)
      by (auto simp: page_image_def restores_def split: option.splits)
  qed
  show "touched ?q = None" by (simp add: rollback_txn_def)
  show "dirty ?q \<subseteq> dirty p0" using q(3) I(9) by auto
  show "pool_wf ?q"
  proof -
    have wf: "pool_wf p" using I(1) by (simp add: pager_inv_def)
    have "length (snd d) = PAGE_SIZE \<and> fst d < next_oid ?q" if "obj_at ?q n = Some d" for n d
      using that wf I(5) q(1)[of n] q(5) unfolding pool_wf_def shadow_wf_def
      by (metis option.case_eq_if option.collapse option.inject)
    then show ?thesis
      using wf R q(4) by (simp add: pool_wf_def rollback_txn_def)
  qed
  show "clean_agree ?q" if cl: "clean_agree p0" "dirty p0 = {}"
  proof -
    have p0: "page_image p0 n = disk_page (pfile p0) n" for n
      using cl by (cases "obj_at p0 n") (auto simp: page_image_def clean_agree_def)
    have "snd d = disk_page (pfile ?q) n" if "obj_at ?q n = Some d" for n d
      using that p0[of n] im f by (metis page_image_def option.case(2))
    then show ?thesis by (simp add: clean_agree_def)
  qed
qed

text \<open>
  C4. Rolling back undoes a transaction: whatever reads, writes and allocations ran after
  \<open>begin_txn\<close>, failing ones included, \<open>rollback_txn\<close> brings every page of the database
  back to its image before the transaction, without having touched the file; and when all
  earlier commits had been flushed, the pool keeps its invariant.
\<close>

theorem rollback_restores_pages:
  assumes "pager_inv p" and "begin_txn p = (Inr (), p1)"
  shows "page_image (rollback_txn (txn_run ops p1)) = page_image p \<and>
         pfile (rollback_txn (txn_run ops p1)) = pfile p \<and>
         (dirty p = {} \<longrightarrow> pager_inv (rollback_txn (txn_run ops p1)))"
proof -
  let ?p0 = "p\<lparr>touched := Some {}\<rparr>"
  note B = begin_txn_inv[OF assms]
  note T = txn_inv_run[OF B(1), of ops]
  have same: "page_image ?p0 = page_image p" "pfile ?p0 = pfile p" "clean_agree ?p0 = clean_agree p"
    "dirty ?p0 = dirty p"
    by (simp_all add: page_image_def clean_agree_def obj_at_def fun_eq_iff cong: option.case_cong)
  have "touched p = None" using assms(2) by (auto simp: begin_txn_def split: if_splits)
  then have "clean_agree p" using assms(1) by (simp add: pager_inv_def)
  then show ?thesis using rollback_ok[OF T] same by (auto simp: pager_inv_def)
qed

lemma rollback_restores_pages_witness:
  "let p = pager_init (replicate 4096 7) 2;
       q = rollback_txn (txn_run [PWrite 0 [1], PGet 9, PWrite 0 [2], PAlloc] (snd (begin_txn p)))
   in page_image q = page_image p"
proof -
  let ?p = "pager_init (replicate 4096 7) 2"
  have "pager_inv ?p" by (simp add: pager_init_inv)
  moreover have "begin_txn ?p = (Inr (), snd (begin_txn ?p))"
    by (simp add: begin_txn_def pager_init_def)
  ultimately show ?thesis
    using rollback_restores_pages[of ?p "snd (begin_txn ?p)"
        "[PWrite 0 [1], PGet 9, PWrite 0 [2], PAlloc]"]
    by (simp add: Let_def)
qed

section \<open>Commit\<close>

lemma collect_ok:
  assumes T: "txn_inv p0 p" and p0: "dirty_ok p0"
  shows "collect_commit p =
      (Inr (sorted_list_of_set (the (touched p)), num_pages p,
            map (\<lambda>n. (n, page_image p n)) (sorted_list_of_set (the (touched p)))),
       p\<lparr>touched := None, shadow := []\<rparr>)"
    and "dirty_ok p"
    and "obj_at (p\<lparr>touched := None, shadow := []\<rparr>) = obj_at p"
    and "page_image (p\<lparr>touched := None, shadow := []\<rparr>) = page_image p"
    and "pool_wf (p\<lparr>touched := None, shadow := []\<rparr>)"
    and "dirty_ok (p\<lparr>touched := None, shadow := []\<rparr>)"
proof -
  note I = txn_invD[OF T]
  show dk: "dirty_ok p" using I(3) p0 by (simp add: keeps_clean_def)
  let ?T = "fst ` set (shadow p)"
  let ?q = "p\<lparr>touched := None, shadow := []\<rparr>"
  have "mapE (\<lambda>n. case map_of (pool p) n of None \<Rightarrow> Inl KeyError | Some d \<Rightarrow> Inr (n, snd d))
      (sorted_list_of_set ?T) = Inr (map (\<lambda>n. (n, page_image p n)) (sorted_list_of_set ?T))"
  proof (rule mapE_Inr)
    fix n assume "n \<in> set (sorted_list_of_set ?T)"
    then have "n \<in> dirty p" using I(8) by auto
    then have "obj_at p n \<noteq> None" using dk by (simp add: dirty_ok_def)
    then show "(case map_of (pool p) n of None \<Rightarrow> Inl KeyError | Some d \<Rightarrow> Inr (n, snd d)) =
        Inr (n, page_image p n)"
      by (auto simp: page_image_def obj_at_def)
  qed
  then show "collect_commit p =
      (Inr (sorted_list_of_set (the (touched p)), num_pages p,
            map (\<lambda>n. (n, page_image p n)) (sorted_list_of_set (the (touched p)))), ?q)"
    using I(7) by (simp add: collect_commit_def Let_def)
  show o: "obj_at ?q = obj_at p" by (simp add: obj_at_def fun_eq_iff)
  show "page_image ?q = page_image p" "pool_wf ?q" "dirty_ok ?q"
    using I(1) dk o
    by (simp_all add: page_image_def pager_inv_def pool_wf_def dirty_ok_def
        fun_eq_iff cong: option.case_cong)
qed

lemma commit_ok:
  assumes T: "txn_inv p0 p" and p0: "clean_agree p0" "dirty_ok p0"
  shows "\<exists>q. collect_commit p =
           (Inr (sorted_list_of_set (the (touched p)), num_pages p,
                 map (\<lambda>n. (n, page_image p n)) (sorted_list_of_set (the (touched p)))), q) \<and>
         page_image q = page_image p \<and> pager_inv q \<and> dirty_ok q \<and> the (touched p) \<subseteq> dirty q \<and>
         touched q = None \<and> dirty q = dirty p \<and>
         (\<forall>n. n \<notin> the (touched p) \<longrightarrow> page_image q n = page_image p0 n)"
proof -
  note I = txn_invD[OF T] and C = collect_ok[OF T p0(2)]
  let ?T = "fst ` set (shadow p)"
  let ?q = "p\<lparr>touched := None, shadow := []\<rparr>"
  have "clean_agree p" using I(3) p0 by (simp add: keeps_clean_def)
  then have "pager_inv ?q" using C(3,5) by (simp add: pager_inv_def clean_agree_def)
  moreover have "page_image p n = page_image p0 n" if "n \<notin> ?T" for n
  proof -
    have "map_of (shadow p) n = None" using that by (simp add: map_of_eq_None_iff)
    then show ?thesis using I(6) unfolding shadow_complete_def by (metis option.case(1))
  qed
  ultimately show ?thesis using C I(7,8) by auto
qed

lemma begin_txn_start:
  assumes "pager_inv p" and "dirty_ok p" and "begin_txn p = (Inr (), q)"
  shows "clean_agree (p\<lparr>touched := Some {}\<rparr>)" and "dirty_ok (p\<lparr>touched := Some {}\<rparr>)"
    and "page_image (p\<lparr>touched := Some {}\<rparr>) = page_image p"
proof -
  have "touched p = None" using assms(3) by (auto simp: begin_txn_def split: if_splits)
  then show "clean_agree (p\<lparr>touched := Some {}\<rparr>)" "dirty_ok (p\<lparr>touched := Some {}\<rparr>)"
    using assms(1,2) by (simp_all add: pager_inv_def clean_agree_def dirty_ok_def obj_at_def)
  show "page_image (p\<lparr>touched := Some {}\<rparr>) = page_image p"
    by (simp add: page_image_def obj_at_def fun_eq_iff cong: option.case_cong)
qed

text \<open>
  Committing a transaction never fails, and it hands over exactly the pages that the
  transaction wrote, in ascending order, each with its current image; the pages themselves
  do not change, stay dirty for the next flush, and the pool's invariant holds again.
\<close>

theorem commit_collects_images:
  assumes "pager_inv p" and "dirty_ok p" and "begin_txn p = (Inr (), p1)"
    and "p2 = txn_run ops p1"
  shows "\<exists>q. collect_commit p2 =
           (Inr (sorted_list_of_set (the (touched p2)), num_pages p2,
                 map (\<lambda>n. (n, page_image p2 n)) (sorted_list_of_set (the (touched p2)))), q) \<and>
         page_image q = page_image p2 \<and> pager_inv q \<and> dirty_ok q \<and>
         the (touched p2) \<subseteq> dirty q \<and>
         (\<forall>n. n \<notin> the (touched p2) \<longrightarrow> page_image q n = page_image p n)"
proof -
  have "txn_inv (p\<lparr>touched := Some {}\<rparr>) p2"
    unfolding assms(4) by (rule txn_inv_run[OF begin_txn_inv(1)[OF assms(1,3)]])
  from commit_ok[OF this begin_txn_start(1,2)[OF assms(1-3)]] begin_txn_start(3)[OF assms(1-3)]
  show ?thesis by auto
qed

section \<open>Flush and the size of the pool\<close>

lemma flush_loop_ok:
  assumes "distinct ns" and "\<forall>n \<in> set ns. obj_at p n \<noteq> None" and "pool_wf p"
  shows "\<exists>q. flush_loop ns p = (Inr (), q) \<and> obj_at q = obj_at p \<and> pool_wf q \<and>
           dirty q = dirty p \<and> touched q = touched p \<and> num_pages q = num_pages p \<and>
           (\<forall>n. disk_page (pfile q) n =
              (if n \<in> set ns then page_image p n else disk_page (pfile p) n))"
  using assms
proof (induction ns arbitrary: p)
  case Nil
  then show ?case by simp
next
  case (Cons n ns)
  obtain d where d: "obj_at p n = Some d" using Cons.prems(2) by auto
  have len: "length (snd d) = PAGE_SIZE" using Cons.prems(3) d by (simp add: pool_wf_def)
  let ?p = "write_page n (snd d) p"
  have o: "obj_at ?p = obj_at p" by (simp add: obj_at_def write_page_def fun_eq_iff)
  have wf: "pool_wf ?p"
    using Cons.prems(3) o by (simp add: pool_wf_def) (simp add: write_page_def)
  have disk: "disk_page (pfile ?p) m = (if m = n then snd d else disk_page (pfile p) m)" for m
    by (simp add: write_page_def disk_page_write_same[OF len] disk_page_write_other[OF len])
  have "page_image ?p m = (if m = n then snd d else page_image p m)" for m
    using o disk[of m] d by (simp add: page_image_def cong: option.case_cong)
  then obtain q where "flush_loop ns ?p = (Inr (), q)" "obj_at q = obj_at p" "pool_wf q"
    "dirty q = dirty p" "touched q = touched p" "num_pages q = num_pages p"
    "\<forall>m. disk_page (pfile q) m = (if m \<in> set ns \<or> m = n then page_image p m else disk_page (pfile p) m)"
    using Cons.IH[of ?p] Cons.prems(1,2) wf o disk d
    by (auto simp: write_page_def page_image_def)
  then have "flush_loop (n # ns) p = (Inr (), q)" using d by (simp add: obj_at_def)
  then show ?case
    using \<open>obj_at q = obj_at p\<close> \<open>pool_wf q\<close> \<open>dirty q = dirty p\<close> \<open>touched q = touched p\<close>
      \<open>num_pages q = num_pages p\<close>
      \<open>\<forall>m. disk_page (pfile q) m = (if m \<in> set ns \<or> m = n then page_image p m else disk_page (pfile p) m)\<close>
    by auto
qed

lemma flush_ok:
  assumes "pool_wf p" and "clean_agree p" and "dirty_ok p"
  shows "\<exists>q. pager_flush p = (Inr (), q) \<and> dirty q = {} \<and> page_image q = page_image p \<and>
           (\<forall>n. disk_page (pfile q) n = page_image p n) \<and> pool_wf q \<and> clean_agree q \<and>
           touched q = touched p \<and> num_pages q = num_pages p"
proof -
  let ?ns = "sorted_list_of_set (dirty p)"
  have ns: "set ?ns = dirty p" using assms(3) by (simp add: dirty_ok_def)
  obtain q where q: "flush_loop ?ns p = (Inr (), q)" "obj_at q = obj_at p" "pool_wf q"
    "touched q = touched p" "num_pages q = num_pages p"
    and disk: "\<And>n. disk_page (pfile q) n =
              (if n \<in> dirty p then page_image p n else disk_page (pfile p) n)"
    using flush_loop_ok[of ?ns p] assms ns by (auto simp: dirty_ok_def)
  have all: "disk_page (pfile q) n = page_image p n" for n
    using disk[of n] assms(2)
    by (cases "obj_at p n") (auto simp: page_image_def clean_agree_def dirty_ok_def)
  let ?q = "q\<lparr>dirty := {}\<rparr>"
  have o: "obj_at ?q = obj_at p" using q(2) by (simp add: obj_at_def fun_eq_iff)
  have "pager_flush p = (Inr (), ?q)" using q(1) by (simp add: pager_flush_def bindP_def)
  moreover have "page_image ?q = page_image p"
    using o all by (auto simp: page_image_def fun_eq_iff split: option.splits)
  moreover have "pool_wf ?q" using q(2,3) o by (simp add: pool_wf_def)
  moreover have "clean_agree ?q"
    using o all by (auto simp: clean_agree_def page_image_def)
  ultimately show ?thesis using all q(4,5) by auto
qed

text \<open>
  A flush makes the file hold the current image of every page, keeps all images, and
  leaves no page dirty, so that whatever is evicted or rolled back afterwards is still on disk.
\<close>

theorem flush_makes_file_current:
  assumes "pool_wf p" and "clean_agree p" and "dirty_ok p"
  shows "\<exists>q. pager_flush p = (Inr (), q) \<and> dirty q = {} \<and> page_image q = page_image p \<and>
           (\<forall>n. disk_page (pfile q) n = page_image p n) \<and> pool_wf q \<and> clean_agree q"
  using flush_ok[OF assms] by auto

text \<open>
  C20. The LRU pool stays bounded: outside a transaction neither a read nor a write takes
  the pool over its capacity, and a pool that a large transaction has grown is cut back by
  the next write or cache miss.
\<close>

theorem pool_bounded:
  assumes "pager_inv p" and "touched p = None"
  shows "(length d \<le> PAGE_SIZE \<longrightarrow> length (pool (snd (pager_write n d p))) \<le> capacity p) \<and>
         length (pool (snd (pager_get n p))) \<le> max (capacity p) (length (pool p))"
proof (intro conjI impI)
  have put: "length (pool (pool_put n x b q)) \<le> Suc (length (pool q))" for n x b q
    by (simp add: pool_put_def drop_key_def)
  have upd: "pool (if b then q\<lparr>num_pages := k\<rparr> else q) = pool q" for q b k by simp
  show "length (pool (snd (pager_write n d p))) \<le> capacity p" if "length d \<le> PAGE_SIZE"
  proof -
    note len = that
    have c: "capture_shadow n p = p" using assms(2) by (simp add: capture_shadow_def)
    obtain q where q: "evict_if_full p = (Inr (), q)" "length (pool q) < capacity p"
      "touched q = None"
      using evict_if_full_ok[OF assms(1)] assms(2) by auto
    let ?q = "pool_put n (next_oid q, pad_to PAGE_SIZE d) True (q\<lparr>next_oid := Suc (next_oid q)\<rparr>)"
    have "pool (snd (pager_write n d p)) = pool ?q"
      using len q by (simp add: pager_write_def c bindP_def Let_def pool_put_def)
    moreover have "length (pool ?q) \<le> Suc (length (pool q))"
      using put[of n "(next_oid q, pad_to PAGE_SIZE d)" True "q\<lparr>next_oid := Suc (next_oid q)\<rparr>"]
      by simp
    ultimately show ?thesis using q(2) by simp
  qed
  show "length (pool (snd (pager_get n p))) \<le> max (capacity p) (length (pool p))"
  proof (cases "num_pages p \<le> n \<and> n \<noteq> 0")
    case True
    then show ?thesis by (simp add: pager_get_def)
  next
    case False
    show ?thesis
    proof (cases "map_of (pool p) n")
      case (Some d)
      then have "length (drop_key n (pool p)) < length (pool p)"
        by (rule length_drop_key_less)
      then show ?thesis using False Some by (auto simp: pager_get_def pool_get_def)
    next
      case None
      let ?p = "p\<lparr>misses := Suc (misses p), next_oid := Suc (next_oid p)\<rparr>"
      have "pager_inv ?p" using assms(1) by simp
      from evict_if_full_ok[OF this] obtain q where
        q: "evict_if_full ?p = (Inr (), q)" "length (pool q) < capacity p"
        using assms(2) by auto
      have "pager_get n p = (Inr (next_oid p, disk_page (pfile p) n),
          pool_put n (next_oid p, disk_page (pfile p) n) False q)"
        using False None q by (auto simp: pager_get_def pool_get_def read_page_def bindP_def)
      then show ?thesis
        using put[of n "(next_oid p, disk_page (pfile p) n)" False q] q(2) by simp
    qed
  qed
qed

section \<open>A rollback loses the dirty mark of an earlier commit\<close>

lemma rollback_dirty:
  assumes "txn_inv p0 p" and "dirty_ok p"
  shows "dirty (rollback_txn p) = dirty p - fst ` set (shadow p)" and "dirty_ok (rollback_txn p)"
proof -
  have dist: "distinct (map fst (shadow p))"
    using txn_invD(5)[OF assms(1)] by (simp add: shadow_wf_def)
  note R = restore_loop_ok[OF dist, of p]
  show d: "dirty (rollback_txn p) = dirty p - fst ` set (shadow p)"
    using R by (simp add: rollback_txn_def)
  have "obj_at (rollback_txn p) n = obj_at p n" if "n \<notin> fst ` set (shadow p)" for n
  proof -
    have "map_of (shadow p) n = None" using that by (simp add: map_of_eq_None_iff)
    then show ?thesis using R[of n] by (simp add: rollback_txn_def obj_at_def)
  qed
  then show "dirty_ok (rollback_txn p)" using assms(2) d by (simp add: dirty_ok_def)
qed

text \<open>
  C21. Data loss: when a committed page that has not been flushed yet (it is dirty) is
  written again by a transaction that rolls back, the rollback restores the committed image
  but clears the dirty mark with it. The next flush, the one of a checkpoint that then
  empties the log, leaves the stale page of the file as it was.
\<close>

theorem rollback_unmarks_committed_page:
  assumes "pager_inv p" and "dirty_ok p" and "n \<in> dirty p" and "length d \<le> PAGE_SIZE"
    and "begin_txn p = (Inr (), p1)" and "pager_write n d p1 = (Inr (), p2)"
  shows "\<exists>q. pager_flush (rollback_txn p2) = (Inr (), q) \<and>
           page_image (rollback_txn p2) n = page_image p n \<and>
           disk_page (pfile q) n = disk_page (pfile p) n \<and> dirty q = {}"
proof -
  let ?p0 = "p\<lparr>touched := Some {}\<rparr>"
  note B = begin_txn_inv[OF assms(1,5)]
  have T: "txn_inv ?p0 p2"
    using txn_inv_run[OF B(1), of "[PWrite n d]"] assms(6) by (simp add: txn_run_def)
  have "dirty_ok ?p0" using assms(2) by (simp add: dirty_ok_def obj_at_def)
  then have dk: "dirty_ok p2" using txn_invD(3)[OF T] by (simp add: keeps_clean_def)
  note R = rollback_dirty[OF T dk]
  have "touched p2 = map_option (insert n) (touched p1)"
    using pager_write_ok[OF B(3) assms(4), of n] assms(6) by auto
  then have "n \<in> fst ` set (shadow p2)"
    using txn_invD(7)[OF T] txn_invD(7)[OF B(1)] by auto
  then have n: "n \<notin> dirty (rollback_txn p2)" using R(1) by simp
  have ok: "\<forall>m \<in> set (sorted_list_of_set (dirty (rollback_txn p2))). obj_at (rollback_txn p2) m \<noteq> None"
    and fin: "finite (dirty (rollback_txn p2))"
    using R(2) by (auto simp: dirty_ok_def)
  obtain q where q: "flush_loop (sorted_list_of_set (dirty (rollback_txn p2))) (rollback_txn p2) = (Inr (), q)"
    and disk: "disk_page (pfile q) n = disk_page (pfile (rollback_txn p2)) n"
    using flush_loop_ok[OF _ ok rollback_ok(4)[OF T]] n fin by auto
  have "page_image (rollback_txn p2) n = page_image p n"
    using rollback_ok(1)[OF T] begin_txn_start(3)[OF assms(1,2,5)] by simp
  moreover have "pfile (rollback_txn p2) = pfile p" using rollback_ok(2)[OF T] by simp
  ultimately show ?thesis using q disk by (auto simp: pager_flush_def bindP_def)
qed

section \<open>Witnesses\<close>

text \<open>A first commit on a new database of two pages in memory.\<close>

definition demo_start :: pager where
  "demo_start = pager_init [] 2"

definition demo_committed :: pager where
  "demo_committed =
     snd (collect_commit (snd (pager_write 0 [1] (snd (begin_txn demo_start)))))"

lemma demo_start_ok:
  "pager_inv demo_start" "dirty_ok demo_start" "pool_wf demo_start" "clean_agree demo_start"
  "touched demo_start = None"
  "begin_txn demo_start = (Inr (), snd (begin_txn demo_start))"
  using pager_init_inv[of 2 "[]"]
  by (simp_all add: demo_start_def pager_inv_def)
    (simp_all add: dirty_ok_def begin_txn_def pager_init_def)

lemma commit_collects_images_witness:
  "let p2 = txn_run [PWrite 0 [1], PAlloc, PGet 0] (snd (begin_txn demo_start))
   in \<exists>q imgs. collect_commit p2 = (Inr (sorted_list_of_set (the (touched p2)), num_pages p2, imgs), q)
        \<and> page_image q = page_image p2"
  using commit_collects_images[OF demo_start_ok(1,2,6) refl, of "[PWrite 0 [1], PAlloc, PGet 0]"]
  by (auto simp: Let_def)

lemma flush_makes_file_current_witness:
  "\<exists>q. pager_flush demo_start = (Inr (), q) \<and> dirty q = {}"
  using flush_makes_file_current[OF demo_start_ok(3,4,2)] by blast

lemma pool_bounded_witness:
  "length (pool (snd (pager_write 5 [1, 2] demo_start))) \<le> 2"
  using pool_bounded[OF demo_start_ok(1,5), of "[1, 2]" 5]
  by (simp add: PAGE_SIZE_def) (simp add: demo_start_def pager_init_def)

lemma demo_committed_ok:
  "pager_inv demo_committed" "dirty_ok demo_committed" "0 \<in> dirty demo_committed"
  "begin_txn demo_committed = (Inr (), snd (begin_txn demo_committed))"
proof -
  let ?p1 = "snd (begin_txn demo_start)"
  let ?p2 = "snd (pager_write 0 [1] ?p1)"
  note B = begin_txn_inv[OF demo_start_ok(1,6)]
  have T: "txn_inv (demo_start\<lparr>touched := Some {}\<rparr>) ?p2"
    using txn_inv_run[OF B(1), of "[PWrite 0 [1]]"] by (simp add: txn_run_def)
  have "touched ?p2 = map_option (insert 0) (touched ?p1)"
    using pager_write_ok[OF B(3), of "[1]" 0] by (auto simp: PAGE_SIZE_def)
  then have "0 \<in> the (touched ?p2)" using txn_invD(7)[OF B(1)] by auto
  then show "pager_inv demo_committed" "dirty_ok demo_committed" "0 \<in> dirty demo_committed"
    and "begin_txn demo_committed = (Inr (), snd (begin_txn demo_committed))"
    using commit_ok[OF T begin_txn_start(1,2)[OF demo_start_ok(1,2,6)]]
    by (auto simp: demo_committed_def begin_txn_def)
qed

lemma rollback_unmarks_committed_page_witness:
  "\<exists>p2 q. pager_write 0 [2] (snd (begin_txn demo_committed)) = (Inr (), p2) \<and>
     pager_flush (rollback_txn p2) = (Inr (), q) \<and> dirty q = {} \<and>
     disk_page (pfile q) 0 = disk_page (pfile demo_committed) 0"
proof -
  note B = begin_txn_inv[OF demo_committed_ok(1,4)]
  have len: "length [2 :: byte] \<le> PAGE_SIZE" by (simp add: PAGE_SIZE_def)
  then obtain p2 where p2: "pager_write 0 [2] (snd (begin_txn demo_committed)) = (Inr (), p2)"
    using pager_write_ok[OF B(3)] by blast
  show ?thesis
    using rollback_unmarks_committed_page[OF demo_committed_ok(1-3) len demo_committed_ok(4) p2] p2
    by blast
qed

end
