(* ===== verification/Wal.thy ===== *)
theory Wal
  imports Pager "HOL-Library.AList"
begin

unbundle bit_operations_syntax

text \<open>
  The write-ahead log of \<open>leafdb/wal.py\<close>: CRC-32, frames, the batch that a commit appends,
  the two scanners (\<open>read_batches_from\<close> for other sessions, \<open>recover\<close> for the next open)
  and the header handling. A log and a database file are byte strings; a batch is a Python
  dict from page numbers to page images, an association list in insertion order.
\<close>

section \<open>CRC-32 (zlib.crc32)\<close>

definition crc_bit :: "32 word \<Rightarrow> 32 word" where
  "crc_bit c = (if bit c 0 then drop_bit 1 c XOR 0xEDB88320 else drop_bit 1 c)"

definition crc_byte :: "32 word \<Rightarrow> byte \<Rightarrow> 32 word" where
  "crc_byte c b =
     crc_bit (crc_bit (crc_bit (crc_bit (crc_bit (crc_bit (crc_bit (crc_bit
       (c XOR ucast b))))))))"

definition crc32 :: "bytes \<Rightarrow> int" where
  "crc32 bs = uint (NOT (foldl crc_byte 0xFFFFFFFF bs))"

lemma crc32_range: "0 \<le> crc32 bs \<and> crc32 bs < 256 ^ 4"
  using uint_lt2p[of "NOT (foldl crc_byte 0xFFFFFFFF bs)"] by (simp add: crc32_def)

lemma crc32_Nil [simp]: "crc32 [] = 0"
  by code_simp

section \<open>Frames\<close>

definition WAL_MAGIC :: bytes where
  "WAL_MAGIC = [76, 70, 68, 66]"

definition WAL_HEADER :: bytes where
  "WAL_HEADER = [76, 69, 65, 70, 87, 65, 76, 48, 49, 10]"

definition COMMIT_PAGE :: int where
  "COMMIT_PAGE = 4294967295"

definition frame :: "int \<Rightarrow> bytes \<Rightarrow> bytes res" where
  "frame page_no payload =
     bindE (pack_u 4 page_no) (\<lambda>p.
     bindE (pack_u 4 (int (length payload))) (\<lambda>l.
     bindE (pack_u 4 (crc32 payload)) (\<lambda>c.
     Inr (WAL_MAGIC @ p @ l @ c @ payload))))"

definition commit_frame :: "int \<Rightarrow> bytes res" where
  "commit_frame npages = bindE (pack_u 4 npages) (frame COMMIT_PAGE)"

section \<open>WAL\<close>

type_synonym batch = "(int \<times> bytes) list"

definition wal_open :: "bytes option \<Rightarrow> bytes" where
  "wal_open f = (case f of
     Some b \<Rightarrow> if length WAL_HEADER \<le> length b then b else WAL_HEADER
   | None \<Rightarrow> WAL_HEADER)"

definition batch_blob :: "batch \<Rightarrow> int \<Rightarrow> bytes res" where
  "batch_blob pages npages =
     bindE (mapE (\<lambda>(p, im). frame p im) (sort_key fst pages)) (\<lambda>frs.
     bindE (commit_frame npages) (\<lambda>c. Inr (concat frs @ c)))"

text \<open>\<open>append_batch\<close> builds the whole blob before it writes; it returns the new end.\<close>

definition append_batch :: "batch \<Rightarrow> int \<Rightarrow> (bytes, nat) prog" where
  "append_batch pages npages f =
     (case batch_blob pages npages of
        Inl e \<Rightarrow> (Inl e, f)
      | Inr blob \<Rightarrow> (Inr (length (f @ blob)), f @ blob))"

definition wal_pending_bytes :: "bytes \<Rightarrow> nat" where
  "wal_pending_bytes f = length f - length WAL_HEADER"

definition wal_size :: "bytes option \<Rightarrow> nat" where
  "wal_size f = (case f of Some b \<Rightarrow> length b | None \<Rightarrow> length WAL_HEADER)"

definition wal_reset :: "bytes \<Rightarrow> bytes" where
  "wal_reset f = WAL_HEADER"

section \<open>The scanner's step\<close>

text \<open>
  The common head of the two loops: \<open>None\<close> where they stop (short header, wrong magic,
  payload past the end, wrong checksum), otherwise page number, payload and next position.
\<close>

definition next_frame :: "bytes \<Rightarrow> nat \<Rightarrow> (int \<times> bytes \<times> nat) option" where
  "next_frame data pos =
     (if pos + 16 \<le> length data \<and> take 4 (drop pos data) = WAL_MAGIC then
        (let page_no = be_int (take 4 (drop (pos + 4) data));
             len = be_int (take 4 (drop (pos + 8) data));
             crc = be_int (take 4 (drop (pos + 12) data));
             start = pos + 16
         in if int (length data) < int start + len then None
            else (let payload = take (nat len) (drop start data) in
                  if crc32 payload \<noteq> crc then None
                  else Some (page_no, payload, start + nat len)))
      else None)"

lemma next_frame_progress: "next_frame data pos = Some (p, pl, q) \<Longrightarrow> pos < q \<and> q \<le> length data"
  using be_int_nonneg[of "take 4 (drop (pos + 8) data)"]
  by (auto simp: next_frame_def Let_def split: if_splits)

definition unpack_commit :: "bytes \<Rightarrow> int res" where
  "unpack_commit payload = (if length payload = 4 then Inr (be_int payload) else Inl StructError)"

section \<open>read_batches_from\<close>

function read_loop ::
  "nat \<Rightarrow> bytes \<Rightarrow> nat \<Rightarrow> batch \<Rightarrow> (nat \<times> batch \<times> int) list \<Rightarrow> (nat \<times> batch \<times> int) list res" where
  "read_loop base data pos batch batches =
     (case next_frame data pos of
        None \<Rightarrow> Inr batches
      | Some (page_no, payload, stop) \<Rightarrow>
          if page_no = COMMIT_PAGE then
            (case unpack_commit payload of
               Inl e \<Rightarrow> Inl e
             | Inr n \<Rightarrow> read_loop base data stop [] (batches @ [(base + stop, batch, n)]))
          else read_loop base data stop (AList.update page_no payload batch) batches)"
  by pat_completeness auto
termination
  by (relation "measure (\<lambda>(b, data, pos, ba, bs). length data - pos)")
    (auto dest!: next_frame_progress)

declare read_loop.simps [simp del]

definition read_batches_from :: "bytes \<Rightarrow> nat \<Rightarrow> nat option \<Rightarrow> (nat \<times> batch \<times> int) list res" where
  "read_batches_from f offset limit =
     (let e = (case limit of None \<Rightarrow> length f | Some e \<Rightarrow> e) in
      if e \<le> offset then Inr []
      else read_loop offset (take (e - offset) (drop offset f)) 0 [] [])"

section \<open>recover\<close>

definition write_images :: "batch \<Rightarrow> bytes \<Rightarrow> bytes" where
  "write_images batch db =
     foldl (\<lambda>db (pg, im). write_at db (nat pg * PAGE_SIZE) im) db (sort_key fst batch)"

definition extend_to :: "int \<Rightarrow> bytes \<Rightarrow> bytes" where
  "extend_to npages db =
     (let need = nat npages * PAGE_SIZE in
      if length db < need then write_at db (need - 1) [0] else db)"

function recover_loop :: "bytes \<Rightarrow> nat \<Rightarrow> batch \<Rightarrow> nat \<Rightarrow> (bytes, nat) prog" where
  "recover_loop data pos batch applied db =
     (case next_frame data pos of
        None \<Rightarrow> (Inr applied, db)
      | Some (page_no, payload, stop) \<Rightarrow>
          if page_no = COMMIT_PAGE then
            (case unpack_commit payload of
               Inl e \<Rightarrow> (Inl e, db)
             | Inr n \<Rightarrow> recover_loop data stop [] (Suc applied) (extend_to n (write_images batch db)))
          else recover_loop data stop (AList.update page_no payload batch) applied db)"
  by pat_completeness auto
termination
  by (relation "measure (\<lambda>(data, pos, ba, a, db). length data - pos)")
    (auto dest!: next_frame_progress)

declare recover_loop.simps [simp del]

definition recover :: "bytes option \<Rightarrow> (bytes, nat) prog" where
  "recover wal db =
     (case wal of
        None \<Rightarrow> (Inr 0, db)
      | Some data \<Rightarrow>
          if length data \<le> length WAL_HEADER then (Inr 0, db)
          else recover_loop data (length WAL_HEADER) [] 0 db)"

end
