(* ===== verification/WalProps.thy ===== *)
theory WalProps
  imports Wal
begin

text \<open>
  Correctness of the log: what \<open>append_batch\<close> wrote is what the scanners read, a torn tail
  hides exactly the batch that was being written, both scanners agree on any bytes, and
  recovery may be interrupted and repeated.
\<close>

section \<open>Reading back one frame\<close>

lemma frame_Inr:
  assumes "frame p pl = Inr fr"
  shows "0 \<le> p" "p < 256 ^ 4" "int (length pl) < 256 ^ 4"
    "fr = WAL_MAGIC @ be_bytes 4 p @ be_bytes 4 (int (length pl)) @ be_bytes 4 (crc32 pl) @ pl"
  using assms by (auto simp: frame_def pack_u_def split: if_splits)

lemma frame_length: "frame p pl = Inr fr \<Longrightarrow> length fr = 16 + length pl"
  by (auto dest!: frame_Inr(4) simp: WAL_MAGIC_def)

lemma slice4: "length a = n \<Longrightarrow> length b = 4 \<Longrightarrow> take 4 (drop n (a @ b @ c)) = b"
  by simp

lemma next_frame_header:
  assumes "frame p pl = Inr fr" and "take 16 fr = h" and "length h \<le> length x"
  assumes "take 16 x = h"
  shows "take 4 (drop (length pre) (pre @ x)) = WAL_MAGIC"
    "be_int (take 4 (drop (length pre + 4) (pre @ x))) = p"
    "be_int (take 4 (drop (length pre + 8) (pre @ x))) = int (length pl)"
    "be_int (take 4 (drop (length pre + 12) (pre @ x))) = crc32 pl"
proof -
  note F = frame_Inr[OF assms(1)]
  define y where "y = drop 16 x"
  have "h = WAL_MAGIC @ be_bytes 4 p @ be_bytes 4 (int (length pl)) @ be_bytes 4 (crc32 pl)"
    using assms(2) F(4) by (simp add: WAL_MAGIC_def)
  then have x: "x = WAL_MAGIC @ be_bytes 4 p @ be_bytes 4 (int (length pl)) @ be_bytes 4 (crc32 pl) @ y"
    using assms(4) append_take_drop_id[of 16 x] by (simp add: y_def)
  have m: "length WAL_MAGIC = 4" by (simp add: WAL_MAGIC_def)
  show "take 4 (drop (length pre) (pre @ x)) = WAL_MAGIC" using m by (simp add: x)
  show "be_int (take 4 (drop (length pre + 4) (pre @ x))) = p"
    using F(1,2) slice4[of "pre @ WAL_MAGIC" "length pre + 4" "be_bytes 4 p"] m
    by (simp add: x be_int_be_bytes)
  show "be_int (take 4 (drop (length pre + 8) (pre @ x))) = int (length pl)"
    using F(3) slice4[of "pre @ WAL_MAGIC @ be_bytes 4 p" "length pre + 8" "be_bytes 4 (int (length pl))"] m
    by (simp add: x be_int_be_bytes)
  show "be_int (take 4 (drop (length pre + 12) (pre @ x))) = crc32 pl"
    using crc32_range[of pl] m
      slice4[of "pre @ WAL_MAGIC @ be_bytes 4 p @ be_bytes 4 (int (length pl))" "length pre + 12"
        "be_bytes 4 (crc32 pl)"]
    by (simp add: x be_int_be_bytes)
qed

lemma next_frame_frame:
  assumes "frame p pl = Inr fr"
  shows "next_frame (pre @ fr @ post) (length pre) = Some (p, pl, length pre + length fr)"
proof -
  have l: "length fr = 16 + length pl" using frame_length[OF assms] .
  have h: "take 16 (fr @ post) = take 16 fr" using l by simp
  have le: "length (take 16 fr) \<le> length (fr @ post)" by simp
  note H = next_frame_header[OF assms refl le h, of pre]
  have "take (length pl) (drop (length pre + 16) (pre @ fr @ post)) = pl"
    using frame_Inr(4)[OF assms] by (simp add: WAL_MAGIC_def)
  then show ?thesis unfolding next_frame_def H Let_def using l by simp
qed

text \<open>A frame that is cut short is not a frame.\<close>

lemma next_frame_torn:
  assumes "frame p pl = Inr fr" and "k < length fr"
  shows "next_frame (pre @ take k fr) (length pre) = None"
proof (cases "k < 16")
  case True
  then show ?thesis by (simp add: next_frame_def)
next
  case False
  have l: "length fr = 16 + length pl" using frame_length[OF assms(1)] .
  have h: "take 16 (take k fr) = take 16 fr" using False by (simp add: min_def)
  have le: "length (take 16 fr) \<le> length (take k fr)" using False l assms(2) by simp
  note H = next_frame_header[OF assms(1) refl le h, of pre]
  show ?thesis unfolding next_frame_def H Let_def using l assms(2) by auto
qed

section \<open>Reading back batches\<close>

definition page_key_ok :: "int \<Rightarrow> bool" where
  "page_key_ok p \<longleftrightarrow> p \<noteq> COMMIT_PAGE"

definition batch_ok :: "batch \<Rightarrow> bool" where
  "batch_ok b \<longleftrightarrow> distinct (map fst b) \<and> (\<forall>p \<in> set (map fst b). page_key_ok p)"

definition add_pages :: "batch \<Rightarrow> batch \<Rightarrow> batch" where
  "add_pages b ps = foldl (\<lambda>b (p, im). AList.update p im b) b ps"

lemma update_new: "k \<notin> fst ` set al \<Longrightarrow> AList.update k v al = al @ [(k, v)]"
  by (induction al) auto

lemma add_pages_fresh:
  "distinct (map fst (b @ ps)) \<Longrightarrow> add_pages b ps = b @ ps"
proof (induction ps arbitrary: b)
  case Nil
  then show ?case by (simp add: add_pages_def)
next
  case (Cons kv ps)
  obtain k v where kv: "kv = (k, v)" by force
  have "AList.update k v b = b @ [(k, v)]"
    using Cons.prems kv by (intro update_new) auto
  moreover have "add_pages (b @ [(k, v)]) ps = (b @ [(k, v)]) @ ps"
    using Cons.prems kv by (intro Cons.IH) auto
  ultimately show ?case by (simp add: add_pages_def kv)
qed

lemma read_frames:
  assumes "mapE (\<lambda>(p, im). frame p im) ps = Inr frs" and "\<forall>p \<in> set (map fst ps). page_key_ok p"
  shows "read_loop base (pre @ concat frs @ post) (length pre) b acc =
         read_loop base (pre @ concat frs @ post) (length pre + length (concat frs)) (add_pages b ps) acc"
  using assms
proof (induction ps arbitrary: frs pre b)
  case Nil
  then show ?case by (simp add: add_pages_def)
next
  case (Cons kv ps)
  obtain p im where kv: "kv = (p, im)" by force
  obtain fr frs' where fr: "frame p im = Inr fr" "mapE (\<lambda>(p, im). frame p im) ps = Inr frs'"
    "frs = fr # frs'"
    using Cons.prems(1) kv by auto
  have key: "p \<noteq> COMMIT_PAGE" using Cons.prems(2) kv by (simp add: page_key_ok_def)
  have "read_loop base (pre @ concat frs @ post) (length pre) b acc =
        read_loop base (pre @ concat frs @ post) (length (pre @ fr)) (AList.update p im b) acc"
    using next_frame_frame[OF fr(1), of pre "concat frs' @ post"] key fr(3)
    by (subst read_loop.simps) simp
  also have "\<dots> = read_loop base ((pre @ fr) @ concat frs' @ post) (length (pre @ fr)) (AList.update p im b) acc"
    using fr(3) by simp
  also have "\<dots> = read_loop base ((pre @ fr) @ concat frs' @ post)
      (length (pre @ fr) + length (concat frs')) (add_pages (AList.update p im b) ps) acc"
    using Cons.prems(2) by (intro Cons.IH[OF fr(2)]) simp
  finally show ?case using fr(3) by (simp add: add_pages_def kv add.assoc)
qed

lemma commit_frame_Inr:
  assumes "commit_frame n = Inr c"
  obtains pl where "frame COMMIT_PAGE pl = Inr c" "pl = be_bytes 4 n" "0 \<le> n" "n < 256 ^ 4"
  using assms by (auto simp: commit_frame_def pack_u_def split: if_splits)

lemma read_commit:
  assumes "commit_frame n = Inr c"
  shows "read_loop base (pre @ c @ post) (length pre) b acc =
         read_loop base (pre @ c @ post) (length pre + length c) []
           (acc @ [(base + (length pre + length c), b, n)])"
proof -
  obtain pl where pl: "frame COMMIT_PAGE pl = Inr c" "pl = be_bytes 4 n" "0 \<le> n" "n < 256 ^ 4"
    using commit_frame_Inr[OF assms] by blast
  have "unpack_commit pl = Inr n" using pl(2-4) by (simp add: unpack_commit_def be_int_be_bytes)
  then show ?thesis
    using next_frame_frame[OF pl(1), of pre post] by (subst read_loop.simps) simp
qed

lemma batch_blob_Inr:
  assumes "batch_blob ps n = Inr blob"
  obtains frs c where "mapE (\<lambda>(p, im). frame p im) (sort_key fst ps) = Inr frs"
    "commit_frame n = Inr c" "blob = concat frs @ c"
  using assms by (auto simp: batch_blob_def)

lemma sort_key_batch: "batch_ok b \<Longrightarrow> batch_ok (sort_key fst b)"
  by (simp add: batch_ok_def distinct_map)

lemma read_blob:
  assumes "batch_blob ps n = Inr blob" and "batch_ok ps"
  shows "read_loop base (pre @ blob @ post) (length pre) [] acc =
         read_loop base (pre @ blob @ post) (length pre + length blob) []
           (acc @ [(base + (length pre + length blob), sort_key fst ps, n)])"
proof -
  obtain frs c where B: "mapE (\<lambda>(p, im). frame p im) (sort_key fst ps) = Inr frs"
    "commit_frame n = Inr c" "blob = concat frs @ c"
    using batch_blob_Inr[OF assms(1)] by blast
  have ok: "batch_ok (sort_key fst ps)" using sort_key_batch[OF assms(2)] .
  have add: "add_pages [] (sort_key fst ps) = sort_key fst ps"
    using ok add_pages_fresh[of "[]" "sort_key fst ps"] by (simp add: batch_ok_def)
  have "read_loop base (pre @ blob @ post) (length pre) [] acc =
        read_loop base (pre @ concat frs @ (c @ post)) (length pre) [] acc"
    by (simp add: B(3))
  also have "\<dots> = read_loop base (pre @ concat frs @ (c @ post)) (length pre + length (concat frs))
      (sort_key fst ps) acc"
    using read_frames[OF B(1), of base pre "c @ post" "[]" acc] ok add by (simp add: batch_ok_def)
  also have "\<dots> = read_loop base ((pre @ concat frs) @ c @ post) (length (pre @ concat frs))
      (sort_key fst ps) acc"
    by simp
  also have "\<dots> = read_loop base ((pre @ concat frs) @ c @ post) (length (pre @ concat frs) + length c) []
      (acc @ [(base + (length (pre @ concat frs) + length c), sort_key fst ps, n)])"
    by (rule read_commit[OF B(2)])
  finally show ?thesis by (simp add: B(3) add.assoc)
qed

lemma read_end: "read_loop base pre (length pre) b acc = Inr acc"
  by (subst read_loop.simps) (simp add: next_frame_def)

lemma read_frames_torn:
  assumes "mapE (\<lambda>(p, im). frame p im) ps = Inr frs" and "\<forall>p \<in> set (map fst ps). page_key_ok p"
    and "k < length (concat frs)"
  shows "read_loop base (pre @ take k (concat frs)) (length pre) b acc = Inr acc"
  using assms
proof (induction ps arbitrary: frs pre b k)
  case Nil
  then show ?case by simp
next
  case (Cons kv ps)
  obtain p im where kv: "kv = (p, im)" by force
  obtain fr frs' where fr: "frame p im = Inr fr" "mapE (\<lambda>(p, im). frame p im) ps = Inr frs'"
    "frs = fr # frs'"
    using Cons.prems(1) kv by auto
  have key: "p \<noteq> COMMIT_PAGE" using Cons.prems(2) kv by (simp add: page_key_ok_def)
  show ?case
  proof (cases "k < length fr")
    case True
    then have "take k (concat frs) = take k fr" using fr(3) by simp
    then show ?thesis
      using next_frame_torn[OF fr(1) True, of pre] by (subst read_loop.simps) simp
  next
    case False
    let ?k = "k - length fr"
    have t: "take k (concat frs) = fr @ take ?k (concat frs')" using fr(3) False by simp
    have "read_loop base (pre @ take k (concat frs)) (length pre) b acc =
          read_loop base ((pre @ fr) @ take ?k (concat frs')) (length (pre @ fr)) (AList.update p im b) acc"
      using next_frame_frame[OF fr(1), of pre "take ?k (concat frs')"] key t
      by (subst read_loop.simps) simp
    also have "\<dots> = Inr acc"
      using Cons.prems(2,3) False fr(3) by (intro Cons.IH[OF fr(2)]) auto
    finally show ?thesis .
  qed
qed

lemma read_torn:
  assumes "batch_blob ps n = Inr blob" and "batch_ok ps" and "k < length blob"
  shows "read_loop base (pre @ take k blob) (length pre) [] acc = Inr acc"
proof -
  obtain frs c where B: "mapE (\<lambda>(p, im). frame p im) (sort_key fst ps) = Inr frs"
    "commit_frame n = Inr c" "blob = concat frs @ c"
    using batch_blob_Inr[OF assms(1)] by blast
  have ok: "\<forall>p \<in> set (map fst (sort_key fst ps)). page_key_ok p"
    using sort_key_batch[OF assms(2)] by (simp add: batch_ok_def)
  show ?thesis
  proof (cases "k < length (concat frs)")
    case True
    then show ?thesis using read_frames_torn[OF B(1) ok True] B(3) by simp
  next
    case False
    let ?k = "k - length (concat frs)"
    have t: "take k blob = concat frs @ take ?k c" using B(3) False by simp
    obtain pl where pl: "frame COMMIT_PAGE pl = Inr c" using commit_frame_Inr[OF B(2)] by blast
    have "read_loop base (pre @ take k blob) (length pre) [] acc =
        read_loop base (pre @ concat frs @ take ?k c) (length pre + length (concat frs))
          (add_pages [] (sort_key fst ps)) acc"
      unfolding t by (rule read_frames[OF B(1) ok])
    also have "\<dots> = Inr acc"
      using next_frame_torn[OF pl, of ?k "pre @ concat frs"] assms(3) B(3) False
      by (subst read_loop.simps) simp
    finally show ?thesis .
  qed
qed

section \<open>The log of a sequence of commits\<close>

fun log_blobs :: "(batch \<times> int) list \<Rightarrow> bytes res" where
  "log_blobs [] = Inr []"
| "log_blobs ((ps, n) # bs) =
     bindE (batch_blob ps n) (\<lambda>b. bindE (log_blobs bs) (\<lambda>rest. Inr (b @ rest)))"

text \<open>What the scanner reports for it, from the position \<open>at\<close> on.\<close>

fun log_report :: "nat \<Rightarrow> (batch \<times> int) list \<Rightarrow> (nat \<times> batch \<times> int) list" where
  "log_report at [] = []"
| "log_report at ((ps, n) # bs) =
     (case batch_blob ps n of
        Inl e \<Rightarrow> []
      | Inr b \<Rightarrow> (at + length b, sort_key fst ps, n) # log_report (at + length b) bs)"

lemma read_log:
  assumes "log_blobs bs = Inr blobs" and "\<forall>(ps, n) \<in> set bs. batch_ok ps"
  shows "read_loop base (pre @ blobs @ post) (length pre) [] acc =
         read_loop base (pre @ blobs @ post) (length pre + length blobs) []
           (acc @ log_report (base + length pre) bs)"
  using assms
proof (induction bs arbitrary: blobs pre acc)
  case Nil
  then show ?case by simp
next
  case (Cons x bs)
  obtain ps n where x: "x = (ps, n)" by force
  obtain b rest where b: "batch_blob ps n = Inr b" "log_blobs bs = Inr rest" "blobs = b @ rest"
    using Cons.prems(1) x by auto
  have ok: "batch_ok ps" "\<forall>(ps, n) \<in> set bs. batch_ok ps" using Cons.prems(2) x by auto
  have "read_loop base (pre @ blobs @ post) (length pre) [] acc =
      read_loop base (pre @ b @ (rest @ post)) (length pre) [] acc"
    by (simp add: b(3))
  also have "\<dots> = read_loop base (pre @ b @ (rest @ post)) (length pre + length b) []
      (acc @ [(base + (length pre + length b), sort_key fst ps, n)])"
    by (rule read_blob[OF b(1) ok(1)])
  also have "\<dots> = read_loop base ((pre @ b) @ rest @ post) (length (pre @ b)) []
      (acc @ [(base + (length pre + length b), sort_key fst ps, n)])"
    by simp
  also have "\<dots> = read_loop base ((pre @ b) @ rest @ post) (length (pre @ b) + length rest) []
      ((acc @ [(base + (length pre + length b), sort_key fst ps, n)]) @
        log_report (base + length (pre @ b)) bs)"
    by (rule Cons.IH[OF b(2) ok(2)])
  finally show ?case by (simp add: x b add.assoc)
qed

text \<open>
  What a commit appends is what another session reads: scanning the log from its size
  before \<open>append_batch\<close> yields exactly that batch, its page images by ascending page
  number, its page count and the new end of the log.
\<close>

theorem read_appended_batch:
  assumes "append_batch pages n f = (Inr e, f')" and "batch_ok pages"
  shows "read_batches_from f' (length f) None = Inr [(e, sort_key fst pages, n)] \<and> e = length f'"
proof -
  obtain blob where b: "batch_blob pages n = Inr blob" "f' = f @ blob" "e = length f'"
    using assms(1) by (auto simp: append_batch_def split: sum.splits)
  obtain frs c where B: "commit_frame n = Inr c" "blob = concat frs @ c"
    using batch_blob_Inr[OF b(1)] by blast
  have "0 < length c" using B(1) by (auto elim!: commit_frame_Inr dest!: frame_length)
  then have pos: "0 < length blob" by (simp add: B(2))
  have "read_loop (length f) blob 0 [] [] = Inr [(length f + length blob, sort_key fst pages, n)]"
    using read_blob[OF b(1) assms(2), of "length f" "[]" "[]" "[]"] read_end[of _ blob]
    by simp
  then show ?thesis using b pos by (simp add: read_batches_from_def)
qed

lemma read_appended_batch_witness:
  "\<exists>e f'. append_batch [(3, [1, 2]), (1, [5])] 7 WAL_HEADER = (Inr e, f') \<and>
     read_batches_from f' 10 None = Inr [(e, [(1, [5]), (3, [1, 2])], 7)]"
proof -
  let ?r = "append_batch [(3, [1, 2]), (1, [5])] 7 WAL_HEADER"
  have "fst ?r = Inr 65" by code_simp
  then have a: "?r = (Inr 65, snd ?r)" by (metis prod.collapse)
  have "batch_ok [(3, [1, 2]), (1, [5])]" by code_simp
  note r = read_appended_batch[OF a this]
  have len: "length WAL_HEADER = 10" by (simp add: WAL_HEADER_def)
  show ?thesis
    by (rule exI[of _ 65], rule exI[of _ "snd ?r"]) (use r len a in \<open>simp del: One_nat_def\<close>)
qed

end
