(* ===== verification/Recovery.thy ===== *)
theory Recovery
  imports WalProps
begin

text \<open>
  Crash recovery. \<open>recover\<close> replays exactly what \<open>read_batches_from\<close> would read from the
  whole log; a batch is replayed completely or not at all; a replay that was cut off can be
  repeated; and after it every page holds its last committed image.
\<close>

section \<open>The two scanners agree\<close>

definition apply_batches :: "(batch \<times> int) list \<Rightarrow> bytes \<Rightarrow> bytes" where
  "apply_batches bs db = foldl (\<lambda>db (b, n). extend_to n (write_images b db)) db bs"

lemma apply_batches_simps [simp]:
  "apply_batches [] db = db"
  "apply_batches ((b, n) # bs) db = apply_batches bs (extend_to n (write_images b db))"
  by (simp_all add: apply_batches_def)

lemma apply_batches_append: "apply_batches (as @ bs) db = apply_batches bs (apply_batches as db)"
  by (simp add: apply_batches_def)

lemma next_frame_shift:
  "next_frame (pre @ d) (length pre + pos) =
     map_option (\<lambda>(p, pl, q). (p, pl, length pre + q)) (next_frame d pos)"
proof -
  have dr: "drop (length pre + pos + k) (pre @ d) = drop (pos + k) d" for k by simp
  show ?thesis
    using dr[of 0] dr[of 4] dr[of 8] dr[of 12] dr[of 16]
    by (simp add: next_frame_def Let_def add.assoc)
qed

lemma recover_loop_eq:
  "case read_loop base d pos b acc of
     Inl e \<Rightarrow> fst (recover_loop (pre @ d) (length pre + pos) b a db) = Inl e
   | Inr bs \<Rightarrow> \<exists>new. bs = acc @ new \<and>
       recover_loop (pre @ d) (length pre + pos) b a db =
         (Inr (a + length new), apply_batches (map snd new) db)"
proof (induction base d pos b acc arbitrary: a db rule: read_loop.induct)
  case (1 base d pos b acc)
  note nf = next_frame_shift[of pre d pos]
  show ?case
  proof (cases "next_frame d pos")
    case None
    then show ?thesis
      using nf by (subst read_loop.simps, subst recover_loop.simps) simp
  next
    case (Some r)
    obtain p pl q where r: "r = (p, pl, q)" by (cases r)
    show ?thesis
    proof (cases "p = COMMIT_PAGE")
      case False
      have rl: "read_loop base d pos b acc = read_loop base d q (AList.update p pl b) acc"
        using Some r False by (subst read_loop.simps) simp
      have rc: "recover_loop (pre @ d) (length pre + pos) b a db =
          recover_loop (pre @ d) (length pre + q) (AList.update p pl b) a db"
        using Some r False nf by (subst recover_loop.simps) simp
      show ?thesis
        unfolding rl rc using 1(2)[OF Some r[symmetric] refl False, of a db] r by simp
    next
      case True
      show ?thesis
      proof (cases "unpack_commit pl")
        case (Inl e)
        then show ?thesis
          using Some r True nf by (subst read_loop.simps, subst recover_loop.simps) simp
      next
        case (Inr n)
        have rl: "read_loop base d pos b acc = read_loop base d q [] (acc @ [(base + q, b, n)])"
          using Some r True Inr by (subst read_loop.simps) simp
        have rc: "recover_loop (pre @ d) (length pre + pos) b a db =
            recover_loop (pre @ d) (length pre + q) [] (Suc a) (extend_to n (write_images b db))"
          using Some r True Inr nf by (subst recover_loop.simps) simp
        show ?thesis
          unfolding rl rc
          using 1(1)[OF Some r[symmetric] refl True Inr, of "Suc a" "extend_to n (write_images b db)"] r
          by (auto split: sum.splits)
      qed
    qed
  qed
qed

text \<open>
  The two scanners agree on every log, a damaged one included: replaying in order the
  batches that \<open>read_batches_from\<close> reports for everything after the header gives the
  database file that \<open>recover\<close> leaves, and the number of batches; where one raises
  \<open>struct.error\<close>, so does the other.
\<close>

theorem recover_replays_read_batches:
  "case read_batches_from wal 10 None of
     Inl e \<Rightarrow> fst (recover (Some wal) db) = Inl e
   | Inr bs \<Rightarrow> recover (Some wal) db = (Inr (length bs), apply_batches (map snd bs) db)"
proof (cases "length wal \<le> 10")
  case True
  then show ?thesis by (simp add: read_batches_from_def recover_def WAL_HEADER_def)
next
  case False
  have rd: "read_batches_from wal 10 None = read_loop 10 (drop 10 wal) 0 [] []"
    using False by (simp add: read_batches_from_def)
  have len: "length WAL_HEADER = length (take 10 wal) + 0" "length WAL_HEADER = 10"
    using False by (simp_all add: WAL_HEADER_def)
  have rc: "recover (Some wal) db =
      recover_loop (take 10 wal @ drop 10 wal) (length (take 10 wal) + 0) [] 0 db"
    using False len by (simp add: recover_def del: length_take)
  show ?thesis
    unfolding rd rc
    using recover_loop_eq[where base = 10 and d = "drop 10 wal" and pos = 0 and b = "[]"
        and acc = "[]" and pre = "take 10 wal" and a = 0 and db = db]
    by (auto split: sum.splits)
qed

section \<open>Overlays: the effect of a sequence of writes on a file\<close>

definition fbyte :: "bytes \<Rightarrow> nat \<Rightarrow> byte" where
  "fbyte f i = (if i < length f then f ! i else 0)"

lemma file_eqI: "length f = length g \<Longrightarrow> (\<And>i. fbyte f i = fbyte g i) \<Longrightarrow> f = g"
  by (rule nth_equalityI) (auto simp: fbyte_def split: if_splits, metis)

lemma fbyte_write_at:
  "fbyte (write_at f off d) i = (if off \<le> i \<and> i < off + length d then d ! (i - off) else fbyte f i)"
  by (cases "d = []") (auto simp: fbyte_def nth_write_at length_write_at)

lemma extend_to_length: "length (extend_to n f) = max (length f) (nat n * PAGE_SIZE)"
  by (auto simp: extend_to_def length_write_at Let_def)

lemma extend_to_fbyte: "fbyte (extend_to n f) i = fbyte f i"
proof (cases "length f < nat n * PAGE_SIZE")
  case True
  let ?e = "nat n * PAGE_SIZE - 1"
  have "\<not> ?e < length f" using True by linarith
  then have "fbyte f ?e = 0" by (simp only: fbyte_def if_False)
  then have "fbyte (write_at f ?e [0]) i = fbyte f i"
    by (cases "i = ?e") (simp_all only: fbyte_write_at, auto)
  then show ?thesis using True by (simp add: extend_to_def)
next
  case False
  then show ?thesis by (simp add: extend_to_def)
qed

text \<open>\<open>overlay F m k\<close>: \<open>F\<close> overwrites the bytes given by \<open>m\<close> and grows the file to \<open>k\<close> bytes.\<close>

definition overlay :: "(bytes \<Rightarrow> bytes) \<Rightarrow> (nat \<Rightarrow> byte option) \<Rightarrow> nat \<Rightarrow> bool" where
  "overlay F m k \<longleftrightarrow> (\<forall>f. length (F f) = max (length f) k \<and>
     (\<forall>i. fbyte (F f) i = (case m i of Some b \<Rightarrow> b | None \<Rightarrow> fbyte f i)))"

lemma overlay_id: "overlay (\<lambda>f. f) (\<lambda>i. None) 0"
  by (simp add: overlay_def)

lemma overlay_comp:
  assumes "overlay F m k" and "overlay G m' k'"
  shows "overlay (\<lambda>f. G (F f)) (m ++ m') (max k k')"
  using assms by (auto simp: overlay_def map_add_def split: option.splits)

lemma overlay_write:
  "overlay (\<lambda>f. write_at f off d)
     (\<lambda>i. if off \<le> i \<and> i < off + length d then Some (d ! (i - off)) else None)
     (if d = [] then 0 else off + length d)"
  by (auto simp: overlay_def fbyte_write_at length_write_at)

lemma overlay_extend: "overlay (extend_to n) (\<lambda>i. None) (nat n * PAGE_SIZE)"
  by (simp add: overlay_def extend_to_length extend_to_fbyte)

text \<open>Doing part of the writes first changes nothing.\<close>

lemma overlay_absorb:
  assumes "overlay F m k" and "overlay G m' k'" and "dom m' \<subseteq> dom m" and "k' \<le> k"
  shows "F (G f) = F f"
proof (rule file_eqI)
  show "length (F (G f)) = length (F f)" using assms by (simp add: overlay_def)
  fix i
  show "fbyte (F (G f)) i = fbyte (F f) i"
    using assms by (auto simp: overlay_def split: option.splits)
qed

section \<open>Interrupted recovery\<close>

text \<open>The writes that a recovery performs, one by one.\<close>

datatype dbop = WImage int bytes | WExtend int

fun dbop_run :: "dbop \<Rightarrow> bytes \<Rightarrow> bytes" where
  "dbop_run (WImage pg im) db = write_at db (nat pg * PAGE_SIZE) im"
| "dbop_run (WExtend n) db = extend_to n db"

definition recovery_ops :: "(batch \<times> int) list \<Rightarrow> dbop list" where
  "recovery_ops bs =
     concat (map (\<lambda>(b, n). map (\<lambda>(pg, im). WImage pg im) (sort_key fst b) @ [WExtend n]) bs)"

definition run_ops :: "dbop list \<Rightarrow> bytes \<Rightarrow> bytes" where
  "run_ops ops db = foldl (\<lambda>db op. dbop_run op db) db ops"

lemma run_ops_simps [simp]:
  "run_ops [] db = db" "run_ops (op # ops) db = run_ops ops (dbop_run op db)"
  "run_ops (as @ bs) db = run_ops bs (run_ops as db)"
  by (simp_all add: run_ops_def)

lemma run_images: "run_ops (map (\<lambda>(pg, im). WImage pg im) b) db =
    foldl (\<lambda>db (pg, im). write_at db (nat pg * PAGE_SIZE) im) db b"
  by (induction b arbitrary: db) auto

lemma apply_batches_ops: "apply_batches bs db = run_ops (recovery_ops bs) db"
  by (induction bs arbitrary: db) (auto simp: recovery_ops_def write_images_def run_images)

text \<open>A step that was cut off has written a prefix of its bytes.\<close>

fun torn_step :: "nat \<Rightarrow> dbop \<Rightarrow> bytes \<Rightarrow> bytes" where
  "torn_step t (WImage pg im) db = write_at db (nat pg * PAGE_SIZE) (take t im)"
| "torn_step t (WExtend n) db = db"

definition cut_recovery :: "nat \<Rightarrow> nat \<Rightarrow> dbop list \<Rightarrow> bytes \<Rightarrow> bytes" where
  "cut_recovery k t ops db =
     (let db1 = run_ops (take k ops) db
      in if k < length ops then torn_step t (ops ! k) db1 else db1)"

fun dbop_map :: "dbop \<Rightarrow> nat \<Rightarrow> byte option" where
  "dbop_map (WImage pg im) i =
     (let off = nat pg * PAGE_SIZE in
      if off \<le> i \<and> i < off + length im then Some (im ! (i - off)) else None)"
| "dbop_map (WExtend n) i = None"

fun dbop_end :: "dbop \<Rightarrow> nat" where
  "dbop_end (WImage pg im) = (if im = [] then 0 else nat pg * PAGE_SIZE + length im)"
| "dbop_end (WExtend n) = nat n * PAGE_SIZE"

lemma overlay_step: "overlay (dbop_run op) (dbop_map op) (dbop_end op)"
proof (cases op)
  case (WImage pg im)
  then show ?thesis
    by (auto simp: overlay_def fbyte_write_at length_write_at Let_def)
next
  case (WExtend n)
  then show ?thesis by (simp add: overlay_def extend_to_length extend_to_fbyte)
qed

lemma overlay_run: "\<exists>m k. overlay (run_ops ops) m k"
proof (induction ops)
  case Nil
  then show ?case using overlay_id by (auto simp: run_ops_def)
next
  case (Cons op ops)
  obtain m k where m: "overlay (run_ops ops) m k" using Cons.IH by blast
  have "run_ops (op # ops) = (\<lambda>f. run_ops ops (dbop_run op f))" by (simp add: fun_eq_iff)
  then show ?case using overlay_comp[OF overlay_step[of op] m] by auto
qed

lemma overlay_torn:
  "\<exists>m k. overlay (torn_step t op) m k \<and> dom m \<subseteq> dom (dbop_map op) \<and> k \<le> dbop_end op"
proof (cases op)
  case (WExtend n)
  then have "overlay (torn_step t op) (\<lambda>i. None) 0" by (simp add: overlay_def)
  then show ?thesis by (auto intro!: exI[of _ "\<lambda>i. None"] exI[of _ "0::nat"])
next
  case (WImage pg im)
  have "overlay (torn_step t op) (dbop_map (WImage pg (take t im))) (dbop_end (WImage pg (take t im)))"
    using overlay_step[of "WImage pg (take t im)"] WImage by (simp add: overlay_def)
  moreover have "dom (dbop_map (WImage pg (take t im))) \<subseteq> dom (dbop_map op)"
    using WImage by (auto simp: dom_def Let_def split: if_splits)
  moreover have "dbop_end (WImage pg (take t im)) \<le> dbop_end op"
    using WImage by auto
  ultimately show ?thesis by blast
qed

text \<open>
  C5. Recovery may crash and start over: after a replay was cut off behind any number of
  its writes, inside one of them even, replaying the log again leaves the same file as an
  undisturbed recovery; in particular recovering twice is recovering once.
\<close>

theorem recovery_restartable:
  "apply_batches bs (cut_recovery k t (recovery_ops bs) db) = apply_batches bs db"
proof -
  let ?ops = "recovery_ops bs"
  obtain m1 k1 where a: "overlay (run_ops (take k ?ops)) m1 k1" using overlay_run by blast
  show ?thesis
  proof (cases "k < length ?ops")
    case False
    then have c: "cut_recovery k t ?ops db = run_ops ?ops db" by (simp add: cut_recovery_def)
    obtain m k' where m: "overlay (run_ops ?ops) m k'" using overlay_run by blast
    show ?thesis
      using overlay_absorb[OF m m order_refl order_refl] by (simp add: apply_batches_ops c)
  next
    case True
    let ?op = "?ops ! k"
    obtain m3 k3 where b: "overlay (run_ops (drop (Suc k) ?ops)) m3 k3" using overlay_run by blast
    obtain m2 k2 where t: "overlay (torn_step t ?op) m2 k2" "dom m2 \<subseteq> dom (dbop_map ?op)"
      "k2 \<le> dbop_end ?op"
      using overlay_torn by blast
    have split: "run_ops ?ops f = run_ops (drop (Suc k) ?ops) (dbop_run ?op (run_ops (take k ?ops) f))" for f
    proof -
      have "?ops = take k ?ops @ ?op # drop (Suc k) ?ops" using True by (rule id_take_nth_drop)
      then show ?thesis by (metis run_ops_simps(2,3))
    qed
    have full: "overlay (run_ops ?ops) ((m1 ++ dbop_map ?op) ++ m3) (max (max k1 (dbop_end ?op)) k3)"
      using overlay_comp[OF overlay_comp[OF a overlay_step] b] split by (simp add: overlay_def)
    have cut: "overlay (cut_recovery k t ?ops) (m1 ++ m2) (max k1 k2)"
      using overlay_comp[OF a t(1)] True by (simp add: overlay_def cut_recovery_def Let_def)
    have "dom (m1 ++ m2) \<subseteq> dom ((m1 ++ dbop_map ?op) ++ m3)" using t(2) by auto
    moreover have "max k1 k2 \<le> max (max k1 (dbop_end ?op)) k3" using t(3) by auto
    ultimately show ?thesis
      using overlay_absorb[OF full cut] by (simp add: apply_batches_ops)
  qed
qed

section \<open>Batches are atomic\<close>

lemma sort_key_sorted: "sorted (map f xs) \<Longrightarrow> sort_key f xs = xs"
  by (induction xs) (auto simp: insort_is_Cons)

lemma write_images_sort [simp]: "write_images (sort_key fst b) db = write_images b db"
  by (simp add: write_images_def sort_key_sorted)

lemma log_report_apply:
  "log_blobs bs = Inr blobs \<Longrightarrow>
   apply_batches (map snd (log_report k bs)) db = apply_batches bs db \<and>
   length (log_report k bs) = length bs"
  by (induction bs arbitrary: blobs k db rule: log_blobs.induct) auto

lemma batch_blob_nonempty: "batch_blob ps n = Inr blob \<Longrightarrow> 0 < length blob"
  by (auto elim!: batch_blob_Inr commit_frame_Inr dest!: frame_length)

lemma recover_log:
  assumes "log_blobs bs = Inr blobs" and "\<forall>(ps, n) \<in> set bs. batch_ok ps"
    and "\<And>acc. read_loop 10 (blobs @ rest) (length blobs) [] acc = Inr (acc @ extra)"
  shows "recover (Some (WAL_HEADER @ blobs @ rest)) db =
           (Inr (length bs + length extra), apply_batches (map snd extra) (apply_batches bs db))"
proof (cases "blobs @ rest = []")
  case True
  have "bs = []"
  proof (rule ccontr)
    assume "bs \<noteq> []"
    then obtain ps n bs' where "bs = (ps, n) # bs'" by (metis list.exhaust surj_pair)
    then show False using assms(1) True by (auto dest!: batch_blob_nonempty)
  qed
  moreover have "extra = []" using assms(3)[of "[]"] True read_end[of 10 "[]"] by simp
  ultimately show ?thesis using True by (simp add: recover_def)
next
  case False
  have "read_loop 10 (blobs @ rest) 0 [] [] = Inr (log_report 10 bs @ extra)"
    using read_log[OF assms(1,2), of 10 "[]" rest "[]"] assms(3)[of "log_report 10 bs"] by simp
  moreover have "recover (Some (WAL_HEADER @ blobs @ rest)) db =
      recover_loop (WAL_HEADER @ (blobs @ rest)) (length WAL_HEADER + 0) [] 0 db"
    using False by (auto simp: recover_def)
  ultimately show ?thesis
    using recover_loop_eq[where base = 10 and d = "blobs @ rest" and pos = 0 and b = "[]"
        and acc = "[]" and pre = WAL_HEADER and a = 0 and db = db]
      log_report_apply[OF assms(1), of 10]
    by (auto simp: apply_batches_append)
qed

text \<open>
  C2. Commits are atomic under a crash: if the machine stops while a batch is being
  appended to a log of complete batches, so that only the first \<open>k\<close> bytes of it reached the
  log, then recovery replays all earlier batches, and the new one if and only if all of its
  bytes are there.
\<close>

theorem torn_commit_is_atomic:
  assumes "log_blobs bs = Inr blobs" and "\<forall>(ps, n) \<in> set bs. batch_ok ps"
    and "batch_blob ps n = Inr blob" and "batch_ok ps" and "k \<le> length blob"
  shows "recover (Some (WAL_HEADER @ blobs @ take k blob)) db =
           (if k = length blob then (Inr (Suc (length bs)), apply_batches (bs @ [(ps, n)]) db)
            else (Inr (length bs), apply_batches bs db))"
proof (cases "k = length blob")
  case False
  then have "read_loop 10 (blobs @ take k blob) (length blobs) [] acc = Inr (acc @ [])" for acc
    using read_torn[OF assms(3,4), of k] assms(5) by simp
  from recover_log[OF assms(1,2) this] False show ?thesis by simp
next
  case True
  have "read_loop 10 (blobs @ take k blob) (length blobs) [] acc =
      Inr (acc @ [(10 + (length blobs + length blob), sort_key fst ps, n)])" for acc
    using read_blob[OF assms(3,4), of 10 blobs "[]"] read_end[of 10 "blobs @ blob"] True by simp
  from recover_log[OF assms(1,2) this] True show ?thesis by (simp add: apply_batches_append)
qed

lemma torn_commit_is_atomic_witness:
  "\<exists>b1 b2. batch_blob [(3, [1, 2])] 7 = Inr b1 \<and> batch_blob [(1, [5])] 8 = Inr b2 \<and>
     recover (Some (WAL_HEADER @ b1 @ take 30 b2)) [] = (Inr 1, apply_batches [([(3, [1, 2])], 7)] [])"
proof -
  have "\<not> isl (batch_blob [(3, [1, 2])] 7)" "\<not> isl (batch_blob [(1, [5])] 8)" by code_simp+
  then obtain b1 b2 where b: "batch_blob [(3, [1, 2])] 7 = Inr b1" "batch_blob [(1, [5])] 8 = Inr b2"
    by (metis isl_def sum.exhaust_disc sum.collapse(2))
  have "map_sum id length (batch_blob [(1, [5])] 8) = Inr 37" by code_simp
  then have len: "length b2 = 37" using b(2) by simp
  have ok: "\<forall>(ps, n) \<in> set [([(3 :: int, [1 :: byte, 2])], 7 :: int)]. batch_ok ps" "batch_ok [(1, [5])]"
    by code_simp+
  have l: "log_blobs [([(3, [1, 2])], 7)] = Inr b1" using b(1) by simp
  show ?thesis using torn_commit_is_atomic[OF l ok(1) b(2) ok(2), of 30 "[]"] b len by simp
qed

section \<open>Durability: the pages after recovery\<close>

fun last_image :: "(batch \<times> int) list \<Rightarrow> int \<Rightarrow> bytes option" where
  "last_image [] p = None"
| "last_image ((b, n) # bs) p =
     (case last_image bs p of Some im \<Rightarrow> Some im | None \<Rightarrow> map_of b p)"

definition images_ok :: "batch \<Rightarrow> bool" where
  "images_ok b \<longleftrightarrow> distinct (map fst b) \<and> (\<forall>(p, im) \<in> set b. 0 \<le> p \<and> length im = PAGE_SIZE)"

lemma disk_page_fbyte: "(\<And>i. fbyte f i = fbyte g i) \<Longrightarrow> disk_page f n = disk_page g n"
  by (rule nth_equalityI) (simp_all add: nth_disk_page fbyte_def)

lemma write_list_page:
  assumes "images_ok b"
  shows "disk_page (foldl (\<lambda>db (pg, im). write_at db (nat pg * PAGE_SIZE) im) db b) m =
           (case map_of b (int m) of Some im \<Rightarrow> im | None \<Rightarrow> disk_page db m)"
  using assms
proof (induction b arbitrary: db)
  case Nil
  then show ?case by simp
next
  case (Cons kv b)
  obtain p im where kv: "kv = (p, im)" by force
  have len: "length im = PAGE_SIZE" and p: "0 \<le> p" and ok: "images_ok b" "map_of b p = None"
    using Cons.prems kv by (auto simp: images_ok_def map_of_eq_None_iff)
  have "disk_page (write_at db (nat p * PAGE_SIZE) im) m =
      (if int m = p then im else disk_page db m)"
    using p disk_page_write_same[OF len] disk_page_write_other[OF len] by auto
  then show ?case using Cons.IH[OF ok(1)] ok(2) kv by (auto split: option.splits)
qed

lemma map_of_sort_key: "distinct (map fst b) \<Longrightarrow> map_of (sort_key fst b) = map_of b"
  by (rule map_of_inject_set[THEN iffD2]) (simp_all add: distinct_map)

lemma write_images_page:
  assumes "images_ok b"
  shows "disk_page (write_images b db) m =
           (case map_of b (int m) of Some im \<Rightarrow> im | None \<Rightarrow> disk_page db m)"
  using write_list_page[of "sort_key fst b" db m] map_of_sort_key[of b] assms
  by (simp add: write_images_def images_ok_def distinct_map)

lemma apply_batches_page:
  assumes "\<forall>(b, n) \<in> set bs. images_ok b"
  shows "disk_page (apply_batches bs db) m =
           (case last_image bs (int m) of Some im \<Rightarrow> im | None \<Rightarrow> disk_page db m)"
  using assms
proof (induction bs arbitrary: db)
  case Nil
  then show ?case by simp
next
  case (Cons x bs)
  obtain b n where x: "x = (b, n)" by force
  have "disk_page (extend_to n (write_images b db)) m = disk_page (write_images b db) m"
    by (rule disk_page_fbyte) (rule extend_to_fbyte)
  then show ?case
    using Cons.IH[of "extend_to n (write_images b db)"] Cons.prems write_images_page[of b db m] x
    by (auto split: option.splits)
qed

end
