(* ===== verification/Session.thy ===== *)
theory Session
  imports PagerTxn Recovery
begin

text \<open>
  One session of \<open>leafdb/engine.py\<close> on its pager and its log: opening (recovery first),
  begin, commit, rollback, checkpoint, and \<open>refresh_from_wal\<close>, which adopts what other
  sessions committed. The catalog and index snapshots of the engine are not part of it.
  The main result is durability: whatever a session committed is what the next open finds.
\<close>

section \<open>State and operations\<close>

record session =
  pgr :: pager
  log :: bytes
  log_pos :: nat
  in_txn :: bool

definition db_open :: "bytes option \<Rightarrow> nat \<Rightarrow> (bytes, session) prog" where
  "db_open wal cap db =
     (case recover wal db of
        (Inl e, db1) \<Rightarrow> (Inl e, db1)
      | (Inr applied, db1) \<Rightarrow>
          (let w = (if applied \<noteq> 0 then wal_reset (wal_open wal) else wal_open wal) in
           (Inr \<lparr>pgr = pager_init db1 cap, log = w, log_pos = length w, in_txn = False\<rparr>, db1)))"

definition on_pager :: "(pager, 'a) prog \<Rightarrow> (session, 'a) prog" where
  "on_pager m s = (let (r, p) = m (pgr s) in (r, s\<lparr>pgr := p\<rparr>))"

definition begin_session :: "(session, unit) prog" where
  "begin_session s =
     (if in_txn s then (Inl TransactionError, s) else
      bindP (on_pager begin_txn) (\<lambda>_ s. (Inr (), s\<lparr>in_txn := True\<rparr>)) s)"

definition page_batch :: "(nat \<times> bytes) list \<Rightarrow> batch" where
  "page_batch images = map (\<lambda>(n, d). (int n, d)) images"

definition commit_session :: "(session, unit) prog" where
  "commit_session s =
     (if \<not> in_txn s then (Inl TransactionError, s) else
      bindP (on_pager collect_commit)
        (\<lambda>(pages, npages, images) s.
           if images \<noteq> [] \<or> pages \<noteq> [] then
             (case append_batch (page_batch images) (int npages) (log s) of
                (Inl e, f) \<Rightarrow> (Inl e, s\<lparr>log := f\<rparr>)
              | (Inr pos, f) \<Rightarrow> (Inr (), s\<lparr>log := f, log_pos := pos, in_txn := False\<rparr>))
           else (Inr (), s\<lparr>in_txn := False\<rparr>)) s)"

definition rollback_session :: "(session, unit) prog" where
  "rollback_session s =
     (if \<not> in_txn s then (Inl TransactionError, s)
      else (Inr (), s\<lparr>pgr := rollback_txn (pgr s), in_txn := False\<rparr>))"

definition checkpoint_session :: "nat \<Rightarrow> (session, unit) prog" where
  "checkpoint_session others s =
     (if in_txn s then (Inl TransactionError, s)
      else if others \<noteq> 0 then (Inl TransactionError, s)
      else bindP (on_pager pager_flush)
        (\<lambda>_ s. (Inr (), s\<lparr>log := wal_reset (log s), log_pos := length WAL_HEADER\<rparr>)) s)"

text \<open>
  \<open>refresh_from_wal\<close>: each batch of another session goes into the pool as clean pages.
\<close>

definition adopt_image :: "nat \<Rightarrow> bytes \<Rightarrow> pager \<Rightarrow> pager" where
  "adopt_image n im p =
     (let q = pool_put n (next_oid p, im) False (p\<lparr>next_oid := Suc (next_oid p)\<rparr>)
      in q\<lparr>dirty := dirty q - {n}\<rparr>)"

definition adopt_batch :: "nat \<times> batch \<times> int \<Rightarrow> session \<Rightarrow> session" where
  "adopt_batch b s =
     (case b of (new_pos, images, npages) \<Rightarrow>
        let p = foldl (\<lambda>p (pg, im). adopt_image (nat pg) im p) (pgr s) images in
        s\<lparr>pgr := (if int (num_pages p) < npages then p\<lparr>num_pages := nat npages\<rparr> else p),
          log_pos := new_pos\<rparr>)"

definition refresh_session :: "bytes \<Rightarrow> nat option \<Rightarrow> (session, unit) prog" where
  "refresh_session shared limit s =
     (if in_txn s then (Inr (), s) else
      case read_batches_from shared (log_pos s) limit of
        Inl e \<Rightarrow> (Inl e, s)
      | Inr bs \<Rightarrow> (Inr (), foldl (\<lambda>s b. adopt_batch b s) s bs))"

section \<open>What a session keeps\<close>

text \<open>Pages are numbered below the page count, so no page has the commit marker's number.\<close>

definition touched_bounded :: "pager \<Rightarrow> bool" where
  "touched_bounded p \<longleftrightarrow> (\<forall>T. touched p = Some T \<longrightarrow> (\<forall>n \<in> T. n < num_pages p))"

lemma touched_bounded_step:
  assumes "txn_inv p0 p" and "touched_bounded p"
  shows "touched_bounded (pop_step op p)"
proof -
  note I = txn_invD(1)[OF assms(1)]
  show ?thesis
  proof (cases op)
    case (PGet n)
    then show ?thesis
      using pager_get_ok[OF I, of n] assms(2)
      by (cases "n < num_pages p \<or> n = 0") (auto simp: touched_bounded_def pager_get_def)
  next
    case (PWrite n d)
    show ?thesis
    proof (cases "length d \<le> PAGE_SIZE")
      case True
      then show ?thesis
        using pager_write_ok[OF I True, of n] assms(2) PWrite
        by (auto simp: touched_bounded_def less_max_iff_disj)
    next
      case False
      then show ?thesis using PWrite assms(2) by (simp add: pager_write_def)
    qed
  next
    case PAlloc
    then show ?thesis
      using pager_allocate_ok[OF I] assms(2) by (auto simp: touched_bounded_def less_Suc_eq)
  qed
qed

lemma touched_bounded_run:
  assumes "txn_inv p0 p" and "touched_bounded p"
  shows "touched_bounded (txn_run ops p)"
  using assms unfolding txn_run_def
  by (induction ops arbitrary: p) (auto intro: txn_inv_step touched_bounded_step)

text \<open>Outside a transaction, the file changes only by writing current images back.\<close>

lemma evict_loop_disk:
  assumes "evict_loop cap pl p = (r, q)"
    and "\<And>n d. map_of pl n = Some d \<Longrightarrow> length (snd d) = PAGE_SIZE" and "distinct (map fst pl)"
  shows "disk_page (pfile q) n = disk_page (pfile p) n \<or>
         (\<exists>d. map_of pl n = Some d \<and> disk_page (pfile q) n = snd d)"
  using assms
proof (induction cap pl p rule: evict_loop.induct)
  case (1 cap p)
  then show ?case by (auto split: if_splits)
next
  case (2 cap m d rest p)
  have len: "length (snd d) = PAGE_SIZE" using 2(4)[of m d] by simp
  have rest: "map_of rest m = None" "distinct (map fst rest)"
    using 2(5) by (auto simp: map_of_eq_None_iff)
  have sub: "length (snd x) = PAGE_SIZE" if "map_of rest i = Some x" for i x
    using 2(4)[of i x] that rest by (cases "i = m") auto
  show ?case
  proof (cases "cap \<le> length ((m, d) # rest)")
    case False
    then show ?thesis using 2(3) by auto
  next
    case full: True
    show ?thesis
    proof (cases "m \<in> dirty p")
      case True
      let ?p = "(write_page m (snd d) p)\<lparr>dirty := dirty p - {m}\<rparr>"
      have disk: "disk_page (pfile ?p) i = (if i = m then snd d else disk_page (pfile p) i)" for i
        by (simp add: write_page_def disk_page_write_same[OF len] disk_page_write_other[OF len])
      have "disk_page (pfile q) n = disk_page (pfile ?p) n \<or>
         (\<exists>d. map_of rest n = Some d \<and> disk_page (pfile q) n = snd d)"
        using 2(1)[OF full True _ sub rest(2)] 2(3) full True by simp
      then show ?thesis using disk[of n] rest(1) by (cases "n = m") auto
    next
      case False
      have "disk_page (pfile q) n = disk_page (pfile p) n \<or>
         (\<exists>d. map_of rest n = Some d \<and> disk_page (pfile q) n = snd d)"
        using 2(2)[OF full False _ sub rest(2)] 2(3) full False by simp
      then show ?thesis using rest(1) by (cases "n = m") auto
    qed
  qed
qed

lemma evict_if_full_disk:
  assumes "pager_inv p" and "evict_if_full p = (r, q)"
  shows "disk_page (pfile q) n = disk_page (pfile p) n \<or> disk_page (pfile q) n = page_image p n"
proof (cases "touched p = None")
  case False
  then show ?thesis using assms(2) by (auto simp: evict_if_full_def)
next
  case True
  then have "evict_loop (capacity p) (pool p) p = (r, q)" using assms(2) by (simp add: evict_if_full_def)
  from evict_loop_disk[OF this, of n] show ?thesis
    using assms(1) by (auto simp: pager_inv_def pool_wf_def obj_at_def page_image_def)
qed

lemma pager_get_disk:
  assumes "pager_inv p" and "pager_get n p = (r, q)"
  shows "disk_page (pfile q) m = disk_page (pfile p) m \<or> disk_page (pfile q) m = page_image p m"
proof (cases "num_pages p \<le> n \<and> n \<noteq> 0")
  case True
  then show ?thesis using assms(2) by (auto simp: pager_get_def)
next
  case False
  show ?thesis
  proof (cases "map_of (pool p) n")
    case (Some d)
    then show ?thesis using False assms(2) by (auto simp: pager_get_def pool_get_def)
  next
    case None
    let ?p = "p\<lparr>misses := Suc (misses p), next_oid := Suc (next_oid p)\<rparr>"
    have i: "pager_inv ?p" using assms(1) by simp
    obtain q1 where q1: "evict_if_full ?p = (Inr (), q1)" using evict_if_full_ok[OF i] by blast
    have "pfile q = pfile q1"
      using False None q1 assms(2)
      by (auto simp: pager_get_def pool_get_def read_page_def bindP_def pool_put_def)
    then show ?thesis using evict_if_full_disk[OF i q1, of m] by simp
  qed
qed

section \<open>Durability\<close>

text \<open>
  The steps of a session that is alone on its database: a read outside a transaction (which
  may evict pages to the file), a committed transaction, a rolled back one that started with
  nothing left to flush, and a checkpoint. An autocommit statement is a transaction.
\<close>

inductive session_step :: "session \<Rightarrow> session \<Rightarrow> bool" where
  read: "\<not> in_txn s \<Longrightarrow> on_pager (pager_get n) s = (r, s') \<Longrightarrow> session_step s s'"
| commit: "begin_session s = (Inr (), s1) \<Longrightarrow> s2 = s1\<lparr>pgr := txn_run ops (pgr s1)\<rparr> \<Longrightarrow>
    commit_session s2 = (Inr (), s') \<Longrightarrow> session_step s s'"
| rollback: "begin_session s = (Inr (), s1) \<Longrightarrow> s2 = s1\<lparr>pgr := txn_run ops (pgr s1)\<rparr> \<Longrightarrow>
    rollback_session s2 = (Inr (), s') \<Longrightarrow> dirty (pgr s) = {} \<Longrightarrow> session_step s s'"
| checkpoint: "checkpoint_session 0 s = (Inr (), s') \<Longrightarrow> session_step s s'"

definition log_holds :: "bytes \<Rightarrow> (batch \<times> int) list \<Rightarrow> bool" where
  "log_holds f bs \<longleftrightarrow> (\<exists>blobs. log_blobs bs = Inr blobs \<and> f = WAL_HEADER @ blobs) \<and>
     (\<forall>(ps, n) \<in> set bs. batch_ok ps \<and> images_ok ps)"

definition durable :: "session \<Rightarrow> bool" where
  "durable s \<longleftrightarrow> pager_inv (pgr s) \<and> dirty_ok (pgr s) \<and> touched (pgr s) = None \<and> \<not> in_txn s \<and>
     (\<exists>bs. log_holds (log s) bs \<and>
        (\<forall>n. page_image (pgr s) n =
           (case last_image bs (int n) of Some im \<Rightarrow> im | None \<Rightarrow> disk_page (pfile (pgr s)) n)))"

lemma durableI:
  assumes "pager_inv (pgr s)" and "dirty_ok (pgr s)" and "touched (pgr s) = None" and "\<not> in_txn s"
    and "log_holds (log s) bs"
    and "\<And>n. page_image (pgr s) n =
           (case last_image bs (int n) of Some im \<Rightarrow> im | None \<Rightarrow> disk_page (pfile (pgr s)) n)"
  shows "durable s"
  using assms unfolding durable_def by blast

lemma begin_session_Inr:
  assumes "begin_session s = (Inr (), s1)"
  shows "\<not> in_txn s \<and> begin_txn (pgr s) = (Inr (), pgr s1) \<and> in_txn s1 \<and> log s1 = log s \<and>
         touched (pgr s1) = Some {}"
  using assms
  by (auto simp: begin_session_def begin_txn_def on_pager_def bindP_def
      split: if_splits prod.splits sum.splits)

lemma log_blobs_snoc:
  "log_blobs bs = Inr blobs \<Longrightarrow> batch_blob ps n = Inr b \<Longrightarrow>
   log_blobs (bs @ [(ps, n)]) = Inr (blobs @ b)"
  by (induction bs arbitrary: blobs rule: log_blobs.induct) auto

lemma last_image_snoc:
  "last_image (bs @ [(ps, n)]) p =
     (case map_of ps p of Some im \<Rightarrow> Some im | None \<Rightarrow> last_image bs p)"
  by (induction bs p rule: last_image.induct) (auto split: option.splits)

lemma map_of_page_batch:
  "map_of (page_batch (map (\<lambda>n. (n, g n)) ns)) (int m) = (if m \<in> set ns then Some (g m) else None)"
  by (induction ns) (auto simp: page_batch_def)

lemma page_batch_ok:
  assumes "distinct ns" and "\<forall>n \<in> set ns. length (g n) = PAGE_SIZE \<and> int n < COMMIT_PAGE"
  shows "batch_ok (page_batch (map (\<lambda>n. (n, g n)) ns)) \<and> images_ok (page_batch (map (\<lambda>n. (n, g n)) ns))"
  using assms
  by (auto simp: page_batch_def batch_ok_def images_ok_def page_key_ok_def comp_def distinct_map inj_on_def)

lemma durable_read:
  assumes "durable s" and "on_pager (pager_get n) s = (r, s')"
  shows "durable s'"
proof -
  obtain bs where I: "pager_inv (pgr s)" "dirty_ok (pgr s)" "touched (pgr s) = None" "\<not> in_txn s"
    "log_holds (log s) bs" and im: "\<And>m. page_image (pgr s) m =
           (case last_image bs (int m) of Some im \<Rightarrow> im | None \<Rightarrow> disk_page (pfile (pgr s)) m)"
    using assms(1) unfolding durable_def by blast
  obtain q where q: "pager_get n (pgr s) = (r, q)" and s': "s' = s\<lparr>pgr := q\<rparr>"
    using assms(2) by (auto simp: on_pager_def split: prod.splits)
  show ?thesis
  proof (cases "n < num_pages (pgr s) \<or> n = 0")
    case False
    then have "q = pgr s" using q by (simp add: pager_get_def)
    then show ?thesis using assms(1) s' by simp
  next
    case True
    have k: "pager_inv q" "page_image q = page_image (pgr s)" "touched q = None" "dirty_ok q"
      using pager_get_ok[OF I(1) True] q I(2,3) by (auto simp: keeps_clean_def)
    have "page_image q m =
        (case last_image bs (int m) of Some im \<Rightarrow> im | None \<Rightarrow> disk_page (pfile q) m)" for m
      using pager_get_disk[OF I(1) q, of m] im[of m] k(2) by (auto split: option.splits)
    then show ?thesis using k I s' by (intro durableI[of s' bs]) (simp_all cong: option.case_cong)
  qed
qed

lemma touched_sorted:
  assumes "txn_inv p0 p"
  shows "finite (the (touched p))"
  using txn_invD(7)[OF assms] by simp

lemma durable_commit:
  assumes "durable s" and "begin_session s = (Inr (), s1)"
    and "s2 = s1\<lparr>pgr := txn_run ops (pgr s1)\<rparr>" and "commit_session s2 = (Inr (), s')"
  shows "durable s'"
proof -
  obtain bs where I: "pager_inv (pgr s)" "dirty_ok (pgr s)" "log_holds (log s) bs"
    and im: "\<And>m. page_image (pgr s) m =
           (case last_image bs (int m) of Some im \<Rightarrow> im | None \<Rightarrow> disk_page (pfile (pgr s)) m)"
    using assms(1) unfolding durable_def by blast
  note B = begin_session_Inr[OF assms(2)]
  let ?p0 = "pgr s\<lparr>touched := Some {}\<rparr>" and ?p2 = "pgr s2"
  have B1: "begin_txn (pgr s) = (Inr (), pgr s1)" using B by simp
  note S = begin_txn_start[OF I(1,2) B1]
  note T0 = begin_txn_inv(1)[OF I(1) B1]
  have T: "txn_inv ?p0 ?p2" using txn_inv_run[OF T0, of ops] assms(3) by simp
  have "touched_bounded (pgr s1)" using B by (simp add: touched_bounded_def)
  then have tb: "touched_bounded ?p2" using touched_bounded_run[OF T0] assms(3) by simp
  let ?T = "the (touched ?p2)"
  let ?ns = "sorted_list_of_set ?T"
  let ?imgs = "map (\<lambda>n. (n, page_image ?p2 n)) ?ns"
  have fin: "finite ?T" using touched_sorted[OF T] .
  obtain q where c: "collect_commit ?p2 = (Inr (?ns, num_pages ?p2, ?imgs), q)"
    and q: "page_image q = page_image ?p2" "pager_inv q" "dirty_ok q" "touched q = None"
      "\<And>n. n \<notin> ?T \<Longrightarrow> page_image q n = page_image ?p0 n"
    using commit_ok[OF T S(1,2)] by auto
  have fq: "pfile q = pfile (pgr s)"
    using c txn_invD(4)[OF T] by (auto simp: collect_commit_def Let_def split: sum.splits)
  have in2: "in_txn s2" "log s2 = log s" using B assms(3) by simp_all
  show ?thesis
  proof (cases "?ns = []")
    case True
    then have "?T = {}" using fin by simp
    moreover have "s' = s2\<lparr>pgr := q, in_txn := False\<rparr>"
      using assms(4) in2 c True by (simp add: commit_session_def on_pager_def bindP_def)
    ultimately show ?thesis
      using q fq im S(3) I(3) in2 by (intro durableI[of s' bs]) (simp_all cong: option.case_cong)
  next
    case False
    have "append_batch (page_batch ?imgs) (int (num_pages ?p2)) (log s) =
        (Inr (log_pos s'), log s')" and s': "pgr s' = q" "\<not> in_txn s'"
      using assms(4) in2 c False
      by (auto simp: commit_session_def on_pager_def bindP_def split: sum.splits prod.splits)
    then obtain blob where b: "batch_blob (page_batch ?imgs) (int (num_pages ?p2)) = Inr blob"
      "log s' = log s @ blob"
      by (auto simp: append_batch_def split: sum.splits)
    have np: "int (num_pages ?p2) < 4294967296"
      using b(1) by (auto elim!: batch_blob_Inr commit_frame_Inr)
    have bound: "length (page_image ?p2 n) = PAGE_SIZE \<and> int n < COMMIT_PAGE" if "n \<in> set ?ns" for n
    proof -
      have "n < num_pages ?p2"
        using that fin tb txn_invD(7)[OF T] by (auto simp: touched_bounded_def)
      then show ?thesis using np page_image_length[OF txn_invD(1)[OF T]] by (simp add: COMMIT_PAGE_def)
    qed
    have ok: "batch_ok (page_batch ?imgs) \<and> images_ok (page_batch ?imgs)"
      using bound by (intro page_batch_ok) simp_all
    have lh: "log_holds (log s') (bs @ [(page_batch ?imgs, int (num_pages ?p2))])"
      using I(3) log_blobs_snoc[OF _ b(1)] b(2) ok unfolding log_holds_def by auto
    have "page_image q m = (case last_image (bs @ [(page_batch ?imgs, int (num_pages ?p2))]) (int m) of
          Some im \<Rightarrow> im | None \<Rightarrow> disk_page (pfile q) m)" for m
    proof (cases "m \<in> ?T")
      case True
      then show ?thesis unfolding last_image_snoc map_of_page_batch using q(1) fin by simp
    next
      case False
      then have "page_image q m = page_image (pgr s) m" using q(5) S(3) by simp
      then show ?thesis
        unfolding last_image_snoc map_of_page_batch fq im[of m] using False fin by simp
    qed
    then show ?thesis
      by (intro durableI[OF _ _ _ s'(2) lh]) (simp_all only: s'(1) q(2-4))
  qed
qed

lemma durable_rollback:
  assumes "durable s" and "begin_session s = (Inr (), s1)"
    and "s2 = s1\<lparr>pgr := txn_run ops (pgr s1)\<rparr>" and "rollback_session s2 = (Inr (), s')"
    and "dirty (pgr s) = {}"
  shows "durable s'"
proof -
  obtain bs where I: "pager_inv (pgr s)" "dirty_ok (pgr s)" "log_holds (log s) bs"
    and im: "\<And>m. page_image (pgr s) m =
           (case last_image bs (int m) of Some im \<Rightarrow> im | None \<Rightarrow> disk_page (pfile (pgr s)) m)"
    using assms(1) unfolding durable_def by blast
  note B = begin_session_Inr[OF assms(2)]
  let ?p0 = "pgr s\<lparr>touched := Some {}\<rparr>" and ?p2 = "pgr s2"
  have B1: "begin_txn (pgr s) = (Inr (), pgr s1)" using B by simp
  note S = begin_txn_start[OF I(1,2) B1]
  have T: "txn_inv ?p0 ?p2"
    using txn_inv_run[OF begin_txn_inv(1)[OF I(1) B1], of ops] assms(3) by simp
  have dk: "dirty_ok ?p2" using txn_invD(3)[OF T] S(2) by (simp add: keeps_clean_def)
  have in2: "in_txn s2" "log s2 = log s" using B assms(3) by simp_all
  then have s': "s' = s2\<lparr>pgr := rollback_txn ?p2, in_txn := False\<rparr>"
    using assms(4) by (simp add: rollback_session_def)
  note R = rollback_ok[OF T] rollback_dirty(2)[OF T dk]
  have "clean_agree (rollback_txn ?p2)" using R(6) S(1) assms(5) by simp
  then have "pager_inv (rollback_txn ?p2)" using R(4) by (simp add: pager_inv_def)
  then show ?thesis using R s' in2 im S(3) I(3) by (intro durableI[of s' bs]) (simp_all cong: option.case_cong)
qed

lemma durable_checkpoint:
  assumes "durable s" and "checkpoint_session 0 s = (Inr (), s')"
  shows "durable s'"
proof -
  have I: "pool_wf (pgr s)" "clean_agree (pgr s)" "dirty_ok (pgr s)" "touched (pgr s) = None" "\<not> in_txn s"
    using assms(1) by (auto simp: durable_def pager_inv_def)
  obtain q where q: "pager_flush (pgr s) = (Inr (), q)" "dirty q = {}"
    "\<And>n. disk_page (pfile q) n = page_image (pgr s) n" "page_image q = page_image (pgr s)"
    "pool_wf q" "clean_agree q" "touched q = None"
    using flush_ok[OF I(1-3)] I(4) by auto
  have "s' = s\<lparr>pgr := q, log := WAL_HEADER, log_pos := length WAL_HEADER\<rparr>"
    using assms(2) q(1) I(5)
    by (simp add: checkpoint_session_def on_pager_def bindP_def wal_reset_def)
  moreover have "log_holds WAL_HEADER []" by (simp add: log_holds_def)
  ultimately show ?thesis
    using q I(5) by (intro durableI[of s' "[]"]) (simp_all add: pager_inv_def dirty_ok_def)
qed

lemma durable_step: "session_step s s' \<Longrightarrow> durable s \<Longrightarrow> durable s'"
  by (induction rule: session_step.induct)
    (blast intro: durable_read durable_commit durable_rollback durable_checkpoint)+

lemma durable_steps: "session_step\<^sup>*\<^sup>* s s' \<Longrightarrow> durable s \<Longrightarrow> durable s'"
  by (induction rule: rtranclp_induct) (auto intro: durable_step)

lemma durable_open:
  assumes "db_open wal cap db = (Inr s, db1)" and "log s = WAL_HEADER" and "0 < cap"
  shows "durable s"
proof -
  have s: "pgr s = pager_init db1 cap" "\<not> in_txn s"
    using assms(1) by (auto simp: db_open_def Let_def split: prod.splits sum.splits)
  have "log_holds (log s) []" using assms(2) by (simp add: log_holds_def)
  then show ?thesis
    using s pager_init_inv[OF assms(3), of db1]
    by (intro durableI[of s "[]"]) (simp_all add: dirty_ok_def pager_init_def)
qed

lemma durable_reopen:
  assumes "durable s" and "0 < cap"
  shows "\<exists>t db. db_open (Some (log s)) cap (pfile (pgr s)) = (Inr t, db) \<and>
           page_image (pgr t) = page_image (pgr s)"
proof -
  obtain bs where lh: "log_holds (log s) bs" and im: "\<And>n. page_image (pgr s) n =
           (case last_image bs (int n) of Some im \<Rightarrow> im | None \<Rightarrow> disk_page (pfile (pgr s)) n)"
    using assms(1) unfolding durable_def by blast
  obtain blobs where bl: "log_blobs bs = Inr blobs" "log s = WAL_HEADER @ blobs @ []"
    and ok: "\<forall>(ps, n) \<in> set bs. batch_ok ps" "\<forall>(ps, n) \<in> set bs. images_ok ps"
    using lh unfolding log_holds_def by auto
  let ?db = "apply_batches bs (pfile (pgr s))"
  have "read_loop 10 (blobs @ []) (length blobs) [] acc = Inr (acc @ [])" for acc
    using read_end[of 10 blobs "[]" acc] by simp
  from recover_log[OF bl(1) ok(1) this, of "pfile (pgr s)"]
  have rc: "recover (Some (log s)) (pfile (pgr s)) = (Inr (length bs), ?db)" by (simp add: bl(2))
  have "page_image (pager_init ?db cap) n = page_image (pgr s) n" for n
    using pager_init_inv[OF assms(2), of ?db n] apply_batches_page[OF ok(2), of "pfile (pgr s)" n] im[of n]
    by simp
  then show ?thesis using rc by (auto simp: db_open_def fun_eq_iff Let_def)
qed

text \<open>Nothing but a page count beyond 32 bits makes a commit fail.\<close>

lemma frame_ok:
  assumes "0 \<le> p" and "p < 256 ^ 4" and "int (length im) < 256 ^ 4"
  shows "\<exists>fr. frame p im = Inr fr"
  using assms crc32_range[of im] by (simp add: frame_def pack_u_def)

lemma mapE_frames_ok:
  assumes "\<forall>(p, im) \<in> set ps. 0 \<le> p \<and> p < 256 ^ 4 \<and> int (length im) < 256 ^ 4"
  shows "\<exists>frs. mapE (\<lambda>(p, im). frame p im) ps = Inr frs"
  using assms
proof (induction ps)
  case Nil
  then show ?case by simp
next
  case (Cons kv ps)
  obtain p im where kv: "kv = (p, im)" by force
  obtain fr where "frame p im = Inr fr" using frame_ok[of p im] Cons.prems kv by auto
  moreover obtain frs where "mapE (\<lambda>(p, im). frame p im) ps = Inr frs"
    using Cons by auto
  ultimately show ?case using kv by simp
qed

lemma batch_blob_ok:
  assumes "\<forall>(p, im) \<in> set ps. 0 \<le> p \<and> p < 256 ^ 4 \<and> length im = PAGE_SIZE"
    and "0 \<le> n" and "n < 256 ^ 4"
  shows "\<exists>blob. batch_blob ps n = Inr blob"
proof -
  have "\<forall>(p, im) \<in> set (sort_key fst ps). 0 \<le> p \<and> p < 256 ^ 4 \<and> int (length im) < 256 ^ 4"
    using assms(1) by (force simp: PAGE_SIZE_def)
  then obtain frs where "mapE (\<lambda>(p, im). frame p im) (sort_key fst ps) = Inr frs"
    using mapE_frames_ok by blast
  moreover obtain fr where "frame COMMIT_PAGE (be_bytes 4 n) = Inr fr"
    using frame_ok[of COMMIT_PAGE "be_bytes 4 n"] by (auto simp: COMMIT_PAGE_def)
  ultimately show ?thesis using assms(2,3) by (simp add: batch_blob_def commit_frame_def pack_u_def)
qed

text \<open>
  What every opened session keeps, also when pages of other sessions were adopted or a
  rollback took the dirty mark of committed pages: the pool is well formed and every dirty
  page is in it.
\<close>

definition pool_sound :: "pager \<Rightarrow> bool" where
  "pool_sound p \<longleftrightarrow> pool_wf p \<and> dirty_ok p"

lemma pool_sound_counters [simp]:
  "pool_sound (p\<lparr>hits := k\<rparr>) = pool_sound p" "pool_sound (p\<lparr>misses := k\<rparr>) = pool_sound p"
  "pool_sound (p\<lparr>num_pages := k\<rparr>) = pool_sound p"
  by (simp_all add: pool_sound_def pool_wf_def dirty_ok_def obj_at_def)

lemma pool_sound_oid: "pool_sound p \<Longrightarrow> next_oid p \<le> k \<Longrightarrow> pool_sound (p\<lparr>next_oid := k\<rparr>)"
  by (simp add: pool_sound_def pool_wf_oid) (simp add: dirty_ok_def)

lemma pool_sound_clean: "pool_sound p \<Longrightarrow> pool_sound (p\<lparr>dirty := dirty p - N\<rparr>)"
proof -
  have "obj_at (p\<lparr>dirty := dirty p - N\<rparr>) = obj_at p" by (simp add: obj_at_def fun_eq_iff)
  then show "pool_sound p \<Longrightarrow> pool_sound (p\<lparr>dirty := dirty p - N\<rparr>)"
    by (simp add: pool_sound_def pool_wf_def dirty_ok_def)
qed

lemma pool_sound_put:
  assumes "pool_sound p" and "length (snd d) = PAGE_SIZE" and "fst d < next_oid p"
  shows "pool_sound (pool_put n d b p)"
  using assms pool_put_wf[of p d n b] by (simp add: pool_sound_def dirty_ok_def obj_at_put)

lemma pool_sound_evict:
  assumes "pool_sound p" and "evict_if_full p = (r, q)"
  shows "r = Inr () \<and> pool_sound q \<and> next_oid q = next_oid p"
proof (cases "touched p = None")
  case False
  then show ?thesis using assms by (simp add: evict_if_full_def)
next
  case True
  then have e: "evict_loop (capacity p) (pool p) p = (r, q)" using assms(2) by (simp add: evict_if_full_def)
  have wf: "0 < capacity p" "distinct (map fst (pool p))"
    and ent: "\<And>n d. obj_at p n = Some d \<Longrightarrow> length (snd d) = PAGE_SIZE \<and> fst d < next_oid p"
    using assms(1) by (auto simp: pool_sound_def pool_wf_def)
  have "fst (evict_loop cap pl p) = Inr ()" if "0 < cap" for cap pl
    using that by (induction cap pl p rule: evict_loop.induct) auto
  then have r: "r = Inr ()" using e wf(1) by (metis fst_conv)
  obtain pre where pre: "pool p = pre @ pool q" using evict_loop_suffix[OF e] by blast
  have old: "\<And>n d. obj_at q n = Some d \<Longrightarrow> obj_at p n = Some d"
    unfolding obj_at_def using map_of_suffix[of pre "pool q"] wf(2) pre by simp
  note fr = evict_loop_frame[OF e]
  have "distinct (map fst (pool q))" using wf(2) pre by simp
  then have "pool_wf q" using wf(1) ent old fr unfolding pool_wf_def by metis
  moreover have "dirty_ok q"
    using evict_loop_dirty[OF e wf(2)] assms(1) by (simp add: pool_sound_def dirty_ok_pool)
  ultimately show ?thesis using r fr by (simp add: pool_sound_def)
qed

lemma pool_sound_get:
  assumes "pool_sound p" and "pager_get n p = (r, q)"
  shows "pool_sound q"
proof (cases "num_pages p \<le> n \<and> n \<noteq> 0")
  case True
  then show ?thesis using assms by (auto simp: pager_get_def)
next
  case False
  show ?thesis
  proof (cases "map_of (pool p) n")
    case (Some d)
    then have "q = (pool_put n d False p)\<lparr>hits := Suc (hits p)\<rparr>"
      using False assms(2) by (auto simp: pager_get_def pool_get_def pool_put_def)
    moreover have "length (snd d) = PAGE_SIZE" "fst d < next_oid p"
      using assms(1) Some unfolding pool_sound_def pool_wf_def obj_at_def by blast+
    ultimately show ?thesis using pool_sound_put[OF assms(1)] by simp
  next
    case None
    let ?p = "p\<lparr>misses := Suc (misses p), next_oid := Suc (next_oid p)\<rparr>"
    have sp: "pool_sound ?p" using pool_sound_oid[of "p\<lparr>misses := Suc (misses p)\<rparr>"] assms(1) by simp
    obtain r1 q1 where q1: "evict_if_full ?p = (r1, q1)" by force
    note E = pool_sound_evict[OF sp q1]
    have "q = pool_put n (next_oid p, disk_page (pfile p) n) False q1"
      using False None q1 E assms(2)
      by (auto simp: pager_get_def pool_get_def read_page_def bindP_def)
    then show ?thesis using pool_sound_put[of q1] E by simp
  qed
qed

lemma pool_sound_flush:
  assumes "pool_sound p"
  shows "\<exists>q. pager_flush p = (Inr (), q) \<and> pool_sound q"
proof -
  let ?ns = "sorted_list_of_set (dirty p)"
  have "\<forall>n \<in> set ?ns. obj_at p n \<noteq> None" "pool_wf p"
    using assms by (auto simp: pool_sound_def dirty_ok_def)
  from flush_loop_ok[OF distinct_sorted_list_of_set this] obtain q where
    q: "flush_loop ?ns p = (Inr (), q)" "pool_wf q" by blast
  then have "pool_sound (q\<lparr>dirty := {}\<rparr>)"
    by (simp add: pool_sound_def pool_wf_def dirty_ok_def obj_at_def)
  then show ?thesis using q(1) by (auto simp: pager_flush_def bindP_def)
qed

lemma pool_sound_adopt:
  assumes "pool_sound p" and "length im = PAGE_SIZE"
  shows "pool_sound (adopt_image n im p)"
proof -
  let ?q = "pool_put n (next_oid p, im) False (p\<lparr>next_oid := Suc (next_oid p)\<rparr>)"
  have "pool_sound ?q"
    using pool_sound_put[of "p\<lparr>next_oid := Suc (next_oid p)\<rparr>" "(next_oid p, im)"]
      pool_sound_oid[OF assms(1)] assms(2) by simp
  then show ?thesis using pool_sound_clean[of ?q "{n}"] by (simp add: adopt_image_def Let_def)
qed

lemma pool_sound_batch:
  assumes "pool_sound (pgr s)" and "images_ok (fst (snd b))"
  shows "pool_sound (pgr (adopt_batch b s))"
proof -
  obtain k images n where b: "b = (k, images, n)" by (cases b)
  have "pool_sound (foldl (\<lambda>p (pg, im). adopt_image (nat pg) im p) p images)"
    if "pool_sound p" "\<forall>(pg, im) \<in> set images. length im = PAGE_SIZE" for p
    using that by (induction images arbitrary: p) (auto intro: pool_sound_adopt)
  then show ?thesis using assms b by (auto simp: adopt_batch_def Let_def images_ok_def)
qed

lemma pool_sound_batches:
  assumes "pool_sound (pgr s)" and "\<forall>b \<in> set bs. images_ok (fst (snd b))"
  shows "pool_sound (pgr (foldl (\<lambda>s b. adopt_batch b s) s bs))"
  using assms by (induction bs arbitrary: s) (auto intro: pool_sound_batch)

text \<open>
  The steps of a session that shares its database: reads, committed transactions, rollbacks
  of any kind, checkpoints, and refreshes that adopt whole pages other sessions committed.
\<close>

inductive served_step :: "session \<Rightarrow> session \<Rightarrow> bool" where
  read: "\<not> in_txn s \<Longrightarrow> on_pager (pager_get n) s = (r, s') \<Longrightarrow> served_step s s'"
| commit: "begin_session s = (Inr (), s1) \<Longrightarrow> s2 = s1\<lparr>pgr := txn_run ops (pgr s1)\<rparr> \<Longrightarrow>
    commit_session s2 = (Inr (), s') \<Longrightarrow> served_step s s'"
| rollback: "begin_session s = (Inr (), s1) \<Longrightarrow> s2 = s1\<lparr>pgr := txn_run ops (pgr s1)\<rparr> \<Longrightarrow>
    rollback_session s2 = (Inr (), s') \<Longrightarrow> served_step s s'"
| checkpoint: "checkpoint_session others s = (Inr (), s') \<Longrightarrow> served_step s s'"
| refresh: "read_batches_from shared (log_pos s) limit = Inr bs \<Longrightarrow>
    \<forall>b \<in> set bs. images_ok (fst (snd b)) \<Longrightarrow>
    refresh_session shared limit s = (Inr (), s') \<Longrightarrow> served_step s s'"

text \<open>A transaction of a sound session, up to its commit or rollback.\<close>

lemma sound_txn:
  assumes "pool_sound (pgr s)" and "begin_session s = (Inr (), s1)"
    and "s2 = s1\<lparr>pgr := txn_run ops (pgr s1)\<rparr>"
  shows "txn_inv (pgr s\<lparr>touched := Some {}\<rparr>) (pgr s2)" and "dirty_ok (pgr s\<lparr>touched := Some {}\<rparr>)"
    and "touched_bounded (pgr s2)" and "in_txn s2"
proof -
  note B = begin_session_Inr[OF assms(2)]
  have B1: "begin_txn (pgr s) = (Inr (), pgr s1)" using B by simp
  have T0: "txn_inv (pgr s\<lparr>touched := Some {}\<rparr>) (pgr s1)"
    using begin_txn_wf[OF _ B1] assms(1) by (simp add: pool_sound_def)
  then show "txn_inv (pgr s\<lparr>touched := Some {}\<rparr>) (pgr s2)" using txn_inv_run assms(3) by simp
  have "touched_bounded (pgr s1)" using B by (simp add: touched_bounded_def)
  then show "touched_bounded (pgr s2)" using touched_bounded_run[OF T0] assms(3) by simp
  show "dirty_ok (pgr s\<lparr>touched := Some {}\<rparr>)"
    using assms(1) by (simp add: pool_sound_def dirty_ok_def obj_at_def)
  show "in_txn s2" using B assms(3) by simp
qed

lemma served_sound: "served_step s s' \<Longrightarrow> pool_sound (pgr s) \<Longrightarrow> pool_sound (pgr s')"
proof (induction rule: served_step.induct)
  case (read s n r s')
  then show ?case using pool_sound_get by (auto simp: on_pager_def split: prod.splits)
next
  case (commit s s1 s2 ops s')
  note X = sound_txn[OF commit(4,1,2)]
  note C = collect_ok[OF X(1,2)]
  have "pgr s' = pgr s2\<lparr>touched := None, shadow := []\<rparr>"
    using commit(3) X(4) C(1)
    by (auto simp: commit_session_def on_pager_def bindP_def split: if_splits sum.splits prod.splits)
  then show ?case using C(5,6) by (simp add: pool_sound_def)
next
  case (rollback s s1 s2 ops s')
  note X = sound_txn[OF rollback(4,1,2)]
  have "pgr s' = rollback_txn (pgr s2)"
    using rollback(3) X(4) by (auto simp: rollback_session_def)
  then show ?case
    using rollback_ok(4)[OF X(1)] rollback_dirty(2)[OF X(1) collect_ok(2)[OF X(1,2)]]
    by (simp add: pool_sound_def)
next
  case (checkpoint others s s')
  then show ?case
    using pool_sound_flush[of "pgr s"]
    by (auto simp: checkpoint_session_def on_pager_def bindP_def split: if_splits)
next
  case (refresh shared s limit bs s')
  then show ?case using pool_sound_batches[of s bs] by (auto simp: refresh_session_def split: if_splits)
qed

lemma served_steps: "served_step\<^sup>*\<^sup>* s s' \<Longrightarrow> pool_sound (pgr s) \<Longrightarrow> pool_sound (pgr s')"
  by (induction rule: rtranclp_induct) (auto intro: served_sound)

lemma open_sound:
  assumes "db_open wal cap db = (Inr s, db1)" and "0 < cap"
  shows "pool_sound (pgr s)"
proof -
  have "pgr s = pager_init db1 cap"
    using assms(1) by (auto simp: db_open_def Let_def split: prod.splits sum.splits)
  then show ?thesis
    using pager_init_inv[OF assms(2), of db1]
    by (simp add: pool_sound_def pager_inv_def dirty_ok_def) (simp add: pager_init_def)
qed

lemma sound_commit:
  assumes "pool_sound (pgr s)" and "begin_session s = (Inr (), s1)"
    and "s2 = s1\<lparr>pgr := txn_run ops (pgr s1)\<rparr>" and "num_pages (pgr s2) < 4294967296"
  shows "\<exists>s'. commit_session s2 = (Inr (), s') \<and> page_image (pgr s') = page_image (pgr s2)"
proof -
  note X = sound_txn[OF assms(1-3)]
  note C = collect_ok[OF X(1,2)]
  let ?p2 = "pgr s2"
  let ?ns = "sorted_list_of_set (the (touched ?p2))"
  let ?imgs = "map (\<lambda>n. (n, page_image ?p2 n)) ?ns"
  have fin: "finite (the (touched ?p2))" using touched_sorted[OF X(1)] .
  have b: "n < num_pages ?p2" if "n \<in> set ?ns" for n
    using that fin X(3) txn_invD(7)[OF X(1)] by (auto simp: touched_bounded_def)
  have "0 \<le> pg \<and> pg < 256 ^ 4 \<and> length im = PAGE_SIZE" if "(pg, im) \<in> set (page_batch ?imgs)" for pg im
  proof -
    note mem = that
    obtain n where n: "n \<in> set ?ns" "pg = int n" "im = page_image ?p2 n"
      using mem by (auto simp: page_batch_def)
    then show ?thesis
      using b[OF n(1)] assms(4) page_image_length[OF txn_invD(1)[OF X(1)]] by simp
  qed
  then obtain blob where "batch_blob (page_batch ?imgs) (int (num_pages ?p2)) = Inr blob"
    using batch_blob_ok[of "page_batch ?imgs" "int (num_pages ?p2)"] assms(4) by auto
  then show ?thesis
    using C(1,4) X(4) by (auto simp: commit_session_def on_pager_def bindP_def append_batch_def)
qed

text \<open>
  C16. A commit cannot fail once its statements have run, as long as the database has fewer
  than \<open>2 ^ 32\<close> pages: for any log and file that open, after any reads, commits, rollbacks,
  checkpoints and refreshes (the adopted images being whole pages, as every commit writes
  them), every page the transaction wrote is still in the pool, every frame field fits, the
  batch is appended, and committing changes no page.
\<close>

theorem commit_succeeds:
  assumes "db_open wal cap db = (Inr s0, db1)" and "0 < cap" and "served_step\<^sup>*\<^sup>* s0 s"
    and "begin_session s = (Inr (), s1)" and "s2 = s1\<lparr>pgr := txn_run ops (pgr s1)\<rparr>"
    and "num_pages (pgr s2) < 4294967296"
  shows "\<exists>s'. commit_session s2 = (Inr (), s') \<and> page_image (pgr s') = page_image (pgr s2)"
  by (rule sound_commit[OF served_steps[OF assms(3) open_sound[OF assms(1,2)]] assms(4-6)])

text \<open>
  C1. Durability: open a database whose log is clean, run any sequence of reads, committed
  transactions, clean rollbacks and checkpoints, and stop without closing, losing the buffer
  pool. Opening again succeeds and every page has the image that the session last committed.
\<close>

theorem committed_pages_survive_crash:
  assumes "db_open wal cap db = (Inr s0, db1)" and "log s0 = WAL_HEADER" and "0 < cap"
    and "session_step\<^sup>*\<^sup>* s0 s"
  shows "\<exists>t db2. db_open (Some (log s)) cap (pfile (pgr s)) = (Inr t, db2) \<and>
           page_image (pgr t) = page_image (pgr s)"
  by (rule durable_reopen[OF durable_steps[OF assms(4) durable_open[OF assms(1-3)]] assms(3)])

section \<open>Witnesses\<close>

definition demo_session :: session where
  "demo_session = \<lparr>pgr = pager_init [] 4, log = WAL_HEADER, log_pos = 10, in_txn = False\<rparr>"

lemma demo_session_open: "db_open None 4 [] = (Inr demo_session, [])"
  by (simp add: db_open_def recover_def wal_open_def demo_session_def WAL_HEADER_def)

lemma demo_session_begin:
  "begin_session demo_session = (Inr (), snd (begin_session demo_session))"
  "num_pages (txn_run [PWrite 0 [1]] (pgr (snd (begin_session demo_session)))) = 1"
proof -
  have b: "begin_txn (pager_init [] 4) = (Inr (), snd (begin_txn (pager_init [] 4)))"
    by (simp add: begin_txn_def pager_init_def)
  then show "begin_session demo_session = (Inr (), snd (begin_session demo_session))"
    by (simp add: begin_session_def on_pager_def bindP_def demo_session_def begin_txn_def pager_init_def)
  have i: "pager_inv (snd (begin_txn (pager_init [] 4)))"
    using begin_txn_inv(3)[OF _ b] pager_init_inv[of 4 "[]"] by simp
  have "length [1 :: byte] \<le> PAGE_SIZE" by (simp add: PAGE_SIZE_def)
  from pager_write_ok[OF i this, of 0]
  show "num_pages (txn_run [PWrite 0 [1]] (pgr (snd (begin_session demo_session)))) = 1"
    by (auto simp: txn_run_def begin_session_def on_pager_def bindP_def demo_session_def
        begin_txn_def pager_init_def)
qed

lemma demo_session_durable: "durable demo_session"
  by (rule durable_open[OF demo_session_open]) (simp_all add: demo_session_def)

text \<open>Write page 0 in a transaction of any sound session.\<close>

definition demo_begun :: "session \<Rightarrow> session" where
  "demo_begun s = s\<lparr>pgr := (pgr s)\<lparr>touched := Some {}, shadow := []\<rparr>, in_txn := True\<rparr>"

definition demo_wrote :: "bytes \<Rightarrow> session \<Rightarrow> session" where
  "demo_wrote d s = (demo_begun s)\<lparr>pgr := txn_run [PWrite 0 d] (pgr (demo_begun s))\<rparr>"

lemma demo_wrote_ok:
  assumes "pool_sound (pgr s)" and "touched (pgr s) = None" and "\<not> in_txn s"
    and "length d \<le> PAGE_SIZE"
  shows "begin_session s = (Inr (), demo_begun s)" and "in_txn (demo_wrote d s)"
    and "num_pages (pgr (demo_wrote d s)) = max (num_pages (pgr s)) 1"
    and "page_image (pgr (demo_wrote d s)) 0 = pad_to PAGE_SIZE d"
proof -
  have b: "begin_txn (pgr s) = (Inr (), pgr (demo_begun s))"
    using assms(2) by (simp add: begin_txn_def demo_begun_def)
  then show "begin_session s = (Inr (), demo_begun s)"
    using assms(3) by (simp add: begin_session_def on_pager_def bindP_def demo_begun_def)
  have "pager_inv (pgr (demo_begun s))"
    using txn_invD(1)[OF begin_txn_wf[OF _ b]] assms(1) by (simp add: pool_sound_def)
  from pager_write_ok[OF this assms(4), of 0]
  show "num_pages (pgr (demo_wrote d s)) = max (num_pages (pgr s)) 1"
    "page_image (pgr (demo_wrote d s)) 0 = pad_to PAGE_SIZE d"
    by (auto simp: demo_wrote_def demo_begun_def txn_run_def)
  show "in_txn (demo_wrote d s)" by (simp add: demo_wrote_def demo_begun_def)
qed

lemma commit_succeeds_witness:
  "\<exists>s s'. served_step\<^sup>*\<^sup>* demo_session s \<and> page_image (pgr s) 0 = pad_to PAGE_SIZE [1] \<and>
     begin_session s = (Inr (), demo_begun s) \<and> commit_session (demo_wrote [3] s) = (Inr (), s') \<and>
     page_image (pgr s') 0 = pad_to PAGE_SIZE [3]"
proof -
  have len: "length [b :: byte] \<le> PAGE_SIZE" for b by (simp add: PAGE_SIZE_def)
  have s0: "pool_sound (pgr demo_session)" "touched (pgr demo_session) = None" "\<not> in_txn demo_session"
    "num_pages (pgr demo_session) = 1"
    using open_sound[OF demo_session_open] by (simp_all add: demo_session_def pager_init_def)
  note W = demo_wrote_ok[OF s0(1-3) len]
  obtain a where a: "commit_session (demo_wrote [1] demo_session) = (Inr (), a)"
    "page_image (pgr a) = page_image (pgr (demo_wrote [1] demo_session))"
    using sound_commit[OF s0(1) W(1) demo_wrote_def[of "[1]"]] W(3)[of 1] s0(4) by auto
  have a1: "served_step demo_session a" using served_step.commit[OF W(1) demo_wrote_def a(1)] .
  have X: "txn_inv (pgr demo_session\<lparr>touched := Some {}\<rparr>) (pgr (demo_wrote [1] demo_session))"
    "dirty_ok (pgr demo_session\<lparr>touched := Some {}\<rparr>)"
    using sound_txn[OF s0(1) W(1) demo_wrote_def[of "[1]"]] by simp_all
  have "pgr a = pgr (demo_wrote [1] demo_session)\<lparr>touched := None, shadow := []\<rparr> \<and> \<not> in_txn a"
    using a(1) W(2)[of 1] collect_ok(1)[OF X]
    by (auto simp: commit_session_def on_pager_def bindP_def split: if_splits sum.splits prod.splits)
  then have a2: "pool_sound (pgr a)" "touched (pgr a) = None" "\<not> in_txn a" "num_pages (pgr a) = 1"
    using served_sound[OF a1 s0(1)] W(3)[of 1] s0(4) by simp_all
  note V = demo_wrote_ok[OF a2(1-3) len]
  define b where "b = (demo_wrote [2] a)\<lparr>pgr := rollback_txn (pgr (demo_wrote [2] a)), in_txn := False\<rparr>"
  have rb: "rollback_session (demo_wrote [2] a) = (Inr (), b)"
    using V(2)[of 2] by (simp add: rollback_session_def b_def)
  have st: "served_step\<^sup>*\<^sup>* demo_session b"
    using a1 served_step.rollback[OF V(1) demo_wrote_def rb] by (meson converse_rtranclp_into_rtranclp r_into_rtranclp)
  note Y = sound_txn[OF a2(1) V(1) demo_wrote_def[of "[2]"]]
  have b2: "pool_sound (pgr b)" "touched (pgr b) = None" "\<not> in_txn b"
    using served_steps[OF st s0(1)] rollback_ok(3)[OF Y(1)] by (simp_all add: b_def)
  have "distinct (map fst (shadow (pgr (demo_wrote [2] a))))"
    using txn_invD(5)[OF Y(1)] by (simp add: shadow_wf_def)
  then have b3: "num_pages (pgr b) = 1"
    using restore_loop_ok[of _ "pgr (demo_wrote [2] a)"] V(3)[of 2] a2(4) by (simp add: b_def rollback_txn_def)
  have "page_image (pgr a\<lparr>touched := Some {}\<rparr>) = page_image (pgr a)"
    by (simp add: page_image_def obj_at_def fun_eq_iff cong: option.case_cong)
  then have im: "page_image (pgr b) 0 = pad_to PAGE_SIZE [1]"
    using rollback_ok(1)[OF Y(1)] a(2) W(4)[of 1] by (simp add: b_def)
  note U = demo_wrote_ok[OF b2 len]
  have np: "num_pages (pgr (demo_wrote [3] b)) < 4294967296" using U(3)[of 3] b3 by simp
  from commit_succeeds[OF demo_session_open _ st U(1) demo_wrote_def np] obtain s' where
    "commit_session (demo_wrote [3] b) = (Inr (), s')" "page_image (pgr s') = page_image (pgr (demo_wrote [3] b))"
    by auto
  then show ?thesis using st im U(1) U(4)[of 3] by auto
qed

lemma committed_pages_survive_crash_witness:
  "\<exists>s t db. session_step\<^sup>*\<^sup>* demo_session s \<and> page_image (pgr s) 0 = pad_to PAGE_SIZE [1] \<and>
     db_open (Some (log s)) 4 (pfile (pgr s)) = (Inr t, db) \<and> page_image (pgr t) 0 = pad_to PAGE_SIZE [1]"
proof -
  let ?s1 = "snd (begin_session demo_session)"
  let ?s2 = "?s1\<lparr>pgr := txn_run [PWrite 0 [1]] (pgr ?s1)\<rparr>"
  have np: "num_pages (pgr ?s2) < 4294967296" using demo_session_begin(2) by simp
  obtain s' where s': "commit_session ?s2 = (Inr (), s')" "page_image (pgr s') = page_image (pgr ?s2)"
    using sound_commit[OF open_sound[OF demo_session_open] demo_session_begin(1) refl np] by auto
  have "pager_inv (pgr ?s1)"
  proof -
    have "pager_inv (pgr demo_session)" using demo_session_durable by (simp add: durable_def)
    then show ?thesis
      using begin_txn_inv(3) begin_session_Inr[OF demo_session_begin(1)] by blast
  qed
  moreover have "length [1 :: byte] \<le> PAGE_SIZE" by (simp add: PAGE_SIZE_def)
  ultimately have "page_image (pgr ?s2) 0 = pad_to PAGE_SIZE [1]"
    using pager_write_ok[of "pgr ?s1" "[1]" 0] by (auto simp: txn_run_def)
  then have im: "page_image (pgr s') 0 = pad_to PAGE_SIZE [1]" using s'(2) by simp
  have st: "session_step\<^sup>*\<^sup>* demo_session s'"
    using session_step.commit[OF demo_session_begin(1) refl s'(1)] by blast
  have "log demo_session = WAL_HEADER" by (simp add: demo_session_def)
  from committed_pages_survive_crash[OF demo_session_open this _ st] st im show ?thesis by force
qed

end
