(* ===== verification/Visibility.thy ===== *)
theory Visibility
  imports Session
begin

text \<open>
  What other sessions and the next open see of a log: \<open>refresh_from_wal\<close> adopts the
  committed images, and three places where the log or the pool is not what a reader expects.
\<close>

section \<open>Adopting committed batches\<close>

lemma adopt_image_facts:
  "page_image (adopt_image n im p) = (page_image p)(n := im)"
  "pfile (adopt_image n im p) = pfile p" "dirty (adopt_image n im p) = dirty p - {n}"
  "num_pages (adopt_image n im p) = num_pages p"
  by (auto simp: adopt_image_def Let_def page_image_def obj_at_def fun_eq_iff pool_put_def
      map_of_move_end simp del: map_of_append cong: option.case_cong)

definition adopt_images :: "batch \<Rightarrow> pager \<Rightarrow> pager" where
  "adopt_images images p = foldl (\<lambda>p (pg, im). adopt_image (nat pg) im p) p images"

lemma adopt_images_page:
  assumes "distinct (map fst images)" and "\<forall>pg \<in> set (map fst images). 0 \<le> pg"
  shows "page_image (adopt_images images p) m =
           (case map_of images (int m) of Some im \<Rightarrow> im | None \<Rightarrow> page_image p m)"
  using assms
proof (induction images arbitrary: p)
  case Nil
  then show ?case by (simp add: adopt_images_def)
next
  case (Cons kv images)
  obtain pg im where kv: "kv = (pg, im)" by force
  have "adopt_images (kv # images) p = adopt_images images (adopt_image (nat pg) im p)"
    by (simp add: adopt_images_def kv)
  moreover have "map_of images pg = None" using Cons.prems(1) kv by (simp add: map_of_eq_None_iff)
  ultimately show ?case
    using Cons.IH[of "adopt_image (nat pg) im p"] Cons.prems kv
    by (auto simp: adopt_image_facts split: option.splits)
qed

lemma adopt_batch_page:
  assumes "distinct (map fst images)" and "\<forall>pg \<in> set (map fst images). 0 \<le> pg"
  shows "page_image (pgr (adopt_batch (pos, images, n) s)) m =
           (case map_of images (int m) of Some im \<Rightarrow> im | None \<Rightarrow> page_image (pgr s) m)"
proof -
  have "page_image (p\<lparr>num_pages := k\<rparr>) = page_image p" for p :: pager and k
    by (simp add: page_image_def obj_at_def fun_eq_iff cong: option.case_cong)
  then show ?thesis
    using adopt_images_page[OF assms, of "pgr s" m]
    by (simp add: adopt_batch_def adopt_images_def Let_def)
qed

definition batch_keys_ok :: "batch \<Rightarrow> bool" where
  "batch_keys_ok b \<longleftrightarrow> distinct (map fst b) \<and> (\<forall>pg \<in> set (map fst b). 0 \<le> pg)"

lemma adopt_batches_page:
  assumes "\<forall>(pos, b, n) \<in> set bs. batch_keys_ok b"
  shows "page_image (pgr (foldl (\<lambda>s b. adopt_batch b s) s bs)) m =
           (case last_image (map snd bs) (int m) of Some im \<Rightarrow> im | None \<Rightarrow> page_image (pgr s) m)"
  using assms
proof (induction bs arbitrary: s)
  case Nil
  then show ?case by simp
next
  case (Cons x bs)
  obtain pos b n where x: "x = (pos, b, n)" by (cases x)
  have "page_image (pgr (adopt_batch x s)) m =
      (case map_of b (int m) of Some im \<Rightarrow> im | None \<Rightarrow> page_image (pgr s) m)"
    using adopt_batch_page[of b pos n s m] Cons.prems x by (simp add: batch_keys_ok_def)
  then show ?case
    using Cons.IH[of "adopt_batch x s"] Cons.prems x by (auto split: option.splits)
qed

text \<open>The scanner's batches are dicts with page numbers as keys, whatever the bytes.\<close>

lemma update_keys_ok:
  assumes "batch_keys_ok b" and "0 \<le> p"
  shows "batch_keys_ok (AList.update p im b)"
  using assms distinct_update[of b p im] dom_update[of p im b] by (auto simp: batch_keys_ok_def)

lemma next_frame_page: "next_frame data pos = Some (p, pl, q) \<Longrightarrow> 0 \<le> p"
  by (auto simp: next_frame_def Let_def be_int_nonneg split: if_splits)

lemma read_loop_keys_ok:
  assumes "read_loop base d pos b acc = Inr bs" and "batch_keys_ok b"
    and "\<forall>(k, b, n) \<in> set acc. batch_keys_ok b"
  shows "\<forall>(k, b, n) \<in> set bs. batch_keys_ok b"
  using assms
proof (induction base d pos b acc arbitrary: bs rule: read_loop.induct)
  case (1 base d pos b acc)
  show ?case
  proof (cases "next_frame d pos")
    case None
    then show ?thesis using 1(3,5) by (subst (asm) read_loop.simps) simp
  next
    case (Some r)
    obtain p pl q where r: "r = (p, pl, q)" by (cases r)
    have p: "0 \<le> p" using next_frame_page Some r by blast
    show ?thesis
    proof (cases "p = COMMIT_PAGE")
      case False
      then have "read_loop base d q (AList.update p pl b) acc = Inr bs"
        using 1(3) Some r by (subst (asm) read_loop.simps) simp
      then show ?thesis
        using 1(2)[OF Some r[symmetric] refl False] update_keys_ok[OF 1(4) p] 1(5) r by blast
    next
      case True
      obtain n where n: "unpack_commit pl = Inr n"
        and rl: "read_loop base d q [] (acc @ [(base + q, b, n)]) = Inr bs"
        using 1(3) Some r True by (subst (asm) read_loop.simps) (auto split: sum.splits)
      have "batch_keys_ok []" by (simp add: batch_keys_ok_def)
      then show ?thesis
        using 1(1)[OF Some r[symmetric] refl True n _ _ _] rl 1(4,5) r by auto
    qed
  qed
qed

lemma read_batches_keys_ok:
  "read_batches_from f k lim = Inr bs \<Longrightarrow> \<forall>(k, b, n) \<in> set bs. batch_keys_ok b"
  using read_loop_keys_ok[of k _ 0 "[]" "[]" bs]
  by (auto simp: read_batches_from_def Let_def batch_keys_ok_def split: if_splits)

text \<open>
  C17. Read committed visibility: outside a transaction, \<open>refresh_from_wal\<close> makes a session
  see, for every page, the last image committed to the shared log since it last looked, and
  its own image where none was; an open transaction sees nothing new.
\<close>

theorem refresh_sees_commits:
  assumes "read_batches_from shared (log_pos s) limit = Inr bs"
  shows "\<exists>s'. refresh_session shared limit s = (Inr (), s') \<and>
           (\<forall>n. page_image (pgr s') n =
              (case (if in_txn s then None else last_image (map snd bs) (int n)) of
                 Some im \<Rightarrow> im | None \<Rightarrow> page_image (pgr s) n))"
proof (cases "in_txn s")
  case True
  then show ?thesis by (simp add: refresh_session_def)
next
  case False
  then show ?thesis
    using adopt_batches_page[OF read_batches_keys_ok[OF assms], of s] assms
    by (auto simp: refresh_session_def)
qed

lemma refresh_sees_commits_witness:
  "\<exists>f s'. snd (append_batch [(3, [1, 2]), (1, [5])] 7 WAL_HEADER) = f \<and>
     refresh_session f None demo_session = (Inr (), s') \<and> page_image (pgr s') 3 = [1, 2]"
proof -
  let ?f = "snd (append_batch [(3, [1, 2]), (1, [5])] 7 WAL_HEADER)"
  have rd: "read_batches_from ?f 10 None = Inr [(65, [(1, [5]), (3, [1, 2])], 7)]" by code_simp
  have s: "log_pos demo_session = 10" "\<not> in_txn demo_session" by (simp_all add: demo_session_def)
  have "read_batches_from ?f (log_pos demo_session) None = Inr [(65, [(1, [5]), (3, [1, 2])], 7)]"
    using rd s by simp
  from refresh_sees_commits[OF this] obtain s' where
    "refresh_session ?f None demo_session = (Inr (), s')"
    "page_image (pgr s') 3 = (case last_image [([(1, [5]), (3, [1, 2])], 7)] (int 3) of
        Some im \<Rightarrow> im | None \<Rightarrow> page_image (pgr demo_session) 3)"
    using s by fastforce
  then show ?thesis by auto
qed

section \<open>An adopted page does not survive eviction\<close>

text \<open>
  Stale read: \<open>refresh_from_wal\<close> puts the images of other sessions' commits into the
  pool as clean pages, although the database file does not hold them. In a pool of one page,
  reading any other page evicts the adopted one without writing it, and from then on the
  session reads the old content of the file again, the commit's log position being behind it.
\<close>

theorem adopted_page_lost_by_eviction:
  assumes "m \<noteq> n" and "m < num_pages (pager_init f 1)"
  shows "page_image (adopt_image n im (pager_init f 1)) n = im \<and>
         (\<exists>d q. pager_get m (adopt_image n im (pager_init f 1)) = (Inr d, q) \<and>
                page_image q n = disk_page f n)"
proof -
  let ?p = "adopt_image n im (pager_init f 1)"
  have p: "pool ?p = [(n, (0, im))]" "dirty ?p = {}" "capacity ?p = 1" "touched ?p = None"
    "pfile ?p = f" "num_pages ?p = num_pages (pager_init f 1)"
    by (simp_all add: adopt_image_def pager_init_def pool_put_def drop_key_def Let_def)
  have g: "pool_get m ?p = (None, ?p)" using p(1) assms(1) by (simp add: pool_get_def)
  let ?q0 = "?p\<lparr>misses := Suc (misses ?p), next_oid := Suc (next_oid ?p)\<rparr>"
  have e: "evict_if_full ?q0 = (Inr (), ?q0\<lparr>pool := []\<rparr>)"
    using p by (simp add: evict_if_full_def)
  have "pager_get m ?p = (Inr (next_oid ?p, disk_page f m),
      pool_put m (next_oid ?p, disk_page f m) False (?q0\<lparr>pool := []\<rparr>))"
    using assms(2) p g e by (simp add: pager_get_def read_page_def bindP_def Let_def)
  moreover have "page_image (pool_put m (next_oid ?p, disk_page f m) False (?q0\<lparr>pool := []\<rparr>)) n =
      disk_page f n"
    using assms(1) p by (simp add: page_image_def obj_at_put) (simp add: obj_at_def)
  moreover have "page_image ?p n = im" by (simp add: adopt_image_facts)
  ultimately show ?thesis by blast
qed

lemma adopted_page_lost_by_eviction_witness:
  "\<exists>d q. pager_get 1 (adopt_image 0 (replicate 4096 7) (pager_init (replicate 8192 0) 1)) = (Inr d, q) \<and>
     page_image q 0 = disk_page (replicate 8192 0) 0"
  using adopted_page_lost_by_eviction[of 1 0 "replicate 8192 0" "replicate 4096 7"]
  by (simp add: pager_init_def PAGE_SIZE_def)

section \<open>Rests of a crashed commit in the log\<close>

text \<open>
  C22. A commit after a crash can be lost: a crash four bytes into the first commit leaves
  header and magic in the log. Opening replays nothing, and because nothing was replayed it
  does not reset the log. The next commit that writes page 0, the catalog page, is appended
  behind the rest, reported as done, and the recovery after it finds no batch at all.
\<close>

theorem torn_tail_hides_next_commit:
  assumes "sort_key fst pages = (0, im) # rest" and "im \<noteq> []"
    and "append_batch pages n (WAL_HEADER @ WAL_MAGIC) = (Inr e, f)"
  shows "\<exists>s. db_open (Some (WAL_HEADER @ WAL_MAGIC)) cap db = (Inr s, db) \<and>
             log s = WAL_HEADER @ WAL_MAGIC \<and> recover (Some f) db2 = (Inr 0, db2)"
proof -
  have len: "length WAL_MAGIC = 4" "length WAL_HEADER = 10" by (simp_all add: WAL_MAGIC_def WAL_HEADER_def)
  have "next_frame (WAL_HEADER @ WAL_MAGIC) 10 = None" using len by (simp add: next_frame_def)
  then have r0: "recover (Some (WAL_HEADER @ WAL_MAGIC)) db = (Inr 0, db)"
    using len by (subst recover_def) (simp, subst recover_loop.simps, simp)
  obtain fr tail where fr: "frame 0 im = Inr fr" and f: "f = WAL_HEADER @ WAL_MAGIC @ fr @ tail"
    using assms(1,3) by (auto simp: append_batch_def batch_blob_def split: sum.splits)
  note F = frame_Inr[OF fr]
  have f': "f = WAL_HEADER @ (WAL_MAGIC @ WAL_MAGIC @ be_bytes 4 0 @
      be_bytes 4 (int (length im)) @ be_bytes 4 (crc32 im) @ im @ tail)"
    using f F(4) by simp
  have d: "drop 10 f = WAL_MAGIC @ WAL_MAGIC @ be_bytes 4 0 @
      be_bytes 4 (int (length im)) @ be_bytes 4 (crc32 im) @ im @ tail"
    using f' len by simp
  have dr: "drop (10 + k) f = drop k (drop 10 f)" for k by (simp add: add.commute)
  have "take 4 (drop (10 + 8) f) = be_bytes 4 0" "take 4 (drop (10 + 12) f) = be_bytes 4 (int (length im))"
    unfolding dr d using len by simp_all
  then have l: "be_int (take 4 (drop (10 + 8) f)) = 0"
    "be_int (take 4 (drop (10 + 12) f)) = int (length im)"
    using F(3) by (simp_all add: be_int_be_bytes)
  have "next_frame f 10 = None"
    unfolding next_frame_def l Let_def using assms(2) by auto
  then have "recover (Some f) db2 = (Inr 0, db2)"
    using f len by (subst recover_def) (simp, subst recover_loop.simps, simp)
  then show ?thesis
    using r0 len by (simp add: db_open_def wal_open_def Let_def)
qed

lemma torn_tail_hides_next_commit_witness:
  "\<exists>e f. append_batch [(0, [1])] 1 (WAL_HEADER @ WAL_MAGIC) = (Inr e, f) \<and>
     recover (Some f) [] = (Inr 0, [])"
proof -
  let ?r = "append_batch [(0, [1])] 1 (WAL_HEADER @ WAL_MAGIC)"
  have "fst ?r = Inr 51" by code_simp
  then have a: "?r = (Inr 51, snd ?r)" by (metis prod.collapse)
  have s: "sort_key fst [(0::int, [1::byte])] = (0, [1]) # []" by simp
  show ?thesis using torn_tail_hides_next_commit[OF s _ a, of 1 "[]" "[]"] a by auto
qed

text \<open>
  Uncommitted pages can come back: if the crash came exactly between two frames of the
  first commit, the rest consists of complete frames without a commit frame. It stays in the
  log for the same reason, and the next commit's marker then also commits these pages.
\<close>

theorem orphan_frames_join_next_commit:
  assumes "mapE (\<lambda>(p, im). frame p im) ps = Inr frs" and "\<forall>p \<in> set (map fst ps). page_key_ok p"
    and "frs \<noteq> []" and "append_batch pages n (WAL_HEADER @ concat frs) = (Inr e, f)" and "batch_ok pages"
  shows "\<exists>s. db_open (Some (WAL_HEADER @ concat frs)) cap db = (Inr s, db) \<and>
             log s = WAL_HEADER @ concat frs \<and>
             recover (Some f) db = (Inr 1, extend_to n (write_images (add_pages (add_pages [] ps) (sort_key fst pages)) db))"
proof -
  have len: "length WAL_HEADER = 10" by (simp add: WAL_HEADER_def)
  have ne: "concat frs \<noteq> []"
  proof -
    obtain kv ps' where "ps = kv # ps'" using assms(1,3) by (cases ps) auto
    then obtain fr where "frame (fst kv) (snd kv) = Inr fr" "fr \<in> set frs"
      using assms(1) by (auto split: prod.splits)
    then show ?thesis using frame_length by fastforce
  qed
  have rl: "read_loop 10 (concat frs) 0 [] [] = Inr []"
    using read_frames[OF assms(1,2), of 10 "[]" "[]" "[]" "[]"] read_end[of 10 "concat frs"] by simp
  have rc: "recover (Some (WAL_HEADER @ x)) db = recover_loop (WAL_HEADER @ x) (length WAL_HEADER + 0) [] 0 db"
    if "x \<noteq> []" for x using that by (simp add: recover_def)
  have r0: "recover (Some (WAL_HEADER @ concat frs)) db = (Inr 0, db)"
    using recover_loop_eq[where base = 10 and d = "concat frs" and pos = 0 and b = "[]" and acc = "[]"
        and pre = WAL_HEADER and a = 0 and db = db] rl rc[OF ne] by auto
  obtain blob where b: "batch_blob pages n = Inr blob" "f = WAL_HEADER @ concat frs @ blob"
    using assms(4) by (auto simp: append_batch_def split: sum.splits)
  obtain frs2 c where B: "mapE (\<lambda>(p, im). frame p im) (sort_key fst pages) = Inr frs2"
    "commit_frame n = Inr c" "blob = concat frs2 @ c"
    using batch_blob_Inr[OF b(1)] by blast
  have ok2: "\<forall>p \<in> set (map fst (sort_key fst pages)). page_key_ok p"
    using assms(5) by (auto simp: batch_ok_def)
  let ?b1 = "add_pages [] ps" and ?b = "add_pages (add_pages [] ps) (sort_key fst pages)"
  have "read_loop 10 (concat frs @ blob) 0 [] [] =
      read_loop 10 (concat frs @ (concat frs2 @ c @ [])) (length (concat frs)) ?b1 []"
    using read_frames[OF assms(1,2), of 10 "[]" blob "[]" "[]"] B(3) by simp
  also have "\<dots> = read_loop 10 ((concat frs @ concat frs2) @ c @ []) (length (concat frs @ concat frs2)) ?b []"
    using read_frames[OF B(1) ok2, of 10 "concat frs" "c @ []" ?b1 "[]"] by simp
  also have "\<dots> = Inr [(10 + (length (concat frs @ concat frs2) + length c), ?b, n)]"
    using read_commit[OF B(2), of 10 "concat frs @ concat frs2" "[]" ?b "[]"]
      read_end[of 10 "(concat frs @ concat frs2) @ c"] by (simp add: add.assoc)
  finally have rl2: "read_loop 10 (concat frs @ blob) 0 [] [] =
      Inr [(10 + (length (concat frs @ concat frs2) + length c), ?b, n)]" .
  have "recover (Some f) db = (Inr 1, extend_to n (write_images ?b db))"
    using recover_loop_eq[where base = 10 and d = "concat frs @ blob" and pos = 0 and b = "[]"
        and acc = "[]" and pre = WAL_HEADER and a = 0 and db = db] rl2 rc[of "concat frs @ blob"] ne b(2)
    by auto
  then show ?thesis using r0 by (simp add: db_open_def wal_open_def Let_def)
qed

lemma orphan_frames_join_next_commit_witness:
  "\<exists>frs e f db. mapE (\<lambda>(p, im). frame p im) [(3, [9])] = Inr frs \<and>
     append_batch [(1, [5])] 1 (WAL_HEADER @ concat frs) = (Inr e, f) \<and>
     recover (Some f) [] = (Inr 1, extend_to 1 (write_images [(3, [9]), (1, [5])] []))"
proof -
  obtain fr where fr: "frame 3 [9] = Inr fr" using frame_ok[of 3 "[9]"] by auto
  obtain b where b: "batch_blob [(1, [5])] 1 = Inr b"
  proof -
    obtain x where "frame 1 [5] = Inr x" using frame_ok[of 1 "[5]"] by auto
    moreover obtain c where "frame COMMIT_PAGE (be_bytes 4 1) = Inr c"
      using frame_ok[of COMMIT_PAGE "be_bytes 4 1"] by (auto simp: COMMIT_PAGE_def)
    ultimately show ?thesis
      using that by (auto simp: batch_blob_def commit_frame_def pack_u_def)
  qed
  have m: "mapE (\<lambda>(p, im). frame p im) [(3, [9])] = Inr [fr]" using fr by simp
  have a: "append_batch [(1, [5])] 1 (WAL_HEADER @ concat [fr]) =
      (Inr (length (WAL_HEADER @ fr @ b)), WAL_HEADER @ fr @ b)"
    using b by (simp add: append_batch_def)
  have k: "\<forall>p \<in> set (map fst [(3::int, [9::byte])]). page_key_ok p" "batch_ok [(1, [5])]"
    by (simp_all add: page_key_ok_def batch_ok_def COMMIT_PAGE_def)
  from orphan_frames_join_next_commit[OF m k(1) _ a k(2), of 1 "[]"] m a
  show ?thesis by (auto simp: add_pages_def)
qed

end
