(* ===== verification/Node.thy ===== *)
theory Node
  imports Prelude
begin

text \<open>
  The nodes of \<open>leafdb/btree.py\<close> and their page format: \<open>Leaf.to_bytes\<close>,
  \<open>Internal.to_bytes\<close> and \<open>node_from_bytes\<close>. Page numbers are naturals; \<open>next_leaf\<close> is
  \<open>None\<close> or a page number, written as \<open>0xFFFFFFFF\<close> or the number.
\<close>

type_synonym cell = "int \<times> bytes"

datatype node = Leaf "cell list" "nat option" | Internal "int list" "nat list"

definition NO_PAGE :: int where
  "NO_PAGE = 4294967295"

section \<open>to\_bytes\<close>

fun pack_cells :: "cell list \<Rightarrow> bytes res" where
  "pack_cells [] = Inr []"
| "pack_cells ((k, v) # cs) =
     bindE (pack_q k) (\<lambda>kb.
     bindE (pack_u 4 (int (length v))) (\<lambda>lb.
     bindE (pack_cells cs) (\<lambda>rest. Inr (kb @ lb @ v @ rest))))"

definition pack_all :: "('a \<Rightarrow> bytes res) \<Rightarrow> 'a list \<Rightarrow> bytes res" where
  "pack_all f xs = bindE (mapE f xs) (\<lambda>bs. Inr (concat bs))"

fun to_bytes :: "node \<Rightarrow> bytes res" where
  "to_bytes (Leaf cells nxt) =
     bindE (pack_u 4 (case nxt of None \<Rightarrow> NO_PAGE | Some p \<Rightarrow> int p)) (\<lambda>nb.
     bindE (pack_u 4 (int (length cells))) (\<lambda>cb.
     bindE (pack_cells cells) (\<lambda>body. Inr (0 # nb @ cb @ body))))"
| "to_bytes (Internal ks children) =
     bindE (pack_u 4 (int (length ks))) (\<lambda>kb.
     bindE (pack_u 4 (int (length children))) (\<lambda>cb.
     bindE (pack_all pack_q ks) (\<lambda>kbs.
     bindE (pack_all (\<lambda>c. pack_u 4 (int c)) children) (\<lambda>cbs.
     Inr (1 # kb @ cb @ kbs @ cbs)))))"

definition serialized_size :: "node \<Rightarrow> nat res" where
  "serialized_size nd = bindE (to_bytes nd) (\<lambda>b. Inr (length b))"

section \<open>node\_from\_bytes\<close>

fun unpack_cells :: "nat \<Rightarrow> bytes \<Rightarrow> nat \<Rightarrow> cell list res" where
  "unpack_cells 0 buf off = Inr []"
| "unpack_cells (Suc n) buf off =
     bindE (unpack_q buf off) (\<lambda>k.
     bindE (unpack_u 4 buf (off + 8)) (\<lambda>l.
     bindE (unpack_cells n buf (off + 12 + nat l)) (\<lambda>cs.
     Inr ((k, take (nat l) (drop (off + 12) buf)) # cs))))"

text \<open>
  \<open>struct.unpack_from(">" + "q" * nk, buf, off)\<close> needs the whole run of fields in the buffer.
\<close>

fun unpack_run :: "nat \<Rightarrow> (bytes \<Rightarrow> nat \<Rightarrow> 'a res) \<Rightarrow> nat \<Rightarrow> bytes \<Rightarrow> nat \<Rightarrow> 'a list res" where
  "unpack_run w f 0 buf off = Inr []"
| "unpack_run w f (Suc n) buf off =
     bindE (f buf off) (\<lambda>x. bindE (unpack_run w f n buf (off + w)) (\<lambda>xs. Inr (x # xs)))"

definition node_from_bytes :: "bytes \<Rightarrow> node res" where
  "node_from_bytes buf =
     (if buf = [] then Inl IndexError
      else if hd buf = 0 then
        bindE (unpack_u 4 buf 1) (\<lambda>nxt.
        bindE (unpack_u 4 buf 5) (\<lambda>n.
        bindE (unpack_cells (nat n) buf 9) (\<lambda>cells.
        Inr (Leaf cells (if nxt = NO_PAGE then None else Some (nat nxt))))))
      else if hd buf = 1 then
        bindE (unpack_u 4 buf 1) (\<lambda>nk.
        bindE (unpack_u 4 buf 5) (\<lambda>nc.
        bindE (unpack_run 8 unpack_q (nat nk) buf 9) (\<lambda>ks.
        bindE (unpack_run 4 (unpack_u 4) (nat nc) buf (9 + 8 * nat nk)) (\<lambda>cs.
        Inr (Internal ks (map nat cs))))))
      else Inl ValueError)"

section \<open>Sizes\<close>

definition cell_size :: "cell \<Rightarrow> nat" where
  "cell_size c = 12 + length (snd c)"

definition cells_size :: "cell list \<Rightarrow> nat" where
  "cells_size cs = sum_list (map cell_size cs)"

fun node_size :: "node \<Rightarrow> nat" where
  "node_size (Leaf cells nxt) = 9 + cells_size cells"
| "node_size (Internal ks children) = 9 + 8 * length ks + 4 * length children"

text \<open>The nodes that fit the field widths.\<close>

fun node_ok :: "node \<Rightarrow> bool" where
  "node_ok (Leaf cells nxt) \<longleftrightarrow>
     (case nxt of None \<Rightarrow> True | Some p \<Rightarrow> int p < NO_PAGE) \<and>
     int (length cells) < 2 ^ 32 \<and> (\<forall>(k, v) \<in> set cells. int64 k \<and> int (length v) < 2 ^ 32)"
| "node_ok (Internal ks children) \<longleftrightarrow>
     int (length ks) < 2 ^ 32 \<and> int (length children) < 2 ^ 32 \<and> (\<forall>k \<in> set ks. int64 k) \<and>
     (\<forall>c \<in> set children. int c < 2 ^ 32)"

lemma pack_u4: "0 \<le> n \<Longrightarrow> n < 2 ^ 32 \<Longrightarrow> pack_u 4 n = Inr (be_bytes 4 n)"
  by (simp add: pack_u_def)

lemma cells_size_simps [simp]:
  "cells_size [] = 0" "cells_size ((k, v) # cs) = 12 + length v + cells_size cs"
  "cells_size (as @ bs) = cells_size as + cells_size bs"
  by (simp_all add: cells_size_def cell_size_def)

lemma pack_cells_ok:
  assumes "\<forall>(k, v) \<in> set cells. int64 k \<and> int (length v) < 2 ^ 32"
  shows "\<exists>b. pack_cells cells = Inr b \<and> length b = cells_size cells"
  using assms
proof (induction cells)
  case Nil
  then show ?case by simp
next
  case (Cons c cells)
  obtain k v where c: "c = (k, v)" by force
  obtain b where "pack_cells cells = Inr b" "length b = cells_size cells" using Cons by auto
  then show ?case using Cons.prems c by (auto simp: pack_q_Inr pack_u4)
qed

lemma pack_all_ok:
  assumes "\<And>x. x \<in> set xs \<Longrightarrow> \<exists>b. f x = Inr b \<and> length b = w"
  shows "\<exists>b. pack_all f xs = Inr b \<and> length b = w * length xs"
  using assms
proof (induction xs)
  case Nil
  then show ?case by (simp add: pack_all_def)
next
  case (Cons x xs)
  obtain b where "f x = Inr b" "length b = w" using Cons.prems by auto
  moreover obtain bs where "pack_all f xs = Inr bs" "length bs = w * length xs"
    using Cons by auto
  ultimately show ?case by (auto simp: pack_all_def)
qed

lemma to_bytes_ok:
  assumes "node_ok nd"
  shows "\<exists>b. to_bytes nd = Inr b \<and> length b = node_size nd"
proof (cases nd)
  case (Leaf cells nxt)
  obtain b where "pack_cells cells = Inr b" "length b = cells_size cells"
    using pack_cells_ok[of cells] assms Leaf by auto
  then show ?thesis
    using assms Leaf by (auto simp: pack_u4 NO_PAGE_def split: option.splits)
next
  case (Internal ks children)
  obtain b1 where b1: "pack_all pack_q ks = Inr b1" "length b1 = 8 * length ks"
    using pack_all_ok[of ks pack_q 8] assms Internal by (auto simp: pack_q_Inr)
  obtain b2 where b2: "pack_all (\<lambda>c. pack_u 4 (int c)) children = Inr b2"
    "length b2 = 4 * length children"
    using pack_all_ok[of children "\<lambda>c. pack_u 4 (int c)" 4] assms Internal by (auto simp: pack_u4)
  show ?thesis using b1 b2 assms Internal by (auto simp: pack_u4)
qed

lemma serialized_size_ok: "node_ok nd \<Longrightarrow> serialized_size nd = Inr (node_size nd)"
  using to_bytes_ok[of nd] by (auto simp: serialized_size_def)

section \<open>Round trip\<close>

lemma unpack_pack_cells:
  assumes "pack_cells cells = Inr b"
  shows "unpack_cells (length cells) (pre @ b @ post) (length pre) = Inr cells"
  using assms
proof (induction cells arbitrary: b pre)
  case Nil
  then show ?case by simp
next
  case (Cons c cells)
  obtain k v where c: "c = (k, v)" by force
  obtain kb lb rest where b: "pack_q k = Inr kb" "pack_u 4 (int (length v)) = Inr lb"
    "pack_cells cells = Inr rest" "b = kb @ lb @ v @ rest"
    using Cons.prems c by auto
  have len: "length kb = 8" "length lb = 4" using b length_pack_q length_pack_u by blast+
  have "unpack_q (pre @ kb @ (lb @ v @ rest @ post)) (length pre) = Inr k"
    using unpack_pack_q[OF b(1) refl] .
  moreover have "unpack_u 4 ((pre @ kb) @ lb @ (v @ rest @ post)) (length pre + 8) = Inr (int (length v))"
    using unpack_pack_u[OF b(2), of "length pre + 8" "pre @ kb"] len by simp
  moreover have "unpack_cells (length cells) ((pre @ kb @ lb @ v) @ rest @ post)
      (length (pre @ kb @ lb @ v)) = Inr cells"
    using Cons.IH[OF b(3)] .
  ultimately show ?case using c b(4) len by (simp add: add.assoc)
qed

lemma unpack_pack_run:
  assumes "pack_all f xs = Inr b" and "\<And>x. x \<in> set xs \<Longrightarrow> \<exists>b. f x = Inr b \<and> length b = w"
    and "\<And>x b p q. x \<in> set xs \<Longrightarrow> f x = Inr b \<Longrightarrow> g (p @ b @ q) (length p) = Inr (h x)"
  shows "unpack_run w g (length xs) (pre @ b @ post) (length pre) = Inr (map h xs)"
  using assms
proof (induction xs arbitrary: b pre)
  case Nil
  then show ?case by simp
next
  case (Cons x xs)
  obtain y bs where y: "f x = Inr y" "pack_all f xs = Inr bs" "b = y @ bs"
    using Cons.prems(1) by (auto simp: pack_all_def)
  have len: "length y = w" using Cons.prems(2)[of x] y(1) by auto
  have "g (pre @ y @ (bs @ post)) (length pre) = Inr (h x)" using Cons.prems(3) y(1) by simp
  moreover have "unpack_run w g (length xs) ((pre @ y) @ bs @ post) (length (pre @ y)) = Inr (map h xs)"
    by (rule Cons.IH[OF y(2)]) (use Cons.prems(2,3) in auto)
  ultimately show ?case using y(3) len by simp
qed

lemma node_round_trip_pad:
  assumes "node_ok nd" and "to_bytes nd = Inr b"
  shows "node_from_bytes (b @ post) = Inr nd"
proof (cases nd)
  case (Leaf cells nxt)
  let ?p = "case nxt of None \<Rightarrow> NO_PAGE | Some p \<Rightarrow> int p"
  obtain nb cb body where B: "pack_u 4 ?p = Inr nb" "pack_u 4 (int (length cells)) = Inr cb"
    "pack_cells cells = Inr body" "b = 0 # nb @ cb @ body"
    using assms(2) Leaf by auto
  have len: "length nb = 4" "length cb = 4" using B length_pack_u by blast+
  have "unpack_u 4 ([0] @ nb @ (cb @ body @ post)) 1 = Inr ?p"
    using unpack_pack_u[OF B(1), of 1 "[0]"] by simp
  moreover have "unpack_u 4 (([0] @ nb) @ cb @ (body @ post)) 5 = Inr (int (length cells))"
    using unpack_pack_u[OF B(2), of 5 "[0] @ nb"] len by simp
  moreover have "unpack_cells (length cells) (([0] @ nb @ cb) @ body @ post) (length ([0] @ nb @ cb)) = Inr cells"
    using unpack_pack_cells[OF B(3)] .
  ultimately show ?thesis
    using assms(1) B(4) len Leaf by (auto simp: node_from_bytes_def split: option.splits)
next
  case (Internal ks children)
  obtain kb cb kbs cbs where B: "pack_u 4 (int (length ks)) = Inr kb"
    "pack_u 4 (int (length children)) = Inr cb" "pack_all pack_q ks = Inr kbs"
    "pack_all (\<lambda>c. pack_u 4 (int c)) children = Inr cbs" "b = 1 # kb @ cb @ kbs @ cbs"
    using assms(2) Internal by auto
  have len: "length kb = 4" "length cb = 4" using B length_pack_u by blast+
  have qs: "\<exists>b. pack_q k = Inr b \<and> length b = 8" if "k \<in> set ks" for k
    using assms(1) Internal that by (simp add: pack_q_Inr)
  have us: "\<exists>b. pack_u 4 (int c) = Inr b \<and> length b = 4" if "c \<in> set children" for c
    using assms(1) Internal that by (simp add: pack_u4)
  have lk: "length kbs = 8 * length ks" using pack_all_ok[of ks pack_q 8] qs B(3) by auto
  have "unpack_u 4 ([1] @ kb @ (cb @ kbs @ cbs @ post)) 1 = Inr (int (length ks))"
    using unpack_pack_u[OF B(1), of 1 "[1]"] by simp
  moreover have "unpack_u 4 (([1] @ kb) @ cb @ (kbs @ cbs @ post)) 5 = Inr (int (length children))"
    using unpack_pack_u[OF B(2), of 5 "[1] @ kb"] len by simp
  moreover have "unpack_run 8 unpack_q (length ks) (([1] @ kb @ cb) @ kbs @ (cbs @ post))
      (length ([1] @ kb @ cb)) = Inr (map id ks)"
    using B(3) qs by (rule unpack_pack_run) (auto intro: unpack_pack_q)
  moreover have "unpack_run 4 (unpack_u 4) (length children) (([1] @ kb @ cb @ kbs) @ cbs @ post)
      (length ([1] @ kb @ cb @ kbs)) = Inr (map int children)"
    using B(4) us by (rule unpack_pack_run) (auto intro: unpack_pack_u)
  ultimately show ?thesis
    using B(5) len lk Internal by (simp add: node_from_bytes_def add.assoc comp_def)
qed

text \<open>
  C15. A node survives its page: every node whose fields fit their widths is serialised into
  exactly \<open>9 + 12 n + \<close> values, or \<open>9 + 8 n + 4 (n + 1)\<close>, bytes, and reading the page that
  holds these bytes, padded with anything, gives the node back.
\<close>

theorem node_round_trip:
  assumes "node_ok nd"
  shows "\<exists>b. to_bytes nd = Inr b \<and> serialized_size nd = Inr (node_size nd) \<and>
           length b = node_size nd \<and> node_from_bytes (b @ post) = Inr nd"
  using to_bytes_ok[OF assms] node_round_trip_pad[OF assms] serialized_size_ok[OF assms] by blast

lemma node_round_trip_witness:
  "\<exists>b. to_bytes (Internal [5, -3] [7, 8, 9]) = Inr b \<and> length b = 37 \<and>
     node_from_bytes (b @ [0, 0]) = Inr (Internal [5, -3] [7, 8, 9])"
  using node_round_trip[of "Internal [5, -3] [7, 8, 9]" "[0, 0]"] by (auto simp: int64_def)

end
