(* ===== verification/BTree.thy ===== *)
theory BTree
  imports Node
begin

text \<open>
  The B+ tree of \<open>leafdb/btree.py\<close>, operation by operation. The tree works on pages through
  four operations, the fields of a \<open>store\<close>: \<open>st_load\<close> (\<open>BTree._load\<close>, through the node cache),
  \<open>st_write\<close> and \<open>st_alloc\<close> (the pager's), and \<open>st_mut\<close>, which stands for changing in place the node
  object that \<open>_load\<close> returned and that the node cache still holds. \<open>ps\<close> is the module's
  \<open>PAGE_SIZE\<close>, which the tests lower to 160.

  A descent follows page numbers read from pages, so on a damaged file it may not end; \<open>fuel\<close>
  bounds it (Python's recursion limit does for the recursive ones), and \<open>OutOfFuel\<close> never
  occurs on a tree whose height is at most the fuel.
\<close>

record 's store =
  st_load :: "nat \<Rightarrow> ('s, node) prog"
  st_mut :: "nat \<Rightarrow> node \<Rightarrow> ('s, unit) prog"
  st_write :: "nat \<Rightarrow> bytes \<Rightarrow> ('s, unit) prog"
  st_alloc :: "('s, nat) prog"

definition MAX_VALUE_SIZE :: nat where
  "MAX_VALUE_SIZE = 2048"

definition min_bytes :: "nat \<Rightarrow> nat" where
  "min_bytes ps = ps div 3"

section \<open>Python's list operations\<close>

definition insert_at :: "nat \<Rightarrow> 'a \<Rightarrow> 'a list \<Rightarrow> 'a list" where
  "insert_at i x xs = take i xs @ x # drop i xs"

definition del_at :: "nat \<Rightarrow> 'a list \<Rightarrow> 'a list res" where
  "del_at i xs = (if i < length xs then Inr (take i xs @ drop (Suc i) xs) else Inl IndexError)"

definition set_at :: "nat \<Rightarrow> 'a \<Rightarrow> 'a list \<Rightarrow> 'a list res" where
  "set_at i x xs = (if i < length xs then Inr (xs[i := x]) else Inl IndexError)"

section \<open>Static methods and the common steps\<close>

definition child_index :: "int list \<Rightarrow> int \<Rightarrow> nat" where
  "child_index ks key = bisect_right ks key"

definition underflow :: "nat \<Rightarrow> node \<Rightarrow> bool res" where
  "underflow ps nd =
     (case nd of
        Leaf cells nxt \<Rightarrow>
          if length cells = 0 then Inr True
          else bindE (serialized_size nd) (\<lambda>sz. Inr (sz < min_bytes ps))
      | Internal ks children \<Rightarrow>
          if length children < 2 then Inr True
          else bindE (serialized_size nd) (\<lambda>sz. Inr (sz < min_bytes ps)))"

definition can_spare :: "nat \<Rightarrow> node \<Rightarrow> bool res" where
  "can_spare ps nd = bindE (serialized_size nd) (\<lambda>sz. Inr (min_bytes ps + 64 < sz))"

definition cell_index :: "cell list \<Rightarrow> int \<Rightarrow> nat" where
  "cell_index cells key = bisect_left (map fst cells) key"

definition has_key_at :: "cell list \<Rightarrow> nat \<Rightarrow> int \<Rightarrow> bool" where
  "has_key_at cells i key \<longleftrightarrow> i < length cells \<and> fst (cells ! i) = key"

definition write_node :: "'s store \<Rightarrow> nat \<Rightarrow> node \<Rightarrow> ('s, unit) prog" where
  "write_node st n nd = bindP (liftE (to_bytes nd)) (st_write st n)"

section \<open>search\<close>

fun search :: "'s store \<Rightarrow> nat \<Rightarrow> nat \<Rightarrow> int \<Rightarrow> ('s, bytes option) prog" where
  "search st 0 n key = raise OutOfFuel"
| "search st (Suc fuel) n key =
     bindP (st_load st n) (\<lambda>nd.
       case nd of
         Leaf cells nxt \<Rightarrow>
           (let i = cell_index cells key in
            if has_key_at cells i key then ret (Some (snd (cells ! i))) else ret None)
       | Internal ks children \<Rightarrow>
           bindP (liftE (nth_err children (child_index ks key))) (\<lambda>c. search st fuel c key))"

section \<open>insert\<close>

definition split_leaf :: "'s store \<Rightarrow> nat \<Rightarrow> cell list \<Rightarrow> nat option \<Rightarrow> ('s, int \<times> nat) prog" where
  "split_leaf st n cells nxt =
     (let mid = length cells div 2 in
      if mid = 0 then raise ValueError else
      bindP (st_alloc st) (\<lambda>right_page.
      let right = drop mid cells; left = take mid cells in
      bindP (write_node st right_page (Leaf right nxt)) (\<lambda>_.
      bindP (write_node st n (Leaf left (Some right_page))) (\<lambda>_.
      bindP (liftE (nth_err right 0)) (\<lambda>c. ret (fst c, right_page))))))"

definition split_internal :: "'s store \<Rightarrow> nat \<Rightarrow> int list \<Rightarrow> nat list \<Rightarrow> ('s, int \<times> nat) prog" where
  "split_internal st n ks children =
     (let mid = length ks div 2 in
      if mid = 0 then raise ValueError else
      bindP (liftE (nth_err ks mid)) (\<lambda>sep.
      bindP (st_alloc st) (\<lambda>right_page.
      bindP (write_node st right_page (Internal (drop (mid + 1) ks) (drop (mid + 1) children))) (\<lambda>_.
      bindP (write_node st n (Internal (take mid ks) (take (mid + 1) children))) (\<lambda>_.
      ret (sep, right_page))))))"

fun ins :: "'s store \<Rightarrow> nat \<Rightarrow> nat \<Rightarrow> nat \<Rightarrow> int \<Rightarrow> bytes \<Rightarrow> ('s, (int \<times> nat) option) prog" where
  "ins st ps 0 n key v = raise OutOfFuel"
| "ins st ps (Suc fuel) n key v =
     bindP (st_load st n) (\<lambda>nd.
       case nd of
         Leaf cells nxt \<Rightarrow>
           (let i = cell_index cells key in
            if has_key_at cells i key then raise (DuplicateKey key) else
            (let cells' = insert_at i (key, v) cells in
             bindP (st_mut st n (Leaf cells' nxt)) (\<lambda>_.
             bindP (liftE (serialized_size (Leaf cells' nxt))) (\<lambda>sz.
             if sz \<le> ps then bindP (write_node st n (Leaf cells' nxt)) (\<lambda>_. ret None)
             else bindP (split_leaf st n cells' nxt) (\<lambda>r. ret (Some r))))))
       | Internal ks children \<Rightarrow>
           (let i = child_index ks key in
            bindP (liftE (nth_err children i)) (\<lambda>c.
            bindP (ins st ps fuel c key v) (\<lambda>r.
            case r of
              None \<Rightarrow> ret None
            | Some (sep, right) \<Rightarrow>
                (let ks' = insert_at i sep ks; children' = insert_at (i + 1) right children in
                 bindP (st_mut st n (Internal ks' children')) (\<lambda>_.
                 bindP (liftE (serialized_size (Internal ks' children'))) (\<lambda>sz.
                 if sz \<le> ps then bindP (write_node st n (Internal ks' children')) (\<lambda>_. ret None)
                 else bindP (split_internal st n ks' children') (\<lambda>r. ret (Some r)))))))))"

text \<open>The keys of the model are ints, so the \<open>TypeError\<close> of \<open>insert\<close> cannot occur.\<close>

definition tree_insert :: "'s store \<Rightarrow> nat \<Rightarrow> nat \<Rightarrow> nat \<Rightarrow> int \<Rightarrow> bytes \<Rightarrow> ('s, nat) prog" where
  "tree_insert st ps fuel root key v =
     (if MAX_VALUE_SIZE < length v then raise ValueError else
      bindP (ins st ps fuel root key v) (\<lambda>r.
      case r of
        None \<Rightarrow> ret root
      | Some (sep, right) \<Rightarrow>
          bindP (st_alloc st) (\<lambda>n.
          bindP (write_node st n (Internal [sep] [root, right])) (\<lambda>_. ret n))))"

section \<open>upsert\<close>

fun replace_cell :: "'s store \<Rightarrow> nat \<Rightarrow> nat \<Rightarrow> int \<Rightarrow> bytes \<Rightarrow> ('s, unit) prog" where
  "replace_cell st 0 n key v = raise OutOfFuel"
| "replace_cell st (Suc fuel) n key v =
     bindP (st_load st n) (\<lambda>nd.
       case nd of
         Leaf cells nxt \<Rightarrow>
           bindP (liftE (set_at (cell_index cells key) (key, v) cells)) (\<lambda>cells'.
           bindP (st_mut st n (Leaf cells' nxt)) (\<lambda>_. write_node st n (Leaf cells' nxt)))
       | Internal ks children \<Rightarrow>
           bindP (liftE (nth_err children (child_index ks key)))
             (\<lambda>c. replace_cell st fuel c key v))"

definition tree_upsert :: "'s store \<Rightarrow> nat \<Rightarrow> nat \<Rightarrow> nat \<Rightarrow> int \<Rightarrow> bytes \<Rightarrow> ('s, nat) prog" where
  "tree_upsert st ps fuel root key v =
     (if MAX_VALUE_SIZE < length v then raise ValueError else
      (\<lambda>s. case tree_insert st ps fuel root key v s of
             (Inl (DuplicateKey k), s1) \<Rightarrow> bindP (replace_cell st fuel root key v) (\<lambda>_. ret root) s1
           | r \<Rightarrow> r))"

section \<open>delete\<close>

text \<open>
  The rebalancing steps change the two siblings and the parent's lists in place; each
  returns the parent's new lists. A leaf next to an internal node has no \<open>cells\<close>, an
  \<open>AttributeError\<close>.
\<close>

definition borrow_from_left ::
  "'s store \<Rightarrow> nat \<Rightarrow> nat \<Rightarrow> nat \<Rightarrow> int list \<Rightarrow> nat list \<Rightarrow> nat \<Rightarrow> node \<Rightarrow> node \<Rightarrow>
   ('s, int list \<times> node \<times> node) prog" where
  "borrow_from_left st pn lp cp ks children i left child =
     (case (left, child) of
        (Leaf lc ln, Leaf cc cn) \<Rightarrow>
          (if lc = [] then raise IndexError else
           (let left' = Leaf (butlast lc) ln; child' = Leaf (last lc # cc) cn in
            bindP (st_mut st lp left') (\<lambda>_. bindP (st_mut st cp child') (\<lambda>_.
            bindP (liftE (set_at (i - 1) (fst (last lc)) ks)) (\<lambda>ks'.
            bindP (st_mut st pn (Internal ks' children)) (\<lambda>_. ret (ks', left', child')))))))
      | (Internal lk lch, Internal ck cch) \<Rightarrow>
          bindP (liftE (nth_err ks (i - 1))) (\<lambda>sep.
          bindP (st_mut st cp (Internal (sep # ck) cch)) (\<lambda>_.
          if lk = [] then raise IndexError else
          bindP (st_mut st lp (Internal (butlast lk) lch)) (\<lambda>_.
          bindP (liftE (set_at (i - 1) (last lk) ks)) (\<lambda>ks'.
          bindP (st_mut st pn (Internal ks' children)) (\<lambda>_.
          if lch = [] then raise IndexError else
          (let left' = Internal (butlast lk) (butlast lch);
               child' = Internal (sep # ck) (last lch # cch) in
           bindP (st_mut st lp left') (\<lambda>_. bindP (st_mut st cp child') (\<lambda>_.
           ret (ks', left', child')))))))))
      | _ \<Rightarrow> raise AttributeError)"

definition borrow_from_right ::
  "'s store \<Rightarrow> nat \<Rightarrow> nat \<Rightarrow> nat \<Rightarrow> int list \<Rightarrow> nat list \<Rightarrow> nat \<Rightarrow> node \<Rightarrow> node \<Rightarrow>
   ('s, int list \<times> node \<times> node) prog" where
  "borrow_from_right st pn cp rp ks children i child right =
     (case (child, right) of
        (Leaf cc cn, Leaf rc rn) \<Rightarrow>
          (if rc = [] then raise IndexError else
           (let child' = Leaf (cc @ [hd rc]) cn; right' = Leaf (tl rc) rn in
            bindP (st_mut st rp right') (\<lambda>_. bindP (st_mut st cp child') (\<lambda>_.
            bindP (liftE (nth_err (tl rc) 0)) (\<lambda>c.
            bindP (liftE (set_at i (fst c) ks)) (\<lambda>ks'.
            bindP (st_mut st pn (Internal ks' children)) (\<lambda>_. ret (ks', child', right'))))))))
      | (Internal ck cch, Internal rk rch) \<Rightarrow>
          bindP (liftE (nth_err ks i)) (\<lambda>sep.
          bindP (st_mut st cp (Internal (ck @ [sep]) cch)) (\<lambda>_.
          if rk = [] then raise IndexError else
          bindP (st_mut st rp (Internal (tl rk) rch)) (\<lambda>_.
          bindP (liftE (set_at i (hd rk) ks)) (\<lambda>ks'.
          bindP (st_mut st pn (Internal ks' children)) (\<lambda>_.
          if rch = [] then raise IndexError else
          (let child' = Internal (ck @ [sep]) (cch @ [hd rch]);
               right' = Internal (tl rk) (tl rch) in
           bindP (st_mut st rp right') (\<lambda>_. bindP (st_mut st cp child') (\<lambda>_.
           ret (ks', child', right')))))))))
      | _ \<Rightarrow> raise AttributeError)"

definition merge_nodes ::
  "'s store \<Rightarrow> nat \<Rightarrow> node \<Rightarrow> node \<Rightarrow> int \<Rightarrow> ('s, node) prog" where
  "merge_nodes st lp low high sep =
     (case (low, high) of
        (Leaf lc ln, Leaf hc hn) \<Rightarrow> ret (Leaf (lc @ hc) hn)
      | (Internal lk lch, Internal hk hch) \<Rightarrow>
          (let low' = Internal (lk @ [sep] @ hk) (lch @ hch) in
           bindP (st_mut st lp low') (\<lambda>_. ret low'))
      | _ \<Rightarrow> raise AttributeError)"

text \<open>\<open>_rebalance\<close> returns the parent's keys and children.\<close>

definition try_left ::
  "'s store \<Rightarrow> nat \<Rightarrow> nat \<Rightarrow> int list \<Rightarrow> nat list \<Rightarrow> nat \<Rightarrow> nat \<Rightarrow> node \<Rightarrow>
   ('s, (int list \<times> nat list) option) prog" where
  "try_left st ps pn ks children i cp child =
     (if 0 < i then
        bindP (liftE (nth_err children (i - 1))) (\<lambda>lp.
        bindP (st_load st lp) (\<lambda>left.
        bindP (liftE (can_spare ps left)) (\<lambda>ok.
        if ok then
          bindP (borrow_from_left st pn lp cp ks children i left child) (\<lambda>(ks', left', child').
          bindP (write_node st lp left') (\<lambda>_.
          bindP (write_node st cp child') (\<lambda>_.
          bindP (write_node st pn (Internal ks' children)) (\<lambda>_. ret (Some (ks', children))))))
        else ret None)))
      else ret None)"

definition try_right ::
  "'s store \<Rightarrow> nat \<Rightarrow> nat \<Rightarrow> int list \<Rightarrow> nat list \<Rightarrow> nat \<Rightarrow> nat \<Rightarrow> node \<Rightarrow>
   ('s, (int list \<times> nat list) option) prog" where
  "try_right st ps pn ks children i cp child =
     (if i + 1 < length children then
        bindP (liftE (nth_err children (i + 1))) (\<lambda>rp.
        bindP (st_load st rp) (\<lambda>right.
        bindP (liftE (can_spare ps right)) (\<lambda>ok.
        if ok then
          bindP (borrow_from_right st pn cp rp ks children i child right) (\<lambda>(ks', child', right').
          bindP (write_node st rp right') (\<lambda>_.
          bindP (write_node st cp child') (\<lambda>_.
          bindP (write_node st pn (Internal ks' children)) (\<lambda>_. ret (Some (ks', children))))))
        else ret None)))
      else ret None)"

definition do_merge ::
  "'s store \<Rightarrow> nat \<Rightarrow> int list \<Rightarrow> nat list \<Rightarrow> nat \<Rightarrow> nat \<Rightarrow> node \<Rightarrow>
   ('s, int list \<times> nat list) prog" where
  "do_merge st pn ks children i cp child =
     (if 0 < i then
        bindP (liftE (nth_err children (i - 1))) (\<lambda>lp.
        bindP (st_load st lp) (\<lambda>left.
        bindP (liftE (nth_err ks (i - 1))) (\<lambda>sep.
        bindP (merge_nodes st lp left child sep) (\<lambda>m.
        bindP (write_node st lp m) (\<lambda>_.
        bindP (liftE (del_at i children)) (\<lambda>children'.
        bindP (st_mut st pn (Internal ks children')) (\<lambda>_.
        bindP (liftE (del_at (i - 1) ks)) (\<lambda>ks'.
        bindP (st_mut st pn (Internal ks' children')) (\<lambda>_. ret (ks', children'))))))))))
      else
        bindP (liftE (nth_err children (i + 1))) (\<lambda>rp.
        bindP (st_load st rp) (\<lambda>right.
        bindP (liftE (nth_err ks i)) (\<lambda>sep.
        bindP (merge_nodes st cp child right sep) (\<lambda>m.
        bindP (write_node st cp m) (\<lambda>_.
        bindP (liftE (del_at (i + 1) children)) (\<lambda>children'.
        bindP (st_mut st pn (Internal ks children')) (\<lambda>_.
        bindP (liftE (del_at i ks)) (\<lambda>ks'.
        bindP (st_mut st pn (Internal ks' children')) (\<lambda>_. ret (ks', children')))))))))))"

definition rebalance ::
  "'s store \<Rightarrow> nat \<Rightarrow> nat \<Rightarrow> int list \<Rightarrow> nat list \<Rightarrow> nat \<Rightarrow> ('s, int list \<times> nat list) prog" where
  "rebalance st ps pn ks children i =
     bindP (liftE (nth_err children i)) (\<lambda>cp.
     bindP (st_load st cp) (\<lambda>child.
     bindP (try_left st ps pn ks children i cp child) (\<lambda>l.
     case l of
       Some r \<Rightarrow> ret r
     | None \<Rightarrow>
         bindP (try_right st ps pn ks children i cp child) (\<lambda>r.
         case r of Some r \<Rightarrow> ret r | None \<Rightarrow> do_merge st pn ks children i cp child))))"

fun del :: "'s store \<Rightarrow> nat \<Rightarrow> nat \<Rightarrow> nat \<Rightarrow> int \<Rightarrow> ('s, bool) prog" where
  "del st ps 0 n key = raise OutOfFuel"
| "del st ps (Suc fuel) n key =
     bindP (st_load st n) (\<lambda>nd.
       case nd of
         Leaf cells nxt \<Rightarrow>
           (let i = cell_index cells key in
            if has_key_at cells i key then
              bindP (liftE (del_at i cells)) (\<lambda>cells'.
              bindP (st_mut st n (Leaf cells' nxt)) (\<lambda>_.
              bindP (write_node st n (Leaf cells' nxt)) (\<lambda>_. ret True)))
            else ret False)
       | Internal ks children \<Rightarrow>
           (let i = child_index ks key in
            bindP (liftE (nth_err children i)) (\<lambda>c.
            bindP (del st ps fuel c key) (\<lambda>deleted.
            if \<not> deleted then ret False else
            bindP (st_load st c) (\<lambda>child.
            bindP (liftE (underflow ps child)) (\<lambda>u.
            if u then
              bindP (rebalance st ps n ks children i) (\<lambda>(ks', children').
              bindP (write_node st n (Internal ks' children')) (\<lambda>_. ret True))
            else ret True))))))"

fun collapse_root :: "'s store \<Rightarrow> nat \<Rightarrow> nat \<Rightarrow> ('s, nat) prog" where
  "collapse_root st 0 root = raise OutOfFuel"
| "collapse_root st (Suc fuel) root =
     bindP (st_load st root) (\<lambda>nd.
       case nd of
         Leaf cells nxt \<Rightarrow> ret root
       | Internal ks children \<Rightarrow>
           if ks = [] then bindP (liftE (nth_err children 0)) (\<lambda>c. collapse_root st fuel c)
           else ret root)"

definition tree_delete :: "'s store \<Rightarrow> nat \<Rightarrow> nat \<Rightarrow> nat \<Rightarrow> int \<Rightarrow> ('s, nat \<times> bool) prog" where
  "tree_delete st ps fuel root key =
     bindP (del st ps fuel root key) (\<lambda>found.
     if \<not> found then ret (root, False)
     else bindP (collapse_root st fuel root) (\<lambda>r. ret (r, True)))"

section \<open>range\_scan\<close>

fun find_leaf :: "'s store \<Rightarrow> nat \<Rightarrow> nat \<Rightarrow> int option \<Rightarrow> ('s, nat) prog" where
  "find_leaf st 0 n lo = raise OutOfFuel"
| "find_leaf st (Suc fuel) n lo =
     bindP (st_load st n) (\<lambda>nd.
       case nd of
         Leaf cells nxt \<Rightarrow> ret n
       | Internal ks children \<Rightarrow>
           bindP (liftE (nth_err children (case lo of None \<Rightarrow> 0 | Some l \<Rightarrow> child_index ks l)))
             (\<lambda>c. find_leaf st fuel c lo))"

text \<open>The cells of one leaf; the flag says that \<open>hi\<close> was passed and the scan is over.\<close>

fun scan_cells :: "int option \<Rightarrow> int option \<Rightarrow> cell list \<Rightarrow> cell list \<times> bool" where
  "scan_cells lo hi [] = ([], False)"
| "scan_cells lo hi ((k, v) # cs) =
     (if (case lo of Some l \<Rightarrow> k < l | None \<Rightarrow> False) then scan_cells lo hi cs
      else if (case hi of Some h \<Rightarrow> h < k | None \<Rightarrow> False) then ([], True)
      else (let (out, stop) = scan_cells lo hi cs in ((k, v) # out, stop)))"

fun scan_leaves :: "'s store \<Rightarrow> nat \<Rightarrow> nat \<Rightarrow> int option \<Rightarrow> int option \<Rightarrow> ('s, cell list) prog" where
  "scan_leaves st 0 n lo hi = raise OutOfFuel"
| "scan_leaves st (Suc fuel) n lo hi =
     bindP (st_load st n) (\<lambda>nd.
       case nd of
         Leaf cells nxt \<Rightarrow>
           (let (out, stop) = scan_cells lo hi cells in
            if stop then ret out else
            (case nxt of
               None \<Rightarrow> ret out
             | Some m \<Rightarrow> bindP (scan_leaves st fuel m lo hi) (\<lambda>rest. ret (out @ rest))))
       | Internal ks children \<Rightarrow> raise AttributeError)"

definition range_scan :: "'s store \<Rightarrow> nat \<Rightarrow> nat \<Rightarrow> int option \<Rightarrow> int option \<Rightarrow> ('s, cell list) prog" where
  "range_scan st fuel root lo hi =
     bindP (find_leaf st fuel root lo) (\<lambda>n. scan_leaves st fuel n lo hi)"

definition tree_items :: "'s store \<Rightarrow> nat \<Rightarrow> nat \<Rightarrow> ('s, cell list) prog" where
  "tree_items st fuel root = range_scan st fuel root None None"

end
