(* ===== verification/TreeShape.thy ===== *)
theory TreeShape
  imports BTree
begin

text \<open>
  The abstract trees that a set of pages represents, and the vocabulary of the tree proofs:
  contents, leaf chain, page set, balance, and order. Order is one statement about one list:
  \<open>flat\<close> lists a tree from left to right, a stored key \<open>k\<close> as \<open>2 k + 1\<close> and a separator \<open>k\<close>
  as \<open>2 k\<close>, so that \<open>left keys < separator <= right keys\<close> everywhere is strict sortedness.
\<close>

datatype ptree = PLeaf nat "cell list" | PNode nat "int list" "ptree list"

fun proot :: "ptree \<Rightarrow> nat" where
  "proot (PLeaf n cs) = n"
| "proot (PNode n ks ts) = n"

fun leaves :: "ptree \<Rightarrow> (nat \<times> cell list) list" where
  "leaves (PLeaf n cs) = [(n, cs)]"
| "leaves (PNode n ks ts) = concat (map leaves ts)"

definition cells :: "ptree \<Rightarrow> cell list" where
  "cells t = concat (map snd (leaves t))"

fun pages :: "ptree \<Rightarrow> nat list" where
  "pages (PLeaf n cs) = [n]"
| "pages (PNode n ks ts) = n # concat (map pages ts)"

definition inter :: "int list \<Rightarrow> int list list \<Rightarrow> int list" where
  "inter ks fs = (case fs of [] \<Rightarrow> [] | f # fs \<Rightarrow> f @ concat (map2 (\<lambda>k f. (2 * k) # f) ks fs))"

definition key_mark :: "cell \<Rightarrow> int" where
  "key_mark c = 2 * fst c + 1"

fun flat :: "ptree \<Rightarrow> int list" where
  "flat (PLeaf n cs) = map key_mark cs"
| "flat (PNode n ks ts) = inter ks (map flat ts)"

fun bal :: "nat \<Rightarrow> ptree \<Rightarrow> bool" where
  "bal h (PLeaf n cs) \<longleftrightarrow> h = 0"
| "bal h (PNode n ks ts) \<longleftrightarrow>
     (case h of 0 \<Rightarrow> False | Suc h' \<Rightarrow> length ts = Suc (length ks) \<and> (\<forall>t \<in> set ts. bal h' t))"

fun keyed :: "ptree \<Rightarrow> bool" where
  "keyed (PLeaf n cs) \<longleftrightarrow> True"
| "keyed (PNode n ks ts) \<longleftrightarrow> ks \<noteq> [] \<and> (\<forall>t \<in> set ts. keyed t)"

fun sized :: "nat \<Rightarrow> ptree \<Rightarrow> bool" where
  "sized ps (PLeaf n cs) \<longleftrightarrow> 9 + cells_size cs \<le> ps"
| "sized ps (PNode n ks ts) \<longleftrightarrow>
     9 + 8 * length ks + 4 * length ts \<le> ps \<and> (\<forall>t \<in> set ts. sized ps t)"

fun keys64 :: "ptree \<Rightarrow> bool" where
  "keys64 (PLeaf n cs) \<longleftrightarrow> (\<forall>c \<in> set cs. int64 (fst c))"
| "keys64 (PNode n ks ts) \<longleftrightarrow> (\<forall>k \<in> set ks. int64 k) \<and> (\<forall>t \<in> set ts. keys64 t)"

section \<open>Trees in a page view\<close>

type_synonym view = "nat \<Rightarrow> node option"

fun inner :: "view \<Rightarrow> ptree \<Rightarrow> bool" where
  "inner v (PLeaf n cs) \<longleftrightarrow> True"
| "inner v (PNode n ks ts) \<longleftrightarrow>
     v n = Some (Internal ks (map proot ts)) \<and> (\<forall>t \<in> set ts. inner v t)"

definition next_of :: "(nat \<times> cell list) list \<Rightarrow> nat option \<Rightarrow> nat option" where
  "next_of ls nx = (case ls of [] \<Rightarrow> nx | (n, cs) # _ \<Rightarrow> Some n)"

fun chain :: "view \<Rightarrow> (nat \<times> cell list) list \<Rightarrow> nat option \<Rightarrow> bool" where
  "chain v [] nx \<longleftrightarrow> True"
| "chain v ((n, cs) # ls) nx \<longleftrightarrow> v n = Some (Leaf cs (next_of ls nx)) \<and> chain v ls nx"

lemma next_of_simps [simp]:
  "next_of [] nx = nx" "next_of ((n, cs) # ls) nx = Some n"
  "next_of (as @ bs) nx = next_of as (next_of bs nx)"
  by (simp_all add: next_of_def split: list.splits)

lemma chain_append [simp]:
  "chain v (as @ bs) nx \<longleftrightarrow> chain v as (next_of bs nx) \<and> chain v bs nx"
  by (induction as) auto

lemma chain_frame:
  "(\<And>n. n \<in> fst ` set ls \<Longrightarrow> v' n = v n) \<Longrightarrow> chain v' ls nx \<longleftrightarrow> chain v ls nx"
  by (induction ls) auto

lemma leaf_pages: "fst ` set (leaves t) \<subseteq> set (pages t)"
  by (induction t rule: pages.induct) auto

lemma inner_frame:
  "(\<And>n. n \<in> set (pages t) \<Longrightarrow> v' n = v n) \<Longrightarrow> inner v' t \<longleftrightarrow> inner v t"
  by (induction t rule: pages.induct) auto

lemma proot_in_pages [simp]: "proot t \<in> set (pages t)"
  by (cases t) auto

lemma leaves_nonempty: "bal h t \<Longrightarrow> leaves t \<noteq> []"
proof (induction t arbitrary: h rule: leaves.induct)
  case (1 n cs)
  then show ?case by simp
next
  case (2 n ks ts)
  then obtain t ts' h' where "ts = t # ts'" "bal h' t"
    by (cases ts; cases h) auto
  then show ?case using 2(1)[of t h'] by simp
qed

lemma cells_simps [simp]:
  "cells (PLeaf n cs) = cs" "cells (PNode n ks ts) = concat (map cells ts)"
  by (simp_all add: cells_def) (induction ts; simp add: cells_def)

section \<open>Order\<close>

lemma inter_single [simp]: "inter [] [f] = f"
  by (simp add: inter_def)

lemma inter_split:
  assumes "length kl = length fl"
  shows "inter (kl @ kr) (fl @ f # fr) =
           concat (map2 (\<lambda>f k. f @ [2 * k]) fl kl) @ f @ concat (map2 (\<lambda>k f. (2 * k) # f) kr fr)"
  using assms
proof (induction kl fl rule: list_induct2)
  case Nil
  then show ?case by (simp add: inter_def)
next
  case (Cons k kl f' fl)
  then show ?case by (cases fl) (auto simp: inter_def)
qed

lemma inter_mono:
  assumes "length fs = Suc (length ks)"
  shows "set (inter ks fs) = (\<Union>f \<in> set fs. set f) \<union> (*) 2 ` set ks"
proof -
  obtain f fs' where fs: "fs = f # fs'" "length fs' = length ks" using assms by (cases fs) auto
  have "set (concat (map2 (\<lambda>k f. (2 * k) # f) ks fs')) = (\<Union>f \<in> set fs'. set f) \<union> (*) 2 ` set ks"
    using fs(2) by (induction fs' ks rule: list_induct2) auto
  then show ?thesis by (auto simp: inter_def fs)
qed

lemma flat_keys: "bal h t \<Longrightarrow> c \<in> set (cells t) \<Longrightarrow> key_mark c \<in> set (flat t)"
proof (induction t arbitrary: h rule: flat.induct)
  case (1 n cs)
  then show ?case by simp
next
  case (2 n ks ts)
  obtain h' where b: "length ts = Suc (length ks)" "\<forall>t \<in> set ts. bal h' t"
    using 2(2) by (auto split: nat.splits)
  obtain t where "t \<in> set ts" "c \<in> set (cells t)" using 2(3) by auto
  then have "key_mark c \<in> set (flat t)" "t \<in> set ts" using 2(1) b by auto
  then show ?case using b(1) inter_mono[of "map flat ts" ks] by auto
qed

lemma key_mark_less: "key_mark a < key_mark b \<longleftrightarrow> fst a < fst b"
  by (auto simp: key_mark_def)

lemma sorted_cells_mark: "sorted_wrt (<) (map key_mark cs) \<longleftrightarrow> sorted_wrt (<) (map fst cs)"
  by (simp only: sorted_wrt_map key_mark_less)

lemma sorted_concat_marks:
  "length ks = length fs \<Longrightarrow>
   sorted_wrt (<) (concat (map2 (\<lambda>k f. (2 * k) # f) ks fs)) \<Longrightarrow> sorted_wrt (<) (concat fs)"
proof (induction ks fs rule: list_induct2)
  case Nil
  then show ?case by simp
next
  case (Cons k ks f fs)
  have "set (concat fs) \<subseteq> set (concat (map2 (\<lambda>k f. (2 * k) # f) ks fs))"
    using Cons.hyps by (induction ks fs rule: list_induct2) auto
  then show ?case using Cons by (auto simp: sorted_wrt_append)
qed

lemma flat_sorted_cells: "bal h t \<Longrightarrow> sorted_wrt (<) (flat t) \<Longrightarrow> sorted_wrt (<) (map key_mark (cells t))"
proof (induction t arbitrary: h rule: flat.induct)
  case (1 n cs)
  then show ?case by simp
next
  case (2 n ks ts)
  obtain h' where b: "length ts = Suc (length ks)" "\<forall>t \<in> set ts. bal h' t"
    using 2(2) by (auto split: nat.splits)
  obtain t ts' where ts: "ts = t # ts'" "length ks = length ts'" using b(1) by (cases ts) auto
  have s: "sorted_wrt (<) (flat t @ concat (map2 (\<lambda>k f. (2 * k) # f) ks (map flat ts')))"
    using 2(3) ts(1) by (simp add: inter_def)
  have sub: "set (concat (map flat ts')) \<subseteq> set (concat (map2 (\<lambda>k f. (2 * k) # f) ks (map flat ts')))"
    using ts(2) by (induction ks ts' rule: list_induct2) auto
  have "sorted_wrt (<) (concat (map flat ts'))"
    using s sorted_concat_marks[of ks "map flat ts'"] ts(2) by (auto simp: sorted_wrt_append)
  then have all: "sorted_wrt (<) (concat (map flat ts))"
    using s sub ts(1) by (auto simp: sorted_wrt_append)
  have "sorted_wrt (<) (map key_mark (concat (map cells us)))"
    if "sorted_wrt (<) (concat (map flat us))" "set us \<subseteq> set ts" for us
    using that
  proof (induction us)
    case Nil
    then show ?case by simp
  next
    case (Cons u us)
    have bu: "bal h' u" "\<forall>x \<in> set us. bal h' x" using b(2) Cons.prems(2) by auto
    have "sorted_wrt (<) (map key_mark (cells u))"
      using 2(1)[of u h'] bu(1) Cons.prems by (auto simp: sorted_wrt_append)
    moreover have "x < y" if "x \<in> set (map key_mark (cells u))"
      "y \<in> set (map key_mark (concat (map cells us)))" for x y
      using that flat_keys[OF bu(1)] flat_keys bu(2) Cons.prems(1)
      by (fastforce simp: sorted_wrt_append)
    ultimately show ?case using Cons by (auto simp: sorted_wrt_append)
  qed
  from this[OF all order_refl] show ?case by simp
qed

section \<open>Keys and lookups\<close>

definition keys_of :: "ptree \<Rightarrow> int set" where
  "keys_of t = fst ` set (cells t)"

text \<open>Inserting into and deleting from a list of cells that is sorted by key.\<close>

definition ins_cells :: "int \<Rightarrow> bytes \<Rightarrow> cell list \<Rightarrow> cell list" where
  "ins_cells key v cs = takeWhile (\<lambda>c. fst c < key) cs @ (key, v) # dropWhile (\<lambda>c. fst c < key) cs"

definition del_cells :: "int \<Rightarrow> cell list \<Rightarrow> cell list" where
  "del_cells key cs = filter (\<lambda>c. fst c \<noteq> key) cs"

definition upd_cells :: "int \<Rightarrow> bytes \<Rightarrow> cell list \<Rightarrow> cell list" where
  "upd_cells key v cs = map (\<lambda>c. if fst c = key then (key, v) else c) cs"

lemma cell_index_sorted:
  assumes "sorted_wrt (<) (map fst cs)"
  shows "cell_index cs key = length (takeWhile (\<lambda>c. fst c < key) cs)"
proof -
  have "sorted (map fst cs)" using assms by (simp add: strict_sorted_iff)
  then show ?thesis by (simp add: cell_index_def bisect_left_sorted takeWhile_map comp_def)
qed

lemma insert_at_ins_cells:
  assumes "sorted_wrt (<) (map fst cs)"
  shows "insert_at (cell_index cs key) (key, v) cs = ins_cells key v cs"
  unfolding cell_index_sorted[OF assms] insert_at_def ins_cells_def
  by (metis append_take_drop_id append_eq_append_conv length_takeWhile_le takeWhile_dropWhile_id takeWhile_eq_take)

lemma has_key_at_iff:
  assumes "sorted_wrt (<) (map fst cs)"
  shows "has_key_at cs (cell_index cs key) key \<longleftrightarrow> key \<in> fst ` set cs"
proof -
  let ?i = "length (takeWhile (\<lambda>c. fst c < key) cs)"
  have split: "cs = takeWhile (\<lambda>c. fst c < key) cs @ dropWhile (\<lambda>c. fst c < key) cs" by simp
  show ?thesis
  proof (cases "dropWhile (\<lambda>c. fst c < key) cs")
    case Nil
    then have "\<forall>c \<in> set cs. fst c < key" by (simp add: dropWhile_eq_Nil_conv)
    then have "key \<notin> fst ` set cs" by auto
    moreover have "?i = length cs" using Nil split by (metis append_Nil2)
    ultimately show ?thesis using assms by (simp add: has_key_at_def cell_index_sorted)
  next
    case (Cons d ds)
    have d: "\<not> fst d < key" using Cons by (metis hd_dropWhile list.distinct(1) list.sel(1))
    have cs: "cs = takeWhile (\<lambda>c. fst c < key) cs @ d # ds" using split Cons by simp
    have i: "?i < length cs" "cs ! ?i = d"
      using cs by (metis length_append length_Cons less_add_Suc1 add_Suc_right, metis nth_append_length)
    have "sorted_wrt (<) (map fst (takeWhile (\<lambda>c. fst c < key) cs @ d # ds))" using assms cs by simp
    then have gt: "fst d < fst e" if "e \<in> set ds" for e
      using that by (simp add: sorted_wrt_append)
    have "key \<in> fst ` set cs \<longleftrightarrow> fst d = key"
    proof
      assume "key \<in> fst ` set cs"
      then obtain c where c: "c \<in> set cs" "fst c = key" by auto
      have "c \<notin> set (takeWhile (\<lambda>c. fst c < key) cs)" using c(2) by (auto dest: set_takeWhileD)
      then have "c \<in> set (d # ds)" using c(1) cs by (metis Un_iff set_append)
      then show "fst d = key" using d gt[of c] c(2) by (metis set_ConsD)
    next
      assume "fst d = key"
      then show "key \<in> fst ` set cs" using cs by (metis image_eqI in_set_conv_decomp)
    qed
    then show ?thesis using i assms by (simp add: has_key_at_def cell_index_sorted)
  qed
qed

lemma cell_at_index:
  assumes "sorted_wrt (<) (map fst cs)" and "key \<in> fst ` set cs"
  shows "map_of cs key = Some (snd (cs ! cell_index cs key))"
proof -
  have "has_key_at cs (cell_index cs key) key" using has_key_at_iff[OF assms(1)] assms(2) by simp
  then have "cs ! cell_index cs key \<in> set cs" "fst (cs ! cell_index cs key) = key"
    by (auto simp: has_key_at_def)
  moreover have "distinct (map fst cs)" using assms(1) by (simp add: strict_sorted_iff)
  ultimately show ?thesis by (metis map_of_eq_Some_iff prod.collapse)
qed

section \<open>Routing\<close>

definition before :: "int list \<Rightarrow> int list list \<Rightarrow> int list" where
  "before kl fl = concat (map2 (\<lambda>f k. f @ [2 * k]) fl kl)"

definition after :: "int list \<Rightarrow> int list list \<Rightarrow> int list" where
  "after kr fr = concat (map2 (\<lambda>k f. (2 * k) # f) kr fr)"

lemma inter_at:
  "length kl = length fl \<Longrightarrow> inter (kl @ kr) (fl @ f # fr) = before kl fl @ f @ after kr fr"
  unfolding before_def after_def by (rule inter_split)

lemma after_Cons [simp]: "after (k # ks) (f # fs) = 2 * k # f @ after ks fs"
  by (simp add: after_def)

lemma after_Nil [simp]: "after [] fs = []" "after ks [] = []"
  by (simp_all add: after_def)

lemma before_Nil [simp]: "before [] fs = []" "before ks [] = []"
  by (simp_all add: before_def)

lemma before_snoc [simp]:
  "length ks = length fs \<Longrightarrow> before (ks @ [k]) (fs @ [f]) = before ks fs @ f @ [2 * k]"
  by (simp add: before_def)

lemma after_append:
  "length ks = length fs \<Longrightarrow> after (ks @ ks') (fs @ fs') = after ks fs @ after ks' fs'"
  by (simp add: after_def)

lemma sorted_after_keys:
  assumes "length ks = length fs" and "sorted_wrt (<) (after ks fs)"
  shows "sorted_wrt (<) ks"
  using assms
proof (induction ks fs rule: list_induct2)
  case Nil
  then show ?case by simp
next
  case (Cons k ks f fs)
  have "(*) 2 ` set ks \<subseteq> set (after ks fs)"
    using Cons.hyps by (induction ks fs rule: list_induct2) auto
  then have "k < k'" if "k' \<in> set ks" for k'
  proof -
    have "2 * k' \<in> set (after ks fs)" using \<open>(*) 2 ` set ks \<subseteq> set (after ks fs)\<close> that by blast
    moreover have "\<forall>x \<in> set (after ks fs). 2 * k < x" using Cons.prems by simp
    ultimately have "2 * k < 2 * k'" by (rule bspec[rotated])
    then show ?thesis by simp
  qed
  then show ?case using Cons by (auto simp: sorted_wrt_append)
qed

lemma sorted_inter_keys:
  assumes "length fs = Suc (length ks)" and "sorted_wrt (<) (inter ks fs)"
  shows "sorted_wrt (<) ks"
proof -
  obtain f fs' where fs: "fs = f # fs'" "length ks = length fs'" using assms(1) by (cases fs) auto
  then have "sorted_wrt (<) (after ks fs')"
    using assms(2) by (simp add: inter_def after_def sorted_wrt_append)
  then show ?thesis using sorted_after_keys fs(2) by blast
qed

lemma child_index_sorted:
  "sorted_wrt (<) ks \<Longrightarrow> child_index ks key = length (takeWhile (\<lambda>k. k \<le> key) ks)"
  by (simp add: child_index_def bisect_right_sorted strict_sorted_iff)

lemma child_route:
  assumes "length ts = Suc (length ks)" and "sorted_wrt (<) (inter ks (map flat ts))"
  obtains kl kr l t r where "ks = kl @ kr" and "ts = l @ t # r" and "length kl = length l"
    and "length kr = length r" and "child_index ks key = length l"
    and "inter ks (map flat ts) = before kl (map flat l) @ flat t @ after kr (map flat r)"
    and "\<And>x. x \<in> set (before kl (map flat l)) \<Longrightarrow> x < 2 * key + 1"
    and "\<And>x. x \<in> set (after kr (map flat r)) \<Longrightarrow> 2 * key + 1 < x"
proof -
  have sk: "sorted_wrt (<) ks" using sorted_inter_keys[of "map flat ts" ks] assms by simp
  let ?kl = "takeWhile (\<lambda>k. k \<le> key) ks" and ?kr = "dropWhile (\<lambda>k. k \<le> key) ks"
  let ?l = "take (length ?kl) ts"
  have ks: "ks = ?kl @ ?kr" by simp
  have "length ?kl \<le> length ks" by (rule length_takeWhile_le)
  then have "length ?kl < length ts" using assms(1) by simp
  then obtain t r where tr: "drop (length ?kl) ts = t # r"
    by (metis Cons_nth_drop_Suc)
  have ts: "ts = ?l @ t # r" using tr by (metis append_take_drop_id)
  have ll: "length ?kl = length ?l" using \<open>length ?kl < length ts\<close> by simp
  have lr: "length ?kr = length r"
  proof -
    have "length ts = length ?l + Suc (length r)" using arg_cong[OF ts, of length] by simp
    moreover have "length ks = length ?kl + length ?kr"
      by (metis ks length_append)
    ultimately show ?thesis using ll assms(1) by linarith
  qed
  have fl: "inter ks (map flat ts) = before ?kl (map flat ?l) @ flat t @ after ?kr (map flat r)"
  proof -
    have "inter ks (map flat ts) = inter (?kl @ ?kr) (map flat ?l @ flat t # map flat r)"
      using ks ts by (metis list.simps(9) map_append)
    also have "\<dots> = before ?kl (map flat ?l) @ flat t @ after ?kr (map flat r)"
      by (rule inter_at) (use ll in simp)
    finally show ?thesis .
  qed
  have so: "sorted_wrt (<) (before ?kl (map flat ?l))" "sorted_wrt (<) (after ?kr (map flat r))"
    using assms(2) unfolding fl by (simp_all add: sorted_wrt_append)
  have b: "x < 2 * key + 1" if x: "x \<in> set (before ?kl (map flat ?l))" for x
  proof -
    have ne: "?kl \<noteq> []" using x by auto
    then obtain kl' k where k: "?kl = kl' @ [k]" by (metis rev_exhaust)
    have "?l \<noteq> []" using ll ne by auto
    then obtain l' u where l: "?l = l' @ [u]" by (metis rev_exhaust)
    have "length (kl' @ [k]) = length (l' @ [u])" using ll k l by metis
    then have "length kl' = length (map flat l')" by simp
    then have be: "before ?kl (map flat ?l) = before kl' (map flat l') @ flat u @ [2 * k]"
      using k l by simp
    have "k \<in> set ?kl" using k by simp
    then have "k \<le> key" by (rule set_takeWhileD[THEN conjunct2])
    moreover have "x \<le> 2 * k" using so(1) x unfolding be by (auto simp: sorted_wrt_append)
    ultimately show ?thesis by simp
  qed
  have a: "2 * key + 1 < x" if x: "x \<in> set (after ?kr (map flat r))" for x
  proof -
    obtain k kr' where k: "?kr = k # kr'" using x by (cases ?kr) auto
    then obtain u r' where r: "r = u # r'" using lr by (cases r) auto
    have "\<not> k \<le> key" using hd_dropWhile[of "\<lambda>k. k \<le> key" ks] k by simp
    moreover have "\<forall>y \<in> set (flat u @ after kr' (map flat r')). 2 * k < y" "x \<in> set (2 * k # flat u @ after kr' (map flat r'))"
      using so(2) x unfolding k r by simp_all
    then have "2 * k \<le> x" by (metis less_imp_le order_refl set_ConsD)
    ultimately show ?thesis by simp
  qed
  show ?thesis using that[OF ks ts ll lr _ fl b a] child_index_sorted[OF sk] ll by simp
qed

text \<open>Cells left and right of the child that a key is routed to do not hold the key.\<close>

lemma mark_in_before:
  assumes "length kl = length l" and "\<forall>t \<in> set l. bal h t" and "c \<in> set (concat (map cells l))"
  shows "key_mark c \<in> set (before kl (map flat l))"
  using assms
proof (induction kl l rule: list_induct2)
  case Nil
  then show ?case by simp
next
  case (Cons k kl t l)
  then show ?case using flat_keys[of h t c] by (auto simp: before_def)
qed

lemma mark_in_after:
  assumes "length kr = length r" and "\<forall>t \<in> set r. bal h t" and "c \<in> set (concat (map cells r))"
  shows "key_mark c \<in> set (after kr (map flat r))"
  using assms
proof (induction kr r rule: list_induct2)
  case Nil
  then show ?case by simp
next
  case (Cons k kr t r)
  then show ?case using flat_keys[of h t c] by auto
qed

lemma map_of_none: "key \<notin> fst ` set cs \<Longrightarrow> map_of cs key = None"
  by (simp add: map_of_eq_None_iff)

lemma ins_cells_mid:
  assumes "\<And>c. c \<in> set X \<Longrightarrow> fst c < key" and "\<And>c. c \<in> set Y \<Longrightarrow> key < fst c"
  shows "ins_cells key v (X @ C @ Y) = X @ ins_cells key v C @ Y"
proof -
  have Y: "takeWhile (\<lambda>c. fst c < key) Y = []" "dropWhile (\<lambda>c. fst c < key) Y = Y"
    using assms(2) by (cases Y; fastforce)+
  show ?thesis
  proof (cases "\<forall>c \<in> set C. fst c < key")
    case True
    moreover have "takeWhile (\<lambda>c. fst c < key) C = C" "dropWhile (\<lambda>c. fst c < key) C = []"
      using True by (simp_all add: takeWhile_eq_all_conv dropWhile_eq_Nil_conv)
    ultimately show ?thesis
      using assms(1) Y
      by (simp add: ins_cells_def takeWhile_append dropWhile_append
          del: takeWhile_eq_all_conv dropWhile_eq_Nil_conv)
  next
    case False
    then show ?thesis using assms(1) by (auto simp: ins_cells_def takeWhile_append dropWhile_append)
  qed
qed

lemma del_cells_mid:
  assumes "\<And>c. c \<in> set X \<Longrightarrow> fst c < key" and "\<And>c. c \<in> set Y \<Longrightarrow> key < fst c"
  shows "del_cells key (X @ C @ Y) = X @ del_cells key C @ Y"
proof -
  have "del_cells key X = X" using assms(1) unfolding del_cells_def by (intro filter_True) force
  moreover have "del_cells key Y = Y" using assms(2) unfolding del_cells_def by (intro filter_True) force
  ultimately show ?thesis by (simp add: del_cells_def)
qed

lemma upd_cells_mid:
  assumes "\<And>c. c \<in> set X \<Longrightarrow> fst c < key" and "\<And>c. c \<in> set Y \<Longrightarrow> key < fst c"
  shows "upd_cells key v (X @ C @ Y) = X @ upd_cells key v C @ Y"
proof -
  have "upd_cells key v X = X" using assms(1) unfolding upd_cells_def by (intro map_idI) force
  moreover have "upd_cells key v Y = Y" using assms(2) unfolding upd_cells_def by (intro map_idI) force
  ultimately show ?thesis by (simp add: upd_cells_def)
qed

end
