(* ===== verification/TreeForest.thy ===== *)
theory TreeForest
  imports TreeShape
begin

text \<open>
  Forests: a list of subtrees of the same height with the separators between them, as they
  hang under one node, together with everything the tree invariant says of them. The two
  composition lemmas (replace one subtree by a forest, make nodes of a forest) carry the
  proofs of insertion and deletion.
\<close>

definition subtree_ok :: "view \<Rightarrow> nat \<Rightarrow> nat \<Rightarrow> ptree \<Rightarrow> bool" where
  "subtree_ok v ps h t \<longleftrightarrow> inner v t \<and> bal h t \<and> keyed t \<and> sized ps t \<and> keys64 t"

definition forest_at :: "view \<Rightarrow> nat \<Rightarrow> nat \<Rightarrow> ptree list \<Rightarrow> int list \<Rightarrow> nat option \<Rightarrow> bool" where
  "forest_at v ps h ts ks nx \<longleftrightarrow>
     length ts = Suc (length ks) \<and> (\<forall>t \<in> set ts. subtree_ok v ps h t) \<and> (\<forall>k \<in> set ks. int64 k) \<and>
     chain v (concat (map leaves ts)) nx \<and> sorted_wrt (<) (inter ks (map flat ts)) \<and>
     distinct (concat (map pages ts))"

abbreviation tree_at :: "view \<Rightarrow> nat \<Rightarrow> nat \<Rightarrow> ptree \<Rightarrow> nat option \<Rightarrow> bool" where
  "tree_at v ps h t nx \<equiv> forest_at v ps h [t] [] nx"

definition fcells :: "ptree list \<Rightarrow> cell list" where
  "fcells ts = concat (map cells ts)"

definition fpages :: "ptree list \<Rightarrow> nat set" where
  "fpages ts = set (concat (map pages ts))"

lemma fpages_simps [simp]:
  "fpages [] = {}" "fpages (t # ts) = set (pages t) \<union> fpages ts" "fpages (as @ bs) = fpages as \<union> fpages bs"
  by (auto simp: fpages_def)

lemma fcells_simps [simp]:
  "fcells [] = []" "fcells (t # ts) = cells t @ fcells ts" "fcells (as @ bs) = fcells as @ fcells bs"
  by (auto simp: fcells_def)

lemma subtree_frame:
  "(\<And>n. n \<in> set (pages t) \<Longrightarrow> v' n = v n) \<Longrightarrow> subtree_ok v' ps h t \<longleftrightarrow> subtree_ok v ps h t"
  using inner_frame[of t v' v] by (simp add: subtree_ok_def)

lemma chain_frame_pages:
  "(\<And>n. n \<in> fpages ts \<Longrightarrow> v' n = v n) \<Longrightarrow>
   chain v' (concat (map leaves ts)) nx \<longleftrightarrow> chain v (concat (map leaves ts)) nx"
proof (rule chain_frame)
  fix n assume A: "\<And>n. n \<in> fpages ts \<Longrightarrow> v' n = v n" "n \<in> fst ` set (concat (map leaves ts))"
  then obtain t where "t \<in> set ts" "n \<in> fst ` set (leaves t)" by auto
  then have "n \<in> fpages ts" using leaf_pages[of t] by (auto simp: fpages_def)
  then show "v' n = v n" by (rule A(1))
qed

lemma forest_frame:
  assumes "\<And>n. n \<in> fpages ts \<Longrightarrow> v' n = v n"
  shows "forest_at v' ps h ts ks nx \<longleftrightarrow> forest_at v ps h ts ks nx"
proof -
  have "subtree_ok v' ps h t \<longleftrightarrow> subtree_ok v ps h t" if "t \<in> set ts" for t
    using subtree_frame[of t v' v] assms that by (auto simp: fpages_def)
  then show ?thesis using chain_frame_pages[of ts v' v nx] assms by (auto simp: forest_at_def)
qed

text \<open>The new marks lie between the same bounds as the old ones and the new key.\<close>

definition hull_ok :: "int \<Rightarrow> int list \<Rightarrow> int list \<Rightarrow> bool" where
  "hull_ok m old new \<longleftrightarrow>
     (\<forall>a. a < m \<and> (\<forall>x \<in> set old. a < x) \<longrightarrow> (\<forall>x \<in> set new. a < x)) \<and>
     (\<forall>b. m < b \<and> (\<forall>x \<in> set old. x < b) \<longrightarrow> (\<forall>x \<in> set new. x < b))"

lemma hull_ok_mid:
  assumes "hull_ok m old new"
  shows "hull_ok m (A @ old @ B) (A @ new @ B)"
  using assms unfolding hull_ok_def set_append ball_Un by blast

lemma inter_forest:
  assumes "length kl = length fl" and "length us = Suc (length js)"
  shows "inter (kl @ js @ kr) (fl @ us @ fr) = before kl fl @ inter js us @ after kr fr"
proof -
  obtain u us' where us: "us = u # us'" "length js = length us'" using assms(2) by (cases us) auto
  have "inter (kl @ (js @ kr)) (fl @ u # (us' @ fr)) = before kl fl @ u @ after (js @ kr) (us' @ fr)"
    using assms(1) by (rule inter_at)
  then show ?thesis using us after_append[of js us' kr fr] by (simp add: inter_def after_def)
qed

lemma inter_join:
  assumes "length tsl = Suc (length kl)" and "length tsr = Suc (length kr)"
  shows "inter (kl @ sep # kr) (tsl @ tsr) = inter kl tsl @ 2 * sep # inter kr tsr"
proof -
  obtain u tsl' where tsl: "tsl = u # tsl'" "length kl = length tsl'" using assms(1) by (cases tsl) auto
  obtain w tsr' where tsr: "tsr = w # tsr'" "length kr = length tsr'" using assms(2) by (cases tsr) auto
  have "inter ([] @ (kl @ sep # kr)) ([] @ u # (tsl' @ w # tsr')) =
      before [] [] @ u @ after (kl @ sep # kr) (tsl' @ w # tsr')"
    by (rule inter_at) simp
  then show ?thesis using tsl tsr after_append[of kl tsl' "sep # kr" "w # tsr'"] by (simp add: inter_def after_def)
qed

lemma sorted_replace:
  assumes "sorted_wrt (<) (A @ old @ B)" and "sorted_wrt (<) new" and "hull_ok m old new"
    and "\<And>x. x \<in> set A \<Longrightarrow> x < m" and "\<And>x. x \<in> set B \<Longrightarrow> m < x"
  shows "sorted_wrt (<) (A @ new @ B)"
proof -
  have "\<forall>a \<in> set A. \<forall>x \<in> set new. a < x"
    using assms(1,3,4) unfolding hull_ok_def by (metis Un_iff set_append sorted_wrt_append)
  moreover have "\<forall>b \<in> set B. \<forall>x \<in> set new. x < b"
    using assms(1,3,5) unfolding hull_ok_def by (metis sorted_wrt_append)
  ultimately show ?thesis using assms(1,2) by (auto simp: sorted_wrt_append)
qed

lemma forest_replace:
  assumes F: "forest_at v ps h (l @ t # r) (kl @ kr) nx" and len: "length kl = length l"
    and G: "forest_at v' ps h us js (next_of (concat (map leaves r)) nx)"
    and fr: "\<And>n. n \<in> fpages l \<union> fpages r \<Longrightarrow> v' n = v n"
    and pg: "fpages us \<inter> (fpages l \<union> fpages r) = {}"
    and nxt: "\<And>y. next_of (concat (map leaves us)) y = next_of (leaves t) y"
    and hull: "hull_ok m (flat t) (inter js (map flat us))"
    and lo: "\<And>x. x \<in> set (before kl (map flat l)) \<Longrightarrow> x < m"
    and hi: "\<And>x. x \<in> set (after kr (map flat r)) \<Longrightarrow> m < x"
  shows "forest_at v' ps h (l @ us @ r) (kl @ js @ kr) nx"
    and "hull_ok m (inter (kl @ kr) (map flat (l @ t # r))) (inter (kl @ js @ kr) (map flat (l @ us @ r)))"
proof -
  have lus: "length us = Suc (length js)" using G by (simp add: forest_at_def)
  have old: "inter (kl @ kr) (map flat (l @ t # r)) =
      before kl (map flat l) @ flat t @ after kr (map flat r)"
    using inter_at[of kl "map flat l" kr "flat t" "map flat r"] len by simp
  have new: "inter (kl @ js @ kr) (map flat (l @ us @ r)) =
      before kl (map flat l) @ inter js (map flat us) @ after kr (map flat r)"
    using inter_forest[of kl "map flat l" "map flat us" js kr "map flat r"] len lus by simp
  have sorted: "sorted_wrt (<) (before kl (map flat l) @ inter js (map flat us) @ after kr (map flat r))"
    using F G old by (intro sorted_replace[OF _ _ hull lo hi]) (simp_all add: forest_at_def)
  have ok: "subtree_ok v' ps h u" if "u \<in> set (l @ us @ r)" for u
  proof (cases "u \<in> set us")
    case True
    then show ?thesis using G by (simp add: forest_at_def)
  next
    case False
    then have "u \<in> set l \<union> set r" using that by simp
    then have "set (pages u) \<subseteq> fpages l \<union> fpages r" "subtree_ok v ps h u"
      using F by (auto simp: fpages_def forest_at_def)
    then show ?thesis using subtree_frame[of u v' v] fr by blast
  qed
  have chain: "chain v' (concat (map leaves (l @ us @ r))) nx"
  proof -
    have "chain v (concat (map leaves l)) (next_of (leaves t) (next_of (concat (map leaves r)) nx))"
      "chain v (concat (map leaves r)) nx"
      using F by (simp_all add: forest_at_def)
    moreover have "chain v' (concat (map leaves us)) (next_of (concat (map leaves r)) nx)"
      using G by (simp add: forest_at_def)
    ultimately show ?thesis
      using nxt chain_frame_pages[of l v' v] chain_frame_pages[of r v' v] fr by simp
  qed
  have dist: "distinct (concat (map pages (l @ us @ r)))"
    using F G pg by (auto simp: forest_at_def fpages_def)
  show "forest_at v' ps h (l @ us @ r) (kl @ js @ kr) nx"
    using F G ok chain dist sorted new lus by (auto simp: forest_at_def)
  show "hull_ok m (inter (kl @ kr) (map flat (l @ t # r))) (inter (kl @ js @ kr) (map flat (l @ us @ r)))"
    unfolding old new by (rule hull_ok_mid[OF hull])
qed

section \<open>Nodes over forests\<close>

lemma forest_node:
  assumes "forest_at v ps h ts ks nx" and "v n = Some (Internal ks (map proot ts))"
    and "n \<notin> fpages ts" and "ks \<noteq> []" and "9 + 8 * length ks + 4 * length ts \<le> ps"
  shows "tree_at v ps (Suc h) (PNode n ks ts) nx"
  using assms by (auto simp: forest_at_def subtree_ok_def fpages_def)

lemma node_forest:
  assumes "tree_at v ps h' (PNode n ks ts) nx"
  shows "\<exists>h. h' = Suc h \<and> forest_at v ps h ts ks nx \<and> v n = Some (Internal ks (map proot ts)) \<and>
           n \<notin> fpages ts \<and> ks \<noteq> [] \<and> 9 + 8 * length ks + 4 * length ts \<le> ps"
  using assms by (auto simp: forest_at_def subtree_ok_def fpages_def split: nat.splits)

lemma forest_split_node:
  assumes F: "forest_at v ps h (tsl @ tsr) (kl @ sep # kr) nx"
    and len: "length tsl = Suc (length kl)" "length tsr = Suc (length kr)"
    and nodes: "v n = Some (Internal kl (map proot tsl))" "v m = Some (Internal kr (map proot tsr))"
    and fresh: "n \<notin> fpages (tsl @ tsr)" "m \<notin> fpages (tsl @ tsr)" "n \<noteq> m"
    and ne: "kl \<noteq> []" "kr \<noteq> []"
    and size: "9 + 8 * length kl + 4 * length tsl \<le> ps" "9 + 8 * length kr + 4 * length tsr \<le> ps"
  shows "forest_at v ps (Suc h) [PNode n kl tsl, PNode m kr tsr] [sep] nx"
proof -
  have "inter (kl @ sep # kr) (map flat tsl @ map flat tsr) =
      inter kl (map flat tsl) @ 2 * sep # inter kr (map flat tsr)"
    using inter_join[of "map flat tsl" kl "map flat tsr" kr sep] len by simp
  then show ?thesis
    using assms by (auto simp: forest_at_def subtree_ok_def fpages_def inter_def)
qed

lemma leaf_forest:
  "tree_at v ps h (PLeaf n cs) nx \<longleftrightarrow>
     h = 0 \<and> v n = Some (Leaf cs nx) \<and> 9 + cells_size cs \<le> ps \<and> (\<forall>c \<in> set cs. int64 (fst c)) \<and>
     sorted_wrt (<) (map fst cs)"
  by (auto simp: forest_at_def subtree_ok_def sorted_cells_mark)

lemma tree_sorted:
  assumes "tree_at v ps h t nx"
  shows "sorted_wrt (<) (map fst (cells t))"
  using assms flat_sorted_cells[of h t] sorted_cells_mark[of "cells t"]
  by (auto simp: forest_at_def subtree_ok_def)

text \<open>A child of a forest is a tree with its right neighbour's first leaf as the next leaf.\<close>

lemma forest_child:
  assumes "forest_at v ps h (l @ t # r) ks nx" and "length ks = length l + length r"
  shows "tree_at v ps h t (next_of (concat (map leaves r)) nx)"
proof -
  let ?kl = "take (length l) ks" and ?kr = "drop (length l) ks"
  have "length ?kl = length (map flat l)" using assms(2) by simp
  from inter_at[OF this, of ?kr "flat t" "map flat r"]
  have "inter ks (map flat (l @ t # r)) = before ?kl (map flat l) @ flat t @ after ?kr (map flat r)"
    by simp
  then show ?thesis using assms by (auto simp: forest_at_def sorted_wrt_append)
qed

lemma proots_in_pages: "set (map proot ts) \<subseteq> fpages ts"
  by (auto simp: fpages_def)

text \<open>What routing says of the cells left and right of the chosen child.\<close>

lemma route_cells:
  assumes "length kl = length l" and "length kr = length r" and "\<forall>t \<in> set (l @ r). bal h t"
    and lo: "\<And>x. x \<in> set (before kl (map flat l)) \<Longrightarrow> x < 2 * key + 1"
    and hi: "\<And>x. x \<in> set (after kr (map flat r)) \<Longrightarrow> 2 * key + 1 < x"
  shows "\<And>c. c \<in> set (fcells l) \<Longrightarrow> fst c < key" and "\<And>c. c \<in> set (fcells r) \<Longrightarrow> key < fst c"
proof -
  fix c assume "c \<in> set (fcells l)"
  then have c: "c \<in> set (concat (map cells l))" by (simp add: fcells_def)
  have "key_mark c < 2 * key + 1"
    by (rule lo, rule mark_in_before[OF assms(1) _ c]) (use assms(3) in auto)
  then show "fst c < key" by (simp add: key_mark_def)
next
  fix c assume "c \<in> set (fcells r)"
  then have c: "c \<in> set (concat (map cells r))" by (simp add: fcells_def)
  have "2 * key + 1 < key_mark c"
    by (rule hi, rule mark_in_after[OF assms(2) _ c]) (use assms(3) in auto)
  then show "key < fst c" by (simp add: key_mark_def)
qed

lemma next_page_ok:
  assumes "case nx of None \<Rightarrow> True | Some p \<Rightarrow> int p < NO_PAGE" and "\<forall>p \<in> fpages r. int p < NO_PAGE"
  shows "case next_of (concat (map leaves r)) nx of None \<Rightarrow> True | Some p \<Rightarrow> int p < NO_PAGE"
proof (cases "concat (map leaves r)")
  case Nil
  show ?thesis unfolding Nil using assms(1) by simp
next
  case (Cons x xs)
  obtain m cs where x: "x = (m, cs)" by force
  then have "(m, cs) \<in> set (concat (map leaves r))" using Cons by simp
  then obtain t where "t \<in> set r" "(m, cs) \<in> set (leaves t)" by auto
  then have "m \<in> fpages r" using leaf_pages[of t] by (force simp: fpages_def)
  then show ?thesis unfolding Cons x using assms(2) by simp
qed

end
