(* ===== verification/PageStore.thy ===== *)
theory PageStore
  imports TreeForest
begin

text \<open>
  The interface between the B+ tree and the layer below it, and the lookups of the tree
  proved against it. \<open>view s n\<close> is the node that page \<open>n\<close> holds in state \<open>s\<close>, \<open>npages s\<close> the
  number of pages; \<open>ok T s\<close> is the layer's invariant, where \<open>T\<close> are the pages whose node
  object in memory was changed and not written yet.
\<close>

locale page_store =
  fixes st :: "'s store"
    and ok :: "nat set \<Rightarrow> 's \<Rightarrow> bool"
    and view :: "'s \<Rightarrow> view"
    and npages :: "'s \<Rightarrow> nat"
    and cap :: nat
  assumes load_law: "ok T s \<Longrightarrow> n < npages s \<Longrightarrow> n \<notin> T \<Longrightarrow> view s n = Some nd \<Longrightarrow>
      \<exists>s'. st_load st n s = (Inr nd, s') \<and> ok T s' \<and> view s' = view s \<and> npages s' = npages s"
    and mut_law: "ok T s \<Longrightarrow> n < npages s \<Longrightarrow>
      \<exists>s'. st_mut st n nd s = (Inr (), s') \<and> ok (insert n T) s' \<and> view s' = view s \<and>
           npages s' = npages s"
    and write_law: "ok T s \<Longrightarrow> n < npages s \<Longrightarrow> node_ok nd \<Longrightarrow> to_bytes nd = Inr b \<Longrightarrow>
      length b \<le> cap \<Longrightarrow>
      \<exists>s'. st_write st n b s = (Inr (), s') \<and> ok (T - {n}) s' \<and> view s' = (view s)(n \<mapsto> nd) \<and>
           npages s' = npages s"
    and write_big_law: "ok T s \<Longrightarrow> cap < length b \<Longrightarrow> \<exists>s'. st_write st n b s = (Inl ValueError, s')"
    and alloc_law: "ok T s \<Longrightarrow>
      \<exists>s'. st_alloc st s = (Inr (npages s), s') \<and> ok T s' \<and> npages s' = Suc (npages s) \<and>
           (\<forall>m. m \<noteq> npages s \<longrightarrow> view s' m = view s m)"
    and ok_bound: "ok T s \<Longrightarrow> n \<in> T \<Longrightarrow> n < npages s"
    and cap_law: "cap \<le> 65536"
begin

definition same :: "nat set \<Rightarrow> 's \<Rightarrow> 's \<Rightarrow> bool" where
  "same T s s' \<longleftrightarrow> ok T s' \<and> view s' = view s \<and> npages s' = npages s"

definition clean_pages :: "nat set \<Rightarrow> 's \<Rightarrow> nat set \<Rightarrow> bool" where
  "clean_pages T s P \<longleftrightarrow> (\<forall>n \<in> P. n < npages s \<and> n \<notin> T)"

lemma load_same:
  "ok T s \<Longrightarrow> clean_pages T s P \<Longrightarrow> n \<in> P \<Longrightarrow> view s n = Some nd \<Longrightarrow>
   \<exists>s'. st_load st n s = (Inr nd, s') \<and> same T s s'"
  using load_law[of T s n nd] by (auto simp: clean_pages_def same_def)

lemma same_trans: "same T s s' \<Longrightarrow> same T s' s'' \<Longrightarrow> same T s s''"
  by (simp add: same_def)

lemma clean_same: "same T s s' \<Longrightarrow> clean_pages T s' P = clean_pages T s P"
  by (simp add: same_def clean_pages_def)

lemma write_node_ok:
  assumes "ok T s" and "n < npages s" and "node_ok nd" and "node_size nd \<le> cap"
  shows "\<exists>s'. write_node st n nd s = (Inr (), s') \<and> ok (T - {n}) s' \<and> view s' = (view s)(n \<mapsto> nd) \<and>
           npages s' = npages s"
proof -
  obtain b where b: "to_bytes nd = Inr b" "length b = node_size nd" using to_bytes_ok[OF assms(3)] by blast
  then show ?thesis
    using write_law[OF assms(1-3) b(1)] assms(4) by (simp add: write_node_def bindP_def)
qed

lemma write_node_big:
  assumes "ok T s" and "node_ok nd" and "cap < node_size nd"
  shows "\<exists>s'. write_node st n nd s = (Inl ValueError, s')"
proof -
  obtain b where b: "to_bytes nd = Inr b" "length b = node_size nd" using to_bytes_ok[OF assms(2)] by blast
  then show ?thesis
    using write_big_law[OF assms(1), of b n] assms(3) by (simp add: write_node_def bindP_def)
qed

section \<open>Lookup\<close>

lemma search_ok:
  assumes "ok T s" and "tree_at (view s) ps h t nx" and "clean_pages T s (set (pages t))"
    and "h < fuel"
  shows "\<exists>s'. search st fuel (proot t) key s = (Inr (map_of (cells t) key), s') \<and> same T s s'"
  using assms
proof (induction fuel arbitrary: s h t nx)
  case 0
  then show ?case by simp
next
  case (Suc fuel)
  show ?case
  proof (cases t)
    case (PLeaf n cs)
    then have L: "view s n = Some (Leaf cs nx)" "sorted_wrt (<) (map fst cs)"
      using Suc.prems(2) leaf_forest by auto
    obtain s1 where s1: "st_load st n s = (Inr (Leaf cs nx), s1)" "same T s s1"
      using load_same[OF Suc.prems(1,3) _ L(1)] PLeaf by auto
    have "map_of cs key = (if has_key_at cs (cell_index cs key) key
        then Some (snd (cs ! cell_index cs key)) else None)"
      using has_key_at_iff[OF L(2), of key] cell_at_index[OF L(2), of key] map_of_none[of key cs] by auto
    then show ?thesis using s1 PLeaf by (simp add: bindP_app Let_def)
  next
    case (PNode n ks ts)
    obtain h' where N: "h = Suc h'" "forest_at (view s) ps h' ts ks nx"
      "view s n = Some (Internal ks (map proot ts))"
      using node_forest[of "view s" ps h n ks ts nx] Suc.prems(2) unfolding PNode by blast
    obtain s1 where s1: "st_load st n s = (Inr (Internal ks (map proot ts)), s1)" "same T s s1"
      using load_same[OF Suc.prems(1,3) _ N(3)] PNode by auto
    have lts: "length ts = Suc (length ks)" and srt: "sorted_wrt (<) (inter ks (map flat ts))"
      and bal: "\<forall>u \<in> set ts. bal h' u"
      using N(2) by (auto simp: forest_at_def subtree_ok_def)
    obtain kl kr l u r where R: "ks = kl @ kr" "ts = l @ u # r" "length kl = length l"
      "length kr = length r" "child_index ks key = length l"
      "inter ks (map flat ts) = before kl (map flat l) @ flat u @ after kr (map flat r)"
      and lo: "\<And>x. x \<in> set (before kl (map flat l)) \<Longrightarrow> x < 2 * key + 1"
      and hi: "\<And>x. x \<in> set (after kr (map flat r)) \<Longrightarrow> 2 * key + 1 < x"
      by (rule child_route[OF lts srt, where key = key]) (rule that)
    have child: "tree_at (view s1) ps h' u (next_of (concat (map leaves r)) nx)"
      using forest_child[of "view s" ps h' l u r ks nx] N(2) R(1-4) s1(2) by (simp add: same_def)
    have clean: "clean_pages T s1 (set (pages u))"
      using Suc.prems(3) clean_same[OF s1(2)] PNode R(2) by (auto simp: clean_pages_def)
    have ok1: "ok T s1" using s1(2) by (simp add: same_def)
    obtain s2 where s2: "search st fuel (proot u) key s1 = (Inr (map_of (cells u) key), s2)" "same T s1 s2"
      using Suc.IH[OF ok1 child clean] Suc.prems(4) N(1) by auto
    have "key \<notin> fst ` set (fcells l)"
    proof
      assume "key \<in> fst ` set (fcells l)"
      then obtain c where c: "c \<in> set (concat (map cells l))" "fst c = key" by (auto simp: fcells_def)
      have "key_mark c < 2 * key + 1"
        by (rule lo, rule mark_in_before[OF R(3) _ c(1)]) (use bal R(2) in auto)
      then show False using c(2) by (simp add: key_mark_def)
    qed
    moreover have "key \<notin> fst ` set (fcells r)"
    proof
      assume "key \<in> fst ` set (fcells r)"
      then obtain c where c: "c \<in> set (concat (map cells r))" "fst c = key" by (auto simp: fcells_def)
      have "2 * key + 1 < key_mark c"
        by (rule hi, rule mark_in_after[OF R(4) _ c(1)]) (use bal R(2) in auto)
      then show False using c(2) by (simp add: key_mark_def)
    qed
    ultimately have none: "map_of (fcells l) key = None" "map_of (fcells r) key = None"
      by (simp_all only: map_of_none not_False_eq_True)
    have "cells t = fcells l @ cells u @ fcells r" using PNode R(2) by (simp add: fcells_def)
    then have m: "map_of (cells t) key = map_of (cells u) key"
      using none by (simp add: map_add_def split: option.splits)
    have "nth_err (map proot ts) (child_index ks key) = Inr (proot u)"
      unfolding R(5) by (simp add: R(2) nth_err_def nth_append)
    then have "search st (Suc fuel) (proot t) key s = search st fuel (proot u) key s1"
      using s1(1) PNode by (simp add: bindP_app)
    then show ?thesis using s2(1) m same_trans[OF s1(2) s2(2)] by simp
  qed
qed

section \<open>Range scans\<close>

definition in_range :: "int option \<Rightarrow> int option \<Rightarrow> int \<Rightarrow> bool" where
  "in_range lo hi k \<longleftrightarrow>
     (case lo of None \<Rightarrow> True | Some l \<Rightarrow> l \<le> k) \<and> (case hi of None \<Rightarrow> True | Some h \<Rightarrow> k \<le> h)"

lemma scan_cells_sorted:
  assumes "sorted_wrt (<) (map fst cs)" and "scan_cells lo hi cs = (out, stop)"
  shows "out = filter (\<lambda>c. in_range lo hi (fst c)) cs \<and>
         (stop \<longrightarrow> (\<exists>c h. c \<in> set cs \<and> hi = Some h \<and> h < fst c))"
  using assms
proof (induction cs arbitrary: out stop)
  case Nil
  then show ?case by simp
next
  case (Cons c cs)
  obtain k v where c: "c = (k, v)" by force
  have gt: "\<And>d. d \<in> set cs \<Longrightarrow> k < fst d" and srt: "sorted_wrt (<) (map fst cs)"
    using Cons.prems(1) c by auto
  obtain o1 b1 where r: "scan_cells lo hi cs = (o1, b1)" by force
  note I = Cons.IH[OF srt r]
  show ?case
  proof (cases "case lo of Some l \<Rightarrow> k < l | None \<Rightarrow> False")
    case True
    then have "\<not> in_range lo hi k" by (auto simp: in_range_def split: option.splits)
    then show ?thesis using Cons.prems(2) c True r I by auto
  next
    case F: False
    show ?thesis
    proof (cases "case hi of Some h \<Rightarrow> h < k | None \<Rightarrow> False")
      case True
      then obtain h where h: "hi = Some h" "h < k" by (auto split: option.splits)
      have "filter (\<lambda>c. in_range lo hi (fst c)) (c # cs) = []"
        using gt h c by (force simp: in_range_def filter_empty_conv)
      then show ?thesis using Cons.prems(2) c F True h by auto
    next
      case False
      then have "in_range lo hi k" using F by (auto simp: in_range_def split: option.splits)
      then show ?thesis using Cons.prems(2) c F False r I by auto
    qed
  qed
qed

lemma scan_leaves_ok:
  assumes "ok T s" and "chain (view s) ((n, cs) # ls) None"
    and "clean_pages T s (fst ` set ((n, cs) # ls))"
    and "sorted_wrt (<) (map fst (concat (map snd ((n, cs) # ls))))" and "length ls < fuel"
  shows "\<exists>s'. scan_leaves st fuel n lo hi s =
           (Inr (filter (\<lambda>c. in_range lo hi (fst c)) (concat (map snd ((n, cs) # ls)))), s') \<and> same T s s'"
  using assms
proof (induction fuel arbitrary: s n cs ls)
  case 0
  then show ?case by simp
next
  case (Suc fuel)
  let ?nx = "next_of ls None"
  have nd: "view s n = Some (Leaf cs ?nx)" using Suc.prems(2) by simp
  have nin: "n \<in> fst ` set ((n, cs) # ls)" by simp
  obtain s1 where s1: "st_load st n s = (Inr (Leaf cs ?nx), s1)" "same T s s1"
    using load_same[OF Suc.prems(1,3) nin nd] by blast
  obtain out stop where sc: "scan_cells lo hi cs = (out, stop)" by force
  have srt: "sorted_wrt (<) (map fst cs)" using Suc.prems(4) by (simp add: sorted_wrt_append)
  note S = scan_cells_sorted[OF srt sc]
  show ?case
  proof (cases stop)
    case True
    then obtain c h where c: "c \<in> set cs" "hi = Some h" "h < fst c" using S by blast
    have "fst c < fst d" if "d \<in> set (concat (map snd ls))" for d
      using Suc.prems(4) c(1) that by (fastforce simp: sorted_wrt_append)
    then have "filter (\<lambda>c. in_range lo hi (fst c)) (concat (map snd ls)) = []"
      using c by (fastforce simp: in_range_def filter_empty_conv)
    then show ?thesis using s1 sc S True by (simp add: bindP_app)
  next
    case False
    show ?thesis
    proof (cases ls)
      case Nil
      then show ?thesis using s1 sc S False by (simp add: bindP_app)
    next
      case (Cons l ls')
      obtain m ds where l: "l = (m, ds)" by force
      have ok1: "ok T s1" using s1(2) by (simp add: same_def)
      have "\<exists>s'. scan_leaves st fuel m lo hi s1 =
           (Inr (filter (\<lambda>c. in_range lo hi (fst c)) (concat (map snd ((m, ds) # ls')))), s') \<and> same T s1 s'"
      proof (rule Suc.IH[OF ok1])
        show "chain (view s1) ((m, ds) # ls') None"
          using Suc.prems(2) s1(2) Cons l by (simp add: same_def)
        show "clean_pages T s1 (fst ` set ((m, ds) # ls'))"
          using Suc.prems(3) clean_same[OF s1(2)] Cons l by (auto simp: clean_pages_def)
        show "sorted_wrt (<) (map fst (concat (map snd ((m, ds) # ls'))))"
          using Suc.prems(4) Cons l by (simp add: sorted_wrt_append)
        show "length ls' < fuel" using Suc.prems(5) Cons by simp
      qed
      then obtain s2 where s2: "scan_leaves st fuel m lo hi s1 =
           (Inr (filter (\<lambda>c. in_range lo hi (fst c)) (concat (map snd ((m, ds) # ls')))), s2)" "same T s1 s2"
        by blast
      then show ?thesis
        using s1 sc S False Cons l same_trans[OF s1(2) s2(2)] by (simp add: bindP_app)
    qed
  qed
qed

lemma find_leaf_ok:
  assumes "ok T s" and "tree_at (view s) ps h t nx" and "clean_pages T s (set (pages t))"
    and "h < fuel"
  shows "\<exists>s' n cs A B. find_leaf st fuel (proot t) lo s = (Inr n, s') \<and> same T s s' \<and>
           leaves t = A @ (n, cs) # B \<and>
           (\<forall>c \<in> set (concat (map snd A)). \<not> in_range lo hi (fst c))"
  using assms
proof (induction fuel arbitrary: s h t nx)
  case 0
  then show ?case by simp
next
  case (Suc fuel)
  show ?case
  proof (cases t)
    case (PLeaf n cs)
    then have L: "view s n = Some (Leaf cs nx)" using Suc.prems(2) leaf_forest by auto
    obtain s1 where s1: "st_load st n s = (Inr (Leaf cs nx), s1)" "same T s s1"
      using load_same[OF Suc.prems(1,3) _ L(1)] PLeaf by auto
    have "leaves t = [] @ (n, cs) # []" using PLeaf by simp
    then show ?thesis using s1 PLeaf by (fastforce simp: bindP_app)
  next
    case (PNode n ks ts)
    obtain h' where N: "h = Suc h'" "forest_at (view s) ps h' ts ks nx"
      "view s n = Some (Internal ks (map proot ts))"
      using node_forest[of "view s" ps h n ks ts nx] Suc.prems(2) unfolding PNode by blast
    obtain s1 where s1: "st_load st n s = (Inr (Internal ks (map proot ts)), s1)" "same T s s1"
      using load_same[OF Suc.prems(1,3) _ N(3)] PNode by auto
    have lts: "length ts = Suc (length ks)" and srt: "sorted_wrt (<) (inter ks (map flat ts))"
      and bal: "\<forall>u \<in> set ts. bal h' u"
      using N(2) by (auto simp: forest_at_def subtree_ok_def)
    let ?i = "case lo of None \<Rightarrow> 0 | Some l \<Rightarrow> child_index ks l"
    obtain l u r where R: "ts = l @ u # r" "length ks = length l + length r" "?i = length l"
      and lo: "\<forall>c \<in> set (fcells l). \<not> in_range lo hi (fst c)"
    proof (cases lo)
      case None
      obtain u r where ur: "ts = u # r" using lts by (cases ts) auto
      show ?thesis by (rule that[of "[]" u r]) (use None ur lts in auto)
    next
      case (Some key)
      obtain kl kr l u r where Q: "ks = kl @ kr" "ts = l @ u # r" "length kl = length l"
        "length kr = length r" "child_index ks key = length l"
        "inter ks (map flat ts) = before kl (map flat l) @ flat u @ after kr (map flat r)"
        and b: "\<And>x. x \<in> set (before kl (map flat l)) \<Longrightarrow> x < 2 * key + 1"
        and a: "\<And>x. x \<in> set (after kr (map flat r)) \<Longrightarrow> 2 * key + 1 < x"
        by (rule child_route[OF lts srt, where key = key]) (rule that)
      have "\<not> in_range lo hi (fst c)" if "c \<in> set (fcells l)" for c
      proof -
        have c: "c \<in> set (concat (map cells l))" using that by (simp add: fcells_def)
        have "key_mark c < 2 * key + 1"
          by (rule b, rule mark_in_before[OF Q(3) _ c]) (use bal Q(2) in auto)
        then show ?thesis using Some by (simp add: in_range_def key_mark_def)
      qed
      then show ?thesis using that[of l u r] Q Some by auto
    qed
    have child: "tree_at (view s1) ps h' u (next_of (concat (map leaves r)) nx)"
      using forest_child[of "view s" ps h' l u r ks nx] N(2) R(1,2) s1(2) by (simp add: same_def)
    have clean: "clean_pages T s1 (set (pages u))"
      using Suc.prems(3) clean_same[OF s1(2)] PNode R(1) by (auto simp: clean_pages_def)
    have ok1: "ok T s1" using s1(2) by (simp add: same_def)
    have hf: "h' < fuel" using Suc.prems(4) N(1) by simp
    obtain s2 m cs A B where s2: "find_leaf st fuel (proot u) lo s1 = (Inr m, s2)" "same T s1 s2"
      "leaves u = A @ (m, cs) # B" "\<forall>c \<in> set (concat (map snd A)). \<not> in_range lo hi (fst c)"
      using Suc.IH[OF ok1 child clean hf] by blast
    have "leaves t = (concat (map leaves l) @ A) @ (m, cs) # (B @ concat (map leaves r))"
      using PNode R(1) s2(3) by simp
    moreover have "fcells l = concat (map snd (concat (map leaves l)))"
      by (induction l) (auto simp: cells_def)
    then have "\<forall>c \<in> set (concat (map snd (concat (map leaves l) @ A))). \<not> in_range lo hi (fst c)"
      using lo s2(4) by auto
    moreover have "nth_err (map proot ts) ?i = Inr (proot u)"
      unfolding R(3) by (simp add: R(1) nth_err_def nth_append)
    then have "find_leaf st (Suc fuel) (proot t) lo s = (Inr m, s2)"
      using s1 s2(1) PNode by (simp add: bindP_app)
    ultimately show ?thesis using same_trans[OF s1(2) s2(2)] by blast
  qed
qed

lemma range_scan_ok:
  assumes "ok T s" and "tree_at (view s) ps h t None" and "clean_pages T s (set (pages t))"
    and "h < fuel" and "length (leaves t) \<le> fuel"
  shows "\<exists>s'. range_scan st fuel (proot t) lo hi s =
           (Inr (filter (\<lambda>c. in_range lo hi (fst c)) (cells t)), s') \<and> same T s s'"
proof -
  obtain s1 n cs A B where F: "find_leaf st fuel (proot t) lo s = (Inr n, s1)" "same T s s1"
    "leaves t = A @ (n, cs) # B" "\<forall>c \<in> set (concat (map snd A)). \<not> in_range lo hi (fst c)"
    using find_leaf_ok[OF assms(1-4), of lo hi] by blast
  have ok1: "ok T s1" using F(2) by (simp add: same_def)
  have "chain (view s) (leaves t) None" using assms(2) by (simp add: forest_at_def)
  then have ch: "chain (view s1) ((n, cs) # B) None" using F(2,3) by (simp add: same_def)
  have "fst ` set ((n, cs) # B) \<subseteq> set (pages t)" using leaf_pages[of t] F(3) by auto
  then have cl: "clean_pages T s1 (fst ` set ((n, cs) # B))"
    using assms(3) clean_same[OF F(2)] by (auto simp: clean_pages_def)
  have cells: "cells t = concat (map snd A) @ concat (map snd ((n, cs) # B))"
    using F(3) by (simp add: cells_def)
  then have srt: "sorted_wrt (<) (map fst (concat (map snd ((n, cs) # B))))"
    using tree_sorted[OF assms(2)] by (simp add: sorted_wrt_append)
  have len: "length B < fuel" using assms(5) F(3) by simp
  obtain s2 where "scan_leaves st fuel n lo hi s1 =
      (Inr (filter (\<lambda>c. in_range lo hi (fst c)) (concat (map snd ((n, cs) # B)))), s2)" "same T s1 s2"
    using scan_leaves_ok[OF ok1 ch cl srt len] by blast
  moreover have "filter (\<lambda>c. in_range lo hi (fst c)) (concat (map snd A)) = []"
    using F(4) by (simp add: filter_empty_conv)
  ultimately show ?thesis
    using F(1) cells same_trans[OF F(2)] by (auto simp: range_scan_def bindP_app)
qed

end

end
