(* ===== verification/TreeInsert.thy ===== *)
theory TreeInsert
  imports PageStore
begin

text \<open>
  Insertion into the B+ tree, proved against the page store interface: a new key is added to
  the contents and to nothing else, a present one is refused without a change, and splitting
  a leaf can only fail on rows that are large for the page.
\<close>

section \<open>Rows that cannot make a split fail\<close>

text \<open>
  \<open>_split_leaf\<close> cuts the list of cells in the middle by number, not by size. If every cell
  is small in this sense, both halves fit; for a page of 4096 bytes it says that a cell has
  at most 153 bytes, a row at most 141.
\<close>

definition small_cell :: "nat \<Rightarrow> cell \<Rightarrow> bool" where
  "small_cell ps c \<longleftrightarrow> cell_size c * cell_size c + 6 * cell_size c \<le> 6 * (ps - 9)"

lemma cells_size_lower: "12 * length cs \<le> cells_size cs"
  by (induction cs) (auto simp: cells_size_def cell_size_def)

lemma cells_size_upper: "(\<And>c. c \<in> set cs \<Longrightarrow> cell_size c \<le> M) \<Longrightarrow> cells_size cs \<le> length cs * M"
proof (induction cs)
  case Nil
  then show ?case by simp
next
  case (Cons c cs)
  have "cell_size c \<le> M" "cells_size cs \<le> length cs * M" using Cons by auto
  then show ?case by (simp add: cells_size_def)
qed

lemma split_halves_fit:
  assumes small: "\<forall>c \<in> set cs. small_cell ps c" and over: "ps < 9 + cells_size cs"
    and new: "c0 \<in> set cs" "9 + cells_size cs \<le> ps + cell_size c0" and "9 \<le> ps"
  shows "length cs div 2 \<noteq> 0" "9 + cells_size (take (length cs div 2) cs) \<le> ps"
    "9 + cells_size (drop (length cs div 2) cs) \<le> ps"
proof -
  let ?k = "length cs" and ?mid = "length cs div 2"
  define M where "M = Max (cell_size ` set cs)"
  have fin: "finite (cell_size ` set cs)" "cell_size ` set cs \<noteq> {}" using new(1) by auto
  have le: "cell_size c \<le> M" if "c \<in> set cs" for c using that fin by (simp add: M_def)
  obtain c where c: "c \<in> set cs" "cell_size c = M" using Max_in[OF fin] by (auto simp: M_def)
  have M: "M * M + 6 * M \<le> 6 * (ps - 9)" "12 \<le> M"
    using small c by (auto simp: small_cell_def cell_size_def)
  have "cells_size cs \<le> ?k * M" using cells_size_upper[of cs M] le by blast
  then have "6 * (ps - 9) < 6 * (?k * M)" using over assms(5) by linarith
  then have "M * (M + 6) < M * (6 * ?k)" using M(1) by (simp add: algebra_simps)
  then have "M + 6 < 6 * ?k" by simp
  then have k: "M < 12 * ?mid" by linarith
  show "?mid \<noteq> 0" using k by auto
  have sum: "cells_size cs = cells_size (take ?mid cs) + cells_size (drop ?mid cs)"
    by (metis append_take_drop_id cells_size_simps(3))
  have "length (take ?mid cs) = ?mid" "?mid \<le> length (drop ?mid cs)" by simp_all
  then have "12 * ?mid \<le> cells_size (take ?mid cs)" "12 * ?mid \<le> cells_size (drop ?mid cs)"
    using cells_size_lower[of "take ?mid cs"] cells_size_lower[of "drop ?mid cs"] by linarith+
  then show "9 + cells_size (take ?mid cs) \<le> ps" "9 + cells_size (drop ?mid cs) \<le> ps"
    using sum k le[OF new(1)] new(2) by linarith+
qed

section \<open>List facts\<close>

lemma ins_cells_set: "set (ins_cells key v cs) = insert (key, v) (set cs)"
proof -
  have "set cs = set (takeWhile (\<lambda>c. fst c < key) cs) \<union> set (dropWhile (\<lambda>c. fst c < key) cs)"
    by (metis set_append takeWhile_dropWhile_id)
  then show ?thesis by (simp add: ins_cells_def)
qed

lemma ins_cells_size: "cells_size (ins_cells key v cs) = cells_size cs + 12 + length v"
proof -
  have "cells_size cs = cells_size (takeWhile (\<lambda>c. fst c < key) cs) + cells_size (dropWhile (\<lambda>c. fst c < key) cs)"
    by (metis cells_size_simps(3) takeWhile_dropWhile_id)
  then show ?thesis by (simp add: ins_cells_def)
qed

lemma ins_cells_sorted:
  assumes "sorted_wrt (<) (map fst cs)" and "key \<notin> fst ` set cs"
  shows "sorted_wrt (<) (map fst (ins_cells key v cs))"
proof -
  define A where "A = takeWhile (\<lambda>c. fst c < key) cs"
  define B where "B = dropWhile (\<lambda>c. fst c < key) cs"
  have cs: "cs = A @ B" by (simp add: A_def B_def)
  have s: "sorted_wrt (<) (map fst A)" "sorted_wrt (<) (map fst B)"
    using assms(1) unfolding cs by (simp_all add: sorted_wrt_append)
  have a: "\<forall>x \<in> set (map fst A). x < key" unfolding A_def by (auto dest: set_takeWhileD)
  have b: "\<forall>x \<in> set (map fst B). key < x"
  proof (cases B)
    case (Cons d ds)
    have "\<not> fst d < key"
      using Cons unfolding B_def by (metis hd_dropWhile list.distinct(1) list.sel(1))
    moreover have "fst d \<noteq> key" using assms(2) Cons cs by auto
    ultimately have "key < fst d" by simp
    moreover have "\<forall>x \<in> set (map fst ds). fst d < x" using s(2) Cons by simp
    ultimately show ?thesis using Cons by fastforce
  qed simp
  have "\<forall>x \<in> set (map fst A). \<forall>y \<in> set (key # map fst B). x < y"
    using a b by (metis less_trans set_ConsD)
  then have "sorted_wrt (<) (map fst A @ key # map fst B)"
    unfolding sorted_wrt_append using s b by (simp only: sorted_wrt.simps simp_thms)
  then show ?thesis by (simp add: ins_cells_def A_def B_def)
qed

lemma hull_between:
  assumes "\<And>x. x \<in> set new \<Longrightarrow> \<exists>y \<in> insert m (set old). \<exists>z \<in> insert m (set old). y \<le> x \<and> x \<le> z"
  shows "hull_ok m old new"
  unfolding hull_ok_def
proof (intro conjI allI impI ballI)
  fix a x assume a: "a < m \<and> (\<forall>x \<in> set old. a < x)" and x: "x \<in> set new"
  obtain y where "y \<in> insert m (set old)" "y \<le> x" using assms[OF x] by blast
  moreover have "a < y" using a calculation(1) by auto
  ultimately show "a < x" by simp
next
  fix b x assume b: "m < b \<and> (\<forall>x \<in> set old. x < b)" and x: "x \<in> set new"
  obtain z where "z \<in> insert m (set old)" "x \<le> z" using assms[OF x] by blast
  moreover have "z < b" using b calculation(1) by auto
  ultimately show "x < b" by simp
qed

lemma hull_subset: "set new \<subseteq> insert m (set old) \<Longrightarrow> hull_ok m old new"
  by (rule hull_between) blast

lemma hull_trans: "hull_ok m a b \<Longrightarrow> hull_ok m b c \<Longrightarrow> hull_ok m a c"
  unfolding hull_ok_def by meson

lemma node_ok_leaf:
  assumes "cells_size cs < 2 ^ 31" and "\<forall>c \<in> set cs. int64 (fst c)"
    and "case nx of None \<Rightarrow> True | Some p \<Rightarrow> int p < NO_PAGE"
  shows "node_ok (Leaf cs nx)"
proof -
  have "length v \<le> cells_size cs" if "(k, v) \<in> set cs" for k v
    using that by (induction cs) auto
  then show ?thesis using assms cells_size_lower[of cs] by fastforce
qed

lemma node_ok_internal:
  assumes "8 * length ks + 4 * length cs < 2 ^ 31" and "\<forall>k \<in> set ks. int64 k"
    and "\<forall>c \<in> set cs. int c < 2 ^ 32"
  shows "node_ok (Internal ks cs)"
  using assms by auto

section \<open>Insertion\<close>

context page_store
begin

definition ins_done ::
  "nat \<Rightarrow> nat \<Rightarrow> ptree \<Rightarrow> nat option \<Rightarrow> int \<Rightarrow> bytes \<Rightarrow> nat set \<Rightarrow> 's \<Rightarrow> ptree list \<Rightarrow> int list \<Rightarrow> 's \<Rightarrow> bool" where
  "ins_done ps h t nx key v T s ts js s' \<longleftrightarrow>
     forest_at (view s') ps h ts js nx \<and> fcells ts = ins_cells key v (cells t) \<and>
     (\<forall>y. next_of (concat (map leaves ts)) y = next_of (leaves t) y) \<and>
     hull_ok (2 * key + 1) (flat t) (inter js (map flat ts)) \<and>
     fpages ts \<subseteq> set (pages t) \<union> {npages s..<npages s'} \<and>
     ok T s' \<and> npages s \<le> npages s' \<and> npages s' \<le> npages s + Suc h \<and>
     (\<forall>p. p \<notin> set (pages t) \<and> p < npages s \<longrightarrow> view s' p = view s p)"

text \<open>The result of \<open>_insert\<close> and the forest it stands for.\<close>

definition ins_result ::
  "((int \<times> nat) option res \<times> 's) \<Rightarrow> ptree \<Rightarrow> ptree list \<Rightarrow> int list \<Rightarrow> 's \<Rightarrow> bool" where
  "ins_result r t ts js s' \<longleftrightarrow>
     (\<exists>t1. r = (Inr None, s') \<and> ts = [t1] \<and> js = [] \<and> proot t1 = proot t) \<or>
     (\<exists>t1 t2 sep. r = (Inr (Some (sep, proot t2)), s') \<and> ts = [t1, t2] \<and> js = [sep] \<and>
        proot t1 = proot t)"

lemma split_leaf_ok:
  assumes inv: "ok (insert n T) s" "n < npages s" "n \<notin> T"
    and srt: "sorted_wrt (<) (map fst cs)" and k64: "\<forall>c \<in> set cs. int64 (fst c)"
    and size: "cells_size cs < 2 ^ 31"
    and nx: "case nx of None \<Rightarrow> True | Some p \<Rightarrow> int p < NO_PAGE"
    and np: "int (npages s) < NO_PAGE" and mid: "length cs div 2 \<noteq> 0"
    and fits: "9 + cells_size (take (length cs div 2) cs) \<le> ps"
      "9 + cells_size (drop (length cs div 2) cs) \<le> ps"
    and ps: "ps \<le> cap"
  shows "\<exists>s' sep. split_leaf st n cs nx s = (Inr (sep, npages s), s') \<and> ok T s' \<and>
           npages s' = Suc (npages s) \<and>
           forest_at (view s') ps 0 [PLeaf n (take (length cs div 2) cs),
             PLeaf (npages s) (drop (length cs div 2) cs)] [sep] nx \<and>
           (\<forall>p. p \<noteq> n \<and> p < npages s \<longrightarrow> view s' p = view s p) \<and>
           (\<forall>m. hull_ok m (map key_mark cs) (inter [sep] [map key_mark (take (length cs div 2) cs),
             map key_mark (drop (length cs div 2) cs)]))"
proof -
  define mid' where "mid' = length cs div 2"
  define l where "l = take mid' cs"
  define r where "r = drop mid' cs"
  let ?m = "npages s"
  have cs: "cs = l @ r" by (simp add: l_def r_def)
  have fits': "9 + cells_size l \<le> ps" "9 + cells_size r \<le> ps"
    using fits by (simp_all add: l_def r_def mid'_def)
  have k64': "\<forall>c \<in> set l. int64 (fst c)" "\<forall>c \<in> set r. int64 (fst c)" using k64 by (auto simp: cs)
  obtain s1 where s1: "st_alloc st s = (Inr ?m, s1)" "ok (insert n T) s1" "npages s1 = Suc ?m"
    "\<And>p. p \<noteq> ?m \<Longrightarrow> view s1 p = view s p"
    using alloc_law[OF inv(1)] by blast
  have okr: "node_ok (Leaf r nx)"
    using k64' nx fits' ps cap_law by (intro node_ok_leaf) auto
  have okl: "node_ok (Leaf l (Some ?m))"
    using k64' np fits' ps cap_law by (intro node_ok_leaf) auto
  obtain s2 where s2: "write_node st ?m (Leaf r nx) s1 = (Inr (), s2)" "ok (insert n T - {?m}) s2"
    "view s2 = (view s1)(?m \<mapsto> Leaf r nx)" "npages s2 = npages s1"
    using write_node_ok[OF s1(2) _ okr] s1(3) fits' ps by auto
  obtain s3 where s3: "write_node st n (Leaf l (Some ?m)) s2 = (Inr (), s3)"
    "ok (insert n T - {?m} - {n}) s3" "view s3 = (view s2)(n \<mapsto> Leaf l (Some ?m))" "npages s3 = npages s2"
  proof -
    have "n < npages s2" "node_size (Leaf l (Some ?m)) \<le> cap"
      using s1(3) s2(4) inv(2) fits' ps by auto
    from write_node_ok[OF s2(2) this(1) okl this(2)] show ?thesis using that by blast
  qed
  have "?m \<notin> T" using ok_bound[OF inv(1), of ?m] by auto
  then have T: "insert n T - {?m} - {n} = T" using inv(3) by auto
  have "mid' < length cs" using mid by (cases cs) (auto simp: mid'_def)
  then obtain c rs where r: "r = c # rs" unfolding r_def by (metis Cons_nth_drop_Suc)
  have l: "l \<noteq> []" using mid by (auto simp: l_def mid'_def)
  have ne: "?m \<noteq> n" using inv(2) by simp
  have lc: "\<forall>a \<in> set l. fst a < fst c" and srl: "sorted_wrt (<) (map fst l)"
    and srr: "sorted_wrt (<) (map fst r)"
    using srt unfolding cs r by (auto simp: sorted_wrt_append)
  have sm: "sorted_wrt (<) (map key_mark l @ map key_mark r)"
    using srt sorted_cells_mark[of cs] by (simp add: cs)
  have "\<forall>a \<in> set l. key_mark a < 2 * fst c" using lc by (auto simp: key_mark_def)
  moreover have "\<forall>b \<in> set r. 2 * fst c < key_mark b"
    using srr unfolding r by (auto simp: key_mark_def)
  ultimately have marks: "sorted_wrt (<) (map key_mark l @ 2 * fst c # map key_mark r)"
    using sm by (auto simp: sorted_wrt_append)
  have F: "forest_at (view s3) ps 0 [PLeaf n l, PLeaf ?m r] [fst c] nx"
    using s3(3) s2(3) ne marks r fits' k64'
    by (auto simp: forest_at_def subtree_ok_def inter_def)
  have H: "hull_ok m (map key_mark cs) (inter [fst c] [map key_mark l, map key_mark r])" for m
  proof (rule hull_between)
    fix x assume "x \<in> set (inter [fst c] [map key_mark l, map key_mark r])"
    then consider (old) "x \<in> key_mark ` set cs" | (sep) "x = 2 * fst c"
      by (auto simp: inter_def cs)
    then show "\<exists>y \<in> insert m (set (map key_mark cs)). \<exists>z \<in> insert m (set (map key_mark cs)). y \<le> x \<and> x \<le> z"
    proof cases
      case old
      then show ?thesis by auto
    next
      case sep
      obtain a where a: "a \<in> set l" using l by (cases l) auto
      have "key_mark a \<in> set (map key_mark cs)" "key_mark c \<in> set (map key_mark cs)"
        using a by (auto simp: cs r)
      moreover have "key_mark a \<le> x" "x \<le> key_mark c" using lc a sep by (auto simp: key_mark_def)
      ultimately show ?thesis by blast
    qed
  qed
  have "split_leaf st n cs nx s = (Inr (fst c, ?m), s3)"
    using mid s1(1) s2(1) s3(1) r
    by (simp add: split_leaf_def Let_def bindP_app nth_err_def l_def [symmetric] r_def [symmetric]
        mid'_def [symmetric])
  moreover have "\<forall>p. p \<noteq> n \<and> p < ?m \<longrightarrow> view s3 p = view s p" using s3(3) s2(3) s1(4) by simp
  moreover have "ok T s3" "npages s3 = Suc ?m" using s3(2,4) s2(4) s1(3) T by simp_all
  ultimately show ?thesis using F H unfolding l_def r_def mid'_def by blast
qed

lemma split_leaf_big:
  assumes "ok (insert n T) s" and "n < npages s" and "n \<notin> T" and "\<forall>c \<in> set cs. int64 (fst c)"
    and "cells_size cs < 2 ^ 31"
    and "case nx of None \<Rightarrow> True | Some p \<Rightarrow> int p < NO_PAGE" and "int (npages s) < NO_PAGE"
    and "length cs div 2 = 0 \<or> cap < 9 + cells_size (take (length cs div 2) cs) \<or>
         cap < 9 + cells_size (drop (length cs div 2) cs)"
  shows "\<exists>s'. split_leaf st n cs nx s = (Inl ValueError, s')"
proof (cases "length cs div 2 = 0")
  case True
  then show ?thesis by (simp add: split_leaf_def)
next
  case False
  let ?mid = "length cs div 2"
  let ?l = "take ?mid cs" and ?r = "drop ?mid cs" and ?m = "npages s"
  obtain s1 where s1: "st_alloc st s = (Inr ?m, s1)" "ok (insert n T) s1" "npages s1 = Suc ?m"
    using alloc_law[OF assms(1)] by blast
  have sum: "cells_size cs = cells_size ?l + cells_size ?r"
    by (metis append_take_drop_id cells_size_simps(3))
  have okr: "node_ok (Leaf ?r nx)"
    using assms(4-6) sum by (intro node_ok_leaf) (auto dest: in_set_dropD)
  have okl: "node_ok (Leaf ?l (Some ?m))"
    using assms(4,5,7) sum by (intro node_ok_leaf) (auto dest: in_set_takeD)
  show ?thesis
  proof (cases "cap < 9 + cells_size ?r")
    case True
    then obtain s2 where "write_node st ?m (Leaf ?r nx) s1 = (Inl ValueError, s2)"
      using write_node_big[OF s1(2) okr, of ?m] by auto
    then show ?thesis using False s1(1) by (simp add: split_leaf_def Let_def bindP_app)
  next
    case R: False
    obtain s2 where s2: "write_node st ?m (Leaf ?r nx) s1 = (Inr (), s2)" "ok (insert n T - {?m}) s2"
      using write_node_ok[OF s1(2) _ okr] s1(3) R by auto
    obtain s3 where "write_node st n (Leaf ?l (Some ?m)) s2 = (Inl ValueError, s3)"
      using write_node_big[OF s2(2) okl, of n] R False assms(8) by auto
    then show ?thesis using False s1(1) s2(1) by (simp add: split_leaf_def Let_def bindP_app)
  qed
qed

lemma split_internal_ok:
  assumes inv: "ok (insert n T) s" "n < npages s" "n \<notin> T"
    and F: "forest_at (view s) ps h ts ks nx" and pg: "n \<notin> fpages ts" "\<forall>p \<in> fpages ts. p < npages s"
    and np: "int (npages s) < NO_PAGE"
    and size: "9 + 8 * (length ks - 1) + 4 * (length ts - 1) \<le> ps" "ps < 9 + 8 * length ks + 4 * length ts"
    and ps: "48 \<le> ps" "ps \<le> cap"
  shows "\<exists>s' t1 t2 sep. split_internal st n ks (map proot ts) s = (Inr (sep, proot t2), s') \<and> ok T s' \<and>
           npages s' = Suc (npages s) \<and> forest_at (view s') ps (Suc h) [t1, t2] [sep] nx \<and>
           proot t1 = n \<and> fpages [t1, t2] = insert n (insert (npages s) (fpages ts)) \<and>
           fcells [t1, t2] = fcells ts \<and> leaves t1 @ leaves t2 = concat (map leaves ts) \<and>
           inter [sep] [flat t1, flat t2] = inter ks (map flat ts) \<and>
           (\<forall>p. p \<noteq> n \<and> p < npages s \<longrightarrow> view s' p = view s p)"
proof -
  have lts: "length ts = Suc (length ks)" using F by (simp add: forest_at_def)
  have k3: "3 \<le> length ks" using size(2) ps(1) lts by linarith
  define mid where "mid = length ks div 2"
  have mid: "1 \<le> mid" "mid + 1 < length ks" using k3 by (auto simp: mid_def)
  define kl where "kl = take mid ks"
  define kr where "kr = drop (Suc mid) ks"
  define sep where "sep = ks ! mid"
  define l where "l = take (mid + 1) ts"
  define r where "r = drop (mid + 1) ts"
  have ks: "ks = kl @ sep # kr" using mid(2) by (simp add: kl_def kr_def sep_def id_take_nth_drop)
  have ts: "ts = l @ r" by (simp add: l_def r_def)
  have lens: "length l = Suc (length kl)" "length r = Suc (length kr)" "kl \<noteq> []" "kr \<noteq> []"
    using mid lts by (auto simp: l_def r_def kl_def kr_def)
  let ?m = "npages s"
  have kk: "\<forall>k \<in> set ks. int64 k" using F by (simp add: forest_at_def)
  have cc: "int p < 2 ^ 32" if "p \<in> fpages ts" for p
    using pg(2) np that by (auto simp: NO_PAGE_def)
  have small: "9 + 8 * length kl + 4 * length l \<le> ps" "9 + 8 * length kr + 4 * length r \<le> ps"
    using size(1) lens by (simp_all add: ks ts)
  have sub: "set (map proot l) \<subseteq> fpages ts" "set (map proot r) \<subseteq> fpages ts"
    using proots_in_pages[of l] proots_in_pages[of r] by (auto simp: ts)
  have okl: "node_ok (Internal kl (map proot l))"
    using small(1) ps(2) cap_law kk cc sub(1) by (intro node_ok_internal) (auto simp: ks)
  have okr: "node_ok (Internal kr (map proot r))"
    using small(2) ps(2) cap_law kk cc sub(2) by (intro node_ok_internal) (auto simp: ks)
  obtain s1 where s1: "st_alloc st s = (Inr ?m, s1)" "ok (insert n T) s1" "npages s1 = Suc ?m"
    "\<And>p. p \<noteq> ?m \<Longrightarrow> view s1 p = view s p"
    using alloc_law[OF inv(1)] by blast
  obtain s2 where s2: "write_node st ?m (Internal kr (map proot r)) s1 = (Inr (), s2)"
    "ok (insert n T - {?m}) s2" "view s2 = (view s1)(?m \<mapsto> Internal kr (map proot r))" "npages s2 = npages s1"
    using write_node_ok[OF s1(2) _ okr] s1(3) small(2) ps(2) by auto
  obtain s3 where s3: "write_node st n (Internal kl (map proot l)) s2 = (Inr (), s3)"
    "ok (insert n T - {?m} - {n}) s3" "view s3 = (view s2)(n \<mapsto> Internal kl (map proot l))"
    "npages s3 = npages s2"
  proof -
    have "n < npages s2" "node_size (Internal kl (map proot l)) \<le> cap"
      using s1(3) s2(4) inv(2) small(1) ps(2) by auto
    from write_node_ok[OF s2(2) this(1) okl this(2)] show ?thesis using that by blast
  qed
  have "?m \<notin> T" using ok_bound[OF inv(1), of ?m] by auto
  then have T: "insert n T - {?m} - {n} = T" using inv(3) by auto
  have fresh: "?m \<notin> fpages ts" "?m \<noteq> n" using pg(2) inv(2) by auto
  have F3: "forest_at (view s3) ps h (l @ r) (kl @ sep # kr) nx"
  proof -
    have "view s3 p = view s p" if "p \<in> fpages ts" for p
      using that s3(3) s2(3) s1(4) pg(1) fresh by auto
    then show ?thesis using forest_frame[of ts "view s3" "view s"] F by (simp add: ks [symmetric] ts [symmetric])
  qed
  have FF: "forest_at (view s3) ps (Suc h) [PNode n kl l, PNode ?m kr r] [sep] nx"
    by (rule forest_split_node[OF F3])
      (use lens small fresh pg(1) s3(3) s2(3) ts in auto)
  have run: "split_internal st n ks (map proot ts) s = (Inr (sep, ?m), s3)"
  proof -
    have "nth_err ks mid = Inr sep" using mid(2) by (simp add: nth_err_def sep_def)
    moreover have "drop (mid + 1) (map proot ts) = map proot r" "take (mid + 1) (map proot ts) = map proot l"
      by (simp_all add: l_def r_def drop_map take_map)
    ultimately show ?thesis
      using mid(1) s1(1) s2(1) s3(1)
      by (simp add: split_internal_def mid_def [symmetric] Let_def bindP_app kl_def [symmetric] kr_def [symmetric])
  qed
  have "inter [sep] [flat (PNode n kl l), flat (PNode ?m kr r)] = inter ks (map flat ts)"
    using inter_join[of "map flat l" kl "map flat r" kr sep] lens by (simp add: inter_def ks ts)
  moreover have "\<forall>p. p \<noteq> n \<and> p < ?m \<longrightarrow> view s3 p = view s p" using s3(3) s2(3) s1(4) by simp
  moreover have "ok T s3" "npages s3 = Suc ?m" using s3(2,4) s2(4) s1(3) T by simp_all
  moreover have "fpages [PNode n kl l, PNode ?m kr r] = insert n (insert ?m (fpages ts))"
    by (auto simp: ts fpages_def)
  moreover have "fcells [PNode n kl l, PNode ?m kr r] = fcells ts"
    by (simp add: ts fcells_def)
  moreover have "leaves (PNode n kl l) @ leaves (PNode ?m kr r) = concat (map leaves ts)"
    by (simp add: ts)
  ultimately show ?thesis
    using FF run by (intro exI[of _ s3] exI[of _ "PNode n kl l"] exI[of _ "PNode ?m kr r"] exI[of _ sep]) simp
qed

lemma ins_leaf:
  assumes inv: "ok T s" and tr: "tree_at (view s) ps 0 (PLeaf n cs) nx" and cl: "n < npages s" "n \<notin> T"
    and key: "int64 key" "key \<notin> fst ` set cs" and v: "length v \<le> MAX_VALUE_SIZE"
    and np: "int (npages s) < NO_PAGE"
    and nx: "case nx of None \<Rightarrow> True | Some p \<Rightarrow> int p < NO_PAGE"
    and ps: "48 \<le> ps" "ps \<le> cap" and big: "ps = cap \<or> (\<forall>c \<in> set ((key, v) # cs). small_cell ps c)"
  shows "(\<exists>s' ts js. ins_result (ins st ps (Suc fuel) n key v s) (PLeaf n cs) ts js s' \<and>
             ins_done ps 0 (PLeaf n cs) nx key v T s ts js s') \<or>
         (\<exists>s'. ins st ps (Suc fuel) n key v s = (Inl ValueError, s') \<and>
             \<not> (\<forall>c \<in> set ((key, v) # cs). small_cell ps c))"
proof -
  have L: "view s n = Some (Leaf cs nx)" "9 + cells_size cs \<le> ps" "\<forall>c \<in> set cs. int64 (fst c)"
    "sorted_wrt (<) (map fst cs)"
    using tr leaf_forest by auto
  let ?cs = "ins_cells key v cs"
  have srt: "sorted_wrt (<) (map fst ?cs)" using ins_cells_sorted[OF L(4) key(2)] .
  have k64: "\<forall>c \<in> set ?cs. int64 (fst c)" using L(3) key(1) by (auto simp: ins_cells_set)
  have sz: "cells_size ?cs = cells_size cs + 12 + length v" by (rule ins_cells_size)
  have lim: "cells_size ?cs < 2 ^ 31" using sz L(2) ps(2) cap_law v by (simp add: MAX_VALUE_SIZE_def)
  have nok: "node_ok (Leaf ?cs nx)" using lim k64 nx by (rule node_ok_leaf)
  obtain s1 where s1: "st_load st n s = (Inr (Leaf cs nx), s1)" "ok T s1" "view s1 = view s"
    "npages s1 = npages s"
    using load_law[OF inv cl L(1)] by blast
  obtain s2 where s2: "st_mut st n (Leaf ?cs nx) s1 = (Inr (), s2)" "ok (insert n T) s2"
    "view s2 = view s" "npages s2 = npages s"
    using mut_law[OF s1(2), of n] cl(1) s1(3,4) by metis
  have nodup: "\<not> has_key_at cs (cell_index cs key) key" using has_key_at_iff[OF L(4)] key(2) by simp
  have run: "ins st ps (Suc fuel) n key v s =
      (if 9 + cells_size ?cs \<le> ps then bindP (write_node st n (Leaf ?cs nx)) (\<lambda>_. ret None) s2
       else bindP (split_leaf st n ?cs nx) (\<lambda>r. ret (Some r)) s2)"
    using s1(1) s2(1) nodup serialized_size_ok[OF nok] insert_at_ins_cells[OF L(4), of key v]
    by (simp add: bindP_app Let_def)
  have hull: "hull_ok (2 * key + 1) (map key_mark cs) (map key_mark ?cs)"
    by (rule hull_subset) (auto simp: ins_cells_set key_mark_def)
  show ?thesis
  proof (cases "9 + cells_size ?cs \<le> ps")
    case True
    have "node_size (Leaf ?cs nx) \<le> cap" using True ps(2) by simp
    then obtain s3 where s3: "write_node st n (Leaf ?cs nx) s2 = (Inr (), s3)" "ok (insert n T - {n}) s3"
      "view s3 = (view s2)(n \<mapsto> Leaf ?cs nx)" "npages s3 = npages s2"
    proof -
      have "n < npages s2" using cl(1) s2(4) by simp
      from write_node_ok[OF s2(2) this nok \<open>node_size (Leaf ?cs nx) \<le> cap\<close>] show ?thesis using that by blast
    qed
    have T: "insert n T - {n} = T" using cl(2) by auto
    have F: "tree_at (view s3) ps 0 (PLeaf n ?cs) nx"
      using True k64 srt s3(3) by (simp add: leaf_forest)
    have "ins_done ps 0 (PLeaf n cs) nx key v T s [PLeaf n ?cs] [] s3"
      using F hull s3 s2 T by (auto simp: ins_done_def)
    moreover have "ins_result (ins st ps (Suc fuel) n key v s) (PLeaf n cs) [PLeaf n ?cs] [] s3"
      using run True s3(1) by (simp add: ins_result_def bindP_app)
    ultimately show ?thesis by blast
  next
    case False
    let ?mid = "length ?cs div 2"
    show ?thesis
    proof (cases "?mid \<noteq> 0 \<and> 9 + cells_size (take ?mid ?cs) \<le> ps \<and> 9 + cells_size (drop ?mid ?cs) \<le> ps")
      case True
      have np2: "int (npages s2) < NO_PAGE" "n < npages s2" using np cl(1) s2(4) by simp_all
      obtain s3 sep where s3: "split_leaf st n ?cs nx s2 = (Inr (sep, npages s2), s3)" "ok T s3"
        "npages s3 = Suc (npages s2)"
        "forest_at (view s3) ps 0 [PLeaf n (take ?mid ?cs), PLeaf (npages s2) (drop ?mid ?cs)] [sep] nx"
        "\<forall>p. p \<noteq> n \<and> p < npages s2 \<longrightarrow> view s3 p = view s2 p"
        "\<forall>m. hull_ok m (map key_mark ?cs) (inter [sep] [map key_mark (take ?mid ?cs), map key_mark (drop ?mid ?cs)])"
        using split_leaf_ok[OF s2(2) np2(2) cl(2) srt k64 lim nx np2(1), of ps] True ps(2) by blast
      let ?ts = "[PLeaf n (take ?mid ?cs), PLeaf (npages s2) (drop ?mid ?cs)]"
      have fl: "map flat ?ts = [map key_mark (take ?mid ?cs), map key_mark (drop ?mid ?cs)]" by simp
      have "hull_ok (2 * key + 1) (map key_mark cs) (inter [sep] (map flat ?ts))"
        unfolding fl using hull_trans[OF hull s3(6)[rule_format]] .
      moreover have "fcells ?ts = ?cs" by simp
      moreover have "fpages ?ts \<subseteq> {n} \<union> {npages s..<npages s3}" using s3(3) s2(4) by simp
      ultimately have "ins_done ps 0 (PLeaf n cs) nx key v T s ?ts [sep] s3"
        using s3(2-5) s2(3,4) unfolding ins_done_def by simp
      moreover have "ins_result (ins st ps (Suc fuel) n key v s) (PLeaf n cs) ?ts [sep] s3"
        using run False s3(1) by (simp add: ins_result_def bindP_app)
      ultimately show ?thesis by blast
    next
      case bad: False
      have ns: "\<not> (\<forall>c \<in> set ((key, v) # cs). small_cell ps c)"
      proof
        assume sm: "\<forall>c \<in> set ((key, v) # cs). small_cell ps c"
        have "\<forall>c \<in> set ?cs. small_cell ps c" "(key, v) \<in> set ?cs" using sm by (auto simp: ins_cells_set)
        moreover have "ps < 9 + cells_size ?cs" "9 + cells_size ?cs \<le> ps + cell_size (key, v)" "9 \<le> ps"
          using False sz L(2) ps(1) by (simp_all add: cell_size_def)
        ultimately show False using split_halves_fit[of ?cs ps "(key, v)"] bad by blast
      qed
      then have "ps = cap" using big by blast
      then have "?mid = 0 \<or> cap < 9 + cells_size (take ?mid ?cs) \<or> cap < 9 + cells_size (drop ?mid ?cs)"
        using bad by auto
      then obtain s3 where "split_leaf st n ?cs nx s2 = (Inl ValueError, s3)"
        using split_leaf_big[OF s2(2) _ cl(2) k64 lim nx] cl(1) np s2(4) by auto
      then show ?thesis using run False ns by (auto simp: bindP_app)
    qed
  qed
qed

text \<open>
  Going up one level: the child \<open>u\<close> of node \<open>n\<close> was replaced by the forest \<open>us\<close>, and the state is
  \<open>s2\<close>.
\<close>

lemma ins_up:
  assumes F: "forest_at (view s) ps h (l @ u # r) (kl @ kr) nx" and len: "length kl = length l" "length kr = length r"
    and lo: "\<And>x. x \<in> set (before kl (map flat l)) \<Longrightarrow> x < 2 * key + 1"
    and hi: "\<And>x. x \<in> set (after kr (map flat r)) \<Longrightarrow> 2 * key + 1 < x"
    and pg: "\<forall>p \<in> fpages (l @ u # r). p < npages s"
    and D: "ins_done ps h u (next_of (concat (map leaves r)) nx) key v T s us js s2"
  shows "forest_at (view s2) ps h (l @ us @ r) (kl @ js @ kr) nx"
    "hull_ok (2 * key + 1) (inter (kl @ kr) (map flat (l @ u # r))) (inter (kl @ js @ kr) (map flat (l @ us @ r)))"
    "fcells (l @ us @ r) = ins_cells key v (fcells (l @ u # r))"
    "\<And>y. next_of (concat (map leaves (l @ us @ r))) y = next_of (concat (map leaves (l @ u # r))) y"
    "fpages (l @ us @ r) \<subseteq> fpages (l @ u # r) \<union> {npages s..<npages s2}"
proof -
  note D' = D[unfolded ins_done_def]
  have dist: "set (pages u) \<inter> (fpages l \<union> fpages r) = {}"
    using F by (auto simp: forest_at_def fpages_def)
  have D1: "fpages us \<subseteq> set (pages u) \<union> {npages s..<npages s2}" "fcells us = ins_cells key v (cells u)"
    "\<And>p. p \<notin> set (pages u) \<Longrightarrow> p < npages s \<Longrightarrow> view s2 p = view s p"
    using D' by blast+
  have fr: "view s2 p = view s p" if "p \<in> fpages l \<union> fpages r" for p
  proof (rule D1(3))
    show "p \<notin> set (pages u)" using dist that by blast
    show "p < npages s" using pg that by auto
  qed
  have dj: "fpages us \<inter> (fpages l \<union> fpages r) = {}"
  proof -
    have "p < npages s" if "p \<in> fpages l \<union> fpages r" for p using pg that by auto
    then have "{npages s..<npages s2} \<inter> (fpages l \<union> fpages r) = {}" by fastforce
    then show ?thesis using D1(1) dist by blast
  qed
  have G: "forest_at (view s2) ps h us js (next_of (concat (map leaves r)) nx)"
    and nxt: "\<And>y. next_of (concat (map leaves us)) y = next_of (leaves u) y"
    and hull: "hull_ok (2 * key + 1) (flat u) (inter js (map flat us))"
    using D' by blast+
  from forest_replace[OF F len(1) G fr dj nxt hull lo hi]
  show "forest_at (view s2) ps h (l @ us @ r) (kl @ js @ kr) nx"
    "hull_ok (2 * key + 1) (inter (kl @ kr) (map flat (l @ u # r))) (inter (kl @ js @ kr) (map flat (l @ us @ r)))"
    by blast+
  have bal: "\<forall>t \<in> set (l @ r). bal h t" using F by (auto simp: forest_at_def subtree_ok_def)
  note rc = route_cells[OF len bal lo hi]
  show "fcells (l @ us @ r) = ins_cells key v (fcells (l @ u # r))"
    using D1(2) ins_cells_mid[of "fcells l" key "fcells r" v "cells u", OF rc] by simp
  show "next_of (concat (map leaves (l @ us @ r))) y = next_of (concat (map leaves (l @ u # r))) y" for y
    using nxt by simp
  show "fpages (l @ us @ r) \<subseteq> fpages (l @ u # r) \<union> {npages s..<npages s2}"
    using D1(1) by auto
qed

lemma ins_node:
  assumes cl: "n < npages s" "n \<notin> T" and ts: "ts = l @ u # r" and ks: "ks = kl @ kr"
    and N: "forest_at (view s) ps h ts ks nx" "view s n = Some (Internal ks (map proot ts))"
      "n \<notin> fpages ts" "ks \<noteq> []" "9 + 8 * length ks + 4 * length ts \<le> ps"
    and pg: "\<forall>p \<in> fpages ts. p < npages s" and len: "length kl = length l" "length kr = length r"
    and lo: "\<And>x. x \<in> set (before kl (map flat l)) \<Longrightarrow> x < 2 * key + 1"
    and hi: "\<And>x. x \<in> set (after kr (map flat r)) \<Longrightarrow> 2 * key + 1 < x"
    and D: "ins_done ps h u (next_of (concat (map leaves r)) nx) key v T s us js s2"
    and np: "int (npages s) + int (Suc h) < NO_PAGE" and ps: "48 \<le> ps" "ps \<le> cap"
    and run: "ins_result ru u us js s2"
    and cont: "rt = (case fst ru of Inl e \<Rightarrow> (Inl e, snd ru) | Inr None \<Rightarrow> (Inr None, snd ru)
      | Inr (Some (sep, right)) \<Rightarrow>
          (let ks' = kl @ sep # kr; ch' = map proot (l @ [u]) @ right # map proot r in
           bindP (st_mut st n (Internal ks' ch')) (\<lambda>_.
           bindP (liftE (serialized_size (Internal ks' ch'))) (\<lambda>sz.
           if sz \<le> ps then bindP (write_node st n (Internal ks' ch')) (\<lambda>_. ret None)
           else bindP (split_internal st n ks' ch') (\<lambda>r. ret (Some r)))) (snd ru)))"
  shows "\<exists>s' ts' js'. ins_result rt (PNode n ks ts) ts' js' s' \<and>
           ins_done ps (Suc h) (PNode n ks ts) nx key v T s ts' js' s'"
proof -
  note D' = D[unfolded ins_done_def]
  note U = ins_up[OF N(1)[unfolded ts ks] len lo hi pg[unfolded ts] D, folded ts ks]
  have nn: "view s2 n = Some (Internal ks (map proot ts))" "n < npages s2"
    using D' N(2,3) cl(1) ts by auto
  have nu: "n \<notin> fpages (l @ us @ r)" using U(5) N(3) cl(1) by auto
  have ub: "npages s2 \<le> npages s + Suc h" "npages s \<le> npages s2" "ok T s2" using D' by blast+
  have pg2: "\<forall>p \<in> fpages (l @ us @ r). p < npages s2" using U(5) pg ub(2) by fastforce
  have frame: "view s2 p = view s p" if "p \<notin> set (pages (PNode n ks ts))" "p < npages s" for p
    using D' that ts by (auto simp: fpages_def)
  have pgs: "fpages (l @ us @ r) \<subseteq> set (pages (PNode n ks ts)) \<union> {npages s..<npages s2}"
    using U(5) by (auto simp: fpages_def)
  have cells: "fcells (l @ us @ r) = ins_cells key v (cells (PNode n ks ts))"
    using U(3) by (simp add: fcells_def)
  from run[unfolded ins_result_def] show ?thesis
  proof (elim disjE exE conjE)
    fix t1 assume A: "ru = (Inr None, s2)" "us = [t1]" "js = []" "proot t1 = proot u"
    let ?t = "PNode n ks (l @ [t1] @ r)"
    have mp: "map proot (l @ [t1] @ r) = map proot ts" "length (l @ [t1] @ r) = length ts" using A(4) ts by simp_all
    have F2: "forest_at (view s2) ps h (l @ [t1] @ r) ks nx" using U(1) A ks by simp
    have F: "tree_at (view s2) ps (Suc h) ?t nx"
      by (rule forest_node[OF F2]) (use nn mp nu A N(4,5) in auto)
    have "ins_done ps (Suc h) (PNode n ks ts) nx key v T s [?t] [] s2"
      using F U(2,4) cells pgs ub frame A ks unfolding ins_done_def by (simp add: fcells_def fpages_def)
    moreover have "ins_result rt (PNode n ks ts) [?t] [] s2"
      using A(1) cont by (simp add: ins_result_def)
    ultimately show ?thesis by blast
  next
    fix t1 t2 sep assume A: "ru = (Inr (Some (sep, proot t2)), s2)" "us = [t1, t2]" "js = [sep]"
      "proot t1 = proot u"
    let ?ks = "kl @ sep # kr" and ?ts = "l @ [t1, t2] @ r"
    let ?nd = "Internal ?ks (map proot ?ts)"
    have ch: "map proot (l @ [u]) @ proot t2 # map proot r = map proot ?ts" using A(4) by simp
    have F2: "forest_at (view s2) ps h ?ts ?ks nx" using U(1) A by simp
    have k64: "\<forall>k \<in> set ?ks. int64 k" using F2 by (simp add: forest_at_def)
    have lts: "length ?ts = Suc (length ?ks)" using F2 by (simp add: forest_at_def)
    have le: "9 + 8 * (length ?ks - 1) + 4 * (length ?ts - 1) \<le> ps" using N(5) ts ks by simp
    have nok: "node_ok ?nd"
    proof (rule node_ok_internal[OF _ k64])
      show "8 * length ?ks + 4 * length (map proot ?ts) < 2 ^ 31" using le ps(2) cap_law by simp
      have "int p < 2 ^ 32" if "p \<in> fpages ?ts" for p
        using pg2 A(2) ub(1) np that by (fastforce simp: NO_PAGE_def)
      then show "\<forall>c \<in> set (map proot ?ts). int c < 2 ^ 32" using proots_in_pages[of ?ts] by blast
    qed
    obtain s3 where s3: "st_mut st n ?nd s2 = (Inr (), s3)" "ok (insert n T) s3" "view s3 = view s2"
      "npages s3 = npages s2"
      using mut_law[OF ub(3) nn(2)] by blast
    have rt: "rt = (if node_size ?nd \<le> ps then bindP (write_node st n ?nd) (\<lambda>_. ret None) s3
        else bindP (split_internal st n ?ks (map proot ?ts)) (\<lambda>r. ret (Some r)) s3)"
      using cont A(1) s3(1) serialized_size_ok[OF nok] ch by (simp add: bindP_app Let_def)
    show ?thesis
    proof (cases "node_size ?nd \<le> ps")
      case True
      have "n < npages s3" "node_size ?nd \<le> cap" using nn(2) s3(4) True ps(2) by simp_all
      then obtain s4 where s4: "write_node st n ?nd s3 = (Inr (), s4)" "ok (insert n T - {n}) s4"
        "view s4 = (view s3)(n \<mapsto> ?nd)" "npages s4 = npages s3"
        using write_node_ok[OF s3(2) _ nok] by blast
      let ?t = "PNode n ?ks ?ts"
      have F4: "forest_at (view s4) ps h ?ts ?ks nx"
      proof -
        have "view s4 p = view s2 p" if "p \<in> fpages ?ts" for p
          using that nu A(2) s4(3) s3(3) by auto
        then show ?thesis
          using forest_frame[of ?ts "view s4" "view s2" ps h ?ks nx] F2 by blast
      qed
      have F: "tree_at (view s4) ps (Suc h) ?t nx"
        by (rule forest_node[OF F4]) (use s4(3) nu A True in auto)
      have T: "insert n T - {n} = T" using cl(2) by auto
      have "ins_done ps (Suc h) (PNode n ks ts) nx key v T s [?t] [] s4"
        using F U(2,4) cells pgs ub frame A s3 s4 T cl(1) unfolding ins_done_def
        by (simp add: fcells_def fpages_def)
      moreover have "ins_result rt (PNode n ks ts) [?t] [] s4"
        using rt True s4(1) by (simp add: ins_result_def bindP_app)
      ultimately show ?thesis by blast
    next
      case False
      have over: "ps < 9 + 8 * length ?ks + 4 * length ?ts" using False by simp
      have np3: "int (npages s3) < NO_PAGE" "n < npages s3" using np ub(1) s3(4) nn(2) by simp_all
      have F3: "forest_at (view s3) ps h ?ts ?ks nx" using F2 s3(3) by simp
      have pg3: "n \<notin> fpages ?ts" "\<forall>p \<in> fpages ?ts. p < npages s3" using nu pg2 A(2) s3(4) by simp_all
      obtain s4 w1 w2 sp where S: "split_internal st n ?ks (map proot ?ts) s3 = (Inr (sp, proot w2), s4)"
        "ok T s4" "npages s4 = Suc (npages s3)" "forest_at (view s4) ps (Suc h) [w1, w2] [sp] nx"
        "proot w1 = n" "fpages [w1, w2] = insert n (insert (npages s3) (fpages ?ts))"
        "fcells [w1, w2] = fcells ?ts" "leaves w1 @ leaves w2 = concat (map leaves ?ts)"
        "inter [sp] [flat w1, flat w2] = inter ?ks (map flat ?ts)"
        "\<forall>p. p \<noteq> n \<and> p < npages s3 \<longrightarrow> view s4 p = view s3 p"
        using split_internal_ok[OF s3(2) np3(2) cl(2) F3 pg3 np3(1) le over ps] by blast
      have nxt: "next_of (concat (map leaves [w1, w2])) y = next_of (leaves (PNode n ks ts)) y" for y
        using U(4)[of y] S(8) A(2) by simp
      have fp: "fpages [w1, w2] \<subseteq> set (pages (PNode n ks ts)) \<union> {npages s..<npages s4}"
        using S(3,6) pgs A(2) ub(2) s3(4) by auto
      have fr4: "view s4 p = view s p" if "p \<notin> set (pages (PNode n ks ts))" "p < npages s" for p
        using S(10) frame[OF that] that ub(2) s3(3,4) by simp
      have "ins_done ps (Suc h) (PNode n ks ts) nx key v T s [w1, w2] [sp] s4"
        unfolding ins_done_def
        using S(2-4,7,9) U(2) cells A(2,3) nxt fp fr4 ub s3(4) by simp
      moreover have "ins_result rt (PNode n ks ts) [w1, w2] [sp] s4"
        using rt False S(1,5) by (simp add: ins_result_def bindP_app)
      ultimately show ?thesis by blast
    qed
  qed
qed

lemma ins_ok:
  assumes "ok T s" and "tree_at (view s) ps h t nx" and "clean_pages T s (set (pages t))"
    and "h < fuel" and "int64 key" and "length v \<le> MAX_VALUE_SIZE"
    and "int (npages s) + int h < NO_PAGE"
    and "case nx of None \<Rightarrow> True | Some p \<Rightarrow> int p < NO_PAGE"
    and "48 \<le> ps" and "ps \<le> cap" and "ps = cap \<or> (\<forall>c \<in> set ((key, v) # cells t). small_cell ps c)"
  shows "if key \<in> keys_of t
         then \<exists>s'. ins st ps fuel (proot t) key v s = (Inl (DuplicateKey key), s') \<and> same T s s'
         else (\<exists>s' ts js. ins_result (ins st ps fuel (proot t) key v s) t ts js s' \<and>
                 ins_done ps h t nx key v T s ts js s') \<or>
              (\<exists>s'. ins st ps fuel (proot t) key v s = (Inl ValueError, s') \<and>
                 \<not> (\<forall>c \<in> set ((key, v) # cells t). small_cell ps c))"
  using assms
proof (induction fuel arbitrary: s h t nx)
  case 0
  then show ?case by simp
next
  case (Suc fuel)
  show ?case
  proof (cases t)
    case (PLeaf n cs)
    have h: "h = 0" using Suc.prems(2) PLeaf leaf_forest by auto
    have cl: "n < npages s" "n \<notin> T" using Suc.prems(3) PLeaf by (simp_all add: clean_pages_def)
    show ?thesis
    proof (cases "key \<in> keys_of t")
      case True
      have L: "view s n = Some (Leaf cs nx)" "sorted_wrt (<) (map fst cs)"
        using Suc.prems(2) PLeaf leaf_forest by auto
      obtain s1 where s1: "st_load st n s = (Inr (Leaf cs nx), s1)" "same T s s1"
        using load_same[OF Suc.prems(1,3) _ L(1)] PLeaf by auto
      have "has_key_at cs (cell_index cs key) key"
        using True PLeaf has_key_at_iff[OF L(2)] by (simp add: keys_of_def)
      then show ?thesis using True s1 PLeaf by (simp add: bindP_app Let_def)
    next
      case False
      then have key: "key \<notin> fst ` set cs" using PLeaf by (simp add: keys_of_def)
      have np: "int (npages s) < NO_PAGE" using Suc.prems(7) by simp
      show ?thesis
        using ins_leaf[OF Suc.prems(1) Suc.prems(2)[unfolded PLeaf h] cl Suc.prems(5) key Suc.prems(6) np
            Suc.prems(8-10), of fuel] Suc.prems(11) False
        by (simp add: PLeaf h)
    qed
  next
    case (PNode n ks ts)
    obtain h' where N: "h = Suc h'" "forest_at (view s) ps h' ts ks nx"
      "view s n = Some (Internal ks (map proot ts))" "n \<notin> fpages ts" "ks \<noteq> []"
      "9 + 8 * length ks + 4 * length ts \<le> ps"
      using node_forest[of "view s" ps h n ks ts nx] Suc.prems(2) unfolding PNode by blast
    have cl: "n < npages s" "n \<notin> T" using Suc.prems(3) PNode by (simp_all add: clean_pages_def)
    obtain s1 where s1: "st_load st n s = (Inr (Internal ks (map proot ts)), s1)" "same T s s1"
      using load_same[OF Suc.prems(1,3) _ N(3)] PNode by auto
    have lts: "length ts = Suc (length ks)" and srt: "sorted_wrt (<) (inter ks (map flat ts))"
      and bal: "\<forall>u \<in> set ts. bal h' u"
      using N(2) by (auto simp: forest_at_def subtree_ok_def)
    obtain kl kr l u r where R: "ks = kl @ kr" "ts = l @ u # r" "length kl = length l"
      "length kr = length r" "child_index ks key = length l"
      "inter ks (map flat ts) = before kl (map flat l) @ flat u @ after kr (map flat r)"
      and lo: "\<And>x. x \<in> set (before kl (map flat l)) \<Longrightarrow> x < 2 * key + 1"
      and hi: "\<And>x. x \<in> set (after kr (map flat r)) \<Longrightarrow> 2 * key + 1 < x"
      by (rule child_route[OF lts srt, where key = key]) (rule that)
    have balr: "\<forall>t \<in> set (l @ r). bal h' t" using bal R(2) by simp
    note rc = route_cells[OF R(3,4) balr lo hi]
    have s1': "view s1 = view s" "npages s1 = npages s" "ok T s1" using s1(2) by (simp_all add: same_def)
    have fp: "fpages ts \<subseteq> set (pages t)" using PNode by (auto simp: fpages_def)
    have pg: "\<forall>p \<in> fpages ts. p < npages s1" using Suc.prems(3) fp s1'(2) by (auto simp: clean_pages_def)
    have child: "tree_at (view s1) ps h' u (next_of (concat (map leaves r)) nx)"
      using forest_child[of "view s" ps h' l u r ks nx] N(2) R(1-4) s1'(1) by simp
    have cu: "set (pages u) \<subseteq> set (pages t)" using PNode R(2) by auto
    have clean: "clean_pages T s1 (set (pages u))"
      using Suc.prems(3) cu clean_same[OF s1(2)] by (auto simp: clean_pages_def)
    have nx': "case next_of (concat (map leaves r)) nx of None \<Rightarrow> True | Some p \<Rightarrow> int p < NO_PAGE"
    proof (rule next_page_ok[OF Suc.prems(8)], rule ballI)
      fix p assume "p \<in> fpages r"
      then have "p < npages s" using pg R(2) s1'(2) by auto
      then show "int p < NO_PAGE" using Suc.prems(7) by simp
    qed
    have ctt: "cells t = fcells l @ cells u @ fcells r" using PNode R(2) by (simp add: fcells_def)
    have key_iff: "key \<in> keys_of t \<longleftrightarrow> key \<in> keys_of u"
    proof -
      have "key \<notin> fst ` set (fcells l)" "key \<notin> fst ` set (fcells r)" using rc by blast+
      then show ?thesis by (simp add: keys_of_def ctt image_Un)
    qed
    have big: "ps = cap \<or> (\<forall>c \<in> set ((key, v) # cells u). small_cell ps c)"
      using Suc.prems(11) ctt by auto
    have np1: "int (npages s1) + int h' < NO_PAGE" "h' < fuel" using Suc.prems(4,7) s1'(2) N(1) by simp_all
    note IH = Suc.IH[OF s1'(3) child clean np1(2) Suc.prems(5,6) np1(1) nx' Suc.prems(9,10) big]
    define ru where "ru = ins st ps fuel (proot u) key v s1"
    define rt where "rt = ins st ps (Suc fuel) (proot t) key v s"
    have nth: "nth_err (map proot ts) (length l) = Inr (proot u)"
      by (simp add: R(2) nth_err_def nth_append)
    have at1: "insert_at (length l) sep ks = kl @ sep # kr" for sep
      using R(1,3) by (simp add: insert_at_def)
    have at2: "insert_at (Suc (length l)) right (map proot ts) = map proot (l @ [u]) @ right # map proot r" for right
      by (simp add: insert_at_def R(2))
    have cont: "rt = (case fst ru of Inl e \<Rightarrow> (Inl e, snd ru) | Inr None \<Rightarrow> (Inr None, snd ru)
      | Inr (Some (sep, right)) \<Rightarrow>
          (let ks' = kl @ sep # kr; ch' = map proot (l @ [u]) @ right # map proot r in
           bindP (st_mut st n (Internal ks' ch')) (\<lambda>_.
           bindP (liftE (serialized_size (Internal ks' ch'))) (\<lambda>sz.
           if sz \<le> ps then bindP (write_node st n (Internal ks' ch')) (\<lambda>_. ret None)
           else bindP (split_internal st n ks' ch') (\<lambda>r. ret (Some r)))) (snd ru)))"
    proof -
      have "rt = bindP (ins st ps fuel (proot u) key v) (\<lambda>x. case x of None \<Rightarrow> ret None
            | Some (sep, right) \<Rightarrow>
                (let ks' = kl @ sep # kr; children' = map proot (l @ [u]) @ right # map proot r in
                 bindP (st_mut st n (Internal ks' children')) (\<lambda>_.
                 bindP (liftE (serialized_size (Internal ks' children'))) (\<lambda>sz.
                 if sz \<le> ps then bindP (write_node st n (Internal ks' children')) (\<lambda>_. ret None)
                 else bindP (split_internal st n ks' children') (\<lambda>r. ret (Some r)))))) s1"
        unfolding rt_def PNode using s1(1) nth at1 at2 R(5)
        by (simp add: bindP_app Let_def cong: option.case_cong if_cong)
      then show ?thesis
        unfolding bindP_app[of "ins st ps fuel (proot u) key v"] ru_def [symmetric]
        by (auto simp: Let_def split: prod.splits sum.splits option.splits)
    qed
    show ?thesis
    proof (cases "key \<in> keys_of t")
      case True
      then obtain s2 where s2: "ru = (Inl (DuplicateKey key), s2)" "same T s1 s2"
        using IH key_iff by (auto simp: ru_def)
      then have "rt = (Inl (DuplicateKey key), s2)" using cont by simp
      then show ?thesis using True same_trans[OF s1(2) s2(2)] by (auto simp: rt_def)
    next
      case False
      have "(\<exists>s' us js. ins_result ru u us js s' \<and>
            ins_done ps h' u (next_of (concat (map leaves r)) nx) key v T s1 us js s') \<or>
          (\<exists>s'. ru = (Inl ValueError, s') \<and> \<not> (\<forall>c \<in> set ((key, v) # cells u). small_cell ps c))"
        using IH False key_iff unfolding ru_def by simp
      then show ?thesis
      proof (elim disjE exE conjE)
        fix s2 us js assume A: "ins_result ru u us js s2"
          "ins_done ps h' u (next_of (concat (map leaves r)) nx) key v T s1 us js s2"
        have np2: "int (npages s1) + int (Suc h') < NO_PAGE" using Suc.prems(7) s1'(2) N(1) by simp
        have cl1: "n < npages s1" using cl(1) s1'(2) by simp
        have N2: "forest_at (view s1) ps h' ts ks nx" "view s1 n = Some (Internal ks (map proot ts))"
          using N(2,3) s1'(1) by simp_all
        obtain s' ts' js' where B: "ins_result rt (PNode n ks ts) ts' js' s'"
          "ins_done ps (Suc h') (PNode n ks ts) nx key v T s1 ts' js' s'"
          using ins_node[OF cl1 cl(2) R(2,1) N2 N(4-6) pg R(3,4) lo hi A(2) np2 Suc.prems(9,10) A(1) cont]
          by blast
        have "ins_done ps (Suc h') (PNode n ks ts) nx key v T s ts' js' s'"
          using B(2) unfolding ins_done_def s1'(1,2) by blast
        then show ?thesis using B(1) False PNode N(1) unfolding rt_def by auto
      next
        fix s2 assume A: "ru = (Inl ValueError, s2)" "\<not> (\<forall>c \<in> set ((key, v) # cells u). small_cell ps c)"
        have "rt = (Inl ValueError, s2)" using cont A(1) by simp
        moreover have "\<not> (\<forall>c \<in> set ((key, v) # cells t). small_cell ps c)" using A(2) ctt by auto
        ultimately show ?thesis using False by (auto simp: rt_def)
      qed
    qed
  qed
qed

section \<open>The whole operation\<close>

definition is_tree :: "nat \<Rightarrow> nat \<Rightarrow> nat set \<Rightarrow> 's \<Rightarrow> ptree \<Rightarrow> bool" where
  "is_tree ps h T s t \<longleftrightarrow> ok T s \<and> tree_at (view s) ps h t None \<and> clean_pages T s (set (pages t))"

text \<open>What an operation on a tree leaves alone: every page that is not the tree's.\<close>

definition others_kept :: "'s \<Rightarrow> 's \<Rightarrow> ptree \<Rightarrow> bool" where
  "others_kept s s' t \<longleftrightarrow> (\<forall>p. p < npages s \<and> p \<notin> set (pages t) \<longrightarrow> view s' p = view s p)"

lemma tree_insert_ok:
  assumes "is_tree ps h T s t" and "h < fuel" and "int64 key" and "length v \<le> MAX_VALUE_SIZE"
    and "int (npages s) + int h + 1 < NO_PAGE" and "48 \<le> ps" and "ps \<le> cap"
    and "ps = cap \<or> (\<forall>c \<in> set ((key, v) # cells t). small_cell ps c)"
  shows "if key \<in> keys_of t
         then \<exists>s'. tree_insert st ps fuel (proot t) key v s = (Inl (DuplicateKey key), s') \<and> same T s s'
         else (\<exists>s' t' h'. tree_insert st ps fuel (proot t) key v s = (Inr (proot t'), s') \<and>
                 is_tree ps h' T s' t' \<and> cells t' = ins_cells key v (cells t) \<and> h' \<le> Suc h \<and>
                 others_kept s s' t \<and> set (pages t') \<subseteq> set (pages t) \<union> {npages s..<npages s'} \<and>
                 npages s \<le> npages s' \<and> npages s' \<le> npages s + h + 2) \<or>
              (\<exists>s'. tree_insert st ps fuel (proot t) key v s = (Inl ValueError, s') \<and>
                 \<not> (\<forall>c \<in> set ((key, v) # cells t). small_cell ps c))"
proof -
  have I: "ok T s" "tree_at (view s) ps h t None" "clean_pages T s (set (pages t))"
    using assms(1) by (simp_all add: is_tree_def)
  have np: "int (npages s) + int h < NO_PAGE" using assms(5) by simp
  have no: "case None of None \<Rightarrow> True | Some p \<Rightarrow> int p < NO_PAGE" by simp
  note K = ins_ok[OF I assms(2-4) np no assms(6-8)]
  have ti: "tree_insert st ps fuel (proot t) key v s =
      bindP (ins st ps fuel (proot t) key v) (\<lambda>r. case r of None \<Rightarrow> ret (proot t)
      | Some (sep, right) \<Rightarrow> bindP (st_alloc st) (\<lambda>n.
          bindP (write_node st n (Internal [sep] [proot t, right])) (\<lambda>_. ret n))) s"
    using assms(4) by (simp add: tree_insert_def)
  show ?thesis
  proof (cases "key \<in> keys_of t")
    case True
    then obtain s1 where "ins st ps fuel (proot t) key v s = (Inl (DuplicateKey key), s1)" "same T s s1"
      using K by auto
    then show ?thesis using True ti by (simp add: bindP_app)
  next
    case False
    then consider (fin) s1 ts js where "ins_result (ins st ps fuel (proot t) key v s) t ts js s1"
        "ins_done ps h t None key v T s ts js s1"
      | (err) s1 where "ins st ps fuel (proot t) key v s = (Inl ValueError, s1)"
        "\<not> (\<forall>c \<in> set ((key, v) # cells t). small_cell ps c)"
      using K by (simp only: if_False) blast
    then show ?thesis
    proof cases
      case err
      then show ?thesis using False ti by (auto simp: bindP_app)
    next
      case fin
      note D = fin(2)[unfolded ins_done_def]
      have D1: "fpages ts \<subseteq> set (pages t) \<union> {npages s..<npages s1}" "ok T s1" "npages s \<le> npages s1"
        "npages s1 \<le> npages s + Suc h" "fcells ts = ins_cells key v (cells t)"
        "forest_at (view s1) ps h ts js None"
        "\<And>p. p \<notin> set (pages t) \<Longrightarrow> p < npages s \<Longrightarrow> view s1 p = view s p"
        using D by blast+
      have fresh: "p < npages s1" "p \<notin> T" if "p \<in> fpages ts" for p
        using D1(1,3) I(3) that ok_bound[OF I(1), of p] by (fastforce simp: clean_pages_def)+
      from fin(1)[unfolded ins_result_def] show ?thesis
      proof (elim disjE exE conjE)
        fix t1 assume A: "ins st ps fuel (proot t) key v s = (Inr None, s1)" "ts = [t1]" "js = []" "proot t1 = proot t"
        have "is_tree ps h T s1 t1" using D1(2,6) fresh A by (auto simp: is_tree_def clean_pages_def)
        then show ?thesis
          using False ti A D1 unfolding others_kept_def
          by (intro impI disjI1 exI[of _ s1] exI[of _ t1] exI[of _ h] | simp add: bindP_app)+
      next
        fix t1 t2 sep assume A: "ins st ps fuel (proot t) key v s = (Inr (Some (sep, proot t2)), s1)"
          "ts = [t1, t2]" "js = [sep]" "proot t1 = proot t"
        let ?nd = "Internal [sep] [proot t1, proot t2]" and ?n = "npages s1"
        obtain s2 where s2: "st_alloc st s1 = (Inr ?n, s2)" "ok T s2" "npages s2 = Suc ?n"
          "\<And>p. p \<noteq> ?n \<Longrightarrow> view s2 p = view s1 p"
          using alloc_law[OF D1(2)] by blast
        have r12: "proot t1 \<in> fpages ts" "proot t2 \<in> fpages ts" using A(2) by simp_all
        have "int p < 2 ^ 32" if "p \<in> fpages ts" for p
          using fresh(1)[OF that] D1(4) assms(5) by (simp add: NO_PAGE_def)
        moreover have "int64 sep" using D1(6) A(3) by (simp add: forest_at_def)
        ultimately have nok: "node_ok ?nd" using r12 by (intro node_ok_internal) auto
        have "?n < npages s2" "node_size ?nd \<le> cap" using s2(3) assms(6,7) by simp_all
        then obtain s3 where s3: "write_node st ?n ?nd s2 = (Inr (), s3)" "ok (T - {?n}) s3"
          "view s3 = (view s2)(?n \<mapsto> ?nd)" "npages s3 = npages s2"
          using write_node_ok[OF s2(2) _ nok] by blast
        have T: "T - {?n} = T" using ok_bound[OF D1(2), of ?n] by auto
        let ?t = "PNode ?n [sep] [t1, t2]"
        have nf: "?n \<notin> fpages [t1, t2]" using fresh A(2) by blast
        have "view s3 p = view s1 p" if "p \<in> fpages ts" for p
          using s3(3) s2(4) nf A(2) that by auto
        then have F3: "forest_at (view s3) ps h [t1, t2] [sep] None"
          using forest_frame[of ts "view s3" "view s1" ps h js None] D1(6) A(2,3) by blast
        have F: "tree_at (view s3) ps (Suc h) ?t None"
          by (rule forest_node[OF F3]) (use s3(3) nf assms(6) in auto)
        have "\<forall>p \<in> set (pages ?t). p < npages s3 \<and> p \<notin> T"
          using fresh A(2) s3(4) s2(3) T by fastforce
        then have "is_tree ps (Suc h) T s3 ?t" using F s3(2) T by (simp add: is_tree_def clean_pages_def)
        moreover have "tree_insert st ps fuel (proot t) key v s = (Inr (proot ?t), s3)"
          using ti A s2(1) s3(1) by (simp add: bindP_app)
        moreover have "cells ?t = ins_cells key v (cells t)" using D1(5) A(2) by simp
        moreover have "others_kept s s3 t"
          using D1(3,7) s3(3) s2(4) by (auto simp: others_kept_def)
        moreover have "set (pages ?t) \<subseteq> set (pages t) \<union> {npages s..<npages s3}"
          using D1(1,3) A(2) s3(4) s2(3) by auto
        moreover have "npages s \<le> npages s3" "npages s3 \<le> npages s + h + 2"
          using D1(3,4) s3(4) s2(3) by simp_all
        ultimately show ?thesis using False by (metis le_refl)
      qed
    qed
  qed
qed

end

end
