(* ===== verification/TreeDelete.thy ===== *)
theory TreeDelete
  imports TreeInsert
begin

text \<open>
  Deletion from the B+ tree with borrowing and merging, proved against the page store
  interface. A deletion may leave the root of a subtree without keys; such a subtree is
  \<open>weak\<close>, and rebalancing its parent's children makes the forest whole again.
\<close>

section \<open>Page sizes and rows for which rebalancing fits\<close>

definition page_size_ok :: "nat \<Rightarrow> bool" where
  "page_size_ok ps \<longleftrightarrow> ps = 160 \<or> 186 \<le> ps"

text \<open>A leaf with a single cell of this size cannot spare it.\<close>

definition spare_cell :: "nat \<Rightarrow> cell \<Rightarrow> bool" where
  "spare_cell ps c \<longleftrightarrow> 9 + cell_size c \<le> min_bytes ps + 64"

lemma page_size_leaf: "page_size_ok ps \<Longrightarrow> 2 * min_bytes ps + 54 \<le> ps"
  unfolding page_size_ok_def min_bytes_def by auto

lemma page_size_internal:
  assumes "page_size_ok ps" and "13 + 12 * a \<le> min_bytes ps + 64" and "13 + 12 * b < min_bytes ps"
  shows "13 + 12 * (a + b + 1) \<le> ps"
proof (cases "ps = 160")
  case True
  then have "a \<le> 8" "b \<le> 3" using assms(2,3) by (auto simp: min_bytes_def)
  then show ?thesis using True by simp
next
  case False
  then show ?thesis using assms unfolding page_size_ok_def min_bytes_def by auto
qed

lemma min_bytes_ge: "page_size_ok ps \<Longrightarrow> 53 \<le> min_bytes ps"
  by (auto simp: page_size_ok_def min_bytes_def)

section \<open>Forests apart from their trees\<close>

definition skel :: "view \<Rightarrow> ptree list \<Rightarrow> int list \<Rightarrow> nat option \<Rightarrow> bool" where
  "skel v ts ks nx \<longleftrightarrow>
     length ts = Suc (length ks) \<and> (\<forall>k \<in> set ks. int64 k) \<and> chain v (concat (map leaves ts)) nx \<and>
     sorted_wrt (<) (inter ks (map flat ts)) \<and> distinct (concat (map pages ts))"

lemma forest_skel: "forest_at v ps h ts ks nx \<longleftrightarrow> skel v ts ks nx \<and> (\<forall>t \<in> set ts. subtree_ok v ps h t)"
  by (auto simp: forest_at_def skel_def)

definition hull0 :: "int list \<Rightarrow> int list \<Rightarrow> bool" where
  "hull0 old new \<longleftrightarrow> (\<forall>m. hull_ok m old new)"

lemma hull0_bounds:
  assumes "hull0 old new"
  shows "\<And>a. \<forall>x \<in> set old. a < x \<Longrightarrow> \<forall>x \<in> set new. a < x"
    and "\<And>b. \<forall>x \<in> set old. x < b \<Longrightarrow> \<forall>x \<in> set new. x < b"
proof -
  fix a assume "\<forall>x \<in> set old. a < x"
  moreover have "hull_ok (a + 1) old new" using assms by (simp add: hull0_def)
  ultimately show "\<forall>x \<in> set new. a < x" unfolding hull_ok_def by (metis less_add_one)
next
  fix b assume "\<forall>x \<in> set old. x < b"
  moreover have "hull_ok (b - 1) old new" using assms by (simp add: hull0_def)
  moreover have "b - 1 < b" by simp
  ultimately show "\<forall>x \<in> set new. x < b" unfolding hull_ok_def by blast
qed

lemma hull0_I:
  assumes "\<And>a. \<forall>x \<in> set old. a < x \<Longrightarrow> \<forall>x \<in> set new. a < x"
    and "\<And>b. \<forall>x \<in> set old. x < b \<Longrightarrow> \<forall>x \<in> set new. x < b"
  shows "hull0 old new"
  using assms by (simp add: hull0_def hull_ok_def)

lemma hull0_refl [simp]: "hull0 xs xs"
  by (simp add: hull0_def hull_ok_def)

lemma hull0_subset: "set new \<subseteq> set old \<Longrightarrow> hull0 old new"
  by (auto simp: hull0_def hull_ok_def)

lemma hull0_trans:
  assumes "hull0 a b" and "hull0 b c"
  shows "hull0 a c"
proof (rule hull0_I)
  fix x assume "\<forall>y \<in> set a. x < y"
  from hull0_bounds(1)[OF assms(2) hull0_bounds(1)[OF assms(1) this]] show "\<forall>y \<in> set c. x < y" .
next
  fix x assume "\<forall>y \<in> set a. y < x"
  from hull0_bounds(2)[OF assms(2) hull0_bounds(2)[OF assms(1) this]] show "\<forall>y \<in> set c. y < x" .
qed

lemma hull0_mid: "hull0 old new \<Longrightarrow> hull0 (A @ old @ B) (A @ new @ B)"
  by (simp add: hull0_def hull_ok_mid)

lemma sorted_replace0:
  assumes "sorted_wrt (<) (A @ old @ B)" and "sorted_wrt (<) new" and "hull0 old new" and "old \<noteq> [] \<or> new = []"
  shows "sorted_wrt (<) (A @ new @ B)"
proof -
  have "\<forall>a \<in> set A. \<forall>x \<in> set new. a < x"
    using assms(1) hull0_bounds(1)[OF assms(3)] by (metis Un_iff set_append sorted_wrt_append)
  moreover have "\<forall>b \<in> set B. \<forall>x \<in> set new. x < b"
    using assms(1) hull0_bounds(2)[OF assms(3)] by (metis sorted_wrt_append)
  ultimately show ?thesis using assms(1,2) by (auto simp: sorted_wrt_append)
qed

lemma skel_parts:
  assumes "skel v (l @ os @ r) (kl @ ko @ kr) nx" and "length kl = length l" and "length os = Suc (length ko)"
  shows "skel v os ko (next_of (concat (map leaves r)) nx)"
    and "inter (kl @ ko @ kr) (map flat (l @ os @ r)) =
         before kl (map flat l) @ inter ko (map flat os) @ after kr (map flat r)"
proof -
  show i: "inter (kl @ ko @ kr) (map flat (l @ os @ r)) =
      before kl (map flat l) @ inter ko (map flat os) @ after kr (map flat r)"
    using inter_forest[of kl "map flat l" "map flat os" ko kr "map flat r"] assms(2,3) by simp
  show "skel v os ko (next_of (concat (map leaves r)) nx)"
    using assms i by (auto simp: skel_def sorted_wrt_append)
qed

lemma skel_replace:
  assumes S: "skel v (l @ os @ r) (kl @ ko @ kr) nx" "length kl = length l" "length os = Suc (length ko)"
    and N: "skel v' us js (next_of (concat (map leaves r)) nx)"
    and fr: "\<And>n. n \<in> fpages l \<union> fpages r \<Longrightarrow> v' n = v n"
    and pg: "fpages us \<subseteq> fpages os"
    and nxt: "\<And>y. next_of (concat (map leaves us)) y = next_of (concat (map leaves os)) y"
    and hull: "hull0 (inter ko (map flat os)) (inter js (map flat us))"
  shows "skel v' (l @ us @ r) (kl @ js @ kr) nx"
    and "hull0 (inter (kl @ ko @ kr) (map flat (l @ os @ r))) (inter (kl @ js @ kr) (map flat (l @ us @ r)))"
proof -
  have lus: "length us = Suc (length js)" using N by (simp add: skel_def)
  note old = skel_parts(2)[OF S]
  have new: "inter (kl @ js @ kr) (map flat (l @ us @ r)) =
      before kl (map flat l) @ inter js (map flat us) @ after kr (map flat r)"
    using inter_forest[of kl "map flat l" "map flat us" js kr "map flat r"] S(2) lus by simp
  have "inter ko (map flat os) \<noteq> [] \<or> inter js (map flat us) = []"
  proof (rule ccontr)
    assume A: "\<not> ?thesis"
    then obtain x where x: "x \<in> set (inter js (map flat us))" by (meson list.set_sel(1))
    have "\<forall>y \<in> set (inter js (map flat us)). x < y" using A hull0_bounds(1)[OF hull] by simp
    then show False using x by blast
  qed
  then have sorted: "sorted_wrt (<) (inter (kl @ js @ kr) (map flat (l @ us @ r)))"
    unfolding new using S N old by (intro sorted_replace0[OF _ _ hull]) (simp_all add: skel_def)
  have chain: "chain v' (concat (map leaves (l @ us @ r))) nx"
  proof -
    have "chain v (concat (map leaves l)) (next_of (concat (map leaves os)) (next_of (concat (map leaves r)) nx))"
      "chain v (concat (map leaves r)) nx"
      using S(1) by (simp_all add: skel_def)
    moreover have "chain v' (concat (map leaves us)) (next_of (concat (map leaves r)) nx)"
      using N by (simp add: skel_def)
    ultimately show ?thesis
      using nxt chain_frame_pages[of l v' v] chain_frame_pages[of r v' v] fr by simp
  qed
  have "distinct (concat (map pages (l @ us @ r)))"
    using S(1) N pg unfolding skel_def fpages_def map_append concat_append distinct_append set_append by blast
  then show "skel v' (l @ us @ r) (kl @ js @ kr) nx"
    using S N chain sorted lus by (auto simp: skel_def)
  show "hull0 (inter (kl @ ko @ kr) (map flat (l @ os @ r))) (inter (kl @ js @ kr) (map flat (l @ us @ r)))"
    unfolding old new by (rule hull0_mid[OF hull])
qed

lemma forest_refill:
  assumes "skel v (l @ os @ r) (kl @ ko @ kr) nx" and "length kl = length l" and "length os = Suc (length ko)"
    and ok: "\<forall>t \<in> set (l @ r). subtree_ok v ps h t"
    and F: "forest_at v' ps h us js (next_of (concat (map leaves r)) nx)"
    and fr: "\<And>n. n \<in> fpages l \<union> fpages r \<Longrightarrow> v' n = v n"
    and "fpages us \<subseteq> fpages os"
    and "\<And>y. next_of (concat (map leaves us)) y = next_of (concat (map leaves os)) y"
    and "hull0 (inter ko (map flat os)) (inter js (map flat us))"
  shows "forest_at v' ps h (l @ us @ r) (kl @ js @ kr) nx"
proof -
  have S: "skel v' us js (next_of (concat (map leaves r)) nx)" and us: "\<forall>t \<in> set us. subtree_ok v' ps h t"
    using F by (simp_all add: forest_skel)
  have "subtree_ok v' ps h t" if "t \<in> set (l @ r)" for t
  proof -
    have "set (pages t) \<subseteq> fpages l \<union> fpages r" using that by (auto simp: fpages_def)
    then show ?thesis using subtree_frame[of t v' v] fr ok that by blast
  qed
  then show ?thesis
    using skel_replace(1)[OF assms(1-3) S fr assms(7-9)] us by (auto simp: forest_skel)
qed

section \<open>Weak subtrees\<close>

definition weak_ok :: "view \<Rightarrow> nat \<Rightarrow> nat \<Rightarrow> ptree \<Rightarrow> bool" where
  "weak_ok v ps h t \<longleftrightarrow> inner v t \<and> bal h t \<and> sized ps t \<and> keys64 t \<and>
     (case t of PLeaf n cs \<Rightarrow> True | PNode n ks ts \<Rightarrow> \<forall>t \<in> set ts. keyed t)"

lemma subtree_weak: "subtree_ok v ps h t \<Longrightarrow> weak_ok v ps h t"
  by (auto simp: subtree_ok_def weak_ok_def split: ptree.splits)

lemma weak_subtree: "weak_ok v ps h t \<Longrightarrow> keyed t \<Longrightarrow> subtree_ok v ps h t"
  by (auto simp: subtree_ok_def weak_ok_def)

lemma weak_frame:
  "(\<And>n. n \<in> set (pages t) \<Longrightarrow> v' n = v n) \<Longrightarrow> weak_ok v' ps h t \<longleftrightarrow> weak_ok v ps h t"
  using inner_frame[of t v' v] by (simp add: weak_ok_def)

text \<open>The node that a tree's root page holds.\<close>

fun root_node :: "ptree \<Rightarrow> nat option \<Rightarrow> node" where
  "root_node (PLeaf n cs) nx = Leaf cs nx"
| "root_node (PNode n ks ts) nx = Internal ks (map proot ts)"

definition root_size :: "ptree \<Rightarrow> nat" where
  "root_size t = node_size (root_node t None)"

lemma root_size_simps [simp]:
  "root_size (PLeaf n cs) = 9 + cells_size cs"
  "root_size (PNode n ks ts) = 9 + 8 * length ks + 4 * length ts"
  by (simp_all add: root_size_def)

lemma node_size_root [simp]: "node_size (root_node t nx) = root_size t"
  by (cases t) auto

lemma root_size_le: "weak_ok v ps h t \<Longrightarrow> root_size t \<le> ps"
  by (cases t) (auto simp: weak_ok_def)

lemma root_view:
  assumes "skel v (l @ t # r) ks nx" and "inner v t"
  shows "v (proot t) = Some (root_node t (next_of (concat (map leaves r)) nx))"
  using assms by (cases t) (auto simp: skel_def)

text \<open>The subtree is so small that it must be rebalanced.\<close>

definition weak_root :: "nat \<Rightarrow> ptree \<Rightarrow> bool" where
  "weak_root ps t \<longleftrightarrow>
     (case t of PLeaf n cs \<Rightarrow> cs = [] | PNode n ks ts \<Rightarrow> length ts < 2) \<or> root_size t < min_bytes ps"

lemma weak_root_size: "page_size_ok ps \<Longrightarrow> bal h t \<Longrightarrow> weak_root ps t \<Longrightarrow> root_size t < min_bytes ps"
  using min_bytes_ge[of ps] by (cases t) (auto simp: weak_root_def split: nat.splits)

lemma not_weak_keyed: "weak_ok v ps h t \<Longrightarrow> \<not> weak_root ps t \<Longrightarrow> keyed t"
  by (cases t) (auto simp: weak_root_def weak_ok_def split: nat.splits)

section \<open>Refitting a forest\<close>

definition refit :: "nat \<Rightarrow> nat \<Rightarrow> ptree list \<Rightarrow> int list \<Rightarrow> view \<Rightarrow> ptree list \<Rightarrow> int list \<Rightarrow> nat option \<Rightarrow> bool" where
  "refit ps h os ko v us js nx \<longleftrightarrow>
     forest_at v ps h us js nx \<and> fcells us = fcells os \<and> fpages us \<subseteq> fpages os \<and>
     (\<forall>y. next_of (concat (map leaves us)) y = next_of (concat (map leaves os)) y) \<and>
     hull0 (inter ko (map flat os)) (inter js (map flat us))"

lemma refit_frame:
  assumes "refit ps h os ko v us js nx" and "\<And>n. n \<in> fpages us \<Longrightarrow> v' n = v n"
  shows "refit ps h os ko v' us js nx"
proof -
  have "forest_at v' ps h us js nx \<longleftrightarrow> forest_at v ps h us js nx" by (rule forest_frame) (rule assms(2))
  then show ?thesis using assms(1) by (simp add: refit_def)
qed

lemma refit_context:
  assumes S: "skel v (l @ os @ r) (kl @ ko @ kr) nx" "length kl = length l" "length os = Suc (length ko)"
    and ok: "\<forall>t \<in> set (l @ r). subtree_ok v ps h t"
    and R: "refit ps h os ko v' us js (next_of (concat (map leaves r)) nx)"
    and fr: "\<And>n. n \<in> fpages l \<union> fpages r \<Longrightarrow> v' n = v n"
  shows "refit ps h (l @ os @ r) (kl @ ko @ kr) v' (l @ us @ r) (kl @ js @ kr) nx"
proof -
  note R' = R[unfolded refit_def]
  have F: "forest_at v' ps h us js (next_of (concat (map leaves r)) nx)" and pg: "fpages us \<subseteq> fpages os"
    and nxt: "\<And>y. next_of (concat (map leaves us)) y = next_of (concat (map leaves os)) y"
    and hull: "hull0 (inter ko (map flat os)) (inter js (map flat us))"
    and cs: "fcells us = fcells os"
    using R' by blast+
  have sk: "skel v' us js (next_of (concat (map leaves r)) nx)" using F by (simp add: forest_skel)
  have "forest_at v' ps h (l @ us @ r) (kl @ js @ kr) nx"
    by (rule forest_refill[OF S ok F fr pg nxt hull])
  moreover have "hull0 (inter (kl @ ko @ kr) (map flat (l @ os @ r))) (inter (kl @ js @ kr) (map flat (l @ us @ r)))"
    by (rule skel_replace(2)[OF S sk fr pg nxt hull])
  moreover have "fpages (l @ us @ r) \<subseteq> fpages (l @ os @ r)" using pg by auto
  ultimately show ?thesis using nxt cs by (simp add: refit_def)
qed

lemma rot_leaf:
  assumes S: "skel v [PLeaf n cs, PLeaf m ds] [sep] nx"
    and K: "\<forall>c \<in> set (cs @ ds). int64 (fst c)"
    and E: "cs' @ ds' = cs @ ds" "cs' \<noteq> []" "ds' \<noteq> []"
    and sz: "9 + cells_size cs' \<le> ps" "9 + cells_size ds' \<le> ps"
  shows "refit ps 0 [PLeaf n cs, PLeaf m ds] [sep] (v(n \<mapsto> Leaf cs' (Some m), m \<mapsto> Leaf ds' nx))
           [PLeaf n cs', PLeaf m ds'] [fst (hd ds')] nx"
proof -
  let ?k = "fst (hd ds')" and ?v = "v(n \<mapsto> Leaf cs' (Some m), m \<mapsto> Leaf ds' nx)"
  have old: "sorted_wrt (<) (map key_mark cs @ 2 * sep # map key_mark ds)" "n \<noteq> m"
    using S by (simp_all add: skel_def inter_def)
  then have "sorted_wrt (<) (map key_mark (cs @ ds))" by (simp add: sorted_wrt_append)
  then have srt: "sorted_wrt (<) (map key_mark (cs' @ ds'))" using E(1) by simp
  obtain d ds1 where ds': "ds' = d # ds1" using E(3) by (cases ds') auto
  have lt: "key_mark c < 2 * ?k" if "c \<in> set cs'" for c
  proof -
    have "key_mark c < key_mark d" using srt that ds' by (simp add: sorted_wrt_append)
    then have "fst c < fst d" by (simp only: key_mark_less)
    then show ?thesis using ds' by (simp add: key_mark_def)
  qed
  have gt: "2 * ?k < key_mark e" if "e \<in> set ds'" for e
  proof -
    have "e = d \<or> key_mark d < key_mark e" using srt that ds' by (auto simp: sorted_wrt_append)
    then show ?thesis using ds' by (auto simp: key_mark_def)
  qed
  have sorted: "sorted_wrt (<) (map key_mark cs' @ 2 * ?k # map key_mark ds')"
    using srt lt gt by (fastforce simp: sorted_wrt_append)
  have marks: "key_mark ` set cs' \<union> key_mark ` set ds' = key_mark ` set cs \<union> key_mark ` set ds"
    by (metis E(1) image_Un set_append)
  have hull: "hull0 (map key_mark cs @ 2 * sep # map key_mark ds) (map key_mark cs' @ 2 * ?k # map key_mark ds')"
  proof (rule hull0_I)
    fix a assume a: "\<forall>x \<in> set (map key_mark cs @ 2 * sep # map key_mark ds). a < x"
    then have "\<forall>x \<in> key_mark ` set cs' \<union> key_mark ` set ds'. a < x" using marks by auto
    moreover have "a < 2 * ?k" using calculation lt E(2) by (metis UnI1 image_eqI list.set_sel(1) order.strict_trans)
    ultimately show "\<forall>x \<in> set (map key_mark cs' @ 2 * ?k # map key_mark ds'). a < x" by auto
  next
    fix b assume b: "\<forall>x \<in> set (map key_mark cs @ 2 * sep # map key_mark ds). x < b"
    then have "\<forall>x \<in> key_mark ` set cs' \<union> key_mark ` set ds'. x < b" using marks by auto
    moreover have "2 * ?k < b" using calculation gt E(3) by (metis UnI2 image_eqI list.set_sel(1) order.strict_trans)
    ultimately show "\<forall>x \<in> set (map key_mark cs' @ 2 * ?k # map key_mark ds'). x < b" by auto
  qed
  have K': "\<forall>c \<in> set (cs' @ ds'). int64 (fst c)" using K E(1) by simp
  then have "int64 ?k" using ds' by simp
  then have "forest_at ?v ps 0 [PLeaf n cs', PLeaf m ds'] [?k] nx"
    using sorted sz old(2) K' by (simp add: forest_at_def subtree_ok_def inter_def)
  then show ?thesis using hull E by (simp add: refit_def inter_def)
qed

lemma merge_leaf:
  assumes S: "skel v [PLeaf n cs, PLeaf m ds] [sep] nx"
    and K: "\<forall>c \<in> set (cs @ ds). int64 (fst c)" and sz: "9 + cells_size (cs @ ds) \<le> ps"
  shows "refit ps 0 [PLeaf n cs, PLeaf m ds] [sep] (v(n \<mapsto> Leaf (cs @ ds) nx)) [PLeaf n (cs @ ds)] [] nx"
proof -
  have "sorted_wrt (<) (map key_mark cs @ 2 * sep # map key_mark ds)"
    using S by (simp add: skel_def inter_def)
  then have "sorted_wrt (<) (map key_mark (cs @ ds))" by (simp add: sorted_wrt_append)
  moreover have "hull0 (map key_mark cs @ 2 * sep # map key_mark ds) (map key_mark (cs @ ds))"
    by (rule hull0_subset) auto
  ultimately show ?thesis using K sz by (simp add: refit_def inter_def forest_at_def subtree_ok_def)
qed

text \<open>Two inner neighbours are one forest of their children.\<close>

lemma pair_forest:
  assumes S: "skel v [PNode n ks ts, PNode m js us] [sep] nx"
    and W: "weak_ok v ps (Suc h) (PNode n ks ts)" "weak_ok v ps (Suc h) (PNode m js us)"
  shows "forest_at v ps h (ts @ us) (ks @ sep # js) nx"
    "inter (ks @ sep # js) (map flat (ts @ us)) = inter [sep] [flat (PNode n ks ts), flat (PNode m js us)]"
    "n \<notin> fpages (ts @ us)" "m \<notin> fpages (ts @ us)" "n \<noteq> m" "length ts = Suc (length ks)" "length us = Suc (length js)"
proof -
  show len: "length ts = Suc (length ks)" "length us = Suc (length js)"
    using W by (simp_all add: weak_ok_def)
  show i: "inter (ks @ sep # js) (map flat (ts @ us)) = inter [sep] [flat (PNode n ks ts), flat (PNode m js us)]"
    using inter_join[of "map flat ts" ks "map flat us" js sep] len by (simp add: inter_def)
  show "n \<notin> fpages (ts @ us)" "m \<notin> fpages (ts @ us)" "n \<noteq> m"
    using S by (auto simp: skel_def fpages_def)
  have "\<forall>t \<in> set (ts @ us). subtree_ok v ps h t"
    using W by (auto simp: weak_ok_def subtree_ok_def)
  moreover have "skel v (ts @ us) (ks @ sep # js) nx"
    using S W len i by (auto simp: skel_def weak_ok_def inter_def)
  ultimately show "forest_at v ps h (ts @ us) (ks @ sep # js) nx" by (simp add: forest_skel)
qed

lemma rot_node:
  assumes S: "skel v [PNode n ks ts, PNode m js us] [sep] nx"
    and W: "weak_ok v ps (Suc h) (PNode n ks ts)" "weak_ok v ps (Suc h) (PNode m js us)"
    and E: "ts' @ us' = ts @ us" "ks' @ sep' # js' = ks @ sep # js" "length ts' = Suc (length ks')"
      "ks' \<noteq> []" "js' \<noteq> []"
    and sz: "9 + 8 * length ks' + 4 * length ts' \<le> ps" "9 + 8 * length js' + 4 * length us' \<le> ps"
  shows "refit ps (Suc h) [PNode n ks ts, PNode m js us] [sep]
           (v(n \<mapsto> Internal ks' (map proot ts'), m \<mapsto> Internal js' (map proot us')))
           [PNode n ks' ts', PNode m js' us'] [sep'] nx"
proof -
  note P = pair_forest[OF S W]
  let ?v = "v(n \<mapsto> Internal ks' (map proot ts'), m \<mapsto> Internal js' (map proot us'))"
  have len: "length us' = Suc (length js')"
  proof -
    have "length ts' + length us' = length ts + length us" "length ks' + length js' = length ks + length js"
      using arg_cong[OF E(1), of length] arg_cong[OF E(2), of length] by simp_all
    then show ?thesis using E(3) P(6,7) by simp
  qed
  have "forest_at ?v ps h (ts' @ us') (ks' @ sep' # js') nx"
    unfolding E(1,2)
  proof (rule forest_frame[THEN iffD2])
    show "?v p = v p" if "p \<in> fpages (ts @ us)" for p using that P(3,4) by auto
  qed (rule P(1))
  then have F: "forest_at ?v ps (Suc h) [PNode n ks' ts', PNode m js' us'] [sep'] nx"
    by (rule forest_split_node) (use P(3-5) E len sz in auto)
  have "inter [sep'] [flat (PNode n ks' ts'), flat (PNode m js' us')] =
      inter (ks' @ sep' # js') (map flat (ts' @ us'))"
    using inter_join[of "map flat ts'" ks' "map flat us'" js' sep'] E(3) len by (simp add: inter_def)
  also have "\<dots> = inter [sep] [flat (PNode n ks ts), flat (PNode m js us)]" using P(2) E(1,2) by simp
  finally have I: "inter [sep'] [flat (PNode n ks' ts'), flat (PNode m js' us')] =
      inter [sep] [flat (PNode n ks ts), flat (PNode m js us)]" .
  have "fcells (ts' @ us') = fcells (ts @ us)" "fpages (ts' @ us') = fpages (ts @ us)"
    "concat (map leaves (ts' @ us')) = concat (map leaves (ts @ us))"
    using E(1) by simp_all
  then show ?thesis using F I by (auto simp: refit_def fcells_def fpages_def)
qed

lemma merge_node:
  assumes S: "skel v [PNode n ks ts, PNode m js us] [sep] nx"
    and W: "weak_ok v ps (Suc h) (PNode n ks ts)" "weak_ok v ps (Suc h) (PNode m js us)"
    and sz: "9 + 8 * length (ks @ sep # js) + 4 * length (ts @ us) \<le> ps"
  shows "refit ps (Suc h) [PNode n ks ts, PNode m js us] [sep]
           (v(n \<mapsto> Internal (ks @ sep # js) (map proot (ts @ us)))) [PNode n (ks @ sep # js) (ts @ us)] [] nx"
proof -
  note P = pair_forest[OF S W]
  let ?v = "v(n \<mapsto> Internal (ks @ sep # js) (map proot (ts @ us)))"
  have "forest_at ?v ps h (ts @ us) (ks @ sep # js) nx"
  proof (rule forest_frame[THEN iffD2])
    show "?v p = v p" if "p \<in> fpages (ts @ us)" for p using that P(3) by auto
  qed (rule P(1))
  then have F: "forest_at ?v ps (Suc h) [PNode n (ks @ sep # js) (ts @ us)] [] nx"
    by (rule forest_node) (use P(3) sz in auto)
  have I: "inter [] [flat (PNode n (ks @ sep # js) (ts @ us))] =
      inter [sep] [flat (PNode n ks ts), flat (PNode m js us)]"
    using P(2) by simp
  show ?thesis using F unfolding refit_def list.map I by (auto simp: fcells_def fpages_def)
qed

section \<open>Borrowing\<close>

definition page_link :: "nat option \<Rightarrow> bool" where
  "page_link nx \<longleftrightarrow> (case nx of None \<Rightarrow> True | Some p \<Rightarrow> int p < NO_PAGE)"

lemma page_link_simps [simp]: "page_link None" "page_link (Some p) \<longleftrightarrow> int p < NO_PAGE"
  by (simp_all add: page_link_def)

lemma page_link_next:
  assumes "page_link nx" and "\<forall>p \<in> fpages r. int p < NO_PAGE"
  shows "page_link (next_of (concat (map leaves r)) nx)"
  using next_page_ok[of nx r] assms unfolding page_link_def by blast

lemma node_ok_root:
  assumes "sized ps t" and "keys64 t" and "ps \<le> 65536" and "\<forall>p \<in> set (pages t). int p < NO_PAGE"
    and "page_link nx"
  shows "node_ok (root_node t nx)"
proof (cases t)
  case (PLeaf n cs)
  then have "node_ok (Leaf cs nx)"
    using assms by (intro node_ok_leaf) (auto simp: page_link_def)
  then show ?thesis using PLeaf by simp
next
  case (PNode n ks ts)
  have "int p < 2 ^ 32" if "p \<in> set (map proot ts)" for p
  proof -
    have "p \<in> set (pages t)" using that proots_in_pages[of ts] PNode by (auto simp: fpages_def)
    then have "int p < NO_PAGE" using assms(4) by blast
    then show ?thesis by (simp add: NO_PAGE_def)
  qed
  then have "node_ok (Internal ks (map proot ts))"
    using assms PNode by (intro node_ok_internal) auto
  then show ?thesis using PNode by simp
qed

context page_store
begin

lemma mut_same:
  assumes "same T s s1" and "n < npages s"
  shows "\<exists>s2. st_mut st n nd s1 = (Inr (), s2) \<and> same (insert n T) s s2"
  using mut_law[of T s1 n nd] assms by (auto simp: same_def)

lemma borrow_left_leaf:
  assumes S: "same T s s1" and pg: "pn < npages s" "lp < npages s" "cp < npages s"
    and ne: "lc \<noteq> []" and i: "i - 1 < length ks"
  shows "\<exists>s2. borrow_from_left st pn lp cp ks ch i (Leaf lc ln) (Leaf cc cn) s1 =
           (Inr (ks[i - 1 := fst (last lc)], Leaf (butlast lc) ln, Leaf (last lc # cc) cn), s2) \<and>
           same (insert pn (insert cp (insert lp T))) s s2"
proof -
  obtain a where a: "st_mut st lp (Leaf (butlast lc) ln) s1 = (Inr (), a)" "same (insert lp T) s a"
    using mut_same[OF S pg(2)] by blast
  obtain b where b: "st_mut st cp (Leaf (last lc # cc) cn) a = (Inr (), b)" "same (insert cp (insert lp T)) s b"
    using mut_same[OF a(2) pg(3)] by blast
  obtain c where c: "st_mut st pn (Internal (ks[i - 1 := fst (last lc)]) ch) b = (Inr (), c)"
    "same (insert pn (insert cp (insert lp T))) s c"
    using mut_same[OF b(2) pg(1)] by blast
  show ?thesis using a b c ne i by (simp add: borrow_from_left_def set_at_def Let_def)
qed

lemma borrow_left_node:
  assumes S: "same T s s1" and pg: "pn < npages s" "lp < npages s" "cp < npages s"
    and ne: "lk \<noteq> []" "lch \<noteq> []" and i: "i - 1 < length ks"
  shows "\<exists>s2. borrow_from_left st pn lp cp ks ch i (Internal lk lch) (Internal ck cch) s1 =
           (Inr (ks[i - 1 := last lk], Internal (butlast lk) (butlast lch),
                 Internal (ks ! (i - 1) # ck) (last lch # cch)), s2) \<and>
           same (insert pn (insert cp (insert lp T))) s s2"
proof -
  let ?sep = "ks ! (i - 1)"
  obtain a where a: "st_mut st cp (Internal (?sep # ck) cch) s1 = (Inr (), a)" "same (insert cp T) s a"
    using mut_same[OF S pg(3)] by blast
  obtain b where b: "st_mut st lp (Internal (butlast lk) lch) a = (Inr (), b)" "same (insert lp (insert cp T)) s b"
    using mut_same[OF a(2) pg(2)] by blast
  obtain c where c: "st_mut st pn (Internal (ks[i - 1 := last lk]) ch) b = (Inr (), c)"
    "same (insert pn (insert lp (insert cp T))) s c"
    using mut_same[OF b(2) pg(1)] by blast
  obtain d where d: "st_mut st lp (Internal (butlast lk) (butlast lch)) c = (Inr (), d)"
    "same (insert lp (insert pn (insert lp (insert cp T)))) s d"
    using mut_same[OF c(2) pg(2)] by blast
  obtain e where e: "st_mut st cp (Internal (?sep # ck) (last lch # cch)) d = (Inr (), e)"
    "same (insert cp (insert lp (insert pn (insert lp (insert cp T))))) s e"
    using mut_same[OF d(2) pg(3)] by blast
  have "same (insert pn (insert cp (insert lp T))) s e" using e(2) by (simp add: insert_commute)
  then show ?thesis
    using a(1) b(1) c(1) d(1) e(1) ne i by (simp add: borrow_from_left_def set_at_def nth_err_def Let_def)
qed

lemma borrow_right_leaf:
  assumes S: "same T s s1" and pg: "pn < npages s" "cp < npages s" "rp < npages s"
    and two: "2 \<le> length rc" and i: "i < length ks"
  shows "\<exists>s2. borrow_from_right st pn cp rp ks ch i (Leaf cc cn) (Leaf rc rn) s1 =
           (Inr (ks[i := fst (rc ! 1)], Leaf (cc @ [hd rc]) cn, Leaf (tl rc) rn), s2) \<and>
           same (insert pn (insert cp (insert rp T))) s s2"
proof -
  have ne: "rc \<noteq> []" "0 < length (tl rc)" "tl rc ! 0 = rc ! 1" using two by (cases rc; auto)+
  obtain a where a: "st_mut st rp (Leaf (tl rc) rn) s1 = (Inr (), a)" "same (insert rp T) s a"
    using mut_same[OF S pg(3)] by blast
  obtain b where b: "st_mut st cp (Leaf (cc @ [hd rc]) cn) a = (Inr (), b)" "same (insert cp (insert rp T)) s b"
    using mut_same[OF a(2) pg(2)] by blast
  obtain c where c: "st_mut st pn (Internal (ks[i := fst (rc ! 1)]) ch) b = (Inr (), c)"
    "same (insert pn (insert cp (insert rp T))) s c"
    using mut_same[OF b(2) pg(1)] by blast
  have "nth_err (tl rc) 0 = Inr (rc ! 1)" using ne by (simp add: nth_err_def)
  then show ?thesis using a b c ne(1) i by (simp add: borrow_from_right_def set_at_def Let_def)
qed

lemma borrow_right_node:
  assumes S: "same T s s1" and pg: "pn < npages s" "cp < npages s" "rp < npages s"
    and ne: "rk \<noteq> []" "rch \<noteq> []" and i: "i < length ks"
  shows "\<exists>s2. borrow_from_right st pn cp rp ks ch i (Internal ck cch) (Internal rk rch) s1 =
           (Inr (ks[i := hd rk], Internal (ck @ [ks ! i]) (cch @ [hd rch]), Internal (tl rk) (tl rch)), s2) \<and>
           same (insert pn (insert cp (insert rp T))) s s2"
proof -
  let ?sep = "ks ! i"
  obtain a where a: "st_mut st cp (Internal (ck @ [?sep]) cch) s1 = (Inr (), a)" "same (insert cp T) s a"
    using mut_same[OF S pg(2)] by blast
  obtain b where b: "st_mut st rp (Internal (tl rk) rch) a = (Inr (), b)" "same (insert rp (insert cp T)) s b"
    using mut_same[OF a(2) pg(3)] by blast
  obtain c where c: "st_mut st pn (Internal (ks[i := hd rk]) ch) b = (Inr (), c)"
    "same (insert pn (insert rp (insert cp T))) s c"
    using mut_same[OF b(2) pg(1)] by blast
  obtain d where d: "st_mut st rp (Internal (tl rk) (tl rch)) c = (Inr (), d)"
    "same (insert rp (insert pn (insert rp (insert cp T)))) s d"
    using mut_same[OF c(2) pg(3)] by blast
  obtain e where e: "st_mut st cp (Internal (ck @ [?sep]) (cch @ [hd rch])) d = (Inr (), e)"
    "same (insert cp (insert rp (insert pn (insert rp (insert cp T))))) s e"
    using mut_same[OF d(2) pg(2)] by blast
  have "same (insert pn (insert cp (insert rp T))) s e" using e(2) by (simp add: insert_commute)
  then show ?thesis
    using a(1) b(1) c(1) d(1) e(1) ne i by (simp add: borrow_from_right_def set_at_def nth_err_def Let_def)
qed

lemma write3_ok:
  assumes S: "same U s s1" and pg: "p < npages s" "q < npages s" "r < npages s"
    and ok: "node_ok x" "node_ok y" "node_ok z"
    and sz: "node_size x \<le> cap" "node_size y \<le> cap" "node_size z \<le> cap"
  shows "\<exists>s2. bindP (write_node st p x) (\<lambda>_. bindP (write_node st q y) (\<lambda>_.
             bindP (write_node st r z) (\<lambda>_. ret w))) s1 = (Inr w, s2) \<and>
           ok (U - {p, q, r}) s2 \<and> view s2 = (view s)(p \<mapsto> x, q \<mapsto> y, r \<mapsto> z) \<and> npages s2 = npages s"
proof -
  have S': "ok U s1" "view s1 = view s" "npages s1 = npages s" using S by (simp_all add: same_def)
  obtain a where a: "write_node st p x s1 = (Inr (), a)" "ok (U - {p}) a" "view a = (view s1)(p \<mapsto> x)"
    "npages a = npages s1"
    using write_node_ok[OF S'(1) _ ok(1) sz(1)] pg S' by metis
  obtain b where b: "write_node st q y a = (Inr (), b)" "ok (U - {p} - {q}) b" "view b = (view a)(q \<mapsto> y)"
    "npages b = npages a"
    using write_node_ok[OF a(2) _ ok(2) sz(2)] pg S' a(4) by metis
  obtain c where c: "write_node st r z b = (Inr (), c)" "ok (U - {p} - {q} - {r}) c"
    "view c = (view b)(r \<mapsto> z)" "npages c = npages b"
    using write_node_ok[OF b(2) _ ok(3) sz(3)] pg S' a(4) b(4) by metis
  have "U - {p} - {q} - {r} = U - {p, q, r}" by blast
  then show ?thesis using a b c S' by simp
qed

text \<open>
  The state in which the children \<open>os\<close>, one of them weak, of the node on page \<open>pn\<close> are being
  refitted, and what refitting gives.
\<close>

definition fixing :: "nat \<Rightarrow> nat \<Rightarrow> nat \<Rightarrow> nat set \<Rightarrow> 's \<Rightarrow> ptree list \<Rightarrow> ptree list \<Rightarrow> ptree list \<Rightarrow>
    int list \<Rightarrow> int list \<Rightarrow> int list \<Rightarrow> nat option \<Rightarrow> bool" where
  "fixing ps h pn T s l os r kl ko kr nx \<longleftrightarrow>
     ok T s \<and> skel (view s) (l @ os @ r) (kl @ ko @ kr) nx \<and> length kl = length l \<and>
     length os = Suc (length ko) \<and> (\<forall>t \<in> set (l @ r). subtree_ok (view s) ps h t) \<and>
     (\<forall>t \<in> set os. weak_ok (view s) ps h t) \<and>
     clean_pages T s (insert pn (fpages (l @ os @ r))) \<and> pn \<notin> fpages (l @ os @ r) \<and>
     9 + 8 * length (kl @ ko @ kr) + 4 * length (l @ os @ r) \<le> ps \<and>
     (\<forall>c \<in> set (fcells (l @ os @ r)). spare_cell ps c) \<and> page_size_ok ps \<and> ps \<le> cap \<and>
     int (npages s) < NO_PAGE \<and> page_link nx"

definition refitted :: "nat \<Rightarrow> nat \<Rightarrow> nat \<Rightarrow> nat set \<Rightarrow> 's \<Rightarrow> ptree list \<Rightarrow> int list \<Rightarrow> nat option \<Rightarrow>
    ptree list \<Rightarrow> int list \<Rightarrow> 's \<Rightarrow> bool" where
  "refitted ps h pn T s ts ks nx ts' ks' s' \<longleftrightarrow>
     refit ps h ts ks (view s') ts' ks' nx \<and> (\<exists>T'. ok T' s' \<and> T' - {pn} = T) \<and>
     npages s' = npages s \<and> (\<forall>p. p \<notin> fpages ts \<longrightarrow> p \<noteq> pn \<longrightarrow> view s' p = view s p) \<and>
     length ks' \<le> length ks"

lemma fixing_left:
  assumes "fixing ps h pn T s (l @ [a]) [c] r (kl @ [sep]) [] kr nx" and "length kl = length l"
  shows "fixing ps h pn T s l [a, c] r kl [sep] kr nx"
  using assms subtree_weak[of "view s" ps h a] by (simp add: fixing_def)

lemma fixing_right:
  assumes "fixing ps h pn T s l [c] (b # r) kl [] (sep # kr) nx"
  shows "fixing ps h pn T s l [c, b] r kl [sep] kr nx"
  using assms subtree_weak[of "view s" ps h b] by (simp add: fixing_def)

lemma fixing_pages:
  assumes "fixing ps h pn T s l os r kl ko kr nx" and "p \<in> insert pn (fpages (l @ os @ r))"
  shows "p < npages s" and "p \<notin> T" and "int p < NO_PAGE"
proof -
  have C: "clean_pages T s (insert pn (fpages (l @ os @ r)))" "int (npages s) < NO_PAGE"
    using assms(1) by (simp_all only: fixing_def)
  then show "p < npages s" "p \<notin> T" using assms(2) unfolding clean_pages_def by blast+
  then show "int p < NO_PAGE" using C(2) by simp
qed

lemma fixing_link:
  assumes "fixing ps h pn T s l os r kl ko kr nx"
  shows "page_link (next_of (concat (map leaves r)) nx)"
proof (rule page_link_next)
  show "page_link nx" using assms by (simp add: fixing_def)
  have "fpages r \<subseteq> fpages (l @ os @ r)" by auto
  then show "\<forall>p \<in> fpages r. int p < NO_PAGE"
    using fixing_pages(3)[OF assms] by blast
qed

lemma fixing_root:
  assumes F: "fixing ps h pn T s l os r kl ko kr nx" and t: "t \<in> set os" and sp: "l @ os @ r = l' @ t # r'"
  shows "view s (proot t) = Some (root_node t (next_of (concat (map leaves r')) nx))"
    and "node_ok (root_node t (next_of (concat (map leaves r')) nx))"
    and "page_link (next_of (concat (map leaves r')) nx)"
proof -
  have W: "weak_ok (view s) ps h t" and S: "skel (view s) (l' @ t # r') (kl @ ko @ kr) nx"
    using F t sp by (auto simp: fixing_def)
  show "view s (proot t) = Some (root_node t (next_of (concat (map leaves r')) nx))"
    using root_view[OF S] W by (simp add: weak_ok_def)
  have "fpages r' \<subseteq> fpages (l @ os @ r)" "set (pages t) \<subseteq> fpages (l @ os @ r)" unfolding sp by auto
  then have "\<forall>p \<in> fpages r'. int p < NO_PAGE" and pt: "\<forall>p \<in> set (pages t). int p < NO_PAGE"
    using fixing_pages(3)[OF F] by blast+
  then show l: "page_link (next_of (concat (map leaves r')) nx)"
    using F by (intro page_link_next) (auto simp: fixing_def)
  show "node_ok (root_node t (next_of (concat (map leaves r')) nx))"
  proof (rule node_ok_root[OF _ _ _ pt l])
    show "sized ps t" "keys64 t" using W by (simp_all add: weak_ok_def)
    show "ps \<le> 65536" using F cap_law by (simp add: fixing_def)
  qed
qed

text \<open>Two neighbours rewritten in place, and their parent with the new separator.\<close>

lemma rotate_nodes:
  assumes F: "fixing ps h pn T s l [a, c] r kl [sep] kr nx"
    and R: "refit ps h [a, c] [sep] v [a', c'] [sep'] nxr"
    and lk: "page_link na" "page_link nc"
  shows "node_ok (root_node a' na)" "node_ok (root_node c' nc)" "root_size a' \<le> cap" "root_size c' \<le> cap"
    and "node_ok (Internal (kl @ sep' # kr) (map proot (l @ a # c # r)))"
    and "node_size (Internal (kl @ sep' # kr) (map proot (l @ a # c # r))) \<le> cap"
proof -
  have sub: "subtree_ok v ps h a'" "subtree_ok v ps h c'" "fpages [a', c'] \<subseteq> fpages [a, c]" "int64 sep'"
    using R by (simp_all add: refit_def forest_at_def)
  have pg: "\<forall>p \<in> set (pages a'). int p < NO_PAGE" "\<forall>p \<in> set (pages c'). int p < NO_PAGE"
    using sub(3) fixing_pages(3)[OF F] by auto
  have cap: "ps \<le> cap" "ps \<le> 65536" using F cap_law by (simp_all add: fixing_def)
  show "node_ok (root_node a' na)" "node_ok (root_node c' nc)"
    using sub(1,2) pg cap(2) lk by (auto intro!: node_ok_root simp: subtree_ok_def)
  show "root_size a' \<le> cap" "root_size c' \<le> cap"
    using root_size_le[OF subtree_weak[OF sub(1)]] root_size_le[OF subtree_weak[OF sub(2)]] cap by auto
  have ch: "\<forall>p \<in> set (map proot (l @ a # c # r)). int p < 2 ^ 32"
  proof
    fix p assume "p \<in> set (map proot (l @ a # c # r))"
    then have "p \<in> fpages (l @ [a, c] @ r)" using proots_in_pages[of "l @ a # c # r"] by auto
    then have "int p < NO_PAGE" using fixing_pages(3)[OF F] by blast
    then show "int p < 2 ^ 32" by (simp add: NO_PAGE_def)
  qed
  have k: "\<forall>k \<in> set (kl @ sep' # kr). int64 k" using F sub(4) by (auto simp: fixing_def skel_def)
  have len: "9 + 8 * length (kl @ sep' # kr) + 4 * length (map proot (l @ a # c # r)) \<le> ps"
    using F by (simp add: fixing_def)
  show "node_ok (Internal (kl @ sep' # kr) (map proot (l @ a # c # r)))"
    by (rule node_ok_internal[OF _ k ch]) (use len cap in simp)
  show "node_size (Internal (kl @ sep' # kr) (map proot (l @ a # c # r))) \<le> cap"
    using len cap by simp
qed

lemma rotate_refitted:
  assumes F: "fixing ps h pn T s l [a, c] r kl [sep] kr nx"
    and R: "refit ps h [a, c] [sep] ((view s)(proot a \<mapsto> x, proot c \<mapsto> y)) [a', c'] [sep']
              (next_of (concat (map leaves r)) nx)"
    and s': "ok T s'" "view s' = (view s)(proot a \<mapsto> x, proot c \<mapsto> y, pn \<mapsto> z)" "npages s' = npages s"
  shows "refitted ps h pn T s (l @ a # c # r) (kl @ sep # kr) nx (l @ a' # c' # r) (kl @ sep' # kr) s'"
proof -
  have pn: "pn \<notin> fpages (l @ [a, c] @ r)" using F by (simp add: fixing_def)
  have sub: "fpages [a', c'] \<subseteq> fpages [a, c]" using R by (simp add: refit_def)
  have sk: "skel (view s) (l @ [a, c] @ r) (kl @ [sep] @ kr) nx" "length kl = length l"
    "length [a, c] = Suc (length [sep])" "\<forall>t \<in> set (l @ r). subtree_ok (view s) ps h t"
    using F by (simp_all add: fixing_def)
  have R': "refit ps h [a, c] [sep] (view s') [a', c'] [sep'] (next_of (concat (map leaves r)) nx)"
    by (rule refit_frame[OF R]) (use s'(2) pn sub in auto)
  have fr: "view s' n = view s n" if "n \<in> fpages l \<union> fpages r" for n
  proof -
    have "n \<notin> fpages [a, c]" using sk(1) that by (auto simp: skel_def fpages_def)
    then have "n \<noteq> proot a" "n \<noteq> proot c" "n \<noteq> pn" using that pn by auto
    then show ?thesis using s'(2) by simp
  qed
  have "refit ps h (l @ [a, c] @ r) (kl @ [sep] @ kr) (view s') (l @ [a', c'] @ r) (kl @ [sep'] @ kr) nx"
    by (rule refit_context[OF sk R' fr])
  moreover have "T - {pn} = T" using fixing_pages(2)[OF F, of pn] by simp
  moreover have "view s' p = view s p" if "p \<notin> fpages (l @ a # c # r)" "p \<noteq> pn" for p
    using that s'(2) by auto
  ultimately show ?thesis using s' by (auto simp: refitted_def)
qed

lemma butlast_nonempty:
  assumes "2 \<le> length xs"
  shows "xs \<noteq> []" and "butlast xs \<noteq> []"
  using assms by (auto simp flip: length_greater_0_conv)

lemma short_list: "length xs < 2 \<Longrightarrow> xs = [] \<or> (\<exists>x. xs = [x])"
  by (cases xs; cases "tl xs") auto

lemma cells_size_Cons [simp]: "cells_size (x # xs) = cell_size x + cells_size xs"
  by (simp add: cells_size_def)

lemma fixing_pair:
  assumes F: "fixing ps h pn T s l [a, c] r kl [sep] kr nx"
  shows "skel (view s) [a, c] [sep] (next_of (concat (map leaves r)) nx)"
    and "weak_ok (view s) ps h a" "weak_ok (view s) ps h c"
    and "\<forall>x \<in> set (cells a @ cells c). spare_cell ps x"
    and "pn < npages s" "proot a < npages s" "proot c < npages s"
    and "(kl @ sep # kr) ! length l = sep" "(kl @ sep # kr)[length l := k] = kl @ k # kr"
    and "length l < length (kl @ sep # kr)"
  using F skel_parts(1)[of "view s" l "[a, c]" r kl "[sep]" kr nx] fixing_pages(1)[OF F, of pn]
    fixing_pages(1)[OF F, of "proot a"] fixing_pages(1)[OF F, of "proot c"]
  by (simp_all add: fixing_def nth_append list_update_append ball_Un)

lemma borrow_left_ok:
  assumes F: "fixing ps h pn T s l [a, c] r kl [sep] kr nx" and W: "weak_root ps c"
    and big: "min_bytes ps + 64 < root_size a" and S: "same T s s1"
    and na: "na = next_of (concat (map leaves (c # r))) nx" and nc: "nc = next_of (concat (map leaves r)) nx"
  shows "\<exists>s2 a' c' sep'. borrow_from_left st pn (proot a) (proot c) (kl @ sep # kr) ch (Suc (length l))
             (root_node a na) (root_node c nc) s1 =
             (Inr (kl @ sep' # kr, root_node a' na, root_node c' nc), s2) \<and>
           same (insert pn (insert (proot c) (insert (proot a) T))) s s2 \<and>
           proot a' = proot a \<and> proot c' = proot c \<and>
           refit ps h [a, c] [sep] ((view s)(proot a \<mapsto> root_node a' na, proot c \<mapsto> root_node c' nc))
             [a', c'] [sep'] nc"
proof -
  note P = fixing_pair[OF F]
  have ps: "page_size_ok ps" using F by (simp add: fixing_def)
  have small: "root_size c < min_bytes ps" using weak_root_size[OF ps _ W, of h] P(3) by (simp add: weak_ok_def)
  note szs = page_size_leaf[OF ps] min_bytes_ge[OF ps] root_size_le[OF P(2)]
  have i: "Suc (length l) - 1 < length (kl @ sep # kr)" using P(10) by simp
  show ?thesis
  proof (cases h)
    case 0
    then obtain n cs m ds where ac: "a = PLeaf n cs" "c = PLeaf m ds"
      using P(2,3) by (cases a; cases c) (auto simp: weak_ok_def split: nat.splits)
    have pg: "n < npages s" "m < npages s" using P(6,7) ac by simp_all
    have two: "2 \<le> length cs"
    proof (rule ccontr)
      assume "\<not> 2 \<le> length cs"
      then consider "cs = []" | x where "cs = [x]" using short_list[of cs] by auto
      then show False using big P(4) ac by cases (auto simp: spare_cell_def)
    qed
    then have ne: "cs \<noteq> []" "butlast cs \<noteq> []" by (rule butlast_nonempty)+
    have app: "cs = butlast cs @ [last cs]" using ne by simp
    have csz: "cells_size cs = cells_size (butlast cs) + cell_size (last cs)"
      by (metis app cells_size_simps(1,3) cells_size_Cons add_0_right)
    have "spare_cell ps (last cs)" using P(4) ac ne by simp
    then have sz: "9 + cells_size (butlast cs) \<le> ps" "9 + cells_size (last cs # ds) \<le> ps"
      using szs small ac csz by (simp_all add: spare_cell_def)
    have K: "\<forall>x \<in> set (cs @ ds). int64 (fst x)" using P(2,3) ac by (auto simp: weak_ok_def)
    have na': "na = Some m" using na ac by simp
    have "refit ps 0 [PLeaf n cs, PLeaf m ds] [sep]
        ((view s)(n \<mapsto> Leaf (butlast cs) (Some m), m \<mapsto> Leaf (last cs # ds) nc))
        [PLeaf n (butlast cs), PLeaf m (last cs # ds)] [fst (hd (last cs # ds))] nc"
      using P(1) ne sz K unfolding ac nc by (intro rot_leaf) auto
    moreover obtain s2 where "borrow_from_left st pn n m (kl @ sep # kr) ch (Suc (length l)) (Leaf cs na) (Leaf ds nc) s1 =
        (Inr ((kl @ sep # kr)[length l := fst (last cs)], Leaf (butlast cs) na, Leaf (last cs # ds) nc), s2)"
        "same (insert pn (insert m (insert n T))) s s2"
      using borrow_left_leaf[OF S P(5) pg ne(1) i, of ch na ds nc] by auto
    ultimately show ?thesis
      using 0 ac na' P(9)[of "fst (last cs)"]
      by (intro exI[of _ s2] exI[of _ "PLeaf n (butlast cs)"] exI[of _ "PLeaf m (last cs # ds)"]
          exI[of _ "fst (last cs)"]) simp
  next
    case (Suc h')
    then obtain n ks ts m js us where ac: "a = PNode n ks ts" "c = PNode m js us"
      using P(2,3) by (cases a; cases c) (auto simp: weak_ok_def split: nat.splits)
    have len: "length ts = Suc (length ks)" "length us = Suc (length js)"
      using P(2,3) ac Suc by (simp_all add: weak_ok_def)
    have pg: "n < npages s" "m < npages s" using P(6,7) ac by simp_all
    have two: "2 \<le> length ks" using big ac len szs(2) by simp
    then have ne: "ks \<noteq> []" "ts \<noteq> []" "butlast ks \<noteq> []" using len butlast_nonempty[of ks] by auto
    have "refit ps (Suc h') [PNode n ks ts, PNode m js us] [sep]
        ((view s)(n \<mapsto> Internal (butlast ks) (map proot (butlast ts)), m \<mapsto> Internal (sep # js) (map proot (last ts # us))))
        [PNode n (butlast ks) (butlast ts), PNode m (sep # js) (last ts # us)] [last ks] nc"
    proof (rule rot_node)
      show "skel (view s) [PNode n ks ts, PNode m js us] [sep] nc" using P(1) ac nc by simp
      show "weak_ok (view s) ps (Suc h') (PNode n ks ts)" "weak_ok (view s) ps (Suc h') (PNode m js us)"
        using P(2,3) ac Suc by simp_all
      show "butlast ts @ last ts # us = ts @ us" using ne by (metis append_Cons append_butlast_last_id append_assoc append_Nil)
      show "butlast ks @ last ks # sep # js = ks @ sep # js"
        using ne by (metis append_Cons append_butlast_last_id append_assoc append_Nil)
      show "9 + 8 * length (butlast ks) + 4 * length (butlast ts) \<le> ps" using szs(3) ac by simp
      show "9 + 8 * length (sep # js) + 4 * length (last ts # us) \<le> ps" using small szs ac by simp
    qed (use ne len in auto)
    moreover obtain s2 where "borrow_from_left st pn n m (kl @ sep # kr) ch (Suc (length l))
        (Internal ks (map proot ts)) (Internal js (map proot us)) s1 =
        (Inr ((kl @ sep # kr)[length l := last ks], Internal (butlast ks) (butlast (map proot ts)),
              Internal (sep # js) (last (map proot ts) # map proot us)), s2)"
        "same (insert pn (insert m (insert n T))) s s2"
      using borrow_left_node[OF S P(5) pg ne(1) _ i, of "map proot ts" ch js "map proot us"] ne(2) P(8) by auto
    ultimately show ?thesis
      using Suc ac P(9)[of "last ks"] ne
      by (intro exI[of _ s2] exI[of _ "PNode n (butlast ks) (butlast ts)"]
          exI[of _ "PNode m (sep # js) (last ts # us)"] exI[of _ "last ks"]) (simp add: map_butlast last_map)
  qed
qed

lemma borrow_right_ok:
  assumes F: "fixing ps h pn T s l [a, c] r kl [sep] kr nx" and W: "weak_root ps a"
    and big: "min_bytes ps + 64 < root_size c" and S: "same T s s1"
    and na: "na = next_of (concat (map leaves (c # r))) nx" and nc: "nc = next_of (concat (map leaves r)) nx"
  shows "\<exists>s2 a' c' sep'. borrow_from_right st pn (proot a) (proot c) (kl @ sep # kr) ch (length l)
             (root_node a na) (root_node c nc) s1 =
             (Inr (kl @ sep' # kr, root_node a' na, root_node c' nc), s2) \<and>
           same (insert pn (insert (proot a) (insert (proot c) T))) s s2 \<and>
           proot a' = proot a \<and> proot c' = proot c \<and>
           refit ps h [a, c] [sep] ((view s)(proot a \<mapsto> root_node a' na, proot c \<mapsto> root_node c' nc))
             [a', c'] [sep'] nc"
proof -
  note P = fixing_pair[OF F]
  have ps: "page_size_ok ps" using F by (simp add: fixing_def)
  have small: "root_size a < min_bytes ps" using weak_root_size[OF ps _ W, of h] P(2) by (simp add: weak_ok_def)
  note szs = page_size_leaf[OF ps] min_bytes_ge[OF ps] root_size_le[OF P(3)]
  show ?thesis
  proof (cases h)
    case 0
    then obtain n cs m ds where ac: "a = PLeaf n cs" "c = PLeaf m ds"
      using P(2,3) by (cases a; cases c) (auto simp: weak_ok_def split: nat.splits)
    have pg: "n < npages s" "m < npages s" using P(6,7) ac by simp_all
    have two: "2 \<le> length ds"
    proof (rule ccontr)
      assume "\<not> 2 \<le> length ds"
      then consider "ds = []" | x where "ds = [x]" using short_list[of ds] by auto
      then show False using big P(4) ac by cases (auto simp: spare_cell_def)
    qed
    then obtain d e ds' where ds: "ds = d # e # ds'" by (cases ds; cases "tl ds") auto
    have sz: "9 + cells_size (cs @ [d]) \<le> ps" "9 + cells_size (e # ds') \<le> ps"
      using szs small ac P(4) ds by (simp_all add: spare_cell_def)
    have K: "\<forall>x \<in> set (cs @ ds). int64 (fst x)" using P(2,3) ac by (auto simp: weak_ok_def)
    have na': "na = Some m" using na ac by simp
    have "refit ps 0 [PLeaf n cs, PLeaf m ds] [sep]
        ((view s)(n \<mapsto> Leaf (cs @ [d]) (Some m), m \<mapsto> Leaf (e # ds') nc))
        [PLeaf n (cs @ [d]), PLeaf m (e # ds')] [fst (hd (e # ds'))] nc"
      using P(1) sz K ds unfolding ac nc by (intro rot_leaf) auto
    moreover obtain s2 where "borrow_from_right st pn n m (kl @ sep # kr) ch (length l) (Leaf cs na) (Leaf ds nc) s1 =
        (Inr ((kl @ sep # kr)[length l := fst e], Leaf (cs @ [d]) na, Leaf (e # ds') nc), s2)"
        "same (insert pn (insert n (insert m T))) s s2"
      using borrow_right_leaf[OF S P(5) pg two P(10), of ch cs na nc] ds by auto
    ultimately show ?thesis
      using 0 ac na' P(9)[of "fst e"]
      by (intro exI[of _ s2] exI[of _ "PLeaf n (cs @ [d])"] exI[of _ "PLeaf m (e # ds')"]
          exI[of _ "fst e"]) simp
  next
    case (Suc h')
    then obtain n ks ts m js us where ac: "a = PNode n ks ts" "c = PNode m js us"
      using P(2,3) by (cases a; cases c) (auto simp: weak_ok_def split: nat.splits)
    have pg: "n < npages s" "m < npages s" using P(6,7) ac by simp_all
    have len: "length ts = Suc (length ks)" "length us = Suc (length js)"
      using P(2,3) ac Suc by (simp_all add: weak_ok_def)
    have "2 \<le> length js" using big ac len szs(2) by simp
    then obtain j j' js' where js: "js = j # j' # js'" by (cases js; cases "tl js") auto
    obtain u us' where us: "us = u # us'" using len by (cases us) auto
    have "refit ps (Suc h') [PNode n ks ts, PNode m js us] [sep]
        ((view s)(n \<mapsto> Internal (ks @ [sep]) (map proot (ts @ [u])), m \<mapsto> Internal (j' # js') (map proot us')))
        [PNode n (ks @ [sep]) (ts @ [u]), PNode m (j' # js') us'] [j] nc"
    proof (rule rot_node)
      show "skel (view s) [PNode n ks ts, PNode m js us] [sep] nc" using P(1) ac nc by simp
      show "weak_ok (view s) ps (Suc h') (PNode n ks ts)" "weak_ok (view s) ps (Suc h') (PNode m js us)"
        using P(2,3) ac Suc by simp_all
      show "9 + 8 * length (ks @ [sep]) + 4 * length (ts @ [u]) \<le> ps" using small szs ac by simp
      show "9 + 8 * length (j' # js') + 4 * length us' \<le> ps" using szs(3) ac js us by simp
    qed (use len js us in auto)
    moreover obtain s2 where "borrow_from_right st pn n m (kl @ sep # kr) ch (length l)
        (Internal ks (map proot ts)) (Internal js (map proot us)) s1 =
        (Inr ((kl @ sep # kr)[length l := j], Internal (ks @ [sep]) (map proot ts @ [proot u]),
              Internal (j' # js') (map proot us')), s2)"
        "same (insert pn (insert n (insert m T))) s s2"
      using borrow_right_node[OF S P(5) pg _ _ P(10), of js "map proot us" ch ks "map proot ts"] js us P(8) by auto
    ultimately show ?thesis
      using Suc ac P(9)[of j]
      by (intro exI[of _ s2] exI[of _ "PNode n (ks @ [sep]) (ts @ [u])"]
          exI[of _ "PNode m (j' # js') us'"] exI[of _ j]) simp
  qed
qed

section \<open>Merging\<close>

lemma merge_ok:
  assumes F: "fixing ps h pn T s l [a, c] r kl [sep] kr nx"
    and W: "weak_root ps a \<and> root_size c \<le> min_bytes ps + 64 \<or> weak_root ps c \<and> root_size a \<le> min_bytes ps + 64"
    and S: "same T s s1"
    and na: "na = next_of (concat (map leaves (c # r))) nx" and nc: "nc = next_of (concat (map leaves r)) nx"
  shows "\<exists>s2 t U. merge_nodes st (proot a) (root_node a na) (root_node c nc) sep s1 = (Inr (root_node t nc), s2) \<and>
           (U = T \<or> U = insert (proot a) T) \<and> same U s s2 \<and> proot t = proot a \<and>
           refit ps h [a, c] [sep] ((view s)(proot a \<mapsto> root_node t nc)) [t] [] nc"
proof -
  note P = fixing_pair[OF F]
  have ps: "page_size_ok ps" using F by (simp add: fixing_def)
  have sz: "root_size a < min_bytes ps \<and> root_size c \<le> min_bytes ps + 64 \<or>
      root_size c < min_bytes ps \<and> root_size a \<le> min_bytes ps + 64"
    using W weak_root_size[OF ps, of h] P(2,3) by (auto simp: weak_ok_def)
  note szs = page_size_leaf[OF ps] min_bytes_ge[OF ps]
  show ?thesis
  proof (cases h)
    case 0
    then obtain n cs m ds where ac: "a = PLeaf n cs" "c = PLeaf m ds"
      using P(2,3) by (cases a; cases c) (auto simp: weak_ok_def split: nat.splits)
    have "refit ps 0 [PLeaf n cs, PLeaf m ds] [sep] ((view s)(n \<mapsto> Leaf (cs @ ds) nc)) [PLeaf n (cs @ ds)] [] nc"
      using P(1,2,3) ac nc sz szs by (intro merge_leaf) (auto simp: weak_ok_def)
    then show ?thesis
      using 0 ac S by (intro exI[of _ s1] exI[of _ "PLeaf n (cs @ ds)"] exI[of _ T]) (simp add: merge_nodes_def)
  next
    case (Suc h')
    then obtain n ks ts m js us where ac: "a = PNode n ks ts" "c = PNode m js us"
      using P(2,3) by (cases a; cases c) (auto simp: weak_ok_def split: nat.splits)
    have len: "length ts = Suc (length ks)" "length us = Suc (length js)"
      using P(2,3) ac Suc by (simp_all add: weak_ok_def)
    have "13 + 12 * (length ks + length js + 1) \<le> ps"
      using sz page_size_internal[OF ps, of "length ks" "length js"] page_size_internal[OF ps, of "length js" "length ks"]
        ac len by (auto simp: add.commute)
    then have fit: "9 + 8 * length (ks @ sep # js) + 4 * length (ts @ us) \<le> ps" using len by simp
    have R: "refit ps (Suc h') [PNode n ks ts, PNode m js us] [sep]
        ((view s)(n \<mapsto> Internal (ks @ sep # js) (map proot (ts @ us)))) [PNode n (ks @ sep # js) (ts @ us)] [] nc"
      using P(1,2,3) ac nc Suc fit by (intro merge_node) simp_all
    obtain s2 where "st_mut st n (Internal (ks @ sep # js) (map proot (ts @ us))) s1 = (Inr (), s2)"
      "same (insert n T) s s2"
      using mut_same[OF S P(6)] ac by auto
    then show ?thesis
      using R ac Suc
      by (intro exI[of _ s2] exI[of _ "PNode n (ks @ sep # js) (ts @ us)"] exI[of _ "insert n T"])
        (simp add: merge_nodes_def Let_def)
  qed
qed

section \<open>Rebalancing\<close>

lemma can_spare_root:
  "node_ok (root_node t nx) \<Longrightarrow> can_spare ps (root_node t nx) = Inr (min_bytes ps + 64 < root_size t)"
  by (simp add: can_spare_def serialized_size_ok)

lemma try_left_ok:
  assumes F: "fixing ps h pn T s l [a, c] r kl [sep] kr nx" and W: "weak_root ps c" and S: "same T s s1"
    and nc: "nc = next_of (concat (map leaves r)) nx"
  shows "\<exists>s2. let res = try_left st ps pn (kl @ sep # kr) (map proot (l @ a # c # r)) (Suc (length l)) (proot c) (root_node c nc) s1
         in if min_bytes ps + 64 < root_size a
            then \<exists>ts' ks'. res = (Inr (Some (ks', map proot ts')), s2) \<and>
                   refitted ps h pn T s (l @ a # c # r) (kl @ sep # kr) nx ts' ks' s2
            else res = (Inr None, s2) \<and> same T s s2"
proof -
  define na where "na = next_of (concat (map leaves (c # r))) nx"
  define ch where "ch = map proot (l @ a # c # r)"
  have A: "view s (proot a) = Some (root_node a na)" "node_ok (root_node a na)" "page_link na"
    using fixing_root[OF F, of a l "c # r"] by (simp_all add: na_def)
  have lc: "page_link nc" using fixing_link[OF F] by (simp add: nc)
  have nth: "nth_err ch (Suc (length l) - 1) = Inr (proot a)" by (simp add: ch_def nth_err_def nth_append)
  have S': "ok T s1" "view s1 = view s" "npages s1 = npages s" using S by (simp_all add: same_def)
  note pg = fixing_pages[OF F]
  obtain s2 where s2: "st_load st (proot a) s1 = (Inr (root_node a na), s2)" "same T s1 s2"
    using load_law[OF S'(1), of "proot a" "root_node a na"] pg(1,2)[of "proot a"] A(1) S' by (auto simp: same_def)
  have S2: "same T s s2" using same_trans[OF S s2(2)] .
  show ?thesis
  proof (cases "min_bytes ps + 64 < root_size a")
    case False
    then have "try_left st ps pn (kl @ sep # kr) ch (Suc (length l)) (proot c) (root_node c nc) s1 = (Inr None, s2)"
      using nth s2(1) can_spare_root[OF A(2)] by (simp add: try_left_def)
    then show ?thesis using False S2 by (auto simp: ch_def)
  next
    case True
    obtain s3 a' c' sep' where B: "borrow_from_left st pn (proot a) (proot c) (kl @ sep # kr) ch (Suc (length l))
          (root_node a na) (root_node c nc) s2 = (Inr (kl @ sep' # kr, root_node a' na, root_node c' nc), s3)"
        "same (insert pn (insert (proot c) (insert (proot a) T))) s s3" "proot a' = proot a" "proot c' = proot c"
        "refit ps h [a, c] [sep] ((view s)(proot a \<mapsto> root_node a' na, proot c \<mapsto> root_node c' nc)) [a', c'] [sep'] nc"
      using borrow_left_ok[OF F W True S2 na_def nc, of ch] by blast
    note N = rotate_nodes[OF F B(5) A(3) lc]
    obtain s4 where W4: "bindP (write_node st (proot a) (root_node a' na)) (\<lambda>_.
        bindP (write_node st (proot c) (root_node c' nc)) (\<lambda>_. bindP (write_node st pn (Internal (kl @ sep' # kr) ch)) (\<lambda>_.
          ret (Some (kl @ sep' # kr, ch))))) s3 = (Inr (Some (kl @ sep' # kr, ch)), s4)"
      "ok (insert pn (insert (proot c) (insert (proot a) T)) - {proot a, proot c, pn}) s4"
      "view s4 = (view s)(proot a \<mapsto> root_node a' na, proot c \<mapsto> root_node c' nc, pn \<mapsto> Internal (kl @ sep' # kr) ch)"
      "npages s4 = npages s"
      using write3_ok[OF B(2) _ _ _ N(1,2) N(5)[folded ch_def], of "proot a" "proot c" pn "Some (kl @ sep' # kr, ch)"]
        N(3,4) N(6)[folded ch_def] pg(1) by auto
    have "insert pn (insert (proot c) (insert (proot a) T)) - {proot a, proot c, pn} = T"
      using pg(2)[of pn] pg(2)[of "proot a"] pg(2)[of "proot c"] by auto
    then have "refitted ps h pn T s (l @ a # c # r) (kl @ sep # kr) nx (l @ a' # c' # r) (kl @ sep' # kr) s4"
      using rotate_refitted[OF F B(5)[unfolded nc] _ W4(3)[unfolded nc] W4(4)] W4(2) by simp
    moreover have "try_left st ps pn (kl @ sep # kr) ch (Suc (length l)) (proot c) (root_node c nc) s1 =
        (Inr (Some (kl @ sep' # kr, map proot (l @ a' # c' # r))), s4)"
      using nth s2(1) can_spare_root[OF A(2)] True B(1,3,4) W4(1)
      by (simp add: try_left_def) (simp add: ch_def)
    ultimately show ?thesis using True unfolding ch_def Let_def by (metis (no_types, lifting))
  qed
qed

lemma try_right_ok:
  assumes F: "fixing ps h pn T s l [c, b] r kl [sep] kr nx" and W: "weak_root ps c" and S: "same T s s1"
    and nc: "nc = next_of (concat (map leaves (b # r))) nx"
  shows "\<exists>s2. let res = try_right st ps pn (kl @ sep # kr) (map proot (l @ c # b # r)) (length l) (proot c) (root_node c nc) s1
         in if min_bytes ps + 64 < root_size b
            then \<exists>ts' ks'. res = (Inr (Some (ks', map proot ts')), s2) \<and>
                   refitted ps h pn T s (l @ c # b # r) (kl @ sep # kr) nx ts' ks' s2
            else res = (Inr None, s2) \<and> same T s s2"
proof -
  define nb where "nb = next_of (concat (map leaves r)) nx"
  define ch where "ch = map proot (l @ c # b # r)"
  have A: "view s (proot b) = Some (root_node b nb)" "node_ok (root_node b nb)" "page_link nb"
    using fixing_root[OF F, of b "l @ [c]" r] by (simp_all add: nb_def)
  have lc: "page_link nc" using fixing_root(3)[OF F, of c l "b # r"] nc by simp
  have nth: "nth_err ch (length l + 1) = Inr (proot b)" by (simp add: ch_def nth_err_def nth_append)
  have len: "length l + 1 < length ch" by (simp add: ch_def)
  have S': "ok T s1" "view s1 = view s" "npages s1 = npages s" using S by (simp_all add: same_def)
  note pg = fixing_pages[OF F]
  obtain s2 where s2: "st_load st (proot b) s1 = (Inr (root_node b nb), s2)" "same T s1 s2"
    using load_law[OF S'(1), of "proot b" "root_node b nb"] pg(1,2)[of "proot b"] A(1) S' by (auto simp: same_def)
  have S2: "same T s s2" using same_trans[OF S s2(2)] .
  show ?thesis
  proof (cases "min_bytes ps + 64 < root_size b")
    case False
    then have "try_right st ps pn (kl @ sep # kr) ch (length l) (proot c) (root_node c nc) s1 = (Inr None, s2)"
      using nth len s2(1) can_spare_root[OF A(2)] by (simp add: try_right_def)
    then show ?thesis using False S2 by (auto simp: ch_def)
  next
    case True
    obtain s3 c' b' sep' where B: "borrow_from_right st pn (proot c) (proot b) (kl @ sep # kr) ch (length l)
          (root_node c nc) (root_node b nb) s2 = (Inr (kl @ sep' # kr, root_node c' nc, root_node b' nb), s3)"
        "same (insert pn (insert (proot c) (insert (proot b) T))) s s3" "proot c' = proot c" "proot b' = proot b"
        "refit ps h [c, b] [sep] ((view s)(proot c \<mapsto> root_node c' nc, proot b \<mapsto> root_node b' nb)) [c', b'] [sep'] nb"
      using borrow_right_ok[OF F W True S2 nc nb_def, of ch] by blast
    note N = rotate_nodes[OF F B(5) lc A(3)]
    obtain s4 where W4: "bindP (write_node st (proot b) (root_node b' nb)) (\<lambda>_.
        bindP (write_node st (proot c) (root_node c' nc)) (\<lambda>_. bindP (write_node st pn (Internal (kl @ sep' # kr) ch)) (\<lambda>_.
          ret (Some (kl @ sep' # kr, ch))))) s3 = (Inr (Some (kl @ sep' # kr, ch)), s4)"
      "ok (insert pn (insert (proot c) (insert (proot b) T)) - {proot b, proot c, pn}) s4"
      "view s4 = (view s)(proot b \<mapsto> root_node b' nb, proot c \<mapsto> root_node c' nc, pn \<mapsto> Internal (kl @ sep' # kr) ch)"
      "npages s4 = npages s"
      using write3_ok[OF B(2) _ _ _ N(2,1) N(5)[folded ch_def], of "proot b" "proot c" pn "Some (kl @ sep' # kr, ch)"]
        N(3,4) N(6)[folded ch_def] pg(1) by auto
    have "set (pages c) \<inter> set (pages b) = {}" using fixing_pair(1)[OF F] by (simp add: skel_def)
    then have ne: "proot c \<noteq> proot b" using proot_in_pages[of c] proot_in_pages[of b] by (metis disjoint_iff)
    then have v4: "view s4 = (view s)(proot c \<mapsto> root_node c' nc, proot b \<mapsto> root_node b' nb, pn \<mapsto> Internal (kl @ sep' # kr) ch)"
      using W4(3) by (simp add: fun_upd_twist)
    have "insert pn (insert (proot c) (insert (proot b) T)) - {proot b, proot c, pn} = T"
      using pg(2)[of pn] pg(2)[of "proot c"] pg(2)[of "proot b"] by auto
    then have "refitted ps h pn T s (l @ c # b # r) (kl @ sep # kr) nx (l @ c' # b' # r) (kl @ sep' # kr) s4"
      using rotate_refitted[OF F B(5)[unfolded nb_def] _ v4[unfolded nb_def] W4(4)] W4(2) by simp
    moreover have "try_right st ps pn (kl @ sep # kr) ch (length l) (proot c) (root_node c nc) s1 =
        (Inr (Some (kl @ sep' # kr, map proot (l @ c' # b' # r))), s4)"
      using nth len s2(1) can_spare_root[OF A(2)] True B(1,3,4) W4(1)
      by (simp add: try_right_def) (simp add: ch_def)
    ultimately show ?thesis using True unfolding ch_def Let_def by (metis (no_types, lifting))
  qed
qed

lemma merge_refitted:
  assumes F: "fixing ps h pn T s l [a, c] r kl [sep] kr nx"
    and R: "refit ps h [a, c] [sep] ((view s)(proot a \<mapsto> x)) [t] [] (next_of (concat (map leaves r)) nx)"
    and s': "ok U s'" "U - {pn} = T" "view s' = (view s)(proot a \<mapsto> x)" "npages s' = npages s"
  shows "refitted ps h pn T s (l @ a # c # r) (kl @ sep # kr) nx (l @ t # r) (kl @ kr) s'"
proof -
  have sk: "skel (view s) (l @ [a, c] @ r) (kl @ [sep] @ kr) nx" "length kl = length l"
    "length [a, c] = Suc (length [sep])" "\<forall>t \<in> set (l @ r). subtree_ok (view s) ps h t"
    using F by (simp_all add: fixing_def)
  have fr: "view s' n = view s n" if "n \<in> fpages l \<union> fpages r" for n
  proof -
    have "n \<notin> fpages [a, c]" using sk(1) that by (auto simp: skel_def fpages_def)
    then have "n \<noteq> proot a" by auto
    then show ?thesis using s'(3) by simp
  qed
  have "refit ps h (l @ [a, c] @ r) (kl @ [sep] @ kr) (view s') (l @ [t] @ r) (kl @ [] @ kr) nx"
    by (rule refit_context[OF sk R[folded s'(3)] fr])
  moreover have "view s' p = view s p" if "p \<notin> fpages (l @ a # c # r)" for p
    using that s'(3) by auto
  ultimately show ?thesis using s' by (auto simp: refitted_def)
qed

text \<open>Writing the merged node and taking the separator and the second child out of the parent.\<close>

lemma merge_tail:
  assumes F: "fixing ps h pn T s l [a, c] r kl [sep] kr nx"
    and W: "weak_root ps a \<and> root_size c \<le> min_bytes ps + 64 \<or> weak_root ps c \<and> root_size a \<le> min_bytes ps + 64"
    and S: "same T s s1"
    and na: "na = next_of (concat (map leaves (c # r))) nx" and nc: "nc = next_of (concat (map leaves r)) nx"
  shows "\<exists>s2 t. bindP (merge_nodes st (proot a) (root_node a na) (root_node c nc) sep) (\<lambda>m.
            bindP (write_node st (proot a) m) (\<lambda>_.
            bindP (liftE (del_at (Suc (length l)) (map proot (l @ a # c # r)))) (\<lambda>ch'.
            bindP (st_mut st pn (Internal (kl @ sep # kr) ch')) (\<lambda>_.
            bindP (liftE (del_at (length l) (kl @ sep # kr))) (\<lambda>ks'.
            bindP (st_mut st pn (Internal ks' ch')) (\<lambda>_. ret (ks', ch'))))))) s1 =
          (Inr (kl @ kr, map proot (l @ t # r)), s2) \<and>
         refitted ps h pn T s (l @ a # c # r) (kl @ sep # kr) nx (l @ t # r) (kl @ kr) s2"
proof -
  note pg = fixing_pages[OF F]
  obtain s2 t U where M: "merge_nodes st (proot a) (root_node a na) (root_node c nc) sep s1 = (Inr (root_node t nc), s2)"
    "U = T \<or> U = insert (proot a) T" "same U s s2" "proot t = proot a"
    "refit ps h [a, c] [sep] ((view s)(proot a \<mapsto> root_node t nc)) [t] [] nc"
    using merge_ok[OF F W S na nc] by blast
  have sub: "subtree_ok ((view s)(proot a \<mapsto> root_node t nc)) ps h t" "set (pages t) \<subseteq> fpages [a, c]"
    using M(5) by (simp_all add: refit_def forest_at_def)
  have cap: "ps \<le> cap" "ps \<le> 65536" using F cap_law by (simp_all add: fixing_def)
  have nok: "node_ok (root_node t nc)"
  proof (rule node_ok_root[of ps])
    show "page_link nc" using fixing_link[OF F] nc by simp
    show "\<forall>p \<in> set (pages t). int p < NO_PAGE" using sub(2) pg(3) by auto
  qed (use sub(1) cap in \<open>simp_all add: subtree_ok_def\<close>)
  have sz: "node_size (root_node t nc) \<le> cap" using root_size_le[OF subtree_weak[OF sub(1)]] cap by simp
  have S2: "ok U s2" "view s2 = view s" "npages s2 = npages s" using M(3) by (simp_all add: same_def)
  obtain s3 where s3: "write_node st (proot a) (root_node t nc) s2 = (Inr (), s3)" "ok (U - {proot a}) s3"
    "view s3 = (view s)(proot a \<mapsto> root_node t nc)" "npages s3 = npages s"
    using write_node_ok[OF S2(1) _ nok sz, of "proot a"] pg(1)[of "proot a"] S2 by auto
  have UT: "U - {proot a} = T" using M(2) pg(2)[of "proot a"] by auto
  have len: "length kl = length l" using F by (simp add: fixing_def)
  have del: "del_at (Suc (length l)) (map proot (l @ a # c # r)) = Inr (map proot (l @ t # r))"
    "del_at (length l) (kl @ sep # kr) = Inr (kl @ kr)"
    using M(4) len by (simp_all add: del_at_def)
  have pn: "pn < npages s3" using pg(1)[of pn] s3(4) by simp
  obtain s4 where s4: "st_mut st pn (Internal (kl @ sep # kr) (map proot (l @ t # r))) s3 = (Inr (), s4)"
    "ok (insert pn T) s4" "view s4 = view s3" "npages s4 = npages s3"
    using mut_law[OF s3(2) pn] UT by auto
  obtain s5 where s5: "st_mut st pn (Internal (kl @ kr) (map proot (l @ t # r))) s4 = (Inr (), s5)"
    "ok (insert pn (insert pn T)) s5" "view s5 = view s4" "npages s5 = npages s4"
    using mut_law[OF s4(2), of pn] pn s4(4) by auto
  have "insert pn (insert pn T) - {pn} = T" using pg(2)[of pn] by auto
  then have "refitted ps h pn T s (l @ a # c # r) (kl @ sep # kr) nx (l @ t # r) (kl @ kr) s5"
    using merge_refitted[OF F M(5)[unfolded nc] s5(2)] s5(3,4) s4(3,4) s3(3,4) nc by simp
  then show ?thesis
    using M(1) s3(1) del s4(1) s5(1) by (intro exI[of _ s5] exI[of _ t]) simp
qed

lemma do_merge_left_ok:
  assumes F: "fixing ps h pn T s l [a, c] r kl [sep] kr nx"
    and W: "weak_root ps c" "root_size a \<le> min_bytes ps + 64" and S: "same T s s1"
    and nc: "nc = next_of (concat (map leaves r)) nx"
  shows "\<exists>s2 ts' ks'. do_merge st pn (kl @ sep # kr) (map proot (l @ a # c # r)) (Suc (length l)) (proot c) (root_node c nc) s1 =
           (Inr (ks', map proot ts'), s2) \<and>
         refitted ps h pn T s (l @ a # c # r) (kl @ sep # kr) nx ts' ks' s2"
proof -
  define na where "na = next_of (concat (map leaves (c # r))) nx"
  define ch where "ch = map proot (l @ a # c # r)"
  have A: "view s (proot a) = Some (root_node a na)"
    using fixing_root[OF F, of a l "c # r"] by (simp_all add: na_def)
  have S': "ok T s1" "view s1 = view s" "npages s1 = npages s" using S by (simp_all add: same_def)
  note pg = fixing_pages[OF F]
  obtain s2 where s2: "st_load st (proot a) s1 = (Inr (root_node a na), s2)" "same T s1 s2"
    using load_law[OF S'(1), of "proot a" "root_node a na"] pg(1,2)[of "proot a"] A S' by (auto simp: same_def)
  have nth: "nth_err ch (length l) = Inr (proot a)" by (simp add: ch_def nth_err_def nth_append)
  have sep: "nth_err (kl @ sep # kr) (length l) = Inr sep" using fixing_pair(8,10)[OF F] by (simp add: nth_err_def)
  obtain s3 t where M: "bindP (merge_nodes st (proot a) (root_node a na) (root_node c nc) sep) (\<lambda>m.
            bindP (write_node st (proot a) m) (\<lambda>_.
            bindP (liftE (del_at (Suc (length l)) ch)) (\<lambda>ch'.
            bindP (st_mut st pn (Internal (kl @ sep # kr) ch')) (\<lambda>_.
            bindP (liftE (del_at (length l) (kl @ sep # kr))) (\<lambda>ks'.
            bindP (st_mut st pn (Internal ks' ch')) (\<lambda>_. ret (ks', ch'))))))) s2 =
          (Inr (kl @ kr, map proot (l @ t # r)), s3)"
     "refitted ps h pn T s (l @ a # c # r) (kl @ sep # kr) nx (l @ t # r) (kl @ kr) s3"
    using merge_tail[OF F disjI2[OF conjI[OF W]] same_trans[OF S s2(2)] na_def nc] unfolding ch_def by auto
  have "do_merge st pn (kl @ sep # kr) ch (Suc (length l)) (proot c) (root_node c nc) s1 =
      (Inr (kl @ kr, map proot (l @ t # r)), s3)"
    using M(1) s2(1) nth sep by (simp add: do_merge_def)
  then show ?thesis using M(2) unfolding ch_def by blast
qed

lemma do_merge_right_ok:
  assumes F: "fixing ps h pn T s [] [c, b] r [] [sep] kr nx"
    and W: "weak_root ps c" "root_size b \<le> min_bytes ps + 64" and S: "same T s s1"
    and nc: "nc = next_of (concat (map leaves (b # r))) nx"
  shows "\<exists>s2 ts' ks'. do_merge st pn (sep # kr) (map proot (c # b # r)) 0 (proot c) (root_node c nc) s1 =
           (Inr (ks', map proot ts'), s2) \<and>
         refitted ps h pn T s (c # b # r) (sep # kr) nx ts' ks' s2"
proof -
  define nb where "nb = next_of (concat (map leaves r)) nx"
  define ch where "ch = map proot (c # b # r)"
  have B: "view s (proot b) = Some (root_node b nb)"
    using fixing_root[OF F, of b "[c]" r] by (simp_all add: nb_def)
  have S': "ok T s1" "view s1 = view s" "npages s1 = npages s" using S by (simp_all add: same_def)
  note pg = fixing_pages[OF F]
  obtain s2 where s2: "st_load st (proot b) s1 = (Inr (root_node b nb), s2)" "same T s1 s2"
    using load_law[OF S'(1), of "proot b" "root_node b nb"] pg(1,2)[of "proot b"] B S' by (auto simp: same_def)
  have nth: "nth_err ch 1 = Inr (proot b)" "nth_err (sep # kr) 0 = Inr sep" by (simp_all add: ch_def nth_err_def)
  obtain s3 t where M: "bindP (merge_nodes st (proot c) (root_node c nc) (root_node b nb) sep) (\<lambda>m.
            bindP (write_node st (proot c) m) (\<lambda>_.
            bindP (liftE (del_at (Suc 0) ch)) (\<lambda>ch'.
            bindP (st_mut st pn (Internal (sep # kr) ch')) (\<lambda>_.
            bindP (liftE (del_at 0 (sep # kr))) (\<lambda>ks'.
            bindP (st_mut st pn (Internal ks' ch')) (\<lambda>_. ret (ks', ch'))))))) s2 =
          (Inr (kr, map proot (t # r)), s3)"
     "refitted ps h pn T s (c # b # r) (sep # kr) nx (t # r) kr s3"
    using merge_tail[OF F disjI1[OF conjI[OF W]] same_trans[OF S s2(2)] nc nb_def] unfolding ch_def by auto
  have "do_merge st pn (sep # kr) ch 0 (proot c) (root_node c nc) s1 = (Inr (kr, map proot (t # r)), s3)"
    using M(1) s2(1) nth by (simp add: do_merge_def)
  then show ?thesis using M(2) unfolding ch_def by blast
qed

lemma rebalance_ok:
  assumes F: "fixing ps h pn T s l [c] r kl [] kr nx" and W: "weak_root ps c"
    and two: "l \<noteq> [] \<or> r \<noteq> []" and S: "same T s s0"
  shows "\<exists>s2 ts' ks'. rebalance st ps pn (kl @ kr) (map proot (l @ c # r)) (length l) s0 =
           (Inr (ks', map proot ts'), s2) \<and>
         refitted ps h pn T s (l @ c # r) (kl @ kr) nx ts' ks' s2"
proof -
  define nc where "nc = next_of (concat (map leaves r)) nx"
  define ch where "ch = map proot (l @ c # r)"
  have C: "view s (proot c) = Some (root_node c nc)"
    using fixing_root[OF F, of c l r] by (simp_all add: nc_def)
  have S': "ok T s0" "view s0 = view s" "npages s0 = npages s" using S by (simp_all add: same_def)
  obtain s1 where s1: "st_load st (proot c) s0 = (Inr (root_node c nc), s1)" "same T s0 s1"
    using load_law[OF S'(1), of "proot c" "root_node c nc"] fixing_pages(1,2)[OF F, of "proot c"] C S'
    by (auto simp: same_def)
  have S1: "same T s s1" using same_trans[OF S s1(2)] .
  have nth: "nth_err ch (length l) = Inr (proot c)" by (simp add: ch_def nth_err_def nth_append)
  have len: "length kl = length l" "length kr = length r"
    using F by (simp_all add: fixing_def skel_def)
  let ?L = "try_left st ps pn (kl @ kr) ch (length l) (proot c) (root_node c nc)"
  let ?R = "try_right st ps pn (kl @ kr) ch (length l) (proot c) (root_node c nc)"
  let ?M = "do_merge st pn (kl @ kr) ch (length l) (proot c) (root_node c nc)"
  have reb: "rebalance st ps pn (kl @ kr) ch (length l) s0 =
      bindP ?L (\<lambda>x. case x of Some y \<Rightarrow> ret y | None \<Rightarrow> bindP ?R (\<lambda>x. case x of Some y \<Rightarrow> ret y | None \<Rightarrow> ?M)) s1"
    using nth s1(1) by (simp add: rebalance_def)
  let ?done = "\<lambda>ts' ks' s2. refitted ps h pn T s (l @ c # r) (kl @ kr) nx ts' ks' s2"
  have L: "\<exists>s2. (\<exists>ts' ks'. ?L s1 = (Inr (Some (ks', map proot ts')), s2) \<and> ?done ts' ks' s2) \<or>
      (?L s1 = (Inr None, s2) \<and> same T s s2 \<and> (l = [] \<or> root_size (last l) \<le> min_bytes ps + 64))"
  proof (cases l rule: rev_cases)
    case Nil
    then show ?thesis using S1 by (simp add: try_left_def)
  next
    case (snoc l' a)
    obtain kl' sep where kl: "kl = kl' @ [sep]" "length kl' = length l'"
      using len(1) snoc by (cases kl rule: rev_cases) auto
    have F': "fixing ps h pn T s l' [a, c] r kl' [sep] kr nx"
      by (rule fixing_left) (use F snoc kl in simp_all)
    show ?thesis
      using try_left_ok[OF F' W S1 nc_def] snoc kl(1) by (auto simp: ch_def Let_def split: if_splits)
  qed
  have R: "\<exists>s2. (\<exists>ts' ks'. ?R s' = (Inr (Some (ks', map proot ts')), s2) \<and> ?done ts' ks' s2) \<or>
      (?R s' = (Inr None, s2) \<and> same T s s2 \<and> (r = [] \<or> root_size (hd r) \<le> min_bytes ps + 64))"
    if S': "same T s s'" for s'
  proof (cases r)
    case Nil
    then show ?thesis using S' by (simp add: try_right_def ch_def)
  next
    case (Cons b r')
    obtain sep kr' where kr: "kr = sep # kr'" using len(2) Cons by (cases kr) auto
    have F': "fixing ps h pn T s l [c, b] r' kl [sep] kr' nx"
      by (rule fixing_right) (use F Cons kr in simp)
    show ?thesis
      using try_right_ok[OF F' W S', of nc] Cons kr by (auto simp: ch_def nc_def Let_def split: if_splits)
  qed
  have M: "\<exists>s2 ts' ks'. ?M s' = (Inr (ks', map proot ts'), s2) \<and> ?done ts' ks' s2"
    if S': "same T s s'" "l = [] \<or> root_size (last l) \<le> min_bytes ps + 64"
      "r = [] \<or> root_size (hd r) \<le> min_bytes ps + 64" for s'
  proof (cases l rule: rev_cases)
    case Nil
    then obtain b r' where r: "r = b # r'" using two by (cases r) auto
    obtain sep kr' where kr: "kr = sep # kr'" using len(2) r by (cases kr) auto
    have kl: "kl = []" using len(1) Nil by simp
    have F': "fixing ps h pn T s [] [c, b] r' [] [sep] kr' nx"
      by (rule fixing_right) (use F Nil r kl kr in simp)
    have small: "root_size b \<le> min_bytes ps + 64" using S'(3) r by simp
    show ?thesis
      using do_merge_right_ok[OF F' W small S'(1), of nc] Nil r kl kr by (simp add: ch_def nc_def)
  next
    case (snoc l' a)
    obtain kl' sep where kl: "kl = kl' @ [sep]" "length kl' = length l'"
      using len(1) snoc by (cases kl rule: rev_cases) auto
    have F': "fixing ps h pn T s l' [a, c] r kl' [sep] kr nx"
      by (rule fixing_left) (use F snoc kl in simp_all)
    have small: "root_size a \<le> min_bytes ps + 64" using S'(2) snoc by simp
    show ?thesis
      using do_merge_left_ok[OF F' W small S'(1) nc_def] snoc kl(1) by (simp add: ch_def)
  qed
  let ?goal = "\<exists>s2 ts' ks'. rebalance st ps pn (kl @ kr) ch (length l) s0 = (Inr (ks', map proot ts'), s2) \<and> ?done ts' ks' s2"
  have ?goal
  proof -
    obtain s2 where "(\<exists>ts' ks'. ?L s1 = (Inr (Some (ks', map proot ts')), s2) \<and> ?done ts' ks' s2) \<or>
      (?L s1 = (Inr None, s2) \<and> same T s s2 \<and> (l = [] \<or> root_size (last l) \<le> min_bytes ps + 64))"
      using L by blast
    then consider (done_left) ts' ks' where "?L s1 = (Inr (Some (ks', map proot ts')), s2)" "?done ts' ks' s2"
      | (none) "?L s1 = (Inr None, s2)" "same T s s2" "l = [] \<or> root_size (last l) \<le> min_bytes ps + 64"
      by blast
    then show ?goal
    proof cases
      case done_left
      then show ?goal using reb by (intro exI[of _ s2] exI[of _ ts'] exI[of _ ks']) simp
    next
      case none
      obtain s3 where "(\<exists>ts' ks'. ?R s2 = (Inr (Some (ks', map proot ts')), s3) \<and> ?done ts' ks' s3) \<or>
          (?R s2 = (Inr None, s3) \<and> same T s s3 \<and> (r = [] \<or> root_size (hd r) \<le> min_bytes ps + 64))"
        using R[OF none(2)] by blast
      then consider (done_right) ts' ks' where "?R s2 = (Inr (Some (ks', map proot ts')), s3)" "?done ts' ks' s3"
        | (none_right) "?R s2 = (Inr None, s3)" "same T s s3" "r = [] \<or> root_size (hd r) \<le> min_bytes ps + 64"
        by blast
      then show ?goal
      proof cases
        case done_right
        then show ?goal using reb none(1) by (intro exI[of _ s3] exI[of _ ts'] exI[of _ ks']) simp
      next
        case none_right
        obtain s4 ts' ks' where "?M s3 = (Inr (ks', map proot ts'), s4)" "?done ts' ks' s4"
          using M[OF none_right(2) none(3) none_right(3)] by blast
        then show ?goal using reb none(1) none_right(1) by (intro exI[of _ s4] exI[of _ ts'] exI[of _ ks']) simp
      qed
    qed
  qed
  then show ?thesis unfolding ch_def .
qed

end

end
