(* ===== verification/TreeDeleteOk.thy ===== *)
theory TreeDeleteOk
  imports TreeDelete
begin

text \<open>
  The recursion of \<open>BTree._delete\<close>, \<open>_collapse_root\<close> and \<open>delete\<close>, and replacing a value
  (\<open>_replace\<close>, \<open>upsert\<close>), against the page store interface.
\<close>

lemma weak_node:
  assumes "forest_at v ps h ts ks nx" and "v n = Some (Internal ks (map proot ts))" and "n \<notin> fpages ts"
    and "9 + 8 * length ks + 4 * length ts \<le> ps"
  shows "weak_ok v ps (Suc h) (PNode n ks ts)" and "skel v [PNode n ks ts] [] nx"
  using assms by (auto simp: forest_at_def subtree_ok_def weak_ok_def skel_def fpages_def)

lemma underflow_root:
  "node_ok (root_node t nx) \<Longrightarrow> underflow ps (root_node t nx) = Inr (weak_root ps t)"
  using serialized_size_ok[of "root_node t nx"] by (cases t) (auto simp: underflow_def weak_root_def)

lemma del_at_cell:
  assumes "sorted_wrt (<) (map fst cs)" and "key \<in> fst ` set cs"
  shows "del_at (cell_index cs key) cs = Inr (del_cells key cs)"
proof -
  define i where "i = cell_index cs key"
  have i: "i < length cs" "fst (cs ! i) = key"
    using has_key_at_iff[OF assms(1), of key] assms(2) by (auto simp: has_key_at_def i_def)
  define a b where "a = take i cs" and "b = drop (Suc i) cs"
  have cs: "cs = a @ cs ! i # b" using i(1) by (simp add: a_def b_def id_take_nth_drop)
  have srt: "sorted_wrt (<) (map fst (a @ cs ! i # b))" using assms(1) cs by metis
  have "\<forall>c \<in> set a. fst c \<noteq> key" "\<forall>c \<in> set b. fst c \<noteq> key"
    using srt i(2) by (auto simp: sorted_wrt_append)
  then have "del_cells key (a @ cs ! i # b) = a @ b"
    using i(2) by (simp add: del_cells_def)
  then have "del_cells key cs = a @ b" using cs by metis
  then show ?thesis using i(1) by (simp add: del_at_def i_def[symmetric] a_def b_def)
qed

context page_store
begin

definition del_done :: "nat \<Rightarrow> nat \<Rightarrow> ptree \<Rightarrow> nat option \<Rightarrow> int \<Rightarrow> nat set \<Rightarrow> 's \<Rightarrow> ptree \<Rightarrow> 's \<Rightarrow> bool" where
  "del_done ps h t nx key T s t' s' \<longleftrightarrow>
     weak_ok (view s') ps h t' \<and> skel (view s') [t'] [] nx \<and> proot t' = proot t \<and>
     cells t' = del_cells key (cells t) \<and> set (pages t') \<subseteq> set (pages t) \<and>
     (\<forall>y. next_of (leaves t') y = next_of (leaves t) y) \<and> hull0 (flat t) (flat t') \<and>
     ok T s' \<and> npages s' = npages s \<and> (\<forall>p. p \<notin> set (pages t) \<longrightarrow> view s' p = view s p)"

lemma del_leaf:
  assumes ok: "ok T s" and tr: "tree_at (view s) ps h (PLeaf n cs) nx" and cl: "n < npages s" "n \<notin> T"
    and np: "page_link nx" and ps: "ps \<le> cap"
  shows "if key \<notin> fst ` set cs then \<exists>s'. del st ps (Suc fuel) n key s = (Inr False, s') \<and> same T s s'
         else \<exists>s' t'. del st ps (Suc fuel) n key s = (Inr True, s') \<and> del_done ps h (PLeaf n cs) nx key T s t' s'"
proof -
  have L: "h = 0" "view s n = Some (Leaf cs nx)" "9 + cells_size cs \<le> ps" "\<forall>c \<in> set cs. int64 (fst c)"
    "sorted_wrt (<) (map fst cs)"
    using tr leaf_forest by auto
  obtain s1 where s1: "st_load st n s = (Inr (Leaf cs nx), s1)" "same T s s1"
    using load_law[OF ok cl L(2)] by (auto simp: same_def)
  note has = has_key_at_iff[OF L(5), of key]
  show ?thesis
  proof (cases "key \<in> fst ` set cs")
    case False
    then show ?thesis using s1 has by (auto simp: Let_def)
  next
    case True
    let ?ds = "del_cells key cs"
    note d = del_at_cell[OF L(5) True]
    obtain s2 where s2: "st_mut st n (Leaf ?ds nx) s1 = (Inr (), s2)" "same (insert n T) s s2"
      using mut_same[OF s1(2) cl(1)] by blast
    have S2: "ok (insert n T) s2" "view s2 = view s" "npages s2 = npages s" using s2(2) by (simp_all add: same_def)
    have sub: "set ?ds \<subseteq> set cs" by (auto simp: del_cells_def)
    have sz: "cells_size ?ds \<le> cells_size cs" unfolding del_cells_def by (induction cs) auto
    have nok: "node_ok (Leaf ?ds nx)"
      by (rule node_ok_leaf) (use sz L(3,4) ps cap_law sub np in \<open>auto simp: page_link_def\<close>)
    obtain s3 where s3: "write_node st n (Leaf ?ds nx) s2 = (Inr (), s3)" "ok (insert n T - {n}) s3"
      "view s3 = (view s)(n \<mapsto> Leaf ?ds nx)" "npages s3 = npages s"
      using write_node_ok[OF S2(1) cl(1)[folded S2(3)] nok] S2 sz L(3) ps by auto
    have srt: "sorted_wrt (<) (map key_mark ?ds)"
    proof -
      have "sorted_wrt (<) (map fst ?ds)"
        using L(5) by (simp add: del_cells_def sorted_wrt_filter sorted_wrt_map)
      then show ?thesis by (simp only: sorted_cells_mark)
    qed
    have "insert n T - {n} = T" using cl(2) by simp
    moreover have "hull0 (map key_mark cs) (map key_mark ?ds)" by (rule hull0_subset) (use sub in auto)
    ultimately have "del_done ps h (PLeaf n cs) nx key T s (PLeaf n ?ds) s3"
      using s3 L(1,3,4) sub sz srt by (auto simp: del_done_def weak_ok_def skel_def)
    moreover have "del st ps (Suc fuel) n key s = (Inr True, s3)"
      using s1(1) has True d s2(1) s3(1) by (simp add: Let_def)
    ultimately show ?thesis using True by auto
  qed
qed

text \<open>One inner node whose routed child lost the key; the two ways to go on.\<close>

lemma del_node:
  assumes T0: "tree_at (view s) ps (Suc h) (PNode n (kl @ kr) (l @ u # r)) nx"
    and len: "length kl = length l" "length kr = length r"
    and F0: "forest_at (view s) ps h (l @ u # r) (kl @ kr) nx"
    and N0: "view s n = Some (Internal (kl @ kr) (map proot (l @ u # r)))" "n \<notin> fpages (l @ u # r)" "kl @ kr \<noteq> []"
      "9 + 8 * length (kl @ kr) + 4 * length (l @ u # r) \<le> ps"
    and cl: "clean_pages T s (insert n (fpages (l @ u # r)))"
    and sp: "\<forall>c \<in> set (fcells (l @ u # r)). spare_cell ps c" "page_size_ok ps" "ps \<le> cap"
      "int (npages s) < NO_PAGE" "page_link nx"
    and D: "del_done ps h u (next_of (concat (map leaves r)) nx) key T s u' s1"
    and cells: "fcells (l @ u' # r) = del_cells key (fcells (l @ u # r))"
  shows "\<exists>s' t'. bindP (st_load st (proot u)) (\<lambda>child. bindP (liftE (underflow ps child)) (\<lambda>un.
            if un then bindP (rebalance st ps n (kl @ kr) (map proot (l @ u # r)) (length l)) (\<lambda>(ks', ch').
              bindP (write_node st n (Internal ks' ch')) (\<lambda>_. ret True))
            else ret True)) s1 = (Inr True, s') \<and>
          del_done ps (Suc h) (PNode n (kl @ kr) (l @ u # r)) nx key T s t' s'"
proof -
  define nc where "nc = next_of (concat (map leaves r)) nx"
  define ch where "ch = map proot (l @ u # r)"
  note D' = D[unfolded del_done_def]
  have W: "weak_ok (view s1) ps h u'" and S1: "skel (view s1) [u'] [] nc" and ru: "proot u' = proot u"
    and pu: "set (pages u') \<subseteq> set (pages u)" and nxt: "\<And>y. next_of (leaves u') y = next_of (leaves u) y"
    and hull: "hull0 (flat u) (flat u')" and ok1: "ok T s1" and np1: "npages s1 = npages s"
    and fr: "\<And>p. p \<notin> set (pages u) \<Longrightarrow> view s1 p = view s p"
    using D' by (simp_all add: nc_def)
  have S0: "skel (view s) (l @ [u] @ r) (kl @ [] @ kr) nx" "\<forall>t \<in> set (l @ [u] @ r). subtree_ok (view s) ps h t"
    using F0 by (simp_all add: forest_skel)
  have disj: "set (pages u) \<inter> (fpages l \<union> fpages r) = {}"
    using S0(1) by (auto simp: skel_def fpages_def)
  have frl: "view s1 p = view s p" if "p \<in> fpages l \<union> fpages r" for p
    using fr[of p] that disj by blast
  have sk: "skel (view s1) (l @ [u'] @ r) (kl @ [] @ kr) nx"
    "hull0 (inter (kl @ [] @ kr) (map flat (l @ [u] @ r))) (inter (kl @ [] @ kr) (map flat (l @ [u'] @ r)))"
    using skel_replace[OF S0(1) len(1) _ S1[unfolded nc_def] frl] pu nxt hull by simp_all
  have lr: "\<forall>t \<in> set (l @ r). subtree_ok (view s1) ps h t"
  proof
    fix t assume t: "t \<in> set (l @ r)"
    then have "set (pages t) \<subseteq> fpages l \<union> fpages r" by (auto simp: fpages_def)
    then have "subtree_ok (view s1) ps h t \<longleftrightarrow> subtree_ok (view s) ps h t"
      by (intro subtree_frame frl) blast
    then show "subtree_ok (view s1) ps h t" using S0(2) t by auto
  qed
  have sub: "fpages (l @ u' # r) \<subseteq> fpages (l @ u # r)" using pu by auto
  have cl1: "clean_pages T s1 (insert n (fpages (l @ [u'] @ r)))"
    using cl sub np1 by (auto simp: clean_pages_def)
  have n1: "n \<notin> fpages (l @ [u'] @ r)" using N0(2) sub by auto
  have spc: "\<forall>c \<in> set (fcells (l @ [u'] @ r)). spare_cell ps c"
    using sp(1) cells by (auto simp: del_cells_def)
  have F1: "fixing ps h n T s1 l [u'] r kl [] kr nx"
    unfolding fixing_def using ok1 sk(1) len lr W cl1 n1 N0(4) spc sp np1 by simp
  have root: "view s1 (proot u') = Some (root_node u' nc)" "node_ok (root_node u' nc)"
    using fixing_root[OF F1, of u' l r] by (simp_all add: nc_def)
  have pu': "proot u' < npages s1" "proot u' \<notin> T" using fixing_pages(1,2)[OF F1, of "proot u'"] by simp_all
  obtain s2 where s2: "st_load st (proot u) s1 = (Inr (root_node u' nc), s2)" "same T s1 s2"
    using load_law[OF ok1 pu' root(1)] ru by (auto simp: same_def)
  note un = underflow_root[OF root(2), of ps]
  have nv: "view s1 n = Some (Internal (kl @ kr) ch)" using fr[of n] N0(1,2) by (auto simp: ch_def)
  have ch': "ch = map proot (l @ u' # r)" using ru by (simp add: ch_def)
  have other: "view s1 p = view s p" if "p \<notin> set (pages (PNode n (kl @ kr) (l @ u # r)))" for p
    using fr[of p] that by auto
  show ?thesis
  proof (cases "weak_root ps u'")
    case False
    have "\<forall>t \<in> set (l @ [u'] @ r). subtree_ok (view s1) ps h t"
      using lr weak_subtree[OF W not_weak_keyed[OF W False]] by simp
    then have F: "forest_at (view s1) ps h (l @ u' # r) (kl @ kr) nx" using sk(1) by (simp add: forest_skel)
    note WN = weak_node[OF F nv[unfolded ch'] _ _]
    have S2: "ok T s2" "view s2 = view s1" "npages s2 = npages s1" using s2(2) by (simp_all add: same_def)
    have "del_done ps (Suc h) (PNode n (kl @ kr) (l @ u # r)) nx key T s (PNode n (kl @ kr) (l @ u' # r)) s2"
      unfolding del_done_def S2(2,3)
    proof (intro conjI)
      show "weak_ok (view s1) ps (Suc h) (PNode n (kl @ kr) (l @ u' # r))"
        "skel (view s1) [PNode n (kl @ kr) (l @ u' # r)] [] nx"
        using WN n1 N0(4) by simp_all
      show "cells (PNode n (kl @ kr) (l @ u' # r)) = del_cells key (cells (PNode n (kl @ kr) (l @ u # r)))"
        using cells by (simp add: fcells_def)
      show "set (pages (PNode n (kl @ kr) (l @ u' # r))) \<subseteq> set (pages (PNode n (kl @ kr) (l @ u # r)))"
        using pu by auto
      show "\<forall>p. p \<notin> set (pages (PNode n (kl @ kr) (l @ u # r))) \<longrightarrow> view s1 p = view s p" using other by blast
    qed (use nxt sk(2) S2 np1 in simp_all)
    moreover have "bindP (st_load st (proot u)) (\<lambda>child. bindP (liftE (underflow ps child)) (\<lambda>un.
            if un then bindP (rebalance st ps n (kl @ kr) (map proot (l @ u # r)) (length l)) (\<lambda>(ks', ch').
              bindP (write_node st n (Internal ks' ch')) (\<lambda>_. ret True))
            else ret True)) s1 = (Inr True, s2)"
      using s2(1) un False by simp
    ultimately show ?thesis by blast
  next
    case True
    have two: "l \<noteq> [] \<or> r \<noteq> []" using N0(3) len by auto
    obtain s3 ts' ks' where R: "rebalance st ps n (kl @ kr) ch (length l) s2 = (Inr (ks', map proot ts'), s3)"
      "refitted ps h n T s1 (l @ u' # r) (kl @ kr) nx ts' ks' s3"
      using rebalance_ok[OF F1 True two s2(2)] unfolding ch' by blast
    then obtain T' where R': "refit ps h (l @ u' # r) (kl @ kr) (view s3) ts' ks' nx" "ok T' s3" "T' - {n} = T"
      "npages s3 = npages s1" "\<And>p. p \<notin> fpages (l @ u' # r) \<Longrightarrow> p \<noteq> n \<Longrightarrow> view s3 p = view s1 p"
      "length ks' \<le> length (kl @ kr)"
      unfolding refitted_def by blast
    note RF = R'(1)[unfolded refit_def]
    have F3: "forest_at (view s3) ps h ts' ks' nx" and pts: "fpages ts' \<subseteq> fpages (l @ u' # r)"
      and cts: "fcells ts' = fcells (l @ u' # r)"
      and nts: "\<And>y. next_of (concat (map leaves ts')) y = next_of (concat (map leaves (l @ u' # r))) y"
      and hts: "hull0 (inter (kl @ kr) (map flat (l @ u' # r))) (inter ks' (map flat ts'))"
      using RF by blast+
    have lts: "length ts' = Suc (length ks')" "\<forall>k \<in> set ks'. int64 k" using F3 by (simp_all add: forest_at_def)
    have size: "9 + 8 * length ks' + 4 * length ts' \<le> ps" using N0(4) R'(6) lts len by simp
    have nts': "n \<notin> fpages ts'" using n1 pts by auto
    let ?nd = "Internal ks' (map proot ts')"
    have nok: "node_ok ?nd"
    proof (rule node_ok_internal[OF _ lts(2)])
      show "8 * length ks' + 4 * length (map proot ts') < 2 ^ 31" using size sp(3) cap_law by simp
      show "\<forall>c \<in> set (map proot ts'). int c < 2 ^ 32"
      proof
        fix p assume "p \<in> set (map proot ts')"
        then have "p \<in> fpages (l @ [u'] @ r)" using proots_in_pages[of ts'] pts by auto
        then have "int p < NO_PAGE" using fixing_pages(3)[OF F1] by blast
        then show "int p < 2 ^ 32" by (simp add: NO_PAGE_def)
      qed
    qed
    have "n < npages s3" using fixing_pages(1)[OF F1, of n] R'(4) by simp
    then obtain s4 where s4: "write_node st n ?nd s3 = (Inr (), s4)" "ok T s4" "view s4 = (view s3)(n \<mapsto> ?nd)"
      "npages s4 = npages s3"
      using write_node_ok[OF R'(2) _ nok] R'(3) size sp(3) by auto
    have F4: "forest_at (view s4) ps h ts' ks' nx"
    proof (rule forest_frame[THEN iffD2])
      show "view s4 p = view s3 p" if "p \<in> fpages ts'" for p using that nts' s4(3) by auto
    qed (rule F3)
    have vn: "view s4 n = Some ?nd" using s4(3) by simp
    note WN = weak_node[OF F4 vn nts' size]
    have "del_done ps (Suc h) (PNode n (kl @ kr) (l @ u # r)) nx key T s (PNode n ks' ts') s4"
      unfolding del_done_def
    proof (intro conjI)
      show "cells (PNode n ks' ts') = del_cells key (cells (PNode n (kl @ kr) (l @ u # r)))"
        using cells cts by (simp add: fcells_def)
      have "set (pages (PNode n ks' ts')) \<subseteq> insert n (fpages (l @ u # r))" using pts sub by (auto simp: fpages_def)
      then show "set (pages (PNode n ks' ts')) \<subseteq> set (pages (PNode n (kl @ kr) (l @ u # r)))" by (auto simp: fpages_def)
      show "hull0 (flat (PNode n (kl @ kr) (l @ u # r))) (flat (PNode n ks' ts'))"
        using hull0_trans[OF sk(2)] hts by simp
      show "\<forall>p. p \<notin> set (pages (PNode n (kl @ kr) (l @ u # r))) \<longrightarrow> view s4 p = view s p"
      proof (intro allI impI)
        fix p assume p: "p \<notin> set (pages (PNode n (kl @ kr) (l @ u # r)))"
        then have "p \<noteq> n" "p \<notin> fpages (l @ u # r)" by (auto simp: fpages_def)
        then have "view s4 p = view s1 p" using s4(3) R'(5)[of p] sub by auto
        then show "view s4 p = view s p" using other[OF p] by simp
      qed
      show "\<forall>y. next_of (leaves (PNode n ks' ts')) y = next_of (leaves (PNode n (kl @ kr) (l @ u # r))) y"
        using nts nxt by simp
    qed (rule WN, rule WN, use s4 np1 R'(4) in simp_all)
    moreover have "bindP (st_load st (proot u)) (\<lambda>child. bindP (liftE (underflow ps child)) (\<lambda>un.
            if un then bindP (rebalance st ps n (kl @ kr) ch (length l)) (\<lambda>(ks', ch').
              bindP (write_node st n (Internal ks' ch')) (\<lambda>_. ret True))
            else ret True)) s1 = (Inr True, s4)"
      using s2(1) un True R(1) s4(1) by simp
    ultimately show ?thesis unfolding ch_def by blast
  qed
qed

lemma del_ok:
  assumes "ok T s" and "tree_at (view s) ps h t nx" and "clean_pages T s (set (pages t))" and "h < fuel"
    and "\<forall>c \<in> set (cells t). spare_cell ps c" and "page_size_ok ps" and "ps \<le> cap"
    and "int (npages s) < NO_PAGE" and "page_link nx"
  shows "if key \<notin> keys_of t then \<exists>s'. del st ps fuel (proot t) key s = (Inr False, s') \<and> same T s s'
         else \<exists>s' t'. del st ps fuel (proot t) key s = (Inr True, s') \<and> del_done ps h t nx key T s t' s'"
  using assms
proof (induction fuel arbitrary: s h t nx)
  case 0
  then show ?case by simp
next
  case (Suc fuel)
  show ?case
  proof (cases t)
    case (PLeaf n cs)
    have "n < npages s" "n \<notin> T" using Suc.prems(3) PLeaf by (auto simp: clean_pages_def)
    then show ?thesis
      using del_leaf[of T s ps h n cs nx key fuel] Suc.prems PLeaf
      by (cases "key \<in> fst ` set cs") (simp_all add: keys_of_def del: del.simps)
  next
    case (PNode n ks ts)
    obtain h' where N: "h = Suc h'" "forest_at (view s) ps h' ts ks nx"
      "view s n = Some (Internal ks (map proot ts))" "n \<notin> fpages ts" "ks \<noteq> []"
      "9 + 8 * length ks + 4 * length ts \<le> ps"
      using node_forest[of "view s" ps h n ks ts nx] Suc.prems(2) unfolding PNode by blast
    obtain s1 where s1: "st_load st n s = (Inr (Internal ks (map proot ts)), s1)" "same T s s1"
      using load_same[OF Suc.prems(1,3) _ N(3)] PNode by auto
    have S1: "ok T s1" "view s1 = view s" "npages s1 = npages s" using s1(2) by (simp_all add: same_def)
    have lts: "length ts = Suc (length ks)" and srt: "sorted_wrt (<) (inter ks (map flat ts))"
      and bal: "\<forall>u \<in> set ts. bal h' u"
      using N(2) by (auto simp: forest_at_def subtree_ok_def)
    obtain kl kr l u r where R: "ks = kl @ kr" "ts = l @ u # r" "length kl = length l"
      "length kr = length r" "child_index ks key = length l"
      "inter ks (map flat ts) = before kl (map flat l) @ flat u @ after kr (map flat r)"
      and lo: "\<And>x. x \<in> set (before kl (map flat l)) \<Longrightarrow> x < 2 * key + 1"
      and hi: "\<And>x. x \<in> set (after kr (map flat r)) \<Longrightarrow> 2 * key + 1 < x"
      by (rule child_route[OF lts srt, where key = key]) (rule that)
    note F0 = N(2)[unfolded R(1,2)]
    let ?nc = "next_of (concat (map leaves r)) nx"
    have child: "tree_at (view s1) ps h' u ?nc"
      using forest_child[OF F0] R(3,4) S1(2) by simp
    have cl: "clean_pages T s (insert n (fpages (l @ u # r)))"
      using Suc.prems(3) PNode R(2) by (auto simp: clean_pages_def fpages_def)
    have clean: "clean_pages T s1 (set (pages u))"
      using cl S1(3) by (auto simp: clean_pages_def)
    have rest: "\<forall>t \<in> set (l @ r). bal h' t" using bal R(2) by auto
    have rc: "\<And>c. c \<in> set (fcells l) \<Longrightarrow> fst c < key" "\<And>c. c \<in> set (fcells r) \<Longrightarrow> key < fst c"
      using route_cells[OF R(3,4) rest, of key] lo hi by blast+
    have cells_t: "cells t = fcells l @ cells u @ fcells r" using PNode R(2) by (simp add: fcells_def)
    then have kiff: "key \<in> keys_of t \<longleftrightarrow> key \<in> keys_of u"
      using rc by (fastforce simp: keys_of_def)
    have nclink: "page_link ?nc"
    proof (rule page_link_next[OF Suc.prems(9)])
      have "fpages r \<subseteq> fpages (l @ u # r)" by auto
      then have "p < npages s" if "p \<in> fpages r" for p using cl that by (auto simp: clean_pages_def)
      then show "\<forall>p \<in> fpages r. int p < NO_PAGE" using Suc.prems(8) by fastforce
    qed
    have h': "h' < fuel" using Suc.prems(4) N(1) by simp
    have sp: "\<forall>c \<in> set (cells u). spare_cell ps c" using Suc.prems(5) cells_t by simp
    note IH = Suc.IH[OF S1(1) child clean h' sp Suc.prems(6,7) Suc.prems(8)[folded S1(3)] nclink]
    have nth: "nth_err (map proot ts) (length l) = Inr (proot u)"
      by (simp add: R(2) nth_err_def nth_append)
    show ?thesis
    proof (cases "key \<in> keys_of t")
      case False
      then obtain s2 where "del st ps fuel (proot u) key s1 = (Inr False, s2)" "same T s1 s2"
        using IH kiff by auto
      moreover have "same T s s2" using same_trans[OF s1(2)] calculation(2) .
      ultimately show ?thesis using False PNode s1(1) nth R(5) by (simp add: Let_def)
    next
      case True
      then obtain s2 u' where s2: "del st ps fuel (proot u) key s1 = (Inr True, s2)"
        "del_done ps h' u ?nc key T s1 u' s2"
        using IH kiff by auto
      then have D: "del_done ps h' u ?nc key T s u' s2" using S1 by (simp add: del_done_def)
      have "cells u' = del_cells key (cells u)" using D by (simp add: del_done_def)
      then have cells: "fcells (l @ u' # r) = del_cells key (fcells (l @ u # r))"
        using del_cells_mid[of "fcells l" key "fcells r" "cells u"] rc by simp
      have T0: "tree_at (view s) ps (Suc h') (PNode n (kl @ kr) (l @ u # r)) nx"
        using Suc.prems(2) PNode N(1) R(1,2) by simp
      have spf: "\<forall>c \<in> set (fcells (l @ u # r)). spare_cell ps c" using Suc.prems(5) cells_t by simp
      obtain s3 t' where s3: "bindP (st_load st (proot u)) (\<lambda>child. bindP (liftE (underflow ps child)) (\<lambda>un.
            if un then bindP (rebalance st ps n (kl @ kr) (map proot (l @ u # r)) (length l)) (\<lambda>(ks', ch').
              bindP (write_node st n (Internal ks' ch')) (\<lambda>_. ret True))
            else ret True)) s2 = (Inr True, s3)"
          "del_done ps (Suc h') (PNode n (kl @ kr) (l @ u # r)) nx key T s t' s3"
        using del_node[OF T0 R(3,4) F0 N(3)[unfolded R(1,2)] N(4)[unfolded R(2)] N(5)[unfolded R(1)]
            N(6)[unfolded R(1,2)] cl spf Suc.prems(6-9) D cells] by blast
      then have "del st ps (Suc fuel) (proot t) key s = (Inr True, s3)"
        using PNode s1(1) nth R(1,2,5) s2(1) by (simp add: Let_def bindP_app cong: if_cong)
      then show ?thesis using True s3(2) PNode N(1) R(1,2) by auto
    qed
  qed
qed

lemma collapse_root_ok:
  assumes "ok T s" and W: "weak_ok (view s) ps h t" and S: "skel (view s) [t] [] None"
    and cl: "clean_pages T s (set (pages t))" and fuel: "h < fuel"
  shows "\<exists>s' t' h'. collapse_root st fuel (proot t) s = (Inr (proot t'), s') \<and> same T s s' \<and>
           is_tree ps h' T s' t' \<and> cells t' = cells t \<and> set (pages t') \<subseteq> set (pages t) \<and> h' \<le> h"
proof -
  obtain f where f: "fuel = Suc f" using fuel by (cases fuel) auto
  have top: "\<exists>s'. collapse_root st (Suc g) (proot u) s0 = (Inr (proot u), s') \<and> same T s0 s'"
    if "ok T s0" "weak_ok (view s0) ps k u" "keyed u" "skel (view s0) [u] [] None" "clean_pages T s0 (set (pages u))" for s0 u k g
  proof -
    note H = that
    have v: "view s0 (proot u) = Some (root_node u None)"
      using root_view[of "view s0" "[]" u "[]" "[]" None] H by (simp add: weak_ok_def)
    obtain s1 where "st_load st (proot u) s0 = (Inr (root_node u None), s1)" "same T s0 s1"
      using load_same[OF H(1,5) _ v] by auto
    then show ?thesis using H(3) by (cases u) auto
  qed
  show ?thesis
  proof (cases "keyed t")
    case True
    obtain s' where "collapse_root st fuel (proot t) s = (Inr (proot t), s')" "same T s s'"
      using top[OF assms(1) W True S cl] f by blast
    moreover have "is_tree ps h T s' t"
      using calculation(2) weak_subtree[OF W True] S cl clean_same[of T s s']
      by (auto simp: is_tree_def same_def forest_skel)
    ultimately show ?thesis by blast
  next
    case False
    then obtain n ks ts where t: "t = PNode n ks ts" by (cases t) auto
    have "ks = []" using W False t by (auto simp: weak_ok_def)
    moreover have len: "length ts = Suc (length ks)" using W t by (auto simp: weak_ok_def split: nat.splits)
    ultimately obtain u where u: "ks = []" "ts = [u]" by (cases ts) auto
    obtain h' where h': "h = Suc h'" using W t by (auto simp: weak_ok_def split: nat.splits)
    have v: "view s n = Some (Internal [] [proot u])" using W t u by (simp add: weak_ok_def)
    have ku: "keyed u" "weak_ok (view s) ps h' u"
    proof -
      show "keyed u" using W t u by (simp add: weak_ok_def)
      then have "subtree_ok (view s) ps h' u" using W t u h' by (simp add: weak_ok_def subtree_ok_def)
      then show "weak_ok (view s) ps h' u" by (rule subtree_weak)
    qed
    have su: "skel (view s) [u] [] None" using S t u by (simp add: skel_def)
    have nt: "n \<in> set (pages t)" using t by simp
    obtain s1 where s1: "st_load st n s = (Inr (Internal [] [proot u]), s1)" "same T s s1"
      using load_same[OF assms(1) cl nt v] by blast
    have S1: "ok T s1" "view s1 = view s" using s1(2) by (simp_all add: same_def)
    have clu: "clean_pages T s1 (set (pages u))" using cl clean_same[OF s1(2)] t u by (auto simp: clean_pages_def)
    obtain g where g: "f = Suc g" using fuel f h' by (cases f) auto
    obtain s2 where s2: "collapse_root st (Suc g) (proot u) s1 = (Inr (proot u), s2)" "same T s1 s2"
      using top[OF S1(1) _ ku(1) _ clu, of h'] ku(2) su S1(2) by auto
    have "is_tree ps h' T s2 u"
      using weak_subtree[OF ku(2,1)] su s2(2) S1(2) clu clean_same[OF s2(2)]
      by (auto simp: is_tree_def same_def forest_skel)
    moreover have "collapse_root st fuel (proot t) s = (Inr (proot u), s2)"
      using f g t s1(1) s2(1) by (simp add: nth_err_def)
    ultimately show ?thesis using same_trans[OF s1(2) s2(2)] t u h' by (intro exI[of _ s2] exI[of _ u] exI[of _ h']) auto
  qed
qed

lemma tree_delete_ok:
  assumes I: "is_tree ps h T s t" and fuel: "h < fuel" and sp: "\<forall>c \<in> set (cells t). spare_cell ps c"
    and ps: "page_size_ok ps" "ps \<le> cap" and np: "int (npages s) < NO_PAGE"
  shows "\<exists>s' t' h'. tree_delete st ps fuel (proot t) key s = (Inr (proot t', key \<in> keys_of t), s') \<and>
           is_tree ps h' T s' t' \<and> cells t' = del_cells key (cells t) \<and> h' \<le> h \<and>
           others_kept s s' t \<and> set (pages t') \<subseteq> set (pages t) \<and> npages s' = npages s"
proof -
  have I': "ok T s" "tree_at (view s) ps h t None" "clean_pages T s (set (pages t))"
    using I by (simp_all add: is_tree_def)
  note D = del_ok[OF I' fuel sp ps np page_link_simps(1), of key]
  show ?thesis
  proof (cases "key \<in> keys_of t")
    case False
    then obtain s1 where s1: "del st ps fuel (proot t) key s = (Inr False, s1)" "same T s s1" using D by auto
    have "del_cells key (cells t) = cells t"
      using False unfolding del_cells_def keys_of_def by (intro filter_True) auto
    moreover have "is_tree ps h T s1 t"
      using I s1(2) clean_same[OF s1(2)] by (simp add: is_tree_def same_def)
    moreover have "tree_delete st ps fuel (proot t) key s = (Inr (proot t, False), s1)"
      using s1(1) by (simp add: tree_delete_def bindP_app)
    ultimately show ?thesis
      using False s1(2) by (intro exI[of _ s1] exI[of _ t] exI[of _ h]) (simp add: others_kept_def same_def)
  next
    case True
    then obtain s1 t1 where s1: "del st ps fuel (proot t) key s = (Inr True, s1)" "del_done ps h t None key T s t1 s1"
      using D by auto
    note D1 = s1(2)[unfolded del_done_def]
    have "clean_pages T s1 (set (pages t1))" using D1 I'(3) by (auto simp: clean_pages_def)
    then obtain s2 t2 h2 where s2: "collapse_root st fuel (proot t1) s1 = (Inr (proot t2), s2)" "same T s1 s2"
      "is_tree ps h2 T s2 t2" "cells t2 = cells t1" "set (pages t2) \<subseteq> set (pages t1)" "h2 \<le> h"
      using collapse_root_ok[of T s1 ps h t1 fuel] D1 fuel by blast
    have "tree_delete st ps fuel (proot t) key s = (Inr (proot t2, True), s2)"
      using s1(1) s2(1) D1 by (simp add: tree_delete_def bindP_app)
    then show ?thesis
      using True s2 D1 by (intro exI[of _ s2] exI[of _ t2] exI[of _ h2]) (auto simp: others_kept_def same_def)
  qed
qed

end

section \<open>Replacing a value\<close>

lemma set_at_cell:
  assumes "sorted_wrt (<) (map fst cs)" and "map_of cs key = Some old"
  shows "set_at (cell_index cs key) (key, v) cs = Inr (upd_cells key v cs)"
    and "cells_size (upd_cells key v cs) + length old = cells_size cs + length v"
    and "map key_mark (upd_cells key v cs) = map key_mark cs"
proof -
  define i where "i = cell_index cs key"
  have k: "key \<in> fst ` set cs" using assms(2) by (metis map_of_none option.distinct(1))
  have i: "i < length cs" "fst (cs ! i) = key"
    using has_key_at_iff[OF assms(1), of key] k by (auto simp: has_key_at_def i_def)
  have "cs ! i = (key, snd (cs ! i))" using i(2) by (metis prod.collapse)
  moreover have "snd (cs ! i) = old" using cell_at_index[OF assms(1) k] assms(2) by (simp add: i_def)
  ultimately have c: "cs ! i = (key, old)" by simp
  define a b where "a = take i cs" and "b = drop (Suc i) cs"
  have cs: "cs = a @ (key, old) # b" using i(1) c by (metis a_def b_def id_take_nth_drop)
  have srt: "sorted_wrt (<) (map fst (a @ (key, old) # b))" using assms(1) cs by metis
  have "\<forall>c \<in> set a. fst c \<noteq> key" "\<forall>c \<in> set b. fst c \<noteq> key"
    using srt by (auto simp: sorted_wrt_append)
  then have "upd_cells key v (a @ (key, old) # b) = a @ (key, v) # b"
    by (simp add: upd_cells_def map_idI)
  then have u: "upd_cells key v cs = a @ (key, v) # b" using cs by metis
  have "length a = i" using i(1) by (simp add: a_def)
  then have "cs[i := (key, v)] = a @ (key, v) # b" by (metis cs list_update_length)
  then show "set_at (cell_index cs key) (key, v) cs = Inr (upd_cells key v cs)"
    using u i(1) by (simp add: set_at_def i_def[symmetric])
  show "cells_size (upd_cells key v cs) + length old = cells_size cs + length v"
    unfolding u using arg_cong[OF cs, of cells_size] by simp
  show "map key_mark (upd_cells key v cs) = map key_mark cs"
    by (auto simp: upd_cells_def key_mark_def)
qed

context page_store
begin

definition rep_done :: "nat \<Rightarrow> nat \<Rightarrow> ptree \<Rightarrow> nat option \<Rightarrow> int \<Rightarrow> bytes \<Rightarrow> nat set \<Rightarrow> 's \<Rightarrow> ptree \<Rightarrow> 's \<Rightarrow> bool" where
  "rep_done ps h t nx key v T s t' s' \<longleftrightarrow>
     tree_at (view s') ps h t' nx \<and> proot t' = proot t \<and> cells t' = upd_cells key v (cells t) \<and>
     pages t' = pages t \<and> (\<forall>y. next_of (leaves t') y = next_of (leaves t) y) \<and> flat t' = flat t \<and>
     ok T s' \<and> npages s' = npages s \<and> (\<forall>p. p \<notin> set (pages t) \<longrightarrow> view s' p = view s p)"

lemma replace_leaf:
  assumes ok: "ok T s" and tr: "tree_at (view s) cap h (PLeaf n cs) nx" and cl: "n < npages s" "n \<notin> T"
    and np: "page_link nx" and old: "map_of cs key = Some old" and v: "length v \<le> MAX_VALUE_SIZE"
  shows "(\<exists>s' t'. replace_cell st (Suc fuel) n key v s = (Inr (), s') \<and> rep_done cap h (PLeaf n cs) nx key v T s t' s') \<or>
         (length old < length v \<and> (\<exists>s'. replace_cell st (Suc fuel) n key v s = (Inl ValueError, s')))"
proof -
  have L: "h = 0" "view s n = Some (Leaf cs nx)" "9 + cells_size cs \<le> cap" "\<forall>c \<in> set cs. int64 (fst c)"
    "sorted_wrt (<) (map fst cs)"
    using tr leaf_forest by auto
  let ?ds = "upd_cells key v cs"
  note U = set_at_cell[OF L(5) old, of v]
  have k: "int64 key" using L(4) old by (metis fst_conv map_of_SomeD)
  obtain s1 where s1: "st_load st n s = (Inr (Leaf cs nx), s1)" "same T s s1"
    using load_law[OF ok cl L(2)] by (auto simp: same_def)
  obtain s2 where s2: "st_mut st n (Leaf ?ds nx) s1 = (Inr (), s2)" "same (insert n T) s s2"
    using mut_same[OF s1(2) cl(1)] by blast
  have S2: "ok (insert n T) s2" "view s2 = view s" "npages s2 = npages s" using s2(2) by (simp_all add: same_def)
  have nok: "node_ok (Leaf ?ds nx)"
  proof (rule node_ok_leaf)
    show "cells_size ?ds < 2 ^ 31" using U(2) L(3) cap_law v by (simp add: MAX_VALUE_SIZE_def)
    show "\<forall>c \<in> set ?ds. int64 (fst c)" using L(4) k by (auto simp: upd_cells_def)
  qed (use np in \<open>simp add: page_link_def\<close>)
  have run: "replace_cell st (Suc fuel) n key v s = write_node st n (Leaf ?ds nx) s2"
    using s1(1) U(1) s2(1) by simp
  show ?thesis
  proof (cases "node_size (Leaf ?ds nx) \<le> cap")
    case False
    then have "\<exists>s'. write_node st n (Leaf ?ds nx) s2 = (Inl ValueError, s')"
      by (intro write_node_big[OF S2(1) nok]) simp
    moreover have "length old < length v" using False U(2) L(3) by simp
    ultimately show ?thesis using run by simp
  next
    case True
    obtain s3 where s3: "write_node st n (Leaf ?ds nx) s2 = (Inr (), s3)" "ok (insert n T - {n}) s3"
      "view s3 = (view s)(n \<mapsto> Leaf ?ds nx)" "npages s3 = npages s"
      using write_node_ok[OF S2(1) cl(1)[folded S2(3)] nok True] S2 by auto
    have "sorted_wrt (<) (map key_mark ?ds)"
      using L(5) U(3) by (simp only: sorted_cells_mark)
    moreover have "insert n T - {n} = T" using cl(2) by simp
    moreover have "\<forall>c \<in> set ?ds. int64 (fst c)" using L(4) k by (auto simp: upd_cells_def)
    ultimately have "rep_done cap h (PLeaf n cs) nx key v T s (PLeaf n ?ds) s3"
      using s3 L(1) True U(3) by (auto simp: rep_done_def forest_at_def subtree_ok_def)
    then show ?thesis using run s3(1) by auto
  qed
qed

lemma replace_ok:
  assumes "ok T s" and "tree_at (view s) cap h t nx" and "clean_pages T s (set (pages t))" and "h < fuel"
    and "map_of (cells t) key = Some old" and "length v \<le> MAX_VALUE_SIZE"
    and "int (npages s) < NO_PAGE" and "page_link nx"
  shows "(\<exists>s' t'. replace_cell st fuel (proot t) key v s = (Inr (), s') \<and> rep_done cap h t nx key v T s t' s') \<or>
         (length old < length v \<and> (\<exists>s'. replace_cell st fuel (proot t) key v s = (Inl ValueError, s')))"
  using assms
proof (induction fuel arbitrary: s h t nx)
  case 0
  then show ?case by simp
next
  case (Suc fuel)
  show ?case
  proof (cases t)
    case (PLeaf n cs)
    have "n < npages s" "n \<notin> T" using Suc.prems(3) PLeaf by (auto simp: clean_pages_def)
    then show ?thesis
      using replace_leaf[of T s h n cs nx key old v fuel] Suc.prems PLeaf by (simp del: replace_cell.simps)
  next
    case (PNode n ks ts)
    obtain h' where N: "h = Suc h'" "forest_at (view s) cap h' ts ks nx"
      "view s n = Some (Internal ks (map proot ts))" "n \<notin> fpages ts" "ks \<noteq> []"
      "9 + 8 * length ks + 4 * length ts \<le> cap"
      using node_forest[of "view s" cap h n ks ts nx] Suc.prems(2) unfolding PNode by blast
    obtain s1 where s1: "st_load st n s = (Inr (Internal ks (map proot ts)), s1)" "same T s s1"
      using load_same[OF Suc.prems(1,3) _ N(3)] PNode by auto
    have S1: "ok T s1" "view s1 = view s" "npages s1 = npages s" using s1(2) by (simp_all add: same_def)
    have lts: "length ts = Suc (length ks)" and srt: "sorted_wrt (<) (inter ks (map flat ts))"
      and bal: "\<forall>u \<in> set ts. bal h' u"
      using N(2) by (auto simp: forest_at_def subtree_ok_def)
    obtain kl kr l u r where R: "ks = kl @ kr" "ts = l @ u # r" "length kl = length l"
      "length kr = length r" "child_index ks key = length l"
      "inter ks (map flat ts) = before kl (map flat l) @ flat u @ after kr (map flat r)"
      and lo: "\<And>x. x \<in> set (before kl (map flat l)) \<Longrightarrow> x < 2 * key + 1"
      and hi: "\<And>x. x \<in> set (after kr (map flat r)) \<Longrightarrow> 2 * key + 1 < x"
      by (rule child_route[OF lts srt, where key = key]) (rule that)
    note F0 = N(2)[unfolded R(1,2)]
    let ?nc = "next_of (concat (map leaves r)) nx"
    have child: "tree_at (view s1) cap h' u ?nc"
      using forest_child[OF F0] R(3,4) S1(2) by simp
    have cl: "clean_pages T s (fpages (l @ u # r))"
      using Suc.prems(3) PNode R(2) by (auto simp: clean_pages_def fpages_def)
    have clean: "clean_pages T s1 (set (pages u))"
      using cl S1(3) by (auto simp: clean_pages_def)
    have rest: "\<forall>t \<in> set (l @ r). bal h' t" using bal R(2) by auto
    have rc: "\<And>c. c \<in> set (fcells l) \<Longrightarrow> fst c < key" "\<And>c. c \<in> set (fcells r) \<Longrightarrow> key < fst c"
      using route_cells[OF R(3,4) rest, of key] lo hi by blast+
    have cells_t: "cells t = fcells l @ cells u @ fcells r" using PNode R(2) by (simp add: fcells_def)
    have none: "map_of (fcells l) key = None" "map_of (fcells r) key = None"
      using rc by (force simp: map_of_eq_None_iff)+
    then have old: "map_of (cells u) key = Some old"
      using Suc.prems(5) cells_t by (simp add: map_add_def split: option.splits)
    have nclink: "page_link ?nc"
    proof (rule page_link_next[OF Suc.prems(8)])
      have "fpages r \<subseteq> fpages (l @ u # r)" by auto
      then have "p < npages s" if "p \<in> fpages r" for p using cl that by (auto simp: clean_pages_def)
      then show "\<forall>p \<in> fpages r. int p < NO_PAGE" using Suc.prems(7) by fastforce
    qed
    have h': "h' < fuel" using Suc.prems(4) N(1) by simp
    note IH = Suc.IH[OF S1(1) child clean h' old Suc.prems(6) Suc.prems(7)[folded S1(3)] nclink]
    have nth: "nth_err (map proot ts) (length l) = Inr (proot u)"
      by (simp add: R(2) nth_err_def nth_append)
    have run: "replace_cell st (Suc fuel) (proot t) key v s = replace_cell st fuel (proot u) key v s1"
      using PNode s1(1) nth R(5) by simp
    from IH show ?thesis
    proof (elim disjE exE conjE)
      fix s2 u' assume s2: "replace_cell st fuel (proot u) key v s1 = (Inr (), s2)"
        "rep_done cap h' u ?nc key v T s1 u' s2"
      note D = s2(2)[unfolded rep_done_def S1]
      have S0: "skel (view s) (l @ [u] @ r) (kl @ [] @ kr) nx" "\<forall>t \<in> set (l @ r). subtree_ok (view s) cap h' t"
        using F0 by (simp_all add: forest_skel)
      have "set (pages u) \<inter> (fpages l \<union> fpages r) = {}"
        using S0(1) by (auto simp: skel_def fpages_def)
      then have frl: "view s2 p = view s p" if "p \<in> fpages l \<union> fpages r" for p
        using D that by blast
      have F2: "forest_at (view s2) cap h' (l @ [u'] @ r) (kl @ [] @ kr) nx"
        by (rule forest_refill[OF S0(1) R(3) _ S0(2)]) (use D frl in auto)
      have "n \<notin> set (pages u)" using N(4) R(2) by (simp add: fpages_def)
      then have v2: "view s2 n = Some (Internal (kl @ kr) (map proot (l @ u' # r)))"
        using D N(3) R(1,2) by simp
      have pgs: "n \<notin> fpages (l @ u' # r)" using N(4) R(2) D by auto
      have "tree_at (view s2) cap h (PNode n (kl @ kr) (l @ u' # r)) nx"
        unfolding N(1) by (rule forest_node) (use F2 v2 pgs N(5,6) R(1,2) in auto)
      moreover have "flat (PNode n (kl @ kr) (l @ u' # r)) = flat t" using PNode R(1,2) D by simp
      moreover have "cells (PNode n (kl @ kr) (l @ u' # r)) = upd_cells key v (cells t)"
        using upd_cells_mid[of "fcells l" key "fcells r" v "cells u"] rc D cells_t by (simp add: fcells_def)
      ultimately have "rep_done cap h t nx key v T s (PNode n (kl @ kr) (l @ u' # r)) s2"
        using D PNode R(1,2) by (simp add: rep_done_def)
      then show ?thesis using run s2(1) by auto
    next
      fix s2 assume "length old < length v" "replace_cell st fuel (proot u) key v s1 = (Inl ValueError, s2)"
      then show ?thesis using run by simp
    qed
  qed
qed

lemma tree_upsert_ok:
  assumes I: "is_tree cap h T s t" and fuel: "h < fuel" and old: "map_of (cells t) key = Some old"
    and v: "length v \<le> MAX_VALUE_SIZE" and np: "int (npages s) + int h + 1 < NO_PAGE" and "48 \<le> cap"
  shows "(\<exists>s' t'. tree_upsert st cap fuel (proot t) key v s = (Inr (proot t'), s') \<and> proot t' = proot t \<and>
            is_tree cap h T s' t' \<and> cells t' = upd_cells key v (cells t) \<and> others_kept s s' t \<and>
            set (pages t') = set (pages t) \<and> npages s' = npages s) \<or>
         (length old < length v \<and> (\<exists>s'. tree_upsert st cap fuel (proot t) key v s = (Inl ValueError, s')))"
proof -
  have I': "ok T s" "tree_at (view s) cap h t None" "clean_pages T s (set (pages t))"
    using I by (simp_all add: is_tree_def)
  have mem: "key \<in> keys_of t" "(key, old) \<in> set (cells t)"
    using old map_of_SomeD[OF old] by (force simp: keys_of_def)+
  then have k: "int64 key"
  proof -
    have "keys64 t" using I'(2) by (simp add: forest_at_def subtree_ok_def)
    moreover have "keys64 u \<Longrightarrow> c \<in> set (cells u) \<Longrightarrow> int64 (fst c)" for u c
      by (induction u rule: keys64.induct) auto
    ultimately show ?thesis using mem(2) by fastforce
  qed
  obtain s1 where s1: "tree_insert st cap fuel (proot t) key v s = (Inl (DuplicateKey key), s1)" "same T s s1"
    using tree_insert_ok[OF I fuel k v np \<open>48 \<le> cap\<close>] mem(1) by auto
  have S1: "ok T s1" "view s1 = view s" "npages s1 = npages s" using s1(2) by (simp_all add: same_def)
  have t1: "tree_at (view s1) cap h t None" using I'(2) S1(2) by simp
  have c1: "clean_pages T s1 (set (pages t))" using I'(3) clean_same[OF s1(2)] by simp
  have n1: "int (npages s1) < NO_PAGE" using np S1(3) by simp
  have run: "tree_upsert st cap fuel (proot t) key v s = bindP (replace_cell st fuel (proot t) key v) (\<lambda>_. ret (proot t)) s1"
    using v s1(1) by (simp add: tree_upsert_def)
  from replace_ok[OF S1(1) t1 c1 fuel old v n1 page_link_simps(1)] show ?thesis
  proof (elim disjE exE conjE)
    fix s2 t' assume s2: "replace_cell st fuel (proot t) key v s1 = (Inr (), s2)" "rep_done cap h t None key v T s1 t' s2"
    note D = s2(2)[unfolded rep_done_def S1]
    have "is_tree cap h T s2 t'" using D c1 S1(3) by (simp add: is_tree_def clean_pages_def)
    then show ?thesis using run s2(1) D by (intro disjI1 exI[of _ s2] exI[of _ t']) (simp add: others_kept_def)
  next
    fix s2 assume "length old < length v" "replace_cell st fuel (proot t) key v s1 = (Inl ValueError, s2)"
    then show ?thesis using run by simp
  qed
qed

end

end
