(* ===== verification/TreeStore.thy ===== *)
theory TreeStore
  imports TreeDeleteOk PagerProps "HOL-Library.AList"
begin

text \<open>
  The layer that \<open>BTree\<close> really works on: the pager and \<open>BTree._ncache\<close>, the cache of parsed
  nodes. A cache entry is used when the page object the pager returns is the very object
  the node was parsed from, so entries carry that object's identity. The interpretation at
  the end discharges the laws of the page store for it.
\<close>

record bstate =
  bpager :: pager
  ncache :: "(nat \<times> nat \<times> node) list"

definition bt_load :: "nat \<Rightarrow> (bstate, node) prog" where
  "bt_load n s =
     (case pager_get n (bpager s) of
        (Inl e, p) \<Rightarrow> (Inl e, s\<lparr>bpager := p\<rparr>)
      | (Inr d, p) \<Rightarrow>
          (let s1 = s\<lparr>bpager := p\<rparr>;
               parse = (case node_from_bytes (snd d) of
                   Inl e \<Rightarrow> (Inl e, s1)
                 | Inr nd \<Rightarrow>
                     (let c = (if 512 < length (ncache s1) then [] else ncache s1) in
                      (Inr nd, s1\<lparr>ncache := AList.update n (fst d, nd) c\<rparr>)))
           in case map_of (ncache s1) n of
                Some (oid, nd) \<Rightarrow> if oid = fst d then (Inr nd, s1) else parse
              | None \<Rightarrow> parse))"

text \<open>Changing the node object in place: the cache, where it holds the object, sees the change.\<close>

definition bt_mut :: "nat \<Rightarrow> node \<Rightarrow> (bstate, unit) prog" where
  "bt_mut n nd s =
     (case map_of (ncache s) n of
        Some (oid, old) \<Rightarrow> (Inr (), s\<lparr>ncache := AList.update n (oid, nd) (ncache s)\<rparr>)
      | None \<Rightarrow> (Inr (), s))"

definition bt_write :: "nat \<Rightarrow> bytes \<Rightarrow> (bstate, unit) prog" where
  "bt_write n b s = (let (r, p) = pager_write n b (bpager s) in (r, s\<lparr>bpager := p\<rparr>))"

definition bt_alloc :: "(bstate, nat) prog" where
  "bt_alloc s = (let (r, p) = pager_allocate (bpager s) in (r, s\<lparr>bpager := p\<rparr>))"

definition bt_store :: "bstate store" where
  "bt_store = \<lparr>st_load = bt_load, st_mut = bt_mut, st_write = bt_write, st_alloc = bt_alloc\<rparr>"

lemma bt_store_simps [simp]:
  "st_load bt_store = bt_load" "st_mut bt_store = bt_mut" "st_write bt_store = bt_write"
  "st_alloc bt_store = bt_alloc"
  by (simp_all add: bt_store_def)

section \<open>The invariant of the cache\<close>

definition decoded :: "bytes \<Rightarrow> node option" where
  "decoded b = (case node_from_bytes b of Inl e \<Rightarrow> None | Inr nd \<Rightarrow> Some nd)"

definition bt_view :: "bstate \<Rightarrow> view" where
  "bt_view s n = decoded (page_image (bpager s) n)"

definition bt_npages :: "bstate \<Rightarrow> nat" where
  "bt_npages s = num_pages (bpager s)"

text \<open>Outside the pages under change, a usable cache entry is what the page decodes to.\<close>

definition cache_ok :: "nat set \<Rightarrow> pager \<Rightarrow> (nat \<times> nat \<times> node) list \<Rightarrow> bool" where
  "cache_ok T p c \<longleftrightarrow>
     (\<forall>n oid nd. map_of c n = Some (oid, nd) \<longrightarrow>
        oid < next_oid p \<and>
        (\<forall>d. n \<notin> T \<longrightarrow> obj_at p n = Some d \<longrightarrow> fst d = oid \<longrightarrow> decoded (snd d) = Some nd))"

definition bt_ok :: "nat set \<Rightarrow> bstate \<Rightarrow> bool" where
  "bt_ok T s \<longleftrightarrow>
     pager_inv (bpager s) \<and> cache_ok T (bpager s) (ncache s) \<and> (\<forall>n \<in> T. n < num_pages (bpager s))"

lemma cache_ok_ext:
  assumes "cache_ok T p c" and "pager_ext p q"
  shows "cache_ok T q c"
  unfolding cache_ok_def
proof (intro allI impI conjI)
  fix n oid nd assume e: "map_of c n = Some (oid, nd)"
  then have o: "oid < next_oid p" using assms(1) unfolding cache_ok_def by blast
  then show "oid < next_oid q" using assms(2) by (auto simp: pager_ext_def)
  fix d assume "n \<notin> T" "obj_at q n = Some d" "fst d = oid"
  then have "obj_at p n = Some d" using assms(2) o unfolding pager_ext_def by blast
  then show "decoded (snd d) = Some nd"
    using assms(1) e \<open>n \<notin> T\<close> \<open>fst d = oid\<close> unfolding cache_ok_def by blast
qed

lemma cache_ok_update:
  assumes "cache_ok T p c" and "oid < next_oid p"
    and "\<And>d. n \<notin> T \<Longrightarrow> obj_at p n = Some d \<Longrightarrow> fst d = oid \<Longrightarrow> decoded (snd d) = Some nd"
  shows "cache_ok T p (AList.update n (oid, nd) c)"
  using assms unfolding cache_ok_def by (auto simp: update_conv')

lemma bt_load_law:
  assumes "bt_ok T s" and "n < bt_npages s" and "n \<notin> T" and "bt_view s n = Some nd"
  shows "\<exists>s'. bt_load n s = (Inr nd, s') \<and> bt_ok T s' \<and> bt_view s' = bt_view s \<and> bt_npages s' = bt_npages s"
proof -
  let ?p = "bpager s" and ?c = "ncache s"
  have I: "pager_inv ?p" "cache_ok T ?p ?c" "\<forall>n \<in> T. n < num_pages ?p" using assms(1) by (auto simp: bt_ok_def)
  have "n < num_pages ?p \<or> n = 0" using assms(2) by (simp add: bt_npages_def)
  from pager_get_ok[OF I(1) this] obtain d q where
    q: "pager_get n ?p = (Inr d, q)" "snd d = page_image ?p n" "obj_at q n = Some d" "pager_inv q"
      "pager_ext ?p q" "page_image q = page_image ?p" "num_pages q = num_pages ?p" "fst d < next_oid q"
    by blast
  have dec: "decoded (snd d) = Some nd" using assms(4) q(2) by (simp add: bt_view_def)
  then have nfb: "node_from_bytes (snd d) = Inr nd" by (simp add: decoded_def split: sum.splits)
  have cq: "cache_ok T q ?c" using cache_ok_ext[OF I(2) q(5)] .
  have view: "bt_view (s\<lparr>bpager := q, ncache := c\<rparr>) = bt_view s" "bt_view (s\<lparr>bpager := q\<rparr>) = bt_view s" for c
    using q(6) by (simp_all add: bt_view_def fun_eq_iff)
  have ok: "bt_ok T (s\<lparr>bpager := q, ncache := c\<rparr>)" if "cache_ok T q c" for c
    using that q(4,7) I(3) by (simp add: bt_ok_def)
  have ok1: "bt_ok T (s\<lparr>bpager := q\<rparr>)" using cq q(4,7) I(3) by (simp add: bt_ok_def)
  have np: "bt_npages (s\<lparr>bpager := q, ncache := c\<rparr>) = bt_npages s" "bt_npages (s\<lparr>bpager := q\<rparr>) = bt_npages s" for c
    using q(7) by (simp_all add: bt_npages_def)
  show ?thesis
  proof (cases "\<exists>nd'. map_of ?c n = Some (fst d, nd')")
    case True
    then obtain nd' where nd': "map_of ?c n = Some (fst d, nd')" by blast
    then have "decoded (snd d) = Some nd'" using cq assms(3) q(3) unfolding cache_ok_def by blast
    then have "nd' = nd" using dec by simp
    then have "bt_load n s = (Inr nd, s\<lparr>bpager := q\<rparr>)" using q(1) nd' by (simp add: bt_load_def Let_def)
    then show ?thesis using ok1 view np by blast
  next
    case False
    let ?c2 = "AList.update n (fst d, nd) (if 512 < length ?c then [] else ?c)"
    have "cache_ok T q (if 512 < length ?c then [] else ?c)" using cq by (simp add: cache_ok_def)
    then have c2: "cache_ok T q ?c2" by (rule cache_ok_update[OF _ q(8)]) (use q(3) dec in auto)
    have "bt_load n s = (Inr nd, s\<lparr>bpager := q, ncache := ?c2\<rparr>)"
      using q(1) False nfb
      by (auto simp: bt_load_def Let_def split: option.splits)
    then show ?thesis using ok[OF c2] view np by blast
  qed
qed

lemma bt_mut_law:
  assumes "bt_ok T s" and "n < bt_npages s"
  shows "\<exists>s'. bt_mut n nd s = (Inr (), s') \<and> bt_ok (insert n T) s' \<and> bt_view s' = bt_view s \<and>
           bt_npages s' = bt_npages s"
proof -
  have I: "pager_inv (bpager s)" "cache_ok T (bpager s) (ncache s)" "\<forall>n \<in> T. n < num_pages (bpager s)"
    "n < num_pages (bpager s)"
    using assms by (auto simp: bt_ok_def bt_npages_def)
  have c: "cache_ok (insert n T) (bpager s) (ncache s)" using I(2) unfolding cache_ok_def by blast
  show ?thesis
  proof (cases "map_of (ncache s) n")
    case None
    then show ?thesis using I c by (simp add: bt_mut_def bt_ok_def)
  next
    case (Some e)
    obtain oid old where e: "e = (oid, old)" by force
    have "oid < next_oid (bpager s)" using I(2) Some e unfolding cache_ok_def by blast
    then have "cache_ok (insert n T) (bpager s) (AList.update n (oid, nd) (ncache s))"
      by (intro cache_ok_update[OF c]) auto
    then show ?thesis
      using Some e I by (simp add: bt_mut_def bt_ok_def bt_view_def bt_npages_def fun_eq_iff)
  qed
qed

lemma bt_write_any:
  assumes "bt_ok T s" and "n < bt_npages s" and "length b \<le> PAGE_SIZE"
  shows "\<exists>s'. bt_write n b s = (Inr (), s') \<and> bt_ok (T - {n}) s' \<and>
           bt_view s' = (bt_view s)(n := decoded (pad_to PAGE_SIZE b)) \<and> bt_npages s' = bt_npages s"
proof -
  let ?p = "bpager s"
  have I: "pager_inv ?p" "cache_ok T ?p (ncache s)" "\<forall>n \<in> T. n < num_pages ?p" "n < num_pages ?p"
    using assms(1,2) by (auto simp: bt_ok_def bt_npages_def)
  from pager_write_ok[OF I(1) assms(3), of n] obtain q k where
    q: "pager_write n b ?p = (Inr (), q)" "page_image q = (page_image ?p)(n := pad_to PAGE_SIZE b)"
      "pager_inv q" "pager_ext ?p q" "num_pages q = max (num_pages ?p) (Suc n)"
      "obj_at q n = Some (k, pad_to PAGE_SIZE b)" "next_oid ?p \<le> k"
    by blast
  have np: "num_pages q = num_pages ?p" using q(5) I(4) by simp
  have "cache_ok (T - {n}) q (ncache s)"
    unfolding cache_ok_def
  proof (intro allI impI conjI)
    fix m oid nd' assume e: "map_of (ncache s) m = Some (oid, nd')"
    have cq: "cache_ok T q (ncache s)" using cache_ok_ext[OF I(2) q(4)] .
    then show "oid < next_oid q" using e unfolding cache_ok_def by blast
    have o: "oid < next_oid ?p" using I(2) e unfolding cache_ok_def by blast
    fix d assume m: "m \<notin> T - {n}" "obj_at q m = Some d" "fst d = oid"
    show "decoded (snd d) = Some nd'"
    proof (cases "m = n")
      case True
      then have "fst d = k" using m(2) q(6) by auto
      then show ?thesis using o m(3) q(7) by simp
    next
      case False
      then show ?thesis using cq e m unfolding cache_ok_def by blast
    qed
  qed
  then have "bt_ok (T - {n}) (s\<lparr>bpager := q\<rparr>)" using q(3) I(3) np by (simp add: bt_ok_def)
  moreover have "bt_view (s\<lparr>bpager := q\<rparr>) = (bt_view s)(n := decoded (pad_to PAGE_SIZE b))"
    using q(2) by (auto simp: bt_view_def fun_eq_iff)
  moreover have "bt_npages (s\<lparr>bpager := q\<rparr>) = bt_npages s" using np by (simp add: bt_npages_def)
  ultimately show ?thesis using q(1) by (simp add: bt_write_def)
qed

lemma bt_write_law:
  assumes "bt_ok T s" and "n < bt_npages s" and "node_ok nd" and "to_bytes nd = Inr b"
    and "length b \<le> PAGE_SIZE"
  shows "\<exists>s'. bt_write n b s = (Inr (), s') \<and> bt_ok (T - {n}) s' \<and> bt_view s' = (bt_view s)(n \<mapsto> nd) \<and>
           bt_npages s' = bt_npages s"
proof -
  have "decoded (pad_to PAGE_SIZE b) = Some nd"
    using node_round_trip_pad[OF assms(3,4)] by (simp add: pad_to_def decoded_def)
  then show ?thesis using bt_write_any[OF assms(1,2,5)] by simp
qed

lemma bt_write_big_law: "PAGE_SIZE < length b \<Longrightarrow> \<exists>s'. bt_write n b s = (Inl ValueError, s')"
  by (simp add: bt_write_def pager_write_def)

lemma bt_alloc_law:
  assumes "bt_ok T s"
  shows "\<exists>s'. bt_alloc s = (Inr (bt_npages s), s') \<and> bt_ok T s' \<and> bt_npages s' = Suc (bt_npages s) \<and>
           (\<forall>m. m \<noteq> bt_npages s \<longrightarrow> bt_view s' m = bt_view s m)"
proof -
  let ?p = "bpager s"
  have I: "pager_inv ?p" "cache_ok T ?p (ncache s)" "\<forall>n \<in> T. n < num_pages ?p"
    using assms by (auto simp: bt_ok_def)
  from pager_allocate_ok[OF I(1)] obtain q where
    q: "pager_allocate ?p = (Inr (num_pages ?p), q)"
      "page_image q = (page_image ?p)(num_pages ?p := EMPTY_PAGE)" "pager_inv q" "pager_ext ?p q"
      "num_pages q = Suc (num_pages ?p)"
    by blast
  have "bt_ok T (s\<lparr>bpager := q\<rparr>)" using cache_ok_ext[OF I(2) q(4)] q(3,5) I(3) by (auto simp: bt_ok_def less_Suc_eq)
  then show ?thesis
    using q(1,2,5) by (simp add: bt_alloc_def bt_npages_def bt_view_def)
qed

interpretation bt: page_store bt_store bt_ok bt_view bt_npages PAGE_SIZE
proof unfold_locales
  show "PAGE_SIZE \<le> 65536" by (simp add: PAGE_SIZE_def)
  show "n < bt_npages s" if "bt_ok T s" "n \<in> T" for T s n
    using that by (simp add: bt_ok_def bt_npages_def)
qed (use bt_load_law bt_mut_law bt_write_law bt_write_big_law bt_alloc_law in \<open>simp; blast\<close>)+

end
