(* ===== verification/TreeProps.thy ===== *)
theory TreeProps
  imports TreeStore
begin

text \<open>
  The B+ tree on the pager: what the operations of \<open>leafdb/btree.py\<close> promise, as theorems
  over the model's own store, with no interface left open.
\<close>

section \<open>Trees in the store\<close>

definition stored :: "bstate \<Rightarrow> nat \<Rightarrow> ptree \<Rightarrow> bool" where
  "stored s h t \<longleftrightarrow>
     bt_ok {} s \<and> tree_at (bt_view s) PAGE_SIZE h t None \<and> (\<forall>n \<in> set (pages t). n < bt_npages s)"

lemma stored_is_tree: "stored s h t \<longleftrightarrow> bt.is_tree PAGE_SIZE h {} s t"
  by (auto simp: stored_def bt.is_tree_def bt.clean_pages_def)

lemma stored_same: "bt.same {} s s' \<Longrightarrow> stored s h t \<Longrightarrow> stored s' h t"
  by (simp add: stored_def bt.same_def)

lemma sum_pages:
  assumes "bal h t" and "keyed t"
  shows "2 ^ h \<le> length (leaves t)"
  using assms
proof (induction t arbitrary: h rule: leaves.induct)
  case (1 n cs)
  then show ?case by simp
next
  case (2 n ks ts)
  obtain h' where h: "h = Suc h'" "length ts = Suc (length ks)" "\<forall>t \<in> set ts. bal h' t"
    using 2(2) by (auto split: nat.splits)
  obtain a b r where ts: "ts = a # b # r" using h(2) 2(3) by (cases ts rule: list.exhaust; cases "tl ts") auto
  have "2 ^ h' \<le> length (leaves a)" "2 ^ h' \<le> length (leaves b)" using 2 h ts by auto
  then show ?case using h(1) ts by simp
qed

lemma leaves_le_pages: "length (leaves t) \<le> length (pages t)"
proof (induction t rule: leaves.induct)
  case (1 n cs)
  then show ?case by simp
next
  case (2 n ks ts)
  then show ?case by (simp add: length_concat) (induction ts; force)
qed

lemma stored_pages:
  assumes "stored s h t"
  shows "length (pages t) \<le> bt_npages s"
proof -
  have "distinct (pages t)" "set (pages t) \<subseteq> {..<bt_npages s}"
    using assms by (auto simp: stored_def forest_at_def)
  then show ?thesis by (metis card_lessThan card_mono distinct_card finite_lessThan)
qed

text \<open>A tree of fewer than \<open>2 ^ 32\<close> pages has fewer than 32 levels of internal nodes.\<close>

lemma stored_height:
  assumes "stored s h t" and "int (bt_npages s) < 2 ^ 32"
  shows "h < 32"
proof -
  have "2 ^ h \<le> length (leaves t)"
    using assms(1) by (auto simp: stored_def forest_at_def subtree_ok_def intro: sum_pages)
  also have "\<dots> \<le> bt_npages s" using leaves_le_pages[of t] stored_pages[OF assms(1)] by simp
  finally have "int (2 ^ h) < 2 ^ 32" using assms(2) by linarith
  then have "(2::int) ^ h < 2 ^ 32" by simp
  then show ?thesis by (rule power_less_imp_less_exp[rotated]) simp
qed

lemma stored_leaves: "stored s h t \<Longrightarrow> length (leaves t) \<le> bt_npages s"
  using leaves_le_pages[of t] stored_pages[of s h t] by simp

lemma stored_sorted: "stored s h t \<Longrightarrow> sorted_wrt (<) (map fst (cells t))"
  by (auto simp: stored_def intro: tree_sorted)

text \<open>\<open>CREATE TABLE\<close> makes a tree: an empty leaf on a new page.\<close>

definition new_tree :: "(bstate, nat) prog" where
  "new_tree = bindP bt_alloc (\<lambda>n. bindP (write_node bt_store n (Leaf [] None)) (\<lambda>_. ret n))"

lemma new_tree_ok:
  assumes "bt_ok {} s"
  shows "\<exists>s'. new_tree s = (Inr (bt_npages s), s') \<and> stored s' 0 (PLeaf (bt_npages s) []) \<and>
           bt_npages s' = Suc (bt_npages s) \<and>
           (\<forall>m. m \<noteq> bt_npages s \<longrightarrow> bt_view s' m = bt_view s m)"
proof -
  let ?n = "bt_npages s"
  obtain s1 where s1: "bt_alloc s = (Inr ?n, s1)" "bt_ok {} s1" "bt_npages s1 = Suc ?n"
    "\<forall>m. m \<noteq> ?n \<longrightarrow> bt_view s1 m = bt_view s m"
    using bt_alloc_law[OF assms] by blast
  have "\<exists>s'. write_node bt_store ?n (Leaf [] None) s1 = (Inr (), s') \<and> bt_ok ({} - {?n}) s' \<and>
      bt_view s' = (bt_view s1)(?n \<mapsto> Leaf [] None) \<and> bt_npages s' = bt_npages s1"
    using s1 by (intro bt.write_node_ok) (simp_all add: PAGE_SIZE_def)
  then obtain s2 where s2: "write_node bt_store ?n (Leaf [] None) s1 = (Inr (), s2)" "bt_ok {} s2"
    "bt_view s2 = (bt_view s1)(?n \<mapsto> Leaf [] None)" "bt_npages s2 = bt_npages s1"
    by auto
  have "stored s2 0 (PLeaf ?n [])" using s1(3) s2 by (simp add: stored_def leaf_forest PAGE_SIZE_def)
  moreover have "new_tree s = (Inr ?n, s2)" using s1(1) s2(1) by (simp add: new_tree_def bindP_app)
  ultimately show ?thesis using s1(3,4) s2 by auto
qed

section \<open>The abstract table\<close>

text \<open>
  What the tree promises its callers: it behaves as a list of cells sorted by key. Callers
  pass the root they were given last and go on with the root an operation returns.
\<close>

datatype tree_op = Op_insert int bytes | Op_delete int | Op_search int | Op_scan "int option" "int option"

datatype op_result = Done | Duplicate | Deleted bool | Found "bytes option" | Cells "cell list"

fun spec_op :: "tree_op \<Rightarrow> cell list \<Rightarrow> op_result \<times> cell list" where
  "spec_op (Op_insert key v) cs =
     (if key \<in> fst ` set cs then (Duplicate, cs) else (Done, ins_cells key v cs))"
| "spec_op (Op_delete key) cs = (Deleted (key \<in> fst ` set cs), del_cells key cs)"
| "spec_op (Op_search key) cs = (Found (map_of cs key), cs)"
| "spec_op (Op_scan lo hi) cs = (Cells (filter (\<lambda>c. bt.in_range lo hi (fst c)) cs), cs)"

fun spec_ops :: "tree_op list \<Rightarrow> cell list \<Rightarrow> op_result list \<times> cell list" where
  "spec_ops [] cs = ([], cs)"
| "spec_ops (x # xs) cs =
     (let (r, cs1) = spec_op x cs; (rs, cs2) = spec_ops xs cs1 in (r # rs, cs2))"

text \<open>The operations of the model, with fuel 32 for descents and the page count for scans.\<close>

fun run_op :: "tree_op \<Rightarrow> nat \<Rightarrow> (bstate, op_result \<times> nat) prog" where
  "run_op (Op_insert key v) root s =
     (case tree_insert bt_store PAGE_SIZE 32 root key v s of
        (Inl (DuplicateKey k), s1) \<Rightarrow> (Inr (Duplicate, root), s1)
      | (Inl e, s1) \<Rightarrow> (Inl e, s1)
      | (Inr root', s1) \<Rightarrow> (Inr (Done, root'), s1))"
| "run_op (Op_delete key) root s =
     bindP (tree_delete bt_store PAGE_SIZE 32 root key) (\<lambda>(root', found). ret (Deleted found, root')) s"
| "run_op (Op_search key) root s =
     bindP (search bt_store 32 root key) (\<lambda>r. ret (Found r, root)) s"
| "run_op (Op_scan lo hi) root s =
     bindP (range_scan bt_store (32 + bt_npages s) root lo hi) (\<lambda>cs. ret (Cells cs, root)) s"

fun run_ops :: "tree_op list \<Rightarrow> nat \<Rightarrow> (bstate, op_result list \<times> nat) prog" where
  "run_ops [] root = ret ([], root)"
| "run_ops (x # xs) root =
     bindP (run_op x root) (\<lambda>(r, root1). bindP (run_ops xs root1) (\<lambda>(rs, root2). ret (r # rs, root2)))"

text \<open>Rows so small that a leaf can always be split and a sibling can always spare one.\<close>

definition small_row :: "bytes \<Rightarrow> bool" where
  "small_row v \<longleftrightarrow> length v \<le> 141"

fun op_ok :: "tree_op \<Rightarrow> bool" where
  "op_ok (Op_insert key v) \<longleftrightarrow> int64 key \<and> small_row v"
| "op_ok _ \<longleftrightarrow> True"

lemma small_row_cells:
  assumes "small_row v"
  shows "small_cell PAGE_SIZE (k, v)" and "spare_cell PAGE_SIZE (k, v)" and "length v \<le> MAX_VALUE_SIZE"
proof -
  have l: "12 + length v \<le> 153" using assms by (simp add: small_row_def)
  have sq: "m * m + 6 * m \<le> 6 * (4096 - 9)" if "m \<le> 153" for m :: nat
  proof -
    have "m * m \<le> 153 * 153" using that by (rule mult_le_mono[OF _ that])
    then show ?thesis using that by simp
  qed
  show "small_cell PAGE_SIZE (k, v)"
    using sq[OF l] by (simp only: small_cell_def cell_size_def PAGE_SIZE_def snd_conv)
  show "spare_cell PAGE_SIZE (k, v)" using l by (simp add: spare_cell_def cell_size_def min_bytes_def PAGE_SIZE_def)
  show "length v \<le> MAX_VALUE_SIZE" using l by (simp add: MAX_VALUE_SIZE_def)
qed

lemma run_op_refines:
  assumes S: "stored s h t" and small: "\<forall>c \<in> set (cells t). small_row (snd c)" and x: "op_ok x"
    and np: "int (bt_npages s) + 33 < NO_PAGE"
  shows "\<exists>s' t' h' r. run_op x (proot t) s = (Inr (r, proot t'), s') \<and> stored s' h' t' \<and>
           spec_op x (cells t) = (r, cells t') \<and> (\<forall>c \<in> set (cells t'). small_row (snd c)) \<and>
           bt_npages s' \<le> bt_npages s + 33"
proof -
  have I: "bt.is_tree PAGE_SIZE h {} s t" using S by (simp add: stored_is_tree)
  have P: "bt_ok {} s" "tree_at (bt_view s) PAGE_SIZE h t None" "bt.clean_pages {} s (set (pages t))"
    using I by (simp_all add: bt.is_tree_def)
  have h: "h < 32" using stored_height[OF S] np by (simp add: NO_PAGE_def)
  have n0: "int (bt_npages s) < NO_PAGE" "int (bt_npages s) + int h + 1 < NO_PAGE" using np h by simp_all
  have keys: "keys_of t = fst ` set (cells t)" by (simp add: keys_of_def)
  have page: "48 \<le> PAGE_SIZE" "PAGE_SIZE \<le> PAGE_SIZE" "page_size_ok PAGE_SIZE"
    by (simp_all add: PAGE_SIZE_def page_size_ok_def)
  show ?thesis
  proof (cases x)
    case (Op_insert key v)
    have k: "int64 key" "small_row v" using x Op_insert by simp_all
    note K = bt.tree_insert_ok[OF I h k(1) small_row_cells(3)[OF k(2)] n0(2) page(1,2) disjI1[OF refl]]
    show ?thesis
    proof (cases "key \<in> keys_of t")
      case True
      then obtain s1 where s1: "tree_insert bt_store PAGE_SIZE 32 (proot t) key v s = (Inl (DuplicateKey key), s1)"
        "bt.same {} s s1"
        using K by auto
      moreover have "bt_npages s1 = bt_npages s" using s1(2) by (simp add: bt.same_def)
      ultimately show ?thesis
        using True keys Op_insert small stored_same[OF s1(2) S]
        by (intro exI[of _ s1] exI[of _ t] exI[of _ h] exI[of _ Duplicate]) simp
    next
      case False
      have "\<forall>c \<in> set ((key, v) # cells t). small_cell PAGE_SIZE c"
        using small k(2) small_row_cells(1) by (metis list.set_intros(2) prod.collapse set_ConsD snd_conv)
      then obtain s1 t1 h1 where s1: "tree_insert bt_store PAGE_SIZE 32 (proot t) key v s = (Inr (proot t1), s1)"
        "bt.is_tree PAGE_SIZE h1 {} s1 t1" "cells t1 = ins_cells key v (cells t)" "bt_npages s1 \<le> bt_npages s + h + 2"
        using K False by (simp only: if_False) blast
      have "\<forall>c \<in> set (cells t1). small_row (snd c)" using s1(3) small k(2) by (simp add: ins_cells_set)
      then show ?thesis
        using s1 False keys Op_insert h
        by (intro exI[of _ s1] exI[of _ t1] exI[of _ h1] exI[of _ Done]) (simp add: stored_is_tree)
    qed
  next
    case (Op_delete key)
    have sp: "\<forall>c \<in> set (cells t). spare_cell PAGE_SIZE c"
      using small small_row_cells(2) by (metis prod.collapse)
    obtain s1 t1 h1 where s1: "tree_delete bt_store PAGE_SIZE 32 (proot t) key s = (Inr (proot t1, key \<in> keys_of t), s1)"
      "bt.is_tree PAGE_SIZE h1 {} s1 t1" "cells t1 = del_cells key (cells t)" "bt_npages s1 = bt_npages s"
      using bt.tree_delete_ok[OF I h sp page(3,2) n0(1), of key] by blast
    have "\<forall>c \<in> set (cells t1). small_row (snd c)" using s1(3) small by (simp add: del_cells_def)
    then show ?thesis
      using s1 keys Op_delete
      by (intro exI[of _ s1] exI[of _ t1] exI[of _ h1] exI[of _ "Deleted (key \<in> keys_of t)"])
        (simp add: stored_is_tree bindP_app)
  next
    case (Op_search key)
    obtain s1 where s1: "search bt_store 32 (proot t) key s = (Inr (map_of (cells t) key), s1)" "bt.same {} s s1"
      using bt.search_ok[OF P h] by blast
    moreover have "bt_npages s1 = bt_npages s" using s1(2) by (simp add: bt.same_def)
    ultimately show ?thesis
      using Op_search small stored_same[OF s1(2) S]
      by (intro exI[of _ s1] exI[of _ t] exI[of _ h] exI[of _ "Found (map_of (cells t) key)"]) simp
  next
    case (Op_scan lo hi)
    have f: "h < 32 + bt_npages s" "length (leaves t) \<le> 32 + bt_npages s" using h stored_leaves[OF S] by simp_all
    obtain s1 where s1: "range_scan bt_store (32 + bt_npages s) (proot t) lo hi s =
        (Inr (filter (\<lambda>c. bt.in_range lo hi (fst c)) (cells t)), s1)" "bt.same {} s s1"
      using bt.range_scan_ok[OF P f] by blast
    moreover have "bt_npages s1 = bt_npages s" using s1(2) by (simp add: bt.same_def)
    ultimately show ?thesis
      using Op_scan small stored_same[OF s1(2) S]
      by (intro exI[of _ s1] exI[of _ t] exI[of _ h] exI[of _ "Cells (filter (\<lambda>c. bt.in_range lo hi (fst c)) (cells t))"]) simp
  qed
qed

lemma run_ops_refines:
  assumes "stored s h t" and "\<forall>c \<in> set (cells t). small_row (snd c)" and "\<forall>x \<in> set xs. op_ok x"
    and "int (bt_npages s) + 33 * int (length xs) < NO_PAGE"
  shows "\<exists>s' t' h' rs. run_ops xs (proot t) s = (Inr (rs, proot t'), s') \<and> stored s' h' t' \<and>
           spec_ops xs (cells t) = (rs, cells t')"
  using assms
proof (induction xs arbitrary: s h t)
  case Nil
  then show ?case by auto
next
  case (Cons x xs)
  have np: "int (bt_npages s) + 33 < NO_PAGE" using Cons.prems(4) by simp
  have x: "op_ok x" using Cons.prems(3) by simp
  obtain s1 t1 h1 r where A: "run_op x (proot t) s = (Inr (r, proot t1), s1)" "stored s1 h1 t1"
    "spec_op x (cells t) = (r, cells t1)" "\<forall>c \<in> set (cells t1). small_row (snd c)" "bt_npages s1 \<le> bt_npages s + 33"
    using run_op_refines[OF Cons.prems(1,2) x np] by blast
  have "int (bt_npages s1) + 33 * int (length xs) < NO_PAGE" using A(5) Cons.prems(4) by simp
  then obtain s2 t2 h2 rs where B: "run_ops xs (proot t1) s1 = (Inr (rs, proot t2), s2)" "stored s2 h2 t2"
    "spec_ops xs (cells t1) = (rs, cells t2)"
    using Cons.IH[OF A(2,4)] Cons.prems(3) by auto
  then show ?case using A(1,3) by (intro exI[of _ s2] exI[of _ t2] exI[of _ h2] exI[of _ "r # rs"]) simp
qed

end
