(* ===== verification/TreeClaims.thy ===== *)
theory TreeClaims
  imports TreeProps
begin

text \<open>
  The properties of the B+ tree: refinement of a sorted list by every sequence of
  operations, the outcome of single operations on rows of any size, isolation of trees from
  each other, and the rows on which rebalancing fails.
\<close>

section \<open>A concrete tree\<close>

definition demo_store :: bstate where
  "demo_store = \<lparr>bpager = pager_init [] 8, ncache = []\<rparr>"

lemma demo_tree: "\<exists>s. stored s 0 (PLeaf 1 []) \<and> bt_npages s = 2"
proof -
  have "bt_ok {} demo_store" using pager_init_inv[of 8 "[]"] by (simp add: bt_ok_def demo_store_def cache_ok_def)
  moreover have "bt_npages demo_store = 1" by (simp add: bt_npages_def demo_store_def pager_init_def)
  ultimately show ?thesis using new_tree_ok[of demo_store] by auto
qed

text \<open>Three nodes on the pages 1, 2 and 3, and a row of 1400 bytes.\<close>

lemma three_pages:
  assumes "node_ok n1" "node_ok n2" "node_ok n3" and "node_size n1 \<le> PAGE_SIZE" "node_size n2 \<le> PAGE_SIZE" "node_size n3 \<le> PAGE_SIZE"
  obtains s where "bt_ok {} s" "bt_npages s = 4" "bt_view s 1 = Some n1" "bt_view s 2 = Some n2" "bt_view s 3 = Some n3"
proof -
  have "bt_ok {} demo_store" using pager_init_inv[of 8 "[]"] by (simp add: bt_ok_def demo_store_def cache_ok_def)
  moreover have "bt_npages demo_store = 1" by (simp add: bt_npages_def demo_store_def pager_init_def)
  ultimately obtain s1 where s1: "bt_ok {} s1" "bt_npages s1 = 2" using bt_alloc_law by (metis Suc_1)
  obtain s2 where s2: "bt_ok {} s2" "bt_npages s2 = 3" using bt_alloc_law[OF s1(1)] s1(2) by auto
  obtain s3 where s3: "bt_ok {} s3" "bt_npages s3 = 4" using bt_alloc_law[OF s2(1)] s2(2) by auto
  obtain s4 where s4: "bt_ok {} s4" "bt_npages s4 = 4" "bt_view s4 = (bt_view s3)(1 \<mapsto> n1)"
    using bt.write_node_ok[OF s3(1) _ assms(1,4), of 1] s3(2) by auto
  obtain s5 where s5: "bt_ok {} s5" "bt_npages s5 = 4" "bt_view s5 = (bt_view s4)(2 \<mapsto> n2)"
    using bt.write_node_ok[OF s4(1) _ assms(2,5), of 2] s4(2) by auto
  obtain s6 where s6: "bt_ok {} s6" "bt_npages s6 = 4" "bt_view s6 = (bt_view s5)(3 \<mapsto> n3)"
    using bt.write_node_ok[OF s5(1) _ assms(3,6), of 3] s5(2) by auto
  show thesis by (rule that[OF s6(1,2)]) (simp_all add: s4(3) s5(3) s6(3))
qed

definition wide :: bytes where
  "wide = replicate 1400 0"

lemma wide_length [simp]: "length wide = 1400"
  by (simp add: wide_def)

lemma wide_cell [simp]: "cell_size (x, wide) = 1412"
  by (simp add: cell_size_def)

section \<open>Sequences of operations\<close>

text \<open>
  C3. The B+ tree implements a table sorted by key. From any stored tree, every sequence of
  inserts, deletes, searches and range scans of rows of at most 141 bytes returns, operation
  by operation, what the same sequence returns on the sorted list of the tree's rows:
  duplicates are refused, deletes report whether the key was there, searches give the row,
  scans the rows in range in order. No operation fails, none runs out of the fuel of 32
  levels, and the pages hold a well-formed tree of the resulting list at the end, provided
  page numbers stay below \<open>0xFFFFFFFF\<close>.
\<close>

theorem tree_refines_sorted_list:
  assumes "stored s h t" and "\<forall>c \<in> set (cells t). small_row (snd c)" and "\<forall>x \<in> set xs. op_ok x"
    and "int (bt_npages s) + 33 * int (length xs) < NO_PAGE"
  shows "\<exists>s' t' h' rs. run_ops xs (proot t) s = (Inr (rs, proot t'), s') \<and> stored s' h' t' \<and>
           spec_ops xs (cells t) = (rs, cells t')"
  by (rule run_ops_refines[OF assms])

lemma tree_refines_sorted_list_witness:
  "\<exists>s s' root. stored s 0 (PLeaf 1 []) \<and>
     run_ops [Op_insert 7 [1], Op_insert 3 [2], Op_insert 7 [4], Op_delete 7, Op_delete 8, Op_insert 9 [5],
       Op_search 3, Op_scan None (Some 5)] 1 s =
     (Inr ([Done, Done, Duplicate, Deleted True, Deleted False, Done, Found (Some [2]), Cells [(3, [2])]], root), s')"
proof -
  obtain s where s: "stored s 0 (PLeaf 1 [])" "bt_npages s = 2" using demo_tree by blast
  let ?xs = "[Op_insert 7 [1], Op_insert 3 [2], Op_insert 7 [4], Op_delete 7, Op_delete 8, Op_insert 9 [5],
    Op_search 3, Op_scan None (Some 5)]"
  have "\<forall>x \<in> set ?xs. op_ok x" by (simp add: int64_def small_row_def)
  then obtain s' t' rs where r: "run_ops ?xs (proot (PLeaf 1 [])) s = (Inr (rs, proot t'), s')"
    "spec_ops ?xs (cells (PLeaf 1 [])) = (rs, cells t')"
    using tree_refines_sorted_list[OF s(1), of ?xs] s(2) by (auto simp: NO_PAGE_def)
  have "fst (spec_ops ?xs []) = [Done, Done, Duplicate, Deleted True, Deleted False, Done, Found (Some [2]), Cells [(3, [2])]]"
    by (auto simp: ins_cells_def del_cells_def bt.in_range_def)
  then have "rs = [Done, Done, Duplicate, Deleted True, Deleted False, Done, Found (Some [2]), Cells [(3, [2])]]"
    using r(2) by simp
  then show ?thesis using s(1) r(1) by auto
qed

section \<open>Single operations\<close>

lemma stored_other:
  assumes k: "bt.others_kept s s' t" and ok: "bt_ok {} s'" and np: "bt_npages s \<le> bt_npages s'"
    and o: "stored s h2 t2" and d: "set (pages t2) \<inter> set (pages t) = {}"
  shows "stored s' h2 t2"
proof -
  have "bt_view s' p = bt_view s p" if "p \<in> fpages [t2]" for p
    using k o d that unfolding bt.others_kept_def stored_def fpages_def by auto
  then have "tree_at (bt_view s') PAGE_SIZE h2 t2 None"
    using o forest_frame[of "[t2]" "bt_view s'" "bt_view s" PAGE_SIZE h2 "[]" None] by (simp add: stored_def)
  then show ?thesis using o ok np by (auto simp: stored_def)
qed

lemma map_of_ins_cells:
  assumes "key \<notin> fst ` set cs"
  shows "map_of (ins_cells key v cs) = (map_of cs)(key \<mapsto> v)"
proof -
  define a b where "a = takeWhile (\<lambda>c. fst c < key) cs" and "b = dropWhile (\<lambda>c. fst c < key) cs"
  have cs: "cs = a @ b" by (simp add: a_def b_def)
  have "key \<notin> dom (map_of a)" by (auto simp: a_def dom_map_of_conv_image_fst dest: set_takeWhileD)
  then have "map_of (a @ (key, v) # b) = (map_of (a @ b))(key \<mapsto> v)" by (simp add: map_add_upd_left)
  then show ?thesis by (simp add: ins_cells_def flip: a_def b_def cs)
qed

text \<open>
  C7. Inserting a row of any size up to \<open>MAX_VALUE_SIZE\<close> has one of three outcomes. A key
  that is there is refused with \<open>DuplicateKey\<close> and the tree is as before. Otherwise the new
  root holds a well-formed tree with exactly the one row more, and every other tree on other
  pages is untouched. Otherwise \<open>ValueError\<close>, and then some row of the tree or the new one is
  longer than 141 bytes: the split by cell count left a half that does not fit its page.
\<close>

theorem tree_insert_outcomes:
  assumes "stored s h t" and "int64 key" and "length v \<le> MAX_VALUE_SIZE" and "int (bt_npages s) + 33 < NO_PAGE"
  shows "case tree_insert bt_store PAGE_SIZE 32 (proot t) key v s of
           (Inr root', s') \<Rightarrow>
             key \<notin> keys_of t \<and>
             (\<exists>t' h'. root' = proot t' \<and> stored s' h' t' \<and> cells t' = ins_cells key v (cells t) \<and>
                map_of (cells t') = (map_of (cells t))(key \<mapsto> v)) \<and>
             (\<forall>h2 t2. stored s h2 t2 \<and> set (pages t2) \<inter> set (pages t) = {} \<longrightarrow> stored s' h2 t2)
         | (Inl e, s') \<Rightarrow>
             (e = DuplicateKey key \<and> key \<in> keys_of t \<and> stored s' h t) \<or>
             (e = ValueError \<and> key \<notin> keys_of t \<and> (\<exists>c \<in> set ((key, v) # cells t). \<not> small_row (snd c)))"
proof -
  have I: "bt.is_tree PAGE_SIZE h {} s t" using assms(1) by (simp add: stored_is_tree)
  have h: "h < 32" using stored_height[OF assms(1)] assms(4) by (simp add: NO_PAGE_def)
  have n0: "int (bt_npages s) + int h + 1 < NO_PAGE" using assms(4) h by simp
  have page: "48 \<le> PAGE_SIZE" "PAGE_SIZE \<le> PAGE_SIZE" by (simp_all add: PAGE_SIZE_def)
  note K = bt.tree_insert_ok[OF I h assms(2,3) n0 page disjI1[OF refl]]
  show ?thesis
  proof (cases "key \<in> keys_of t")
    case True
    then obtain s1 where "tree_insert bt_store PAGE_SIZE 32 (proot t) key v s = (Inl (DuplicateKey key), s1)"
      "bt.same {} s s1"
      using K by auto
    then show ?thesis using True stored_same[OF _ assms(1)] by auto
  next
    case False
    then consider (fin) s1 t1 h1 where "tree_insert bt_store PAGE_SIZE 32 (proot t) key v s = (Inr (proot t1), s1)"
        "bt.is_tree PAGE_SIZE h1 {} s1 t1" "cells t1 = ins_cells key v (cells t)" "bt.others_kept s s1 t"
        "bt_npages s \<le> bt_npages s1"
      | (err) s1 where "tree_insert bt_store PAGE_SIZE 32 (proot t) key v s = (Inl ValueError, s1)"
        "\<not> (\<forall>c \<in> set ((key, v) # cells t). small_cell PAGE_SIZE c)"
      using K by (simp only: if_False) blast
    then show ?thesis
    proof cases
      case fin
      have m: "map_of (cells t1) = (map_of (cells t))(key \<mapsto> v)"
        using map_of_ins_cells[of key "cells t" v] False fin(3) by (simp add: keys_of_def)
      have ok1: "bt_ok {} s1" "stored s1 h1 t1" using fin(2) by (simp_all add: stored_is_tree bt.is_tree_def)
      have "stored s1 h2 t2" if "stored s h2 t2" "set (pages t2) \<inter> set (pages t) = {}" for h2 t2
        by (rule stored_other[OF fin(4) ok1(1) fin(5) that])
      then show ?thesis
        using fin(1,3) False ok1(2) m by auto
    next
      case err
      then obtain k w where "(k, w) \<in> set ((key, v) # cells t)" "\<not> small_cell PAGE_SIZE (k, w)" by auto
      then have "\<exists>c \<in> set ((key, v) # cells t). \<not> small_row (snd c)" using small_row_cells(1) by force
      then show ?thesis using err(1) False by simp
    qed
  qed
qed

lemma tree_insert_outcomes_witness:
  "\<exists>s s' h' t'. stored s 0 (PLeaf 1 []) \<and> tree_insert bt_store PAGE_SIZE 32 1 7 [1, 2] s = (Inr (proot t'), s') \<and>
     stored s' h' t' \<and> cells t' = [(7, [1, 2])]"
proof -
  obtain s where s: "stored s 0 (PLeaf 1 [])" "bt_npages s = 2" using demo_tree by blast
  obtain r s' where r: "tree_insert bt_store PAGE_SIZE 32 1 7 [1, 2] s = (r, s')" by fastforce
  note W = tree_insert_outcomes[OF s(1), of 7 "[1, 2]"]
  have "\<exists>t' h'. r = Inr (proot t') \<and> stored s' h' t' \<and> cells t' = [(7, [1, 2])]"
    using W r s(2)
    by (cases r) (auto simp: int64_def MAX_VALUE_SIZE_def NO_PAGE_def keys_of_def small_row_def ins_cells_def)
  then show ?thesis using s(1) r by auto
qed

text \<open>
  C6. Deleting from a tree whose rows are at most 1408 bytes long always succeeds: it says
  whether the key was there, the rows left are the rows before without it, in order, borrowing
  and merging included; the tree does not grow, takes no new page, and trees on other pages are
  untouched. Longer rows can end it with an \<open>IndexError\<close>, see \<open>single_row_borrow_fails\<close>.
\<close>

theorem tree_delete_outcome:
  assumes "stored s h t" and "\<forall>c \<in> set (cells t). length (snd c) \<le> 1408" and "int (bt_npages s) < NO_PAGE"
  shows "\<exists>s' t' h'. tree_delete bt_store PAGE_SIZE 32 (proot t) key s = (Inr (proot t', key \<in> keys_of t), s') \<and>
           stored s' h' t' \<and> cells t' = del_cells key (cells t) \<and> h' \<le> h \<and>
           set (pages t') \<subseteq> set (pages t) \<and> bt_npages s' = bt_npages s \<and>
           (\<forall>h2 t2. stored s h2 t2 \<and> set (pages t2) \<inter> set (pages t) = {} \<longrightarrow> stored s' h2 t2)"
proof -
  have I: "bt.is_tree PAGE_SIZE h {} s t" using assms(1) by (simp add: stored_is_tree)
  have h: "h < 32" using stored_height[OF assms(1)] assms(3) by (simp add: NO_PAGE_def)
  have page: "page_size_ok PAGE_SIZE" "PAGE_SIZE \<le> PAGE_SIZE" by (simp_all add: PAGE_SIZE_def page_size_ok_def)
  have sp: "\<forall>c \<in> set (cells t). spare_cell PAGE_SIZE c"
    using assms(2) by (simp add: spare_cell_def cell_size_def min_bytes_def PAGE_SIZE_def)
  obtain s1 t1 h1 where s1: "tree_delete bt_store PAGE_SIZE 32 (proot t) key s = (Inr (proot t1, key \<in> keys_of t), s1)"
    "bt.is_tree PAGE_SIZE h1 {} s1 t1" "cells t1 = del_cells key (cells t)" "h1 \<le> h" "bt.others_kept s s1 t"
    "set (pages t1) \<subseteq> set (pages t)" "bt_npages s1 = bt_npages s"
    using bt.tree_delete_ok[OF I h sp page assms(3), of key] by blast
  have ok1: "bt_ok {} s1" "stored s1 h1 t1" "bt_npages s \<le> bt_npages s1"
    using s1(2,7) by (simp_all add: stored_is_tree bt.is_tree_def)
  have "stored s1 h2 t2" if "stored s h2 t2" "set (pages t2) \<inter> set (pages t) = {}" for h2 t2
    by (rule stored_other[OF s1(5) ok1(1,3) that])
  then show ?thesis using s1 ok1(2) by blast
qed

text \<open>Two leaves of one row of 1400 bytes each: taking one row out leaves its leaf below the minimum, the
  other leaf cannot spare its only row, and the two are merged.\<close>

lemma tree_delete_outcome_witness:
  "\<exists>s s' t' h'. stored s 1 (PNode 1 [5] [PLeaf 2 [(4, wide)], PLeaf 3 [(5, wide)]]) \<and>
     tree_delete bt_store PAGE_SIZE 32 1 5 s = (Inr (proot t', True), s') \<and>
     stored s' h' t' \<and> cells t' = [(4, wide)] \<and> h' \<le> 1 \<and> set (pages t') \<subseteq> {1, 2, 3}"
proof -
  let ?t = "PNode 1 [5] [PLeaf 2 [(4, wide)], PLeaf 3 [(5, wide)]]"
  obtain s where s: "bt_ok {} s" "bt_npages s = 4" "bt_view s 1 = Some (Internal [5] [2, 3])"
      "bt_view s 2 = Some (Leaf [(4, wide)] (Some 3))" "bt_view s 3 = Some (Leaf [(5, wide)] None)"
    by (rule three_pages[of "Internal [5] [2, 3]" "Leaf [(4, wide)] (Some 3)" "Leaf [(5, wide)] None"])
      (auto simp: int64_def NO_PAGE_def PAGE_SIZE_def)
  have st: "stored s 1 ?t"
    using s by (auto simp: stored_def forest_at_def subtree_ok_def int64_def inter_def key_mark_def PAGE_SIZE_def)
  have np: "int (bt_npages s) < NO_PAGE" using s(2) by (simp add: NO_PAGE_def)
  have "\<forall>c \<in> set (cells ?t). length (snd c) \<le> 1408" by simp
  from tree_delete_outcome[OF st this np, of 5] show ?thesis
    using st by (auto simp: keys_of_def del_cells_def)
qed

text \<open>
  C8. Replacing the row of a key keeps the tree's pages and every other row, and always
  succeeds when the new row is not longer than the old one. When the row grows it may also fail
  with \<open>ValueError\<close>, since \<open>_replace\<close> writes the leaf back without splitting it.
\<close>

theorem tree_upsert_outcomes:
  assumes "stored s h t" and "map_of (cells t) key = Some old" and "length v \<le> MAX_VALUE_SIZE"
    and "int (bt_npages s) + 33 < NO_PAGE"
  shows "(\<exists>s' t'. tree_upsert bt_store PAGE_SIZE 32 (proot t) key v s = (Inr (proot t), s') \<and> proot t' = proot t \<and>
            stored s' h t' \<and> cells t' = upd_cells key v (cells t) \<and> set (pages t') = set (pages t) \<and>
            (\<forall>h2 t2. stored s h2 t2 \<and> set (pages t2) \<inter> set (pages t) = {} \<longrightarrow> stored s' h2 t2)) \<or>
         (length old < length v \<and>
            (\<exists>s'. tree_upsert bt_store PAGE_SIZE 32 (proot t) key v s = (Inl ValueError, s')))"
proof -
  have I: "bt.is_tree PAGE_SIZE h {} s t" using assms(1) by (simp add: stored_is_tree)
  have h: "h < 32" using stored_height[OF assms(1)] assms(4) by (simp add: NO_PAGE_def)
  have n0: "int (bt_npages s) + int h + 1 < NO_PAGE" using assms(4) h by simp
  have page: "48 \<le> PAGE_SIZE" by (simp add: PAGE_SIZE_def)
  from bt.tree_upsert_ok[OF I h assms(2,3) n0 page] show ?thesis
  proof (elim disjE exE conjE)
    fix s1 t1 assume u: "tree_upsert bt_store PAGE_SIZE 32 (proot t) key v s = (Inr (proot t1), s1)"
      "proot t1 = proot t" "bt.is_tree PAGE_SIZE h {} s1 t1" "cells t1 = upd_cells key v (cells t)"
      "bt.others_kept s s1 t" "set (pages t1) = set (pages t)" "bt_npages s1 = bt_npages s"
    have ok1: "bt_ok {} s1" "stored s1 h t1" "bt_npages s \<le> bt_npages s1"
      using u(3,7) by (simp_all add: stored_is_tree bt.is_tree_def)
    have "stored s1 h2 t2" if "stored s h2 t2" "set (pages t2) \<inter> set (pages t) = {}" for h2 t2
      by (rule stored_other[OF u(5) ok1(1,3) that])
    then show ?thesis using u ok1(2) by metis
  next
    fix s1 assume "length old < length v" "tree_upsert bt_store PAGE_SIZE 32 (proot t) key v s = (Inl ValueError, s1)"
    then show ?thesis by blast
  qed
qed

lemma tree_upsert_outcomes_witness:
  "\<exists>s t s' t' h. stored s h t \<and> cells t = [(7, [1, 2])] \<and> tree_upsert bt_store PAGE_SIZE 32 (proot t) 7 [9] s = (Inr (proot t), s') \<and>
     stored s' h t' \<and> proot t' = proot t \<and> cells t' = [(7, [9])]"
proof -
  obtain s0 where s0: "stored s0 0 (PLeaf 1 [])" "bt_npages s0 = 2" using demo_tree by blast
  have ok: "\<forall>x \<in> set [Op_insert 7 [1, 2]]. op_ok x" by (simp add: int64_def small_row_def)
  obtain s h t r where s: "run_op (Op_insert 7 [1, 2]) (proot (PLeaf 1 [])) s0 = (Inr (r, proot t), s)" "stored s h t"
    "spec_op (Op_insert 7 [1, 2]) (cells (PLeaf 1 [])) = (r, cells t)" "bt_npages s \<le> bt_npages s0 + 33"
    using run_op_refines[OF s0(1), of "Op_insert 7 [1, 2]"] ok s0(2) by (auto simp: NO_PAGE_def)
  have c: "cells t = [(7, [1, 2])]" using s(3) by (simp add: ins_cells_def)
  have "\<exists>s' t'. tree_upsert bt_store PAGE_SIZE 32 (proot t) 7 [9] s = (Inr (proot t), s') \<and>
      stored s' h t' \<and> proot t' = proot t \<and> cells t' = [(7, [9])]"
    using tree_upsert_outcomes[OF s(2), of 7 "[1, 2]" "[9]"] c s(4) s0(2)
    by (auto simp: MAX_VALUE_SIZE_def NO_PAGE_def upd_cells_def)
  then show ?thesis using s(2) c by blast
qed

section \<open>Rows that rebalancing does not handle\<close>

text \<open>
  A right sibling that is one row of 1409 bytes or more counts as able to spare a row
  (\<open>_can_spare\<close>), but borrowing it ends in an \<open>IndexError\<close> after the row was taken out of the
  sibling's node object: the exception leaves the pages as they are and the cached node empty.
\<close>

theorem single_row_borrow_fails:
  assumes "int64 k" and "1409 \<le> length v" and "length v \<le> MAX_VALUE_SIZE" and "page_link rn" and "cp \<noteq> rp"
    and "map_of (ncache s) rp = Some (oid, nd)"
  shows "can_spare PAGE_SIZE (Leaf [(k, v)] rn) = Inr True \<and>
    (\<exists>s'. borrow_from_right bt_store pn cp rp ks ch i (Leaf cc cn) (Leaf [(k, v)] rn) s = (Inl IndexError, s') \<and>
           bpager s' = bpager s \<and> map_of (ncache s') rp = Some (oid, Leaf [] rn))"
proof (rule conjI)
  have "node_ok (Leaf [(k, v)] rn)"
    using assms by (intro node_ok_leaf) (auto simp: cell_size_def MAX_VALUE_SIZE_def page_link_def)
  then show "can_spare PAGE_SIZE (Leaf [(k, v)] rn) = Inr True"
    using assms(2) by (simp add: can_spare_def serialized_size_ok min_bytes_def PAGE_SIZE_def cell_size_def)
  obtain s1 where s1: "bt_mut rp (Leaf [] rn) s = (Inr (), s1)" "bpager s1 = bpager s"
    "map_of (ncache s1) rp = Some (oid, Leaf [] rn)"
    using assms(6) by (simp add: bt_mut_def update_conv')
  obtain s2 where "bt_mut cp (Leaf (cc @ [(k, v)]) cn) s1 = (Inr (), s2)" "bpager s2 = bpager s1"
    "map_of (ncache s2) rp = map_of (ncache s1) rp"
    using assms(5) by (cases "map_of (ncache s1) cp") (auto simp: bt_mut_def update_conv')
  then show "\<exists>s'. borrow_from_right bt_store pn cp rp ks ch i (Leaf cc cn) (Leaf [(k, v)] rn) s = (Inl IndexError, s') \<and>
      bpager s' = bpager s \<and> map_of (ncache s') rp = Some (oid, Leaf [] rn)"
    using s1 by (simp add: borrow_from_right_def nth_err_def Let_def)
qed

lemma single_row_borrow_fails_witness:
  "\<exists>s'. borrow_from_right bt_store 1 2 3 [5] [2, 3] 0 (Leaf [] (Some 3)) (Leaf [(5, replicate 1500 0)] None)
     (demo_store\<lparr>ncache := [(3, 0, Leaf [(5, replicate 1500 0)] None)]\<rparr>) = (Inl IndexError, s') \<and>
     map_of (ncache s') 3 = Some (0, Leaf [] None)"
  using single_row_borrow_fails[of 5 "replicate 1500 0" None 2 3
      "demo_store\<lparr>ncache := [(3, 0, Leaf [(5, replicate 1500 0)] None)]\<rparr>" 0 _ 1 "[5]" "[2, 3]" 0 "[]" "Some 3"]
  by (auto simp: int64_def MAX_VALUE_SIZE_def)

end
