(* ===== verification/Maintain.thy ===== *)
theory Maintain
  imports TreeStore "HOL-Library.Product_Lexorder" "HOL-Library.List_Lexorder"
begin

text \<open>
  The maintenance operations of \<open>BTree\<close>: \<open>stats\<close>, \<open>check\<close>, \<open>bulk_load\<close> and \<open>vacuum\<close>. They follow
  page numbers like the other operations, so walks carry fuel: the height for recursive ones, the
  number of pages for leaf chains.
\<close>

section \<open>stats\<close>

record tree_stats =
  st_depth :: nat
  st_leaves :: nat
  st_internals :: nat
  st_keys :: nat

fun children_of :: "node \<Rightarrow> nat list" where
  "children_of (Leaf cs nxt) = []"
| "children_of (Internal ks children) = children"

fun cells_of :: "node \<Rightarrow> cell list" where
  "cells_of (Leaf cs nxt) = cs"
| "cells_of (Internal ks children) = []"

fun is_leaf :: "node \<Rightarrow> bool" where
  "is_leaf (Leaf cs nxt) \<longleftrightarrow> True"
| "is_leaf (Internal ks children) \<longleftrightarrow> False"

fun load_all :: "'s store \<Rightarrow> nat list \<Rightarrow> ('s, node list) prog" where
  "load_all st [] = ret []"
| "load_all st (c # cs) = bindP (st_load st c) (\<lambda>nd. bindP (load_all st cs) (\<lambda>nds. ret (nd # nds)))"

text \<open>The level loop. \<open>avg_fill\<close> is the rounded quotient of the last field and the number of leaves.\<close>

fun stats_loop :: "'s store \<Rightarrow> nat \<Rightarrow> tree_stats \<Rightarrow> node list \<Rightarrow> ('s, tree_stats) prog" where
  "stats_loop st 0 r lvl = raise OutOfFuel"
| "stats_loop st (Suc fuel) r lvl =
     (if lvl = [] then ret r else
      bindP (load_all st (concat (map children_of lvl))) (\<lambda>nxt.
      stats_loop st fuel
        \<lparr>st_depth = (if nxt = [] then st_depth r else st_depth r + 1),
         st_leaves = st_leaves r + length (filter is_leaf lvl),
         st_internals = st_internals r + length (filter (\<lambda>nd. \<not> is_leaf nd) lvl),
         st_keys = st_keys r + sum_list (map (\<lambda>nd. length (cells_of nd)) lvl)\<rparr> nxt))"

definition stats :: "'s store \<Rightarrow> nat \<Rightarrow> nat \<Rightarrow> ('s, tree_stats) prog" where
  "stats st fuel root =
     bindP (st_load st root) (\<lambda>nd.
     stats_loop st fuel \<lparr>st_depth = 1, st_leaves = 0, st_internals = 0, st_keys = 0\<rparr> [nd])"

section \<open>check\<close>

definition assertE :: "bool \<Rightarrow> unit res" where
  "assertE b = (if b then Inr () else Inl AssertionError)"

text \<open>The smallest and the largest key below a page, \<open>None\<close> for an empty leaf.\<close>

type_synonym bounds = "(int \<times> int) option"

fun safe_separators :: "int list \<Rightarrow> bounds list \<Rightarrow> unit res" where
  "safe_separators [] bs = Inr ()"
| "safe_separators (k # ks) (b # bs) =
     (case b of
        None \<Rightarrow> Inl TypeError
      | Some (lo, hi) \<Rightarrow> bindE (assertE (k \<le> lo)) (\<lambda>_. safe_separators ks bs))"
| "safe_separators (k # ks) [] = Inl IndexError"

definition hull_bounds :: "bounds list \<Rightarrow> bounds" where
  "hull_bounds bs =
     (case List.map_filter id bs of
        [] \<Rightarrow> None
      | ps \<Rightarrow> Some (Min (set (map fst ps)), Max (set (map snd ps))))"

text \<open>\<open>walk\<close>, with the set \<open>depths\<close> and the list \<open>walked\<close> threaded through.\<close>

type_synonym walked = "nat set \<times> int list"

fun walk_all :: "(nat \<Rightarrow> walked \<Rightarrow> ('s, bounds \<times> walked) prog) \<Rightarrow> nat list \<Rightarrow> walked \<Rightarrow> ('s, bounds list \<times> walked) prog" where
  "walk_all f [] w = ret ([], w)"
| "walk_all f (c # cs) w = bindP (f c w) (\<lambda>(b, w1). bindP (walk_all f cs w1) (\<lambda>(bs, w2). ret (b # bs, w2)))"

fun walk :: "'s store \<Rightarrow> nat \<Rightarrow> nat \<Rightarrow> nat \<Rightarrow> walked \<Rightarrow> ('s, bounds \<times> walked) prog" where
  "walk st 0 depth pg w = raise OutOfFuel"
| "walk st (Suc fuel) depth pg w =
     bindP (st_load st pg) (\<lambda>nd.
       case nd of
         Leaf cs nxt \<Rightarrow>
           (let ks = map fst cs in
            bindP (liftE (assertE (sorted_wrt (<) ks))) (\<lambda>_.
            ret (if ks = [] then None else Some (hd ks, last ks), (insert depth (fst w), snd w @ ks))))
       | Internal ks children \<Rightarrow>
           bindP (liftE (assertE (length children = length ks + 1))) (\<lambda>_.
           bindP (liftE (assertE (sorted_wrt (<) ks))) (\<lambda>_.
           bindP (walk_all (walk st fuel (depth + 1)) children w) (\<lambda>(bs, w1).
           bindP (liftE (safe_separators ks (tl bs))) (\<lambda>_. ret (hull_bounds bs, w1))))))"

fun first_leaf :: "'s store \<Rightarrow> nat \<Rightarrow> nat \<Rightarrow> ('s, nat \<times> node) prog" where
  "first_leaf st 0 pg = raise OutOfFuel"
| "first_leaf st (Suc fuel) pg =
     bindP (st_load st pg) (\<lambda>nd.
       case nd of
         Leaf cs nxt \<Rightarrow> ret (pg, nd)
       | Internal ks children \<Rightarrow> bindP (liftE (nth_err children 0)) (first_leaf st fuel))"

fun linked :: "'s store \<Rightarrow> nat \<Rightarrow> nat set \<Rightarrow> nat \<Rightarrow> node \<Rightarrow> ('s, int list) prog" where
  "linked st 0 seen pg nd = raise OutOfFuel"
| "linked st (Suc fuel) seen pg nd =
     (case nd of
        Internal ks children \<Rightarrow> raise AssertionError
      | Leaf cs nxt \<Rightarrow>
          if pg \<in> seen then raise AssertionError
          else (case nxt of
                  None \<Rightarrow> ret (map fst cs)
                | Some q \<Rightarrow>
                    bindP (st_load st q) (\<lambda>nd'.
                    bindP (linked st fuel (insert pg seen) q nd') (\<lambda>ks. ret (map fst cs @ ks)))))"

fun each_page :: "(nat \<Rightarrow> ('s, unit) prog) \<Rightarrow> nat list \<Rightarrow> ('s, unit) prog" where
  "each_page f [] = ret ()"
| "each_page f (c # cs) = bindP (f c) (\<lambda>_. each_page f cs)"

fun occupancy :: "'s store \<Rightarrow> nat \<Rightarrow> nat \<Rightarrow> bool \<Rightarrow> nat \<Rightarrow> ('s, unit) prog" where
  "occupancy st ps 0 is_root pg = raise OutOfFuel"
| "occupancy st ps (Suc fuel) is_root pg =
     bindP (st_load st pg) (\<lambda>nd.
     bindP (if is_root then ret () else
            bindP (liftE (underflow ps nd)) (\<lambda>u. liftE (assertE (\<not> u)))) (\<lambda>_.
     each_page (occupancy st ps fuel False) (children_of nd)))"

text \<open>The number of keys; the other two fields of the result are \<open>True\<close>.\<close>

definition check :: "'s store \<Rightarrow> nat \<Rightarrow> nat \<Rightarrow> nat \<Rightarrow> nat \<Rightarrow> ('s, nat) prog" where
  "check st ps fuel npages root =
     bindP (walk st fuel 1 root ({}, [])) (\<lambda>(b, (depths, ks)).
     bindP (first_leaf st fuel root) (\<lambda>(pg, nd).
     bindP (linked st (Suc npages) {} pg nd) (\<lambda>ls.
     bindP (liftE (assertE (ls = ks))) (\<lambda>_.
     bindP (occupancy st ps fuel True root) (\<lambda>_.
     bindP (liftE (assertE (card depths = 1))) (\<lambda>_. ret (length ks)))))))"

section \<open>bulk_load\<close>

text \<open>The cells of the leaves: a leaf ends with the cell that takes it over the threshold.\<close>

fun fill_leaves :: "nat \<Rightarrow> cell list \<Rightarrow> cell list \<Rightarrow> cell list list res" where
  "fill_leaves ps cur [] = Inr (if cur = [] then [] else [cur])"
| "fill_leaves ps cur (c # cs) =
     (let cur' = cur @ [c] in
      bindE (serialized_size (Leaf cur' None)) (\<lambda>probe.
      if ps - 16 < probe then
        (if length cur' = 1 then Inl ValueError else bindE (fill_leaves ps [] cs) (\<lambda>ls. Inr (cur' # ls)))
      else fill_leaves ps cur' cs))"

fun write_leaves :: "'s store \<Rightarrow> cell list list \<Rightarrow> ('s, (nat \<times> int) list) prog" where
  "write_leaves st [] = ret []"
| "write_leaves st (cs # css) =
     bindP (st_alloc st) (\<lambda>p.
     bindP (write_node st p (Leaf cs None)) (\<lambda>_.
     bindP (liftE (nth_err cs 0)) (\<lambda>c.
     bindP (write_leaves st css) (\<lambda>ps. ret ((p, fst c) # ps)))))"

text \<open>The second pass: every leaf is loaded again, its link changed in place and written.\<close>

fun link_leaves :: "'s store \<Rightarrow> nat list \<Rightarrow> ('s, unit) prog" where
  "link_leaves st [] = ret ()"
| "link_leaves st (p # ps) =
     bindP (st_load st p) (\<lambda>nd.
       case nd of
         Internal ks children \<Rightarrow> raise AttributeError
       | Leaf cs old \<Rightarrow>
           (let nd' = Leaf cs (case ps of [] \<Rightarrow> None | q # _ \<Rightarrow> Some q) in
            bindP (st_mut st p nd') (\<lambda>_. bindP (write_node st p nd') (\<lambda>_. link_leaves st ps))))"

definition FANOUT :: nat where
  "FANOUT = 32"

function groups :: "'a list \<Rightarrow> 'a list list" where
  "groups [] = []"
| "groups (x # xs) = take FANOUT (x # xs) # groups (drop FANOUT (x # xs))"
  by pat_completeness auto
termination by (relation "measure length") (auto simp: FANOUT_def)

fun write_parents :: "'s store \<Rightarrow> (nat \<times> int) list list \<Rightarrow> ('s, (nat \<times> int) list) prog" where
  "write_parents st [] = ret []"
| "write_parents st (g # gs) =
     bindP (st_alloc st) (\<lambda>p.
     bindP (write_node st p (Internal (map snd (tl g)) (map fst g))) (\<lambda>_.
     bindP (liftE (nth_err g 0)) (\<lambda>f.
     bindP (write_parents st gs) (\<lambda>ps. ret ((p, snd f) # ps)))))"

fun build_levels :: "'s store \<Rightarrow> nat \<Rightarrow> (nat \<times> int) list \<Rightarrow> ('s, nat) prog" where
  "build_levels st 0 lvl = raise OutOfFuel"
| "build_levels st (Suc fuel) lvl =
     (if 1 < length lvl then bindP (write_parents st (groups lvl)) (build_levels st fuel)
      else bindP (liftE (nth_err lvl 0)) (\<lambda>x. ret (fst x)))"

text \<open>\<open>sorted(pairs)\<close> orders by key, then by value. Levels shrink, so their number is fuel enough.\<close>

definition bulk_load :: "'s store \<Rightarrow> nat \<Rightarrow> cell list \<Rightarrow> ('s, nat) prog" where
  "bulk_load st ps pairs =
     (let rws = sort pairs in
      if rws = [] then bindP (st_alloc st) (\<lambda>p. bindP (write_node st p (Leaf [] None)) (\<lambda>_. ret p))
      else
        bindP (liftE (fill_leaves ps [] rws)) (\<lambda>css.
        bindP (write_leaves st css) (\<lambda>lvl.
        bindP (link_leaves st (map fst lvl)) (\<lambda>_.
        build_levels st (Suc (length lvl)) lvl))))"

definition tree_vacuum :: "'s store \<Rightarrow> nat \<Rightarrow> nat \<Rightarrow> nat \<Rightarrow> ('s, nat \<times> nat) prog" where
  "tree_vacuum st ps fuel root =
     bindP (tree_items st fuel root) (\<lambda>rws.
     bindP (bulk_load st ps rws) (\<lambda>r. ret (r, length rws)))"

end
