(* ===== verification/CheckProps.thy ===== *)
theory CheckProps
  imports Maintain TreeClaims
begin

text \<open>
  What \<open>BTree.check\<close> tells about a tree: on a well-formed tree it decides whether the nodes hold
  their minimum, and there are trees it accepts in which a row cannot be found.
\<close>

section \<open>Key ranges\<close>

definition span :: "cell list \<Rightarrow> bounds" where
  "span cs = (if cs = [] then None else Some (fst (hd cs), fst (last cs)))"

definition join_span :: "bounds \<Rightarrow> bounds \<Rightarrow> bounds" where
  "join_span b c = (case (b, c) of (None, c) \<Rightarrow> c | (b, None) \<Rightarrow> b
     | (Some (l, h), Some (l', h')) \<Rightarrow> Some (min l l', max h h'))"

lemma hull_bounds_Nil: "hull_bounds [] = None"
  by (simp add: hull_bounds_def)

lemma hull_bounds_Cons: "hull_bounds (b # bs) = join_span b (hull_bounds bs)"
proof (cases b)
  case None
  then show ?thesis by (simp add: hull_bounds_def join_span_def split: option.split)
next
  case (Some p)
  obtain l h where p: "p = (l, h)" by (cases p)
  have "Min (set (map fst (p # qs))) = (if qs = [] then l else min l (Min (set (map fst qs))))"
    "Max (set (map snd (p # qs))) = (if qs = [] then h else max h (Max (set (map snd qs))))" for qs
    by (simp_all add: p)
  then show ?thesis by (auto simp: hull_bounds_def join_span_def Some p split: list.split)
qed

lemma span_append:
  assumes "sorted_wrt (<) (map fst (cs @ ds))"
  shows "span (cs @ ds) = join_span (span cs) (span ds)"
proof (cases "cs = [] \<or> ds = []")
  case True
  then show ?thesis by (auto simp: span_def join_span_def split: option.split)
next
  case False
  have "fst c < fst d" if "c \<in> set cs" "d \<in> set ds" for c d
    using assms that by (fastforce simp: sorted_wrt_append)
  then have "fst (hd cs) < fst (hd ds)" "fst (last cs) < fst (last ds)" using False by simp_all
  then show ?thesis using False by (simp add: span_def join_span_def)
qed

lemma hull_bounds_spans:
  "sorted_wrt (<) (map fst (concat css)) \<Longrightarrow> hull_bounds (map span css) = span (concat css)"
proof (induction css)
  case Nil
  then show ?case by (simp add: hull_bounds_Nil span_def)
next
  case (Cons cs css)
  have "sorted_wrt (<) (map fst (concat css))" using Cons.prems by (simp add: sorted_wrt_append)
  then show ?case using Cons.IH Cons.prems span_append[of cs "concat css"] by (simp add: hull_bounds_Cons)
qed

lemma separators_safe:
  assumes "length ks = length ts" and "\<forall>t \<in> set ts. bal h t"
    and "sorted_wrt (<) (concat (map2 (\<lambda>k f. (2 * k) # f) ks (map flat ts)))"
  shows "safe_separators ks (map (\<lambda>t. span (cells t)) ts) = (if \<exists>t \<in> set ts. cells t = [] then Inl TypeError else Inr ())"
  using assms
proof (induction ks ts rule: list_induct2)
  case Nil
  then show ?case by simp
next
  case (Cons k ks t ts)
  have IH: "safe_separators ks (map (\<lambda>t. span (cells t)) ts) = (if \<exists>t \<in> set ts. cells t = [] then Inl TypeError else Inr ())"
    using Cons.IH Cons.prems by (simp add: sorted_wrt_append)
  show ?case
  proof (cases "cells t = []")
    case True
    then show ?thesis by (simp add: span_def)
  next
    case False
    have "key_mark (hd (cells t)) \<in> set (flat t)" using flat_keys[of h t "hd (cells t)"] False Cons.prems by simp
    then have "2 * k < key_mark (hd (cells t))" using Cons.prems(2) by simp
    then have "k \<le> fst (hd (cells t))" by (simp add: key_mark_def)
    then show ?thesis using IH False by (simp add: span_def assertE_def)
  qed
qed

section \<open>What check finds\<close>

text \<open>An empty leaf, or a tree of empty leaves, right of a separator.\<close>

fun gap :: "ptree \<Rightarrow> bool" where
  "gap (PLeaf n cs) \<longleftrightarrow> False"
| "gap (PNode n ks ts) \<longleftrightarrow> (\<exists>t \<in> set (tl ts). cells t = []) \<or> (\<exists>t \<in> set ts. gap t)"

text \<open>Every node but the root holds its minimum.\<close>

fun filled :: "nat \<Rightarrow> bool \<Rightarrow> ptree \<Rightarrow> bool" where
  "filled ps is_root (PLeaf n cs) \<longleftrightarrow> is_root \<or> cs \<noteq> [] \<and> min_bytes ps \<le> 9 + cells_size cs"
| "filled ps is_root (PNode n ks ts) \<longleftrightarrow>
     (is_root \<or> min_bytes ps \<le> 9 + 8 * length ks + 4 * length ts) \<and> (\<forall>t \<in> set ts. filled ps False t)"

definition checked :: "nat \<Rightarrow> ptree \<Rightarrow> nat res" where
  "checked ps t =
     (if gap t then Inl TypeError else if filled ps True t then Inr (length (cells t)) else Inl AssertionError)"

lemma forest_leaf_pages: "fst ` set (concat (map leaves us)) \<subseteq> set (concat (map pages us))"
proof (induction us)
  case (Cons u us)
  then show ?case using leaf_pages[of u] by (simp only: list.map concat.simps set_append image_Un) blast
qed simp

lemma distinct_leaf_pages: "distinct (pages t) \<Longrightarrow> distinct (map fst (leaves t))"
proof (induction t rule: leaves.induct)
  case (1 n cs)
  then show ?case by simp
next
  case (2 n ks ts)
  have "distinct (map fst (concat (map leaves us)))" if "set us \<subseteq> set ts" "distinct (concat (map pages us))" for us
    using that
  proof (induction us)
    case (Cons u us)
    have u: "distinct (pages u)" "distinct (concat (map pages us))" "set (pages u) \<inter> set (concat (map pages us)) = {}"
      using Cons.prems(2) by simp_all
    have "distinct (map fst (leaves u))" using 2(1) Cons.prems(1) u(1) by simp
    moreover have "fst ` set (leaves u) \<inter> fst ` set (concat (map leaves us)) = {}"
      using u(3) leaf_pages[of u] forest_leaf_pages[of us] by blast
    moreover have "distinct (map fst (concat (map leaves us)))" using Cons.IH Cons.prems(1) u(2) by simp
    ultimately show ?case by (simp only: list.map concat.simps map_append distinct_append set_map)
  qed simp
  then show ?case using 2(2) by simp
qed

context page_store
begin

lemma bindP_same:
  "m s = (Inr x, s1) \<Longrightarrow> same T s s1 \<Longrightarrow> \<exists>s'. f x s1 = (r, s') \<and> same T s1 s' \<Longrightarrow>
   \<exists>s'. bindP m f s = (r, s') \<and> same T s s'"
  using same_trans by (auto simp: bindP_app)

lemma walk_all_ok:
  assumes "\<And>u s w. u \<in> set us \<Longrightarrow> ok T s \<Longrightarrow> view s = v \<Longrightarrow> npages s = np \<Longrightarrow>
      \<exists>s'. f (proot u) w s = (if gap u then Inl TypeError
        else Inr (span (cells u), insert d (fst w), snd w @ map fst (cells u)), s') \<and> same T s s'"
    and "ok T s" and "view s = v" and "npages s = np"
  shows "\<exists>s'. walk_all f (map proot us) w s = (if \<exists>u \<in> set us. gap u then Inl TypeError
      else Inr (map (\<lambda>u. span (cells u)) us,
        (if us = [] then fst w else insert d (fst w), snd w @ map fst (fcells us))), s') \<and> same T s s'"
  using assms
proof (induction us arbitrary: s w)
  case Nil
  then show ?case by (simp add: same_def)
next
  case (Cons u us)
  obtain s1 where s1: "f (proot u) w s = (if gap u then Inl TypeError
        else Inr (span (cells u), insert d (fst w), snd w @ map fst (cells u)), s1)" "same T s s1"
    using Cons.prems(1)[of u s w] Cons.prems(2-4) by auto
  show ?case
  proof (cases "gap u")
    case True
    then show ?thesis using s1 by (auto simp: bindP_app)
  next
    case False
    let ?w = "(insert d (fst w), snd w @ map fst (cells u))"
    have "\<exists>s'. walk_all f (map proot us) ?w s1 = (if \<exists>u \<in> set us. gap u then Inl TypeError
      else Inr (map (\<lambda>u. span (cells u)) us,
        (if us = [] then fst ?w else insert d (fst ?w), snd ?w @ map fst (fcells us))), s') \<and> same T s1 s'"
      by (rule Cons.IH) (use Cons.prems s1(2) in \<open>auto simp: same_def\<close>)
    then obtain s2 where s2: "walk_all f (map proot us) ?w s1 = (if \<exists>u \<in> set us. gap u then Inl TypeError
      else Inr (map (\<lambda>u. span (cells u)) us,
        (if us = [] then fst ?w else insert d (fst ?w), snd ?w @ map fst (fcells us))), s2)" "same T s1 s2"
      by blast
    show ?thesis using s1 s2 False same_trans[OF s1(2) s2(2)] by (simp add: bindP_app)
  qed
qed

lemma walk_ok:
  assumes "ok T s" and "tree_at (view s) ps h t nx" and "clean_pages T s (set (pages t))" and "h < fuel"
  shows "\<exists>s'. walk st fuel depth (proot t) w s = (if gap t then Inl TypeError
      else Inr (span (cells t), insert (depth + h) (fst w), snd w @ map fst (cells t)), s') \<and> same T s s'"
  using assms
proof (induction fuel arbitrary: s h t nx depth w)
  case 0
  then show ?case by simp
next
  case (Suc fuel)
  show ?case
  proof (cases t)
    case (PLeaf n cs)
    then have L: "view s n = Some (Leaf cs nx)" "sorted_wrt (<) (map fst cs)" "h = 0"
      using Suc.prems(2) leaf_forest by auto
    obtain s1 where "st_load st n s = (Inr (Leaf cs nx), s1)" "same T s s1"
      using load_same[OF Suc.prems(1,3) _ L(1)] PLeaf by auto
    then show ?thesis using PLeaf L(2,3)
      by (simp add: bindP_app assertE_def span_def Let_def hd_map last_map)
  next
    case (PNode n ks ts)
    obtain h' where N: "h = Suc h'" "forest_at (view s) ps h' ts ks nx" "view s n = Some (Internal ks (map proot ts))"
      using node_forest[of "view s" ps h n ks ts nx] Suc.prems(2) unfolding PNode by blast
    obtain s1 where s1: "st_load st n s = (Inr (Internal ks (map proot ts)), s1)" "same T s s1"
      using load_same[OF Suc.prems(1,3) _ N(3)] PNode by auto
    have F: "length ts = Suc (length ks)" "sorted_wrt (<) (inter ks (map flat ts))" "\<forall>u \<in> set ts. bal h' u"
      using N(2) by (auto simp: forest_at_def subtree_ok_def)
    have ks: "sorted_wrt (<) ks" using sorted_inter_keys[OF _ F(2)] F(1) by simp
    have child: "\<exists>s'. walk st fuel (depth + 1) (proot u) w s = (if gap u then Inl TypeError
        else Inr (span (cells u), insert (depth + h) (fst w), snd w @ map fst (cells u)), s') \<and> same T s s'"
      if u: "u \<in> set ts" and K: "ok T s" "view s = view s1" "npages s = npages s1" for u s w
    proof -
      obtain l r where lr: "ts = l @ u # r" using u by (meson split_list)
      have at: "tree_at (view s) ps h' u (next_of (concat (map leaves r)) nx)"
        using forest_child[of "view s" ps h' l u r ks nx] N(2) lr F(1) s1(2) K(2) by (simp add: same_def)
      have "clean_pages T s (set (pages u))"
        using Suc.prems(3) PNode u s1(2) K(3) by (auto simp: clean_pages_def same_def)
      then show ?thesis using Suc.IH[OF K(1) at, of "depth + 1" w] Suc.prems(4) N(1) by (cases "gap u") simp_all
    qed
    have "\<exists>s'. walk_all (walk st fuel (depth + 1)) (map proot ts) w s1 = (if \<exists>u \<in> set ts. gap u then Inl TypeError
      else Inr (map (\<lambda>u. span (cells u)) ts,
        (if ts = [] then fst w else insert (depth + h) (fst w), snd w @ map fst (fcells ts))), s') \<and> same T s1 s'"
      by (rule walk_all_ok[where v = "view s1" and np = "npages s1"]) (use child s1(2) in \<open>auto simp: same_def\<close>)
    then obtain s2 where s2: "walk_all (walk st fuel (depth + 1)) (map proot ts) w s1 = (if \<exists>u \<in> set ts. gap u then Inl TypeError
      else Inr (map (\<lambda>u. span (cells u)) ts,
        (if ts = [] then fst w else insert (depth + h) (fst w), snd w @ map fst (fcells ts))), s2)" "same T s1 s2"
      by blast
    obtain t0 ts' where ts: "ts = t0 # ts'" "length ks = length ts'" using F(1) by (cases ts) auto
    have sep: "safe_separators ks (map (\<lambda>t. span (cells t)) ts') =
        (if \<exists>t \<in> set ts'. cells t = [] then Inl TypeError else Inr ())"
      by (rule separators_safe[OF ts(2)]) (use F(2,3) ts(1) in \<open>auto simp: inter_def sorted_wrt_append\<close>)
    have "sorted_wrt (<) (map fst (concat (map cells ts)))" using tree_sorted[OF Suc.prems(2)] PNode by simp
    then have hull: "hull_bounds (map (\<lambda>u. span (cells u)) ts) = span (cells t)"
      using hull_bounds_spans[of "map cells ts"] PNode by (simp add: comp_def)
    have cells: "cells t = fcells ts" using PNode by (simp add: fcells_def)
    have "walk st (Suc fuel) depth (proot t) w s = (if gap t then Inl TypeError
        else Inr (span (cells t), insert (depth + h) (fst w), snd w @ map fst (cells t)), s2)"
      using s1(1) s2(1) PNode ks F(1) sep hull cells ts
      by (simp add: bindP_app assertE_def)
    then show ?thesis using same_trans[OF s1(2) s2(2)] by blast
  qed
qed

lemma first_leaf_ok:
  assumes "ok T s" and "tree_at (view s) ps h t nx" and "clean_pages T s (set (pages t))" and "h < fuel"
  shows "\<exists>s' n cs B. first_leaf st fuel (proot t) s = (Inr (n, Leaf cs (next_of B nx)), s') \<and> same T s s' \<and> leaves t = (n, cs) # B"
  using assms
proof (induction fuel arbitrary: s h t nx)
  case 0
  then show ?case by simp
next
  case (Suc fuel)
  show ?case
  proof (cases t)
    case (PLeaf n cs)
    then have L: "view s n = Some (Leaf cs nx)" using Suc.prems(2) leaf_forest by auto
    obtain s1 where "st_load st n s = (Inr (Leaf cs nx), s1)" "same T s s1"
      using load_same[OF Suc.prems(1,3) _ L(1)] PLeaf by auto
    then show ?thesis using PLeaf by (auto simp: bindP_app)
  next
    case (PNode n ks ts)
    obtain h' where N: "h = Suc h'" "forest_at (view s) ps h' ts ks nx" "view s n = Some (Internal ks (map proot ts))"
      using node_forest[of "view s" ps h n ks ts nx] Suc.prems(2) unfolding PNode by blast
    obtain s1 where s1: "st_load st n s = (Inr (Internal ks (map proot ts)), s1)" "same T s s1"
      using load_same[OF Suc.prems(1,3) _ N(3)] PNode by auto
    obtain u r where ts: "ts = u # r" "length ks = length r" using N(2) by (cases ts) (auto simp: forest_at_def)
    have child: "tree_at (view s1) ps h' u (next_of (concat (map leaves r)) nx)"
      using forest_child[of "view s" ps h' "[]" u r ks nx] N(2) ts s1(2) by (simp add: same_def)
    have clean: "clean_pages T s1 (set (pages u))"
      using Suc.prems(3) clean_same[OF s1(2)] PNode ts by (auto simp: clean_pages_def)
    obtain s2 m cs B where s2: "first_leaf st fuel (proot u) s1 = (Inr (m, Leaf cs (next_of B (next_of (concat (map leaves r)) nx))), s2)"
      "same T s1 s2" "leaves u = (m, cs) # B"
      using Suc.IH[OF _ child clean] Suc.prems(4) N(1) s1(2) by (auto simp: same_def)
    have "first_leaf st (Suc fuel) (proot t) s = (Inr (m, Leaf cs (next_of (B @ concat (map leaves r)) nx)), s2)"
      using s1(1) s2(1) PNode ts by (simp add: bindP_app nth_err_def)
    then show ?thesis using same_trans[OF s1(2) s2(2)] s2(3) PNode ts by (auto intro!: exI[of _ s2])
  qed
qed

lemma linked_ok:
  assumes "ok T s" and "chain (view s) ((n, cs) # ls) None" and "clean_pages T s (fst ` set ((n, cs) # ls))"
    and "distinct (map fst ((n, cs) # ls))" and "seen \<inter> fst ` set ((n, cs) # ls) = {}" and "length ls < fuel"
  shows "\<exists>s'. linked st fuel seen n (Leaf cs (next_of ls None)) s = (Inr (map fst (concat (map snd ((n, cs) # ls)))), s') \<and> same T s s'"
  using assms
proof (induction fuel arbitrary: s n cs ls seen)
  case 0
  then show ?case by simp
next
  case (Suc fuel)
  show ?case
  proof (cases ls)
    case Nil
    then show ?thesis using Suc.prems by (simp add: same_def)
  next
    case (Cons l ls')
    obtain m ds where l: "l = (m, ds)" by (cases l)
    have "view s m = Some (Leaf ds (next_of ls' None))" using Suc.prems(2) Cons l by simp
    then obtain s1 where s1: "st_load st m s = (Inr (Leaf ds (next_of ls' None)), s1)" "same T s s1"
      using load_same[OF Suc.prems(1,3), of m] Cons l by auto
    have "\<exists>s'. linked st fuel (insert n seen) m (Leaf ds (next_of ls' None)) s1 =
        (Inr (map fst (concat (map snd ((m, ds) # ls')))), s') \<and> same T s1 s'"
      by (rule Suc.IH) (use Suc.prems s1(2) Cons l in \<open>auto simp: same_def clean_pages_def\<close>)
    then obtain s2 where "linked st fuel (insert n seen) m (Leaf ds (next_of ls' None)) s1 =
        (Inr (map fst (concat (map snd ((m, ds) # ls')))), s2)" "same T s1 s2"
      by blast
    then show ?thesis using s1 Suc.prems(5) Cons l same_trans[OF s1(2)] by (auto simp: bindP_app)
  qed
qed

lemma each_page_ok:
  assumes "\<And>u s. u \<in> set us \<Longrightarrow> ok T s \<Longrightarrow> view s = v \<Longrightarrow> npages s = np \<Longrightarrow>
      \<exists>s'. f (proot u) s = (if Q u then Inr () else Inl AssertionError, s') \<and> same T s s'"
    and "ok T s" and "view s = v" and "npages s = np"
  shows "\<exists>s'. each_page f (map proot us) s = (if \<forall>u \<in> set us. Q u then Inr () else Inl AssertionError, s') \<and> same T s s'"
  using assms
proof (induction us arbitrary: s)
  case Nil
  then show ?case by (simp add: same_def)
next
  case (Cons u us)
  obtain s1 where s1: "f (proot u) s = (if Q u then Inr () else Inl AssertionError, s1)" "same T s s1"
    using Cons.prems(1)[of u s] Cons.prems(2-4) by auto
  have "\<exists>s'. each_page f (map proot us) s1 = (if \<forall>u \<in> set us. Q u then Inr () else Inl AssertionError, s') \<and> same T s1 s'"
    by (rule Cons.IH) (use Cons.prems s1(2) in \<open>auto simp: same_def\<close>)
  then obtain s2 where "each_page f (map proot us) s1 = (if \<forall>u \<in> set us. Q u then Inr () else Inl AssertionError, s2)" "same T s1 s2"
    by blast
  then show ?case using s1 same_trans[OF s1(2)] by (cases "Q u") (auto simp: bindP_app)
qed

lemma occupancy_ok:
  assumes "ok T s" and "tree_at (view s) ps h t nx" and "clean_pages T s (set (pages t))" and "h < fuel"
    and "int (npages s) < NO_PAGE" and "ps \<le> 65536" and "case nx of None \<Rightarrow> True | Some p \<Rightarrow> int p < NO_PAGE"
  shows "\<exists>s'. occupancy st ps fuel is_root (proot t) s = (if filled ps is_root t then Inr () else Inl AssertionError, s') \<and> same T s s'"
  using assms(1-5,7)
proof (induction fuel arbitrary: s h t nx is_root)
  case 0
  then show ?case by simp
next
  case (Suc fuel)
  show ?case
  proof (cases t)
    case (PLeaf n cs)
    then have L: "view s n = Some (Leaf cs nx)" "9 + cells_size cs \<le> ps" "\<forall>c \<in> set cs. int64 (fst c)"
      using Suc.prems(2) leaf_forest by auto
    have "node_ok (Leaf cs nx)" by (rule node_ok_leaf) (use L assms(6) Suc.prems(6) in auto)
    then have "serialized_size (Leaf cs nx) = Inr (9 + cells_size cs)" using serialized_size_ok by simp
    moreover obtain s1 where "st_load st n s = (Inr (Leaf cs nx), s1)" "same T s s1"
      using load_same[OF Suc.prems(1,3) _ L(1)] PLeaf by auto
    ultimately show ?thesis using PLeaf by (auto simp: bindP_app underflow_def assertE_def)
  next
    case (PNode n ks ts)
    obtain h' where N: "h = Suc h'" "forest_at (view s) ps h' ts ks nx" "view s n = Some (Internal ks (map proot ts))"
        "ks \<noteq> []" "9 + 8 * length ks + 4 * length ts \<le> ps"
      using node_forest[of "view s" ps h n ks ts nx] Suc.prems(2) unfolding PNode by blast
    obtain s1 where s1: "st_load st n s = (Inr (Internal ks (map proot ts)), s1)" "same T s s1"
      using load_same[OF Suc.prems(1,3) _ N(3)] PNode by auto
    have F: "length ts = Suc (length ks)" "\<forall>k \<in> set ks. int64 k" using N(2) by (auto simp: forest_at_def)
    have pg: "int p < NO_PAGE" if "p \<in> fpages ts" for p
      using Suc.prems(3,5) PNode that by (fastforce simp: clean_pages_def fpages_def)
    have "node_ok (Internal ks (map proot ts))"
    proof (rule node_ok_internal)
      show "\<forall>c \<in> set (map proot ts). int c < 2 ^ 32"
        using pg proots_in_pages[of ts] by (fastforce simp: NO_PAGE_def)
    qed (use F N(5) assms(6) in auto)
    then have sz: "serialized_size (Internal ks (map proot ts)) = Inr (9 + 8 * length ks + 4 * length ts)"
      using serialized_size_ok by simp
    have two: "\<not> length ts < 2" using F(1) N(4) by (cases ks) auto
    have child: "\<exists>s'. occupancy st ps fuel False (proot u) s = (if filled ps False u then Inr () else Inl AssertionError, s') \<and> same T s s'"
      if u: "u \<in> set ts" and K: "ok T s" "view s = view s1" "npages s = npages s1" for u s
    proof -
      obtain l r where lr: "ts = l @ u # r" using u by (meson split_list)
      have at: "tree_at (view s) ps h' u (next_of (concat (map leaves r)) nx)"
        using forest_child[of "view s" ps h' l u r ks nx] N(2) lr F(1) s1(2) K(2) by (simp add: same_def)
      have cl: "clean_pages T s (set (pages u))"
        using Suc.prems(3) PNode u s1(2) K(3) by (auto simp: clean_pages_def same_def)
      have "case next_of (concat (map leaves r)) nx of None \<Rightarrow> True | Some p \<Rightarrow> int p < NO_PAGE"
        by (rule next_page_ok[OF Suc.prems(6)]) (use pg lr in auto)
      then show ?thesis using Suc.IH[OF K(1) at cl] Suc.prems(4,5) N(1) s1(2) K(3) by (simp add: same_def)
    qed
    have "\<exists>s'. each_page (occupancy st ps fuel False) (map proot ts) s1 =
        (if \<forall>u \<in> set ts. filled ps False u then Inr () else Inl AssertionError, s') \<and> same T s1 s'"
      by (rule each_page_ok[where v = "view s1" and np = "npages s1"]) (use child s1(2) in \<open>auto simp: same_def\<close>)
    then obtain s2 where s2: "each_page (occupancy st ps fuel False) (map proot ts) s1 =
        (if \<forall>u \<in> set ts. filled ps False u then Inr () else Inl AssertionError, s2)" "same T s1 s2"
      by blast
    have "\<exists>s'. occupancy st ps (Suc fuel) is_root (proot t) s = (if filled ps is_root t then Inr () else Inl AssertionError, s') \<and>
        (s' = s1 \<or> s' = s2)"
      using s1(1) s2(1) PNode sz two
      by (cases "is_root \<or> min_bytes ps \<le> 9 + 8 * length ks + 4 * length ts")
        (auto simp: bindP_app underflow_def assertE_def)
    then show ?thesis using s1(2) same_trans[OF s1(2) s2(2)] by blast
  qed
qed

lemma check_ok:
  assumes "ok T s" and "tree_at (view s) ps h t None" and "clean_pages T s (set (pages t))" and "h < fuel"
    and "int (npages s) < NO_PAGE" and "ps \<le> 65536" and "length (leaves t) \<le> np"
  shows "\<exists>s'. check st ps fuel np (proot t) s = (checked ps t, s') \<and> same T s s'"
proof -
  obtain s1 where s1: "walk st fuel 1 (proot t) ({}, []) s = (if gap t then Inl TypeError
      else Inr (span (cells t), {1 + h}, map fst (cells t)), s1)" "same T s s1"
    using walk_ok[OF assms(1-4), of 1 "({}, [])"] by auto
  have K1: "ok T s1" "tree_at (view s1) ps h t None" "clean_pages T s1 (set (pages t))"
    using assms(2,3) s1(2) clean_same[OF s1(2)] by (simp_all add: same_def)
  obtain s2 n cs B where s2: "first_leaf st fuel (proot t) s1 = (Inr (n, Leaf cs (next_of B None)), s2)" "same T s1 s2"
      "leaves t = (n, cs) # B"
    using first_leaf_ok[OF K1 assms(4)] by blast
  have K2: "ok T s2" "tree_at (view s2) ps h t None" "clean_pages T s2 (set (pages t))"
    using K1(2,3) s2(2) clean_same[OF s2(2)] by (simp_all add: same_def)
  have leaf: "fst ` set ((n, cs) # B) \<subseteq> set (pages t)" using leaf_pages[of t] s2(3) by auto
  have "\<exists>s'. linked st (Suc np) {} n (Leaf cs (next_of B None)) s2 =
      (Inr (map fst (concat (map snd ((n, cs) # B)))), s') \<and> same T s2 s'"
  proof (rule linked_ok[OF K2(1)])
    show "chain (view s2) ((n, cs) # B) None" using K2(2) s2(3) by (simp add: forest_at_def)
    show "clean_pages T s2 (fst ` set ((n, cs) # B))" using K2(3) leaf by (auto simp: clean_pages_def)
    show "distinct (map fst ((n, cs) # B))"
      using assms(2) distinct_leaf_pages[of t] unfolding s2(3) by (simp add: forest_at_def)
    show "length B < Suc np" using assms(7) s2(3) by simp
  qed simp
  then obtain s3 where s3: "linked st (Suc np) {} n (Leaf cs (next_of B None)) s2 =
      (Inr (map fst (cells t)), s3)" "same T s2 s3"
    by (auto simp: cells_def s2(3))
  have K3: "ok T s3" "tree_at (view s3) ps h t None" "clean_pages T s3 (set (pages t))" "npages s3 = npages s"
    using K2(2,3) s1(2) s2(2) s3(2) clean_same[OF s3(2)] by (simp_all add: same_def)
  obtain s4 where s4: "occupancy st ps fuel True (proot t) s3 = (if filled ps True t then Inr () else Inl AssertionError, s4)" "same T s3 s4"
    using occupancy_ok[OF K3(1-3) assms(4) _ assms(6), of True] assms(5) K3(4) by auto
  have "same T s s4" using s1(2) s2(2) s3(2) s4(2) by (simp add: same_def)
  then show ?thesis using s1 s2(1) s3(1) s4(1)
    by (auto simp: check_def checked_def bindP_app assertE_def)
qed

end

section \<open>A tree that check accepts\<close>

text \<open>Two leaves under one separator, with nothing said of the keys left of it.\<close>

definition two_leaves :: "bstate \<Rightarrow> nat \<Rightarrow> nat \<Rightarrow> nat \<Rightarrow> int \<Rightarrow> cell list \<Rightarrow> cell list \<Rightarrow> bool" where
  "two_leaves s r a b k ca cb \<longleftrightarrow>
     bt_ok {} s \<and> distinct [r, a, b] \<and> r < bt_npages s \<and> a < bt_npages s \<and> b < bt_npages s \<and>
     bt_view s r = Some (Internal [k] [a, b]) \<and> bt_view s a = Some (Leaf ca (Some b)) \<and> bt_view s b = Some (Leaf cb None) \<and>
     node_ok (Internal [k] [a, b]) \<and> node_ok (Leaf ca (Some b)) \<and> node_ok (Leaf cb None)"

lemma two_leaves_load:
  assumes "two_leaves s r a b k ca cb" and "bt.same {} s s1" and "n \<in> {r, a, b}" and "bt_view s n = Some nd"
  obtains s2 where "bt_load n s1 = (Inr nd, s2)" "bt.same {} s s2"
  using assms bt.load_law[of "{}" s1 n nd] by (auto simp: two_leaves_def bt.same_def)

lemma underfull:
  assumes "node_ok nd" and "min_bytes PAGE_SIZE \<le> node_size nd"
    and "case nd of Leaf cs nxt \<Rightarrow> cs \<noteq> [] | Internal ks cs \<Rightarrow> 2 \<le> length cs"
  shows "underflow PAGE_SIZE nd = Inr False"
  using assms serialized_size_ok[OF assms(1)] by (auto simp: underflow_def split: node.splits)

lemma two_leaves_check:
  assumes S: "two_leaves s r a b k ca cb"
    and sorted: "sorted_wrt (<) (map fst ca)" "sorted_wrt (<) (map fst cb)"
    and size: "min_bytes PAGE_SIZE \<le> 9 + cells_size ca" "min_bytes PAGE_SIZE \<le> 9 + cells_size cb"
    and ne: "ca \<noteq> []" "cb \<noteq> []" "k \<le> fst (hd cb)"
  shows "\<exists>s'. check bt_store PAGE_SIZE (Suc (Suc f)) (bt_npages s) r s = (Inr (length ca + length cb), s')"
proof -
  note load = two_leaves_load[OF S]
  have V: "bt_view s r = Some (Internal [k] [a, b])" "bt_view s a = Some (Leaf ca (Some b))" "bt_view s b = Some (Leaf cb None)"
    "bt_ok {} s" "a \<noteq> b" "0 < bt_npages s" using S by (auto simp: two_leaves_def)
  have refl: "bt.same {} s s" using V(4) by (simp add: bt.same_def)
  obtain np where np: "bt_npages s = Suc np" using V(6) by (cases "bt_npages s") auto
  obtain s1 where s1: "bt_load r s = (Inr (Internal [k] [a, b]), s1)" "bt.same {} s s1" by (rule load[OF refl _ V(1)]) simp
  obtain s2 where s2: "bt_load a s1 = (Inr (Leaf ca (Some b)), s2)" "bt.same {} s s2" by (rule load[OF s1(2) _ V(2)]) simp
  obtain s3 where s3: "bt_load b s2 = (Inr (Leaf cb None), s3)" "bt.same {} s s3" by (rule load[OF s2(2) _ V(3)]) simp
  obtain s4 where s4: "bt_load r s3 = (Inr (Internal [k] [a, b]), s4)" "bt.same {} s s4" by (rule load[OF s3(2) _ V(1)]) simp
  obtain s5 where s5: "bt_load a s4 = (Inr (Leaf ca (Some b)), s5)" "bt.same {} s s5" by (rule load[OF s4(2) _ V(2)]) simp
  obtain s6 where s6: "bt_load b s5 = (Inr (Leaf cb None), s6)" "bt.same {} s s6" by (rule load[OF s5(2) _ V(3)]) simp
  obtain s7 where s7: "bt_load r s6 = (Inr (Internal [k] [a, b]), s7)" "bt.same {} s s7" by (rule load[OF s6(2) _ V(1)]) simp
  obtain s8 where s8: "bt_load a s7 = (Inr (Leaf ca (Some b)), s8)" "bt.same {} s s8" by (rule load[OF s7(2) _ V(2)]) simp
  obtain s9 where s9: "bt_load b s8 = (Inr (Leaf cb None), s9)" "bt.same {} s s9" by (rule load[OF s8(2) _ V(3)]) simp
  have un: "underflow PAGE_SIZE (Leaf ca (Some b)) = Inr False" "underflow PAGE_SIZE (Leaf cb None) = Inr False"
    using S size ne by (auto intro!: underfull simp: two_leaves_def)
  have walk: "walk bt_store (Suc (Suc f)) 1 r ({}, []) s =
      (Inr (Some (min (fst (hd ca)) (fst (hd cb)), max (fst (last ca)) (fst (last cb))), {2}, map fst ca @ map fst cb), s3)"
    using s1 s2 s3 sorted ne
    by (simp add: bindP_app assertE_def Let_def hd_map last_map hull_bounds_Cons hull_bounds_Nil join_span_def numeral_2_eq_2)
  have first: "first_leaf bt_store (Suc (Suc f)) r s3 = (Inr (a, Leaf ca (Some b)), s5)"
    using s4 s5 by (simp add: bindP_app nth_err_def)
  have chain: "linked bt_store (Suc (bt_npages s)) {} a (Leaf ca (Some b)) s5 = (Inr (map fst ca @ map fst cb), s6)"
    using s6 V(5) by (simp add: bindP_app np)
  have occ: "occupancy bt_store PAGE_SIZE (Suc (Suc f)) True r s6 = (Inr (), s9)"
    using s7 s8 s9 un by (simp add: bindP_app assertE_def)
  show ?thesis unfolding check_def bindP_app walk first chain sum.case prod.case by (simp add: assertE_def bindP_app occ del: occupancy.simps)
qed

section \<open>Two full leaves\<close>

lemma two_wide:
  assumes "int64 x" and "int64 y"
  obtains s where "two_leaves s 1 2 3 5 [(x, wide)] [(y, wide)]" "bt_npages s = 4"
proof -
  obtain s where "bt_ok {} s" "bt_npages s = 4" "bt_view s 1 = Some (Internal [5] [2, 3])"
      "bt_view s 2 = Some (Leaf [(x, wide)] (Some 3))" "bt_view s 3 = Some (Leaf [(y, wide)] None)"
    by (rule three_pages[of "Internal [5] [2, 3]" "Leaf [(x, wide)] (Some 3)" "Leaf [(y, wide)] None"])
      (use assms in \<open>auto simp: int64_def NO_PAGE_def PAGE_SIZE_def\<close>)
  then show thesis by (intro that[of s]) (use assms in \<open>auto simp: two_leaves_def int64_def NO_PAGE_def\<close>)
qed

section \<open>Properties\<close>

text \<open>C35. \<open>check\<close> (the shell's \<open>.check\<close>) on a well-formed tree decides exactly one thing: it returns the number
  of rows when every node but the root holds its minimum, fails its assertion when one does not, and
  dies of a \<open>TypeError\<close> when a leaf right of a separator is empty. It changes nothing.\<close>

theorem check_decides_minimum:
  assumes "stored s h t" and "int (bt_npages s) < NO_PAGE"
  shows "\<exists>s'. check bt_store PAGE_SIZE 32 (bt_npages s) (proot t) s = (checked PAGE_SIZE t, s') \<and> stored s' h t"
proof -
  have "h < 32" using stored_height[OF assms(1)] assms(2) by (simp add: NO_PAGE_def)
  moreover have "bt.clean_pages {} s (set (pages t))" "bt_ok {} s" "tree_at (bt_view s) PAGE_SIZE h t None"
    using assms(1) by (simp_all add: stored_def bt.clean_pages_def)
  ultimately obtain s' where "check bt_store PAGE_SIZE 32 (bt_npages s) (proot t) s = (checked PAGE_SIZE t, s')" "bt.same {} s s'"
    using bt.check_ok[of "{}" s PAGE_SIZE h t 32 "bt_npages s"] stored_leaves[OF assms(1)] assms(2) by (auto simp: PAGE_SIZE_def)
  then show ?thesis using stored_same[OF _ assms(1)] by blast
qed

lemma check_decides_minimum_witness:
  "\<exists>s s'. stored s 1 (PNode 1 [5] [PLeaf 2 [(4, wide)], PLeaf 3 [(5, wide)]]) \<and>
     check bt_store PAGE_SIZE 32 (bt_npages s) 1 s = (Inr 2, s')"
proof -
  obtain s where s: "two_leaves s 1 2 3 5 [(4, wide)] [(5, wide)]" "bt_npages s = 4"
    by (rule two_wide[of 4 5]) (simp_all add: int64_def)
  let ?t = "PNode 1 [5] [PLeaf 2 [(4, wide)], PLeaf 3 [(5, wide)]]"
  have st: "stored s 1 ?t"
    using s by (auto simp: stored_def two_leaves_def forest_at_def subtree_ok_def int64_def inter_def key_mark_def PAGE_SIZE_def)
  have "checked PAGE_SIZE ?t = Inr 2" by (simp add: checked_def min_bytes_def PAGE_SIZE_def)
  then show ?thesis using check_decides_minimum[OF st] st s(2) by (auto simp: NO_PAGE_def)
qed

text \<open>\<open>check\<close> does not see rows left of their separator: it compares a separator with the smallest key on
  its right only, and the chain of leaves with the order of the tree. It accepts two full leaves whatever
  keys the left one has, also a row that no search finds.\<close>

theorem check_accepts_lost_row:
  assumes "two_leaves s r a b k ca cb"
    and "sorted_wrt (<) (map fst ca)" and "sorted_wrt (<) (map fst cb)"
    and "min_bytes PAGE_SIZE \<le> 9 + cells_size ca" and "min_bytes PAGE_SIZE \<le> 9 + cells_size cb"
    and "cb \<noteq> []" and "k \<le> fst (hd cb)"
    and "(key, v) \<in> set ca" and "k \<le> key" and "key \<notin> fst ` set cb"
  shows "fst (check bt_store PAGE_SIZE 32 (bt_npages s) r s) = Inr (length ca + length cb) \<and>
    fst (search bt_store 32 r key s) = Inr None"
proof -
  have "ca \<noteq> []" using assms(8) by auto
  then have C: "fst (check bt_store PAGE_SIZE 32 (bt_npages s) r s) = Inr (length ca + length cb)"
    using two_leaves_check[OF assms(1-5) _ assms(6,7), of 30] by auto
  have refl: "bt.same {} s s" and V: "bt_view s r = Some (Internal [k] [a, b])" "bt_view s b = Some (Leaf cb None)"
    using assms(1) by (simp_all add: two_leaves_def bt.same_def)
  obtain s1 where s1: "bt_load r s = (Inr (Internal [k] [a, b]), s1)" "bt.same {} s s1"
    by (rule two_leaves_load[OF assms(1) refl _ V(1)]) simp
  obtain s2 where s2: "bt_load b s1 = (Inr (Leaf cb None), s2)"
    by (rule two_leaves_load[OF assms(1) s1(2) _ V(2)]) simp_all
  have i: "child_index [k] key = 1" using assms(9) child_index_sorted[of "[k]" key] by simp
  have h: "\<not> has_key_at cb (cell_index cb key) key" using has_key_at_iff[OF assms(3)] assms(10) by simp
  have "search bt_store (Suc (Suc 30)) r key s = (Inr None, s2)"
    unfolding search.simps bt_store_simps using s1 s2 i h by (simp add: bindP_app Let_def nth_err_def)
  then show ?thesis using C by simp
qed

lemma check_accepts_lost_row_witness:
  "\<exists>s. bt_view s 2 = Some (Leaf [(9, wide)] (Some 3)) \<and> fst (check bt_store PAGE_SIZE 32 (bt_npages s) 1 s) = Inr 2 \<and>
     fst (search bt_store 32 1 9 s) = Inr None"
proof -
  obtain s where s: "two_leaves s 1 2 3 5 [(9, wide)] [(5, wide)]" "bt_npages s = 4"
    by (rule two_wide[of 9 5]) (simp_all add: int64_def)
  have m: "min_bytes PAGE_SIZE \<le> 9 + cells_size [(x, wide)]" for x by (simp add: min_bytes_def PAGE_SIZE_def)
  have "fst (check bt_store PAGE_SIZE 32 (bt_npages s) 1 s) = Inr (length [(9 :: int, wide)] + length [(5 :: int, wide)]) \<and>
      fst (search bt_store 32 1 9 s) = Inr None"
    by (rule check_accepts_lost_row[OF s(1) _ _ m m, of 9 wide]) simp_all
  moreover have "bt_view s 2 = Some (Leaf [(9, wide)] (Some 3))" using s(1) by (simp add: two_leaves_def)
  ultimately show ?thesis by (intro exI[of _ s]) (simp add: numeral_2_eq_2)
qed

end
