(* ===== verification/NodeCache.thy ===== *)
theory NodeCache
  imports TreeClaims PagerTxn
begin

text \<open>
  What \<open>BTree._ncache\<close> does to a rollback. The pager puts the very page object back that the cached
  node was parsed from, but the insertion has changed that node in place.
\<close>

text \<open>Inside a transaction nothing is evicted, so a loaded page and its node stay in memory.\<close>

lemma bt_load_txn:
  assumes "bt_load n s = (Inr nd, s')" and "touched (bpager s) = Some X"
  shows "\<exists>d. map_of (pool (bpager s')) n = Some d \<and> map_of (ncache s') n = Some (fst d, nd) \<and>
    touched (bpager s') = Some X \<and> shadow (bpager s') = shadow (bpager s) \<and> num_pages (bpager s') = num_pages (bpager s)"
proof -
  obtain r p where p: "pager_get n (bpager s) = (r, p)" by fastforce
  then obtain d where d: "r = Inr d" using assms(1) by (cases r) (auto simp: bt_load_def)
  have pool: "map_of (pool p) n = Some d \<and> touched p = Some X \<and> shadow p = shadow (bpager s) \<and> num_pages p = num_pages (bpager s)"
    using p assms(2)
    by (auto simp: d pager_get_def pool_get_def read_page_def evict_if_full_def pool_put_def map_of_append map_of_drop_key map_add_Some_iff
        split: if_splits option.splits)
  then show ?thesis
    using assms(1) by (cases d) (auto simp: bt_load_def p \<open>r = Inr d\<close> Let_def update_conv' split: option.splits sum.splits if_splits)
qed

lemma bt_load_hit:
  assumes "map_of (pool (bpager s)) n = Some d" and "map_of (ncache s) n = Some (fst d, nd)" and "n < num_pages (bpager s)"
  shows "fst (bt_load n s) = Inr nd"
  using assms by (simp add: bt_load_def pager_get_def pool_get_def Let_def)

lemma bt_write_txn:
  assumes "map_of (pool (bpager s)) n = Some d" and "touched (bpager s) = Some X" and "shadow (bpager s) = []"
    and "length b \<le> PAGE_SIZE"
  obtains s' where "bt_write n b s = (Inr (), s')" "ncache s' = ncache s" "shadow (bpager s') = [(n, Some d)]"
    "num_pages (bpager s) \<le> num_pages (bpager s')"
  using assms
  by (simp add: bt_write_def pager_write_def capture_shadow_def pool_get_def evict_if_full_def pool_put_def Let_def)

lemma insert_in_txn:
  assumes V: "bt_load n s = (Inr (Leaf cs None), s2)" "sorted_wrt (<) (map fst cs)" "\<forall>c \<in> set cs. int64 (fst c)"
    and p: "touched (bpager s) = Some {}" "shadow (bpager s) = []"
    and k: "key \<notin> fst ` set cs" "int64 key" "length v \<le> MAX_VALUE_SIZE" "cells_size (ins_cells key v cs) + 9 \<le> PAGE_SIZE"
  obtains d s4 where "tree_insert bt_store PAGE_SIZE 32 n key v s = (Inr n, s4)" "shadow (bpager s4) = [(n, Some d)]"
    "map_of (ncache s4) n = Some (fst d, Leaf (ins_cells key v cs) None)" "num_pages (bpager s) \<le> num_pages (bpager s4)"
proof -
  let ?cs = "ins_cells key v cs"
  obtain d where d: "map_of (pool (bpager s2)) n = Some d" "map_of (ncache s2) n = Some (fst d, Leaf cs None)"
    "touched (bpager s2) = Some {}" "shadow (bpager s2) = []" "num_pages (bpager s2) = num_pages (bpager s)"
    using bt_load_txn[OF V(1)] p by auto
  define s3 where "s3 = s2\<lparr>ncache := AList.update n (fst d, Leaf ?cs None) (ncache s2)\<rparr>"
  have mut: "bt_mut n (Leaf ?cs None) s2 = (Inr (), s3)" using d(2) by (simp add: bt_mut_def s3_def)
  have ok: "node_ok (Leaf ?cs None)"
    by (rule node_ok_leaf) (use V(3) k(2,4) in \<open>auto simp: ins_cells_set PAGE_SIZE_def\<close>)
  obtain b where b: "to_bytes (Leaf ?cs None) = Inr b" "length b = cells_size ?cs + 9" using to_bytes_ok[OF ok] by auto
  have d3: "map_of (pool (bpager s3)) n = Some d" "touched (bpager s3) = Some {}" "shadow (bpager s3) = []"
    using d by (simp_all add: s3_def)
  have "length b \<le> PAGE_SIZE" using b(2) k(4) by simp
  then obtain s4 where s4: "bt_write n b s3 = (Inr (), s4)" and w: "ncache s4 = ncache s3" "shadow (bpager s4) = [(n, Some d)]"
      "num_pages (bpager s3) \<le> num_pages (bpager s4)"
    using bt_write_txn[OF d3] by blast
  have idx: "insert_at (cell_index cs key) (key, v) cs = ?cs" "\<not> has_key_at cs (cell_index cs key) key"
    using insert_at_ins_cells[OF V(2)] has_key_at_iff[OF V(2)] k(1) by simp_all
  have wn: "write_node bt_store n (Leaf ?cs None) s3 = (Inr (), s4)" using s4 unfolding write_node_def b(1) by (simp add: bindP_app)
  have sz: "serialized_size (Leaf ?cs None) = Inr (node_size (Leaf ?cs None))" "node_size (Leaf ?cs None) \<le> PAGE_SIZE"
    using serialized_size_ok[OF ok] k(4) by simp_all
  have "ins bt_store PAGE_SIZE (Suc 31) n key v s = (Inr None, s4)"
    unfolding ins.simps bt_store_simps using V(1) mut wn idx sz by (simp add: bindP_app Let_def)
  then have "tree_insert bt_store PAGE_SIZE 32 n key v s = (Inr n, s4)"
    using k(3) by (simp add: tree_insert_def bindP_app)
  then show ?thesis using that w d(5) by (simp add: s3_def update_conv')
qed

text \<open>C33. An insertion survives its rollback: a row put into a one-leaf table inside a transaction is still
  found after the transaction has been rolled back. The pager restores the page, and with it the
  object that the cached node was parsed from; \<open>_insert\<close> has changed that node in place.\<close>

theorem rolled_back_insert_visible:
  assumes "stored s h (PLeaf n cs)" and "begin_txn (bpager s) = (Inr (), p)"
    and "key \<notin> fst ` set cs" and "int64 key" and "length v \<le> MAX_VALUE_SIZE"
    and "cells_size (ins_cells key v cs) + 9 \<le> PAGE_SIZE"
    and "tree_insert bt_store PAGE_SIZE 32 n key v (s\<lparr>bpager := p\<rparr>) = (r, s1)"
  shows "fst (search bt_store 32 n key (s1\<lparr>bpager := rollback_txn (bpager s1)\<rparr>)) = Inr (Some v)"
proof -
  let ?s = "s\<lparr>bpager := p\<rparr>" and ?cs = "ins_cells key v cs"
  have S: "bt_ok {} s" "tree_at (bt_view s) PAGE_SIZE h (PLeaf n cs) None" "n < bt_npages s"
    using assms(1) by (simp_all add: stored_def)
  have V: "bt_view s n = Some (Leaf cs None)" "sorted_wrt (<) (map fst cs)" "\<forall>c \<in> set cs. int64 (fst c)"
    using S(2) unfolding leaf_forest by auto
  have q: "p = bpager s\<lparr>touched := Some {}, shadow := []\<rparr>" using assms(2) by (auto simp: begin_txn_def split: if_splits)
  have o: "obj_at p = obj_at (bpager s)" "page_image p = page_image (bpager s)"
    by (simp_all add: q obj_at_def page_image_def fun_eq_iff cong: option.case_cong)
  have "pager_inv p" using begin_txn_inv(3)[OF _ assms(2)] S(1) by (simp add: bt_ok_def)
  then have p: "touched p = Some {}" "shadow p = []" "num_pages p = bt_npages s" "bt_ok {} ?s" "bt_view ?s = bt_view s"
    using S(1) o by (simp_all add: q bt_ok_def bt_npages_def cache_ok_def bt_view_def fun_eq_iff)
  obtain s2 where s2: "bt_load n ?s = (Inr (Leaf cs None), s2)"
    using bt_load_law[OF p(4), of n "Leaf cs None"] V(1) p(5) S(3) p(3) by (auto simp: bt_npages_def)
  have p': "touched (bpager ?s) = Some {}" "shadow (bpager ?s) = []" using p by simp_all
  obtain d where w: "shadow (bpager s1) = [(n, Some d)]" "map_of (ncache s1) n = Some (fst d, Leaf ?cs None)"
      "num_pages p \<le> num_pages (bpager s1)"
    by (rule insert_in_txn[OF s2 V(2,3) p' assms(3-6)]) (use assms(7) in auto)
  let ?e = "s1\<lparr>bpager := rollback_txn (bpager s1)\<rparr>"
  have e: "map_of (pool (bpager ?e)) n = Some d" "map_of (ncache ?e) n = Some (fst d, Leaf ?cs None)"
    "n < num_pages (bpager ?e)"
    using w S(3) p(3) by (simp_all add: rollback_txn_def pool_put_def map_of_append map_of_drop_key map_add_Some_iff)
  have sorted: "sorted_wrt (<) (map fst ?cs)" by (rule ins_cells_sorted[OF V(2) assms(3)])
  have k: "key \<in> fst ` set ?cs" by (simp add: ins_cells_set)
  have hit: "has_key_at ?cs (cell_index ?cs key) key" "map_of ?cs key = Some (snd (?cs ! cell_index ?cs key))"
    using has_key_at_iff[OF sorted] cell_at_index[OF sorted] k by simp_all
  have "map_of ?cs key = Some v"
    by (rule map_of_is_SomeI) (use sorted in \<open>auto simp: ins_cells_set strict_sorted_iff\<close>)
  then have v: "snd (?cs ! cell_index ?cs key) = v" using hit(2) by simp
  obtain s5 where s5: "bt_load n ?e = (Inr (Leaf ?cs None), s5)" using bt_load_hit[OF e] by (cases "bt_load n ?e") auto
  have "search bt_store (Suc 31) n key ?e = (Inr (Some v), s5)" 
    unfolding search.simps bt_store_simps using s5 hit(1) v by (simp add: bindP_app Let_def)
  then show ?thesis by simp
qed

lemma rolled_back_insert_visible_witness:
  "\<exists>s p. stored s 0 (PLeaf 1 []) \<and> begin_txn (bpager s) = (Inr (), p) \<and>
     fst (search bt_store 32 1 7 ((snd (tree_insert bt_store PAGE_SIZE 32 1 7 [1, 2] (s\<lparr>bpager := p\<rparr>)))
       \<lparr>bpager := rollback_txn (bpager (snd (tree_insert bt_store PAGE_SIZE 32 1 7 [1, 2] (s\<lparr>bpager := p\<rparr>))))\<rparr>)) = Inr (Some [1, 2])"
proof -
  define s where "s = snd (new_tree demo_store)"
  have "bt_ok {} demo_store" using pager_init_inv[of 8 "[]"] by (simp add: bt_ok_def demo_store_def cache_ok_def)
  moreover have "bt_npages demo_store = 1" by (simp add: bt_npages_def demo_store_def pager_init_def)
  ultimately have st: "stored s 0 (PLeaf 1 [])" using new_tree_ok[of demo_store] by (auto simp: s_def)
  have "touched (bpager s) = None" unfolding s_def by code_simp
  then obtain p where p: "begin_txn (bpager s) = (Inr (), p)" by (simp add: begin_txn_def)
  obtain r s1 where r: "tree_insert bt_store PAGE_SIZE 32 1 7 [1, 2] (s\<lparr>bpager := p\<rparr>) = (r, s1)" by fastforce
  have "cells_size (ins_cells 7 [1, 2] []) + 9 \<le> PAGE_SIZE" by (simp add: ins_cells_def PAGE_SIZE_def cell_size_def)
  then show ?thesis
    using st p rolled_back_insert_visible[OF st p _ _ _ _ r] r by (auto simp: int64_def MAX_VALUE_SIZE_def)
qed

end
