(* ===== verification/Values.thy ===== *)
theory Values
  imports Rows
begin

text \<open>
  The Python operations that \<open>leafdb/executor.py\<close> applies to SQL values: \<open>==\<close>, ordering,
  truth, arithmetic and \<open>str\<close>, and the executor's own helpers on top of them (\<open>_eq\<close>,
  \<open>_order_cmp\<close>, \<open>_kleene\<close>, \<open>_require_number\<close>).
\<close>

section \<open>Comparison\<close>

fun num_of :: "val \<Rightarrow> num_view option" where
  "num_of (VBool b) = Some (view_int (bool_int b))"
| "num_of (VInt i) = Some (view_int i)"
| "num_of (VFloat d) = Some (view_dbl d)"
| "num_of _ = None"

fun is_text :: "val \<Rightarrow> bool" where
  "is_text (VText s) = True"
| "is_text _ = False"

text \<open>Python's \<open>l == r\<close> and \<open>l < r\<close>; the latter is a \<open>TypeError\<close> on mixed types.\<close>

fun py_eq :: "val \<Rightarrow> val \<Rightarrow> bool" where
  "py_eq VNull VNull = True"
| "py_eq (VText a) (VText b) = (a = b)"
| "py_eq l r = (case (num_of l, num_of r) of (Some x, Some y) \<Rightarrow> num_eq x y | _ \<Rightarrow> False)"

fun str_less :: "ustr \<Rightarrow> ustr \<Rightarrow> bool" where
  "str_less _ [] = False"
| "str_less [] (_ # _) = True"
| "str_less (a # as) (b # bs) = (a < b \<or> (a = b \<and> str_less as bs))"

fun py_less :: "val \<Rightarrow> val \<Rightarrow> bool res" where
  "py_less (VText a) (VText b) = Inr (str_less a b)"
| "py_less l r = (case (num_of l, num_of r) of (Some x, Some y) \<Rightarrow> Inr (num_less x y) | _ \<Rightarrow> Inl TypeError)"

definition sql_eq :: "val \<Rightarrow> val \<Rightarrow> bool" where
  "sql_eq l r = (if is_text l \<noteq> is_text r then False else py_eq l r)"

definition order_cmp :: "val \<Rightarrow> val \<Rightarrow> int res" where
  "order_cmp l r =
     (if is_text l \<noteq> is_text r then Inl ExecutionError else
      case py_less l r of
        Inl _ \<Rightarrow> Inl ExecutionError
      | Inr True \<Rightarrow> Inr (- 1)
      | Inr False \<Rightarrow>
          (case py_less r l of
             Inl _ \<Rightarrow> Inl ExecutionError | Inr True \<Rightarrow> Inr 1 | Inr False \<Rightarrow> Inr 0))"

text \<open>\<open>l <= r\<close> on values that \<open>_order_cmp\<close> accepted.\<close>

definition py_le :: "val \<Rightarrow> val \<Rightarrow> bool res" where
  "py_le l r = bindE (py_less l r) (\<lambda>b. Inr (b \<or> py_eq l r))"

section \<open>Truth\<close>

fun truthy :: "val \<Rightarrow> bool" where
  "truthy VNull = False"
| "truthy (VBool b) = b"
| "truthy (VInt i) = (i \<noteq> 0)"
| "truthy (VFloat d) = (case fclass d of FFin _ m _ \<Rightarrow> m \<noteq> 0 | _ \<Rightarrow> True)"
| "truthy (VText s) = (s \<noteq> [])"

text \<open>\<open>None\<close>, \<open>True\<close> or \<open>False\<close>: a truth value of SQL's three-valued logic.\<close>

definition tv :: "val \<Rightarrow> bool option" where
  "tv v = (if v = VNull then None else Some (truthy v))"

fun of_tv :: "bool option \<Rightarrow> val" where
  "of_tv None = VNull"
| "of_tv (Some b) = VBool b"

definition kleene :: "bool \<Rightarrow> val \<Rightarrow> val \<Rightarrow> val" where
  "kleene is_and l r =
     (let lb = tv l; rb = tv r in
      if is_and then
        (if lb = Some False \<or> rb = Some False then VBool False
         else if lb = None \<or> rb = None then VNull else VBool True)
      else
        (if lb = Some True \<or> rb = Some True then VBool True
         else if lb = None \<or> rb = None then VNull else VBool False))"

section \<open>Arithmetic\<close>

fun require_number :: "val \<Rightarrow> unit res" where
  "require_number (VInt i) = Inr ()"
| "require_number (VFloat d) = Inr ()"
| "require_number _ = Inl ExecutionError"

fun py_neg :: "val \<Rightarrow> val res" where
  "py_neg (VInt i) = Inr (VInt (- i))"
| "py_neg (VFloat d) = Inr (VFloat (dbl_neg d))"
| "py_neg _ = Inl TypeError"

datatype arith = Add | Sub | Mul | Div

text \<open>An integer next to a float is converted, an \<open>OverflowError\<close> when it is too large.\<close>

fun as_double :: "val \<Rightarrow> double res" where
  "as_double (VInt i) = dbl_of_int i"
| "as_double (VFloat d) = Inr d"
| "as_double _ = Inl TypeError"

fun dbl_op :: "arith \<Rightarrow> double \<Rightarrow> double \<Rightarrow> double" where
  "dbl_op Add x y = dbl_add x y"
| "dbl_op Sub x y = dbl_sub x y"
| "dbl_op Mul x y = dbl_mul x y"
| "dbl_op Div x y = dbl_div x y"

definition is_zero :: "val \<Rightarrow> bool" where
  "is_zero v = py_eq v (VInt 0)"

text \<open>\<open>+\<close>, \<open>-\<close>, \<open>*\<close> and \<open>/\<close> on numbers; the divisor is not zero.\<close>

fun int_op :: "arith \<Rightarrow> int \<Rightarrow> int \<Rightarrow> val res" where
  "int_op Add a b = Inr (VInt (a + b))"
| "int_op Sub a b = Inr (VInt (a - b))"
| "int_op Mul a b = Inr (VInt (a * b))"
| "int_op Div a b = bindE (int_truediv a b) (\<lambda>q. Inr (VFloat q))"

fun num_op :: "arith \<Rightarrow> val \<Rightarrow> val \<Rightarrow> val res" where
  "num_op f (VInt a) (VInt b) = int_op f a b"
| "num_op f l r = bindE (as_double l) (\<lambda>x. bindE (as_double r) (\<lambda>y. Inr (VFloat (dbl_op f x y))))"

text \<open>The executor's arithmetic: division by zero is NULL, a quotient of ints is truncated.\<close>

definition sql_arith :: "arith \<Rightarrow> val \<Rightarrow> val \<Rightarrow> val res" where
  "sql_arith f l r =
     bindE (require_number l) (\<lambda>_. bindE (require_number r) (\<lambda>_.
     if f = Div then
       (if is_zero r then Inr VNull
        else bindE (num_op Div l r) (\<lambda>q.
          case (l, r, q) of
            (VInt _, VInt _, VFloat d) \<Rightarrow> bindE (dbl_to_int d) (\<lambda>i. Inr (VInt i))
          | _ \<Rightarrow> Inr q))
     else num_op f l r))"

section \<open>str\<close>

function digits :: "int \<Rightarrow> ustr" where
  "digits n = (if n < 10 then [48 + n] else digits (n div 10) @ [48 + n mod 10])"
  by pat_completeness auto
termination
  by (relation "measure nat") auto

declare digits.simps [simp del]

definition int_text :: "int \<Rightarrow> ustr" where
  "int_text i = (if i < 0 then 45 # digits (- i) else digits i)"

definition pow10 :: "int \<Rightarrow> int" where
  "pow10 k = 10 ^ nat k"

text \<open>The position of the decimal point of \<open>n / d\<close>: the least \<open>p\<close> with \<open>n / d < 10 ^ p\<close>.\<close>

fun scale_up :: "nat \<Rightarrow> int \<Rightarrow> int \<Rightarrow> int \<Rightarrow> int" where
  "scale_up 0 n d p = p"
| "scale_up (Suc k) n d p = (if n < d then p else scale_up k n (d * 10) (p + 1))"

fun scale_down :: "nat \<Rightarrow> int \<Rightarrow> int \<Rightarrow> int \<Rightarrow> int" where
  "scale_down 0 n d p = p"
| "scale_down (Suc k) n d p = (if d \<le> n * 10 then p else scale_down k (n * 10) d (p - 1))"

definition dec_point :: "int \<Rightarrow> int \<Rightarrow> int" where
  "dec_point n d = (if n < d then scale_down 400 n d 0 else scale_up 400 n d 0)"

text \<open>
  The shortest decimal that rounds to the double, the closest one among them; 17 digits are
  always enough.
\<close>

fun shortest :: "nat \<Rightarrow> nat \<Rightarrow> double \<Rightarrow> bool \<Rightarrow> int \<Rightarrow> int \<Rightarrow> int \<Rightarrow> int \<times> int" where
  "shortest 0 len w neg n d p = (0, 0)"
| "shortest (Suc k) len w neg n d p =
     (let num = n * pow10 (int len - p); den = d * pow10 (p - int len);
          a = num div den; r = num mod den;
          ok = (\<lambda>c. dbl_round neg (c * pow10 (p - int len)) (pow10 (int len - p)) 0 = w)
      in if ok a \<and> (\<not> ok (a + 1) \<or> 2 * r < den \<or> (2 * r = den \<and> even a)) then (a, p - int len)
         else if ok (a + 1) then (a + 1, p - int len)
         else shortest k (Suc len) w neg n d p)"

definition strip_zeros :: "ustr \<Rightarrow> ustr" where
  "strip_zeros ds = rev (dropWhile (\<lambda>c. c = 48) (rev ds))"

definition zeros :: "int \<Rightarrow> ustr" where
  "zeros k = replicate (nat k) 48"

definition repr_digits :: "ustr \<Rightarrow> int \<Rightarrow> ustr" where
  "repr_digits ds pt =
     (if - 4 < pt \<and> pt \<le> 16 then
        (if pt \<le> 0 then [48, 46] @ zeros (- pt) @ ds
         else if int (length ds) \<le> pt then ds @ zeros (pt - int (length ds)) @ [46, 48]
         else take (nat pt) ds @ [46] @ drop (nat pt) ds)
      else
        take 1 ds @ (if length ds = 1 then [] else 46 # drop 1 ds) @ [101] @
        (let e = pt - 1; t = digits \<bar>e\<bar> in
         (if e < 0 then [45] else [43]) @ (if length t = 1 then 48 # t else t)))"

definition float_text :: "double \<Rightarrow> ustr" where
  "float_text w =
     (case fclass w of
        FNan \<Rightarrow> [110, 97, 110]
      | FInf neg \<Rightarrow> (if neg then [45] else []) @ [105, 110, 102]
      | FFin neg m e \<Rightarrow>
          (if neg then [45] else []) @
          (if m = 0 then [48, 46, 48] else
           let n = scale2 m e; d = scale2 1 (- e); p = dec_point n d;
               (c, k) = shortest 17 1 w neg n d p; t = digits c
           in repr_digits (strip_zeros t) (int (length t) + k)))"

text \<open>The text \<open>LIKE\<close> matches: a bool counts as an int.\<close>

fun like_text :: "val \<Rightarrow> ustr" where
  "like_text (VText s) = s"
| "like_text (VInt i) = int_text i"
| "like_text (VBool b) = int_text (bool_int b)"
| "like_text (VFloat d) = float_text d"
| "like_text VNull = []"

end
