(* ===== verification/Like.thy ===== *)
theory Like
  imports Values
begin

text \<open>
  \<open>LIKE\<close>: \<open>like_regex\<close> turns a pattern into a regular expression, \<open>%\<close> into \<open>.*\<close>, \<open>_\<close> into
  \<open>.\<close> and anything else into itself, between \<open>^\<close> and \<open>$\<close>, ignoring case and with \<open>.\<close> matching
  newlines. \<open>low\<close> is the case folding of Python's \<open>re\<close> module (a Unicode table); it is a
  parameter, and only \<open>low p = low c\<close> matters. Python's \<open>$\<close> also matches before a newline that
  ends the text.
\<close>

function like_match :: "(int \<Rightarrow> int) \<Rightarrow> ustr \<Rightarrow> ustr \<Rightarrow> bool" where
  "like_match low [] s \<longleftrightarrow> s = [] \<or> s = [10]"
| "like_match low (p # ps) s \<longleftrightarrow>
     (if p = 37 then like_match low ps s \<or> (case s of [] \<Rightarrow> False | _ # cs \<Rightarrow> like_match low (p # ps) cs)
      else (case s of [] \<Rightarrow> False | c # cs \<Rightarrow> (p = 95 \<or> low p = low c) \<and> like_match low ps cs))"
  by pat_completeness auto
termination
  by (relation "measure (\<lambda>(low, ps, s). length ps + length s)") auto

declare like_match.simps(2) [simp del]

text \<open>The texts a pattern means.\<close>

inductive like_lang :: "(int \<Rightarrow> int) \<Rightarrow> ustr \<Rightarrow> ustr \<Rightarrow> bool" for low where
  empty: "like_lang low [] []"
| percent: "like_lang low ps cs \<Longrightarrow> like_lang low (37 # ps) (xs @ cs)"
| underscore: "like_lang low ps cs \<Longrightarrow> like_lang low (95 # ps) (c # cs)"
| char: "p \<noteq> 37 \<Longrightarrow> p \<noteq> 95 \<Longrightarrow> low p = low c \<Longrightarrow> like_lang low ps cs \<Longrightarrow> like_lang low (p # ps) (c # cs)"

inductive_cases like_emptyE: "like_lang low [] s"
inductive_cases like_percentE: "like_lang low (37 # ps) s"
inductive_cases like_underscoreE: "like_lang low (95 # ps) s"
inductive_cases like_ConsE: "like_lang low (p # ps) s"

lemma like_percent_skip: "like_lang low (37 # ps) cs \<Longrightarrow> like_lang low (37 # ps) (c # cs)"
  by (erule like_percentE) (metis append_Cons like_lang.percent)

lemma like_percent_none: "like_lang low ps cs \<Longrightarrow> like_lang low (37 # ps) cs"
  using like_lang.percent[of low ps cs "[]"] by simp

lemma like_match_sound:
  "like_match low ps s \<Longrightarrow> like_lang low ps s \<or> (\<exists>t. s = t @ [10] \<and> like_lang low ps t)"
proof (induction low ps s rule: like_match.induct)
  case (1 low s)
  then show ?case by (auto intro: like_lang.empty)
next
  case (2 low p ps s)
  show ?case
  proof (cases "p = 37")
    case True
    then consider "like_match low ps s" | c cs where "s = c # cs" "like_match low (p # ps) cs"
      using 2(4) by (subst (asm) like_match.simps) (auto split: list.splits)
    then show ?thesis
    proof cases
      case 1
      then show ?thesis using 2(1) True by (blast intro: like_percent_none)
    next
      case A: 2
      then have "like_lang low (p # ps) cs \<or> (\<exists>t. cs = t @ [10] \<and> like_lang low (p # ps) t)"
        using 2(2)[OF True A(1)] by simp
      then show ?thesis
      proof (elim disjE exE conjE)
        assume "like_lang low (p # ps) cs"
        then show ?thesis using A(1) True like_percent_skip by simp
      next
        fix t assume "cs = t @ [10]" "like_lang low (p # ps) t"
        then have "s = (c # t) @ [10]" "like_lang low (p # ps) (c # t)"
          using A(1) True like_percent_skip by simp_all
        then show ?thesis by blast
      qed
    qed
  next
    case False
    then obtain c cs where s: "s = c # cs" "p = 95 \<or> low p = low c" "like_match low ps cs"
      using 2(4) by (subst (asm) like_match.simps) (auto split: list.splits)
    have step: "like_lang low (p # ps) (c # t)" if "like_lang low ps t" for t
      using that s(2) False by (cases "p = 95") (auto intro: like_lang.underscore like_lang.char)
    have "like_lang low ps cs \<or> (\<exists>t. cs = t @ [10] \<and> like_lang low ps t)"
      using 2(3)[OF False s(1)] s(2,3) by blast
    then show ?thesis
    proof (elim disjE exE conjE)
      assume "like_lang low ps cs"
      then show ?thesis using step s(1) by simp
    next
      fix t assume "cs = t @ [10]" "like_lang low ps t"
      then have "s = (c # t) @ [10]" "like_lang low (p # ps) (c # t)" using step s(1) by simp_all
      then show ?thesis by blast
    qed
  qed
qed

lemma like_match_percent:
  "like_match low ps cs \<Longrightarrow> like_match low (37 # ps) (xs @ cs)"
  by (induction xs) (auto simp: like_match.simps(2) split: list.splits)

lemma like_match_complete:
  "like_lang low ps s \<Longrightarrow> like_match low ps s \<and> like_match low ps (s @ [10])"
proof (induction rule: like_lang.induct)
  case empty
  then show ?case by simp
next
  case (percent ps cs xs)
  then show ?case using like_match_percent[of low ps cs xs] like_match_percent[of low ps "cs @ [10]" xs] by simp
next
  case (underscore ps cs c)
  then show ?case by (simp add: like_match.simps(2))
next
  case (char p c ps cs)
  then show ?case by (simp add: like_match.simps(2))
qed

text \<open>
  C14. What \<open>LIKE\<close> accepts: the texts of the pattern's language, and each of them followed by
  one newline, because Python's \<open>$\<close> also matches before a newline at the end. So
  \<open>'a' LIKE 'a'\<close> is true, and so is \<open>'a\n' LIKE 'a'\<close>, which no other reading of \<open>LIKE\<close>
  accepts; without a newline at its end a text matches exactly when the language contains it.
  For every case folding.
\<close>

theorem like_match_iff:
  "like_match low ps s \<longleftrightarrow> like_lang low ps s \<or> (\<exists>t. s = t @ [10] \<and> like_lang low ps t)"
  using like_match_sound like_match_complete by blast

end
