(* ===== verification/Catalog.thy ===== *)
theory Catalog
  imports Rows "HOL-Library.AList"
begin

text \<open>
  Table descriptions and the catalog of \<open>leafdb/catalog.py\<close>: \<open>TableMeta\<close>, \<open>Catalog.get\<close>,
  \<open>add\<close> and \<open>validate_column_def\<close>. Dicts are association lists in insertion order.
  Identifiers are ASCII strings, as the tokenizer makes them.
\<close>

section \<open>TableMeta\<close>

record column =
  cname :: string
  ctype :: coltype
  cpk :: bool

record table_meta =
  tname :: string
  columns :: "column list"
  root_page :: nat
  row_count :: int
  next_rowid :: int
  indexes :: "(string \<times> string) list"

definition colnames :: "table_meta \<Rightarrow> string list" where
  "colnames m = map cname (columns m)"

definition types :: "table_meta \<Rightarrow> coltype list" where
  "types m = map ctype (columns m)"

fun first_index :: "('a \<Rightarrow> bool) \<Rightarrow> 'a list \<Rightarrow> nat option" where
  "first_index P [] = None"
| "first_index P (x # xs) = (if P x then Some 0 else map_option Suc (first_index P xs))"

lemma first_index_Some:
  "first_index P xs = Some i \<Longrightarrow> i < length xs \<and> P (xs ! i) \<and> (\<forall>j < i. \<not> P (xs ! j))"
proof (induction xs arbitrary: i)
  case Nil
  then show ?case by simp
next
  case (Cons x xs)
  then show ?case by (auto split: if_splits simp: less_Suc_eq_0_disj)
qed

lemma first_index_None: "first_index P xs = None \<longleftrightarrow> (\<forall>x \<in> set xs. \<not> P x)"
  by (induction xs) auto

definition pk_column :: "table_meta \<Rightarrow> string option" where
  "pk_column m = map_option cname (find cpk (columns m))"

definition pk_index :: "table_meta \<Rightarrow> nat option" where
  "pk_index m = first_index cpk (columns m)"

definition column_index :: "table_meta \<Rightarrow> string \<Rightarrow> nat res" where
  "column_index m nm =
     (case first_index (\<lambda>c. c = nm) (colnames m) of None \<Rightarrow> Inl CatalogError | Some i \<Rightarrow> Inr i)"

section \<open>Catalog\<close>

record catalog =
  tables :: "(string \<times> table_meta) list"
  free_pages :: "nat list"

definition empty_catalog :: catalog where
  "empty_catalog = \<lparr>tables = [], free_pages = []\<rparr>"

text \<open>\<open>str.lower\<close> on ASCII.\<close>

definition lower_char :: "char \<Rightarrow> char" where
  "lower_char c = (if 65 \<le> (of_char c :: nat) \<and> (of_char c :: nat) \<le> 90 then char_of (of_char c + 32 :: nat) else c)"

definition lower :: "string \<Rightarrow> string" where
  "lower s = map lower_char s"

definition catalog_get :: "catalog \<Rightarrow> string \<Rightarrow> table_meta res" where
  "catalog_get c nm = (case map_of (tables c) (lower nm) of None \<Rightarrow> Inl CatalogError | Some m \<Rightarrow> Inr m)"

definition catalog_add :: "table_meta \<Rightarrow> catalog \<Rightarrow> catalog res" where
  "catalog_add m c =
     (if map_of (tables c) (tname m) \<noteq> None then Inl CatalogError
      else Inr (c\<lparr>tables := AList.update (tname m) m (tables c)\<rparr>))"

definition validate_column_def :: "column \<Rightarrow> column res" where
  "validate_column_def col =
     (case ctype col of
        BadType s \<Rightarrow> Inl CatalogError
      | t \<Rightarrow> Inr \<lparr>cname = lower (cname col), ctype = t, cpk = cpk col\<rparr>)"

end
