(* ===== verification/Expr.thy ===== *)
theory Expr
  imports Like Catalog
begin

text \<open>
  SQL expressions (the AST classes of \<open>leafdb/sqlparse.py\<close>), name resolution (\<open>Scope\<close>) and the
  two evaluators of \<open>leafdb/executor.py\<close>: \<open>eval_expr\<close>, which walks the AST, and
  \<open>compile_expr\<close>, which returns a closure. A closure is a HOL function of the row parts and the
  aggregate environment. A \<open>Func\<close> node carries its identity, which is what \<open>id(expr)\<close> stands for.
\<close>

datatype binop = B_and | B_or | B_eq | B_ne | B_lt | B_le | B_gt | B_ge | B_arith arith

datatype unop = U_not | U_neg

datatype expr =
    Literal val
  | Column string "string option"
  | Star
  | BinOp binop expr expr
  | UnaryOp unop expr
  | IsNull expr bool
  | Between expr expr expr bool
  | InList expr "expr list" bool
  | LikeOp expr expr bool
  | Func nat string "expr option" bool bool

text \<open>One row per joined table, \<open>None\<close> where an outer join padded it.\<close>

type_synonym row = "val list"
type_synonym parts = "row option list"
type_synonym agg_env = "(nat \<times> val) list"

section \<open>Scope\<close>

record scope =
  sources :: "(string \<times> table_meta) list"
  agg_aliases :: "(string \<times> nat) list"

definition new_scope :: scope where
  "new_scope = \<lparr>sources = [], agg_aliases = []\<rparr>"

definition scope_add :: "string \<Rightarrow> table_meta \<Rightarrow> scope \<Rightarrow> scope res" where
  "scope_add al m sc =
     (if map_of (sources sc) al \<noteq> None then Inl ExecutionError
      else Inr (sc\<lparr>sources := sources sc @ [(al, m)]\<rparr>))"

definition add_agg_alias :: "string \<Rightarrow> nat \<Rightarrow> scope \<Rightarrow> scope" where
  "add_agg_alias label fid sc =
     (if label = [] then sc else sc\<lparr>agg_aliases := AList.update (lower label) fid (agg_aliases sc)\<rparr>)"

fun hits_from :: "nat \<Rightarrow> string \<Rightarrow> (string \<times> table_meta) list \<Rightarrow> (nat \<times> nat) list" where
  "hits_from i nm [] = []"
| "hits_from i nm ((al, m) # rest) =
     (case column_index m nm of
        Inr j \<Rightarrow> (i, j) # hits_from (Suc i) nm rest
      | Inl _ \<Rightarrow> hits_from (Suc i) nm rest)"

definition resolve :: "scope \<Rightarrow> string \<Rightarrow> string option \<Rightarrow> (nat \<times> nat) res" where
  "resolve sc nm tab =
     (case tab of
        Some t \<Rightarrow>
          (case first_index (\<lambda>s. fst s = t) (sources sc) of
             None \<Rightarrow> Inl ExecutionError
           | Some idx \<Rightarrow>
               (let m = snd (sources sc ! idx) in
                if nm \<notin> set (colnames m) then Inl ExecutionError
                else bindE (column_index m nm) (\<lambda>j. Inr (idx, j))))
      | None \<Rightarrow>
          (case hits_from 0 nm (sources sc) of
             [] \<Rightarrow> Inl ExecutionError
           | [h] \<Rightarrow> Inr h
           | _ \<Rightarrow> Inl ExecutionError))"

definition read_part :: "parts \<Rightarrow> nat \<Rightarrow> nat \<Rightarrow> val res" where
  "read_part ps i j =
     bindE (nth_err ps i) (\<lambda>row. case row of None \<Rightarrow> Inr VNull | Some r \<Rightarrow> nth_err r j)"

section \<open>What both evaluators do with the values of the operands\<close>

definition negate_if :: "bool \<Rightarrow> val \<Rightarrow> val" where
  "negate_if neg v = (if neg then VBool (\<not> truthy v) else v)"

text \<open>\<open>lo <= v <= hi\<close> after the two calls of \<open>_order_cmp\<close>.\<close>

definition between_val :: "bool \<Rightarrow> val \<Rightarrow> val \<Rightarrow> val \<Rightarrow> val res" where
  "between_val neg v lo hi =
     bindE (order_cmp v lo) (\<lambda>_. bindE (order_cmp v hi) (\<lambda>_.
     bindE (py_le lo v) (\<lambda>a. bindE (if a then py_le v hi else Inr False) (\<lambda>b.
     Inr (negate_if neg (VBool b))))))"

definition like_val :: "(int \<Rightarrow> int) \<Rightarrow> bool \<Rightarrow> val \<Rightarrow> val \<Rightarrow> val res" where
  "like_val low neg v pat =
     (if v = VNull \<or> pat = VNull then Inr VNull else
      case pat of
        VText ps \<Rightarrow> Inr (negate_if neg (VBool (like_match low ps (like_text v))))
      | _ \<Rightarrow> Inl ExecutionError)"

definition unary_val :: "unop \<Rightarrow> val \<Rightarrow> val res" where
  "unary_val f v =
     (case f of
        U_not \<Rightarrow> Inr (if v = VNull then VNull else VBool (\<not> truthy v))
      | U_neg \<Rightarrow> if v = VNull then Inr VNull else bindE (require_number v) (\<lambda>_. py_neg v))"

text \<open>The operators other than \<open>AND\<close> and \<open>OR\<close>: NULL when an operand is.\<close>

definition binary_val :: "binop \<Rightarrow> val \<Rightarrow> val \<Rightarrow> val res" where
  "binary_val f l r =
     (if l = VNull \<or> r = VNull then Inr VNull else
      case f of
        B_eq \<Rightarrow> Inr (VBool (sql_eq l r))
      | B_ne \<Rightarrow> Inr (VBool (\<not> sql_eq l r))
      | B_lt \<Rightarrow> bindE (order_cmp l r) (\<lambda>c. Inr (VBool (c < 0)))
      | B_le \<Rightarrow> bindE (order_cmp l r) (\<lambda>c. Inr (VBool (c \<le> 0)))
      | B_gt \<Rightarrow> bindE (order_cmp l r) (\<lambda>c. Inr (VBool (0 < c)))
      | B_ge \<Rightarrow> bindE (order_cmp l r) (\<lambda>c. Inr (VBool (0 \<le> c)))
      | B_arith g \<Rightarrow> sql_arith g l r
      | B_and \<Rightarrow> Inl ExecutionError
      | B_or \<Rightarrow> Inl ExecutionError)"

section \<open>eval\_expr\<close>

fun eval_expr :: "(int \<Rightarrow> int) \<Rightarrow> scope \<Rightarrow> parts \<Rightarrow> agg_env option \<Rightarrow> expr \<Rightarrow> val res"
  and eval_items :: "(int \<Rightarrow> int) \<Rightarrow> scope \<Rightarrow> parts \<Rightarrow> agg_env option \<Rightarrow> val \<Rightarrow> bool \<Rightarrow> expr list \<Rightarrow> val res" where
  "eval_expr low sc ps env (Literal v) = Inr v"
| "eval_expr low sc ps env (Column nm tab) =
     (case resolve sc nm tab of
        Inr (i, j) \<Rightarrow> read_part ps i j
      | Inl e \<Rightarrow>
          (case (env, tab, map_of (agg_aliases sc) (lower nm)) of
             (Some en, None, Some fid) \<Rightarrow>
               (case map_of en fid of Some v \<Rightarrow> Inr v | None \<Rightarrow> Inl KeyError)
           | _ \<Rightarrow> Inl e))"
| "eval_expr low sc ps env Star = Inl ExecutionError"
| "eval_expr low sc ps env (Func fid nm arg star dist) =
     (case env of
        Some en \<Rightarrow> (case map_of en fid of Some v \<Rightarrow> Inr v | None \<Rightarrow> Inl ExecutionError)
      | None \<Rightarrow> Inl ExecutionError)"
| "eval_expr low sc ps env (IsNull e neg) =
     bindE (eval_expr low sc ps env e) (\<lambda>v. Inr (VBool (if neg then v \<noteq> VNull else v = VNull)))"
| "eval_expr low sc ps env (Between e lo hi neg) =
     bindE (eval_expr low sc ps env e) (\<lambda>v.
     bindE (eval_expr low sc ps env lo) (\<lambda>l.
     bindE (eval_expr low sc ps env hi) (\<lambda>h.
     if v = VNull \<or> l = VNull \<or> h = VNull then Inr VNull else between_val neg v l h)))"
| "eval_expr low sc ps env (InList e items neg) =
     bindE (eval_expr low sc ps env e) (\<lambda>v.
     if v = VNull then Inr VNull else
     bindE (eval_items low sc ps env v False items) (\<lambda>r.
     Inr (if r = VNull then r else negate_if neg r)))"
| "eval_expr low sc ps env (LikeOp e pat neg) =
     bindE (eval_expr low sc ps env e) (\<lambda>v.
     bindE (eval_expr low sc ps env pat) (\<lambda>p. like_val low neg v p))"
| "eval_expr low sc ps env (UnaryOp f e) = bindE (eval_expr low sc ps env e) (unary_val f)"
| "eval_expr low sc ps env (BinOp f l r) =
     bindE (eval_expr low sc ps env l) (\<lambda>a.
     bindE (eval_expr low sc ps env r) (\<lambda>b.
     if f = B_and then Inr (kleene True a b)
     else if f = B_or then Inr (kleene False a b)
     else binary_val f a b))"
| "eval_items low sc ps env v saw [] = Inr (if saw then VNull else VBool False)"
| "eval_items low sc ps env v saw (x # xs) =
     bindE (eval_expr low sc ps env x) (\<lambda>c.
     if c = VNull then eval_items low sc ps env v True xs
     else if sql_eq v c then Inr (VBool True)
     else eval_items low sc ps env v saw xs)"

section \<open>compile\_expr\<close>

type_synonym closure = "parts \<Rightarrow> agg_env option \<Rightarrow> val res"

definition read_agg :: "nat \<Rightarrow> closure" where
  "read_agg fid ps env =
     (case env of
        Some en \<Rightarrow> (case map_of en fid of Some v \<Rightarrow> Inr v | None \<Rightarrow> Inl ExecutionError)
      | None \<Rightarrow> Inl ExecutionError)"

fun run_items :: "val \<Rightarrow> bool \<Rightarrow> closure list \<Rightarrow> parts \<Rightarrow> agg_env option \<Rightarrow> val res" where
  "run_items v saw [] ps env = Inr (if saw then VNull else VBool False)"
| "run_items v saw (f # fs) ps env =
     bindE (f ps env) (\<lambda>c.
     if c = VNull then run_items v True fs ps env
     else if sql_eq v c then Inr (VBool True)
     else run_items v saw fs ps env)"

definition and_fn :: "closure \<Rightarrow> closure \<Rightarrow> closure" where
  "and_fn lf rf ps env =
     bindE (lf ps env) (\<lambda>l.
     if l \<noteq> VNull \<and> \<not> truthy l then Inr (VBool False) else
     bindE (rf ps env) (\<lambda>r.
     if r \<noteq> VNull \<and> \<not> truthy r then Inr (VBool False)
     else if l = VNull \<or> r = VNull then Inr VNull else Inr (VBool True)))"

definition or_fn :: "closure \<Rightarrow> closure \<Rightarrow> closure" where
  "or_fn lf rf ps env =
     bindE (lf ps env) (\<lambda>l.
     if l \<noteq> VNull \<and> truthy l then Inr (VBool True) else
     bindE (rf ps env) (\<lambda>r.
     if r \<noteq> VNull \<and> truthy r then Inr (VBool True)
     else if l = VNull \<or> r = VNull then Inr VNull else Inr (VBool False)))"

fun compile_expr :: "(int \<Rightarrow> int) \<Rightarrow> scope \<Rightarrow> (string \<times> nat) list \<Rightarrow> bool \<Rightarrow> expr \<Rightarrow> closure res"
  and compile_list :: "(int \<Rightarrow> int) \<Rightarrow> scope \<Rightarrow> (string \<times> nat) list \<Rightarrow> bool \<Rightarrow> expr list \<Rightarrow> closure list res" where
  "compile_expr low sc als ag (Literal v) = Inr (\<lambda>ps env. Inr v)"
| "compile_expr low sc als ag (Column nm tab) =
     (case resolve sc nm tab of
        Inr (i, j) \<Rightarrow> Inr (\<lambda>ps env. read_part ps i j)
      | Inl e \<Rightarrow>
          (case (ag, tab, map_of als (lower nm)) of
             (True, None, Some fid) \<Rightarrow> Inr (read_agg fid)
           | _ \<Rightarrow> Inl e))"
| "compile_expr low sc als ag Star = Inl CompileError"
| "compile_expr low sc als ag (Func fid nm arg star dist) = Inr (read_agg fid)"
| "compile_expr low sc als ag (IsNull e neg) =
     bindE (compile_expr low sc als ag e) (\<lambda>f.
     Inr (\<lambda>ps env. bindE (f ps env) (\<lambda>v. Inr (VBool (if neg then v \<noteq> VNull else v = VNull)))))"
| "compile_expr low sc als ag (Between e lo hi neg) =
     bindE (compile_expr low sc als ag e) (\<lambda>f.
     bindE (compile_expr low sc als ag lo) (\<lambda>lf.
     bindE (compile_expr low sc als ag hi) (\<lambda>hf.
     Inr (\<lambda>ps env.
       bindE (f ps env) (\<lambda>v. if v = VNull then Inr VNull else
       bindE (lf ps env) (\<lambda>l. bindE (hf ps env) (\<lambda>h.
       if l = VNull \<or> h = VNull then Inr VNull else between_val neg v l h)))))))"
| "compile_expr low sc als ag (InList e items neg) =
     bindE (compile_expr low sc als ag e) (\<lambda>f.
     bindE (compile_list low sc als ag items) (\<lambda>fs.
     Inr (\<lambda>ps env.
       bindE (f ps env) (\<lambda>v. if v = VNull then Inr VNull else
       bindE (run_items v False fs ps env) (\<lambda>r.
       Inr (if r = VNull then r else negate_if neg r))))))"
| "compile_expr low sc als ag (LikeOp e pat neg) =
     bindE (compile_expr low sc als ag e) (\<lambda>f.
     bindE (compile_expr low sc als ag pat) (\<lambda>pf.
     Inr (\<lambda>ps env. bindE (f ps env) (\<lambda>v. bindE (pf ps env) (\<lambda>p. like_val low neg v p)))))"
| "compile_expr low sc als ag (UnaryOp g e) =
     bindE (compile_expr low sc als ag e) (\<lambda>f. Inr (\<lambda>ps env. bindE (f ps env) (unary_val g)))"
| "compile_expr low sc als ag (BinOp g l r) =
     bindE (compile_expr low sc als ag l) (\<lambda>lf.
     bindE (compile_expr low sc als ag r) (\<lambda>rf.
     if g = B_and then Inr (and_fn lf rf)
     else if g = B_or then Inr (or_fn lf rf)
     else Inr (\<lambda>ps env. bindE (lf ps env) (\<lambda>a. bindE (rf ps env) (\<lambda>b. binary_val g a b)))))"
| "compile_list low sc als ag [] = Inr []"
| "compile_list low sc als ag (x # xs) =
     bindE (compile_expr low sc als ag x) (\<lambda>f.
     bindE (compile_list low sc als ag xs) (\<lambda>fs. Inr (f # fs)))"

end
