(* ===== verification/ValueProps.thy ===== *)
theory ValueProps
  imports Expr
begin

text \<open>
  Equality and order on SQL values: \<open>==\<close> is a partial equivalence (a NaN equals nothing),
  \<open>_order_cmp\<close> is a total order on the values it accepts, and it agrees with \<open>_eq\<close>.
\<close>

section \<open>Python equality\<close>

definition is_nan :: "val \<Rightarrow> bool" where
  "is_nan v = (case num_of v of Some x \<Rightarrow> is_nan_view x | None \<Rightarrow> False)"

lemma py_eq_num:
  "num_of l = Some x \<Longrightarrow> num_of r = Some y \<Longrightarrow> py_eq l r = num_eq x y"
  by (cases l; cases r) simp_all

lemma py_eq_sym: "py_eq l r \<longleftrightarrow> py_eq r l"
  by (cases l; cases r) (simp_all add: num_eq_sym eq_commute)

lemma py_eq_cases:
  assumes "py_eq l r"
  obtains "l = VNull" "r = VNull"
    | s where "l = VText s" "r = VText s"
    | x y where "num_of l = Some x" "num_of r = Some y" "num_eq x y"
  using assms by (cases l; cases r) simp_all

lemma py_eq_trans: "py_eq a b \<Longrightarrow> py_eq b c \<Longrightarrow> py_eq a c"
proof -
  assume ab: "py_eq a b" and bc: "py_eq b c"
  from ab show ?thesis
  proof (cases rule: py_eq_cases)
    case 1
    then show ?thesis using bc by simp
  next
    case (2 s)
    then show ?thesis using bc by simp
  next
    case (3 x y)
    from bc show ?thesis
    proof (cases rule: py_eq_cases)
      case 1
      then show ?thesis using 3 by simp
    next
      case 2
      then show ?thesis using 3 by simp
    next
      case (3 u w)
      then have "num_eq x w"
        using \<open>num_of b = Some y\<close> \<open>num_eq x y\<close> num_eq_trans by simp
      then show ?thesis using 3 \<open>num_of a = Some x\<close> by (simp add: py_eq_num)
    qed
  qed
qed

lemma py_eq_refl: "\<not> is_nan v \<Longrightarrow> py_eq v v"
  by (cases v) (simp_all add: is_nan_def num_eq_refl)

lemma sql_eq_py_eq: "sql_eq l r = py_eq l r"
  by (cases l; cases r) (simp_all add: sql_eq_def)

section \<open>Order\<close>

lemma str_less_irrefl: "\<not> str_less s s"
  by (induction s) simp_all

lemma str_less_trans: "str_less a b \<Longrightarrow> str_less b c \<Longrightarrow> str_less a c"
proof (induction a b arbitrary: c rule: str_less.induct)
  case (1 uu)
  then show ?case by simp
next
  case (2 y ys)
  then show ?case by (cases c) auto
next
  case (3 x xs y ys)
  then show ?case by (cases c) auto
qed

lemma str_less_linear: "str_less a b \<or> a = b \<or> str_less b a"
proof (induction a b rule: str_less.induct)
  case (1 s)
  then show ?case by (cases s) simp_all
qed auto

lemma order_cmp_text:
  "order_cmp (VText a) (VText b) = Inr (if str_less a b then - 1 else if str_less b a then 1 else 0)"
  by (simp add: order_cmp_def)

lemma py_less_num:
  "num_of l = Some x \<Longrightarrow> num_of r = Some y \<Longrightarrow> py_less l r = Inr (num_less x y)"
  by (cases l; cases r) simp_all

lemma num_not_text: "num_of l = Some x \<Longrightarrow> \<not> is_text l"
  by (cases l) simp_all

lemma order_cmp_num:
  assumes "num_of l = Some x" "num_of r = Some y"
  shows "order_cmp l r = Inr (if num_less x y then - 1 else if num_less y x then 1 else 0)"
  using assms by (simp add: order_cmp_def py_less_num num_not_text)

lemma order_cmp_cases:
  assumes "order_cmp l r = Inr c"
  obtains a b where "l = VText a" "r = VText b"
    | x y where "num_of l = Some x" "num_of r = Some y"
  using assms by (cases l; cases r) (simp_all add: order_cmp_def)

lemma order_cmp_swap: "order_cmp l r = Inr c \<Longrightarrow> order_cmp r l = Inr (- c)"
proof -
  assume h: "order_cmp l r = Inr c"
  then show ?thesis
  proof (cases rule: order_cmp_cases)
    case (1 a b)
    then show ?thesis using h str_less_trans[of a b a] str_less_irrefl[of a]
      by (auto simp: order_cmp_text split: if_splits)
  next
    case (2 x y)
    then show ?thesis using h num_less_trans[of x y x] num_less_irrefl[of x]
      by (auto simp: order_cmp_num split: if_splits)
  qed
qed

lemma order_cmp_eq:
  assumes "order_cmp l r = Inr c" "\<not> is_nan l" "\<not> is_nan r"
  shows "c = 0 \<longleftrightarrow> sql_eq l r"
  using assms(1)
proof (cases rule: order_cmp_cases)
  case (1 a b)
  then show ?thesis using assms(1) str_less_linear[of a b] str_less_irrefl[of a]
    by (auto simp: order_cmp_text sql_eq_def split: if_splits)
next
  case (2 x y)
  then have nn: "\<not> is_nan_view x" "\<not> is_nan_view y" using assms(2,3) by (simp_all add: is_nan_def)
  then show ?thesis
    using 2 assms(1) num_trichotomy[of x y] num_less_not_eq[of x y] num_less_not_eq[of y x] num_eq_sym[of x y]
    by (auto simp: order_cmp_num sql_eq_py_eq py_eq_num split: if_splits)
qed

text \<open>\<open>l <= r\<close> is the negation of \<open>l > r\<close> where \<open>_order_cmp\<close> accepts the operands.\<close>

lemma py_le_order_cmp:
  assumes "order_cmp l r = Inr c" "\<not> is_nan l" "\<not> is_nan r"
  shows "py_le l r = Inr (c \<le> 0)"
  using assms(1)
proof (cases rule: order_cmp_cases)
  case (1 a b)
  then show ?thesis using assms(1) str_less_linear[of a b] str_less_irrefl[of a]
    by (auto simp: order_cmp_text py_le_def split: if_splits)
next
  case (2 x y)
  then have nn: "\<not> is_nan_view x" "\<not> is_nan_view y" using assms(2,3) by (simp_all add: is_nan_def)
  then show ?thesis
    using 2 assms(1) num_trichotomy[of x y] num_less_not_eq[of x y] num_less_not_eq[of y x] num_eq_sym[of x y]
    by (auto simp: order_cmp_num py_le_def py_less_num py_eq_num split: if_splits)
qed

end
