(* ===== verification/ExprProps.thy ===== *)
theory ExprProps
  imports ValueProps
begin

text \<open>
  The two evaluators agree (a compiled closure returns what the AST walk returns, whenever the
  walk returns), and the laws of SQL's three-valued logic for both of them.
\<close>

section \<open>The compiled closure and the AST walk\<close>

lemma kleene_and_fn:
  assumes "lf ps env = Inr a" and "rf ps env = Inr b"
  shows "and_fn lf rf ps env = Inr (kleene True a b)"
  using assms by (auto simp: and_fn_def kleene_def tv_def)

lemma kleene_or_fn:
  assumes "lf ps env = Inr a" and "rf ps env = Inr b"
  shows "or_fn lf rf ps env = Inr (kleene False a b)"
  using assms by (auto simp: or_fn_def kleene_def tv_def)

lemma compiled_column:
  assumes "compile_expr low sc als ag (Column nm tab) = Inr f" and "ag \<longrightarrow> als = agg_aliases sc"
    and "eval_expr low sc ps env (Column nm tab) = Inr v"
  shows "f ps env = Inr v"
proof (cases "resolve sc nm tab")
  case (Inr p)
  then show ?thesis using assms by (cases p) auto
next
  case (Inl e)
  then obtain en fid where "env = Some en" "tab = None" and fid: "map_of (agg_aliases sc) (lower nm) = Some fid"
    and "map_of en fid = Some v"
    using assms(3) by (auto split: option.splits)
  moreover from this Inl assms(1,2) have "f = read_agg fid" by (auto split: bool.splits option.splits)
  ultimately show ?thesis by (simp add: read_agg_def)
qed

lemma compiled_agrees_aux:
  fixes low :: "int \<Rightarrow> int"
  shows "compile_expr low sc als ag e = Inr f \<Longrightarrow> (ag \<longrightarrow> als = agg_aliases sc) \<Longrightarrow>
      eval_expr low sc ps env e = Inr v \<Longrightarrow> f ps env = Inr v"
    and "compile_list low sc als ag xs = Inr fs \<Longrightarrow> (ag \<longrightarrow> als = agg_aliases sc) \<Longrightarrow>
      eval_items low sc ps env w saw xs = Inr u \<Longrightarrow> run_items w saw fs ps env = Inr u"
proof (induction low sc ps env e and low sc ps env w saw xs arbitrary: f v and fs u
    rule: eval_expr_eval_items.induct)
  case (1 low sc ps env v)
  then show ?case by auto
next
  case (2 low sc ps env nm tab)
  then show ?case by (rule compiled_column)
next
  case (3 low sc ps env)
  then show ?case by simp
next
  case (4 low sc ps env fid nm arg star dist)
  then show ?case by (auto simp: read_agg_def split: option.splits)
next
  case (5 low sc ps env e neg)
  from "5.prems"(1) obtain g where g: "compile_expr low sc als ag e = Inr g" and
    f: "f = (\<lambda>ps env. bindE (g ps env) (\<lambda>v. Inr (VBool (if neg then v \<noteq> VNull else v = VNull))))"
    by auto
  from "5.prems"(3) obtain a where e: "eval_expr low sc ps env e = Inr a"
    and v: "v = VBool (if neg then a \<noteq> VNull else a = VNull)"
    by auto
  have "g ps env = Inr a" by (rule "5.IH"[OF g "5.prems"(2) e])
  then show ?case by (simp add: f v)
next
  case (6 low sc ps env e lo hi neg)
  from "6.prems"(1) obtain g lf hf where
    g: "compile_expr low sc als ag e = Inr g" "compile_expr low sc als ag lo = Inr lf"
      "compile_expr low sc als ag hi = Inr hf" and
    f: "f = (\<lambda>ps env. bindE (g ps env) (\<lambda>v. if v = VNull then Inr VNull else
       bindE (lf ps env) (\<lambda>l. bindE (hf ps env) (\<lambda>h.
       if l = VNull \<or> h = VNull then Inr VNull else between_val neg v l h))))"
    by auto
  from "6.prems"(3) obtain a l h where
    e: "eval_expr low sc ps env e = Inr a" "eval_expr low sc ps env lo = Inr l"
      "eval_expr low sc ps env hi = Inr h" and
    v: "(if a = VNull \<or> l = VNull \<or> h = VNull then Inr VNull else between_val neg a l h) = Inr v"
    by auto
  have "g ps env = Inr a" by (rule "6.IH"(1)[OF g(1) "6.prems"(2) e(1)])
  moreover have "lf ps env = Inr l" by (rule "6.IH"(2)[OF e(1) g(2) "6.prems"(2) e(2)])
  moreover have "hf ps env = Inr h" by (rule "6.IH"(3)[OF e(1) e(2) g(3) "6.prems"(2) e(3)])
  ultimately show ?case using v by (auto simp: f split: if_splits)
next
  case (7 low sc ps env e items neg)
  from "7.prems"(1) obtain g fs where
    g: "compile_expr low sc als ag e = Inr g" "compile_list low sc als ag items = Inr fs" and
    f: "f = (\<lambda>ps env. bindE (g ps env) (\<lambda>v. if v = VNull then Inr VNull else
       bindE (run_items v False fs ps env) (\<lambda>r. Inr (if r = VNull then r else negate_if neg r))))"
    by auto
  from "7.prems"(3) obtain a where
    e: "eval_expr low sc ps env e = Inr a" and
    v: "(if a = VNull then Inr VNull else bindE (eval_items low sc ps env a False items)
          (\<lambda>r. Inr (if r = VNull then r else negate_if neg r))) = Inr v"
    by auto
  have ga: "g ps env = Inr a" by (rule "7.IH"(1)[OF g(1) "7.prems"(2) e])
  show ?case
  proof (cases "a = VNull")
    case True
    then show ?thesis using ga v by (simp add: f)
  next
    case False
    with v obtain r where r: "eval_items low sc ps env a False items = Inr r"
      and "v = (if r = VNull then r else negate_if neg r)" by auto
    moreover have "run_items a False fs ps env = Inr r"
      by (rule "7.IH"(2)[OF e False g(2) "7.prems"(2) r])
    ultimately show ?thesis using ga False by (simp add: f)
  qed
next
  case (8 low sc ps env e pat neg)
  from "8.prems"(1) obtain g pf where
    c: "compile_expr low sc als ag e = Inr g" "compile_expr low sc als ag pat = Inr pf" and
    f: "f = (\<lambda>ps env. bindE (g ps env) (\<lambda>v. bindE (pf ps env) (\<lambda>p. like_val low neg v p)))"
    by auto
  from "8.prems"(3) obtain a b where
    e: "eval_expr low sc ps env e = Inr a" "eval_expr low sc ps env pat = Inr b" and
    v: "like_val low neg a b = Inr v"
    by auto
  have "g ps env = Inr a" by (rule "8.IH"(1)[OF c(1) "8.prems"(2) e(1)])
  moreover have "pf ps env = Inr b" by (rule "8.IH"(2)[OF e(1) c(2) "8.prems"(2) e(2)])
  ultimately show ?case by (simp add: f v)
next
  case (9 low sc ps env g e)
  from "9.prems"(1) obtain h where h: "compile_expr low sc als ag e = Inr h" and
    f: "f = (\<lambda>ps env. bindE (h ps env) (unary_val g))"
    by auto
  from "9.prems"(3) obtain a where e: "eval_expr low sc ps env e = Inr a" and v: "unary_val g a = Inr v"
    by auto
  have "h ps env = Inr a" by (rule "9.IH"[OF h "9.prems"(2) e])
  then show ?case by (simp add: f v)
next
  case (10 low sc ps env g l r)
  from "10.prems"(1) obtain lf rf where
    c: "compile_expr low sc als ag l = Inr lf" "compile_expr low sc als ag r = Inr rf" and
    f: "f = (if g = B_and then and_fn lf rf else if g = B_or then or_fn lf rf
        else (\<lambda>ps env. bindE (lf ps env) (\<lambda>a. bindE (rf ps env) (\<lambda>b. binary_val g a b))))"
    by (auto split: if_splits)
  from "10.prems"(3) obtain a b where
    e: "eval_expr low sc ps env l = Inr a" "eval_expr low sc ps env r = Inr b" and
    v: "(if g = B_and then Inr (kleene True a b) else if g = B_or then Inr (kleene False a b)
         else binary_val g a b) = Inr v"
    by auto
  have "lf ps env = Inr a" by (rule "10.IH"(1)[OF c(1) "10.prems"(2) e(1)])
  moreover have "rf ps env = Inr b" by (rule "10.IH"(2)[OF e(1) c(2) "10.prems"(2) e(2)])
  ultimately show ?case using v by (auto simp: f kleene_and_fn kleene_or_fn split: if_splits)
next
  case (11 low sc ps env w saw)
  then show ?case by auto
next
  case (12 low sc ps env w saw x xs)
  from "12.prems"(1) obtain g gs where
    c: "compile_expr low sc als ag x = Inr g" "compile_list low sc als ag xs = Inr gs" and fs: "fs = g # gs"
    by auto
  from "12.prems"(3) obtain a where
    e: "eval_expr low sc ps env x = Inr a" and
    u: "(if a = VNull then eval_items low sc ps env w True xs
         else if sql_eq w a then Inr (VBool True) else eval_items low sc ps env w saw xs) = Inr u"
    by auto
  have g: "g ps env = Inr a" by (rule "12.IH"(1)[OF c(1) "12.prems"(2) e])
  show ?case
  proof (cases "a = VNull")
    case True
    then have "eval_items low sc ps env w True xs = Inr u" using u by simp
    then have "run_items w True gs ps env = Inr u" by (rule "12.IH"(2)[OF e True c(2) "12.prems"(2)])
    then show ?thesis using g True by (simp add: fs)
  next
    case False
    show ?thesis
    proof (cases "sql_eq w a")
      case True
      then show ?thesis using False u g by (simp add: fs)
    next
      case ne: False
      then have "eval_items low sc ps env w saw xs = Inr u" using u False by simp
      then have "run_items w saw gs ps env = Inr u"
        by (rule "12.IH"(3)[OF e False ne c(2) "12.prems"(2)])
      then show ?thesis using g False ne by (simp add: fs)
    qed
  qed
qed

text \<open>C12. A compiled expression computes what the interpreted one computes: whenever
  \<open>eval_expr\<close> returns a value on a row, the closure of \<open>compile_expr\<close> returns the same value
  there (with aggregate aliases in scope, those of the same scope).\<close>

theorem compiled_agrees:
  assumes "compile_expr low sc als ag e = Inr f" and "ag \<longrightarrow> als = agg_aliases sc"
    and "eval_expr low sc ps env e = Inr v"
  shows "f ps env = Inr v"
  by (rule compiled_agrees_aux(1)[OF assms])

definition sample_meta :: table_meta where
  "sample_meta =
     \<lparr>tname = ''t'', columns = [\<lparr>cname = ''id'', ctype = TInt, cpk = True\<rparr>, \<lparr>cname = ''x'', ctype = TText, cpk = False\<rparr>],
      root_page = 1, row_count = 0, next_rowid = 1, indexes = []\<rparr>"

definition sample_scope :: scope where
  "sample_scope = \<lparr>sources = [(''t'', sample_meta)], agg_aliases = []\<rparr>"

definition sample_expr :: expr where
  "sample_expr =
     BinOp B_and (BinOp B_lt (Column ''id'' None) (Literal (VInt 9)))
       (UnaryOp U_not (IsNull (Column ''x'' (Some ''t'')) False))"

lemma sample_eval:
  "eval_expr id sample_scope [Some [VInt 4, VText [65]]] None sample_expr = Inr (VBool True)"
  "isl (compile_expr id sample_scope [] False sample_expr) = False"
  by code_simp+

theorem compiled_agrees_witness:
  "(case compile_expr id sample_scope [] False sample_expr of
      Inl e \<Rightarrow> False | Inr f \<Rightarrow> f [Some [VInt 4, VText [65]]] None = Inr (VBool True))"
  using sample_eval compiled_agrees[of id sample_scope "[]" False sample_expr _ "[Some [VInt 4, VText [65]]]" None "VBool True"]
  by (auto split: sum.splits)

section \<open>Three-valued logic\<close>

lemma tv_of_tv [simp]: "tv (of_tv b) = b"
  by (cases b) (simp_all add: tv_def)

lemma tv_simps [simp]: "tv VNull = None" "tv (VBool b) = Some b"
  by (simp_all add: tv_def)

lemma kleene_not:
  "of_tv (map_option Not (tv (kleene k a b))) =
     kleene (\<not> k) (of_tv (map_option Not (tv a))) (of_tv (map_option Not (tv b)))"
  by (auto simp: kleene_def Let_def)

lemma unary_not: "unary_val U_not a = Inr (of_tv (map_option Not (tv a)))"
  by (simp add: unary_val_def tv_def)

text \<open>De Morgan: for every row and every pair of conditions, and with errors included,
  \<open>NOT (a AND b)\<close> evaluates to what \<open>(NOT a) OR (NOT b)\<close> evaluates to, and dually.\<close>

theorem de_morgan:
  "eval_expr low sc ps env (UnaryOp U_not (BinOp B_and a b)) =
     eval_expr low sc ps env (BinOp B_or (UnaryOp U_not a) (UnaryOp U_not b)) \<and>
   eval_expr low sc ps env (UnaryOp U_not (BinOp B_or a b)) =
     eval_expr low sc ps env (BinOp B_and (UnaryOp U_not a) (UnaryOp U_not b))"
proof -
  have "bindE (bindE x (\<lambda>v. bindE y (\<lambda>w. Inr (kleene k v w)))) (unary_val U_not) =
      bindE (bindE x (unary_val U_not)) (\<lambda>v. bindE (bindE y (unary_val U_not)) (\<lambda>w. Inr (kleene (\<not> k) v w)))"
    for k and x y :: "val res"
    by (cases x; cases y) (simp_all add: kleene_not unary_not)
  from this[of _ _ True] this[of _ _ False] show ?thesis by simp
qed

section \<open>IN and BETWEEN\<close>

fun or_chain :: "expr \<Rightarrow> expr list \<Rightarrow> expr" where
  "or_chain e [] = Literal (VBool False)"
| "or_chain e (x # xs) = BinOp B_or (BinOp B_eq e x) (or_chain e xs)"

lemma kleene_or_simps:
  "kleene False VNull VNull = VNull"
  "kleene False (VBool True) w = VBool True"
  "kleene False VNull (VBool b) = (if b then VBool True else VNull)"
  "kleene False (VBool False) (VBool b) = VBool b"
  "kleene False (VBool False) VNull = VNull"
  by (simp_all add: kleene_def)

lemma kleene_val: "kleene k a b = VNull \<or> kleene k a b = VBool True \<or> kleene k a b = VBool False"
  by (simp add: kleene_def Let_def)

lemma or_chain_tv:
  "eval_expr low sc ps env (or_chain e xs) = Inr r \<Longrightarrow> r = VNull \<or> r = VBool True \<or> r = VBool False"
proof (cases xs)
  case (Cons x ys)
  assume "eval_expr low sc ps env (or_chain e xs) = Inr r"
  then obtain a b where "r = kleene False a b" using Cons by auto
  then show ?thesis using kleene_val[of False a b] by simp
qed auto

lemma in_list_chain:
  assumes "eval_expr low sc ps env e = Inr v" and "v \<noteq> VNull"
    and "eval_expr low sc ps env (or_chain e xs) = Inr r"
  shows "eval_items low sc ps env v saw xs = Inr (if saw \<and> r = VBool False then VNull else r)"
  using assms(3)
proof (induction xs arbitrary: r saw)
  case Nil
  then show ?case by simp
next
  case (Cons x xs)
  then obtain c q where c: "eval_expr low sc ps env x = Inr c"
    and q: "eval_expr low sc ps env (or_chain e xs) = Inr q"
    and r: "r = kleene False (if c = VNull then VNull else VBool (sql_eq v c)) q"
    using assms(1,2) by (auto simp: binary_val_def split: if_splits)
  have tvq: "q = VNull \<or> q = VBool True \<or> q = VBool False" by (rule or_chain_tv[OF q])
  show ?case
    using Cons.IH[OF q] c r tvq by (auto simp: kleene_or_simps)
qed

lemma or_chain_null:
  assumes "eval_expr low sc ps env e = Inr VNull" and "xs \<noteq> []"
    and "eval_expr low sc ps env (or_chain e xs) = Inr r"
  shows "r = VNull"
  using assms(2,3)
proof (induction xs arbitrary: r)
  case (Cons x xs)
  then show ?case using assms(1)
    by (cases xs) (auto simp: binary_val_def kleene_or_simps split: if_splits)
qed simp

text \<open>\<open>e IN (x1, ..., xn)\<close> means \<open>e = x1 OR ... OR e = xn\<close> in three-valued logic:
  whenever the disjunction evaluates, the list test evaluates to the same truth value, NULLs on
  either side included, and \<open>NOT IN\<close> to its negation.\<close>

theorem in_list_is_disjunction:
  assumes "xs \<noteq> []" and "eval_expr low sc ps env (or_chain e xs) = Inr r"
  shows "eval_expr low sc ps env (InList e xs False) = Inr r \<and>
    eval_expr low sc ps env (InList e xs True) = eval_expr low sc ps env (UnaryOp U_not (or_chain e xs))"
proof -
  obtain v where v: "eval_expr low sc ps env e = Inr v"
    using assms by (cases xs) auto
  show ?thesis
  proof (cases "v = VNull")
    case True
    then have "r = VNull" using or_chain_null[OF _ assms] v by simp
    then show ?thesis using v True assms(2) by (simp add: unary_val_def)
  next
    case False
    have "eval_items low sc ps env v False xs = Inr r"
      using in_list_chain[OF v False assms(2), of False] by simp
    moreover have "r = VNull \<or> r = VBool True \<or> r = VBool False" by (rule or_chain_tv[OF assms(2)])
    ultimately show ?thesis using v False assms(2) by (auto simp: unary_val_def negate_if_def)
  qed
qed

theorem in_list_is_disjunction_witness:
  "eval_expr id sample_scope [Some [VInt 4, VNull]] None
     (InList (Column ''id'' None) [Literal (VInt 3), Column ''x'' None] False) = Inr VNull"
proof -
  have "eval_expr id sample_scope [Some [VInt 4, VNull]] None
     (or_chain (Column ''id'' None) [Literal (VInt 3), Column ''x'' None]) = Inr VNull"
    by code_simp
  then show ?thesis
    using in_list_is_disjunction[of "[Literal (VInt 3), Column ''x'' None]" id sample_scope
        "[Some [VInt 4, VNull]]" None "Column ''id'' None" VNull] by simp
qed

lemma order_cmp_error: "order_cmp a b = Inl x \<Longrightarrow> x = ExecutionError"
  by (auto simp: order_cmp_def split: if_splits sum.splits bool.splits)

lemma between_cmp:
  assumes "v \<noteq> VNull" "l \<noteq> VNull" "h \<noteq> VNull" and "\<not> is_nan v" "\<not> is_nan l" "\<not> is_nan h"
  shows "between_val False v l h =
    bindE (binary_val B_ge v l) (\<lambda>a. bindE (binary_val B_le v h) (\<lambda>b. Inr (kleene True a b)))"
proof (cases "order_cmp v l")
  case (Inl x)
  then show ?thesis using assms(1-3) by (simp add: between_val_def binary_val_def)
next
  case (Inr c)
  then have lo: "py_le l v = Inr (- c \<le> 0)"
    using py_le_order_cmp[OF order_cmp_swap] assms(4,5) by simp
  show ?thesis
  proof (cases "order_cmp v h")
    case (Inl x)
    then show ?thesis using assms(1-3) Inr by (simp add: between_val_def binary_val_def)
  next
    case (Inr d)
    then have "py_le v h = Inr (d \<le> 0)" using py_le_order_cmp assms(4,6) by simp
    then show ?thesis using assms(1-3) \<open>order_cmp v l = Inr c\<close> Inr lo
      by (auto simp: between_val_def binary_val_def kleene_def negate_if_def)
  qed
qed

text \<open>On values that are not NULL and not NaN, \<open>e BETWEEN lo AND hi\<close> is
  \<open>e >= lo AND e <= hi\<close>, errors included: the two evaluate to the same result, a value or a
  refused comparison.\<close>

theorem between_is_conjunction:
  assumes "eval_expr low sc ps env e = Inr v" "eval_expr low sc ps env lo = Inr l"
    "eval_expr low sc ps env hi = Inr h"
    and "v \<noteq> VNull" "l \<noteq> VNull" "h \<noteq> VNull" and "\<not> is_nan v" "\<not> is_nan l" "\<not> is_nan h"
  shows "eval_expr low sc ps env (Between e lo hi False) =
    eval_expr low sc ps env (BinOp B_and (BinOp B_ge e lo) (BinOp B_le e hi))"
  using assms between_cmp[of v l h] by simp

theorem between_is_conjunction_witness:
  "eval_expr id sample_scope [Some [VInt 4, VNull]] None
     (Between (Column ''id'' None) (Literal (VInt 3)) (Literal (VInt 3)) False) =
   eval_expr id sample_scope [Some [VInt 4, VNull]] None
     (BinOp B_and (BinOp B_ge (Column ''id'' None) (Literal (VInt 3)))
       (BinOp B_le (Column ''id'' None) (Literal (VInt 3))))"
  by (rule between_is_conjunction[where v = "VInt 4" and l = "VInt 3" and h = "VInt 3"])
    (code_simp, simp_all add: is_nan_def is_nan_view_def view_int_def)

text \<open>With a NULL bound the two differ: \<open>5 BETWEEN NULL AND 3\<close> is NULL, where
  \<open>5 >= NULL AND 5 <= 3\<close> is false (and so \<open>NOT BETWEEN\<close> loses rows that its expansion keeps).\<close>

theorem between_null_bound:
  "eval_expr low sc ps env (Between (Literal (VInt 5)) (Literal VNull) (Literal (VInt 3)) True) = Inr VNull \<and>
   eval_expr low sc ps env (UnaryOp U_not (BinOp B_and (BinOp B_ge (Literal (VInt 5)) (Literal VNull))
     (BinOp B_le (Literal (VInt 5)) (Literal (VInt 3))))) = Inr (VBool True)"
  by (simp add: binary_val_def kleene_def tv_def order_cmp_def unary_val_def view_int_def)

end
