(* ===== verification/Exec.thy ===== *)
theory Exec
  imports Expr
begin

text \<open>
  The executor of \<open>leafdb/executor.py\<close>: aggregates, grouping, ordering, joins and
  \<open>run_select\<close>. What it asks the database for (\<open>scan_table\<close>, \<open>index_lookup\<close>, the search by
  primary key) are the fields of a \<open>db_ops\<close>. A Python dict or set of SQL values compares keys with
  \<open>==\<close>; tables of groups and of hash joins are lists of entries in insertion order.
\<close>

record db_ops =
  db_scan :: "table_meta \<Rightarrow> (int \<times> row) list res"
  db_index :: "table_meta \<Rightarrow> string \<Rightarrow> val \<Rightarrow> (int \<times> row) list res"
  db_search :: "table_meta \<Rightarrow> int \<Rightarrow> row option res"

section \<open>Statements and plans\<close>

datatype jointype = J_inner | J_left | J_right | J_full

record join_clause =
  jc_type :: jointype
  jc_table :: string
  jc_alias :: "string option"
  jc_on :: expr

record select =
  s_distinct :: bool
  s_table :: string
  s_alias :: "string option"
  s_joins :: "join_clause list"
  s_where :: "expr option"
  s_items :: "(expr \<times> string) list"
  s_group :: "expr list"
  s_having :: "expr option"
  s_order :: "(expr \<times> bool) list"
  s_limit :: "nat option"
  s_offset :: "nat option"

datatype scankind = Scan_seq | Scan_pk val | Scan_index string val

record scaninfo =
  sc_alias :: string
  sc_meta :: table_meta
  sc_kind :: scankind

text \<open>\<open>j_equi\<close>: the known side's column expression and the new table's column name.\<close>

record joininfo =
  j_type :: jointype
  j_alias :: string
  j_meta :: table_meta
  j_on :: expr
  j_hash :: bool
  j_equi :: "(expr \<times> string) option"
  j_build_right :: bool

record plan =
  p_scan :: scaninfo
  p_joins :: "joininfo list"
  p_filters :: "(nat \<times> expr) list"

section \<open>walk\_func\_nodes\<close>

fun walk_func_nodes :: "expr \<Rightarrow> expr list" where
  "walk_func_nodes (BinOp f l r) = walk_func_nodes l @ walk_func_nodes r"
| "walk_func_nodes (UnaryOp f e) = walk_func_nodes e"
| "walk_func_nodes (IsNull e neg) = walk_func_nodes e"
| "walk_func_nodes (Func fid nm arg star dist) = [Func fid nm arg star dist]"
| "walk_func_nodes _ = []"

definition walk_in_items :: "select \<Rightarrow> bool" where
  "walk_in_items sel \<longleftrightarrow>
     (\<exists>x \<in> set (s_items sel). walk_func_nodes (fst x) \<noteq> []) \<or>
     (case s_having sel of Some h \<Rightarrow> walk_func_nodes h \<noteq> [] | None \<Rightarrow> False) \<or>
     (\<exists>x \<in> set (s_order sel). walk_func_nodes (fst x) \<noteq> [])"

section \<open>Aggregates\<close>

fun sum_loop :: "val \<Rightarrow> val list \<Rightarrow> val res" where
  "sum_loop acc [] = Inr acc"
| "sum_loop acc (v # vs) =
     bindE (require_number acc) (\<lambda>_. bindE (require_number v) (\<lambda>_.
     bindE (num_op Add acc v) (\<lambda>t. sum_loop t vs)))"

fun avg_loop :: "val \<Rightarrow> val list \<Rightarrow> val res" where
  "avg_loop acc [] = Inr acc"
| "avg_loop acc (v # vs) =
     bindE (require_number v) (\<lambda>_. bindE (num_op Add acc v) (\<lambda>t. avg_loop t vs))"

fun best_loop :: "string \<Rightarrow> val \<Rightarrow> val list \<Rightarrow> val res" where
  "best_loop nm best [] = Inr best"
| "best_loop nm best (v # vs) =
     bindE (order_cmp best v) (\<lambda>c.
     best_loop nm (if (nm = ''MIN'' \<and> 0 < c) \<or> (nm = ''MAX'' \<and> c < 0) then v else best) vs)"

fun accumulate :: "string \<Rightarrow> val list \<Rightarrow> val res" where
  "accumulate nm vs =
     (if nm = ''COUNT'' then Inr (VInt (int (length vs)))
      else case vs of
        [] \<Rightarrow> Inr VNull
      | v # rest \<Rightarrow>
          if nm = ''SUM'' then sum_loop v rest
          else if nm = ''AVG'' then
            bindE (avg_loop (VInt 0) vs) (\<lambda>t. num_op Div t (VInt (int (length vs))))
          else best_loop nm v rest)"

text \<open>\<open>[v for v in (argfn(p) for p in rows) if v is not None]\<close>\<close>

fun arg_values :: "closure \<Rightarrow> parts list \<Rightarrow> val list res" where
  "arg_values f [] = Inr []"
| "arg_values f (ps # rest) =
     bindE (f ps None) (\<lambda>v. bindE (arg_values f rest) (\<lambda>vs. Inr (if v = VNull then vs else v # vs)))"

definition compute_aggregate :: "(int \<Rightarrow> int) \<Rightarrow> scope \<Rightarrow> expr \<Rightarrow> parts list \<Rightarrow> val res" where
  "compute_aggregate low sc f rows =
     (case f of
        Func fid nm arg star dist \<Rightarrow>
          if star then (if nm \<noteq> ''COUNT'' then Inl ExecutionError else Inr (VInt (int (length rows))))
          else (case arg of
            None \<Rightarrow> Inl CompileError
          | Some e \<Rightarrow> bindE (compile_expr low sc [] False e) (\<lambda>g. bindE (arg_values g rows) (accumulate nm)))
      | _ \<Rightarrow> Inl AttributeError)"

section \<open>Keys of groups, DISTINCT\<close>

datatype gkey = G_text ustr | G_null | G_num val

fun group_key_value :: "val \<Rightarrow> gkey" where
  "group_key_value (VText s) = G_text s"
| "group_key_value VNull = G_null"
| "group_key_value v = G_num v"

fun gkey_eq :: "gkey \<Rightarrow> gkey \<Rightarrow> bool" where
  "gkey_eq (G_text a) (G_text b) = (a = b)"
| "gkey_eq G_null G_null = True"
| "gkey_eq (G_num a) (G_num b) = py_eq a b"
| "gkey_eq _ _ = False"

text \<open>A Python dict from keys to lists, with the dict's equality: \<open>setdefault(k, []).append(x)\<close>.\<close>

fun tbl_add :: "('k \<Rightarrow> 'k \<Rightarrow> bool) \<Rightarrow> 'k \<Rightarrow> 'a \<Rightarrow> ('k \<times> 'a list) list \<Rightarrow> ('k \<times> 'a list) list" where
  "tbl_add eq k x [] = [(k, [x])]"
| "tbl_add eq k x ((k', xs) # t) = (if eq k' k then (k', xs @ [x]) # t else (k', xs) # tbl_add eq k x t)"

fun tbl_get :: "('k \<Rightarrow> 'k \<Rightarrow> bool) \<Rightarrow> 'k \<Rightarrow> ('k \<times> 'a list) list \<Rightarrow> 'a list" where
  "tbl_get eq k [] = []"
| "tbl_get eq k ((k', xs) # t) = (if eq k' k then xs else tbl_get eq k t)"

text \<open>Keep the first of equal elements, in order: a seen-set, or \<open>dict.fromkeys\<close>.\<close>

fun uniq_by :: "('a \<Rightarrow> 'a \<Rightarrow> bool) \<Rightarrow> 'a list \<Rightarrow> 'a list \<Rightarrow> 'a list" where
  "uniq_by eq seen [] = []"
| "uniq_by eq seen (x # xs) =
     (if \<exists>y \<in> set seen. eq y x then uniq_by eq seen xs else x # uniq_by eq (x # seen) xs)"

section \<open>ORDER BY\<close>

fun wrap_rank :: "val \<Rightarrow> nat" where
  "wrap_rank VNull = 0"
| "wrap_rank (VText s) = 1"
| "wrap_rank (VInt i) = 2"
| "wrap_rank (VFloat d) = 2"
| "wrap_rank (VBool b) = 3"

text \<open>\<open>sort_wrap(v) < sort_wrap(w)\<close>: tuples compare at the first place where they differ.\<close>

definition wrap_less :: "val \<Rightarrow> val \<Rightarrow> bool" where
  "wrap_less v w =
     (if wrap_rank v \<noteq> wrap_rank w then wrap_rank v < wrap_rank w
      else \<not> py_eq v w \<and> py_less v w = Inr True)"

text \<open>
  \<open>list.sort\<close> is a stable sort by \<open><\<close>; with \<open>reverse\<close> the list is reversed before and after.
  (With NaN among the keys \<open><\<close> is no order and the outcome depends on the algorithm.)
\<close>

fun stable_insert :: "('a \<Rightarrow> 'a \<Rightarrow> bool) \<Rightarrow> 'a \<Rightarrow> 'a list \<Rightarrow> 'a list" where
  "stable_insert lt x [] = [x]"
| "stable_insert lt x (y # ys) = (if lt y x then y # stable_insert lt x ys else x # y # ys)"

definition py_sort :: "('a \<Rightarrow> 'a \<Rightarrow> bool) \<Rightarrow> bool \<Rightarrow> 'a list \<Rightarrow> 'a list" where
  "py_sort lt reverse xs =
     (if reverse then rev (foldr (stable_insert lt) (rev xs) []) else foldr (stable_insert lt) xs [])"

text \<open>One pass per key, the last key first; an item is an output row with its keys.\<close>

type_synonym item = "row \<times> val list"

fun sort_passes :: "nat \<Rightarrow> bool list \<Rightarrow> item list \<Rightarrow> item list" where
  "sort_passes pos [] xs = xs"
| "sort_passes pos (desc # ds) xs =
     py_sort (\<lambda>a b. wrap_less (snd a ! pos) (snd b ! pos)) desc (sort_passes (Suc pos) ds xs)"

definition sort_items :: "bool list \<Rightarrow> item list \<Rightarrow> item list" where
  "sort_items descs xs = sort_passes 0 descs xs"

section \<open>Joins\<close>

record jstate =
  j_out :: "parts list"
  j_left :: "nat set"
  j_right :: "int set"

definition match :: "closure \<Rightarrow> parts \<Rightarrow> nat \<Rightarrow> int \<times> row \<Rightarrow> jstate \<Rightarrow> jstate res" where
  "match on_fn ps i r st =
     bindE (on_fn (ps @ [Some (snd r)]) None) (\<lambda>v.
     if v = VBool True then
       Inr (st\<lparr>j_out := j_out st @ [ps @ [Some (snd r)]], j_left := insert i (j_left st),
               j_right := insert (fst r) (j_right st)\<rparr>)
     else Inr st)"

fun foldE :: "('a \<Rightarrow> 's \<Rightarrow> 's res) \<Rightarrow> 'a list \<Rightarrow> 's \<Rightarrow> 's res" where
  "foldE f [] s = Inr s"
| "foldE f (x # xs) s = bindE (f x s) (foldE f xs)"

definition nested_loop :: "closure \<Rightarrow> (nat \<times> parts) list \<Rightarrow> (int \<times> row) list \<Rightarrow> jstate \<Rightarrow> jstate res" where
  "nested_loop on_fn ls rs = foldE (\<lambda>(i, ps). foldE (match on_fn ps i) rs) ls"

definition build_right :: "nat \<Rightarrow> (int \<times> row) list \<Rightarrow> (val \<times> (int \<times> row) list) list res" where
  "build_right nidx rs =
     foldE (\<lambda>r t. bindE (nth_err (snd r) nidx) (\<lambda>k.
       Inr (if k = VNull then t else tbl_add py_eq k r t))) rs []"

definition hash_right :: "closure \<Rightarrow> closure \<Rightarrow> nat \<Rightarrow> (nat \<times> parts) list \<Rightarrow> (int \<times> row) list \<Rightarrow> jstate \<Rightarrow> jstate res" where
  "hash_right on_fn acc_fn nidx ls rs st =
     bindE (build_right nidx rs) (\<lambda>t.
     foldE (\<lambda>(i, ps) s. bindE (acc_fn ps None) (\<lambda>lk.
       if lk = VNull then Inr s else foldE (match on_fn ps i) (tbl_get py_eq lk t) s)) ls st)"

definition build_left :: "closure \<Rightarrow> (nat \<times> parts) list \<Rightarrow> (val \<times> (nat \<times> parts) list) list res" where
  "build_left acc_fn ls =
     foldE (\<lambda>(i, ps) t. bindE (acc_fn ps None) (\<lambda>lk.
       Inr (if lk = VNull then t else tbl_add py_eq lk (i, ps) t))) ls []"

definition hash_left :: "closure \<Rightarrow> closure \<Rightarrow> nat \<Rightarrow> (nat \<times> parts) list \<Rightarrow> (int \<times> row) list \<Rightarrow> jstate \<Rightarrow> jstate res" where
  "hash_left on_fn acc_fn nidx ls rs st =
     bindE (build_left acc_fn ls) (\<lambda>t.
     foldE (\<lambda>r s. bindE (nth_err (snd r) nidx) (\<lambda>rk.
       if rk = VNull then Inr s else foldE (\<lambda>(i, ps). match on_fn ps i r) (tbl_get py_eq rk t) s)) rs st)"

definition pad_rows :: "jointype \<Rightarrow> nat \<Rightarrow> (nat \<times> parts) list \<Rightarrow> (int \<times> row) list \<Rightarrow> jstate \<Rightarrow> parts list" where
  "pad_rows jt width ls rs st =
     j_out st @
     (if jt = J_left \<or> jt = J_full
      then map (\<lambda>(i, ps). ps @ [None]) (filter (\<lambda>(i, ps). i \<notin> j_left st) ls) else []) @
     (if jt = J_right \<or> jt = J_full
      then map (\<lambda>r. replicate width None @ [Some (snd r)]) (filter (\<lambda>r. fst r \<notin> j_right st) rs) else [])"

definition exec_join :: "(int \<Rightarrow> int) \<Rightarrow> db_ops \<Rightarrow> parts list \<Rightarrow> joininfo \<Rightarrow> scope \<Rightarrow> parts list res" where
  "exec_join low db lefts ji sc =
     bindE (compile_expr low sc [] False (j_on ji)) (\<lambda>on_fn.
     bindE (db_scan db (j_meta ji)) (\<lambda>rs.
     let ls = zip [0..<length lefts] lefts;
         st = \<lparr>j_out = [], j_left = {}, j_right = {}\<rparr>;
         run = (case (j_hash ji, j_equi ji) of
           (True, Some (acc, new)) \<Rightarrow>
             bindE (compile_expr low sc [] False acc) (\<lambda>acc_fn.
             bindE (column_index (j_meta ji) new) (\<lambda>nidx.
             if j_build_right ji then hash_right on_fn acc_fn nidx ls rs st
             else hash_left on_fn acc_fn nidx ls rs st))
         | _ \<Rightarrow> nested_loop on_fn ls rs st)
     in bindE run (\<lambda>s. Inr (pad_rows (j_type ji) (length (sources sc) - 1) ls rs s))))"

section \<open>Grouping\<close>

record unit_row =
  u_parts :: parts
  u_env :: "agg_env option"

text \<open>\<open>collect\<close>: the aggregate nodes of the statement, each identity once.\<close>

fun func_id :: "expr \<Rightarrow> nat" where
  "func_id (Func fid nm arg star dist) = fid"
| "func_id _ = 0"

definition collect_funcs :: "select \<Rightarrow> expr list" where
  "collect_funcs sel =
     uniq_by (\<lambda>a b. func_id a = func_id b) []
       (concat (map (\<lambda>x. walk_func_nodes (fst x)) (s_items sel)) @
        (case s_having sel of Some h \<Rightarrow> walk_func_nodes h | None \<Rightarrow> []) @
        concat (map (\<lambda>x. walk_func_nodes (fst x)) (s_order sel)))"

text \<open>A compiled aggregate: identity, name, star, argument closure, distinct.\<close>

type_synonym cagg = "nat \<times> string \<times> bool \<times> closure option \<times> bool"

fun compile_agg :: "(int \<Rightarrow> int) \<Rightarrow> scope \<Rightarrow> expr \<Rightarrow> cagg res" where
  "compile_agg low sc (Func fid nm arg star dist) =
     (if star then Inr (fid, nm, True, None, dist)
      else case arg of
        None \<Rightarrow> Inl CompileError
      | Some e \<Rightarrow> bindE (compile_expr low sc [] False e) (\<lambda>f. Inr (fid, nm, False, Some f, dist)))"
| "compile_agg low sc _ = Inl AttributeError"

definition run_agg :: "parts list \<Rightarrow> cagg \<Rightarrow> val res" where
  "run_agg members c =
     (case c of (fid, nm, star, f, dist) \<Rightarrow>
        (case (star, f) of
           (False, Some g) \<Rightarrow>
             bindE (arg_values g members) (\<lambda>vs. accumulate nm (if dist then uniq_by py_eq [] vs else vs))
         | _ \<Rightarrow> Inr (VInt (int (length members)))))"

text \<open>\<open>agg_env\<close> of one group, built in order.\<close>

fun run_aggs :: "parts list \<Rightarrow> cagg list \<Rightarrow> agg_env res" where
  "run_aggs members [] = Inr []"
| "run_aggs members (c # cs) =
     bindE (run_agg members c) (\<lambda>v. bindE (run_aggs members cs) (\<lambda>en. Inr ((fst c, v) # en)))"

definition group_rows :: "closure list \<Rightarrow> parts list \<Rightarrow> (gkey list \<times> parts list) list res" where
  "group_rows keys rows =
     (if keys = [] then Inr [([], rows)]
      else foldE (\<lambda>ps t. bindE (mapE (\<lambda>f. f ps None) keys) (\<lambda>vs.
             Inr (tbl_add (list_all2 gkey_eq) (map group_key_value vs) ps t))) rows [])"

fun group_units :: "closure option \<Rightarrow> cagg list \<Rightarrow> parts \<Rightarrow> (gkey list \<times> parts list) list \<Rightarrow> unit_row list res" where
  "group_units hf aggs blank [] = Inr []"
| "group_units hf aggs blank ((k, members) # gs) =
     bindE (run_aggs members aggs) (\<lambda>en.
     let rep = (case members of [] \<Rightarrow> blank | m # _ \<Rightarrow> m) in
     bindE (case hf of None \<Rightarrow> Inr True | Some h \<Rightarrow> bindE (h rep (Some en)) (\<lambda>v. Inr (v = VBool True))) (\<lambda>keep.
     bindE (group_units hf aggs blank gs) (\<lambda>us.
     Inr (if keep then \<lparr>u_parts = rep, u_env = Some en\<rparr> # us else us))))"

definition exec_aggregate :: "(int \<Rightarrow> int) \<Rightarrow> select \<Rightarrow> parts list \<Rightarrow> scope \<Rightarrow> unit_row list res" where
  "exec_aggregate low sel rows sc =
     bindE (mapE (compile_agg low sc) (collect_funcs sel)) (\<lambda>aggs.
     bindE (mapE (compile_expr low sc [] False) (s_group sel)) (\<lambda>keys.
     bindE (case s_having sel of
              None \<Rightarrow> Inr None
            | Some h \<Rightarrow> bindE (compile_expr low sc (agg_aliases sc) True h) (\<lambda>f. Inr (Some f))) (\<lambda>hf.
     bindE (group_rows keys rows) (\<lambda>gs.
     group_units hf aggs (replicate (length (sources sc)) None) gs))))"

section \<open>run\_select\<close>

definition coerce_pk :: "val \<Rightarrow> int res" where
  "coerce_pk v =
     (case v of
        VInt i \<Rightarrow> Inr i
      | VFloat d \<Rightarrow> if dbl_is_integer d then dbl_to_int d else Inl SQLError
      | _ \<Rightarrow> Inl SQLError)"

definition exec_scan :: "db_ops \<Rightarrow> scaninfo \<Rightarrow> (int \<times> row) list res" where
  "exec_scan db si =
     (case sc_kind si of
        Scan_pk v \<Rightarrow>
          (if v = VNull then Inr [] else
           case coerce_pk v of
             Inl e \<Rightarrow> Inr []
           | Inr key \<Rightarrow>
               bindE (db_search db (sc_meta si) key) (\<lambda>r.
               Inr (case r of None \<Rightarrow> [] | Some rw \<Rightarrow> [(key, rw)])))
      | Scan_index col v \<Rightarrow> db_index db (sc_meta si) col v
      | Scan_seq \<Rightarrow> db_scan db (sc_meta si))"

fun filterE :: "('a \<Rightarrow> bool res) \<Rightarrow> 'a list \<Rightarrow> 'a list res" where
  "filterE P [] = Inr []"
| "filterE P (x # xs) = bindE (P x) (\<lambda>b. bindE (filterE P xs) (\<lambda>ys. Inr (if b then x # ys else ys)))"

definition keep_true :: "closure \<Rightarrow> parts \<Rightarrow> bool res" where
  "keep_true f ps = bindE (f ps None) (\<lambda>v. Inr (v = VBool True))"

text \<open>\<open>apply_stage(s)\<close>: the conjuncts staged at \<open>s\<close>, one after the other.\<close>

definition apply_stage :: "(int \<Rightarrow> int) \<Rightarrow> (nat \<times> expr) list \<Rightarrow> nat \<Rightarrow> scope \<Rightarrow> parts list \<Rightarrow> parts list res" where
  "apply_stage low fs s sc =
     foldE (\<lambda>c rows. bindE (compile_expr low sc [] False (snd c)) (\<lambda>f. filterE (keep_true f) rows))
       (filter (\<lambda>c. fst c = s) fs)"

fun run_joins :: "(int \<Rightarrow> int) \<Rightarrow> db_ops \<Rightarrow> (nat \<times> expr) list \<Rightarrow> nat \<Rightarrow> joininfo list \<Rightarrow> scope \<Rightarrow> parts list \<Rightarrow>
    (scope \<times> parts list) res" where
  "run_joins low db fs s [] sc rows = Inr (sc, rows)"
| "run_joins low db fs s (j # js) sc rows =
     bindE (scope_add (j_alias j) (j_meta j) sc) (\<lambda>sc1.
     bindE (exec_join low db rows j sc1) (\<lambda>rows1.
     bindE (apply_stage low fs s sc1 rows1) (\<lambda>rows2.
     run_joins low db fs (Suc s) js sc1 rows2)))"

definition scan_filter_join :: "(int \<Rightarrow> int) \<Rightarrow> db_ops \<Rightarrow> plan \<Rightarrow> (scope \<times> parts list) res" where
  "scan_filter_join low db pl =
     bindE (scope_add (sc_alias (p_scan pl)) (sc_meta (p_scan pl)) new_scope) (\<lambda>sc.
     bindE (exec_scan db (p_scan pl)) (\<lambda>rs.
     bindE (apply_stage low (p_filters pl) 0 sc (map (\<lambda>r. [Some (snd r)]) rs)) (\<lambda>rows.
     run_joins low db (p_filters pl) 1 (p_joins pl) sc rows)))"

datatype ospec = O_idx nat | O_fn closure

definition order_spec :: "(int \<Rightarrow> int) \<Rightarrow> scope \<Rightarrow> bool \<Rightarrow> string list \<Rightarrow> expr \<Rightarrow> ospec res" where
  "order_spec low sc grouped cols e =
     (let other = bindE (compile_expr low sc (if grouped then agg_aliases sc else []) grouped e) (\<lambda>f. Inr (O_fn f))
      in case e of
        Literal (VInt n) \<Rightarrow> if n - 1 < 0 then Inl ExecutionError else Inr (O_idx (nat (n - 1)))
      | Column nm None \<Rightarrow>
          (case first_index (\<lambda>c. c = nm) cols of Some i \<Rightarrow> Inr (O_idx i) | None \<Rightarrow> other)
      | _ \<Rightarrow> other)"

text \<open>\<open>None\<close> stands for a star item.\<close>

definition item_fn :: "(int \<Rightarrow> int) \<Rightarrow> scope \<Rightarrow> expr \<Rightarrow> closure option res" where
  "item_fn low sc e =
     (if e = Star then Inr None else bindE (compile_expr low sc [] False e) (\<lambda>f. Inr (Some f)))"

fun star_values :: "nat \<Rightarrow> (string \<times> table_meta) list \<Rightarrow> parts \<Rightarrow> row res" where
  "star_values si [] ps = Inr []"
| "star_values si ((al, m) # ss) ps =
     bindE (nth_err ps si) (\<lambda>prow.
     bindE (star_values (Suc si) ss ps) (\<lambda>rest.
     Inr ((case prow of None \<Rightarrow> replicate (length (columns m)) VNull | Some r \<Rightarrow> take (length (columns m)) r) @ rest)))"

fun project :: "scope \<Rightarrow> unit_row \<Rightarrow> closure option list \<Rightarrow> row res" where
  "project sc u [] = Inr []"
| "project sc u (None # fs) =
     bindE (star_values 0 (sources sc) (u_parts u)) (\<lambda>vs. bindE (project sc u fs) (\<lambda>rest. Inr (vs @ rest)))"
| "project sc u (Some f # fs) =
     bindE (f (u_parts u) (u_env u)) (\<lambda>v. bindE (project sc u fs) (\<lambda>rest. Inr (v # rest)))"

definition order_key :: "unit_row \<Rightarrow> row \<Rightarrow> ospec \<Rightarrow> val res" where
  "order_key u out sp =
     (case sp of
        O_fn f \<Rightarrow> f (u_parts u) (u_env u)
      | O_idx i \<Rightarrow> if length out \<le> i then Inl ExecutionError else Inr (out ! i))"

definition project_unit :: "scope \<Rightarrow> closure option list \<Rightarrow> ospec list \<Rightarrow> unit_row \<Rightarrow> item res" where
  "project_unit sc fns specs u =
     bindE (project sc u fns) (\<lambda>out. bindE (mapE (order_key u out) specs) (\<lambda>ks. Inr (out, ks)))"

definition distinct_items :: "item list \<Rightarrow> item list" where
  "distinct_items = uniq_by (\<lambda>a b. list_all2 py_eq (fst a) (fst b)) []"

definition slice :: "nat option \<Rightarrow> nat option \<Rightarrow> 'a list \<Rightarrow> 'a list" where
  "slice off lim xs =
     (let start = (case off of None \<Rightarrow> 0 | Some n \<Rightarrow> n) in
      case lim of None \<Rightarrow> drop start xs | Some n \<Rightarrow> take n (drop start xs))"

definition register_aliases :: "(expr \<times> string) list \<Rightarrow> scope \<Rightarrow> scope" where
  "register_aliases items sc =
     foldl (\<lambda>sc (e, label). case e of Func fid nm arg star dist \<Rightarrow> add_agg_alias label fid sc | _ \<Rightarrow> sc) sc items"

text \<open>Grouping, projection, DISTINCT, ORDER BY and LIMIT over the joined rows.\<close>

definition finish_select :: "(int \<Rightarrow> int) \<Rightarrow> select \<Rightarrow> scope \<Rightarrow> parts list \<Rightarrow> (string list \<times> row list) res" where
  "finish_select low sel sc rows =
     (let grouped = (s_group sel \<noteq> [] \<or> walk_in_items sel);
          sc1 = (if grouped then register_aliases (s_items sel) sc else sc)
      in bindE (if grouped then exec_aggregate low sel rows sc1
                else if s_having sel \<noteq> None then Inl ExecutionError
                else Inr (map (\<lambda>ps. \<lparr>u_parts = ps, u_env = None\<rparr>) rows)) (\<lambda>units.
         let cols = concat (map (\<lambda>(e, label). if e = Star then concat (map (\<lambda>s. colnames (snd s)) (sources sc1))
                                               else [label]) (s_items sel))
         in bindE (mapE (\<lambda>x. item_fn low sc1 (fst x)) (s_items sel)) (\<lambda>fns.
            bindE (mapE (\<lambda>x. order_spec low sc1 grouped cols (fst x)) (s_order sel)) (\<lambda>specs.
            bindE (mapE (project_unit sc1 fns specs) units) (\<lambda>items.
            let uniq = (if s_distinct sel then distinct_items items else items);
                ordered = sort_items (map snd (s_order sel)) uniq
            in Inr (cols, map fst (slice (s_offset sel) (s_limit sel) ordered)))))))"

definition run_select :: "(int \<Rightarrow> int) \<Rightarrow> db_ops \<Rightarrow> select \<Rightarrow> plan \<Rightarrow> (string list \<times> row list) res" where
  "run_select low db sel pl =
     bindE (scan_filter_join low db pl) (\<lambda>(sc, rows). finish_select low sel sc rows)"

end
