(* ===== verification/Planner.thy ===== *)
theory Planner
  imports Exec
begin

text \<open>
  The planner of \<open>leafdb/planner.py\<close>: conjuncts, the choice of the scan, the choice of the join
  algorithm and the stage at which every \<open>WHERE\<close> conjunct is applied. A Python dict from aliases
  to tables is an association list in insertion order. The lines of \<open>EXPLAIN\<close>
  are in \<open>Explain\<close>.
\<close>

type_synonym tabs = "(string \<times> table_meta) list"

fun flatten_and :: "expr \<Rightarrow> expr list" where
  "flatten_and (BinOp f l r) = (if f = B_and then flatten_and l @ flatten_and r else [BinOp f l r])"
| "flatten_and e = [e]"

definition where_conjuncts :: "expr option \<Rightarrow> expr list" where
  "where_conjuncts w = (case w of None \<Rightarrow> [] | Some e \<Rightarrow> flatten_and e)"

definition column_matches :: "string \<Rightarrow> string option \<Rightarrow> string \<Rightarrow> string list \<Rightarrow> bool" where
  "column_matches nm tab al cols =
     (case tab of Some t \<Rightarrow> t = al \<and> nm \<in> set cols | None \<Rightarrow> nm \<in> set cols)"

text \<open>The \<open>column = literal\<close> conjuncts: name, qualifier, value.\<close>

fun find_equi_predicates :: "expr list \<Rightarrow> (string \<times> string option \<times> val) list" where
  "find_equi_predicates [] = []"
| "find_equi_predicates (c # cs) =
     (case c of
        BinOp B_eq (Column nm tab) (Literal v) \<Rightarrow> [(nm, tab, v)]
      | BinOp B_eq (Literal v) (Column nm tab) \<Rightarrow> [(nm, tab, v)]
      | _ \<Rightarrow> []) @ find_equi_predicates cs"

section \<open>The scan\<close>

definition alias_or :: "string option \<Rightarrow> string \<Rightarrow> string" where
  "alias_or al nm = (case al of None \<Rightarrow> nm | Some a \<Rightarrow> if a = [] then nm else a)"

definition choose_scan :: "string \<Rightarrow> table_meta \<Rightarrow> expr option \<Rightarrow> scankind \<times> int" where
  "choose_scan al base w =
     (let eqs = find_equi_predicates (where_conjuncts w);
          matching = filter (\<lambda>(nm, tab, v). column_matches nm tab al (colnames base)) eqs
      in case (case pk_column base of
                 None \<Rightarrow> None
               | Some pk \<Rightarrow> if pk = [] then None else find (\<lambda>(nm, tab, v). nm = pk) matching) of
           Some (nm, tab, v) \<Rightarrow> (Scan_pk v, 1)
         | None \<Rightarrow>
             (case find (\<lambda>(nm, tab, v). nm \<in> fst ` set (indexes base)) matching of
                Some (nm, tab, v) \<Rightarrow> (Scan_index nm v, max 1 (row_count base div 100))
              | None \<Rightarrow> (Scan_seq, max (row_count base) 1)))"

section \<open>Joins\<close>

text \<open>The alias a column of an \<open>ON\<close> condition belongs to, among the known tables and the new one.\<close>

definition owner :: "tabs \<Rightarrow> string \<Rightarrow> table_meta \<Rightarrow> string \<Rightarrow> string option \<Rightarrow> string option" where
  "owner known ral rmeta nm tab =
     (case tab of
        Some t \<Rightarrow>
          if t = ral then (if nm \<in> set (colnames rmeta) then Some ral else None)
          else (case map_of known t of
                  None \<Rightarrow> None
                | Some m \<Rightarrow> if nm \<in> set (colnames m) then Some t else None)
      | None \<Rightarrow>
          (case map fst (filter (\<lambda>(a, m). nm \<in> set (colnames m)) (known @ [(ral, rmeta)])) of
             [a] \<Rightarrow> Some a
           | _ \<Rightarrow> None))"

text \<open>One conjunct: the column on the known side and the name of the new table's column.\<close>

definition equi_of :: "tabs \<Rightarrow> string \<Rightarrow> table_meta \<Rightarrow> expr \<Rightarrow> (expr \<times> string) option" where
  "equi_of known ral rmeta c =
     (case c of
        BinOp B_eq (Column ln lt) (Column rn rt) \<Rightarrow>
          (case (owner known ral rmeta ln lt, owner known ral rmeta rn rt) of
             (Some lo, Some ro) \<Rightarrow>
               if lo = ro then None
               else if ro = ral then Some (Column ln (Some lo), rn)
               else if lo = ral then Some (Column rn (Some ro), ln)
               else None
           | _ \<Rightarrow> None)
      | _ \<Rightarrow> None)"

fun find_join_equi :: "expr list \<Rightarrow> tabs \<Rightarrow> string \<Rightarrow> table_meta \<Rightarrow> (expr \<times> string) option" where
  "find_join_equi [] known ral rmeta = None"
| "find_join_equi (c # cs) known ral rmeta =
     (case equi_of known ral rmeta c of Some e \<Rightarrow> Some e | None \<Rightarrow> find_join_equi cs known ral rmeta)"

fun plan_joins :: "(string \<Rightarrow> table_meta res) \<Rightarrow> join_clause list \<Rightarrow> tabs \<Rightarrow> int \<Rightarrow> joininfo list res" where
  "plan_joins lookup [] known left_est = Inr []"
| "plan_joins lookup (j # js) known left_est =
     bindE (lookup (jc_table j)) (\<lambda>m.
     let al = alias_or (jc_alias j) (jc_table j);
         right_est = max (row_count m) 1;
         equi = find_join_equi (flatten_and (jc_on j)) known al m;
         est_out = (if equi \<noteq> None then max left_est right_est else max 1 (left_est * right_est div 10));
         ji = \<lparr>j_type = jc_type j, j_alias = al, j_meta = m, j_on = jc_on j,
               j_hash = (equi \<noteq> None), j_equi = equi,
               j_build_right = (equi \<noteq> None \<and> right_est \<le> left_est)\<rparr>
     in bindE (plan_joins lookup js (AList.update al m known) est_out) (\<lambda>rest. Inr (ji # rest)))"

section \<open>Where a conjunct is applied\<close>

text \<open>\<open>gather\<close>: the columns of a conjunct. A \<open>LIKE\<close> contributes its operand only.\<close>

fun gather :: "expr \<Rightarrow> (string \<times> string option) list" where
  "gather (Column nm tab) = [(nm, tab)]"
| "gather (BinOp f l r) = gather l @ gather r"
| "gather (UnaryOp f e) = gather e"
| "gather (IsNull e neg) = gather e"
| "gather (Between e lo hi neg) = gather e @ gather lo @ gather hi"
| "gather (InList e items neg) = gather e @ concat (map gather items)"
| "gather (LikeOp e pat neg) = gather e"
| "gather _ = []"

definition column_table :: "tabs \<Rightarrow> string \<times> string option \<Rightarrow> string option" where
  "column_table srcs c =
     (case c of
        (nm, Some t) \<Rightarrow>
          (case map_of srcs t of
             None \<Rightarrow> None
           | Some m \<Rightarrow> if nm \<in> set (colnames m) then Some t else None)
      | (nm, None) \<Rightarrow>
          (case map fst (filter (\<lambda>(a, m). nm \<in> set (colnames m)) srcs) of
             [a] \<Rightarrow> Some a
           | _ \<Rightarrow> None))"

text \<open>\<open>None\<close> as soon as a column has no table.\<close>

definition conjunct_tables :: "expr \<Rightarrow> tabs \<Rightarrow> string set option" where
  "conjunct_tables cj srcs =
     (if walk_func_nodes cj \<noteq> [] then None
      else if \<exists>c \<in> set (gather cj). column_table srcs c = None then None
      else Some (set (map (\<lambda>c. the (column_table srcs c)) (gather cj))))"

text \<open>The tables known after 0, 1, 2, ... joins.\<close>

fun avail_tables :: "(string \<Rightarrow> table_meta res) \<Rightarrow> join_clause list \<Rightarrow> tabs \<Rightarrow> tabs list res" where
  "avail_tables lookup [] running = Inr [running]"
| "avail_tables lookup (j # js) running =
     bindE (lookup (jc_table j)) (\<lambda>m.
     bindE (avail_tables lookup js (AList.update (alias_or (jc_alias j) (jc_table j)) m running)) (\<lambda>rest.
     Inr (running # rest)))"

definition stage_of :: "tabs list \<Rightarrow> expr \<Rightarrow> nat" where
  "stage_of avail cj =
     (if conjunct_tables cj (last avail) = None then length avail - 1
      else case first_index (\<lambda>srcs. case conjunct_tables cj srcs of
                None \<Rightarrow> False | Some refs \<Rightarrow> refs \<subseteq> fst ` set srcs) avail of
             Some s \<Rightarrow> s
           | None \<Rightarrow> length avail - 1)"

definition assign_filter_stages :: "(string \<Rightarrow> table_meta res) \<Rightarrow> select \<Rightarrow> (nat \<times> expr) list res" where
  "assign_filter_stages lookup sel =
     bindE (lookup (s_table sel)) (\<lambda>base.
     bindE (avail_tables lookup (s_joins sel) [(alias_or (s_alias sel) (s_table sel), base)]) (\<lambda>avail.
     Inr (map (\<lambda>c. (stage_of avail c, c)) (where_conjuncts (s_where sel)))))"

section \<open>build\_select\_plan\<close>

text \<open>\<open>for stage in sorted(staged)\<close>: the conjuncts of a stage stay in their order.\<close>

definition by_stage :: "nat \<Rightarrow> (nat \<times> expr) list \<Rightarrow> (nat \<times> expr) list" where
  "by_stage total_stages staged = concat (map (\<lambda>s. filter (\<lambda>c. fst c = s) staged) [0..<Suc total_stages])"

definition build_select_plan :: "(string \<Rightarrow> table_meta res) \<Rightarrow> select \<Rightarrow> plan res" where
  "build_select_plan lookup sel =
     bindE (lookup (s_table sel)) (\<lambda>base.
     let al = alias_or (s_alias sel) (s_table sel);
         (kind, est) = choose_scan al base (s_where sel)
     in bindE (plan_joins lookup (s_joins sel) [(al, base)] est) (\<lambda>js.
        bindE (assign_filter_stages lookup sel) (\<lambda>staged.
        Inr \<lparr>p_scan = \<lparr>sc_alias = al, sc_meta = base, sc_kind = kind\<rparr>, p_joins = js,
             p_filters = by_stage (length (s_joins sel)) staged\<rparr>)))"

text \<open>\<open>Executor.run_select\<close> on a statement that has no plan yet.\<close>

definition execute_select :: "(int \<Rightarrow> int) \<Rightarrow> (string \<Rightarrow> table_meta res) \<Rightarrow> db_ops \<Rightarrow> select \<Rightarrow> (string list \<times> row list) res" where
  "execute_select low lookup db sel = bindE (build_select_plan lookup sel) (run_select low db sel)"

end
