(* ===== verification/JoinProps.thy ===== *)
theory JoinProps
  imports ExprProps Planner "HOL-Library.Multiset"
begin

text \<open>
  Joins: a hash join returns what the nested loop returns. The dict from join keys to rows is a
  client of the laws of \<open>==\<close> (symmetric and transitive), which the first locale states.
\<close>

section \<open>A dict keyed by a partial equivalence\<close>

locale key_equality =
  fixes eq :: "'k \<Rightarrow> 'k \<Rightarrow> bool"
  assumes sym: "eq a b \<Longrightarrow> eq b a"
    and trans: "eq a b \<Longrightarrow> eq b c \<Longrightarrow> eq a c"
begin

lemma get_add: "tbl_get eq k (tbl_add eq k' x t) = tbl_get eq k t @ (if eq k' k then [x] else [])"
proof (induction t)
  case Nil
  then show ?case by simp
next
  case (Cons e t)
  obtain h xs where e: "e = (h, xs)" by (cases e)
  show ?case
  proof (cases "eq h k'")
    case True
    have "eq h k \<longleftrightarrow> eq k' k" using True sym trans by blast
    then show ?thesis using True by (simp add: e)
  next
    case False
    have "\<not> eq k' k" if "eq h k" using that False sym trans by blast
    then show ?thesis using False Cons by (cases "eq h k") (simp_all add: e)
  qed
qed

text \<open>After any sequence of additions a lookup finds the values added under equal keys, in order.\<close>

lemma get_fold:
  "tbl_get eq k (fold (\<lambda>(k', x). tbl_add eq k' x) kxs t) =
   tbl_get eq k t @ map snd (filter (\<lambda>(k', x). eq k' k) kxs)"
  by (induction kxs arbitrary: t) (auto simp: get_add)

end

interpretation vals: key_equality py_eq
  by unfold_locales (use py_eq_sym py_eq_trans in blast)+

section \<open>What the loops collect\<close>

type_synonym pair = "nat \<times> parts \<times> int \<times> row"

definition accepts :: "closure \<Rightarrow> parts \<Rightarrow> int \<times> row \<Rightarrow> bool" where
  "accepts on ps r \<longleftrightarrow> on (ps @ [Some (snd r)]) None = Inr (VBool True)"

definition defined :: "closure \<Rightarrow> parts \<Rightarrow> int \<times> row \<Rightarrow> bool" where
  "defined on ps r \<longleftrightarrow> (\<exists>v. on (ps @ [Some (snd r)]) None = Inr v)"

definition absorb :: "pair list \<Rightarrow> jstate \<Rightarrow> jstate" where
  "absorb hs st = st\<lparr>j_out := j_out st @ map (\<lambda>(i, ps, rid, rw). ps @ [Some rw]) hs,
     j_left := fst ` set hs \<union> j_left st, j_right := (\<lambda>(i, ps, rid, rw). rid) ` set hs \<union> j_right st\<rparr>"

lemma absorb_Nil [simp]: "absorb [] st = st"
  by (simp add: absorb_def)

lemma absorb_append: "absorb hs' (absorb hs st) = absorb (hs @ hs') st"
  by (simp add: absorb_def image_Un Un_ac)

lemma absorb_Cons: "absorb (h # hs) st = absorb hs (absorb [h] st)"
  by (simp add: absorb_append)

lemma foldE_Inr_append: "foldE f (xs @ ys) s = bindE (foldE f xs s) (foldE f ys)"
  by (induction xs arbitrary: s) (auto simp: bindE_def split: sum.splits)

lemma match_defined:
  "defined on ps r \<Longrightarrow> match on ps i r st = Inr (absorb (if accepts on ps r then [(i, ps, r)] else []) st)"
  by (cases r) (auto simp: match_def defined_def accepts_def absorb_def)

lemma match_total: "match on ps i r st = Inr st' \<Longrightarrow> defined on ps r"
  by (auto simp: match_def defined_def)

definition hits :: "closure \<Rightarrow> nat \<Rightarrow> parts \<Rightarrow> (int \<times> row) list \<Rightarrow> pair list" where
  "hits on i ps rs = map (\<lambda>r. (i, ps, r)) (filter (accepts on ps) rs)"

lemma foldE_match:
  "\<forall>r \<in> set rs. defined on ps r \<Longrightarrow> foldE (match on ps i) rs st = Inr (absorb (hits on i ps rs) st)"
  by (induction rs arbitrary: st) (auto simp: match_defined hits_def absorb_append)

lemma foldE_match_total:
  "foldE (match on ps i) rs st = Inr st' \<Longrightarrow> \<forall>r \<in> set rs. defined on ps r"
  by (induction rs arbitrary: st) (auto dest: match_total)

lemma nested_loop_collects:
  "\<forall>(i, ps) \<in> set ls. \<forall>r \<in> set rs. defined on ps r \<Longrightarrow>
   nested_loop on ls rs st = Inr (absorb (concat (map (\<lambda>(i, ps). hits on i ps rs) ls)) st)"
  unfolding nested_loop_def
  by (induction ls arbitrary: st) (auto simp: foldE_match absorb_append)

lemma nested_loop_total:
  assumes "nested_loop on ls rs st = Inr st'"
  shows "\<forall>(i, ps) \<in> set ls. \<forall>r \<in> set rs. defined on ps r"
  using assms unfolding nested_loop_def
proof (induction ls arbitrary: st)
  case Nil
  then show ?case by simp
next
  case (Cons l ls)
  obtain i ps where l: "l = (i, ps)" by (cases l)
  from Cons.prems obtain u where u: "foldE (match on ps i) rs st = Inr u"
    and rest: "foldE (\<lambda>(i, ps). foldE (match on ps i) rs) ls u = Inr st'"
    by (auto simp: l)
  show ?case using foldE_match_total[OF u] Cons.IH[OF rest] by (simp add: l)
qed

section \<open>The hash join\<close>

definition rkey :: "nat \<Rightarrow> int \<times> row \<Rightarrow> val" where
  "rkey nidx r = snd r ! nidx"

text \<open>\<open>keys_agree\<close>: the keys are there, and accepted rows have equal ones.\<close>

definition keys_agree :: "closure \<Rightarrow> closure \<Rightarrow> (parts \<Rightarrow> val) \<Rightarrow> nat \<Rightarrow> (nat \<times> parts) list \<Rightarrow> (int \<times> row) list \<Rightarrow> bool" where
  "keys_agree on acc lkey nidx ls rs \<longleftrightarrow>
     (\<forall>(i, ps) \<in> set ls. acc ps None = Inr (lkey ps)) \<and>
     (\<forall>r \<in> set rs. nidx < length (snd r)) \<and>
     (\<forall>(i, ps) \<in> set ls. \<forall>r \<in> set rs.
        accepts on ps r \<longrightarrow> lkey ps \<noteq> VNull \<and> rkey nidx r \<noteq> VNull \<and> py_eq (rkey nidx r) (lkey ps))"

definition keyed :: "closure \<Rightarrow> closure \<Rightarrow> (parts \<Rightarrow> val) \<Rightarrow> nat \<Rightarrow> (nat \<times> parts) list \<Rightarrow> (int \<times> row) list \<Rightarrow> bool" where
  "keyed on acc lkey nidx ls rs \<longleftrightarrow>
     keys_agree on acc lkey nidx ls rs \<and> (\<forall>(i, ps) \<in> set ls. \<forall>r \<in> set rs. defined on ps r)"

lemma build_right_fold:
  assumes "\<forall>r \<in> set rs. nidx < length (snd r)"
  shows "foldE (\<lambda>r t. bindE (nth_err (snd r) nidx) (\<lambda>k. Inr (if k = VNull then t else tbl_add py_eq k r t))) rs t =
    Inr (fold (\<lambda>(k, r). tbl_add py_eq k r) (map (\<lambda>r. (rkey nidx r, r)) (filter (\<lambda>r. rkey nidx r \<noteq> VNull) rs)) t)"
  using assms by (induction rs arbitrary: t) (auto simp: nth_err_def rkey_def)

lemma bucket_right:
  "map snd (filter (\<lambda>(k', x). py_eq k' k) (map (\<lambda>r. (rkey nidx r, r)) (filter (\<lambda>r. rkey nidx r \<noteq> VNull) rs))) =
   filter (\<lambda>r. rkey nidx r \<noteq> VNull \<and> py_eq (rkey nidx r) k) rs"
  by (induction rs) auto

lemma hash_right_collects:
  assumes "keyed on acc lkey nidx ls rs"
  shows "hash_right on acc nidx ls rs st = Inr (absorb (concat (map (\<lambda>(i, ps). hits on i ps rs) ls)) st)"
proof -
  define t where "t = fold (\<lambda>(k, r). tbl_add py_eq k r)
    (map (\<lambda>r. (rkey nidx r, r)) (filter (\<lambda>r. rkey nidx r \<noteq> VNull) rs)) []"
  have build: "build_right nidx rs = Inr t"
    using assms unfolding build_right_def t_def keyed_def keys_agree_def by (intro build_right_fold) simp
  have get: "tbl_get py_eq k t = filter (\<lambda>r. rkey nidx r \<noteq> VNull \<and> py_eq (rkey nidx r) k) rs" for k
    unfolding t_def vals.get_fold bucket_right by simp
  have one: "bindE (acc ps None) (\<lambda>lk. if lk = VNull then Inr s else foldE (match on ps i) (tbl_get py_eq lk t) s) =
      Inr (absorb (hits on i ps rs) s)" if "(i, ps) \<in> set ls" for i ps s
  proof -
    have acc: "acc ps None = Inr (lkey ps)" and def: "\<forall>r \<in> set rs. defined on ps r" and
      key: "\<And>r. r \<in> set rs \<Longrightarrow> accepts on ps r \<Longrightarrow> lkey ps \<noteq> VNull \<and> rkey nidx r \<noteq> VNull \<and> py_eq (rkey nidx r) (lkey ps)"
      using assms that unfolding keyed_def keys_agree_def by fastforce+
    show ?thesis
    proof (cases "lkey ps = VNull")
      case True
      then have "hits on i ps rs = []" using key by (auto simp: hits_def filter_empty_conv)
      then show ?thesis using acc True by simp
    next
      case False
      have "hits on i ps (tbl_get py_eq (lkey ps) t) = hits on i ps rs"
        unfolding hits_def get using key by (auto intro!: arg_cong[where f = "map _"] filter_cong)
      moreover have "foldE (match on ps i) (tbl_get py_eq (lkey ps) t) s = Inr (absorb (hits on i ps (tbl_get py_eq (lkey ps) t)) s)"
        using def by (intro foldE_match) (simp add: get)
      ultimately show ?thesis using acc False by simp
    qed
  qed
  have "foldE (\<lambda>(i, ps) s. bindE (acc ps None) (\<lambda>lk.
       if lk = VNull then Inr s else foldE (match on ps i) (tbl_get py_eq lk t) s)) ls' s =
      Inr (absorb (concat (map (\<lambda>(i, ps). hits on i ps rs) ls')) s)" if "set ls' \<subseteq> set ls" for ls' s
    using that by (induction ls' arbitrary: s) (auto simp: one absorb_append)
  then show ?thesis unfolding hash_right_def build by simp
qed

text \<open>Built on the left, the same pairs come out grouped by the right row.\<close>

definition hits_by_right :: "closure \<Rightarrow> (nat \<times> parts) list \<Rightarrow> int \<times> row \<Rightarrow> pair list" where
  "hits_by_right on ls r = map (\<lambda>(i, ps). (i, ps, r)) (filter (\<lambda>(i, ps). accepts on ps r) ls)"

lemma build_left_fold:
  assumes "\<forall>(i, ps) \<in> set ls. acc ps None = Inr (lkey ps)"
  shows "foldE (\<lambda>(i, ps) t. bindE (acc ps None) (\<lambda>lk. Inr (if lk = VNull then t else tbl_add py_eq lk (i, ps) t))) ls t =
    Inr (fold (\<lambda>(k, l). tbl_add py_eq k l) (map (\<lambda>l. (lkey (snd l), l)) (filter (\<lambda>l. lkey (snd l) \<noteq> VNull) ls)) t)"
  using assms by (induction ls arbitrary: t) auto

lemma bucket_left:
  "map snd (filter (\<lambda>(k', x). py_eq k' k) (map (\<lambda>l. (lkey (snd l), l)) (filter (\<lambda>l. lkey (snd l) \<noteq> VNull) ls))) =
   filter (\<lambda>l. lkey (snd l) \<noteq> VNull \<and> py_eq (lkey (snd l)) k) ls"
  by (induction ls) auto

lemma foldE_match_left:
  "\<forall>(i, ps) \<in> set ls. defined on ps r \<Longrightarrow>
   foldE (\<lambda>(i, ps). match on ps i r) ls s = Inr (absorb (hits_by_right on ls r) s)"
  by (induction ls arbitrary: s) (auto simp: match_defined hits_by_right_def absorb_append)

lemma hash_left_collects:
  assumes "keyed on acc lkey nidx ls rs"
  shows "hash_left on acc nidx ls rs st = Inr (absorb (concat (map (hits_by_right on ls) rs)) st)"
proof -
  define t where "t = fold (\<lambda>(k, l). tbl_add py_eq k l)
    (map (\<lambda>l. (lkey (snd l), l)) (filter (\<lambda>l. lkey (snd l) \<noteq> VNull) ls)) []"
  have build: "build_left acc ls = Inr t"
    using assms unfolding build_left_def t_def keyed_def keys_agree_def by (intro build_left_fold) simp
  have get: "tbl_get py_eq k t = filter (\<lambda>l. lkey (snd l) \<noteq> VNull \<and> py_eq (lkey (snd l)) k) ls" for k
    unfolding t_def vals.get_fold bucket_left by simp
  have one: "bindE (nth_err (snd r) nidx) (\<lambda>rk. if rk = VNull then Inr s
        else foldE (\<lambda>(i, ps). match on ps i r) (tbl_get py_eq rk t) s) =
      Inr (absorb (hits_by_right on ls r) s)" if "r \<in> set rs" for r s
  proof -
    have acc: "nth_err (snd r) nidx = Inr (rkey nidx r)" and def: "\<forall>(i, ps) \<in> set ls. defined on ps r" and
      key: "\<And>i ps. (i, ps) \<in> set ls \<Longrightarrow> accepts on ps r \<Longrightarrow>
        lkey ps \<noteq> VNull \<and> rkey nidx r \<noteq> VNull \<and> py_eq (lkey ps) (rkey nidx r)"
      using assms that py_eq_sym unfolding keyed_def keys_agree_def by (fastforce simp: nth_err_def rkey_def)+
    show ?thesis
    proof (cases "rkey nidx r = VNull")
      case True
      then have "hits_by_right on ls r = []" using key by (auto simp: hits_by_right_def filter_empty_conv)
      then show ?thesis using acc True by simp
    next
      case False
      have "hits_by_right on (tbl_get py_eq (rkey nidx r) t) r = hits_by_right on ls r"
        unfolding hits_by_right_def get using key by (auto intro!: arg_cong[where f = "map _"] filter_cong)
      moreover have "foldE (\<lambda>(i, ps). match on ps i r) (tbl_get py_eq (rkey nidx r) t) s =
          Inr (absorb (hits_by_right on (tbl_get py_eq (rkey nidx r) t) r) s)"
        using def by (intro foldE_match_left) (auto simp: get)
      ultimately show ?thesis using acc False by simp
    qed
  qed
  have "foldE (\<lambda>r s. bindE (nth_err (snd r) nidx) (\<lambda>rk. if rk = VNull then Inr s
       else foldE (\<lambda>(i, ps). match on ps i r) (tbl_get py_eq rk t) s)) rs' s =
      Inr (absorb (concat (map (hits_by_right on ls) rs')) s)" if "set rs' \<subseteq> set rs" for rs' s
    using that by (induction rs' arbitrary: s) (auto simp: one absorb_append)
  then show ?thesis unfolding hash_left_def build by simp
qed

lemma hits_by_right_Cons:
  "mset (concat (map (hits_by_right on ((i, ps) # ls)) rs)) =
   mset (hits on i ps rs) + mset (concat (map (hits_by_right on ls) rs))"
  by (induction rs) (auto simp: hits_by_right_def hits_def)

lemma hits_swap:
  "mset (concat (map (hits_by_right on ls) rs)) = mset (concat (map (\<lambda>(i, ps). hits on i ps rs) ls))"
proof (induction ls)
  case Nil
  show ?case by (induction rs) (simp_all add: hits_by_right_def)
next
  case (Cons l ls)
  obtain i ps where "l = (i, ps)" by (cases l)
  then show ?case using Cons hits_by_right_Cons[of on i ps ls rs] by simp
qed

lemma absorb_mset:
  assumes "mset hs = mset hs'"
  shows "j_left (absorb hs st) = j_left (absorb hs' st)" "j_right (absorb hs st) = j_right (absorb hs' st)"
    "mset (j_out (absorb hs st)) = mset (j_out (absorb hs' st))"
  using mset_eq_setD[OF assms] assms by (simp_all add: absorb_def)

section \<open>The columns of an equi join\<close>

definition row_ok :: "string \<times> table_meta \<Rightarrow> row option \<Rightarrow> bool" where
  "row_ok src part = (case part of None \<Rightarrow> True | Some r \<Rightarrow> length r = length (columns (snd src)))"

definition parts_ok :: "tabs \<Rightarrow> parts \<Rightarrow> bool" where
  "parts_ok srcs ps = list_all2 row_ok srcs ps"

lemma column_index_Inr: "nm \<in> set (colnames m) \<Longrightarrow> \<exists>j < length (columns m). column_index m nm = Inr j"
  unfolding column_index_def
  by (cases "first_index (\<lambda>c. c = nm) (colnames m)")
    (auto simp: first_index_None colnames_def dest: first_index_Some)

lemma column_index_Inl: "nm \<notin> set (colnames m) \<Longrightarrow> column_index m nm = Inl CatalogError"
  unfolding column_index_def
  by (cases "first_index (\<lambda>c. c = nm) (colnames m)")
    (auto dest!: first_index_Some simp: in_set_conv_nth)

lemma hits_from_none:
  "filter (\<lambda>(a, m). nm \<in> set (colnames m)) srcs = [] \<Longrightarrow> hits_from i nm srcs = []"
  by (induction srcs arbitrary: i) (auto simp: column_index_Inl split: if_splits)

lemma hits_from_one:
  assumes "map fst (filter (\<lambda>(a, m). nm \<in> set (colnames m)) srcs) = [al]"
  shows "\<exists>k < length srcs. fst (srcs ! k) = al \<and> nm \<in> set (colnames (snd (srcs ! k))) \<and>
    (\<forall>j. column_index (snd (srcs ! k)) nm = Inr j \<longrightarrow> hits_from i nm srcs = [(i + k, j)])"
  using assms
proof (induction srcs arbitrary: i)
  case Nil
  then show ?case by simp
next
  case (Cons s srcs)
  obtain a m where s: "s = (a, m)" by (cases s)
  show ?case
  proof (cases "nm \<in> set (colnames m)")
    case True
    then have "a = al" "filter (\<lambda>(a, m). nm \<in> set (colnames m)) srcs = []" using Cons.prems by (simp_all add: s)
    then show ?thesis using True hits_from_none by (intro exI[of _ 0]) (auto simp: s)
  next
    case False
    then obtain k where "k < length srcs" "fst (srcs ! k) = al" "nm \<in> set (colnames (snd (srcs ! k)))"
      "\<forall>j. column_index (snd (srcs ! k)) nm = Inr j \<longrightarrow> hits_from (Suc i) nm srcs = [(Suc i + k, j)]"
      using Cons.IH[of "Suc i"] Cons.prems by (auto simp: s)
    then show ?thesis using False by (intro exI[of _ "Suc k"]) (auto simp: s column_index_Inl)
  qed
qed

lemma first_index_alias:
  assumes "distinct (map fst srcs)" and "k < length srcs"
  shows "first_index (\<lambda>s. fst s = fst (srcs ! k)) srcs = Some k"
proof (cases "first_index (\<lambda>s. fst s = fst (srcs ! k)) srcs")
  case None
  then show ?thesis using assms(2) by (auto simp: first_index_None)
next
  case (Some j)
  then have "j < length srcs" "fst (srcs ! j) = fst (srcs ! k)" using first_index_Some by fastforce+
  then show ?thesis using assms Some nth_eq_iff_index_eq[of "map fst srcs" j k] by simp
qed

lemma resolve_qualified:
  assumes "distinct (map fst (sources sc))" and "k < length (sources sc)"
    and "column_index (snd (sources sc ! k)) nm = Inr j" and "nm \<in> set (colnames (snd (sources sc ! k)))"
  shows "resolve sc nm (Some (fst (sources sc ! k))) = Inr (k, j)"
  using assms first_index_alias[OF assms(1,2)] by (simp add: resolve_def)

text \<open>The planner's owner of a column is where the executor resolves it.\<close>

lemma owner_resolve:
  assumes srcs: "sources sc = known @ [(ral, rmeta)]" and dist: "distinct (map fst (sources sc))"
    and own: "owner known ral rmeta nm tab = Some al"
  shows "\<exists>k j. k < length (sources sc) \<and> fst (sources sc ! k) = al \<and> j < length (columns (snd (sources sc ! k))) \<and>
    column_index (snd (sources sc ! k)) nm = Inr j \<and>
    resolve sc nm tab = Inr (k, j) \<and> resolve sc nm (Some al) = Inr (k, j)"
proof -
  have goal: ?thesis if k: "k < length (sources sc)" "fst (sources sc ! k) = al" "nm \<in> set (colnames (snd (sources sc ! k)))"
    and res: "\<And>j. column_index (snd (sources sc ! k)) nm = Inr j \<Longrightarrow> resolve sc nm tab = Inr (k, j)" for k
  proof -
    obtain j where j: "j < length (columns (snd (sources sc ! k)))" "column_index (snd (sources sc ! k)) nm = Inr j"
      using column_index_Inr[OF k(3)] by blast
    then show ?thesis using k res[OF j(2)] resolve_qualified[OF dist k(1) j(2) k(3)] by blast
  qed
  show ?thesis
  proof (cases tab)
    case None
    then have "map fst (filter (\<lambda>(a, m). nm \<in> set (colnames m)) (sources sc)) = [al]"
      using own unfolding srcs owner_def by (auto split: list.splits)
    from hits_from_one[OF this, of 0] obtain k where k: "k < length (sources sc)" "fst (sources sc ! k) = al"
      "nm \<in> set (colnames (snd (sources sc ! k)))"
      and h: "\<forall>j. column_index (snd (sources sc ! k)) nm = Inr j \<longrightarrow> hits_from 0 nm (sources sc) = [(0 + k, j)]"
      by blast
    show ?thesis by (rule goal[OF k]) (use h None in \<open>simp add: resolve_def\<close>)
  next
    case (Some t)
    then have t: "t = al" using own by (auto simp: owner_def split: if_splits option.splits)
    have "\<exists>m. (t, m) \<in> set (sources sc) \<and> nm \<in> set (colnames m)"
      using own Some by (auto simp: owner_def srcs split: if_splits option.splits dest: map_of_SomeD)
    then obtain k where k: "k < length (sources sc)" "fst (sources sc ! k) = t" "nm \<in> set (colnames (snd (sources sc ! k)))"
      unfolding in_set_conv_nth[of _ "sources sc"] by auto
    show ?thesis
      by (rule goal[OF k(1) _ k(3)]) (use k t Some resolve_qualified[OF dist k(1) _ k(3)] in simp_all)
  qed
qed

lemma equi_of_Some:
  assumes "equi_of known ral rmeta c = Some (acc, new)"
  shows "\<exists>ln lt rn rt al. c = BinOp B_eq (Column ln lt) (Column rn rt) \<and> al \<noteq> ral \<and>
    (owner known ral rmeta ln lt = Some al \<and> owner known ral rmeta rn rt = Some ral \<and> acc = Column ln (Some al) \<and> new = rn \<or>
     owner known ral rmeta ln lt = Some ral \<and> owner known ral rmeta rn rt = Some al \<and> acc = Column rn (Some al) \<and> new = ln)"
  using assms by (auto simp: equi_of_def split: expr.splits binop.splits option.splits if_splits)

lemma find_join_equi_Some:
  "find_join_equi cs known ral rmeta = Some e \<Longrightarrow> \<exists>c \<in> set cs. equi_of known ral rmeta c = Some e"
  by (induction cs) (auto split: option.splits)

text \<open>A conjunction that holds has conjuncts that hold.\<close>

lemma conjunct_true:
  assumes "compile_expr low sc als ag e = Inr f" and "f ps env = Inr v" "v \<noteq> VNull" "truthy v"
    and "c \<in> set (flatten_and e)"
  shows "\<exists>g w. compile_expr low sc als ag c = Inr g \<and> g ps env = Inr w \<and> w \<noteq> VNull \<and> truthy w"
  using assms
proof (induction e arbitrary: f v rule: flatten_and.induct)
  case (1 g l r)
  show ?case
  proof (cases "g = B_and")
    case True
    then obtain lf rf where lf: "compile_expr low sc als ag l = Inr lf" and rf: "compile_expr low sc als ag r = Inr rf"
      and f: "f = and_fn lf rf" using "1.prems"(1) by auto
    then obtain a b where a: "lf ps env = Inr a" "a \<noteq> VNull" "truthy a" and b: "rf ps env = Inr b" "b \<noteq> VNull" "truthy b"
      using "1.prems"(2-4) by (auto simp: and_fn_def split: if_splits)
    have "c \<in> set (flatten_and l) \<or> c \<in> set (flatten_and r)" using "1.prems"(5) True by simp
    then show ?thesis using "1.IH"(1)[OF True lf a] "1.IH"(2)[OF True rf b] by blast
  next
    case False
    then have "c = BinOp g l r" using "1.prems"(5) by simp
    then show ?thesis using "1.prems"(1-4) by blast
  qed
qed (simp_all only: flatten_and.simps list.set, blast+)

lemma eq_conjunct:
  assumes "compile_expr low sc als ag (BinOp B_eq l r) = Inr g" and "g ps env = Inr w" "w \<noteq> VNull" "truthy w"
  shows "\<exists>lf rf a b. compile_expr low sc als ag l = Inr lf \<and> compile_expr low sc als ag r = Inr rf \<and>
    lf ps env = Inr a \<and> rf ps env = Inr b \<and> a \<noteq> VNull \<and> b \<noteq> VNull \<and> py_eq a b"
  using assms by (auto simp: binary_val_def sql_eq_py_eq split: if_splits)

section \<open>The join\<close>

lemma read_part_ok:
  assumes "parts_ok srcs ps" "k < length srcs" "j < length (columns (snd (srcs ! k)))"
  shows "read_part ps k j = Inr (case ps ! k of None \<Rightarrow> VNull | Some r \<Rightarrow> r ! j)"
proof -
  have "row_ok (srcs ! k) (ps ! k)" "k < length ps"
    using assms(1,2) by (auto simp: parts_ok_def list_all2_conv_all_nth)
  then show ?thesis using assms(3)
    by (auto simp: read_part_def nth_err_def row_ok_def split: option.splits)
qed

lemma equi_keys:
  assumes srcs: "sources sc = known @ [(ral, rmeta)]" and dist: "distinct (map fst (sources sc))"
    and ls: "\<forall>(i, ps) \<in> set ls. parts_ok known ps" and rs: "\<forall>r \<in> set rs. length (snd r) = length (columns rmeta)"
    and on: "compile_expr low sc [] False on = Inr f"
    and equi: "find_join_equi (flatten_and on) known ral rmeta = Some (acc, new)"
  shows "\<exists>g lkey nidx. compile_expr low sc [] False acc = Inr g \<and> column_index rmeta new = Inr nidx \<and>
    keys_agree f g lkey nidx ls rs"
proof -
  obtain c where c: "c \<in> set (flatten_and on)" and eq: "equi_of known ral rmeta c = Some (acc, new)"
    using find_join_equi_Some[OF equi] by blast
  obtain an at bn bt al where c': "c = BinOp B_eq (Column an at) (Column bn bt) \<or> c = BinOp B_eq (Column bn bt) (Column an at)"
    and al: "al \<noteq> ral" and own: "owner known ral rmeta an at = Some al" "owner known ral rmeta bn bt = Some ral"
    and acc: "acc = Column an (Some al)" and new: "new = bn"
    using equi_of_Some[OF eq] by blast
  obtain k j where k: "k < length (sources sc)" "fst (sources sc ! k) = al" "j < length (columns (snd (sources sc ! k)))"
    and res: "resolve sc an at = Inr (k, j)" "resolve sc an (Some al) = Inr (k, j)"
    using owner_resolve[OF srcs dist own(1)] by blast
  obtain k' nidx where k': "k' < length (sources sc)" "fst (sources sc ! k') = ral"
    "nidx < length (columns (snd (sources sc ! k')))" "column_index (snd (sources sc ! k')) bn = Inr nidx"
    and res': "resolve sc bn bt = Inr (k', nidx)"
    using owner_resolve[OF srcs dist own(2)] by blast
  have "k' = length known"
    using k'(1,2) dist by (auto simp: srcs nth_append split: if_splits)
  then have m: "sources sc ! k' = (ral, rmeta)" by (simp add: srcs)
  have kk: "k < length known" "sources sc ! k = known ! k"
    using k(1,2) al by (auto simp: srcs nth_append split: if_splits)
  define lkey where "lkey ps = (case ps ! k of None \<Rightarrow> VNull | Some r \<Rightarrow> r ! j)" for ps :: parts
  have rd: "read_part ps k j = Inr (lkey ps)" if "parts_ok known ps" for ps
    using read_part_ok[OF that kk(1)] k(3) kk(2) by (simp add: lkey_def)
  have rdx: "read_part (ps @ [Some (snd r)]) k j = Inr (lkey ps)"
    and rdy: "read_part (ps @ [Some (snd r)]) k' nidx = Inr (rkey nidx r)"
    if "parts_ok known ps" "r \<in> set rs" for ps r
  proof -
    have len: "length ps = length known" using that(1) by (simp add: parts_ok_def list_all2_lengthD)
    then show "read_part (ps @ [Some (snd r)]) k j = Inr (lkey ps)"
      using rd[OF that(1)] kk(1) by (simp add: read_part_def nth_err_def nth_append)
    show "read_part (ps @ [Some (snd r)]) k' nidx = Inr (rkey nidx r)"
      using len \<open>k' = length known\<close> k'(3) m rs that(2) by (simp add: read_part_def nth_err_def rkey_def nth_append)
  qed
  have acc_fn: "compile_expr low sc [] False acc = Inr (\<lambda>ps env. read_part ps k j)"
    using res(2) by (simp add: acc)
  have "keys_agree f (\<lambda>ps env. read_part ps k j) lkey nidx ls rs"
    unfolding keys_agree_def
  proof (intro conjI ballI, goal_cases)
    case (1 l)
    then show ?case using ls rd by auto
  next
    case (2 r)
    then show ?case using rs k'(3) m by simp
  next
    case (3 l)
    obtain i ps where l: "l = (i, ps)" by (cases l)
    have pok: "parts_ok known ps" using ls 3 l by auto
    have "lkey ps \<noteq> VNull \<and> rkey nidx r \<noteq> VNull \<and> py_eq (rkey nidx r) (lkey ps)"
      if r: "r \<in> set rs" and a: "accepts f ps r" for r
    proof -
      obtain g w where g: "compile_expr low sc [] False c = Inr g" "g (ps @ [Some (snd r)]) None = Inr w" "w \<noteq> VNull" "truthy w"
        using conjunct_true[OF on a[unfolded accepts_def] _ _ c] by auto
      show ?thesis using c'
      proof
        assume c1: "c = BinOp B_eq (Column an at) (Column bn bt)"
        show ?thesis using eq_conjunct[OF g(1)[unfolded c1] g(2-4)] res(1) res' rdx[OF pok r] rdy[OF pok r]
          by (auto simp: py_eq_sym)
      next
        assume c1: "c = BinOp B_eq (Column bn bt) (Column an at)"
        show ?thesis using eq_conjunct[OF g(1)[unfolded c1] g(2-4)] res(1) res' rdx[OF pok r] rdy[OF pok r]
          by auto
      qed
    qed
    then show ?case using 3 l by auto
  qed
  then show ?thesis using acc_fn k'(4) m new by auto
qed

text \<open>C11. A hash join returns the rows of the nested loop join: whatever the join type, when the
  nested loop over well-formed rows returns, the join through the dict on the columns the planner
  found returns the same rows, in the same order when the dict is built on the right.\<close>

theorem hash_join_is_nested_loop:
  assumes srcs: "sources sc = known @ [(j_alias ji, j_meta ji)]" and dist: "distinct (map fst (sources sc))"
    and ls: "\<forall>ps \<in> set lefts. parts_ok known ps"
    and rs: "db_scan db (j_meta ji) = Inr rs" "\<forall>r \<in> set rs. length (snd r) = length (columns (j_meta ji))"
    and equi: "j_equi ji = find_join_equi (flatten_and (j_on ji)) known (j_alias ji) (j_meta ji)"
    and nl: "exec_join low db lefts (ji\<lparr>j_hash := False\<rparr>) sc = Inr out"
  shows "\<exists>out'. exec_join low db lefts (ji\<lparr>j_hash := True\<rparr>) sc = Inr out' \<and> mset out' = mset out \<and>
    (j_build_right ji \<longrightarrow> out' = out)"
proof (cases "j_equi ji")
  case None
  then have "exec_join low db lefts (ji\<lparr>j_hash := True\<rparr>) sc = exec_join low db lefts (ji\<lparr>j_hash := False\<rparr>) sc"
    by (simp add: exec_join_def)
  then show ?thesis using nl by simp
next
  case (Some e)
  obtain acc new where e: "e = (acc, new)" by (cases e)
  let ?st = "\<lparr>j_out = [], j_left = {}, j_right = {}\<rparr>"
  let ?ls = "zip [0..<length lefts] lefts"
  obtain f where f: "compile_expr low sc [] False (j_on ji) = Inr f"
    using nl by (auto simp: exec_join_def Let_def)
  then obtain st where st: "nested_loop f ?ls rs ?st = Inr st"
    and out: "out = pad_rows (j_type ji) (length (sources sc) - 1) ?ls rs st"
    using nl rs(1) by (auto simp: exec_join_def Let_def)
  have def: "\<forall>(i, ps) \<in> set ?ls. \<forall>r \<in> set rs. defined f ps r" by (rule nested_loop_total[OF st])
  have okls: "\<forall>(i, ps) \<in> set ?ls. parts_ok known ps" using ls by (auto dest: set_zip_rightD)
  obtain g lkey nidx where g: "compile_expr low sc [] False acc = Inr g" "column_index (j_meta ji) new = Inr nidx"
    and "keys_agree f g lkey nidx ?ls rs"
    using equi_keys[OF srcs dist okls rs(2) f, of acc new] equi Some e by auto
  then have key: "keyed f g lkey nidx ?ls rs" using def by (simp add: keyed_def)
  let ?hs = "concat (map (\<lambda>(i, ps). hits f i ps rs) ?ls)"
  let ?hs' = "if j_build_right ji then ?hs else concat (map (hits_by_right f ?ls) rs)"
  have st': "st = absorb ?hs ?st" using nested_loop_collects[OF def, of ?st] st by simp
  have "exec_join low db lefts (ji\<lparr>j_hash := True\<rparr>) sc =
      Inr (pad_rows (j_type ji) (length (sources sc) - 1) ?ls rs (absorb ?hs' ?st))"
    using f g rs(1) Some e hash_right_collects[OF key] hash_left_collects[OF key]
    by (simp add: exec_join_def Let_def)
  moreover have "mset ?hs' = mset ?hs" using hits_swap[of f ?ls rs] by simp
  then have "mset (pad_rows jt w ?ls rs (absorb ?hs' ?st)) = mset (pad_rows jt w ?ls rs (absorb ?hs ?st))" for jt w
    using absorb_mset[of ?hs' ?hs ?st] by (simp add: pad_rows_def)
  ultimately show ?thesis using out st' by simp
qed

definition other_meta :: table_meta where
  "other_meta =
     \<lparr>tname = ''u'', columns = [\<lparr>cname = ''k'', ctype = TInt, cpk = True\<rparr>, \<lparr>cname = ''y'', ctype = TText, cpk = False\<rparr>],
      root_page = 2, row_count = 0, next_rowid = 1, indexes = []\<rparr>"

definition sample_db :: db_ops where
  "sample_db =
     \<lparr>db_scan = (\<lambda>m. if m = sample_meta then Inr [(1, [VInt 1, VText [65]]), (2, [VInt 2, VText [66]])]
                     else if m = other_meta then Inr [(2, [VInt 2, VText [67]]), (3, [VInt 3, VText [68]])]
                     else Inr []),
      db_index = (\<lambda>m c v. Inr []),
      db_search = (\<lambda>m k. Inr (if tname m \<noteq> ''t'' then None else if k = 1 then Some [VInt 1, VText [65]]
                             else if k = 2 then Some [VInt 2, VText [66]] else None))\<rparr>"

definition sample_on :: expr where
  "sample_on = BinOp B_and (Literal (VInt 1)) (BinOp B_eq (Column ''k'' None) (Column ''id'' (Some ''t'')))"

definition sample_join :: joininfo where
  "sample_join =
     \<lparr>j_type = J_full, j_alias = ''u'', j_meta = other_meta, j_on = sample_on, j_hash = True,
      j_equi = Some (Column ''id'' (Some ''t''), ''k''), j_build_right = False\<rparr>"

definition join_scope :: scope where
  "join_scope = \<lparr>sources = [(''t'', sample_meta), (''u'', other_meta)], agg_aliases = []\<rparr>"

definition sample_lefts :: "parts list" where
  "sample_lefts = [[Some [VInt 1, VText [65]]], [Some [VInt 2, VText [66]]]]"

lemma sample_nested:
  "exec_join id sample_db sample_lefts (sample_join\<lparr>j_hash := False\<rparr>) join_scope =
     Inr [[Some [VInt 2, VText [66]], Some [VInt 2, VText [67]]], [Some [VInt 1, VText [65]], None],
          [None, Some [VInt 3, VText [68]]]]"
  "j_equi sample_join = find_join_equi (flatten_and (j_on sample_join)) [(''t'', sample_meta)] ''u'' other_meta"
  by code_simp+

theorem hash_join_is_nested_loop_witness:
  "\<exists>out'. exec_join id sample_db sample_lefts (sample_join\<lparr>j_hash := True\<rparr>) join_scope = Inr out' \<and>
    mset out' = mset [[Some [VInt 2, VText [66]], Some [VInt 2, VText [67]]], [Some [VInt 1, VText [65]], None],
      [None, Some [VInt 3, VText [68]]]]"
proof -
  have "\<exists>out'. exec_join id sample_db sample_lefts (sample_join\<lparr>j_hash := True\<rparr>) join_scope = Inr out' \<and>
    mset out' = mset [[Some [VInt 2, VText [66]], Some [VInt 2, VText [67]]], [Some [VInt 1, VText [65]], None],
      [None, Some [VInt 3, VText [68]]]] \<and>
    (j_build_right sample_join \<longrightarrow> out' = [[Some [VInt 2, VText [66]], Some [VInt 2, VText [67]]], [Some [VInt 1, VText [65]], None],
      [None, Some [VInt 3, VText [68]]]])"
    by (rule hash_join_is_nested_loop[where known = "[(''t'', sample_meta)]"
          and rs = "[(2, [VInt 2, VText [67]]), (3, [VInt 3, VText [68]])]"])
      (use sample_nested in \<open>simp_all add: join_scope_def sample_join_def sample_db_def sample_lefts_def
          parts_ok_def row_ok_def sample_meta_def other_meta_def\<close>)
  then show ?thesis by blast
qed

end
