(* ===== verification/JoinSpec.thy ===== *)
theory JoinSpec
  imports JoinProps
begin

text \<open>
  What a join returns, whichever algorithm runs it: the accepted pairs, and for outer joins the
  rows of the preserved side that no pair used, padded with \<open>None\<close>.
\<close>

definition join_spec :: "jointype \<Rightarrow> closure \<Rightarrow> nat \<Rightarrow> parts list \<Rightarrow> (int \<times> row) list \<Rightarrow> parts list" where
  "join_spec jt on width lefts rs =
     concat (map (\<lambda>ps. map (\<lambda>r. ps @ [Some (snd r)]) (filter (accepts on ps) rs)) lefts) @
     (if jt = J_left \<or> jt = J_full
      then map (\<lambda>ps. ps @ [None]) (filter (\<lambda>ps. \<forall>r \<in> set rs. \<not> accepts on ps r) lefts) else []) @
     (if jt = J_right \<or> jt = J_full
      then map (\<lambda>r. replicate width None @ [Some (snd r)]) (filter (\<lambda>r. \<forall>ps \<in> set lefts. \<not> accepts on ps r) rs)
      else [])"

section \<open>The state the loops end in\<close>

abbreviation start :: jstate where
  "start \<equiv> \<lparr>j_out = [], j_left = {}, j_right = {}\<rparr>"

definition all_hits :: "closure \<Rightarrow> (nat \<times> parts) list \<Rightarrow> (int \<times> row) list \<Rightarrow> pair list" where
  "all_hits on ls rs = concat (map (\<lambda>(i, ps). hits on i ps rs) ls)"

lemma foldE_absorb:
  assumes "\<And>x s s'. x \<in> set xs \<Longrightarrow> F x s = Inr s' \<Longrightarrow> s' = absorb (g x) s" and "foldE F xs s = Inr s'"
  shows "s' = absorb (concat (map g xs)) s"
  using assms
proof (induction xs arbitrary: s)
  case Nil
  then show ?case by simp
next
  case (Cons x xs)
  obtain u where u: "F x s = Inr u" and rest: "foldE F xs u = Inr s'" using Cons.prems(2) by auto
  have "u = absorb (g x) s" using Cons.prems(1)[OF _ u] by simp
  moreover have "s' = absorb (concat (map g xs)) u" using Cons.IH[OF _ rest] Cons.prems(1) by simp
  ultimately show ?case by (simp add: absorb_append)
qed

lemma match_result:
  "match on ps i r st = Inr st' \<Longrightarrow> st' = absorb (if accepts on ps r then [(i, ps, r)] else []) st"
  using match_defined[OF match_total, of on ps i r st st'] by simp

lemma foldE_match_result:
  assumes "foldE (match on ps i) rs st = Inr st'"
  shows "st' = absorb (hits on i ps rs) st"
  using foldE_match_total[OF assms] foldE_match[of rs on ps i st] assms by simp

lemma nested_loop_result:
  assumes "nested_loop on ls rs st = Inr st'"
  shows "st' = absorb (all_hits on ls rs) st"
  using nested_loop_total[OF assms] nested_loop_collects[of ls rs on st] assms by (simp add: all_hits_def)

lemma foldE_match_left_result:
  assumes "foldE (\<lambda>(i, ps). match on ps i r) ls s = Inr s'"
  shows "s' = absorb (hits_by_right on ls r) s"
proof -
  have "s' = absorb (concat (map (\<lambda>(i, ps). if accepts on ps r then [(i, ps, r)] else []) ls)) s"
    by (rule foldE_absorb[OF _ assms]) (auto dest: match_result)
  moreover have "concat (map (\<lambda>(i, ps). if accepts on ps r then [(i, ps, r)] else []) ls) = hits_by_right on ls r"
    by (induction ls) (auto simp: hits_by_right_def)
  ultimately show ?thesis by simp
qed

lemma hash_right_result:
  assumes "keys_agree on acc lkey nidx ls rs" and run: "hash_right on acc nidx ls rs st = Inr st'"
  shows "st' = absorb (all_hits on ls rs) st"
proof -
  define t where "t = fold (\<lambda>(k, r). tbl_add py_eq k r)
    (map (\<lambda>r. (rkey nidx r, r)) (filter (\<lambda>r. rkey nidx r \<noteq> VNull) rs)) []"
  have build: "build_right nidx rs = Inr t"
    using assms unfolding build_right_def t_def keys_agree_def by (intro build_right_fold) simp
  have get: "tbl_get py_eq k t = filter (\<lambda>r. rkey nidx r \<noteq> VNull \<and> py_eq (rkey nidx r) k) rs" for k
    unfolding t_def vals.get_fold bucket_right by simp
  have one: "s' = absorb (hits on i ps rs) s"
    if l: "(i, ps) \<in> set ls" and run:
      "bindE (acc ps None) (\<lambda>lk. if lk = VNull then Inr s else foldE (match on ps i) (tbl_get py_eq lk t) s) = Inr s'"
    for i ps s s'
  proof -
    have acc: "acc ps None = Inr (lkey ps)" and
      key: "\<And>r. r \<in> set rs \<Longrightarrow> accepts on ps r \<Longrightarrow> lkey ps \<noteq> VNull \<and> rkey nidx r \<noteq> VNull \<and> py_eq (rkey nidx r) (lkey ps)"
      using assms(1) l unfolding keys_agree_def by fastforce+
    show ?thesis
    proof (cases "lkey ps = VNull")
      case True
      then have "hits on i ps rs = []" using key by (auto simp: hits_def filter_empty_conv)
      then show ?thesis using acc True run by simp
    next
      case False
      have "hits on i ps (tbl_get py_eq (lkey ps) t) = hits on i ps rs"
        unfolding hits_def get using key by (auto intro!: arg_cong[where f = "map _"] filter_cong)
      moreover have "foldE (match on ps i) (tbl_get py_eq (lkey ps) t) s = Inr s'" using acc False run by simp
      ultimately show ?thesis using foldE_match_result by metis
    qed
  qed
  show ?thesis using run unfolding hash_right_def build all_hits_def bindE_simps
    by (rule foldE_absorb[rotated]) (auto dest: one)
qed

lemma hash_left_result:
  assumes "keys_agree on acc lkey nidx ls rs" and run: "hash_left on acc nidx ls rs st = Inr st'"
  shows "st' = absorb (concat (map (hits_by_right on ls) rs)) st"
proof -
  define t where "t = fold (\<lambda>(k, l). tbl_add py_eq k l)
    (map (\<lambda>l. (lkey (snd l), l)) (filter (\<lambda>l. lkey (snd l) \<noteq> VNull) ls)) []"
  have build: "build_left acc ls = Inr t"
    using assms unfolding build_left_def t_def keys_agree_def by (intro build_left_fold) simp
  have get: "tbl_get py_eq k t = filter (\<lambda>l. lkey (snd l) \<noteq> VNull \<and> py_eq (lkey (snd l)) k) ls" for k
    unfolding t_def vals.get_fold bucket_left by simp
  have one: "s' = absorb (hits_by_right on ls r) s"
    if r: "r \<in> set rs" and run: "bindE (nth_err (snd r) nidx) (\<lambda>rk. if rk = VNull then Inr s
        else foldE (\<lambda>(i, ps). match on ps i r) (tbl_get py_eq rk t) s) = Inr s'" for r s s'
  proof -
    have acc: "nth_err (snd r) nidx = Inr (rkey nidx r)" and
      key: "\<And>i ps. (i, ps) \<in> set ls \<Longrightarrow> accepts on ps r \<Longrightarrow>
        lkey ps \<noteq> VNull \<and> rkey nidx r \<noteq> VNull \<and> py_eq (lkey ps) (rkey nidx r)"
      using assms(1) r py_eq_sym unfolding keys_agree_def by (fastforce simp: nth_err_def rkey_def)+
    show ?thesis
    proof (cases "rkey nidx r = VNull")
      case True
      then have "hits_by_right on ls r = []" using key by (auto simp: hits_by_right_def filter_empty_conv)
      then show ?thesis using acc True run by simp
    next
      case False
      have "hits_by_right on (tbl_get py_eq (rkey nidx r) t) r = hits_by_right on ls r"
        unfolding hits_by_right_def get using key by (auto intro!: arg_cong[where f = "map _"] filter_cong)
      moreover have "foldE (\<lambda>(i, ps). match on ps i r) (tbl_get py_eq (rkey nidx r) t) s = Inr s'"
        using acc False run by simp
      ultimately show ?thesis using foldE_match_left_result by metis
    qed
  qed
  show ?thesis using run unfolding hash_left_def build bindE_simps
    by (rule foldE_absorb[rotated]) (auto dest: one)
qed

section \<open>The rows of the result\<close>

lemma all_hits_rows:
  "map (\<lambda>(i, ps, rid, rw). ps @ [Some rw]) (all_hits on ls rs) =
   concat (map (\<lambda>ps. map (\<lambda>r. ps @ [Some (snd r)]) (filter (accepts on ps) rs)) (map snd ls))"
  by (induction ls) (auto simp: all_hits_def hits_def)

lemma set_all_hits:
  "(i, ps, r) \<in> set (all_hits on ls rs) \<longleftrightarrow> (i, ps) \<in> set ls \<and> r \<in> set rs \<and> accepts on ps r"
  by (auto simp: all_hits_def hits_def)

lemma used_left:
  assumes "distinct (map fst ls)" and l: "(i, ps) \<in> set ls"
  shows "i \<in> fst ` set (all_hits on ls rs) \<longleftrightarrow> (\<exists>r \<in> set rs. accepts on ps r)"
proof
  assume "i \<in> fst ` set (all_hits on ls rs)"
  then obtain ps' r where h: "(i, ps', r) \<in> set (all_hits on ls rs)" by auto
  then have "ps' = ps" using eq_key_imp_eq_value[OF assms(1) _ l] by (simp add: set_all_hits)
  then show "\<exists>r \<in> set rs. accepts on ps r" using h by (auto simp: set_all_hits)
next
  assume "\<exists>r \<in> set rs. accepts on ps r"
  then obtain r where "(i, ps, r) \<in> set (all_hits on ls rs)" using l by (auto simp: set_all_hits)
  then show "i \<in> fst ` set (all_hits on ls rs)" by force
qed

lemma used_right:
  assumes "distinct (map fst rs)" and r: "r \<in> set rs"
  shows "fst r \<in> (\<lambda>(i, ps, rid, rw). rid) ` set (all_hits on ls rs) \<longleftrightarrow> (\<exists>ps \<in> snd ` set ls. accepts on ps r)"
proof
  assume "fst r \<in> (\<lambda>(i, ps, rid, rw). rid) ` set (all_hits on ls rs)"
  then obtain i ps rw where h: "(i, ps, fst r, rw) \<in> set (all_hits on ls rs)" by auto
  then have "rw = snd r" using eq_key_imp_eq_value[OF assms(1), of "fst r" rw "snd r"] r by (simp add: set_all_hits)
  then show "\<exists>ps \<in> snd ` set ls. accepts on ps r" using h by (force simp: set_all_hits)
next
  assume "\<exists>ps \<in> snd ` set ls. accepts on ps r"
  then obtain i ps where "(i, ps, r) \<in> set (all_hits on ls rs)" using r by (auto simp: set_all_hits)
  then show "fst r \<in> (\<lambda>(i, ps, rid, rw). rid) ` set (all_hits on ls rs)" by (cases r) force
qed

lemma filter_pairs:
  "\<forall>(i, ps) \<in> set ls. P i = Q ps \<Longrightarrow>
   map (\<lambda>(i, ps). ps @ [None]) (filter (\<lambda>(i, ps). P i) ls) = map (\<lambda>ps. ps @ [None]) (filter Q (map snd ls))"
  by (induction ls) auto

lemma pad_rows_spec:
  assumes "distinct (map fst ls)" and "distinct (map fst rs)"
  shows "pad_rows jt w ls rs (absorb (all_hits on ls rs) start) = join_spec jt on w (map snd ls) rs"
proof -
  have "\<forall>(i, ps) \<in> set ls. (i \<notin> fst ` set (all_hits on ls rs)) = (\<forall>r \<in> set rs. \<not> accepts on ps r)"
    using used_left[OF assms(1)] by blast
  note left = filter_pairs[OF this]
  have "filter (\<lambda>r. fst r \<notin> (\<lambda>(i, ps, rid, rw). rid) ` set (all_hits on ls rs)) rs =
      filter (\<lambda>r. \<forall>ps \<in> snd ` set ls. \<not> accepts on ps r) rs"
    by (rule filter_cong[OF refl]) (use used_right[OF assms(2)] in blast)
  then show ?thesis
    using left all_hits_rows[of on ls rs]
    by (simp add: pad_rows_def join_spec_def absorb_def)
qed

section \<open>The join\<close>

text \<open>C10. What a join returns, for every join type and whichever algorithm the planner chose: when
  it returns, its rows are the pairs that \<open>ON\<close> accepts and, for outer joins, each row of a
  preserved side that no pair used, once, padded with NULLs.\<close>

theorem exec_join_spec:
  assumes srcs: "sources sc = known @ [(j_alias ji, j_meta ji)]" and dist: "distinct (map fst (sources sc))"
    and ls: "\<forall>ps \<in> set lefts. parts_ok known ps"
    and rs: "db_scan db (j_meta ji) = Inr rs" "\<forall>r \<in> set rs. length (snd r) = length (columns (j_meta ji))"
      "distinct (map fst rs)"
    and equi: "j_hash ji \<longrightarrow> j_equi ji = find_join_equi (flatten_and (j_on ji)) known (j_alias ji) (j_meta ji)"
    and run: "exec_join low db lefts ji sc = Inr out"
  shows "\<exists>f. compile_expr low sc [] False (j_on ji) = Inr f \<and>
    mset out = mset (join_spec (j_type ji) f (length known) lefts rs)"
proof -
  let ?ls = "zip [0..<length lefts] lefts"
  obtain f where f: "compile_expr low sc [] False (j_on ji) = Inr f"
    using run by (auto simp: exec_join_def Let_def)
  have w: "length (sources sc) - 1 = length known" by (simp add: srcs)
  have spec: "pad_rows jt (length known) ?ls rs (absorb (all_hits f ?ls rs) start) = join_spec jt f (length known) lefts rs" for jt
    using pad_rows_spec[of ?ls rs jt "length known" f] rs(3) by simp
  show ?thesis
  proof (cases "\<exists>e. j_hash ji \<and> j_equi ji = Some e")
    case False
    then have "(case (j_hash ji, j_equi ji) of (True, Some (acc, new)) \<Rightarrow> h acc new | _ \<Rightarrow> d) = d" for h :: "expr \<Rightarrow> string \<Rightarrow> jstate res" and d
      by (auto split: bool.splits option.splits)
    then obtain st where "nested_loop f ?ls rs start = Inr st" and out: "out = pad_rows (j_type ji) (length known) ?ls rs st"
      using run f rs(1) w by (auto simp: exec_join_def Let_def)
    then show ?thesis using nested_loop_result[of f ?ls rs start st] spec f by simp
  next
    case True
    then obtain acc new where e: "j_hash ji" "j_equi ji = Some (acc, new)" by auto
    have okls: "\<forall>(i, ps) \<in> set ?ls. parts_ok known ps" using ls by (auto dest: set_zip_rightD)
    obtain g lkey nidx where g: "compile_expr low sc [] False acc = Inr g" "column_index (j_meta ji) new = Inr nidx"
      and key: "keys_agree f g lkey nidx ?ls rs"
      using equi_keys[OF srcs dist okls rs(2) f, of acc new] equi e by auto
    obtain st where st: "(if j_build_right ji then hash_right f g nidx ?ls rs start else hash_left f g nidx ?ls rs start) = Inr st"
      and out: "out = pad_rows (j_type ji) (length known) ?ls rs st"
      using run f g rs(1) w e by (auto simp: exec_join_def Let_def)
    obtain hs where hs: "st = absorb hs start" "mset hs = mset (all_hits f ?ls rs)"
    proof (cases "j_build_right ji")
      case True
      then show ?thesis using that[of "all_hits f ?ls rs"] st hash_right_result[OF key, of start st] by simp
    next
      case False
      then show ?thesis using that[of "concat (map (hits_by_right f ?ls) rs)"] st
          hash_left_result[OF key, of start st] hits_swap[of f ?ls rs] by (simp add: all_hits_def)
    qed
    have "mset out = mset (pad_rows (j_type ji) (length known) ?ls rs (absorb (all_hits f ?ls rs) start))"
      unfolding out hs(1) using absorb_mset[OF hs(2), of start] by (simp add: pad_rows_def)
    then show ?thesis using spec f by simp
  qed
qed

theorem exec_join_spec_witness:
  "\<exists>f. compile_expr id join_scope [] False sample_on = Inr f \<and>
    mset (join_spec J_full f 1 sample_lefts [(2, [VInt 2, VText [67]]), (3, [VInt 3, VText [68]])]) =
    mset [[Some [VInt 2, VText [66]], Some [VInt 2, VText [67]]], [Some [VInt 1, VText [65]], None],
      [None, Some [VInt 3, VText [68]]]]"
proof -
  have run: "exec_join id sample_db sample_lefts sample_join join_scope =
     Inr [[Some [VInt 2, VText [66]], Some [VInt 2, VText [67]]], [Some [VInt 1, VText [65]], None],
          [None, Some [VInt 3, VText [68]]]]"
    by code_simp
  have "\<exists>f. compile_expr id join_scope [] False (j_on sample_join) = Inr f \<and>
    mset [[Some [VInt 2, VText [66]], Some [VInt 2, VText [67]]], [Some [VInt 1, VText [65]], None],
      [None, Some [VInt 3, VText [68]]]] =
    mset (join_spec (j_type sample_join) f (length [(''t'', sample_meta)]) sample_lefts
      [(2, [VInt 2, VText [67]]), (3, [VInt 3, VText [68]])])"
    by (rule exec_join_spec[OF _ _ _ _ _ _ _ run])
      (use sample_nested(2) in \<open>simp_all add: join_scope_def sample_join_def sample_db_def sample_lefts_def
          parts_ok_def row_ok_def sample_meta_def other_meta_def\<close>)
  then show ?thesis by (auto simp: sample_join_def)
qed

end
