(* ===== verification/SelectSpec.thy ===== *)
theory SelectSpec
  imports JoinSpec
begin

text \<open>
  \<open>FROM\<close> and \<open>WHERE\<close>: the pipeline of scans, joins and staged filters against the rows of the
  \<open>FROM\<close> clause filtered by the whole \<open>WHERE\<close> condition.
\<close>

section \<open>A closure on a longer row\<close>

lemma hits_from_append:
  "hits_from i nm (xs @ ys) = hits_from i nm xs @ hits_from (i + length xs) nm ys"
  by (induction xs arbitrary: i) (auto split: sum.splits)

lemma hits_from_bound: "(k, j) \<in> set (hits_from i nm xs) \<Longrightarrow> i \<le> k \<and> k < i + length xs"
  by (induction xs arbitrary: i) (force split: sum.splits)+

lemma first_index_append:
  "first_index P xs = Some i \<Longrightarrow> first_index P (xs @ ys) = Some i"
  by (induction xs arbitrary: i) auto

lemma first_index_less: "first_index P xs = Some i \<Longrightarrow> i < length xs"
  using first_index_Some by blast

lemma resolve_extend:
  assumes ext: "sources sc = sources sc0 @ more_srcs"
    and r0: "resolve sc0 nm tab = Inr (k, j)" and r: "resolve sc nm tab = Inr p"
  shows "p = (k, j) \<and> k < length (sources sc0)"
proof (cases tab)
  case None
  then have h0: "hits_from 0 nm (sources sc0) = [(k, j)]"
    using r0 by (auto simp: resolve_def split: list.splits)
  moreover have "hits_from 0 nm (sources sc) = [p]"
    using r None by (auto simp: resolve_def split: list.splits)
  ultimately show ?thesis
    using hits_from_bound[of k j 0 nm "sources sc0"] by (simp add: ext hits_from_append)
next
  case (Some t)
  then obtain i where i: "first_index (\<lambda>s. fst s = t) (sources sc0) = Some i"
    using r0 by (auto simp: resolve_def split: option.splits)
  then have "first_index (\<lambda>s. fst s = t) (sources sc) = Some i" "i < length (sources sc0)"
    using first_index_append first_index_less by (force simp: ext)+
  then show ?thesis using r0 r i Some
    by (auto simp: resolve_def Let_def ext nth_append split: if_splits)
qed

lemma read_part_take: "k < n \<Longrightarrow> n \<le> length ps \<Longrightarrow> read_part (take n ps) k j = read_part ps k j"
  by (simp add: read_part_def nth_err_def)

lemma compile_list_all2:
  "compile_list low sc als ag es = Inr fs \<Longrightarrow> list_all2 (\<lambda>e f. compile_expr low sc als ag e = Inr f) es fs"
  by (induction es arbitrary: fs) auto

lemma run_items_cong:
  "list_all2 (\<lambda>f g. f ps env = g qs env) fs gs \<Longrightarrow> run_items v saw fs ps env = run_items v saw gs qs env"
  by (induction v saw fs ps env arbitrary: gs rule: run_items.induct)
    (auto simp: list_all2_Cons1 bindE_def split: sum.splits)

text \<open>An expression that compiles in a scope and in a longer one means the same in both.\<close>

lemma closure_extend:
  assumes "sources sc = sources sc0 @ more_srcs" and "length (sources sc0) \<le> length ps"
    and "compile_expr low sc0 [] False e = Inr f0" and "compile_expr low sc [] False e = Inr f"
  shows "f0 (take (length (sources sc0)) ps) env = f ps env"
  using assms(3,4)
proof (induction e arbitrary: f0 f)
  case (Column nm tab)
  then obtain k j where r0: "resolve sc0 nm tab = Inr (k, j)" and f0: "f0 = (\<lambda>ps env. read_part ps k j)"
    by (auto split: sum.splits)
  from Column.prems(2) obtain p where r: "resolve sc nm tab = Inr p" and f: "f = (\<lambda>ps env. read_part ps (fst p) (snd p))"
    by (auto split: sum.splits)
  show ?case
    using resolve_extend[OF assms(1) r0 r] read_part_take assms(2) by (simp add: f0 f)
next
  case (BinOp g l r)
  obtain lf0 rf0 where 0: "compile_expr low sc0 [] False l = Inr lf0" "compile_expr low sc0 [] False r = Inr rf0"
    "f0 = (if g = B_and then and_fn lf0 rf0 else if g = B_or then or_fn lf0 rf0
        else (\<lambda>ps env. bindE (lf0 ps env) (\<lambda>a. bindE (rf0 ps env) (\<lambda>b. binary_val g a b))))"
    using BinOp.prems(1) by (auto split: if_splits)
  obtain lf rf where 1: "compile_expr low sc [] False l = Inr lf" "compile_expr low sc [] False r = Inr rf"
    "f = (if g = B_and then and_fn lf rf else if g = B_or then or_fn lf rf
        else (\<lambda>ps env. bindE (lf ps env) (\<lambda>a. bindE (rf ps env) (\<lambda>b. binary_val g a b))))"
    using BinOp.prems(2) by (auto split: if_splits)
  show ?case
    using BinOp.IH(1)[OF 0(1) 1(1)] BinOp.IH(2)[OF 0(2) 1(2)] by (simp add: 0(3) 1(3) and_fn_def or_fn_def cong: if_cong)
next
  case (InList e items neg)
  obtain g0 gs0 where 0: "compile_expr low sc0 [] False e = Inr g0" "compile_list low sc0 [] False items = Inr gs0"
    "f0 = (\<lambda>ps env. bindE (g0 ps env) (\<lambda>v. if v = VNull then Inr VNull else
       bindE (run_items v False gs0 ps env) (\<lambda>r. Inr (if r = VNull then r else negate_if neg r))))"
    using InList.prems(1) by auto
  obtain g gs where 1: "compile_expr low sc [] False e = Inr g" "compile_list low sc [] False items = Inr gs"
    "f = (\<lambda>ps env. bindE (g ps env) (\<lambda>v. if v = VNull then Inr VNull else
       bindE (run_items v False gs ps env) (\<lambda>r. Inr (if r = VNull then r else negate_if neg r))))"
    using InList.prems(2) by auto
  have "list_all2 (\<lambda>f g. f (take (length (sources sc0)) ps) env = g ps env) gs0 gs"
    using compile_list_all2[OF 0(2)] compile_list_all2[OF 1(2)] InList.IH(2)[OF nth_mem]
    by (simp add: list_all2_conv_all_nth)
  then show ?case
    using InList.IH(1)[OF 0(1) 1(1)] run_items_cong by (simp add: 0(3) 1(3) cong: if_cong)
next
  case (Between e lo hi neg)
  obtain g0 lf0 hf0 where 0: "compile_expr low sc0 [] False e = Inr g0" "compile_expr low sc0 [] False lo = Inr lf0"
    "compile_expr low sc0 [] False hi = Inr hf0"
    "f0 = (\<lambda>ps env. bindE (g0 ps env) (\<lambda>v. if v = VNull then Inr VNull else
       bindE (lf0 ps env) (\<lambda>l. bindE (hf0 ps env) (\<lambda>h.
       if l = VNull \<or> h = VNull then Inr VNull else between_val neg v l h))))"
    using Between.prems(1) by auto
  obtain g lf hf where 1: "compile_expr low sc [] False e = Inr g" "compile_expr low sc [] False lo = Inr lf"
    "compile_expr low sc [] False hi = Inr hf"
    "f = (\<lambda>ps env. bindE (g ps env) (\<lambda>v. if v = VNull then Inr VNull else
       bindE (lf ps env) (\<lambda>l. bindE (hf ps env) (\<lambda>h.
       if l = VNull \<or> h = VNull then Inr VNull else between_val neg v l h))))"
    using Between.prems(2) by auto
  show ?case
    using Between.IH(1)[OF 0(1) 1(1)] Between.IH(2)[OF 0(2) 1(2)] Between.IH(3)[OF 0(3) 1(3)]
    by (simp add: 0(4) 1(4) cong: if_cong)
next
  case (LikeOp e pat neg)
  obtain g0 pf0 where 0: "compile_expr low sc0 [] False e = Inr g0" "compile_expr low sc0 [] False pat = Inr pf0"
    "f0 = (\<lambda>ps env. bindE (g0 ps env) (\<lambda>v. bindE (pf0 ps env) (\<lambda>p. like_val low neg v p)))"
    using LikeOp.prems(1) by auto
  obtain g pf where 1: "compile_expr low sc [] False e = Inr g" "compile_expr low sc [] False pat = Inr pf"
    "f = (\<lambda>ps env. bindE (g ps env) (\<lambda>v. bindE (pf ps env) (\<lambda>p. like_val low neg v p)))"
    using LikeOp.prems(2) by auto
  show ?case using LikeOp.IH(1)[OF 0(1) 1(1)] LikeOp.IH(2)[OF 0(2) 1(2)] by (simp add: 0(3) 1(3))
next
  case (UnaryOp g e)
  obtain h0 where 0: "compile_expr low sc0 [] False e = Inr h0" "f0 = (\<lambda>ps env. bindE (h0 ps env) (unary_val g))"
    using UnaryOp.prems(1) by auto
  obtain h where 1: "compile_expr low sc [] False e = Inr h" "f = (\<lambda>ps env. bindE (h ps env) (unary_val g))"
    using UnaryOp.prems(2) by auto
  show ?case using UnaryOp.IH[OF 0(1) 1(1)] by (simp add: 0(2) 1(2))
next
  case (IsNull e neg)
  obtain h0 where 0: "compile_expr low sc0 [] False e = Inr h0"
    "f0 = (\<lambda>ps env. bindE (h0 ps env) (\<lambda>v. Inr (VBool (if neg then v \<noteq> VNull else v = VNull))))"
    using IsNull.prems(1) by auto
  obtain h where 1: "compile_expr low sc [] False e = Inr h"
    "f = (\<lambda>ps env. bindE (h ps env) (\<lambda>v. Inr (VBool (if neg then v \<noteq> VNull else v = VNull))))"
    using IsNull.prems(2) by auto
  show ?case using IsNull.IH[OF 0(1) 1(1)] by (simp add: 0(2) 1(2))
next
  case (Func fid nm arg star dist)
  then have "f0 = read_agg fid" "f = read_agg fid" by auto
  then show ?case by (simp add: read_agg_def)
qed auto

section \<open>Filters\<close>

text \<open>\<open>holds\<close>: the condition compiles in the scope and is true on the row.\<close>

definition holds :: "(int \<Rightarrow> int) \<Rightarrow> scope \<Rightarrow> expr \<Rightarrow> parts \<Rightarrow> bool" where
  "holds low sc c ps =
     (case compile_expr low sc [] False c of Inr f \<Rightarrow> f ps None = Inr (VBool True) | Inl e \<Rightarrow> False)"

definition compiles :: "(int \<Rightarrow> int) \<Rightarrow> scope \<Rightarrow> expr \<Rightarrow> bool" where
  "compiles low sc c \<longleftrightarrow> (\<exists>f. compile_expr low sc [] False c = Inr f)"

lemma holds_extend:
  assumes "sources sc = sources sc0 @ more_srcs" "compiles low sc0 c" "compiles low sc c"
    and "length (sources sc0) \<le> length ps"
  shows "holds low sc0 c (take (length (sources sc0)) ps) = holds low sc c ps"
proof -
  obtain f0 f where f: "compile_expr low sc0 [] False c = Inr f0" "compile_expr low sc [] False c = Inr f"
    using assms(2,3) by (auto simp: compiles_def)
  show ?thesis using closure_extend[OF assms(1,4) f] f by (simp add: holds_def)
qed

lemma filterE_filter: "filterE (keep_true f) xs = Inr ys \<Longrightarrow> ys = filter (\<lambda>ps. f ps None = Inr (VBool True)) xs"
  by (induction xs arbitrary: ys) (auto simp: keep_true_def)

lemma foldE_filters:
  "foldE (\<lambda>c rows. bindE (compile_expr low sc [] False (snd c)) (\<lambda>f. filterE (keep_true f) rows)) cs rows = Inr out \<Longrightarrow>
   out = filter (\<lambda>ps. \<forall>c \<in> set cs. holds low sc (snd c) ps) rows \<and> (\<forall>c \<in> set cs. compiles low sc (snd c))"
proof (induction cs arbitrary: rows)
  case Nil
  then show ?case by simp
next
  case (Cons c cs)
  obtain f mid where f: "compile_expr low sc [] False (snd c) = Inr f" and m: "filterE (keep_true f) rows = Inr mid"
    and rest: "foldE (\<lambda>c rows. bindE (compile_expr low sc [] False (snd c)) (\<lambda>f. filterE (keep_true f) rows)) cs mid = Inr out"
    using Cons.prems by auto
  have "holds low sc (snd c) = (\<lambda>ps. f ps None = Inr (VBool True))" using f by (simp add: holds_def fun_eq_iff)
  then show ?case using Cons.IH[OF rest] filterE_filter[OF m] f by (auto simp: compiles_def)
qed

lemma apply_stage_filter:
  assumes "apply_stage low fs s sc rows = Inr out"
  shows "out = filter (\<lambda>ps. \<forall>c. (s, c) \<in> set fs \<longrightarrow> holds low sc c ps) rows \<and>
    (\<forall>c. (s, c) \<in> set fs \<longrightarrow> compiles low sc c)"
  using foldE_filters[OF assms[unfolded apply_stage_def]] by (auto intro!: filter_cong)

section \<open>The rows of the FROM clause\<close>

definition extend :: "scope \<Rightarrow> joininfo \<Rightarrow> scope" where
  "extend sc j = sc\<lparr>sources := sources sc @ [(j_alias j, j_meta j)]\<rparr>"

definition scanned :: "db_ops \<Rightarrow> table_meta \<Rightarrow> (int \<times> row) list" where
  "scanned db m = (case db_scan db m of Inr rs \<Rightarrow> rs | Inl e \<Rightarrow> [])"

definition joined :: "(int \<Rightarrow> int) \<Rightarrow> db_ops \<Rightarrow> joininfo \<Rightarrow> scope \<Rightarrow> parts list \<Rightarrow> parts list" where
  "joined low db j sc lefts =
     (case compile_expr low (extend sc j) [] False (j_on j) of
        Inl e \<Rightarrow> []
      | Inr f \<Rightarrow> join_spec (j_type j) f (length (sources sc)) lefts (scanned db (j_meta j)))"

fun from_rows :: "(int \<Rightarrow> int) \<Rightarrow> db_ops \<Rightarrow> joininfo list \<Rightarrow> scope \<Rightarrow> parts list \<Rightarrow> parts list" where
  "from_rows low db [] sc lefts = lefts"
| "from_rows low db (j # js) sc lefts = from_rows low db js (extend sc j) (joined low db j sc lefts)"

text \<open>What the executor relies on in a table scan: whole rows under distinct rowids.\<close>

definition db_ok :: "db_ops \<Rightarrow> bool" where
  "db_ok db \<longleftrightarrow> (\<forall>m rs. db_scan db m = Inr rs \<longrightarrow>
     distinct (map fst rs) \<and> (\<forall>r \<in> set rs. length (snd r) = length (columns m)))"

fun equi_ok :: "tabs \<Rightarrow> joininfo list \<Rightarrow> bool" where
  "equi_ok known [] = True"
| "equi_ok known (j # js) =
     ((j_hash j \<longrightarrow> j_equi j = find_join_equi (flatten_and (j_on j)) known (j_alias j) (j_meta j)) \<and>
      equi_ok (known @ [(j_alias j, j_meta j)]) js)"

text \<open>No conjunct sits below a \<open>RIGHT\<close> or \<open>FULL\<close> join.\<close>

fun stage_ok :: "(nat \<times> expr) list \<Rightarrow> nat \<Rightarrow> joininfo list \<Rightarrow> bool" where
  "stage_ok fs s [] = True"
| "stage_ok fs s (j # js) =
     ((j_type j = J_inner \<or> j_type j = J_left \<or> (\<forall>c \<in> set fs. s \<le> fst c)) \<and> stage_ok fs (Suc s) js)"

lemma join_spec_mset:
  assumes "mset lefts = mset lefts'"
  shows "mset (join_spec jt f w lefts rs) = mset (join_spec jt f w lefts' rs)"
proof -
  have "mset (concat (map g lefts)) = mset (concat (map g lefts'))" for g :: "parts \<Rightarrow> parts list"
  proof -
    have "mset (concat (map g xs)) = (\<Sum>x \<in># mset xs. mset (g x))" for xs by (induction xs) simp_all
    then show ?thesis using assms by simp
  qed
  then show ?thesis using assms mset_eq_setD[OF assms] by (simp add: join_spec_def)
qed

lemma join_spec_filter:
  assumes "jt = J_inner \<or> jt = J_left" and "\<And>ps x. ps \<in> set lefts \<Longrightarrow> P (ps @ [x]) = P ps"
  shows "join_spec jt f w (filter P lefts) rs = filter P (join_spec jt f w lefts rs)"
proof -
  have "concat (map (\<lambda>ps. map (\<lambda>r. ps @ [Some (snd r)]) (filter (accepts f ps) rs)) (filter P lefts)) =
      filter P (concat (map (\<lambda>ps. map (\<lambda>r. ps @ [Some (snd r)]) (filter (accepts f ps) rs)) lefts))"
    using assms(2) by (induction lefts) (auto simp: filter_map comp_def)
  moreover have "map (\<lambda>ps. ps @ [None]) (filter Q (filter P lefts)) = filter P (map (\<lambda>ps. ps @ [None]) (filter Q lefts))" for Q
    using assms(2) by (induction lefts) auto
  ultimately show ?thesis using assms(1) by (auto simp: join_spec_def)
qed

lemma parts_ok_snoc: "parts_ok srcs ps \<Longrightarrow> row_ok s part \<Longrightarrow> parts_ok (srcs @ [s]) (ps @ [part])"
  by (simp add: parts_ok_def list_all2_appendI)

lemma parts_ok_pad: "parts_ok srcs (replicate (length srcs) None)"
  by (simp add: parts_ok_def list_all2_conv_all_nth row_ok_def)

lemma join_spec_ok:
  assumes "\<forall>ps \<in> set lefts. parts_ok srcs ps" and "\<forall>r \<in> set rs. length (snd r) = length (columns m)"
  shows "\<forall>ps \<in> set (join_spec jt f (length srcs) lefts rs). parts_ok (srcs @ [(al, m)]) ps"
  using assms parts_ok_pad[of srcs]
  by (auto simp: join_spec_def row_ok_def intro!: parts_ok_snoc)

section \<open>The pipeline\<close>

lemma scope_add_extend:
  assumes "scope_add (j_alias j) (j_meta j) sc = Inr sc1"
  shows "sc1 = extend sc j \<and> j_alias j \<notin> fst ` set (sources sc)"
  using assms by (auto simp: scope_add_def extend_def map_of_eq_None_iff split: if_splits)

lemma exec_join_rows:
  assumes db: "db_ok db" and dist: "distinct (map fst (sources sc))" "j_alias j \<notin> fst ` set (sources sc)"
    and ls: "\<forall>ps \<in> set lefts. parts_ok (sources sc) ps"
    and equi: "j_hash j \<longrightarrow> j_equi j = find_join_equi (flatten_and (j_on j)) (sources sc) (j_alias j) (j_meta j)"
    and run: "exec_join low db lefts j (extend sc j) = Inr out"
  shows "mset out = mset (joined low db j sc lefts)" "\<forall>ps \<in> set out. parts_ok (sources (extend sc j)) ps"
    "\<forall>r \<in> set (scanned db (j_meta j)). length (snd r) = length (columns (j_meta j))"
proof -
  obtain rs where rs: "db_scan db (j_meta j) = Inr rs" using run by (auto simp: exec_join_def)
  have sc: "scanned db (j_meta j) = rs" using rs by (simp add: scanned_def)
  have rsok: "\<forall>r \<in> set rs. length (snd r) = length (columns (j_meta j))" "distinct (map fst rs)"
    using db rs by (auto simp: db_ok_def)
  have srcs: "sources (extend sc j) = sources sc @ [(j_alias j, j_meta j)]" by (simp add: extend_def)
  have dist': "distinct (map fst (sources (extend sc j)))" using dist by (simp add: srcs)
  obtain f where f: "compile_expr low (extend sc j) [] False (j_on j) = Inr f"
    and out: "mset out = mset (join_spec (j_type j) f (length (sources sc)) lefts rs)"
    using exec_join_spec[OF srcs dist' ls rs rsok equi run] by blast
  show m: "mset out = mset (joined low db j sc lefts)" using f out sc by (simp add: joined_def)
  show "\<forall>ps \<in> set out. parts_ok (sources (extend sc j)) ps"
    using join_spec_ok[OF ls rsok(1), of "j_type j" f "j_alias j"] mset_eq_setD[OF out] by (simp add: srcs)
  show "\<forall>r \<in> set (scanned db (j_meta j)). length (snd r) = length (columns (j_meta j))"
    using rsok(1) sc by simp
qed

text \<open>\<open>passes\<close>: a row passes the conjuncts staged before \<open>s\<close>, each in its stage's scope.\<close>

definition upto :: "tabs \<Rightarrow> nat \<Rightarrow> scope" where
  "upto srcs t = \<lparr>sources = take (Suc t) srcs, agg_aliases = []\<rparr>"

definition passes :: "(int \<Rightarrow> int) \<Rightarrow> tabs \<Rightarrow> (nat \<times> expr) list \<Rightarrow> nat \<Rightarrow> parts \<Rightarrow> bool" where
  "passes low srcs fs s ps \<longleftrightarrow>
     (\<forall>(t, c) \<in> set fs. t < s \<longrightarrow> holds low (upto srcs t) c (take (Suc t) ps))"

lemma passes_snoc: "length ps = s \<Longrightarrow> passes low srcs fs s (ps @ [x]) = passes low srcs fs s ps"
  by (auto simp: passes_def)

lemma passes_Suc:
  assumes "length ps = Suc s"
  shows "passes low srcs fs (Suc s) ps \<longleftrightarrow>
    passes low srcs fs s ps \<and> (\<forall>c. (s, c) \<in> set fs \<longrightarrow> holds low (upto srcs s) c ps)"
  using assms by (auto simp: passes_def less_Suc_eq)

lemma parts_ok_length: "parts_ok srcs ps \<Longrightarrow> length ps = length srcs"
  by (simp add: parts_ok_def list_all2_lengthD)

lemma filter_filter_mset: "mset xs = mset ys \<Longrightarrow> mset (filter P xs) = mset (filter P ys)"
  by (metis mset_filter)

lemma run_joins_rows:
  assumes "db_ok db"
    and "run_joins low db fs s js sc lefts = Inr (sc', rows)"
    and "distinct (map fst (sources sc))" "length (sources sc) = s" "agg_aliases sc = []"
    and "srcs = sources sc @ map (\<lambda>j. (j_alias j, j_meta j)) js"
    and "\<forall>ps \<in> set lefts0. parts_ok (sources sc) ps"
    and "equi_ok (sources sc) js" "stage_ok fs s js"
    and "mset lefts = mset (filter (passes low srcs fs s) lefts0)"
  shows "sources sc' = srcs \<and> agg_aliases sc' = [] \<and>
    mset rows = mset (filter (passes low srcs fs (s + length js)) (from_rows low db js sc lefts0)) \<and>
    (\<forall>ps \<in> set (from_rows low db js sc lefts0). parts_ok srcs ps) \<and>
    (\<forall>(t, c) \<in> set fs. s \<le> t \<and> t < s + length js \<longrightarrow> compiles low (upto srcs t) c)"
  using assms
proof (induction js arbitrary: s sc lefts lefts0)
  case Nil
  then show ?case by auto
next
  case (Cons j js)
  obtain sc1 rows1 rows2 where sc1: "scope_add (j_alias j) (j_meta j) sc = Inr sc1"
    and join: "exec_join low db lefts j sc1 = Inr rows1" and st: "apply_stage low fs s sc1 rows1 = Inr rows2"
    and rest: "run_joins low db fs (Suc s) js sc1 rows2 = Inr (sc', rows)"
    using Cons.prems(2) by auto
  have ext: "sc1 = extend sc j" and fresh: "j_alias j \<notin> fst ` set (sources sc)"
    using scope_add_extend[OF sc1] by simp_all
  have srcs1: "sources sc1 = sources sc @ [(j_alias j, j_meta j)]" by (simp add: ext extend_def)
  have up: "upto srcs s = sc1"
    using Cons.prems(4,5,6) by (simp add: upto_def ext extend_def)
  have okls: "\<forall>ps \<in> set lefts. parts_ok (sources sc) ps"
    using mset_eq_setD[OF Cons.prems(10)] Cons.prems(7) by simp
  have equi: "j_hash j \<longrightarrow> j_equi j = find_join_equi (flatten_and (j_on j)) (sources sc) (j_alias j) (j_meta j)"
    using Cons.prems(8) by simp
  note jr = exec_join_rows[OF Cons.prems(1,3) fresh okls equi join[unfolded ext]]
  obtain f where f: "compile_expr low (extend sc j) [] False (j_on j) = Inr f"
    using join ext by (auto simp: exec_join_def)
  let ?rs = "scanned db (j_meta j)"
  let ?P = "passes low srcs fs s"
  have j0: "joined low db j sc xs = join_spec (j_type j) f s xs ?rs" for xs
    using f Cons.prems(4) by (simp add: joined_def)
  have ok1: "\<forall>ps \<in> set (joined low db j sc lefts0). parts_ok (sources sc1) ps"
    unfolding j0 srcs1 using join_spec_ok[OF Cons.prems(7) jr(3), of "j_type j" f "j_alias j"] Cons.prems(4) by simp
  have "mset rows1 = mset (joined low db j sc (filter ?P lefts0))"
    using jr(1) join_spec_mset[OF Cons.prems(10)] by (simp add: j0)
  also have "joined low db j sc (filter ?P lefts0) = filter ?P (joined low db j sc lefts0)"
  proof (cases "j_type j = J_inner \<or> j_type j = J_left")
    case True
    have "length ps = s" if "ps \<in> set lefts0" for ps
      using parts_ok_length[of "sources sc" ps] Cons.prems(4,7) that by simp
    then have "?P (ps @ [x]) = ?P ps" if "ps \<in> set lefts0" for ps x
      using passes_snoc[of ps s low srcs fs x] that by blast
    then show ?thesis unfolding j0 by (rule join_spec_filter[OF True])
  next
    case False
    then have "?P ps" for ps using Cons.prems(9) by (auto simp: passes_def)
    then show ?thesis by simp
  qed
  finally have r1: "mset rows1 = mset (filter ?P (joined low db j sc lefts0))" .
  have st': "rows2 = filter (\<lambda>ps. \<forall>c. (s, c) \<in> set fs \<longrightarrow> holds low sc1 c ps) rows1"
    and comp: "\<forall>c. (s, c) \<in> set fs \<longrightarrow> compiles low sc1 c"
    using apply_stage_filter[OF st] by simp_all
  have "mset rows2 = mset (filter (\<lambda>ps. \<forall>c. (s, c) \<in> set fs \<longrightarrow> holds low sc1 c ps) (filter ?P (joined low db j sc lefts0)))"
    unfolding st' by (rule filter_filter_mset[OF r1])
  also have "filter (\<lambda>ps. \<forall>c. (s, c) \<in> set fs \<longrightarrow> holds low sc1 c ps) (filter ?P (joined low db j sc lefts0)) =
      filter (passes low srcs fs (Suc s)) (joined low db j sc lefts0)"
    unfolding filter_filter
  proof (rule filter_cong[OF refl])
    fix ps assume "ps \<in> set (joined low db j sc lefts0)"
    then have "length ps = Suc s" using parts_ok_length[of "sources sc1" ps] ok1 Cons.prems(4) by (simp add: srcs1)
    then show "(?P ps \<and> (\<forall>c. (s, c) \<in> set fs \<longrightarrow> holds low sc1 c ps)) = passes low srcs fs (Suc s) ps"
      using passes_Suc[of ps s low srcs fs] up by auto
  qed
  finally have r2: "mset rows2 = mset (filter (passes low srcs fs (Suc s)) (joined low db j sc lefts0))" .
  have "distinct (map fst (sources sc1))" using Cons.prems(3) fresh by (simp add: srcs1)
  moreover have "length (sources sc1) = Suc s" using Cons.prems(4) by (simp add: srcs1)
  moreover have "agg_aliases sc1 = []" using Cons.prems(5) by (simp add: ext extend_def)
  moreover have "srcs = sources sc1 @ map (\<lambda>j. (j_alias j, j_meta j)) js" using Cons.prems(6) by (simp add: srcs1)
  moreover have "equi_ok (sources sc1) js" using Cons.prems(8) by (simp add: srcs1)
  moreover have "stage_ok fs (Suc s) js" using Cons.prems(9) by simp
  ultimately have ih: "sources sc' = srcs \<and> agg_aliases sc' = [] \<and>
    mset rows = mset (filter (passes low srcs fs (Suc s + length js)) (from_rows low db js sc1 (joined low db j sc lefts0))) \<and>
    (\<forall>ps \<in> set (from_rows low db js sc1 (joined low db j sc lefts0)). parts_ok srcs ps) \<and>
    (\<forall>(t, c) \<in> set fs. Suc s \<le> t \<and> t < Suc s + length js \<longrightarrow> compiles low (upto srcs t) c)"
    using Cons.IH[OF Cons.prems(1) rest _ _ _ _ ok1 _ _ r2] by blast
  have "compiles low (upto srcs t) c" if "(t, c) \<in> set fs" "s \<le> t" "t < s + length (j # js)" for t c
    using that ih comp up by (cases "t = s") auto
  then show ?case using ih by (auto simp: ext)
qed

lemma staged_rows:
  assumes db: "db_ok db" and base: "exec_scan db (p_scan pl) = Inr base"
      "\<forall>r \<in> set base. length (snd r) = length (columns (sc_meta (p_scan pl)))"
    and equi: "equi_ok [(sc_alias (p_scan pl), sc_meta (p_scan pl))] (p_joins pl)"
    and stage: "stage_ok (p_filters pl) 1 (p_joins pl)" "\<forall>c \<in> set (p_filters pl). fst c \<le> length (p_joins pl)"
    and run: "scan_filter_join low db pl = Inr (sc, rows)"
    and comp: "\<forall>c \<in> set (p_filters pl). compiles low sc (snd c)"
  shows "sources sc = (sc_alias (p_scan pl), sc_meta (p_scan pl)) # map (\<lambda>j. (j_alias j, j_meta j)) (p_joins pl) \<and>
    mset rows = mset (filter (\<lambda>ps. \<forall>c \<in> set (p_filters pl). holds low sc (snd c) ps)
      (from_rows low db (p_joins pl) \<lparr>sources = [(sc_alias (p_scan pl), sc_meta (p_scan pl))], agg_aliases = []\<rparr>
        (map (\<lambda>r. [Some (snd r)]) base)))"
proof -
  let ?src = "(sc_alias (p_scan pl), sc_meta (p_scan pl))" and ?fs = "p_filters pl" and ?js = "p_joins pl"
  define sc0 where "sc0 = \<lparr>sources = [?src], agg_aliases = []\<rparr>"
  define srcs where "srcs = ?src # map (\<lambda>j. (j_alias j, j_meta j)) ?js"
  let ?lefts0 = "map (\<lambda>r. [Some (snd r)]) base"
  obtain rows0 where st: "apply_stage low ?fs 0 sc0 ?lefts0 = Inr rows0"
    and joins: "run_joins low db ?fs 1 ?js sc0 rows0 = Inr (sc, rows)"
    using run base(1) by (auto simp: scan_filter_join_def scope_add_def new_scope_def sc0_def)
  have up: "upto srcs 0 = sc0" by (simp add: upto_def srcs_def sc0_def)
  have r0: "rows0 = filter (\<lambda>ps. \<forall>c. (0, c) \<in> set ?fs \<longrightarrow> holds low sc0 c ps) ?lefts0"
    and c0: "\<forall>c. (0, c) \<in> set ?fs \<longrightarrow> compiles low sc0 c"
    using apply_stage_filter[OF st] by simp_all
  have "rows0 = filter (passes low srcs ?fs 1) ?lefts0"
    unfolding r0 by (rule filter_cong[OF refl]) (use up in \<open>auto simp: passes_def\<close>)
  moreover have "\<forall>ps \<in> set ?lefts0. parts_ok [?src] ps" using base(2) by (auto simp: parts_ok_def row_ok_def)
  ultimately have main: "sources sc = srcs \<and> agg_aliases sc = [] \<and>
    mset rows = mset (filter (passes low srcs ?fs (1 + length ?js)) (from_rows low db ?js sc0 ?lefts0)) \<and>
    (\<forall>ps \<in> set (from_rows low db ?js sc0 ?lefts0). parts_ok srcs ps) \<and>
    (\<forall>(t, c) \<in> set ?fs. 1 \<le> t \<and> t < 1 + length ?js \<longrightarrow> compiles low (upto srcs t) c)"
    using run_joins_rows[OF db joins, of srcs ?lefts0] equi stage(1) by (simp add: sc0_def srcs_def)
  have "passes low srcs ?fs (1 + length ?js) ps = (\<forall>c \<in> set ?fs. holds low sc (snd c) ps)"
    if "ps \<in> set (from_rows low db ?js sc0 ?lefts0)" for ps
  proof -
    have "parts_ok srcs ps" using main that by blast
    then have len: "length ps = Suc (length ?js)" using parts_ok_length[of srcs ps] by (simp add: srcs_def)
    have "holds low (upto srcs t) c (take (Suc t) ps) = holds low sc c ps" if c: "(t, c) \<in> set ?fs" for t c
    proof -
      have t: "t \<le> length ?js" using stage(2) c by auto
      have "compiles low (upto srcs t) c" using c0 main c t up by (cases t) auto
      moreover have "compiles low sc c" using comp c by auto
      moreover have "sources sc = sources (upto srcs t) @ drop (Suc t) srcs" using main by (simp add: upto_def)
      moreover have "length (sources (upto srcs t)) = Suc t" using t by (simp add: upto_def srcs_def)
      ultimately show ?thesis using holds_extend[of sc "upto srcs t" "drop (Suc t) srcs" low c ps] len t by simp
    qed
    then show ?thesis
      unfolding passes_def using stage(2) by (intro ball_cong refl) auto
  qed
  then have "filter (passes low srcs ?fs (1 + length ?js)) (from_rows low db ?js sc0 ?lefts0) =
      filter (\<lambda>ps. \<forall>c \<in> set ?fs. holds low sc (snd c) ps) (from_rows low db ?js sc0 ?lefts0)"
    by (intro filter_cong) auto
  then show ?thesis using main by (simp add: srcs_def sc0_def)
qed

section \<open>The planner's plans\<close>

lemma update_fresh: "al \<notin> fst ` set t \<Longrightarrow> AList.update al m t = t @ [(al, m)]"
  by (induction t) auto

lemma plan_joins_ok:
  assumes "plan_joins lookup cs known est = Inr js"
    and "distinct (map fst known @ map j_alias js)"
  shows "equi_ok known js \<and> map j_type js = map jc_type cs"
  using assms
proof (induction cs arbitrary: known est js)
  case Nil
  then show ?case by simp
next
  case (Cons c cs)
  obtain m j rest est' where m: "lookup (jc_table c) = Inr m" and js: "js = j # rest"
    and j: "j_alias j = alias_or (jc_alias c) (jc_table c)" "j_meta j = m" "j_type j = jc_type c" "j_on j = jc_on c"
      "j_equi j = find_join_equi (flatten_and (jc_on c)) known (alias_or (jc_alias c) (jc_table c)) m"
    and rest: "plan_joins lookup cs (AList.update (j_alias j) m known) est' = Inr rest"
    using Cons.prems(1) by (auto simp: Let_def)
  have "AList.update (j_alias j) m known = known @ [(j_alias j, m)]"
    using Cons.prems(2) by (intro update_fresh) (simp add: js)
  then show ?case using Cons.IH[of "known @ [(j_alias j, m)]" est' rest] rest Cons.prems(2) j by (simp add: js)
qed

lemma by_stage_set: "set (by_stage n fs) = {c \<in> set fs. fst c \<le> n}"
  by (auto simp: by_stage_def less_Suc_eq_le)

lemma avail_tables_length: "avail_tables lookup js run = Inr avail \<Longrightarrow> length avail = Suc (length js)"
  by (induction js arbitrary: run avail) auto

lemma stage_of_bound: "avail \<noteq> [] \<Longrightarrow> stage_of avail c < length avail"
  by (auto simp: stage_of_def dest: first_index_less split: option.splits)

lemma stage_ok_inner: "\<forall>j \<in> set js. j_type j = J_inner \<or> j_type j = J_left \<Longrightarrow> stage_ok fs s js"
  by (induction js arbitrary: s) auto

lemma run_joins_aliases:
  "run_joins low db fs s js sc lefts = Inr (sc', rows) \<Longrightarrow> distinct (map fst (sources sc)) \<Longrightarrow>
   distinct (map fst (sources sc) @ map j_alias js)"
proof (induction js arbitrary: s sc lefts)
  case (Cons j js)
  then obtain sc1 s' lefts' where "scope_add (j_alias j) (j_meta j) sc = Inr sc1"
    and rest: "run_joins low db fs s' js sc1 lefts' = Inr (sc', rows)" by auto
  then have "sources sc1 = sources sc @ [(j_alias j, j_meta j)]" "j_alias j \<notin> fst ` set (sources sc)"
    using scope_add_extend[of j sc sc1] by (auto simp: extend_def)
  then show ?case using Cons.IH[OF rest] Cons.prems(2) by simp
qed simp

lemma pushdown_rows:
  assumes plan: "build_select_plan lookup sel = Inr pl" and db: "db_ok db"
    and types: "\<forall>j \<in> set (s_joins sel). jc_type j = J_inner \<or> jc_type j = J_left"
    and base: "exec_scan db (p_scan pl) = Inr base"
      "\<forall>r \<in> set base. length (snd r) = length (columns (sc_meta (p_scan pl)))"
    and run: "scan_filter_join low db pl = Inr (sc, rows)"
    and comp: "\<forall>c \<in> set (where_conjuncts (s_where sel)). compiles low sc c"
  shows "mset rows = mset (filter (\<lambda>ps. \<forall>c \<in> set (where_conjuncts (s_where sel)). holds low sc c ps)
      (from_rows low db (p_joins pl) \<lparr>sources = [(sc_alias (p_scan pl), sc_meta (p_scan pl))], agg_aliases = []\<rparr>
        (map (\<lambda>r. [Some (snd r)]) base)))"
proof -
  obtain m where m: "lookup (s_table sel) = Inr m" using plan by (auto simp: build_select_plan_def)
  obtain kind est where ch: "choose_scan (alias_or (s_alias sel) (s_table sel)) m (s_where sel) = (kind, est)" by fastforce
  obtain js staged where
    js: "plan_joins lookup (s_joins sel) [(alias_or (s_alias sel) (s_table sel), m)] est = Inr js"
    and staged: "assign_filter_stages lookup sel = Inr staged"
    and pl: "pl = \<lparr>p_scan = \<lparr>sc_alias = alias_or (s_alias sel) (s_table sel), sc_meta = m, sc_kind = kind\<rparr>,
      p_joins = js, p_filters = by_stage (length (s_joins sel)) staged\<rparr>"
    using plan m ch by (auto simp: build_select_plan_def Let_def)
  obtain rows0 where "run_joins low db (p_filters pl) 1 js
      \<lparr>sources = [(alias_or (s_alias sel) (s_table sel), m)], agg_aliases = []\<rparr> rows0 = Inr (sc, rows)"
    using run base(1) by (auto simp: scan_filter_join_def scope_add_def new_scope_def pl)
  from run_joins_aliases[OF this] have dist: "distinct (alias_or (s_alias sel) (s_table sel) # map j_alias js)" by simp
  have ok: "equi_ok [(alias_or (s_alias sel) (s_table sel), m)] js" "map j_type js = map jc_type (s_joins sel)"
    using plan_joins_ok[OF js] dist by simp_all
  have len: "length js = length (s_joins sel)" using ok(2) by (rule map_eq_imp_length_eq)
  have "j_type ` set js = jc_type ` set (s_joins sel)" using ok(2) by (metis set_map)
  then have jt: "\<forall>j \<in> set js. j_type j = J_inner \<or> j_type j = J_left" using types by force
  obtain run0 avail where run0: "avail_tables lookup (s_joins sel) run0 = Inr avail"
    and st: "staged = map (\<lambda>c. (stage_of avail c, c)) (where_conjuncts (s_where sel))"
    using staged by (auto simp: assign_filter_stages_def)
  note av = avail_tables_length[OF run0]
  have "stage_of avail c \<le> length (s_joins sel)" for c using stage_of_bound[of avail c] av by fastforce
  then have fs: "set (p_filters pl) = (\<lambda>c. (stage_of avail c, c)) ` set (where_conjuncts (s_where sel))"
    and fb: "\<forall>c \<in> set (p_filters pl). fst c \<le> length js"
    by (auto simp: pl by_stage_set st len)
  have "mset rows = mset (filter (\<lambda>ps. \<forall>c \<in> set (p_filters pl). holds low sc (snd c) ps)
      (from_rows low db (p_joins pl) \<lparr>sources = [(sc_alias (p_scan pl), sc_meta (p_scan pl))], agg_aliases = []\<rparr>
        (map (\<lambda>r. [Some (snd r)]) base)))"
    using staged_rows[OF db base _ _ _ run] ok(1) stage_ok_inner[OF jt] fb comp fs by (simp add: pl)
  then show ?thesis by (simp add: fs)
qed

text \<open>C9. What \<open>SELECT ... FROM t [INNER or LEFT JOIN ...] WHERE c1 AND ... AND cn\<close> selects: when
  the staged, possibly hashed pipeline of the planner's plan returns, its rows are the rows of the
  \<open>FROM\<close> clause on which every conjunct is true, as a multiset. Filtering early changes nothing.\<close>

theorem pushdown_preserves_rows:
  assumes plan: "build_select_plan lookup sel = Inr pl" and db: "db_ok db"
    and types: "\<forall>j \<in> set (s_joins sel). jc_type j = J_inner \<or> jc_type j = J_left"
    and base: "exec_scan db (p_scan pl) = Inr base"
      "\<forall>r \<in> set base. length (snd r) = length (columns (sc_meta (p_scan pl)))"
    and run: "scan_filter_join low db pl = Inr (sc, rows)"
    and comp: "\<forall>c \<in> set (where_conjuncts (s_where sel)). compiles low sc c"
  shows "mset rows = mset (filter (\<lambda>ps. \<forall>c \<in> set (where_conjuncts (s_where sel)). holds low sc c ps)
      (from_rows low db (p_joins pl) \<lparr>sources = [(sc_alias (p_scan pl), sc_meta (p_scan pl))], agg_aliases = []\<rparr>
        (map (\<lambda>r. [Some (snd r)]) base)))"
  by (rule pushdown_rows[OF assms])

end
