(* ===== verification/Ordering.thy ===== *)
theory Ordering
  imports ExprProps Exec "HOL-Library.Multiset"
begin

text \<open>
  \<open>ORDER BY\<close>: the passes of \<open>run_select\<close>, one stable sort per key from the last key to the first,
  amount to one stable sort by the lexicographic order of the keys, each in its direction.
  The locale holds what a stable insertion sort gives for any strict weak order.
\<close>

section \<open>Stable sorting\<close>

abbreviation stable_sort :: "('a \<Rightarrow> 'a \<Rightarrow> bool) \<Rightarrow> 'a list \<Rightarrow> 'a list" where
  "stable_sort lt xs \<equiv> foldr (stable_insert lt) xs []"

lemma mset_stable_insert: "mset (stable_insert lt x ys) = add_mset x (mset ys)"
  by (induction ys) simp_all

lemma mset_stable_sort [simp]: "mset (stable_sort lt xs) = mset xs"
  by (induction xs) (simp_all add: mset_stable_insert)

lemma set_stable_insert: "set (stable_insert lt x ys) = insert x (set ys)"
  by (induction ys) auto

lemma set_stable_sort [simp]: "set (stable_sort lt xs) = set xs"
  by (induction xs) (simp_all add: set_stable_insert)

lemma filter_stable_insert:
  assumes "\<And>a b. P a \<Longrightarrow> P b \<Longrightarrow> \<not> lt a b"
  shows "filter P (stable_insert lt x ys) = (if P x then x # filter P ys else filter P ys)"
  using assms by (induction ys) auto

lemma filter_stable_sort:
  assumes "\<And>a b. P a \<Longrightarrow> P b \<Longrightarrow> \<not> lt a b"
  shows "filter P (stable_sort lt xs) = filter P xs"
  using filter_stable_insert[of P lt, OF assms] by (induction xs) simp_all

locale weak_order =
  fixes lt :: "'a \<Rightarrow> 'a \<Rightarrow> bool" and ok :: "'a \<Rightarrow> bool"
  assumes asym: "ok a \<Longrightarrow> ok b \<Longrightarrow> lt a b \<Longrightarrow> \<not> lt b a"
    and negtrans: "ok a \<Longrightarrow> ok b \<Longrightarrow> ok c \<Longrightarrow> \<not> lt a b \<Longrightarrow> \<not> lt b c \<Longrightarrow> \<not> lt a c"
begin

text \<open>\<open>refined R\<close>: the order of a sorted list that was in order \<open>R\<close> before.\<close>

definition refined :: "('a \<Rightarrow> 'a \<Rightarrow> bool) \<Rightarrow> 'a \<Rightarrow> 'a \<Rightarrow> bool" where
  "refined R a b \<longleftrightarrow> \<not> lt b a \<and> (\<not> lt a b \<longrightarrow> R a b)"

lemma insert_refined:
  assumes "sorted_wrt (refined R) ys" and "\<forall>y \<in> set ys. R x y" and "ok x" and "\<forall>y \<in> set ys. ok y"
  shows "sorted_wrt (refined R) (stable_insert lt x ys)"
  using assms
proof (induction ys)
  case Nil
  then show ?case by simp
next
  case (Cons y ys)
  show ?case
  proof (cases "lt y x")
    case True
    have "refined R y x" using True asym[of y x] Cons.prems(3,4) by (simp add: refined_def)
    moreover have "\<forall>z \<in> set ys. refined R y z" using Cons.prems(1) by simp
    moreover have "sorted_wrt (refined R) (stable_insert lt x ys)" using Cons by simp
    ultimately show ?thesis using True by (simp add: set_stable_insert)
  next
    case False
    have ok: "ok y" "\<forall>z \<in> set ys. ok z" using Cons.prems(4) by simp_all
    have "\<not> lt z y" if "z \<in> set (y # ys)" for z
      using that Cons.prems(1) asym[OF ok(1) ok(1)] by (auto simp: refined_def)
    then have "\<not> lt z x" if "z \<in> set (y # ys)" for z
      using negtrans[of z y x] False that Cons.prems(3,4) ok(1) by blast
    then have "\<forall>z \<in> set (y # ys). refined R x z"
      using Cons.prems(2) by (simp add: refined_def)
    then show ?thesis using False Cons.prems(1) by simp
  qed
qed

lemma sort_refined:
  "sorted_wrt R xs \<Longrightarrow> \<forall>x \<in> set xs. ok x \<Longrightarrow> sorted_wrt (refined R) (stable_sort lt xs)"
  by (induction xs) (simp_all add: insert_refined)

end

section \<open>The order of the sort keys\<close>

lemma wrap_less_text: "wrap_less (VText a) (VText b) \<longleftrightarrow> str_less a b"
  using str_less_irrefl[of a] by (auto simp: wrap_less_def)

lemma wrap_less_num:
  assumes "num_of v = Some x" "num_of w = Some y" "wrap_rank v = wrap_rank w"
  shows "wrap_less v w \<longleftrightarrow> num_less x y"
  using assms num_less_not_eq[of x y] by (auto simp: wrap_less_def py_eq_num py_less_num)

lemma wrap_rank_num: "wrap_rank v = 2 \<or> wrap_rank v = 3 \<Longrightarrow> \<exists>x. num_of v = Some x"
  by (cases v) simp_all

lemma wrap_rank_cases:
  obtains "v = VNull" | s where "v = VText s" | "wrap_rank v = 2 \<or> wrap_rank v = 3"
  by (cases v) simp_all

lemma num_less_negtrans:
  assumes "\<not> is_nan_view x" "\<not> is_nan_view y" "\<not> is_nan_view z" "\<not> num_less x y" "\<not> num_less y z"
  shows "\<not> num_less x z"
proof
  assume xz: "num_less x z"
  have xy: "num_less y x \<or> num_eq x y" and yz: "num_less z y \<or> num_eq y z"
    using assms num_trichotomy by blast+
  show False
  proof (cases "num_less y x")
    case True
    then show False using num_less_trans[OF True xz] assms(5) by simp
  next
    case False
    then have e: "num_eq x y" using xy by simp
    show False
    proof (cases "num_less z y")
      case True
      then show False using num_less_trans[OF xz True] assms(4) by simp
    next
      case False
      then have "num_eq x z" using e yz num_eq_trans[of x y z] by simp
      then show False using num_less_not_eq[OF xz] by simp
    qed
  qed
qed

lemma str_less_negtrans: "\<not> str_less a b \<Longrightarrow> \<not> str_less b c \<Longrightarrow> \<not> str_less a c"
  using str_less_linear[of a b] str_less_linear[of b c] str_less_trans[of c b a] str_less_trans[of a c b]
    str_less_irrefl str_less_trans by metis

lemma wrap_less_asym: "wrap_less a b \<Longrightarrow> \<not> wrap_less b a"
proof (cases "wrap_rank a = wrap_rank b")
  case False
  then show "wrap_less a b \<Longrightarrow> ?thesis" by (simp add: wrap_less_def)
next
  case True
  show "wrap_less a b \<Longrightarrow> ?thesis"
  proof (cases a rule: wrap_rank_cases)
    case 1
    then show "wrap_less a b \<Longrightarrow> ?thesis" using True by (cases b) (simp_all add: wrap_less_def)
  next
    case (2 s)
    then obtain t where "b = VText t" using True by (cases b) simp_all
    then show "wrap_less a b \<Longrightarrow> ?thesis"
      using 2 str_less_trans[of s t s] str_less_irrefl[of s] by (auto simp: wrap_less_text)
  next
    case 3
    then obtain x y where "num_of a = Some x" "num_of b = Some y"
      using True wrap_rank_num[of a] wrap_rank_num[of b] by auto
    then show "wrap_less a b \<Longrightarrow> ?thesis"
      using True num_less_trans[of x y x] num_less_irrefl[of x] by (auto simp: wrap_less_num)
  qed
qed

lemma wrap_less_negtrans:
  assumes "\<not> is_nan a" "\<not> is_nan b" "\<not> is_nan c" "\<not> wrap_less a b" "\<not> wrap_less b c"
  shows "\<not> wrap_less a c"
proof (cases "wrap_rank a = wrap_rank b \<and> wrap_rank b = wrap_rank c")
  case False
  then show ?thesis using assms(4,5) by (auto simp: wrap_less_def split: if_splits)
next
  case True
  show ?thesis
  proof (cases a rule: wrap_rank_cases)
    case 1
    then have "wrap_rank c = 0" using True by simp
    then have "c = VNull" by (cases c) simp_all
    then show ?thesis using 1 by (simp add: wrap_less_def)
  next
    case (2 s)
    then obtain t u where "b = VText t" "c = VText u" using True by (cases b; cases c) simp_all
    then show ?thesis using 2 assms(4,5) str_less_negtrans[of s t u] by (simp add: wrap_less_text)
  next
    case 3
    then obtain x y z where n: "num_of a = Some x" "num_of b = Some y" "num_of c = Some z"
      using True wrap_rank_num[of a] wrap_rank_num[of b] wrap_rank_num[of c] by auto
    then have "\<not> is_nan_view x" "\<not> is_nan_view y" "\<not> is_nan_view z"
      using assms(1-3) by (simp_all add: is_nan_def)
    then show ?thesis
      using n True assms(4,5) num_less_negtrans[of x y z] by (simp add: wrap_less_num)
  qed
qed

text \<open>NULL before text before numbers before booleans, and a NaN nowhere.\<close>

interpretation wrap: weak_order wrap_less "\<lambda>v. \<not> is_nan v"
  by unfold_locales (use wrap_less_asym wrap_less_negtrans in blast)+

interpretation wrap_key: weak_order
    "\<lambda>a b :: item. wrap_less (snd a ! pos) (snd b ! pos)" "\<lambda>i. \<not> is_nan (snd i ! pos)" for pos
  by unfold_locales (use wrap_less_asym wrap_less_negtrans in blast)+

section \<open>The lexicographic order\<close>

definition dir_less :: "bool \<Rightarrow> val \<Rightarrow> val \<Rightarrow> bool" where
  "dir_less desc a b = (if desc then wrap_less b a else wrap_less a b)"

fun key_less :: "bool list \<Rightarrow> val list \<Rightarrow> val list \<Rightarrow> bool" where
  "key_less (d # ds) (a # as) (b # bs) =
     (dir_less d a b \<or> (\<not> dir_less d b a \<and> key_less ds as bs))"
| "key_less _ _ _ = False"

definition key_ok :: "nat \<Rightarrow> val list \<Rightarrow> bool" where
  "key_ok n ks \<longleftrightarrow> length ks = n \<and> (\<forall>k \<in> set ks. \<not> is_nan k)"

text \<open>In order from position \<open>pos\<close> on.\<close>

definition in_order :: "bool list \<Rightarrow> nat \<Rightarrow> item \<Rightarrow> item \<Rightarrow> bool" where
  "in_order ds pos a b \<longleftrightarrow> \<not> key_less ds (drop pos (snd b)) (drop pos (snd a))"

lemma py_sort_refined:
  assumes "sorted_wrt R xs" and "\<forall>x \<in> set xs. \<not> is_nan (snd x ! pos)"
  shows "sorted_wrt (\<lambda>a b. \<not> dir_less d (snd b ! pos) (snd a ! pos) \<and>
      (\<not> dir_less d (snd a ! pos) (snd b ! pos) \<longrightarrow> R a b))
    (py_sort (\<lambda>a b :: item. wrap_less (snd a ! pos) (snd b ! pos)) d xs)"
proof (cases d)
  case True
  have "sorted_wrt (\<lambda>a b. R b a) (rev xs)" using assms(1) by (simp add: sorted_wrt_rev)
  then have "sorted_wrt (wrap_key.refined pos (\<lambda>a b. R b a))
      (stable_sort (\<lambda>a b. wrap_less (snd a ! pos) (snd b ! pos)) (rev xs))"
    using assms(2) by (intro wrap_key.sort_refined) simp_all
  then show ?thesis
    using True by (simp add: py_sort_def sorted_wrt_rev wrap_key.refined_def [abs_def] dir_less_def)
next
  case False
  have "sorted_wrt (wrap_key.refined pos R)
      (stable_sort (\<lambda>a b. wrap_less (snd a ! pos) (snd b ! pos)) xs)"
    using assms by (intro wrap_key.sort_refined) simp_all
  then show ?thesis
    using False by (simp add: py_sort_def wrap_key.refined_def [abs_def] dir_less_def)
qed

lemma mset_py_sort [simp]: "mset (py_sort lt d xs) = mset xs"
  by (simp add: py_sort_def)

lemma set_py_sort [simp]: "set (py_sort lt d xs) = set xs"
  by (simp add: py_sort_def)

lemma filter_py_sort:
  assumes "\<And>a b. P a \<Longrightarrow> P b \<Longrightarrow> \<not> lt a b"
  shows "filter P (py_sort lt d xs) = filter P xs"
proof -
  have "filter P (stable_sort lt ys) = filter P ys" for ys
    using assms by (rule filter_stable_sort)
  then show ?thesis by (simp add: py_sort_def flip: rev_filter)
qed

lemma mset_sort_passes: "mset (sort_passes pos ds xs) = mset xs"
  by (induction ds arbitrary: pos) simp_all

lemma sort_passes_sorted:
  assumes "\<forall>x \<in> set xs. key_ok (pos + length ds) (snd x)"
  shows "sorted_wrt (in_order ds pos) (sort_passes pos ds xs)"
  using assms
proof (induction ds arbitrary: pos)
  case Nil
  have "sorted_wrt (\<lambda>_ _. True) xs" by (induction xs) simp_all
  then show ?case by (simp add: in_order_def)
next
  case (Cons d ds)
  let ?ys = "sort_passes (Suc pos) ds xs"
  have set: "set ?ys = set xs" by (rule mset_eq_setD[OF mset_sort_passes])
  have dr: "drop pos (snd x) = snd x ! pos # drop (Suc pos) (snd x)" if "x \<in> set xs" for x
    using Cons.prems that by (intro Cons_nth_drop_Suc[symmetric]) (simp add: key_ok_def)
  have "sorted_wrt (in_order ds (Suc pos)) ?ys" using Cons by simp
  moreover have "\<forall>x \<in> set ?ys. \<not> is_nan (snd x ! pos)"
    unfolding set using Cons.prems by (simp add: key_ok_def)
  ultimately have "sorted_wrt (\<lambda>a b. \<not> dir_less d (snd b ! pos) (snd a ! pos) \<and>
      (\<not> dir_less d (snd a ! pos) (snd b ! pos) \<longrightarrow> in_order ds (Suc pos) a b))
    (sort_passes pos (d # ds) xs)"
    by (simp add: py_sort_refined)
  then show ?case
    by (rule sorted_wrt_mono_rel[rotated]) (auto simp: in_order_def dr set)
qed

lemma sort_passes_stable:
  assumes "\<And>a b. P a \<Longrightarrow> P b \<Longrightarrow> \<not> key_less ds (drop pos (snd a)) (drop pos (snd b))"
    and "\<forall>x. P x \<longrightarrow> length (snd x) = pos + length ds"
  shows "filter P (sort_passes pos ds xs) = filter P xs"
  using assms
proof (induction ds arbitrary: pos)
  case Nil
  then show ?case by simp
next
  case (Cons d ds)
  have dr: "drop pos (snd x) = snd x ! pos # drop (Suc pos) (snd x)" if "P x" for x
  proof -
    have "length (snd x) = pos + length (d # ds)" using Cons.prems(2) that by blast
    then show ?thesis by (intro Cons_nth_drop_Suc[symmetric]) simp
  qed
  have no: "\<not> dir_less d (snd a ! pos) (snd b ! pos)" if "P a" "P b" for a b
    using Cons.prems(1)[OF that] dr that by simp
  have "\<not> wrap_less (snd a ! pos) (snd b ! pos)" if "P a" "P b" for a b
    using no[OF that] no[OF that(2,1)] by (simp add: dir_less_def split: if_splits)
  then have "filter P (sort_passes pos (d # ds) xs) = filter P (sort_passes (Suc pos) ds xs)"
    by (simp add: filter_py_sort)
  also have "\<dots> = filter P xs"
  proof (rule Cons.IH)
    show "\<not> key_less ds (drop (Suc pos) (snd a)) (drop (Suc pos) (snd b))" if "P a" "P b" for a b
      using Cons.prems(1)[OF that] no[OF that(2,1)] dr that by simp
    show "\<forall>x. P x \<longrightarrow> length (snd x) = Suc pos + length ds" using Cons.prems(2) by simp
  qed
  finally show ?case .
qed

lemma dir_less_negtrans:
  assumes "\<not> is_nan a" "\<not> is_nan b" "\<not> is_nan c" "\<not> dir_less d a b" "\<not> dir_less d b c"
  shows "\<not> dir_less d a c"
  using assms wrap_less_negtrans[of a b c] wrap_less_negtrans[of c b a]
  by (simp add: dir_less_def split: if_splits)

lemma key_less_negtrans:
  assumes "key_ok n as" "key_ok n bs" "key_ok n cs" "length ds = n"
    and "\<not> key_less ds as bs" "\<not> key_less ds bs cs"
  shows "\<not> key_less ds as cs"
  using assms
proof (induction ds arbitrary: n as bs cs)
  case Nil
  then show ?case by simp
next
  case (Cons d ds)
  obtain a as' b bs' c cs' where l: "as = a # as'" "bs = b # bs'" "cs = c # cs'"
    using Cons.prems(1-4) unfolding key_ok_def by (auto simp: length_Suc_conv)
  have nan: "\<not> is_nan a" "\<not> is_nan b" "\<not> is_nan c"
    using Cons.prems(1-3) by (simp_all add: l key_ok_def)
  have ok: "key_ok (length ds) as'" "key_ok (length ds) bs'" "key_ok (length ds) cs'"
    using Cons.prems(1-4) by (auto simp: l key_ok_def)
  have ab: "\<not> dir_less d a b" and bc: "\<not> dir_less d b c"
    using Cons.prems(5,6) by (simp_all add: l)
  have ac: "\<not> dir_less d a c" by (rule dir_less_negtrans[OF nan ab bc])
  have "dir_less d c a" if "dir_less d b a \<or> dir_less d c b"
  proof (rule ccontr)
    assume ca: "\<not> dir_less d c a"
    have "\<not> dir_less d b a" by (rule dir_less_negtrans[OF nan(2,3,1) bc ca])
    moreover have "\<not> dir_less d c b" by (rule dir_less_negtrans[OF nan(3,1,2) ca ab])
    ultimately show False using that by simp
  qed
  moreover have "\<not> key_less ds as' cs'" if "\<not> dir_less d b a" "\<not> dir_less d c b"
    using Cons.IH[OF ok] Cons.prems(5,6) that by (simp add: l)
  ultimately show ?case using ac by (auto simp: l)
qed

definition ties :: "bool list \<Rightarrow> val list \<Rightarrow> val list \<Rightarrow> bool" where
  "ties ds a b \<longleftrightarrow> key_ok (length ds) a \<and> \<not> key_less ds a b \<and> \<not> key_less ds b a"

text \<open>C13. \<open>ORDER BY k1 d1, ..., kn dn\<close>: the passes return the rows they were given, ordered
  lexicographically by the keys in their directions (NULL first ascending, last descending, text
  before numbers), and rows that tie on all keys keep the order they had.\<close>

theorem order_by_sorts:
  assumes "\<forall>x \<in> set xs. key_ok (length ds) (snd x)"
  shows "mset (sort_items ds xs) = mset xs \<and>
    sorted_wrt (\<lambda>a b. \<not> key_less ds (snd b) (snd a)) (sort_items ds xs) \<and>
    (\<forall>k. key_ok (length ds) k \<longrightarrow>
       filter (\<lambda>i. ties ds (snd i) k) (sort_items ds xs) = filter (\<lambda>i. ties ds (snd i) k) xs)"
proof -
  have "filter (\<lambda>i. ties ds (snd i) k) (sort_items ds xs) = filter (\<lambda>i. ties ds (snd i) k) xs"
    if k: "key_ok (length ds) k" for k
    unfolding sort_items_def
  proof (rule sort_passes_stable)
    show "\<not> key_less ds (drop 0 (snd a)) (drop 0 (snd b))"
      if "ties ds (snd a) k" "ties ds (snd b) k" for a b
      using key_less_negtrans[of "length ds" "snd a" k "snd b" ds] k that by (simp add: ties_def)
    show "\<forall>x. ties ds (snd x) k \<longrightarrow> length (snd x) = 0 + length ds"
      by (simp add: ties_def key_ok_def)
  qed
  then show ?thesis
    using sort_passes_sorted[of xs 0 ds] assms
    by (simp add: sort_items_def mset_sort_passes in_order_def [abs_def])
qed

theorem order_by_sorts_witness:
  "map fst (sort_items [False, True]
     [([VInt 1], [VText [98], VInt 5]), ([VInt 2], [VNull, VInt 7]), ([VInt 3], [VText [98], VInt 8]),
      ([VInt 4], [VText [98], VInt 5])]) = [[VInt 2], [VInt 3], [VInt 1], [VInt 4]] \<and>
   sorted_wrt (\<lambda>a b. \<not> key_less [False, True] (snd b) (snd a))
     (sort_items [False, True]
     [([VInt 1], [VText [98], VInt 5]), ([VInt 2], [VNull, VInt 7]), ([VInt 3], [VText [98], VInt 8]),
      ([VInt 4], [VText [98], VInt 5])])"
proof
  show "map fst (sort_items [False, True]
     [([VInt 1], [VText [98], VInt 5]), ([VInt 2], [VNull, VInt 7]), ([VInt 3], [VText [98], VInt 8]),
      ([VInt 4], [VText [98], VInt 5])]) = [[VInt 2], [VInt 3], [VInt 1], [VInt 4]]"
    by code_simp
  show "sorted_wrt (\<lambda>a b. \<not> key_less [False, True] (snd b) (snd a))
     (sort_items [False, True]
     [([VInt 1], [VText [98], VInt 5]), ([VInt 2], [VNull, VInt 7]), ([VInt 3], [VText [98], VInt 8]),
      ([VInt 4], [VText [98], VInt 5])])"
    by (rule order_by_sorts[THEN conjunct2, THEN conjunct1])
      (simp add: key_ok_def is_nan_def is_nan_view_def view_int_def)
qed

end
