(* ===== verification/SelectClaims.thy ===== *)
theory SelectClaims
  imports SelectSpec Ordering
begin

text \<open>
  Statements on a sample database: the pipeline at work, and where pushing conjuncts down is wrong.
\<close>

definition sample_lookup :: "string \<Rightarrow> table_meta res" where
  "sample_lookup nm =
     (if nm = ''t'' then Inr sample_meta else if nm = ''u'' then Inr other_meta else Inl CatalogError)"

text \<open>\<open>SELECT * FROM t <jt> JOIN u ON t.id = k WHERE <w>\<close>\<close>

definition sample_select :: "jointype \<Rightarrow> expr \<Rightarrow> select" where
  "sample_select jt w =
     \<lparr>s_distinct = False, s_table = ''t'', s_alias = None,
      s_joins = [\<lparr>jc_type = jt, jc_table = ''u'', jc_alias = None,
                  jc_on = BinOp B_eq (Column ''id'' (Some ''t'')) (Column ''k'' None)\<rparr>],
      s_where = Some w, s_items = [(Star, '''')], s_group = [], s_having = None, s_order = [],
      s_limit = None, s_offset = None\<rparr>"

definition sample_where :: expr where
  "sample_where =
     BinOp B_and (BinOp B_le (Literal (VInt 2)) (Column ''id'' None)) (UnaryOp U_not (IsNull (Column ''y'' None) False))"

definition sample_plan :: plan where
  "sample_plan =
     \<lparr>p_scan = \<lparr>sc_alias = ''t'', sc_meta = sample_meta, sc_kind = Scan_seq\<rparr>,
      p_joins = [\<lparr>j_type = J_left, j_alias = ''u'', j_meta = other_meta,
                  j_on = BinOp B_eq (Column ''id'' (Some ''t'')) (Column ''k'' None), j_hash = True,
                  j_equi = Some (Column ''id'' (Some ''t''), ''k''), j_build_right = True\<rparr>],
      p_filters = [(0, BinOp B_le (Literal (VInt 2)) (Column ''id'' None)),
                   (1, UnaryOp U_not (IsNull (Column ''y'' None) False))]\<rparr>"

lemma sample_plan_built:
  "build_select_plan sample_lookup (sample_select J_left sample_where) = Inr sample_plan"
  by code_simp

lemma sample_run:
  "scan_filter_join id sample_db sample_plan =
     Inr (join_scope, [[Some [VInt 2, VText [66]], Some [VInt 2, VText [67]]]])"
  by code_simp

lemma sample_db_ok: "db_ok sample_db"
  by (simp add: db_ok_def sample_db_def sample_meta_def other_meta_def)

theorem pushdown_preserves_rows_witness:
  "mset [[Some [VInt 2, VText [66]], Some [VInt 2, VText [67]]]] =
   mset (filter (\<lambda>ps. \<forall>c \<in> set (where_conjuncts (Some sample_where)). holds id join_scope c ps)
      (from_rows id sample_db (p_joins sample_plan) \<lparr>sources = [(''t'', sample_meta)], agg_aliases = []\<rparr>
        [[Some [VInt 1, VText [65]]], [Some [VInt 2, VText [66]]]]))"
proof -
  have base: "exec_scan sample_db (p_scan sample_plan) = Inr [(1, [VInt 1, VText [65]]), (2, [VInt 2, VText [66]])]"
    by code_simp
  have comp: "\<forall>c \<in> set (where_conjuncts (Some sample_where)). compiles id join_scope c"
    by (simp add: where_conjuncts_def sample_where_def compiles_def join_scope_def resolve_def sample_meta_def
        other_meta_def colnames_def column_index_def)
  show ?thesis
    using pushdown_preserves_rows[OF sample_plan_built sample_db_ok _ base _ sample_run] comp
    by (simp add: sample_select_def sample_plan_def sample_meta_def)
qed

text \<open>Below a \<open>RIGHT JOIN\<close> pushing down is wrong: \<open>SELECT * FROM t RIGHT JOIN u ON t.id = k
  WHERE id = 2\<close> returns a padded row whose \<open>id\<close> is NULL, on which the condition is not true.\<close>

theorem right_join_keeps_filtered_rows:
  "execute_select id sample_lookup sample_db
     (sample_select J_right (BinOp B_eq (Column ''id'' None) (Literal (VInt 2)))) =
   Inr ([''id'', ''x'', ''k'', ''y''],
     [[VInt 2, VText [66], VInt 2, VText [67]], [VNull, VNull, VInt 3, VText [68]]]) \<and>
   \<not> holds id join_scope (BinOp B_eq (Column ''id'' None) (Literal (VInt 2))) [None, Some [VInt 3, VText [68]]]"
  by (rule conjI; code_simp)

text \<open>\<open>SELECT * FROM t JOIN u ON t.id = k WHERE x LIKE y\<close> is refused: \<open>gather\<close> does not look
  at the pattern, so the conjunct is staged before \<open>u\<close> is joined and \<open>y\<close> does not resolve, while
  the same condition evaluates on the joined row.\<close>

theorem like_pattern_staged_too_early:
  "execute_select id sample_lookup sample_db
     (sample_select J_inner (LikeOp (Column ''x'' None) (Column ''y'' None) True)) = Inl ExecutionError \<and>
   holds id join_scope (LikeOp (Column ''x'' None) (Column ''y'' None) True)
     [Some [VInt 2, VText [66]], Some [VInt 2, VText [67]]]"
  by (rule conjI; code_simp)

end
