(* ===== verification/Json.thy ===== *)
theory Json
  imports Values
begin

text \<open>
  The part of Python's \<open>json\<close> module that \<open>leafdb/catalog.py\<close> uses: \<open>json.dumps\<close> on dicts, lists,
  strings, ints and bools, and \<open>json.loads\<close> on such texts, as lists of code points. The strings
  of a catalog are identifiers and type names, which \<open>dumps\<close> writes without escapes.
\<close>

datatype json = J_str ustr | J_int int | J_bool bool | J_list "json list" | J_obj "(ustr \<times> json) list"

section \<open>dumps\<close>

definition quoted :: "ustr \<Rightarrow> ustr" where
  "quoted s = 34 # s @ [34]"

fun sep_join :: "ustr list \<Rightarrow> ustr" where
  "sep_join [] = []"
| "sep_join [x] = x"
| "sep_join (x # xs) = x @ [44, 32] @ sep_join xs"

fun dumps :: "json \<Rightarrow> ustr" where
  "dumps (J_str s) = quoted s"
| "dumps (J_int i) = int_text i"
| "dumps (J_bool b) = (if b then [116, 114, 117, 101] else [102, 97, 108, 115, 101])"
| "dumps (J_list xs) = [91] @ sep_join (map dumps xs) @ [93]"
| "dumps (J_obj kvs) = [123] @ sep_join (map (\<lambda>(k, v). quoted k @ [58, 32] @ dumps v) kvs) @ [125]"

section \<open>loads\<close>

fun skip_ws :: "ustr \<Rightarrow> ustr" where
  "skip_ws [] = []"
| "skip_ws (c # cs) = (if c \<in> {32, 9, 10, 13} then skip_ws cs else c # cs)"

fun strip_prefix :: "ustr \<Rightarrow> ustr \<Rightarrow> ustr res" where
  "strip_prefix [] s = Inr s"
| "strip_prefix (p # ps) [] = Inl ValueError"
| "strip_prefix (p # ps) (c # cs) = (if p = c then strip_prefix ps cs else Inl ValueError)"

definition read_string :: "ustr \<Rightarrow> (ustr \<times> ustr) res" where
  "read_string s =
     bindE (strip_prefix [34] s) (\<lambda>r.
     bindE (strip_prefix [34] (dropWhile (\<lambda>c. c \<noteq> 34) r)) (\<lambda>rest.
     Inr (takeWhile (\<lambda>c. c \<noteq> 34) r, rest)))"

definition is_digit :: "int \<Rightarrow> bool" where
  "is_digit c \<longleftrightarrow> 48 \<le> c \<and> c \<le> 57"

definition digits_val :: "ustr \<Rightarrow> int" where
  "digits_val ds = foldl (\<lambda>a d. 10 * a + (d - 48)) 0 ds"

definition read_nat :: "ustr \<Rightarrow> (int \<times> ustr) res" where
  "read_nat s =
     (if takeWhile is_digit s = [] then Inl ValueError
      else Inr (digits_val (takeWhile is_digit s), dropWhile is_digit s))"

definition read_int :: "ustr \<Rightarrow> (int \<times> ustr) res" where
  "read_int s =
     (case s of
        c # cs \<Rightarrow> if c = 45 then bindE (read_nat cs) (\<lambda>(n, r). Inr (- n, r)) else read_nat s
      | [] \<Rightarrow> Inl ValueError)"

text \<open>One value; the fuel bounds the nesting and the lengths of lists, the length of the text is enough.\<close>

fun read_json :: "nat \<Rightarrow> ustr \<Rightarrow> (json \<times> ustr) res"
  and read_items :: "nat \<Rightarrow> ustr \<Rightarrow> (json list \<times> ustr) res"
  and read_pairs :: "nat \<Rightarrow> ustr \<Rightarrow> ((ustr \<times> json) list \<times> ustr) res" where
  "read_json 0 s = Inl OutOfFuel"
| "read_json (Suc n) s =
     (case skip_ws s of
        [] \<Rightarrow> Inl ValueError
      | c # cs \<Rightarrow>
          if c = 34 then bindE (read_string (c # cs)) (\<lambda>(x, r). Inr (J_str x, r))
          else if c = 91 then
            (if take 1 (skip_ws cs) = [93] then Inr (J_list [], drop 1 (skip_ws cs))
             else bindE (read_items n cs) (\<lambda>(xs, r). Inr (J_list xs, r)))
          else if c = 123 then
            (if take 1 (skip_ws cs) = [125] then Inr (J_obj [], drop 1 (skip_ws cs))
             else bindE (read_pairs n cs) (\<lambda>(xs, r). Inr (J_obj xs, r)))
          else if c = 116 then bindE (strip_prefix [116, 114, 117, 101] (c # cs)) (\<lambda>r. Inr (J_bool True, r))
          else if c = 102 then bindE (strip_prefix [102, 97, 108, 115, 101] (c # cs)) (\<lambda>r. Inr (J_bool False, r))
          else bindE (read_int (c # cs)) (\<lambda>(i, r). Inr (J_int i, r)))"
| "read_items 0 s = Inl OutOfFuel"
| "read_items (Suc n) s =
     bindE (read_json n s) (\<lambda>(x, r).
     case skip_ws r of
       [] \<Rightarrow> Inl ValueError
     | c # cs \<Rightarrow>
         if c = 44 then bindE (read_items n cs) (\<lambda>(xs, r'). Inr (x # xs, r'))
         else if c = 93 then Inr ([x], cs)
         else Inl ValueError)"
| "read_pairs 0 s = Inl OutOfFuel"
| "read_pairs (Suc n) s =
     bindE (read_string (skip_ws s)) (\<lambda>(k, r0).
     bindE (strip_prefix [58] (skip_ws r0)) (\<lambda>r1.
     bindE (read_json n r1) (\<lambda>(x, r).
     case skip_ws r of
       [] \<Rightarrow> Inl ValueError
     | c # cs \<Rightarrow>
         if c = 44 then bindE (read_pairs n cs) (\<lambda>(xs, r'). Inr ((k, x) # xs, r'))
         else if c = 125 then Inr ([(k, x)], cs)
         else Inl ValueError)))"

definition loads :: "ustr \<Rightarrow> json res" where
  "loads s =
     bindE (read_json (Suc (length s)) s) (\<lambda>(x, r). if skip_ws r = [] then Inr x else Inl ValueError)"

section \<open>Reading back what was written\<close>

text \<open>\<open>plain\<close>: no quote inside a string, so no escape is needed.\<close>

fun plain :: "json \<Rightarrow> bool" where
  "plain (J_str s) = (34 \<notin> set s)"
| "plain (J_int i) = True"
| "plain (J_bool b) = True"
| "plain (J_list xs) = (\<forall>x \<in> set xs. plain x)"
| "plain (J_obj kvs) = (\<forall>kv \<in> set kvs. 34 \<notin> set (fst kv) \<and> plain (snd kv))"

lemma digits_digit: "0 \<le> n \<Longrightarrow> \<forall>d \<in> set (digits n). is_digit d"
proof (induction n rule: digits.induct)
  case (1 n)
  then show ?case by (subst digits.simps) (auto simp: is_digit_def)
qed

lemma digits_ne [simp]: "digits n \<noteq> []"
  by (subst digits.simps) simp

lemma digits_val_append: "digits_val (xs @ [d]) = 10 * digits_val xs + (d - 48)"
  by (simp add: digits_val_def)

lemma digits_val_digits: "0 \<le> n \<Longrightarrow> digits_val (digits n) = n"
proof (induction n rule: digits.induct)
  case (1 n)
  show ?case
  proof (cases "n < 10")
    case True
    then show ?thesis by (subst digits.simps) (simp add: digits_val_def)
  next
    case False
    have "digits_val (digits n) = digits_val (digits (n div 10) @ [48 + n mod 10])"
      using False by (subst digits.simps) simp
    also have "\<dots> = 10 * (n div 10) + n mod 10"
      using 1 False by (simp add: digits_val_append)
    finally show ?thesis by simp
  qed
qed

lemma takeWhile_stop: "\<forall>x \<in> set xs. P x \<Longrightarrow> rest = [] \<or> \<not> P (hd rest) \<Longrightarrow> takeWhile P (xs @ rest) = xs"
  by (cases rest) (simp_all add: takeWhile_append)

lemma dropWhile_stop: "\<forall>x \<in> set xs. P x \<Longrightarrow> rest = [] \<or> \<not> P (hd rest) \<Longrightarrow> dropWhile P (xs @ rest) = rest"
  by (cases rest) (simp_all add: dropWhile_append)

definition stops :: "ustr \<Rightarrow> bool" where
  "stops rest \<longleftrightarrow> rest = [] \<or> \<not> is_digit (hd rest)"

lemma read_nat_digits: "0 \<le> n \<Longrightarrow> stops rest \<Longrightarrow> read_nat (digits n @ rest) = Inr (n, rest)"
  using takeWhile_stop[of "digits n" is_digit rest] dropWhile_stop[of "digits n" is_digit rest] digits_digit[of n]
  by (simp add: read_nat_def stops_def digits_val_digits)

lemma read_int_text: "stops rest \<Longrightarrow> read_int (int_text i @ rest) = Inr (i, rest)"
proof (cases "i < 0")
  case True
  assume "stops rest"
  then show ?thesis using True read_nat_digits[of "- i" rest] by (simp add: read_int_def int_text_def)
next
  case False
  assume s: "stops rest"
  obtain d ds where d: "digits i = d # ds" by (cases "digits i") simp_all
  then have "d \<noteq> 45" using digits_digit[of i] False by (auto simp: is_digit_def)
  then show ?thesis using False s read_nat_digits[of i rest] d by (simp add: read_int_def int_text_def)
qed

lemma read_string_quoted: "34 \<notin> set s \<Longrightarrow> read_string (quoted s @ rest) = Inr (s, rest)"
proof -
  assume "34 \<notin> set s"
  then have "\<forall>x \<in> set s. x \<noteq> 34" by auto
  then have "takeWhile (\<lambda>c. c \<noteq> 34) (s @ 34 # rest) = s" "dropWhile (\<lambda>c. c \<noteq> 34) (s @ 34 # rest) = 34 # rest"
    using takeWhile_stop[of s "\<lambda>c. c \<noteq> 34" "34 # rest"] dropWhile_stop[of s "\<lambda>c. c \<noteq> 34" "34 # rest"] by simp_all
  then show ?thesis by (simp add: read_string_def quoted_def)
qed

lemma skip_ws_stop: "c \<notin> {32, 9, 10, 13} \<Longrightarrow> skip_ws (c # cs) = c # cs"
  by simp

lemma read_json_space: "read_json n (32 # s) = read_json n s"
  by (cases n) simp_all

lemma read_items_space: "read_items n (32 # s) = read_items n s"
  by (cases n) (simp_all add: read_json_space)

lemma read_pairs_space: "read_pairs n (32 # s) = read_pairs n s"
  by (cases n) simp_all

definition starter :: "int \<Rightarrow> bool" where
  "starter c \<longleftrightarrow> c \<notin> {32, 9, 10, 13, 93, 125}"

lemma dumps_starts: "\<exists>c cs. dumps j = c # cs \<and> starter c"
proof (cases j)
  case (J_int i)
  obtain d ds where d: "digits \<bar>i\<bar> = d # ds" by (cases "digits \<bar>i\<bar>") simp_all
  then have "is_digit d" using digits_digit[of "\<bar>i\<bar>"] by simp
  then show ?thesis using J_int d
    by (cases "i < 0") (auto simp: int_text_def starter_def is_digit_def)
qed (auto simp: quoted_def starter_def)

lemma sep_join_Cons: "sep_join (x # xs) = x @ (if xs = [] then [] else [44, 32] @ sep_join xs)"
  by (cases xs) simp_all

definition reads :: "json \<Rightarrow> bool" where
  "reads j \<longleftrightarrow> (\<forall>n rest. length (dumps j) \<le> n \<longrightarrow> stops rest \<longrightarrow> read_json n (dumps j @ rest) = Inr (j, rest))"

lemma readsD: "reads j \<Longrightarrow> length (dumps j) \<le> n \<Longrightarrow> stops rest \<Longrightarrow> read_json n (dumps j @ rest) = Inr (j, rest)"
  by (simp add: reads_def)

lemma read_items_dumps:
  assumes "\<forall>x \<in> set xs. reads x" and "xs \<noteq> []" and "length (sep_join (map dumps xs)) < n"
  shows "read_items n (sep_join (map dumps xs) @ 93 # rest) = Inr (xs, rest)"
  using assms
proof (induction xs arbitrary: n)
  case Nil
  then show ?case by simp
next
  case (Cons x xs)
  obtain m where n: "n = Suc m" using Cons.prems(3) by (cases n) simp_all
  have x: "reads x" using Cons.prems(1) by simp
  show ?case
  proof (cases xs)
    case Nil
    have "length (dumps x) \<le> m" using Cons.prems(3) Nil n by simp
    then have "read_json m (dumps x @ 93 # rest) = Inr (x, 93 # rest)"
      using readsD[OF x] by (simp add: stops_def is_digit_def)
    then show ?thesis by (simp add: n Nil)
  next
    case (Cons y ys)
    let ?more = "sep_join (map dumps xs) @ 93 # rest"
    have len: "length (dumps x) \<le> m" "length (sep_join (map dumps xs)) < m"
      using Cons.prems(3) Cons n by simp_all
    have "read_json m (dumps x @ 44 # 32 # ?more) = Inr (x, 44 # 32 # ?more)"
      using readsD[OF x len(1)] by (simp add: stops_def is_digit_def)
    moreover have "read_items m ?more = Inr (xs, rest)"
      using Cons.IH[OF _ _ len(2)] Cons.prems(1) Cons by simp
    ultimately show ?thesis
      using Cons by (simp add: n read_items_space)
  qed
qed

abbreviation pair_text :: "ustr \<times> json \<Rightarrow> ustr" where
  "pair_text kv \<equiv> quoted (fst kv) @ [58, 32] @ dumps (snd kv)"

lemma read_pairs_dumps:
  assumes "\<forall>kv \<in> set kvs. 34 \<notin> set (fst kv) \<and> reads (snd kv)" and "kvs \<noteq> []"
    and "length (sep_join (map pair_text kvs)) < n"
  shows "read_pairs n (sep_join (map pair_text kvs) @ 125 # rest) = Inr (kvs, rest)"
  using assms
proof (induction kvs arbitrary: n)
  case Nil
  then show ?case by simp
next
  case (Cons kv kvs)
  obtain k x where kv: "kv = (k, x)" by (cases kv)
  obtain m where n: "n = Suc m" using Cons.prems(3) by (cases n) simp_all
  have x: "reads x" "34 \<notin> set k" using Cons.prems(1) kv by simp_all
  have key: "read_string (skip_ws (quoted k @ 58 # 32 # dumps x @ r)) = Inr (k, 58 # 32 # dumps x @ r)" for r
    using read_string_quoted[OF x(2)] by (simp add: quoted_def)
  show ?case
  proof (cases kvs)
    case Nil
    have "length (dumps x) \<le> m" using Cons.prems(3) Nil n kv by simp
    then have "read_json m (dumps x @ 125 # rest) = Inr (x, 125 # rest)"
      using readsD[OF x(1)] by (simp add: stops_def is_digit_def)
    then show ?thesis using key[of "125 # rest"] by (simp add: n Nil kv read_json_space)
  next
    case (Cons y ys)
    let ?more = "sep_join (map pair_text kvs) @ 125 # rest"
    have len: "length (dumps x) \<le> m" "length (sep_join (map pair_text kvs)) < m"
      using Cons.prems(3) Cons n kv by simp_all
    have "read_json m (dumps x @ 44 # 32 # ?more) = Inr (x, 44 # 32 # ?more)"
      using readsD[OF x(1) len(1)] by (simp add: stops_def is_digit_def)
    moreover have "read_pairs m ?more = Inr (kvs, rest)"
      using Cons.IH[OF _ _ len(2)] Cons.prems(1) Cons by simp
    ultimately show ?thesis
      using Cons key[of "44 # 32 # ?more"] by (simp add: n kv read_json_space read_pairs_space)
  qed
qed

lemma plain_reads: "plain j \<Longrightarrow> reads j"
proof (induction j)
  case (J_str s)
  show ?case unfolding reads_def
  proof (intro allI impI)
    fix n rest assume "length (dumps (J_str s)) \<le> n"
    then obtain m where n: "n = Suc m" by (cases n) (simp_all add: quoted_def)
    show "read_json n (dumps (J_str s) @ rest) = Inr (J_str s, rest)"
      using read_string_quoted[of s rest] J_str by (simp add: n quoted_def)
  qed
next
  case (J_int i)
  show ?case unfolding reads_def
  proof (intro allI impI)
    fix n rest assume len: "length (dumps (J_int i)) \<le> n" and st: "stops rest"
    obtain c cs where c: "dumps (J_int i) = c # cs" "starter c" using dumps_starts by blast
    have "c = 45 \<or> is_digit c"
    proof (cases "i < 0")
      case True
      then show ?thesis using c by (simp add: int_text_def)
    next
      case False
      then show ?thesis using c digits_digit[of i] by (auto simp: int_text_def)
    qed
    then have "c \<notin> {32, 9, 10, 13}" "c \<notin> {34, 91, 123, 116, 102}" by (auto simp: is_digit_def)
    moreover obtain m where "n = Suc m" using len c by (cases n) simp_all
    ultimately show "read_json n (dumps (J_int i) @ rest) = Inr (J_int i, rest)"
      using read_int_text[OF st, of i] c by simp
  qed
next
  case (J_bool b)
  show ?case unfolding reads_def
  proof (intro allI impI)
    fix n rest assume "length (dumps (J_bool b)) \<le> n"
    then obtain m where n: "n = Suc m" by (cases n) (simp_all split: if_splits)
    show "read_json n (dumps (J_bool b) @ rest) = Inr (J_bool b, rest)" by (simp add: n)
  qed
next
  case (J_list xs)
  show ?case unfolding reads_def
  proof (intro allI impI)
    fix n rest assume len: "length (dumps (J_list xs)) \<le> n"
    then obtain m where n: "n = Suc m" by (cases n) simp_all
    show "read_json n (dumps (J_list xs) @ rest) = Inr (J_list xs, rest)"
    proof (cases xs)
      case Nil
      then show ?thesis by (simp add: n)
    next
      case (Cons x ys)
      obtain c cs where c: "dumps x = c # cs" "starter c" using dumps_starts by blast
      have "read_items m (sep_join (map dumps xs) @ 93 # rest) = Inr (xs, rest)"
        using J_list Cons len n by (intro read_items_dumps) simp_all
      moreover have "take 1 (skip_ws (sep_join (map dumps xs) @ 93 # rest)) \<noteq> [93]"
        using c by (simp add: Cons sep_join_Cons starter_def)
      ultimately show ?thesis by (simp add: n)
    qed
  qed
next
  case (J_obj kvs)
  have eq: "dumps (J_obj kvs) = [123] @ sep_join (map pair_text kvs) @ [125]"
    by (simp add: case_prod_unfold)
  show ?case unfolding reads_def
  proof (intro allI impI)
    fix n rest assume "length (dumps (J_obj kvs)) \<le> n"
    then have len: "Suc (Suc (length (sep_join (map pair_text kvs)))) \<le> n" unfolding eq by simp
    then obtain m where n: "n = Suc m" by (cases n) simp_all
    show "read_json n (dumps (J_obj kvs) @ rest) = Inr (J_obj kvs, rest)"
    proof (cases kvs)
      case Nil
      then show ?thesis by (simp add: n)
    next
      case (Cons kv ys)
      have "\<forall>kv \<in> set kvs. 34 \<notin> set (fst kv) \<and> reads (snd kv)" using J_obj by (fastforce elim: snds.cases)
      then have "read_pairs m (sep_join (map pair_text kvs) @ 125 # rest) = Inr (kvs, rest)"
        using Cons len n by (intro read_pairs_dumps) simp_all
      moreover have "take 1 (skip_ws (sep_join (map pair_text kvs) @ 125 # rest)) \<noteq> [125]"
        by (simp add: Cons sep_join_Cons quoted_def)
      ultimately show ?thesis unfolding eq n by simp
    qed
  qed
qed

lemma loads_dumps: "plain j \<Longrightarrow> loads (dumps j) = Inr j"
  using readsD[OF plain_reads, of j "Suc (length (dumps j))" "[]"] by (simp add: loads_def stops_def)

end
