(* ===== verification/CatalogStore.thy ===== *)
theory CatalogStore
  imports Json Catalog TreeStore
begin

text \<open>
  The catalog on page 0: \<open>TableMeta.to_dict\<close> and \<open>from_dict\<close>, \<open>Catalog.to_json\<close>, \<open>save\<close> and
  \<open>load\<close>. What is loaded is what was saved, without the list of free pages.
\<close>

section \<open>TableMeta\<close>

definition codes :: "string \<Rightarrow> ustr" where
  "codes s = map of_char s"

definition chars :: "ustr \<Rightarrow> string" where
  "chars s = map char_of s"

fun type_name :: "coltype \<Rightarrow> string" where
  "type_name TInt = ''INT''"
| "type_name TFloat = ''FLOAT''"
| "type_name TText = ''TEXT''"
| "type_name (BadType s) = s"

definition type_of_name :: "string \<Rightarrow> coltype" where
  "type_of_name s =
     (if s = ''INT'' then TInt else if s = ''FLOAT'' then TFloat else if s = ''TEXT'' then TText else BadType s)"

definition column_json :: "column \<Rightarrow> json" where
  "column_json c =
     J_obj [(codes ''name'', J_str (codes (cname c))), (codes ''type'', J_str (codes (type_name (ctype c)))),
            (codes ''pk'', J_bool (cpk c))]"

definition to_dict :: "table_meta \<Rightarrow> json" where
  "to_dict m =
     J_obj [(codes ''name'', J_str (codes (tname m))),
            (codes ''columns'', J_list (map column_json (columns m))),
            (codes ''root_page'', J_int (int (root_page m))),
            (codes ''row_count'', J_int (row_count m)),
            (codes ''next_rowid'', J_int (next_rowid m)),
            (codes ''indexes'', J_obj (map (\<lambda>(c, i). (codes c, J_str (codes i))) (indexes m)))]"

text \<open>Reading the parts of a JSON value; Python would fail later, at the first use of a wrong part.\<close>

definition item_of :: "json \<Rightarrow> string \<Rightarrow> json option res" where
  "item_of j k = (case j of J_obj kvs \<Rightarrow> Inr (map_of kvs (codes k)) | _ \<Rightarrow> Inl TypeError)"

definition need :: "json \<Rightarrow> string \<Rightarrow> json res" where
  "need j k = bindE (item_of j k) (\<lambda>v. case v of None \<Rightarrow> Inl KeyError | Some x \<Rightarrow> Inr x)"

definition get_default :: "json \<Rightarrow> string \<Rightarrow> json \<Rightarrow> json res" where
  "get_default j k d = bindE (item_of j k) (\<lambda>v. Inr (case v of None \<Rightarrow> d | Some x \<Rightarrow> x))"

fun as_str :: "json \<Rightarrow> string res" where
  "as_str (J_str s) = Inr (chars s)"
| "as_str _ = Inl TypeError"

fun as_int :: "json \<Rightarrow> int res" where
  "as_int (J_int i) = Inr i"
| "as_int _ = Inl TypeError"

fun as_bool :: "json \<Rightarrow> bool res" where
  "as_bool (J_bool b) = Inr b"
| "as_bool _ = Inl TypeError"

fun as_list :: "json \<Rightarrow> json list res" where
  "as_list (J_list xs) = Inr xs"
| "as_list _ = Inl TypeError"

fun as_pairs :: "json \<Rightarrow> (ustr \<times> json) list res" where
  "as_pairs (J_obj kvs) = Inr kvs"
| "as_pairs _ = Inl TypeError"

definition column_of :: "json \<Rightarrow> column res" where
  "column_of j =
     bindE (need j ''name'') (\<lambda>n. bindE (as_str n) (\<lambda>nm.
     bindE (need j ''type'') (\<lambda>t. bindE (as_str t) (\<lambda>ty.
     bindE (get_default j ''pk'' (J_bool False)) (\<lambda>p. bindE (as_bool p) (\<lambda>pk.
     Inr \<lparr>cname = nm, ctype = type_of_name ty, cpk = pk\<rparr>))))))"

definition from_dict :: "json \<Rightarrow> table_meta res" where
  "from_dict j =
     bindE (need j ''name'') (\<lambda>a. bindE (as_str a) (\<lambda>nm.
     bindE (need j ''columns'') (\<lambda>b. bindE (as_list b) (\<lambda>cs. bindE (mapE column_of cs) (\<lambda>cols.
     bindE (need j ''root_page'') (\<lambda>c. bindE (as_int c) (\<lambda>root.
     bindE (get_default j ''row_count'' (J_int 0)) (\<lambda>d. bindE (as_int d) (\<lambda>rc.
     bindE (get_default j ''next_rowid'' (J_int 1)) (\<lambda>e. bindE (as_int e) (\<lambda>nr.
     bindE (get_default j ''indexes'' (J_obj [])) (\<lambda>f. bindE (as_pairs f) (\<lambda>kvs.
     bindE (mapE (\<lambda>kv. bindE (as_str (snd kv)) (\<lambda>s. Inr (chars (fst kv), s))) kvs) (\<lambda>ixs.
     Inr \<lparr>tname = nm, columns = cols, root_page = nat root, row_count = rc, next_rowid = nr, indexes = ixs\<rparr>))))))))))))))"

section \<open>Catalog\<close>

definition to_json :: "catalog \<Rightarrow> json" where
  "to_json c =
     J_obj [(codes ''tables'', J_obj (map (\<lambda>(n, m). (codes n, to_dict m)) (tables c))),
            (codes ''free_pages'', J_list (map (\<lambda>p. J_int (int p)) (free_pages c)))]"

definition catalog_text :: "catalog \<Rightarrow> bytes res" where
  "catalog_text c =
     bindE (utf8_encode (dumps (to_json c))) (\<lambda>raw.
     if PAGE_SIZE - 8 < length raw then Inl CatalogError else Inr raw)"

definition save_catalog :: "catalog \<Rightarrow> (bstate, unit) prog" where
  "save_catalog c = bindP (liftE (catalog_text c)) (bt_write 0)"

definition parse_catalog :: "bytes \<Rightarrow> catalog res" where
  "parse_catalog raw =
     (if raw = [] then Inr empty_catalog else
      bindE (utf8_decode raw) (\<lambda>t. bindE (loads t) (\<lambda>data.
      bindE (need data ''tables'') (\<lambda>ts. bindE (as_pairs ts) (\<lambda>kvs.
      bindE (mapE (\<lambda>kv. bindE (from_dict (snd kv)) (\<lambda>m. Inr (chars (fst kv), m))) kvs) (\<lambda>tabs.
      Inr \<lparr>tables = tabs, free_pages = []\<rparr>))))))"

definition rstrip_zeros :: "bytes \<Rightarrow> bytes" where
  "rstrip_zeros b = rev (dropWhile (\<lambda>x. x = 0) (rev b))"

definition load_catalog :: "(pager, catalog) prog" where
  "load_catalog = bindP (pager_get 0) (\<lambda>d. liftE (parse_catalog (rstrip_zeros (snd d))))"

section \<open>Round trip\<close>

text \<open>Names as the tokenizer makes them: ASCII, no quotes. The table's key is its name.\<close>

definition name_ok :: "string \<Rightarrow> bool" where
  "name_ok s \<longleftrightarrow> (\<forall>c \<in> set s. (of_char c :: int) < 128 \<and> c \<noteq> CHR 0x22 \<and> c \<noteq> CHR 0x00)"

definition meta_ok :: "table_meta \<Rightarrow> bool" where
  "meta_ok m \<longleftrightarrow> name_ok (tname m) \<and>
     (\<forall>c \<in> set (columns m). name_ok (cname c) \<and> ctype c \<in> {TInt, TFloat, TText}) \<and>
     (\<forall>(c, i) \<in> set (indexes m). name_ok c \<and> name_ok i)"

definition catalog_ok :: "catalog \<Rightarrow> bool" where
  "catalog_ok c \<longleftrightarrow> (\<forall>(n, m) \<in> set (tables c). name_ok n \<and> meta_ok m)"

lemma chars_codes [simp]: "chars (codes s) = s"
  by (simp add: chars_def codes_def comp_def)

lemma codes_inj: "codes s = codes t \<longleftrightarrow> s = t"
  by (metis chars_codes)

lemma codes_plain: "name_ok s \<Longrightarrow> 34 \<notin> set (codes s)"
proof
  assume "name_ok s" "34 \<in> set (codes s)"
  then obtain c where c: "c \<in> set s" "(of_char c :: int) = 34" by (auto simp: codes_def)
  then have "char_of (of_char c :: int) = (char_of (34 :: int) :: char)" by simp
  also have "(char_of (34 :: int) :: char) = CHR 0x22" by (simp add: char_of_def)
  finally have "c = CHR 0x22" by simp
  then show False using \<open>name_ok s\<close> c(1) by (auto simp: name_ok_def)
qed

lemma mapE_map_Inr: "(\<And>x. x \<in> set xs \<Longrightarrow> f (g x) = Inr (h x)) \<Longrightarrow> mapE f (map g xs) = Inr (map h xs)"
  by (induction xs) simp_all

lemma type_of_name: "t \<in> {TInt, TFloat, TText} \<Longrightarrow> type_of_name (type_name t) = t"
  by (auto simp: type_of_name_def)

lemma column_of_json:
  assumes "ctype c \<in> {TInt, TFloat, TText}"
  shows "column_of (column_json c) = Inr c"
  using type_of_name[OF assms]
  by (simp add: column_of_def column_json_def need_def get_default_def item_of_def codes_inj)

lemma from_to_dict:
  assumes "meta_ok m"
  shows "from_dict (to_dict m) = Inr m"
proof -
  have "mapE column_of (map column_json (columns m)) = Inr (map id (columns m))"
    using assms by (intro mapE_map_Inr) (auto simp: meta_ok_def column_of_json)
  moreover have "mapE (\<lambda>kv. bindE (as_str (snd kv)) (\<lambda>s. Inr (chars (fst kv), s)))
      (map (\<lambda>(c, i). (codes c, J_str (codes i))) (indexes m)) = Inr (map id (indexes m))"
    by (intro mapE_map_Inr) auto
  ultimately show ?thesis
    by (simp add: from_dict_def to_dict_def need_def get_default_def item_of_def codes_inj)
qed

lemma codes_ustr [simp]: "is_ustr (codes s)"
proof -
  have r: "0 \<le> (of_char c :: int) \<and> (of_char c :: int) < 256" for c
    by (simp add: of_char_def horner_sum_eq_sum nat_eq_iff)
  have "0 \<le> (of_char c :: int) \<and> (of_char c :: int) < 0x110000" for c
    using r[of c] by linarith
  then show ?thesis by (simp add: is_ustr_def codes_def list_all_iff)
qed

fun texts_ok :: "json \<Rightarrow> bool" where
  "texts_ok (J_str s) = is_ustr s"
| "texts_ok (J_int i) = True"
| "texts_ok (J_bool b) = True"
| "texts_ok (J_list xs) = (\<forall>x \<in> set xs. texts_ok x)"
| "texts_ok (J_obj kvs) = (\<forall>kv \<in> set kvs. is_ustr (fst kv) \<and> texts_ok (snd kv))"

lemma is_ustr_append [simp]: "is_ustr (xs @ ys) \<longleftrightarrow> is_ustr xs \<and> is_ustr ys"
  by (simp add: is_ustr_def)

lemma is_ustr_Cons [simp]: "is_ustr (c # cs) \<longleftrightarrow> 0 \<le> c \<and> c < 0x110000 \<and> is_ustr cs"
  by (auto simp: is_ustr_def)

lemma is_ustr_Nil [simp]: "is_ustr []"
  by (simp add: is_ustr_def)

lemma sep_join_ustr: "\<forall>x \<in> set xs. is_ustr x \<Longrightarrow> is_ustr (sep_join xs)"
  by (induction xs rule: sep_join.induct) simp_all

lemma int_text_ustr: "is_ustr (int_text i)"
proof -
  have "is_ustr (digits n)" if "0 \<le> n" for n
    using digits_digit[OF that] by (auto simp: is_ustr_def list_all_iff is_digit_def)
  then show ?thesis by (simp add: int_text_def)
qed

lemma dumps_ustr: "texts_ok j \<Longrightarrow> is_ustr (dumps j)"
proof (induction j)
  case (J_list xs)
  then show ?case by (auto intro!: sep_join_ustr)
next
  case (J_obj kvs)
  have "\<forall>x \<in> set (map (\<lambda>(k, v). quoted k @ [58, 32] @ dumps v) kvs). is_ustr x"
  proof
    fix x assume "x \<in> set (map (\<lambda>(k, v). quoted k @ [58, 32] @ dumps v) kvs)"
    then obtain k v where kv: "(k, v) \<in> set kvs" "x = quoted k @ [58, 32] @ dumps v" by auto
    then have "is_ustr (dumps v)" using J_obj.IH[OF kv(1), of v] J_obj.prems by auto
    then show "is_ustr x" using kv J_obj.prems by (auto simp: quoted_def)
  qed
  then show ?case by (simp add: sep_join_ustr)
qed (auto simp: quoted_def int_text_ustr)

lemma utf8_encode_append:
  "utf8_encode (xs @ ys) = bindE (utf8_encode xs) (\<lambda>a. bindE (utf8_encode ys) (\<lambda>b. Inr (a @ b)))"
  by (induction xs) (auto simp: bindE_def split: sum.splits)

lemma rstrip_last: "x \<noteq> 0 \<Longrightarrow> rstrip_zeros ((b @ [x]) @ replicate n 0) = b @ [x]"
proof -
  assume x: "x \<noteq> 0"
  have "dropWhile (\<lambda>x. x = 0) (replicate n 0 @ x # ys) = x # ys" for ys by (induction n) (simp_all add: x)
  then show ?thesis by (simp add: rstrip_zeros_def)
qed

lemma to_json_ok:
  assumes "catalog_ok c"
  shows "plain (to_json c)" "texts_ok (to_json c)"
proof -
  have m: "plain (to_dict m) \<and> texts_ok (to_dict m)" if "meta_ok m" for m
  proof -
    have "name_ok (type_name t)" if "t \<in> {TInt, TFloat, TText}" for t
      using that by (auto simp: name_ok_def)
    moreover have "name_ok ''name'' \<and> name_ok ''type'' \<and> name_ok ''pk'' \<and> name_ok ''columns'' \<and> name_ok ''root_page'' \<and>
        name_ok ''row_count'' \<and> name_ok ''next_rowid'' \<and> name_ok ''indexes''"
      by (simp add: name_ok_def)
    ultimately show ?thesis using that codes_plain
      by (auto simp: to_dict_def column_json_def meta_ok_def)
  qed
  have "name_ok ''tables'' \<and> name_ok ''free_pages''" by (simp add: name_ok_def)
  then show "plain (to_json c)" "texts_ok (to_json c)"
    using assms m codes_plain by (auto simp: to_json_def catalog_ok_def)
qed

lemma parse_catalog_text:
  assumes "catalog_ok c" and "catalog_text c = Inr raw"
  shows "parse_catalog (rstrip_zeros (pad_to PAGE_SIZE raw)) = Inr (c\<lparr>free_pages := []\<rparr>)"
proof -
  have enc: "utf8_encode (dumps (to_json c)) = Inr raw" using assms(2) by (auto simp: catalog_text_def split: if_splits)
  obtain body where body: "dumps (to_json c) = body @ [125]" by (simp add: to_json_def)
  obtain b where raw: "raw = b @ [125]"
    using enc unfolding body utf8_encode_append by (auto simp: utf8_char_def byte_of_def)
  have "rstrip_zeros (pad_to PAGE_SIZE raw) = raw"
    unfolding raw pad_to_def by (rule rstrip_last) simp
  moreover have "utf8_decode raw = Inr (dumps (to_json c))"
    by (rule utf8_round_trip[OF dumps_ustr enc]) (rule to_json_ok(2)[OF assms(1)])
  moreover have "loads (dumps (to_json c)) = Inr (to_json c)"
    by (rule loads_dumps) (rule to_json_ok(1)[OF assms(1)])
  moreover have "mapE (\<lambda>kv. bindE (from_dict (snd kv)) (\<lambda>m. Inr (chars (fst kv), m)))
      (map (\<lambda>(n, m). (codes n, to_dict m)) (tables c)) = Inr (map id (tables c))"
    using assms(1) from_to_dict by (intro mapE_map_Inr) (auto simp: catalog_ok_def)
  ultimately show ?thesis using raw
    by (simp add: parse_catalog_def to_json_def need_def item_of_def codes_inj)
qed

text \<open>C29. A catalog that is saved is loaded again as it was, every table with its columns, root,
  counters and indexes, except for the list of free pages, which \<open>load\<close> leaves empty.\<close>

theorem catalog_reload:
  assumes "pager_inv (bpager s)" and "catalog_ok c" and "catalog_text c = Inr raw"
  shows "\<exists>s' p. save_catalog c s = (Inr (), s') \<and> load_catalog (bpager s') = (Inr (c\<lparr>free_pages := []\<rparr>), p)"
proof -
  have len: "length raw \<le> PAGE_SIZE" using assms(3) by (auto simp: catalog_text_def split: if_splits)
  obtain q where q: "pager_write 0 raw (bpager s) = (Inr (), q)"
    "page_image q = (page_image (bpager s))(0 := pad_to PAGE_SIZE raw)" "pager_inv q"
    using pager_write_ok[OF assms(1) len, of 0] by blast
  obtain d p where d: "pager_get 0 q = (Inr d, p)" "snd d = page_image q 0"
    using pager_get_ok[OF q(3), of 0] by blast
  have "save_catalog c s = (Inr (), s\<lparr>bpager := q\<rparr>)"
    using assms(3) q(1) by (simp add: save_catalog_def bindP_app liftE_def bt_write_def)
  moreover have "load_catalog q = (Inr (c\<lparr>free_pages := []\<rparr>), p)"
    using d q(2) parse_catalog_text[OF assms(2,3)] by (simp add: load_catalog_def bindP_app liftE_def)
  ultimately show ?thesis by auto
qed

definition demo_catalog :: catalog where
  "demo_catalog =
     \<lparr>tables = [(''t'', \<lparr>tname = ''t'', columns = [\<lparr>cname = ''id'', ctype = TInt, cpk = True\<rparr>], root_page = 1,
                         row_count = 2, next_rowid = 3, indexes = []\<rparr>)], free_pages = [5, 4]\<rparr>"

lemma catalog_reload_witness:
  "\<exists>s' p. save_catalog demo_catalog \<lparr>bpager = pager_init [] 8, ncache = []\<rparr> = (Inr (), s') \<and>
     load_catalog (bpager s') = (Inr (demo_catalog\<lparr>free_pages := []\<rparr>), p)"
proof -
  have "isl (catalog_text demo_catalog) = False" by code_simp
  then obtain raw where raw: "catalog_text demo_catalog = Inr raw" by (cases "catalog_text demo_catalog") simp_all
  have "pager_inv (bpager \<lparr>bpager = pager_init [] 8, ncache = []\<rparr>)" using pager_init_inv[of 8 "[]"] by simp
  moreover have "catalog_ok demo_catalog"
    by (simp add: catalog_ok_def demo_catalog_def meta_ok_def name_ok_def)
  ultimately show ?thesis using catalog_reload[OF _ _ raw] by blast
qed

end
