(* ===== verification/Engine.thy ===== *)
theory Engine
  imports Planner CatalogStore Session
begin

text \<open>
  \<open>Database\<close> of \<open>leafdb/engine.py\<close> above the storage layer: table scans, secondary indexes, the
  statements, and the transactions with the snapshot of catalog and indexes. The state holds the
  pager with the node cache, the log, the catalog and the indexes. Locks and elapsed times
  are left out, the statement cache is in \<open>Service\<close>; a statement's \<open>Result\<close> is its columns and rows or its row count.

  A snapshot's \<open>to_dict\<close> shares the \<open>indexes\<close> dict of every table with the live catalog:
  \<open>sn_shared\<close> names the tables for which it still is the same dict object.
\<close>

type_synonym index = "(val \<times> int set) list"
type_synonym index_dict = "((string \<times> string) \<times> index) list"

record snapshot =
  sn_indexes :: index_dict
  sn_metas :: "(string \<times> table_meta) list"
  sn_shared :: "string list"

record engine =
  e_bt :: bstate
  e_log :: bytes
  e_pos :: nat
  e_txn :: bool
  e_cat :: catalog
  e_idx :: index_dict
  e_snap :: "snapshot option"

section \<open>Running the layers below\<close>

definition on_bt :: "(bstate, 'a) prog \<Rightarrow> (engine, 'a) prog" where
  "on_bt m e = (let (r, s) = m (e_bt e) in (r, e\<lparr>e_bt := s\<rparr>))"

definition session_of :: "engine \<Rightarrow> session" where
  "session_of e = \<lparr>pgr = bpager (e_bt e), log = e_log e, log_pos = e_pos e, in_txn = e_txn e\<rparr>"

definition on_session :: "(session, 'a) prog \<Rightarrow> (engine, 'a) prog" where
  "on_session m e =
     (let (r, s) = m (session_of e)
      in (r, e\<lparr>e_bt := (e_bt e)\<lparr>bpager := pgr s\<rparr>, e_log := log s, e_pos := log_pos s, e_txn := in_txn s\<rparr>))"

text \<open>Descents: 32 levels; scans: one step per level or leaf.\<close>

definition search_row :: "table_meta \<Rightarrow> int \<Rightarrow> (engine, row option) prog" where
  "search_row m key =
     bindP (on_bt (search bt_store 32 (root_page m) key)) (\<lambda>b.
     case b of
       None \<Rightarrow> ret None
     | Some v \<Rightarrow> bindP (liftE (decode_row (types m) v)) (\<lambda>r. ret (Some r)))"

definition scan_table :: "table_meta \<Rightarrow> (engine, (int \<times> row) list) prog" where
  "scan_table m =
     bindP (on_bt (\<lambda>s. range_scan bt_store (32 + bt_npages s) (root_page m) None None s)) (\<lambda>cs.
     liftE (mapE (\<lambda>c. bindE (decode_row (types m) (snd c)) (\<lambda>r. Inr (fst c, r))) cs))"

section \<open>Secondary indexes\<close>

fun idx_add :: "val \<Rightarrow> int \<Rightarrow> index \<Rightarrow> index" where
  "idx_add v rid [] = [(v, {rid})]"
| "idx_add v rid ((w, rids) # t) = (if py_eq w v then (w, insert rid rids) # t else (w, rids) # idx_add v rid t)"

fun idx_discard :: "val \<Rightarrow> int \<Rightarrow> index \<Rightarrow> index" where
  "idx_discard v rid [] = []"
| "idx_discard v rid ((w, rids) # t) = (if py_eq w v then (w, rids - {rid}) # t else (w, rids) # idx_discard v rid t)"

fun idx_get :: "val \<Rightarrow> index \<Rightarrow> int set" where
  "idx_get v [] = {}"
| "idx_get v ((w, rids) # t) = (if py_eq w v then rids else idx_get v t)"

fun lookup_rows :: "table_meta \<Rightarrow> int list \<Rightarrow> (engine, (int \<times> row) list) prog" where
  "lookup_rows m [] = ret []"
| "lookup_rows m (rid # rids) =
     bindP (search_row m rid) (\<lambda>r.
     bindP (lookup_rows m rids) (\<lambda>rest. ret (case r of None \<Rightarrow> rest | Some rw \<Rightarrow> (rid, rw) # rest)))"

definition index_lookup :: "table_meta \<Rightarrow> string \<Rightarrow> val \<Rightarrow> (engine, (int \<times> row) list) prog" where
  "index_lookup m col v e =
     (case map_of (e_idx e) (tname m, col) of
        None \<Rightarrow> (Inr [], e)
      | Some ix \<Rightarrow>
          bindP (liftE (column_index m col)) (\<lambda>_. lookup_rows m (sorted_list_of_set (idx_get v ix))) e)"

definition put_index :: "string \<times> string \<Rightarrow> index \<Rightarrow> engine \<Rightarrow> engine" where
  "put_index key ix e = e\<lparr>e_idx := AList.update key ix (e_idx e)\<rparr>"

definition the_index :: "engine \<Rightarrow> string \<times> string \<Rightarrow> index" where
  "the_index e key = (case map_of (e_idx e) key of None \<Rightarrow> [] | Some ix \<Rightarrow> ix)"

fun add_to_indexes :: "string \<Rightarrow> int \<Rightarrow> row \<Rightarrow> (string \<times> nat) list \<Rightarrow> (engine, unit) prog" where
  "add_to_indexes nm rid rw [] = ret ()"
| "add_to_indexes nm rid rw ((c, j) # cs) =
     bindP (liftE (nth_err rw j)) (\<lambda>v.
     if v = VNull then add_to_indexes nm rid rw cs
     else (\<lambda>e. add_to_indexes nm rid rw cs (put_index (nm, c) (idx_add v rid (the_index e (nm, c))) e)))"

definition index_add :: "table_meta \<Rightarrow> int \<Rightarrow> row \<Rightarrow> (engine, unit) prog" where
  "index_add m rid rw =
     bindP (liftE (mapE (\<lambda>c. bindE (column_index m c) (\<lambda>j. Inr (c, j))) (map fst (indexes m))))
       (add_to_indexes (tname m) rid rw)"

fun remove_from_indexes :: "table_meta \<Rightarrow> int \<Rightarrow> row \<Rightarrow> string list \<Rightarrow> (engine, unit) prog" where
  "remove_from_indexes m rid rw [] = ret ()"
| "remove_from_indexes m rid rw (c # cs) =
     bindP (liftE (column_index m c)) (\<lambda>j.
     bindP (liftE (nth_err rw j)) (\<lambda>v.
     if v = VNull then remove_from_indexes m rid rw cs
     else (\<lambda>e. remove_from_indexes m rid rw cs
            (case map_of (e_idx e) (tname m, c) of
               None \<Rightarrow> e | Some ix \<Rightarrow> put_index (tname m, c) (idx_discard v rid ix) e))))"

definition index_remove :: "table_meta \<Rightarrow> int \<Rightarrow> row \<Rightarrow> (engine, unit) prog" where
  "index_remove m rid rw = remove_from_indexes m rid rw (map fst (indexes m))"

text \<open>The loop that fills a new index from the rows of the table.\<close>

fun fill_index :: "nat \<Rightarrow> (int \<times> row) list \<Rightarrow> index \<Rightarrow> index res" where
  "fill_index j [] ix = Inr ix"
| "fill_index j ((rid, rw) # rs) ix =
     bindE (nth_err rw j) (\<lambda>v. fill_index j rs (if v = VNull then ix else idx_add v rid ix))"

definition build_index :: "table_meta \<Rightarrow> string \<Rightarrow> (engine, index) prog" where
  "build_index m c =
     bindP (liftE (column_index m c)) (\<lambda>j. bindP (scan_table m) (\<lambda>rs. liftE (fill_index j rs [])))"

fun rebuild_loop :: "(table_meta \<times> string) list \<Rightarrow> (engine, unit) prog" where
  "rebuild_loop [] = ret ()"
| "rebuild_loop ((m, c) # mcs) =
     bindP (build_index m c) (\<lambda>ix e. rebuild_loop mcs (put_index (tname m, c) ix e))"

definition rebuild_indexes :: "(engine, unit) prog" where
  "rebuild_indexes e =
     rebuild_loop (concat (map (\<lambda>(n, m). map (\<lambda>ci. (m, fst ci)) (indexes m)) (tables (e_cat e)))) (e\<lparr>e_idx := []\<rparr>)"

section \<open>The catalog in memory\<close>

definition get_meta :: "string \<Rightarrow> (engine, table_meta) prog" where
  "get_meta nm e = (catalog_get (e_cat e) nm, e)"

text \<open>An assignment to fields of the \<open>TableMeta\<close> object other than its \<open>indexes\<close>.\<close>

definition put_meta :: "string \<Rightarrow> table_meta \<Rightarrow> engine \<Rightarrow> engine" where
  "put_meta nm m e = e\<lparr>e_cat := (e_cat e)\<lparr>tables := AList.update (lower nm) m (tables (e_cat e))\<rparr>\<rparr>"

definition save :: "(engine, unit) prog" where
  "save e = on_bt (save_catalog (e_cat e)) e"

text \<open>A change of the \<open>indexes\<close> dict of a table, seen by a snapshot that shares it.\<close>

definition set_indexes :: "string \<Rightarrow> (string \<times> string) list \<Rightarrow> engine \<Rightarrow> engine" where
  "set_indexes key ixs e =
     (let upd = AList.map_entry key (\<lambda>m. m\<lparr>indexes := ixs\<rparr>) in
      e\<lparr>e_cat := (e_cat e)\<lparr>tables := upd (tables (e_cat e))\<rparr>,
        e_snap := map_option (\<lambda>sn. if key \<in> set (sn_shared sn) then sn\<lparr>sn_metas := upd (sn_metas sn)\<rparr> else sn) (e_snap e)\<rparr>)"

section \<open>Transactions\<close>

definition begin_txn_db :: "(engine, unit) prog" where
  "begin_txn_db = bindP (on_session begin_session) (\<lambda>_ e. (Inr (), e\<lparr>e_snap := None\<rparr>))"

definition ensure_snapshot :: "(engine, unit) prog" where
  "ensure_snapshot e =
     (Inr (), if e_snap e = None \<and> e_txn e
        then e\<lparr>e_snap := Some \<lparr>sn_indexes = e_idx e, sn_metas = tables (e_cat e), sn_shared = map fst (tables (e_cat e))\<rparr>\<rparr>
        else e)"

definition commit_db :: "(engine, unit) prog" where
  "commit_db = bindP (on_session commit_session) (\<lambda>_ e. (Inr (), e\<lparr>e_snap := None\<rparr>))"

definition rollback_db :: "(engine, unit) prog" where
  "rollback_db =
     bindP (on_session rollback_session) (\<lambda>_ e.
       (Inr (), case e_snap e of
          None \<Rightarrow> e
        | Some sn \<Rightarrow> e\<lparr>e_cat := \<lparr>tables = sn_metas sn, free_pages = []\<rparr>, e_idx := sn_indexes sn, e_snap := None\<rparr>))"

section \<open>CREATE and DROP\<close>

fun norm_columns :: "string list \<Rightarrow> column list \<Rightarrow> column list res" where
  "norm_columns seen [] = Inr []"
| "norm_columns seen (c # cs) =
     bindE (validate_column_def c) (\<lambda>n.
     if cname n \<in> set seen then Inl CatalogError
     else if cpk n \<and> ctype n \<noteq> TInt then Inl CatalogError
     else bindE (norm_columns (cname n # seen) cs) (\<lambda>ns. Inr (n # ns)))"

definition take_page :: "(engine, nat) prog" where
  "take_page e =
     (let fl = free_pages (e_cat e) in
      if fl \<noteq> [] then (Inr (last fl), e\<lparr>e_cat := (e_cat e)\<lparr>free_pages := butlast fl\<rparr>\<rparr>)
      else on_bt bt_alloc e)"

definition create_table :: "string \<Rightarrow> column list \<Rightarrow> (engine, unit) prog" where
  "create_table nm cols =
     bindP ensure_snapshot (\<lambda>_.
     bindP (liftE (norm_columns [] cols)) (\<lambda>ns.
     if 1 < length (filter cpk ns) then raise CatalogError else
     bindP take_page (\<lambda>root.
     bindP (on_bt (write_node bt_store root (Leaf [] None))) (\<lambda>_.
     let m = \<lparr>tname = nm, columns = ns, root_page = root, row_count = 0, next_rowid = 1, indexes = []\<rparr> in
     bindP (\<lambda>e. (case catalog_add m (e_cat e) of Inl x \<Rightarrow> (Inl x, e) | Inr c \<Rightarrow> (Inr (), e\<lparr>e_cat := c\<rparr>)))
       (\<lambda>_. save)))))"

definition create_index :: "string \<Rightarrow> string \<Rightarrow> string \<Rightarrow> (engine, unit) prog" where
  "create_index inm tab col =
     bindP ensure_snapshot (\<lambda>_.
     bindP (get_meta tab) (\<lambda>m.
     if col \<notin> set (colnames m) then raise CatalogError
     else if pk_column m = Some col then raise CatalogError
     else if col \<in> fst ` set (indexes m) then raise CatalogError
     else
     (\<lambda>e. bindP (build_index m col) (\<lambda>ix e. save (put_index (tname m, col) ix e))
       (set_indexes (lower tab) (AList.update col inm (indexes m)) e))))"

text \<open>\<open>collect_tree_pages\<close>: one step per page taken off the stack. A page has at most 341 children,
  so \<open>512 * (bt_npages + 1)\<close> steps always empty the stack.\<close>

fun collect_pages :: "nat \<Rightarrow> nat set \<Rightarrow> nat list \<Rightarrow> (bstate, nat set) prog" where
  "collect_pages fuel visited [] = ret visited"
| "collect_pages 0 visited (p # ps) = raise OutOfFuel"
| "collect_pages (Suc fuel) visited (p # ps) =
     (let pg = last (p # ps); rest = butlast (p # ps) in
      if pg \<in> visited then collect_pages fuel visited rest
      else bindP (bt_load pg) (\<lambda>nd.
           case nd of
             Leaf cs nxt \<Rightarrow> collect_pages fuel (insert pg visited) rest
           | Internal ks children \<Rightarrow> collect_pages fuel (insert pg visited) (rest @ children)))"

definition collect_tree_pages :: "nat \<Rightarrow> (bstate, nat set) prog" where
  "collect_tree_pages root s = collect_pages (512 * (bt_npages s + 1)) {} [root] s"

definition drop_keys :: "string \<Rightarrow> string list \<Rightarrow> index_dict \<Rightarrow> index_dict" where
  "drop_keys nm cs ixs = filter (\<lambda>(k, ix). \<not> (fst k = nm \<and> snd k \<in> set cs)) ixs"

definition drop_table :: "string \<Rightarrow> (engine, unit) prog" where
  "drop_table nm =
     bindP ensure_snapshot (\<lambda>_.
     bindP (get_meta nm) (\<lambda>m e.
     bindP (on_bt (collect_tree_pages (root_page m))) (\<lambda>pages e.
       let freed = rev (sorted_list_of_set (insert (root_page m) pages));
           cat = e_cat e
       in if map_of (tables cat) (tname m) = None then (Inl KeyError, e\<lparr>e_cat := cat\<lparr>free_pages := free_pages cat @ freed\<rparr>\<rparr>)
          else save (e\<lparr>e_cat := cat\<lparr>free_pages := free_pages cat @ freed, tables := AList.delete (tname m) (tables cat)\<rparr>,
                       e_snap := map_option (\<lambda>sn. sn\<lparr>sn_shared := removeAll (tname m) (sn_shared sn)\<rparr>) (e_snap e)\<rparr>))
     (e\<lparr>e_idx := drop_keys (tname m) (map fst (indexes m)) (e_idx e)\<rparr>)))"

text \<open>The first table and column whose index has the name.\<close>

fun find_index :: "string \<Rightarrow> (string \<times> table_meta) list \<Rightarrow> (string \<times> table_meta \<times> string) option" where
  "find_index inm [] = None"
| "find_index inm ((k, m) # ts) =
     (case find (\<lambda>ci. snd ci = inm) (indexes m) of
        Some (c, i) \<Rightarrow> Some (k, m, c)
      | None \<Rightarrow> find_index inm ts)"

definition drop_index :: "string \<Rightarrow> (engine, unit) prog" where
  "drop_index inm =
     bindP ensure_snapshot (\<lambda>_ e.
     case find_index inm (tables (e_cat e)) of
       None \<Rightarrow> (Inl CatalogError, e)
     | Some (k, m, c) \<Rightarrow>
         save ((set_indexes k (AList.delete c (indexes m)) e)\<lparr>e_idx := AList.delete (tname m, c) (e_idx e)\<rparr>))"

end
