(* ===== verification/Dml.thy ===== *)
theory Dml
  imports Engine
begin

text \<open>
  The statements of \<open>leafdb/engine.py\<close> that change rows, \<open>INSERT\<close>, \<open>UPDATE\<close>, \<open>DELETE\<close>, and
  the rows of \<open>bulk_insert\<close>; the dispatch with its implicit transactions is in \<open>Database\<close>.
\<close>

section \<open>INSERT\<close>

definition literal_value :: "expr \<Rightarrow> val res" where
  "literal_value e =
     (case e of
        Literal v \<Rightarrow> Inr v
      | UnaryOp U_neg (Literal (VBool b)) \<Rightarrow> Inl SQLError
      | UnaryOp U_neg (Literal v) \<Rightarrow> py_neg v
      | _ \<Rightarrow> Inl SQLError)"

text \<open>The values of a row by column position, \<open>None\<close> where the column list leaves one out.\<close>

fun place :: "table_meta \<Rightarrow> (string \<times> val) list \<Rightarrow> row \<Rightarrow> row res" where
  "place m [] full = Inr full"
| "place m ((c, v) # cvs) full = bindE (column_index m c) (\<lambda>j. place m cvs (full[j := v]))"

text \<open>The primary key: the next rowid where it is NULL; the row with the key it goes under.\<close>

definition assign_rowid :: "table_meta \<Rightarrow> row \<Rightarrow> (int \<times> row) res" where
  "assign_rowid m full =
     (case pk_index m of
        None \<Rightarrow> Inr (next_rowid m, full)
      | Some i \<Rightarrow>
          bindE (nth_err full i) (\<lambda>v.
          bindE (coerce_pk (if v = VNull then VInt (next_rowid m) else v)) (\<lambda>rid.
          Inr (rid, full[i := VInt rid]))))"

definition coerce_row :: "table_meta \<Rightarrow> row \<Rightarrow> row res" where
  "coerce_row m full = mapE (\<lambda>(t, v). coerce_value t v) (zip (types m) full)"

definition encode_checked :: "table_meta \<Rightarrow> row \<Rightarrow> bytes res" where
  "encode_checked m rw =
     bindE (encode_row (types m) rw) (\<lambda>blob. if MAX_VALUE_SIZE < length blob then Inl SQLError else Inr blob)"

text \<open>\<open>except DuplicateKey\<close>: the exception raised in its place.\<close>

definition no_duplicate :: "exn \<Rightarrow> (engine, 'a) prog \<Rightarrow> (engine, 'a) prog" where
  "no_duplicate dup p e = (case p e of (Inl (DuplicateKey k), e') \<Rightarrow> (Inl dup, e') | r \<Rightarrow> r)"

text \<open>The common end of both inserting loops: the tree, the counters, the indexes.\<close>

definition store_row :: "exn \<Rightarrow> string \<Rightarrow> int \<Rightarrow> bytes \<Rightarrow> row \<Rightarrow> (engine, unit) prog" where
  "store_row dup nm rid blob rw =
     bindP (get_meta nm) (\<lambda>m.
     bindP (no_duplicate dup (on_bt (tree_insert bt_store PAGE_SIZE 32 (root_page m) rid blob))) (\<lambda>root e.
     let m' = m\<lparr>root_page := root, next_rowid := max (next_rowid m) (rid + 1), row_count := row_count m + 1\<rparr>
     in index_add m' rid rw (put_meta nm m' e)))"

definition insert_row :: "string \<Rightarrow> string list option \<Rightarrow> expr list \<Rightarrow> (engine, unit) prog" where
  "insert_row nm declared exprs =
     bindP (get_meta nm) (\<lambda>m.
     let ncols = length (types m);
         width = (case declared of None \<Rightarrow> ncols | Some cs \<Rightarrow> length cs) in
     if length exprs \<noteq> width then raise SQLError else
     bindP (liftE (mapE literal_value exprs)) (\<lambda>vs.
     bindP (liftE (case declared of
         None \<Rightarrow> Inr vs
       | Some cs \<Rightarrow> place m (zip cs vs) (replicate ncols VNull))) (\<lambda>full.
     bindP (liftE (assign_rowid m full)) (\<lambda>(rid, full1).
     bindP (liftE (coerce_row m full1)) (\<lambda>rw.
     bindP (liftE (case pk_index m of
         None \<Rightarrow> Inr ()
       | Some i \<Rightarrow> bindE (nth_err rw i) (\<lambda>v. if v = VNull then Inl SQLError else Inr ()))) (\<lambda>_.
     bindP (liftE (encode_checked m rw)) (\<lambda>blob.
     bindP (on_bt (search bt_store 32 (root_page m) rid)) (\<lambda>old.
     if old \<noteq> None then raise SQLError else store_row SQLError nm rid blob rw))))))))"

fun each :: "('a \<Rightarrow> (engine, unit) prog) \<Rightarrow> 'a list \<Rightarrow> (engine, unit) prog" where
  "each f [] = ret ()"
| "each f (x # xs) = bindP (f x) (\<lambda>_. each f xs)"

definition insert_stmt :: "string \<Rightarrow> string list option \<Rightarrow> expr list list \<Rightarrow> (engine, int) prog" where
  "insert_stmt nm declared rws =
     bindP ensure_snapshot (\<lambda>_.
     bindP (get_meta nm) (\<lambda>m.
     bindP (liftE (case declared of
         None \<Rightarrow> Inr ()
       | Some cs \<Rightarrow> if \<not> distinct cs then Inl SQLError
                   else if \<exists>c \<in> set cs. c \<notin> set (colnames m) then Inl CatalogError else Inr ())) (\<lambda>_.
     bindP (each (insert_row nm declared) rws) (\<lambda>_.
     bindP save (\<lambda>_. ret (int (length rws)))))))"

text \<open>The message of a duplicate in \<open>executor_insert_bulk\<close> names \<open>pk\<close>, which is not defined there.\<close>

definition bulk_row :: "string \<Rightarrow> val list \<Rightarrow> (engine, unit) prog" where
  "bulk_row nm vs =
     bindP (get_meta nm) (\<lambda>m.
     if length vs \<noteq> length (types m) then raise SQLError else
     bindP (liftE (assign_rowid m vs)) (\<lambda>(rid, full).
     bindP (liftE (coerce_row m full)) (\<lambda>rw.
     bindP (liftE (encode_checked m rw)) (\<lambda>blob. store_row NameError nm rid blob rw))))"

definition bulk_rows :: "string \<Rightarrow> val list list \<Rightarrow> (engine, int) prog" where
  "bulk_rows nm rws =
     bindP (get_meta nm) (\<lambda>_.
     bindP (each (bulk_row nm) rws) (\<lambda>_.
     bindP save (\<lambda>_. ret (int (length rws)))))"

section \<open>The rows a WHERE clause selects\<close>

datatype shortcut = By_pk val | By_index string val

fun find_shortcut :: "table_meta \<Rightarrow> (string \<times> string option \<times> val) list \<Rightarrow> shortcut option" where
  "find_shortcut m [] = None"
| "find_shortcut m ((nm, tab, v) # ps) =
     (if (tab = None \<or> tab = Some (tname m)) \<and> nm \<in> set (colnames m) then
        (if pk_column m = Some nm \<and> nm \<noteq> [] then Some (By_pk v)
         else if nm \<in> fst ` set (indexes m) then Some (By_index nm v)
         else find_shortcut m ps)
      else find_shortcut m ps)"

definition candidates :: "table_meta \<Rightarrow> expr \<Rightarrow> (engine, (int \<times> row) list option) prog" where
  "candidates m w =
     (case find_shortcut m (find_equi_predicates (flatten_and w)) of
        None \<Rightarrow> ret None
      | Some (By_pk v) \<Rightarrow>
          (case coerce_pk v of
             Inl e \<Rightarrow> ret None
           | Inr rid \<Rightarrow>
               bindP (search_row m rid) (\<lambda>r. ret (Some (case r of None \<Rightarrow> [] | Some rw \<Rightarrow> [(rid, rw)]))))
      | Some (By_index c v) \<Rightarrow> bindP (index_lookup m c v) (\<lambda>rs. ret (Some rs)))"

definition keep_row :: "closure \<Rightarrow> int \<times> row \<Rightarrow> bool res" where
  "keep_row f r = bindE (f [Some (snd r)] None) (\<lambda>v. Inr (v = VBool True))"

definition table_scope :: "table_meta \<Rightarrow> scope" where
  "table_scope m = \<lparr>sources = [(tname m, m)], agg_aliases = []\<rparr>"

definition matching_rows :: "(int \<Rightarrow> int) \<Rightarrow> table_meta \<Rightarrow> expr option \<Rightarrow> (engine, (int \<times> row) list) prog" where
  "matching_rows low m w =
     (case w of
        None \<Rightarrow> scan_table m
      | Some c \<Rightarrow>
          bindP (candidates m c) (\<lambda>cand.
          bindP (liftE (compile_expr low (table_scope m) [] False c)) (\<lambda>f.
          bindP (case cand of Some rs \<Rightarrow> ret rs | None \<Rightarrow> scan_table m) (\<lambda>rs.
          liftE (filterE (keep_row f) rs)))))"

section \<open>UPDATE\<close>

type_synonym assignment = "string \<times> nat \<times> closure"

fun check_assignments :: "table_meta \<Rightarrow> (string \<times> expr) list \<Rightarrow> unit res" where
  "check_assignments m [] = Inr ()"
| "check_assignments m ((c, e) # cs) =
     (if c \<notin> set (colnames m) then Inl CatalogError
      else if pk_column m = Some c \<and> c \<noteq> [] then Inl SQLError
      else check_assignments m cs)"

definition compile_assignment :: "(int \<Rightarrow> int) \<Rightarrow> table_meta \<Rightarrow> string \<times> expr \<Rightarrow> assignment res" where
  "compile_assignment low m ce =
     bindE (column_index m (fst ce)) (\<lambda>j.
     bindE (compile_expr low (table_scope m) [] False (snd ce)) (\<lambda>f. Inr (fst ce, j, f)))"

text \<open>Every assignment reads the old row.\<close>

fun apply_assignments :: "table_meta \<Rightarrow> row \<Rightarrow> assignment list \<Rightarrow> row \<Rightarrow> row res" where
  "apply_assignments m old [] new = Inr new"
| "apply_assignments m old ((c, j, f) # as) new =
     bindE (f [Some old] None) (\<lambda>v.
     bindE (nth_err (types m) j) (\<lambda>t.
     bindE (coerce_value t v) (\<lambda>w. apply_assignments m old as (new[j := w]))))"

definition update_row :: "string \<Rightarrow> assignment list \<Rightarrow> int \<times> row \<Rightarrow> (engine, unit) prog" where
  "update_row nm as r =
     bindP (get_meta nm) (\<lambda>m.
     bindP (liftE (apply_assignments m (snd r) as (snd r))) (\<lambda>new.
     bindP (liftE (encode_checked m new)) (\<lambda>blob.
     bindP (on_bt (tree_upsert bt_store PAGE_SIZE 32 (root_page m) (fst r) blob)) (\<lambda>root e.
     bindP (index_remove m (fst r) (snd r)) (\<lambda>_. index_add m (fst r) new)
       (put_meta nm (m\<lparr>root_page := root\<rparr>) e)))))"

definition update_stmt :: "(int \<Rightarrow> int) \<Rightarrow> string \<Rightarrow> (string \<times> expr) list \<Rightarrow> expr option \<Rightarrow> (engine, int) prog" where
  "update_stmt low nm asg w =
     bindP ensure_snapshot (\<lambda>_.
     bindP (get_meta nm) (\<lambda>m.
     bindP (liftE (check_assignments m asg)) (\<lambda>_.
     bindP (matching_rows low m w) (\<lambda>rs.
     bindP (liftE (mapE (compile_assignment low m) asg)) (\<lambda>as.
     bindP (each (update_row nm as) rs) (\<lambda>_.
     bindP save (\<lambda>_. ret (int (length rs)))))))))"

section \<open>DELETE\<close>

fun delete_loop :: "string \<Rightarrow> (int \<times> row) list \<Rightarrow> int \<Rightarrow> (engine, int) prog" where
  "delete_loop nm [] n = ret n"
| "delete_loop nm (r # rs) n =
     bindP (get_meta nm) (\<lambda>m.
     bindP (on_bt (tree_delete bt_store PAGE_SIZE 32 (root_page m) (fst r))) (\<lambda>(root, found) e.
     if found then
       bindP (index_remove m (fst r) (snd r)) (\<lambda>_. delete_loop nm rs (n + 1))
         (put_meta nm (m\<lparr>root_page := root, row_count := row_count m - 1\<rparr>) e)
     else delete_loop nm rs n (put_meta nm (m\<lparr>root_page := root\<rparr>) e)))"

definition delete_stmt :: "(int \<Rightarrow> int) \<Rightarrow> string \<Rightarrow> expr option \<Rightarrow> (engine, int) prog" where
  "delete_stmt low nm w =
     bindP ensure_snapshot (\<lambda>_.
     bindP (get_meta nm) (\<lambda>m.
     bindP (matching_rows low m w) (\<lambda>rs.
     bindP (delete_loop nm rs 0) (\<lambda>n.
     bindP save (\<lambda>_. ret n)))))"

end
