(* ===== verification/TableProps.thy ===== *)
theory TableProps
  imports Dml TreeClaims JoinProps
begin

text \<open>
  What the engine keeps of its tables: \<open>represents e T D\<close> says that the trees \<open>T\<close> and the
  secondary indexes of the state \<open>e\<close> hold the rows \<open>D\<close>, table by table. Scans, lookups by key and by
  index return what the rows say; the row operations change the rows and nothing else.
\<close>

section \<open>Trees and their neighbours\<close>

lemma stored_search:
  assumes "stored s h t" and "int (bt_npages s) < NO_PAGE"
  shows "\<exists>s'. search bt_store 32 (proot t) key s = (Inr (map_of (cells t) key), s') \<and> bt.same {} s s'"
proof -
  have "h < 32" using stored_height[OF assms(1)] assms(2) by (simp add: NO_PAGE_def)
  then show ?thesis using assms(1) bt.search_ok unfolding stored_is_tree bt.is_tree_def by blast
qed

lemma stored_scan:
  assumes "stored s h t" and "int (bt_npages s) < NO_PAGE"
  shows "\<exists>s'. range_scan bt_store (32 + bt_npages s) (proot t) None None s = (Inr (cells t), s') \<and> bt.same {} s s'"
proof -
  have h: "h < 32" using stored_height[OF assms(1)] assms(2) by (simp add: NO_PAGE_def)
  have "\<exists>s'. range_scan bt_store (32 + bt_npages s) (proot t) None None s =
      (Inr (filter (\<lambda>c. bt.in_range None None (fst c)) (cells t)), s') \<and> bt.same {} s s'"
    by (rule bt.range_scan_ok)
      (use assms(1) h stored_leaves[OF assms(1)] in \<open>auto simp: stored_is_tree bt.is_tree_def\<close>)
  then show ?thesis by (simp add: bt.in_range_def)
qed

text \<open>The trees of a changed tree's neighbours, and where the new tree lies.\<close>

definition tree_step :: "bstate \<Rightarrow> ptree \<Rightarrow> bstate \<Rightarrow> ptree \<Rightarrow> bool" where
  "tree_step s t s' t' \<longleftrightarrow>
     (\<exists>h. stored s' h t') \<and> bt_npages s \<le> bt_npages s' \<and> bt_npages s' \<le> bt_npages s + 33 \<and>
     set (pages t') \<subseteq> set (pages t) \<union> {bt_npages s..<bt_npages s'} \<and>
     (\<forall>h2 t2. stored s h2 t2 \<longrightarrow> set (pages t2) \<inter> set (pages t) = {} \<longrightarrow> stored s' h2 t2)"

lemma tree_stepI:
  assumes "bt.is_tree PAGE_SIZE h' {} s' t'" and "bt.others_kept s s' t" and "bt_npages s \<le> bt_npages s'"
    and "bt_npages s' \<le> bt_npages s + 33" and "set (pages t') \<subseteq> set (pages t) \<union> {bt_npages s..<bt_npages s'}"
  shows "tree_step s t s' t'"
proof -
  have "bt_ok {} s'" using assms(1) by (simp add: bt.is_tree_def)
  then show ?thesis
    using assms stored_other[OF assms(2) _ assms(3)] unfolding tree_step_def stored_is_tree[symmetric] by blast
qed

lemma insert_any:
  assumes S: "stored s h t" and v: "length v \<le> MAX_VALUE_SIZE" and key: "int64 key"
    and np: "int (bt_npages s) + 33 < NO_PAGE"
  shows "if key \<in> fst ` set (cells t)
    then \<exists>s'. tree_insert bt_store PAGE_SIZE 32 (proot t) key v s = (Inl (DuplicateKey key), s') \<and> bt.same {} s s'
    else (\<exists>s' t'. tree_insert bt_store PAGE_SIZE 32 (proot t) key v s = (Inr (proot t'), s') \<and>
        cells t' = ins_cells key v (cells t) \<and> tree_step s t s' t') \<or>
      ((\<exists>b \<in> insert v (snd ` set (cells t)). \<not> small_row b) \<and>
        (\<exists>s'. tree_insert bt_store PAGE_SIZE 32 (proot t) key v s = (Inl ValueError, s')))"
proof -
  have I: "bt.is_tree PAGE_SIZE h {} s t" using S by (simp add: stored_is_tree)
  have h: "h < 32" using stored_height[OF S] np by (simp add: NO_PAGE_def)
  have n0: "int (bt_npages s) + int h + 1 < NO_PAGE" using np h by simp
  have page: "48 \<le> PAGE_SIZE" "PAGE_SIZE \<le> PAGE_SIZE" by (simp_all add: PAGE_SIZE_def)
  note K = bt.tree_insert_ok[OF I h key v n0 page disjI1[OF refl]]
  show ?thesis
  proof (cases "key \<in> keys_of t")
    case True
    then show ?thesis using K by (simp add: keys_of_def)
  next
    case False
    then have k: "key \<notin> fst ` set (cells t)" by (simp add: keys_of_def)
    from False consider (fin) s1 t1 h1 where "tree_insert bt_store PAGE_SIZE 32 (proot t) key v s = (Inr (proot t1), s1)"
        "bt.is_tree PAGE_SIZE h1 {} s1 t1" "cells t1 = ins_cells key v (cells t)" "bt.others_kept s s1 t"
        "set (pages t1) \<subseteq> set (pages t) \<union> {bt_npages s..<bt_npages s1}" "bt_npages s \<le> bt_npages s1"
        "bt_npages s1 \<le> bt_npages s + h + 2"
      | (err) s1 where "tree_insert bt_store PAGE_SIZE 32 (proot t) key v s = (Inl ValueError, s1)"
        "\<not> (\<forall>c \<in> set ((key, v) # cells t). small_cell PAGE_SIZE c)"
      using K by (simp only: if_False) blast
    then show ?thesis
    proof cases
      case fin
      have "tree_step s t s1 t1" using fin h by (intro tree_stepI[OF fin(2)]) simp_all
      then show ?thesis using fin(1,3) k by auto
    next
      case err
      then obtain k' w where "(k', w) \<in> set ((key, v) # cells t)" "\<not> small_cell PAGE_SIZE (k', w)" by auto
      then have "\<not> small_row w" "w \<in> insert v (snd ` set (cells t))" using small_row_cells(1) by force+
      then show ?thesis using err(1) k by auto
    qed
  qed
qed

lemma delete_spare:
  assumes S: "stored s h t" and small: "\<forall>c \<in> set (cells t). length (snd c) \<le> 1408" and np: "int (bt_npages s) < NO_PAGE"
  shows "\<exists>s' t'. tree_delete bt_store PAGE_SIZE 32 (proot t) key s = (Inr (proot t', key \<in> fst ` set (cells t)), s') \<and>
      cells t' = del_cells key (cells t) \<and> tree_step s t s' t' \<and> bt_npages s' = bt_npages s"
proof -
  have I: "bt.is_tree PAGE_SIZE h {} s t" using S by (simp add: stored_is_tree)
  have h: "h < 32" using stored_height[OF S] np by (simp add: NO_PAGE_def)
  have sp: "\<forall>c \<in> set (cells t). spare_cell PAGE_SIZE c"
    using small by (simp add: spare_cell_def cell_size_def min_bytes_def PAGE_SIZE_def)
  have page: "page_size_ok PAGE_SIZE" "PAGE_SIZE \<le> PAGE_SIZE" by (simp_all add: PAGE_SIZE_def page_size_ok_def)
  obtain s1 t1 h1 where s1: "tree_delete bt_store PAGE_SIZE 32 (proot t) key s = (Inr (proot t1, key \<in> keys_of t), s1)"
    "bt.is_tree PAGE_SIZE h1 {} s1 t1" "cells t1 = del_cells key (cells t)" "bt.others_kept s s1 t"
    "set (pages t1) \<subseteq> set (pages t)" "bt_npages s1 = bt_npages s"
    using bt.tree_delete_ok[OF I h sp page np, of key] by blast
  have "tree_step s t s1 t1" using s1 by (intro tree_stepI[OF s1(2)]) auto
  then show ?thesis using s1 by (auto simp: keys_of_def)
qed

lemma upsert_any:
  assumes S: "stored s h t" and old: "map_of (cells t) key = Some old" and v: "length v \<le> MAX_VALUE_SIZE"
    and np: "int (bt_npages s) + 33 < NO_PAGE"
  shows "(\<exists>s' t'. tree_upsert bt_store PAGE_SIZE 32 (proot t) key v s = (Inr (proot t'), s') \<and>
      cells t' = upd_cells key v (cells t) \<and> tree_step s t s' t' \<and> bt_npages s' = bt_npages s) \<or>
    (length old < length v \<and> (\<exists>s'. tree_upsert bt_store PAGE_SIZE 32 (proot t) key v s = (Inl ValueError, s')))"
proof -
  have I: "bt.is_tree PAGE_SIZE h {} s t" using S by (simp add: stored_is_tree)
  have h: "h < 32" using stored_height[OF S] np by (simp add: NO_PAGE_def)
  have n0: "int (bt_npages s) + int h + 1 < NO_PAGE" using np h by simp
  have page: "48 \<le> PAGE_SIZE" by (simp add: PAGE_SIZE_def)
  from bt.tree_upsert_ok[OF I h old v n0 page] show ?thesis
  proof (elim disjE exE conjE)
    fix s1 t1 assume u: "tree_upsert bt_store PAGE_SIZE 32 (proot t) key v s = (Inr (proot t1), s1)"
      "bt.is_tree PAGE_SIZE h {} s1 t1" "cells t1 = upd_cells key v (cells t)"
      "bt.others_kept s s1 t" "set (pages t1) = set (pages t)" "bt_npages s1 = bt_npages s"
    have "tree_step s t s1 t1" using u by (intro tree_stepI[OF u(2)]) auto
    then show ?thesis using u by blast
  qed blast
qed

section \<open>Indexes\<close>

lemma idx_get_add: "idx_get u (idx_add v rid ix) = (if py_eq v u then insert rid (idx_get u ix) else idx_get u ix)"
proof (induction ix)
  case (Cons e ix)
  obtain w rids where e: "e = (w, rids)" by force
  have "py_eq w v \<Longrightarrow> py_eq w u \<longleftrightarrow> py_eq v u" "py_eq v u \<Longrightarrow> py_eq w u \<Longrightarrow> py_eq w v"
    using py_eq_sym py_eq_trans by blast+
  then show ?case using Cons e by auto
qed simp

lemma idx_get_discard: "idx_get u (idx_discard v rid ix) = (if py_eq v u then idx_get u ix - {rid} else idx_get u ix)"
proof (induction ix)
  case (Cons e ix)
  obtain w rids where e: "e = (w, rids)" by force
  have "py_eq w v \<Longrightarrow> py_eq w u \<longleftrightarrow> py_eq v u" "py_eq v u \<Longrightarrow> py_eq w u \<Longrightarrow> py_eq w v"
    using py_eq_sym py_eq_trans by blast+
  then show ?case using Cons e by auto
qed simp

text \<open>An index of column \<open>j\<close>: under every value the rowids of the rows that hold it; NULL has no entry.\<close>

type_synonym rowset = "(int \<times> row) list"

definition index_of :: "nat \<Rightarrow> rowset \<Rightarrow> index \<Rightarrow> bool" where
  "index_of j rs ix \<longleftrightarrow>
     (\<forall>v. idx_get v ix = {rid. \<exists>rw. (rid, rw) \<in> set rs \<and> rw ! j \<noteq> VNull \<and> py_eq (rw ! j) v})"

definition indexed :: "index_dict \<Rightarrow> table_meta \<Rightarrow> rowset \<Rightarrow> bool" where
  "indexed ixs m rs \<longleftrightarrow>
     (\<forall>c \<in> fst ` set (indexes m). \<exists>j ix. column_index m c = Inr j \<and> map_of ixs (tname m, c) = Some ix \<and> index_of j rs ix)"

lemma column_index_bound: "column_index m c = Inr j \<Longrightarrow> j < length (columns m) \<and> colnames m ! j = c"
  by (auto simp: column_index_def colnames_def split: option.splits dest!: first_index_Some)

lemma index_of_insert:
  assumes "index_of j rs ix" and "set rs' = insert (rid, rw) (set rs)"
  shows "index_of j rs' (if rw ! j = VNull then ix else idx_add (rw ! j) rid ix)"
  using assms by (auto simp: index_of_def idx_get_add)

lemma index_of_remove:
  assumes "index_of j rs ix" and "set rs' = {r \<in> set rs. fst r \<noteq> rid}" and "(rid, rw) \<in> set rs"
    and "distinct (map fst rs)"
  shows "index_of j rs' (if rw ! j = VNull then ix else idx_discard (rw ! j) rid ix)"
proof -
  have u: "x = rw" if "(rid, x) \<in> set rs" for x using assms(3,4) that by (meson eq_key_imp_eq_value)
  show ?thesis
    unfolding index_of_def
  proof
    fix v
    have g: "idx_get v ix = {r. \<exists>x. (r, x) \<in> set rs \<and> x ! j \<noteq> VNull \<and> py_eq (x ! j) v}"
      using assms(1) by (simp add: index_of_def)
    have s: "{r. \<exists>x. (r, x) \<in> set rs' \<and> x ! j \<noteq> VNull \<and> py_eq (x ! j) v} = idx_get v ix - {rid}"
      unfolding g assms(2) by auto
    have "rid \<notin> idx_get v ix" if "\<not> (rw ! j \<noteq> VNull \<and> py_eq (rw ! j) v)" using g u that by auto
    then show "idx_get v (if rw ! j = VNull then ix else idx_discard (rw ! j) rid ix) =
      {r. \<exists>x. (r, x) \<in> set rs' \<and> x ! j \<noteq> VNull \<and> py_eq (x ! j) v}"
      unfolding s by (simp add: idx_get_discard)
  qed
qed

text \<open>What the loops over the indexes of a table do to the dict of all indexes.\<close>

definition dict_step :: "string \<Rightarrow> (val \<Rightarrow> index \<Rightarrow> index) \<Rightarrow> row \<Rightarrow> (string \<times> nat) list \<Rightarrow> index_dict \<Rightarrow> index_dict \<Rightarrow> bool" where
  "dict_step nm f rw cs d d' \<longleftrightarrow>
     (\<forall>(c, j) \<in> set cs. \<forall>ix. map_of d (nm, c) = Some ix \<longrightarrow>
        map_of d' (nm, c) = Some (if rw ! j = VNull then ix else f (rw ! j) ix)) \<and>
     (\<forall>k. k \<notin> (\<lambda>c. (nm, fst c)) ` set cs \<longrightarrow> map_of d' k = map_of d k)"

lemma dict_stepI:
  assumes "\<And>c j ix. (c, j) \<in> set cs \<Longrightarrow> map_of d (nm, c) = Some ix \<Longrightarrow>
      map_of d' (nm, c) = Some (if rw ! j = VNull then ix else f (rw ! j) ix)"
    and "\<And>k. k \<notin> (\<lambda>c. (nm, fst c)) ` set cs \<Longrightarrow> map_of d' k = map_of d k"
  shows "dict_step nm f rw cs d d'"
  using assms unfolding dict_step_def by blast

lemma dict_stepD:
  assumes "dict_step nm f rw cs d d'"
  shows "(c, j) \<in> set cs \<Longrightarrow> map_of d (nm, c) = Some ix \<Longrightarrow>
      map_of d' (nm, c) = Some (if rw ! j = VNull then ix else f (rw ! j) ix)"
    and "k \<notin> (\<lambda>c. (nm, fst c)) ` set cs \<Longrightarrow> map_of d' k = map_of d k"
  using assms unfolding dict_step_def by blast+

lemma dict_step_Cons:
  assumes "dict_step nm f rw cs d1 d2" and "c \<notin> fst ` set cs"
    and "\<And>ix. map_of d (nm, c) = Some ix \<Longrightarrow> map_of d1 (nm, c) = Some (if rw ! j = VNull then ix else f (rw ! j) ix)"
    and "\<And>k. k \<noteq> (nm, c) \<Longrightarrow> map_of d1 k = map_of d k"
  shows "dict_step nm f rw ((c, j) # cs) d d2"
proof (rule dict_stepI)
  fix c' i ix assume c': "(c', i) \<in> set ((c, j) # cs)" "map_of d (nm, c') = Some ix"
  show "map_of d2 (nm, c') = Some (if rw ! i = VNull then ix else f (rw ! i) ix)"
  proof (cases "(c', i) = (c, j)")
    case True
    have "(nm, c) \<notin> (\<lambda>c. (nm, fst c)) ` set cs" using assms(2) by (auto simp: image_iff)
    then have "map_of d2 (nm, c) = map_of d1 (nm, c)" by (rule dict_stepD(2)[OF assms(1)])
    then show ?thesis using True assms(3)[of ix] c'(2) by simp
  next
    case False
    then have i: "(c', i) \<in> set cs" using c'(1) by auto
    then have "c' \<noteq> c" using assms(2) by force
    then have "map_of d1 (nm, c') = Some ix" using assms(4)[of "(nm, c')"] c'(2) by simp
    then show ?thesis by (rule dict_stepD(1)[OF assms(1) i])
  qed
next
  fix k assume k: "k \<notin> (\<lambda>c. (nm, fst c)) ` set ((c, j) # cs)"
  then have "k \<notin> (\<lambda>c. (nm, fst c)) ` set cs" "k \<noteq> (nm, c)" by auto
  then show "map_of d2 k = map_of d k" using dict_stepD(2)[OF assms(1)] assms(4) by simp
qed

lemma add_to_indexes_ok:
  assumes "distinct (map fst cs)" and "\<forall>(c, j) \<in> set cs. j < length rw"
  shows "\<exists>d. add_to_indexes nm rid rw cs e = (Inr (), e\<lparr>e_idx := d\<rparr>) \<and> dict_step nm (\<lambda>v. idx_add v rid) rw cs (e_idx e) d"
  using assms
proof (induction cs arbitrary: e)
  case Nil
  then show ?case by (intro exI[of _ "e_idx e"]) (simp add: dict_step_def)
next
  case (Cons cj cs)
  obtain c j where cj: "cj = (c, j)" by force
  define e1 where "e1 = (if rw ! j = VNull then e else put_index (nm, c) (idx_add (rw ! j) rid (the_index e (nm, c))) e)"
  obtain d where d: "add_to_indexes nm rid rw cs e1 = (Inr (), e1\<lparr>e_idx := d\<rparr>)" "dict_step nm (\<lambda>v. idx_add v rid) rw cs (e_idx e1) d"
    using Cons.IH[of e1] Cons.prems by auto
  have "add_to_indexes nm rid rw (cj # cs) e = add_to_indexes nm rid rw cs e1"
    using Cons.prems(2) by (simp add: cj nth_err_def bindP_app e1_def)
  moreover have "e1\<lparr>e_idx := d\<rparr> = e\<lparr>e_idx := d\<rparr>" by (simp add: e1_def put_index_def)
  moreover have "dict_step nm (\<lambda>v. idx_add v rid) rw (cj # cs) (e_idx e) d"
    unfolding cj by (rule dict_step_Cons[OF d(2)])
      (use Cons.prems(1) cj in \<open>auto simp: e1_def put_index_def the_index_def update_conv'\<close>)
  ultimately show ?case using d(1) by metis
qed

lemma remove_from_indexes_ok:
  assumes "distinct cs" and "\<forall>c \<in> set cs. \<exists>j. column_index m c = Inr j" and "length rw = length (columns m)"
  shows "\<exists>d. remove_from_indexes m rid rw cs e = (Inr (), e\<lparr>e_idx := d\<rparr>) \<and>
    dict_step (tname m) (\<lambda>v. idx_discard v rid) rw (map (\<lambda>c. (c, projr (column_index m c))) cs) (e_idx e) d"
  using assms(1,2)
proof (induction cs arbitrary: e)
  case Nil
  then show ?case by (intro exI[of _ "e_idx e"]) (simp add: dict_step_def)
next
  case (Cons c cs)
  obtain j where j: "column_index m c = Inr j" "j < length rw"
    using Cons.prems(2) column_index_bound[of m c] assms(3) by auto
  define e1 where "e1 = (if rw ! j = VNull then e else
    case map_of (e_idx e) (tname m, c) of None \<Rightarrow> e | Some ix \<Rightarrow> put_index (tname m, c) (idx_discard (rw ! j) rid ix) e)"
  obtain d where d: "remove_from_indexes m rid rw cs e1 = (Inr (), e1\<lparr>e_idx := d\<rparr>)"
    "dict_step (tname m) (\<lambda>v. idx_discard v rid) rw (map (\<lambda>c. (c, projr (column_index m c))) cs) (e_idx e1) d"
    using Cons.IH[of e1] Cons.prems by auto
  have "remove_from_indexes m rid rw (c # cs) e = remove_from_indexes m rid rw cs e1"
    using j by (simp add: nth_err_def bindP_app e1_def)
  moreover have "e1\<lparr>e_idx := d\<rparr> = e\<lparr>e_idx := d\<rparr>" by (simp add: e1_def put_index_def split: option.split)
  moreover have "dict_step (tname m) (\<lambda>v. idx_discard v rid) rw (map (\<lambda>c. (c, projr (column_index m c))) (c # cs)) (e_idx e) d"
    unfolding list.map by (rule dict_step_Cons[OF d(2)])
      (use Cons.prems(1) j in \<open>auto simp: e1_def put_index_def update_conv' image_iff split: option.split\<close>)
  ultimately show ?case using d(1) by metis
qed

section \<open>Rows of a tree\<close>

definition decode_cell :: "table_meta \<Rightarrow> cell \<Rightarrow> (int \<times> row) res" where
  "decode_cell m c = bindE (decode_row (types m) (snd c)) (\<lambda>r. Inr (fst c, r))"

definition ins_row :: "int \<Rightarrow> row \<Rightarrow> rowset \<Rightarrow> rowset" where
  "ins_row key rw rs = takeWhile (\<lambda>r. fst r < key) rs @ (key, rw) # dropWhile (\<lambda>r. fst r < key) rs"

definition del_row :: "int \<Rightarrow> rowset \<Rightarrow> rowset" where
  "del_row key rs = filter (\<lambda>r. fst r \<noteq> key) rs"

abbreviation decoded_as :: "table_meta \<Rightarrow> cell list \<Rightarrow> rowset \<Rightarrow> bool" where
  "decoded_as m cs rs \<equiv> mapE (decode_cell m) cs = Inr rs"

lemma mapE_nth: "mapE f xs = Inr ys \<Longrightarrow> i < length xs \<Longrightarrow> f (xs ! i) = Inr (ys ! i)"
  by (induction xs arbitrary: ys i) (auto simp: less_Suc_eq_0_disj)

lemma decode_cell_fun: "(\<lambda>c. bindE (decode_row (types m) (snd c)) (\<lambda>r. Inr (fst c, r))) = decode_cell m"
  by (simp add: fun_eq_iff decode_cell_def)

lemma decoded_Cons:
  "decoded_as m (c # cs) rs \<longleftrightarrow> (\<exists>r rs'. rs = (fst c, r) # rs' \<and> decode_row (types m) (snd c) = Inr r \<and> decoded_as m cs rs')"
proof -
  have "decode_cell m c = bindE (decode_row (types m) (snd c)) (\<lambda>r. Inr (fst c, r))" by (simp add: decode_cell_def)
  then show ?thesis by auto
qed

lemma decoded_keys: "decoded_as m cs rs \<Longrightarrow> map fst rs = map fst cs"
  by (induction cs arbitrary: rs) (auto simp: decode_cell_def)

lemma decoded_lookup:
  "decoded_as m cs rs \<Longrightarrow>
   map_option (decode_row (types m)) (map_of cs key) = map_option Inr (map_of rs key)"
  by (induction cs arbitrary: rs) (auto simp: decode_cell_def)

lemma decode_loop_length: "decode_loop i ts nulls buf off = Inr vs \<Longrightarrow> length vs = length ts"
  by (induction i ts nulls buf off arbitrary: vs rule: decode_loop.induct) (auto split: if_splits coltype.splits)

lemma decoded_width: "decoded_as m cs rs \<Longrightarrow> r \<in> set rs \<Longrightarrow> length (snd r) = length (columns m)"
  by (induction cs arbitrary: rs) (auto simp: decode_cell_def decode_row_def types_def dest!: decode_loop_length)

lemma ins_row_Cons: "ins_row key rw (r # rs) = (if fst r < key then r # ins_row key rw rs else (key, rw) # r # rs)"
  by (simp add: ins_row_def)

lemma ins_cells_Cons: "ins_cells key v (c # cs) = (if fst c < key then c # ins_cells key v cs else (key, v) # c # cs)"
  by (simp add: ins_cells_def)

lemma ins_row_set: "set (ins_row key rw rs) = insert (key, rw) (set rs)"
  by (induction rs) (auto simp: ins_row_Cons ins_row_def)

lemma decoded_ins:
  "decoded_as m cs rs \<Longrightarrow> decode_row (types m) v = Inr rw \<Longrightarrow> decoded_as m (ins_cells key v cs) (ins_row key rw rs)"
proof (induction cs arbitrary: rs)
  case Nil
  then show ?case by (simp add: ins_cells_def ins_row_def decode_cell_def)
next
  case (Cons c cs)
  then obtain r rs' where "rs = (fst c, r) # rs'" "decode_row (types m) (snd c) = Inr r" "decoded_as m cs rs'"
    unfolding decoded_Cons by blast
  then show ?case using Cons.IH[of rs'] Cons.prems(2) by (auto simp: ins_cells_Cons ins_row_Cons decoded_Cons simp del: mapE.simps)
qed

lemma decoded_del: "decoded_as m cs rs \<Longrightarrow> decoded_as m (del_cells key cs) (del_row key rs)"
  by (induction cs arbitrary: rs) (auto simp: decode_cell_def del_cells_def del_row_def)

section \<open>The tables of a state\<close>

text \<open>The primary key is an INT column and holds the rowid.\<close>

definition pk_rows :: "table_meta \<Rightarrow> rowset \<Rightarrow> bool" where
  "pk_rows m rs \<longleftrightarrow>
     (\<forall>i. pk_index m = Some i \<longrightarrow> types m ! i = TInt \<and> (\<forall>r \<in> set rs. snd r ! i = VInt (fst r)))"

definition table_ok :: "engine \<Rightarrow> table_meta \<Rightarrow> ptree \<Rightarrow> rowset \<Rightarrow> bool" where
  "table_ok e m t rs \<longleftrightarrow>
     (\<exists>h. stored (e_bt e) h t) \<and> root_page m = proot t \<and> 0 \<notin> set (pages t) \<and>
     decoded_as m (cells t) rs \<and>
     distinct (map fst (indexes m)) \<and> indexed (e_idx e) m rs \<and> distinct (colnames m) \<and> pk_rows m rs \<and> [] \<notin> set (colnames m)"

definition represents :: "engine \<Rightarrow> (string \<Rightarrow> ptree) \<Rightarrow> (string \<Rightarrow> rowset) \<Rightarrow> bool" where
  "represents e T D \<longleftrightarrow>
     distinct (map fst (tables (e_cat e))) \<and>
     (\<forall>(k, m) \<in> set (tables (e_cat e)). tname m = k \<and> table_ok e m (T k) (D k)) \<and>
     (\<forall>k1 \<in> fst ` set (tables (e_cat e)). \<forall>k2 \<in> fst ` set (tables (e_cat e)).
        k1 \<noteq> k2 \<longrightarrow> set (pages (T k1)) \<inter> set (pages (T k2)) = {})"

lemma table_okD:
  assumes "table_ok e m t rs"
  shows "\<exists>h. stored (e_bt e) h t" and "root_page m = proot t" and "0 \<notin> set (pages t)"
    and "decoded_as m (cells t) rs"
    and "distinct (map fst (indexes m))" and "indexed (e_idx e) m rs"
    and "distinct (colnames m)" and "pk_rows m rs" and "[] \<notin> set (colnames m)"
  using assms by (simp_all add: table_ok_def)

lemma table_keys:
  assumes "table_ok e m t rs"
  shows "sorted_wrt (<) (map fst rs)" and "fst ` set rs = fst ` set (cells t)" and "distinct (map fst rs)"
proof -
  obtain h where h: "stored (e_bt e) h t" using table_okD(1)[OF assms] by blast
  note k = decoded_keys[OF table_okD(4)[OF assms]]
  show s: "sorted_wrt (<) (map fst rs)" using stored_sorted[OF h] k by simp
  then show "distinct (map fst rs)" by (simp add: strict_sorted_iff)
  show "fst ` set rs = fst ` set (cells t)" using k by (metis set_map)
qed

lemma table_width: "table_ok e m t rs \<Longrightarrow> r \<in> set rs \<Longrightarrow> length (snd r) = length (columns m)"
  using decoded_width table_okD(4) by blast

lemma table_same: "bt.same {} (e_bt e) s \<Longrightarrow> table_ok e m t rs \<Longrightarrow> table_ok (e\<lparr>e_bt := s\<rparr>) m t rs"
  using stored_same unfolding table_ok_def by fastforce

lemma represents_same: "bt.same {} (e_bt e) s \<Longrightarrow> represents e T D \<Longrightarrow> represents (e\<lparr>e_bt := s\<rparr>) T D"
  using table_same by (fastforce simp: represents_def)

lemma same_npages: "bt.same {} s s' \<Longrightarrow> bt_npages s' = bt_npages s"
  by (simp add: bt.same_def)

section \<open>Reading\<close>

lemma search_row_ok:
  assumes T: "table_ok e m t rs" and np: "int (bt_npages (e_bt e)) < NO_PAGE"
  shows "\<exists>s. search_row m key e = (Inr (map_of rs key), e\<lparr>e_bt := s\<rparr>) \<and> bt.same {} (e_bt e) s"
proof -
  obtain h where h: "stored (e_bt e) h t" using table_okD(1)[OF T] by blast
  obtain s where s: "search bt_store 32 (proot t) key (e_bt e) = (Inr (map_of (cells t) key), s)" "bt.same {} (e_bt e) s"
    using stored_search[OF h np] by blast
  note d = decoded_lookup[OF table_okD(4)[OF T], of key]
  show ?thesis
    using s d by (cases "map_of (cells t) key"; cases "map_of rs key")
      (auto simp: search_row_def on_bt_def bindP_app table_okD(2)[OF T])
qed

lemma scan_table_ok:
  assumes T: "table_ok e m t rs" and np: "int (bt_npages (e_bt e)) < NO_PAGE"
  shows "\<exists>s. scan_table m e = (Inr rs, e\<lparr>e_bt := s\<rparr>) \<and> bt.same {} (e_bt e) s"
proof -
  obtain h where h: "stored (e_bt e) h t" using table_okD(1)[OF T] by blast
  show ?thesis
    using stored_scan[OF h np] table_okD(4)[OF T]
    by (auto simp: scan_table_def on_bt_def bindP_app table_okD(2)[OF T] decode_cell_fun)
qed

lemma lookup_rows_ok:
  assumes "table_ok e m t rs" and "int (bt_npages (e_bt e)) < NO_PAGE"
  shows "\<exists>s. lookup_rows m ids e =
      (Inr (List.map_filter (\<lambda>rid. map_option (Pair rid) (map_of rs rid)) ids), e\<lparr>e_bt := s\<rparr>) \<and> bt.same {} (e_bt e) s"
  using assms
proof (induction ids arbitrary: e)
  case Nil
  then obtain h where "stored (e_bt e) h t" using table_okD(1) by blast
  then have "bt.same {} (e_bt e) (e_bt e)" by (simp add: stored_def bt.same_def)
  then show ?case by (intro exI[of _ "e_bt e"]) (simp add: map_filter_def)
next
  case (Cons rid ids)
  obtain s where s: "search_row m rid e = (Inr (map_of rs rid), e\<lparr>e_bt := s\<rparr>)" "bt.same {} (e_bt e) s"
    using search_row_ok[OF Cons.prems] by blast
  obtain s2 where s2: "lookup_rows m ids (e\<lparr>e_bt := s\<rparr>) =
      (Inr (List.map_filter (\<lambda>rid. map_option (Pair rid) (map_of rs rid)) ids), e\<lparr>e_bt := s2\<rparr>)" "bt.same {} s s2"
    using Cons.IH[OF table_same[OF s(2) Cons.prems(1)]] Cons.prems(2) same_npages[OF s(2)] by auto
  show ?case
    using s s2 bt.same_trans[OF s(2) s2(2)]
    by (intro exI[of _ s2]) (auto simp: bindP_app map_filter_simps split: option.split)
qed

lemma rows_by_ids:
  assumes "sorted_wrt (<) (map fst rs)"
  shows "List.map_filter (\<lambda>rid. map_option (Pair rid) (map_of rs rid)) (sorted_list_of_set (fst ` set (filter P rs))) = filter P rs"
proof -
  have d: "distinct (map fst rs)" using assms by (simp add: strict_sorted_iff)
  have "sorted_wrt (<) (map fst (filter P rs))" using assms by (simp add: sorted_wrt_map sorted_wrt_filter)
  then have "sorted_list_of_set (set (map fst (filter P rs))) = map fst (filter P rs)"
    unfolding strict_sorted_iff using sorted_list_of_set.idem_if_sorted_distinct by blast
  then have "sorted_list_of_set (fst ` set (filter P rs)) = map fst (filter P rs)" by (simp only: set_map)
  moreover have "List.map_filter (\<lambda>rid. map_option (Pair rid) (map_of rs rid)) (map fst qs) = qs" if "set qs \<subseteq> set rs" for qs
    using that d by (induction qs) (auto simp: map_filter_simps)
  ultimately show ?thesis by simp
qed

definition has_value :: "nat \<Rightarrow> val \<Rightarrow> int \<times> row \<Rightarrow> bool" where
  "has_value j v r \<longleftrightarrow> snd r ! j \<noteq> VNull \<and> py_eq (snd r ! j) v"

lemma index_lookup_ok:
  assumes T: "table_ok e m t rs" and np: "int (bt_npages (e_bt e)) < NO_PAGE"
    and c: "c \<in> fst ` set (indexes m)" "column_index m c = Inr j"
  shows "\<exists>s. index_lookup m c v e = (Inr (filter (has_value j v) rs), e\<lparr>e_bt := s\<rparr>) \<and> bt.same {} (e_bt e) s"
proof -
  obtain ix where ix: "map_of (e_idx e) (tname m, c) = Some ix" "index_of j rs ix"
    using table_okD(6)[OF T] c by (fastforce simp: indexed_def)
  have "idx_get v ix = fst ` set (filter (has_value j v) rs)"
    using ix(2) by (force simp: index_of_def has_value_def image_iff)
  then show ?thesis
    using lookup_rows_ok[OF T np, of "sorted_list_of_set (idx_get v ix)"] rows_by_ids[OF table_keys(1)[OF T], of "has_value j v"]
    by (simp add: index_lookup_def ix(1) c(2) bindP_app)
qed

section \<open>Changing one table\<close>

lemma indexed_cong:
  "tname m' = tname m \<Longrightarrow> columns m' = columns m \<Longrightarrow> indexes m' = indexes m \<Longrightarrow> indexed d m' rs = indexed d m rs"
  by (simp add: indexed_def column_index_def colnames_def)

lemma indexed_step:
  assumes I: "indexed d m rs" and D: "dict_step (tname m) f rw cs d d'"
    and cs: "set cs = {(c, j). c \<in> fst ` set (indexes m) \<and> column_index m c = Inr j}"
    and f: "\<And>j ix. index_of j rs ix \<Longrightarrow> index_of j rs' (if rw ! j = VNull then ix else f (rw ! j) ix)"
  shows "indexed d' m rs'" and "fst k \<noteq> tname m \<Longrightarrow> map_of d' k = map_of d k"
proof -
  show "indexed d' m rs'"
    unfolding indexed_def
  proof
    fix c assume c: "c \<in> fst ` set (indexes m)"
    then obtain j ix where j: "column_index m c = Inr j" "map_of d (tname m, c) = Some ix" "index_of j rs ix"
      using I unfolding indexed_def by blast
    have "(c, j) \<in> set cs" using c j(1) unfolding cs by simp
    from dict_stepD(1)[OF D this j(2)] f[OF j(3)]
    show "\<exists>j ix. column_index m c = Inr j \<and> map_of d' (tname m, c) = Some ix \<and> index_of j rs' ix" using j(1) by blast
  qed
  show "map_of d' k = map_of d k" if "fst k \<noteq> tname m" using that by (intro dict_stepD(2)[OF D]) auto
qed

lemma index_columns:
  assumes "indexed d m rs"
  shows "mapE (\<lambda>c. bindE (column_index m c) (\<lambda>j. Inr (c, j))) (map fst (indexes m)) =
    Inr (map (\<lambda>c. (c, projr (column_index m c))) (map fst (indexes m)))"
    and "set (map (\<lambda>c. (c, projr (column_index m c))) (map fst (indexes m))) =
      {(c, j). c \<in> fst ` set (indexes m) \<and> column_index m c = Inr j}"
proof -
  have j: "\<exists>j. column_index m c = Inr j" if "c \<in> fst ` set (indexes m)" for c
    using assms that unfolding indexed_def by blast
  show "mapE (\<lambda>c. bindE (column_index m c) (\<lambda>j. Inr (c, j))) (map fst (indexes m)) =
    Inr (map (\<lambda>c. (c, projr (column_index m c))) (map fst (indexes m)))"
  proof (rule mapE_Inr)
    fix c assume "c \<in> set (map fst (indexes m))"
    then have "c \<in> fst ` set (indexes m)" by simp
    from j[OF this] show "bindE (column_index m c) (\<lambda>j. Inr (c, j)) = Inr (c, projr (column_index m c))" by auto
  qed
  have p: "projr (column_index m c) = i \<longleftrightarrow> column_index m c = Inr i" if "c \<in> fst ` set (indexes m)" for c i
    using j[OF that] by auto
  have q: "(c, i) \<in> (\<lambda>c. (c, projr (column_index m c))) ` C \<longleftrightarrow> c \<in> C \<and> projr (column_index m c) = i" for c i C
    by auto
  show "set (map (\<lambda>c. (c, projr (column_index m c))) (map fst (indexes m))) =
      {(c, j). c \<in> fst ` set (indexes m) \<and> column_index m c = Inr j}"
  proof (rule set_eqI)
    fix x
    show "x \<in> set (map (\<lambda>c. (c, projr (column_index m c))) (map fst (indexes m))) \<longleftrightarrow>
        x \<in> {(c, j). c \<in> fst ` set (indexes m) \<and> column_index m c = Inr j}"
      using p by (cases x) (simp only: set_map q mem_Collect_eq prod.case, blast)
  qed
qed

lemma index_add_ok:
  assumes I: "indexed (e_idx e) m rs" and d: "distinct (map fst (indexes m))"
    and l: "length rw = length (columns m)" and rs: "set rs' = insert (rid, rw) (set rs)"
  shows "\<exists>d. index_add m rid rw e = (Inr (), e\<lparr>e_idx := d\<rparr>) \<and> indexed d m rs' \<and>
    (\<forall>k. fst k \<noteq> tname m \<longrightarrow> map_of d k = map_of (e_idx e) k)"
proof -
  let ?cs = "map (\<lambda>c. (c, projr (column_index m c))) (map fst (indexes m))"
  note cs = index_columns[OF I]
  have "map fst ?cs = map fst (indexes m)" by (simp add: comp_def)
  then have dd: "distinct (map fst ?cs)" using d by (simp only:)
  have bb: "\<forall>(c, j) \<in> set ?cs. j < length rw" unfolding cs(2) l using column_index_bound by blast
  obtain d where A: "add_to_indexes (tname m) rid rw ?cs e = (Inr (), e\<lparr>e_idx := d\<rparr>)"
    and D: "dict_step (tname m) (\<lambda>v. idx_add v rid) rw ?cs (e_idx e) d"
    using add_to_indexes_ok[OF dd bb] by blast
  have "index_add m rid rw e = (Inr (), e\<lparr>e_idx := d\<rparr>)" 
    unfolding index_add_def cs(1) using A by (simp add: bindP_app)
  then show ?thesis using indexed_step[OF I D cs(2) index_of_insert[OF _ rs]] by blast
qed

lemma index_remove_ok:
  assumes I: "indexed (e_idx e) m rs" and d: "distinct (map fst (indexes m))"
    and l: "length rw = length (columns m)" and rs: "set rs' = {r \<in> set rs. fst r \<noteq> rid}"
    and r: "(rid, rw) \<in> set rs" "distinct (map fst rs)"
  shows "\<exists>d. index_remove m rid rw e = (Inr (), e\<lparr>e_idx := d\<rparr>) \<and> indexed d m rs' \<and>
    (\<forall>k. fst k \<noteq> tname m \<longrightarrow> map_of d k = map_of (e_idx e) k)"
proof -
  note cs = index_columns[OF I]
  have bb: "\<forall>c \<in> set (map fst (indexes m)). \<exists>j. column_index m c = Inr j" using I by (auto simp: indexed_def)
  obtain d where A: "index_remove m rid rw e = (Inr (), e\<lparr>e_idx := d\<rparr>)"
    and D: "dict_step (tname m) (\<lambda>v. idx_discard v rid) rw
      (map (\<lambda>c. (c, projr (column_index m c))) (map fst (indexes m))) (e_idx e) d"
    using remove_from_indexes_ok[OF d bb l] unfolding index_remove_def by blast
  then show ?thesis using indexed_step[OF I D cs(2) index_of_remove[OF _ rs r]] by blast
qed

lemma represents_table:
  assumes "represents e T D" and "catalog_get (e_cat e) nm = Inr m"
  shows "tname m = lower nm" and "map_of (tables (e_cat e)) (lower nm) = Some m" and "table_ok e m (T (lower nm)) (D (lower nm))"
proof -
  show m: "map_of (tables (e_cat e)) (lower nm) = Some m" using assms(2) by (auto simp: catalog_get_def split: option.splits)
  then have "(lower nm, m) \<in> set (tables (e_cat e))" by (rule map_of_SomeD)
  then show "tname m = lower nm" "table_ok e m (T (lower nm)) (D (lower nm))" using assms(1) by (auto simp: represents_def)
qed

lemma represents_change:
  assumes R: "represents e T D" and m: "map_of (tables (e_cat e)) k = Some m"
    and step: "tree_step (e_bt e) (T k) (e_bt e') t'"
    and cat: "tables (e_cat e') = AList.update k m' (tables (e_cat e))" "tname m' = k"
    and ok: "table_ok e' m' t' rs'"
    and idx: "\<forall>x. fst x \<noteq> k \<longrightarrow> map_of (e_idx e') x = map_of (e_idx e) x"
  shows "represents e' (T(k := t')) (D(k := rs'))"
proof -
  let ?ts = "tables (e_cat e)"
  have d: "distinct (map fst ?ts)" using R by (simp add: represents_def)
  have k: "k \<in> fst ` set ?ts" using m by (auto dest: map_of_SomeD intro: rev_image_eqI)
  have keys: "fst ` set (tables (e_cat e')) = fst ` set ?ts"
    using k by (simp add: cat(1) dom_update insert_absorb)
  have mem: "(k2, m2) \<in> set (tables (e_cat e')) \<Longrightarrow> k2 = k \<and> m2 = m' \<or> k2 \<noteq> k \<and> (k2, m2) \<in> set ?ts" for k2 m2
  proof -
    assume "(k2, m2) \<in> set (tables (e_cat e'))"
    then have "map_of (tables (e_cat e')) k2 = Some m2" using distinct_update[OF d] by (simp add: cat(1))
    then show ?thesis by (auto simp: cat(1) update_conv' dest: map_of_SomeD split: if_splits)
  qed
  have other: "table_ok e' m2 (T k2) (D k2)" if "k2 \<noteq> k" "(k2, m2) \<in> set ?ts" for k2 m2
  proof -
    have t: "tname m2 = k2" "table_ok e m2 (T k2) (D k2)" using R that(2) by (auto simp: represents_def)
    have "k2 \<in> fst ` set ?ts" using that(2) by force
    then have "set (pages (T k2)) \<inter> set (pages (T k)) = {}" using R k that(1) unfolding represents_def by blast
    moreover obtain h where "stored (e_bt e) h (T k2)" using table_okD(1)[OF t(2)] by blast
    ultimately have "stored (e_bt e') h (T k2)" using step unfolding tree_step_def by blast
    moreover have "indexed (e_idx e') m2 (D k2)"
      using table_okD(6)[OF t(2)] idx that(1) t(1) by (simp add: indexed_def)
    ultimately show ?thesis using t(2) unfolding table_ok_def by blast
  qed
  have below: "set (pages (T k2)) \<subseteq> {..<bt_npages (e_bt e)}" if k2: "k2 \<in> fst ` set ?ts" for k2
  proof -
    obtain m2 where "(k2, m2) \<in> set ?ts" using k2 by force
    then have "table_ok e m2 (T k2) (D k2)" using R by (auto simp: represents_def)
    then show ?thesis using table_okD(1) by (fastforce simp: stored_def)
  qed
  have disj: "set (pages (T k2)) \<inter> set (pages t') = {}" if "k2 \<in> fst ` set ?ts" "k2 \<noteq> k" for k2
  proof -
    have "set (pages (T k2)) \<inter> set (pages (T k)) = {}" using R k that unfolding represents_def by blast
    moreover have "set (pages t') \<subseteq> set (pages (T k)) \<union> {bt_npages (e_bt e)..<bt_npages (e_bt e')}"
      using step by (simp add: tree_step_def)
    ultimately show ?thesis using below[OF that(1)] by fastforce
  qed
  have 1: "distinct (map fst (tables (e_cat e')))" using distinct_update[OF d] by (simp add: cat(1))
  have 2: "\<forall>(k2, m2) \<in> set (tables (e_cat e')). tname m2 = k2 \<and> table_ok e' m2 ((T(k := t')) k2) ((D(k := rs')) k2)"
  proof clarify
    fix k2 m2 assume "(k2, m2) \<in> set (tables (e_cat e'))"
    from mem[OF this] show "tname m2 = k2 \<and> table_ok e' m2 ((T(k := t')) k2) ((D(k := rs')) k2)"
      using ok cat(2) other R by (auto simp: represents_def)
  qed
  have 3: "set (pages ((T(k := t')) k1)) \<inter> set (pages ((T(k := t')) k2)) = {}"
    if "k1 \<in> fst ` set ?ts" "k2 \<in> fst ` set ?ts" "k1 \<noteq> k2" for k1 k2
  proof -
    have "set (pages (T k1)) \<inter> set (pages (T k2)) = {}" using R that unfolding represents_def by blast
    then show ?thesis using that disj[of k1] disj[of k2] by (cases "k1 = k"; cases "k2 = k") (simp_all add: Int_commute)
  qed
  show ?thesis unfolding represents_def keys using 1 2 3 by blast
qed

section \<open>One row\<close>

lemma put_meta_tables: "tables (e_cat (put_meta nm m e)) = AList.update (lower nm) m (tables (e_cat e))"
  by (simp add: put_meta_def)

lemma get_put_meta: "catalog_get (e_cat (put_meta nm m e\<lparr>e_idx := d\<rparr>)) nm = Inr m"
  by (simp add: put_meta_def catalog_get_def update_conv')

lemma table_change:
  assumes T: "table_ok e m t rs" and step: "tree_step (e_bt e) t s t'"
    and cells: "decoded_as m (cells t') rs'"
    and m': "tname m' = tname m" "columns m' = columns m" "indexes m' = indexes m" "root_page m' = proot t'"
    and e': "e_bt e' = s" "indexed (e_idx e') m rs'" and pk: "pk_rows m rs'"
  shows "table_ok e' m' t' rs'"
proof -
  obtain h where "stored (e_bt e) h t" using table_okD(1)[OF T] by blast
  then have "proot t < bt_npages (e_bt e)" by (simp add: stored_def)
  then have "0 < bt_npages (e_bt e)" by simp
  then have "0 \<notin> set (pages t')" using step table_okD(3)[OF T] by (fastforce simp: tree_step_def)
  moreover have "types m' = types m" using m'(2) by (simp add: types_def)
  then have "decode_cell m' = decode_cell m" by (simp add: decode_cell_def fun_eq_iff)
  moreover have "pk_rows m' rs' = pk_rows m rs'" "colnames m' = colnames m"
    using m'(2) by (simp_all add: pk_rows_def pk_index_def types_def colnames_def)
  ultimately show ?thesis
    using step cells e' m' pk table_okD(5,7,9)[OF T] indexed_cong[OF m'(1-3)] by (simp add: table_ok_def tree_step_def)
qed

definition after_insert :: "table_meta \<Rightarrow> nat \<Rightarrow> int \<Rightarrow> table_meta" where
  "after_insert m root rid =
     m\<lparr>root_page := root, next_rowid := max (next_rowid m) (rid + 1), row_count := row_count m + 1\<rparr>"

lemma store_row_ok:
  assumes R: "represents e T D" and m: "catalog_get (e_cat e) nm = Inr m"
    and np: "int (bt_npages (e_bt e)) + 33 < NO_PAGE" and rid: "int64 rid"
    and blob: "length blob \<le> MAX_VALUE_SIZE" "decode_row (types m) blob = Inr rw" and pk: "pk_rows m [(rid, rw)]"
  shows "if rid \<in> fst ` set (D (lower nm))
    then \<exists>s. store_row dup nm rid blob rw e = (Inl dup, e\<lparr>e_bt := s\<rparr>) \<and> bt.same {} (e_bt e) s
    else (\<exists>e' t. store_row dup nm rid blob rw e = (Inr (), e') \<and>
        represents e' (T(lower nm := t)) (D(lower nm := ins_row rid rw (D (lower nm)))) \<and>
        catalog_get (e_cat e') nm = Inr (after_insert m (proot t) rid) \<and>
        bt_npages (e_bt e') \<le> bt_npages (e_bt e) + 33 \<and> cells t = ins_cells rid blob (cells (T (lower nm)))) \<or>
      ((\<exists>b \<in> insert blob (snd ` set (cells (T (lower nm)))). \<not> small_row b) \<and>
        (\<exists>e'. store_row dup nm rid blob rw e = (Inl ValueError, e')))"
proof -
  let ?k = "lower nm" and ?ins = "tree_insert bt_store PAGE_SIZE 32 (root_page m) rid blob"
  note M = represents_table[OF R m]
  note K = table_okD[OF M(3)]
  obtain h where h: "stored (e_bt e) h (T ?k)" using K(1) by blast
  note I = insert_any[OF h blob(1) rid np, folded K(2)]
  show ?thesis
  proof (cases "rid \<in> fst ` set (D ?k)")
    case True
    then obtain s where s: "?ins (e_bt e) = (Inl (DuplicateKey rid), s)" "bt.same {} (e_bt e) s"
      using I table_keys(2)[OF M(3)] by auto
    have "store_row dup nm rid blob rw e = (Inl dup, e\<lparr>e_bt := s\<rparr>)"
      using s(1) m by (simp add: store_row_def get_meta_def bindP_app no_duplicate_def on_bt_def)
    then show ?thesis using True s(2) by auto
  next
    case False
    then have "rid \<notin> fst ` set (cells (T ?k))" using table_keys(2)[OF M(3)] by simp
    with I consider (err) s where "?ins (e_bt e) = (Inl ValueError, s)" "\<exists>b \<in> insert blob (snd ` set (cells (T ?k))). \<not> small_row b"
      | (fin) s t where "?ins (e_bt e) = (Inr (proot t), s)" "cells t = ins_cells rid blob (cells (T ?k))"
        "tree_step (e_bt e) (T ?k) s t"
      by (simp only: if_False) blast
    then show ?thesis
    proof cases
    case (err s)
    then have "store_row dup nm rid blob rw e = (Inl ValueError, e\<lparr>e_bt := s\<rparr>)"
      using m by (simp add: store_row_def get_meta_def bindP_app no_duplicate_def on_bt_def)
    then show ?thesis using err(2) False by auto
    next
    case s: (fin s t)
    let ?m = "after_insert m (proot t) rid" and ?rs = "ins_row rid rw (D ?k)"
    let ?e = "put_meta nm ?m (e\<lparr>e_bt := s\<rparr>)"
    have f: "tname ?m = tname m" "columns ?m = columns m" "indexes ?m = indexes m" "root_page ?m = proot t"
      by (simp_all add: after_insert_def)
    have dec: "decoded_as m (cells t) ?rs" unfolding s(2) by (rule decoded_ins[OF K(4) blob(2)])
    have "(rid, rw) \<in> set ?rs" by (simp add: ins_row_set)
    from decoded_width[OF dec this] have w: "length rw = length (columns ?m)" by (simp add: f)
    have ix: "indexed (e_idx ?e) ?m (D ?k)" using K(6) indexed_cong[OF f(1-3)] by (simp add: put_meta_def)
    obtain d where d: "index_add ?m rid rw ?e = (Inr (), ?e\<lparr>e_idx := d\<rparr>)" "indexed d ?m ?rs"
      "\<forall>k. fst k \<noteq> tname ?m \<longrightarrow> map_of d k = map_of (e_idx ?e) k"
      using index_add_ok[OF ix _ w ins_row_set] K(5) f(3) by metis
    let ?e' = "?e\<lparr>e_idx := d\<rparr>"
    have run: "store_row dup nm rid blob rw e = (Inr (), ?e')"
      using s(1) m d(1)
      by (simp add: store_row_def get_meta_def bindP_app no_duplicate_def on_bt_def Let_def after_insert_def)
    have bt: "e_bt ?e' = s" by (simp add: put_meta_def)
    have "pk_rows m ?rs" using pk K(8) by (simp add: pk_rows_def ins_row_set)
    moreover have "indexed (e_idx ?e') m ?rs" using d(2) indexed_cong[OF f(1-3)] by simp
    ultimately have ok: "table_ok ?e' ?m t ?rs" by (intro table_change[OF M(3) s(3) dec f bt])
    have "represents ?e' (T(?k := t)) (D(?k := ?rs))"
    proof (rule represents_change[OF R M(2) _ _ _ ok])
      show "tree_step (e_bt e) (T ?k) (e_bt ?e') t" using s(3) bt by simp
      show "tables (e_cat ?e') = AList.update ?k ?m (tables (e_cat e))" by (simp add: put_meta_def)
      show "tname ?m = ?k" using f(1) M(1) by simp
      show "\<forall>x. fst x \<noteq> ?k \<longrightarrow> map_of (e_idx ?e') x = map_of (e_idx e) x"
        using d(3) f(1) M(1) by (simp add: put_meta_def)
    qed
    moreover have "bt_npages (e_bt ?e') \<le> bt_npages (e_bt e) + 33" using s(3) bt by (simp add: tree_step_def)
    ultimately show ?thesis using run s(2) get_put_meta False by (auto simp: put_meta_def catalog_get_def update_conv')
    qed
  qed
qed

lemma delete_row_ok:
  assumes R: "represents e T D" and m: "catalog_get (e_cat e) nm = Inr m"
    and np: "int (bt_npages (e_bt e)) < NO_PAGE" and r: "(rid, rw) \<in> set (D (lower nm))"
    and small: "\<forall>c \<in> set (cells (T (lower nm))). length (snd c) \<le> 1408"
  shows "\<exists>e' t. delete_loop nm ((rid, rw) # rs) n e = delete_loop nm rs (n + 1) e' \<and>
      represents e' (T(lower nm := t)) (D(lower nm := del_row rid (D (lower nm)))) \<and>
      catalog_get (e_cat e') nm = Inr (m\<lparr>root_page := proot t, row_count := row_count m - 1\<rparr>) \<and>
      bt_npages (e_bt e') = bt_npages (e_bt e) \<and> cells t = del_cells rid (cells (T (lower nm)))"
proof -
  let ?k = "lower nm" and ?del = "tree_delete bt_store PAGE_SIZE 32 (root_page m) rid"
  note M = represents_table[OF R m]
  note K = table_okD[OF M(3)]
  obtain h where h: "stored (e_bt e) h (T ?k)" using K(1) by blast
  have "rid \<in> fst ` set (cells (T ?k))" using table_keys(2)[OF M(3)] r by force
  then obtain s t where s: "?del (e_bt e) = (Inr (proot t, True), s)" "cells t = del_cells rid (cells (T ?k))"
    "tree_step (e_bt e) (T ?k) s t" "bt_npages s = bt_npages (e_bt e)"
    using delete_spare[OF h small np, of rid, folded K(2)] by auto
  let ?m = "m\<lparr>root_page := proot t, row_count := row_count m - 1\<rparr>" and ?rs = "del_row rid (D ?k)"
  let ?e = "put_meta nm ?m (e\<lparr>e_bt := s\<rparr>)"
  have f: "tname ?m = tname m" "columns ?m = columns m" "indexes ?m = indexes m" "root_page ?m = proot t" by simp_all
  have dec: "decoded_as m (cells t) ?rs" unfolding s(2) by (rule decoded_del[OF K(4)])
  have w: "length rw = length (columns m)" using table_width[OF M(3) r] by simp
  have ix: "indexed (e_idx ?e) m (D ?k)" using K(6) by (simp add: put_meta_def)
  have rs: "set ?rs = {x \<in> set (D ?k). fst x \<noteq> rid}" by (auto simp: del_row_def)
  obtain d where d: "index_remove m rid rw ?e = (Inr (), ?e\<lparr>e_idx := d\<rparr>)" "indexed d m ?rs"
    "\<forall>k. fst k \<noteq> tname m \<longrightarrow> map_of d k = map_of (e_idx ?e) k"
    using index_remove_ok[OF ix K(5) w rs r table_keys(3)[OF M(3)]] by blast
  let ?e' = "?e\<lparr>e_idx := d\<rparr>"
  have run: "delete_loop nm ((rid, rw) # rs) n e = delete_loop nm rs (n + 1) ?e'"
    using s(1) m d(1) by (simp add: get_meta_def bindP_app on_bt_def)
  have bt: "e_bt ?e' = s" by (simp add: put_meta_def)
  have "pk_rows m ?rs" using K(8) by (simp add: pk_rows_def del_row_def)
  moreover have "indexed (e_idx ?e') m ?rs" using d(2) by simp
  ultimately have ok: "table_ok ?e' ?m t ?rs" by (intro table_change[OF M(3) s(3) dec f bt])
  have "represents ?e' (T(?k := t)) (D(?k := ?rs))"
  proof (rule represents_change[OF R M(2) _ _ _ ok])
    show "tree_step (e_bt e) (T ?k) (e_bt ?e') t" using s(3) bt by simp
    show "tables (e_cat ?e') = AList.update ?k ?m (tables (e_cat e))" by (simp add: put_meta_def)
    show "tname ?m = ?k" using f(1) M(1) by simp
    show "\<forall>x. fst x \<noteq> ?k \<longrightarrow> map_of (e_idx ?e') x = map_of (e_idx e) x"
      using d(3) M(1) by (simp add: put_meta_def)
  qed
  moreover have "catalog_get (e_cat ?e') nm = Inr ?m" by (simp add: put_meta_def catalog_get_def update_conv')
  moreover have "bt_npages (e_bt ?e') = bt_npages (e_bt e)" using s(4) bt by simp
  ultimately show ?thesis using run s(2) by (intro exI[of _ ?e'] exI[of _ t]) simp
qed

lemma meta_self: "m\<lparr>root_page := root_page m, row_count := row_count m\<rparr> = m"
  "m\<lparr>root_page := root_page m, next_rowid := next_rowid m, row_count := row_count m\<rparr> = m"
  by (cases m, simp)+

lemma delete_loop_ok:
  assumes "represents e T D" and "catalog_get (e_cat e) nm = Inr m" and "int (bt_npages (e_bt e)) < NO_PAGE"
    and "set qs \<subseteq> set (D (lower nm))" and "distinct (map fst qs)"
    and "\<forall>c \<in> set (cells (T (lower nm))). length (snd c) \<le> 1408"
  shows "\<exists>e' t. delete_loop nm qs n e = (Inr (n + int (length qs)), e') \<and>
      represents e' (T(lower nm := t)) (D(lower nm := filter (\<lambda>r. fst r \<notin> fst ` set qs) (D (lower nm)))) \<and>
      catalog_get (e_cat e') nm = Inr (m\<lparr>root_page := proot t, row_count := row_count m - int (length qs)\<rparr>) \<and>
      bt_npages (e_bt e') = bt_npages (e_bt e) \<and>
      cells t = filter (\<lambda>c. fst c \<notin> fst ` set qs) (cells (T (lower nm)))"
  using assms
proof (induction qs arbitrary: e T D m n)
  case Nil
  have "root_page m = proot (T (lower nm))" using table_okD(2)[OF represents_table(3)[OF Nil.prems(1,2)]] .
  then show ?case using Nil meta_self(1)[of m] by (intro exI[of _ e] exI[of _ "T (lower nm)"]) simp
next
  case (Cons q qs)
  obtain rid rw where q: "q = (rid, rw)" by force
  let ?k = "lower nm"
  obtain e1 t1 where e1: "delete_loop nm (q # qs) n e = delete_loop nm qs (n + 1) e1"
    "represents e1 (T(?k := t1)) (D(?k := del_row rid (D ?k)))"
    "catalog_get (e_cat e1) nm = Inr (m\<lparr>root_page := proot t1, row_count := row_count m - 1\<rparr>)"
    "bt_npages (e_bt e1) = bt_npages (e_bt e)" "cells t1 = del_cells rid (cells (T ?k))"
    using delete_row_ok[OF Cons.prems(1-3) _ Cons.prems(6), of rid rw qs n] Cons.prems(4) q by auto
  have small: "\<forall>c \<in> set (cells ((T(?k := t1)) ?k)). length (snd c) \<le> 1408"
    using Cons.prems(6) e1(5) by (simp add: del_cells_def)
  have sub: "set qs \<subseteq> set ((D(?k := del_row rid (D ?k))) ?k)"
    using Cons.prems(4,5) q by (force simp: del_row_def)
  have f: "filter (\<lambda>r. fst r \<notin> fst ` set qs) (del_row rid (D ?k)) = filter (\<lambda>r. fst r \<notin> fst ` set (q # qs)) (D ?k)"
    by (simp add: del_row_def q conj_commute)
  have np: "int (bt_npages (e_bt e1)) < NO_PAGE" "distinct (map fst qs)" using Cons.prems(3,5) e1(4) by simp_all
  obtain e2 t2 where e2: "delete_loop nm qs (n + 1) e1 = (Inr (n + 1 + int (length qs)), e2)"
    "represents e2 ((T(?k := t1))(?k := t2)) ((D(?k := del_row rid (D ?k)))
       (?k := filter (\<lambda>r. fst r \<notin> fst ` set qs) ((D(?k := del_row rid (D ?k))) ?k)))"
    "catalog_get (e_cat e2) nm = Inr ((m\<lparr>root_page := proot t1, row_count := row_count m - 1\<rparr>)
       \<lparr>root_page := proot t2, row_count := row_count (m\<lparr>root_page := proot t1, row_count := row_count m - 1\<rparr>) - int (length qs)\<rparr>)"
    "bt_npages (e_bt e2) = bt_npages (e_bt e1)"
    "cells t2 = filter (\<lambda>c. fst c \<notin> fst ` set qs) (cells ((T(?k := t1)) ?k))"
    using Cons.IH[OF e1(2,3) np(1) sub np(2) small, of "n + 1"] by blast
  have "cells t2 = filter (\<lambda>c. fst c \<notin> fst ` set (q # qs)) (cells (T ?k))"
    using e2(5) e1(5) by (simp add: del_cells_def q conj_commute)
  moreover have "represents e2 (T(?k := t2)) (D(?k := filter (\<lambda>r. fst r \<notin> fst ` set (q # qs)) (D ?k)))"
    using e2(2) by (simp only: fun_upd_upd fun_upd_same f)
  moreover have "delete_loop nm (q # qs) n e = (Inr (n + int (length (q # qs))), e2)"
    using e1(1) e2(1) by simp
  moreover have "catalog_get (e_cat e2) nm = Inr (m\<lparr>root_page := proot t2, row_count := row_count m - int (length (q # qs))\<rparr>)"
    "bt_npages (e_bt e2) = bt_npages (e_bt e)"
    using e1(4) e2(3,4) by (simp_all add: algebra_simps)
  ultimately show ?case by blast
qed

section \<open>INSERT\<close>

text \<open>The row that \<open>INSERT\<close> stores for a list of expressions, or the exception it raises before it
  touches the table.\<close>

definition prepared :: "table_meta \<Rightarrow> string list option \<Rightarrow> expr list \<Rightarrow> (int \<times> row \<times> bytes) res" where
  "prepared m declared exprs =
     (let ncols = length (types m) in
      if length exprs \<noteq> (case declared of None \<Rightarrow> ncols | Some cs \<Rightarrow> length cs) then Inl SQLError else
      bindE (mapE literal_value exprs) (\<lambda>vs.
      bindE (case declared of None \<Rightarrow> Inr vs | Some cs \<Rightarrow> place m (zip cs vs) (replicate ncols VNull)) (\<lambda>full.
      bindE (assign_rowid m full) (\<lambda>(rid, full1).
      bindE (coerce_row m full1) (\<lambda>rw.
      bindE (case pk_index m of None \<Rightarrow> Inr () | Some i \<Rightarrow> bindE (nth_err rw i) (\<lambda>v. if v = VNull then Inl SQLError else Inr ())) (\<lambda>_.
      bindE (encode_checked m rw) (\<lambda>blob. Inr (rid, rw, blob))))))))"

lemma insert_row_prepared:
  assumes m: "catalog_get (e_cat e) nm = Inr m"
  shows "insert_row nm declared exprs e =
     (case prepared m declared exprs of
        Inl x \<Rightarrow> (Inl x, e)
      | Inr (rid, rw, blob) \<Rightarrow>
          bindP (on_bt (search bt_store 32 (root_page m) rid)) (\<lambda>old.
          if old \<noteq> None then raise SQLError else store_row SQLError nm rid blob rw) e)"
proof -
  have 1: "bindP (liftE r) f e = (case r of Inl x \<Rightarrow> (Inl x, e) | Inr y \<Rightarrow> f y e)" for r f and e :: engine
    by (simp add: bindP_app split: sum.split)
  have 2: "(case bindE r f of Inl x \<Rightarrow> g x | Inr y \<Rightarrow> h y) = (case r of Inl x \<Rightarrow> g x | Inr z \<Rightarrow> (case f z of Inl x \<Rightarrow> g x | Inr y \<Rightarrow> h y))"
    for r f g h by (cases r) auto
  show ?thesis
    unfolding insert_row_def prepared_def Let_def using m
    by (simp add: get_meta_def bindP_app 2 split: sum.split prod.split)
qed

lemma prepared_coerced:
  assumes "prepared m declared exprs = Inr (rid, rw, blob)"
  shows "\<exists>full. Rows.coerce_row (types m) full = Inr rw \<and> length full = length (types m)"
    and "encode_row (types m) rw = Inr blob"
proof -
  obtain vs full full1 where p: "length exprs = (case declared of None \<Rightarrow> length (types m) | Some cs \<Rightarrow> length cs)"
    "mapE literal_value exprs = Inr vs"
    "(case declared of None \<Rightarrow> Inr vs | Some cs \<Rightarrow> place m (zip cs vs) (replicate (length (types m)) VNull)) = Inr full"
    "assign_rowid m full = Inr (rid, full1)" "coerce_row m full1 = Inr rw" "encode_checked m rw = Inr blob"
    using assms by (auto simp: prepared_def Let_def split: if_splits)
  have pl: "place m cvs xs = Inr ys \<Longrightarrow> length ys = length xs" for cvs xs ys
    by (induction cvs arbitrary: xs) (auto split: prod.splits)
  have "length full = length (types m)"
    using p(1,3) mapE_length[OF p(2)] pl by (auto split: option.splits)
  moreover have "length full1 = length full"
    using p(4) by (auto simp: assign_rowid_def split: option.splits)
  moreover have "Rows.coerce_row (types m) full1 = Inr rw" using p(5) by (simp add: Dml.coerce_row_def Rows.coerce_row_def)
  ultimately show "\<exists>full. Rows.coerce_row (types m) full = Inr rw \<and> length full = length (types m)" by metis
  show "encode_row (types m) rw = Inr blob" using p(6) by (auto simp: encode_checked_def split: if_splits)
qed

lemma prepared_pk:
  assumes "prepared m declared exprs = Inr (rid, rw, blob)" and "pk_rows m rs"
  shows "pk_rows m [(rid, rw)]"
proof -
  have "rw ! i = VInt rid" if i: "pk_index m = Some i" "types m ! i = TInt" for i
  proof -
    obtain full full1 where p: "assign_rowid m full = Inr (rid, full1)" "coerce_row m full1 = Inr rw"
      using assms(1) by (auto simp: prepared_def Let_def split: if_splits)
    have f1: "full1 ! i = VInt rid" "i < length full1"
      using p(1) i(1) by (auto simp: assign_rowid_def nth_err_def split: if_splits)
    have "i < length (types m)" using i(1) first_index_Some[of cpk "columns m" i] by (simp add: pk_index_def types_def)
    moreover have "coerce_row m full1 = mapE (\<lambda>(t, v). coerce_value t v) (zip (types m) full1)" by (simp add: Dml.coerce_row_def)
    ultimately have "coerce_value (types m ! i) (full1 ! i) = Inr (rw ! i)"
      using mapE_nth[of _ "zip (types m) full1" rw i] p(2) f1(2) by simp
    then show ?thesis using f1(1) i(2) by (simp add: coerce_value_def)
  qed
  then show ?thesis using assms(2) by (simp add: pk_rows_def)
qed

lemma prepared_decodes:
  assumes "prepared m declared exprs = Inr (rid, rw, blob)" and "list_all val_ok rw"
  shows "decode_row (types m) blob = Inr rw"
proof -
  obtain full where f: "Rows.coerce_row (types m) full = Inr rw" "length full = length (types m)"
    using prepared_coerced(1)[OF assms(1)] by blast
  show ?thesis
    using decode_encode_row[OF prepared_coerced(2)[OF assms(1)] assms(2), of "[]"] map2_stored[OF coerce_row_types[OF f]] by simp
qed

text \<open>What \<open>encode_row\<close> accepts: an INT field holds a 64-bit integer.\<close>

lemma encode_loop_fields:
  "encode_loop i tvs nulls parts = Inr r \<Longrightarrow> (t, v) \<in> set tvs \<Longrightarrow> v \<noteq> VNull \<Longrightarrow> \<exists>p. encode_field t v = Inr p"
  by (induction i tvs nulls parts rule: encode_loop.induct) (auto split: if_splits)

lemma encoded_int64:
  assumes "encode_row ts rw = Inr blob" and "i < length ts" and "ts ! i = TInt" and "rw ! i = VInt k"
  shows "int64 k"
proof -
  obtain r where r: "encode_loop 0 (zip ts rw) 0 [] = Inr r" and l: "length rw = length ts"
    using assms(1) by (auto simp: encode_row_def split: if_splits)
  have "(TInt, VInt k) \<in> set (zip ts rw)" using assms(2-4) l unfolding set_zip by (auto intro!: exI[of _ i])
  then obtain p where "encode_field TInt (VInt k) = Inr p" using encode_loop_fields[OF r] by blast
  then show ?thesis by (auto simp: encode_field_def pack_q_def int64_def split: if_splits)
qed

text \<open>A row that the table can hold: texts of Unicode code points and, without a primary key to encode, a
  64-bit rowid.\<close>

definition row_fits :: "table_meta \<Rightarrow> int \<Rightarrow> row \<Rightarrow> bool" where
  "row_fits m rid rw \<longleftrightarrow> (pk_index m = None \<longrightarrow> int64 rid) \<and> list_all val_ok rw"

lemma prepared_int64:
  assumes "prepared m declared exprs = Inr (rid, rw, blob)" and "pk_rows m rs" and "row_fits m rid rw"
  shows "int64 rid"
proof (cases "pk_index m")
  case None
  then show ?thesis using assms(3) by (simp add: row_fits_def)
next
  case (Some i)
  have "i < length (types m)" using Some first_index_Some[of cpk "columns m" i] by (simp add: pk_index_def types_def)
  moreover have "types m ! i = TInt" "rw ! i = VInt rid"
    using prepared_pk[OF assms(1,2)] Some by (simp_all add: pk_rows_def)
  ultimately show ?thesis using encoded_int64[OF prepared_coerced(2)[OF assms(1)]] by blast
qed

lemma prepared_length: "prepared m declared exprs = Inr (rid, rw, blob) \<Longrightarrow> length blob \<le> MAX_VALUE_SIZE"
  by (auto simp: prepared_def Let_def encode_checked_def split: if_splits)

text \<open>One row of an \<open>INSERT\<close>, on every branch. A row that does not fit after a split is a \<open>ValueError\<close>.\<close>

lemma insert_row_ok:
  assumes R: "represents e T D" and m: "catalog_get (e_cat e) nm = Inr m"
    and np: "int (bt_npages (e_bt e)) + 33 < NO_PAGE"
  shows "case prepared m declared exprs of
      Inl x \<Rightarrow> insert_row nm declared exprs e = (Inl x, e)
    | Inr (rid, rw, blob) \<Rightarrow> row_fits m rid rw \<longrightarrow>
        (if rid \<in> fst ` set (D (lower nm))
         then \<exists>s. insert_row nm declared exprs e = (Inl SQLError, e\<lparr>e_bt := s\<rparr>) \<and> bt.same {} (e_bt e) s
         else (\<exists>e' t. insert_row nm declared exprs e = (Inr (), e') \<and>
             represents e' (T(lower nm := t)) (D(lower nm := ins_row rid rw (D (lower nm)))) \<and>
             catalog_get (e_cat e') nm = Inr (after_insert m (proot t) rid) \<and>
             bt_npages (e_bt e') \<le> bt_npages (e_bt e) + 33 \<and> cells t = ins_cells rid blob (cells (T (lower nm)))) \<or>
           ((\<exists>b \<in> insert blob (snd ` set (cells (T (lower nm)))). \<not> small_row b) \<and>
             (\<exists>e'. insert_row nm declared exprs e = (Inl ValueError, e'))))"
proof (cases "prepared m declared exprs")
  case (Inl x)
  then show ?thesis using insert_row_prepared[OF m] by simp
next
  case (Inr p)
  obtain rid rw blob where p: "p = (rid, rw, blob)" by (cases p) auto
  have prep: "prepared m declared exprs = Inr (rid, rw, blob)" using Inr p by simp
  note run = insert_row_prepared[OF m, of declared exprs, unfolded Inr p, simplified]
  note M = represents_table[OF R m]
  have np1: "int (bt_npages (e_bt e)) < NO_PAGE" using np by simp
  obtain h where h: "stored (e_bt e) h (T (lower nm))" using table_okD(1)[OF M(3)] by blast
  obtain s where s: "search bt_store 32 (root_page m) rid (e_bt e) = (Inr (map_of (cells (T (lower nm))) rid), s)"
    "bt.same {} (e_bt e) s"
    using stored_search[OF h np1, of rid] table_okD(2)[OF M(3)] by auto
  let ?e = "e\<lparr>e_bt := s\<rparr>"
  have some: "map_of (cells (T (lower nm))) rid \<noteq> None \<longleftrightarrow> rid \<in> fst ` set (D (lower nm))"
    unfolding table_keys(2)[OF M(3)] by (simp add: map_of_eq_None_iff)
  have "(if rid \<in> fst ` set (D (lower nm))
         then \<exists>s. insert_row nm declared exprs e = (Inl SQLError, e\<lparr>e_bt := s\<rparr>) \<and> bt.same {} (e_bt e) s
         else (\<exists>e' t. insert_row nm declared exprs e = (Inr (), e') \<and>
             represents e' (T(lower nm := t)) (D(lower nm := ins_row rid rw (D (lower nm)))) \<and>
             catalog_get (e_cat e') nm = Inr (after_insert m (proot t) rid) \<and>
             bt_npages (e_bt e') \<le> bt_npages (e_bt e) + 33 \<and> cells t = ins_cells rid blob (cells (T (lower nm)))) \<or>
           ((\<exists>b \<in> insert blob (snd ` set (cells (T (lower nm)))). \<not> small_row b) \<and>
             (\<exists>e'. insert_row nm declared exprs e = (Inl ValueError, e'))))"
    if fit: "row_fits m rid rw"
  proof (cases "rid \<in> fst ` set (D (lower nm))")
    case True
    then have "insert_row nm declared exprs e = (Inl SQLError, ?e)"
      using run some s(1) by (simp add: bindP_app on_bt_def)
    then show ?thesis using True s(2) by auto
  next
    case False
    then have ins: "insert_row nm declared exprs e = store_row SQLError nm rid blob rw ?e"
      using run some s(1) by (simp add: bindP_app on_bt_def)
    have "list_all val_ok rw" using fit by (simp add: row_fits_def)
    then have dec: "decode_row (types m) blob = Inr rw" using prepared_decodes[OF prep] by simp
    have pk: "pk_rows m [(rid, rw)]" by (rule prepared_pk[OF prep table_okD(8)[OF M(3)]])
    have key: "int64 rid" by (rule prepared_int64[OF prep table_okD(8)[OF M(3)] fit])
    have me: "catalog_get (e_cat ?e) nm = Inr m" "int (bt_npages (e_bt ?e)) + 33 < NO_PAGE"
      using m np same_npages[OF s(2)] by simp_all
    have "bt_npages (e_bt ?e) = bt_npages (e_bt e)" using same_npages[OF s(2)] by simp
    then show ?thesis
      using store_row_ok[OF represents_same[OF s(2) R] me key prepared_length[OF prep] dec pk, where dup = SQLError] False
      unfolding ins by (simp only: if_False)
  qed
  then show ?thesis unfolding prep sum.case prod.case by (rule impI)
qed

end
