(* ===== verification/Statements.thy ===== *)
theory Statements
  imports TableProps
begin

text \<open>
  The row statements against the rows they are about: \<open>WHERE\<close> with its shortcuts selects what a full
  scan selects, \<open>INSERT\<close> and \<open>DELETE\<close> change the rows as the specification says, save the catalog, and
  leave the other tables and all indexes right.
\<close>

section \<open>What \<open>represents\<close> does not look at\<close>

lemma represents_cong:
  "e_bt e' = e_bt e \<Longrightarrow> e_idx e' = e_idx e \<Longrightarrow> e_cat e' = e_cat e \<Longrightarrow> represents e' T D = represents e T D"
  by (simp add: represents_def table_ok_def)

lemma ensure_snapshot_ok:
  "\<exists>e'. ensure_snapshot e = (Inr (), e') \<and> e_bt e' = e_bt e \<and> e_idx e' = e_idx e \<and> e_cat e' = e_cat e"
  by (simp add: ensure_snapshot_def)

lemma save_error: "catalog_text (e_cat e) = Inl x \<Longrightarrow> save e = (Inl x, e)"
  by (simp add: save_def save_catalog_def on_bt_def bindP_app)

lemma catalog_text_fits: "catalog_text c = Inr raw \<Longrightarrow> length raw \<le> PAGE_SIZE"
  by (auto simp: catalog_text_def PAGE_SIZE_def split: if_splits)

lemma save_ok:
  assumes R: "represents e T D" and m: "catalog_get (e_cat e) nm = Inr m" and c: "catalog_text (e_cat e) = Inr raw"
  shows "\<exists>s. save e = (Inr (), e\<lparr>e_bt := s\<rparr>) \<and> represents (e\<lparr>e_bt := s\<rparr>) T D \<and> bt_npages s = bt_npages (e_bt e)"
proof -
  note M = represents_table[OF R m]
  obtain h where h: "stored (e_bt e) h (T (lower nm))" using table_okD(1)[OF M(3)] by blast
  then have ok: "bt_ok {} (e_bt e)" "proot (T (lower nm)) < bt_npages (e_bt e)" by (auto simp: stored_def)
  then have "0 < bt_npages (e_bt e)" by simp
  then obtain s where s: "bt_write 0 raw (e_bt e) = (Inr (), s)" "bt_ok {} s"
    "bt_view s = (bt_view (e_bt e))(0 := decoded (pad_to PAGE_SIZE raw))" "bt_npages s = bt_npages (e_bt e)"
    using bt_write_any[OF ok(1) _ catalog_text_fits[OF c]] by fastforce
  have keep: "stored s h2 t2" if "stored (e_bt e) h2 t2" "0 \<notin> set (pages t2)" for h2 t2
  proof -
    have "bt_view s p = bt_view (e_bt e) p" if "p \<in> fpages [t2]" for p
      using s(3) that \<open>0 \<notin> set (pages t2)\<close> by (auto simp: fpages_def)
    then have "tree_at (bt_view s) PAGE_SIZE h2 t2 None"
      using that(1) forest_frame[of "[t2]" "bt_view s" "bt_view (e_bt e)" PAGE_SIZE h2 "[]" None] by (simp add: stored_def)
    then show ?thesis using that(1) s(2,4) by (simp add: stored_def)
  qed
  have "table_ok (e\<lparr>e_bt := s\<rparr>) m2 t2 rs" if "table_ok e m2 t2 rs" for m2 t2 rs
    using that keep unfolding table_ok_def by fastforce
  then have "represents (e\<lparr>e_bt := s\<rparr>) T D" using R unfolding represents_def by fastforce
  moreover have "save e = (Inr (), e\<lparr>e_bt := s\<rparr>)" using s(1) c by (simp add: save_def save_catalog_def on_bt_def bindP_app)
  ultimately show ?thesis using s(4) by blast
qed

section \<open>WHERE\<close>

definition selected :: "(int \<Rightarrow> int) \<Rightarrow> table_meta \<Rightarrow> expr option \<Rightarrow> rowset \<Rightarrow> rowset res" where
  "selected low m w rs =
     (case w of
        None \<Rightarrow> Inr rs
      | Some c \<Rightarrow> bindE (compile_expr low (table_scope m) [] False c) (\<lambda>f. filterE (keep_row f) rs))"

lemma filterE_Inr: "filterE P xs = Inr ys \<longleftrightarrow> (\<forall>x \<in> set xs. \<exists>b. P x = Inr b) \<and> ys = filter (\<lambda>x. P x = Inr True) xs"
proof (induction xs arbitrary: ys)
  case (Cons x xs)
  then show ?case by (cases "P x") auto
qed auto

lemma filterE_sub:
  assumes "filterE P xs = Inr ys" and "\<And>x. x \<in> set xs \<Longrightarrow> P x = Inr True \<Longrightarrow> Q x"
  shows "filterE P (filter Q xs) = Inr ys"
proof -
  have "filter (\<lambda>x. P x = Inr True) (filter Q xs) = filter (\<lambda>x. P x = Inr True) xs"
    using assms(2) by (auto intro: filter_cong)
  then show ?thesis using assms(1) unfolding filterE_Inr by simp
qed

lemma equi_conjunct:
  "(nm, tab, v) \<in> set (find_equi_predicates cs) \<Longrightarrow>
   BinOp B_eq (Column nm tab) (Literal v) \<in> set cs \<or> BinOp B_eq (Literal v) (Column nm tab) \<in> set cs"
proof (induction cs)
  case (Cons c cs)
  show ?case
  proof (cases "(nm, tab, v) \<in> set (find_equi_predicates cs)")
    case True
    then show ?thesis using Cons.IH by auto
  next
    case False
    then have "(nm, tab, v) \<in> set (find_equi_predicates [c])" using Cons.prems by simp
    then show ?thesis by (cases c; (simp; fail)?; (auto split: expr.splits binop.splits)?)
  qed
qed simp

lemma shortcut_equi:
  "find_shortcut m ps = Some s \<Longrightarrow>
   \<exists>nm tab v. (nm, tab, v) \<in> set ps \<and> (tab = None \<or> tab = Some (tname m)) \<and> nm \<in> set (colnames m) \<and>
     (s = By_pk v \<and> pk_column m = Some nm \<or> s = By_index nm v \<and> nm \<in> fst ` set (indexes m))"
proof (induction ps)
  case (Cons p ps)
  obtain nm tab v where p: "p = (nm, tab, v)" by (cases p) auto
  show ?case using Cons p by (auto split: if_splits)
qed simp

lemma column_index_some: "nm \<in> set (colnames m) \<Longrightarrow> \<exists>j. column_index m nm = Inr j"
proof -
  assume "nm \<in> set (colnames m)"
  then have "first_index (\<lambda>c. c = nm) (colnames m) \<noteq> None" by (simp add: first_index_None)
  then show ?thesis by (auto simp: column_index_def)
qed

lemma resolve_table:
  assumes "tab = None \<or> tab = Some (tname m)" and "nm \<in> set (colnames m)" and "column_index m nm = Inr j"
  shows "resolve (table_scope m) nm tab = Inr (0, j)"
  using assms by (auto simp: resolve_def table_scope_def)

text \<open>A row that satisfies the clause holds the value of every \<open>column = literal\<close> conjunct.\<close>

lemma kept_has_value:
  assumes f: "compile_expr low (table_scope m) [] False c = Inr f" and k: "keep_row f r = Inr True"
    and eq: "(nm, tab, v) \<in> set (find_equi_predicates (flatten_and c))"
    and col: "tab = None \<or> tab = Some (tname m)" "nm \<in> set (colnames m)" "column_index m nm = Inr j"
    and w: "length (snd r) = length (columns m)"
  shows "has_value j v r" and "v \<noteq> VNull"
proof -
  have t: "f [Some (snd r)] None = Inr (VBool True)" using k by (auto simp: keep_row_def)
  let ?c = "compile_expr low (table_scope m) [] False (Column nm tab)"
  have c: "?c = Inr (\<lambda>ps env. read_part ps 0 j)" using resolve_table[OF col] by simp
  have j: "j < length (snd r)" using column_index_bound[OF col(3)] w by simp
  have read: "read_part [Some (snd r)] 0 j = Inr (snd r ! j)" using j by (simp add: read_part_def nth_err_def)
  have "snd r ! j \<noteq> VNull \<and> v \<noteq> VNull \<and> py_eq (snd r ! j) v"
    using equi_conjunct[OF eq]
  proof
    assume "BinOp B_eq (Column nm tab) (Literal v) \<in> set (flatten_and c)"
    from conjunct_true[OF f t _ _ this] obtain g x where
      "compile_expr low (table_scope m) [] False (BinOp B_eq (Column nm tab) (Literal v)) = Inr g"
      "g [Some (snd r)] None = Inr x" "x \<noteq> VNull" "truthy x" by auto
    from eq_conjunct[OF this] show ?thesis using c read by auto
  next
    assume "BinOp B_eq (Literal v) (Column nm tab) \<in> set (flatten_and c)"
    from conjunct_true[OF f t _ _ this] obtain g x where
      "compile_expr low (table_scope m) [] False (BinOp B_eq (Literal v) (Column nm tab)) = Inr g"
      "g [Some (snd r)] None = Inr x" "x \<noteq> VNull" "truthy x" by auto
    from eq_conjunct[OF this] show ?thesis using c read py_eq_sym by auto
  qed
  then show "has_value j v r" "v \<noteq> VNull" by (auto simp: has_value_def)
qed

text \<open>The value of a primary key and the integer it is coerced to.\<close>

lemma pk_value:
  assumes "py_eq (VInt i) v" and "coerce_pk v = Inr key"
  shows "i = key"
proof (cases v)
  case (VInt k)
  then show ?thesis using assms by (simp add: coerce_pk_def view_int_def)
next
  case (VFloat w)
  then have int: "dbl_is_integer w" "dbl_to_int w = Inr key" using assms(2) by (auto simp: coerce_pk_def split: if_splits)
  then obtain neg n x where w: "fclass w = FFin neg n x" by (auto simp: dbl_is_integer_def split: fclass.splits)
  have eq: "num_eq (NFin i 0) (NFin (sgn_int neg n) x)" using assms(1) VFloat w by (simp add: view_int_def view_dbl_def)
  show ?thesis
  proof (cases "0 \<le> x")
    case True
    then show ?thesis using eq int(2) w by (auto simp: dbl_to_int_def sgn_int_def)
  next
    case False
    then have "i * 2 ^ nat (- x) = sgn_int neg n" using eq by (simp add: min_def)
    then have "n = (if neg then - i else i) * 2 ^ nat (- x)" by (auto simp: sgn_int_def split: if_splits)
    then have "n div 2 ^ nat (- x) = (if neg then - i else i)" by simp
    then show ?thesis using int(2) w False by (simp add: dbl_to_int_def Let_def split: if_splits)
  qed
qed (use assms(2) in \<open>auto simp: coerce_pk_def\<close>)

lemma pk_column_index:
  assumes "pk_column m = Some nm" and "distinct (colnames m)"
  obtains j where "pk_index m = Some j" "column_index m nm = Inr j" "nm \<in> set (colnames m)"
proof -
  obtain c where c: "find cpk (columns m) = Some c" "cname c = nm" using assms(1) by (auto simp: pk_column_def)
  then have "\<exists>x \<in> set (columns m). cpk x" by (auto simp: find_Some_iff)
  then obtain j where j: "pk_index m = Some j" using first_index_None[of cpk "columns m"] by (auto simp: pk_index_def)
  then have f: "j < length (columns m)" "cpk (columns m ! j)" "\<forall>i < j. \<not> cpk (columns m ! i)"
    using first_index_Some[of cpk "columns m" j] by (simp_all add: pk_index_def)
  obtain i where i: "i < length (columns m)" "cpk (columns m ! i)" "c = columns m ! i" "\<forall>k < i. \<not> cpk (columns m ! k)"
    using c(1) by (auto simp: find_Some_iff)
  have "i = j" using f i by (metis linorder_neqE_nat)
  then have nm: "colnames m ! j = nm" "j < length (colnames m)" using c(2) i f(1) by (simp_all add: colnames_def)
  then have mem: "nm \<in> set (colnames m)" by (metis nth_mem)
  obtain k where k: "column_index m nm = Inr k" using column_index_some[OF mem] by blast
  have "k < length (colnames m)" "colnames m ! k = nm" using column_index_bound[OF k] by (simp_all add: colnames_def)
  then have "k = j" using nm assms(2) by (metis nth_eq_iff_index_eq)
  then show ?thesis using that[of j] j k mem by simp
qed

lemma lookup_filter:
  assumes "distinct (map fst rs)"
  shows "(case map_of rs key of None \<Rightarrow> [] | Some rw \<Rightarrow> [(key, rw)]) = filter (\<lambda>r. fst r = key) rs"
  using assms
proof (induction rs)
  case (Cons r rs)
  have "filter (\<lambda>r. fst r = key) rs = []" if "fst r = key" 
  proof -
    have "key \<notin> fst ` set rs" using Cons.prems that by auto
    then show ?thesis by (auto simp: filter_empty_conv)
  qed
  then show ?case using Cons by (cases r) auto
qed simp

lemma candidates_ok:
  assumes T: "table_ok e m t rs" and np: "int (bt_npages (e_bt e)) < NO_PAGE"
    and f: "compile_expr low (table_scope m) [] False c = Inr f"
  shows "\<exists>s cand. candidates m c e = (Inr cand, e\<lparr>e_bt := s\<rparr>) \<and> bt.same {} (e_bt e) s \<and>
    (cand = None \<or> (\<exists>Q. cand = Some (filter Q rs) \<and> (\<forall>r \<in> set rs. keep_row f r = Inr True \<longrightarrow> Q r)))"
proof -
  obtain h where "stored (e_bt e) h t" using table_okD(1)[OF T] by blast
  then have self: "bt.same {} (e_bt e) (e_bt e)" by (simp add: stored_def bt.same_def)
  let ?ps = "find_equi_predicates (flatten_and c)"
  have w: "length (snd r) = length (columns m)" if "r \<in> set rs" for r using table_width[OF T that] .
  show ?thesis
  proof (cases "find_shortcut m ?ps")
    case None
    then show ?thesis using self by (intro exI[of _ "e_bt e"] exI[of _ None]) (simp add: candidates_def)
  next
    case (Some sc)
    then obtain nm tab v where E: "(nm, tab, v) \<in> set ?ps" "tab = None \<or> tab = Some (tname m)" "nm \<in> set (colnames m)"
      and S: "sc = By_pk v \<and> pk_column m = Some nm \<or> sc = By_index nm v \<and> nm \<in> fst ` set (indexes m)"
      using shortcut_equi[OF Some] by blast
    from S show ?thesis
    proof (elim disjE conjE)
      assume A: "sc = By_index nm v" "nm \<in> fst ` set (indexes m)"
      obtain j where j: "column_index m nm = Inr j" using column_index_some[OF E(3)] by blast
      obtain s where s: "index_lookup m nm v e = (Inr (filter (has_value j v) rs), e\<lparr>e_bt := s\<rparr>)" "bt.same {} (e_bt e) s"
        using index_lookup_ok[OF T np A(2) j] by blast
      have "\<forall>r \<in> set rs. keep_row f r = Inr True \<longrightarrow> has_value j v r"
        using kept_has_value(1)[OF f _ E j w] by blast
      then show ?thesis
        using s Some A(1) by (intro exI[of _ s] exI[of _ "Some (filter (has_value j v) rs)"]) (auto simp: candidates_def bindP_app)
    next
      assume A: "sc = By_pk v" "pk_column m = Some nm"
      show ?thesis
      proof (cases "coerce_pk v")
        case (Inl x)
        then show ?thesis using self Some A(1) by (intro exI[of _ "e_bt e"] exI[of _ None]) (simp add: candidates_def)
      next
        case (Inr key)
        obtain j where j: "pk_index m = Some j" "column_index m nm = Inr j"
          using pk_column_index[OF A(2) table_okD(7)[OF T]] by blast
        obtain s where s: "search_row m key e = (Inr (map_of rs key), e\<lparr>e_bt := s\<rparr>)" "bt.same {} (e_bt e) s"
          using search_row_ok[OF T np] by blast
        have "fst r = key" if r: "r \<in> set rs" "keep_row f r = Inr True" for r
        proof -
          have "snd r ! j = VInt (fst r)" using table_okD(8)[OF T] j(1) r(1) by (simp add: pk_rows_def)
          then have "py_eq (VInt (fst r)) v"
            using kept_has_value(1)[OF f r(2) E j(2) w[OF r(1)]] by (simp add: has_value_def)
          then show ?thesis using Inr by (rule pk_value)
        qed
        then show ?thesis
          using s Some A(1) Inr lookup_filter[OF table_keys(3)[OF T], of key]
          by (intro exI[of _ s] exI[of _ "Some (filter (\<lambda>r. fst r = key) rs)"]) (auto simp: candidates_def bindP_app)
      qed
    qed
  qed
qed

lemma matching_rows_ok:
  assumes T: "table_ok e m t rs" and np: "int (bt_npages (e_bt e)) < NO_PAGE" and sel: "selected low m w rs = Inr out"
  shows "\<exists>s. matching_rows low m w e = (Inr out, e\<lparr>e_bt := s\<rparr>) \<and> bt.same {} (e_bt e) s"
proof (cases w)
  case None
  then show ?thesis using scan_table_ok[OF T np] sel by (simp add: matching_rows_def selected_def)
next
  case (Some c)
  then obtain f where f: "compile_expr low (table_scope m) [] False c = Inr f" "filterE (keep_row f) rs = Inr out"
    using sel by (auto simp: selected_def)
  obtain s cand where c: "candidates m c e = (Inr cand, e\<lparr>e_bt := s\<rparr>)" "bt.same {} (e_bt e) s"
    "cand = None \<or> (\<exists>Q. cand = Some (filter Q rs) \<and> (\<forall>r \<in> set rs. keep_row f r = Inr True \<longrightarrow> Q r))"
    using candidates_ok[OF T np f(1)] by blast
  let ?e = "e\<lparr>e_bt := s\<rparr>"
  from c(3) show ?thesis
  proof (elim disjE exE conjE)
    assume n: "cand = None"
    have "int (bt_npages (e_bt ?e)) < NO_PAGE" using np same_npages[OF c(2)] by simp
    then obtain s2 where s2: "scan_table m ?e = (Inr rs, ?e\<lparr>e_bt := s2\<rparr>)" "bt.same {} s s2"
      using scan_table_ok[OF table_same[OF c(2) T]] by auto
    then show ?thesis
      using Some c(1) n f bt.same_trans[OF c(2) s2(2)]
      by (intro exI[of _ s2]) (simp add: matching_rows_def bindP_app)
  next
    fix Q assume q: "cand = Some (filter Q rs)" "\<forall>r \<in> set rs. keep_row f r = Inr True \<longrightarrow> Q r"
    have "filterE (keep_row f) (filter Q rs) = Inr out" by (rule filterE_sub[OF f(2)]) (use q(2) in blast)
    then show ?thesis
      using Some c(1,2) q(1) f(1) by (intro exI[of _ s]) (simp add: matching_rows_def bindP_app)
  qed
qed

section \<open>DELETE\<close>

text \<open>The end of a statement: the catalog is saved, or does not fit on its page.\<close>

definition saved :: "(engine, int) prog \<Rightarrow> engine \<Rightarrow> int \<Rightarrow> engine \<Rightarrow> (string \<Rightarrow> ptree) \<Rightarrow> (string \<Rightarrow> rowset) \<Rightarrow> bool" where
  "saved p e n e1 T D \<longleftrightarrow>
     represents e1 T D \<and>
     (case catalog_text (e_cat e1) of
        Inl x \<Rightarrow> p e = (Inl x, e1)
      | Inr raw \<Rightarrow> \<exists>s. p e = (Inr n, e1\<lparr>e_bt := s\<rparr>) \<and> represents (e1\<lparr>e_bt := s\<rparr>) T D)"

lemma savedI:
  assumes "p e = bindP save (\<lambda>_. ret n) e1" and "represents e1 T D" and "catalog_get (e_cat e1) nm = Inr m"
  shows "saved p e n e1 T D"
proof (cases "catalog_text (e_cat e1)")
  case (Inl x)
  then show ?thesis using assms save_error[OF Inl] by (simp add: saved_def bindP_app)
next
  case (Inr raw)
  then show ?thesis using assms save_ok[OF assms(2,3) Inr] by (fastforce simp: saved_def bindP_app)
qed

lemma delete_stmt_run:
  assumes R: "represents e T D" and m: "catalog_get (e_cat e) nm = Inr m" and np: "int (bt_npages (e_bt e)) < NO_PAGE"
    and sel: "selected low m w (D (lower nm)) = Inr out"
    and small: "\<forall>c \<in> set (cells (T (lower nm))). length (snd c) \<le> 1408"
  shows "\<exists>e1 t. saved (delete_stmt low nm w) e (int (length out)) e1 (T(lower nm := t))
        (D(lower nm := filter (\<lambda>r. fst r \<notin> fst ` set out) (D (lower nm)))) \<and>
      catalog_get (e_cat e1) nm = Inr (m\<lparr>root_page := proot t, row_count := row_count m - int (length out)\<rparr>) \<and>
      bt_npages (e_bt e1) = bt_npages (e_bt e) \<and>
      cells t = filter (\<lambda>c. fst c \<notin> fst ` set out) (cells (T (lower nm)))"
proof -
  obtain e0 where e0: "ensure_snapshot e = (Inr (), e0)" "e_bt e0 = e_bt e" "e_idx e0 = e_idx e" "e_cat e0 = e_cat e"
    using ensure_snapshot_ok by blast
  have R0: "represents e0 T D" using R represents_cong[OF e0(2-4)] by simp
  have m0: "catalog_get (e_cat e0) nm = Inr m" using m e0(4) by simp
  note M = represents_table[OF R0 m0]
  have np0: "int (bt_npages (e_bt e0)) < NO_PAGE" using np e0(2) by simp
  obtain s where s: "matching_rows low m w e0 = (Inr out, e0\<lparr>e_bt := s\<rparr>)" "bt.same {} (e_bt e0) s"
    using matching_rows_ok[OF M(3) np0 sel] by blast
  let ?e = "e0\<lparr>e_bt := s\<rparr>"
  have sub: "set out \<subseteq> set (D (lower nm)) \<and> (\<exists>P. out = filter P (D (lower nm)))"
    using sel by (fastforce simp: selected_def filterE_Inr split: option.splits intro: exI[of _ "\<lambda>_. True"])
  then have dist: "distinct (map fst out)" using table_keys(3)[OF M(3)] by (auto simp: distinct_map_filter)
  have me: "catalog_get (e_cat ?e) nm = Inr m" "int (bt_npages (e_bt ?e)) < NO_PAGE"
    using m0 np0 same_npages[OF s(2)] by simp_all
  obtain e1 t where e1: "delete_loop nm out 0 ?e = (Inr (0 + int (length out)), e1)"
    "represents e1 (T(lower nm := t)) (D(lower nm := filter (\<lambda>r. fst r \<notin> fst ` set out) (D (lower nm))))"
    "catalog_get (e_cat e1) nm = Inr (m\<lparr>root_page := proot t, row_count := row_count m - int (length out)\<rparr>)"
    "bt_npages (e_bt e1) = bt_npages (e_bt ?e)" "cells t = filter (\<lambda>c. fst c \<notin> fst ` set out) (cells (T (lower nm)))"
    using delete_loop_ok[OF represents_same[OF s(2) R0] me conjunct1[OF sub] dist small, of 0] by blast
  have "delete_stmt low nm w e = bindP save (\<lambda>_. ret (int (length out))) e1"
    using e0(1) m0 s(1) e1(1) by (simp add: delete_stmt_def bindP_app get_meta_def)
  from savedI[where p = "delete_stmt low nm w", OF this e1(2,3)] show ?thesis
    using e1(3-5) same_npages[OF s(2)] e0(2) by auto
qed

section \<open>INSERT\<close>

text \<open>The rows after an \<open>INSERT\<close> and the next rowid, or the exception of the first row that fails.\<close>

fun spec_inserts :: "table_meta \<Rightarrow> string list option \<Rightarrow> expr list list \<Rightarrow> rowset \<Rightarrow> (int \<times> rowset) res" where
  "spec_inserts m declared [] rs = Inr (next_rowid m, rs)"
| "spec_inserts m declared (x # xs) rs =
     bindE (prepared m declared x) (\<lambda>(rid, rw, blob).
     if rid \<in> fst ` set rs then Inl SQLError
     else spec_inserts (m\<lparr>next_rowid := max (next_rowid m) (rid + 1)\<rparr>) declared xs (ins_row rid rw rs))"

text \<open>Every row that comes to be stored can be held: see \<open>row_fits\<close>.\<close>

fun rows_fit :: "table_meta \<Rightarrow> string list option \<Rightarrow> expr list list \<Rightarrow> bool" where
  "rows_fit m declared [] = True"
| "rows_fit m declared (x # xs) =
     (case prepared m declared x of
        Inl e \<Rightarrow> True
      | Inr (rid, rw, blob) \<Rightarrow>
          row_fits m rid rw \<and> rows_fit (m\<lparr>next_rowid := max (next_rowid m) (rid + 1)\<rparr>) declared xs)"

text \<open>The encodings of the rows, up to the first that is refused.\<close>

fun prepared_blobs :: "table_meta \<Rightarrow> string list option \<Rightarrow> expr list list \<Rightarrow> bytes list" where
  "prepared_blobs m declared [] = []"
| "prepared_blobs m declared (x # xs) =
     (case prepared m declared x of
        Inl e \<Rightarrow> []
      | Inr (rid, rw, blob) \<Rightarrow> blob # prepared_blobs (m\<lparr>next_rowid := max (next_rowid m) (rid + 1)\<rparr>) declared xs)"

text \<open>Only the columns and the next rowid of a table matter for the rows it is given.\<close>

lemma prepared_cong:
  assumes "columns m' = columns m" and "next_rowid m' = next_rowid m"
  shows "prepared m' declared x = prepared m declared x"
proof -
  have c: "types m' = types m" "pk_index m' = pk_index m" "column_index m' = column_index m"
    using assms(1) by (simp_all add: types_def pk_index_def column_index_def colnames_def fun_eq_iff)
  have p: "place m' cvs xs = place m cvs xs" for cvs xs
    by (induction cvs arbitrary: xs) (auto simp: c(3) intro: bindE_cong)
  have "assign_rowid m' x = assign_rowid m x" for x unfolding assign_rowid_def c assms(2) ..
  then have "assign_rowid m' = assign_rowid m" by (rule ext)
  moreover have "Dml.coerce_row m' = Dml.coerce_row m" "encode_checked m' = encode_checked m"
    using c by (simp_all add: fun_eq_iff Dml.coerce_row_def encode_checked_def)
  ultimately have f: "assign_rowid m' = assign_rowid m" "Dml.coerce_row m' = Dml.coerce_row m"
    "encode_checked m' = encode_checked m" by simp_all
  show ?thesis unfolding prepared_def c(1,2) p f ..
qed

lemma spec_cong:
  assumes "columns m' = columns m" and "next_rowid m' = next_rowid m"
  shows "spec_inserts m' declared xs rs = spec_inserts m declared xs rs" and "rows_fit m' declared xs = rows_fit m declared xs"
    and "prepared_blobs m' declared xs = prepared_blobs m declared xs"
proof -
  show "spec_inserts m' declared xs rs = spec_inserts m declared xs rs"
    using assms
  proof (induction xs arbitrary: m m' rs)
    case (Cons x xs)
    note p = prepared_cong[OF Cons.prems, of declared x]
    have i: "spec_inserts (m'\<lparr>next_rowid := k\<rparr>) declared xs rs' = spec_inserts (m\<lparr>next_rowid := k\<rparr>) declared xs rs'" for k rs'
      using Cons.IH Cons.prems(1) by simp
    show ?case unfolding spec_inserts.simps p Cons.prems(2) i ..
  qed simp
  show "rows_fit m' declared xs = rows_fit m declared xs"
    using assms
  proof (induction xs arbitrary: m m')
    case (Cons x xs)
    note p = prepared_cong[OF Cons.prems, of declared x]
    have "rows_fit (m'\<lparr>next_rowid := k\<rparr>) declared xs = rows_fit (m\<lparr>next_rowid := k\<rparr>) declared xs" for k
      using Cons.IH Cons.prems(1) by simp
    moreover have "row_fits m' = row_fits m" using Cons.prems(1) by (simp add: row_fits_def pk_index_def fun_eq_iff)
    ultimately show ?case using Cons.prems(2) by (simp add: p split: sum.split prod.split)
  qed simp
  show "prepared_blobs m' declared xs = prepared_blobs m declared xs"
    using assms
  proof (induction xs arbitrary: m m')
    case (Cons x xs)
    note p = prepared_cong[OF Cons.prems, of declared x]
    have "prepared_blobs (m'\<lparr>next_rowid := k\<rparr>) declared xs = prepared_blobs (m\<lparr>next_rowid := k\<rparr>) declared xs" for k
      using Cons.IH Cons.prems(1) by simp
    then show ?case using Cons.prems(2) by (simp add: p split: sum.split prod.split)
  qed simp
qed

lemma ins_cells_values: "snd ` set (ins_cells key v cs) = insert v (snd ` set cs)"
  by (simp add: ins_cells_set)

text \<open>The rows are stored as specified, or some row, new or old, is longer than 141 bytes and a split fails.\<close>

lemma insert_rows_ok:
  assumes "represents e T D" and "catalog_get (e_cat e) nm = Inr m"
    and "int (bt_npages (e_bt e)) + 33 * int (length xs) < NO_PAGE" and "rows_fit m declared xs"
  shows "(case spec_inserts m declared xs (D (lower nm)) of
      Inl x \<Rightarrow> \<exists>e'. each (insert_row nm declared) xs e = (Inl x, e')
    | Inr (nxt, rs) \<Rightarrow> \<exists>e' t. each (insert_row nm declared) xs e = (Inr (), e') \<and>
        represents e' (T(lower nm := t)) (D(lower nm := rs)) \<and>
        catalog_get (e_cat e') nm = Inr (m\<lparr>root_page := proot t, next_rowid := nxt, row_count := row_count m + int (length xs)\<rparr>) \<and>
        bt_npages (e_bt e') \<le> bt_npages (e_bt e) + 33 * length xs \<and>
        snd ` set (cells t) = set (prepared_blobs m declared xs) \<union> snd ` set (cells (T (lower nm)))) \<or>
    ((\<exists>b \<in> set (prepared_blobs m declared xs) \<union> snd ` set (cells (T (lower nm))). \<not> small_row b) \<and>
      (\<exists>e'. each (insert_row nm declared) xs e = (Inl ValueError, e')))"
  using assms
proof (induction xs arbitrary: e T D m)
  case Nil
  have "represents e (T(lower nm := T (lower nm))) (D(lower nm := D (lower nm)))" using Nil.prems(1) by simp
  moreover have "root_page m = proot (T (lower nm))" using table_okD(2)[OF represents_table(3)[OF Nil.prems(1,2)]] .
  ultimately show ?case using Nil.prems(2) meta_self(2)[of m]
    by (simp del: fun_upd_triv) (intro disjI1 exI[of _ "T (lower nm)"], simp)
next
  case (Cons x xs)
  let ?k = "lower nm"
  have np: "int (bt_npages (e_bt e)) + 33 < NO_PAGE" using Cons.prems(3) by simp
  note I = insert_row_ok[OF Cons.prems(1,2) np, of declared x]
  show ?case
  proof (cases "prepared m declared x")
    case (Inl y)
    then show ?thesis using I by (simp add: bindP_app)
  next
    case (Inr p)
    obtain rid rw blob where p: "p = (rid, rw, blob)" by (cases p) auto
    let ?mm = "m\<lparr>next_rowid := max (next_rowid m) (rid + 1)\<rparr>"
    have fit: "row_fits m rid rw" "rows_fit ?mm declared xs" using Cons.prems(4) Inr p by simp_all
    have blobs: "prepared_blobs m declared (x # xs) = blob # prepared_blobs ?mm declared xs" using Inr p by simp
    show ?thesis
    proof (cases "rid \<in> fst ` set (D ?k)")
      case True
      then show ?thesis using I Inr p fit(1) by (auto simp: bindP_app)
    next
      case False
      have "(\<exists>e' t. insert_row nm declared x e = (Inr (), e') \<and>
             represents e' (T(?k := t)) (D(?k := ins_row rid rw (D ?k))) \<and>
             catalog_get (e_cat e') nm = Inr (after_insert m (proot t) rid) \<and>
             bt_npages (e_bt e') \<le> bt_npages (e_bt e) + 33 \<and> cells t = ins_cells rid blob (cells (T ?k))) \<or>
           ((\<exists>b \<in> insert blob (snd ` set (cells (T ?k))). \<not> small_row b) \<and>
             (\<exists>e'. insert_row nm declared x e = (Inl ValueError, e')))"
        using mp[OF I[unfolded Inr p sum.case prod.case] fit(1)] False by (simp only: if_False)
      then consider (err) e' where "insert_row nm declared x e = (Inl ValueError, e')"
          "\<exists>b \<in> insert blob (snd ` set (cells (T ?k))). \<not> small_row b"
        | (fin) e1 t where "insert_row nm declared x e = (Inr (), e1)"
          "represents e1 (T(?k := t)) (D(?k := ins_row rid rw (D ?k)))"
          "catalog_get (e_cat e1) nm = Inr (after_insert m (proot t) rid)" "bt_npages (e_bt e1) \<le> bt_npages (e_bt e) + 33"
          "cells t = ins_cells rid blob (cells (T ?k))"
        by blast
      then show ?thesis
      proof cases
        case err
        then have "each (insert_row nm declared) (x # xs) e = (Inl ValueError, e')" by (simp add: bindP_app)
        moreover have "\<exists>b \<in> set (prepared_blobs m declared (x # xs)) \<union> snd ` set (cells (T ?k)). \<not> small_row b"
          using err(2) unfolding blobs by auto
        ultimately show ?thesis by blast
      next
        case e1: fin
        let ?m1 = "after_insert m (proot t) rid"
        have c: "columns ?m1 = columns ?mm" "next_rowid ?m1 = next_rowid ?mm" by (simp_all add: after_insert_def)
        have np1: "int (bt_npages (e_bt e1)) + 33 * int (length xs) < NO_PAGE" using Cons.prems(3) e1(4) by simp
        have f1: "rows_fit ?m1 declared xs" using fit(2) spec_cong(2)[OF c] by simp
        have step: "each (insert_row nm declared) (x # xs) e = each (insert_row nm declared) xs e1"
          using e1(1) by (simp add: bindP_app)
        have spec: "spec_inserts m declared (x # xs) (D ?k) = spec_inserts ?m1 declared xs ((D(?k := ins_row rid rw (D ?k))) ?k)"
          using Inr p False spec_cong(1)[OF c] by simp
        have rc: "?m1\<lparr>root_page := r, next_rowid := k, row_count := row_count ?m1 + int (length xs)\<rparr> =
            m\<lparr>root_page := r, next_rowid := k, row_count := row_count m + int (length (x # xs))\<rparr>" for r k
          by (simp add: after_insert_def)
        have vals: "set (prepared_blobs ?m1 declared xs) \<union> snd ` set (cells ((T(?k := t)) ?k)) =
            set (prepared_blobs m declared (x # xs)) \<union> snd ` set (cells (T ?k))"
          unfolding blobs spec_cong(3)[OF c] by (auto simp: e1(5) ins_cells_values)
        have pages: "n \<le> bt_npages (e_bt e) + 33 * length (x # xs)" if "n \<le> bt_npages (e_bt e1) + 33 * length xs" for n
          using that e1(4) by simp
        note IH = Cons.IH[OF e1(2,3) np1 f1, unfolded rc fun_upd_upd vals, folded step spec]
        from IH show ?thesis
        proof
          assume ok: "case spec_inserts m declared (x # xs) (D ?k) of
              Inl y \<Rightarrow> \<exists>e'. each (insert_row nm declared) (x # xs) e = (Inl y, e')
            | Inr (nxt, rs) \<Rightarrow> \<exists>e' t. each (insert_row nm declared) (x # xs) e = (Inr (), e') \<and>
                represents e' (T(?k := t)) (D(?k := rs)) \<and>
                catalog_get (e_cat e') nm = Inr (m\<lparr>root_page := proot t, next_rowid := nxt, row_count := row_count m + int (length (x # xs))\<rparr>) \<and>
                bt_npages (e_bt e') \<le> bt_npages (e_bt e1) + 33 * length xs \<and>
                snd ` set (cells t) = set (prepared_blobs m declared (x # xs)) \<union> snd ` set (cells (T ?k))"
          show ?thesis
          proof (cases "spec_inserts m declared (x # xs) (D ?k)")
            case (Inl y)
            then show ?thesis using ok by simp
          next
            case (Inr q)
            obtain nxt rs where q: "q = (nxt, rs)" by force
            show ?thesis using ok pages unfolding Inr q sum.case prod.case by blast
          qed
        qed blast
      qed
    qed
  qed
qed

definition columns_accepted :: "table_meta \<Rightarrow> string list option \<Rightarrow> unit res" where
  "columns_accepted m declared =
     (case declared of
        None \<Rightarrow> Inr ()
      | Some cs \<Rightarrow> if \<not> distinct cs then Inl SQLError
                  else if \<exists>c \<in> set cs. c \<notin> set (colnames m) then Inl CatalogError else Inr ())"

lemma insert_stmt_run:
  assumes R: "represents e T D" and m: "catalog_get (e_cat e) nm = Inr m"
    and np: "int (bt_npages (e_bt e)) + 33 * int (length xs) < NO_PAGE" and fit: "rows_fit m declared xs"
  shows "(case bindE (columns_accepted m declared) (\<lambda>_. spec_inserts m declared xs (D (lower nm))) of
      Inl x \<Rightarrow> \<exists>e'. insert_stmt nm declared xs e = (Inl x, e')
    | Inr (nxt, rs) \<Rightarrow> \<exists>e1 t. saved (insert_stmt nm declared xs) e (int (length xs)) e1 (T(lower nm := t)) (D(lower nm := rs)) \<and>
        catalog_get (e_cat e1) nm = Inr (m\<lparr>root_page := proot t, next_rowid := nxt, row_count := row_count m + int (length xs)\<rparr>) \<and>
        bt_npages (e_bt e1) \<le> bt_npages (e_bt e) + 33 * length xs \<and>
        snd ` set (cells t) = set (prepared_blobs m declared xs) \<union> snd ` set (cells (T (lower nm)))) \<or>
    ((\<exists>b \<in> set (prepared_blobs m declared xs) \<union> snd ` set (cells (T (lower nm))). \<not> small_row b) \<and>
      (\<exists>e'. insert_stmt nm declared xs e = (Inl ValueError, e')))"
proof -
  obtain e0 where e0: "ensure_snapshot e = (Inr (), e0)" "e_bt e0 = e_bt e" "e_idx e0 = e_idx e" "e_cat e0 = e_cat e"
    using ensure_snapshot_ok by blast
  have R0: "represents e0 T D" using R represents_cong[OF e0(2-4)] by simp
  have m0: "catalog_get (e_cat e0) nm = Inr m" "int (bt_npages (e_bt e0)) + 33 * int (length xs) < NO_PAGE"
    using m np e0(2,4) by simp_all
  have run: "insert_stmt nm declared xs e =
      (case columns_accepted m declared of
         Inl x \<Rightarrow> (Inl x, e0)
       | Inr _ \<Rightarrow> bindP (each (insert_row nm declared) xs) (\<lambda>_. bindP save (\<lambda>_. ret (int (length xs)))) e0)"
    using e0(1) m0(1) by (simp add: insert_stmt_def bindP_app get_meta_def columns_accepted_def[symmetric])
  show ?thesis
  proof (cases "columns_accepted m declared")
    case (Inl x)
    then show ?thesis using run by simp
  next
    case (Inr u)
    have go: "insert_stmt nm declared xs e =
        bindP (each (insert_row nm declared) xs) (\<lambda>_. bindP save (\<lambda>_. ret (int (length xs)))) e0"
      using run Inr by simp
    have acc: "bindE (columns_accepted m declared) f = f ()" for f :: "unit \<Rightarrow> (int \<times> rowset) res" using Inr by simp
    from insert_rows_ok[OF R0 m0 fit, unfolded e0(2)] show ?thesis
    proof
      assume ok: "case spec_inserts m declared xs (D (lower nm)) of
          Inl x \<Rightarrow> \<exists>e'. each (insert_row nm declared) xs e0 = (Inl x, e')
        | Inr (nxt, rs) \<Rightarrow> \<exists>e' t. each (insert_row nm declared) xs e0 = (Inr (), e') \<and>
            represents e' (T(lower nm := t)) (D(lower nm := rs)) \<and>
            catalog_get (e_cat e') nm = Inr (m\<lparr>root_page := proot t, next_rowid := nxt, row_count := row_count m + int (length xs)\<rparr>) \<and>
            bt_npages (e_bt e') \<le> bt_npages (e_bt e) + 33 * length xs \<and>
            snd ` set (cells t) = set (prepared_blobs m declared xs) \<union> snd ` set (cells (T (lower nm)))"
      show ?thesis
      proof (cases "spec_inserts m declared xs (D (lower nm))")
        case (Inl x)
        then show ?thesis using ok go acc by (auto simp: bindP_app)
      next
        case (Inr p)
        obtain nxt rs where p: "p = (nxt, rs)" by force
        obtain e1 t where e1: "each (insert_row nm declared) xs e0 = (Inr (), e1)"
          "represents e1 (T(lower nm := t)) (D(lower nm := rs))"
          "catalog_get (e_cat e1) nm = Inr (m\<lparr>root_page := proot t, next_rowid := nxt, row_count := row_count m + int (length xs)\<rparr>)"
          "bt_npages (e_bt e1) \<le> bt_npages (e_bt e) + 33 * length xs"
          "snd ` set (cells t) = set (prepared_blobs m declared xs) \<union> snd ` set (cells (T (lower nm)))"
          using ok unfolding Inr p sum.case prod.case by blast
        have "insert_stmt nm declared xs e = bindP save (\<lambda>_. ret (int (length xs))) e1" using go e1(1) by (simp add: bindP_app)
        note S = savedI[where p = "insert_stmt nm declared xs", OF this e1(2,3)]
        show ?thesis unfolding acc Inr p sum.case prod.case using S e1(3-5) by blast
      qed
    next
      assume "(\<exists>b \<in> set (prepared_blobs m declared xs) \<union> snd ` set (cells (T (lower nm))). \<not> small_row b) \<and>
        (\<exists>e'. each (insert_row nm declared) xs e0 = (Inl ValueError, e'))"
      then show ?thesis using go by (auto simp: bindP_app)
    qed
  qed
qed

end
