(* ===== verification/Updates.thy ===== *)
theory Updates
  imports Statements
begin

text \<open>
  \<open>UPDATE\<close> against the rows: every selected row gets its new values, computed from its old ones; the
  tree keeps its keys, the indexes follow. A row that grows may not fit its leaf any more, a
  \<open>ValueError\<close>.
\<close>

definition upd_row :: "int \<Rightarrow> row \<Rightarrow> rowset \<Rightarrow> rowset" where
  "upd_row key rw rs = map (\<lambda>r. if fst r = key then (key, rw) else r) rs"

lemma decoded_upd:
  "decoded_as m cs rs \<Longrightarrow> decode_row (types m) v = Inr rw \<Longrightarrow> decoded_as m (upd_cells key v cs) (upd_row key rw rs)"
proof (induction cs arbitrary: rs)
  case Nil
  then show ?case by (simp add: upd_cells_def upd_row_def)
next
  case (Cons c cs)
  obtain r rs' where r: "rs = (fst c, r) # rs'" "decode_row (types m) (snd c) = Inr r" "decoded_as m cs rs'"
    using Cons.prems(1) unfolding decoded_Cons by blast
  have "decoded_as m (upd_cells key v cs) (upd_row key rw rs')" by (rule Cons.IH[OF r(3) Cons.prems(2)])
  then have "decoded_as m ((if fst c = key then (key, v) else c) # upd_cells key v cs)
      ((if fst c = key then (key, rw) else (fst c, r)) # upd_row key rw rs')"
    using r(2) Cons.prems(2) unfolding decoded_Cons by auto
  then show ?case by (simp only: r(1) upd_cells_def upd_row_def list.map fst_conv)
qed

lemma upd_row_set:
  assumes "(key, old) \<in> set rs"
  shows "set (upd_row key rw rs) = insert (key, rw) (set (del_row key rs))"
  using assms by (auto simp: upd_row_def del_row_def image_iff)

lemma upd_row_keys: "map fst (upd_row key rw rs) = map fst rs"
  by (induction rs) (auto simp: upd_row_def)

section \<open>Types of stored rows\<close>

lemma decode_loop_types: "decode_loop i ts nulls buf off = Inr vs \<Longrightarrow> list_all2 has_type ts vs"
  by (induction i ts nulls buf off arbitrary: vs rule: decode_loop.induct) (auto split: if_splits coltype.splits)

lemma decoded_types: "decoded_as m cs rs \<Longrightarrow> r \<in> set rs \<Longrightarrow> list_all2 has_type (types m) (snd r)"
proof (induction cs arbitrary: rs)
  case (Cons c cs)
  obtain r' rs' where r: "rs = (fst c, r') # rs'" "decode_row (types m) (snd c) = Inr r'" "decoded_as m cs rs'"
    using Cons.prems(1) unfolding decoded_Cons by blast
  have "list_all2 has_type (types m) r'" using r(2) decode_loop_types by (auto simp: decode_row_def)
  then show ?case using Cons r by auto
qed simp

lemma apply_assignments_Cons:
  assumes "apply_assignments m old (a # as) new = Inr rw"
  obtains w where "fst (snd a) < length (types m)" "has_type (types m ! fst (snd a)) w"
    "apply_assignments m old as (new[fst (snd a) := w]) = Inr rw"
proof -
  obtain c j f where a: "a = (c, j, f)" by (cases a) auto
  obtain v t w where v: "nth_err (types m) j = Inr t" "coerce_value t v = Inr w"
    "apply_assignments m old as (new[j := w]) = Inr rw" using assms a by auto
  have "j < length (types m)" "t = types m ! j" using v(1) by (auto simp: nth_err_def split: if_splits)
  then show ?thesis using that[of w] a coerce_value_type[OF v(2)] v(3) by simp
qed

lemma assigned_types:
  "apply_assignments m old as new = Inr rw \<Longrightarrow> list_all2 has_type (types m) new \<Longrightarrow> list_all2 has_type (types m) rw"
proof (induction as arbitrary: new)
  case (Cons a as)
  obtain w where w: "fst (snd a) < length (types m)" "has_type (types m ! fst (snd a)) w"
    "apply_assignments m old as (new[fst (snd a) := w]) = Inr rw"
    using apply_assignments_Cons[OF Cons.prems(1)] by blast
  have "list_all2 has_type (types m) (new[fst (snd a) := w])"
    using w(1,2) Cons.prems(2) by (auto simp: list_all2_conv_all_nth nth_list_update)
  then show ?case using Cons.IH[OF w(3)] by simp
qed simp

text \<open>A column that is not assigned keeps its value.\<close>

lemma assigned_other:
  "apply_assignments m old as new = Inr rw \<Longrightarrow> i \<notin> (\<lambda>a. fst (snd a)) ` set as \<Longrightarrow> rw ! i = new ! i"
proof (induction as arbitrary: new)
  case (Cons a as)
  obtain w where w: "apply_assignments m old as (new[fst (snd a) := w]) = Inr rw"
    using apply_assignments_Cons[OF Cons.prems(1)] by blast
  show ?case using Cons.IH[OF w] Cons.prems(2) by simp
qed simp

lemma apply_assignments_cong: "types m' = types m \<Longrightarrow> apply_assignments m' old as new = apply_assignments m old as new"
  by (induction as arbitrary: new) (auto intro!: bindE_cong)

section \<open>One row\<close>

text \<open>The assignments leave the primary key alone.\<close>

definition pk_kept :: "table_meta \<Rightarrow> assignment list \<Rightarrow> bool" where
  "pk_kept m as \<longleftrightarrow> (\<forall>i. pk_index m = Some i \<longrightarrow> i \<notin> (\<lambda>a. fst (snd a)) ` set as)"

lemma update_row_ok:
  assumes R: "represents e T D" and m: "catalog_get (e_cat e) nm = Inr m"
    and np: "int (bt_npages (e_bt e)) + 33 < NO_PAGE" and r: "(rid, rw) \<in> set (D (lower nm))"
    and new: "apply_assignments m rw as rw = Inr new" "encode_checked m new = Inr blob"
    and fit: "list_all val_ok new" and pk: "pk_kept m as"
  shows "(\<exists>e' t. update_row nm as (rid, rw) e = (Inr (), e') \<and>
      represents e' (T(lower nm := t)) (D(lower nm := upd_row rid new (D (lower nm)))) \<and>
      catalog_get (e_cat e') nm = Inr (m\<lparr>root_page := proot t\<rparr>) \<and> bt_npages (e_bt e') = bt_npages (e_bt e) \<and>
      cells t = upd_cells rid blob (cells (T (lower nm)))) \<or>
    ((\<exists>old. map_of (cells (T (lower nm))) rid = Some old \<and> length old < length blob) \<and>
      (\<exists>e'. update_row nm as (rid, rw) e = (Inl ValueError, e')))"
proof -
  let ?k = "lower nm" and ?ups = "tree_upsert bt_store PAGE_SIZE 32 (root_page m) rid blob"
  note M = represents_table[OF R m]
  note K = table_okD[OF M(3)]
  obtain h where h: "stored (e_bt e) h (T ?k)" using K(1) by blast
  obtain old where old: "map_of (cells (T ?k)) rid = Some old"
    using table_keys(2)[OF M(3)] r by (cases "map_of (cells (T ?k)) rid") (force simp: map_of_eq_None_iff)+
  have len: "length blob \<le> MAX_VALUE_SIZE" using new(2) by (auto simp: encode_checked_def split: if_splits)
  have start: "update_row nm as (rid, rw) e =
      (case ?ups (e_bt e) of (Inl x, s) \<Rightarrow> (Inl x, e\<lparr>e_bt := s\<rparr>)
       | (Inr root, s) \<Rightarrow> bindP (index_remove m rid rw) (\<lambda>_. index_add m rid new)
           (put_meta nm (m\<lparr>root_page := root\<rparr>) (e\<lparr>e_bt := s\<rparr>)))"
    using m new by (auto simp: update_row_def get_meta_def bindP_app on_bt_def split: prod.splits sum.splits)
  from upsert_any[OF h old len np, folded K(2)] show ?thesis
  proof (elim disjE exE conjE)
    fix s assume "length old < length blob" "?ups (e_bt e) = (Inl ValueError, s)"
    then show ?thesis using start old by simp
  next
    fix s t assume s: "?ups (e_bt e) = (Inr (proot t), s)" "cells t = upd_cells rid blob (cells (T ?k))"
      "tree_step (e_bt e) (T ?k) s t" "bt_npages s = bt_npages (e_bt e)"
    let ?m = "m\<lparr>root_page := proot t\<rparr>" and ?rs = "upd_row rid new (D ?k)" and ?mid = "del_row rid (D ?k)"
    let ?e = "put_meta nm ?m (e\<lparr>e_bt := s\<rparr>)"
    have f: "tname ?m = tname m" "columns ?m = columns m" "indexes ?m = indexes m" "root_page ?m = proot t" by simp_all
    have ty: "list_all2 has_type (types m) new" by (rule assigned_types[OF new(1) decoded_types[OF K(4) r, simplified]])
    have enc: "encode_row (types m) new = Inr blob" using new(2) by (auto simp: encode_checked_def split: if_splits)
    have bl: "decode_row (types m) blob = Inr new"
      using decode_encode_row[OF enc fit, of "[]"] map2_stored[OF ty] by simp
    have dec: "decoded_as m (cells t) ?rs" unfolding s(2) by (rule decoded_upd[OF K(4) bl])
    have w: "length rw = length (columns m)" "length new = length (columns m)"
      using table_width[OF M(3) r] list_all2_lengthD[OF ty] by (simp_all add: types_def)
    have ix: "indexed (e_idx ?e) m (D ?k)" using K(6) by (simp add: put_meta_def)
    have mid: "set ?mid = {x \<in> set (D ?k). fst x \<noteq> rid}" by (auto simp: del_row_def)
    obtain d1 where d1: "index_remove m rid rw ?e = (Inr (), ?e\<lparr>e_idx := d1\<rparr>)" "indexed d1 m ?mid"
      "\<forall>k. fst k \<noteq> tname m \<longrightarrow> map_of d1 k = map_of (e_idx ?e) k"
      using index_remove_ok[OF ix K(5) w(1) mid r table_keys(3)[OF M(3)]] by blast
    have ix1: "indexed (e_idx (?e\<lparr>e_idx := d1\<rparr>)) m ?mid" using d1(2) by simp
    obtain d2 where d2: "index_add m rid new (?e\<lparr>e_idx := d1\<rparr>) = (Inr (), ?e\<lparr>e_idx := d1\<rparr>\<lparr>e_idx := d2\<rparr>)" "indexed d2 m ?rs"
      "\<forall>k. fst k \<noteq> tname m \<longrightarrow> map_of d2 k = map_of (e_idx (?e\<lparr>e_idx := d1\<rparr>)) k"
      using index_add_ok[OF ix1 K(5) w(2) upd_row_set[OF r]] by blast
    let ?e' = "?e\<lparr>e_idx := d2\<rparr>"
    have run: "update_row nm as (rid, rw) e = (Inr (), ?e')" using start s(1) d1(1) d2(1) by (simp add: bindP_app)
    have bt: "e_bt ?e' = s" by (simp add: put_meta_def)
    have "pk_rows m ?rs"
      unfolding pk_rows_def
    proof (intro allI impI conjI ballI)
      fix i assume i: "pk_index m = Some i"
      show "types m ! i = TInt" using K(8) i by (simp add: pk_rows_def)
      fix x assume "x \<in> set ?rs"
      then consider "x = (rid, new)" | "x \<in> set (D ?k)" unfolding upd_row_set[OF r] mid by auto
      then show "snd x ! i = VInt (fst x)"
      proof cases
        case 1
        have "new ! i = rw ! i" by (rule assigned_other[OF new(1)]) (use pk i in \<open>simp add: pk_kept_def\<close>)
        moreover have "rw ! i = VInt rid" using K(8) i r by (force simp: pk_rows_def)
        ultimately show ?thesis using 1 by simp
      next
        case 2
        then show ?thesis using K(8) i by (simp add: pk_rows_def)
      qed
    qed
    moreover have "indexed (e_idx ?e') m ?rs" using d2(2) by simp
    ultimately have ok: "table_ok ?e' ?m t ?rs" by (intro table_change[OF M(3) s(3) dec f bt])
    have "represents ?e' (T(?k := t)) (D(?k := ?rs))"
    proof (rule represents_change[OF R M(2) _ _ _ ok])
      show "tree_step (e_bt e) (T ?k) (e_bt ?e') t" using s(3) bt by simp
      show "tables (e_cat ?e') = AList.update ?k ?m (tables (e_cat e))" by (simp add: put_meta_def)
      show "tname ?m = ?k" using f(1) M(1) by simp
      show "\<forall>x. fst x \<noteq> ?k \<longrightarrow> map_of (e_idx ?e') x = map_of (e_idx e) x"
        using d1(3) d2(3) M(1) by (simp add: put_meta_def)
    qed
    moreover have "catalog_get (e_cat ?e') nm = Inr ?m" by (simp add: put_meta_def catalog_get_def update_conv')
    moreover have "bt_npages (e_bt ?e') = bt_npages (e_bt e)" using s(4) bt by simp
    ultimately show ?thesis using run s(2) by blast
  qed
qed

section \<open>The statement\<close>

fun spec_updates :: "table_meta \<Rightarrow> assignment list \<Rightarrow> rowset \<Rightarrow> rowset \<Rightarrow> rowset res" where
  "spec_updates m as [] rs = Inr rs"
| "spec_updates m as (q # qs) rs =
     bindE (apply_assignments m (snd q) as (snd q)) (\<lambda>new.
     bindE (encode_checked m new) (\<lambda>blob. spec_updates m as qs (upd_row (fst q) new rs)))"

definition update_fits :: "table_meta \<Rightarrow> assignment list \<Rightarrow> int \<times> row \<Rightarrow> bool" where
  "update_fits m as q \<longleftrightarrow>
     (case bindE (apply_assignments m (snd q) as (snd q)) (\<lambda>new. bindE (encode_checked m new) (\<lambda>blob. Inr (new, blob))) of
        Inl x \<Rightarrow> True
      | Inr (new, blob) \<Rightarrow> list_all val_ok new)"

text \<open>The new encoding of a row is longer than the stored one.\<close>

definition row_grows :: "table_meta \<Rightarrow> assignment list \<Rightarrow> cell list \<Rightarrow> int \<times> row \<Rightarrow> bool" where
  "row_grows m as cs q \<longleftrightarrow>
     (\<exists>old new blob. map_of cs (fst q) = Some old \<and> apply_assignments m (snd q) as (snd q) = Inr new \<and>
        encode_checked m new = Inr blob \<and> length old < length blob)"

lemma row_grows_upd: "fst q \<noteq> key \<Longrightarrow> row_grows m as (upd_cells key v cs) q = row_grows m as cs q"
proof -
  assume "fst q \<noteq> key"
  then have "map_of (upd_cells key v cs) (fst q) = map_of cs (fst q)" by (induction cs) (auto simp: upd_cells_def)
  then show ?thesis by (simp add: row_grows_def)
qed

lemma spec_updates_cong:
  assumes "types m' = types m"
  shows "spec_updates m' as qs rs = spec_updates m as qs rs" and "update_fits m' as q = update_fits m as q"
    and "row_grows m' as cs q = row_grows m as cs q"
proof -
  have e: "encode_checked m' = encode_checked m" using assms by (simp add: fun_eq_iff encode_checked_def)
  note a = apply_assignments_cong[OF assms]
  show "spec_updates m' as qs rs = spec_updates m as qs rs"
    by (induction qs arbitrary: rs) (simp_all add: a e)
  show "update_fits m' as q = update_fits m as q" by (simp add: update_fits_def a e)
  show "row_grows m' as cs q = row_grows m as cs q" by (simp add: row_grows_def a e)
qed

lemma update_rows_ok:
  assumes "represents e T D" and "catalog_get (e_cat e) nm = Inr m" and "int (bt_npages (e_bt e)) + 33 < NO_PAGE"
    and "set qs \<subseteq> set (D (lower nm))" and "distinct (map fst qs)" and "\<forall>q \<in> set qs. update_fits m as q" and "pk_kept m as"
  shows "(case spec_updates m as qs (D (lower nm)) of
      Inl x \<Rightarrow> \<exists>e'. each (update_row nm as) qs e = (Inl x, e')
    | Inr rs \<Rightarrow> \<exists>e' t. each (update_row nm as) qs e = (Inr (), e') \<and>
        represents e' (T(lower nm := t)) (D(lower nm := rs)) \<and> catalog_get (e_cat e') nm = Inr (m\<lparr>root_page := proot t\<rparr>)) \<or>
    ((\<exists>q \<in> set qs. row_grows m as (cells (T (lower nm))) q) \<and> (\<exists>e'. each (update_row nm as) qs e = (Inl ValueError, e')))"
  using assms
proof (induction qs arbitrary: e T D m)
  case Nil
  have "represents e (T(lower nm := T (lower nm))) (D(lower nm := D (lower nm)))" using Nil.prems(1) by simp
  moreover have "m\<lparr>root_page := proot (T (lower nm))\<rparr> = m"
    using table_okD(2)[OF represents_table(3)[OF Nil.prems(1,2)]] by (cases m) simp
  ultimately show ?case using Nil.prems(2) by (simp del: fun_upd_triv) (intro disjI1 exI[of _ "T (lower nm)"], simp)
next
  case (Cons q qs)
  let ?k = "lower nm"
  obtain rid rw where q: "q = (rid, rw)" by force
  have r: "(rid, rw) \<in> set (D ?k)" using Cons.prems(4) q by simp
  show ?case
  proof (cases "apply_assignments m rw as rw")
    case (Inl x)
    then have "update_row nm as q e = (Inl x, e)" using Cons.prems(2) by (simp add: update_row_def get_meta_def bindP_app q)
    then show ?thesis using Inl q by (simp add: bindP_app)
  next
    case new: (Inr new)
    show ?thesis
    proof (cases "encode_checked m new")
      case (Inl x)
      then have "update_row nm as q e = (Inl x, e)" using new Cons.prems(2) by (simp add: update_row_def get_meta_def bindP_app q)
      then show ?thesis using Inl new q by (simp add: bindP_app)
    next
      case (Inr blob)
      have fit: "list_all val_ok new"
        using Cons.prems(6) new Inr by (simp add: q update_fits_def)
      have spec: "spec_updates m as (q # qs) (D ?k) = spec_updates m as qs ((D(?k := upd_row rid new (D ?k))) ?k)"
        using new Inr q by simp
      from update_row_ok[OF Cons.prems(1-3) r new Inr fit Cons.prems(7)] show ?thesis
      proof (elim disjE exE conjE)
        fix e' old assume "update_row nm as (rid, rw) e = (Inl ValueError, e')"
          "map_of (cells (T ?k)) rid = Some old" "length old < length blob"
        then have "each (update_row nm as) (q # qs) e = (Inl ValueError, e')" "row_grows m as (cells (T ?k)) q"
          using new Inr by (simp_all add: q bindP_app row_grows_def)
        then show ?thesis by auto
      next
        fix e1 t1 assume e1: "update_row nm as (rid, rw) e = (Inr (), e1)"
          "represents e1 (T(?k := t1)) (D(?k := upd_row rid new (D ?k)))"
          "catalog_get (e_cat e1) nm = Inr (m\<lparr>root_page := proot t1\<rparr>)" "bt_npages (e_bt e1) = bt_npages (e_bt e)"
          "cells t1 = upd_cells rid blob (cells (T ?k))"
        let ?m = "m\<lparr>root_page := proot t1\<rparr>"
        have ty: "types ?m = types m" by (simp add: types_def)
        have np: "int (bt_npages (e_bt e1)) + 33 < NO_PAGE" using Cons.prems(3) e1(4) by simp
        have "p \<in> set (upd_row rid new (D ?k))" if "p \<in> set qs" for p
        proof -
          have "p \<in> set (D ?k)" "fst p \<noteq> rid" using that Cons.prems(4,5) q by auto
          then show ?thesis unfolding upd_row_set[OF r] by (simp add: del_row_def)
        qed
        then have sub: "set qs \<subseteq> set ((D(?k := upd_row rid new (D ?k))) ?k)" by auto
        have rest: "distinct (map fst qs)" "\<forall>q \<in> set qs. update_fits ?m as q" "pk_kept ?m as"
          using Cons.prems(5-7) spec_updates_cong(2)[OF ty] by (simp_all add: pk_kept_def pk_index_def)
        have step: "each (update_row nm as) (q # qs) e = each (update_row nm as) qs e1" using e1(1) q by (simp add: bindP_app)
        have mm: "?m\<lparr>root_page := p\<rparr> = m\<lparr>root_page := p\<rparr>" for p by simp
        have "row_grows ?m as (cells ((T(?k := t1)) ?k)) p = row_grows m as (cells (T ?k)) p" if "p \<in> set qs" for p
        proof -
          have "fst p \<noteq> rid" using that Cons.prems(5) q by auto
          then show ?thesis by (simp add: e1(5) row_grows_upd spec_updates_cong(3)[OF ty])
        qed
        then have grows: "(\<exists>p \<in> set qs. row_grows ?m as (cells ((T(?k := t1)) ?k)) p) \<Longrightarrow>
            (\<exists>p \<in> set (q # qs). row_grows m as (cells (T ?k)) p)" by auto
        from Cons.IH[OF e1(2,3) np sub rest] show ?thesis
          unfolding step spec spec_updates_cong(1)[OF ty] mm fun_upd_upd using grows by blast
      qed
    qed
  qed
qed

lemma pk_column_name: "pk_index m = Some i \<Longrightarrow> pk_column m = Some (colnames m ! i)"
proof -
  assume i: "pk_index m = Some i"
  then have f: "i < length (columns m)" "cpk (columns m ! i)" "\<forall>j < i. \<not> cpk (columns m ! j)"
    using first_index_Some[of cpk "columns m" i] by (simp_all add: pk_index_def)
  then have "find cpk (columns m) = Some (columns m ! i)" by (auto simp: find_Some_iff)
  then show ?thesis using f(1) by (simp add: pk_column_def colnames_def)
qed

lemma checked_pk_kept:
  assumes "check_assignments m asg = Inr ()" and "mapE (compile_assignment low m) asg = Inr as" and "[] \<notin> set (colnames m)"
  shows "pk_kept m as"
  using assms(1,2)
proof (induction asg arbitrary: as)
  case Nil
  then show ?case by (simp add: pk_kept_def)
next
  case (Cons ce asg)
  obtain c x where ce: "ce = (c, x)" by force
  obtain y as' where y: "compile_assignment low m (c, x) = Inr y" "as = y # as'" "mapE (compile_assignment low m) asg = Inr as'"
    using Cons.prems(2) by (auto simp: ce)
  obtain j f where a: "as = (c, j, f) # as'" "column_index m c = Inr j" "mapE (compile_assignment low m) asg = Inr as'"
    using y by (auto simp: compile_assignment_def)
  have c: "c \<in> set (colnames m)" "\<not> (pk_column m = Some c \<and> c \<noteq> [])" "check_assignments m asg = Inr ()"
    using Cons.prems(1) by (auto simp: ce split: if_splits)
  have "j \<noteq> i" if "pk_index m = Some i" for i
    using pk_column_name[OF that] column_index_bound[OF a(2)] c(1,2) assms(3) by auto
  then show ?case using Cons.IH[OF c(3) a(3)] a(1) by (auto simp: pk_kept_def)
qed

lemma update_stmt_run:
  assumes R: "represents e T D" and m: "catalog_get (e_cat e) nm = Inr m" and np: "int (bt_npages (e_bt e)) + 33 < NO_PAGE"
    and chk: "check_assignments m asg = Inr ()" and sel: "selected low m w (D (lower nm)) = Inr out"
    and as: "mapE (compile_assignment low m) asg = Inr as" and fit: "\<forall>q \<in> set out. update_fits m as q"
  shows "(case spec_updates m as out (D (lower nm)) of
      Inl x \<Rightarrow> \<exists>e'. update_stmt low nm asg w e = (Inl x, e')
    | Inr rs \<Rightarrow> \<exists>e1 t. saved (update_stmt low nm asg w) e (int (length out)) e1 (T(lower nm := t)) (D(lower nm := rs)) \<and>
        catalog_get (e_cat e1) nm = Inr (m\<lparr>root_page := proot t\<rparr>)) \<or>
    ((\<exists>q \<in> set out. row_grows m as (cells (T (lower nm))) q) \<and>
      (\<exists>e'. update_stmt low nm asg w e = (Inl ValueError, e')))"
proof -
  obtain e0 where e0: "ensure_snapshot e = (Inr (), e0)" "e_bt e0 = e_bt e" "e_idx e0 = e_idx e" "e_cat e0 = e_cat e"
    using ensure_snapshot_ok by blast
  have R0: "represents e0 T D" using R represents_cong[OF e0(2-4)] by simp
  have m0: "catalog_get (e_cat e0) nm = Inr m" using m e0(4) by simp
  note M = represents_table[OF R0 m0]
  have np0: "int (bt_npages (e_bt e0)) < NO_PAGE" using np e0(2) by simp
  obtain s where s: "matching_rows low m w e0 = (Inr out, e0\<lparr>e_bt := s\<rparr>)" "bt.same {} (e_bt e0) s"
    using matching_rows_ok[OF M(3) np0 sel] by blast
  let ?e = "e0\<lparr>e_bt := s\<rparr>"
  have sub: "set out \<subseteq> set (D (lower nm)) \<and> (\<exists>P. out = filter P (D (lower nm)))"
    using sel by (fastforce simp: selected_def filterE_Inr split: option.splits intro: exI[of _ "\<lambda>_. True"])
  then have dist: "distinct (map fst out)" using table_keys(3)[OF M(3)] by (auto simp: distinct_map_filter)
  have me: "catalog_get (e_cat ?e) nm = Inr m" "int (bt_npages (e_bt ?e)) + 33 < NO_PAGE"
    using m0 np e0(2) same_npages[OF s(2)] by simp_all
  have run: "update_stmt low nm asg w e =
      bindP (each (update_row nm as) out) (\<lambda>_. bindP save (\<lambda>_. ret (int (length out)))) ?e"
    using e0(1) m0 chk s(1) as by (simp add: update_stmt_def bindP_app get_meta_def)
  note U = update_rows_ok[OF represents_same[OF s(2) R0] me conjunct1[OF sub] dist fit checked_pk_kept[OF chk as table_okD(9)[OF M(3)]]]
  from U show ?thesis
  proof
    assume ok: "case spec_updates m as out (D (lower nm)) of
        Inl x \<Rightarrow> \<exists>e'. each (update_row nm as) out ?e = (Inl x, e')
      | Inr rs \<Rightarrow> \<exists>e' t. each (update_row nm as) out ?e = (Inr (), e') \<and>
          represents e' (T(lower nm := t)) (D(lower nm := rs)) \<and> catalog_get (e_cat e') nm = Inr (m\<lparr>root_page := proot t\<rparr>)"
    show ?thesis
    proof (cases "spec_updates m as out (D (lower nm))")
      case (Inl x)
      then show ?thesis using ok run by (auto simp: bindP_app)
    next
      case (Inr rs)
      obtain e1 t where e1: "each (update_row nm as) out ?e = (Inr (), e1)" "represents e1 (T(lower nm := t)) (D(lower nm := rs))"
        "catalog_get (e_cat e1) nm = Inr (m\<lparr>root_page := proot t\<rparr>)"
        using ok unfolding Inr sum.case by blast
      have "update_stmt low nm asg w e = bindP save (\<lambda>_. ret (int (length out))) e1"
        using run e1(1) by (simp add: bindP_app)
      from savedI[where p = "update_stmt low nm asg w", OF this e1(2,3)] show ?thesis
        using e1(3) unfolding Inr sum.case by blast
    qed
  next
    assume "(\<exists>q \<in> set out. row_grows m as (cells (T (lower nm))) q) \<and>
      (\<exists>e'. each (update_row nm as) out ?e = (Inl ValueError, e'))"
    then show ?thesis using run by (auto simp: bindP_app)
  qed
qed

end
