(* ===== verification/DmlClaims.thy ===== *)
theory DmlClaims
  imports Updates
begin

text \<open>
  What \<open>INSERT\<close>, \<open>UPDATE\<close>, \<open>DELETE\<close> and \<open>WHERE\<close> promise, as properties, with a small table to apply them to.
\<close>

definition people :: table_meta where
  "people = \<lparr>tname = ''t'', columns = [\<lparr>cname = ''id'', ctype = TInt, cpk = True\<rparr>, \<lparr>cname = ''v'', ctype = TText, cpk = False\<rparr>],
     root_page = 1, row_count = 0, next_rowid = 1, indexes = [(''v'', ''iv'')]\<rparr>"

definition people_db :: "bstate \<Rightarrow> engine" where
  "people_db s = \<lparr>e_bt = s, e_log = [], e_pos = 0, e_txn = False, e_cat = \<lparr>tables = [(''t'', people)], free_pages = []\<rparr>,
     e_idx = [((''t'', ''v''), [])], e_snap = None\<rparr>"

definition people_rows :: rowset where
  "people_rows = [(7, [VInt 7, VText [97]]), (8, [VInt 8, VNull])]"

abbreviation people_insert :: "expr list list" where
  "people_insert \<equiv> [[Literal (VInt 7), Literal (VText [97])], [Literal VNull, Literal VNull]]"

lemma people_represents:
  assumes "stored s 0 (PLeaf 1 [])"
  shows "represents (people_db s) (\<lambda>_. PLeaf 1 []) (\<lambda>_. [])"
  using assms
  by (auto simp: represents_def people_db_def people_def table_ok_def indexed_def index_of_def colnames_def pk_rows_def
      pk_index_def types_def column_index_def)

lemma people_lower [simp]: "lower ''t'' = ''t''"
  by code_simp

lemma people_get: "catalog_get (e_cat (people_db s)) ''t'' = Inr people"
  by (simp add: catalog_get_def people_db_def)

lemma people_fit: "rows_fit people None people_insert"
  by code_simp

definition people_blobs :: "bytes list" where
  "people_blobs = prepared_blobs people None people_insert"

lemma people_small: "\<forall>b \<in> set (people_blobs). length b \<le> 141"
  by code_simp

lemma people_spec: "spec_inserts people None people_insert [] = Inr (9, people_rows)"
  by code_simp

lemma people_filled:
  obtains s e1 t where "stored s 0 (PLeaf 1 [])" "bt_npages s = 2"
    "saved (insert_stmt ''t'' None people_insert) (people_db s) 2 e1 ((\<lambda>_. PLeaf 1 [])(''t'' := t)) ((\<lambda>_. [])(''t'' := people_rows))"
    "catalog_get (e_cat e1) ''t'' = Inr (people\<lparr>root_page := proot t, next_rowid := 9, row_count := 2\<rparr>)"
    "int (bt_npages (e_bt e1)) + 33 < NO_PAGE" "\<forall>c \<in> set (cells t). length (snd c) \<le> 141"
    "snd ` set (cells t) = set (people_blobs)"
proof -
  obtain s where s: "stored s 0 (PLeaf 1 [])" "bt_npages s = 2" using demo_tree by blast
  have e: "e_bt (people_db s) = s" "row_count people = 0" by (simp_all add: people_db_def people_def)
  have np: "int (bt_npages (e_bt (people_db s))) + 33 * int (length people_insert) < NO_PAGE"
    using s(2) by (simp add: e NO_PAGE_def)
  have "columns_accepted people None = Inr ()" by (simp add: columns_accepted_def)
  then have spec: "bindE (columns_accepted people None) (\<lambda>_. spec_inserts people None people_insert []) = Inr (9, people_rows)"
    using people_spec by simp
  have "\<not> (\<exists>b \<in> set (people_blobs) \<union> snd ` set (cells (PLeaf 1 [])). \<not> small_row b)"
    using people_small by (simp add: small_row_def)
  then obtain e1 t where e1: "saved (insert_stmt ''t'' None people_insert) (people_db s) (int (length people_insert)) e1
      ((\<lambda>_. PLeaf 1 [])(''t'' := t)) ((\<lambda>_. [])(''t'' := people_rows))"
    "catalog_get (e_cat e1) ''t'' = Inr (people\<lparr>root_page := proot t, next_rowid := 9, row_count := row_count people + int (length people_insert)\<rparr>)"
    "bt_npages (e_bt e1) \<le> bt_npages (e_bt (people_db s)) + 33 * length people_insert"
    "snd ` set (cells t) = set (people_blobs) \<union> snd ` set (cells (PLeaf 1 []))"
    using insert_stmt_run[OF people_represents[OF s(1)] people_get np people_fit, folded people_blobs_def, unfolded people_lower spec sum.case prod.case]
    by blast
  have n: "int (length people_insert) = 2" "length people_insert = 2" by simp_all
  have "snd ` set (cells t) = set (people_blobs)" using e1(4) by simp
  note v = this
  then have c: "\<forall>c \<in> set (cells t). length (snd c) \<le> 141" using people_small by (metis imageI)
  have p: "int (bt_npages (e_bt e1)) + 33 < NO_PAGE" using e1(3) s(2) by (simp add: e NO_PAGE_def)
  have m: "catalog_get (e_cat e1) ''t'' = Inr (people\<lparr>root_page := proot t, next_rowid := 9, row_count := 2\<rparr>)"
    using e1(2) e(2) by simp
  show ?thesis by (rule that[OF s e1(1)[unfolded n(1)] m p c v])
qed

text \<open>C25. \<open>INSERT\<close>, whole and on every branch: the statement checks its column list, prepares each row
  (defaults, rowid, coercion, encoding), refuses a row whose key the table has, stores the others in
  key order, keeps every secondary index and every other table right, counts the rows and saves the
  catalog. The one other outcome is a \<open>ValueError\<close>, and then some row of the table or of the statement
  takes more than 141 bytes: the split of its leaf left a half that does not fit a page. Texts hold
  Unicode code points, the rowids of a table without a primary key are 64-bit, and page numbers fit
  32 bits.\<close>

theorem insert_refines_rows:
  assumes "represents e T D" and "catalog_get (e_cat e) nm = Inr m"
    and "int (bt_npages (e_bt e)) + 33 * int (length xs) < NO_PAGE" and "rows_fit m declared xs"
  shows "(case bindE (columns_accepted m declared) (\<lambda>_. spec_inserts m declared xs (D (lower nm))) of
      Inl x \<Rightarrow> \<exists>e'. insert_stmt nm declared xs e = (Inl x, e')
    | Inr (nxt, rs) \<Rightarrow> \<exists>e1 t. saved (insert_stmt nm declared xs) e (int (length xs)) e1 (T(lower nm := t)) (D(lower nm := rs)) \<and>
        catalog_get (e_cat e1) nm = Inr (m\<lparr>root_page := proot t, next_rowid := nxt, row_count := row_count m + int (length xs)\<rparr>) \<and>
        bt_npages (e_bt e1) \<le> bt_npages (e_bt e) + 33 * length xs \<and>
        snd ` set (cells t) = set (prepared_blobs m declared xs) \<union> snd ` set (cells (T (lower nm)))) \<or>
    ((\<exists>b \<in> set (prepared_blobs m declared xs) \<union> snd ` set (cells (T (lower nm))). \<not> small_row b) \<and>
      (\<exists>e'. insert_stmt nm declared xs e = (Inl ValueError, e')))"
  by (rule insert_stmt_run[OF assms])

lemma insert_refines_rows_witness:
  "\<exists>e e1 t T. represents e T (\<lambda>_. []) \<and>
     saved (insert_stmt ''t'' None people_insert) e 2 e1 (T(''t'' := t))
       ((\<lambda>_. [])(''t'' := [(7, [VInt 7, VText [97]]), (8, [VInt 8, VNull])])) \<and>
     catalog_get (e_cat e1) ''t'' = Inr (people\<lparr>root_page := proot t, next_rowid := 9, row_count := 2\<rparr>)"
proof -
  obtain s where s: "stored s 0 (PLeaf 1 [])" "bt_npages s = 2" using demo_tree by blast
  have e: "e_bt (people_db s) = s" "row_count people = 0" by (simp_all add: people_db_def people_def)
  have np: "int (bt_npages (e_bt (people_db s))) + 33 * int (length people_insert) < NO_PAGE"
    using s(2) by (simp add: e NO_PAGE_def)
  have "columns_accepted people None = Inr ()" by (simp add: columns_accepted_def)
  then have spec: "bindE (columns_accepted people None) (\<lambda>_. spec_inserts people None people_insert []) = Inr (9, people_rows)"
    using people_spec by simp
  have small: "\<not> (\<exists>b \<in> set (people_blobs) \<union> snd ` set (cells (PLeaf 1 [])). \<not> small_row b)"
    using people_small by (simp add: small_row_def)
  have n: "int (length people_insert) = 2" by simp
  have "\<exists>e1 t. saved (insert_stmt ''t'' None people_insert) (people_db s) 2 e1
       ((\<lambda>_. PLeaf 1 [])(''t'' := t)) ((\<lambda>_. [])(''t'' := people_rows)) \<and>
      catalog_get (e_cat e1) ''t'' = Inr (people\<lparr>root_page := proot t, next_rowid := 9, row_count := row_count people + 2\<rparr>)"
    using insert_refines_rows[OF people_represents[OF s(1)] people_get np people_fit,
        folded people_blobs_def, unfolded people_lower spec sum.case prod.case n] small by blast
  then show ?thesis using people_represents[OF s(1)] unfolding e(2) people_rows_def by fastforce
qed

text \<open>C27. \<open>DELETE\<close> from a table whose rows take at most 1408 bytes each: the rows on which the \<open>WHERE\<close>
  clause is true go, found by primary key, by index or by a scan; the other rows, the indexes and the
  other tables stay right, the row count goes down by the number returned, and the catalog is saved. The
  clause can be evaluated on every row. Beyond 1408 bytes rebalancing can die of an \<open>IndexError\<close>, see
  \<open>single_row_borrow_fails\<close>.\<close>

theorem delete_refines_rows:
  assumes "represents e T D" and "catalog_get (e_cat e) nm = Inr m" and "int (bt_npages (e_bt e)) < NO_PAGE"
    and "selected low m w (D (lower nm)) = Inr out" and "\<forall>c \<in> set (cells (T (lower nm))). length (snd c) \<le> 1408"
  shows "\<exists>e1 t. saved (delete_stmt low nm w) e (int (length out)) e1 (T(lower nm := t))
        (D(lower nm := filter (\<lambda>r. fst r \<notin> fst ` set out) (D (lower nm)))) \<and>
      catalog_get (e_cat e1) nm = Inr (m\<lparr>root_page := proot t, row_count := row_count m - int (length out)\<rparr>) \<and>
      bt_npages (e_bt e1) = bt_npages (e_bt e) \<and>
      cells t = filter (\<lambda>c. fst c \<notin> fst ` set out) (cells (T (lower nm)))"
  by (rule delete_stmt_run[OF assms])

abbreviation people_where :: expr where
  "people_where \<equiv> BinOp B_eq (Column ''v'' None) (Literal (VText [97]))"

lemma people_selected:
  "selected low (people\<lparr>root_page := p, next_rowid := n, row_count := c\<rparr>) (Some people_where) people_rows =
   Inr [(7, [VInt 7, VText [97]])]"
  by (simp add: selected_def people_def people_rows_def table_scope_def resolve_def column_index_def colnames_def
      keep_row_def read_part_def nth_err_def binary_val_def sql_eq_def)

lemma delete_refines_rows_witness:
  "\<exists>e e1 T D t. represents e T D \<and> D ''t'' = [(7, [VInt 7, VText [97]]), (8, [VInt 8, VNull])] \<and>
     saved (delete_stmt id ''t'' (Some people_where)) e 1 e1 (T(''t'' := t)) (D(''t'' := [(8, [VInt 8, VNull])]))"
proof -
  obtain s e t where f: "stored s 0 (PLeaf 1 [])" "bt_npages s = 2"
    "saved (insert_stmt ''t'' None people_insert) (people_db s) 2 e ((\<lambda>_. PLeaf 1 [])(''t'' := t)) ((\<lambda>_. [])(''t'' := people_rows))"
    "catalog_get (e_cat e) ''t'' = Inr (people\<lparr>root_page := proot t, next_rowid := 9, row_count := 2\<rparr>)"
    "int (bt_npages (e_bt e)) + 33 < NO_PAGE" "\<forall>c \<in> set (cells t). length (snd c) \<le> 141"
    by (rule people_filled)
  let ?T = "(\<lambda>_. PLeaf 1 [])(''t'' := t)" and ?D = "(\<lambda>_. [])(''t'' := people_rows)"
  have R: "represents e ?T ?D" using f(3) by (simp add: saved_def)
  have np: "int (bt_npages (e_bt e)) < NO_PAGE" using f(5) by simp
  have sel: "selected id (people\<lparr>root_page := proot t, next_rowid := 9, row_count := 2\<rparr>) (Some people_where) (?D (lower ''t'')) =
      Inr [(7, [VInt 7, VText [97]])]" by (simp add: people_selected)
  have small: "\<forall>c \<in> set (cells (?T (lower ''t''))). length (snd c) \<le> 1408" using f(6) by fastforce
  note K = delete_refines_rows[OF R f(4) np sel small]
  have n: "int (length [(7 :: int, [VInt 7, VText [97]])]) = 1" by simp
  have "filter (\<lambda>r. fst r \<notin> fst ` set [(7, [VInt 7, VText [97]])]) (?D (lower ''t'')) = [(8, [VInt 8, VNull])]"
    by (simp add: people_rows_def)
  then obtain e1 t1 where
    "saved (delete_stmt id ''t'' (Some people_where)) e 1 e1 (?T(''t'' := t1)) (?D(''t'' := [(8, [VInt 8, VNull])]))"
    using K unfolding people_lower n by metis
  then show ?thesis using R by (intro exI[of _ e] exI[of _ e1] exI[of _ ?T] exI[of _ ?D] exI[of _ t1]) (simp only: people_rows_def fun_upd_same)
qed

text \<open>C28. The shortcuts of \<open>WHERE\<close> in \<open>UPDATE\<close> and \<open>DELETE\<close> change nothing: whether the rows are found by
  primary key, through a secondary index or by a scan, they are the rows of the table on which the
  clause is true, in key order, whenever it can be evaluated on every row. Rows may have any size.\<close>

theorem where_shortcuts_agree:
  assumes "represents e T D" and "catalog_get (e_cat e) nm = Inr m" and "int (bt_npages (e_bt e)) < NO_PAGE"
    and "selected low m w (D (lower nm)) = Inr out"
  shows "\<exists>s. matching_rows low m w e = (Inr out, e\<lparr>e_bt := s\<rparr>) \<and> represents (e\<lparr>e_bt := s\<rparr>) T D"
  using matching_rows_ok[OF represents_table(3)[OF assms(1,2)] assms(3,4)] represents_same[OF _ assms(1)] by blast

lemma where_shortcuts_agree_witness:
  "\<exists>e T D m s. represents e T D \<and> indexes m = [(''v'', ''iv'')] \<and>
     find_shortcut m (find_equi_predicates (flatten_and people_where)) = Some (By_index ''v'' (VText [97])) \<and>
     matching_rows id m (Some people_where) e = (Inr [(7, [VInt 7, VText [97]])], e\<lparr>e_bt := s\<rparr>)"
proof -
  obtain s e t where f: "stored s 0 (PLeaf 1 [])" "bt_npages s = 2"
    "saved (insert_stmt ''t'' None people_insert) (people_db s) 2 e ((\<lambda>_. PLeaf 1 [])(''t'' := t)) ((\<lambda>_. [])(''t'' := people_rows))"
    "catalog_get (e_cat e) ''t'' = Inr (people\<lparr>root_page := proot t, next_rowid := 9, row_count := 2\<rparr>)"
    "int (bt_npages (e_bt e)) + 33 < NO_PAGE" "\<forall>c \<in> set (cells t). length (snd c) \<le> 141"
    by (rule people_filled)
  let ?T = "(\<lambda>_. PLeaf 1 [])(''t'' := t)" and ?D = "(\<lambda>_. [])(''t'' := people_rows)"
  let ?m = "people\<lparr>root_page := proot t, next_rowid := 9, row_count := 2\<rparr>"
  have R: "represents e ?T ?D" using f(3) by (simp add: saved_def)
  have np: "int (bt_npages (e_bt e)) < NO_PAGE" using f(5) by simp
  have "selected id ?m (Some people_where) (?D (lower ''t'')) = Inr [(7, [VInt 7, VText [97]])]" by (simp add: people_selected)
  from where_shortcuts_agree[OF R f(4) np this] obtain s1 where
    "matching_rows id ?m (Some people_where) e = (Inr [(7, [VInt 7, VText [97]])], e\<lparr>e_bt := s1\<rparr>)" by blast
  moreover have "find_shortcut ?m (find_equi_predicates (flatten_and people_where)) = Some (By_index ''v'' (VText [97]))"
    "indexes ?m = [(''v'', ''iv'')]"
    by (simp_all add: people_def colnames_def pk_column_def)
  ultimately show ?thesis using R by blast
qed

text \<open>C26. \<open>UPDATE\<close> whose assignments name columns of the table, compile and leave the primary key alone,
  and whose \<open>WHERE\<close> clause can be evaluated on every row: every row on which the clause is true gets new
  values, computed from its old ones and coerced to the types of the columns; the other rows and tables
  stay, the indexes follow the new values, the number of changed rows is returned and the catalog is
  saved. The first row whose new values are refused stops the statement with that exception. The one
  other outcome is a \<open>ValueError\<close>, and then the new encoding of some selected row is longer than the
  stored one: a leaf is not split when its row grows. New texts hold Unicode code points.\<close>

theorem update_refines_rows:
  assumes "represents e T D" and "catalog_get (e_cat e) nm = Inr m" and "int (bt_npages (e_bt e)) + 33 < NO_PAGE"
    and "check_assignments m asg = Inr ()" and "selected low m w (D (lower nm)) = Inr out"
    and "mapE (compile_assignment low m) asg = Inr as" and "\<forall>q \<in> set out. update_fits m as q"
  shows "(case spec_updates m as out (D (lower nm)) of
      Inl x \<Rightarrow> \<exists>e'. update_stmt low nm asg w e = (Inl x, e')
    | Inr rs \<Rightarrow> \<exists>e1 t. saved (update_stmt low nm asg w) e (int (length out)) e1 (T(lower nm := t)) (D(lower nm := rs)) \<and>
        catalog_get (e_cat e1) nm = Inr (m\<lparr>root_page := proot t\<rparr>)) \<or>
    ((\<exists>q \<in> set out. row_grows m as (cells (T (lower nm))) q) \<and>
      (\<exists>e'. update_stmt low nm asg w e = (Inl ValueError, e')))"
  by (rule update_stmt_run[OF assms])

abbreviation people_set :: "(string \<times> expr) list" where
  "people_set \<equiv> [(''v'', Literal (VText [98]))]"

lemma people_compiled:
  "mapE (compile_assignment low (people\<lparr>root_page := p, next_rowid := n, row_count := c\<rparr>)) people_set =
   Inr [(''v'', 1, \<lambda>_ _. Inr (VText [98]))]"
  by (simp add: compile_assignment_def people_def column_index_def colnames_def)

lemma people_types: "types (people\<lparr>root_page := p, next_rowid := n, row_count := c\<rparr>) = [TInt, TText]"
  by (simp add: people_def types_def)

lemma coerce_text: "coerce_value TText (VText [98]) = Inr (VText [98])"
  by code_simp

lemma people_vals: "val_ok (VInt 7)" "val_ok (VText [98])"
  by code_simp+

lemma people_types0: "types people = [TInt, TText]"
  by (simp add: people_def types_def)

definition people_new :: bytes where
  "people_new = (case encode_checked people [VInt 7, VText [98]] of Inl x \<Rightarrow> [] | Inr b \<Rightarrow> b)"

lemma people_encoded:
  "encode_checked (people\<lparr>root_page := p, next_rowid := n, row_count := c\<rparr>) [VInt 7, VText [98]] = Inr people_new"
proof -
  have "case encode_checked people [VInt 7, VText [98]] of Inl x \<Rightarrow> False | Inr b \<Rightarrow> True" by code_simp
  then show ?thesis
    by (auto simp: people_new_def encode_checked_def people_types people_types0 split: sum.splits)
qed

lemma people_lengths:
  "list_all (\<lambda>b. length b = length people_new \<or> decode_row (types people) b = Inr [VInt 8, VNull])
     (people_blobs)"
  by code_simp

lemma people_update_fits:
  "update_fits (people\<lparr>root_page := p, next_rowid := n, row_count := c\<rparr>) [(''v'', 1, \<lambda>_ _. Inr (VText [98]))]
     (7, [VInt 7, VText [97]])"
  using people_encoded[where p = p and n = n and c = c] by (simp add: update_fits_def people_types nth_err_def coerce_text people_vals)

lemma people_updates:
  "spec_updates (people\<lparr>root_page := p, next_rowid := n, row_count := c\<rparr>) [(''v'', 1, \<lambda>_ _. Inr (VText [98]))]
     [(7, [VInt 7, VText [97]])] people_rows = Inr [(7, [VInt 7, VText [98]]), (8, [VInt 8, VNull])]"
  using people_encoded[where p = p and n = n and c = c] by (simp add: people_types nth_err_def people_rows_def upd_row_def coerce_text)

lemma update_refines_rows_witness:
  "\<exists>e e1 T D t. represents e T D \<and> D ''t'' = [(7, [VInt 7, VText [97]]), (8, [VInt 8, VNull])] \<and>
     saved (update_stmt id ''t'' people_set (Some people_where)) e 1 e1 (T(''t'' := t))
       (D(''t'' := [(7, [VInt 7, VText [98]]), (8, [VInt 8, VNull])]))"
proof -
  obtain s e t where f: "stored s 0 (PLeaf 1 [])" "bt_npages s = 2"
    "saved (insert_stmt ''t'' None people_insert) (people_db s) 2 e ((\<lambda>_. PLeaf 1 [])(''t'' := t)) ((\<lambda>_. [])(''t'' := people_rows))"
    "catalog_get (e_cat e) ''t'' = Inr (people\<lparr>root_page := proot t, next_rowid := 9, row_count := 2\<rparr>)"
    "int (bt_npages (e_bt e)) + 33 < NO_PAGE" "\<forall>c \<in> set (cells t). length (snd c) \<le> 141"
    "snd ` set (cells t) = set (people_blobs)"
    by (rule people_filled)
  let ?T = "(\<lambda>_. PLeaf 1 [])(''t'' := t)" and ?D = "(\<lambda>_. [])(''t'' := people_rows)"
  let ?m = "people\<lparr>root_page := proot t, next_rowid := 9, row_count := 2\<rparr>" and ?as = "[(''v'', 1, \<lambda>_ _. Inr (VText [98]))]"
  let ?out = "[(7 :: int, [VInt 7, VText [97]])]"
  have R: "represents e ?T ?D" using f(3) by (simp add: saved_def)
  have chk: "check_assignments ?m people_set = Inr ()" by (simp add: people_def colnames_def pk_column_def)
  have sel: "selected id ?m (Some people_where) (?D (lower ''t'')) = Inr ?out" by (simp add: people_selected)
  have fit: "\<forall>q \<in> set ?out. update_fits ?m ?as q" using people_update_fits by simp
  have spec: "spec_updates ?m ?as ?out (?D (lower ''t'')) = Inr [(7, [VInt 7, VText [98]]), (8, [VInt 8, VNull])]"
    by (simp only: people_lower fun_upd_same people_updates)
  have n: "int (length ?out) = 1" by simp
  have D: "?D ''t'' = [(7, [VInt 7, VText [97]]), (8, [VInt 8, VNull])]" by (simp add: people_rows_def)
  have same: "\<not> row_grows ?m ?as (cells (?T (lower ''t''))) (7, [VInt 7, VText [97]])"
  proof
    assume "row_grows ?m ?as (cells (?T (lower ''t''))) (7, [VInt 7, VText [97]])"
    then obtain old where o: "map_of (cells t) 7 = Some old" "length old < length people_new"
      using people_encoded by (auto simp: row_grows_def people_types nth_err_def coerce_text)
    have "decode_row (types ?m) old = Inr [VInt 7, VText [97]]"
      using decoded_lookup[OF table_okD(4)[OF represents_table(3)[OF R f(4)]], of 7] o(1) by (simp add: people_rows_def)
    moreover have "old \<in> set (people_blobs)"
      using map_of_SomeD[OF o(1)] f(7) by force
    ultimately show False using people_lengths o(2) by (auto simp: list_all_iff people_types people_types0)
  qed
  note K = update_refines_rows[OF R f(4,5) chk sel people_compiled fit]
  have "\<exists>e1 t1. saved (update_stmt id ''t'' people_set (Some people_where)) e 1 e1 (?T(''t'' := t1))
         (?D(''t'' := [(7, [VInt 7, VText [98]]), (8, [VInt 8, VNull])]))"
    using K[unfolded spec n, unfolded people_lower sum.case] same unfolding people_lower by (auto simp only: list.set insert_iff empty_iff bex_simps)
  then show ?thesis using R D by blast
qed

end
