(* ===== verification/Lexer.thy ===== *)
theory Lexer
  imports CatalogStore
begin

text \<open>
  \<open>tokenize\<close> of \<open>leafdb/sqlparse.py\<close>: the SQL text, a list of code points, becomes a list of tokens
  that ends in \<open>T_eof\<close>. The token regex is ASCII except for \<open>\s\<close> and \<open>\d\<close>: white space is the fixed
  set of \<open>str.isspace\<close>; the decimal digits beyond ASCII come in blocks of ten, whose first code
  points \<open>zs\<close> depend on the Unicode version of the interpreter and are a parameter.
\<close>

definition KEYWORDS :: "string list" where
  "KEYWORDS =
     [''SELECT'', ''FROM'', ''WHERE'', ''GROUP'', ''BY'', ''HAVING'', ''ORDER'', ''LIMIT'',
      ''OFFSET'', ''ASC'', ''DESC'', ''AND'', ''OR'', ''NOT'', ''NULL'', ''IS'', ''IN'',
      ''DISTINCT'', ''JOIN'', ''INNER'', ''LEFT'', ''RIGHT'', ''FULL'', ''OUTER'', ''ON'',
      ''AS'', ''INSERT'', ''INTO'', ''VALUES'', ''CREATE'', ''TABLE'', ''INDEX'', ''DELETE'',
      ''UPDATE'', ''SET'', ''BEGIN'', ''COMMIT'', ''ROLLBACK'', ''EXPLAIN'', ''PRIMARY'',
      ''KEY'', ''INT'', ''FLOAT'', ''TEXT'', ''COUNT'', ''SUM'', ''AVG'', ''MIN'', ''MAX'',
      ''BETWEEN'', ''LIKE'', ''DROP'']"

datatype tok = T_str ustr | T_num val | T_kw string | T_ident string | T_op string | T_eof

record token =
  tk :: tok
  tpos :: nat
  tend :: nat

section \<open>Classes of characters\<close>

definition is_space :: "int \<Rightarrow> bool" where
  "is_space c \<longleftrightarrow>
     (9 \<le> c \<and> c \<le> 13) \<or> (28 \<le> c \<and> c \<le> 32) \<or> c = 0x85 \<or> c = 0xA0 \<or> c = 0x1680 \<or> (0x2000 \<le> c \<and> c \<le> 0x200A) \<or>
     c = 0x2028 \<or> c = 0x2029 \<or> c = 0x202F \<or> c = 0x205F \<or> c = 0x3000"

definition digit_value :: "int list \<Rightarrow> int \<Rightarrow> int option" where
  "digit_value zs c = map_option (\<lambda>z. c - z) (find (\<lambda>z. z \<le> c \<and> c \<le> z + 9) (48 # zs))"

definition re_digit :: "int list \<Rightarrow> int \<Rightarrow> bool" where
  "re_digit zs c \<longleftrightarrow> digit_value zs c \<noteq> None"

definition ident_start :: "int \<Rightarrow> bool" where
  "ident_start c \<longleftrightarrow> (65 \<le> c \<and> c \<le> 90) \<or> (97 \<le> c \<and> c \<le> 122) \<or> c = 95"

definition ident_char :: "int \<Rightarrow> bool" where
  "ident_char c \<longleftrightarrow> ident_start c \<or> (48 \<le> c \<and> c \<le> 57)"

definition upper_char :: "char \<Rightarrow> char" where
  "upper_char c = (if 97 \<le> (of_char c :: nat) \<and> (of_char c :: nat) \<le> 122 then char_of (of_char c - 32 :: nat) else c)"

definition upper :: "string \<Rightarrow> string" where
  "upper s = map upper_char s"

section \<open>Single tokens\<close>

text \<open>The rest of a string literal after its opening quote; \<open>''\<close> stands for a quote.\<close>

fun lex_str :: "ustr \<Rightarrow> (ustr \<times> ustr) option" where
  "lex_str [] = None"
| "lex_str (c # cs) =
     (if c = 39 then
        (case cs of
           d # ds \<Rightarrow> if d = 39 then map_option (\<lambda>(s, r). (39 # s, r)) (lex_str ds) else Some ([], cs)
         | [] \<Rightarrow> Some ([], cs))
      else map_option (\<lambda>(s, r). (c # s, r)) (lex_str cs))"

definition digits_value :: "int list \<Rightarrow> ustr \<Rightarrow> int" where
  "digits_value zs ds = foldl (\<lambda>a d. 10 * a + (case digit_value zs d of Some v \<Rightarrow> v | None \<Rightarrow> 0)) 0 ds"

text \<open>\<open>float(text)\<close> is correctly rounded, infinite when too large; \<open>int(text)\<close> refuses over 4300 digits.\<close>

definition float_lit :: "int list \<Rightarrow> ustr \<Rightarrow> ustr \<Rightarrow> val" where
  "float_lit zs a b = VFloat (dbl_round False (digits_value zs (a @ b)) (10 ^ length b) 0)"

definition int_lit :: "int list \<Rightarrow> ustr \<Rightarrow> val res" where
  "int_lit zs ds = (if 4300 < length ds then Inl ValueError else Inr (VInt (digits_value zs ds)))"

definition lex_number :: "int list \<Rightarrow> ustr \<Rightarrow> (val \<times> ustr) res" where
  "lex_number zs s =
     (let a = takeWhile (re_digit zs) s; r = dropWhile (re_digit zs) s; b = takeWhile (re_digit zs) (tl r) in
      if r \<noteq> [] \<and> hd r = 46 \<and> b \<noteq> [] then Inr (float_lit zs a b, dropWhile (re_digit zs) (tl r))
      else bindE (int_lit zs a) (\<lambda>v. Inr (v, r)))"

definition word_token :: "ustr \<Rightarrow> tok" where
  "word_token s =
     (let w = chars s in if upper w \<in> set KEYWORDS then T_kw (upper w) else T_ident (lower w))"

definition two_char_ops :: "string list" where
  "two_char_ops = [''<='', ''>='', ''<>'', ''!='']"

definition one_char_ops :: "string" where
  "one_char_ops = ''=<>;,()*.+-/''"

definition lex_op :: "ustr \<Rightarrow> (tok \<times> ustr) res" where
  "lex_op s =
     (if take 2 s \<in> codes ` set two_char_ops then Inr (T_op (chars (take 2 s)), drop 2 s)
      else if hd s \<in> of_char ` set one_char_ops then Inr (T_op (chars (take 1 s)), drop 1 s)
      else Inl ParseError)"

text \<open>One match of the regex at \<open>c # cs\<close>: nothing for white space.\<close>

definition lex1 :: "int list \<Rightarrow> int \<Rightarrow> ustr \<Rightarrow> (tok option \<times> ustr) res" where
  "lex1 zs c cs =
     (if is_space c then Inr (None, dropWhile is_space cs)
      else if c = 39 then
        (case lex_str cs of None \<Rightarrow> Inl ParseError | Some (s, r) \<Rightarrow> Inr (Some (T_str s), r))
      else if re_digit zs c then bindE (lex_number zs (c # cs)) (\<lambda>(v, r). Inr (Some (T_num v), r))
      else if ident_start c then
        Inr (Some (word_token (c # takeWhile ident_char cs)), dropWhile ident_char cs)
      else bindE (lex_op (c # cs)) (\<lambda>(t, r). Inr (Some t, r)))"

lemma lex_str_shorter: "lex_str cs = Some (s, r) \<Longrightarrow> length r < length cs"
  by (induction cs arbitrary: s r rule: lex_str.induct) (auto split: if_splits list.splits, blast intro: less_SucI)

lemma dropWhile_shorter: "length (dropWhile P xs) \<le> length xs"
  by (induction xs) auto

lemma dropWhile_tl: "length (dropWhile P (tl (dropWhile P xs))) \<le> length (dropWhile P xs)"
proof -
  have "length (dropWhile P (tl (dropWhile P xs))) \<le> length (tl (dropWhile P xs))" by (rule dropWhile_shorter)
  then show ?thesis by simp
qed

lemma lex1_shorter: "lex1 zs c cs = Inr (t, r) \<Longrightarrow> length r \<le> length cs"
  using dropWhile_shorter[of is_space cs] dropWhile_shorter[of ident_char cs] lex_str_shorter[of cs]
    dropWhile_shorter[of "re_digit zs" cs] dropWhile_tl[of "re_digit zs" cs]
  by (fastforce simp: lex1_def lex_number_def lex_op_def Let_def split: if_splits option.splits)

section \<open>tokenize\<close>

function tokens_from :: "int list \<Rightarrow> nat \<Rightarrow> ustr \<Rightarrow> token list res" where
  "tokens_from zs p [] = Inr [\<lparr>tk = T_eof, tpos = p, tend = p\<rparr>]"
| "tokens_from zs p (c # cs) =
     (case lex1 zs c cs of
        Inl e \<Rightarrow> Inl e
      | Inr (t, r) \<Rightarrow>
          (let q = p + (length (c # cs) - length r) in
           bindE (tokens_from zs q r) (\<lambda>ts.
           Inr (case t of None \<Rightarrow> ts | Some x \<Rightarrow> \<lparr>tk = x, tpos = p, tend = q\<rparr> # ts))))"
  by pat_completeness auto
termination
  by (relation "measure (\<lambda>(zs, p, s). length s)") (auto dest: lex1_shorter)

definition tokenize :: "int list \<Rightarrow> ustr \<Rightarrow> token list res" where
  "tokenize zs sql = tokens_from zs 0 sql"

end
