(* ===== verification/Parser.thy ===== *)
theory Parser
  imports Lexer Exec
begin

text \<open>
  The statement classes and the \<open>Parser\<close> of \<open>leafdb/sqlparse.py\<close>. A parser is a program over the
  tokens that are left; the list always ends in \<open>T_eof\<close>. Every loop of the code repeats a step while
  a token allows it (\<open>many\<close>); the step takes tokens each time, and \<open>many\<close> stops with \<open>OutOfFuel\<close>
  where it would not. The fuel of \<open>parse_expression\<close> bounds how deep expressions nest in parentheses and
  aggregates, where Python's limit is its stack. A \<open>Func\<close> node's identity is the position of its name.
\<close>

type_synonym 'a parser = "(token list, 'a) prog"

datatype stmt =
    S_select select
  | S_insert string "string list option" "expr list list"
  | S_update string "(string \<times> expr) list" "expr option"
  | S_delete string "expr option"
  | S_create_table string "column list"
  | S_create_index string string string
  | S_drop_table string
  | S_drop_index string
  | S_begin
  | S_commit
  | S_rollback
  | S_explain stmt

section \<open>Looking at tokens and taking them\<close>

definition peek :: "token list \<Rightarrow> tok" where
  "peek ts = (case ts of [] \<Rightarrow> T_eof | t # _ \<Rightarrow> tk t)"

definition peek1 :: "token list \<Rightarrow> tok" where
  "peek1 ts = (case ts of [] \<Rightarrow> T_eof | [t] \<Rightarrow> tk t | _ # u # _ \<Rightarrow> tk u)"

definition advance :: "token list \<Rightarrow> token list" where
  "advance ts = (case ts of [] \<Rightarrow> [] | t # us \<Rightarrow> if tk t = T_eof then ts else us)"

fun is_kw :: "string list \<Rightarrow> tok \<Rightarrow> bool" where
  "is_kw ks (T_kw k) = (k \<in> set ks)"
| "is_kw ks _ = False"

fun is_op :: "string list \<Rightarrow> tok \<Rightarrow> bool" where
  "is_op os (T_op p) = (p \<in> set os)"
| "is_op os _ = False"

fun is_ident :: "tok \<Rightarrow> bool" where
  "is_ident (T_ident s) = True"
| "is_ident _ = False"

text \<open>The text of a keyword, identifier or operator.\<close>

fun word_of :: "tok \<Rightarrow> string" where
  "word_of (T_kw s) = s"
| "word_of (T_ident s) = s"
| "word_of (T_op s) = s"
| "word_of _ = []"

definition accept :: "(tok \<Rightarrow> bool) \<Rightarrow> bool parser" where
  "accept P ts = (if P (peek ts) then (Inr True, advance ts) else (Inr False, ts))"

definition expect :: "(tok \<Rightarrow> bool) \<Rightarrow> unit parser" where
  "expect P ts = (if P (peek ts) then (Inr (), advance ts) else (Inl ParseError, ts))"

definition accept_kw :: "string \<Rightarrow> bool parser" where
  "accept_kw k = accept (is_kw [k])"

definition accept_op :: "string \<Rightarrow> bool parser" where
  "accept_op p = accept (is_op [p])"

definition expect_kw :: "string \<Rightarrow> unit parser" where
  "expect_kw k = expect (is_kw [k])"

definition expect_op :: "string \<Rightarrow> unit parser" where
  "expect_op p = expect (is_op [p])"

definition AGGREGATES :: "string list" where
  "AGGREGATES = [''COUNT'', ''SUM'', ''AVG'', ''MIN'', ''MAX'']"

definition name_like :: "tok \<Rightarrow> bool" where
  "name_like t \<longleftrightarrow> is_ident t \<or> is_kw (''INT'' # ''TEXT'' # AGGREGATES) t"

definition expect_ident :: "string parser" where
  "expect_ident ts =
     (if name_like (peek ts) then (Inr (lower (word_of (peek ts))), advance ts) else (Inl ParseError, ts))"

section \<open>Loops\<close>

text \<open>Repeats a step until it gives \<open>None\<close>.\<close>

function many :: "'a option parser \<Rightarrow> 'a list parser" where
  "many p ts =
     (case p ts of
        (Inl e, us) \<Rightarrow> (Inl e, us)
      | (Inr None, us) \<Rightarrow> (Inr [], us)
      | (Inr (Some x), us) \<Rightarrow>
          if length us < length ts then
            (case many p us of (Inl e, vs) \<Rightarrow> (Inl e, vs) | (Inr xs, vs) \<Rightarrow> (Inr (x # xs), vs))
          else (Inl OutOfFuel, us))"
  by pat_completeness auto
termination
  by (relation "measure (\<lambda>(p, ts). length ts)") auto

declare many.simps [simp del]

text \<open>\<open>x, x, ...\<close>\<close>

definition after_comma :: "'a parser \<Rightarrow> 'a option parser" where
  "after_comma p = bindP (accept_op '','') (\<lambda>b. if b then bindP p (\<lambda>x. ret (Some x)) else ret None)"

definition comma_list :: "'a parser \<Rightarrow> 'a list parser" where
  "comma_list p = bindP p (\<lambda>x. bindP (many (after_comma p)) (\<lambda>xs. ret (x # xs)))"

text \<open>\<open>x op x op ...\<close>, grouped to the left.\<close>

definition operator :: "(tok \<Rightarrow> binop option) \<Rightarrow> binop option parser" where
  "operator f ts = (case f (peek ts) of None \<Rightarrow> (Inr None, ts) | Some b \<Rightarrow> (Inr (Some b), advance ts))"

definition operand :: "(tok \<Rightarrow> binop option) \<Rightarrow> expr parser \<Rightarrow> (binop \<times> expr) option parser" where
  "operand f p =
     bindP (operator f) (\<lambda>b. case b of None \<Rightarrow> ret None | Some g \<Rightarrow> bindP p (\<lambda>x. ret (Some (g, x))))"

definition chain :: "(tok \<Rightarrow> binop option) \<Rightarrow> expr parser \<Rightarrow> expr parser" where
  "chain f p =
     bindP p (\<lambda>l. bindP (many (operand f p)) (\<lambda>xs. ret (foldl (\<lambda>a (g, b). BinOp g a b) l xs)))"

section \<open>Expressions\<close>

definition agg_call :: "token list \<Rightarrow> bool" where
  "agg_call ts \<longleftrightarrow> is_kw AGGREGATES (peek ts) \<and> is_op [''(''] (peek1 ts)"

text \<open>An aggregate call; \<open>p\<close> parses its argument.\<close>

definition parse_func :: "expr parser \<Rightarrow> expr parser" where
  "parse_func p ts =
     (let nm = word_of (peek ts); fid = (case ts of [] \<Rightarrow> 0 | t # _ \<Rightarrow> tpos t); us = advance (advance ts) in
      if nm = ''COUNT'' \<and> is_op [''*''] (peek us) then
        bindP (expect_op '')'') (\<lambda>_. ret (Func fid ''COUNT'' None True False)) (advance us)
      else
        bindP (accept_kw ''DISTINCT'') (\<lambda>d.
        bindP p (\<lambda>arg.
        bindP (expect_op '')'') (\<lambda>_. ret (Func fid nm (Some arg) False d)))) us)"

definition parse_name :: "expr parser" where
  "parse_name ts =
     (let nm = lower (word_of (peek ts)); us = advance ts in
      if is_op [''.''] (peek us) \<and> is_ident (peek1 us)
      then (Inr (Column (word_of (peek (advance us))) (Some nm)), advance (advance us))
      else (Inr (Column nm None), us))"

definition parse_primary :: "expr parser \<Rightarrow> expr parser" where
  "parse_primary p ts =
     (case peek ts of
        T_num v \<Rightarrow> (Inr (Literal v), advance ts)
      | T_str s \<Rightarrow> (Inr (Literal (VText s)), advance ts)
      | t \<Rightarrow>
          if is_kw [''NULL''] t then (Inr (Literal VNull), advance ts)
          else if agg_call ts then parse_func p ts
          else if name_like t then parse_name ts
          else if is_op [''(''] t then bindP p (\<lambda>e. bindP (expect_op '')'') (\<lambda>_. ret e)) (advance ts)
          else (Inl ParseError, ts))"

fun parse_unary :: "expr parser \<Rightarrow> expr parser" where
  "parse_unary p [] = parse_primary p []"
| "parse_unary p (t # ts) =
     (if is_op [''-''] (tk t) then bindP (\<lambda>_. parse_unary p ts) (\<lambda>e. ret (UnaryOp U_neg e)) ts
      else if is_op [''+''] (tk t) then parse_unary p ts
      else parse_primary p (t # ts))"

fun mul_op :: "tok \<Rightarrow> binop option" where
  "mul_op (T_op s) = (if s = ''*'' then Some (B_arith Mul) else if s = ''/'' then Some (B_arith Div) else None)"
| "mul_op _ = None"

fun add_op :: "tok \<Rightarrow> binop option" where
  "add_op (T_op s) = (if s = ''+'' then Some (B_arith Add) else if s = ''-'' then Some (B_arith Sub) else None)"
| "add_op _ = None"

definition parse_multiplicative :: "expr parser \<Rightarrow> expr parser" where
  "parse_multiplicative p = chain mul_op (parse_unary p)"

definition parse_additive :: "expr parser \<Rightarrow> expr parser" where
  "parse_additive p = chain add_op (parse_multiplicative p)"

fun cmp_op :: "tok \<Rightarrow> binop option" where
  "cmp_op (T_op s) =
     (if s = ''='' then Some B_eq else if s = ''<>'' then Some B_ne else if s = ''!='' then Some B_ne
      else if s = ''<='' then Some B_le else if s = ''>='' then Some B_ge
      else if s = ''<'' then Some B_lt else if s = ''>'' then Some B_gt else None)"
| "cmp_op _ = None"

text \<open>What may follow the first operand \<open>l\<close> of a predicate and an optional \<open>NOT\<close>.\<close>

definition after_not :: "expr parser \<Rightarrow> expr \<Rightarrow> bool \<Rightarrow> expr parser" where
  "after_not p l n =
     bindP (accept_kw ''BETWEEN'') (\<lambda>btw.
     if btw then
       bindP p (\<lambda>lo. bindP (expect_kw ''AND'') (\<lambda>_. bindP p (\<lambda>hi. ret (Between l lo hi n))))
     else
     bindP (accept_kw ''IN'') (\<lambda>inl.
     if inl then
       bindP (expect_op ''('') (\<lambda>_. bindP (comma_list p) (\<lambda>xs. bindP (expect_op '')'') (\<lambda>_. ret (InList l xs n))))
     else
     bindP (accept_kw ''LIKE'') (\<lambda>lk.
     if lk then bindP p (\<lambda>pat. ret (LikeOp l pat n))
     else if n then raise ParseError
     else bindP (operator cmp_op) (\<lambda>c.
       case c of None \<Rightarrow> ret l | Some g \<Rightarrow> bindP p (\<lambda>r. ret (BinOp g l r))))))"

definition predicate_rest :: "expr parser \<Rightarrow> expr \<Rightarrow> expr parser" where
  "predicate_rest p l =
     bindP (accept_kw ''IS'') (\<lambda>isn.
     if isn then
       bindP (accept_kw ''NOT'') (\<lambda>n. bindP (expect_kw ''NULL'') (\<lambda>_. ret (IsNull l n)))
     else bindP (accept_kw ''NOT'') (after_not p l))"

definition parse_predicate :: "expr parser \<Rightarrow> expr parser" where
  "parse_predicate p = bindP (parse_additive p) (predicate_rest (parse_additive p))"

fun parse_not :: "expr parser \<Rightarrow> expr parser" where
  "parse_not p [] = parse_predicate p []"
| "parse_not p (t # ts) =
     (if is_kw [''NOT''] (tk t) then bindP (\<lambda>_. parse_not p ts) (\<lambda>e. ret (UnaryOp U_not e)) ts
      else parse_predicate p (t # ts))"

definition and_op :: "tok \<Rightarrow> binop option" where
  "and_op t = (if is_kw [''AND''] t then Some B_and else None)"

definition or_op :: "tok \<Rightarrow> binop option" where
  "or_op t = (if is_kw [''OR''] t then Some B_or else None)"

definition parse_and :: "expr parser \<Rightarrow> expr parser" where
  "parse_and p = chain and_op (parse_not p)"

definition parse_or :: "expr parser \<Rightarrow> expr parser" where
  "parse_or p = chain or_op (parse_and p)"

fun nested :: "nat \<Rightarrow> expr parser" where
  "nested 0 = raise OutOfFuel"
| "nested (Suc n) = parse_or (nested n)"

text \<open>Every level of nesting takes a token, so as many levels as tokens are enough.\<close>

definition parse_expression :: "expr parser" where
  "parse_expression ts = nested (Suc (length ts)) ts"

section \<open>SELECT\<close>

text \<open>The label of an item is a slice of the SQL text, held as its UTF-8 bytes.\<close>

definition label_text :: "ustr \<Rightarrow> string" where
  "label_text s =
     concat (map (\<lambda>c. case utf8_char c of Inr b \<Rightarrow> map (\<lambda>w. char_of (uint w)) b | Inl _ \<Rightarrow> ''?'') s)"

definition text_slice :: "ustr \<Rightarrow> token \<Rightarrow> token \<Rightarrow> string" where
  "text_slice sql a b = label_text (drop (tpos a) (take (tend b) sql))"

definition default_label :: "expr \<Rightarrow> string" where
  "default_label e =
     (case e of
        Func fid nm arg star d \<Rightarrow>
          if star then nm @ ''(*)''
          else nm @ ''('' @ (case arg of Some (Column c None) \<Rightarrow> c | _ \<Rightarrow> ''?'') @ '')''
      | _ \<Rightarrow> ''expr'')"

text \<open>\<open>AS\<close> and a name, or a name alone.\<close>

definition parse_alias :: "string option parser" where
  "parse_alias =
     bindP (accept_kw ''AS'') (\<lambda>b.
     if b then bindP expect_ident (\<lambda>s. ret (Some s))
     else (\<lambda>ts. if is_ident (peek ts) then (Inr (Some (word_of (peek ts))), advance ts) else (Inr None, ts)))"

definition parse_item :: "ustr \<Rightarrow> (expr \<times> string) parser" where
  "parse_item sql ts =
     (if is_op [''*''] (peek ts) then (Inr (Star, ''*''), advance ts)
      else if agg_call ts then
        bindP parse_expression (\<lambda>e. bindP parse_alias (\<lambda>al.
        ret (e, case al of Some l \<Rightarrow> l | None \<Rightarrow> default_label e))) ts
      else
        bindP parse_expression (\<lambda>e us. bindP parse_alias (\<lambda>al.
        ret (e, case al of
          Some l \<Rightarrow> l
        | None \<Rightarrow> text_slice sql (ts ! 0) (ts ! (length ts - length us - 1)))) us) ts)"

definition join_type :: "string \<Rightarrow> jointype" where
  "join_type s = (if s = ''LEFT'' then J_left else if s = ''RIGHT'' then J_right else if s = ''FULL'' then J_full else J_inner)"

definition join_word :: "jointype option parser" where
  "join_word ts =
     (if is_kw [''INNER'', ''LEFT'', ''RIGHT'', ''FULL''] (peek ts) then
        bindP (accept_kw ''OUTER'') (\<lambda>_. bindP (expect_kw ''JOIN'') (\<lambda>_.
        ret (Some (join_type (word_of (peek ts)))))) (advance ts)
      else if is_kw [''JOIN''] (peek ts) then (Inr (Some J_inner), advance ts)
      else (Inr None, ts))"

definition parse_join_opt :: "join_clause option parser" where
  "parse_join_opt =
     bindP join_word (\<lambda>jt. case jt of None \<Rightarrow> ret None | Some t \<Rightarrow>
     bindP expect_ident (\<lambda>tab. bindP parse_alias (\<lambda>al.
     bindP (expect_kw ''ON'') (\<lambda>_. bindP parse_expression (\<lambda>e.
     ret (Some \<lparr>jc_type = t, jc_table = tab, jc_alias = al, jc_on = e\<rparr>))))))"

definition parse_order_item :: "(expr \<times> bool) parser" where
  "parse_order_item =
     bindP parse_expression (\<lambda>e. bindP (accept_kw ''DESC'') (\<lambda>d.
     if d then ret (e, True) else bindP (accept_kw ''ASC'') (\<lambda>_. ret (e, False))))"

definition expect_int :: "nat parser" where
  "expect_int ts =
     (case peek ts of
        T_num (VInt i) \<Rightarrow> if 0 \<le> i then (Inr (nat i), advance ts) else (Inl ParseError, ts)
      | _ \<Rightarrow> (Inl ParseError, ts))"

text \<open>A clause that may be left out: what follows its first keyword.\<close>

definition clause :: "string \<Rightarrow> 'a parser \<Rightarrow> 'a option parser" where
  "clause k p = bindP (accept_kw k) (\<lambda>b. if b then bindP p (\<lambda>x. ret (Some x)) else ret None)"

definition list_of :: "'a list option \<Rightarrow> 'a list" where
  "list_of x = (case x of None \<Rightarrow> [] | Some xs \<Rightarrow> xs)"

definition parse_limit :: "(nat option \<times> nat option) parser" where
  "parse_limit =
     bindP (clause ''LIMIT'' expect_int) (\<lambda>l. bindP (clause ''OFFSET'' expect_int) (\<lambda>f. ret (l, f)))"

definition parse_select :: "ustr \<Rightarrow> select parser" where
  "parse_select sql =
     bindP (expect_kw ''SELECT'') (\<lambda>_.
     bindP (accept_kw ''DISTINCT'') (\<lambda>dist.
     bindP (comma_list (parse_item sql)) (\<lambda>items.
     bindP (expect_kw ''FROM'') (\<lambda>_.
     bindP expect_ident (\<lambda>tab.
     bindP parse_alias (\<lambda>al.
     bindP (many parse_join_opt) (\<lambda>joins.
     bindP (clause ''WHERE'' parse_expression) (\<lambda>w.
     bindP (clause ''GROUP'' (bindP (expect_kw ''BY'') (\<lambda>_. comma_list parse_expression))) (\<lambda>g.
     bindP (clause ''HAVING'' parse_expression) (\<lambda>h.
     bindP (clause ''ORDER'' (bindP (expect_kw ''BY'') (\<lambda>_. comma_list parse_order_item))) (\<lambda>ord.
     bindP parse_limit (\<lambda>(l, f).
     ret \<lparr>s_distinct = dist, s_table = tab, s_alias = al, s_joins = joins, s_where = w, s_items = items,
          s_group = list_of g, s_having = h, s_order = list_of ord, s_limit = l, s_offset = f\<rparr>))))))))))))"

section \<open>The other statements\<close>

definition in_parens :: "'a parser \<Rightarrow> 'a parser" where
  "in_parens p = bindP (expect_op ''('') (\<lambda>_. bindP p (\<lambda>x. bindP (expect_op '')'') (\<lambda>_. ret x)))"

definition parse_insert :: "stmt parser" where
  "parse_insert =
     bindP (expect_kw ''INSERT'') (\<lambda>_. bindP (expect_kw ''INTO'') (\<lambda>_.
     bindP expect_ident (\<lambda>tab.
     bindP (\<lambda>ts. if is_op [''(''] (peek ts) then bindP (in_parens (comma_list expect_ident)) (\<lambda>cs. ret (Some cs)) ts
                else (Inr None, ts)) (\<lambda>cols.
     bindP (expect_kw ''VALUES'') (\<lambda>_.
     bindP (comma_list (in_parens (comma_list parse_expression))) (\<lambda>rws.
     ret (S_insert tab cols rws)))))))"

definition parse_type :: "coltype parser" where
  "parse_type ts =
     (if is_kw [''INT'', ''FLOAT'', ''TEXT''] (peek ts) then (Inr (type_of_name (word_of (peek ts))), advance ts)
      else if is_ident (peek ts) then (Inl ParseError, advance ts)
      else (Inl ParseError, ts))"

definition parse_column :: "column parser" where
  "parse_column =
     bindP expect_ident (\<lambda>c. bindP parse_type (\<lambda>t.
     bindP (accept_kw ''PRIMARY'') (\<lambda>p.
     bindP (if p then expect_kw ''KEY'' else ret ()) (\<lambda>_. ret \<lparr>cname = c, ctype = t, cpk = p\<rparr>))))"

definition parse_create :: "stmt parser" where
  "parse_create =
     bindP (expect_kw ''CREATE'') (\<lambda>_.
     bindP (accept_kw ''TABLE'') (\<lambda>tb.
     if tb then
       bindP expect_ident (\<lambda>nm. bindP (in_parens (comma_list parse_column)) (\<lambda>cs. ret (S_create_table nm cs)))
     else
     bindP (accept_kw ''INDEX'') (\<lambda>ix.
     if ix then
       bindP expect_ident (\<lambda>nm. bindP (expect_kw ''ON'') (\<lambda>_. bindP expect_ident (\<lambda>tab.
       bindP (in_parens expect_ident) (\<lambda>c. ret (S_create_index nm tab c)))))
     else raise ParseError)))"

definition parse_delete :: "stmt parser" where
  "parse_delete =
     bindP (expect_kw ''DELETE'') (\<lambda>_. bindP (expect_kw ''FROM'') (\<lambda>_. bindP expect_ident (\<lambda>tab.
     bindP (clause ''WHERE'' parse_expression) (\<lambda>w. ret (S_delete tab w)))))"

definition parse_assignment :: "(string \<times> expr) parser" where
  "parse_assignment =
     bindP expect_ident (\<lambda>c. bindP (expect_op ''='') (\<lambda>_. bindP parse_expression (\<lambda>e. ret (c, e))))"

definition parse_update :: "stmt parser" where
  "parse_update =
     bindP (expect_kw ''UPDATE'') (\<lambda>_. bindP expect_ident (\<lambda>tab. bindP (expect_kw ''SET'') (\<lambda>_.
     bindP (comma_list parse_assignment) (\<lambda>as.
     bindP (clause ''WHERE'' parse_expression) (\<lambda>w. ret (S_update tab as w))))))"

definition parse_drop :: "stmt parser" where
  "parse_drop =
     bindP (accept_kw ''TABLE'') (\<lambda>tb.
     if tb then bindP expect_ident (\<lambda>s. ret (S_drop_table s)) else
     bindP (accept_kw ''INDEX'') (\<lambda>ix.
     if ix then bindP expect_ident (\<lambda>s. ret (S_drop_index s)) else raise ParseError))"

fun is_explain :: "stmt \<Rightarrow> bool" where
  "is_explain (S_explain st) = True"
| "is_explain _ = False"

fun parse_stmt :: "ustr \<Rightarrow> stmt parser" where
  "parse_stmt sql [] = (Inl ParseError, [])"
| "parse_stmt sql (t # ts) =
     (if is_kw [''EXPLAIN''] (tk t) then
        bindP (\<lambda>_. parse_stmt sql ts) (\<lambda>inner. if is_explain inner then raise ParseError else ret (S_explain inner)) ts
      else if is_kw [''SELECT''] (tk t) then bindP (parse_select sql) (\<lambda>s. ret (S_select s)) (t # ts)
      else if is_kw [''INSERT''] (tk t) then parse_insert (t # ts)
      else if is_kw [''CREATE''] (tk t) then parse_create (t # ts)
      else if is_kw [''DELETE''] (tk t) then parse_delete (t # ts)
      else if is_kw [''UPDATE''] (tk t) then parse_update (t # ts)
      else if is_kw [''DROP''] (tk t) then parse_drop ts
      else if is_kw [''BEGIN''] (tk t) then (Inr S_begin, ts)
      else if is_kw [''COMMIT''] (tk t) then (Inr S_commit, ts)
      else if is_kw [''ROLLBACK''] (tk t) then (Inr S_rollback, ts)
      else (Inl ParseError, t # ts))"

section \<open>Texts\<close>

definition parse_statement :: "int list \<Rightarrow> ustr \<Rightarrow> stmt res" where
  "parse_statement zs sql =
     bindE (tokenize zs sql) (\<lambda>ts.
     fst (bindP (parse_stmt sql) (\<lambda>st. bindP (accept_op '';'') (\<lambda>_ us.
       if peek us = T_eof then (Inr st, us) else (Inl ParseError, us))) ts))"

text \<open>A round of the loop of \<open>parse_script\<close>: empty statements, then the end or one statement.\<close>

definition skip_semicolon :: "unit option parser" where
  "skip_semicolon = bindP (accept_op '';'') (\<lambda>b. ret (if b then Some () else None))"

definition script_step :: "ustr \<Rightarrow> stmt option parser" where
  "script_step sql =
     bindP (many skip_semicolon) (\<lambda>_ ts.
     if peek ts = T_eof then (Inr None, ts) else
     bindP (parse_stmt sql) (\<lambda>st. bindP (accept_op '';'') (\<lambda>b us.
       if b \<or> peek us = T_eof then (Inr (Some st), us) else (Inl ParseError, us))) ts)"

definition parse_script :: "int list \<Rightarrow> ustr \<Rightarrow> stmt list res" where
  "parse_script zs sql = bindE (tokenize zs sql) (\<lambda>ts. fst (many (script_step sql) ts))"

end
