(* ===== verification/Explain.thy ===== *)
theory Explain
  imports Planner CatalogStore
begin

text \<open>
  The lines of \<open>EXPLAIN\<close>: the steps that \<open>build_select_plan\<close> of \<open>leafdb/planner.py\<close> writes down with
  their estimates, \<open>_expr_text\<close> and \<open>aggregate_names\<close>. \<open>prn\<close> says which characters beyond ASCII
  Python's \<open>repr\<close> leaves unescaped.
\<close>

section \<open>repr\<close>

definition hex_digit :: "int \<Rightarrow> int" where
  "hex_digit d = (if d < 10 then 48 + d else 87 + d)"

fun hex_digits :: "nat \<Rightarrow> int \<Rightarrow> ustr" where
  "hex_digits 0 c = []"
| "hex_digits (Suc k) c = hex_digits k (c div 16) @ [hex_digit (c mod 16)]"

definition repr_char :: "(int \<Rightarrow> bool) \<Rightarrow> int \<Rightarrow> int \<Rightarrow> ustr" where
  "repr_char prn q c =
     (if c = q \<or> c = 92 then [92, c]
      else if c = 9 then [92, 116] else if c = 10 then [92, 110] else if c = 13 then [92, 114]
      else if 32 \<le> c \<and> c < 127 then [c]
      else if 127 < c \<and> prn c then [c]
      else if c < 256 then [92, 120] @ hex_digits 2 c
      else if c < 65536 then [92, 117] @ hex_digits 4 c
      else [92, 85] @ hex_digits 8 c)"

definition repr_str :: "(int \<Rightarrow> bool) \<Rightarrow> ustr \<Rightarrow> ustr" where
  "repr_str prn s =
     (let q = (if 39 \<in> set s \<and> 34 \<notin> set s then 34 else 39)
      in q # concat (map (repr_char prn q) s) @ [q])"

fun repr_val :: "(int \<Rightarrow> bool) \<Rightarrow> val \<Rightarrow> ustr" where
  "repr_val prn (VText s) = repr_str prn s"
| "repr_val prn (VInt i) = int_text i"
| "repr_val prn (VFloat d) = float_text d"
| "repr_val prn (VBool b) = codes (if b then ''True'' else ''False'')"
| "repr_val prn VNull = codes ''None''"

section \<open>Expressions as text\<close>

fun op_text :: "binop \<Rightarrow> string" where
  "op_text B_and = ''AND''" | "op_text B_or = ''OR''" | "op_text B_eq = ''=''" | "op_text B_ne = ''<>''"
| "op_text B_lt = ''<''" | "op_text B_le = ''<=''" | "op_text B_gt = ''>''" | "op_text B_ge = ''>=''"
| "op_text (B_arith Add) = ''+''" | "op_text (B_arith Sub) = ''-''"
| "op_text (B_arith Mul) = ''*''" | "op_text (B_arith Div) = ''/''"

fun expr_text :: "(int \<Rightarrow> bool) \<Rightarrow> expr \<Rightarrow> ustr" where
  "expr_text prn (Column nm tab) =
     (case tab of None \<Rightarrow> [] | Some t \<Rightarrow> if t = [] then [] else codes t @ codes ''.'') @ codes nm"
| "expr_text prn (Literal v) = repr_val prn v"
| "expr_text prn (BinOp f l r) = expr_text prn l @ codes '' '' @ codes (op_text f) @ codes '' '' @ expr_text prn r"
| "expr_text prn (UnaryOp u e) =
     (case u of U_neg \<Rightarrow> codes ''NEG('' @ expr_text prn e @ codes '')'' | U_not \<Rightarrow> codes ''NOT '' @ expr_text prn e)"
| "expr_text prn (IsNull e neg) = expr_text prn e @ codes '' IS '' @ codes (if neg then ''NOT '' else []) @ codes ''NULL''"
| "expr_text prn (Func fid nm arg star dist) =
     codes nm @ (if star then codes ''(*)''
       else codes ''('' @ (case arg of None \<Rightarrow> codes ''?'' | Some e \<Rightarrow> expr_text prn e) @ codes '')'')"
| "expr_text prn _ = codes ''?''"

fun joined :: "ustr list \<Rightarrow> ustr" where
  "joined [] = []"
| "joined [t] = t"
| "joined (t # ts) = t @ codes '', '' @ joined ts"

fun aggregate_name :: "expr \<Rightarrow> ustr" where
  "aggregate_name (Func fid nm arg star dist) =
     codes nm @ codes ''('' @
     codes (if star then ''*'' else
        case arg of Some (Column c tab) \<Rightarrow> c | Some (Func f n a s d) \<Rightarrow> n | _ \<Rightarrow> ''?'') @ codes '')''"
| "aggregate_name _ = []"

definition aggregate_names :: "select \<Rightarrow> ustr" where
  "aggregate_names sel =
     (let names = concat (map (\<lambda>x. map aggregate_name (walk_func_nodes (fst x))) (s_items sel));
          seen = rev (remdups (rev names))
      in if seen = [] then codes ''-'' else joined seen)"

definition has_aggregate :: "select \<Rightarrow> bool" where
  "has_aggregate sel \<longleftrightarrow> walk_in_items sel"

section \<open>The steps\<close>

definition scan_step :: "(int \<Rightarrow> bool) \<Rightarrow> string \<Rightarrow> string \<Rightarrow> table_meta \<Rightarrow> scankind \<times> int \<Rightarrow> ustr" where
  "scan_step prn tab al base k =
     (let at = codes tab @ codes '' AS '' @ codes al in
      case k of
        (Scan_pk v, est) \<Rightarrow>
          codes ''PK LOOKUP '' @ at @ codes '' ON '' @ codes (case pk_column base of None \<Rightarrow> ''None'' | Some pk \<Rightarrow> pk) @
          codes ''='' @ repr_val prn v @ codes '' (est 1 row)''
      | (Scan_index c v, est) \<Rightarrow>
          codes ''INDEX SCAN '' @ at @ codes '' USING idx_'' @ codes c @ codes '' ('' @ codes c @ codes ''='' @
          repr_val prn v @ codes '') (est '' @ int_text est @ codes '' rows)''
      | (Scan_seq, est) \<Rightarrow> codes ''SEQ SCAN '' @ at @ codes '' (est '' @ int_text est @ codes '' rows)'')"

fun jointype_text :: "jointype \<Rightarrow> string" where
  "jointype_text J_inner = ''INNER''" | "jointype_text J_left = ''LEFT''"
| "jointype_text J_right = ''RIGHT''" | "jointype_text J_full = ''FULL''"

fun join_steps :: "(int \<Rightarrow> bool) \<Rightarrow> (string \<Rightarrow> table_meta res) \<Rightarrow> join_clause list \<Rightarrow> tabs \<Rightarrow> int \<Rightarrow> ustr list res" where
  "join_steps prn lookup [] known left_est = Inr []"
| "join_steps prn lookup (j # js) known left_est =
     bindE (lookup (jc_table j)) (\<lambda>m.
     let al = alias_or (jc_alias j) (jc_table j);
         right_est = max (row_count m) 1;
         equi = find_join_equi (flatten_and (jc_on j)) known al m;
         est_out = (if equi \<noteq> None then max left_est right_est else max 1 (left_est * right_est div 10));
         detail = (case equi of
             Some (acc, new) \<Rightarrow>
               codes ''keys '' @ expr_text prn acc @ codes ''='' @ expr_text prn (Column new (Some al)) @ codes '', build '' @
               codes (if right_est \<le> left_est then ''right'' else ''left'') @ codes '' ('' @
               int_text (min left_est right_est) @ codes '' rows)''
           | None \<Rightarrow> codes ''cost ~'' @ int_text (left_est * right_est) @ codes '' comparisons'');
         step = codes (if equi \<noteq> None then ''HASH JOIN'' else ''NESTED LOOP JOIN'') @ codes '' ['' @
           codes (jointype_text (jc_type j)) @ codes ''] '' @ codes (jc_table j) @ codes '' AS '' @ codes al @ codes '' ON '' @
           expr_text prn (jc_on j) @ codes '' ('' @ detail @ codes ''; est in '' @ int_text left_est @ codes ''x'' @
           int_text right_est @ codes '')''
     in bindE (join_steps prn lookup js (AList.update al m known) est_out) (\<lambda>rest. Inr (step # rest)))"

definition filter_steps :: "(int \<Rightarrow> bool) \<Rightarrow> nat \<Rightarrow> (nat \<times> expr) list \<Rightarrow> ustr list" where
  "filter_steps prn njoins filters =
     map (\<lambda>(stage, c). codes ''PUSHDOWN FILTER '' @ expr_text prn c @ codes '' (applied after '' @ int_text (int stage) @ codes '' join(s))'')
       (filter (\<lambda>(stage, c). stage \<noteq> njoins) filters) @
     (let n = length (filter (\<lambda>(stage, c). stage = njoins) filters) in
      if 0 < n then [codes ''FILTER WHERE ('' @ int_text (int n) @ codes '' residual predicate(s), 3-valued logic)''] else [])"

definition group_steps :: "(int \<Rightarrow> bool) \<Rightarrow> select \<Rightarrow> ustr list" where
  "group_steps prn sel =
     (if s_group sel \<noteq> [] \<or> has_aggregate sel then
        [codes ''GROUP AGGREGATE keys=('' @
         (if s_group sel = [] then codes ''global group'' else joined (map (expr_text prn) (s_group sel))) @
         codes '') aggs=('' @ aggregate_names sel @ codes '')'' @
         (case s_having sel of None \<Rightarrow> [] | Some h \<Rightarrow> codes '' HAVING '' @ expr_text prn h)]
      else [])"

definition tail_steps :: "(int \<Rightarrow> bool) \<Rightarrow> select \<Rightarrow> ustr list" where
  "tail_steps prn sel =
     (if s_order sel = [] then [] else
        [codes ''SORT '' @
         joined (map (\<lambda>(e, d). expr_text prn e @ codes '' '' @ codes (if d then ''DESC'' else ''ASC'')) (s_order sel))]) @
     (if s_distinct sel then [codes ''DISTINCT''] else []) @
     (let off = (case s_offset sel of None \<Rightarrow> 0 | Some n \<Rightarrow> n) in
      if s_limit sel \<noteq> None \<or> off \<noteq> 0 then
        [codes ''LIMIT '' @ (case s_limit sel of None \<Rightarrow> codes ''all'' | Some n \<Rightarrow> int_text (int n)) @
         codes '' OFFSET '' @ int_text (int off)]
      else [])"

definition explain_lines :: "(int \<Rightarrow> bool) \<Rightarrow> (string \<Rightarrow> table_meta res) \<Rightarrow> select \<Rightarrow> ustr list res" where
  "explain_lines prn lookup sel =
     bindE (lookup (s_table sel)) (\<lambda>base.
     let al = alias_or (s_alias sel) (s_table sel);
         scan = choose_scan al base (s_where sel)
     in bindE (join_steps prn lookup (s_joins sel) [(al, base)] (snd scan)) (\<lambda>joins.
        bindE (build_select_plan lookup sel) (\<lambda>p.
        Inr (scan_step prn (s_table sel) al base scan # joins @ filter_steps prn (length (s_joins sel)) (p_filters p) @
             group_steps prn sel @ tail_steps prn sel))))"

end
