(* ===== verification/Database.thy ===== *)
theory Database
  imports Dml Parser Explain
begin

text \<open>
  \<open>Database._pk_fast_path\<close>, \<open>_dispatch\<close>, \<open>_run_one\<close> and \<open>bulk_insert\<close>. A \<open>SELECT\<close> is a function
  of the state: reads move pages within the buffer pool and the node cache and change no page, and
  the model keeps the state as it was.
\<close>

datatype outcome = R_rows "string list" "row list" | R_count int | R_done

section \<open>SELECT\<close>

definition db_of :: "engine \<Rightarrow> db_ops" where
  "db_of e =
     \<lparr>db_scan = (\<lambda>m. fst (scan_table m e)), db_index = (\<lambda>m c v. fst (index_lookup m c v e)),
      db_search = (\<lambda>m k. fst (search_row m k e))\<rparr>"

definition lookup_meta :: "engine \<Rightarrow> string \<Rightarrow> table_meta res" where
  "lookup_meta e nm = catalog_get (e_cat e) nm"

fun star_cols :: "table_meta \<Rightarrow> (expr \<times> string) list \<Rightarrow> string list" where
  "star_cols m [] = []"
| "star_cols m ((x, label) # xs) = (if x = Star then colnames m else [label]) @ star_cols m xs"

text \<open>\<open>None\<close>: not for the fast path. A negated literal is negated as Python does.\<close>

fun fast_values :: "table_meta \<Rightarrow> string \<Rightarrow> row \<Rightarrow> (expr \<times> string) list \<Rightarrow> row option res" where
  "fast_values m al rw [] = Inr (Some [])"
| "fast_values m al rw ((x, label) # xs) =
     (let go = (\<lambda>vs. bindE (fast_values m al rw xs) (\<lambda>rest. Inr (map_option (\<lambda>ys. vs @ ys) rest))) in
      case x of
        Star \<Rightarrow> go rw
      | Column nm tab \<Rightarrow>
          (if tab \<noteq> None \<and> tab \<noteq> Some al then Inr None else
           case column_index m nm of Inl e \<Rightarrow> Inr None | Inr j \<Rightarrow> bindE (nth_err rw j) (\<lambda>v. go [v]))
      | Literal v \<Rightarrow> go [v]
      | UnaryOp U_neg (Literal (VBool b)) \<Rightarrow> Inr None
      | UnaryOp U_neg (Literal v) \<Rightarrow> bindE (py_neg v) (\<lambda>w. go [w])
      | _ \<Rightarrow> Inr None)"

definition fast_where :: "expr option \<Rightarrow> (string \<times> string option \<times> val) option" where
  "fast_where w =
     (case w of
        Some (BinOp B_eq (Column nm tab) (Literal v)) \<Rightarrow> Some (nm, tab, v)
      | Some (BinOp B_eq (Literal v) (Column nm tab)) \<Rightarrow> Some (nm, tab, v)
      | _ \<Rightarrow> None)"

definition plain_select :: "select \<Rightarrow> bool" where
  "plain_select sel \<longleftrightarrow>
     s_joins sel = [] \<and> \<not> s_distinct sel \<and> s_group sel = [] \<and> s_having sel = None \<and> s_order sel = [] \<and>
     s_limit sel = None \<and> (s_offset sel = None \<or> s_offset sel = Some 0)"

definition pk_fast_path :: "engine \<Rightarrow> select \<Rightarrow> (string list \<times> row list) option res" where
  "pk_fast_path e sel =
     (if \<not> plain_select sel then Inr None else
      case fast_where (s_where sel) of
        None \<Rightarrow> Inr None
      | Some (nm, tab, v) \<Rightarrow>
          bindE (lookup_meta e (s_table sel)) (\<lambda>m.
          let al = alias_or (s_alias sel) (s_table sel) in
          if (tab \<noteq> None \<and> tab \<noteq> Some al) \<or> pk_column m \<noteq> Some nm then Inr None else
          case coerce_pk v of
            Inl x \<Rightarrow> Inr None
          | Inr key \<Rightarrow>
              bindE (db_search (db_of e) m key) (\<lambda>r.
              let cols = star_cols m (s_items sel) in
              case r of
                None \<Rightarrow> Inr (Some (cols, []))
              | Some rw \<Rightarrow>
                  bindE (fast_values m al rw (s_items sel)) (\<lambda>out.
                  Inr (map_option (\<lambda>vs. (cols, [vs])) out)))))"

definition select_stmt :: "(int \<Rightarrow> int) \<Rightarrow> engine \<Rightarrow> select \<Rightarrow> outcome res" where
  "select_stmt low e sel =
     bindE (pk_fast_path e sel) (\<lambda>fast.
     case fast of
       Some (cols, rws) \<Rightarrow> Inr (R_rows cols rws)
     | None \<Rightarrow>
         bindE (execute_select low (lookup_meta e) (db_of e) sel) (\<lambda>(cols, rws). Inr (R_rows cols rws)))"

section \<open>Dispatch\<close>

definition as_done :: "(engine, unit) prog \<Rightarrow> (engine, outcome) prog" where
  "as_done p = bindP p (\<lambda>_. ret R_done)"

definition as_count :: "(engine, int) prog \<Rightarrow> (engine, outcome) prog" where
  "as_count p = bindP p (\<lambda>n. ret (R_count n))"

fun dispatch :: "(int \<Rightarrow> bool) \<Rightarrow> (int \<Rightarrow> int) \<Rightarrow> stmt \<Rightarrow> (engine, outcome) prog" where
  "dispatch prn low (S_explain st) e =
     (case st of
        S_select sel \<Rightarrow> (bindE (explain_lines prn (lookup_meta e) sel) (\<lambda>ls. Inr (R_rows [''plan''] (map (\<lambda>l. [VText l]) ls))), e)
      | _ \<Rightarrow> (Inl SQLError, e))"
| "dispatch prn low (S_select sel) e = (select_stmt low e sel, e)"
| "dispatch prn low (S_create_table nm cols) e = as_done (create_table nm cols) e"
| "dispatch prn low (S_create_index inm tab col) e = as_done (create_index inm tab col) e"
| "dispatch prn low (S_drop_table nm) e = as_done (drop_table nm) e"
| "dispatch prn low (S_drop_index inm) e = as_done (drop_index inm) e"
| "dispatch prn low (S_insert nm cs rws) e = as_count (insert_stmt nm cs rws) e"
| "dispatch prn low (S_update nm asg w) e = as_count (update_stmt low nm asg w) e"
| "dispatch prn low (S_delete nm w) e = as_count (delete_stmt low nm w) e"
| "dispatch prn low _ e = (Inl SQLError, e)"

text \<open>\<open>begin\<close>, the body, then \<open>commit\<close>, or \<open>rollback\<close> and the exception again.\<close>

definition in_own_txn :: "(engine, 'a) prog \<Rightarrow> (engine, 'a) prog" where
  "in_own_txn body =
     bindP begin_txn_db (\<lambda>_ e.
     case body e of
       (Inl x, e1) \<Rightarrow> bindP rollback_db (\<lambda>_. raise x) e1
     | (Inr r, e1) \<Rightarrow> bindP commit_db (\<lambda>_. ret r) e1)"

definition run_one :: "(int \<Rightarrow> bool) \<Rightarrow> (int \<Rightarrow> int) \<Rightarrow> stmt \<Rightarrow> (engine, outcome) prog" where
  "run_one prn low st e =
     (case st of
        S_begin \<Rightarrow> as_done begin_txn_db e
      | S_commit \<Rightarrow> as_done commit_db e
      | S_rollback \<Rightarrow> as_done rollback_db e
      | S_select sel \<Rightarrow> dispatch prn low st e
      | _ \<Rightarrow> if e_txn e then dispatch prn low st e else in_own_txn (dispatch prn low st) e)"

definition bulk_insert :: "string \<Rightarrow> val list list \<Rightarrow> (engine, int) prog" where
  "bulk_insert nm rws e = (if e_txn e then bulk_rows nm rws e else in_own_txn (bulk_rows nm rws) e)"

fun run_all :: "(int \<Rightarrow> bool) \<Rightarrow> (int \<Rightarrow> int) \<Rightarrow> stmt list \<Rightarrow> (engine, outcome list) prog" where
  "run_all prn low [] = ret []"
| "run_all prn low (st # sts) = bindP (run_one prn low st) (\<lambda>r. bindP (run_all prn low sts) (\<lambda>rs. ret (r # rs)))"

section \<open>Opening\<close>

definition open_db :: "bytes option \<Rightarrow> nat \<Rightarrow> (bytes, engine) prog" where
  "open_db wal cap =
     bindP (db_open wal cap) (\<lambda>s.
     let (r, p) = load_catalog (pgr s) in
     bindP (liftE r) (\<lambda>cat.
     let (r2, e) = rebuild_indexes
           \<lparr>e_bt = \<lparr>bpager = p, ncache = []\<rparr>, e_log = log s, e_pos = log_pos s, e_txn = False, e_cat = cat,
            e_idx = [], e_snap = None\<rparr>
     in bindP (liftE r2) (\<lambda>_. ret e)))"

end
