(* ===== verification/SelectStored.thy ===== *)
theory SelectStored
  imports SelectSpec DmlClaims Database
begin

text \<open>
  \<open>FROM\<close> and \<open>WHERE\<close> over stored tables: what the planner's scans, joins and staged filters return, read
  through trees, pages and indexes, against the rows the tables hold.
\<close>

section \<open>Only the scans of the joined tables matter\<close>

lemma exec_join_cong:
  "db_scan db (j_meta j) = db_scan db' (j_meta j) \<Longrightarrow> exec_join low db lefts j sc = exec_join low db' lefts j sc"
  by (simp add: exec_join_def)

lemma run_joins_cong:
  "\<forall>j \<in> set js. db_scan db (j_meta j) = db_scan db' (j_meta j) \<Longrightarrow>
   run_joins low db fs s js sc lefts = run_joins low db' fs s js sc lefts"
proof (induction js arbitrary: s sc lefts)
  case (Cons j js)
  have "exec_join low db ls j sc1 = exec_join low db' ls j sc1" for ls sc1 by (rule exec_join_cong) (use Cons.prems in simp)
  moreover have "run_joins low db fs s' js sc1 ls = run_joins low db' fs s' js sc1 ls" for s' sc1 ls
    by (rule Cons.IH) (use Cons.prems in simp)
  then have "run_joins low db fs s' js = run_joins low db' fs s' js" for s' by (simp add: fun_eq_iff)
  ultimately show ?case by (simp only: run_joins.simps)
qed simp

lemma from_rows_cong:
  "\<forall>j \<in> set js. scanned db (j_meta j) = scanned db' (j_meta j) \<Longrightarrow>
   from_rows low db js sc lefts = from_rows low db' js sc lefts"
proof (induction js arbitrary: sc lefts)
  case (Cons j js)
  then have "scanned db (j_meta j) = scanned db' (j_meta j)" by simp
  then have "SelectSpec.joined low db j sc ls = SelectSpec.joined low db' j sc ls" for ls
    unfolding SelectSpec.joined_def by (rule arg_cong)
  then show ?case using Cons by simp
qed simp

lemma exec_scan_cong:
  assumes "db_scan db (sc_meta si) = db_scan db' (sc_meta si)" and "db_search db = db_search db'" and "db_index db = db_index db'"
  shows "exec_scan db si = exec_scan db' si"
  unfolding exec_scan_def assms ..

definition restrict_db :: "table_meta set \<Rightarrow> db_ops \<Rightarrow> db_ops" where
  "restrict_db M db = db\<lparr>db_scan := (\<lambda>m. if m \<in> M then db_scan db m else Inl KeyError)\<rparr>"

lemma plan_joins_Cons:
  assumes "plan_joins lookup (a # js) known est = Inr pjs"
  obtains m pj rest kn es where "lookup (jc_table a) = Inr m" "j_meta pj = m" "j_type pj = jc_type a" "pjs = pj # rest"
    "plan_joins lookup js kn es = Inr rest"
proof -
  obtain m rest where "lookup (jc_table a) = Inr m" and
    r: "bindE (plan_joins lookup js (AList.update (alias_or (jc_alias a) (jc_table a)) m known)
      (if find_join_equi (flatten_and (jc_on a)) known (alias_or (jc_alias a) (jc_table a)) m \<noteq> None
       then max est (max (row_count m) 1) else max 1 (est * max (row_count m) 1 div 10))) (\<lambda>rest.
      Inr (\<lparr>j_type = jc_type a, j_alias = alias_or (jc_alias a) (jc_table a), j_meta = m, j_on = jc_on a,
        j_hash = (find_join_equi (flatten_and (jc_on a)) known (alias_or (jc_alias a) (jc_table a)) m \<noteq> None),
        j_equi = find_join_equi (flatten_and (jc_on a)) known (alias_or (jc_alias a) (jc_table a)) m,
        j_build_right = (find_join_equi (flatten_and (jc_on a)) known (alias_or (jc_alias a) (jc_table a)) m \<noteq> None \<and>
          max (row_count m) 1 \<le> est)\<rparr> # rest)) = Inr pjs"
    using assms unfolding plan_joins.simps Let_def bindE_eq_Inr by blast
  then show thesis unfolding bindE_eq_Inr using that by (metis joininfo.select_convs(1,3) sum.inject(2))
qed

lemma plan_joins_metas:
  "plan_joins lookup js known est = Inr pjs \<Longrightarrow> j \<in> set pjs \<Longrightarrow> \<exists>nm. lookup nm = Inr (j_meta j)"
proof (induction js arbitrary: known est pjs)
  case (Cons a js)
  show ?case by (rule plan_joins_Cons[OF Cons.prems(1)]) (use Cons in auto)
qed simp

lemma plan_joins_types:
  "plan_joins lookup js known est = Inr pjs \<Longrightarrow> map j_type pjs = map jc_type js"
proof (induction js arbitrary: known est pjs)
  case (Cons a js)
  show ?case by (rule plan_joins_Cons[OF Cons.prems]) (use Cons.IH in auto)
qed simp

section \<open>A condition on the first table\<close>

lemma join_spec_first:
  assumes "jt = J_inner \<or> jt = J_left" and "\<forall>ps \<in> set lefts. ps \<noteq> []"
  shows "join_spec jt f w (filter (\<lambda>ps. P (hd ps)) lefts) rs = filter (\<lambda>ps. P (hd ps)) (join_spec jt f w lefts rs)"
  by (rule join_spec_filter[OF assms(1)]) (use assms(2) in simp)

lemma join_spec_nonempty:
  assumes "jt = J_inner \<or> jt = J_left" and "\<forall>ps \<in> set lefts. ps \<noteq> []"
  shows "\<forall>ps \<in> set (join_spec jt f w lefts rs). ps \<noteq> []"
  using assms by (auto simp: join_spec_def)

lemma from_rows_first:
  assumes "\<forall>j \<in> set js. j_type j = J_inner \<or> j_type j = J_left" and "\<forall>ps \<in> set lefts. ps \<noteq> []"
  shows "from_rows low db js sc (filter (\<lambda>ps. P (hd ps)) lefts) = filter (\<lambda>ps. P (hd ps)) (from_rows low db js sc lefts)"
  using assms
proof (induction js arbitrary: sc lefts)
  case (Cons j js)
  have jt: "j_type j = J_inner \<or> j_type j = J_left" using Cons.prems(1) by simp
  have ne: "\<forall>ps \<in> set (SelectSpec.joined low db j sc lefts). ps \<noteq> []"
    using join_spec_nonempty[OF jt Cons.prems(2)] by (auto simp: SelectSpec.joined_def split: sum.split)
  have "SelectSpec.joined low db j sc (filter (\<lambda>ps. P (hd ps)) lefts) = filter (\<lambda>ps. P (hd ps)) (SelectSpec.joined low db j sc lefts)"
    using join_spec_first[OF jt Cons.prems(2)] by (simp add: SelectSpec.joined_def split: sum.split)
  then show ?case using Cons.IH[OF _ ne] Cons.prems(1) by simp
qed simp

lemma from_rows_nonempty:
  assumes "\<forall>j \<in> set js. j_type j = J_inner \<or> j_type j = J_left" and "\<forall>ps \<in> set lefts. ps \<noteq> []"
  shows "\<forall>ps \<in> set (from_rows low db js sc lefts). ps \<noteq> []"
  using assms
proof (induction js arbitrary: sc lefts)
  case (Cons j js)
  have "\<forall>ps \<in> set (SelectSpec.joined low db j sc lefts). ps \<noteq> []"
    using join_spec_nonempty[of "j_type j" lefts] Cons.prems by (auto simp: SelectSpec.joined_def split: sum.split dest: spec)
  then show ?case using Cons.IH Cons.prems(1) by simp
qed simp

lemma from_rows_hd:
  assumes "\<forall>j \<in> set js. j_type j = J_inner \<or> j_type j = J_left" and "\<forall>ps \<in> set lefts. ps \<noteq> []" 
    and "ps \<in> set (from_rows low db js sc lefts)"
  shows "hd ps \<in> hd ` set lefts"
proof -
  have "from_rows low db js sc (filter (\<lambda>ps. hd ps \<in> hd ` set lefts) lefts) = from_rows low db js sc lefts"
    by (rule arg_cong[where f = "from_rows low db js sc"]) (simp add: filter_id_conv)
  then show ?thesis using from_rows_first(1)[OF assms(1,2), of low db sc "\<lambda>x. x \<in> hd ` set lefts"] assms(3)
    by (metis (no_types, lifting) filter_eq_Cons_iff filter_id_conv)
qed


section \<open>The scan of the first table\<close>

lemma find_mem: "find P xs = Some x \<Longrightarrow> x \<in> set xs \<and> P x"
  by (induction xs) (auto split: if_splits)

lemma choose_scan_equi:
  assumes "choose_scan al m w = (kind, est)"
  shows "kind = Scan_seq \<or> (\<exists>nm tab v. (nm, tab, v) \<in> set (find_equi_predicates (where_conjuncts w)) \<and>
    column_matches nm tab al (colnames m) \<and>
    (kind = Scan_pk v \<and> pk_column m = Some nm \<or> kind = Scan_index nm v \<and> nm \<in> fst ` set (indexes m)))"
proof -
  define M where "M = filter (\<lambda>(nm, tab, v). column_matches nm tab al (colnames m)) (find_equi_predicates (where_conjuncts w))"
  define pk where "pk = (case pk_column m of None \<Rightarrow> None | Some pk \<Rightarrow> if pk = [] then None else find (\<lambda>(nm, tab, v). nm = pk) M)"
  have mem: "(nm, tab, v) \<in> set (find_equi_predicates (where_conjuncts w)) \<and> column_matches nm tab al (colnames m)"
    if "(nm, tab, v) \<in> set M" for nm tab v
    using that by (simp add: M_def)
  have ch: "(kind, est) = (case pk of Some (nm, tab, v) \<Rightarrow> (Scan_pk v, 1)
      | None \<Rightarrow> (case find (\<lambda>(nm, tab, v). nm \<in> fst ` set (indexes m)) M of
          Some (nm, tab, v) \<Rightarrow> (Scan_index nm v, max 1 (row_count m div 100)) | None \<Rightarrow> (Scan_seq, max (row_count m) 1)))"
    using assms unfolding choose_scan_def Let_def M_def[symmetric] pk_def[symmetric] by simp
  show ?thesis
  proof (cases pk)
    case (Some x)
    obtain nm tab v where x: "x = (nm, tab, v)" by (cases x) auto
    obtain k where k: "pk_column m = Some k" "find (\<lambda>(nm, tab, v). nm = k) M = Some x"
      using Some unfolding pk_def by (auto split: option.splits if_splits)
    have "(nm, tab, v) \<in> set M \<and> nm = k" using find_mem[OF k(2)] by (auto simp: x)
    then show ?thesis using mem k(1) ch Some x by auto
  next
    case None
    show ?thesis
    proof (cases "find (\<lambda>(nm, tab, v). nm \<in> fst ` set (indexes m)) M")
      case None
      then show ?thesis using ch \<open>pk = None\<close> by simp
    next
      case (Some x)
      obtain nm tab v where x: "x = (nm, tab, v)" by (cases x) auto
      from find_mem[OF Some] have "(nm, tab, v) \<in> set M" "nm \<in> fst ` set (indexes m)" by (simp_all add: x)
      then show ?thesis using mem ch \<open>pk = None\<close> Some x by auto
    qed
  qed
qed

lemma holds_value:
  assumes eq: "(nm, tab, v) \<in> set (find_equi_predicates cs)" and col: "column_matches nm tab al (colnames m)"
    and sc: "sources sc = (al, m) # srcs" and comp: "\<forall>c \<in> set cs. compiles low sc c"
    and h: "\<forall>c \<in> set cs. holds low sc c (Some rw # ps)" and w: "length rw = length (columns m)"
  shows "\<exists>j. column_index m nm = Inr j \<and> rw ! j \<noteq> VNull \<and> py_eq (rw ! j) v"
proof -
  let ?sc0 = "\<lparr>sources = [(al, m)], agg_aliases = []\<rparr>"
  have nm: "nm \<in> set (colnames m)" using col by (auto simp: column_matches_def split: option.splits)
  obtain j where j: "column_index m nm = Inr j" using column_index_some[OF nm] by blast
  have jb: "j < length rw" using column_index_bound[OF j] w by simp
  have r0: "resolve ?sc0 nm tab = Inr (0, j)"
    using col j by (auto simp: resolve_def column_matches_def split: option.splits)
  have ext: "sources sc = sources ?sc0 @ srcs" by (simp add: sc)
  have col: "p = (0, j)" if "resolve sc nm tab = Inr p" for p
    using resolve_extend[OF ext r0 that] by simp
  have val: "f (Some rw # ps) None = Inr (rw ! j)" if "compile_expr low sc [] False (Column nm tab) = Inr f" for f
    using that col jb by (auto simp: read_part_def nth_err_def split: sum.splits)
  have c: "rw ! j \<noteq> VNull \<and> py_eq (rw ! j) v"
    if k: "c \<in> set cs" "c = BinOp B_eq (Column nm tab) (Literal v) \<or> c = BinOp B_eq (Literal v) (Column nm tab)" for c
  proof -
    obtain g where g: "compile_expr low sc [] False c = Inr g" using comp k(1) by (auto simp: compiles_def)
    then have t: "g (Some rw # ps) None = Inr (VBool True)" using h k(1) by (auto simp: holds_def)
    from k(2) show ?thesis
    proof
      assume c: "c = BinOp B_eq (Column nm tab) (Literal v)"
      from eq_conjunct[OF g[unfolded c] t] show ?thesis using val by auto
    next
      assume c: "c = BinOp B_eq (Literal v) (Column nm tab)"
      from eq_conjunct[OF g[unfolded c] t] show ?thesis using val py_eq_sym by auto
    qed
  qed
  then show ?thesis using equi_conjunct[OF eq] j by blast
qed

text \<open>A key that is not an integer equals no integer.\<close>

lemma pk_no_value:
  assumes "coerce_pk v = Inl x" and "\<And>b. v \<noteq> VBool b"
  shows "\<not> py_eq (VInt i) v"
proof (cases v)
  case (VFloat w)
  show ?thesis
  proof (cases "fclass w")
    case (FFin neg n x)
    have ni: "\<not> dbl_is_integer w" using assms(1) VFloat FFin by (auto simp: coerce_pk_def dbl_to_int_def Let_def split: if_splits)
    then have x: "x < 0" "n mod 2 ^ nat (- x) \<noteq> 0" using FFin by (simp_all add: dbl_is_integer_def)
    show ?thesis
    proof
      assume "py_eq (VInt i) v"
      then have "num_eq (NFin i 0) (NFin (sgn_int neg n) x)" using VFloat FFin by (simp add: view_int_def view_dbl_def)
      then have "i * 2 ^ nat (- x) = sgn_int neg n" using x(1) by (simp add: min_def)
      then have "n = (if neg then - i else i) * 2 ^ nat (- x)" by (auto simp: sgn_int_def split: if_splits)
      then show False using x(2) by simp
    qed
  qed (simp_all add: VFloat view_int_def view_dbl_def)
qed (use assms in \<open>auto simp: coerce_pk_def\<close>)

definition no_bool_keys :: "expr option \<Rightarrow> bool" where
  "no_bool_keys w \<longleftrightarrow> (\<forall>(nm, tab, v) \<in> set (find_equi_predicates (where_conjuncts w)). \<forall>b. v \<noteq> VBool b)"

lemma base_scan_ok:
  assumes T: "table_ok e m t rs" and np: "int (bt_npages (e_bt e)) < NO_PAGE"
    and ch: "choose_scan al m w = (kind, est)" and nb: "no_bool_keys w"
  shows "\<exists>Q. exec_scan (db_of e) \<lparr>sc_alias = al, sc_meta = m, sc_kind = kind\<rparr> = Inr (filter Q rs) \<and>
    (\<forall>r \<in> set rs. \<not> Q r \<longrightarrow> (\<exists>nm tab v j. (nm, tab, v) \<in> set (find_equi_predicates (where_conjuncts w)) \<and>
       column_matches nm tab al (colnames m) \<and> column_index m nm = Inr j \<and> \<not> has_value j v r))"
proof -
  let ?eqs = "find_equi_predicates (where_conjuncts w)"
  let ?si = "\<lparr>sc_alias = al, sc_meta = m, sc_kind = kind\<rparr>"
  from choose_scan_equi[OF ch] show ?thesis
  proof (elim disjE exE conjE)
    assume "kind = Scan_seq"
    then show ?thesis using scan_table_ok[OF T np] by (intro exI[of _ "\<lambda>_. True"]) (auto simp: exec_scan_def db_of_def)
  next
    fix nm tab v
    assume E: "(nm, tab, v) \<in> set ?eqs" "column_matches nm tab al (colnames m)"
      and k: "kind = Scan_index nm v" "nm \<in> fst ` set (indexes m)"
    have "nm \<in> set (colnames m)" using E(2) by (auto simp: column_matches_def split: option.splits)
    then obtain j where j: "column_index m nm = Inr j" using column_index_some by blast
    show ?thesis
      using index_lookup_ok[OF T np k(2) j, of v] E j k(1)
      by (intro exI[of _ "has_value j v"]) (auto simp: exec_scan_def db_of_def)
  next
    fix nm tab v
    assume E: "(nm, tab, v) \<in> set ?eqs" "column_matches nm tab al (colnames m)"
      and k: "kind = Scan_pk v" "pk_column m = Some nm"
    obtain j where j: "pk_index m = Some j" "column_index m nm = Inr j"
      using pk_column_index[OF k(2) table_okD(7)[OF T]] by blast
    have key: "snd r ! j = VInt (fst r)" if "r \<in> set rs" for r
      using table_okD(8)[OF T] j(1) that by (simp add: pk_rows_def)
    have nb: "v \<noteq> VBool b" for b using nb E(1) by (auto simp: no_bool_keys_def)
    have miss: "\<exists>nm tab v j. (nm, tab, v) \<in> set ?eqs \<and> column_matches nm tab al (colnames m) \<and>
        column_index m nm = Inr j \<and> \<not> has_value j v r" if "r \<in> set rs" "\<not> py_eq (VInt (fst r)) v" for r
      using E j(2) key[OF that(1)] that(2) by (intro exI[of _ nm] exI[of _ tab] exI[of _ v] exI[of _ j]) (auto simp: has_value_def)
    show ?thesis
    proof (cases "coerce_pk v")
      case (Inl x)
      then have "\<forall>r \<in> set rs. \<not> py_eq (VInt (fst r)) v" using pk_no_value[OF Inl nb] by blast
      then show ?thesis using k(1) Inl miss by (intro exI[of _ "\<lambda>_. False"]) (auto simp: exec_scan_def)
    next
      case (Inr key)
      have "v \<noteq> VNull" using Inr by (auto simp: coerce_pk_def)
      moreover have "\<not> py_eq (VInt (fst r)) v" if "fst r \<noteq> key" for r :: "int \<times> row" using pk_value[OF _ Inr] that by blast
      ultimately show ?thesis
        using k(1) Inr miss search_row_ok[OF T np, of key] lookup_filter[OF table_keys(3)[OF T], of key]
        by (intro exI[of _ "\<lambda>r. fst r = key"]) (auto simp: exec_scan_def db_of_def)
    qed
  qed
qed


section \<open>The statement\<close>

text \<open>The rows of the tables as the operations of the executor see them.\<close>

definition rows_db :: "(string \<Rightarrow> rowset) \<Rightarrow> db_ops" where
  "rows_db D = \<lparr>db_scan = (\<lambda>m. Inr (D (tname m))), db_index = (\<lambda>m c v. Inr []), db_search = (\<lambda>m k. Inr None)\<rparr>"

definition base_scope :: "select \<Rightarrow> table_meta \<Rightarrow> scope" where
  "base_scope sel m = \<lparr>sources = [(alias_or (s_alias sel) (s_table sel), m)], agg_aliases = []\<rparr>"

lemma plan_parts:
  assumes "build_select_plan lookup sel = Inr pl"
  obtains m kind est js where "lookup (s_table sel) = Inr m" "choose_scan (alias_or (s_alias sel) (s_table sel)) m (s_where sel) = (kind, est)"
    "p_scan pl = \<lparr>sc_alias = alias_or (s_alias sel) (s_table sel), sc_meta = m, sc_kind = kind\<rparr>"
    "plan_joins lookup (s_joins sel) [(alias_or (s_alias sel) (s_table sel), m)] est = Inr (p_joins pl)"
proof -
  let ?al = "alias_or (s_alias sel) (s_table sel)"
  obtain m where m: "lookup (s_table sel) = Inr m" using assms by (auto simp: build_select_plan_def)
  obtain kind est where ch: "choose_scan ?al m (s_where sel) = (kind, est)" by fastforce
  obtain js fs where js: "plan_joins lookup (s_joins sel) [(?al, m)] est = Inr js"
    and pl: "pl = \<lparr>p_scan = \<lparr>sc_alias = ?al, sc_meta = m, sc_kind = kind\<rparr>, p_joins = js, p_filters = fs\<rparr>"
    using assms m ch by (auto simp: build_select_plan_def Let_def)
  show thesis by (rule that[OF m ch]) (simp_all add: pl js)
qed

lemma run_joins_sources:
  "run_joins low db fs s js sc lefts = Inr (sc', rows) \<Longrightarrow>
   sources sc' = sources sc @ map (\<lambda>j. (j_alias j, j_meta j)) js"
proof (induction js arbitrary: s sc lefts)
  case (Cons j js)
  then obtain sc1 s' lefts' where "scope_add (j_alias j) (j_meta j) sc = Inr sc1"
    and rest: "run_joins low db fs s' js sc1 lefts' = Inr (sc', rows)" by auto
  then show ?case using Cons.IH[OF rest] scope_add_extend[of j sc sc1] by (auto simp: SelectSpec.extend_def)
qed simp

lemma stored_select:
  assumes R: "represents e T D" and np: "int (bt_npages (e_bt e)) < NO_PAGE"
    and plan: "build_select_plan (lookup_meta e) sel = Inr pl"
    and types: "\<forall>j \<in> set (s_joins sel). jc_type j = J_inner \<or> jc_type j = J_left"
    and nb: "no_bool_keys (s_where sel)"
    and run: "scan_filter_join low (db_of e) pl = Inr (sc, rows)"
    and comp: "\<forall>c \<in> set (where_conjuncts (s_where sel)). compiles low sc c"
  shows "mset rows = mset (filter (\<lambda>ps. \<forall>c \<in> set (where_conjuncts (s_where sel)). holds low sc c ps)
      (from_rows low (rows_db D) (p_joins pl) (base_scope sel (sc_meta (p_scan pl)))
        (map (\<lambda>r. [Some (snd r)]) (D (lower (s_table sel))))))"
proof -
  let ?al = "alias_or (s_alias sel) (s_table sel)" and ?M = "{m. \<exists>nm. catalog_get (e_cat e) nm = Inr m}"
  let ?db = "restrict_db ?M (db_of e)" and ?cs = "where_conjuncts (s_where sel)"
  obtain m kind est where P: "lookup_meta e (s_table sel) = Inr m" "choose_scan ?al m (s_where sel) = (kind, est)"
    "p_scan pl = \<lparr>sc_alias = ?al, sc_meta = m, sc_kind = kind\<rparr>"
    "plan_joins (lookup_meta e) (s_joins sel) [(?al, m)] est = Inr (p_joins pl)"
    by (rule plan_parts[OF plan])
  have m: "catalog_get (e_cat e) (s_table sel) = Inr m" using P(1) by (simp add: lookup_meta_def)
  note M = represents_table[OF R m]
  let ?rs = "D (lower (s_table sel))"
  have scan: "db_scan (db_of e) m' = Inr (D (tname m'))" "table_ok e m' (T (tname m')) (D (tname m'))" if mm: "m' \<in> ?M" for m'
  proof -
    obtain nm where nm: "catalog_get (e_cat e) nm = Inr m'" using mm by blast
    note N = represents_table[OF R nm]
    show "table_ok e m' (T (tname m')) (D (tname m'))" using N(1,3) by simp
    then show "db_scan (db_of e) m' = Inr (D (tname m'))" using scan_table_ok[OF _ np] by (force simp: db_of_def)
  qed
  have db: "db_ok ?db"
    using scan table_keys(3) table_width by (fastforce simp: db_ok_def restrict_db_def)
  have metas: "j_meta j \<in> ?M" if "j \<in> set (p_joins pl)" for j
    using plan_joins_metas[OF P(4) that] by (auto simp: lookup_meta_def)
  have jt: "\<forall>j \<in> set (p_joins pl). j_type j = J_inner \<or> j_type j = J_left"
    using types plan_joins_types[OF P(4)] by (metis (no_types, lifting) image_iff set_map)
  obtain Q where Q: "exec_scan (db_of e) (p_scan pl) = Inr (filter Q ?rs)"
    "\<And>r. r \<in> set ?rs \<Longrightarrow> \<not> Q r \<Longrightarrow> \<exists>nm tab v j. (nm, tab, v) \<in> set (find_equi_predicates ?cs) \<and>
       column_matches nm tab ?al (colnames m) \<and> column_index m nm = Inr j \<and> \<not> has_value j v r"
    using base_scan_ok[OF M(3) np P(2) nb] P(3) by metis
  have w: "length (snd r) = length (columns m)" if "r \<in> set ?rs" for r using table_width[OF M(3) that] .
  have agree: "\<forall>j \<in> set (p_joins pl). db_scan ?db (j_meta j) = db_scan (db_of e) (j_meta j)"
    using metas by (auto simp: restrict_db_def)
  have ps: "exec_scan ?db (p_scan pl) = exec_scan (db_of e) (p_scan pl)"
  proof -
    have "db_scan ?db m = db_scan (db_of e) m" "db_search ?db = db_search (db_of e)" "db_index ?db = db_index (db_of e)"
      using m by (auto simp: restrict_db_def)
    then show ?thesis by (intro exec_scan_cong) (simp_all add: P(3))
  qed
  have same: "scan_filter_join low ?db pl = scan_filter_join low (db_of e) pl" "exec_scan ?db (p_scan pl) = Inr (filter Q ?rs)"
    using run_joins_cong[OF agree] ps Q(1) by (simp_all add: scan_filter_join_def)
  have A: "mset rows = mset (filter (\<lambda>ps. \<forall>c \<in> set ?cs. holds low sc c ps)
      (from_rows low ?db (p_joins pl) (base_scope sel m) (map (\<lambda>r. [Some (snd r)]) (filter Q ?rs))))"
    using pushdown_rows[OF plan db types same(2) _ run[folded same(1)] comp] w P(3) by (simp add: base_scope_def)
  let ?js = "p_joins pl" and ?f = "\<lambda>r :: int \<times> row. [Some (snd r)]" and ?C = "\<lambda>ps. \<forall>c \<in> set ?cs. holds low sc c ps"
  define P where "P x \<longleftrightarrow> (case x of None \<Rightarrow> False | Some rw \<Rightarrow> \<forall>(nm, tab, v) \<in> set (find_equi_predicates ?cs).
      column_matches nm tab ?al (colnames m) \<longrightarrow> (\<exists>j. column_index m nm = Inr j \<and> rw ! j \<noteq> VNull \<and> py_eq (rw ! j) v))" for x
  have PQ: "Q r" if r: "r \<in> set ?rs" "P (Some (snd r))" for r
  proof (rule ccontr)
    assume "\<not> Q r"
    then obtain nm tab v j where "(nm, tab, v) \<in> set (find_equi_predicates ?cs)" "column_matches nm tab ?al (colnames m)"
      "column_index m nm = Inr j" "\<not> has_value j v r" using Q(2)[OF r(1)] by blast
    then show False using r(2) by (fastforce simp: P_def has_value_def)
  qed
  obtain rows0 where "run_joins low (db_of e) (p_filters pl) 1 ?js (base_scope sel m) rows0 = Inr (sc, rows)"
    using run Q(1) by (auto simp: scan_filter_join_def scope_add_def new_scope_def P(3) base_scope_def)
  from run_joins_sources[OF this] have srcs: "sources sc = (?al, m) # map (\<lambda>j. (j_alias j, j_meta j)) ?js"
    by (simp add: base_scope_def)
  have hold: "filter ?C (from_rows low db ?js sc0 (map ?f qs)) =
      filter ?C (from_rows low db ?js sc0 (map ?f (filter (\<lambda>r. P (Some (snd r))) qs)))" if sub: "set qs \<subseteq> set ?rs" for db sc0 qs
  proof -
    have ne: "\<forall>ps \<in> set (map ?f qs). ps \<noteq> []" by simp
    have "P (hd ps)" if ps: "ps \<in> set (from_rows low db ?js sc0 (map ?f qs))" "?C ps" for ps
    proof -
      obtain r where r: "r \<in> set ?rs" "hd ps = Some (snd r)" using from_rows_hd[OF jt ne ps(1)] sub by auto
      have "ps \<noteq> []" using from_rows_nonempty[OF jt ne] ps(1) by blast
      then have "ps = Some (snd r) # tl ps" using r(2) by (cases ps) auto
      then have "?C (Some (snd r) # tl ps)" using ps(2) by simp
      from holds_value[OF _ _ srcs comp this w[OF r(1)]] show ?thesis by (auto simp: P_def r(2))
    qed
    then have "filter ?C (from_rows low db ?js sc0 (map ?f qs)) =
        filter ?C (filter (\<lambda>ps. P (hd ps)) (from_rows low db ?js sc0 (map ?f qs)))"
      unfolding filter_filter by (intro filter_cong) auto
    also have "filter (\<lambda>ps. P (hd ps)) (from_rows low db ?js sc0 (map ?f qs)) =
        from_rows low db ?js sc0 (filter (\<lambda>ps. P (hd ps)) (map ?f qs))"
      by (rule from_rows_first[OF jt ne, symmetric])
    also have "filter (\<lambda>ps. P (hd ps)) (map ?f qs) = map ?f (filter (\<lambda>r. P (Some (snd r))) qs)"
      by (simp add: filter_map comp_def)
    finally show ?thesis .
  qed
  have "filter (\<lambda>r. P (Some (snd r))) (filter Q ?rs) = filter (\<lambda>r. P (Some (snd r))) ?rs"
    unfolding filter_filter by (rule filter_cong) (use PQ in auto)
  then have B: "filter ?C (from_rows low ?db ?js (base_scope sel m) (map ?f (filter Q ?rs))) =
      filter ?C (from_rows low ?db ?js (base_scope sel m) (map ?f ?rs))"
    using hold[of "filter Q ?rs" ?db "base_scope sel m"] hold[of ?rs ?db "base_scope sel m"] by auto
  have "\<forall>j \<in> set ?js. scanned ?db (j_meta j) = scanned (rows_db D) (j_meta j)"
    using metas scan(1) by (auto simp: scanned_def restrict_db_def rows_db_def)
  note eq = from_rows_cong[OF this]
  show ?thesis using A unfolding B unfolding eq by (simp only: P(3) scaninfo.select_convs)
qed

section \<open>Property\<close>

text \<open>C30. \<open>SELECT\<close> over stored tables whose joins are \<open>INNER\<close> and \<open>LEFT\<close>, once it returns rows: whatever the
  planner chooses, a sequential scan, a primary-key lookup or a secondary index for the first table,
  hash or nested-loop joins, conditions applied early, the rows that reach projection are those of the
  tables' \<open>FROM\<close> clause on which every conjunct of \<open>WHERE\<close> is true, read through trees, pages and indexes.
  Every conjunct compiles, and no equality has a truth value as its literal (no SQL text has one). With \<open>RIGHT\<close> and \<open>FULL\<close> joins
  a condition applied before the join is wrong: the statement does not hold for them.\<close>

theorem select_reads_tables:
  assumes "represents e T D" and "int (bt_npages (e_bt e)) < NO_PAGE"
    and "build_select_plan (lookup_meta e) sel = Inr pl"
    and "\<forall>j \<in> set (s_joins sel). jc_type j = J_inner \<or> jc_type j = J_left"
    and "no_bool_keys (s_where sel)" and "scan_filter_join low (db_of e) pl = Inr (sc, rows)"
    and "\<forall>c \<in> set (where_conjuncts (s_where sel)). compiles low sc c"
  shows "mset rows = mset (filter (\<lambda>ps. \<forall>c \<in> set (where_conjuncts (s_where sel)). holds low sc c ps)
      (from_rows low (rows_db D) (p_joins pl) (base_scope sel (sc_meta (p_scan pl)))
        (map (\<lambda>r. [Some (snd r)]) (D (lower (s_table sel))))))"
  by (rule stored_select[OF assms])

definition people_select :: select where
  "people_select = \<lparr>s_distinct = False, s_table = ''t'', s_alias = None, s_joins = [], s_where = Some people_where,
     s_items = [(Star, ''*'')], s_group = [], s_having = None, s_order = [], s_limit = None, s_offset = None\<rparr>"

lemma people_plan:
  assumes "lookup ''t'' = Inr (people\<lparr>root_page := p, next_rowid := n, row_count := c\<rparr>)"
  shows "build_select_plan lookup people_select = Inr \<lparr>p_scan = \<lparr>sc_alias = ''t'',
      sc_meta = people\<lparr>root_page := p, next_rowid := n, row_count := c\<rparr>, sc_kind = Scan_index ''v'' (VText [97])\<rparr>,
    p_joins = [], p_filters = [(0, people_where)]\<rparr>"
proof -
  have "stage_of [[(''t'', people\<lparr>root_page := p, next_rowid := n, row_count := c\<rparr>)]] people_where = 0"
    using stage_of_bound[of "[[(''t'', people\<lparr>root_page := p, next_rowid := n, row_count := c\<rparr>)]]" people_where] by simp
  then show ?thesis using assms
    by (simp add: build_select_plan_def people_select_def alias_or_def choose_scan_def people_def where_conjuncts_def
        colnames_def pk_column_def column_matches_def assign_filter_stages_def by_stage_def)
qed

lemma select_reads_tables_witness:
  "\<exists>e T D pl sc rows. represents e T D \<and> D ''t'' = people_rows \<and>
     build_select_plan (lookup_meta e) people_select = Inr pl \<and> sc_kind (p_scan pl) = Scan_index ''v'' (VText [97]) \<and>
     scan_filter_join id (db_of e) pl = Inr (sc, rows) \<and> rows = [[Some [VInt 7, VText [97]]]] \<and>
     mset rows = mset (filter (holds id sc people_where) (map (\<lambda>r. [Some (snd r)]) people_rows))"
proof -
  obtain s e t where f: "stored s 0 (PLeaf 1 [])" "bt_npages s = 2"
    "saved (insert_stmt ''t'' None people_insert) (people_db s) 2 e ((\<lambda>_. PLeaf 1 [])(''t'' := t)) ((\<lambda>_. [])(''t'' := people_rows))"
    "catalog_get (e_cat e) ''t'' = Inr (people\<lparr>root_page := proot t, next_rowid := 9, row_count := 2\<rparr>)"
    "int (bt_npages (e_bt e)) + 33 < NO_PAGE"
    by (rule people_filled) blast
  let ?T = "(\<lambda>_. PLeaf 1 [])(''t'' := t)" and ?D = "(\<lambda>_. [])(''t'' := people_rows)"
  let ?m = "people\<lparr>root_page := proot t, next_rowid := 9, row_count := 2\<rparr>"
  let ?pl = "\<lparr>p_scan = \<lparr>sc_alias = ''t'', sc_meta = ?m, sc_kind = Scan_index ''v'' (VText [97])\<rparr>,
    p_joins = [], p_filters = [(0, people_where)]\<rparr>"
  have R: "represents e ?T ?D" using f(3) by (simp add: saved_def)
  have np: "int (bt_npages (e_bt e)) < NO_PAGE" using f(5) by simp
  have pl: "build_select_plan (lookup_meta e) people_select = Inr ?pl" by (rule people_plan) (simp add: lookup_meta_def f(4))
  have v: "''v'' \<in> fst ` set (indexes ?m)" "column_index ?m ''v'' = Inr 1" by (simp_all add: people_def column_index_def colnames_def)
  have "filter (has_value 1 (VText [97])) (?D (lower ''t'')) = [(7, [VInt 7, VText [97]])]"
    by (simp add: people_rows_def has_value_def)
  then have scan: "exec_scan (db_of e) (p_scan ?pl) = Inr [(7, [VInt 7, VText [97]])]"
    using index_lookup_ok[OF represents_table(3)[OF R f(4)] np v, of "VText [97]"] by (auto simp: exec_scan_def db_of_def)
  let ?sc = "\<lparr>sources = [(''t'', ?m)], agg_aliases = []\<rparr>"
  have kept: "scan_filter_join id (db_of e) ?pl = Inr (?sc, [[Some [VInt 7, VText [97]]]])"
    using scan
    by (simp add: scan_filter_join_def scope_add_def new_scope_def apply_stage_def resolve_def people_def column_index_def
        colnames_def keep_true_def read_part_def nth_err_def binary_val_def sql_eq_def)
  have comp: "\<forall>c \<in> set (where_conjuncts (s_where people_select)). compiles id ?sc c"
    by (simp add: people_select_def where_conjuncts_def compiles_def resolve_def people_def column_index_def colnames_def)
  have "no_bool_keys (s_where people_select)" "\<forall>j \<in> set (s_joins people_select). jc_type j = J_inner \<or> jc_type j = J_left"
    by (simp_all add: no_bool_keys_def people_select_def where_conjuncts_def)
  from select_reads_tables[OF R np pl this(2,1) kept comp]
  have "mset [[Some [VInt 7, VText [97]]]] = mset (filter (\<lambda>ps. \<forall>c \<in> set (where_conjuncts (s_where people_select)). holds id ?sc c ps)
      (from_rows id (rows_db ?D) (p_joins ?pl) (base_scope people_select (sc_meta (p_scan ?pl)))
        (map (\<lambda>r. [Some (snd r)]) (?D (lower (s_table people_select))))))" .
  moreover have "s_table people_select = ''t''" "where_conjuncts (s_where people_select) = [people_where]"
    by (simp_all add: people_select_def where_conjuncts_def)
  ultimately show ?thesis using R pl kept
    by (intro exI[of _ e] exI[of _ ?T] exI[of _ ?D] exI[of _ ?pl] exI[of _ ?sc] exI[of _ "[[Some [VInt 7, VText [97]]]]"]) simp
qed

end
