(* ===== verification/ParserProps.thy ===== *)
theory ParserProps
  imports Parser
begin

text \<open>
  The parser terminates: every loop takes a token per round and every nested expression starts on a
  shorter list. \<open>costs k c p\<close> says that on fewer than \<open>k\<close> tokens \<open>p\<close> does not run out of fuel and that
  a result \<open>x\<close> took at least \<open>c x\<close> tokens.
\<close>

named_theorems costs_intros \<open>how many tokens a parser takes\<close>

definition costs :: "nat \<Rightarrow> ('a \<Rightarrow> nat) \<Rightarrow> 'a parser \<Rightarrow> bool" where
  "costs k c p \<longleftrightarrow>
     (\<forall>ts. length ts < k \<longrightarrow>
        (case p ts of (Inl e, us) \<Rightarrow> e \<noteq> OutOfFuel | (Inr x, us) \<Rightarrow> length us + c x \<le> length ts))"

lemma costsI:
  assumes "\<And>ts e us. length ts < k \<Longrightarrow> p ts = (Inl e, us) \<Longrightarrow> e \<noteq> OutOfFuel"
    and "\<And>ts x us. length ts < k \<Longrightarrow> p ts = (Inr x, us) \<Longrightarrow> length us + c x \<le> length ts"
  shows "costs k c p"
  using assms by (fastforce simp: costs_def split: prod.splits sum.splits)

lemma costsD:
  assumes "costs k c p" and "length ts < k"
  shows "p ts = (Inl e, us) \<Longrightarrow> e \<noteq> OutOfFuel" and "p ts = (Inr x, us) \<Longrightarrow> length us + c x \<le> length ts"
  using assms by (force simp: costs_def)+

lemma costs_weaken: "costs k c p \<Longrightarrow> l \<le> k \<Longrightarrow> (\<And>x. d x \<le> c x) \<Longrightarrow> costs l d p"
  by (rule costsI) (meson costsD le_trans add_le_mono order_refl less_le_trans)+

lemma costs_bind [costs_intros]:
  assumes "costs k c p" and "\<And>x. costs (k - c x) (\<lambda>y. d y - c x) (f x)"
  shows "costs k d (bindP p f)"
proof (rule costsI)
  fix ts e us assume l: "length ts < k" and r: "bindP p f ts = (Inl e, us)"
  show "e \<noteq> OutOfFuel"
  proof (cases "fst (p ts)")
    case (Inl e')
    then show ?thesis using r costsD(1)[OF assms(1) l] by (cases "p ts") auto
  next
    case (Inr x)
    then obtain vs where x: "p ts = (Inr x, vs)" by (cases "p ts") auto
    have "length vs + c x \<le> length ts" using costsD(2)[OF assms(1) l x] .
    then have "length vs < k - c x" using l by simp
    from costsD(1)[OF assms(2) this] show ?thesis using r x by simp
  qed
next
  fix ts y us assume l: "length ts < k" and r: "bindP p f ts = (Inr y, us)"
  obtain x vs where x: "p ts = (Inr x, vs)" "f x vs = (Inr y, us)" using r by (rule bindP_InrE)
  have v: "length vs + c x \<le> length ts" using costsD(2)[OF assms(1) l x(1)] .
  then have "length vs < k - c x" using l by simp
  from costsD(2)[OF assms(2) this x(2)] show "length us + d y \<le> length ts" using v by simp
qed

lemma costs_ret [costs_intros]: "c x = 0 \<Longrightarrow> costs k c (ret x)"
  by (rule costsI) auto

lemma costs_raise [costs_intros]: "e \<noteq> OutOfFuel \<Longrightarrow> costs k c (raise e)"
  by (rule costsI) auto

lemma advance_le: "length (advance ts) \<le> length ts"
  by (auto simp: advance_def split: list.splits)

lemma advance_less: "peek ts \<noteq> T_eof \<Longrightarrow> length (advance ts) < length ts"
  by (auto simp: advance_def peek_def split: list.splits)

lemma not_eof [simp]:
  "\<not> is_kw ks T_eof" "\<not> is_op ps T_eof" "\<not> is_ident T_eof" "\<not> name_like T_eof"
  by (simp_all add: name_like_def)

lemma takes_one: "P (peek ts) \<Longrightarrow> \<not> P T_eof \<Longrightarrow> length (advance ts) < length ts"
  by (rule advance_less) auto

lemma costs_accept [costs_intros]:
  "\<not> P T_eof \<Longrightarrow> costs k (\<lambda>b. if b then Suc 0 else 0) (accept P)"
  by (rule costsI) (auto simp: accept_def dest: takes_one split: if_splits)

lemma costs_expect [costs_intros]: "\<not> P T_eof \<Longrightarrow> costs k (\<lambda>_. Suc 0) (expect P)"
  by (rule costsI) (auto simp: expect_def dest: takes_one split: if_splits)

lemma costs_ident [costs_intros]: "costs k (\<lambda>_. Suc 0) expect_ident"
  by (rule costsI) (auto simp: expect_ident_def dest: takes_one[where P = name_like] split: if_splits)

lemma costs_operator [costs_intros]:
  "f T_eof = None \<Longrightarrow> costs k (\<lambda>b. if b = None then 0 else Suc 0) (operator f)"
  using takes_one[where P = "\<lambda>t. f t \<noteq> None"]
  by (intro costsI) (fastforce simp: operator_def Suc_le_eq split: option.splits)+

lemma costs_many:
  assumes "costs k (\<lambda>x. if x = None then 0 else Suc 0) p"
  shows "costs k (\<lambda>_. 0) (many p)"
proof -
  have "case many p ts of (Inl e, us) \<Rightarrow> e \<noteq> OutOfFuel | (Inr xs, us) \<Rightarrow> length us \<le> length ts"
    if "length ts < k" for ts
    using that
  proof (induction "length ts" arbitrary: ts rule: less_induct)
    case less
    note D = costsD[OF assms less.prems]
    show ?case
    proof (cases "p ts")
      case (Pair r us)
      show ?thesis
      proof (cases r)
        case (Inl e)
        then show ?thesis using Pair D(1) by (simp add: many.simps)
      next
        case (Inr o')
        show ?thesis
        proof (cases o')
          case None
          then show ?thesis using Pair Inr D(2)[of o' us] by (simp add: many.simps)
        next
          case (Some x)
          then have us: "length us < length ts" using Pair Inr D(2)[of o' us] by simp
          with less.prems have I: "case many p us of (Inl e, us) \<Rightarrow> e \<noteq> OutOfFuel | (Inr xs, vs) \<Rightarrow> length vs \<le> length us"
            by (intro less.hyps) auto
          show ?thesis
            using Pair Inr Some us I by (subst many.simps) (auto split: prod.splits sum.splits)
        qed
      qed
    qed
  qed
  then show ?thesis unfolding costs_def add_0_right by blast
qed

lemmas costs_many' [costs_intros] = costs_weaken[OF costs_many order_refl]

lemma costs_if [costs_intros]:
  "(b \<Longrightarrow> costs k c p) \<Longrightarrow> (\<not> b \<Longrightarrow> costs k c q) \<Longrightarrow> costs k c (if b then p else q)"
  by simp

lemma costs_option [costs_intros]:
  "(x = None \<Longrightarrow> costs k c p) \<Longrightarrow> (\<And>y. x = Some y \<Longrightarrow> costs k c (q y)) \<Longrightarrow>
   costs k c (case x of None \<Rightarrow> p | Some y \<Rightarrow> q y)"
  by (cases x) auto

section \<open>Loops and keywords\<close>

lemma costs_tokens [costs_intros]:
  "costs k (\<lambda>b. if b then Suc 0 else 0) (accept_kw w)" "costs k (\<lambda>b. if b then Suc 0 else 0) (accept_op w)"
  "costs k (\<lambda>_. Suc 0) (expect_kw w)" "costs k (\<lambda>_. Suc 0) (expect_op w)"
  by (simp_all add: accept_kw_def accept_op_def expect_kw_def expect_op_def costs_intros)

lemma costs_comma_list:
  assumes "costs k (\<lambda>_. Suc 0) p"
  shows "costs k (\<lambda>_. Suc 0) (comma_list p)"
proof -
  have p: "costs l (\<lambda>_. 0) p" "costs l (\<lambda>_. Suc 0) p" if "l \<le> k" for l
    using costs_weaken[OF assms that] by auto
  have step: "costs l (\<lambda>x. if x = None then 0 else Suc 0) (after_comma p)" if "l \<le> k" for l
    unfolding after_comma_def
    by (rule costs_bind[OF costs_tokens(2)]) (auto intro!: costs_bind[OF p(1)] costs_ret le_trans[OF diff_le_self that] that)
  show ?thesis
    unfolding comma_list_def
    by (rule costs_bind[OF assms]) (auto intro!: costs_bind[OF costs_many] costs_ret step)
qed

lemma costs_chain:
  assumes "costs k (\<lambda>_. Suc 0) p" and "f T_eof = None"
  shows "costs k (\<lambda>_. Suc 0) (chain f p)"
proof -
  have p: "costs l (\<lambda>_. 0) p" if "l \<le> k" for l using costs_weaken[OF assms(1) that] by auto
  have step: "costs l (\<lambda>x. if x = None then 0 else Suc 0) (operand f p)" if "l \<le> k" for l
    unfolding operand_def
    by (rule costs_bind[OF costs_operator[of f, OF assms(2)]])
      (auto intro!: costs_bind[OF p] costs_ret le_trans[OF diff_le_self that] that split: option.split)
  show ?thesis
    unfolding chain_def
    by (rule costs_bind[OF assms(1)]) (auto intro!: costs_bind[OF costs_many] costs_ret step)
qed

text \<open>The result of a run on one list, for the parsers that look before they take.\<close>

definition run_ok :: "('a \<Rightarrow> nat) \<Rightarrow> token list \<Rightarrow> 'a res \<times> token list \<Rightarrow> bool" where
  "run_ok c ts r \<longleftrightarrow> (case r of (Inl e, us) \<Rightarrow> e \<noteq> OutOfFuel | (Inr x, us) \<Rightarrow> length us + c x \<le> length ts)"

lemma costs_run: "costs k c p \<longleftrightarrow> (\<forall>ts. length ts < k \<longrightarrow> run_ok c ts (p ts))"
  by (simp add: costs_def run_ok_def)

lemma run_ok_shorter:
  assumes "costs l c p" and "length us < length ts" and "length ts \<le> l" and "\<And>x. d x \<le> Suc (c x)"
  shows "run_ok d ts (p us)"
proof -
  have "length us < l" using assms(2,3) by simp
  then have "run_ok c us (p us)" using assms(1) by (simp add: costs_run)
  then show ?thesis
    using assms(2,4) by (fastforce simp: run_ok_def split: prod.splits sum.splits intro: le_trans[OF add_left_mono])
qed

section \<open>Expressions\<close>

lemma costs_func:
  assumes "costs k (\<lambda>_. Suc 0) p" and "length ts \<le> k" and "agg_call ts"
  shows "run_ok (\<lambda>_. Suc 0) ts (parse_func p ts)"
proof -
  define us where "us = advance (advance ts)"
  have "length (advance ts) < length ts" using assms(3) by (auto simp: agg_call_def intro: takes_one[where P = "is_kw AGGREGATES"])
  then have us: "length us < length ts" using advance_le[of "advance ts"] by (simp add: us_def)
  have us': "length (advance us) < length ts" using us advance_le[of us] by simp
  have p: "costs l (\<lambda>_. 0) p" if "l \<le> k" for l using costs_weaken[OF assms(1) that] by auto
  have A: "costs k (\<lambda>_. 0) (bindP (expect_op '')'') (\<lambda>_. ret x))" for x :: expr
    by (auto intro!: costs_bind[OF costs_tokens(4)] costs_ret)
  have B: "costs k (\<lambda>_. 0) (bindP (accept_kw ''DISTINCT'') (\<lambda>d. bindP p (\<lambda>arg.
      bindP (expect_op '')'') (\<lambda>_. ret (F d arg)))))" for F :: "bool \<Rightarrow> expr \<Rightarrow> expr"
    by (rule costs_bind[OF costs_tokens(1)], rule costs_bind[OF p], simp)
      (auto intro!: costs_bind[OF costs_tokens(4)] costs_ret)
  show ?thesis
    unfolding parse_func_def Let_def us_def[symmetric]
    using run_ok_shorter[OF A us' assms(2)] run_ok_shorter[OF B us assms(2)] by simp
qed

lemma costs_primary:
  assumes "costs (k - 1) (\<lambda>_. Suc 0) p"
  shows "costs k (\<lambda>_. Suc 0) (parse_primary p)"
  unfolding costs_run
proof (intro allI impI)
  fix ts :: "token list" assume l: "length ts < k"
  have lk: "length ts \<le> k - 1" using l by simp
  have adv: "length (advance ts) < length ts" if "peek ts \<noteq> T_eof" using advance_less[OF that] .
  have one: "run_ok (\<lambda>_. Suc 0) ts (Inr e, advance ts)" if "peek ts \<noteq> T_eof" for e :: expr
    using adv[OF that] by (simp add: run_ok_def)
  have nm: "run_ok (\<lambda>_. Suc 0) ts (parse_name ts)" if "peek ts \<noteq> T_eof"
    using adv[OF that] advance_le[of "advance ts"] advance_le[of "advance (advance ts)"]
    by (auto simp: parse_name_def Let_def run_ok_def)
  have p: "costs (k - 1) (\<lambda>_. 0) p" using costs_weaken[OF assms order_refl] by auto
  have "costs (k - 1) (\<lambda>_. 0) (bindP p (\<lambda>e. bindP (expect_op '')'') (\<lambda>_. ret e)))"
    by (rule costs_bind[OF p]) (auto intro!: costs_bind[OF costs_tokens(4)] costs_ret)
  then have par: "run_ok (\<lambda>_. Suc 0) ts (bindP p (\<lambda>e. bindP (expect_op '')'') (\<lambda>_. ret e)) (advance ts))"
    if "peek ts \<noteq> T_eof"
    by (rule run_ok_shorter[OF _ adv[OF that] lk]) simp
  have err: "run_ok (\<lambda>_ :: expr. Suc 0) ts (Inl ParseError, ts)" by (simp add: run_ok_def)
  show "run_ok (\<lambda>_. Suc 0) ts (parse_primary p ts)"
    using one nm par err costs_func[OF assms lk]
    by (cases "peek ts") (simp_all add: parse_primary_def)
qed

lemma costs_unary:
  assumes "costs (k - 1) (\<lambda>_. Suc 0) p"
  shows "costs k (\<lambda>_. Suc 0) (parse_unary p)"
proof -
  note P = costs_primary[OF assms, unfolded costs_run]
  have "length ts < k \<longrightarrow> run_ok (\<lambda>_. Suc 0) ts (parse_unary p ts)" for ts
    by (induction ts) (use P in \<open>auto simp: run_ok_def bindP_app split: prod.splits sum.splits\<close>)
  then show ?thesis by (simp add: costs_run)
qed

lemma costs_additive:
  assumes "costs (k - 1) (\<lambda>_. Suc 0) p"
  shows "costs k (\<lambda>_. Suc 0) (parse_additive p)"
  unfolding parse_additive_def parse_multiplicative_def
  by (intro costs_chain costs_unary assms) simp_all

lemma costs_predicate:
  assumes "costs (k - 1) (\<lambda>_. Suc 0) p"
  shows "costs k (\<lambda>_. Suc 0) (parse_predicate p)"
proof -
  have q: "costs k (\<lambda>_. Suc 0) (parse_additive p)" by (rule costs_additive[OF assms])
  have q0: "costs l (\<lambda>_. 0) (parse_additive p)" if "l \<le> k" for l using costs_weaken[OF q that] by auto
  have qs: "costs l (\<lambda>_. 0) (comma_list (parse_additive p))" if "l \<le> k" for l
    using costs_weaken[OF costs_comma_list[OF q] that] by auto
  show ?thesis
    unfolding parse_predicate_def predicate_rest_def after_not_def
    by (rule costs_bind[OF q])
      (auto intro!: costs_bind[OF costs_tokens(1)] costs_bind[OF costs_tokens(3)] costs_bind[OF costs_tokens(4)]
        costs_bind[OF q0] costs_bind[OF qs] costs_bind[OF costs_operator] costs_ret costs_raise costs_option costs_if)
qed

lemma costs_not:
  assumes "costs (k - 1) (\<lambda>_. Suc 0) p"
  shows "costs k (\<lambda>_. Suc 0) (parse_not p)"
proof -
  note P = costs_predicate[OF assms, unfolded costs_run]
  have "length ts < k \<longrightarrow> run_ok (\<lambda>_. Suc 0) ts (parse_not p ts)" for ts
    by (induction ts) (use P in \<open>auto simp: run_ok_def bindP_app split: prod.splits sum.splits\<close>)
  then show ?thesis by (simp add: costs_run)
qed

lemma costs_nested: "costs n (\<lambda>_. Suc 0) (nested n)"
proof (induction n)
  case 0
  then show ?case by (simp add: costs_def)
next
  case (Suc n)
  have "costs (Suc n) (\<lambda>_. Suc 0) (parse_or (nested n))"
    unfolding parse_or_def parse_and_def
    by (intro costs_chain costs_not) (simp_all add: Suc or_op_def and_op_def)
  then show ?case by simp
qed

lemma costs_expression [costs_intros]: "costs k (\<lambda>_. Suc 0) parse_expression"
proof (rule costsI)
  fix ts e us assume "parse_expression ts = (Inl e, us)"
  then show "e \<noteq> OutOfFuel" using costsD(1)[OF costs_nested lessI] unfolding parse_expression_def by blast
next
  fix ts e us assume "parse_expression ts = (Inr e, us)"
  then show "length us + Suc 0 \<le> length ts" using costsD(2)[OF costs_nested lessI] unfolding parse_expression_def by blast
qed

section \<open>Statements\<close>

lemma costs_peek:
  assumes "\<not> P T_eof" and "\<And>t. costs k c (q t)" and "\<And>x. d x \<le> Suc (c x)" and "costs k d r"
  shows "costs k d (\<lambda>ts. if P (peek ts) then q (peek ts) (advance ts) else r ts)"
  unfolding costs_run
proof (intro allI impI)
  fix ts :: "token list" assume l: "length ts < k"
  show "run_ok d ts (if P (peek ts) then q (peek ts) (advance ts) else r ts)"
  proof (cases "P (peek ts)")
    case True
    have "run_ok d ts (q (peek ts) (advance ts))"
      by (rule run_ok_shorter[OF assms(2) takes_one[OF True assms(1)] less_imp_le[OF l] assms(3)])
    then show ?thesis using True by simp
  next
    case False
    then show ?thesis using assms(4) l by (simp add: costs_run)
  qed
qed

lemma costs_pure [costs_intros]: "c x = 0 \<Longrightarrow> costs k c (\<lambda>ts. (Inr x, ts))"
  "e \<noteq> OutOfFuel \<Longrightarrow> costs k c (\<lambda>ts. (Inl e, ts))"
  by (rule costsI; auto)+

lemma costs_alias [costs_intros]: "costs k (\<lambda>_. 0) parse_alias"
  unfolding parse_alias_def
  by (rule costs_bind[OF costs_tokens(1)])
    (auto intro!: costs_bind[OF costs_ident] costs_ret costs_peek[where P = is_ident] costs_pure)

lemma costs_clause:
  assumes "\<And>l. l \<le> k \<Longrightarrow> costs l (\<lambda>_. 0) p"
  shows "costs k (\<lambda>_. 0) (clause w p)"
  unfolding clause_def by (rule costs_bind[OF costs_tokens(1)]) (auto intro!: costs_bind[OF assms] costs_ret)


lemma costs_weak0: "costs k (\<lambda>_. Suc 0) p \<Longrightarrow> l \<le> k \<Longrightarrow> costs l (\<lambda>_. 0) p"
  by (rule costs_weaken) auto

lemmas costs_expression0 = costs_weak0[OF costs_expression order_refl]
lemmas costs_steps = costs_bind[OF costs_tokens(1)] costs_bind[OF costs_tokens(2)] costs_bind[OF costs_tokens(3)]
  costs_bind[OF costs_tokens(4)] costs_bind[OF costs_ident] costs_bind[OF costs_expression]
  costs_bind[OF costs_alias] costs_bind[OF costs_clause]

lemma costs_item: "costs k (\<lambda>_. Suc 0) (parse_item sql)"
proof -
  have a: "costs k (\<lambda>_. Suc 0) (bindP parse_expression (\<lambda>e. bindP parse_alias (\<lambda>al. ret (e, f e al))))"
    for f :: "expr \<Rightarrow> string option \<Rightarrow> string"
    by (auto intro!: costs_steps costs_ret)
  have "costs k (\<lambda>_. Suc 0) (bindP parse_expression (\<lambda>e us. bindP parse_alias (\<lambda>al. ret (e, f e al us)) us))"
    for f :: "expr \<Rightarrow> string option \<Rightarrow> token list \<Rightarrow> string"
  proof (rule costs_bind[OF costs_expression])
    fix e
    have "costs l (\<lambda>_. 0) (bindP parse_alias (\<lambda>al. ret (e, f e al us)))" for us l
      by (auto intro!: costs_steps costs_ret)
    then show "costs (k - Suc 0) (\<lambda>y. Suc 0 - Suc 0) (\<lambda>us. bindP parse_alias (\<lambda>al. ret (e, f e al us)) us)"
      by (simp add: costs_def)
  qed
  note b = this
  show ?thesis
    unfolding costs_run
  proof (intro allI impI)
    fix ts :: "token list" assume l: "length ts < k"
    let ?f = "\<lambda>(e :: expr) al us. case al of Some l \<Rightarrow> l | None \<Rightarrow> text_slice sql (ts ! 0) (ts ! (length ts - length us - 1))"
    show "run_ok (\<lambda>_. Suc 0) ts (parse_item sql ts)"
      using a[of "\<lambda>e al. case al of Some l \<Rightarrow> l | None \<Rightarrow> default_label e", unfolded costs_run]
        b[of ?f, unfolded costs_run] l takes_one[of "is_op [''*'']" ts]
      by (auto simp: parse_item_def run_ok_def[of _ ts "(Inr _, _)"] simp del: bindP_Inr bindP_Inl)
  qed
qed

lemma costs_join_word: "costs k (\<lambda>x. if x = None then 0 else Suc 0) join_word"
proof -
  have "costs k (\<lambda>_. 0) (bindP (accept_kw ''OUTER'') (\<lambda>_. bindP (expect_kw ''JOIN'') (\<lambda>_. ret (Some j))))"
    for j :: jointype
    by (auto intro!: costs_steps costs_ret)
  then have "costs k (\<lambda>x. if x = None then 0 else Suc 0)
      (\<lambda>ts. if is_kw [''INNER'', ''LEFT'', ''RIGHT'', ''FULL''] (peek ts) then
        bindP (accept_kw ''OUTER'') (\<lambda>_. bindP (expect_kw ''JOIN'') (\<lambda>_.
        ret (Some (join_type (word_of (peek ts)))))) (advance ts)
        else (\<lambda>ts. if is_kw [''JOIN''] (peek ts) then (\<lambda>us. (Inr (Some J_inner), us)) (advance ts) else (Inr None, ts)) ts)"
    by (intro costs_peek[where q = "\<lambda>t. bindP (accept_kw ''OUTER'') (\<lambda>_. bindP (expect_kw ''JOIN'') (\<lambda>_. ret (Some (join_type (word_of t)))))"]
          costs_peek[where q = "\<lambda>t us. (Inr (Some J_inner), us)" and c = "\<lambda>_. 0"] costs_pure) auto
  then show ?thesis by (simp add: join_word_def[abs_def])
qed

lemma costs_join: "costs k (\<lambda>x. if x = None then 0 else Suc 0) parse_join_opt"
  unfolding parse_join_opt_def
  by (rule costs_bind[OF costs_join_word]) (auto intro!: costs_steps costs_ret split: option.split)

lemma costs_int: "costs k (\<lambda>_. Suc 0) expect_int"
  by (rule costsI)
    (auto simp: expect_int_def Suc_le_eq split: tok.splits val.splits if_splits intro: advance_less)

lemma costs_limit: "costs k (\<lambda>_. 0) parse_limit"
  unfolding parse_limit_def
  by (auto intro!: costs_bind[OF costs_clause] costs_weak0[OF costs_int] costs_ret)

lemma costs_order_item: "costs k (\<lambda>_. Suc 0) parse_order_item"
  unfolding parse_order_item_def by (auto intro!: costs_steps costs_ret)

lemma costs_select: "costs k (\<lambda>_. Suc 0) (parse_select sql)"
proof -
  have l: "costs k (\<lambda>_. 0) (comma_list parse_expression)" "costs k (\<lambda>_. 0) (comma_list parse_order_item)"
    "costs k (\<lambda>_. 0) (comma_list (parse_item sql))" for k
    by (auto intro!: costs_weak0[OF costs_comma_list] costs_expression costs_order_item costs_item)
  show ?thesis
    unfolding parse_select_def
    by (auto intro!: costs_steps costs_bind[OF l(3)] costs_bind[OF costs_many] costs_bind[OF costs_limit]
        costs_join costs_expression0 l costs_ret)
qed

lemma costs_parens:
  assumes "\<And>l. l \<le> k \<Longrightarrow> costs l (\<lambda>_. 0) p"
  shows "costs k (\<lambda>_. Suc 0) (in_parens p)"
  unfolding in_parens_def by (auto intro!: costs_steps costs_bind[OF assms] costs_ret)

lemma costs_names: "costs k (\<lambda>_. 0) (comma_list expect_ident)"
  by (rule costs_weak0[OF costs_comma_list[OF costs_ident] order_refl])

lemma costs_insert: "costs k (\<lambda>_. Suc 0) parse_insert"
proof -
  have cols: "costs k (\<lambda>_. 0)
      (\<lambda>ts. if is_op [''(''] (peek ts) then bindP (in_parens (comma_list expect_ident)) (\<lambda>cs. ret (Some cs)) ts
            else (Inr None, ts))" for k
    using costs_bind[OF costs_weak0[OF costs_parens[OF costs_names] order_refl], where d = "\<lambda>_. 0" and f = "\<lambda>cs. ret (Some cs)" and k = k]
    by (auto simp: costs_def)
  have rws: "costs k (\<lambda>_. 0) (comma_list (in_parens (comma_list parse_expression)))" for k
    by (auto intro!: costs_weak0[OF costs_comma_list] costs_parens costs_weak0[OF costs_comma_list] costs_expression)
  show ?thesis
    unfolding parse_insert_def by (auto intro!: costs_steps costs_bind[OF cols] costs_bind[OF rws] costs_ret)
qed

lemma costs_type: "costs k (\<lambda>_. Suc 0) parse_type"
  by (rule costsI) (auto simp: parse_type_def Suc_le_eq split: if_splits intro: takes_one[where P = "is_kw [''INT'', ''FLOAT'', ''TEXT'']"])

lemma costs_column: "costs k (\<lambda>_. Suc 0) parse_column"
  unfolding parse_column_def
  by (auto intro!: costs_steps costs_bind[OF costs_weak0[OF costs_type order_refl]] costs_bind[OF costs_ret] costs_ret)

lemma costs_create: "costs k (\<lambda>_. Suc 0) parse_create"
proof -
  have cols: "costs k (\<lambda>_. 0) (in_parens (comma_list parse_column))"
    and col: "costs k (\<lambda>_. 0) (in_parens expect_ident)" for k
    by (auto intro!: costs_weak0[OF costs_parens] costs_weak0[OF costs_comma_list] costs_column costs_weak0[OF costs_ident])
  show ?thesis
    unfolding parse_create_def
    by (auto intro!: costs_steps costs_bind[OF cols] costs_bind[OF col] costs_ret costs_raise)
qed

lemma costs_delete: "costs k (\<lambda>_. Suc 0) parse_delete"
  unfolding parse_delete_def by (auto intro!: costs_steps costs_expression0 costs_ret)

lemma costs_update: "costs k (\<lambda>_. Suc 0) parse_update"
proof -
  have one: "costs k (\<lambda>_. Suc 0) parse_assignment" for k
    unfolding parse_assignment_def by (auto intro!: costs_steps costs_bind[OF costs_expression0] costs_ret)
  have as: "costs k (\<lambda>_. 0) (comma_list parse_assignment)" for k
    by (rule costs_weak0[OF costs_comma_list[OF one] order_refl])
  show ?thesis
    unfolding parse_update_def by (auto intro!: costs_steps costs_bind[OF as] costs_expression0 costs_ret)
qed

lemma costs_drop: "costs k (\<lambda>_. 0) parse_drop"
  unfolding parse_drop_def by (auto intro!: costs_steps costs_ret costs_raise)

lemma costs_stmt: "costs k (\<lambda>_. Suc 0) (parse_stmt sql)"
proof -
  have sel: "costs k (\<lambda>_. Suc 0) (bindP (parse_select sql) (\<lambda>s. ret (S_select s)))"
    by (auto intro!: costs_bind[OF costs_select] costs_ret)
  note C = sel costs_insert[of k] costs_create[of k] costs_delete[of k] costs_update[of k]
  have "length ts < k \<longrightarrow> run_ok (\<lambda>_. Suc 0) ts (parse_stmt sql ts)" for ts
  proof (induction ts)
    case Nil
    then show ?case by (simp add: run_ok_def)
  next
    case (Cons t ts)
    show ?case
    proof
      assume l: "length (t # ts) < k"
      have drop: "run_ok (\<lambda>_. Suc 0) (t # ts) (parse_drop ts)"
        by (rule run_ok_shorter[OF costs_drop[of k]]) (use l in auto)
      have one: "run_ok (\<lambda>_. Suc 0) (t # ts) (Inr st, ts)" for st :: stmt by (simp add: run_ok_def)
      have err: "run_ok (\<lambda>_ :: stmt. Suc 0) (t # ts) (Inl ParseError, us)" for us by (simp add: run_ok_def)
      have ex: "run_ok (\<lambda>_. Suc 0) (t # ts)
          (bindP (\<lambda>_. parse_stmt sql ts) (\<lambda>inner. if is_explain inner then raise ParseError else ret (S_explain inner)) ts)"
        using Cons l by (auto simp: run_ok_def bindP_app split: prod.splits sum.splits)
      show "run_ok (\<lambda>_. Suc 0) (t # ts) (parse_stmt sql (t # ts))"
        using C l drop one err ex by (simp only: parse_stmt.simps costs_run split: if_split) simp
    qed
  qed
  then show ?thesis by (simp add: costs_run)
qed

lemma costs_skip: "costs k (\<lambda>x. if x = None then 0 else Suc 0) skip_semicolon"
  unfolding skip_semicolon_def by (rule costs_bind[OF costs_tokens(2)]) (auto intro!: costs_ret)

lemma costs_script_step: "costs k (\<lambda>x. if x = None then 0 else Suc 0) (script_step sql)"
proof -
  have a: "costs k (\<lambda>_. 0) (\<lambda>us. if b \<or> peek us = T_eof then (Inr (Some st), us) else (Inl ParseError, us))"
    for b k and st :: stmt
    by (rule costsI) (auto split: if_splits)
  have st: "costs k (\<lambda>x. if x = None then 0 else Suc 0) (bindP (parse_stmt sql) (\<lambda>st. bindP (accept_op '';'') (\<lambda>b us.
       if b \<or> peek us = T_eof then (Inr (Some st), us) else (Inl ParseError, us))))" for k
    by (rule costs_bind[OF costs_stmt]) (auto intro!: costs_steps costs_weaken[OF a] split: if_splits)
  have "costs k (\<lambda>x. if x = None then 0 else Suc 0) (\<lambda>ts. if peek ts = T_eof then (Inr None, ts) else
     bindP (parse_stmt sql) (\<lambda>st. bindP (accept_op '';'') (\<lambda>b us.
       if b \<or> peek us = T_eof then (Inr (Some st), us) else (Inl ParseError, us))) ts)" for k
    using st[of k] by (auto simp: costs_run run_ok_def)
  then show ?thesis
    unfolding script_step_def by (intro costs_bind[OF costs_many[OF costs_skip]]) simp
qed

section \<open>Termination\<close>

lemma lex1_no_fuel: "lex1 zs c cs \<noteq> Inl OutOfFuel"
  by (auto simp: lex1_def lex_number_def lex_op_def int_lit_def Let_def split: option.splits)

lemma tokenize_no_fuel: "tokenize zs sql \<noteq> Inl OutOfFuel"
proof -
  have "tokens_from zs p s \<noteq> Inl OutOfFuel" for p s
    by (induction zs p s rule: tokens_from.induct)
      (use lex1_no_fuel in \<open>auto simp: Let_def bindE_def split: sum.splits, blast\<close>)
  then show ?thesis by (simp add: tokenize_def)
qed

text \<open>
  C24. Parsing terminates: on every text, a statement or a script is parsed to a value or ends in one of
  the code's exceptions, whatever the nesting. No loop of the parser goes round without taking
  a token, and the levels of nested expressions never exceed the number of tokens left.
\<close>

theorem parsing_terminates:
  "parse_statement zs sql \<noteq> Inl OutOfFuel \<and> parse_script zs sql \<noteq> Inl OutOfFuel"
proof
  show "parse_script zs sql \<noteq> Inl OutOfFuel"
    using tokenize_no_fuel[of zs sql] costsD(1)[OF costs_many[OF costs_script_step] lessI]
    by (auto simp: parse_script_def bindE_def prod_eq_iff split: sum.splits)
  have a: "costs k (\<lambda>_. 0) (\<lambda>us. if peek us = T_eof then (Inr st, us) else (Inl ParseError, us))"
    for k and st :: stmt
    by (rule costsI) (auto split: if_splits)
  have "costs k (\<lambda>_. 0) (bindP (parse_stmt sql) (\<lambda>st. bindP (accept_op '';'') (\<lambda>_ us.
       if peek us = T_eof then (Inr st, us) else (Inl ParseError, us))))" for k
    by (rule costs_bind[OF costs_stmt]) (auto intro!: costs_steps costs_weaken[OF a])
  from costsD(1)[OF this lessI] show "parse_statement zs sql \<noteq> Inl OutOfFuel"
    using tokenize_no_fuel[of zs sql]
    by (auto simp: parse_statement_def bindE_def prod_eq_iff split: sum.splits)
qed

end
