(* ===== verification/Printer.thy ===== *)
theory Printer
  imports ParserProps
begin

text \<open>
  A printer for statements, with parentheses only where the grammar needs them, and the proof that the
  parser reads back what it prints. \<open>goes p ks rk q\<close> says that \<open>p\<close>, on tokens of the kinds \<open>ks\<close>
  followed by tokens of the kinds \<open>rk\<close>, does what \<open>q\<close> does on the latter.
\<close>

section \<open>Printing expressions\<close>

text \<open>The levels of the grammar: \<open>OR\<close>, \<open>AND\<close>, \<open>NOT\<close>, predicate, sum, product, sign, primary.\<close>

fun level_of :: "binop \<Rightarrow> nat" where
  "level_of B_or = 0"
| "level_of B_and = 1"
| "level_of (B_arith g) = (if g = Add \<or> g = Sub then 4 else 5)"
| "level_of _ = 3"

fun level :: "expr \<Rightarrow> nat" where
  "level (BinOp g a b) = level_of g"
| "level (UnaryOp u e) = (case u of U_not \<Rightarrow> 2 | U_neg \<Rightarrow> 6)"
| "level (IsNull e n) = 3"
| "level (Between e lo hi n) = 3"
| "level (InList e items n) = 3"
| "level (LikeOp e pat n) = 3"
| "level _ = 7"

fun op_tok :: "binop \<Rightarrow> tok" where
  "op_tok B_or = T_kw ''OR''"
| "op_tok B_and = T_kw ''AND''"
| "op_tok B_eq = T_op ''=''"
| "op_tok B_ne = T_op ''<>''"
| "op_tok B_lt = T_op ''<''"
| "op_tok B_le = T_op ''<=''"
| "op_tok B_gt = T_op ''>''"
| "op_tok B_ge = T_op ''>=''"
| "op_tok (B_arith g) = T_op (case g of Add \<Rightarrow> ''+'' | Sub \<Rightarrow> ''-'' | Mul \<Rightarrow> ''*'' | Div \<Rightarrow> ''/'')"

fun literal_tok :: "val \<Rightarrow> tok" where
  "literal_tok (VText s) = T_str s"
| "literal_tok VNull = T_kw ''NULL''"
| "literal_tok v = T_num v"

definition in_paren :: "bool \<Rightarrow> tok list \<Rightarrow> tok list" where
  "in_paren b ks = (if b then T_op ''('' # ks @ [T_op '')''] else ks)"

fun with_commas :: "tok list list \<Rightarrow> tok list" where
  "with_commas [] = []"
| "with_commas [ks] = ks"
| "with_commas (ks # kss) = ks @ T_op '','' # with_commas kss"

definition not_tok :: "bool \<Rightarrow> tok list" where
  "not_tok n = (if n then [T_kw ''NOT''] else [])"

text \<open>The operands of an operator: to the left at its own level for those that chain.\<close>

definition left_level :: "binop \<Rightarrow> nat" where
  "left_level g = (if level_of g = 3 then 4 else level_of g)"

fun pr :: "nat \<Rightarrow> expr \<Rightarrow> tok list" where
  "pr l (Literal v) = [literal_tok v]"
| "pr l (Column nm tab) = (case tab of None \<Rightarrow> [T_ident nm] | Some t \<Rightarrow> [T_ident t, T_op ''.'', T_ident nm])"
| "pr l (BinOp g a b) =
     in_paren (level_of g < l) (pr (left_level g) a @ op_tok g # pr (Suc (level_of g)) b)"
| "pr l (UnaryOp u e) =
     (case u of
        U_not \<Rightarrow> in_paren (2 < l) (T_kw ''NOT'' # pr 2 e)
      | U_neg \<Rightarrow> in_paren (6 < l) (T_op ''-'' # pr 6 e))"
| "pr l (IsNull e n) = in_paren (3 < l) (pr 4 e @ [T_kw ''IS''] @ not_tok n @ [T_kw ''NULL''])"
| "pr l (Between e lo hi n) =
     in_paren (3 < l) (pr 4 e @ not_tok n @ [T_kw ''BETWEEN''] @ pr 4 lo @ [T_kw ''AND''] @ pr 4 hi)"
| "pr l (InList e items n) =
     in_paren (3 < l) (pr 4 e @ not_tok n @ [T_kw ''IN'', T_op ''(''] @ with_commas (map (pr 4) items) @ [T_op '')''])"
| "pr l (LikeOp e pat n) = in_paren (3 < l) (pr 4 e @ not_tok n @ [T_kw ''LIKE''] @ pr 4 pat)"
| "pr l _ = []"

text \<open>
  What can be written: identifiers that are no keywords, non-negative integers of at most 4300 digits,
  texts and NULL, non-empty lists, no aggregates.
\<close>

definition ident_ok :: "string \<Rightarrow> bool" where
  "ident_ok s \<longleftrightarrow> s \<noteq> [] \<and> ident_start (of_char (hd s)) \<and> (\<forall>c \<in> set s. ident_char (of_char c)) \<and>
     lower s = s \<and> upper s \<notin> set KEYWORDS"

fun literal_ok :: "val \<Rightarrow> bool" where
  "literal_ok (VInt i) \<longleftrightarrow> 0 \<le> i \<and> length (digits i) \<le> 4300"
| "literal_ok (VText s) \<longleftrightarrow> True"
| "literal_ok VNull \<longleftrightarrow> True"
| "literal_ok _ \<longleftrightarrow> False"

fun expr_ok :: "expr \<Rightarrow> bool" where
  "expr_ok (Literal v) \<longleftrightarrow> literal_ok v"
| "expr_ok (Column nm tab) \<longleftrightarrow> ident_ok nm \<and> (case tab of None \<Rightarrow> True | Some t \<Rightarrow> ident_ok t)"
| "expr_ok (BinOp g a b) \<longleftrightarrow> expr_ok a \<and> expr_ok b"
| "expr_ok (UnaryOp u e) \<longleftrightarrow> expr_ok e"
| "expr_ok (IsNull e n) \<longleftrightarrow> expr_ok e"
| "expr_ok (Between e lo hi n) \<longleftrightarrow> expr_ok e \<and> expr_ok lo \<and> expr_ok hi"
| "expr_ok (InList e items n) \<longleftrightarrow> expr_ok e \<and> items \<noteq> [] \<and> list_all expr_ok items"
| "expr_ok (LikeOp e pat n) \<longleftrightarrow> expr_ok e \<and> expr_ok pat"
| "expr_ok _ \<longleftrightarrow> False"

section \<open>Reading token kinds\<close>

declare ret_app [simp del]

definition goes :: "'a parser \<Rightarrow> tok list \<Rightarrow> tok list \<Rightarrow> 'a parser \<Rightarrow> bool" where
  "goes p ks rk q \<longleftrightarrow> (\<forall>ts us. map tk ts = ks \<and> map tk us = rk \<longrightarrow> p (ts @ us) = q us)"

abbreviation reads :: "'a parser \<Rightarrow> tok list \<Rightarrow> tok list \<Rightarrow> 'a \<Rightarrow> bool" where
  "reads p ks rk x \<equiv> goes p ks rk (ret x)"

definition first :: "tok list \<Rightarrow> tok" where
  "first ks = (case ks of [] \<Rightarrow> T_eof | k # _ \<Rightarrow> k)"

lemma first_simps [simp]: "first (k # ks) = k"
  by (simp add: first_def)

lemma peek_first [simp]: "peek ts = first (map tk ts)"
  by (cases ts) (simp_all add: peek_def first_def)

lemma goes_bind:
  assumes "reads p k1 (k2 @ rk) x" and "goes (f x) k2 rk q"
  shows "goes (bindP p f) (k1 @ k2) rk q"
  unfolding goes_def
proof (intro allI impI, elim conjE)
  fix ts us :: "token list" assume ts: "map tk ts = k1 @ k2" and us: "map tk us = rk"
  obtain t1 t2 where t: "ts = t1 @ t2" "map tk t1 = k1" "map tk t2 = k2" using ts by (auto simp: map_eq_append_conv)
  have "p (t1 @ t2 @ us) = (Inr x, t2 @ us)" using assms(1) t us by (auto simp: goes_def ret_app)
  then show "bindP p f (ts @ us) = q us" using assms(2) t us by (simp add: goes_def)
qed

lemma goes_bind_Nil: "reads p [] (k2 @ rk) x \<Longrightarrow> goes (f x) k2 rk q \<Longrightarrow> goes (bindP p f) k2 rk q"
  using goes_bind[of p "[]" k2 rk x f q] by simp

lemma goes_bind_Cons: "reads p [k] (k2 @ rk) x \<Longrightarrow> goes (f x) k2 rk q \<Longrightarrow> goes (bindP p f) (k # k2) rk q"
  using goes_bind[of p "[k]" k2 rk x f q] by simp

lemma goes_bind_last: "reads p ks rk x \<Longrightarrow> goes (f x) [] rk q \<Longrightarrow> goes (bindP p f) ks rk q"
  using goes_bind[of p ks "[]" rk x f q] by simp

lemma goes_refl [simp]: "goes q [] rk q"
  by (simp add: goes_def)

lemma reads_expect [simp]: "P k \<Longrightarrow> \<not> P T_eof \<Longrightarrow> reads (expect P) [k] rk ()"
  by (auto simp: goes_def ret_app expect_def advance_def split: list.splits)

lemma reads_accept_yes [simp]: "P k \<Longrightarrow> \<not> P T_eof \<Longrightarrow> reads (accept P) [k] rk True"
  by (auto simp: goes_def ret_app accept_def advance_def split: list.splits)

lemma reads_accept_no [simp]: "\<not> P (first rk) \<Longrightarrow> reads (accept P) [] rk False"
  by (auto simp: goes_def ret_app accept_def)

lemma reads_tokens [simp]:
  "reads (expect_kw w) [T_kw w] rk ()" "reads (expect_op w) [T_op w] rk ()"
  "reads (accept_kw w) [T_kw w] rk True" "reads (accept_op w) [T_op w] rk True"
  "\<not> is_kw [w] (first rk) \<Longrightarrow> reads (accept_kw w) [] rk False"
  "\<not> is_op [w] (first rk) \<Longrightarrow> reads (accept_op w) [] rk False"
  by (simp_all add: expect_kw_def expect_op_def accept_kw_def accept_op_def)

lemma reads_ident [simp]: "lower nm = nm \<Longrightarrow> reads expect_ident [T_ident nm] rk nm"
  by (auto simp: goes_def ret_app expect_ident_def advance_def name_like_def split: list.splits)

lemma reads_operator_yes: "f k = Some g \<Longrightarrow> f T_eof = None \<Longrightarrow> reads (operator f) [k] rk (Some g)"
  by (auto simp: goes_def ret_app operator_def advance_def split: list.splits)

lemma reads_operator_no: "f (first rk) = None \<Longrightarrow> reads (operator f) [] rk None"
  by (auto simp: goes_def ret_app operator_def)

lemma skip_kw: "\<not> is_kw [w] (first (ks @ rk)) \<Longrightarrow> goes (f False) ks rk q \<Longrightarrow> goes (bindP (accept_kw w) f) ks rk q"
  by (rule goes_bind_Nil) simp_all

lemma skip_op: "\<not> is_op [w] (first (ks @ rk)) \<Longrightarrow> goes (f False) ks rk q \<Longrightarrow> goes (bindP (accept_op w) f) ks rk q"
  by (rule goes_bind_Nil) simp_all

lemma take_token:
  "goes (f True) ks rk q \<Longrightarrow> goes (bindP (accept_kw w) f) (T_kw w # ks) rk q"
  "goes (f True) ks rk q \<Longrightarrow> goes (bindP (accept_op w) f) (T_op w # ks) rk q"
  "goes (g ()) ks rk q \<Longrightarrow> goes (bindP (expect_kw w) g) (T_kw w # ks) rk q"
  "goes (g ()) ks rk q \<Longrightarrow> goes (bindP (expect_op w) g) (T_op w # ks) rk q"
  "lower s = s \<Longrightarrow> goes (h s) ks rk q \<Longrightarrow> goes (bindP expect_ident h) (T_ident s # ks) rk q"
  by (rule goes_bind_Cons; simp)+

text \<open>A round of a loop, and its end.\<close>

lemma goes_many_step:
  assumes "reads p ks (k2 @ rk) (Some x)" and "ks \<noteq> []" and "reads (many p) k2 rk xs"
  shows "reads (many p) (ks @ k2) rk (x # xs)"
  unfolding goes_def
proof (intro allI impI, elim conjE)
  fix ts us :: "token list" assume ts: "map tk ts = ks @ k2" and us: "map tk us = rk"
  obtain t1 t2 where t: "ts = t1 @ t2" "map tk t1 = ks" "map tk t2 = k2" using ts by (auto simp: map_eq_append_conv)
  have p: "p (t1 @ t2 @ us) = (Inr (Some x), t2 @ us)" using assms(1) t us by (auto simp: goes_def ret_app)
  have m: "many p (t2 @ us) = (Inr xs, us)" using assms(3) t us by (simp add: goes_def ret_app)
  have "t1 \<noteq> []" using t(2) assms(2) by auto
  then show "many p (ts @ us) = ret (x # xs) us" using p m t(1) by (simp add: many.simps ret_app)
qed

lemma reads_many_end:
  assumes "reads p [] rk None"
  shows "reads (many p) [] rk []"
  using assms by (auto simp: goes_def ret_app many.simps)

lemma reads_many_commas:
  assumes "\<And>x rk'. x \<in> set xs \<Longrightarrow> first rk' \<in> {T_op '','', first rk} \<Longrightarrow> reads p (f x) rk' x"
    and "first rk \<noteq> T_op '',''"
  shows "reads (many (after_comma p)) (concat (map (\<lambda>x. T_op '','' # f x) xs)) rk xs"
  using assms(1)
proof (induction xs)
  case Nil
  have "reads (after_comma p) [] rk None"
    unfolding after_comma_def using assms(2)
    by (intro goes_bind_Nil[where x = False]) (cases "first rk"; simp)+
  from reads_many_end[OF this] show ?case by simp
next
  case (Cons x xs)
  have "reads p (f x) (concat (map (\<lambda>x. T_op '','' # f x) xs) @ rk) x"
    by (rule Cons.prems) (cases xs; simp)+
  then have "reads (after_comma p) (T_op '','' # f x) (concat (map (\<lambda>x. T_op '','' # f x) xs) @ rk) (Some x)"
    unfolding after_comma_def by (intro goes_bind_Cons[where x = True]) (auto intro: goes_bind_last)
  moreover have "reads (many (after_comma p)) (concat (map (\<lambda>x. T_op '','' # f x) xs)) rk xs"
    using Cons by auto
  ultimately show ?case by (auto dest: goes_many_step)
qed

lemma with_commas_Cons: "with_commas (ks # kss) = ks @ concat (map (\<lambda>k. T_op '','' # k) kss)"
  by (induction kss arbitrary: ks) auto

lemma with_commas_member: "ks \<in> set kss \<Longrightarrow> length ks \<le> length (with_commas kss)"
  by (induction kss rule: with_commas.induct) auto

lemma reads_comma_list:
  assumes "\<And>x rk'. x \<in> set xs \<Longrightarrow> first rk' \<in> {T_op '','', first rk} \<Longrightarrow> reads p (f x) rk' x"
    and "first rk \<noteq> T_op '',''" and "xs \<noteq> []"
  shows "reads (comma_list p) (with_commas (map f xs)) rk xs"
proof -
  obtain y ys where xs: "xs = y # ys" using assms(3) by (cases xs) auto
  have "reads p (f y) (concat (map (\<lambda>x. T_op '','' # f x) ys) @ rk) y"
    by (rule assms(1)) (cases ys; simp add: xs)+
  moreover have "reads (many (after_comma p)) (concat (map (\<lambda>x. T_op '','' # f x) ys)) rk ys"
    by (rule reads_many_commas) (use assms xs in auto)
  ultimately show ?thesis
    unfolding comma_list_def xs
    by (simp add: with_commas_Cons comp_def) (blast intro: goes_bind goes_bind_last goes_refl)
qed

section \<open>Levels of the parser\<close>

definition lev :: "nat \<Rightarrow> expr parser \<Rightarrow> expr parser" where
  "lev l p =
     (if l = 0 then parse_or p else if l = 1 then parse_and p else if l = 2 then parse_not p
      else if l = 3 then parse_predicate p else if l = 4 then parse_additive p
      else if l = 5 then parse_multiplicative p else if l = 6 then parse_unary p else parse_primary p)"

definition chop :: "nat \<Rightarrow> tok \<Rightarrow> binop option" where
  "chop l = (if l = 0 then or_op else if l = 1 then and_op else if l = 4 then add_op else mul_op)"

definition loop :: "(tok \<Rightarrow> binop option) \<Rightarrow> expr parser \<Rightarrow> expr \<Rightarrow> expr parser" where
  "loop f p e = bindP (many (operand f p)) (\<lambda>xs. ret (foldl (\<lambda>a (g, b). BinOp g a b) e xs))"

text \<open>A token that does not carry an expression of level \<open>l\<close> on.\<close>

definition stop :: "nat \<Rightarrow> tok \<Rightarrow> bool" where
  "stop l k \<longleftrightarrow> k \<noteq> T_op ''.'' \<and> (l \<le> 5 \<longrightarrow> mul_op k = None) \<and> (l \<le> 4 \<longrightarrow> add_op k = None) \<and>
     (l \<le> 3 \<longrightarrow> \<not> is_kw [''IS'', ''NOT'', ''BETWEEN'', ''IN'', ''LIKE''] k \<and> cmp_op k = None) \<and>
     (l \<le> 1 \<longrightarrow> and_op k = None) \<and> (l \<le> 0 \<longrightarrow> or_op k = None)"

lemma stop_mono: "stop l k \<Longrightarrow> l \<le> m \<Longrightarrow> stop m k"
  by (auto simp: stop_def)

lemma lev_chain: "l \<in> {0, 1, 4, 5} \<Longrightarrow> lev l p = chain (chop l) (lev (Suc l) p)"
  by (auto simp: lev_def chop_def parse_or_def parse_and_def parse_additive_def parse_multiplicative_def numeral_2_eq_2)

lemma chop_eof: "chop l T_eof = None"
  by (simp add: chop_def or_op_def and_op_def)

lemma goes_trans: "goes p k1 (k2 @ rk) q \<Longrightarrow> goes q k2 rk r \<Longrightarrow> goes p (k1 @ k2) rk r"
  unfolding goes_def
proof (intro allI impI, elim conjE)
  fix ts us :: "token list"
  assume p: "\<forall>ts us. map tk ts = k1 \<and> map tk us = k2 @ rk \<longrightarrow> p (ts @ us) = q us"
    and q: "\<forall>ts us. map tk ts = k2 \<and> map tk us = rk \<longrightarrow> q (ts @ us) = r us"
    and ts: "map tk ts = k1 @ k2" and us: "map tk us = rk"
  obtain t1 t2 where t: "ts = t1 @ t2" "map tk t1 = k1" "map tk t2 = k2" using ts by (auto simp: map_eq_append_conv)
  have "p (t1 @ (t2 @ us)) = q (t2 @ us)" using p t us by simp
  also have "\<dots> = r us" using q t us by simp
  finally show "p (ts @ us) = r us" using t(1) by simp
qed

lemma chain_goes: "reads p ks rk e \<Longrightarrow> goes (chain f p) ks rk (loop f p e)"
  unfolding chain_def loop_def by (rule goes_bind_last) auto

lemma loop_stop:
  assumes "f (first rk) = None"
  shows "reads (loop f p e) [] rk e"
proof -
  have "reads (operand f p) [] rk None"
    unfolding operand_def using assms by (intro goes_bind_Nil[where x = None]) (auto intro: reads_operator_no)
  then have "reads (many (operand f p)) [] ([] @ rk) []" by (simp add: reads_many_end)
  then show ?thesis unfolding loop_def by (rule goes_bind_Nil) simp
qed

lemma loop_step:
  assumes "f k = Some g" and "f T_eof = None" and "reads p ks rk b"
  shows "goes (loop f p a) (k # ks) rk (loop f p (BinOp g a b))"
  unfolding goes_def
proof (intro allI impI, elim conjE)
  fix ts us :: "token list" assume ts: "map tk ts = k # ks" and us: "map tk us = rk"
  have "reads (operand f p) (k # ks) rk (Some (g, b))"
    unfolding operand_def
    by (rule goes_bind_Cons[OF reads_operator_yes[OF assms(1,2)]]) (auto intro: goes_bind_last[OF assms(3)])
  then have o: "operand f p (ts @ us) = (Inr (Some (g, b)), us)" using ts us by (simp add: goes_def ret_app)
  have "length us < length (ts @ us)" using ts by (cases ts) auto
  then show "loop f p a (ts @ us) = loop f p (BinOp g a b) us"
    by (simp add: loop_def bindP_app many.simps[of _ "ts @ us"] o ret_app split: prod.split sum.split)
qed

section \<open>From one level to the ones below it\<close>

lemma goes_Cons:
  assumes "\<And>t ts. tk t = k \<Longrightarrow> p (t # ts) = q (t # ts)"
  shows "goes p (k # ks) rk r \<longleftrightarrow> goes q (k # ks) rk r"
proof -
  have "p (ts @ us) = q (ts @ us)" if "map tk ts = k # ks" for ts us
    using that assms by (cases ts) auto
  then show ?thesis unfolding goes_def by metis
qed

lemma first_not_kw: "stop 3 (first rk) \<Longrightarrow> w \<in> {''IS'', ''NOT'', ''BETWEEN'', ''IN'', ''LIKE''} \<Longrightarrow> \<not> is_kw [w] (first rk)"
  by (cases "first rk") (auto simp: stop_def)

lemma skip_is:
  "\<not> is_kw [''IS''] (first (ks @ rk)) \<Longrightarrow> goes (bindP (accept_kw ''NOT'') (after_not p l)) ks rk q \<Longrightarrow>
   goes (predicate_rest p l) ks rk q"
  unfolding predicate_rest_def by (rule skip_kw) simp_all

lemma rest_none:
  assumes "stop 3 (first rk)"
  shows "reads (predicate_rest p e) [] rk e"
proof -
  have k: "\<not> is_kw [w] (first rk)" if "w \<in> {''IS'', ''NOT'', ''BETWEEN'', ''IN'', ''LIKE''}" for w
    by (rule first_not_kw[OF assms that])
  have c: "reads (operator cmp_op) [] rk None" using assms by (simp add: stop_def reads_operator_no)
  have a: "reads (after_not p e False) [] rk e"
    unfolding after_not_def
    by (rule skip_kw, simp add: k, simp only: if_False)+ (rule goes_bind_last[OF c], simp)
  show ?thesis
    by (rule skip_is, simp add: k, rule skip_kw, simp add: k) (rule a)
qed

lemma predicate_from_additive:
  assumes "reads (parse_additive p) ks rk e" and "stop 3 (first rk)"
  shows "reads (parse_predicate p) ks rk e"
  unfolding parse_predicate_def by (rule goes_bind_last[OF assms(1) rest_none[OF assms(2)]])

lemma down1:
  assumes "reads (lev (Suc l) p) (k # ks) rk e" and "l \<le> 6" and "stop l (first rk)"
    and "l = 2 \<Longrightarrow> k \<noteq> T_kw ''NOT''" and "l = 6 \<Longrightarrow> k \<noteq> T_op ''-'' \<and> k \<noteq> T_op ''+''"
  shows "reads (lev l p) (k # ks) rk e"
proof (cases "l \<in> {0, 1, 4, 5}")
  case True
  have "chop l (first rk) = None" using assms(3) True by (auto simp: stop_def chop_def)
  then have "reads (loop (chop l) (lev (Suc l) p) e) [] rk e" by (rule loop_stop)
  then have "reads (chain (chop l) (lev (Suc l) p)) ((k # ks) @ []) rk e"
    by (intro goes_trans[OF _]) (use chain_goes[OF assms(1)] in auto)
  then show ?thesis using lev_chain[OF True] by simp
next
  case False
  then have "l = 2 \<or> l = 3 \<or> l = 6" using assms(2) by auto
  then show ?thesis
  proof (elim disjE)
    assume l: "l = 2"
    then have "reads (parse_predicate p) (k # ks) rk e" using assms(1) by (simp add: lev_def)
    moreover have "parse_not p (t # ts) = parse_predicate p (t # ts)" if "tk t = k" for t ts
      using assms(4)[OF l] that by (cases k) auto
    ultimately show ?thesis using l goes_Cons[of k "parse_not p"] by (simp add: lev_def)
  next
    assume l: "l = 3"
    then show ?thesis using assms(1,3) predicate_from_additive by (simp add: lev_def)
  next
    assume l: "l = 6"
    then have "reads (parse_primary p) (k # ks) rk e" using assms(1) by (simp add: lev_def)
    moreover have "parse_unary p (t # ts) = parse_primary p (t # ts)" if "tk t = k" for t ts
      using assms(5)[OF l] that by (cases k) auto
    ultimately show ?thesis using l goes_Cons[of k "parse_unary p"] by (simp add: lev_def)
  qed
qed

lemma down:
  assumes "reads (lev m p) (k # ks) rk e" and "l \<le> m" and "m \<le> 7" and "stop l (first rk)"
    and "3 \<le> m \<Longrightarrow> k \<noteq> T_kw ''NOT''" and "m = 7 \<Longrightarrow> k \<noteq> T_op ''-'' \<and> k \<noteq> T_op ''+''"
  shows "reads (lev l p) (k # ks) rk e"
  using assms(2)
proof (induction rule: inc_induct)
  case base
  then show ?case using assms(1) .
next
  case (step j)
  show ?case
    by (rule down1[OF step.IH]) (use step assms in \<open>auto intro: stop_mono[OF assms(4)]\<close>)
qed

section \<open>Expressions are read back\<close>

lemma pr_paren: "l \<le> 7 \<Longrightarrow> pr l e = in_paren (level e < l) (pr 0 e)"
  by (cases e) (auto simp: in_paren_def split: unop.splits)

lemma pr_next: "l < 7 \<Longrightarrow> level e \<noteq> l \<Longrightarrow> pr (Suc l) e = pr l e"
  by (simp add: pr_paren[of l] pr_paren[of "Suc l"] less_Suc_eq)

definition head_ok :: "nat \<Rightarrow> tok \<Rightarrow> bool" where
  "head_ok l k \<longleftrightarrow> k \<noteq> T_op ''*'' \<and> \<not> is_kw (''DISTINCT'' # AGGREGATES) k \<and> (3 \<le> l \<longrightarrow> k \<noteq> T_kw ''NOT'') \<and> (l = 7 \<longrightarrow> k \<noteq> T_op ''-'' \<and> k \<noteq> T_op ''+'')"

lemma literal_tok_neq:
  "literal_ok v \<Longrightarrow> literal_tok v \<noteq> T_kw ''NOT'' \<and> literal_tok v \<noteq> T_op s \<and> \<not> is_kw (''DISTINCT'' # AGGREGATES) (literal_tok v)"
  by (cases v) (auto simp: AGGREGATES_def)

lemma level_of_le: "level_of g \<le> 5" "left_level g \<le> 5" "level_of g \<le> left_level g" "level_of g = 3 \<Longrightarrow> left_level g = 4"
  by (cases g; simp add: left_level_def)+

lemma pr_head: "expr_ok e \<Longrightarrow> l \<le> 7 \<Longrightarrow> \<exists>k ks. pr l e = k # ks \<and> head_ok (max l (level e)) k"
proof (induction e arbitrary: l)
  case (Literal v)
  then show ?case using literal_tok_neq by (auto simp: head_ok_def)
next
  case (Column nm tab)
  then show ?case by (auto simp: head_ok_def split: option.splits)
next
  case (BinOp g a b)
  obtain k ks where "pr (left_level g) a = k # ks" "head_ok (max (left_level g) (level a)) k"
    using BinOp.IH(1)[of "left_level g"] BinOp.prems level_of_le[of g] by auto
  then show ?case using level_of_le[of g] by (auto simp: in_paren_def head_ok_def max_def split: if_splits)
next
  case (UnaryOp u e)
  then show ?case by (cases u) (auto simp: in_paren_def head_ok_def AGGREGATES_def)
next
  case (IsNull e n)
  obtain k ks where "pr 4 e = k # ks" "head_ok (max 4 (level e)) k" using IsNull.IH[of 4] IsNull.prems by auto
  then show ?case by (auto simp: in_paren_def head_ok_def max_def split: if_splits)
next
  case (Between e lo hi n)
  obtain k ks where "pr 4 e = k # ks" "head_ok (max 4 (level e)) k" using Between.IH(1)[of 4] Between.prems by auto
  then show ?case by (auto simp: in_paren_def head_ok_def max_def split: if_splits)
next
  case (InList e items n)
  obtain k ks where "pr 4 e = k # ks" "head_ok (max 4 (level e)) k" using InList.IH(1)[of 4] InList.prems by auto
  then show ?case by (auto simp: in_paren_def head_ok_def max_def split: if_splits)
next
  case (LikeOp e pat n)
  obtain k ks where "pr 4 e = k # ks" "head_ok (max 4 (level e)) k" using LikeOp.IH(1)[of 4] LikeOp.prems by auto
  then show ?case by (auto simp: in_paren_def head_ok_def max_def split: if_splits)
qed auto

definition core :: "expr \<Rightarrow> bool" where
  "core e \<longleftrightarrow> (\<forall>n rk. length (pr 0 e) \<le> n \<longrightarrow> stop (level e) (first rk) \<longrightarrow>
     reads (lev (level e) (nested n)) (pr 0 e) rk e)"

definition read_at :: "expr \<Rightarrow> bool" where
  "read_at e \<longleftrightarrow> (\<forall>l n rk. l \<le> 7 \<longrightarrow> length (pr l e) \<le> n \<longrightarrow> stop l (first rk) \<longrightarrow>
     reads (lev l (nested n)) (pr l e) rk e)"

definition chained :: "expr \<Rightarrow> bool" where
  "chained e \<longleftrightarrow> (\<forall>n rk. level e \<in> {0, 1, 4, 5} \<longrightarrow> length (pr 0 e) \<le> n \<longrightarrow> stop (Suc (level e)) (first rk) \<longrightarrow>
     goes (lev (level e) (nested n)) (pr 0 e) rk (loop (chop (level e)) (lev (Suc (level e)) (nested n)) e))"

lemma chainedD:
  assumes "chained e" and "level e \<in> {0, 1, 4, 5}" and "length (pr 0 e) \<le> n" and "stop (Suc (level e)) (first rk)"
  shows "goes (lev (level e) (nested n)) (pr 0 e) rk (loop (chop (level e)) (lev (Suc (level e)) (nested n)) e)"
  using assms unfolding chained_def by blast

lemma core_read_at:
  assumes "core e" and "expr_ok e"
  shows "read_at e"
proof -
  have low: "reads (lev l (nested n)) (pr 0 e) rk e"
    if l: "l \<le> level e" and n: "length (pr 0 e) \<le> n" and st: "stop l (first rk)" for l n rk
  proof -
    obtain k ks where k: "pr 0 e = k # ks" "head_ok (level e) k" using pr_head[OF assms(2), of 0] by auto
    have "level e \<le> 7" by (cases e) (auto split: unop.split intro: le_trans[OF level_of_le(1)])
    moreover have "reads (lev (level e) (nested n)) (k # ks) rk e"
      using assms(1) n stop_mono[OF st l] k(1) by (simp add: core_def)
    ultimately show ?thesis using down[of "level e" _ k ks rk e l] l st k by (simp add: head_ok_def)
  qed
  have "reads (lev l (nested n)) (pr l e) rk e"
    if l: "l \<le> 7" and n: "length (pr l e) \<le> n" and st: "stop l (first rk)" for l n rk
  proof (cases "level e < l")
    case False
    then show ?thesis using low[of l n rk] pr_paren[OF l, of e] n st by (simp add: in_paren_def)
  next
    case True
    then have p: "pr l e = T_op ''('' # pr 0 e @ [T_op '')'']" using pr_paren[OF l, of e] by (simp add: in_paren_def)
    then obtain m where m: "n = Suc m" "length (pr 0 e) \<le> m" using n by (cases n) auto
    have "reads (lev 0 (nested m)) (pr 0 e) (T_op '')'' # rk) e" by (rule low) (use m in \<open>auto simp: stop_def and_op_def or_op_def\<close>)
    then have "reads (nested n) (pr 0 e) ([T_op '')''] @ rk) e" by (simp add: m(1) lev_def)
    then have r: "reads (bindP (nested n) (\<lambda>e. bindP (expect_op '')'') (\<lambda>_. ret e))) (pr 0 e @ [T_op '')'']) rk e"
      by (rule goes_bind) (rule goes_bind_last, auto)
    have "parse_primary (nested n) (t # ts) = bindP (nested n) (\<lambda>e. bindP (expect_op '')'') (\<lambda>_. ret e)) ts"
      if "tk t = T_op ''(''" for t ts
      using that by (simp add: parse_primary_def agg_call_def name_like_def advance_def)
    with r have "reads (lev 7 (nested n)) (T_op ''('' # pr 0 e @ [T_op '')'']) rk e"
      unfolding goes_def lev_def by (auto simp: map_eq_Cons_conv)
    then show ?thesis unfolding p by (rule down) (use l st in auto)
  qed
  then show ?thesis by (simp add: read_at_def)
qed

lemma chained_at:
  assumes "read_at e" and "chained e" and "l \<in> {0, 1, 4, 5}" and "length (pr l e) \<le> n" and "stop (Suc l) (first rk)"
  shows "goes (lev l (nested n)) (pr l e) rk (loop (chop l) (lev (Suc l) (nested n)) e)"
proof (cases "level e = l")
  case True
  moreover have "pr l e = pr 0 e" using pr_paren[of l e] assms(3) True by (auto simp: in_paren_def)
  ultimately show ?thesis using chainedD[OF assms(2)] assms(3-5) True by simp
next
  case False
  have l: "l < 7" using assms(3) by auto
  have "reads (lev (Suc l) (nested n)) (pr l e) rk e"
    using assms(1,4,5) l pr_next[OF l False] unfolding read_at_def by (metis Suc_leI)
  then show ?thesis using chain_goes lev_chain[OF assms(3)] by simp
qed

lemma binop_chained:
  assumes "level_of g \<in> {0, 1, 4, 5}" and "read_at a" "chained a" and "read_at b"
  shows "chained (BinOp g a b)"
  unfolding chained_def
proof (intro allI impI)
  fix n rk
  let ?q = "level_of g" and ?p = "nested n"
  assume n: "length (pr 0 (BinOp g a b)) \<le> n" and st: "stop (Suc (level (BinOp g a b))) (first rk)"
  have pr: "pr 0 (BinOp g a b) = pr ?q a @ op_tok g # pr (Suc ?q) b" using assms(1) by (auto simp: in_paren_def left_level_def)
  have c: "chop ?q (op_tok g) = Some g" "stop (Suc ?q) (op_tok g)"
    using assms(1) by (cases g; auto simp: chop_def stop_def or_op_def and_op_def split: arith.splits)+
  have "goes (lev ?q ?p) (pr ?q a) ((op_tok g # pr (Suc ?q) b) @ rk) (loop (chop ?q) (lev (Suc ?q) ?p) a)"
    by (rule chained_at[OF assms(2,3,1)]) (use n pr c in auto)
  moreover have "reads (lev (Suc ?q) ?p) (pr (Suc ?q) b) rk b"
    using assms(1,4) n pr st unfolding read_at_def by fastforce
  then have "goes (loop (chop ?q) (lev (Suc ?q) ?p) a) (op_tok g # pr (Suc ?q) b) rk
      (loop (chop ?q) (lev (Suc ?q) ?p) (BinOp g a b))"
    by (rule loop_step[OF c(1) chop_eof])
  ultimately have "goes (lev ?q ?p) (pr ?q a @ op_tok g # pr (Suc ?q) b) rk (loop (chop ?q) (lev (Suc ?q) ?p) (BinOp g a b))"
    by (rule goes_trans)
  then show "goes (lev (level (BinOp g a b)) ?p) (pr 0 (BinOp g a b)) rk
      (loop (chop (level (BinOp g a b))) (lev (Suc (level (BinOp g a b))) ?p) (BinOp g a b))"
    using pr by simp
qed

lemma chained_core:
  assumes "chained e" and "level e \<in> {0, 1, 4, 5}"
  shows "core e"
  unfolding core_def
proof (intro allI impI)
  fix n rk assume n: "length (pr 0 e) \<le> n" and st: "stop (level e) (first rk)"
  have "chop (level e) (first rk) = None" using st assms(2) by (auto simp: stop_def chop_def)
  then have "reads (loop (chop (level e)) (lev (Suc (level e)) (nested n)) e) [] ([] @ rk) e" by (simp add: loop_stop)
  moreover have "goes (lev (level e) (nested n)) (pr 0 e) ([] @ rk) (loop (chop (level e)) (lev (Suc (level e)) (nested n)) e)"
    using chainedD[OF assms n] stop_mono[OF st le_SucI[OF order_refl]] by simp
  ultimately show "reads (lev (level e) (nested n)) (pr 0 e) rk e" using goes_trans by fastforce
qed

lemma read_atD:
  "read_at e \<Longrightarrow> l \<le> 7 \<Longrightarrow> length (pr l e) \<le> n \<Longrightarrow> stop l (first rk) \<Longrightarrow> reads (lev l (nested n)) (pr l e) rk e"
  by (simp add: read_at_def)

lemma read_additive:
  "read_at e \<Longrightarrow> length (pr 4 e) \<le> n \<Longrightarrow> stop 4 (first rk) \<Longrightarrow> reads (parse_additive (nested n)) (pr 4 e) rk e"
  using read_atD[of e 4 n rk] by (simp add: lev_def)

lemma stop_kw [simp]: "s \<noteq> ''OR'' \<Longrightarrow> s \<noteq> ''AND'' \<Longrightarrow> stop 4 (T_kw s)" "stop 4 (T_kw ''AND'')"
  "stop l (T_op '','')" "stop l (T_op '')'')" "stop l T_eof" "stop l (T_op '';'')"
  by (auto simp: stop_def and_op_def or_op_def)

lemma core_literal: "literal_ok v \<Longrightarrow> core (Literal v)"
  unfolding core_def
  by (cases v) (auto simp: lev_def goes_def parse_primary_def advance_def ret_app map_eq_Cons_conv)

lemma core_column:
  assumes "expr_ok (Column nm tab)"
  shows "core (Column nm tab)"
  unfolding core_def
proof (intro allI impI)
  fix n :: nat and rk assume st: "stop (level (Column nm tab)) (first rk)"
  have nm: "lower nm = nm" using assms by (simp add: ident_ok_def)
  have dot: "\<not> is_op [''.''] (first rk)" using st by (cases "first rk") (auto simp: stop_def)
  show "reads (lev (level (Column nm tab)) (nested n)) (pr 0 (Column nm tab)) rk (Column nm tab)"
  proof (cases tab)
    case None
    then show ?thesis
      using nm dot
      by (auto simp: lev_def goes_def parse_primary_def agg_call_def name_like_def parse_name_def advance_def ret_app map_eq_Cons_conv)
  next
    case (Some t)
    then have "lower t = t" using assms by (simp add: ident_ok_def)
    then show ?thesis
      using nm Some
      by (auto simp: lev_def goes_def parse_primary_def agg_call_def name_like_def parse_name_def peek1_def advance_def
          ret_app map_eq_Cons_conv)
  qed
qed

lemma core_unary:
  assumes "read_at e"
  shows "core (UnaryOp u e)"
  unfolding core_def
proof (intro allI impI)
  fix n rk assume n: "length (pr 0 (UnaryOp u e)) \<le> n" and st: "stop (level (UnaryOp u e)) (first rk)"
  show "reads (lev (level (UnaryOp u e)) (nested n)) (pr 0 (UnaryOp u e)) rk (UnaryOp u e)"
  proof (cases u)
    case U_not
    have "reads (lev 2 (nested n)) (pr 2 e) rk e"
      by (rule read_atD[OF assms]) (use n st U_not in \<open>auto simp: in_paren_def\<close>)
    then show ?thesis
      using U_not by (auto simp: in_paren_def lev_def goes_def ret_app bindP_app map_eq_Cons_conv)
  next
    case U_neg
    have "reads (lev 6 (nested n)) (pr 6 e) rk e"
      by (rule read_atD[OF assms]) (use n st U_neg in \<open>auto simp: in_paren_def\<close>)
    then show ?thesis
      using U_neg by (auto simp: in_paren_def lev_def goes_def ret_app bindP_app map_eq_Cons_conv)
  qed
qed

lemma reads_not_tok: "k \<noteq> T_kw ''NOT'' \<Longrightarrow> reads (accept_kw ''NOT'') (not_tok n) (k # rk) n"
  by (cases k) (auto simp: not_tok_def)

lemma rest_is: "reads (predicate_rest p e) (T_kw ''IS'' # not_tok n @ [T_kw ''NULL'']) rk (IsNull e n)"
  unfolding predicate_rest_def
  apply (rule take_token(1), simp only: if_True)
  apply (rule goes_bind[where x = n], simp add: reads_not_tok)
  apply (rule take_token(3))
  by simp

lemma rest_not:
  assumes "reads (after_not p l n) (k # ks) rk x" and "k \<noteq> T_kw ''NOT''" and "k \<noteq> T_kw ''IS''"
  shows "reads (predicate_rest p l) (not_tok n @ k # ks) rk x"
proof (rule skip_is)
  show "\<not> is_kw [''IS''] (first ((not_tok n @ k # ks) @ rk))"
    using assms(3) by (cases n; cases k) (auto simp: not_tok_def)
  show "reads (bindP (accept_kw ''NOT'') (after_not p l)) (not_tok n @ k # ks) rk x"
    by (rule goes_bind[where x = n]) (use assms in \<open>simp_all add: reads_not_tok\<close>)
qed

lemma rest_between:
  assumes "reads p k1 ((T_kw ''AND'' # k2) @ rk) lo" and "reads p k2 rk hi"
  shows "reads (predicate_rest p l) (not_tok n @ T_kw ''BETWEEN'' # k1 @ T_kw ''AND'' # k2) rk (Between l lo hi n)"
proof (rule rest_not)
  show "reads (after_not p l n) (T_kw ''BETWEEN'' # k1 @ T_kw ''AND'' # k2) rk (Between l lo hi n)"
    unfolding after_not_def
    apply (rule take_token(1), simp only: if_True)
    apply (rule goes_bind[where x = lo], rule assms(1))
    apply (rule take_token(3))
    apply (rule goes_bind_last[where x = hi], rule assms(2))
    by simp
qed simp_all

lemma rest_in:
  assumes "reads (comma_list p) ks ([T_op '')''] @ rk) xs"
  shows "reads (predicate_rest p l) (not_tok n @ T_kw ''IN'' # T_op ''('' # ks @ [T_op '')'']) rk (InList l xs n)"
proof (rule rest_not)
  show "reads (after_not p l n) (T_kw ''IN'' # T_op ''('' # ks @ [T_op '')'']) rk (InList l xs n)"
    unfolding after_not_def
    apply (rule skip_kw, simp, simp only: if_False)
    apply (rule take_token(1), simp only: if_True)
    apply (rule take_token(4))
    apply (rule goes_bind[where x = xs], rule assms)
    apply (rule take_token(4))
    by simp
qed simp_all

lemma rest_like:
  assumes "reads p ks rk pat"
  shows "reads (predicate_rest p l) (not_tok n @ T_kw ''LIKE'' # ks) rk (LikeOp l pat n)"
proof (rule rest_not)
  show "reads (after_not p l n) (T_kw ''LIKE'' # ks) rk (LikeOp l pat n)"
    unfolding after_not_def
    apply (rule skip_kw, simp, simp only: if_False)
    apply (rule skip_kw, simp, simp only: if_False)
    apply (rule take_token(1), simp only: if_True)
    apply (rule goes_bind_last[where x = pat], rule assms)
    by simp
qed simp_all

lemma rest_compare:
  assumes "level_of g = 3" and "reads p ks rk r"
  shows "reads (predicate_rest p l) (op_tok g # ks) rk (BinOp g l r)"
proof -
  have "cmp_op (op_tok g) = Some g \<and> \<not> is_kw ws (op_tok g)" for ws
    using assms(1) by (cases g) (simp_all split: if_splits)
  then have g: "cmp_op (op_tok g) = Some g" "\<And>ws. \<not> is_kw ws (op_tok g)" by blast+
  have c: "reads (operator cmp_op) [op_tok g] (ks @ rk) (Some g)"
    by (rule reads_operator_yes) (simp_all add: g(1))
  have a: "reads (after_not p l False) (op_tok g # ks) rk (BinOp g l r)"
    unfolding after_not_def
    apply (rule skip_kw, simp only: append_Cons first_simps, rule g(2), simp only: if_False)
    apply (rule skip_kw, simp only: append_Cons first_simps, rule g(2), simp only: if_False)
    apply (rule skip_kw, simp only: append_Cons first_simps, rule g(2), simp only: if_False)
    apply (rule goes_bind_Cons[where x = "Some g"], rule c)
    apply (simp only: option.case)
    apply (rule goes_bind_last[where x = r], rule assms(2))
    by simp
  show ?thesis
    apply (rule skip_is, simp only: append_Cons first_simps, rule g(2))
    apply (rule skip_kw, simp only: append_Cons first_simps, rule g(2))
    by (rule a)
qed

text \<open>Every expression that can be written is read back, at every level.\<close>

lemma core_predicate:
  assumes "level e = 3" and "pr 0 e = pr 4 a @ ks" and "read_at a"
    and "\<And>n rk. length (pr 0 e) \<le> n \<Longrightarrow> stop 3 (first rk) \<Longrightarrow>
      stop 4 (first (ks @ rk)) \<and> reads (predicate_rest (parse_additive (nested n)) a) ks rk e"
  shows "core e"
  unfolding core_def
proof (intro allI impI)
  fix n rk assume n: "length (pr 0 e) \<le> n" and st: "stop (level e) (first rk)"
  have r: "stop 4 (first (ks @ rk))" "reads (predicate_rest (parse_additive (nested n)) a) ks rk e"
    using assms(4)[OF n] st assms(1) by auto
  have a: "reads (parse_additive (nested n)) (pr 4 a) (ks @ rk) a"
    by (rule read_additive[OF assms(3) _ r(1)]) (use n assms(2) in simp)
  have "reads (parse_predicate (nested n)) (pr 4 a @ ks) rk e"
    unfolding parse_predicate_def by (rule goes_bind[where x = a], rule a, rule r(2))
  then show "reads (lev (level e) (nested n)) (pr 0 e) rk e" using assms(1,2) by (simp add: lev_def)
qed

lemma stop_kw0 [simp]: "s \<notin> {''IS'', ''NOT'', ''BETWEEN'', ''IN'', ''LIKE'', ''AND'', ''OR''} \<Longrightarrow> stop l (T_kw s)"
  by (auto simp: stop_def and_op_def or_op_def)

lemma stop_predicate:
  "stop 4 (first (not_tok n @ T_kw w # ks))" if "w \<noteq> ''AND''" "w \<noteq> ''OR''"
  using that by (auto simp: not_tok_def)

lemma expr_read:
  assumes "expr_ok e"
  shows "read_at e \<and> chained e"
  using assms
proof (induction e)
  case (Literal v)
  then have "core (Literal v)" by (simp add: core_literal)
  then show ?case using core_read_at[OF _ Literal] by (simp add: chained_def)
next
  case (Column nm tab)
  then show ?case using core_read_at[OF core_column[OF Column] Column] by (simp add: chained_def)
next
  case (BinOp g a b)
  then have ab: "read_at a" "chained a" "read_at b" by auto
  show ?case
  proof (cases "level_of g = 3")
    case False
    then have l: "level_of g \<in> {0, 1, 4, 5}" by (cases g) (auto split: if_splits)
    have c: "chained (BinOp g a b)" by (rule binop_chained[OF l ab])
    then have "core (BinOp g a b)" by (rule chained_core) (use l in simp)
    then show ?thesis using c core_read_at[OF _ BinOp.prems] by blast
  next
    case True
    have pr: "pr 0 (BinOp g a b) = pr 4 a @ op_tok g # pr 4 b" using True by (simp add: in_paren_def left_level_def)
    have st: "stop 4 (op_tok g)" using True by (cases g) (simp_all add: stop_def split: if_splits)
    have "core (BinOp g a b)"
    proof (rule core_predicate[OF _ pr ab(1)])
      fix n rk assume n: "length (pr 0 (BinOp g a b)) \<le> n" and r: "stop 3 (first rk)"
      have "reads (parse_additive (nested n)) (pr 4 b) rk b"
        by (rule read_additive[OF ab(3)]) (use n pr stop_mono[OF r] in auto)
      then show "stop 4 (first ((op_tok g # pr 4 b) @ rk)) \<and>
          reads (predicate_rest (parse_additive (nested n)) a) (op_tok g # pr 4 b) rk (BinOp g a b)"
        using rest_compare[OF True] st by simp
    qed (simp add: True)
    then show ?thesis using core_read_at[OF _ BinOp.prems] True by (simp add: chained_def)
  qed
next
  case (UnaryOp u e)
  then have "core (UnaryOp u e)" by (simp add: core_unary)
  then show ?case using core_read_at[OF _ UnaryOp.prems] by (cases u) (simp_all add: chained_def)
next
  case (IsNull e n)
  have "core (IsNull e n)"
    by (rule core_predicate[where a = e and ks = "T_kw ''IS'' # not_tok n @ [T_kw ''NULL'']"])
      (use IsNull rest_is in \<open>auto simp: in_paren_def\<close>)
  then show ?case using core_read_at[OF _ IsNull.prems] by (simp add: chained_def)
next
  case (Between e lo hi n)
  then have i: "read_at e" "read_at lo" "read_at hi" by auto
  let ?ks = "not_tok n @ T_kw ''BETWEEN'' # pr 4 lo @ T_kw ''AND'' # pr 4 hi"
  have pr: "pr 0 (Between e lo hi n) = pr 4 e @ ?ks" by (simp add: in_paren_def)
  have "core (Between e lo hi n)"
  proof (rule core_predicate[OF _ pr i(1)])
    fix m rk assume m: "length (pr 0 (Between e lo hi n)) \<le> m" and r: "stop 3 (first rk)"
    have "reads (parse_additive (nested m)) (pr 4 lo) ((T_kw ''AND'' # pr 4 hi) @ rk) lo"
      by (rule read_additive[OF i(2)]) (use m pr in auto)
    moreover have "reads (parse_additive (nested m)) (pr 4 hi) rk hi"
      by (rule read_additive[OF i(3)]) (use m pr stop_mono[OF r] in auto)
    ultimately show "stop 4 (first (?ks @ rk)) \<and> reads (predicate_rest (parse_additive (nested m)) e) ?ks rk (Between e lo hi n)"
      using rest_between stop_predicate[of "''BETWEEN''" n] by simp
  qed simp
  then show ?case using core_read_at[OF _ Between.prems] by (simp add: chained_def)
next
  case (InList e items n)
  then have i: "read_at e" "\<forall>x \<in> set items. read_at x" "items \<noteq> []" by (auto simp: list_all_iff)
  let ?ks = "not_tok n @ T_kw ''IN'' # T_op ''('' # with_commas (map (pr 4) items) @ [T_op '')'']"
  have pr: "pr 0 (InList e items n) = pr 4 e @ ?ks" by (simp add: in_paren_def)
  have "core (InList e items n)"
  proof (rule core_predicate[OF _ pr i(1)])
    fix m rk assume m: "length (pr 0 (InList e items n)) \<le> m" and r: "stop 3 (first rk)"
    have le: "length (pr 4 x) \<le> m" if "x \<in> set items" for x
      using with_commas_member[of "pr 4 x" "map (pr 4) items"] that m pr by simp
    have "reads (comma_list (parse_additive (nested m))) (with_commas (map (pr 4) items)) (T_op '')'' # rk) items"
      by (rule reads_comma_list[OF read_additive]) (use i le in auto)
    then show "stop 4 (first (?ks @ rk)) \<and> reads (predicate_rest (parse_additive (nested m)) e) ?ks rk (InList e items n)"
      using rest_in stop_predicate[of "''IN''" n] by simp
  qed simp
  then show ?case using core_read_at[OF _ InList.prems] by (simp add: chained_def)
next
  case (LikeOp e pat n)
  then have i: "read_at e" "read_at pat" by auto
  let ?ks = "not_tok n @ T_kw ''LIKE'' # pr 4 pat"
  have pr: "pr 0 (LikeOp e pat n) = pr 4 e @ ?ks" by (simp add: in_paren_def)
  have "core (LikeOp e pat n)"
  proof (rule core_predicate[OF _ pr i(1)])
    fix m rk assume m: "length (pr 0 (LikeOp e pat n)) \<le> m" and r: "stop 3 (first rk)"
    have "reads (parse_additive (nested m)) (pr 4 pat) rk pat"
      by (rule read_additive[OF i(2)]) (use m pr stop_mono[OF r] in auto)
    then show "stop 4 (first (?ks @ rk)) \<and> reads (predicate_rest (parse_additive (nested m)) e) ?ks rk (LikeOp e pat n)"
      using rest_like stop_predicate[of "''LIKE''" n] by simp
  qed simp
  then show ?case using core_read_at[OF _ LikeOp.prems] by (simp add: chained_def)
qed auto

lemma reads_expression:
  assumes "expr_ok e" and "stop 0 (first rk)"
  shows "reads parse_expression (pr 0 e) rk e"
  unfolding goes_def
proof (intro allI impI, elim conjE)
  fix ts us :: "token list" assume t: "map tk ts = pr 0 e" "map tk us = rk"
  have "length (pr 0 e) \<le> length (ts @ us)" using t(1) by (metis le_add1 length_append length_map)
  then have "reads (lev 0 (nested (length (ts @ us)))) (pr 0 e) rk e"
    using expr_read[OF assms(1)] assms(2) by (simp add: read_atD)
  then show "parse_expression (ts @ us) = ret e us" using t by (simp add: goes_def lev_def parse_expression_def)
qed

end
