(* ===== verification/PrintStmt.thy ===== *)
theory PrintStmt
  imports Printer
begin

text \<open>
  Printing statements, and reading them back from their tokens. Items of a \<open>SELECT\<close> are printed with
  their label as an alias, so that what is read does not depend on the layout of the text.
\<close>

section \<open>Printing\<close>

definition alias_toks :: "string option \<Rightarrow> tok list" where
  "alias_toks al = (case al of None \<Rightarrow> [] | Some s \<Rightarrow> [T_kw ''AS'', T_ident s])"

definition item_toks :: "expr \<times> string \<Rightarrow> tok list" where
  "item_toks x = (if fst x = Star then [T_op ''*''] else pr 0 (fst x) @ [T_kw ''AS'', T_ident (snd x)])"

fun join_kw :: "jointype \<Rightarrow> tok list" where
  "join_kw J_inner = [T_kw ''JOIN'']"
| "join_kw J_left = [T_kw ''LEFT'', T_kw ''JOIN'']"
| "join_kw J_right = [T_kw ''RIGHT'', T_kw ''JOIN'']"
| "join_kw J_full = [T_kw ''FULL'', T_kw ''JOIN'']"

definition join_toks :: "join_clause \<Rightarrow> tok list" where
  "join_toks j = join_kw (jc_type j) @ T_ident (jc_table j) # alias_toks (jc_alias j) @ T_kw ''ON'' # pr 0 (jc_on j)"

definition opt_toks :: "string list \<Rightarrow> ('a \<Rightarrow> tok list) \<Rightarrow> 'a option \<Rightarrow> tok list" where
  "opt_toks ws f x = (case x of None \<Rightarrow> [] | Some y \<Rightarrow> map T_kw ws @ f y)"

definition list_opt :: "'a list \<Rightarrow> 'a list option" where
  "list_opt xs = (if xs = [] then None else Some xs)"

definition order_toks :: "expr \<times> bool \<Rightarrow> tok list" where
  "order_toks x = pr 0 (fst x) @ (if snd x then [T_kw ''DESC''] else [])"

definition num_toks :: "nat \<Rightarrow> tok list" where
  "num_toks n = [T_num (VInt (int n))]"

definition exprs_toks :: "expr list \<Rightarrow> tok list" where
  "exprs_toks es = with_commas (map (pr 0) es)"

definition select_toks :: "select \<Rightarrow> tok list" where
  "select_toks s =
     T_kw ''SELECT'' # (if s_distinct s then [T_kw ''DISTINCT''] else []) @ with_commas (map item_toks (s_items s)) @
     T_kw ''FROM'' # T_ident (s_table s) # alias_toks (s_alias s) @ concat (map join_toks (s_joins s)) @
     opt_toks [''WHERE''] (pr 0) (s_where s) @
     opt_toks [''GROUP'', ''BY''] exprs_toks (list_opt (s_group s)) @
     opt_toks [''HAVING''] (pr 0) (s_having s) @
     opt_toks [''ORDER'', ''BY''] (\<lambda>os. with_commas (map order_toks os)) (list_opt (s_order s)) @
     opt_toks [''LIMIT''] num_toks (s_limit s) @ opt_toks [''OFFSET''] num_toks (s_offset s)"

definition parens :: "tok list \<Rightarrow> tok list" where
  "parens ks = T_op ''('' # ks @ [T_op '')'']"

definition names_toks :: "string list \<Rightarrow> tok list" where
  "names_toks ns = with_commas (map (\<lambda>n. [T_ident n]) ns)"

definition column_toks :: "column \<Rightarrow> tok list" where
  "column_toks c =
     [T_ident (cname c), T_kw (type_name (ctype c))] @ (if cpk c then [T_kw ''PRIMARY'', T_kw ''KEY''] else [])"

fun stmt_toks :: "stmt \<Rightarrow> tok list" where
  "stmt_toks (S_select s) = select_toks s"
| "stmt_toks (S_insert tab cols rws) =
     [T_kw ''INSERT'', T_kw ''INTO'', T_ident tab] @ (case cols of None \<Rightarrow> [] | Some ns \<Rightarrow> parens (names_toks ns)) @
     T_kw ''VALUES'' # with_commas (map (\<lambda>r. parens (exprs_toks r)) rws)"
| "stmt_toks (S_update tab asg w) =
     [T_kw ''UPDATE'', T_ident tab, T_kw ''SET''] @
     with_commas (map (\<lambda>(c, e). T_ident c # T_op ''='' # pr 0 e) asg) @ opt_toks [''WHERE''] (pr 0) w"
| "stmt_toks (S_delete tab w) = [T_kw ''DELETE'', T_kw ''FROM'', T_ident tab] @ opt_toks [''WHERE''] (pr 0) w"
| "stmt_toks (S_create_table nm cols) =
     [T_kw ''CREATE'', T_kw ''TABLE'', T_ident nm] @ parens (with_commas (map column_toks cols))"
| "stmt_toks (S_create_index nm tab c) =
     [T_kw ''CREATE'', T_kw ''INDEX'', T_ident nm, T_kw ''ON'', T_ident tab] @ parens [T_ident c]"
| "stmt_toks (S_drop_table nm) = [T_kw ''DROP'', T_kw ''TABLE'', T_ident nm]"
| "stmt_toks (S_drop_index nm) = [T_kw ''DROP'', T_kw ''INDEX'', T_ident nm]"
| "stmt_toks S_begin = [T_kw ''BEGIN'']"
| "stmt_toks S_commit = [T_kw ''COMMIT'']"
| "stmt_toks S_rollback = [T_kw ''ROLLBACK'']"
| "stmt_toks (S_explain st) = T_kw ''EXPLAIN'' # stmt_toks st"

section \<open>What can be written\<close>

definition opt_ok :: "('a \<Rightarrow> bool) \<Rightarrow> 'a option \<Rightarrow> bool" where
  "opt_ok P x \<longleftrightarrow> (case x of None \<Rightarrow> True | Some y \<Rightarrow> P y)"

definition item_ok :: "expr \<times> string \<Rightarrow> bool" where
  "item_ok x \<longleftrightarrow> (if fst x = Star then snd x = ''*'' else expr_ok (fst x) \<and> ident_ok (snd x))"

definition num_ok :: "nat \<Rightarrow> bool" where
  "num_ok n \<longleftrightarrow> literal_ok (VInt (int n))"

definition select_ok :: "select \<Rightarrow> bool" where
  "select_ok s \<longleftrightarrow>
     s_items s \<noteq> [] \<and> list_all item_ok (s_items s) \<and> ident_ok (s_table s) \<and> opt_ok ident_ok (s_alias s) \<and>
     list_all (\<lambda>j. ident_ok (jc_table j) \<and> opt_ok ident_ok (jc_alias j) \<and> expr_ok (jc_on j)) (s_joins s) \<and>
     opt_ok expr_ok (s_where s) \<and> list_all expr_ok (s_group s) \<and> opt_ok expr_ok (s_having s) \<and>
     list_all (\<lambda>x. expr_ok (fst x)) (s_order s) \<and> opt_ok num_ok (s_limit s) \<and> opt_ok num_ok (s_offset s)"

fun stmt_ok :: "stmt \<Rightarrow> bool" where
  "stmt_ok (S_select s) \<longleftrightarrow> select_ok s"
| "stmt_ok (S_insert tab cols rws) \<longleftrightarrow>
     ident_ok tab \<and> opt_ok (\<lambda>ns. ns \<noteq> [] \<and> list_all ident_ok ns) cols \<and> rws \<noteq> [] \<and>
     list_all (\<lambda>r. r \<noteq> [] \<and> list_all expr_ok r) rws"
| "stmt_ok (S_update tab asg w) \<longleftrightarrow>
     ident_ok tab \<and> asg \<noteq> [] \<and> list_all (\<lambda>(c, e). ident_ok c \<and> expr_ok e) asg \<and> opt_ok expr_ok w"
| "stmt_ok (S_delete tab w) \<longleftrightarrow> ident_ok tab \<and> opt_ok expr_ok w"
| "stmt_ok (S_create_table nm cols) \<longleftrightarrow>
     ident_ok nm \<and> cols \<noteq> [] \<and> list_all (\<lambda>c. ident_ok (cname c) \<and> ctype c \<in> {TInt, TFloat, TText}) cols"
| "stmt_ok (S_create_index nm tab c) \<longleftrightarrow> ident_ok nm \<and> ident_ok tab \<and> ident_ok c"
| "stmt_ok (S_drop_table nm) \<longleftrightarrow> ident_ok nm"
| "stmt_ok (S_drop_index nm) \<longleftrightarrow> ident_ok nm"
| "stmt_ok (S_explain st) \<longleftrightarrow> stmt_ok st \<and> \<not> is_explain st"
| "stmt_ok _ \<longleftrightarrow> True"

section \<open>Reading clauses\<close>

lemma ident_lower [simp]: "ident_ok s \<Longrightarrow> lower s = s"
  by (simp add: ident_ok_def)

text \<open>The tokens that may follow a clause: the end of a statement, or one of the keywords.\<close>

definition after :: "string list \<Rightarrow> tok \<Rightarrow> bool" where
  "after ws k \<longleftrightarrow> k = T_eof \<or> k = T_op '';'' \<or> is_kw ws k"

definition clause_words :: "string list" where
  "clause_words = [''JOIN'', ''LEFT'', ''RIGHT'', ''FULL'', ''WHERE'', ''GROUP'', ''HAVING'', ''ORDER'', ''LIMIT'', ''OFFSET'']"

lemma after_mono: "after ws k \<Longrightarrow> set ws \<subseteq> set vs \<Longrightarrow> after vs k"
  by (cases k) (auto simp: after_def)

lemma after_stop: "after ws k \<Longrightarrow> set ws \<subseteq> set clause_words \<Longrightarrow> stop l k"
  by (cases k) (auto simp: after_def clause_words_def)

lemma after_no_kw: "after ws k \<Longrightarrow> w \<notin> set ws \<Longrightarrow> \<not> is_kw [w] k"
  by (cases k) (auto simp: after_def)

lemma after_no_op: "after ws k \<Longrightarrow> w \<noteq> '';'' \<Longrightarrow> k \<noteq> T_op w"
  by (auto simp: after_def)

lemma after_no_ident: "after ws k \<Longrightarrow> \<not> is_ident k"
  by (cases k) (auto simp: after_def)

lemma reads_alias:
  assumes "opt_ok ident_ok al" and "\<not> is_kw [''AS''] (first rk)" and "\<not> is_ident (first rk)"
  shows "reads parse_alias (alias_toks al) rk al"
proof (cases al)
  case None
  have "reads (\<lambda>ts. if is_ident (peek ts) then (Inr (Some (word_of (peek ts))), advance ts) else (Inr None, ts)) [] rk None"
    using assms(3) by (simp add: goes_def ret_app)
  then show ?thesis
    unfolding None alias_toks_def parse_alias_def option.case
    by (intro skip_kw) (use assms(2) in simp_all)
next
  case (Some s)
  show ?thesis
    unfolding Some alias_toks_def parse_alias_def option.case
    apply (rule take_token(1), simp only: if_True)
    apply (rule take_token(5))
    using assms(1) Some by (simp_all add: opt_ok_def)
qed

lemma reads_clause:
  assumes "\<And>y. x = Some y \<Longrightarrow> reads p (map T_kw ws @ f y) rk y" and "x = None \<Longrightarrow> \<not> is_kw [w] (first rk)"
  shows "reads (clause w p) (opt_toks (w # ws) f x) rk x"
proof (cases x)
  case None
  then show ?thesis unfolding clause_def opt_toks_def using assms(2) by (auto intro: skip_kw)
next
  case (Some y)
  have "reads (bindP p (\<lambda>x. ret (Some x))) (map T_kw ws @ f y) rk (Some y)"
    by (rule goes_bind_last[where x = y], rule assms(1)[OF Some]) simp
  then show ?thesis unfolding clause_def opt_toks_def Some by (auto intro: take_token(1))
qed

lemma reads_exprs:
  assumes "list_all expr_ok es" and "es \<noteq> []" and "stop 0 (first rk)" and "first rk \<noteq> T_op '',''"
  shows "reads (comma_list parse_expression) (exprs_toks es) rk es"
  unfolding exprs_toks_def
  by (rule reads_comma_list[OF reads_expression assms(4,2)]) (use assms in \<open>auto simp: list_all_iff\<close>)

text \<open>A loop over printed parts: each part starts with a token that may follow the one before.\<close>

lemma reads_many_parts:
  assumes "\<And>x rk'. x \<in> set xs \<Longrightarrow> P (first rk') \<Longrightarrow> reads p (f x) rk' (Some x)"
    and "\<And>x ks. x \<in> set xs \<Longrightarrow> f x \<noteq> [] \<and> P (first (f x @ ks))"
    and "P (first rk)" and "reads p [] rk None"
  shows "reads (many p) (concat (map f xs)) rk xs"
  using assms(1,2)
proof (induction xs)
  case Nil
  from reads_many_end[OF assms(4)] show ?case by simp
next
  case (Cons x xs)
  have "P (first (concat (map f xs) @ rk))" using assms(3) Cons.prems(2) by (cases xs) auto
  then have "reads p (f x) (concat (map f xs) @ rk) (Some x)" using Cons.prems(1) by auto
  moreover have "reads (many p) (concat (map f xs)) rk xs" using Cons by auto
  ultimately have "reads (many p) (f x @ concat (map f xs)) rk (x # xs)" using Cons.prems(2) by (auto dest: goes_many_step)
  then show ?case by simp
qed

lemma first_append: "first (ks @ rk) = (if ks = [] then first rk else first ks)"
  by (cases ks) auto

lemma reads_join:
  assumes j: "ident_ok (jc_table j)" "opt_ok ident_ok (jc_alias j)" "expr_ok (jc_on j)" and st: "stop 0 (first rk)"
  shows "reads parse_join_opt (join_toks j) rk (Some j)"
proof -
  define ks where "ks = T_ident (jc_table j) # alias_toks (jc_alias j) @ T_kw ''ON'' # pr 0 (jc_on j)"
  have w: "reads join_word (join_kw (jc_type j)) (T_ident nm # ks') (Some (jc_type j))" for nm ks'
    by (cases "jc_type j")
      (auto simp: goes_def join_word_def bindP_app accept_kw_def accept_def expect_kw_def expect_def advance_def ret_app
        join_type_def map_eq_Cons_conv)
  have a: "reads parse_alias (alias_toks (jc_alias j)) (T_kw ''ON'' # ks') (jc_alias j)" for ks'
    by (rule reads_alias[OF j(2)]) simp_all
  show ?thesis
    unfolding join_toks_def parse_join_opt_def
    apply (rule goes_bind[where x = "Some (jc_type j)"], simp add: w)
    apply (simp only: option.case)
    apply (rule take_token(5), simp add: j)
    apply (rule goes_bind[where x = "jc_alias j"], simp add: a)
    apply (rule take_token(3))
    apply (rule goes_bind_last[where x = "jc_on j"], rule reads_expression[OF j(3) st])
    by (cases j) simp
qed

lemma reads_no_join:
  assumes "after ws (first rk)" and "set ws \<inter> {''JOIN'', ''INNER'', ''LEFT'', ''RIGHT'', ''FULL''} = {}"
  shows "reads parse_join_opt [] rk None"
proof -
  have "reads join_word [] rk None"
    using assms by (cases "first rk") (auto simp: goes_def join_word_def ret_app after_def)
  then show ?thesis unfolding parse_join_opt_def by (intro goes_bind_last[where x = None]) auto
qed

lemma reads_item:
  assumes x: "item_ok x"
  shows "reads (parse_item sql) (item_toks x) rk x"
proof (cases "fst x = Star")
  case True
  then have "x = (Star, ''*'')" using x by (cases x) (simp add: item_ok_def)
  then show ?thesis
    by (auto simp: goes_def parse_item_def item_toks_def advance_def ret_app map_eq_Cons_conv)
next
  case False
  then have e: "expr_ok (fst x)" "ident_ok (snd x)" using x by (simp_all add: item_ok_def)
  obtain k0 ks where k0: "pr 0 (fst x) = k0 # ks" "head_ok (level (fst x)) k0" using pr_head[OF e(1), of 0] by auto
  show ?thesis
    unfolding goes_def
  proof (intro allI impI, elim conjE)
    fix ts us :: "token list" assume ts: "map tk ts = item_toks x" and us: "map tk us = rk"
    obtain t1 t2 where t: "ts = t1 @ t2" "map tk t1 = pr 0 (fst x)" "map tk t2 = [T_kw ''AS'', T_ident (snd x)]"
      using ts False by (auto simp: item_toks_def map_eq_append_conv)
    have "reads parse_expression (pr 0 (fst x)) ([T_kw ''AS'', T_ident (snd x)] @ rk) (fst x)"
      by (rule reads_expression[OF e(1)]) simp
    then have pe: "parse_expression (ts @ us) = (Inr (fst x), t2 @ us)" using t us by (simp add: goes_def ret_app)
    have "reads parse_alias (alias_toks (Some (snd x))) rk (Some (snd x))"
      unfolding alias_toks_def option.case parse_alias_def
      by (rule take_token(1), simp only: if_True, rule take_token(5)) (simp_all add: e)
    then have al: "parse_alias (t2 @ us) = (Inr (Some (snd x)), us)"
      using t us by (simp add: goes_def ret_app alias_toks_def)
    have "peek (ts @ us) = k0" using t k0 by simp
    then have "\<not> is_op [''*''] (peek (ts @ us))" "\<not> agg_call (ts @ us)"
      using k0(2) by (cases k0; simp add: head_ok_def agg_call_def)+
    then show "parse_item sql (ts @ us) = ret x us"
      using pe al by (simp add: parse_item_def ret_app del: peek_first)
  qed
qed

lemma reads_order:
  assumes "expr_ok (fst x)" and "stop 0 (first rk)" and "first rk \<notin> {T_kw ''DESC'', T_kw ''ASC''}"
  shows "reads parse_order_item (order_toks x) rk x"
proof -
  obtain e d where x: "x = (e, d)" by force
  have k: "\<not> is_kw [''DESC''] (first rk)" "\<not> is_kw [''ASC''] (first rk)" using assms(3) by (cases "first rk"; auto)+
  show ?thesis
  proof (cases d)
    case True
    then show ?thesis
      unfolding parse_order_item_def order_toks_def x fst_conv snd_conv
      apply (simp only: if_True)
      apply (rule goes_bind[where x = e], rule reads_expression, use assms x in simp, simp)
      by (rule take_token(1)) simp
  next
    case False
    then show ?thesis
      unfolding parse_order_item_def order_toks_def x fst_conv snd_conv
      apply (simp only: if_False append_Nil2)
      apply (rule goes_bind_last[where x = e], rule reads_expression, use assms x in simp, use assms in simp)
      apply (rule skip_kw, simp add: k, simp only: if_False)
      by (rule skip_kw) (simp_all add: k)
  qed
qed

section \<open>Reading statements\<close>

lemma reads_int: "reads expect_int (num_toks n) rk n"
  by (auto simp: goes_def num_toks_def expect_int_def advance_def ret_app map_eq_Cons_conv)

text \<open>The end of a \<open>SELECT\<close>, clause by clause from behind.\<close>

lemma after_opt:
  assumes "after vs (first rk)" and "set vs \<subseteq> set us" and "w \<in> set us"
  shows "after us (first (opt_toks (w # ws) f x @ rk))"
  using assms after_mono[OF assms(1,2)] by (cases x) (auto simp: opt_toks_def after_def)

lemma by_clause:
  assumes "reads p ks rk y"
  shows "reads (bindP (expect_kw ''BY'') (\<lambda>_. p)) (T_kw ''BY'' # ks) rk y"
  by (rule take_token(3)) (rule assms)

lemma list_of_opt [simp]: "list_of (list_opt xs) = xs"
  by (simp add: list_of_def list_opt_def)

lemma opt_Some: "opt_ok P x \<Longrightarrow> x = Some y \<Longrightarrow> P y"
  by (simp add: opt_ok_def)

lemma reads_where:
  assumes "opt_ok expr_ok x" and "after ws (first rk)" and "w \<notin> set ws" and "set ws \<subseteq> set clause_words"
  shows "reads (clause w parse_expression) (opt_toks [w] (pr 0) x) rk x"
proof (rule reads_clause)
  fix y assume "x = Some y"
  then have "expr_ok y" using assms(1) by (simp add: opt_ok_def)
  then show "reads parse_expression (map T_kw [] @ pr 0 y) rk y"
    using reads_expression after_stop[OF assms(2,4), of 0] by simp
qed (rule after_no_kw[OF assms(2,3)])

lemma reads_limit:
  assumes "after [] (first rk)"
  shows "reads parse_limit (opt_toks [''LIMIT''] num_toks l @ opt_toks [''OFFSET''] num_toks f) rk (l, f)"
proof -
  have a: "after [''OFFSET''] (first (opt_toks [''OFFSET''] num_toks f @ rk))" by (rule after_opt[OF assms]) simp_all
  have "reads (clause ''OFFSET'' expect_int) (opt_toks [''OFFSET''] num_toks f) rk f"
    by (rule reads_clause) (use reads_int after_no_kw[OF assms, of "''OFFSET''"] in simp_all)
  moreover have "reads (clause ''LIMIT'' expect_int) (opt_toks [''LIMIT''] num_toks l) (opt_toks [''OFFSET''] num_toks f @ rk) l"
    by (rule reads_clause) (use reads_int after_no_kw[OF a, of "''LIMIT''"] in simp_all)
  ultimately show ?thesis
    unfolding parse_limit_def
    apply -
    apply (rule goes_bind[where x = l], assumption)
    apply (rule goes_bind_last[where x = f], assumption)
    by simp
qed

lemma reads_order_clause:
  assumes "list_all (\<lambda>x. expr_ok (fst x)) os" and a: "after [''LIMIT'', ''OFFSET''] (first rk)"
  shows "reads (clause ''ORDER'' (bindP (expect_kw ''BY'') (\<lambda>_. comma_list parse_order_item)))
    (opt_toks [''ORDER'', ''BY''] (\<lambda>os. with_commas (map order_toks os)) (list_opt os)) rk (list_opt os)"
proof (rule reads_clause)
  fix y assume "list_opt os = Some y"
  then have y: "y \<noteq> []" "list_all (\<lambda>x. expr_ok (fst x)) y" using assms(1) by (auto simp: list_opt_def split: if_splits)
  have st: "stop 0 (first rk)" by (rule after_stop[OF a]) (simp add: clause_words_def)
  have c: "first rk \<noteq> T_op '',''" by (rule after_no_op[OF a]) simp
  have no: "first rk \<notin> {T_kw ''DESC'', T_kw ''ASC''}" using a by (auto simp: after_def)
  have "reads (comma_list parse_order_item) (with_commas (map order_toks y)) rk y"
  proof (rule reads_comma_list[OF reads_order c y(1)])
    fix x rk' assume x: "x \<in> set y" and r: "first rk' \<in> {T_op '','', first rk}"
    show "expr_ok (fst x)" using x y(2) by (simp add: list_all_iff)
    show "stop 0 (first rk')" using r st by auto
    show "first rk' \<notin> {T_kw ''DESC'', T_kw ''ASC''}" using r no by auto
  qed
  then show "reads (bindP (expect_kw ''BY'') (\<lambda>_. comma_list parse_order_item))
      (map T_kw [''BY''] @ with_commas (map order_toks y)) rk y"
    by (simp add: by_clause)
qed (rule after_no_kw[OF a], simp)

lemma reads_group_clause:
  assumes "list_all expr_ok es" and a: "after [''HAVING'', ''ORDER'', ''LIMIT'', ''OFFSET''] (first rk)"
  shows "reads (clause ''GROUP'' (bindP (expect_kw ''BY'') (\<lambda>_. comma_list parse_expression)))
    (opt_toks [''GROUP'', ''BY''] exprs_toks (list_opt es)) rk (list_opt es)"
proof (rule reads_clause)
  fix y assume "list_opt es = Some y"
  then have y: "y \<noteq> []" "list_all expr_ok y" using assms(1) by (auto simp: list_opt_def split: if_splits)
  have "reads (comma_list parse_expression) (exprs_toks y) rk y"
    by (rule reads_exprs[OF y(2,1) after_stop[OF a] after_no_op[OF a]]) (simp_all add: clause_words_def)
  then show "reads (bindP (expect_kw ''BY'') (\<lambda>_. comma_list parse_expression)) (map T_kw [''BY''] @ exprs_toks y) rk y"
    by (simp add: by_clause)
qed (rule after_no_kw[OF a], simp)

definition tail_words :: "string list" where
  "tail_words = [''WHERE'', ''GROUP'', ''HAVING'', ''ORDER'', ''LIMIT'', ''OFFSET'']"

lemma join_starts: "join_toks j \<noteq> [] \<and> after clause_words (first (join_toks j @ ks))"
  by (cases "jc_type j") (simp_all add: join_toks_def after_def clause_words_def)

lemma tail_clause: "after tail_words k \<Longrightarrow> after clause_words k"
  by (erule after_mono) (simp add: tail_words_def clause_words_def)

lemma reads_joins:
  assumes "list_all (\<lambda>j. ident_ok (jc_table j) \<and> opt_ok ident_ok (jc_alias j) \<and> expr_ok (jc_on j)) js"
    and a: "after tail_words (first rk)"
  shows "reads (many parse_join_opt) (concat (map join_toks js)) rk js \<and> after clause_words (first (concat (map join_toks js) @ rk))"
proof
  show "reads (many parse_join_opt) (concat (map join_toks js)) rk js"
  proof (rule reads_many_parts[where P = "after clause_words"])
    fix j rk' assume j: "j \<in> set js" and r: "after clause_words (first rk')"
    have "ident_ok (jc_table j)" "opt_ok ident_ok (jc_alias j)" "expr_ok (jc_on j)"
      using assms(1) j by (simp_all add: list_all_iff)
    then show "reads parse_join_opt (join_toks j) rk' (Some j)" by (rule reads_join) (rule after_stop[OF r order_refl])
  qed (rule join_starts, rule tail_clause[OF a], rule reads_no_join[OF a], simp add: tail_words_def)
  show "after clause_words (first (concat (map join_toks js) @ rk))"
    using join_starts[of "hd js"] tail_clause[OF a] by (cases js) simp_all
qed

lemma reads_items:
  assumes "list_all item_ok xs" and "xs \<noteq> []"
  shows "reads (comma_list (parse_item sql)) (with_commas (map item_toks xs)) (T_kw ''FROM'' # rk) xs"
proof (rule reads_comma_list)
  fix x rk' assume "x \<in> set xs"
  then show "reads (parse_item sql) (item_toks x) rk' x" using assms(1) by (intro reads_item) (simp add: list_all_iff)
qed (use assms in simp_all)

lemma reads_distinct:
  assumes "list_all item_ok xs" and "xs \<noteq> []"
  shows "reads (accept_kw ''DISTINCT'') (if b then [T_kw ''DISTINCT''] else []) (with_commas (map item_toks xs) @ rk) b"
proof -
  obtain y ys where x: "xs = y # ys" "item_ok y" using assms by (cases xs) auto
  have "\<exists>k ks. item_toks y = k # ks \<and> \<not> is_kw [''DISTINCT''] k"
  proof (cases "fst y = Star")
    case False
    then have "expr_ok (fst y)" using x(2) by (simp add: item_ok_def)
    from pr_head[OF this, of 0] obtain k ks where "pr 0 (fst y) = k # ks" "head_ok (level (fst y)) k" by auto
    then show ?thesis using False by (cases k) (auto simp: item_toks_def head_ok_def)
  qed (simp add: item_toks_def)
  then show ?thesis using x(1) by (auto simp: with_commas_Cons)
qed

definition tail_toks :: "select \<Rightarrow> tok list" where
  "tail_toks s =
     opt_toks [''WHERE''] (pr 0) (s_where s) @
     opt_toks [''GROUP'', ''BY''] exprs_toks (list_opt (s_group s)) @
     opt_toks [''HAVING''] (pr 0) (s_having s) @
     opt_toks [''ORDER'', ''BY''] (\<lambda>os. with_commas (map order_toks os)) (list_opt (s_order s)) @
     opt_toks [''LIMIT''] num_toks (s_limit s) @ opt_toks [''OFFSET''] num_toks (s_offset s)"

lemma reads_tail:
  assumes s: "select_ok s" and end': "after [] (first rk)"
  shows "reads (bindP (clause ''WHERE'' parse_expression) (\<lambda>w.
     bindP (clause ''GROUP'' (bindP (expect_kw ''BY'') (\<lambda>_. comma_list parse_expression))) (\<lambda>g.
     bindP (clause ''HAVING'' parse_expression) (\<lambda>h.
     bindP (clause ''ORDER'' (bindP (expect_kw ''BY'') (\<lambda>_. comma_list parse_order_item))) (\<lambda>ord.
     bindP parse_limit (\<lambda>(l, f). ret (F w g h ord l f)))))))
     (tail_toks s) rk
     (F (s_where s) (list_opt (s_group s)) (s_having s) (list_opt (s_order s)) (s_limit s) (s_offset s)) \<and>
     after tail_words (first (tail_toks s @ rk))"
proof -
  define r5 where "r5 = (opt_toks [''LIMIT''] num_toks (s_limit s) @ opt_toks [''OFFSET''] num_toks (s_offset s)) @ rk"
  define r4 where "r4 = opt_toks [''ORDER'', ''BY''] (\<lambda>os. with_commas (map order_toks os)) (list_opt (s_order s)) @ r5"
  define r3 where "r3 = opt_toks [''HAVING''] (pr 0) (s_having s) @ r4"
  define r2 where "r2 = opt_toks [''GROUP'', ''BY''] exprs_toks (list_opt (s_group s)) @ r3"
  have "after [''OFFSET''] (first (opt_toks [''OFFSET''] num_toks (s_offset s) @ rk))" by (rule after_opt[OF end']) simp_all
  then have a5: "after [''LIMIT'', ''OFFSET''] (first r5)" unfolding r5_def append.assoc by (rule after_opt) simp_all
  have a4: "after [''ORDER'', ''LIMIT'', ''OFFSET''] (first r4)" unfolding r4_def by (rule after_opt[OF a5]) simp_all
  have a3: "after [''HAVING'', ''ORDER'', ''LIMIT'', ''OFFSET''] (first r3)" unfolding r3_def by (rule after_opt[OF a4]) simp_all
  have a2: "after [''GROUP'', ''HAVING'', ''ORDER'', ''LIMIT'', ''OFFSET''] (first r2)" unfolding r2_def by (rule after_opt[OF a3]) simp_all
  have a1: "after tail_words (first (opt_toks [''WHERE''] (pr 0) (s_where s) @ r2))"
    unfolding tail_words_def by (rule after_opt[OF a2]) simp_all
  have ok: "opt_ok expr_ok (s_where s)" "list_all expr_ok (s_group s)" "opt_ok expr_ok (s_having s)"
    "list_all (\<lambda>x. expr_ok (fst x)) (s_order s)"
    using s by (simp_all add: select_ok_def)
  note c5 = reads_limit[OF end', of "s_limit s" "s_offset s"]
  note c4 = reads_order_clause[OF ok(4) a5]
  have c3: "reads (clause ''HAVING'' parse_expression) (opt_toks [''HAVING''] (pr 0) (s_having s)) r4 (s_having s)"
    by (rule reads_where[OF ok(3) a4]) (simp_all add: clause_words_def)
  note c2 = reads_group_clause[OF ok(2) a3]
  have c1: "reads (clause ''WHERE'' parse_expression) (opt_toks [''WHERE''] (pr 0) (s_where s)) r2 (s_where s)"
    by (rule reads_where[OF ok(1) a2]) (simp_all add: clause_words_def)
  show ?thesis
  proof
    show "after tail_words (first (tail_toks s @ rk))"
      using a1 by (simp add: tail_toks_def r2_def r3_def r4_def r5_def)
  next
    have t: "tail_toks s = opt_toks [''WHERE''] (pr 0) (s_where s) @
      (opt_toks [''GROUP'', ''BY''] exprs_toks (list_opt (s_group s)) @
      (opt_toks [''HAVING''] (pr 0) (s_having s) @
      (opt_toks [''ORDER'', ''BY''] (\<lambda>os. with_commas (map order_toks os)) (list_opt (s_order s)) @
      (opt_toks [''LIMIT''] num_toks (s_limit s) @ opt_toks [''OFFSET''] num_toks (s_offset s)))))"
      by (simp add: tail_toks_def)
    have e: "(opt_toks [''LIMIT''] num_toks (s_limit s) @ opt_toks [''OFFSET''] num_toks (s_offset s)) @ rk = r5"
      "(opt_toks [''ORDER'', ''BY''] (\<lambda>os. with_commas (map order_toks os)) (list_opt (s_order s)) @
        (opt_toks [''LIMIT''] num_toks (s_limit s) @ opt_toks [''OFFSET''] num_toks (s_offset s))) @ rk = r4"
      "(opt_toks [''HAVING''] (pr 0) (s_having s) @
      (opt_toks [''ORDER'', ''BY''] (\<lambda>os. with_commas (map order_toks os)) (list_opt (s_order s)) @
      (opt_toks [''LIMIT''] num_toks (s_limit s) @ opt_toks [''OFFSET''] num_toks (s_offset s)))) @ rk = r3"
      "(opt_toks [''GROUP'', ''BY''] exprs_toks (list_opt (s_group s)) @
      (opt_toks [''HAVING''] (pr 0) (s_having s) @
      (opt_toks [''ORDER'', ''BY''] (\<lambda>os. with_commas (map order_toks os)) (list_opt (s_order s)) @
      (opt_toks [''LIMIT''] num_toks (s_limit s) @ opt_toks [''OFFSET''] num_toks (s_offset s))))) @ rk = r2"
      by (simp_all add: r5_def r4_def r3_def r2_def)
    show "reads (bindP (clause ''WHERE'' parse_expression) (\<lambda>w.
     bindP (clause ''GROUP'' (bindP (expect_kw ''BY'') (\<lambda>_. comma_list parse_expression))) (\<lambda>g.
     bindP (clause ''HAVING'' parse_expression) (\<lambda>h.
     bindP (clause ''ORDER'' (bindP (expect_kw ''BY'') (\<lambda>_. comma_list parse_order_item))) (\<lambda>ord.
     bindP parse_limit (\<lambda>(l, f). ret (F w g h ord l f)))))))
     (tail_toks s) rk
     (F (s_where s) (list_opt (s_group s)) (s_having s) (list_opt (s_order s)) (s_limit s) (s_offset s))"
      unfolding t
      apply (rule goes_bind, (subst e)?, rule c1)
      apply (rule goes_bind, (subst e)?, rule c2)
      apply (rule goes_bind, (subst e)?, rule c3)
      apply (rule goes_bind, (subst e)?, rule c4)
      apply (rule goes_bind_last, rule c5)
      by simp
  qed
qed

lemma reads_select:
  assumes s: "select_ok s" and e: "after [] (first rk)"
  shows "reads (parse_select sql) (select_toks s) rk s"
proof -
  have ok: "list_all item_ok (s_items s)" "s_items s \<noteq> []" "lower (s_table s) = s_table s" "opt_ok ident_ok (s_alias s)"
    "list_all (\<lambda>j. ident_ok (jc_table j) \<and> opt_ok ident_ok (jc_alias j) \<and> expr_ok (jc_on j)) (s_joins s)"
    using s by (simp_all add: select_ok_def)
  let ?F = "\<lambda>w g h ord l f. \<lparr>s_distinct = s_distinct s, s_table = s_table s, s_alias = s_alias s, s_joins = s_joins s,
    s_where = w, s_items = s_items s, s_group = list_of g, s_having = h, s_order = list_of ord, s_limit = l, s_offset = f\<rparr>"
  note T = reads_tail[OF s e, of ?F]
  note J = reads_joins[OF ok(5) conjunct2[OF T]]
  have al: "reads parse_alias (alias_toks (s_alias s)) ((concat (map join_toks (s_joins s)) @ tail_toks s) @ rk) (s_alias s)"
    using J after_no_kw[of clause_words _ "''AS''"] after_no_ident by (intro reads_alias ok(4)) (auto simp: clause_words_def)
  have t: "select_toks s = T_kw ''SELECT'' # (if s_distinct s then [T_kw ''DISTINCT''] else []) @ (with_commas (map item_toks (s_items s)) @
     (T_kw ''FROM'' # T_ident (s_table s) # (alias_toks (s_alias s) @ (concat (map join_toks (s_joins s)) @ tail_toks s))))"
    by (simp add: select_toks_def tail_toks_def)
  show ?thesis
    unfolding t parse_select_def
    apply (rule take_token(3))
    apply (rule goes_bind[where x = "s_distinct s"], subst append.assoc, rule reads_distinct[OF ok(1,2)])
    apply (rule goes_bind[where x = "s_items s"], subst append_Cons, rule reads_items[OF ok(1,2)])
    apply (rule take_token(3))
    apply (rule take_token(5)[OF ok(3)])
    apply (rule goes_bind[where x = "s_alias s"], rule al)
    apply (rule goes_bind[where x = "s_joins s"], rule conjunct1[OF J])
    using conjunct1[OF T] by (cases s) simp
qed

lemma reads_parens:
  assumes "reads p ks (T_op '')'' # rk) x"
  shows "reads (in_parens p) (parens ks) rk x"
  unfolding in_parens_def parens_def
  apply (rule take_token(4))
  apply (rule goes_bind[where x = x], use assms in simp)
  by (rule take_token(4)) simp

lemma reads_names:
  assumes "list_all ident_ok ns" and "ns \<noteq> []" and "first rk \<noteq> T_op '',''"
  shows "reads (comma_list expect_ident) (names_toks ns) rk ns"
  unfolding names_toks_def
  by (rule reads_comma_list[OF reads_ident assms(3,2)]) (use assms(1) in \<open>simp add: list_all_iff\<close>)

lemma reads_insert:
  assumes s: "stmt_ok (S_insert tab cols rws)" and e: "after [] (first rk)"
  shows "reads parse_insert (stmt_toks (S_insert tab cols rws)) rk (S_insert tab cols rws)"
proof -
  have ok: "lower tab = tab" "opt_ok (\<lambda>ns. ns \<noteq> [] \<and> list_all ident_ok ns) cols" "rws \<noteq> []"
    "list_all (\<lambda>r. r \<noteq> [] \<and> list_all expr_ok r) rws"
    using s by simp_all
  have cols: "reads (\<lambda>ts. if is_op [''(''] (peek ts) then bindP (in_parens (comma_list expect_ident)) (\<lambda>cs. ret (Some cs)) ts
                else (Inr None, ts))
      (case cols of None \<Rightarrow> [] | Some ns \<Rightarrow> parens (names_toks ns)) (T_kw ''VALUES'' # r) cols" for r
  proof (cases cols)
    case None
    then show ?thesis by (simp add: goes_def ret_app)
  next
    case (Some ns)
    have n: "reads (comma_list expect_ident) (names_toks ns) (T_op '')'' # T_kw ''VALUES'' # r) ns"
      by (rule reads_names) (use ok(2) Some in \<open>simp_all add: opt_ok_def\<close>)
    have "reads (bindP (in_parens (comma_list expect_ident)) (\<lambda>cs. ret (Some cs))) (parens (names_toks ns)) (T_kw ''VALUES'' # r) (Some ns)"
      by (rule goes_bind_last[where x = ns], rule reads_parens[OF n]) simp
    then show ?thesis using Some by (auto simp: goes_def parens_def)
  qed
  have rows: "reads (comma_list (in_parens (comma_list parse_expression))) (with_commas (map (\<lambda>r. parens (exprs_toks r)) rws)) rk rws"
  proof (rule reads_comma_list[OF _ after_no_op[OF e] ok(3)])
    fix r rk' assume "r \<in> set rws"
    then have "r \<noteq> []" "list_all expr_ok r" using ok(4) by (simp_all add: list_all_iff)
    then show "reads (in_parens (comma_list parse_expression)) (parens (exprs_toks r)) rk' r"
      by (intro reads_parens reads_exprs) simp_all
  qed simp
  show ?thesis
    unfolding parse_insert_def stmt_toks.simps append_Cons append_Nil
    apply (rule take_token(3), rule take_token(3), rule take_token(5)[OF ok(1)])
    apply (rule goes_bind[where x = cols], simp only: append_Cons, rule cols)
    apply (rule take_token(3))
    apply (rule goes_bind_last[where x = rws], rule rows)
    by simp
qed

lemma reads_delete:
  assumes s: "stmt_ok (S_delete tab w)" and e: "after [] (first rk)"
  shows "reads parse_delete (stmt_toks (S_delete tab w)) rk (S_delete tab w)"
proof -
  have ok: "lower tab = tab" "opt_ok expr_ok w" using s by simp_all
  show ?thesis
    unfolding parse_delete_def stmt_toks.simps append_Cons append_Nil
    apply (rule take_token(3), rule take_token(3), rule take_token(5)[OF ok(1)])
    apply (rule goes_bind_last[where x = w], rule reads_where[OF ok(2) e])
    by simp_all
qed

lemma reads_update:
  assumes s: "stmt_ok (S_update tab asg w)" and e: "after [] (first rk)"
  shows "reads parse_update (stmt_toks (S_update tab asg w)) rk (S_update tab asg w)"
proof -
  have ok: "lower tab = tab" "asg \<noteq> []" "list_all (\<lambda>(c, e). ident_ok c \<and> expr_ok e) asg" "opt_ok expr_ok w"
    using s by simp_all
  let ?r = "opt_toks [''WHERE''] (pr 0) w @ rk"
  have a: "after [''WHERE''] (first ?r)" by (rule after_opt[OF e]) simp_all
  have st: "stop 0 (first ?r)" by (rule after_stop[OF a]) (simp add: clause_words_def)
  have sets: "reads (comma_list parse_assignment) (with_commas (map (\<lambda>(c, e). T_ident c # T_op ''='' # pr 0 e) asg)) ?r asg"
  proof (rule reads_comma_list[OF _ after_no_op[OF a] ok(2)])
    fix x rk' assume x: "x \<in> set asg" and r: "first rk' \<in> {T_op '','', first ?r}"
    obtain c e where ce: "x = (c, e)" "lower c = c" "expr_ok e" using ok(3) x by (cases x) (auto simp: list_all_iff)
    have "stop 0 (first rk')" using r st by auto
    then show "reads parse_assignment (case x of (c, e) \<Rightarrow> T_ident c # T_op ''='' # pr 0 e) rk' x"
      unfolding ce(1) prod.case parse_assignment_def
      apply -
      apply (rule take_token(5)[OF ce(2)], rule take_token(4))
      apply (rule goes_bind_last[where x = e], rule reads_expression[OF ce(3)], assumption)
      by simp
  qed simp
  show ?thesis
    unfolding parse_update_def stmt_toks.simps append_Cons append_Nil
    apply (rule take_token(3), rule take_token(5)[OF ok(1)], rule take_token(3))
    apply (rule goes_bind[where x = asg], rule sets)
    apply (rule goes_bind_last[where x = w], rule reads_where[OF ok(4) e])
    by simp_all
qed

lemma reads_column:
  assumes "ident_ok (cname c)" and "ctype c \<in> {TInt, TFloat, TText}" and "first rk \<noteq> T_kw ''PRIMARY''"
  shows "reads parse_column (column_toks c) rk c"
proof -
  have t: "reads parse_type [T_kw (type_name (ctype c))] rk' (ctype c)" for rk'
    using assms(2) by (auto simp: goes_def parse_type_def advance_def type_of_name_def ret_app map_eq_Cons_conv)
  have p: "\<not> is_kw [''PRIMARY''] (first rk)" using assms(3) by (cases "first rk") auto
  have pk: "reads (accept_kw ''PRIMARY'') [] rk False" using p by simp
  show ?thesis
  proof (cases "cpk c")
    case True
    then show ?thesis
      unfolding parse_column_def column_toks_def append_Cons append_Nil
      apply (simp only: if_True)
      apply (rule take_token(5), simp add: assms(1))
      apply (rule goes_bind_Cons[where x = "ctype c"], rule t)
      apply (rule take_token(1), simp only: if_True)
      apply (rule take_token(3))
      by (cases c) simp
  next
    case False
    then show ?thesis
      unfolding parse_column_def column_toks_def append_Cons append_Nil
      apply (simp only: if_False)
      apply (rule take_token(5), simp add: assms(1))
      apply (rule goes_bind_Cons[where x = "ctype c"], rule t)
      apply (rule skip_kw, simp add: p, simp only: if_False)
      apply (rule goes_bind_last[where x = "()"], simp)
      by (cases c) simp
  qed
qed

lemma reads_create_table:
  assumes s: "stmt_ok (S_create_table nm cols)"
  shows "reads parse_create (stmt_toks (S_create_table nm cols)) rk (S_create_table nm cols)"
proof -
  have ok: "lower nm = nm" "cols \<noteq> []" "list_all (\<lambda>c. ident_ok (cname c) \<and> ctype c \<in> {TInt, TFloat, TText}) cols"
    using s by simp_all
  have cs: "reads (comma_list parse_column) (with_commas (map column_toks cols)) (T_op '')'' # rk) cols"
  proof (rule reads_comma_list[OF _ _ ok(2)])
    fix c rk' assume "c \<in> set cols" "first rk' \<in> {T_op '','', first (T_op '')'' # rk)}"
    then show "reads parse_column (column_toks c) rk' c" using ok(3) by (intro reads_column) (auto simp: list_all_iff)
  qed simp
  show ?thesis
    unfolding parse_create_def stmt_toks.simps append_Cons append_Nil
    apply (rule take_token(3), rule take_token(1), simp only: if_True, rule take_token(5)[OF ok(1)])
    apply (rule goes_bind_last[where x = cols], rule reads_parens[OF cs])
    by simp
qed

lemma reads_create_index:
  assumes s: "stmt_ok (S_create_index nm tab c)"
  shows "reads parse_create (stmt_toks (S_create_index nm tab c)) rk (S_create_index nm tab c)"
proof -
  have ok: "lower nm = nm" "lower tab = tab" "lower c = c" using s by simp_all
  have cs: "reads (in_parens expect_ident) (parens [T_ident c]) rk c" by (rule reads_parens) (simp add: ok)
  show ?thesis
    unfolding parse_create_def stmt_toks.simps append_Cons append_Nil
    apply (rule take_token(3), rule skip_kw, simp, simp only: if_False)
    apply (rule take_token(1), simp only: if_True, rule take_token(5)[OF ok(1)])
    apply (rule take_token(3), rule take_token(5)[OF ok(2)])
    apply (rule goes_bind_last[where x = c], rule cs)
    by simp
qed

lemma reads_drop:
  "lower nm = nm \<Longrightarrow> reads parse_drop [T_kw ''TABLE'', T_ident nm] rk (S_drop_table nm)"
  "lower nm = nm \<Longrightarrow> reads parse_drop [T_kw ''INDEX'', T_ident nm] rk (S_drop_index nm)"
  unfolding parse_drop_def
  subgoal
    apply (rule take_token(1), simp only: if_True)
    apply (rule take_token(5)) by simp_all
  subgoal
    apply (rule skip_kw, simp, simp only: if_False)
    apply (rule take_token(1), simp only: if_True)
    apply (rule take_token(5)) by simp_all
  done

text \<open>Every statement that can be written is read back.\<close>

lemma stmt_first:
  assumes "\<And>t ts. tk t = k \<Longrightarrow> parse_stmt sql (t # ts) = q (t # ts)" and "reads q (k # ks) rk st"
  shows "reads (parse_stmt sql) (k # ks) rk st"
  using goes_Cons[of k "parse_stmt sql" q] assms by blast

lemma stmt_drop:
  assumes "reads parse_drop ks rk st"
  shows "reads (parse_stmt sql) (T_kw ''DROP'' # ks) rk st"
  unfolding goes_def
proof (intro allI impI, elim conjE)
  fix ts us :: "token list" assume ts: "map tk ts = T_kw ''DROP'' # ks" and us: "map tk us = rk"
  then obtain t ts' where t: "ts = t # ts'" "tk t = T_kw ''DROP''" "map tk ts' = ks" by auto
  then have "parse_drop (ts' @ us) = ret st us" using assms us by (simp add: goes_def)
  then show "parse_stmt sql (ts @ us) = ret st us" using t by simp
qed

lemma reads_stmt:
  assumes "stmt_ok st" and "after [] (first rk)"
  shows "reads (parse_stmt sql) (stmt_toks st) rk st"
  using assms(1)
proof (induction st)
  case (S_select s)
  have "reads (bindP (parse_select sql) (\<lambda>s. ret (S_select s))) (select_toks s) rk (S_select s)"
    by (rule goes_bind_last[where x = s], rule reads_select) (use S_select assms(2) in simp_all)
  then show ?case unfolding stmt_toks.simps select_toks_def by (rule stmt_first[rotated]) simp
next
  case (S_insert tab cols rws)
  from reads_insert[OF this assms(2)] show ?case unfolding stmt_toks.simps append_Cons by (rule stmt_first[rotated]) simp
next
  case (S_update tab asg w)
  from reads_update[OF this assms(2)] show ?case unfolding stmt_toks.simps append_Cons by (rule stmt_first[rotated]) simp
next
  case (S_delete tab w)
  from reads_delete[OF this assms(2)] show ?case unfolding stmt_toks.simps append_Cons by (rule stmt_first[rotated]) simp
next
  case (S_create_table nm cols)
  from reads_create_table[OF this] show ?case unfolding stmt_toks.simps append_Cons by (rule stmt_first[rotated]) simp
next
  case (S_create_index nm tab c)
  from reads_create_index[OF this] show ?case unfolding stmt_toks.simps append_Cons by (rule stmt_first[rotated]) simp
next
  case (S_drop_table nm)
  then show ?case using stmt_drop[OF reads_drop(1)] by simp
next
  case (S_drop_index nm)
  then show ?case using stmt_drop[OF reads_drop(2)] by simp
next
  case (S_explain st)
  then have "reads (parse_stmt sql) (stmt_toks st) rk st" by simp
  then show ?case using S_explain.prems by (auto simp: goes_def ret_app bindP_app map_eq_Cons_conv)
qed (auto simp: goes_def ret_app map_eq_Cons_conv)

end
