(* ===== verification/PrintText.thy ===== *)
theory PrintText
  imports PrintStmt
begin





definition op_texts :: "string list" where
  "op_texts = [''<='', ''>='', ''<>'', ''='', ''<'', ''>'', '';'', '','', ''('', '')'', ''*'', ''.'', ''+'', ''-'', ''/'']"

fun tok_ok :: "tok \<Rightarrow> bool" where
  "tok_ok (T_str s) \<longleftrightarrow> True"
| "tok_ok (T_num v) \<longleftrightarrow> (case v of VInt i \<Rightarrow> literal_ok v | _ \<Rightarrow> False)"
| "tok_ok (T_kw s) \<longleftrightarrow> s \<in> set KEYWORDS"
| "tok_ok (T_ident s) \<longleftrightarrow> ident_ok s"
| "tok_ok (T_op s) \<longleftrightarrow> s \<in> set op_texts"
| "tok_ok T_eof \<longleftrightarrow> False"


section \<open>Characters\<close>




lemma ident_char_ascii: "ident_char c \<Longrightarrow> c < 128 \<and> \<not> is_space c \<and> c \<noteq> 39"
  by (auto simp: ident_char_def ident_start_def is_space_def)














section \<open>Texts\<close>


section \<open>Printed tokens have a text\<close>

declare tok_ok.simps(3,5) [simp del]


lemma tok_ok_simps [simp]:
  "tok_ok (T_op ''('')" "tok_ok (T_op '')'')" "tok_ok (T_op '','')" "tok_ok (T_op ''.'')" "tok_ok (T_op ''*'')"
  "tok_ok (T_op ''='')" "tok_ok (T_op ''-'')"
  by (simp_all add: tok_ok.simps op_texts_def)


lemma kw_ok [simp]:
  "tok_ok (T_kw ''NOT'')" "tok_ok (T_kw ''IS'')" "tok_ok (T_kw ''NULL'')" "tok_ok (T_kw ''BETWEEN'')" "tok_ok (T_kw ''AND'')"
  "tok_ok (T_kw ''IN'')" "tok_ok (T_kw ''LIKE'')" "tok_ok (T_kw ''AS'')" "tok_ok (T_kw ''ON'')" "tok_ok (T_kw ''SELECT'')"
  "tok_ok (T_kw ''DISTINCT'')" "tok_ok (T_kw ''FROM'')" "tok_ok (T_kw ''WHERE'')" "tok_ok (T_kw ''GROUP'')" "tok_ok (T_kw ''BY'')"
  "tok_ok (T_kw ''HAVING'')" "tok_ok (T_kw ''ORDER'')" "tok_ok (T_kw ''LIMIT'')" "tok_ok (T_kw ''OFFSET'')" "tok_ok (T_kw ''DESC'')"
  "tok_ok (T_kw ''JOIN'')" "tok_ok (T_kw ''LEFT'')" "tok_ok (T_kw ''RIGHT'')" "tok_ok (T_kw ''FULL'')" "tok_ok (T_kw ''INSERT'')"
  "tok_ok (T_kw ''INTO'')" "tok_ok (T_kw ''VALUES'')" "tok_ok (T_kw ''UPDATE'')" "tok_ok (T_kw ''SET'')" "tok_ok (T_kw ''DELETE'')"
  "tok_ok (T_kw ''CREATE'')" "tok_ok (T_kw ''TABLE'')" "tok_ok (T_kw ''INDEX'')" "tok_ok (T_kw ''DROP'')" "tok_ok (T_kw ''BEGIN'')"
  "tok_ok (T_kw ''COMMIT'')" "tok_ok (T_kw ''ROLLBACK'')" "tok_ok (T_kw ''EXPLAIN'')" "tok_ok (T_kw ''PRIMARY'')" "tok_ok (T_kw ''KEY'')"
  "tok_ok (T_kw ''INT'')" "tok_ok (T_kw ''FLOAT'')" "tok_ok (T_kw ''TEXT'')"
  by (simp_all add: tok_ok.simps KEYWORDS_def)






















section \<open>Parsing what was printed\<close>






end
