(* ===== verification/Preserve.thy ===== *)
theory Preserve
  imports Maintain PagerTxn
begin

text \<open>
  Invariants that every operation keeps, whatever it returns: a locale for stores whose four primitive
  operations keep a predicate, the lemma for each tree operation, and the interpretation on the pager
  inside a transaction.
\<close>

named_theorems keeps \<open>programs that keep an invariant on every outcome\<close>

definition keeping :: "('s \<Rightarrow> bool) \<Rightarrow> ('s, 'a) prog \<Rightarrow> bool" where
  "keeping I m \<longleftrightarrow> (\<forall>s. I s \<longrightarrow> I (snd (m s)))"

lemma keepingD: "keeping I m \<Longrightarrow> I s \<Longrightarrow> m s = (r, s') \<Longrightarrow> I s'"
  by (auto simp: keeping_def)

lemma keeping_ret [keeps]: "keeping I (ret x)"
  by (simp add: keeping_def)

lemma keeping_raise [keeps]: "keeping I (raise x)"
  by (simp add: keeping_def)

lemma keeping_liftE [keeps]: "keeping I (liftE r)"
  by (simp add: keeping_def)

lemma keeping_bind [keeps]: "keeping I m \<Longrightarrow> (\<And>x. keeping I (f x)) \<Longrightarrow> keeping I (bindP m f)"
  by (auto simp: keeping_def bindP_def split: prod.split sum.split)

lemma keeping_if [keeps]: "(b \<Longrightarrow> keeping I m) \<Longrightarrow> (\<not> b \<Longrightarrow> keeping I m') \<Longrightarrow> keeping I (if b then m else m')"
  by simp

lemma keeping_option [keeps]:
  "keeping I m \<Longrightarrow> (\<And>x. keeping I (f x)) \<Longrightarrow> keeping I (case r of None \<Rightarrow> m | Some x \<Rightarrow> f x)"
  by (cases r) auto

lemma keeping_node [keeps]:
  "(\<And>cs nx. keeping I (f cs nx)) \<Longrightarrow> (\<And>ks ch. keeping I (g ks ch)) \<Longrightarrow>
   keeping I (case nd of Leaf cs nx \<Rightarrow> f cs nx | Internal ks ch \<Rightarrow> g ks ch)"
  by (cases nd) auto

lemma keeping_pair [keeps]: "(\<And>x y. keeping I (f x y)) \<Longrightarrow> keeping I (case p of (x, y) \<Rightarrow> f x y)"
  by (cases p) auto

lemma keeping_list [keeps]:
  "keeping I m \<Longrightarrow> (\<And>x xs. keeping I (f x xs)) \<Longrightarrow> keeping I (case l of [] \<Rightarrow> m | x # xs \<Rightarrow> f x xs)"
  by (cases l) auto

locale invariant_store =
  fixes st :: "'s store" and I :: "'s \<Rightarrow> bool"
  assumes load: "keeping I (st_load st n)"
    and mut: "keeping I (st_mut st n nd)"
    and writing: "keeping I (st_write st n b)"
    and alloc: "keeping I (st_alloc st)"
begin

lemma write_node: "keeping I (write_node st n nd)"
  unfolding write_node_def by (intro keeps writing)

lemmas steps = keeps load mut alloc write_node

lemma search: "keeping I (search st fuel n key)"
  by (induction fuel arbitrary: n) (auto simp: Let_def intro!: steps)

lemma split_leaf: "keeping I (split_leaf st n cs nxt)"
  unfolding split_leaf_def Let_def by (intro steps)

lemma split_internal: "keeping I (split_internal st n ks ch)"
  unfolding split_internal_def Let_def by (intro steps)

lemma ins: "keeping I (ins st ps fuel n key v)"
  by (induction fuel arbitrary: n) (auto simp: Let_def intro!: steps split_leaf split_internal)

lemma tree_insert: "keeping I (tree_insert st ps fuel root key v)"
  unfolding tree_insert_def by (intro steps ins)

lemma replace_cell: "keeping I (replace_cell st fuel n key v)"
  by (induction fuel arbitrary: n) (auto simp: Let_def intro!: steps)

lemma tree_upsert: "keeping I (tree_upsert st ps fuel root key v)"
proof -
  have "I (snd (case tree_insert st ps fuel root key v s of
      (Inl (DuplicateKey k), s1) \<Rightarrow> bindP (replace_cell st fuel root key v) (\<lambda>_. ret root) s1 | r \<Rightarrow> r))" if "I s" for s
  proof -
    obtain r s1 where r: "tree_insert st ps fuel root key v s = (r, s1)" by fastforce
    have "I s1" by (rule keepingD[OF tree_insert that r])
    have "keeping I (bindP (replace_cell st fuel root key v) (\<lambda>_. ret root))" by (intro keeps replace_cell)
    then have "I (snd (bindP (replace_cell st fuel root key v) (\<lambda>_. ret root) s1))"
      using \<open>I s1\<close> by (simp add: keeping_def)
    then show ?thesis using r \<open>I s1\<close> by (auto split: sum.split exn.split)
  qed
  then show ?thesis by (simp add: tree_upsert_def keeping_def)
qed

lemma borrow_from_left: "keeping I (borrow_from_left st pn lp cp ks children i left child)"
  unfolding borrow_from_left_def Let_def prod.case by (intro steps)

lemma borrow_from_right: "keeping I (borrow_from_right st pn cp rp ks children i child right)"
  unfolding borrow_from_right_def Let_def prod.case by (intro steps)

lemma merge_nodes: "keeping I (merge_nodes st lp low high sep)"
  unfolding merge_nodes_def Let_def prod.case by (intro steps)

lemma rebalance: "keeping I (rebalance st ps pn ks children i)"
  unfolding rebalance_def try_left_def try_right_def do_merge_def
  by (intro steps borrow_from_left borrow_from_right merge_nodes)

lemma del: "keeping I (del st ps fuel n key)"
  by (induction fuel arbitrary: n) (auto simp: Let_def intro!: steps rebalance)

lemma collapse_root: "keeping I (collapse_root st fuel root)"
  by (induction fuel arbitrary: root) (auto intro!: steps)

lemma tree_delete: "keeping I (tree_delete st ps fuel root key)"
  unfolding tree_delete_def by (intro steps del collapse_root)

lemma find_leaf: "keeping I (find_leaf st fuel n lo)"
  by (induction fuel arbitrary: n) (auto intro!: steps)

lemma scan_leaves: "keeping I (scan_leaves st fuel n lo hi)"
  by (induction fuel arbitrary: n) (auto simp: Let_def intro!: steps)

lemma range_scan: "keeping I (range_scan st fuel root lo hi)"
  unfolding range_scan_def by (intro steps find_leaf scan_leaves)

end

section \<open>The pager inside a transaction\<close>

text \<open>
  The pages since the transaction began, and the page count, which never falls.
\<close>

definition in_txn_since :: "pager \<Rightarrow> bstate \<Rightarrow> bool" where
  "in_txn_since p0 s \<longleftrightarrow> txn_inv p0 (bpager s) \<and> num_pages p0 \<le> bt_npages s"

lemma evict_loop_pages: "num_pages (snd (evict_loop cap l p)) = num_pages p"
  by (induction cap l p rule: evict_loop.induct) (auto simp: write_page_def)

lemma evict_pages: "evict_if_full p = (r, q) \<Longrightarrow> num_pages q = num_pages p"
  using evict_loop_pages[of "capacity p" "pool p" p] by (auto simp: evict_if_full_def split: if_splits)

lemma get_pages: "pager_get n p = (r, q) \<Longrightarrow> num_pages q = num_pages p"
  by (auto simp: pager_get_def pool_get_def read_page_def pool_put_def bindP_def dest!: evict_pages
      split: if_splits option.splits prod.splits sum.splits)

lemma write_pages: "pager_write n d p = (r, q) \<Longrightarrow> num_pages p \<le> num_pages q"
proof -
  assume w: "pager_write n d p = (r, q)"
  have c: "num_pages (capture_shadow n p) = num_pages p"
    by (simp add: capture_shadow_def pool_get_def read_page_def split: option.split)
  obtain r1 q1 where e: "evict_if_full (capture_shadow n p) = (r1, q1)" by fastforce
  have "num_pages q1 = num_pages p" using evict_pages[OF e] c by simp
  then show ?thesis
    using w e by (cases r1) (auto simp: pager_write_def bindP_def pool_put_def Let_def split: if_splits option.splits)
qed

lemma pages_grow: "num_pages p \<le> num_pages (pop_step op p)"
proof (cases op)
  case (PGet n)
  then show ?thesis using get_pages[of n p] by (cases "pager_get n p") simp
next
  case (PWrite n d)
  then show ?thesis using write_pages[of n d p] by (cases "pager_write n d p") simp
next
  case PAlloc
  obtain r q where w: "pager_write (num_pages p) EMPTY_PAGE (p\<lparr>num_pages := Suc (num_pages p)\<rparr>) = (r, q)" by fastforce
  then show ?thesis using write_pages[OF w] PAlloc by (cases r) (simp_all add: pager_allocate_def bindP_def)
qed

lemma keeping_pager:
  assumes "\<And>s. bpager (snd (m s)) = pop_step op (bpager s)"
  shows "keeping (in_txn_since p0) m"
  unfolding keeping_def in_txn_since_def bt_npages_def assms
  using txn_inv_step pages_grow by (blast intro: order_trans)

interpretation txn: invariant_store bt_store "in_txn_since p0"
proof
  show "keeping (in_txn_since p0) (st_load bt_store n)" for n
    by (rule keeping_pager[where op = "PGet n"])
      (auto simp: bt_load_def Let_def split: prod.split sum.split option.split)
  show "keeping (in_txn_since p0) (st_write bt_store n b)" for n b
    by (rule keeping_pager[where op = "PWrite n b"]) (simp add: bt_write_def split: prod.split)
  show "keeping (in_txn_since p0) (st_alloc bt_store)"
    by (rule keeping_pager[where op = PAlloc]) (simp add: bt_alloc_def split: prod.split)
  show "keeping (in_txn_since p0) (st_mut bt_store n nd)" for n nd
    by (auto simp: keeping_def in_txn_since_def bt_npages_def bt_mut_def split: option.split)
qed

end
