(* ===== verification/Undo.thy ===== *)
theory Undo
  imports DmlClaims Preserve Database
begin

text \<open>
  What a rollback undoes: the statements of a transaction, and the statement that failed outside one.
  Every statement other than those on indexes keeps the shadow pages complete and the snapshot as it was.
\<close>

definition undoable :: "engine \<Rightarrow> pager \<Rightarrow> engine \<Rightarrow> bool" where
  "undoable e0 p0 e \<longleftrightarrow>
     e_txn e \<and> in_txn_since p0 (e_bt e) \<and>
     (\<exists>sn. e_snap e = Some sn \<and> sn_metas sn = tables (e_cat e0) \<and> sn_indexes sn = e_idx e0)"

text \<open>The same before the first writing statement.\<close>

definition begun :: "engine \<Rightarrow> pager \<Rightarrow> engine \<Rightarrow> bool" where
  "begun e0 p0 e \<longleftrightarrow>
     undoable e0 p0 e \<or>
     (e_txn e \<and> in_txn_since p0 (e_bt e) \<and> e_snap e = None \<and> tables (e_cat e) = tables (e_cat e0) \<and> e_idx e = e_idx e0)"

lemma undoable_changes:
  assumes "undoable e0 p0 e"
  shows "undoable e0 p0 (put_meta nm m e)" and "undoable e0 p0 (put_index k ix e)"
    and "undoable e0 p0 (e\<lparr>e_cat := c\<rparr>)" and "undoable e0 p0 (e\<lparr>e_idx := d\<rparr>)"
  using assms by (simp_all add: undoable_def put_meta_def put_index_def)

lemma keeping_put:
  assumes "keeping (undoable e0 p0) m"
  shows "keeping (undoable e0 p0) (\<lambda>e. m (put_meta nm x e))" and "keeping (undoable e0 p0) (\<lambda>e. m (put_index k ix e))"
  using assms undoable_changes by (simp_all add: keeping_def)

lemma keeping_bt [keeps]:
  assumes "keeping (in_txn_since p0) m"
  shows "keeping (undoable e0 p0) (on_bt m)"
proof -
  have "undoable e0 p0 (snd (on_bt m e))" if "undoable e0 p0 e" for e
  proof -
    obtain r s where s: "m (e_bt e) = (r, s)" by fastforce
    have "in_txn_since p0 s" by (rule keepingD[OF assms _ s]) (use that in \<open>simp add: undoable_def\<close>)
    then show ?thesis using that s by (simp add: on_bt_def undoable_def)
  qed
  then show ?thesis by (simp add: keeping_def)
qed

lemma keeping_sum [keeps]:
  "(\<And>x. keeping I (f x)) \<Longrightarrow> (\<And>x. keeping I (g x)) \<Longrightarrow> keeping I (case r of Inl x \<Rightarrow> f x | Inr y \<Rightarrow> g y)"
  by (cases r) auto

lemma keeping_shortcut [keeps]:
  "(\<And>v. keeping I (f v)) \<Longrightarrow> (\<And>c v. keeping I (g c v)) \<Longrightarrow> keeping I (case s of By_pk v \<Rightarrow> f v | By_index c v \<Rightarrow> g c v)"
  by (cases s) auto

lemma keeping_get_meta [keeps]: "keeping (undoable e0 p0) (get_meta nm)"
  by (simp add: keeping_def get_meta_def)

lemma keeping_save [keeps]: "keeping (undoable e0 p0) save"
proof -
  have "keeping (undoable e0 p0) (on_bt (save_catalog c))" for c
    unfolding save_catalog_def 
    by (intro keeps txn.writing[unfolded bt_store_simps])
  then show ?thesis by (simp add: keeping_def save_def)
qed

lemmas tree_ops = txn.search txn.range_scan txn.tree_insert txn.tree_upsert txn.tree_delete

lemma keeping_search_row [keeps]: "keeping (undoable e0 p0) (search_row m key)"
  unfolding search_row_def by (intro keeps tree_ops)

lemma keeping_scan_table [keeps]: "keeping (undoable e0 p0) (scan_table m)"
proof -
  have "keeping (in_txn_since p0) (\<lambda>s. range_scan bt_store (32 + bt_npages s) (root_page m) None None s)"
    using txn.range_scan by (simp add: keeping_def)
  then show ?thesis unfolding scan_table_def by (intro keeps)
qed

lemma keeping_lookup_rows [keeps]: "keeping (undoable e0 p0) (lookup_rows m rids)"
  by (induction rids) (simp_all only: lookup_rows.simps, (intro keeps; assumption)+)

lemma keeping_index_lookup [keeps]: "keeping (undoable e0 p0) (index_lookup m c v)"
proof -
  have "keeping (undoable e0 p0) (bindP (liftE (column_index m c)) (\<lambda>_. lookup_rows m rids))" for rids by (intro keeps)
  then show ?thesis by (auto simp: keeping_def index_lookup_def split: option.split)
qed

lemma keeping_add [keeps]: "keeping (undoable e0 p0) (index_add m rid rw)"
proof -
  have "keeping (undoable e0 p0) (add_to_indexes nm rid rw cs)" for nm cs
  proof (induction cs)
    case (Cons c cs)
    have "keeping (undoable e0 p0) (\<lambda>e. add_to_indexes nm rid rw cs (put_index k (f e) e))" for k f
      using Cons undoable_changes(2) by (simp add: keeping_def)
    then show ?case using Cons by (cases c) (simp only: add_to_indexes.simps, intro keeps)
  qed (simp only: add_to_indexes.simps keeping_ret)
  then show ?thesis unfolding index_add_def by (intro keeps)
qed

lemma keeping_remove [keeps]: "keeping (undoable e0 p0) (index_remove m rid rw)"
proof -
  have "keeping (undoable e0 p0) (remove_from_indexes m rid rw cs)" for cs
  proof (induction cs)
    case (Cons c cs)
    have "keeping (undoable e0 p0) (\<lambda>e. remove_from_indexes m rid rw cs
            (case map_of (e_idx e) (tname m, c) of None \<Rightarrow> e | Some ix \<Rightarrow> put_index (tname m, c) (f ix) e))" for f
      using Cons undoable_changes(2) by (auto simp: keeping_def split: option.split)
    then show ?case using Cons by (simp only: remove_from_indexes.simps, intro keeps)
  qed (simp only: remove_from_indexes.simps keeping_ret)
  then show ?thesis unfolding index_remove_def .
qed

lemma keeping_store_row [keeps]: "keeping (undoable e0 p0) (store_row x nm rid blob rw)"
proof -
  have nd: "keeping I p \<Longrightarrow> keeping I (no_duplicate x p)" for I and p :: "(engine, 'b) prog"
    by (auto simp: keeping_def no_duplicate_def split: prod.split sum.split exn.split)
  show ?thesis unfolding store_row_def Let_def by (intro keeps tree_ops nd keeping_put)
qed

lemma keeping_insert_row [keeps]: "keeping (undoable e0 p0) (insert_row nm declared xs)"
  unfolding insert_row_def Let_def by (intro keeps tree_ops)

lemma keeping_each [keeps]: "(\<And>x. keeping I (f x)) \<Longrightarrow> keeping I (each f xs)"
  by (induction xs) (auto intro!: keeps)

lemma keeping_matching_rows [keeps]: "keeping (undoable e0 p0) (matching_rows low m w)"
  unfolding matching_rows_def candidates_def
  by (intro keeps) 

lemma keeping_update_row [keeps]: "keeping (undoable e0 p0) (update_row nm as r)"
  unfolding update_row_def by (intro keeps tree_ops keeping_put)

lemma keeping_delete_loop [keeps]: "keeping (undoable e0 p0) (delete_loop nm rs n)"
proof (induction rs arbitrary: n)
  case (Cons r rs)
  have d: "keeping (undoable e0 p0) (\<lambda>e. if b then m1 (put_meta nm x e) else m2 (put_meta nm y e))"
    if "keeping (undoable e0 p0) m1" "keeping (undoable e0 p0) m2" for b x y and m1 m2 :: "(engine, 'b) prog"
    using keeping_put(1)[OF that(1)] keeping_put(1)[OF that(2)] by (cases b) simp_all
  show ?case unfolding delete_loop.simps by (intro keeps tree_ops d Cons)
qed (simp only: delete_loop.simps keeping_ret)


section \<open>Statements\<close>

text \<open>The statements after \<open>_ensure_snapshot\<close>, then whole statements.\<close>

lemma undoable_begun: "undoable e0 p0 e \<Longrightarrow> begun e0 p0 e"
  by (simp add: begun_def)

lemma keeping_snapshot:
  assumes "\<And>x. keeping (undoable e0 p0) (body x)"
  shows "keeping (begun e0 p0) (bindP ensure_snapshot body)"
proof -
  have "begun e0 p0 (snd (bindP ensure_snapshot body e))" if b: "begun e0 p0 e" for e
  proof -
    obtain e1 where e1: "ensure_snapshot e = (Inr (), e1)" "undoable e0 p0 e1"
      using b by (auto simp: begun_def undoable_def ensure_snapshot_def)
    show ?thesis using assms e1 undoable_begun by (auto simp: bindP_app keeping_def)
  qed
  then show ?thesis by (simp add: keeping_def)
qed

lemma keeping_collect: "keeping (in_txn_since p0) (collect_tree_pages root)"
proof -
  have "keeping (in_txn_since p0) (collect_pages fuel visited ps)" for fuel visited ps
  proof (induction fuel arbitrary: visited ps)
    case 0
    then show ?case by (cases ps) (simp_all only: collect_pages.simps keeping_ret keeping_raise)
  next
    case (Suc fuel)
    then show ?case
      by (cases ps) (simp_all only: collect_pages.simps Let_def keeping_ret, intro keeps txn.load[unfolded bt_store_simps])
  qed
  then show ?thesis by (simp add: keeping_def collect_tree_pages_def)
qed

lemma keeping_insert: "keeping (begun e0 p0) (insert_stmt nm declared rws)"
  unfolding insert_stmt_def by (intro keeping_snapshot keeps)

lemma keeping_update: "keeping (begun e0 p0) (update_stmt low nm asg w)"
  unfolding update_stmt_def by (intro keeping_snapshot keeps)

lemma keeping_delete: "keeping (begun e0 p0) (delete_stmt low nm w)"
  unfolding delete_stmt_def by (intro keeping_snapshot keeps)

lemma keeping_create_table: "keeping (begun e0 p0) (create_table nm cols)"
proof -
  have page: "keeping (undoable e0 p0) take_page"
  proof -
    have "keeping (undoable e0 p0) (on_bt bt_alloc)" by (intro keeps txn.alloc[unfolded bt_store_simps])
    then show ?thesis using undoable_changes(3) by (auto simp: keeping_def take_page_def Let_def)
  qed
  have add: "keeping (undoable e0 p0)
      (\<lambda>e. case catalog_add m (e_cat e) of Inl x \<Rightarrow> (Inl x, e) | Inr c \<Rightarrow> (Inr (), e\<lparr>e_cat := c\<rparr>))" for m
    using undoable_changes(3) by (auto simp: keeping_def split: sum.split)
  show ?thesis unfolding create_table_def Let_def by (intro keeping_snapshot keeps page add txn.write_node)
qed

lemma keeping_drop_table: "keeping (begun e0 p0) (drop_table nm)"
proof -
  have out: "keeping (undoable e0 p0) (\<lambda>e. let freed = f e; cat = e_cat e in
      if map_of (tables cat) k = None then (Inl KeyError, e\<lparr>e_cat := cat\<lparr>free_pages := free_pages cat @ freed\<rparr>\<rparr>)
      else save (e\<lparr>e_cat := cat\<lparr>free_pages := free_pages cat @ freed, tables := AList.delete k (tables cat)\<rparr>,
        e_snap := map_option (\<lambda>sn. sn\<lparr>sn_shared := removeAll k (sn_shared sn)\<rparr>) (e_snap e)\<rparr>))" for f k
  proof -
    have "undoable e0 p0 (e\<lparr>e_cat := c, e_snap := map_option (\<lambda>sn. sn\<lparr>sn_shared := removeAll k (sn_shared sn)\<rparr>) (e_snap e)\<rparr>)"
      if "undoable e0 p0 e" for e c
      using that by (auto simp: undoable_def)
    then show ?thesis using keeping_save undoable_changes(3) by (simp add: keeping_def Let_def)
  qed
  have pages: "keeping (undoable e0 p0) (\<lambda>e. bindP (on_bt (collect_tree_pages r)) g (e\<lparr>e_idx := h e\<rparr>))"
    if "\<And>x. keeping (undoable e0 p0) (g x)" for r g h
  proof -
    have "keeping (undoable e0 p0) (bindP (on_bt (collect_tree_pages r)) g)" by (intro keeps keeping_collect that)
    then show ?thesis using undoable_changes(4) by (simp add: keeping_def)
  qed
  show ?thesis unfolding drop_table_def by (intro keeping_snapshot keeps pages out)
qed

fun undone :: "stmt \<Rightarrow> bool" where
  "undone S_commit \<longleftrightarrow> False"
| "undone S_rollback \<longleftrightarrow> False"
| "undone (S_create_index _ _ _) \<longleftrightarrow> False"
| "undone (S_drop_index _) \<longleftrightarrow> False"
| "undone _ \<longleftrightarrow> True"

lemma keeping_done: "keeping I p \<Longrightarrow> keeping I (as_done p)" "keeping I q \<Longrightarrow> keeping I (as_count q)"
  unfolding as_done_def as_count_def by (intro keeps; assumption)+

lemma keeping_dispatch:
  assumes "undone st"
  shows "keeping (begun e0 p0) (dispatch prn low st)"
proof -
  note D = keeping_done(2)[OF keeping_insert] keeping_done(2)[OF keeping_update] keeping_done(2)[OF keeping_delete]
    keeping_done(1)[OF keeping_create_table] keeping_done(1)[OF keeping_drop_table]
  have "begun e0 p0 (snd (dispatch prn low st e))" if "begun e0 p0 e" for e
    using that assms D[of e0 p0, unfolded keeping_def]
    by (cases st) (simp_all split: stmt.split)
  then show ?thesis by (simp add: keeping_def)
qed

lemma keeping_run_one:
  assumes "undone st" and "begun e0 p0 e"
  shows "begun e0 p0 (snd (run_one prn low st e))"
proof -
  have "e_txn e" using assms(2) by (auto simp: begun_def undoable_def)
  moreover have "begun e0 p0 (snd (dispatch prn low st e))"
    using keeping_dispatch[OF assms(1)] assms(2) by (simp add: keeping_def)
  moreover have "begin_txn_db e = (Inl TransactionError, e)" if "e_txn e"
    using that by (simp add: begin_txn_db_def on_session_def begin_session_def session_of_def bindP_app)
  ultimately show ?thesis using assms
    by (cases st) (simp_all add: run_one_def as_done_def bindP_app)
qed

lemma begin_result:
  assumes "begin_txn_db e = (Inr (), e1)"
  obtains q where "begin_txn (bpager (e_bt e)) = (Inr (), q)"
    and "e1 = e\<lparr>e_bt := (e_bt e)\<lparr>bpager := q\<rparr>, e_txn := True, e_snap := None\<rparr>"
proof -
  obtain r q where rq: "begin_txn (bpager (e_bt e)) = (r, q)" by fastforce
  have txn: "\<not> e_txn e"
    using assms(1) by (auto simp: begin_txn_db_def on_session_def begin_session_def session_of_def bindP_app)
  have run: "begin_txn_db e = (case r of
      Inl x \<Rightarrow> (Inl x, e\<lparr>e_bt := (e_bt e)\<lparr>bpager := q\<rparr>\<rparr>)
    | Inr _ \<Rightarrow> (Inr (), e\<lparr>e_bt := (e_bt e)\<lparr>bpager := q\<rparr>, e_txn := True, e_snap := None\<rparr>))"
    using rq txn
    by (cases r) (simp_all add: begin_txn_db_def on_session_def begin_session_def session_of_def on_pager_def bindP_app)
  then show ?thesis using assms(1) rq that by (cases r) simp_all
qed

lemma begin_begun:
  assumes "begin_txn_db e = (Inr (), e1)" and "pager_inv (bpager (e_bt e))"
  shows "begun e ((bpager (e_bt e))\<lparr>touched := Some {}\<rparr>) e1" and "touched (bpager (e_bt e)) = None"
proof -
  obtain q where q: "begin_txn (bpager (e_bt e)) = (Inr (), q)"
      "e1 = e\<lparr>e_bt := (e_bt e)\<lparr>bpager := q\<rparr>, e_txn := True, e_snap := None\<rparr>"
    by (rule begin_result[OF assms(1)])
  have "num_pages (bpager (e_bt e)) \<le> num_pages q" using q(1) by (auto simp: begin_txn_def split: if_splits)
  then show "begun e ((bpager (e_bt e))\<lparr>touched := Some {}\<rparr>) e1"
    using begin_txn_inv(1)[OF assms(2) q(1)] by (simp add: q(2) begun_def in_txn_since_def bt_npages_def)
  show "touched (bpager (e_bt e)) = None" using q(1) by (auto simp: begin_txn_def split: if_splits)
qed

text \<open>The state with an empty node cache, as a new session on the same pages has it.\<close>

definition forget_nodes :: "engine \<Rightarrow> engine" where
  "forget_nodes e = e\<lparr>e_bt := (e_bt e)\<lparr>ncache := []\<rparr>\<rparr>"

definition restored :: "engine \<Rightarrow> engine \<Rightarrow> bool" where
  "restored e e' \<longleftrightarrow>
     tables (e_cat e') = tables (e_cat e) \<and> e_idx e' = e_idx e \<and> \<not> e_txn e' \<and>
     page_image (bpager (e_bt e')) = page_image (bpager (e_bt e)) \<and>
     (\<forall>T D. represents e T D \<longrightarrow> represents (forget_nodes e') T D)"

lemma represents_restored:
  assumes "represents e T D" and "tables (e_cat e') = tables (e_cat e)" and "e_idx e' = e_idx e"
    and "\<And>h t. stored (e_bt e) h t \<Longrightarrow> stored (e_bt e') h t"
  shows "represents e' T D"
proof -
  have "table_ok e m t rs \<Longrightarrow> table_ok e' m t rs" for m t rs
    using assms(3,4) unfolding table_ok_def by metis
  then show ?thesis using assms(1,2) by (fastforce simp: represents_def)
qed

lemma rollback_restored:
  assumes b: "begun e ((bpager (e_bt e))\<lparr>touched := Some {}\<rparr>) e1" and t: "touched (bpager (e_bt e)) = None"
    and inv: "pager_inv (bpager (e_bt e))" and d: "dirty (bpager (e_bt e)) = {}"
  shows "\<exists>e'. rollback_db e1 = (Inr (), e') \<and> restored e e'"
proof -
  let ?p = "bpager (e_bt e)" and ?q = "rollback_txn (bpager (e_bt e1))"
  have I: "e_txn e1" "txn_inv (?p\<lparr>touched := Some {}\<rparr>) (bpager (e_bt e1))" "num_pages ?p \<le> num_pages (bpager (e_bt e1))"
    using b by (auto simp: begun_def undoable_def in_txn_since_def bt_npages_def)
  have p: "page_image (?p\<lparr>touched := Some {}\<rparr>) = page_image ?p" "clean_agree (?p\<lparr>touched := Some {}\<rparr>) = clean_agree ?p"
    by (simp_all add: page_image_def clean_agree_def obj_at_def fun_eq_iff cong: option.case_cong)
  have "clean_agree ?p" using inv t by (simp add: pager_inv_def)
  then have Q: "page_image ?q = page_image ?p" "pager_inv ?q"
    using rollback_ok[OF I(2)] p d by (simp_all add: pager_inv_def)
  have "num_pages (restore_loop sh r) = num_pages r" for sh r
    by (induction sh r rule: restore_loop.induct) (auto simp: pool_put_def split: option.split)
  then have np: "num_pages ?p \<le> num_pages ?q" using I(3) by (simp add: rollback_txn_def)
  define e2 where "e2 = e1\<lparr>e_bt := (e_bt e1)\<lparr>bpager := ?q\<rparr>, e_txn := False\<rparr>"
  define e' where "e' = (case e_snap e1 of None \<Rightarrow> e2
      | Some sn \<Rightarrow> e2\<lparr>e_cat := \<lparr>tables = sn_metas sn, free_pages = []\<rparr>, e_idx := sn_indexes sn, e_snap := None\<rparr>)"
  have run: "rollback_db e1 = (Inr (), e')"
    using I(1) unfolding e'_def e2_def by (simp add: rollback_db_def on_session_def rollback_session_def session_of_def bindP_app)
  have same: "tables (e_cat e') = tables (e_cat e)" "e_idx e' = e_idx e" "\<not> e_txn e'" "bpager (e_bt e') = ?q"
    using b by (auto simp: begun_def undoable_def e'_def e2_def split: option.split)
  have "stored (e_bt (forget_nodes e')) h t" if "stored (e_bt e) h t" for h t
    using that Q np same(4)
    by (auto simp: stored_def forget_nodes_def bt_ok_def cache_ok_def bt_view_def[abs_def] bt_npages_def)
  then have "represents (forget_nodes e') T D" if "represents e T D" for T D
    by (rule represents_restored[OF that, rotated 2]) (simp_all add: forget_nodes_def same(1,2))
  then show ?thesis using run same Q(1) by (auto simp: restored_def)
qed

lemma restored_refl:
  assumes "\<not> e_txn e"
  shows "restored e e"
proof -
  have "stored (e_bt (forget_nodes e)) h t" if "stored (e_bt e) h t" for h t
    using that by (auto simp: stored_def forget_nodes_def bt_ok_def cache_ok_def bt_view_def[abs_def] bt_npages_def)
  then have "represents (forget_nodes e) T D" if "represents e T D" for T D
    by (rule represents_restored[OF that, rotated 2]) (simp_all add: forget_nodes_def)
  then show ?thesis using assms by (simp add: restored_def)
qed

lemma begin_fails: "begin_txn_db e = (Inl x, e') \<Longrightarrow> e' = e"
  by (auto simp: begin_txn_db_def on_session_def begin_session_def session_of_def on_pager_def begin_txn_def bindP_app
      split: if_splits)

lemma commit_fails: "commit_db e = (Inl x, e') \<Longrightarrow> e_txn e \<Longrightarrow> e_txn e'"
  by (auto simp: commit_db_def on_session_def commit_session_def session_of_def on_pager_def bindP_app
      split: if_splits prod.splits sum.splits)

lemma own_txn_failed:
  assumes "pager_inv (bpager (e_bt e))" and "dirty (bpager (e_bt e)) = {}" and "\<not> e_txn e"
    and body: "\<And>e0 p0. keeping (begun e0 p0) body"
    and run: "in_own_txn body e = (Inl x, e')" and "\<not> e_txn e'"
  shows "restored e e'"
proof (cases "begin_txn_db e")
  case (Pair r e1)
  show ?thesis
  proof (cases r)
    case (Inl y)
    then show ?thesis using run Pair begin_fails restored_refl[OF assms(3)] by (auto simp: in_own_txn_def bindP_app)
  next
    case (Inr u)
    then have b: "begin_txn_db e = (Inr (), e1)" using Pair by simp
    obtain rb e2 where rb: "body e1 = (rb, e2)" by fastforce
    note B = begin_begun[OF b assms(1)]
    have e2: "begun e ((bpager (e_bt e))\<lparr>touched := Some {}\<rparr>) e2" by (rule keepingD[OF body B(1) rb])
    show ?thesis
    proof (cases rb)
      case (Inl y)
      obtain e3 where "rollback_db e2 = (Inr (), e3)" "restored e e3"
        using rollback_restored[OF e2 B(2) assms(1,2)] by blast
      then show ?thesis using run b rb Inl by (simp add: in_own_txn_def bindP_app)
    next
      case (Inr v)
      have "e_txn e2" using e2 by (auto simp: begun_def undoable_def)
      moreover have "commit_db e2 = (Inl x, e')"
        using run b rb Inr by (auto simp: in_own_txn_def bindP_app split: prod.splits sum.splits)
      ultimately show ?thesis using commit_fails assms(6) by blast
    qed
  qed
qed

section \<open>Properties\<close>

text \<open>A file with an empty table on page 1.\<close>

definition people_file :: bytes where
  "people_file = EMPTY_PAGE @ pad_to PAGE_SIZE (case to_bytes (Leaf [] None) of Inr b \<Rightarrow> b | Inl x \<Rightarrow> [])"

abbreviation people_start :: bstate where
  "people_start \<equiv> \<lparr>bpager = pager_init people_file 8, ncache = []\<rparr>"

lemma people_file_ok:
  "length people_file = 2 * PAGE_SIZE" "decoded (disk_page people_file 1) = Some (Leaf [] None)"
proof -
  obtain b where b: "to_bytes (Leaf [] None) = Inr b" "length b = node_size (Leaf [] None)"
    "\<And>post. node_from_bytes (b @ post) = Inr (Leaf [] None)"
    using to_bytes_ok[of "Leaf [] None"] node_round_trip_pad[of "Leaf [] None"] by (auto simp: NO_PAGE_def)
  have f: "people_file = EMPTY_PAGE @ pad_to PAGE_SIZE b" unfolding people_file_def b(1) by simp
  show "length people_file = 2 * PAGE_SIZE" using b(2) unfolding f by (simp add: EMPTY_PAGE_def PAGE_SIZE_def)
  have "disk_page people_file 1 = pad_to PAGE_SIZE b"
    using b(2) by (simp add: f disk_page_def read_at_def EMPTY_PAGE_def pad_to_def PAGE_SIZE_def)
  then show "decoded (disk_page people_file 1) = Some (Leaf [] None)"
    using b(3) by (simp add: decoded_def pad_to_def)
qed

lemma people_start_stored: "stored people_start 0 (PLeaf 1 [])"
proof -
  have "bt_view people_start 1 = Some (Leaf [] None)"
    using people_file_ok(2) by (simp add: bt_view_def page_image_def obj_at_def pager_init_def)
  moreover have "bt_ok {} people_start" using pager_init_inv[of 8 people_file] by (simp add: bt_ok_def cache_ok_def)
  moreover have "bt_npages people_start = 2" using people_file_ok(1) by (simp add: bt_npages_def pager_init_def)
  ultimately show ?thesis by (simp add: stored_def leaf_forest PAGE_SIZE_def)
qed

lemma people_start_ok:
  "represents (people_db people_start) (\<lambda>_. PLeaf 1 []) (\<lambda>_. [])" "pager_inv (bpager (e_bt (people_db people_start)))"
  "dirty (bpager (e_bt (people_db people_start))) = {}" "\<not> e_txn (people_db people_start)"
  using people_represents[OF people_start_stored] pager_init_inv[of 8 people_file]
  by (simp_all add: people_db_def pager_init_def)

lemma people_begin:
  obtains e1 where "begin_txn_db (people_db people_start) = (Inr (), e1)"
  by (simp add: begin_txn_db_def on_session_def begin_session_def session_of_def on_pager_def begin_txn_def bindP_app
      people_db_def pager_init_def)

text \<open>C31. A transaction is undone as a whole: after any sequence of statements other than \<open>CREATE INDEX\<close>
  and \<open>DROP INDEX\<close>, failed ones included, \<open>ROLLBACK\<close> brings back every page, the tables of the catalog
  and the secondary indexes, and the trees hold the rows from before, once the cache of parsed nodes
  is dropped; committed pages must have been flushed.\<close>

theorem rollback_undoes_transaction:
  assumes "pager_inv (bpager (e_bt e))" and "dirty (bpager (e_bt e)) = {}" and "begin_txn_db e = (Inr (), e1)"
    and "\<forall>st \<in> set sts. undone st"
  shows "\<exists>e2. rollback_db (foldl (\<lambda>e st. snd (run_one prn low st e)) e1 sts) = (Inr (), e2) \<and> restored e e2"
proof -
  note B = begin_begun[OF assms(3,1)]
  have "begun e ((bpager (e_bt e))\<lparr>touched := Some {}\<rparr>) (foldl (\<lambda>e st. snd (run_one prn low st e)) e1 sts)"
    using B(1) assms(4) by (induction sts arbitrary: e1) (auto intro: keeping_run_one)
  then show ?thesis by (rule rollback_restored[OF _ B(2) assms(1,2)])
qed

lemma rollback_undoes_transaction_witness:
  "\<exists>e1 e2. begin_txn_db (people_db people_start) = (Inr (), e1) \<and>
     rollback_db (foldl (\<lambda>e st. snd (run_one (\<lambda>_. True) id st e)) e1
       [S_insert ''t'' None people_insert, S_delete ''t'' (Some people_where), S_drop_table ''t'']) = (Inr (), e2) \<and>
     represents (forget_nodes e2) (\<lambda>_. PLeaf 1 []) (\<lambda>_. [])"
proof -
  obtain e1 where e1: "begin_txn_db (people_db people_start) = (Inr (), e1)" by (rule people_begin)
  have "\<forall>st \<in> set [S_insert ''t'' None people_insert, S_delete ''t'' (Some people_where), S_drop_table ''t'']. undone st" by simp
  from rollback_undoes_transaction[OF people_start_ok(2,3) e1 this]
  show ?thesis using e1 people_start_ok(1) unfolding restored_def by blast
qed

text \<open>C32. A statement other than \<open>CREATE INDEX\<close> and \<open>DROP INDEX\<close> that fails outside a transaction, in a
  database whose committed pages have been flushed, leaves no trace: its own transaction is rolled back,
  and pages, tables, indexes and rows are those from before, once the cache of parsed nodes is dropped.
  (The engine's state after the failure is required to be out of the transaction: a commit that fails
  keeps it open.)\<close>

theorem failed_statement_undone:
  assumes "pager_inv (bpager (e_bt e))" and "dirty (bpager (e_bt e)) = {}" and "\<not> e_txn e" and "undone st"
    and "run_one prn low st e = (Inl x, e')" and "\<not> e_txn e'"
  shows "restored e e'"
proof -
  have own: "restored e e'" if "in_own_txn (dispatch prn low st) e = (Inl x, e')"
    by (rule own_txn_failed[OF assms(1-3) keeping_dispatch[OF assms(4)] that assms(6)])
  show ?thesis
  proof (cases st)
    case S_begin
    then have "begin_txn_db e = (Inl x, e')"
      using assms(5) by (auto simp: run_one_def as_done_def bindP_app split: prod.splits sum.splits)
    then show ?thesis using begin_fails restored_refl[OF assms(3)] by blast
  next
    case S_select
    then show ?thesis using assms(5) restored_refl[OF assms(3)] by (simp add: run_one_def)
  qed (use own assms(3-5) in \<open>simp_all add: run_one_def\<close>)
qed

text \<open>An \<open>INSERT\<close> whose second row repeats the key of its first.\<close>

abbreviation people_twice :: "expr list list" where
  "people_twice \<equiv> [[Literal (VInt 7), Literal (VText [97])], [Literal (VInt 7), Literal VNull]]"

lemma people_twice_facts:
  "rows_fit people None people_twice" "spec_inserts people None people_twice [] = Inl SQLError"
  "list_all (\<lambda>b. length b \<le> 141) (prepared_blobs people None people_twice)"
  by code_simp+

lemma people_twice_fails:
  assumes "begin_txn_db (people_db people_start) = (Inr (), e1)"
  shows "\<exists>e2. insert_stmt ''t'' None people_twice e1 = (Inl SQLError, e2)"
proof -
  obtain q where q: "begin_txn (pager_init people_file 8) = (Inr (), q)"
    "e1 = (people_db people_start)\<lparr>e_bt := people_start\<lparr>bpager := q\<rparr>, e_txn := True, e_snap := None\<rparr>"
    using begin_result[OF assms] by (auto simp: people_db_def)
  have p: "pager_inv (pager_init people_file 8)" by (simp add: pager_init_inv)
  have "num_pages q = num_pages (pager_init people_file 8)" using q(1) by (auto simp: begin_txn_def split: if_splits)
  then have "stored (people_start\<lparr>bpager := q\<rparr>) 0 (PLeaf 1 [])"
    using people_start_stored begin_txn_inv(2,3)[OF p q(1)]
    by (simp add: stored_def bt_ok_def cache_ok_def bt_view_def[abs_def] bt_npages_def)
  from people_represents[OF this] have R: "represents e1 (\<lambda>_. PLeaf 1 []) (\<lambda>_. [])"
    by (rule represents_cong[THEN iffD2, rotated 3]) (simp_all add: q(2) people_db_def)
  have "length people_file = 2 * PAGE_SIZE" by (rule people_file_ok(1))
  then have np: "int (bt_npages (e_bt e1)) + 33 * int (length people_twice) < NO_PAGE"
    using \<open>num_pages q = _\<close> by (simp add: q(2) bt_npages_def pager_init_def NO_PAGE_def)
  have m: "catalog_get (e_cat e1) ''t'' = Inr people" using people_get by (simp add: q(2) people_db_def)
  have "columns_accepted people None = Inr ()" by (simp add: columns_accepted_def)
  then have spec: "bindE (columns_accepted people None) (\<lambda>_. spec_inserts people None people_twice []) = Inl SQLError"
    using people_twice_facts(2) by simp
  have "\<not> (\<exists>b \<in> set (prepared_blobs people None people_twice) \<union> snd ` set (cells (PLeaf 1 [])). \<not> small_row b)"
    using people_twice_facts(3) by (simp add: small_row_def list_all_iff)
  then show ?thesis
    using insert_stmt_run[OF R m np people_twice_facts(1), unfolded spec sum.case] by blast
qed

lemma failed_statement_undone_witness:
  "\<exists>e'. run_one (\<lambda>_. True) id (S_insert ''t'' None people_twice) (people_db people_start) = (Inl SQLError, e') \<and>
     restored (people_db people_start) e'"
proof -
  let ?e = "people_db people_start" and ?body = "dispatch (\<lambda>_. True) id (S_insert ''t'' None people_twice)"
  obtain e1 where e1: "begin_txn_db ?e = (Inr (), e1)" by (rule people_begin)
  obtain e2 where e2: "insert_stmt ''t'' None people_twice e1 = (Inl SQLError, e2)"
    using people_twice_fails[OF e1] by blast
  note B = begin_begun[OF e1 people_start_ok(2)]
  have body: "?body e1 = (Inl SQLError, e2)" using e2 by (simp add: as_count_def bindP_app)
  have u: "undone (S_insert ''t'' None people_twice)" by simp
  have "begun ?e ((bpager (e_bt ?e))\<lparr>touched := Some {}\<rparr>) e2" by (rule keepingD[OF keeping_dispatch[OF u] B(1) body])
  from rollback_restored[OF this B(2) people_start_ok(2,3)] obtain e3 where
    e3: "rollback_db e2 = (Inr (), e3)" "restored ?e e3" by blast
  have r: "run_one (\<lambda>_. True) id (S_insert ''t'' None people_twice) ?e = (Inl SQLError, e3)"
    using e1 body e3(1) people_start_ok(4) by (simp add: run_one_def in_own_txn_def bindP_app)
  have "\<not> e_txn e3" using e3(2) by (simp add: restored_def)
  from failed_statement_undone[OF people_start_ok(2-4) u r this] r show ?thesis by blast
qed

end
