(* ===== verification/IndexTxn.thy ===== *)
theory IndexTxn
  imports Undo
begin

text \<open>
  \<open>CREATE INDEX\<close> in a transaction that is rolled back. The snapshot shares the table's \<open>indexes\<close> dict
  with the live catalog, so the name of the index stays; its data are restored, that is, gone.
\<close>

definition sees :: "(string \<times> table_meta) list \<Rightarrow> snapshot option \<Rightarrow> engine \<Rightarrow> bool" where
  "sees ts sn e \<longleftrightarrow> e_txn e \<and> tables (e_cat e) = ts \<and> e_snap e = sn"

lemma sees_bt: "keeping (sees ts sn) (on_bt m)"
  by (auto simp: keeping_def sees_def on_bt_def split: prod.split)

lemma sees_build: "keeping (sees ts sn) (build_index m c)"
  unfolding build_index_def scan_table_def by (intro keeps sees_bt)

lemma sees_save: "keeping (sees ts sn) save"
proof -
  have "keeping (sees ts sn) (on_bt (save_catalog c))" for c by (rule sees_bt)
  then show ?thesis by (simp add: keeping_def save_def)
qed

lemma create_index_sees:
  assumes e: "e_txn e" "e_snap e = None" and m: "catalog_get (e_cat e) tab = Inr m"
    and run: "create_index inm tab col e = (Inr (), e')"
  shows "e_txn e'" and "e_snap e' = Some \<lparr>sn_indexes = e_idx e,
      sn_metas = AList.map_entry (lower tab) (\<lambda>m'. m'\<lparr>indexes := AList.update col inm (indexes m)\<rparr>) (tables (e_cat e)),
      sn_shared = map fst (tables (e_cat e))\<rparr>"
proof -
  obtain e0 where e0: "ensure_snapshot e = (Inr (), e0)"
      "e0 = e\<lparr>e_snap := Some \<lparr>sn_indexes = e_idx e, sn_metas = tables (e_cat e), sn_shared = map fst (tables (e_cat e))\<rparr>\<rparr>"
    using e by (simp add: ensure_snapshot_def)
  let ?e1 = "set_indexes (lower tab) (AList.update col inm (indexes m)) e0"
  have "lower tab \<in> set (map fst (tables (e_cat e)))"
    using m by (auto simp: catalog_get_def image_iff split: option.splits dest!: map_of_SomeD intro: bexI[rotated])
  then have s: "e_txn ?e1" "e_snap ?e1 = Some \<lparr>sn_indexes = e_idx e,
      sn_metas = AList.map_entry (lower tab) (\<lambda>m'. m'\<lparr>indexes := AList.update col inm (indexes m)\<rparr>) (tables (e_cat e)),
      sn_shared = map fst (tables (e_cat e))\<rparr>"
    using e(1) by (simp_all add: e0(2) set_indexes_def Let_def)
  have put: "keeping (sees ts sn) (\<lambda>e. save (put_index k ix e))" for ts sn k ix
    using sees_save by (simp add: keeping_def put_index_def sees_def)
  have k: "keeping (sees (tables (e_cat ?e1)) (e_snap ?e1)) (bindP (build_index m col) (\<lambda>ix e. save (put_index (tname m, col) ix e)))"
    by (intro keeps sees_build put)
  have "bindP (build_index m col) (\<lambda>ix e. save (put_index (tname m, col) ix e)) ?e1 = (Inr (), e')"
    using run m e0(1) by (simp add: create_index_def bindP_app get_meta_def e0(2) split: if_splits)
  from keepingD[OF k _ this] s(1) have "sees (tables (e_cat ?e1)) (e_snap ?e1) e'" by (simp add: sees_def)
  then show "e_txn e'" and "e_snap e' = Some \<lparr>sn_indexes = e_idx e,
      sn_metas = AList.map_entry (lower tab) (\<lambda>m'. m'\<lparr>indexes := AList.update col inm (indexes m)\<rparr>) (tables (e_cat e)),
      sn_shared = map fst (tables (e_cat e))\<rparr>"
    using s(2) by (simp_all add: sees_def)
qed

text \<open>C34. \<open>CREATE INDEX\<close> inside a transaction that is rolled back: the table keeps naming the index, and the
  index has no data, so every later lookup through it finds nothing.\<close>

theorem rolled_back_index_hides_rows:
  assumes "begin_txn_db e = (Inr (), e1)" and "create_index inm tab col e1 = (Inr (), e2)"
    and "rollback_db e2 = (Inr (), e3)" and "catalog_get (e_cat e) tab = Inr m" and "map_of (e_idx e) (tname m, col) = None"
  shows "catalog_get (e_cat e3) tab = Inr (m\<lparr>indexes := AList.update col inm (indexes m)\<rparr>) \<and>
    (\<forall>v. index_lookup (m\<lparr>indexes := AList.update col inm (indexes m)\<rparr>) col v e3 = (Inr [], e3))"
proof -
  obtain q where q: "e1 = e\<lparr>e_bt := (e_bt e)\<lparr>bpager := q\<rparr>, e_txn := True, e_snap := None\<rparr>"
    using begin_result[OF assms(1)] by blast
  have e1: "e_txn e1" "e_snap e1 = None" "catalog_get (e_cat e1) tab = Inr m" using q assms(4) by simp_all
  note S = create_index_sees[OF e1 assms(2)]
  have e3: "tables (e_cat e3) = AList.map_entry (lower tab) (\<lambda>m'. m'\<lparr>indexes := AList.update col inm (indexes m)\<rparr>) (tables (e_cat e))"
      "e_idx e3 = e_idx e"
    using assms(3) S
    by (auto simp: rollback_db_def on_session_def rollback_session_def session_of_def bindP_app q)
  have "map_of (tables (e_cat e)) (lower tab) = Some m" using assms(4) by (simp add: catalog_get_def split: option.splits)
  then have "catalog_get (e_cat e3) tab = Inr (m\<lparr>indexes := AList.update col inm (indexes m)\<rparr>)"
    by (simp add: catalog_get_def e3(1) map_of_map_entry)
  then show ?thesis using assms(5) e3(2) by (simp add: index_lookup_def)
qed

text \<open>The table of \<open>people_db\<close> without its index.\<close>

definition bare_db :: engine where
  "bare_db = (people_db people_start)
     \<lparr>e_cat := \<lparr>tables = [(''t'', people\<lparr>indexes := []\<rparr>)], free_pages = []\<rparr>, e_idx := []\<rparr>"

lemma stored_begun:
  assumes "stored s h t" and "begin_txn (bpager s) = (Inr (), q)"
  shows "stored (s\<lparr>bpager := q\<rparr>) h t"
proof -
  have q: "q = bpager s\<lparr>touched := Some {}, shadow := []\<rparr>" using assms(2) by (auto simp: begin_txn_def split: if_splits)
  have o: "obj_at q = obj_at (bpager s)" "page_image q = page_image (bpager s)"
    by (simp_all add: q obj_at_def page_image_def fun_eq_iff cong: option.case_cong)
  have "pager_inv q" using begin_txn_inv(3)[OF _ assms(2)] assms(1) by (simp add: stored_def bt_ok_def)
  then show ?thesis
    using assms(1) o by (simp add: q stored_def bt_ok_def bt_npages_def cache_ok_def bt_view_def[abs_def] fun_eq_iff)
qed

lemma people_start_npages: "num_pages (pager_init people_file 8) = 2"
proof -
  obtain b where b: "to_bytes (Leaf [] None) = Inr b" "length b = node_size (Leaf [] None)"
    using to_bytes_ok[of "Leaf [] None"] by (auto simp: NO_PAGE_def)
  then have "length people_file = 2 * PAGE_SIZE"
    unfolding people_file_def b(1) by (simp add: EMPTY_PAGE_def PAGE_SIZE_def)
  then show ?thesis by (simp add: pager_init_def)
qed

lemma catalog_fits:
  "case catalog_text \<lparr>tables = [(''t'', people\<lparr>indexes := [(''v'', ''i'')]\<rparr>)], free_pages = []\<rparr> of
     Inl x \<Rightarrow> False | Inr raw \<Rightarrow> length raw \<le> PAGE_SIZE"
  by code_simp

lemma bare_created:
  obtains e1 e2 where "begin_txn_db bare_db = (Inr (), e1)" "create_index ''i'' ''t'' ''v'' e1 = (Inr (), e2)"
proof -
  let ?m = "people\<lparr>indexes := []\<rparr>" and ?m' = "people\<lparr>indexes := [(''v'', ''i'')]\<rparr>"
  let ?q = "(bpager people_start)\<lparr>touched := Some {}, shadow := []\<rparr>"
  have q: "begin_txn (bpager people_start) = (Inr (), ?q)" by (simp add: begin_txn_def pager_init_def)
  have st: "stored (people_start\<lparr>bpager := ?q\<rparr>) 0 (PLeaf 1 [])" by (rule stored_begun[OF people_start_stored q])
  obtain e1 where e1: "begin_txn_db bare_db = (Inr (), e1)"
    by (simp add: begin_txn_db_def on_session_def begin_session_def session_of_def on_pager_def begin_txn_def bindP_app
        bare_db_def people_db_def pager_init_def)
  then have bt: "e1 = bare_db\<lparr>e_bt := people_start\<lparr>bpager := ?q\<rparr>, e_txn := True, e_snap := None\<rparr>"
    by (rule begin_result) (use q in \<open>simp add: bare_db_def people_db_def\<close>)
  obtain e0 where e0: "ensure_snapshot e1 = (Inr (), e0)" "e_cat e0 = e_cat bare_db" "e_bt e0 = people_start\<lparr>bpager := ?q\<rparr>"
    by (simp add: ensure_snapshot_def bt)
  define e1' where "e1' = set_indexes ''t'' [(''v'', ''i'')] e0"
  have e1': "e_bt e1' = people_start\<lparr>bpager := ?q\<rparr>" "tables (e_cat e1') = [(''t'', ?m')]"
    using e0(2,3) by (simp_all add: e1'_def set_indexes_def Let_def) (simp add: bare_db_def)
  have cat: "e_cat e1' = \<lparr>tables = [(''t'', ?m')], free_pages = []\<rparr>"
    using e0(2) by (simp add: e1'_def set_indexes_def Let_def) (simp add: bare_db_def)
  have ok: "table_ok e1' ?m (PLeaf 1 []) []"
    using st by (auto simp: e1'(1) people_def table_ok_def indexed_def colnames_def pk_rows_def pk_index_def types_def)
  have "bt_npages (e_bt e1') = 2"
    using people_start_npages by (simp add: e1'(1) bt_npages_def)
  then have np: "int (bt_npages (e_bt e1')) < NO_PAGE" "0 < bt_npages (e_bt e1')" by (simp_all add: NO_PAGE_def)
  obtain s where s: "scan_table ?m e1' = (Inr [], e1'\<lparr>e_bt := s\<rparr>)" "bt.same {} (e_bt e1') s"
    using scan_table_ok[OF ok np(1)] by blast
  have b: "build_index ?m ''v'' e1' = (Inr [], e1'\<lparr>e_bt := s\<rparr>)"
    using s(1) by (simp add: build_index_def bindP_app column_index_def colnames_def people_def)
  obtain raw where raw: "catalog_text (e_cat e1') = Inr raw" "length raw \<le> PAGE_SIZE"
    using catalog_fits unfolding cat by (auto split: sum.splits)
  have sk: "bt_ok {} s" "0 < bt_npages s" using stored_same[OF s(2)] st s(2) np(2) by (simp_all add: bt.same_def)
  obtain s' where "bt_write 0 raw s = (Inr (), s')" using bt_write_any[OF sk raw(2)] by blast
  then have sv: "save (put_index (''t'', ''v'') [] (e1'\<lparr>e_bt := s\<rparr>)) = (Inr (), put_index (''t'', ''v'') [] (e1'\<lparr>e_bt := s'\<rparr>))"
    using raw(1) by (simp add: save_def on_bt_def save_catalog_def bindP_app put_index_def)
  have m: "catalog_get (e_cat bare_db) ''t'' = Inr ?m" "''v'' \<in> set (colnames ?m)" "pk_column ?m \<noteq> Some ''v''" "indexes ?m = []"
      "tname ?m = ''t''" "AList.update ''v'' ''i'' (indexes ?m) = [(''v'', ''i'')]"
    by (simp_all add: catalog_get_def bare_db_def people_def colnames_def pk_column_def)
  have g: "get_meta ''t'' e0 = (Inr ?m, e0)" using m(1) by (simp add: get_meta_def e0(2))
  have "create_index ''i'' ''t'' ''v'' e1 = bindP (build_index ?m ''v'') (\<lambda>ix e. save (put_index (tname ?m, ''v'') ix e)) e1'"
    unfolding create_index_def bindP_app[of ensure_snapshot] e0(1) prod.case sum.case bindP_app[of "get_meta ''t''"] g
    using m(2-4) by (simp add: e1'_def)
  then have "create_index ''i'' ''t'' ''v'' e1 = save (put_index (''t'', ''v'') [] (e1'\<lparr>e_bt := s\<rparr>))"
    unfolding bindP_app[of "build_index ?m ''v''"] b prod.case sum.case m(5) .
  then show ?thesis using that e1 sv by simp
qed

lemma rolled_back_index_hides_rows_witness:
  "\<exists>e1 e2 e3. begin_txn_db bare_db = (Inr (), e1) \<and> create_index ''i'' ''t'' ''v'' e1 = (Inr (), e2) \<and>
     rollback_db e2 = (Inr (), e3) \<and>
     index_lookup (people\<lparr>indexes := [(''v'', ''i'')]\<rparr>) ''v'' (VText [97]) e3 = (Inr [], e3)"
proof -
  obtain e1 e2 where e: "begin_txn_db bare_db = (Inr (), e1)" "create_index ''i'' ''t'' ''v'' e1 = (Inr (), e2)"
    by (rule bare_created)
  have get: "catalog_get (e_cat bare_db) ''t'' = Inr (people\<lparr>indexes := []\<rparr>)" "e_idx bare_db = []"
    by (simp_all add: catalog_get_def bare_db_def)
  obtain q where q: "e1 = bare_db\<lparr>e_bt := (e_bt bare_db)\<lparr>bpager := q\<rparr>, e_txn := True, e_snap := None\<rparr>"
    by (rule begin_result[OF e(1)])
  have "e_txn e2" by (rule create_index_sees(1)[OF _ _ _ e(2)]) (simp_all add: q get(1))
  then obtain e3 where e3: "rollback_db e2 = (Inr (), e3)"
    by (simp add: rollback_db_def on_session_def rollback_session_def session_of_def bindP_app)
  show ?thesis
    using e e3 rolled_back_index_hides_rows[OF e e3 get(1)] get(2) by auto
qed

end
