(* ===== verification/Table.thy ===== *)
theory Table
  imports Explain Lexer
begin

text \<open>
  \<open>fmt_value\<close> and \<open>format_table\<close> of \<open>leafdb/repl.py\<close>: the values of a result as text, columns as wide as
  their widest cell, numbers flush right. \<open>float(text)\<close>, which tells numbers from other cells, is
  written out; \<open>zs\<close> are the blocks of decimal digits beyond ASCII, as in \<open>Lexer\<close>.
\<close>

section \<open>Values as text\<close>

definition rstrip_of :: "int \<Rightarrow> ustr \<Rightarrow> ustr" where
  "rstrip_of c s = rev (dropWhile (\<lambda>x. x = c) (rev s))"

text \<open>\<open>m * 2 ^ x\<close> in units of \<open>10 ^ (-k)\<close>, ties to even.\<close>

definition scaled :: "nat \<Rightarrow> int \<Rightarrow> int \<Rightarrow> int" where
  "scaled k m x =
     (let num = scale2 (m * 10 ^ k) x; den = scale2 1 (- x); q = num div den; r = num mod den
      in if 2 * r > den \<or> (2 * r = den \<and> odd q) then q + 1 else q)"

definition padded :: "nat \<Rightarrow> int \<Rightarrow> ustr" where
  "padded k n = (let t = int_text n in replicate (k - length t) 48 @ t)"

text \<open>\<open>f"{v:.kf}"\<close>\<close>

definition fixed :: "nat \<Rightarrow> double \<Rightarrow> ustr" where
  "fixed k w =
     (case fclass w of
        FNan \<Rightarrow> codes ''nan''
      | FInf neg \<Rightarrow> (if neg then [45] else []) @ codes ''inf''
      | FFin neg m x \<Rightarrow>
          (let n = scaled k m x
           in (if neg then [45] else []) @ int_text (n div 10 ^ k) @ [46] @ padded k (n mod 10 ^ k)))"

fun fmt_value :: "val \<Rightarrow> ustr" where
  "fmt_value VNull = codes ''NULL''"
| "fmt_value (VFloat w) = rstrip_of 46 (rstrip_of 48 (fixed 6 w))"
| "fmt_value (VInt i) = int_text i"
| "fmt_value (VBool b) = codes (if b then ''True'' else ''False'')"
| "fmt_value (VText s) = s"

section \<open>Numbers in text\<close>

text \<open>Spaces and decimal digits beyond ASCII become ASCII; any other character beyond ASCII is refused.\<close>

definition plain_char :: "int list \<Rightarrow> int \<Rightarrow> int option" where
  "plain_char zs c =
     (if c < 127 then Some c else if is_space c then Some 32 else map_option (\<lambda>d. 48 + d) (digit_value zs c))"

definition plain_space :: "int \<Rightarrow> bool" where
  "plain_space c \<longleftrightarrow> (9 \<le> c \<and> c \<le> 13) \<or> c = 32"

definition plain_digit :: "int \<Rightarrow> bool" where
  "plain_digit c \<longleftrightarrow> 48 \<le> c \<and> c \<le> 57"

definition strip_of :: "(int \<Rightarrow> bool) \<Rightarrow> ustr \<Rightarrow> ustr" where
  "strip_of P s = rev (dropWhile P (rev (dropWhile P s)))"

text \<open>An underscore stands between two digits.\<close>

fun scores_ok :: "int \<Rightarrow> ustr \<Rightarrow> bool" where
  "scores_ok prev [] \<longleftrightarrow> prev \<noteq> 95"
| "scores_ok prev (c # cs) \<longleftrightarrow> (if c = 95 then plain_digit prev else prev = 95 \<longrightarrow> plain_digit c) \<and> scores_ok c cs"

definition drop_sign :: "ustr \<Rightarrow> ustr" where
  "drop_sign s = (case s of [] \<Rightarrow> [] | c # cs \<Rightarrow> if c = 43 \<or> c = 45 then cs else s)"

definition exponent_ok :: "ustr \<Rightarrow> bool" where
  "exponent_ok s \<longleftrightarrow>
     (case s of [] \<Rightarrow> True
      | c # cs \<Rightarrow> (c = 101 \<or> c = 69) \<and> (let ds = drop_sign cs in ds \<noteq> [] \<and> (\<forall>d \<in> set ds. plain_digit d)))"

definition decimal_ok :: "ustr \<Rightarrow> bool" where
  "decimal_ok s \<longleftrightarrow>
     (let a = takeWhile plain_digit s; r = dropWhile plain_digit s;
          point = (r \<noteq> [] \<and> hd r = 46);
          b = (if point then takeWhile plain_digit (tl r) else []);
          rest = (if point then dropWhile plain_digit (tl r) else r)
      in a @ b \<noteq> [] \<and> exponent_ok rest)"

definition small_letter :: "int \<Rightarrow> int" where
  "small_letter c = (if 65 \<le> c \<and> c \<le> 90 then c + 32 else c)"

text \<open>\<open>float(text)\<close> raises no \<open>ValueError\<close>.\<close>

definition float_ok :: "int list \<Rightarrow> ustr \<Rightarrow> bool" where
  "float_ok zs s \<longleftrightarrow>
     (case those (map (plain_char zs) s) of
        None \<Rightarrow> False
      | Some t \<Rightarrow>
          (let u = strip_of plain_space t; v = filter (\<lambda>c. c \<noteq> 95) u; n = drop_sign v
           in scores_ok 0 u \<and>
              (map small_letter n \<in> {codes ''inf'', codes ''infinity'', codes ''nan''} \<or> decimal_ok n)))"

section \<open>format\_table\<close>

text \<open>The loop over the cells: the width of every column and whether all its cells are numbers. A row
  that is longer than the header has no column for its last cells.\<close>

fun measure_row :: "int list \<Rightarrow> nat \<Rightarrow> ustr list \<Rightarrow> (nat \<times> bool) list \<Rightarrow> (nat \<times> bool) list res" where
  "measure_row zs i [] ws = Inr ws"
| "measure_row zs i (v # vs) ws =
     bindE (nth_err ws i) (\<lambda>(w, num).
     measure_row zs (Suc i) vs
       (ws[i := (max w (length v), num \<and> (v = codes ''NULL'' \<or> float_ok zs v))]))"

fun measure_rows :: "int list \<Rightarrow> ustr list list \<Rightarrow> (nat \<times> bool) list \<Rightarrow> (nat \<times> bool) list res" where
  "measure_rows zs [] ws = Inr ws"
| "measure_rows zs (r # rs) ws = bindE (measure_row zs 0 r ws) (measure_rows zs rs)"

definition rjust :: "nat \<Rightarrow> ustr \<Rightarrow> ustr" where
  "rjust w s = replicate (w - length s) 32 @ s"

definition ljust :: "nat \<Rightarrow> ustr \<Rightarrow> ustr" where
  "ljust w s = s @ replicate (w - length s) 32"

text \<open>\<open>sep.join\<close>\<close>

fun join_by :: "int \<Rightarrow> ustr list \<Rightarrow> ustr" where
  "join_by c [] = []"
| "join_by c [s] = s"
| "join_by c (s # ss) = s @ [c] @ join_by c ss"

definition rule_line :: "ustr \<Rightarrow> (nat \<times> bool) list \<Rightarrow> ustr" where
  "rule_line ind ws = ind @ [43] @ join_by 43 (map (\<lambda>(w, num). replicate (w + 2) 45) ws) @ [43]"

fun render_cells :: "nat \<Rightarrow> (nat \<times> bool) list \<Rightarrow> ustr list \<Rightarrow> ustr list res" where
  "render_cells i ws [] = Inr []"
| "render_cells i ws (v # vs) =
     bindE (nth_err ws i) (\<lambda>(w, num).
     bindE (render_cells (Suc i) ws vs) (\<lambda>rest.
     Inr (([32] @ (if num then rjust w v else ljust w v) @ [32]) # rest)))"

definition render :: "ustr \<Rightarrow> (nat \<times> bool) list \<Rightarrow> ustr list \<Rightarrow> ustr res" where
  "render ind ws vs = bindE (render_cells 0 ws vs) (\<lambda>out. Inr (ind @ [124] @ join_by 124 out @ [124]))"

definition table_lines :: "int list \<Rightarrow> ustr \<Rightarrow> string list \<Rightarrow> row list \<Rightarrow> ustr list res" where
  "table_lines zs ind cols rows =
     (let cells = map (map fmt_value) rows in
      bindE (measure_rows zs cells (map (\<lambda>c. (length c, True)) cols)) (\<lambda>ws.
      bindE (render ind ws (map codes cols)) (\<lambda>head.
      bindE (mapE (render ind ws) cells) (\<lambda>body.
      Inr ([rule_line ind ws, head, rule_line ind ws] @ body @
        [rule_line ind ws, ind @ int_text (int (length rows)) @ codes '' row(s)''])))))"

definition format_table :: "int list \<Rightarrow> ustr \<Rightarrow> string list \<Rightarrow> row list \<Rightarrow> ustr res" where
  "format_table zs ind cols rows =
     (if cols = [] then Inr [] else bindE (table_lines zs ind cols rows) (\<lambda>ls. Inr (join_by 10 ls)))"

section \<open>The layout\<close>

text \<open>A column is as wide as its widest cell, and flush right when every cell is \<open>NULL\<close> or a number.\<close>

definition col_width :: "string list \<Rightarrow> row list \<Rightarrow> nat \<Rightarrow> nat" where
  "col_width cols rows i = Max (insert (length (cols ! i)) ((\<lambda>r. length (fmt_value (r ! i))) ` set rows))"

definition col_numeric :: "int list \<Rightarrow> row list \<Rightarrow> nat \<Rightarrow> bool" where
  "col_numeric zs rows i \<longleftrightarrow> (\<forall>r \<in> set rows. fmt_value (r ! i) = codes ''NULL'' \<or> float_ok zs (fmt_value (r ! i)))"

definition layout :: "int list \<Rightarrow> string list \<Rightarrow> row list \<Rightarrow> (nat \<times> bool) list" where
  "layout zs cols rows = map (\<lambda>i. (col_width cols rows i, col_numeric zs rows i)) [0..<length cols]"

definition cell_text :: "nat \<times> bool \<Rightarrow> ustr \<Rightarrow> ustr" where
  "cell_text p v = [32] @ (if snd p then rjust (fst p) v else ljust (fst p) v) @ [32]"

definition row_line :: "ustr \<Rightarrow> (nat \<times> bool) list \<Rightarrow> ustr list \<Rightarrow> ustr" where
  "row_line ind ws vs = ind @ [124] @ join_by 124 (map2 cell_text ws vs) @ [124]"

lemma codes_length [simp]: "length (codes s) = length s"
  by (simp add: codes_def)

definition widen :: "int list \<Rightarrow> ustr \<Rightarrow> nat \<times> bool \<Rightarrow> nat \<times> bool" where
  "widen zs v p = (max (fst p) (length v), snd p \<and> (v = codes ''NULL'' \<or> float_ok zs v))"

lemma measure_row_zip:
  "length pre = i \<Longrightarrow> length vs \<le> length ws \<Longrightarrow>
   measure_row zs i vs (pre @ ws) = Inr (pre @ map2 (widen zs) vs ws @ drop (length vs) ws)"
proof (induction vs arbitrary: i pre ws)
  case Nil
  then show ?case by simp
next
  case (Cons v vs)
  obtain p ws' where ws: "ws = p # ws'" "length vs \<le> length ws'" using Cons.prems(2) by (cases ws) auto
  have "measure_row zs (Suc i) vs ((pre @ [widen zs v p]) @ ws') =
      Inr ((pre @ [widen zs v p]) @ map2 (widen zs) vs ws' @ drop (length vs) ws')"
    by (rule Cons.IH) (use Cons.prems(1) ws(2) in simp_all)
  then show ?case using Cons.prems(1) ws(1)
    by (cases p) (simp add: nth_err_def nth_append list_update_append widen_def)
qed

lemma measure_rows_fold:
  "\<forall>r \<in> set rs. length r = length ws \<Longrightarrow>
   measure_rows zs rs ws = Inr (map (\<lambda>i. fold (\<lambda>r. widen zs (r ! i)) rs (ws ! i)) [0..<length ws])"
proof (induction rs arbitrary: ws)
  case Nil
  then show ?case by (simp add: map_nth)
next
  case (Cons r rs)
  have r: "length r = length ws" using Cons.prems by simp
  have "measure_row zs 0 r ws = Inr (map2 (widen zs) r ws)" using measure_row_zip[of "[]" 0 r ws zs] r by simp
  moreover have "measure_rows zs rs (map2 (widen zs) r ws) =
      Inr (map (\<lambda>i. fold (\<lambda>r. widen zs (r ! i)) rs (map2 (widen zs) r ws ! i)) [0..<length (map2 (widen zs) r ws)])"
    by (rule Cons.IH) (use Cons.prems in simp)
  ultimately show ?case using r by simp
qed

lemma widen_fold:
  "fold (\<lambda>r. widen zs (f r)) rs p = (Max (insert (fst p) ((\<lambda>r. length (f r)) ` set rs)),
     snd p \<and> (\<forall>r \<in> set rs. f r = codes ''NULL'' \<or> float_ok zs (f r)))"
proof (induction rs arbitrary: p)
  case Nil
  then show ?case by simp
next
  case (Cons r rs)
  have "Max (insert (max (fst p) (length (f r))) ((\<lambda>r. length (f r)) ` set rs)) =
      Max (insert (fst p) ((\<lambda>r. length (f r)) ` set (r # rs)))"
    by (cases "set rs = {}") (simp_all add: max.assoc)
  then show ?case using Cons[of "widen zs (f r) p"] by (auto simp: widen_def)
qed

lemma measured:
  assumes "\<forall>r \<in> set rows. length r = length cols"
  shows "measure_rows zs (map (map fmt_value) rows) (map (\<lambda>c. (length c, True)) cols) = Inr (layout zs cols rows)"
proof -
  have "fold (\<lambda>r. widen zs (r ! i)) (map (map fmt_value) rows) (length (cols ! i), True) =
      (col_width cols rows i, col_numeric zs rows i)" if i: "i < length cols" for i
  proof -
    have eq: "fold (\<lambda>r. widen zs (r ! i)) (map (map fmt_value) rows) q = fold (\<lambda>r. widen zs (fmt_value (r ! i))) rows q" for q
      using assms i by (induction rows arbitrary: q) auto
    show ?thesis unfolding eq unfolding widen_fold by (simp add: col_width_def col_numeric_def)
  qed
  then show ?thesis using assms by (simp add: measure_rows_fold layout_def)
qed

lemma render_cells_zip:
  "length pre = i \<Longrightarrow> length vs \<le> length ws \<Longrightarrow> render_cells i (pre @ ws) vs = Inr (map2 cell_text ws vs)"
proof (induction vs arbitrary: i pre ws)
  case Nil
  then show ?case by simp
next
  case (Cons v vs)
  obtain p ws' where ws: "ws = p # ws'" "length vs \<le> length ws'" using Cons.prems(2) by (cases ws) auto
  have "render_cells (Suc i) ((pre @ [p]) @ ws') vs = Inr (map2 cell_text ws' vs)"
    by (rule Cons.IH) (use Cons.prems(1) ws(2) in simp_all)
  then show ?case using Cons.prems(1) ws(1) by (cases p) (simp add: nth_err_def nth_append cell_text_def)
qed

lemma render_line: "length vs \<le> length ws \<Longrightarrow> render ind ws vs = Inr (row_line ind ws vs)"
  using render_cells_zip[of "[]" 0 vs ws] by (simp add: render_def row_line_def)

lemma join_by_length: "ss \<noteq> [] \<Longrightarrow> length (join_by c ss) + 1 = sum_list (map (\<lambda>s. length s + 1) ss)"
  by (induction c ss rule: join_by.induct) auto

lemma cell_text_length: "length v \<le> fst p \<Longrightarrow> length (cell_text p v) = fst p + 2"
  by (simp add: cell_text_def rjust_def ljust_def)

lemma row_line_length:
  assumes "length vs = length ws" and "ws \<noteq> []" and "\<forall>(p, v) \<in> set (zip ws vs). length v \<le> fst p"
  shows "length (row_line ind ws vs) = length ind + 1 + sum_list (map (\<lambda>p. fst p + 3) ws)"
proof -
  have "map (\<lambda>s. length s + 1) (map2 cell_text ws vs) = map (\<lambda>p. fst p + 3) ws"
    using assms(1)[symmetric] assms(3) by (induction ws vs rule: list_induct2) (auto simp: cell_text_length)
  moreover have "map2 cell_text ws vs \<noteq> []" using assms(1,2) by (cases ws; cases vs) auto
  ultimately show ?thesis using join_by_length[of "map2 cell_text ws vs" 124] by (simp add: row_line_def)
qed

lemma rule_line_length:
  assumes "ws \<noteq> []"
  shows "length (rule_line ind ws) = length ind + 1 + sum_list (map (\<lambda>p. fst p + 3) ws)"
proof -
  let ?ss = "map (\<lambda>(w, num). replicate (w + 2) (45 :: int)) ws"
  have "sum_list (map (\<lambda>s. length s + 1) ?ss) = sum_list (map (\<lambda>p. fst p + 3) ws)"
    by (induction ws) auto
  then have "length (join_by 43 ?ss) + 1 = sum_list (map (\<lambda>p. fst p + 3) ws)"
    using join_by_length[of ?ss 43] assms by (metis map_is_Nil_conv)
  then show ?thesis unfolding rule_line_def length_append by simp
qed

section \<open>Property\<close>

text \<open>The table of a result: a rule, the header, a rule, one line per row, a rule and the number of rows.
  Every line but the last has the same length; a column is exactly as wide as its widest cell and flush
  right exactly when all its cells are \<open>NULL\<close> or numbers.\<close>

theorem table_layout:
  assumes "cols \<noteq> []" and "\<forall>r \<in> set rows. length r = length cols"
  shows "let ws = layout zs cols rows; rule = rule_line ind ws;
      body = map (\<lambda>r. row_line ind ws (map fmt_value r)) rows; header = row_line ind ws (map codes cols) in
    format_table zs ind cols rows = Inr (join_by 10 ([rule, header, rule] @ body @
      [rule, ind @ int_text (int (length rows)) @ codes '' row(s)''])) \<and>
    (\<forall>l \<in> set (rule # header # body). length l = length ind + 1 + (\<Sum>i < length cols. col_width cols rows i + 3))"
proof -
  let ?ws = "layout zs cols rows"
  have ws: "length ?ws = length cols" "?ws \<noteq> []" using assms(1) by (simp_all add: layout_def)
  have sum: "sum_list (map (\<lambda>p. fst p + 3) ?ws) = (\<Sum>i < length cols. col_width cols rows i + 3)"
    by (simp add: layout_def comp_def interv_sum_list_conv_sum_set_nat atLeast0LessThan)
  have fit: "\<forall>(p, v) \<in> set (zip ?ws vs). length v \<le> fst p"
    if "length vs = length cols" "\<And>i. i < length cols \<Longrightarrow> length (vs ! i) \<le> col_width cols rows i" for vs
    using that by (auto simp: set_zip layout_def)
  have header: "length (row_line ind ?ws (map codes cols)) = length ind + 1 + (\<Sum>i < length cols. col_width cols rows i + 3)"
    unfolding sum[symmetric] by (rule row_line_length[OF _ ws(2) fit]) (use ws(1) in \<open>auto simp: col_width_def\<close>)
  have body: "length (row_line ind ?ws (map fmt_value r)) = length ind + 1 + (\<Sum>i < length cols. col_width cols rows i + 3)"
    if "r \<in> set rows" for r
  proof -
    have "length (map fmt_value r ! i) \<le> col_width cols rows i" if "i < length cols" for i
      using \<open>r \<in> set rows\<close> assms(2) that by (auto simp: col_width_def intro: Max_ge)
    then show ?thesis unfolding sum[symmetric] using row_line_length[OF _ ws(2) fit] assms(2) ws(1) that by simp
  qed
  have "mapE (render ind us) (map (map fmt_value) rs) = Inr (map (\<lambda>r. row_line ind us (map fmt_value r)) rs)"
    if "\<forall>r \<in> set rs. length r = length us" for us rs
    using that by (induction rs) (simp_all add: render_line)
  from this[of rows ?ws] have "table_lines zs ind cols rows = Inr ([rule_line ind ?ws, row_line ind ?ws (map codes cols), rule_line ind ?ws] @
      map (\<lambda>r. row_line ind ?ws (map fmt_value r)) rows @
      [rule_line ind ?ws, ind @ int_text (int (length rows)) @ codes '' row(s)''])"
    using measured[OF assms(2)] ws(1) assms(2) by (simp add: table_lines_def Let_def render_line)
  then show ?thesis using assms(1) header body rule_line_length[OF ws(2)] sum by (auto simp: format_table_def Let_def)
qed

lemma table_layout_witness:
  "\<exists>out. format_table [] [] [''id'', ''v''] [[VInt 7, VText [97]], [VInt (-10), VNull]] = Inr out \<and>
     out = codes ''+-----+------+'' @ 10 # codes ''|  id | v    |'' @ 10 # codes ''+-----+------+'' @ 10 #
       codes ''|   7 | a    |'' @ 10 # codes ''| -10 | NULL |'' @ 10 # codes ''+-----+------+'' @ 10 # codes ''2 row(s)''"
proof -
  have r: "\<forall>r \<in> set [[VInt 7, VText [97]], [VInt (-10), VNull]]. length r = length [''id'', ''v'']" by simp
  have c: "[''id'', ''v''] \<noteq> []" by simp
  note T = table_layout[OF c r, of "[]" "[]", unfolded Let_def, THEN conjunct1]
  show ?thesis by (rule exI, rule conjI, rule T, code_simp)
qed

end
