(* ===== verification/Service.thy ===== *)
theory Service
  imports Database Maintain
begin

text \<open>
  The outermost layer of \<open>Database\<close>: \<open>execute\<close> with its cache of parsed statements,
  \<open>execute_script\<close>, \<open>refresh_from_wal\<close> with the reload of the catalog, \<open>vacuum\<close>, \<open>checkpoint\<close> and
  \<open>close\<close>. The log file is shared by the sessions of a path: its bytes, the published end of the log
  and the number of other open sessions are arguments.
\<close>

record service =
  sv_db :: engine
  sv_cache :: "(ustr \<times> stmt) list"
  sv_cache_size :: nat
  sv_version :: nat
  sv_open :: bool

definition on_db :: "(engine, 'a) prog \<Rightarrow> (service, 'a) prog" where
  "on_db m v = (let (r, e) = m (sv_db v) in (r, v\<lparr>sv_db := e\<rparr>))"

text \<open>What a session knows of the world outside: the log, its published end, the other sessions.\<close>

record world =
  w_log :: bytes
  w_end :: "nat option"
  w_others :: nat

section \<open>refresh\_from\_wal\<close>

text \<open>Up to where to read: \<open>None\<close> for not at all. An unpublished end is published as the own position.\<close>

definition read_end :: "world \<Rightarrow> bool \<Rightarrow> engine \<Rightarrow> nat option option" where
  "read_end w force e =
     (let shared_end = (case w_end w of None \<Rightarrow> e_pos e | Some n \<Rightarrow> n) in
      if w_end w \<noteq> None \<and> shared_end \<le> e_pos e then None
      else Some (if force then None else Some shared_end))"

definition reload_catalog :: "(engine, unit) prog" where
  "reload_catalog e =
     (let (r, p) = load_catalog (bpager (e_bt e)); e1 = e\<lparr>e_bt := (e_bt e)\<lparr>bpager := p\<rparr>\<rparr> in
      case r of
        Inl x \<Rightarrow> (Inl x, e1)
      | Inr c \<Rightarrow> rebuild_indexes (e1\<lparr>e_cat := c\<rparr>))"

definition adopt_engine :: "nat \<times> batch \<times> int \<Rightarrow> (service, unit) prog" where
  "adopt_engine b =
     bindP (on_db (on_session (\<lambda>s. (Inr (), adopt_batch b s)))) (\<lambda>_.
     if 0 \<in> fst ` set (fst (snd b)) then
       bindP (on_db reload_catalog) (\<lambda>_ v. (Inr (), v\<lparr>sv_cache := [], sv_version := Suc (sv_version v)\<rparr>))
     else ret ())"

fun adopt_all :: "(nat \<times> batch \<times> int) list \<Rightarrow> (service, unit) prog" where
  "adopt_all [] = ret ()"
| "adopt_all (b # bs) = bindP (adopt_engine b) (\<lambda>_. adopt_all bs)"

definition refresh_from_wal :: "world \<Rightarrow> bool \<Rightarrow> (service, unit) prog" where
  "refresh_from_wal w force v =
     (let e = sv_db v in
      if \<not> sv_open v \<or> e_txn e then (Inr (), v) else
      case read_end w force e of
        None \<Rightarrow> (Inr (), v)
      | Some limit \<Rightarrow>
          (case read_batches_from (w_log w) (e_pos e) limit of
             Inl x \<Rightarrow> (Inl x, v)
           | Inr bs \<Rightarrow> adopt_all bs v))"

section \<open>execute\<close>

definition execute_script :: "int list \<Rightarrow> (int \<Rightarrow> bool) \<Rightarrow> (int \<Rightarrow> int) \<Rightarrow> world \<Rightarrow> ustr \<Rightarrow> (service, outcome list) prog" where
  "execute_script zs prn low w sql =
     bindP (refresh_from_wal w False) (\<lambda>_.
     bindP (liftE (parse_script zs sql)) (\<lambda>sts. on_db (run_all prn low sts)))"

text \<open>The exceptions of the parser that are \<open>SQLError\<close>s.\<close>

definition is_sql_error :: "exn \<Rightarrow> bool" where
  "is_sql_error x \<longleftrightarrow> x \<in> {SQLError, ParseError, TransactionError, ExecutionError, CompileError}"

definition put_stmt :: "ustr \<Rightarrow> stmt \<Rightarrow> service \<Rightarrow> service" where
  "put_stmt sql st v =
     (let c = AList.update sql st (sv_cache v)
      in v\<lparr>sv_cache := drop (length c - sv_cache_size v) c\<rparr>)"

definition touch_stmt :: "ustr \<Rightarrow> stmt \<Rightarrow> service \<Rightarrow> service" where
  "touch_stmt sql st v = v\<lparr>sv_cache := AList.delete sql (sv_cache v) @ [(sql, st)]\<rparr>"

definition execute :: "int list \<Rightarrow> (int \<Rightarrow> bool) \<Rightarrow> (int \<Rightarrow> int) \<Rightarrow> world \<Rightarrow> ustr \<Rightarrow> (service, outcome) prog" where
  "execute zs prn low w sql =
     bindP (refresh_from_wal w False) (\<lambda>_ v.
     case map_of (sv_cache v) sql of
       Some st \<Rightarrow> on_db (run_one prn low st) (touch_stmt sql st v)
     | None \<Rightarrow>
         (case parse_statement zs sql of
            Inr st \<Rightarrow> on_db (run_one prn low st) (put_stmt sql st v)
          | Inl x \<Rightarrow>
              if is_sql_error x then
                bindP (execute_script zs prn low w sql) (\<lambda>rs. liftE (nth_err rs 0)) v
              else (Inl x, v)))"

section \<open>vacuum, checkpoint, close\<close>

definition vacuum :: "string \<Rightarrow> (engine, nat) prog" where
  "vacuum nm =
     bindP (get_meta nm) (\<lambda>m.
     bindP (on_bt (\<lambda>s. tree_vacuum bt_store PAGE_SIZE (32 + bt_npages s) (root_page m) s)) (\<lambda>(root, n) e.
     bindP save (\<lambda>_. ret n) (put_meta nm (m\<lparr>root_page := root\<rparr>) e)))"

definition checkpoint_db :: "world \<Rightarrow> (engine, unit) prog" where
  "checkpoint_db w = on_session (checkpoint_session (w_others w))"

text \<open>
  \<open>close\<close>: the session is closed also when the rollback is not needed or the checkpoint fails; the
  pager writes its dirty pages when it is closed.
\<close>

definition close_db :: "world \<Rightarrow> bool \<Rightarrow> (service, unit) prog" where
  "close_db w cp v =
     (if \<not> sv_open v then (Inr (), v) else
      bindP (on_db (if e_txn (sv_db v) then rollback_db else ret ())) (\<lambda>_ v.
      case on_db (if cp \<and> w_others w = 0 then checkpoint_db w else ret ()) v of
        (Inl x, v) \<Rightarrow> (Inl x, v\<lparr>sv_open := False\<rparr>)
      | (Inr _, v) \<Rightarrow> on_db (on_session (on_pager pager_flush)) (v\<lparr>sv_open := False\<rparr>)) v)"

end
