(* ===== verification/Shell.thy ===== *)
theory Shell
  imports Table Service
begin

text \<open>
  The shell of \<open>leafdb/repl.py\<close>: \<open>run_sql\<close>, the meta commands and the line loop of \<open>main\<close>. Lines come from
  a function of the number of the read, so that a source may go on for ever; the number of turns is
  fuel. \<open>lc\<close> is \<open>str.lower\<close> on characters. Elapsed times are not printed; a message of the engine is
  represented by the outcome it describes, the built-in benchmark by \<open>Report\<close>.
\<close>

datatype shown =
    Text ustr | Says outcome | Failed exn | Report

section \<open>Statistics\<close>

text \<open>\<open>Pager.stats\<close>, \<open>Database.stats\<close>, and the last field of \<open>BTree.stats\<close>.\<close>

record pager_stats =
  ps_hits :: nat
  ps_misses :: nat
  ps_rate :: ustr
  ps_cached :: nat
  ps_dirty :: nat
  ps_file :: nat

definition hit_rate :: "nat \<Rightarrow> nat \<Rightarrow> ustr res" where
  "hit_rate h m =
     (if h + m = 0 then Inr (fixed 1 (dbl_zero False))
      else bindE (int_truediv (int h) (int (h + m))) (\<lambda>q. bindE (dbl_of_int 100) (\<lambda>c. Inr (fixed 1 (dbl_mul q c)))))"

definition pager_stats_of :: "pager \<Rightarrow> pager_stats res" where
  "pager_stats_of p =
     bindE (hit_rate (hits p) (misses p)) (\<lambda>r.
     Inr \<lparr>ps_hits = hits p, ps_misses = misses p, ps_rate = r @ codes ''%'', ps_cached = length (pool p),
       ps_dirty = card (dirty p), ps_file = num_pages p\<rparr>)"

definition sorted_tables :: "catalog \<Rightarrow> (string \<times> table_meta) list" where
  "sorted_tables c = sort_key (\<lambda>p. codes (fst p)) (tables c)"

definition engine_stats :: "engine \<Rightarrow> (ustr list \<times> pager_stats \<times> bool) res" where
  "engine_stats e =
     bindE (pager_stats_of (bpager (e_bt e))) (\<lambda>p.
     Inr (map (\<lambda>t. codes (fst t)) (sorted_tables (e_cat e)), p, e_txn e))"

text \<open>\<open>round(keys / leaves, 1)\<close>\<close>

definition average_fill :: "tree_stats \<Rightarrow> double res" where
  "average_fill r =
     (if st_leaves r = 0 then Inr (dbl_zero False)
      else bindE (int_truediv (int (st_keys r)) (int (st_leaves r))) (\<lambda>q.
        Inr (case fclass q of FFin neg m x \<Rightarrow> dbl_round neg (scaled 1 m x) 10 0 | _ \<Rightarrow> q)))"

section \<open>run\_sql\<close>

text \<open>A result with columns and rows is a table, one with a message is the message, an empty \<open>SELECT\<close> prints nothing.\<close>

fun show_results :: "int list \<Rightarrow> outcome list \<Rightarrow> shown list res" where
  "show_results zs [] = Inr []"
| "show_results zs (R_rows cols rws # rs) =
     (if cols \<noteq> [] \<and> rws \<noteq> [] then
        bindE (format_table zs [] cols rws) (\<lambda>t. bindE (show_results zs rs) (\<lambda>ss. Inr (Text t # ss)))
      else show_results zs rs)"
| "show_results zs (r # rs) = bindE (show_results zs rs) (\<lambda>ss. Inr (Says r # ss))"

definition run_sql :: "int list \<Rightarrow> (int \<Rightarrow> bool) \<Rightarrow> (int \<Rightarrow> int) \<Rightarrow> world \<Rightarrow> ustr \<Rightarrow> (service, bool \<times> shown list) prog" where
  "run_sql zs prn low w sql v =
     (case execute_script zs prn low w sql v of
        (Inl x, v1) \<Rightarrow> (Inr (False, [Failed x]), v1)
      | (Inr rs, v1) \<Rightarrow> (bindE (show_results zs rs) (\<lambda>ss. Inr (True, ss)), v1))"

section \<open>Meta commands\<close>

datatype reply = Quit | Reply "shown list"

definition help_text :: ustr where
  "help_text =
     codes ''meta commands:'' @ 10 #
     codes ''  .tables              list tables'' @ 10 #
     codes ''  .schema TABLE        show table columns'' @ 10 #
     codes ''  .btree TABLE         B+ tree stats (depth, leaves, fill)'' @ 10 #
     codes ''  .check TABLE         validate B+ tree invariants (balance, separators, occupancy)'' @ 10 #
     codes ''  .explain SQL         print the query plan for a SELECT'' @ 10 #
     codes ''  .stats               buffer pool / engine stats'' @ 10 #
     codes ''  .benchmark           run the built-in benchmark suite'' @ 10 #
     codes ''  .vacuum TABLE        rebuild a table'' @ [39] @ codes ''s tree compactly'' @ 10 #
     codes ''  .quit                exit'' @ 10 #
     codes ''everything else is SQL; end statements with '' @ [39, 59, 39]"

text \<open>\<open>str.split()\<close>\<close>

function words :: "ustr \<Rightarrow> ustr list" where
  "words s =
     (let t = dropWhile is_space s in
      if t = [] then [] else takeWhile (\<lambda>c. \<not> is_space c) t # words (dropWhile (\<lambda>c. \<not> is_space c) t))"
  by pat_completeness auto
termination
proof (relation "measure length")
  fix s t :: ustr
  assume t: "t = dropWhile is_space s" "t \<noteq> []"
  then have "\<not> is_space (hd t)" by (simp add: hd_dropWhile)
  then have "length (dropWhile (\<lambda>c. \<not> is_space c) t) < length t"
    using t(2) by (cases t) (simp_all add: le_imp_less_Suc length_dropWhile_le)
  also have "\<dots> \<le> length s" using t(1) by (simp add: length_dropWhile_le)
  finally show "(dropWhile (\<lambda>c. \<not> is_space c) t, s) \<in> measure length" by simp
qed simp

declare words.simps [simp del]

text \<open>\<open>catalog.get\<close> of a word of the line.\<close>

definition named_table :: "(int \<Rightarrow> int) \<Rightarrow> ustr \<Rightarrow> (service, table_meta) prog" where
  "named_table lc nm v =
     (let k = map lc nm in
      (if \<forall>c \<in> set k. 0 \<le> c \<and> c < 128 then catalog_get (e_cat (sv_db v)) (chars k) else Inl CatalogError, v))"

definition table_line :: "string \<times> table_meta \<Rightarrow> shown" where
  "table_line p = Text (codes ''  '' @ codes (fst p) @ codes ''  ('' @ int_text (row_count (snd p)) @ codes '' rows)'')"

definition schema_line :: "table_meta \<Rightarrow> column \<Rightarrow> shown" where
  "schema_line m c =
     Text (codes ''  '' @ ljust 12 (codes (cname c)) @ codes '' '' @ codes (type_name (ctype c)) @
       (if pk_column m = Some (cname c) then codes '' PRIMARY KEY'' else []) @
       (case map_of (indexes m) (cname c) of None \<Rightarrow> [] | Some inm \<Rightarrow> codes ''  [indexed: '' @ codes inm @ codes '']''))"

definition usage :: "string \<Rightarrow> (service, reply) prog" where
  "usage s = ret (Reply [Text (codes s)])"

definition with_table :: "(int \<Rightarrow> int) \<Rightarrow> ustr list \<Rightarrow> string \<Rightarrow> (ustr \<Rightarrow> table_meta \<Rightarrow> (service, reply) prog) \<Rightarrow> (service, reply) prog" where
  "with_table lc parts u f =
     (case parts of c # nm # _ \<Rightarrow> bindP (named_table lc nm) (f nm) | _ \<Rightarrow> usage u)"

definition show_schema :: "ustr \<Rightarrow> table_meta \<Rightarrow> (service, reply) prog" where
  "show_schema nm m = ret (Reply (map (schema_line m) (columns m)))"

definition show_tree :: "ustr \<Rightarrow> table_meta \<Rightarrow> (service, reply) prog" where
  "show_tree nm m =
     bindP (on_db (on_bt (stats bt_store 34 (root_page m)))) (\<lambda>t.
     bindP (liftE (average_fill t)) (\<lambda>fill.
     ret (Reply [Text (codes ''  depth='' @ int_text (int (st_depth t)) @ codes '' leaves='' @ int_text (int (st_leaves t)) @
       codes '' internal='' @ int_text (int (st_internals t)) @ codes '' keys='' @ int_text (int (st_keys t)) @
       codes '' avg_leaf_fill='' @ float_text fill)])))"

definition show_check :: "ustr \<Rightarrow> table_meta \<Rightarrow> (service, reply) prog" where
  "show_check nm m v =
     (case on_db (on_bt (\<lambda>s. check bt_store PAGE_SIZE 32 (bt_npages s) (root_page m) s)) v of
        (Inl AssertionError, v1) \<Rightarrow> (Inr (Reply [Failed AssertionError]), v1)
      | (Inl x, v1) \<Rightarrow> (Inl x, v1)
      | (Inr n, v1) \<Rightarrow> (Inr (Reply [Text (codes ''  OK: '' @ int_text (int n) @ codes '' keys, balanced=True'')]), v1))"

definition show_vacuum :: "ustr \<Rightarrow> table_meta \<Rightarrow> (service, reply) prog" where
  "show_vacuum nm m =
     bindP (on_db (vacuum (tname m))) (\<lambda>n.
     ret (Reply [Text (codes ''vacuumed '' @ int_text (int n) @ codes '' row(s) in '' @ codes (tname m))]))"

definition show_stats :: "world \<Rightarrow> (service, reply) prog" where
  "show_stats w v =
     (bindE (engine_stats (sv_db v)) (\<lambda>(ts, p, txn).
      Inr (Reply
        [Text (codes ''  tables: '' @ (if ts = [] then codes ''-'' else sep_join ts)),
         Text (codes ''  cache: '' @ int_text (int (ps_cached p)) @ codes '' pages cached, '' @ int_text (int (ps_dirty p)) @
           codes '' dirty, hit rate '' @ ps_rate p @ codes '' ('' @ int_text (int (ps_hits p)) @ codes ''/'' @
           int_text (int (ps_hits p + ps_misses p)) @ codes '')''),
         Text (codes ''  file: '' @ int_text (int (ps_file p)) @ codes '' pages x 4096 bytes''),
         Text (codes ''  wal pending: '' @ int_text (int (length (w_log w) - length WAL_HEADER)) @ codes '' bytes'')])), v)"

definition show_tables :: "(service, reply) prog" where
  "show_tables v =
     (let ts = sorted_tables (e_cat (sv_db v))
      in (Inr (Reply (if ts = [] then [Text (codes ''(no tables)'')] else map table_line ts)), v))"

definition explain_command :: "int list \<Rightarrow> (int \<Rightarrow> bool) \<Rightarrow> (int \<Rightarrow> int) \<Rightarrow> world \<Rightarrow> ustr \<Rightarrow> (service, reply) prog" where
  "explain_command zs prn low w cmd =
     (let sql = strip_of is_space (drop 8 cmd) in
      if sql = [] then usage ''usage: .explain SELECT ...''
      else bindP (run_sql zs prn low w (codes ''EXPLAIN '' @ sql)) (\<lambda>(b, ss). ret (Reply ss)))"

definition handle_meta :: "int list \<Rightarrow> (int \<Rightarrow> bool) \<Rightarrow> (int \<Rightarrow> int) \<Rightarrow> (int \<Rightarrow> int) \<Rightarrow> world \<Rightarrow> ustr \<Rightarrow> (service, reply) prog" where
  "handle_meta zs prn low lc w cmd =
     (let parts = words cmd in
      case parts of
        [] \<Rightarrow> raise IndexError
      | c # args \<Rightarrow>
          (let name = map lc c in
           if name = codes ''.quit'' \<or> name = codes ''.exit'' then ret Quit
           else if name = codes ''.help'' then ret (Reply [Text help_text])
           else if name = codes ''.tables'' then show_tables
           else if name = codes ''.schema'' then with_table lc parts ''usage: .schema TABLE'' show_schema
           else if name = codes ''.btree'' then with_table lc parts ''usage: .btree TABLE'' show_tree
           else if name = codes ''.check'' then
             with_table lc parts ''usage: .check TABLE   (validate B+ tree invariants)'' show_check
           else if name = codes ''.stats'' then show_stats w
           else if name = codes ''.explain'' then explain_command zs prn low w cmd
           else if name = codes ''.benchmark'' then ret (Reply [Report])
           else if name = codes ''.vacuum'' then with_table lc parts ''usage: .vacuum TABLE'' show_vacuum
           else ret (Reply [Text (codes ''unknown command '' @ repr_str prn name @ codes '' (.help for help)'')])))"

section \<open>The loop\<close>

text \<open>What a read gives: a line, \<open>EOFError\<close>, or \<open>KeyboardInterrupt\<close>.\<close>

datatype reading = Line ustr | Eof | Interrupt

datatype ending = Ended | Crashed exn | Running

text \<open>One turn of \<open>while True\<close>: \<open>Inl\<close> with the way the loop ends, or \<open>Inr\<close> with the buffer of the next turn.\<close>

definition shell_turn :: "int list \<Rightarrow> (int \<Rightarrow> bool) \<Rightarrow> (int \<Rightarrow> int) \<Rightarrow> (int \<Rightarrow> int) \<Rightarrow> world \<Rightarrow> reading \<Rightarrow>
    ustr \<Rightarrow> shown list \<Rightarrow> service \<Rightarrow> (ending + ustr) \<times> shown list \<times> service" where
  "shell_turn zs prn low lc w r buffer out v =
     (case r of
        Eof \<Rightarrow> (Inl Ended, out, v)
      | Interrupt \<Rightarrow> (Inl Ended, out, v)
      | Line line \<Rightarrow>
          (let stripped = strip_of is_space line in
           if buffer = [] \<and> stripped \<noteq> [] \<and> hd stripped = 46 then
             (case handle_meta zs prn low lc w stripped v of
                (Inl x, v1) \<Rightarrow> (Inl (Crashed x), out, v1)
              | (Inr Quit, v1) \<Rightarrow> (Inl Ended, out, v1)
              | (Inr (Reply ss), v1) \<Rightarrow> (Inr [], out @ ss, v1))
           else if buffer = [] \<and> stripped = [] then (Inr [], out, v)
           else
             (let buffer' = buffer @ line @ [10] in
              if stripped \<noteq> [] \<and> last stripped = 59 then
                (case run_sql zs prn low w buffer' v of
                   (Inl x, v1) \<Rightarrow> (Inl (Crashed x), out, v1)
                 | (Inr (b, ss), v1) \<Rightarrow> (Inr [], out @ ss, v1))
              else (Inr buffer', out, v))))"

fun shell_loop :: "int list \<Rightarrow> (int \<Rightarrow> bool) \<Rightarrow> (int \<Rightarrow> int) \<Rightarrow> (int \<Rightarrow> int) \<Rightarrow> (nat \<Rightarrow> world) \<Rightarrow> (nat \<Rightarrow> reading) \<Rightarrow>
    nat \<Rightarrow> nat \<Rightarrow> ustr \<Rightarrow> shown list \<Rightarrow> service \<Rightarrow> (ending \<times> shown list) \<times> service" where
  "shell_loop zs prn low lc wld inp 0 k buffer out v = ((Running, out), v)"
| "shell_loop zs prn low lc wld inp (Suc fuel) k buffer out v =
     (case shell_turn zs prn low lc (wld k) (inp k) buffer out v of
        (Inl r, out1, v1) \<Rightarrow> ((r, out1), v1)
      | (Inr buffer1, out1, v1) \<Rightarrow> shell_loop zs prn low lc wld inp fuel (Suc k) buffer1 out1 v1)"

definition banner :: "ustr \<Rightarrow> shown list" where
  "banner path =
     [Text (codes ''LeafDB '' @ [8212] @ codes '' a tiny relational database (python, stdlib-only)''),
      Text (codes ''database: \"'' @ path @ codes ''\"   type \".help\" for meta commands'')]"

text \<open>\<open>main\<close> on the opened database: the database is closed however the loop ends; an exception of
  \<open>close\<close> replaces the one of the loop.\<close>

definition shell_main :: "int list \<Rightarrow> (int \<Rightarrow> bool) \<Rightarrow> (int \<Rightarrow> int) \<Rightarrow> (int \<Rightarrow> int) \<Rightarrow> (nat \<Rightarrow> world) \<Rightarrow> (nat \<Rightarrow> reading) \<Rightarrow>
    nat \<Rightarrow> world \<Rightarrow> ustr \<Rightarrow> service \<Rightarrow> (ending \<times> shown list) \<times> service" where
  "shell_main zs prn low lc wld inp fuel wend path v =
     (let ((r, out), v1) = shell_loop zs prn low lc wld inp fuel 0 [] (banner path) v in
      if r = Running then ((r, out), v1) else
      case close_db wend True v1 of
        (Inl x, v2) \<Rightarrow> ((Crashed x, out), v2)
      | (Inr _, v2) \<Rightarrow> ((r, out @ [Text (codes ''bye'')]), v2))"

end
