(* ===== verification/ServiceProps.thy ===== *)
theory ServiceProps
  imports Service DmlClaims
begin

text \<open>
  The cache of parsed statements: calls of \<open>execute\<close> return what they would return if every call parsed
  its text again.
\<close>

section \<open>Execution without the cache\<close>

definition execute_parsed :: "int list \<Rightarrow> (int \<Rightarrow> bool) \<Rightarrow> (int \<Rightarrow> int) \<Rightarrow> world \<Rightarrow> ustr \<Rightarrow> (service, outcome) prog" where
  "execute_parsed zs prn low w sql =
     bindP (refresh_from_wal w False) (\<lambda>_ v.
     case parse_statement zs sql of
       Inr st \<Rightarrow> on_db (run_one prn low st) v
     | Inl x \<Rightarrow>
         if is_sql_error x then bindP (execute_script zs prn low w sql) (\<lambda>rs. liftE (nth_err rs 0)) v
         else (Inl x, v))"

text \<open>The calls of a session, each with the log it finds; a call that raises does not end the session.\<close>

fun calls :: "(world \<Rightarrow> ustr \<Rightarrow> (service, outcome) prog) \<Rightarrow> (world \<times> ustr) list \<Rightarrow> service \<Rightarrow> outcome res list \<times> service" where
  "calls f [] v = ([], v)"
| "calls f ((w, sql) # cs) v = (let (r, v1) = f w sql v; (rs, v2) = calls f cs v1 in (r # rs, v2))"

definition cache_sound :: "int list \<Rightarrow> service \<Rightarrow> bool" where
  "cache_sound zs v \<longleftrightarrow> distinct (map fst (sv_cache v)) \<and> length (sv_cache v) \<le> sv_cache_size v \<and>
     (\<forall>(sql, st) \<in> set (sv_cache v). parse_statement zs sql = Inr st)"

text \<open>Two services that differ in their caches only.\<close>

definition same_but_cache :: "service \<Rightarrow> service \<Rightarrow> bool" where
  "same_but_cache v u \<longleftrightarrow> sv_db v = sv_db u \<and> sv_version v = sv_version u \<and> sv_open v = sv_open u \<and>
     sv_cache_size v = sv_cache_size u"

definition agree :: "int list \<Rightarrow> 'a res \<times> service \<Rightarrow> 'a res \<times> service \<Rightarrow> bool" where
  "agree zs p q \<longleftrightarrow> fst p = fst q \<and> cache_sound zs (snd p) \<and> same_but_cache (snd p) (snd q)"

definition agrees :: "int list \<Rightarrow> (service, 'a) prog \<Rightarrow> (service, 'a) prog \<Rightarrow> bool" where
  "agrees zs f g \<longleftrightarrow> (\<forall>v u. cache_sound zs v \<longrightarrow> same_but_cache v u \<longrightarrow> agree zs (f v) (g u))"

lemma agreesD: "agrees zs f g \<Longrightarrow> cache_sound zs v \<Longrightarrow> same_but_cache v u \<Longrightarrow> agree zs (f v) (g u)"
  by (simp add: agrees_def)

lemma agrees_bind:
  assumes "agrees zs f g" and "\<And>x. agrees zs (h x) (k x)"
  shows "agrees zs (bindP f h) (bindP g k)"
proof -
  have "agree zs (bindP f h v) (bindP g k u)" if P: "cache_sound zs v" "same_but_cache v u" for v u
  proof -
    obtain r v1 u1 where "f v = (r, v1)" "g u = (r, u1)" "cache_sound zs v1" "same_but_cache v1 u1"
      using agreesD[OF assms(1) P] by (cases "f v"; cases "g u") (auto simp: agree_def)
    then show ?thesis using agreesD[OF assms(2), of v1 u1] by (cases r) (simp_all add: bindP_app agree_def)
  qed
  then show ?thesis by (simp add: agrees_def)
qed

lemma agrees_ret: "agrees zs (ret x) (ret x)"
  by (simp add: agrees_def agree_def)

lemma agrees_liftE: "agrees zs (liftE r) (liftE r)"
  by (simp add: agrees_def agree_def)

lemma agrees_db: "agrees zs (on_db m) (on_db m)"
  by (auto simp: agrees_def agree_def on_db_def same_but_cache_def cache_sound_def split: prod.split)

lemma agrees_adopt_engine: "agrees zs (adopt_engine b) (adopt_engine b)"
proof -
  have "agrees zs (\<lambda>v. (Inr (), v\<lparr>sv_cache := [], sv_version := Suc (sv_version v)\<rparr>))
      (\<lambda>v. (Inr (), v\<lparr>sv_cache := [], sv_version := Suc (sv_version v)\<rparr>))"
    by (auto simp: agrees_def agree_def same_but_cache_def cache_sound_def)
  then show ?thesis unfolding adopt_engine_def
    by (cases "0 \<in> fst ` set (fst (snd b))") (simp_all add: agrees_bind agrees_db agrees_ret)
qed

lemma agrees_adopt_all: "agrees zs (adopt_all bs) (adopt_all bs)"
  by (induction bs) (simp_all only: adopt_all.simps agrees_bind agrees_ret agrees_adopt_engine)

lemma agrees_refresh: "agrees zs (refresh_from_wal w force) (refresh_from_wal w force)"
proof -
  have "agree zs (refresh_from_wal w force v) (refresh_from_wal w force u)"
    if P: "cache_sound zs v" "same_but_cache v u" for v u
  proof -
    have "sv_db u = sv_db v" "sv_open u = sv_open v" using P(2) by (simp_all add: same_but_cache_def)
    then show ?thesis using P agreesD[OF agrees_adopt_all P]
      by (auto simp: refresh_from_wal_def Let_def agree_def split: option.split sum.split)
  qed
  then show ?thesis by (simp add: agrees_def)
qed

lemma agrees_script: "agrees zs (execute_script zs prn low w sql) (execute_script zs prn low w sql)"
  unfolding execute_script_def by (intro agrees_bind agrees_refresh agrees_liftE agrees_db)

section \<open>The cache stays sound\<close>

lemma sound_put:
  assumes "cache_sound zs v" and "parse_statement zs sql = Inr st"
  shows "cache_sound zs (put_stmt sql st v)"
proof -
  let ?c = "AList.update sql st (sv_cache v)"
  have "distinct (map fst ?c)" using assms(1) by (simp add: cache_sound_def distinct_update)
  moreover have "set (AList.update sql st c) \<subseteq> insert (sql, st) (set c)" for c by (induction c) auto
  then have "\<forall>(s, t) \<in> set ?c. parse_statement zs s = Inr t" using assms unfolding cache_sound_def by blast
  ultimately show ?thesis
    by (auto simp: cache_sound_def put_stmt_def Let_def drop_map[symmetric] distinct_drop dest!: in_set_dropD)
qed

lemma sound_touch:
  assumes "cache_sound zs v" and "map_of (sv_cache v) sql = Some st"
  shows "cache_sound zs (touch_stmt sql st v)"
proof -
  have "(sql, st) \<in> set (sv_cache v)" using assms(2) by (rule map_of_SomeD)
  moreover from this have "length (AList.delete sql (sv_cache v)) < length (sv_cache v)"
    by (auto simp: AList.delete_eq intro: length_filter_less)
  ultimately show ?thesis using assms(1)
    by (auto simp: cache_sound_def touch_stmt_def AList.delete_eq distinct_map_filter)
qed

lemma agrees_execute: "agrees zs (execute zs prn low w sql) (execute_parsed zs prn low w sql)"
  unfolding execute_def execute_parsed_def
proof (rule agrees_bind[OF agrees_refresh])
  fix x :: unit
  let ?f = "\<lambda>v. case map_of (sv_cache v) sql of
       Some st \<Rightarrow> on_db (run_one prn low st) (touch_stmt sql st v)
     | None \<Rightarrow>
         (case parse_statement zs sql of
            Inr st \<Rightarrow> on_db (run_one prn low st) (put_stmt sql st v)
          | Inl x \<Rightarrow>
              if is_sql_error x then
                bindP (execute_script zs prn low w sql) (\<lambda>rs. liftE (nth_err rs 0)) v
              else (Inl x, v))"
  let ?g = "\<lambda>v. case parse_statement zs sql of
       Inr st \<Rightarrow> on_db (run_one prn low st) v
     | Inl x \<Rightarrow>
         if is_sql_error x then bindP (execute_script zs prn low w sql) (\<lambda>rs. liftE (nth_err rs 0)) v
         else (Inl x, v)"
  have "agree zs (?f v) (?g u)" if P: "cache_sound zs v" "same_but_cache v u" for v u
  proof (cases "map_of (sv_cache v) sql")
    case (Some st)
    then have "parse_statement zs sql = Inr st" using P(1) map_of_SomeD[OF Some] by (auto simp: cache_sound_def)
    moreover have "same_but_cache (touch_stmt sql st v) u" using P(2) by (simp add: same_but_cache_def touch_stmt_def)
    ultimately show ?thesis using Some agreesD[OF agrees_db sound_touch[OF P(1) Some]] by simp
  next
    case None
    show ?thesis
    proof (cases "parse_statement zs sql")
      case (Inl x)
      have "agrees zs (bindP (execute_script zs prn low w sql) (\<lambda>rs. liftE (nth_err rs 0)))
          (bindP (execute_script zs prn low w sql) (\<lambda>rs. liftE (nth_err rs 0)))"
        by (intro agrees_bind agrees_script agrees_liftE)
      from agreesD[OF this P] show ?thesis using None Inl P by (simp add: agree_def)
    next
      case (Inr st)
      have "same_but_cache (put_stmt sql st v) u" using P(2) by (simp add: same_but_cache_def put_stmt_def Let_def)
      then show ?thesis using None Inr agreesD[OF agrees_db sound_put[OF P(1) Inr]] by simp
    qed
  qed
  then show "agrees zs ?f ?g" by (simp only: agrees_def) blast
qed

section \<open>Property\<close>

text \<open>C36. The statement cache is transparent: any calls of \<open>execute\<close>, in any order and with any log of the
  other sessions in between, return the results and leave the database that parsing every text again
  would; the cache holds at most its size, each text once, with the statement the parser gives for it.\<close>

theorem cached_calls_agree:
  assumes "cache_sound zs v"
  shows "fst (calls (execute zs prn low) cs v) = fst (calls (execute_parsed zs prn low) cs v) \<and>
    sv_db (snd (calls (execute zs prn low) cs v)) = sv_db (snd (calls (execute_parsed zs prn low) cs v)) \<and>
    cache_sound zs (snd (calls (execute zs prn low) cs v))"
proof -
  have "agree zs (map_prod Inr id (calls (execute zs prn low) cs v)) (map_prod Inr id (calls (execute_parsed zs prn low) cs u))"
    if "cache_sound zs v" "same_but_cache v u" for v u
    using that
  proof (induction cs arbitrary: v u)
    case Nil
    then show ?case by (simp add: agree_def)
  next
    case (Cons c cs)
    obtain w sql where c: "c = (w, sql)" by (cases c)
    obtain r v1 u1 where 1: "execute zs prn low w sql v = (r, v1)" "execute_parsed zs prn low w sql u = (r, u1)"
      "cache_sound zs v1" "same_but_cache v1 u1"
      using agreesD[OF agrees_execute Cons.prems, of prn low w sql]
      by (cases "execute zs prn low w sql v"; cases "execute_parsed zs prn low w sql u") (auto simp: agree_def)
    show ?case using Cons.IH[OF 1(3,4)] 1(1,2) c by (auto simp: agree_def split: prod.splits)
  qed
  from this[OF assms, of v] show ?thesis by (simp add: agree_def same_but_cache_def)
qed

definition quiet :: world where
  "quiet = \<lparr>w_log = [], w_end = Some 0, w_others = 0\<rparr>"

definition people_service :: service where
  "people_service = \<lparr>sv_db = people_db demo_store, sv_cache = [(codes ''BEGIN'', S_begin)], sv_cache_size = 1, sv_version = 0, sv_open = True\<rparr>"

lemma people_service_sound: "cache_sound [1632] people_service"
proof -
  have "parse_statement [1632] (codes ''BEGIN'') = Inr S_begin" by code_simp
  then show ?thesis by (simp add: cache_sound_def people_service_def)
qed

lemma cached_calls_agree_witness:
  "length (sv_cache people_service) = 1 \<and>
     fst (calls (execute [1632] (\<lambda>_. True) id) [(quiet, codes ''BEGIN''), (quiet, codes ''COMMIT''), (quiet, codes ''BEGIN'')] people_service) =
     fst (calls (execute_parsed [1632] (\<lambda>_. True) id) [(quiet, codes ''BEGIN''), (quiet, codes ''COMMIT''), (quiet, codes ''BEGIN'')] people_service)"
proof
  show "length (sv_cache people_service) = 1" by (simp add: people_service_def)
qed (rule cached_calls_agree[OF people_service_sound, THEN conjunct1])

end
