(* ===== verification/ShellProps.thy ===== *)
theory ShellProps
  imports Shell ServiceProps
begin

text \<open>
  The loop of the shell: statements are collected over lines and run at a line that ends in a semicolon;
  the loop stops when a read raises, and a source that goes on with empty reads keeps it running.
\<close>

section \<open>Lines that are collected\<close>

definition collects :: "ustr \<Rightarrow> ustr \<Rightarrow> bool" where
  "collects buffer line \<longleftrightarrow>
     (let s = strip_of is_space line in
      (buffer \<noteq> [] \<or> s \<noteq> [] \<and> hd s \<noteq> 46) \<and> \<not> (s \<noteq> [] \<and> last s = 59))"

definition completes :: "ustr \<Rightarrow> ustr \<Rightarrow> bool" where
  "completes buffer line \<longleftrightarrow>
     (let s = strip_of is_space line in s \<noteq> [] \<and> (buffer \<noteq> [] \<or> hd s \<noteq> 46) \<and> last s = 59)"

definition script_of :: "ustr list \<Rightarrow> ustr" where
  "script_of ls = concat (map (\<lambda>l. l @ [10]) ls)"

lemma script_of_simps [simp]:
  "script_of [] = []" "script_of (l # ls) = l @ [10] @ script_of ls" "script_of (ls @ ms) = script_of ls @ script_of ms"
  by (simp_all add: script_of_def)

lemma loop_collects:
  assumes "inp k = Line l" and "collects buffer l"
  shows "shell_loop zs prn low lc wld inp (Suc fuel) k buffer out v =
     shell_loop zs prn low lc wld inp fuel (Suc k) (buffer @ l @ [10]) out v"
  using assms by (auto simp: collects_def Let_def shell_turn_def)

lemma loop_collects_all:
  assumes "\<And>i. i < length ls \<Longrightarrow> inp (k + i) = Line (ls ! i)"
    and "\<And>i. i < length ls \<Longrightarrow> collects (buffer @ script_of (take i ls)) (ls ! i)"
  shows "shell_loop zs prn low lc wld inp (length ls + fuel) k buffer out v =
     shell_loop zs prn low lc wld inp fuel (k + length ls) (buffer @ script_of ls) out v"
  using assms
proof (induction ls arbitrary: k buffer)
  case Nil
  then show ?case by simp
next
  case (Cons l ls)
  have "shell_loop zs prn low lc wld inp (length ls + fuel) (Suc k) (buffer @ l @ [10]) out v =
      shell_loop zs prn low lc wld inp fuel (Suc k + length ls) ((buffer @ l @ [10]) @ script_of ls) out v"
  proof (rule Cons.IH)
    show "inp (Suc k + i) = Line (ls ! i)" if "i < length ls" for i using Cons.prems(1)[of "Suc i"] that by simp
    show "collects ((buffer @ l @ [10]) @ script_of (take i ls)) (ls ! i)" if "i < length ls" for i
      using Cons.prems(2)[of "Suc i"] that by simp
  qed
  moreover have "inp k = Line l" "collects buffer l" using Cons.prems[of 0] by simp_all
  ultimately show ?case using loop_collects[of inp k l buffer zs prn low lc wld "length ls + fuel" out v] by simp
qed

section \<open>When the loop ends\<close>

lemma turn_stops: "shell_turn zs prn low lc w r buffer out v = (Inl e, out1, v1) \<Longrightarrow> e \<noteq> Running"
  by (auto simp: shell_turn_def Let_def split: reading.splits if_splits prod.splits sum.splits reply.splits)

lemma loop_ends:
  assumes "\<And>l. inp n \<noteq> Line l" and "k \<le> n" and "n < k + fuel"
  shows "fst (fst (shell_loop zs prn low lc wld inp fuel k buffer out v)) \<noteq> Running"
  using assms(2,3)
proof (induction fuel arbitrary: k buffer out v)
  case 0
  then show ?case by simp
next
  case (Suc fuel)
  show ?case
  proof (cases "inp k")
    case (Line l)
    then have "k \<noteq> n" using assms(1) by auto
    then have "Suc k \<le> n" "n < Suc k + fuel" using Suc.prems by auto
    note IH = Suc.IH[OF this]
    show ?thesis using IH turn_stops by (auto split: prod.split sum.split)
  qed (simp_all add: shell_turn_def)
qed

lemma strip_Nil [simp]: "strip_of P [] = []"
  by (simp add: strip_of_def)

lemma loop_empty:
  assumes "\<And>i. k \<le> i \<Longrightarrow> inp i = Line []"
  shows "shell_loop zs prn low lc wld inp fuel k buffer out v = ((Running, out), v)"
  using assms
proof (induction fuel arbitrary: k buffer)
  case (Suc fuel)
  have "shell_loop zs prn low lc wld inp fuel (Suc k) b out v = ((Running, out), v)" for b
    by (rule Suc.IH) (use Suc.prems in simp)
  then show ?case using Suc.prems[of k] by (simp add: shell_turn_def)
qed simp

lemma loop_stays:
  assumes "\<And>i. n \<le> i \<Longrightarrow> inp i = Line []" and "k \<le> n"
    and "fst (fst (shell_loop zs prn low lc wld inp (n - k) k buffer out v)) = Running"
  shows "fst (fst (shell_loop zs prn low lc wld inp fuel k buffer out v)) = Running"
  using assms(2,3)
proof (induction "n - k" arbitrary: k buffer out v fuel)
  case 0
  then show ?case using loop_empty[of k inp] assms(1) by simp
next
  case (Suc d)
  then have d: "n - k = Suc d" "d = n - Suc k" "Suc k \<le> n" by auto
  note IH = Suc.hyps(1)[OF d(2,3)]
  show ?case
  proof (cases fuel)
    case f: (Suc f)
    obtain t out1 v1 where t: "shell_turn zs prn low lc (wld k) (inp k) buffer out v = (t, out1, v1)"
      by (cases "shell_turn zs prn low lc (wld k) (inp k) buffer out v")
    show ?thesis
    proof (cases t)
      case (Inl e)
      then show ?thesis using Suc.prems(2) d(1) t by (simp add: f)
    next
      case (Inr b)
      then show ?thesis using IH[of b out1 v1 f] Suc.prems(2) d(1,2) t by (simp add: f)
    qed
  qed simp
qed

section \<open>Properties\<close>

text \<open>C38. The shell executes what is typed: lines are collected, whatever they hold, until one ends in a
  semicolon; the script that is run is exactly these lines, and the loop goes on after it with an empty
  buffer and its output appended.\<close>

theorem shell_runs_script:
  assumes "\<And>i. i < length ls \<Longrightarrow> inp (k + i) = Line (ls ! i)" and "inp (k + length ls) = Line l"
    and "\<And>i. i < length ls \<Longrightarrow> collects (script_of (take i ls)) (ls ! i)" and "completes (script_of ls) l"
    and "run_sql zs prn low (wld (k + length ls)) (script_of (ls @ [l])) v = (Inr (b, ss), v1)"
  shows "shell_loop zs prn low lc wld inp (length ls + Suc fuel) k [] out v =
     shell_loop zs prn low lc wld inp fuel (k + length ls + 1) [] (out @ ss) v1"
proof -
  have "shell_loop zs prn low lc wld inp (length ls + Suc fuel) k [] out v =
      shell_loop zs prn low lc wld inp (Suc fuel) (k + length ls) ([] @ script_of ls) out v"
    by (rule loop_collects_all) (use assms(1,3) in auto)
  also have "\<dots> = shell_loop zs prn low lc wld inp fuel (k + length ls + 1) [] (out @ ss) v1"
    using assms(2,4,5) by (auto simp: completes_def Let_def shell_turn_def)
  finally show ?thesis .
qed

definition typed :: "nat \<Rightarrow> reading" where
  "typed k = (if k = 0 then Line (codes ''BEGIN '') else if k = 1 then Line (codes ''   ;'') else Line [])"

lemma people_begins:
  "\<exists>v1. run_sql [1632] (\<lambda>_. True) id quiet (codes ''BEGIN '' @ [10] @ codes ''   ;'' @ [10]) people_service = (Inr (True, [Says R_done]), v1)"
proof -
  have p: "parse_script [1632] (codes ''BEGIN '' @ [10] @ codes ''   ;'' @ [10]) = Inr [S_begin]" by code_simp
  have r: "refresh_from_wal quiet False people_service = (Inr (), people_service)"
    by (simp add: refresh_from_wal_def people_service_def quiet_def read_end_def people_db_def)
  show ?thesis
    unfolding run_sql_def execute_script_def bindP_app r prod.case sum.case liftE_app p
    by (simp add: on_db_def run_one_def bindP_app as_done_def begin_txn_db_def on_session_def
        begin_session_def session_of_def on_pager_def begin_txn_def people_service_def people_db_def demo_store_def pager_init_def)
qed

lemma shell_runs_script_witness:
  "\<exists>v1. shell_loop [1632] (\<lambda>_. True) id id (\<lambda>_. quiet) typed 3 0 [] [] people_service =
     shell_loop [1632] (\<lambda>_. True) id id (\<lambda>_. quiet) typed 1 2 [] [Says R_done] v1"
proof -
  obtain v1 where v1: "run_sql [1632] (\<lambda>_. True) id quiet (codes ''BEGIN '' @ [10] @ codes ''   ;'' @ [10]) people_service =
      (Inr (True, [Says R_done]), v1)"
    using people_begins by blast
  have "collects [] (codes ''BEGIN '')" "completes (codes ''BEGIN '' @ [10]) (codes ''   ;'')" by code_simp+
  then have "shell_loop [1632] (\<lambda>_. True) id id (\<lambda>_. quiet) typed (length [codes ''BEGIN ''] + Suc 1) 0 [] [] people_service =
      shell_loop [1632] (\<lambda>_. True) id id (\<lambda>_. quiet) typed 1 (0 + length [codes ''BEGIN ''] + 1) [] ([] @ [Says R_done]) v1"
    using v1 by (intro shell_runs_script[where l = "codes ''   ;''" and b = True]) (simp_all add: typed_def)
  then show ?thesis by (simp add: numeral_3_eq_3 numeral_2_eq_2) blast
qed

text \<open>C39. The shell never ends when its standard input does: \<open>readline\<close> gives the empty string at the end of
  the file for ever and the loop waits for \<open>EOFError\<close>. A shell that has not been left when \<open>n\<close> lines are
  read runs on for any number of turns if all later reads are empty; a source that raises ends it at that
  read at the latest.\<close>

theorem shell_hangs_at_end_of_file:
  assumes "\<And>i. n \<le> i \<Longrightarrow> inp i = Line []"
    and "fst (fst (shell_loop zs prn low lc wld inp n 0 [] out v)) = Running"
  shows "fst (fst (shell_loop zs prn low lc wld inp fuel 0 [] out v)) = Running \<and>
    (\<forall>m \<ge> n. fst (fst (shell_loop zs prn low lc wld (inp(m := Eof)) (Suc m) 0 [] out v)) \<noteq> Running)"
proof (intro conjI allI impI)
  show "fst (fst (shell_loop zs prn low lc wld inp fuel 0 [] out v)) = Running"
    by (rule loop_stays[OF assms(1)]) (use assms(2) in simp_all)
next
  fix m assume "n \<le> m"
  then show "fst (fst (shell_loop zs prn low lc wld (inp(m := Eof)) (Suc m) 0 [] out v)) \<noteq> Running"
    using loop_ends[of "inp(m := Eof)" m 0 "Suc m"] by simp
qed

lemma shell_hangs_at_end_of_file_witness:
  "\<forall>fuel. fst (fst (shell_loop [1632] (\<lambda>_. True) id id (\<lambda>_. quiet) typed fuel 0 [] [] people_service)) = Running"
proof
  fix fuel
  obtain v1 where "run_sql [1632] (\<lambda>_. True) id quiet (codes ''BEGIN '' @ [10] @ codes ''   ;'' @ [10]) people_service =
      (Inr (True, [Says R_done]), v1)"
    using people_begins by blast
  moreover have "strip_of is_space (codes ''BEGIN '') = codes ''BEGIN''" "strip_of is_space (codes ''   ;'') = [59]"
    "codes ''BEGIN'' \<noteq> []" "hd (codes ''BEGIN'') \<noteq> 46" "last (codes ''BEGIN'') \<noteq> 59" by code_simp+
  ultimately have "fst (fst (shell_loop [1632] (\<lambda>_. True) id id (\<lambda>_. quiet) typed 2 0 [] [] people_service)) = Running"
    by (simp add: typed_def numeral_2_eq_2 Let_def shell_turn_def)
  then show "fst (fst (shell_loop [1632] (\<lambda>_. True) id id (\<lambda>_. quiet) typed fuel 0 [] [] people_service)) = Running"
    by (rule shell_hangs_at_end_of_file[rotated, THEN conjunct1]) (simp add: typed_def)
qed

text \<open>A meta command that names no table ends the shell: \<open>catalog.get\<close> raises \<open>CatalogError\<close>, which
  neither \<open>handle_meta\<close> nor the loop catches, where the same mistake in a statement is reported.\<close>

theorem missing_table_ends_shell:
  assumes "inp k = Line l" and "strip_of is_space l = 46 # cmd" and "words (46 # cmd) = c # nm # args"
    and "map lc c \<in> codes ` {''.schema'', ''.btree'', ''.check'', ''.vacuum''}"
    and "catalog_get (e_cat (sv_db v)) (chars (map lc nm)) = Inl CatalogError"
  shows "shell_loop zs prn low lc wld inp (Suc fuel) k [] out v = ((Crashed CatalogError, out), v)"
proof -
  have n: "named_table lc nm v = (Inl CatalogError, v)" using assms(5) by (simp add: named_table_def Let_def)
  have "handle_meta zs prn low lc (wld k) (46 # cmd) v = (Inl CatalogError, v)"
    using assms(4) n by (auto simp: handle_meta_def assms(3) with_table_def codes_def bindP_app Let_def)
  then show ?thesis using assms(1,2) by (simp add: shell_turn_def)
qed

lemma missing_table_ends_shell_witness:
  "\<exists>v. sv_db v = people_db demo_store \<and>
     shell_loop [1632] (\<lambda>_. True) id id (\<lambda>_. quiet) (\<lambda>_. Line (codes ''.schema u'' @ [10])) 5 0 [] [] v = ((Crashed CatalogError, []), v)"
proof -
  have "strip_of is_space (codes ''.schema u'' @ [10]) = 46 # codes ''schema u''" "words (46 # codes ''schema u'') = [codes ''.schema'', codes ''u'']"
    by code_simp+
  moreover have "map id (codes ''.schema'') \<in> codes ` {''.schema'', ''.btree'', ''.check'', ''.vacuum''}" by simp
  moreover have "chars (map id (codes ''u'')) = ''u''" "lower ''u'' = ''u''" by code_simp+
  then have "catalog_get (e_cat (sv_db people_service)) (chars (map id (codes ''u''))) = Inl CatalogError"
    by (simp add: catalog_get_def people_service_def people_db_def)
  ultimately have "shell_loop [1632] (\<lambda>_. True) id id (\<lambda>_. quiet) (\<lambda>_. Line (codes ''.schema u'' @ [10])) (Suc 4) 0 [] [] people_service =
      ((Crashed CatalogError, []), people_service)"
    by (intro missing_table_ends_shell) auto
  then show ?thesis by (intro exI[of _ people_service]) (simp add: people_service_def)
qed

end
