(* ===== verification/Web.thy ===== *)
theory Web
  imports Shell
begin

text \<open>
  The console of \<open>leafdb/web.py\<close>: \<open>btree_layout\<close>, the levels of a tree for the visualizer, and the two
  handlers, from the route and the parsed body of a request to the reply. HTTP itself, the text of
  \<open>json.dumps\<close> and the fields \<open>elapsed_ms\<close> and \<open>plan\<close> are left out; a message of
  the engine is the outcome it describes, the text of an exception the exception.
\<close>

datatype jval =
    N_null | N_bool bool | N_int int | N_text ustr | N_value val | N_said outcome | N_exn exn
  | N_list "jval list" | N_obj "(string \<times> jval) list"

section \<open>btree\_layout\<close>

fun node_json :: "nat \<Rightarrow> node \<Rightarrow> jval" where
  "node_json page (Leaf cs nxt) =
     N_obj [(''page'', N_int (int page)), (''kind'', N_text (codes ''leaf'')),
       (''cells'', N_list (map (\<lambda>c. N_obj [(''key'', N_int (fst c)), (''size'', N_int (int (length (snd c))))]) cs)),
       (''count'', N_int (int (length cs))), (''next'', case nxt of None \<Rightarrow> N_null | Some q \<Rightarrow> N_int (int q)),
       (''first'', if cs = [] then N_null else N_int (fst (hd cs))), (''last'', if cs = [] then N_null else N_int (fst (last cs)))]"
| "node_json page (Internal ks children) =
     N_obj [(''page'', N_int (int page)), (''kind'', N_text (codes ''internal'')),
       (''keys'', N_list (map N_int ks)), (''children'', N_list (map (\<lambda>c. N_int (int c)) children))]"

text \<open>One turn per level. Every node is loaded once for its description and once for its children.\<close>

fun level_loop :: "'s store \<Rightarrow> nat \<Rightarrow> (nat \<times> nat option) list \<Rightarrow> (nat \<times> node) list list \<Rightarrow> ('s, (nat \<times> node) list list) prog" where
  "level_loop st 0 cur levels = raise OutOfFuel"
| "level_loop st (Suc fuel) cur levels =
     (if cur = [] then ret levels else
      bindP (load_all st (map fst cur)) (\<lambda>nds.
      bindP (load_all st (map fst cur)) (\<lambda>again.
      level_loop st fuel (concat (map2 (\<lambda>p nd. map (\<lambda>c. (c, Some (fst p))) (children_of nd)) cur again))
        (levels @ [zip (map fst cur) nds]))))"

definition btree_levels :: "'s store \<Rightarrow> nat \<Rightarrow> nat \<Rightarrow> ('s, tree_stats \<times> (nat \<times> node) list list) prog" where
  "btree_levels st fuel root =
     bindP (stats st fuel root) (\<lambda>r. bindP (level_loop st fuel [(root, None)] []) (\<lambda>ls. ret (r, ls)))"

definition stats_json :: "tree_stats \<Rightarrow> jval res" where
  "stats_json r =
     bindE (average_fill r) (\<lambda>fill.
     Inr (N_obj [(''depth'', N_int (int (st_depth r))), (''leaves'', N_int (int (st_leaves r))),
       (''internal_nodes'', N_int (int (st_internals r))), (''keys'', N_int (int (st_keys r))), (''avg_fill'', N_value (VFloat fill))]))"

definition btree_layout :: "(int \<Rightarrow> int) \<Rightarrow> ustr \<Rightarrow> (service, jval) prog" where
  "btree_layout lc nm =
     bindP (named_table lc nm) (\<lambda>m.
     bindP (on_db (on_bt (btree_levels bt_store 34 (root_page m)))) (\<lambda>(r, ls).
     bindP (liftE (stats_json r)) (\<lambda>st.
     ret (N_obj [(''table'', N_text nm), (''root'', N_int (int (root_page m))), (''stats'', st),
       (''levels'', N_list (map (\<lambda>l. N_list (map (\<lambda>(page, nd). node_json page nd) l)) ls))]))))"

section \<open>The handlers\<close>

datatype response = Answer nat jval | Page string | Missing

definition table_json :: "string \<times> table_meta \<Rightarrow> jval" where
  "table_json p =
     N_obj [(''name'', N_text (codes (fst p))), (''rows'', N_int (row_count (snd p))),
       (''columns'', N_list (map (\<lambda>c. N_obj [(''name'', N_text (codes (cname c))), (''type'', N_text (codes (type_name (ctype c)))),
          (''pk'', N_bool (pk_column (snd p) = Some (cname c))), (''indexed'', N_bool (cname c \<in> fst ` set (indexes (snd p))))])
          (columns (snd p))))]"

definition stats_answer :: "world \<Rightarrow> service \<Rightarrow> jval res" where
  "stats_answer w v =
     bindE (engine_stats (sv_db v)) (\<lambda>(ts, p, txn).
     Inr (N_obj [(''tables'', N_list (map N_text ts)),
        (''pager'', N_obj [(''cache_hits'', N_int (int (ps_hits p))), (''cache_misses'', N_int (int (ps_misses p))),
           (''hit_rate'', N_text (ps_rate p)), (''cached_pages'', N_int (int (ps_cached p))),
           (''dirty_pages'', N_int (int (ps_dirty p))), (''file_pages'', N_int (int (ps_file p)))]),
        (''in_transaction'', N_bool txn), (''wal_bytes'', N_int (int (length (w_log w) - length WAL_HEADER)))]))"

definition STATIC_FILES :: "(string \<times> string) list" where
  "STATIC_FILES =
     [(''/'', ''index.html''), (''/index.html'', ''index.html''), (''/app.js'', ''app.js''), (''/style.css'', ''style.css'')]"

text \<open>The route is the path of the parsed URL.\<close>

definition do_GET :: "(int \<Rightarrow> int) \<Rightarrow> world \<Rightarrow> ustr \<Rightarrow> (service, response) prog" where
  "do_GET lc w route v =
     (if route = codes ''/api/tables'' then
        (Inr (Answer 200 (N_obj [(''tables'', N_list (map table_json (sorted_tables (e_cat (sv_db v)))))])), v)
      else if take 11 route = codes ''/api/btree/'' then
        (case btree_layout lc (drop 11 route) v of
           (Inl x, v1) \<Rightarrow> (Inr (Answer 400 (N_obj [(''error'', N_exn x)])), v1)
         | (Inr j, v1) \<Rightarrow> (Inr (Answer 200 j), v1))
      else if route = codes ''/api/stats'' then (bindE (stats_answer w v) (\<lambda>j. Inr (Answer 200 j)), v)
      else (case find (\<lambda>f. codes (fst f) = route) STATIC_FILES of
              Some f \<Rightarrow> (Inr (Page (snd f)), v)
            | None \<Rightarrow> (Inr Missing, v)))"

text \<open>The parsed body of a request, \<open>None\<close> when it is no JSON. \<open>or\<close> replaces a value that is false.\<close>

datatype body = B_null | B_bool bool | B_number bool | B_text ustr | B_list nat | B_dict "(ustr \<times> body) list"
  \<comment> \<open>of a number only whether it is zero, of a list only its length\<close>

fun truthy :: "body \<Rightarrow> bool" where
  "truthy B_null \<longleftrightarrow> False"
| "truthy (B_bool b) \<longleftrightarrow> b"
| "truthy (B_number zero) \<longleftrightarrow> \<not> zero"
| "truthy (B_text s) \<longleftrightarrow> s \<noteq> []"
| "truthy (B_list n) \<longleftrightarrow> n \<noteq> 0"
| "truthy (B_dict kvs) \<longleftrightarrow> kvs \<noteq> []"

definition sql_of :: "body \<Rightarrow> ustr res" where
  "sql_of p =
     (case p of
        B_dict kvs \<Rightarrow>
          (case map_of (rev kvs) (codes ''sql'') of
             None \<Rightarrow> Inr []
           | Some x \<Rightarrow>
               if \<not> truthy x then Inr []
               else (case x of B_text s \<Rightarrow> Inr (strip_of is_space s) | _ \<Rightarrow> Inl AttributeError))
      | _ \<Rightarrow> Inl AttributeError)"

fun outcome_json :: "outcome \<Rightarrow> jval" where
  "outcome_json (R_rows cols rws) =
     N_obj [(''cols'', N_list (map (\<lambda>c. N_text (codes c)) cols)), (''rows'', N_list (map (\<lambda>r. N_list (map N_value r)) rws)),
       (''message'', N_null)]"
| "outcome_json r = N_obj [(''cols'', N_list []), (''rows'', N_list []), (''message'', N_said r)]"

definition do_POST :: "int list \<Rightarrow> (int \<Rightarrow> bool) \<Rightarrow> (int \<Rightarrow> int) \<Rightarrow> world \<Rightarrow> ustr \<Rightarrow> body option \<Rightarrow> (service, response) prog" where
  "do_POST zs prn low w route payload v =
     (if route \<noteq> codes ''/api/query'' then (Inr Missing, v) else
      case payload of
        None \<Rightarrow> (Inr (Answer 200 (N_obj [(''ok'', N_bool False), (''error'', N_text (codes ''bad JSON body''))])), v)
      | Some p \<Rightarrow>
          (case sql_of p of
             Inl x \<Rightarrow> (Inl x, v)
           | Inr sql \<Rightarrow>
               if sql = [] then (Inr (Answer 200 (N_obj [(''ok'', N_bool False), (''error'', N_text (codes ''empty query''))])), v)
               else
                 (case execute_script zs prn low w sql v of
                    (Inl x, v1) \<Rightarrow> (Inr (Answer 200 (N_obj [(''ok'', N_bool False), (''error'', N_exn x)])), v1)
                  | (Inr rs, v1) \<Rightarrow> (Inr (Answer 200 (N_obj [(''ok'', N_bool True), (''results'', N_list (map outcome_json rs))])), v1))))"

end
