(* ===== verification/WebProps.thy ===== *)
theory WebProps
  imports Web CheckProps "HOL-Library.Multiset"
begin

text \<open>
  \<open>stats\<close> and \<open>btree\_layout\<close> on a well-formed tree: the levels hold every page of the tree once, each with
  the node of its page, from the root to the leaves in key order, and the counts are those of the tree.
\<close>

section \<open>The levels of a tree\<close>

fun kids :: "ptree \<Rightarrow> ptree list" where
  "kids (PLeaf n cs) = []"
| "kids (PNode n ks ts) = ts"

fun shown_in :: "view \<Rightarrow> ptree \<Rightarrow> bool" where
  "shown_in v (PLeaf n cs) \<longleftrightarrow> (\<exists>nx. v n = Some (Leaf cs nx))"
| "shown_in v (PNode n ks ts) \<longleftrightarrow> v n = Some (Internal ks (map proot ts)) \<and> (\<forall>t \<in> set ts. shown_in v t)"

definition node_at :: "view \<Rightarrow> ptree \<Rightarrow> node" where
  "node_at v t = the (v (proot t))"

lemma shown_node:
  "shown_in v t \<Longrightarrow> v (proot t) = Some (node_at v t) \<and> children_of (node_at v t) = map proot (kids t) \<and>
     (is_leaf (node_at v t) \<longleftrightarrow> (\<exists>n cs. t = PLeaf n cs)) \<and> cells_of (node_at v t) = (case t of PLeaf n cs \<Rightarrow> cs | PNode n ks ts \<Rightarrow> [])"
  by (cases t) (auto simp: node_at_def)

lemma shown_kids: "shown_in v t \<Longrightarrow> u \<in> set (kids t) \<Longrightarrow> shown_in v u"
  by (cases t) auto

lemma bal_kids: "bal (Suc h) t \<Longrightarrow> kids t \<noteq> [] \<and> (\<forall>u \<in> set (kids t). bal h u)"
  by (cases t) auto

lemma tree_shown: "tree_at v ps h t nx \<Longrightarrow> shown_in v t"
proof (induction t arbitrary: h nx)
  case (PLeaf n cs)
  then show ?case using leaf_forest by auto
next
  case (PNode n ks ts)
  obtain h' where N: "forest_at v ps h' ts ks nx" "v n = Some (Internal ks (map proot ts))"
    using node_forest[of v ps h n ks ts nx] PNode.prems by blast
  have "shown_in v u" if u: "u \<in> set ts" for u
  proof -
    obtain l r where lr: "ts = l @ u # r" using u by (meson split_list)
    have "length ks = length l + length r" using N(1) lr by (simp add: forest_at_def)
    then have "tree_at v ps h' u (next_of (concat (map leaves r)) nx)" using forest_child N(1) lr by blast
    then show ?thesis by (rule PNode.IH[OF u])
  qed
  then show ?case using N(2) by simp
qed

fun tree_levels :: "view \<Rightarrow> nat \<Rightarrow> ptree list \<Rightarrow> (nat \<times> node) list list" where
  "tree_levels v 0 us = [map (\<lambda>u. (proot u, node_at v u)) us]"
| "tree_levels v (Suc h) us = map (\<lambda>u. (proot u, node_at v u)) us # tree_levels v h (concat (map kids us))"

lemma kids_below:
  assumes "\<forall>u \<in> set us. bal (Suc h) u \<and> shown_in v u" and "us \<noteq> []"
  shows "\<forall>u \<in> set (concat (map kids us)). bal h u \<and> shown_in v u" and "concat (map kids us) \<noteq> []"
proof -
  show "\<forall>u \<in> set (concat (map kids us)). bal h u \<and> shown_in v u"
    using assms(1) bal_kids shown_kids by fastforce
  show "concat (map kids us) \<noteq> []" using assms bal_kids by (cases us) auto
qed

lemma kids_pages: "bal (Suc h) u \<Longrightarrow> pages u = proot u # concat (map pages (kids u)) \<and> leaves u = concat (map leaves (kids u))"
  by (cases u) auto

lemma levels_pages:
  "\<forall>u \<in> set us. bal h u \<and> shown_in v u \<Longrightarrow> us \<noteq> [] \<Longrightarrow>
   mset (map fst (concat (tree_levels v h us))) = mset (concat (map pages us))"
proof (induction h arbitrary: us)
  case 0
  then have "pages u = [proot u]" if "u \<in> set us" for u using that by (cases u) auto
  then have "concat (map pages us) = map proot us" by (induction us) auto
  then show ?case by (simp add: comp_def)
next
  case (Suc h)
  have "mset (map fst (concat (tree_levels v h (concat (map kids us))))) = mset (concat (map pages (concat (map kids us))))"
    by (rule Suc.IH[OF kids_below[OF Suc.prems]])
  moreover have "mset (concat (map pages us)) = mset (map proot us) + mset (concat (map pages (concat (map kids us))))"
    using Suc.prems(1) by (induction us) (simp_all add: kids_pages[where h = h])
  ultimately show ?case by (simp add: comp_def)
qed

lemma levels_length: "length (tree_levels v h us) = Suc h"
  by (induction h arbitrary: us) simp_all

lemma levels_ne [simp]: "tree_levels v h us \<noteq> []"
  using levels_length[of v h us] by auto

lemma levels_last:
  "\<forall>u \<in> set us. bal h u \<and> shown_in v u \<Longrightarrow> us \<noteq> [] \<Longrightarrow>
   map (\<lambda>(p, nd). (p, cells_of nd)) (last (tree_levels v h us)) = concat (map leaves us)"
proof (induction h arbitrary: us)
  case 0
  then have "leaves u = [(proot u, cells_of (node_at v u))]" if "u \<in> set us" for u
    using that shown_node by (cases u) auto
  then have "concat (map leaves us) = map (\<lambda>u. (proot u, cells_of (node_at v u))) us" by (induction us) auto
  then show ?case by (simp add: comp_def)
next
  case (Suc h)
  have "concat (map leaves (concat (map kids us))) = concat (map leaves us)"
    using Suc.prems(1) by (induction us) (simp_all add: kids_pages[where h = h])
  then show ?case using Suc.IH[OF kids_below[OF Suc.prems]] by simp
qed

lemma levels_nodes:
  "\<forall>u \<in> set us. bal h u \<and> shown_in v u \<Longrightarrow> us \<noteq> [] \<Longrightarrow> (p, nd) \<in> set (concat (tree_levels v h us)) \<Longrightarrow> v p = Some nd"
proof (induction h arbitrary: us)
  case 0
  then show ?case using shown_node by fastforce
next
  case (Suc h)
  have "v p = Some nd" if "(p, nd) \<in> set (concat (tree_levels v h (concat (map kids us))))"
    by (rule Suc.IH[OF kids_below[OF Suc.prems(1,2)] that])
  then show ?case using Suc.prems(1,3) shown_node by fastforce
qed

section \<open>Loading them\<close>

definition counted :: "nat \<Rightarrow> ptree list \<Rightarrow> tree_stats \<Rightarrow> tree_stats" where
  "counted h us r =
     \<lparr>st_depth = st_depth r + h, st_leaves = st_leaves r + length (concat (map leaves us)),
      st_internals = st_internals r + (length (concat (map pages us)) - length (concat (map leaves us))),
      st_keys = st_keys r + length (fcells us)\<rparr>"

lemma counted_step:
  assumes "\<forall>u \<in> set us. bal (Suc h) u"
  shows "counted (Suc h) us r = counted h (concat (map kids us)) \<lparr>st_depth = st_depth r + 1, st_leaves = st_leaves r,
    st_internals = st_internals r + length us, st_keys = st_keys r\<rparr>"
proof -
  have l: "concat (map leaves (concat (map kids us))) = concat (map leaves us)"
    using assms by (induction us) (simp_all add: kids_pages[where h = h])
  have p: "length (concat (map pages us)) = length us + length (concat (map pages (concat (map kids us))))"
    using assms by (induction us) (simp_all add: kids_pages[where h = h])
  have c: "fcells us = concat (map snd (concat (map leaves us)))" for us by (induction us) (simp_all add: cells_def)
  have le: "length (concat (map leaves vs)) \<le> length (concat (map pages vs))" for vs
    using leaves_le_pages by (induction vs) (simp_all add: add_mono)
  show ?thesis using le[of "concat (map kids us)"] by (simp add: counted_def c l p)
qed

context page_store
begin

lemma load_all_ok:
  assumes "ok T s" and "\<forall>u \<in> set us. shown_in (view s) u" and "\<forall>u \<in> set us. clean_pages T s {proot u}"
  shows "\<exists>s'. load_all st (map proot us) s = (Inr (map (node_at (view s)) us), s') \<and> same T s s'"
  using assms
proof (induction us arbitrary: s)
  case Nil
  then show ?case by (simp add: same_def)
next
  case (Cons u us)
  have "view s (proot u) = Some (node_at (view s) u)" using Cons.prems(2) shown_node by simp
  then obtain s1 where s1: "st_load st (proot u) s = (Inr (node_at (view s) u), s1)" "same T s s1"
    using load_same[OF Cons.prems(1), of "{proot u}" "proot u"] Cons.prems(3) by auto
  have v: "view s1 = view s" using s1(2) by (simp add: same_def)
  obtain s2 where "load_all st (map proot us) s1 = (Inr (map (node_at (view s1)) us), s2)" "same T s1 s2"
    using Cons.IH[of s1] Cons.prems s1(2) by (auto simp: same_def clean_pages_def)
  then show ?case using s1 v same_trans[OF s1(2)] by (auto simp: bindP_app)
qed

lemma level_step:
  assumes "ok T s" and "\<forall>u \<in> set us. shown_in (view s) u" and "us \<noteq> []" and "\<forall>u \<in> set us. clean_pages T s (set (pages u))"
    and "map fst cur = map proot us"
  obtains s1 cur1 where "same T s s1" "map fst cur1 = map proot (concat (map kids us))"
    "level_loop st (Suc fuel) cur levels s =
       level_loop st fuel cur1 (levels @ [map (\<lambda>u. (proot u, node_at (view s) u)) us]) s1"
proof -
  let ?nds = "map (node_at (view s)) us"
  have cl: "\<forall>u \<in> set us. clean_pages T s {proot u}" using assms(4) by (auto simp: clean_pages_def)
  obtain s1 where s1: "load_all st (map proot us) s = (Inr ?nds, s1)" "same T s s1"
    using load_all_ok[OF assms(1,2) cl] by blast
  have "\<exists>s2. load_all st (map proot us) s1 = (Inr (map (node_at (view s1)) us), s2) \<and> same T s1 s2"
    by (rule load_all_ok) (use s1(2) assms(2) cl in \<open>auto simp: same_def clean_pages_def\<close>)
  then obtain s2 where s2: "load_all st (map proot us) s1 = (Inr ?nds, s2)" "same T s1 s2"
    using s1(2) by (auto simp: same_def)
  let ?cur = "concat (map2 (\<lambda>p nd. map (\<lambda>c. (c, Some (fst p))) (children_of nd)) cur ?nds)"
  have len: "length cur = length us" using assms(5) by (metis length_map)
  have "map fst (concat (map2 (\<lambda>p nd. map (\<lambda>c. (c, Some (fst p))) (children_of nd)) xs nds)) = concat (map children_of nds)"
    if "length xs = length nds" for xs :: "(nat \<times> nat option) list" and nds :: "node list"
    using that by (induction xs nds rule: list_induct2) (simp_all add: comp_def)
  then have "map fst ?cur = concat (map children_of ?nds)" using len by simp
  also have "\<dots> = map proot (concat (map kids us))"
    using assms(2) shown_node by (induction us) (auto simp: comp_def)
  finally have c: "map fst ?cur = map proot (concat (map kids us))" .
  have ne: "cur \<noteq> []" using len assms(3) by auto
  have z: "zip (map proot us) ?nds = map (\<lambda>u. (proot u, node_at (view s) u)) us" by (induction us) simp_all
  have "level_loop st (Suc fuel) cur levels s = level_loop st fuel ?cur (levels @ [map (\<lambda>u. (proot u, node_at (view s) u)) us]) s2"
    using s1(1) s2(1) ne z by (simp add: assms(5) bindP_app)
  then show thesis using that[OF same_trans[OF s1(2) s2(2)] c] by blast
qed

lemma clean_kids:
  "\<forall>u \<in> set us. clean_pages T s (set (pages u)) \<Longrightarrow> \<forall>u \<in> set (concat (map kids us)). clean_pages T s (set (pages u))"
proof
  fix u assume A: "\<forall>u \<in> set us. clean_pages T s (set (pages u))" "u \<in> set (concat (map kids us))"
  then obtain w where w: "w \<in> set us" "u \<in> set (kids w)" by auto
  have "set (pages u) \<subseteq> set (pages w)" using w(2) by (cases w) auto
  then show "clean_pages T s (set (pages u))" using A(1) w(1) by (auto simp: clean_pages_def)
qed

lemma level_loop_ok:
  assumes "ok T s" and "\<forall>u \<in> set us. bal h u \<and> shown_in (view s) u" and "us \<noteq> []"
    and "\<forall>u \<in> set us. clean_pages T s (set (pages u))" and "h + 1 < fuel" and "map fst cur = map proot us"
  shows "\<exists>s'. level_loop st fuel cur levels s = (Inr (levels @ tree_levels (view s) h us), s') \<and> same T s s'"
  using assms
proof (induction h arbitrary: s us fuel cur levels)
  case 0
  obtain f where f: "fuel = Suc (Suc f)" using 0(5) by (cases fuel; cases "fuel - 1") auto
  have "\<forall>u \<in> set us. shown_in (view s) u" using 0(2) by simp
  then obtain s1 cur1 where s1: "same T s s1" "map fst cur1 = map proot (concat (map kids us))"
    "level_loop st (Suc (Suc f)) cur levels s =
       level_loop st (Suc f) cur1 (levels @ [map (\<lambda>u. (proot u, node_at (view s) u)) us]) s1"
    using level_step[OF 0(1) _ 0(3,4,6)] by metis
  have "kids u = []" if "u \<in> set us" for u using 0(2) that by (cases u) auto
  then have "cur1 = []" using s1(2) by (induction us) auto
  then show ?case using s1 f by simp
next
  case (Suc h)
  obtain f where f: "fuel = Suc f" "h + 1 < f" using Suc.prems(5) by (cases fuel) auto
  have "\<forall>u \<in> set us. shown_in (view s) u" using Suc.prems(2) by simp
  then obtain s1 cur1 where s1: "same T s s1" "map fst cur1 = map proot (concat (map kids us))"
    "level_loop st (Suc f) cur levels s =
       level_loop st f cur1 (levels @ [map (\<lambda>u. (proot u, node_at (view s) u)) us]) s1"
    using level_step[OF Suc.prems(1) _ Suc.prems(3,4,6)] by metis
  note K = kids_below[OF Suc.prems(2,3)]
  have "\<exists>s'. level_loop st f cur1 (levels @ [map (\<lambda>u. (proot u, node_at (view s) u)) us]) s1 =
      (Inr ((levels @ [map (\<lambda>u. (proot u, node_at (view s) u)) us]) @ tree_levels (view s1) h (concat (map kids us))), s') \<and> same T s1 s'"
    by (rule Suc.IH) (use K clean_kids[OF Suc.prems(4)] f(2) s1(1,2) in \<open>auto simp: same_def clean_pages_def\<close>)
  then show ?case using s1 f(1) same_trans[OF s1(1)] by (auto simp: same_def)
qed

lemma stats_loop_ok:
  assumes "ok T s" and "\<forall>u \<in> set us. bal h u \<and> shown_in (view s) u" and "us \<noteq> []"
    and "\<forall>u \<in> set us. clean_pages T s (set (pages u))" and "h + 1 < fuel"
  shows "\<exists>s'. stats_loop st fuel r (map (node_at (view s)) us) s = (Inr (counted h us r), s') \<and> same T s s'"
  using assms
proof (induction h arbitrary: s us fuel r)
  case 0
  obtain f where f: "fuel = Suc (Suc f)" using 0(5) by (cases fuel; cases "fuel - 1") auto
  have leaf: "\<exists>n cs. u = PLeaf n cs" if "u \<in> set us" for u using 0(2) that by (cases u) auto
  have N: "children_of (node_at (view s) u) = [] \<and> is_leaf (node_at (view s) u) \<and> cells_of (node_at (view s) u) = cells u \<and>
      pages u = [proot u] \<and> length (leaves u) = 1" if "u \<in> set us" for u
    using leaf[OF that] 0(2) that shown_node[of "view s" u] by auto
  then have c: "concat (map children_of (map (node_at (view s)) us)) = []" and F: "filter (\<lambda>u. \<not> is_leaf (node_at (view s) u)) us = []"
    "filter (\<lambda>u. is_leaf (node_at (view s) u)) us = us" "length (concat (map leaves us)) = length us"
    "length (concat (map pages us)) = length us" "sum_list (map (\<lambda>u. length (cells_of (node_at (view s) u))) us) = length (fcells us)"
    by (induction us) auto
  have "stats_loop st (Suc (Suc f)) r (map (node_at (view s)) us) s = (Inr (counted 0 us r), s)"
    using 0(3) F unfolding stats_loop.simps(2) c by (simp add: comp_def counted_def filter_map bindP_app)
  then show ?case using 0(1) f by (simp add: same_def)
next
  case (Suc h)
  obtain f where f: "fuel = Suc f" "h + 1 < f" using Suc.prems(5) by (cases fuel) auto
  note K = kids_below[OF Suc.prems(2,3)]
  have node: "\<exists>n ks ts. u = PNode n ks ts" if "u \<in> set us" for u using Suc.prems(2) that by (cases u) auto
  have N: "children_of (node_at (view s) u) = map proot (kids u) \<and> \<not> is_leaf (node_at (view s) u) \<and> cells_of (node_at (view s) u) = []"
    if "u \<in> set us" for u
    using node[OF that] Suc.prems(2) that shown_node[of "view s" u] by auto
  then have E: "concat (map children_of (map (node_at (view s)) us)) = map proot (concat (map kids us))"
    "filter (\<lambda>nd. \<not> is_leaf nd) (map (node_at (view s)) us) = map (node_at (view s)) us"
    "filter is_leaf (map (node_at (view s)) us) = []"
    "sum_list (map (\<lambda>nd. length (cells_of nd)) (map (node_at (view s)) us)) = 0"
    by (induction us) auto
  have cl: "\<forall>u \<in> set (concat (map kids us)). clean_pages T s {proot u}"
    using clean_kids[OF Suc.prems(4)] by (auto simp: clean_pages_def)
  obtain s1 where s1: "load_all st (map proot (concat (map kids us))) s = (Inr (map (node_at (view s)) (concat (map kids us))), s1)"
    "same T s s1"
    using load_all_ok[OF Suc.prems(1) _ cl] K(1) by blast
  let ?r = "\<lparr>st_depth = st_depth r + 1, st_leaves = st_leaves r, st_internals = st_internals r + length us, st_keys = st_keys r\<rparr>"
  have "\<exists>s'. stats_loop st f ?r (map (node_at (view s1)) (concat (map kids us))) s1 =
      (Inr (counted h (concat (map kids us)) ?r), s') \<and> same T s1 s'"
    by (rule Suc.IH) (use K clean_kids[OF Suc.prems(4)] f(2) s1(2) in \<open>auto simp: same_def clean_pages_def\<close>)
  then obtain s2 where s2: "stats_loop st f ?r (map (node_at (view s)) (concat (map kids us))) s1 =
      (Inr (counted h (concat (map kids us)) ?r), s2)" "same T s1 s2"
    using s1(2) by (auto simp: same_def)
  have c: "counted (Suc h) us r = counted h (concat (map kids us)) ?r" by (rule counted_step) (use Suc.prems(2) in simp)
  have "stats_loop st (Suc f) r (map (node_at (view s)) us) s = stats_loop st f ?r (map (node_at (view s)) (concat (map kids us))) s1"
    unfolding stats_loop.simps(2) E using s1(1) K(2) Suc.prems(3) by (auto simp: bindP_app)
  then show ?case using s2 c f(1) same_trans[OF s1(2) s2(2)] by auto
qed

lemma btree_levels_ok:
  assumes "ok T s" and "tree_at (view s) ps h t nx" and "clean_pages T s (set (pages t))" and "h + 1 < fuel"
  shows "\<exists>s'. btree_levels st fuel (proot t) s =
      (Inr (counted h [t] \<lparr>st_depth = 1, st_leaves = 0, st_internals = 0, st_keys = 0\<rparr>, tree_levels (view s) h [t]), s') \<and> same T s s'"
proof -
  have S: "\<forall>u \<in> set [t]. bal h u \<and> shown_in (view s) u" "\<forall>u \<in> set [t]. clean_pages T s (set (pages u))"
    using assms(2,3) tree_shown by (auto simp: forest_at_def subtree_ok_def)
  obtain s1 where s1: "st_load st (proot t) s = (Inr (node_at (view s) t), s1)" "same T s s1"
    using load_same[OF assms(1,3), of "proot t"] S(1) shown_node[of "view s" t] by auto
  have v: "view s1 = view s" "ok T s1" "\<forall>u \<in> set [t]. clean_pages T s1 (set (pages u))"
    using s1(2) S(2) by (auto simp: same_def clean_pages_def)
  obtain s2 where s2: "stats_loop st fuel \<lparr>st_depth = 1, st_leaves = 0, st_internals = 0, st_keys = 0\<rparr> (map (node_at (view s1)) [t]) s1 =
      (Inr (counted h [t] \<lparr>st_depth = 1, st_leaves = 0, st_internals = 0, st_keys = 0\<rparr>), s2)" "same T s1 s2"
    using stats_loop_ok[OF v(2) _ _ v(3) assms(4)] S(1) v(1) by auto
  have w: "view s2 = view s" "ok T s2" "\<forall>u \<in> set [t]. clean_pages T s2 (set (pages u))"
    using v s2(2) by (auto simp: same_def clean_pages_def)
  obtain s3 where "level_loop st fuel [(proot t, None)] [] s2 = (Inr ([] @ tree_levels (view s2) h [t]), s3)" "same T s2 s3"
    using level_loop_ok[OF w(2) _ _ w(3) assms(4), of "[(proot t, None)]" "[]"] S(1) w(1) by auto
  then show ?thesis using s1 s2 v(1) w(1) same_trans[OF s1(2)] same_trans[OF s2(2)]
    by (auto simp: btree_levels_def stats_def bindP_app)
qed

end

section \<open>Property\<close>

text \<open>C40. The levels that the console draws and the counts above them are those of the tree: as many levels as
  the tree is high, every page of the tree exactly once with the node it holds, the last level the leaves
  in key order with their rows; depth, leaves, internal nodes and keys are counted rightly.\<close>

theorem layout_shows_tree:
  assumes "stored s h t" and "int (bt_npages s) < NO_PAGE"
  shows "\<exists>s' r ls. btree_levels bt_store 34 (proot t) s = (Inr (r, ls), s') \<and> stored s' h t \<and>
     length ls = h + 1 \<and> mset (map fst (concat ls)) = mset (pages t) \<and>
     (\<forall>(p, nd) \<in> set (concat ls). bt_view s p = Some nd) \<and> map (\<lambda>(p, nd). (p, cells_of nd)) (last ls) = leaves t \<and>
     r = \<lparr>st_depth = h + 1, st_leaves = length (leaves t), st_internals = length (pages t) - length (leaves t), st_keys = length (cells t)\<rparr>"
proof -
  have h: "h + 1 < 34" using stored_height[OF assms(1)] assms(2) by (simp add: NO_PAGE_def)
  have "bt.clean_pages {} s (set (pages t))" "bt_ok {} s" and at: "tree_at (bt_view s) PAGE_SIZE h t None"
    using assms(1) by (simp_all add: stored_def bt.clean_pages_def)
  then obtain s' where L: "btree_levels bt_store 34 (proot t) s =
      (Inr (counted h [t] \<lparr>st_depth = 1, st_leaves = 0, st_internals = 0, st_keys = 0\<rparr>, tree_levels (bt_view s) h [t]), s')" "bt.same {} s s'"
    using bt.btree_levels_ok[OF _ at _ h, of "{}"] by blast
  have S: "\<forall>u \<in> set [t]. bal h u \<and> shown_in (bt_view s) u" using at tree_shown[OF at] by (simp add: forest_at_def subtree_ok_def)
  show ?thesis
  proof (intro exI conjI)
    show "btree_levels bt_store 34 (proot t) s =
      (Inr (counted h [t] \<lparr>st_depth = 1, st_leaves = 0, st_internals = 0, st_keys = 0\<rparr>, tree_levels (bt_view s) h [t]), s')" by (rule L(1))
    show "stored s' h t" by (rule stored_same[OF L(2) assms(1)])
    show "mset (map fst (concat (tree_levels (bt_view s) h [t]))) = mset (pages t)" using levels_pages[OF S] by simp
    show "\<forall>(p, nd) \<in> set (concat (tree_levels (bt_view s) h [t])). bt_view s p = Some nd" using levels_nodes[OF S] by blast
    show "map (\<lambda>(p, nd). (p, cells_of nd)) (last (tree_levels (bt_view s) h [t])) = leaves t" using levels_last[OF S] by simp
  qed (simp_all add: levels_length counted_def)
qed

lemma layout_shows_tree_witness:
  "\<exists>s s' r ls. stored s 1 (PNode 1 [5] [PLeaf 2 [(4, wide)], PLeaf 3 [(5, wide)]]) \<and>
     btree_levels bt_store 34 1 s = (Inr (r, ls), s') \<and> length ls = 2 \<and> last ls = [(2, Leaf [(4, wide)] (Some 3)), (3, Leaf [(5, wide)] None)] \<and>
     st_keys r = 2"
proof -
  obtain s where s: "two_leaves s 1 2 3 5 [(4, wide)] [(5, wide)]" "bt_npages s = 4"
    by (rule two_wide[of 4 5]) (simp_all add: int64_def)
  let ?t = "PNode 1 [5] [PLeaf 2 [(4, wide)], PLeaf 3 [(5, wide)]]"
  have st: "stored s 1 ?t"
    using s by (auto simp: stored_def two_leaves_def forest_at_def subtree_ok_def int64_def inter_def key_mark_def PAGE_SIZE_def)
  obtain s' r ls where L: "btree_levels bt_store 34 1 s = (Inr (r, ls), s')" "length ls = 2" "st_keys r = 2"
      "\<forall>(p, nd) \<in> set (concat ls). bt_view s p = Some nd" "map (\<lambda>(p, nd). (p, cells_of nd)) (last ls) = [(2, [(4, wide)]), (3, [(5, wide)])]"
    using layout_shows_tree[OF st] s(2) by (auto simp: NO_PAGE_def)
  have "ls \<noteq> []" using L(2) by auto
  then have "\<forall>(p, nd) \<in> set (last ls). bt_view s p = Some nd" using L(4) last_in_set by fastforce
  then have "last ls = [(2, Leaf [(4, wide)] (Some 3)), (3, Leaf [(5, wide)] None)]"
    using L(5) s(1) by (auto simp: two_leaves_def map_eq_Cons_conv)
  then show ?thesis using st L(1-3) by blast
qed

end
