(* ===== verification/VacuumProps.thy ===== *)
theory VacuumProps
  imports CheckProps Service
begin

text \<open>
  \<open>vacuum\<close>: the leaves that \<open>bulk_load\<close> fills end with the row that takes them over the threshold, and
  that row may take them over the page.
\<close>

lemma sorted_cells_sort: "sorted_wrt (<) (map fst (cs :: cell list)) \<Longrightarrow> sort cs = cs"
proof (rule sorted_sort_id)
  assume "sorted_wrt (<) (map fst cs)"
  then have "sorted_wrt (\<lambda>x y. fst x < fst y) cs" by (simp add: sorted_wrt_map)
  then show "sorted cs" by (rule sorted_wrt_mono_rel[rotated]) (simp add: less_eq_prod_def)
qed

definition small_cells :: "cell list \<Rightarrow> bool" where
  "small_cells cs \<longleftrightarrow> (\<forall>c \<in> set cs. int64 (fst c) \<and> cell_size c \<le> PAGE_SIZE)"

lemma leaf_size: "small_cells cs \<Longrightarrow> cells_size cs \<le> 2 * PAGE_SIZE \<Longrightarrow> serialized_size (Leaf cs None) = Inr (9 + cells_size cs)"
  using serialized_size_ok[OF node_ok_leaf[of cs None]] by (simp add: small_cells_def PAGE_SIZE_def)

lemma cells_size_snoc: "cells_size (cs @ [c]) = cells_size cs + cell_size c"
  by (induction cs) simp_all

lemma fill_leaves_raises:
  assumes "small_cells cs" and "small_cells cur" and "9 + cells_size cur \<le> PAGE_SIZE"
    and "fill_leaves PAGE_SIZE cur cs = Inl x"
  shows "x = ValueError"
  using assms
proof (induction cs arbitrary: cur)
  case Nil
  then show ?case by simp
next
  case (Cons c cs)
  have c: "small_cells (cur @ [c])" "small_cells cs" "cell_size c \<le> PAGE_SIZE" using Cons.prems(1,2) by (auto simp: small_cells_def)
  have sz: "serialized_size (Leaf (cur @ [c]) None) = Inr (9 + cells_size (cur @ [c]))"
    by (rule leaf_size[OF c(1)]) (use Cons.prems(3) c(3) in \<open>simp add: cells_size_snoc\<close>)
  show ?case
  proof (cases "PAGE_SIZE - 16 < 9 + cells_size (cur @ [c])")
    case True
    then show ?thesis using Cons.prems(4) sz Cons.IH[OF c(2), of "[]"]
      by (cases "fill_leaves PAGE_SIZE [] cs") (auto simp: Let_def small_cells_def PAGE_SIZE_def split: if_splits)
  next
    case False
    then have "fill_leaves PAGE_SIZE (cur @ [c]) cs = Inl x" using Cons.prems(4) sz by (simp add: Let_def)
    then show ?thesis using Cons.IH[OF c(2,1)] False by (simp add: PAGE_SIZE_def)
  qed
qed

lemma fill_first_leaf:
  assumes "small_cells (cur @ a @ c # b)" and "cur @ a \<noteq> []" and "9 + cells_size (cur @ a) \<le> PAGE_SIZE - 16"
    and "PAGE_SIZE - 16 < 9 + cells_size (cur @ a @ [c])"
  shows "fill_leaves PAGE_SIZE cur (a @ c # b) = Inl ValueError \<or> (\<exists>ls. fill_leaves PAGE_SIZE cur (a @ c # b) = Inr ((cur @ a @ [c]) # ls))"
  using assms
proof (induction a arbitrary: cur)
  case Nil
  have c: "small_cells (cur @ [c])" "small_cells b" "cell_size c \<le> PAGE_SIZE" using Nil.prems(1) by (auto simp: small_cells_def)
  have sz: "serialized_size (Leaf (cur @ [c]) None) = Inr (9 + cells_size (cur @ [c]))"
    by (rule leaf_size[OF c(1)]) (use Nil.prems(3) c(3) in \<open>simp add: cells_size_snoc\<close>)
  have "fill_leaves PAGE_SIZE [] b = Inl x \<Longrightarrow> x = ValueError" for x
    by (rule fill_leaves_raises[OF c(2)]) (simp_all add: small_cells_def PAGE_SIZE_def)
  then show ?case using Nil.prems(2,4) sz by (cases "fill_leaves PAGE_SIZE [] b") (auto simp: Let_def)
next
  case (Cons d a)
  have d: "small_cells (cur @ [d])" "cells_size (cur @ [d]) \<le> cells_size (cur @ d # a)"
    using Cons.prems(1) by (auto simp: small_cells_def cells_size_def)
  have sz: "serialized_size (Leaf (cur @ [d]) None) = Inr (9 + cells_size (cur @ [d]))"
    by (rule leaf_size[OF d(1)]) (use Cons.prems(3) d(2) in \<open>simp add: PAGE_SIZE_def\<close>)
  have "\<not> PAGE_SIZE - 16 < 9 + cells_size (cur @ [d])" using Cons.prems(3) d(2) by simp
  then show ?case using Cons.IH[of "cur @ [d]"] Cons.prems sz by (simp add: Let_def)
qed

lemma bulk_load_overfills:
  assumes "bt_ok {} s" and "small_cells (a @ c # b)" and "sorted_wrt (<) (map fst (a @ c # b))" and "a \<noteq> []"
    and "9 + cells_size a \<le> PAGE_SIZE - 16" and "PAGE_SIZE < 9 + cells_size (a @ [c])"
  shows "fst (bulk_load bt_store PAGE_SIZE (a @ c # b) s) = Inl ValueError"
proof -
  have fl: "fill_leaves PAGE_SIZE [] (a @ c # b) = Inl ValueError \<or> (\<exists>ls. fill_leaves PAGE_SIZE [] (a @ c # b) = Inr ((a @ [c]) # ls))"
    using fill_first_leaf[of "[]" a c b] assms(2,4-6) by simp
  have sz: "cells_size (a @ [c]) \<le> 2 * PAGE_SIZE" using assms(2,5) by (auto simp: cells_size_snoc small_cells_def PAGE_SIZE_def)
  have "node_ok (Leaf (a @ [c]) None)" by (rule node_ok_leaf) (use assms(2) sz in \<open>auto simp: small_cells_def PAGE_SIZE_def\<close>)
  moreover obtain s1 where s1: "bt_alloc s = (Inr (bt_npages s), s1)" "bt_ok {} s1" using bt_alloc_law[OF assms(1)] by blast
  ultimately obtain s2 where "write_node bt_store (bt_npages s) (Leaf (a @ [c]) None) s1 = (Inl ValueError, s2)"
    using bt.write_node_big[OF s1(2), of "Leaf (a @ [c]) None" "bt_npages s"] assms(6) by auto
  then show ?thesis using fl s1(1) sorted_cells_sort[OF assms(3)] by (auto simp: bulk_load_def bindP_app Let_def)
qed

lemma sized_small: "sized ps t \<Longrightarrow> keys64 t \<Longrightarrow> ps \<le> PAGE_SIZE \<Longrightarrow> small_cells (cells t)"
proof (induction ps t rule: sized.induct)
  case (1 ps n cs)
  have "cell_size c \<le> cells_size cs" if "c \<in> set cs" for c
    using that by (induction cs) auto
  then show ?case using 1 by (fastforce simp: small_cells_def)
next
  case (2 ps n ks ts)
  then show ?case by (auto simp: small_cells_def)
qed

lemma scanned_items:
  assumes "TreeProps.stored s h t" and "int (bt_npages s) < NO_PAGE"
  shows "\<exists>s'. tree_items bt_store (32 + bt_npages s) (proot t) s = (Inr (cells t), s') \<and> bt_ok {} s'"
proof -
  have "h < 32 + bt_npages s" using stored_height[OF assms(1)] assms(2) by (simp add: NO_PAGE_def)
  moreover have "bt.clean_pages {} s (set (pages t))" "bt_ok {} s" "tree_at (bt_view s) PAGE_SIZE h t None"
    using assms(1) by (simp_all add: TreeProps.stored_def bt.clean_pages_def)
  ultimately show ?thesis using bt.range_scan_ok[of "{}" s PAGE_SIZE h t "32 + bt_npages s" None None] stored_leaves[OF assms(1)]
    by (auto simp: tree_items_def bt.in_range_def bt.same_def)
qed

section \<open>Property\<close>

text \<open>C37. \<open>vacuum\<close> fails on ordinary tables: whenever the first rows come to at most 16 bytes less than a page
  and the next row takes them over the page, \<open>bulk_load\<close> puts that row into the leaf as well and the
  write raises \<open>ValueError\<close>; the table keeps its old root.\<close>

theorem vacuum_overfills_leaf:
  assumes "catalog_get (e_cat e) nm = Inr m" and "TreeProps.stored (e_bt e) h t" and "root_page m = proot t"
    and "int (bt_npages (e_bt e)) < NO_PAGE" and "cells t = a @ c # b" and "a \<noteq> []"
    and "9 + cells_size a \<le> PAGE_SIZE - 16" and "PAGE_SIZE < 9 + cells_size (a @ [c])"
  shows "\<exists>s. vacuum nm e = (Inl ValueError, e\<lparr>e_bt := s\<rparr>)"
proof -
  obtain s1 where s1: "tree_items bt_store (32 + bt_npages (e_bt e)) (proot t) (e_bt e) = (Inr (cells t), s1)" "bt_ok {} s1"
    using scanned_items[OF assms(2,4)] by blast
  have "sized PAGE_SIZE t" "keys64 t" using assms(2) by (simp_all add: TreeProps.stored_def forest_at_def subtree_ok_def)
  then have "small_cells (a @ c # b)" using sized_small assms(5) by fastforce
  from bulk_load_overfills[OF s1(2) this _ assms(6-8)] obtain s2
    where "bulk_load bt_store PAGE_SIZE (cells t) s1 = (Inl ValueError, s2)"
    using stored_sorted[OF assms(2)] assms(5) by (cases "bulk_load bt_store PAGE_SIZE (cells t) s1") auto
  then have "tree_vacuum bt_store PAGE_SIZE (32 + bt_npages (e_bt e)) (root_page m) (e_bt e) = (Inl ValueError, s2)"
    using s1(1) assms(3) by (simp add: tree_vacuum_def bindP_app)
  then show ?thesis using assms(1) by (auto simp: vacuum_def bindP_app get_meta_def on_bt_def)
qed

definition wide_db :: "bstate \<Rightarrow> engine" where
  "wide_db s = \<lparr>e_bt = s, e_log = [], e_pos = 0, e_txn = False,
     e_cat = \<lparr>tables = [(''t'', \<lparr>tname = ''t'', columns = [], root_page = 1, row_count = 3, next_rowid = 6, indexes = []\<rparr>)], free_pages = []\<rparr>,
     e_idx = [], e_snap = None\<rparr>"

text \<open>Three rows of 1400 bytes.\<close>

lemma vacuum_overfills_leaf_witness:
  "\<exists>s s'. TreeProps.stored s 1 (PNode 1 [5] [PLeaf 2 [(3, wide), (4, wide)], PLeaf 3 [(5, wide)]]) \<and>
     vacuum ''t'' (wide_db s) = (Inl ValueError, (wide_db s)\<lparr>e_bt := s'\<rparr>)"
proof -
  let ?t = "PNode 1 [5] [PLeaf 2 [(3, wide), (4, wide)], PLeaf 3 [(5, wide)]]"
  obtain s where s: "bt_ok {} s" "bt_npages s = 4" "bt_view s 1 = Some (Internal [5] [2, 3])"
      "bt_view s 2 = Some (Leaf [(3, wide), (4, wide)] (Some 3))" "bt_view s 3 = Some (Leaf [(5, wide)] None)"
    by (rule three_pages[of "Internal [5] [2, 3]" "Leaf [(3, wide), (4, wide)] (Some 3)" "Leaf [(5, wide)] None"])
      (auto simp: int64_def NO_PAGE_def PAGE_SIZE_def)
  have st: "TreeProps.stored s 1 ?t"
    using s by (auto simp: TreeProps.stored_def forest_at_def subtree_ok_def int64_def inter_def key_mark_def PAGE_SIZE_def)
  let ?m = "\<lparr>tname = ''t'', columns = [], root_page = 1, row_count = 3, next_rowid = 6, indexes = []\<rparr>"
  have l: "lower ''t'' = ''t''" by code_simp
  have "\<exists>s'. vacuum ''t'' (wide_db s) = (Inl ValueError, (wide_db s)\<lparr>e_bt := s'\<rparr>)"
    by (rule vacuum_overfills_leaf[where m = ?m and t = ?t and h = 1 and a = "[(3, wide), (4, wide)]" and c = "(5, wide)" and b = "[]"])
      (use st s(2) l in \<open>simp_all add: wide_db_def catalog_get_def PAGE_SIZE_def NO_PAGE_def\<close>)
  then show ?thesis using st by blast
qed

end
