(* ===== verification/Spec2Isabelle.thy ===== *)
theory Spec2Isabelle
  imports FloatProps Visibility TreeClaims CheckProps NodeCache SelectClaims SelectStored PrintText IndexTxn ShellProps WebProps VacuumProps
begin

text \<open>
  LeafDB (\<open>src/leafdb\<close>) is a small SQL database in Python: rows of typed values in B+ trees, trees
  in pages of 4096 bytes behind a buffer pool, transactions by shadow pages and a write-ahead log,
  and a SELECT engine with a planner, compiled expressions and hash joins. This library models the
  program bottom up and proves what each part promises.

  \<^bold>\<open>Conventions\<close> (\<open>Prelude\<close>). Bytes are \<open>8 word\<close>, files and pages lists of bytes, Python integers
  \<open>int\<close>. An operation that may raise returns \<open>exn + 'a\<close>; one that also changes state is a function
  from the state to that and the new state (\<open>bindP\<close>), the state being the one the exception leaves
  behind. Exceptions keep their class, not their message. A dict is an association list in
  insertion order. Fuel: tree descents carry a bound of 32 levels, far above the height any tree
  of the invariant can have (\<open>TreeProps.stored_height\<close>), leaf chains one step per page;
  \<open>collect_tree_pages\<close> carries 512 steps per page, more than a page has children; the parser one
  step per token and nesting as deep as there are tokens, the JSON reader the length of its text
  (\<open>ParserProps.parsing_terminates\<close>, \<open>CatalogStore.catalog_reload\<close> show that this is enough); the log
  scanners terminate by the length of the log. The turns of the shell's loop are true fuel, since
  the loop need not end.

  \<^bold>\<open>Storage.\<close> \<open>Floats\<close>: IEEE doubles as 64-bit words and the exact order between ints and floats.
  \<open>Rows\<close>: \<open>rows.py\<close>, the row codec with UTF-8, and its round trip. \<open>FloatProps\<close>: against the reals, the
  conversion to a double is correctly rounded, and \<open>coerce_value\<close> changes no value. \<open>Pager\<close>, \<open>PagerProps\<close>,
  \<open>PagerTxn\<close>: \<open>pager.py\<close>, the LRU pool, shadow paging, \<open>begin_txn\<close>, \<open>rollback_txn\<close>,
  \<open>collect_commit\<close>, \<open>flush\<close>; rollback restores every page image, commit returns exactly the
  written pages. \<open>Wal\<close>, \<open>WalProps\<close>, \<open>Recovery\<close>: \<open>wal.py\<close>, frames with CRC-32, appending, the two
  scanners, recovery; torn commits are atomic and recovery can be repeated. \<open>Session\<close>,
  \<open>Visibility\<close>: the storage side of \<open>engine.Database\<close>, \<open>inductive\<close> relations of a session's
  steps, durability across a crash (for a session alone on a clean log, with clean rollbacks), commits
  that cannot fail (for any opened session), what other sessions see, and the defects of the log's tail.

  \<^bold>\<open>Trees.\<close> \<open>Node\<close>: the page format of leaves and internal nodes. \<open>BTree\<close>: the operations of
  \<open>btree.BTree\<close> on pager and node cache. \<open>PageStore\<close>: the locale of what trees need of a page store;
  \<open>TreeShape\<close>, \<open>TreeForest\<close>, \<open>TreeInsert\<close>, \<open>TreeDelete\<close>, \<open>TreeDeleteOk\<close>: the tree invariant
  (order, alignment of separators, leaf chain, bounds on bytes) and its preservation, proved once
  over the locale. \<open>TreeStore\<close> interprets it on the pager with the node cache; \<open>TreeProps\<close> and
  \<open>TreeClaims\<close>: every sequence of operations refines the same operations on a sorted list.
  \<open>Maintain\<close>: \<open>stats\<close>, \<open>check\<close>, \<open>bulk_load\<close>, \<open>vacuum\<close>; \<open>CheckProps\<close>: what \<open>check\<close> decides on a
  well-formed tree and what it does not see; \<open>VacuumProps\<close>: the leaves \<open>bulk_load\<close> overfills.
  \<open>NodeCache\<close>: the node cache that outlives a rollback.

  \<^bold>\<open>Queries.\<close> \<open>Values\<close>, \<open>ValueProps\<close>: the Python operations on SQL values (\<open>_eq\<close>, \<open>_order_cmp\<close>,
  \<open>_kleene\<close>, arithmetic, \<open>str\<close>). \<open>Like\<close>: patterns, and the newline that \<open>$\<close> lets
  through. \<open>Catalog\<close>: \<open>TableMeta\<close> and \<open>Catalog\<close>. \<open>Expr\<close>:
  the AST of \<open>sqlparse.py\<close>, \<open>Scope\<close>, \<open>eval_expr\<close>, \<open>compile_expr\<close>; \<open>ExprProps\<close>: the two evaluators
  agree, the laws of three-valued logic. \<open>Exec\<close>: the executor, from joins to LIMIT. \<open>Planner\<close>:
  \<open>planner.py\<close>. \<open>Ordering\<close>: the locale of stable sorting, interpreted on the sort keys; ORDER BY
  sorts. \<open>JoinProps\<close>, \<open>JoinSpec\<close>: the locale of dict keys, interpreted on Python's equality; hash
  joins are nested loops, outer joins pad what is unmatched. \<open>SelectSpec\<close>, \<open>SelectClaims\<close>: the
  pipeline with its staged filters returns the FROM rows on which WHERE is true, for INNER and LEFT
  joins, and does not for RIGHT and FULL joins. \<open>SelectStored\<close>: the same over stored tables, with
  the planner's choice of scan, down to trees, pages and indexes. \<open>Explain\<close>: the lines of EXPLAIN.

  \<^bold>\<open>Text.\<close> \<open>Lexer\<close>, \<open>Parser\<close>: \<open>sqlparse.py\<close>, from code points to statements. \<open>ParserProps\<close>: what each
  parser consumes, and that parsing ends. \<open>Printer\<close>, \<open>PrintStmt\<close>, \<open>PrintText\<close>: a printer with the
  parentheses the grammar needs, and the proof that every statement is parsed back from its text.
  \<open>Json\<close>, \<open>CatalogStore\<close>: the JSON of the catalog, saved on page 0 and loaded again.

  \<^bold>\<open>Statements.\<close> \<open>Engine\<close>: \<open>engine.Database\<close> over pager, node cache, log, catalog and secondary
  indexes: scans, index lookups, transactions with their snapshot, CREATE and DROP. \<open>Dml\<close>: INSERT,
  UPDATE, DELETE, bulk insert. \<open>Database\<close>: the fast path by primary key, dispatch, implicit
  transactions. \<open>Service\<close>: the statement cache, scripts, \<open>refresh_from_wal\<close>, vacuum, checkpoint,
  close. \<open>TableProps\<close> says when a table's tree, catalog entry and indexes represent a list of rows, of
  any size; \<open>Statements\<close>, \<open>Updates\<close>, \<open>DmlClaims\<close> show that the row statements do to these rows what they
  say: INSERT with its \<open>ValueError\<close> when a split leaves a half that does not fit (a row beyond 141 bytes),
  UPDATE with its \<open>ValueError\<close> when a row grows, DELETE from tables whose rows take at most 1408 bytes,
  beyond which rebalancing can die (\<open>TreeClaims.single_row_borrow_fails\<close>). \<open>Preserve\<close>: the locale of an invariant that every store operation keeps,
  interpreted on the pager inside a transaction; with it \<open>Undo\<close> shows that ROLLBACK and a failing
  statement restore pages, tables and indexes, for all statements but CREATE INDEX and DROP INDEX, and
  \<open>IndexTxn\<close> how CREATE INDEX escapes that.
  \<open>ServiceProps\<close>: the statement cache is transparent.

  \<^bold>\<open>Front ends.\<close> \<open>Table\<close>, \<open>Shell\<close>: \<open>repl.py\<close>, tables of results, meta commands, the line loop;
  \<open>ShellProps\<close>: what it runs and when it ends. \<open>Web\<close>: \<open>btree_layout\<close> and the handlers of \<open>web.py\<close>;
  \<open>WebProps\<close>: the levels it draws are the tree.

  \<^bold>\<open>Parameters.\<close> The case folding of Unicode in LIKE (\<open>low\<close>) and of \<open>str.lower\<close> in the shell (\<open>lc\<close>),
  the printable characters of \<open>repr\<close> (\<open>prn\<close>), the blocks of decimal digits beyond ASCII (\<open>zs\<close>), the
  database operations an executor calls (\<open>db_ops\<close>), the planner's \<open>lookup_meta\<close>; what a session
  finds outside, the shared log and the other sessions (\<open>world\<close>), and what the shell reads.

  \<^bold>\<open>Not modelled.\<close> fsync, locks and threads, file handles, elapsed times; the text of
  messages; Python's limit on the depth of recursion; HTTP and static files; the
  benchmarks, the comparison with sqlite3, the demo and the example, which only call what is
  modelled; the class \<open>FreeList\<close>, which nothing uses; the C++ core, a program of its own. A SELECT
  leaves the model's state as it was: reads move pages within pool and cache and change none.
  Python's \<open>is\<close>-shortcut in dict lookups matters only for NaN and is left out.
\<close>

end
